(* ===== verification/Mach_Prelude.thy ===== *)
theory Mach_Prelude
  imports Main "HOL-Library.Word" "HOL-Library.Tree"
begin

section \<open>Prelude: names, return codes and generic lemmas\<close>

text \<open>
  Shared by every component: the machine types of the kernel (all \<open>unsigned int\<close>,
  32 bits on the mac2), the collections of facts the component proofs use, and generic
  lemmas on lists, options and words.
\<close>

unbundle bit_operations_syntax

named_theorems bits_simps \<open>unfolding of the bit-field macros\<close>
named_theorems inv_defs \<open>definitions of the component invariants\<close>

type_synonym u32 = "32 word"

text \<open>The kernel's pointers: addresses, with 0 for the null pointer.\<close>

type_synonym addr = "32 word"

subsection \<open>Lists\<close>

declare map_of_append [simp del]

lemma sorted_wrt_append_iff:
  "sorted_wrt R (xs @ ys) \<longleftrightarrow>
     sorted_wrt R xs \<and> sorted_wrt R ys \<and> (\<forall>x\<in>set xs. \<forall>y\<in>set ys. R x y)"
  by (rule sorted_wrt_append)

lemma map_of_append_left:
  "k \<in> fst ` set xs \<Longrightarrow> map_of (xs @ ys) k = map_of xs k"
  by (induction xs) auto

lemma map_of_append_right:
  "k \<notin> fst ` set xs \<Longrightarrow> map_of (xs @ ys) k = map_of ys k"
  by (induction xs) auto

lemma nth_list_update_if:
  "i < length xs \<Longrightarrow> xs[i := v] ! j = (if j = i then v else xs ! j)"
  by simp

subsection \<open>Sorted association lists\<close>

definition strict_keys :: "('k::linorder \<times> 'v) list \<Rightarrow> bool" where
  "strict_keys xs \<longleftrightarrow> sorted_wrt (<) (map fst xs)"

lemma strict_keys_Nil [simp]: "strict_keys []"
  by (simp add: strict_keys_def)

lemma strict_keys_Cons [simp]:
  "strict_keys (x # xs) \<longleftrightarrow> (\<forall>y\<in>set xs. fst x < fst y) \<and> strict_keys xs"
  by (auto simp: strict_keys_def)

lemma strict_keys_append [simp]:
  "strict_keys (xs @ ys) \<longleftrightarrow>
     strict_keys xs \<and> strict_keys ys \<and> (\<forall>x\<in>set xs. \<forall>y\<in>set ys. fst x < fst y)"
  by (auto simp: strict_keys_def sorted_wrt_append)

lemma strict_keys_distinct: "strict_keys xs \<Longrightarrow> distinct (map fst xs)"
  by (induction xs) auto

lemma strict_keys_filter: "strict_keys xs \<Longrightarrow> strict_keys (filter P xs)"
  by (induction xs) auto

lemma strict_keys_middle:
  assumes "strict_keys (xs @ [y] @ zs)"
  shows "fst y \<notin> fst ` set xs" and "fst y \<notin> fst ` set zs"
  using assms by fastforce+

lemma map_of_None_less: "\<forall>x\<in>set xs. fst x < (n :: 'k :: linorder) \<Longrightarrow> map_of xs n = None"
  by (induction xs) auto

lemma map_of_None_greater: "\<forall>x\<in>set xs. (n :: 'k :: linorder) < fst x \<Longrightarrow> map_of xs n = None"
  by (induction xs) auto

lemma map_of_middle:
  assumes "strict_keys (xs @ [(k, v)] @ ys)"
  shows "map_of (xs @ [(k, v)] @ ys) n =
    (if n = k then Some v else if n < k then map_of xs n else map_of ys n)"
proof -
  from assms have x: "\<forall>x\<in>set xs. fst x < k" and y: "\<forall>y\<in>set ys. k < fst y" by auto
  consider "n = k" | "n < k" | "k < n" by fastforce
  then show ?thesis
  proof cases
    case 1
    with x have "map_of xs n = None" by (auto intro: map_of_None_less)
    with 1 show ?thesis by (simp add: map_of_append map_add_def)
  next
    case 2
    with y have "map_of ys n = None" by (intro map_of_None_greater) (auto intro: less_trans)
    with 2 show ?thesis by (auto simp: map_of_append map_add_def split: option.splits)
  next
    case 3
    with x have "map_of xs n = None" by (intro map_of_None_less) (auto intro: less_trans)
    with 3 show ?thesis by (auto simp: map_of_append map_add_def split: option.splits)
  qed
qed

lemma filter_all: "\<forall>x\<in>set xs. P x \<Longrightarrow> filter P xs = xs"
  by simp

lemma filter_none: "\<forall>x\<in>set xs. \<not> P x \<Longrightarrow> filter P xs = []"
  by simp

text \<open>Cutting a list at a key, with and without the key itself.\<close>

definition cut_at :: "'k::linorder \<Rightarrow> ('k \<times> 'v) list \<Rightarrow> ('k \<times> 'v) list \<Rightarrow> bool" where
  "cut_at n xs ys \<longleftrightarrow> (\<forall>x\<in>set xs. fst x < n) \<and> (\<forall>y\<in>set ys. n < fst y) \<and>
     strict_keys xs \<and> strict_keys ys"

lemma filter_cut:
  assumes "cut_at n xs ys"
  shows "filter (\<lambda>x. fst x < n) xs = xs" "filter (\<lambda>x. fst x < n) ys = []"
    "filter (\<lambda>x. n < fst x) xs = []" "filter (\<lambda>x. n < fst x) ys = ys"
    "filter (\<lambda>x. n \<le> fst x) xs = []" "filter (\<lambda>x. n \<le> fst x) ys = ys"
    "filter (\<lambda>x. fst x \<noteq> n) xs = xs" "filter (\<lambda>x. fst x \<noteq> n) ys = ys"
  using assms unfolding cut_at_def
  by (auto intro!: filter_all filter_none simp: not_less not_le less_imp_le)

lemma filter_cut_mid:
  assumes "cut_at n xs ys"
  shows "filter (\<lambda>x. fst x < n) (xs @ (n, v) # ys) = xs"
    "filter (\<lambda>x. n \<le> fst x) (xs @ (n, v) # ys) = (n, v) # ys"
    "filter (\<lambda>x. fst x \<le> n) (xs @ (n, v) # ys) = xs @ [(n, v)]"
    "filter (\<lambda>x. fst x \<noteq> n) (xs @ (n, v) # ys) = xs @ ys"
proof -
  have "filter (\<lambda>x. fst x \<le> n) xs = xs" "filter (\<lambda>x. fst x \<le> n) ys = []"
    using assms unfolding cut_at_def
    by (auto intro!: filter_all filter_none simp: not_le less_imp_le)
  then show "filter (\<lambda>x. fst x < n) (xs @ (n, v) # ys) = xs"
    "filter (\<lambda>x. n \<le> fst x) (xs @ (n, v) # ys) = (n, v) # ys"
    "filter (\<lambda>x. fst x \<le> n) (xs @ (n, v) # ys) = xs @ [(n, v)]"
    "filter (\<lambda>x. fst x \<noteq> n) (xs @ (n, v) # ys) = xs @ ys"
    by (simp_all add: filter_cut [OF assms])
qed

lemma filter_cut_app:
  assumes "cut_at n xs ys"
  shows "filter (\<lambda>x. fst x < n) (xs @ ys) = xs" "filter (\<lambda>x. n \<le> fst x) (xs @ ys) = ys"
    "filter (\<lambda>x. fst x \<le> n) (xs @ ys) = xs" "filter (\<lambda>x. n < fst x) (xs @ ys) = ys"
proof -
  have "filter (\<lambda>x. fst x \<le> n) xs = xs" "filter (\<lambda>x. fst x \<le> n) ys = []"
    using assms unfolding cut_at_def
    by (auto intro!: filter_all filter_none simp: not_le less_imp_le)
  then show "filter (\<lambda>x. fst x < n) (xs @ ys) = xs" "filter (\<lambda>x. n \<le> fst x) (xs @ ys) = ys"
    "filter (\<lambda>x. fst x \<le> n) (xs @ ys) = xs" "filter (\<lambda>x. n < fst x) (xs @ ys) = ys"
    by (simp_all add: filter_cut [OF assms])
qed

lemma map_of_cut:
  assumes "cut_at n xs ys"
  shows "map_of (xs @ ys) n = None" "map_of (xs @ (n, v) # ys) n = Some v"
  using assms unfolding cut_at_def
  by (auto simp: map_of_append map_add_def map_of_None_less map_of_None_greater)

lemma strict_keys_cut:
  assumes "cut_at n xs ys"
  shows "strict_keys (xs @ ys)" "strict_keys (xs @ (n, v) # ys)"
  using assms unfolding cut_at_def by (fastforce intro: less_trans)+

end
