(* ===== verification/Ipc_Names.thy ===== *)
theory Ipc_Names
  imports Mach_Prelude
begin

section \<open>Port names, entry bits and user-reference arithmetic\<close>

text \<open>
  The bit-field macros of \<open>ipc/port.h\<close>, \<open>mach/port.h\<close> and \<open>ipc/ipc_entry.h\<close>.  A port
  name has an index in its upper 24 bits and a generation number in its lower 8 bits; the
  bits word of an entry has the generation in its upper 8 bits, then the collision, compat
  and msg-accepted flags, the five type bits and sixteen bits of user references.
\<close>

type_synonym mach_port_t = u32
type_synonym ipc_entry_bits_t = u32

subsection \<open>Names (mach/port.h, ipc/port.h)\<close>

definition MACH_PORT_NULL :: mach_port_t where "MACH_PORT_NULL = 0"
definition MACH_PORT_DEAD :: mach_port_t where "MACH_PORT_DEAD = NOT 0"

definition MACH_PORT_VALID :: "mach_port_t \<Rightarrow> bool" where
  "MACH_PORT_VALID name \<longleftrightarrow> name \<noteq> MACH_PORT_NULL \<and> name \<noteq> MACH_PORT_DEAD"

definition MACH_PORT_INDEX :: "mach_port_t \<Rightarrow> u32" where
  "MACH_PORT_INDEX name = drop_bit 8 name"

definition MACH_PORT_GEN :: "mach_port_t \<Rightarrow> u32" where
  "MACH_PORT_GEN name = push_bit 24 name"

definition MACH_PORT_MAKE :: "u32 \<Rightarrow> u32 \<Rightarrow> mach_port_t" where
  "MACH_PORT_MAKE index gen = push_bit 8 index OR drop_bit 24 gen"

subsection \<open>Entry bits (ipc/ipc_entry.h)\<close>

definition IE_BITS_UREFS_MASK :: u32 where "IE_BITS_UREFS_MASK = 0x0000ffff"
definition IE_BITS_TYPE_MASK :: u32 where "IE_BITS_TYPE_MASK = 0x001f0000"
definition IE_BITS_MAREQUEST :: u32 where "IE_BITS_MAREQUEST = 0x00200000"
definition IE_BITS_COMPAT :: u32 where "IE_BITS_COMPAT = 0x00400000"
definition IE_BITS_COLLISION :: u32 where "IE_BITS_COLLISION = 0x00800000"
definition IE_BITS_GEN_MASK :: u32 where "IE_BITS_GEN_MASK = 0xff000000"
definition IE_BITS_GEN_ONE :: u32 where "IE_BITS_GEN_ONE = 0x01000000"
definition IE_BITS_RIGHT_MASK :: u32 where "IE_BITS_RIGHT_MASK = 0x007fffff"

definition IE_BITS_UREFS :: "ipc_entry_bits_t \<Rightarrow> u32" where
  "IE_BITS_UREFS bits = bits AND IE_BITS_UREFS_MASK"

definition IE_BITS_TYPE :: "ipc_entry_bits_t \<Rightarrow> u32" where
  "IE_BITS_TYPE bits = bits AND IE_BITS_TYPE_MASK"

definition IE_BITS_GEN :: "ipc_entry_bits_t \<Rightarrow> u32" where
  "IE_BITS_GEN bits = bits AND IE_BITS_GEN_MASK"

definition MACH_PORT_MAKEB :: "u32 \<Rightarrow> ipc_entry_bits_t \<Rightarrow> mach_port_t" where
  "MACH_PORT_MAKEB index bits = MACH_PORT_MAKE index (IE_BITS_GEN bits)"

definition MACH_PORT_NGEN :: "mach_port_t \<Rightarrow> mach_port_t" where
  "MACH_PORT_NGEN name = MACH_PORT_MAKE 0 (MACH_PORT_GEN name)"

subsection \<open>Rights and capability types (mach/port.h)\<close>

definition MACH_PORT_TYPE :: "nat \<Rightarrow> u32" where
  "MACH_PORT_TYPE rt = push_bit (rt + 16) 1"

definition MACH_PORT_TYPE_NONE :: u32 where "MACH_PORT_TYPE_NONE = 0"
definition MACH_PORT_TYPE_SEND :: u32 where "MACH_PORT_TYPE_SEND = MACH_PORT_TYPE 0"
definition MACH_PORT_TYPE_RECEIVE :: u32 where "MACH_PORT_TYPE_RECEIVE = MACH_PORT_TYPE 1"
definition MACH_PORT_TYPE_SEND_ONCE :: u32 where "MACH_PORT_TYPE_SEND_ONCE = MACH_PORT_TYPE 2"
definition MACH_PORT_TYPE_PORT_SET :: u32 where "MACH_PORT_TYPE_PORT_SET = MACH_PORT_TYPE 3"
definition MACH_PORT_TYPE_DEAD_NAME :: u32 where "MACH_PORT_TYPE_DEAD_NAME = MACH_PORT_TYPE 4"

definition MACH_PORT_TYPE_SEND_RECEIVE :: u32 where
  "MACH_PORT_TYPE_SEND_RECEIVE = MACH_PORT_TYPE_SEND OR MACH_PORT_TYPE_RECEIVE"
definition MACH_PORT_TYPE_SEND_RIGHTS :: u32 where
  "MACH_PORT_TYPE_SEND_RIGHTS = MACH_PORT_TYPE_SEND OR MACH_PORT_TYPE_SEND_ONCE"
definition MACH_PORT_TYPE_PORT_RIGHTS :: u32 where
  "MACH_PORT_TYPE_PORT_RIGHTS = MACH_PORT_TYPE_SEND_RIGHTS OR MACH_PORT_TYPE_RECEIVE"
definition MACH_PORT_TYPE_PORT_OR_DEAD :: u32 where
  "MACH_PORT_TYPE_PORT_OR_DEAD = MACH_PORT_TYPE_PORT_RIGHTS OR MACH_PORT_TYPE_DEAD_NAME"

lemmas type_defs =
  MACH_PORT_TYPE_NONE_def MACH_PORT_TYPE_SEND_def MACH_PORT_TYPE_RECEIVE_def
  MACH_PORT_TYPE_SEND_ONCE_def MACH_PORT_TYPE_PORT_SET_def MACH_PORT_TYPE_DEAD_NAME_def
  MACH_PORT_TYPE_SEND_RECEIVE_def MACH_PORT_TYPE_SEND_RIGHTS_def
  MACH_PORT_TYPE_PORT_RIGHTS_def MACH_PORT_TYPE_PORT_OR_DEAD_def MACH_PORT_TYPE_def

lemmas mask_defs =
  IE_BITS_UREFS_MASK_def IE_BITS_TYPE_MASK_def IE_BITS_MAREQUEST_def IE_BITS_COMPAT_def
  IE_BITS_COLLISION_def IE_BITS_GEN_MASK_def IE_BITS_GEN_ONE_def IE_BITS_RIGHT_MASK_def

subsection \<open>User references (ipc/port.h)\<close>

text \<open>
  \<open>delta\<close> is a C \<open>int\<close>, compared signed against 0; in the sums and in the last comparison
  C converts it to \<open>unsigned\<close>.
\<close>

definition MACH_PORT_UREFS_MAX :: u32 where "MACH_PORT_UREFS_MAX = push_bit 16 1 - 1"

definition MACH_PORT_UREFS_OVERFLOW :: "u32 \<Rightarrow> u32 \<Rightarrow> bool" where
  "MACH_PORT_UREFS_OVERFLOW urefs delta \<longleftrightarrow>
     sint delta > 0 \<and> (urefs + delta \<le> urefs \<or> urefs + delta > MACH_PORT_UREFS_MAX)"

definition MACH_PORT_UREFS_UNDERFLOW :: "u32 \<Rightarrow> u32 \<Rightarrow> bool" where
  "MACH_PORT_UREFS_UNDERFLOW urefs delta \<longleftrightarrow> sint delta < 0 \<and> - delta > urefs"

subsection \<open>The masks, bit by bit\<close>

lemma bit_GEN_MASK [bits_simps]: "bit IE_BITS_GEN_MASK n \<longleftrightarrow> 24 \<le> n \<and> n < 32"
proof -
  have e: "IE_BITS_GEN_MASK = push_bit 24 (mask 8)"
    by (simp add: IE_BITS_GEN_MASK_def mask_eq_exp_minus_1 push_bit_eq_mult)
  show ?thesis
    unfolding e bit_push_bit_iff bit_mask_iff bit_1_iff by auto
qed

lemma bit_TYPE_MASK [bits_simps]: "bit IE_BITS_TYPE_MASK n \<longleftrightarrow> 16 \<le> n \<and> n < 21"
proof -
  have e: "IE_BITS_TYPE_MASK = push_bit 16 (mask 5)"
    by (simp add: IE_BITS_TYPE_MASK_def mask_eq_exp_minus_1 push_bit_eq_mult)
  show ?thesis
    unfolding e bit_push_bit_iff bit_mask_iff bit_1_iff by auto
qed

lemma bit_UREFS_MASK [bits_simps]: "bit IE_BITS_UREFS_MASK n \<longleftrightarrow> n < 16"
proof -
  have e: "IE_BITS_UREFS_MASK = mask 16"
    by (simp add: IE_BITS_UREFS_MASK_def mask_eq_exp_minus_1)
  show ?thesis
    unfolding e bit_push_bit_iff bit_mask_iff bit_1_iff by auto
qed

lemma bit_RIGHT_MASK [bits_simps]: "bit IE_BITS_RIGHT_MASK n \<longleftrightarrow> n < 23"
proof -
  have e: "IE_BITS_RIGHT_MASK = mask 23"
    by (simp add: IE_BITS_RIGHT_MASK_def mask_eq_exp_minus_1)
  show ?thesis
    unfolding e bit_push_bit_iff bit_mask_iff bit_1_iff by auto
qed

lemma bit_COLLISION [bits_simps]: "bit IE_BITS_COLLISION n \<longleftrightarrow> n = 23"
proof -
  have e: "IE_BITS_COLLISION = push_bit 23 1"
    by (simp add: IE_BITS_COLLISION_def push_bit_eq_mult)
  show ?thesis
    unfolding e bit_push_bit_iff bit_mask_iff bit_1_iff by auto
qed

lemma bit_COMPAT [bits_simps]: "bit IE_BITS_COMPAT n \<longleftrightarrow> n = 22"
proof -
  have e: "IE_BITS_COMPAT = push_bit 22 1"
    by (simp add: IE_BITS_COMPAT_def push_bit_eq_mult)
  show ?thesis
    unfolding e bit_push_bit_iff bit_mask_iff bit_1_iff by auto
qed

lemma bit_MAREQUEST [bits_simps]: "bit IE_BITS_MAREQUEST n \<longleftrightarrow> n = 21"
proof -
  have e: "IE_BITS_MAREQUEST = push_bit 21 1"
    by (simp add: IE_BITS_MAREQUEST_def push_bit_eq_mult)
  show ?thesis
    unfolding e bit_push_bit_iff bit_mask_iff bit_1_iff by auto
qed

lemma bit_TYPE [bits_simps]: "bit (MACH_PORT_TYPE r) n \<longleftrightarrow> n = r + 16 \<and> n < 32"
  by (auto simp: MACH_PORT_TYPE_def bit_simps)

subsection \<open>Laws of names\<close>

lemma MACH_PORT_MAKE_INDEX_GEN [simp]:
  "MACH_PORT_MAKE (MACH_PORT_INDEX n) (MACH_PORT_GEN n) = n"
  unfolding MACH_PORT_MAKE_def MACH_PORT_INDEX_def MACH_PORT_GEN_def
  by (rule bit_word_eqI) (auto simp: bit_simps)

lemma MACH_PORT_INDEX_MAKE:
  assumes "unat i < 2 ^ 24"
  shows "MACH_PORT_INDEX (MACH_PORT_MAKE i g) = i"
proof -
  have "\<not> bit i n" if "24 \<le> n" for n
  proof -
    from that have "(2::nat) ^ 24 \<le> 2 ^ n" by (rule power_increasing) simp
    with assms have "\<not> bit (unat i) n" by (simp add: bit_iff_odd)
    then show ?thesis by (simp add: bit_unsigned_iff)
  qed
  then show ?thesis
    unfolding MACH_PORT_MAKE_def MACH_PORT_INDEX_def
    by (intro bit_word_eqI) (fastforce simp: bit_simps not_le)
qed

lemma MACH_PORT_GEN_MAKE [simp]:
  "MACH_PORT_GEN (MACH_PORT_MAKE i g) = IE_BITS_GEN g"
  unfolding MACH_PORT_MAKE_def MACH_PORT_GEN_def IE_BITS_GEN_def
  by (rule bit_word_eqI) (auto simp: bit_simps bits_simps)

lemma IE_BITS_GEN_GEN [simp]: "IE_BITS_GEN (MACH_PORT_GEN n) = MACH_PORT_GEN n"
  unfolding MACH_PORT_GEN_def IE_BITS_GEN_def
  by (rule bit_word_eqI) (auto simp: bit_simps bits_simps)

lemma MACH_PORT_INDEX_bound: "unat (MACH_PORT_INDEX n) < 2 ^ 24"
  using unsigned_less [of n, where ?'a = nat]
  by (simp add: MACH_PORT_INDEX_def unat_drop_bit_eq drop_bit_nat_def)

lemma MACH_PORT_INDEX_mono: "a \<le> b \<Longrightarrow> MACH_PORT_INDEX a \<le> MACH_PORT_INDEX b"
  unfolding MACH_PORT_INDEX_def
  by (simp add: word_le_nat_alt unat_drop_bit_eq drop_bit_nat_def div_le_mono)

lemma name_eq_iff:
  "a = b \<longleftrightarrow> MACH_PORT_INDEX a = MACH_PORT_INDEX b \<and> MACH_PORT_GEN a = MACH_PORT_GEN b"
  by (metis MACH_PORT_MAKE_INDEX_GEN)

lemma MACH_PORT_INDEX_less_iff:
  "MACH_PORT_INDEX a < MACH_PORT_INDEX b \<Longrightarrow> a < b"
  using MACH_PORT_INDEX_mono [of b a] by (auto simp: not_le [symmetric])

text \<open>
  Names are ordered by index and then by generation: the cut points the splay tree is split
  at separate the indices.
\<close>

lemma name_less_MAKE_iff:
  assumes "unat i < 2 ^ 24"
  shows "n < MACH_PORT_MAKE i 0 \<longleftrightarrow> MACH_PORT_INDEX n < i"
proof -
  have m: "unat (MACH_PORT_MAKE i 0) = unat i * 256"
  proof -
    have "unat i * 256 < 2 ^ 32" using assms by simp
    then show ?thesis
      by (simp add: MACH_PORT_MAKE_def push_bit_eq_mult unat_word_ariths mult.commute)
  qed
  have "unat n < unat i * 256 \<longleftrightarrow> unat n div 256 < unat i"
    by (simp add: div_less_iff_less_mult)
  then show ?thesis
    by (simp add: word_less_nat_alt m MACH_PORT_INDEX_def unat_drop_bit_eq drop_bit_nat_def)
qed

subsection \<open>Laws of the user-reference tests\<close>

lemma uint_u32_bounds: "0 \<le> uint (w :: u32)" "uint w < 4294967296"
  using uint_bounded [of w] by auto

lemma sint_u32:
  "sint (w :: u32) = (if uint w < 2147483648 then uint w else uint w - 4294967296)"
proof -
  note u = uint_u32_bounds [of w]
  have d: "uint w div 2 ^ 31 = (if uint w < 2147483648 then 0 else 1)"
    using u by auto
  have b: "bit (uint w) 31 \<longleftrightarrow> \<not> uint w < 2147483648"
    unfolding bit_iff_odd d by simp
  have t: "take_bit 32 (uint w) = uint w"
    using u by (intro take_bit_int_eq_self) auto
  have "sint w = uint w - 2 ^ 32 * of_bool (bit (uint w) 31)"
    unfolding sint_uint signed_take_bit_eq_take_bit_minus using t by simp
  then show ?thesis unfolding b by simp
qed

lemma MACH_PORT_UREFS_OVERFLOW_iff:
  assumes "uint urefs \<le> 65535" and "0 < sint delta"
  shows "MACH_PORT_UREFS_OVERFLOW urefs delta \<longleftrightarrow> 65535 < uint urefs + uint delta"
proof -
  from assms(2) have d: "uint delta < 2147483648" "0 < uint delta"
    using uint_u32_bounds [of delta] by (auto simp: sint_u32 split: if_splits)
  have s: "uint (urefs + delta) = uint urefs + uint delta"
    using assms(1) d uint_u32_bounds [of urefs] by (simp add: uint_word_ariths)
  have m: "uint MACH_PORT_UREFS_MAX = 65535"
    by (simp add: MACH_PORT_UREFS_MAX_def)
  show ?thesis
    unfolding MACH_PORT_UREFS_OVERFLOW_def word_le_def word_less_def s m
    using assms d by auto
qed

lemma MACH_PORT_UREFS_UNDERFLOW_iff:
  assumes "sint delta < 0"
  shows "MACH_PORT_UREFS_UNDERFLOW urefs delta \<longleftrightarrow> uint urefs + sint delta < 0"
proof -
  from assms have d: "2147483648 \<le> uint delta" "sint delta = uint delta - 4294967296"
    using uint_u32_bounds [of delta] by (auto simp: sint_u32 split: if_splits)
  have s: "uint (- delta) = 4294967296 - uint delta"
    using d uint_u32_bounds [of delta] by (simp add: uint_word_ariths zmod_zminus1_eq_if)
  show ?thesis
    unfolding MACH_PORT_UREFS_UNDERFLOW_def word_less_def s
    using assms d by auto
qed

end
