(* ===== verification/Ipc_Splay.thy ===== *)
theory Ipc_Splay
  imports Ipc_Names
begin

section \<open>The splay tree of large-name entries (ipc/ipc_splay.c)\<close>

text \<open>
  A splay tree kept in unassembled form: the middle tree, and the left and right trees of the
  last top-down splay.  The code keeps a pointer into the left tree (\<open>ist_ltreep\<close>, the
  \<open>ite_rchild\<close> field of its largest node) and into the right tree (\<open>ist_rtreep\<close>, the
  \<open>ite_lchild\<close> field of its smallest node), and does not initialise the fields they
  point to.  A tree with such a hole is modelled by the spine that leads to the hole, innermost
  node first: a list of (left subtree, node) pairs for the left tree and of (node, right
  subtree) pairs for the right one.  The empty list is the pointer back into the splay
  structure itself (\<open>ist_ltreep == &ist_ltree\<close>).  Storing through the pointer is
  \<open>plug_left\<close> / \<open>plug_right\<close>.

  A node is a name with its entry.  \<open>ite_free\<close> of a node is not modelled: the node is
  no longer reachable.
\<close>

type_synonym 'e ite = "mach_port_t \<times> 'e"
type_synonym 'e lspine = "('e ite tree \<times> 'e ite) list"
type_synonym 'e rspine = "('e ite \<times> 'e ite tree) list"
type_synonym 'e split3 = "'e ite tree \<times> 'e lspine \<times> 'e rspine"

record 'e ipc_splay_tree =
  ist_name :: mach_port_t
  ist_root :: "'e ite tree"
  ist_ltree :: "'e lspine"
  ist_rtree :: "'e rspine"

fun plug_left :: "'e lspine \<Rightarrow> 'e ite tree \<Rightarrow> 'e ite tree" where
  "plug_left [] t = t"
| "plug_left ((l, e) # ls) t = plug_left ls (Node l e t)"

fun plug_right :: "'e rspine \<Rightarrow> 'e ite tree \<Rightarrow> 'e ite tree" where
  "plug_right [] t = t"
| "plug_right ((e, r) # rs) t = plug_right rs (Node t e r)"

subsection \<open>The top-down splay\<close>

text \<open>The four macros of \<open>ipc_splay_prim_lookup\<close>; the callers check the child they use.\<close>

fun link_left :: "'e split3 \<Rightarrow> 'e split3" where
  "link_left (Node l e r, ls, rs) = (r, (l, e) # ls, rs)"
| "link_left s = s"

fun link_right :: "'e split3 \<Rightarrow> 'e split3" where
  "link_right (Node l e r, ls, rs) = (l, ls, (e, r) # rs)"
| "link_right s = s"

fun rotate_left :: "'e split3 \<Rightarrow> 'e split3" where
  "rotate_left (Node a e (Node b f c), ls, rs) = (Node (Node a e b) f c, ls, rs)"
| "rotate_left s = s"

fun rotate_right :: "'e split3 \<Rightarrow> 'e split3" where
  "rotate_right (Node (Node a e b) f c, ls, rs) = (Node a e (Node b f c), ls, rs)"
| "rotate_right s = s"

text \<open>
  One round of the loop of \<open>ipc_splay_prim_lookup\<close>: \<open>None\<close> when the loop ends
  (the name is at the root, or the child to descend to is null).
\<close>

fun splay_step :: "mach_port_t \<Rightarrow> 'e split3 \<Rightarrow> 'e split3 option" where
  "splay_step name (Leaf, ls, rs) = None"
| "splay_step name (Node l (tname, e) r, ls, rs) =
     (if name = tname then None
      else if name < tname then
        (case l of
           Leaf \<Rightarrow> None
         | Node ll (lname, _) lr \<Rightarrow>
             let s0 = (Node l (tname, e) r, ls, rs);
                 s1 = (if name < lname \<and> ll \<noteq> Leaf then rotate_right s0 else s0);
                 s2 = link_right s1
             in Some (if lname < name \<and> lr \<noteq> Leaf then link_left s2 else s2))
      else
        (case r of
           Leaf \<Rightarrow> None
         | Node rl (rname, _) rr \<Rightarrow>
             let s0 = (Node l (tname, e) r, ls, rs);
                 s1 = (if rname < name \<and> rr \<noteq> Leaf then rotate_left s0 else s0);
                 s2 = link_left s1
             in Some (if name < rname \<and> rl \<noteq> Leaf then link_right s2 else s2)))"

text \<open>The six ways a round can go: zig-zig, zig-zag and zig, on either side.\<close>

lemma splay_step_left:
  "name < tname \<Longrightarrow> splay_step name (Node (Node a (k, f) b) (tname, e) r, ls, rs) = Some
     (if name < k \<and> a \<noteq> Leaf then (a, ls, ((k, f), Node b (tname, e) r) # rs)
      else if k < name \<and> b \<noteq> Leaf then (b, (a, (k, f)) # ls, ((tname, e), r) # rs)
      else (Node a (k, f) b, ls, ((tname, e), r) # rs))"
  by (auto simp: Let_def)

lemma splay_step_right:
  "tname < name \<Longrightarrow> splay_step name (Node l (tname, e) (Node a (k, f) b), ls, rs) = Some
     (if k < name \<and> b \<noteq> Leaf then (b, (Node l (tname, e) a, (k, f)) # ls, rs)
      else if name < k \<and> a \<noteq> Leaf then (a, (l, (tname, e)) # ls, ((k, f), b) # rs)
      else (Node a (k, f) b, (l, (tname, e)) # ls, rs))"
  by (auto simp: Let_def)

lemma splay_step_SomeE:
  assumes "splay_step name s = Some s'"
  obtains (left) a k f b tname e r ls rs where "name < tname"
      "s = (Node (Node a (k, f) b) (tname, e) r, ls, rs)"
      "s' = (if name < k \<and> a \<noteq> Leaf then (a, ls, ((k, f), Node b (tname, e) r) # rs)
      else if k < name \<and> b \<noteq> Leaf then (b, (a, (k, f)) # ls, ((tname, e), r) # rs)
      else (Node a (k, f) b, ls, ((tname, e), r) # rs))"
  | (right) l tname e a k f b ls rs where "tname < name"
      "s = (Node l (tname, e) (Node a (k, f) b), ls, rs)"
      "s' = (if k < name \<and> b \<noteq> Leaf then (b, (Node l (tname, e) a, (k, f)) # ls, rs)
      else if name < k \<and> a \<noteq> Leaf then (a, (l, (tname, e)) # ls, ((k, f), b) # rs)
      else (Node a (k, f) b, (l, (tname, e)) # ls, rs))"
proof -
  obtain l tname e r ls rs where s: "s = (Node l (tname, e) r, ls, rs)"
    using assms by (cases "(name, s)" rule: splay_step.cases) auto
  consider "name < tname" | "tname < name" | "name = tname" by fastforce
  then show thesis
  proof cases
    case 1
    with assms s obtain a k f b where l: "l = Node a (k, f) b"
      by (cases l) (auto split: if_splits)
    show thesis
      by (rule left [OF 1 s [unfolded l]])
         (use assms in \<open>simp only: s l splay_step_left [OF 1] option.inject\<close>)
  next
    case 2
    with assms s obtain a k f b where r: "r = Node a (k, f) b"
      by (cases r) (auto split: if_splits)
    show thesis
      by (rule right [OF 2 s [unfolded r]])
         (use assms in \<open>simp only: s r splay_step_right [OF 2] option.inject\<close>)
  next
    case 3
    with assms s show thesis by simp
  qed
qed

declare splay_step.simps(2) [simp del]

lemma splay_step_size:
  "splay_step name s = Some s' \<Longrightarrow> size (fst s') < size (fst s)"
  by (erule splay_step_SomeE) auto

function prim_lookup_loop :: "mach_port_t \<Rightarrow> 'e split3 \<Rightarrow> 'e split3" where
  "prim_lookup_loop name s =
     (case splay_step name s of None \<Rightarrow> s | Some s' \<Rightarrow> prim_lookup_loop name s')"
  by pat_completeness auto
termination
  by (relation "measure (\<lambda>(name, s). size (fst s))") (auto dest: splay_step_size)

declare prim_lookup_loop.simps [simp del]

definition ipc_splay_prim_lookup :: "mach_port_t \<Rightarrow> 'e ite tree \<Rightarrow> 'e split3" where
  "ipc_splay_prim_lookup name tree = prim_lookup_loop name (tree, [], [])"

fun ipc_splay_prim_assemble :: "'e split3 \<Rightarrow> 'e ite tree" where
  "ipc_splay_prim_assemble (Node l e r, ls, rs) = Node (plug_left ls l) e (plug_right rs r)"
| "ipc_splay_prim_assemble (Leaf, ls, rs) = Leaf"

subsection \<open>The exported operations\<close>

text \<open>
  Most operations begin with the same step: unless the last lookup was for this name, put the
  tree together and splay again.
\<close>

definition splay_to :: "mach_port_t \<Rightarrow> 'e ipc_splay_tree \<Rightarrow> 'e split3" where
  "splay_to name splay =
     (if ist_name splay \<noteq> name
      then ipc_splay_prim_lookup name
             (ipc_splay_prim_assemble (ist_root splay, ist_ltree splay, ist_rtree splay))
      else (ist_root splay, ist_ltree splay, ist_rtree splay))"

definition ipc_splay_tree_init :: "'e ipc_splay_tree \<Rightarrow> 'e ipc_splay_tree" where
  "ipc_splay_tree_init splay = splay\<lparr>ist_root := Leaf\<rparr>"

definition raw_splay_tree :: "'e ipc_splay_tree" where
  "raw_splay_tree = \<lparr>ist_name = 0, ist_root = Leaf, ist_ltree = [], ist_rtree = []\<rparr>"

text \<open>A tree whose middle tree is the whole tree, both pointers pointing into the structure.\<close>

definition set_root :: "'e ite tree \<Rightarrow> 'e ipc_splay_tree \<Rightarrow> 'e ipc_splay_tree" where
  "set_root root splay =
     (case root of
        Leaf \<Rightarrow> splay\<lparr>ist_root := Leaf\<rparr>
      | Node _ (n, _) _ \<Rightarrow>
          splay\<lparr>ist_root := root, ist_name := n, ist_ltree := [], ist_rtree := []\<rparr>)"

fun ipc_splay_tree_pick :: "'e ipc_splay_tree \<Rightarrow> 'e ite option" where
  "ipc_splay_tree_pick splay =
     (case ist_root splay of Leaf \<Rightarrow> None | Node _ ne _ \<Rightarrow> Some ne)"

definition ipc_splay_tree_lookup ::
  "mach_port_t \<Rightarrow> 'e ipc_splay_tree \<Rightarrow> 'e option \<times> 'e ipc_splay_tree" where
  "ipc_splay_tree_lookup name splay =
     (if ist_root splay = Leaf then (None, splay)
      else
        let (root, ls, rs) = splay_to name splay;
            splay' = (if ist_name splay \<noteq> name
                      then splay\<lparr>ist_name := name, ist_root := root, ist_ltree := ls, ist_rtree := rs\<rparr>
                      else splay)
        in (case root of
              Leaf \<Rightarrow> (None, splay')
            | Node _ (rname, e) _ \<Rightarrow> (if name \<noteq> rname then None else Some e, splay')))"

definition ipc_splay_tree_insert ::
  "mach_port_t \<Rightarrow> 'e \<Rightarrow> 'e ipc_splay_tree \<Rightarrow> 'e ipc_splay_tree" where
  "ipc_splay_tree_insert name entry splay =
     (let (lchild, rchild) =
        (if ist_root splay = Leaf then (Leaf, Leaf)
         else case splay_to name splay of
             (Node l (rname, e) r, ls, rs) \<Rightarrow>
               (if name < rname
                then (plug_left ls Leaf, plug_right rs (Node l (rname, e) r))
                else (plug_left ls (Node l (rname, e) r), plug_right rs Leaf))
           | (Leaf, ls, rs) \<Rightarrow> (Leaf, Leaf))
      in splay\<lparr>ist_root := Node lchild (name, entry) rchild, ist_name := name,
               ist_ltree := [], ist_rtree := []\<rparr>)"

fun set_rchild :: "'e ite tree \<Rightarrow> 'e ite tree \<Rightarrow> 'e ite tree" where
  "set_rchild (Node l e _) r = Node l e r"
| "set_rchild Leaf r = Leaf"

text \<open>
  The tail of \<open>ipc_splay_tree_delete\<close>: join what is left of the deleted node with what is
  right of it, splaying the largest node of the left tree to the root.
\<close>

definition splay_cat :: "'e ite tree \<Rightarrow> 'e ite tree \<Rightarrow> 'e ite tree" where
  "splay_cat root saved =
     (if root = Leaf then saved
      else if saved \<noteq> Leaf
      then set_rchild (ipc_splay_prim_assemble (ipc_splay_prim_lookup (NOT 0) root)) saved
      else root)"

definition ipc_splay_tree_delete ::
  "mach_port_t \<Rightarrow> 'e ipc_splay_tree \<Rightarrow> 'e ipc_splay_tree" where
  "ipc_splay_tree_delete name splay =
     (case splay_to name splay of
        (Node l _ r, ls, rs) \<Rightarrow> set_root (splay_cat (plug_left ls l) (plug_right rs r)) splay
      | (Leaf, _, _) \<Rightarrow> splay)"

definition ipc_splay_tree_split ::
  "mach_port_t \<Rightarrow> 'e ipc_splay_tree \<Rightarrow> 'e ipc_splay_tree \<times> 'e ipc_splay_tree" where
  "ipc_splay_tree_split name splay =
     (let small = ipc_splay_tree_init raw_splay_tree in
      if ist_root splay = Leaf then (splay, small)
      else case splay_to name splay of
          (Node l (rname, e) r, ls, rs) \<Rightarrow>
            (if rname < name
             then (set_root (plug_right rs Leaf) splay,
                   set_root (Node (plug_left ls l) (rname, e) r) small)
             else (splay\<lparr>ist_root := Node Leaf (rname, e) r, ist_name := name,
                          ist_ltree := [], ist_rtree := rs\<rparr>,
                   set_root (plug_left ls l) small))
        | (Leaf, _, _) \<Rightarrow> (splay, small))"

fun set_lchild :: "'e ite tree \<Rightarrow> 'e ite tree \<Rightarrow> 'e ite tree" where
  "set_lchild (Node _ e r) l = Node l e r"
| "set_lchild Leaf l = Leaf"

definition ipc_splay_tree_join ::
  "'e ipc_splay_tree \<Rightarrow> 'e ipc_splay_tree \<Rightarrow> 'e ipc_splay_tree \<times> 'e ipc_splay_tree" where
  "ipc_splay_tree_join splay small =
     (if ist_root small = Leaf then (splay, small)
      else
        let sroot = ipc_splay_prim_assemble (ist_root small, ist_ltree small, ist_rtree small);
            root = (if ist_root splay = Leaf then sroot
                    else set_lchild (ipc_splay_prim_assemble (splay_to 0 splay)) sroot)
        in (set_root root splay, small\<lparr>ist_root := Leaf\<rparr>))"

definition ipc_splay_tree_bounds ::
  "mach_port_t \<Rightarrow> 'e ipc_splay_tree \<Rightarrow> (mach_port_t \<times> mach_port_t) \<times> 'e ipc_splay_tree" where
  "ipc_splay_tree_bounds name splay =
     (if ist_root splay = Leaf then ((NOT 0, 0), splay)
      else
        let (root, ls, rs) = splay_to name splay;
            splay' = (if ist_name splay \<noteq> name
                      then splay\<lparr>ist_name := name, ist_root := root, ist_ltree := ls, ist_rtree := rs\<rparr>
                      else splay)
        in (case root of
              Leaf \<Rightarrow> ((NOT 0, 0), splay')
            | Node _ (rname, _) _ \<Rightarrow>
                ((if rname \<le> name then rname
                  else case ls of [] \<Rightarrow> NOT 0 | (_, (n, _)) # _ \<Rightarrow> n,
                  if name \<le> rname then rname
                  else case rs of [] \<Rightarrow> 0 | ((n, _), _) # _ \<Rightarrow> n), splay')))"

subsection \<open>What the splay computes\<close>

fun flat_left :: "'e lspine \<Rightarrow> 'e ite list" where
  "flat_left [] = []"
| "flat_left ((l, e) # ls) = flat_left ls @ inorder l @ [e]"

fun flat_right :: "'e rspine \<Rightarrow> 'e ite list" where
  "flat_right [] = []"
| "flat_right ((e, r) # rs) = e # inorder r @ flat_right rs"

fun flat3 :: "'e split3 \<Rightarrow> 'e ite list" where
  "flat3 (t, ls, rs) = flat_left ls @ inorder t @ flat_right rs"

fun bounded :: "mach_port_t \<Rightarrow> 'e split3 \<Rightarrow> bool" where
  "bounded name (t, ls, rs) \<longleftrightarrow>
     (\<forall>x\<in>set (flat_left ls). fst x < name) \<and> (\<forall>x\<in>set (flat_right rs). name < fst x)"

lemma inorder_plug_left [simp]: "inorder (plug_left ls t) = flat_left ls @ inorder t"
  by (induction ls t rule: plug_left.induct) auto

lemma inorder_plug_right [simp]: "inorder (plug_right rs t) = inorder t @ flat_right rs"
  by (induction rs t rule: plug_right.induct) auto

lemma inorder_assemble: "fst s \<noteq> Leaf \<Longrightarrow> inorder (ipc_splay_prim_assemble s) = flat3 s"
  by (cases s rule: ipc_splay_prim_assemble.cases) auto

lemma splay_step_flat3: "splay_step name s = Some s' \<Longrightarrow> flat3 s' = flat3 s"
  by (erule splay_step_SomeE) auto

lemma splay_step_nonleaf: "splay_step name s = Some s' \<Longrightarrow> fst s' \<noteq> Leaf"
  by (erule splay_step_SomeE) auto

lemma splay_step_bounded:
  assumes "splay_step name s = Some s'" and "bounded name s" and "strict_keys (flat3 s)"
  shows "bounded name s'"
  using assms(1)
proof (cases rule: splay_step_SomeE)
  case left
  with assms(2,3) show ?thesis by (auto intro: less_trans)
next
  case right
  with assms(2,3) show ?thesis by (auto intro: less_trans)
qed

text \<open>When the loop ends, the root is the last node on the search path.\<close>

fun stopped :: "mach_port_t \<Rightarrow> 'e ite tree \<Rightarrow> bool" where
  "stopped name Leaf \<longleftrightarrow> False"
| "stopped name (Node l (n, _) r) \<longleftrightarrow>
     name = n \<or> name < n \<and> l = Leaf \<or> n < name \<and> r = Leaf"

lemma splay_step_None: "fst s \<noteq> Leaf \<Longrightarrow> splay_step name s = None \<longleftrightarrow> stopped name (fst s)"
  by (cases "(name, s)" rule: splay_step.cases)
     (auto simp: splay_step.simps(2) Let_def split: if_splits tree.splits prod.splits)

lemma prim_lookup_loop_flat3 [simp]: "flat3 (prim_lookup_loop name s) = flat3 s"
  by (induction name s rule: prim_lookup_loop.induct)
     (subst prim_lookup_loop.simps, auto simp del: flat3.simps split: option.splits dest: splay_step_flat3)

lemma prim_lookup_loop_stopped:
  "fst s \<noteq> Leaf \<Longrightarrow> stopped name (fst (prim_lookup_loop name s))"
  by (induction name s rule: prim_lookup_loop.induct)
     (subst prim_lookup_loop.simps, auto split: option.splits simp: splay_step_None splay_step_nonleaf)

lemma prim_lookup_loop_bounded:
  "bounded name s \<Longrightarrow> strict_keys (flat3 s) \<Longrightarrow> bounded name (prim_lookup_loop name s)"
  by (induction name s rule: prim_lookup_loop.induct)
     (subst prim_lookup_loop.simps, auto simp del: flat3.simps bounded.simps split: option.splits
       dest: splay_step_bounded simp: splay_step_flat3)

lemma stopped_nonleaf: "stopped name t \<Longrightarrow> t \<noteq> Leaf"
  by auto

text \<open>The contract of \<open>ipc_splay_prim_lookup\<close>.\<close>

lemma prim_lookup_spec:
  assumes "tree \<noteq> Leaf" and "strict_keys (inorder tree)"
  shows "flat3 (ipc_splay_prim_lookup name tree) = inorder tree"
    and "stopped name (fst (ipc_splay_prim_lookup name tree))"
    and "bounded name (ipc_splay_prim_lookup name tree)"
  using assms unfolding ipc_splay_prim_lookup_def
  by (auto simp del: bounded.simps intro!: prim_lookup_loop_stopped prim_lookup_loop_bounded) simp

subsection \<open>The tree as a sorted association list\<close>

definition splay_list :: "'e ipc_splay_tree \<Rightarrow> 'e ite list" where
  "splay_list splay =
     (if ist_root splay = Leaf then []
      else flat3 (ist_root splay, ist_ltree splay, ist_rtree splay))"

definition splay_map :: "'e ipc_splay_tree \<Rightarrow> mach_port_t \<Rightarrow> 'e option" where
  "splay_map splay = map_of (splay_list splay)"

text \<open>
  The invariant: the names are strictly increasing, and the unassembled form is the one a
  lookup of \<open>ist_name\<close> leaves.
\<close>

definition splay_inv :: "'e ipc_splay_tree \<Rightarrow> bool" where
  "splay_inv splay \<longleftrightarrow> strict_keys (splay_list splay) \<and>
     (ist_root splay \<noteq> Leaf \<longrightarrow>
        stopped (ist_name splay) (ist_root splay) \<and>
        bounded (ist_name splay) (ist_root splay, ist_ltree splay, ist_rtree splay))"

lemma splay_to_spec:
  assumes "splay_inv splay" and "ist_root splay \<noteq> Leaf"
  shows "flat3 (splay_to name splay) = splay_list splay"
    and "stopped name (fst (splay_to name splay))"
    and "bounded name (splay_to name splay)"
    and "strict_keys (splay_list splay)"
proof -
  let ?s = "(ist_root splay, ist_ltree splay, ist_rtree splay)"
  let ?t = "ipc_splay_prim_assemble ?s"
  from assms(2) have i: "inorder ?t = splay_list splay"
    by (simp add: splay_list_def inorder_assemble del: flat3.simps)
  moreover from assms(2) have "?t \<noteq> Leaf" by (cases "ist_root splay") auto
  moreover from assms(1) show k: "strict_keys (splay_list splay)" by (simp add: splay_inv_def)
  ultimately have "strict_keys (inorder ?t)" "?t \<noteq> Leaf" by auto
  note p = prim_lookup_spec [OF this(2) this(1), of name]
  show "flat3 (splay_to name splay) = splay_list splay"
    using p(1) i assms by (simp add: splay_to_def splay_list_def)
  show "stopped name (fst (splay_to name splay))"
    using p(2) assms by (auto simp add: splay_to_def splay_inv_def)
  show "bounded name (splay_to name splay)"
    using p(3) assms by (auto simp add: splay_to_def splay_inv_def simp del: bounded.simps)
qed

text \<open>
  What \<open>splay_to\<close> finds: the node itself, or the name's successor or predecessor, as the root
  of the middle tree.
\<close>

lemma splay_to_cases:
  assumes "splay_inv splay" and "ist_root splay \<noteq> Leaf"
  obtains (found) l e r ls rs where
      "splay_to name splay = (Node l (name, e) r, ls, rs)"
      "splay_list splay = (flat_left ls @ inorder l) @ (name, e) # (inorder r @ flat_right rs)"
      "cut_at name (flat_left ls @ inorder l) (inorder r @ flat_right rs)"
  | (above) n e r ls rs where "name < n"
      "splay_to name splay = (Node Leaf (n, e) r, ls, rs)"
      "splay_list splay = flat_left ls @ ((n, e) # inorder r @ flat_right rs)"
      "cut_at name (flat_left ls) ((n, e) # inorder r @ flat_right rs)"
  | (below) n e l ls rs where "n < name"
      "splay_to name splay = (Node l (n, e) Leaf, ls, rs)"
      "splay_list splay = (flat_left ls @ inorder l @ [(n, e)]) @ flat_right rs"
      "cut_at name (flat_left ls @ inorder l @ [(n, e)]) (flat_right rs)"
proof -
  obtain t ls rs where st: "splay_to name splay = (t, ls, rs)" by (cases "splay_to name splay")
  note spec = splay_to_spec(1-3) [OF assms, of name, unfolded st]
  from spec(2) obtain l n e r where t: "t = Node l (n, e) r" by (cases t) auto
  from spec(1) have li: "splay_list splay = flat_left ls @ inorder l @ (n, e) # inorder r @ flat_right rs"
    by (simp add: t)
  have k: "strict_keys (flat_left ls @ inorder l @ (n, e) # inorder r @ flat_right rs)"
    using splay_to_spec(4) [OF assms] unfolding li .
  from spec(2) t consider "name = n" | "name < n" "l = Leaf" | "n < name" "r = Leaf" by auto
  then show thesis
  proof cases
    case 1
    with st t li k spec(3) show thesis
      by (intro found) (auto simp: cut_at_def)
  next
    case 2
    with st t li k spec(3) show thesis
      by (intro above) (auto simp: cut_at_def intro: less_trans)
  next
    case 3
    with st t li k spec(3) show thesis
      by (intro below) (auto simp: cut_at_def intro: less_trans)
  qed
qed

lemma splay_list_set_root [simp]: "splay_list (set_root t splay) = inorder t"
  by (cases t) (auto simp: splay_list_def set_root_def)

lemma splay_inv_set_root: "strict_keys (inorder t) \<Longrightarrow> splay_inv (set_root t splay)"
  by (cases t) (auto simp: splay_inv_def set_root_def splay_list_def)

lemma splay_list_raw [simp]: "splay_list (ipc_splay_tree_init splay) = []"
  by (simp add: splay_list_def ipc_splay_tree_init_def)

lemma splay_inv_init [simp]: "splay_inv (ipc_splay_tree_init splay)"
  by (simp add: splay_inv_def) (simp add: ipc_splay_tree_init_def)

lemma splay_list_Leaf: "ist_root splay = Leaf \<Longrightarrow> splay_list splay = []"
  by (simp add: splay_list_def)

lemma splay_list_empty_iff: "splay_list splay = [] \<longleftrightarrow> ist_root splay = Leaf"
  by (cases "ist_root splay") (auto simp: splay_list_def)

subsection \<open>Each operation against the sorted list\<close>

lemma lookup_list:
  assumes "splay_inv splay" and "ipc_splay_tree_lookup name splay = (res, splay')"
  shows "res = splay_map splay name" and "splay_list splay' = splay_list splay"
    and "splay_inv splay'"
proof -
  have "res = splay_map splay name \<and> splay_list splay' = splay_list splay \<and> splay_inv splay'"
  proof (cases "ist_root splay = Leaf")
    case True
    with assms show ?thesis
      by (auto simp: ipc_splay_tree_lookup_def splay_map_def splay_list_Leaf)
  next
    case False
    obtain t ls rs where st: "splay_to name splay = (t, ls, rs)" by (cases "splay_to name splay")
    note spec = splay_to_spec [OF assms(1) False]
    have nl: "t \<noteq> Leaf" using spec(2) [of name] st by auto
    let ?new = "splay\<lparr>ist_name := name, ist_root := t, ist_ltree := ls, ist_rtree := rs\<rparr>"
    have "splay_list ?new = splay_list splay"
      using spec(1) [of name] st nl by (simp add: splay_list_def)
    moreover from this have "splay_inv ?new"
      using spec(2,3) [of name] spec(4) st by (simp add: splay_inv_def)
    moreover have "splay' = (if ist_name splay \<noteq> name then ?new else splay)"
      using assms(2) False st by (auto simp: ipc_splay_tree_lookup_def Let_def split: tree.splits)
    moreover have "res = splay_map splay name"
      using assms(1) False
    proof (cases rule: splay_to_cases [where name = name])
      case found
      with assms(2) False show ?thesis
        using map_of_cut(2) [OF found(3)]
        by (auto simp: ipc_splay_tree_lookup_def Let_def splay_map_def)
    next
      case above
      with assms(2) False show ?thesis
        using map_of_cut(1) [OF above(4)]
        by (auto simp: ipc_splay_tree_lookup_def Let_def splay_map_def)
    next
      case below
      with assms(2) False show ?thesis
        using map_of_cut(1) [OF below(4)]
        by (auto simp: ipc_splay_tree_lookup_def Let_def splay_map_def)
    qed
    ultimately show ?thesis using assms(1) by auto
  qed
  then show "res = splay_map splay name" "splay_list splay' = splay_list splay" "splay_inv splay'"
    by auto
qed

lemma insert_list:
  fixes splay :: "'e ipc_splay_tree" and e :: 'e
  assumes "splay_inv splay" and "name \<notin> fst ` set (splay_list splay)"
  defines "splay' \<equiv> ipc_splay_tree_insert name e splay"
  shows "splay_inv splay'"
    and "splay_list splay' = filter (\<lambda>x. fst x < name) (splay_list splay) @ (name, e) #
           filter (\<lambda>x. name < fst x) (splay_list splay)"
proof -
  obtain xs ys where x:
    "splay_list splay = xs @ ys" "splay_list splay' = xs @ (name, e) # ys" "cut_at name xs ys"
  proof (cases "ist_root splay = Leaf")
    case True
    then show thesis
      by (intro that [of "[]" "[]"])
         (auto simp: splay'_def ipc_splay_tree_insert_def splay_list_def cut_at_def)
  next
    case False
    with assms(1) show thesis
    proof (cases rule: splay_to_cases [where name = name])
      case found
      with assms(2) show thesis by auto
    next
      case above
      with False show thesis
        by (intro that) (auto simp: splay'_def ipc_splay_tree_insert_def splay_list_def)
    next
      case below
      with False show thesis
        by (intro that) (auto simp: splay'_def ipc_splay_tree_insert_def splay_list_def)
    qed
  qed
  from filter_cut [OF x(3)] x show "splay_list splay' =
      filter (\<lambda>x. fst x < name) (splay_list splay) @ (name, e) #
           filter (\<lambda>x. name < fst x) (splay_list splay)"
    by simp
  have "ist_name splay' = name" "ist_ltree splay' = []" "ist_rtree splay' = []"
    "\<exists>l r. ist_root splay' = Node l (name, e) r"
    by (auto simp: splay'_def ipc_splay_tree_insert_def Let_def split: prod.splits)
  with x strict_keys_cut(2) [OF x(3)] show "splay_inv splay'"
    by (auto simp: splay_inv_def)
qed

lemma not_max_less [simp]: "\<not> (NOT 0 :: u32) < x"
  by (simp add: not_less)

lemma lookup_max:
  fixes root :: "'e ite tree"
  assumes "root \<noteq> Leaf" and "strict_keys (inorder root)"
  obtains l e ls where "ipc_splay_prim_lookup (NOT 0) root = (Node l e Leaf, ls, [])"
    and "flat_left ls @ inorder l @ [e] = inorder root"
proof -
  obtain t ls rs where p: "ipc_splay_prim_lookup (NOT 0) root = (t, ls, rs)"
    by (cases "ipc_splay_prim_lookup (NOT 0) root")
  note sp = prim_lookup_spec [OF assms, of "NOT 0", unfolded p]
  from sp(2) obtain l n e r where t: "t = Node l (n, e) r" by (cases t) auto
  from sp(3) have "flat_right rs = []" by (cases "flat_right rs") auto
  then have rs: "rs = []" by (cases rs) auto
  have "strict_keys (flat_left ls @ inorder l @ (n, e) # inorder r)"
    using sp(1) assms(2) t rs by simp
  with sp(2) t have "inorder r = []" by (cases "inorder r") auto
  then have "r = Leaf" by (cases r) auto
  with sp(1) p t rs show thesis by (intro that) auto
qed

lemma inorder_splay_cat:
  assumes "strict_keys (inorder a)"
  shows "inorder (splay_cat a b) = inorder a @ inorder b"
proof (cases "a = Leaf \<or> b = Leaf")
  case True
  then show ?thesis by (auto simp: splay_cat_def)
next
  case False
  with assms obtain l e ls where
    "ipc_splay_prim_lookup (NOT 0) a = (Node l e Leaf, ls, [])"
    "flat_left ls @ inorder l @ [e] = inorder a"
    using lookup_max by blast
  with False show ?thesis by (auto simp: splay_cat_def)
qed

lemma cut_at_missing: "cut_at name xs ys \<Longrightarrow> name \<notin> fst ` set (xs @ ys)"
  by (auto simp: cut_at_def)

lemma delete_list:
  assumes "splay_inv splay" and "name \<in> fst ` set (splay_list splay)"
  defines "splay' \<equiv> ipc_splay_tree_delete name splay"
  shows "splay_list splay' = filter (\<lambda>x. fst x \<noteq> name) (splay_list splay)"
    and "splay_inv splay'"
proof -
  from assms(2) have "ist_root splay \<noteq> Leaf" by (auto simp: splay_list_def)
  with assms(1) have "splay_list splay' = filter (\<lambda>x. fst x \<noteq> name) (splay_list splay) \<and> splay_inv splay'"
  proof (cases rule: splay_to_cases [where name = name])
    case (found l e r ls rs)
    from found(3) have k: "strict_keys (inorder (plug_left ls l))" by (simp add: cut_at_def)
    from found(1) have
      s': "splay' = set_root (splay_cat (plug_left ls l) (plug_right rs r)) splay"
      by (simp add: splay'_def ipc_splay_tree_delete_def)
    from inorder_splay_cat [OF k] strict_keys_cut(1) [OF found(3)] have "splay_inv splay'"
      unfolding s' by (intro splay_inv_set_root) simp
    with filter_cut [OF found(3)] inorder_splay_cat [OF k] found(2) show ?thesis
      by (simp add: s')
  next
    case above
    with assms(2) cut_at_missing show ?thesis by metis
  next
    case below
    with assms(2) cut_at_missing show ?thesis by metis
  qed
  then show "splay_list splay' = filter (\<lambda>x. fst x \<noteq> name) (splay_list splay)" "splay_inv splay'"
    by auto
qed

lemma split_splay_list:
  assumes "splay_inv splay" and "ipc_splay_tree_split name splay = (splay', small)"
  shows "splay_list splay' = filter (\<lambda>x. name \<le> fst x) (splay_list splay)"
    and "splay_list small = filter (\<lambda>x. fst x < name) (splay_list splay)"
    and "splay_inv splay'" and "splay_inv small"
proof -
  have "splay_list splay' = filter (\<lambda>x. name \<le> fst x) (splay_list splay) \<and>
     splay_list small = filter (\<lambda>x. fst x < name) (splay_list splay) \<and>
     splay_inv splay' \<and> splay_inv small"
  proof (cases "ist_root splay = Leaf")
    case True
    with assms show ?thesis by (auto simp: ipc_splay_tree_split_def splay_list_Leaf)
  next
    case False
    with assms(1) show ?thesis
    proof (cases rule: splay_to_cases [where name = name])
      case (found l e r ls rs)
      with assms(2) False have s:
        "splay' = splay\<lparr>ist_root := Node Leaf (name, e) r, ist_name := name, ist_ltree := [], ist_rtree := rs\<rparr>"
        "small = set_root (plug_left ls l) (ipc_splay_tree_init raw_splay_tree)"
        by (auto simp: ipc_splay_tree_split_def Let_def)
      have "splay_inv splay'"
        using found(3) unfolding s by (auto simp: splay_inv_def splay_list_def cut_at_def)
      moreover have "splay_inv small"
        using found(3) unfolding s by (intro splay_inv_set_root) (auto simp: cut_at_def)
      ultimately show ?thesis
        unfolding found(2) filter_cut_mid [OF found(3)]
        by (simp add: s) (simp add: splay_list_def)
    next
      case (above n e r ls rs)
      with assms(2) False less_not_sym [OF above(1)] have s:
        "splay' = splay\<lparr>ist_root := Node Leaf (n, e) r, ist_name := name, ist_ltree := [], ist_rtree := rs\<rparr>"
        "small = set_root (plug_left ls Leaf) (ipc_splay_tree_init raw_splay_tree)"
        by (auto simp: ipc_splay_tree_split_def Let_def)
      have "splay_inv splay'"
        using above(1,4) unfolding s by (auto simp: splay_inv_def splay_list_def cut_at_def)
      moreover have "splay_inv small"
        using above(1,4) unfolding s by (intro splay_inv_set_root) (auto simp: cut_at_def)
      ultimately show ?thesis
        unfolding above(3) filter_cut_app [OF above(4)]
        by (simp add: s) (simp add: splay_list_def)
    next
      case (below n e l ls rs)
      with assms(2) False have s:
        "splay' = set_root (plug_right rs Leaf) splay"
        "small = set_root (Node (plug_left ls l) (n, e) Leaf) (ipc_splay_tree_init raw_splay_tree)"
        by (auto simp: ipc_splay_tree_split_def Let_def)
      have "splay_inv splay'" "splay_inv small"
        using below(1,4) unfolding s by (auto simp: cut_at_def intro!: splay_inv_set_root)
      then show ?thesis unfolding below(3) filter_cut_app [OF below(4)] by (simp add: s)
    qed
  qed
  then show "splay_list splay' = filter (\<lambda>x. name \<le> fst x) (splay_list splay)"
    and "splay_list small = filter (\<lambda>x. fst x < name) (splay_list splay)"
    and "splay_inv splay'" and "splay_inv small" by auto
qed

text \<open>Looking up 0 brings the smallest node to the root, with nothing to its left.\<close>

lemma lookup_zero:
  assumes "splay_inv splay" and "ist_root splay \<noteq> Leaf"
  obtains e r rs where "splay_to 0 splay = (Node Leaf e r, [], rs)"
    and "splay_list splay = e # inorder r @ flat_right rs"
  using assms
proof (cases rule: splay_to_cases [where name = 0])
  case (found l e r ls rs)
  then have "flat_left ls @ inorder l = []" by (cases "flat_left ls @ inorder l") (auto simp: cut_at_def)
  then have "ls = [] \<and> l = Leaf" by (cases ls; cases l) auto
  with found show thesis by (intro that) auto
next
  case (above n e r ls rs)
  then have "flat_left ls = []" by (cases "flat_left ls") (auto simp: cut_at_def)
  then have "ls = []" by (cases ls) auto
  with above show thesis by (intro that) auto
next
  case (below n e l ls rs)
  then show thesis by auto
qed

lemma join_list:
  assumes "splay_inv splay" and "splay_inv small"
    and "\<forall>x\<in>set (splay_list small). \<forall>y\<in>set (splay_list splay). fst x < fst y"
    and "ipc_splay_tree_join splay small = (splay', small')"
  shows "splay_list splay' = splay_list small @ splay_list splay" and "splay_inv splay'"
    and "splay_list small' = []"
proof -
  have "splay_list splay' = splay_list small @ splay_list splay \<and> splay_inv splay' \<and> splay_list small' = []"
  proof (cases "ist_root small = Leaf")
    case True
    with assms show ?thesis by (auto simp: ipc_splay_tree_join_def splay_list_Leaf)
  next
    case False
    let ?sroot = "ipc_splay_prim_assemble (ist_root small, ist_ltree small, ist_rtree small)"
    have sr: "inorder ?sroot = splay_list small"
      using False by (simp add: splay_list_def inorder_assemble del: flat3.simps)
    obtain root where r: "splay' = set_root root splay" and i: "inorder root = splay_list small @ splay_list splay"
    proof (cases "ist_root splay = Leaf")
      case True
      with False assms(4) sr show thesis
        by (intro that [of ?sroot]) (auto simp: ipc_splay_tree_join_def splay_list_Leaf)
    next
      case f: False
      with assms(1) obtain e r rs where "splay_to 0 splay = (Node Leaf e r, [], rs)"
        "splay_list splay = e # inorder r @ flat_right rs" by (rule lookup_zero)
      with False f assms(4) sr show thesis
        by (intro that [of "Node ?sroot e (plug_right rs r)"]) (auto simp: ipc_splay_tree_join_def)
    qed
    have "strict_keys (splay_list small @ splay_list splay)"
      using assms(1-3) by (auto simp: splay_inv_def)
    with r i have "splay_inv splay'" by (auto intro!: splay_inv_set_root)
    moreover have "splay_list small' = []"
      using False assms(4) by (auto simp: ipc_splay_tree_join_def splay_list_def Let_def)
    ultimately show ?thesis using r i by simp
  qed
  then show "splay_list splay' = splay_list small @ splay_list splay" "splay_inv splay'"
    "splay_list small' = []" by auto
qed

text \<open>The bounds are tight: nothing of the tree lies strictly between a bound and the name.\<close>

definition splay_lower :: "mach_port_t \<Rightarrow> 'e ite list \<Rightarrow> mach_port_t" where
  "splay_lower name xs =
     (case rev (filter (\<lambda>x. fst x \<le> name) xs) of [] \<Rightarrow> NOT 0 | x # _ \<Rightarrow> fst x)"

definition splay_upper :: "mach_port_t \<Rightarrow> 'e ite list \<Rightarrow> mach_port_t" where
  "splay_upper name xs =
     (case filter (\<lambda>x. name \<le> fst x) xs of [] \<Rightarrow> 0 | x # _ \<Rightarrow> fst x)"

lemma bounds_list:
  assumes "splay_inv splay" and "ipc_splay_tree_bounds name splay = ((lower, upper), splay')"
  shows "lower = splay_lower name (splay_list splay)" and "upper = splay_upper name (splay_list splay)"
    and "splay_list splay' = splay_list splay" and "splay_inv splay'"
proof -
  have "lower = splay_lower name (splay_list splay) \<and> upper = splay_upper name (splay_list splay) \<and>
    splay_list splay' = splay_list splay \<and> splay_inv splay'"
  proof (cases "ist_root splay = Leaf")
    case True
    with assms show ?thesis
      by (auto simp: ipc_splay_tree_bounds_def splay_lower_def splay_upper_def splay_list_Leaf)
  next
    case False
    have "splay' = snd (ipc_splay_tree_lookup name splay)"
      using assms(2) False
      by (auto simp: ipc_splay_tree_bounds_def ipc_splay_tree_lookup_def Let_def
          split: prod.splits tree.splits if_splits)
    then have "splay_list splay' = splay_list splay" "splay_inv splay'"
      using lookup_list(2,3) [OF assms(1)] by (metis prod.collapse)+
    moreover have "lower = splay_lower name (splay_list splay) \<and> upper = splay_upper name (splay_list splay)"
      using assms(1) False
    proof (cases rule: splay_to_cases [where name = name])
      case (found l e r ls rs)
      with assms(2) False have "lower = name" "upper = name"
        by (auto simp: ipc_splay_tree_bounds_def Let_def)
      then show ?thesis
        unfolding splay_lower_def splay_upper_def found(2) filter_cut_mid [OF found(3)] by simp
    next
      case (above n e r ls rs)
      with assms(2) False have
        "lower = (case ls of [] \<Rightarrow> NOT 0 | (_, (m, _)) # _ \<Rightarrow> m)" "upper = n"
        by (auto simp: ipc_splay_tree_bounds_def Let_def)
      then show ?thesis
        unfolding splay_lower_def splay_upper_def above(3) filter_cut_app [OF above(4)]
        by (cases ls) auto
    next
      case (below n e l ls rs)
      with assms(2) False have
        "lower = n" "upper = (case rs of [] \<Rightarrow> 0 | ((m, _), _) # _ \<Rightarrow> m)"
        by (auto simp: ipc_splay_tree_bounds_def Let_def)
      then show ?thesis
        unfolding splay_lower_def splay_upper_def below(3) filter_cut_app [OF below(4)]
        by (cases rs) auto
    qed
    ultimately show ?thesis by simp
  qed
  then show "lower = splay_lower name (splay_list splay)" "upper = splay_upper name (splay_list splay)"
    "splay_list splay' = splay_list splay" "splay_inv splay'" by auto
qed

subsection \<open>Writing an entry through its pointer\<close>

text \<open>
  The callers keep a pointer to a node's entry and store into it.  A node is known by its
  name, so such a store updates the entry of that name wherever the node sits.
\<close>

definition ite_upd :: "mach_port_t \<Rightarrow> ('e \<Rightarrow> 'e) \<Rightarrow> 'e ite \<Rightarrow> 'e ite" where
  "ite_upd name f ne = (if fst ne = name then (fst ne, f (snd ne)) else ne)"

definition ipc_splay_update :: "mach_port_t \<Rightarrow> ('e \<Rightarrow> 'e) \<Rightarrow> 'e ipc_splay_tree \<Rightarrow> 'e ipc_splay_tree" where
  "ipc_splay_update name f splay =
     splay\<lparr>ist_root := map_tree (ite_upd name f) (ist_root splay),
           ist_ltree := map (\<lambda>(l, e). (map_tree (ite_upd name f) l, ite_upd name f e)) (ist_ltree splay),
           ist_rtree := map (\<lambda>(e, r). (ite_upd name f e, map_tree (ite_upd name f) r)) (ist_rtree splay)\<rparr>"

lemma fst_ite_upd [simp]: "fst (ite_upd name f x) = fst x"
  by (simp add: ite_upd_def)

lemma flat_left_upd [simp]:
  "flat_left (map (\<lambda>(l, e). (map_tree g l, g e)) ls) = map g (flat_left ls)"
  by (induction ls rule: flat_left.induct) (auto simp: inorder_map)

lemma flat_right_upd [simp]:
  "flat_right (map (\<lambda>(e, r). (g e, map_tree g r)) rs) = map g (flat_right rs)"
  by (induction rs rule: flat_right.induct) (auto simp: inorder_map)

lemma splay_list_update [simp]:
  "splay_list (ipc_splay_update name f splay) = map (ite_upd name f) (splay_list splay)"
  by (simp add: splay_list_def ipc_splay_update_def inorder_map)

lemma strict_keys_map [simp]:
  "(\<And>x. fst (g x) = fst x) \<Longrightarrow> strict_keys (map g xs) = strict_keys xs"
  by (induction xs) auto

lemma stopped_map_tree [simp]: "stopped n (map_tree (ite_upd name f) t) = stopped n t"
  by (cases "(n, t)" rule: stopped.cases) (auto simp: ite_upd_def)

lemma update_sel:
  "ist_name (ipc_splay_update name f splay) = ist_name splay"
  "ist_root (ipc_splay_update name f splay) = map_tree (ite_upd name f) (ist_root splay)"
  "flat_left (ist_ltree (ipc_splay_update name f splay)) = map (ite_upd name f) (flat_left (ist_ltree splay))"
  "flat_right (ist_rtree (ipc_splay_update name f splay)) = map (ite_upd name f) (flat_right (ist_rtree splay))"
  by (simp_all add: ipc_splay_update_def)

lemma splay_inv_update [simp]: "splay_inv (ipc_splay_update name f splay) = splay_inv splay"
  unfolding splay_inv_def by (simp add: update_sel)

lemma splay_map_update [simp]:
  "splay_map (ipc_splay_update name f splay) =
     (\<lambda>n. if n = name then map_option f (splay_map splay n) else splay_map splay n)"
proof -
  have "map_of (map (ite_upd name f) xs) n =
    (if n = name then map_option f (map_of xs n) else map_of xs n)" for n xs
    by (induction xs) (auto simp: ite_upd_def)
  then show ?thesis by (auto simp: splay_map_def)
qed

subsection \<open>Traversal by pointer inversion\<close>

text \<open>
  While the traversal is inside a child of a node, the field for that child holds the pointer
  back to the node's own parent.  The chain of such nodes, from \<open>parent\<close> upwards, is a list
  of frames; a frame has the node and the child field that still is a child pointer.  The code
  does not record which field is inverted: it compares names, and so does the model, with
  \<open>None\<close> for the case that the comparison picks the field that is not inverted.
\<close>

datatype 'e frame = InvL "'e ite" "'e ite tree" | InvR "'e ite tree" "'e ite"

datatype 'e trav_res = At "'e ite tree" "'e frame list" | Done "'e ite tree"

fun frame_name :: "'e frame \<Rightarrow> mach_port_t" where
  "frame_name (InvL e r) = fst e"
| "frame_name (InvR l e) = fst e"

fun traverse_left :: "'e ite tree \<Rightarrow> 'e frame list \<Rightarrow> 'e ite tree \<times> 'e frame list" where
  "traverse_left (Node (Node a f b) e r) parent = traverse_left (Node a f b) (InvL e r # parent)"
| "traverse_left t parent = (t, parent)"

fun traverse_back :: "'e ite tree \<Rightarrow> 'e frame list \<Rightarrow> 'e trav_res option" where
  "traverse_back current [] = Some (Done current)"
| "traverse_back current (p # parent) =
     (case current of
        Leaf \<Rightarrow> None
      | Node _ (n, _) _ \<Rightarrow>
          if n < frame_name p
          then (case p of InvL e r \<Rightarrow> Some (At (Node current e r) parent) | InvR _ _ \<Rightarrow> None)
          else (case p of InvR l e \<Rightarrow> traverse_back (Node l e current) parent | InvL _ _ \<Rightarrow> None))"

fun traverse_right :: "'e ite tree \<Rightarrow> 'e frame list \<Rightarrow> 'e trav_res option" where
  "traverse_right (Node l e r) parent =
     (if r \<noteq> Leaf then Some (case traverse_left r (InvR l e # parent) of (c, p) \<Rightarrow> At c p)
      else traverse_back (Node l e r) parent)"
| "traverse_right Leaf parent = None"

definition ipc_splay_traverse_start ::
  "'e ipc_splay_tree \<Rightarrow> ('e ite tree \<times> 'e frame list) option" where
  "ipc_splay_traverse_start splay =
     (if ist_root splay = Leaf then None
      else Some (traverse_left
        (ipc_splay_prim_assemble (ist_root splay, ist_ltree splay, ist_rtree splay)) []))"

fun ipc_splay_traverse_next ::
  "bool \<Rightarrow> 'e ite tree \<Rightarrow> 'e frame list \<Rightarrow> 'e trav_res option" where
  "ipc_splay_traverse_next delete (Node l (n, e) r) parent =
     (if \<not> delete then traverse_right (Node l (n, e) r) parent
      else if l = Leaf then
        (if r = Leaf then
           (case parent of
              [] \<Rightarrow> Some (Done Leaf)
            | p # parent' \<Rightarrow>
                if n < frame_name p
                then (case p of InvL f s \<Rightarrow> Some (At (Node Leaf f s) parent') | InvR _ _ \<Rightarrow> None)
                else (case p of InvR k f \<Rightarrow> traverse_back (Node k f Leaf) parent' | InvL _ _ \<Rightarrow> None))
         else Some (case traverse_left r parent of (c, p) \<Rightarrow> At c p))
      else if r = Leaf then traverse_back l parent
      else traverse_right
             (set_rchild (ipc_splay_prim_assemble (ipc_splay_prim_lookup (NOT 0) l)) r) parent)"
| "ipc_splay_traverse_next delete Leaf parent = None"

definition ipc_splay_traverse_finish ::
  "'e ite tree \<Rightarrow> 'e ipc_splay_tree \<Rightarrow> 'e ipc_splay_tree" where
  "ipc_splay_traverse_finish root splay = set_root root splay"

subsubsection \<open>What has been visited and what is left\<close>

fun before :: "'e frame list \<Rightarrow> 'e ite list" where
  "before [] = []"
| "before (InvL e r # P) = before P"
| "before (InvR l e # P) = before P @ inorder l @ [e]"

fun after :: "'e frame list \<Rightarrow> 'e ite list" where
  "after [] = []"
| "after (InvL e r # P) = e # inorder r @ after P"
| "after (InvR l e # P) = after P"

fun visited :: "'e ite tree \<Rightarrow> 'e frame list \<Rightarrow> 'e ite list" where
  "visited (Node l e r) P = before P @ inorder l"
| "visited Leaf P = before P"

fun todo :: "'e ite tree \<Rightarrow> 'e frame list \<Rightarrow> 'e ite list" where
  "todo (Node l e r) P = e # inorder r @ after P"
| "todo Leaf P = after P"

lemma traverse_left_spec:
  "traverse_left t P = (c, Q) \<Longrightarrow> t \<noteq> Leaf \<Longrightarrow>
     c \<noteq> Leaf \<and> visited c Q = before P \<and> todo c Q = inorder t @ after P"
  by (induction t P arbitrary: c Q rule: traverse_left.induct) auto

text \<open>
  \<open>trav_spec res v td\<close>: the traversal stands at a node with \<open>v\<close> behind it and \<open>td\<close> still
  to come, or is over with \<open>v\<close> the whole tree.
\<close>

definition trav_spec :: "'e trav_res option \<Rightarrow> 'e ite list \<Rightarrow> 'e ite list \<Rightarrow> bool" where
  "trav_spec res v td \<longleftrightarrow>
     (case res of
        None \<Rightarrow> False
      | Some (At c Q) \<Rightarrow> c \<noteq> Leaf \<and> visited c Q = v \<and> todo c Q = td
      | Some (Done t) \<Rightarrow> inorder t = v \<and> td = [])"

lemma traverse_back_spec:
  "strict_keys (before P @ inorder t @ after P) \<Longrightarrow> t \<noteq> Leaf \<Longrightarrow>
     trav_spec (traverse_back t P) (before P @ inorder t) (after P)"
proof (induction t P rule: traverse_back.induct)
  case (1 t)
  then show ?case by (simp add: trav_spec_def)
next
  case (2 t p P)
  obtain l n e r where t: "t = Node l (n, e) r" using \<open>t \<noteq> Leaf\<close> by (cases t) auto
  show ?case
  proof (cases p)
    case (InvL f s)
    with 2(2) t have "n < fst f" by auto
    with InvL t show ?thesis by (simp add: trav_spec_def)
  next
    case (InvR k f)
    with 2(2) t have "fst f < n" by auto
    then have n: "\<not> n < frame_name p" using InvR by auto
    from 2(1) [OF t refl n InvR] 2(2) t InvR n
    show ?thesis by simp
  qed
qed

lemma traverse_right_spec:
  assumes "strict_keys (before P @ inorder t @ after P)" and "t = Node l e r"
  shows "trav_spec (traverse_right t P) (before P @ inorder l @ [e]) (inorder r @ after P)"
proof (cases "r = Leaf")
  case True
  with assms traverse_back_spec [of P t] show ?thesis by simp
next
  case False
  obtain c Q where "traverse_left r (InvR l e # P) = (c, Q)" by fastforce
  with False assms(2) traverse_left_spec [OF this] show ?thesis by (simp add: trav_spec_def)
qed

lemma traverse_next_spec:
  fixes e :: "'e ite"
  assumes k: "strict_keys (before P @ inorder l @ e # inorder r @ after P)"
  shows "trav_spec (ipc_splay_traverse_next delete (Node l e r) P)
     (before P @ inorder l @ (if delete then [] else [e])) (inorder r @ after P)"
proof -
  obtain n x where e: "e = (n, x)" by fastforce
  consider "\<not> delete" | (leaf) "delete" "l = Leaf" "r = Leaf" | (r) "delete" "l = Leaf" "r \<noteq> Leaf"
    | (l) "delete" "l \<noteq> Leaf" "r = Leaf" | (both) "delete" "l \<noteq> Leaf" "r \<noteq> Leaf" by blast
  then show ?thesis
  proof cases
    case 1
    with traverse_right_spec [of P "Node l e r"] k e show ?thesis by simp
  next
    case leaf
    show ?thesis
    proof (cases P)
      case Nil
      with leaf e show ?thesis by (simp add: trav_spec_def)
    next
      case (Cons p P')
      show ?thesis
      proof (cases p)
        case (InvL f s)
        with k leaf Cons e have "n < fst f" by auto
        with leaf InvL Cons e show ?thesis by (simp add: trav_spec_def)
      next
        case (InvR a f)
        with k leaf Cons e have "\<not> n < fst f" by (auto simp: not_less less_imp_le)
        with leaf InvR Cons e traverse_back_spec [of P' "Node a f Leaf"] k show ?thesis by simp
      qed
    qed
  next
    case r
    obtain c Q where "traverse_left r P = (c, Q)" by fastforce
    with r e traverse_left_spec [OF this] show ?thesis by (simp add: trav_spec_def)
  next
    case l
    with e traverse_back_spec [of P l] k show ?thesis by simp
  next
    case both
    from k have "strict_keys (inorder l)" by auto
    with both(2) obtain a f ls where
      p: "ipc_splay_prim_lookup (NOT 0) l = (Node a f Leaf, ls, [])"
        "flat_left ls @ inorder a @ [f] = inorder l" by (rule lookup_max)
    let ?t = "Node (plug_left ls a) f r"
    have i: "inorder ?t = inorder l @ inorder r" using p(2) [symmetric] by simp
    from k have "strict_keys (before P @ inorder ?t @ after P)" unfolding i by auto
    from traverse_right_spec [OF this refl] p(2)
    have "trav_spec (traverse_right ?t P) (before P @ inorder l) (inorder r @ after P)"
      by (simp add: append.assoc)
    with p(1) both e show ?thesis by simp
  qed
qed

subsubsection \<open>The traversal loop\<close>

text \<open>
  The loop of the callers: \<open>body\<close> sees an entry, may change the caller's state, and decides
  whether the entry is deleted.  Each round has one entry fewer to come, whatever the tree.
\<close>

lemma traverse_left_todo: "t \<noteq> Leaf \<Longrightarrow> traverse_left t P = (c, Q) \<Longrightarrow> todo c Q = inorder t @ after P"
  using traverse_left_spec by blast

lemma traverse_back_todo: "traverse_back t P = Some (At c Q) \<Longrightarrow> todo c Q = after P"
  by (induction t P rule: traverse_back.induct)
     (auto split: tree.splits if_splits frame.splits prod.splits)

lemma traverse_right_todo:
  "traverse_right (Node l e r) P = Some (At c Q) \<Longrightarrow> todo c Q = inorder r @ after P"
  by (auto split: if_splits prod.splits dest: traverse_left_todo traverse_back_todo)

lemma traverse_next_todo:
  assumes "ipc_splay_traverse_next delete (Node l f r) P = Some (At c Q)" and "(n, e) = f"
  shows "todo c Q = inorder r @ after P"
proof (cases "delete \<and> l \<noteq> Leaf \<and> r \<noteq> Leaf")
  case True
  let ?t = "ipc_splay_prim_assemble (ipc_splay_prim_lookup (NOT 0) l)"
  have "fst (ipc_splay_prim_lookup (NOT 0) l) \<noteq> Leaf"
    unfolding ipc_splay_prim_lookup_def
    using prim_lookup_loop_stopped [of "(l, [], [])"] True stopped_nonleaf by fastforce
  then obtain a f b where "?t = Node a f b"
    by (cases "ipc_splay_prim_lookup (NOT 0) l" rule: ipc_splay_prim_assemble.cases) auto
  with assms True show ?thesis
    by (auto simp del: traverse_right.simps dest: traverse_right_todo)
next
  case False
  then consider "\<not> delete" | "delete" "l = Leaf" "r = Leaf" | "delete" "l = Leaf" "r \<noteq> Leaf"
    | "delete" "l \<noteq> Leaf" "r = Leaf" by blast
  then show ?thesis
  proof cases
    case 1
    with assms show ?thesis
      by (cases f) (auto simp del: traverse_right.simps dest: traverse_right_todo)
  next
    case 2
    with assms show ?thesis
      by (cases f) (auto split: if_splits list.splits frame.splits dest: traverse_back_todo)
  next
    case 3
    with assms show ?thesis
      by (cases f) (auto split: prod.splits dest: traverse_left_todo)
  next
    case 4
    with assms show ?thesis by (cases f) (auto dest: traverse_back_todo)
  qed
qed

function traverse_loop ::
  "('s \<Rightarrow> 'e ite \<Rightarrow> 's \<times> bool) \<Rightarrow> 's \<Rightarrow> 'e ite tree \<Rightarrow> 'e frame list \<Rightarrow> ('s \<times> 'e ite tree) option" where
  "traverse_loop body s Leaf P = None"
| "traverse_loop body s (Node l e r) P =
     (let (s', delete) = body s e in
      case ipc_splay_traverse_next delete (Node l e r) P of
        None \<Rightarrow> None
      | Some (Done t) \<Rightarrow> Some (s', t)
      | Some (At c Q) \<Rightarrow> traverse_loop body s' c Q)"
  by pat_completeness auto
termination
  by (relation "measure (\<lambda>(body, s, t, P). length (todo t P))")
     (auto dest!: traverse_next_todo [OF _ prod.collapse])

definition splay_traverse ::
  "('s \<Rightarrow> 'e ite \<Rightarrow> 's \<times> bool) \<Rightarrow> 's \<Rightarrow> 'e ipc_splay_tree \<Rightarrow> ('s \<times> 'e ipc_splay_tree) option" where
  "splay_traverse body s splay =
     (case ipc_splay_traverse_start splay of
        None \<Rightarrow> Some (s, ipc_splay_traverse_finish Leaf splay)
      | Some (c, P) \<Rightarrow>
          (case traverse_loop body s c P of
             None \<Rightarrow> None
           | Some (s', t) \<Rightarrow> Some (s', ipc_splay_traverse_finish t splay)))"

text \<open>The reference: a sweep over the sorted list.\<close>

fun sweep :: "('s \<Rightarrow> 'e ite \<Rightarrow> 's \<times> bool) \<Rightarrow> 's \<Rightarrow> 'e ite list \<Rightarrow> 's \<times> 'e ite list" where
  "sweep body s [] = (s, [])"
| "sweep body s (x # xs) =
     (let (s', delete) = body s x; (s'', ys) = sweep body s' xs
      in (s'', if delete then ys else x # ys))"

lemma sweep_keys: "set (snd (sweep body s xs)) \<subseteq> set xs"
  by (induction xs arbitrary: s) (auto split: prod.splits, (metis snd_conv subsetD)+)

lemma strict_keys_sweep: "strict_keys xs \<Longrightarrow> strict_keys (snd (sweep body s xs))"
proof (induction xs arbitrary: s)
  case (Cons x xs)
  obtain s' delete where b: "body s x = (s', delete)" by fastforce
  have "strict_keys (snd (sweep body s' xs))" using Cons by auto
  moreover have "set (snd (sweep body s' xs)) \<subseteq> set xs" by (rule sweep_keys)
  ultimately show ?case using Cons.prems b by (auto split: prod.splits)
qed simp

lemma traverse_loop_spec:
  assumes "strict_keys (visited c P @ todo c P)" and "c \<noteq> Leaf"
  shows "\<exists>t. traverse_loop body s c P = Some (fst (sweep body s (todo c P)), t) \<and>
    inorder t = visited c P @ snd (sweep body s (todo c P))"
  using assms
proof (induction body s c P rule: traverse_loop.induct)
  case (2 body s l e r P)
  obtain s' delete where b: "body s e = (s', delete)" by fastforce
  let ?v = "before P @ inorder l @ (if delete then [] else [e])"
  have k: "strict_keys (before P @ inorder l @ e # inorder r @ after P)"
    using 2(2) by simp
  note sp = traverse_next_spec [OF this, of delete]
  then obtain res where res: "ipc_splay_traverse_next delete (Node l e r) P = Some res"
    by (auto simp: trav_spec_def split: option.splits)
  have kv: "strict_keys (?v @ inorder r @ after P)" using k by auto
  show ?case
  proof (cases res)
    case (Done t)
    with sp res have "inorder t = ?v" "inorder r @ after P = []" by (auto simp: trav_spec_def)
    with b res Done show ?thesis by (auto split: prod.splits)
  next
    case (At c Q)
    with sp res have c: "c \<noteq> Leaf" "visited c Q = ?v" "todo c Q = inorder r @ after P"
      by (auto simp: trav_spec_def)
    from 2(1) [OF b [symmetric] refl res At] kv c
    obtain t where "traverse_loop body s' c Q = Some (fst (sweep body s' (todo c Q)), t)"
      "inorder t = visited c Q @ snd (sweep body s' (todo c Q))" by auto
    with b res At c show ?thesis by (auto split: prod.splits)
  qed
qed auto

lemma traverse_list:
  assumes "splay_inv splay"
  obtains splay' where
    "splay_traverse body s splay = Some (fst (sweep body s (splay_list splay)), splay')"
    "splay_list splay' = snd (sweep body s (splay_list splay))" "splay_inv splay'"
proof (cases "ist_root splay = Leaf")
  case True
  then show thesis
    by (intro that) (auto simp: splay_traverse_def ipc_splay_traverse_start_def splay_list_Leaf
        ipc_splay_traverse_finish_def intro!: splay_inv_set_root)
next
  case False
  let ?t = "ipc_splay_prim_assemble (ist_root splay, ist_ltree splay, ist_rtree splay)"
  from False have i: "inorder ?t = splay_list splay" and "?t \<noteq> Leaf"
    by (auto simp: splay_list_def inorder_assemble simp del: flat3.simps)
       (cases "ist_root splay"; auto)
  obtain c P where tl: "traverse_left ?t [] = (c, P)" by fastforce
  from traverse_left_spec [OF this \<open>?t \<noteq> Leaf\<close>] i
  have c: "c \<noteq> Leaf" "visited c P = []" "todo c P = splay_list splay" by auto
  moreover from assms have "strict_keys (splay_list splay)" by (simp add: splay_inv_def)
  ultimately obtain t where "traverse_loop body s c P = Some (fst (sweep body s (splay_list splay)), t)"
    "inorder t = snd (sweep body s (splay_list splay))"
    using traverse_loop_spec [of c P body s] by auto
  with False tl strict_keys_sweep [OF \<open>strict_keys (splay_list splay)\<close>] show thesis
    by (intro that) (auto simp: splay_traverse_def ipc_splay_traverse_start_def
        ipc_splay_traverse_finish_def intro!: splay_inv_set_root)
qed

end
