(* ===== verification/Ipc_Space.thy ===== *)
theory Ipc_Space
  imports Ipc_Splay
begin

section \<open>Translation entries and spaces of capabilities\<close>

text \<open>
  The records of \<open>ipc/ipc_entry.h\<close> and \<open>ipc/ipc_space.h\<close>, the return codes the IPC
  calls use, and the sizes of tables (\<open>ipc/ipc_table.c\<close>).
\<close>

datatype kern_return_t =
    KERN_SUCCESS | KERN_INVALID_ADDRESS | KERN_PROTECTION_FAILURE | KERN_NO_SPACE
  | KERN_INVALID_ARGUMENT | KERN_FAILURE | KERN_RESOURCE_SHORTAGE | KERN_NOT_RECEIVER
  | KERN_NO_ACCESS | KERN_MEMORY_FAILURE | KERN_MEMORY_ERROR | KERN_NOT_IN_SET
  | KERN_NAME_EXISTS | KERN_ABORTED | KERN_INVALID_NAME | KERN_INVALID_TASK
  | KERN_INVALID_RIGHT | KERN_INVALID_VALUE | KERN_UREFS_OVERFLOW | KERN_INVALID_CAPABILITY
  | KERN_RIGHT_EXISTS

definition IO_NULL :: addr where "IO_NULL = 0"
definition IO_DEAD :: addr where "IO_DEAD = NOT 0"

text \<open>
  An entry.  \<open>ie_next\<close> and \<open>ie_request\<close> are one field (a union); so are \<open>ie_index\<close>, the
  slot of the reverse hash table that shares the memory of the entry, and the chain pointer
  of a tree entry.  Indices are below the size of the table, which never exceeds
  \<open>2 ^ 24\<close>, so they are natural numbers here.
\<close>

record ipc_entry =
  ie_bits :: ipc_entry_bits_t
  ie_object :: addr
  ie_request :: nat
  ie_index :: nat

abbreviation ie_next :: "ipc_entry \<Rightarrow> nat" where "ie_next \<equiv> ie_request"

definition zero_entry :: ipc_entry where
  "zero_entry = \<lparr>ie_bits = 0, ie_object = IO_NULL, ie_request = 0, ie_index = 0\<rparr>"

abbreviation ie_type :: "ipc_entry \<Rightarrow> u32" where "ie_type e \<equiv> IE_BITS_TYPE (ie_bits e)"
abbreviation ie_gen :: "ipc_entry \<Rightarrow> u32" where "ie_gen e \<equiv> IE_BITS_GEN (ie_bits e)"

text \<open>
  A space.  \<open>is_addr\<close> is the address of the structure, which the global hash function uses;
  \<open>is_table_next\<close> is an index into \<open>ipc_table_entries\<close>; \<open>is_table_size\<close> is always the number
  of elements of \<open>is_table\<close>, so it is the length of the list.
\<close>

record ipc_space =
  is_addr :: addr
  is_references :: u32
  is_active :: bool
  is_growing :: bool
  is_table :: "ipc_entry list"
  is_table_next :: nat
  is_tree :: "ipc_entry ipc_splay_tree"
  is_tree_total :: nat
  is_tree_small :: nat
  is_tree_hash :: nat
  is_notify :: addr

abbreviation is_table_size :: "ipc_space \<Rightarrow> nat" where
  "is_table_size s \<equiv> length (is_table s)"

text \<open>
  \<open>sizeof\<close> on the mac2: an entry is four words, a tree entry four words more, and a request
  (\<open>ipc/ipc_port.h\<close>) two.
\<close>

definition sizeof_ipc_entry :: nat where "sizeof_ipc_entry = 16"
definition sizeof_ipc_tree_entry :: nat where "sizeof_ipc_tree_entry = 32"
definition sizeof_ipc_port_request :: nat where "sizeof_ipc_port_request = 8"

subsection \<open>Updating one entry of a table\<close>

definition entry_upd :: "nat \<Rightarrow> (ipc_entry \<Rightarrow> ipc_entry) \<Rightarrow> ipc_entry list \<Rightarrow> ipc_entry list" where
  "entry_upd i f t = t[i := f (t ! i)]"

lemma length_entry_upd [simp]: "length (entry_upd i f t) = length t"
  by (simp add: entry_upd_def)

lemma nth_entry_upd [simp]:
  "i < length t \<Longrightarrow> entry_upd i f t ! j = (if j = i then f (t ! i) else t ! j)"
  by (simp add: entry_upd_def)

lemma entry_upd_out: "\<not> i < length t \<Longrightarrow> entry_upd i f t = t"
  by (simp add: entry_upd_def list_update_beyond)

end
