(* ===== verification/Ipc_Hash.thy ===== *)
theory Ipc_Hash
  imports Ipc_Space "HOL-Library.Monad_Syntax"
begin

section \<open>The reverse hash tables (ipc/ipc_hash.c)\<close>

text \<open>
  (space, object) to (name, entry), for pure send rights.  Entries of the table are found
  through the local hash table of the space, an open-addressing table with linear probing
  that lives in the \<open>ie_index\<close> fields of the table itself.  Entries of the splay tree are
  found through one global table of chained buckets.

  The probe loops of the local table have no bound in the code: they end because some slot
  is empty.  The model gives each loop as many rounds as the table has slots and answers
  \<open>None\<close> when they are used up; the lemmas show that this never happens.
\<close>

subsection \<open>The local table\<close>

definition IH_LOCAL_HASH :: "addr \<Rightarrow> nat \<Rightarrow> nat" where
  "IH_LOCAL_HASH obj sz = unat (drop_bit 6 obj) mod sz"

text \<open>\<open>if (++hindex == size) hindex = 0\<close>\<close>

definition hnext :: "nat \<Rightarrow> nat \<Rightarrow> nat" where
  "hnext sz h = (if Suc h = sz then 0 else Suc h)"

fun local_lookup_loop :: "nat \<Rightarrow> ipc_entry list \<Rightarrow> addr \<Rightarrow> nat \<Rightarrow> nat option option" where
  "local_lookup_loop 0 table obj hindex = None"
| "local_lookup_loop (Suc fuel) table obj hindex =
     (let index = ie_index (table ! hindex) in
      if index = 0 then Some None
      else if ie_object (table ! index) = obj then Some (Some index)
      else local_lookup_loop fuel table obj (hnext (length table) hindex))"

definition ipc_hash_local_lookup :: "ipc_entry list \<Rightarrow> addr \<Rightarrow> nat option option" where
  "ipc_hash_local_lookup table obj =
     local_lookup_loop (length table) table obj (IH_LOCAL_HASH obj (length table))"

fun local_insert_loop :: "nat \<Rightarrow> ipc_entry list \<Rightarrow> nat \<Rightarrow> nat option" where
  "local_insert_loop 0 table hindex = None"
| "local_insert_loop (Suc fuel) table hindex =
     (if ie_index (table ! hindex) \<noteq> 0
      then local_insert_loop fuel table (hnext (length table) hindex)
      else Some hindex)"

definition ipc_hash_local_insert :: "addr \<Rightarrow> nat \<Rightarrow> ipc_entry list \<Rightarrow> ipc_entry list option" where
  "ipc_hash_local_insert obj index table =
     do {
       hindex \<leftarrow> local_insert_loop (length table) table (IH_LOCAL_HASH obj (length table));
       Some (entry_upd hindex (\<lambda>e. e\<lparr>ie_index := index\<rparr>) table)
     }"

fun local_find_loop :: "nat \<Rightarrow> ipc_entry list \<Rightarrow> nat \<Rightarrow> nat \<Rightarrow> nat option" where
  "local_find_loop 0 table index hindex = None"
| "local_find_loop (Suc fuel) table index hindex =
     (if ie_index (table ! hindex) \<noteq> index
      then local_find_loop fuel table index (hnext (length table) hindex)
      else Some hindex)"

text \<open>
  The two nested loops that close the hole at \<open>hindex\<close>; \<open>dindex\<close> is the slot checked last.
\<close>

definition displaced :: "nat \<Rightarrow> nat \<Rightarrow> nat \<Rightarrow> bool" where
  "displaced dindex hindex tindex \<longleftrightarrow>
     (if dindex < hindex then dindex < tindex \<and> tindex \<le> hindex
      else dindex < tindex \<or> tindex \<le> hindex)"

fun local_delete_loop :: "nat \<Rightarrow> ipc_entry list \<Rightarrow> nat \<Rightarrow> nat \<Rightarrow> ipc_entry list option" where
  "local_delete_loop 0 table hindex dindex = None"
| "local_delete_loop (Suc fuel) table hindex dindex =
     (let dindex' = hnext (length table) dindex;
          index = ie_index (table ! dindex')
      in if index = 0 then Some (entry_upd hindex (\<lambda>e. e\<lparr>ie_index := 0\<rparr>) table)
         else
           let tindex = IH_LOCAL_HASH (ie_object (table ! index)) (length table)
           in if displaced dindex' hindex tindex
              then local_delete_loop fuel
                     (entry_upd hindex (\<lambda>e. e\<lparr>ie_index := index\<rparr>) table) dindex' dindex'
              else local_delete_loop fuel table hindex dindex')"

definition ipc_hash_local_delete :: "addr \<Rightarrow> nat \<Rightarrow> ipc_entry list \<Rightarrow> ipc_entry list option" where
  "ipc_hash_local_delete obj index table =
     do {
       hindex \<leftarrow> local_find_loop (length table) table index (IH_LOCAL_HASH obj (length table));
       local_delete_loop (length table) table hindex hindex
     }"

subsection \<open>Slots between two slots\<close>

text \<open>\<open>on_path a q p\<close>: a probe from \<open>a\<close> meets \<open>q\<close> before it gets to \<open>p\<close>.\<close>

definition on_path :: "nat \<Rightarrow> nat \<Rightarrow> nat \<Rightarrow> bool" where
  "on_path a q p \<longleftrightarrow> (if a \<le> p then a \<le> q \<and> q < p else a \<le> q \<or> q < p)"

definition cdist :: "nat \<Rightarrow> nat \<Rightarrow> nat \<Rightarrow> nat" where
  "cdist n a b = (if a \<le> b then b - a else b + n - a)"

lemma hnext_less: "h < n \<Longrightarrow> hnext n h < n"
  by (auto simp: hnext_def)

lemma cdist_less: "a < n \<Longrightarrow> b < n \<Longrightarrow> cdist n a b < n"
  by (auto simp: cdist_def)

lemma cdist_hnext: "a < n \<Longrightarrow> b < n \<Longrightarrow> a \<noteq> b \<Longrightarrow> Suc (cdist n (hnext n a) b) = cdist n a b"
  by (auto simp: cdist_def hnext_def)

lemma on_path_hnext:
  "h < n \<Longrightarrow> p < n \<Longrightarrow> on_path a h p \<Longrightarrow> hnext n h = p \<or> on_path a (hnext n h) p"
  by (auto simp: on_path_def hnext_def split: if_splits)

lemma on_path_from_hnext:
  "h < n \<Longrightarrow> p < n \<Longrightarrow> q < n \<Longrightarrow> h \<noteq> p \<Longrightarrow> on_path h q p \<longleftrightarrow> q = h \<or> on_path (hnext n h) q p"
  by (auto simp: on_path_def hnext_def split: if_splits)

lemma on_path_start: "a < n \<Longrightarrow> p < n \<Longrightarrow> a = p \<or> on_path a a p"
  by (auto simp: on_path_def)

lemma on_path_neq: "on_path a q p \<Longrightarrow> q \<noteq> p"
  by (auto simp: on_path_def split: if_splits)

lemma displaced_iff:
  "d \<noteq> h \<Longrightarrow> displaced d h t \<longleftrightarrow> on_path t h d"
  by (auto simp: displaced_def on_path_def)

subsection \<open>The invariant of the local table\<close>

abbreviation slot :: "ipc_entry list \<Rightarrow> nat \<Rightarrow> nat" where
  "slot t p \<equiv> ie_index (t ! p)"

abbreviation home :: "ipc_entry list \<Rightarrow> nat \<Rightarrow> nat" where
  "home t i \<equiv> IH_LOCAL_HASH (ie_object (t ! i)) (length t)"

text \<open>
  \<open>S\<close> is the set of indices that are entered.  Every one has exactly one slot, and every
  slot between the home of an entered index and the slot it is in is in use.
\<close>

definition hash_inv :: "ipc_entry list \<Rightarrow> nat set \<Rightarrow> bool" where
  "hash_inv t S \<longleftrightarrow>
     S \<subseteq> {0<..<length t} \<and>
     (\<forall>p<length t. slot t p = 0 \<or> slot t p \<in> S) \<and>
     (\<forall>i\<in>S. \<exists>p<length t. slot t p = i) \<and>
     (\<forall>p<length t. \<forall>q<length t. slot t p = slot t q \<longrightarrow> slot t p \<noteq> 0 \<longrightarrow> p = q) \<and>
     (\<forall>p<length t. slot t p \<noteq> 0 \<longrightarrow>
        (\<forall>q<length t. on_path (home t (slot t p)) q p \<longrightarrow> slot t q \<noteq> 0))"

lemma hash_inv_range:
  assumes "hash_inv t S" and "i \<in> S"
  shows "0 < i \<and> i < length t"
  using assms(1) [unfolded hash_inv_def, THEN conjunct1] assms(2) by auto

lemma hash_inv_slot:
  assumes "hash_inv t S" and "p < length t" and "slot t p \<noteq> 0"
  shows "slot t p \<in> S"
  using assms(1) [unfolded hash_inv_def, THEN conjunct2, THEN conjunct1, rule_format, OF assms(2)]
    assms(3) by simp

lemma hash_inv_entered: "hash_inv t S \<Longrightarrow> i \<in> S \<Longrightarrow> \<exists>p<length t. slot t p = i"
  unfolding hash_inv_def by meson

lemma hash_inv_inj:
  "hash_inv t S \<Longrightarrow> p < length t \<Longrightarrow> q < length t \<Longrightarrow> slot t p = slot t q \<Longrightarrow> slot t p \<noteq> 0 \<Longrightarrow> p = q"
  unfolding hash_inv_def by meson

lemma hash_inv_clump:
  "hash_inv t S \<Longrightarrow> p < length t \<Longrightarrow> slot t p \<noteq> 0 \<Longrightarrow> q < length t \<Longrightarrow>
     on_path (home t (slot t p)) q p \<Longrightarrow> slot t q \<noteq> 0"
  unfolding hash_inv_def by meson

lemma hash_invI:
  assumes "S \<subseteq> {0<..<length t}"
    and "\<And>p. p < length t \<Longrightarrow> slot t p \<noteq> 0 \<Longrightarrow> slot t p \<in> S"
    and "\<And>i. i \<in> S \<Longrightarrow> \<exists>p<length t. slot t p = i"
    and "\<And>p q. p < length t \<Longrightarrow> q < length t \<Longrightarrow> slot t p = slot t q \<Longrightarrow> slot t p \<noteq> 0 \<Longrightarrow> p = q"
    and "\<And>p q. p < length t \<Longrightarrow> slot t p \<noteq> 0 \<Longrightarrow> q < length t \<Longrightarrow>
      on_path (home t (slot t p)) q p \<Longrightarrow> slot t q \<noteq> 0"
  shows "hash_inv t S"
  unfolding hash_inv_def using assms by blast

lemma IH_LOCAL_HASH_less: "0 < n \<Longrightarrow> IH_LOCAL_HASH obj n < n"
  by (simp add: IH_LOCAL_HASH_def)

lemma hash_inv_free_slot:
  assumes "hash_inv t S" and "t \<noteq> []"
  obtains e where "e < length t" "slot t e = 0"
proof (rule ccontr)
  assume "\<not> thesis"
  then have full: "\<forall>p<length t. slot t p \<noteq> 0" using that by auto
  let ?n = "length t"
  have "inj_on (slot t) {..<?n}"
    using hash_inv_inj [OF assms(1)] full by (auto simp: inj_on_def)
  moreover have "slot t ` {..<?n} \<subseteq> {0<..<?n}"
    using hash_inv_slot [OF assms(1)] hash_inv_range [OF assms(1)] full by auto
  ultimately have "card {..<?n} \<le> card {0<..<?n}"
    by (intro card_inj_on_le [of "slot t"]) auto
  with assms(2) show False by (cases t) auto
qed

subsection \<open>Lookup\<close>

lemma local_lookup_loop_returns:
  "e < length t \<Longrightarrow> slot t e = 0 \<Longrightarrow> h < length t \<Longrightarrow> cdist (length t) h e < fuel \<Longrightarrow>
     \<exists>r. local_lookup_loop fuel t obj h = Some r"
proof (induction fuel arbitrary: h)
  case (Suc fuel)
  show ?case
  proof (cases "h = e")
    case False
    with Suc.prems cdist_hnext [of h "length t" e] hnext_less [of h "length t"]
    have "\<exists>r. local_lookup_loop fuel t obj (hnext (length t) h) = Some r"
      by (intro Suc.IH) auto
    then show ?thesis by (auto simp: Let_def)
  qed (use Suc.prems in auto)
qed simp

lemma local_lookup_loop_sound:
  "local_lookup_loop fuel t obj h = Some (Some i) \<Longrightarrow> h < length t \<Longrightarrow>
     \<exists>p<length t. slot t p = i \<and> i \<noteq> 0 \<and> ie_object (t ! i) = obj"
  by (induction fuel arbitrary: h) (auto simp: Let_def hnext_less split: if_splits)

lemma local_lookup_loop_complete:
  assumes "local_lookup_loop fuel t obj h = Some None" and "h < length t"
    and "p < length t" and "slot t p \<noteq> 0" and "ie_object (t ! slot t p) = obj"
    and "\<forall>q<length t. on_path a q p \<longrightarrow> slot t q \<noteq> 0" and "h = p \<or> on_path a h p"
  shows False
  using assms
proof (induction fuel arbitrary: h)
  case (Suc fuel)
  from Suc.prems have "slot t h \<noteq> 0" by auto
  moreover from this Suc.prems have "h \<noteq> p" by (auto simp: Let_def)
  ultimately have l: "local_lookup_loop fuel t obj (hnext (length t) h) = Some None"
    using Suc.prems(1) by (auto simp: Let_def split: if_splits)
  have "hnext (length t) h = p \<or> on_path a (hnext (length t) h) p"
    using Suc.prems(2,3,7) \<open>h \<noteq> p\<close> on_path_hnext by blast
  with Suc.IH [OF l] Suc.prems(2-6) hnext_less show False by blast
qed simp

text \<open>The objects of entered indices are different, so the answer is the entered index.\<close>

lemma ipc_hash_local_lookup_spec:
  assumes "hash_inv t S" and "t \<noteq> []" and "inj_on (\<lambda>i. ie_object (t ! i)) S"
  shows "ipc_hash_local_lookup t obj =
    Some (if \<exists>i\<in>S. ie_object (t ! i) = obj
          then Some (THE i. i \<in> S \<and> ie_object (t ! i) = obj) else None)"
proof -
  let ?n = "length t" and ?h = "IH_LOCAL_HASH obj (length t)"
  from assms(2) have h: "?h < ?n" by (simp add: IH_LOCAL_HASH_less)
  obtain e where e: "e < ?n" "slot t e = 0" using assms(1,2) by (rule hash_inv_free_slot)
  obtain r where r: "local_lookup_loop ?n t obj ?h = Some r"
    using local_lookup_loop_returns [OF e h cdist_less [OF h e(1)]] by blast
  show ?thesis
  proof (cases r)
    case None
    have "ie_object (t ! i) \<noteq> obj" if i: "i \<in> S" for i
    proof
      assume o: "ie_object (t ! i) = obj"
      obtain p where p: "p < ?n" "slot t p = i" and i0: "i \<noteq> 0"
        using hash_inv_entered [OF assms(1) i] hash_inv_range [OF assms(1) i] by auto
      with o have "\<forall>q<?n. on_path ?h q p \<longrightarrow> slot t q \<noteq> 0"
        using hash_inv_clump [OF assms(1), of p] by auto
      with r None h p i0 o show False
        using local_lookup_loop_complete [of ?n t obj ?h p ?h] on_path_start [of ?h ?n p] by auto
    qed
    with r None show ?thesis by (auto simp: ipc_hash_local_lookup_def)
  next
    case (Some i)
    with local_lookup_loop_sound [of ?n t obj ?h i] r h
    obtain p where p: "p < ?n" "slot t p = i" "i \<noteq> 0" "ie_object (t ! i) = obj" by auto
    with hash_inv_slot [OF assms(1)] have i: "i \<in> S" by auto
    with p assms(3) have "(THE j. j \<in> S \<and> ie_object (t ! j) = obj) = i"
      by (intro the_equality) (auto dest: inj_onD)
    with r Some i p show ?thesis by (auto simp: ipc_hash_local_lookup_def)
  qed
qed

subsection \<open>Insertion\<close>

lemma local_insert_loop_returns:
  "e < length t \<Longrightarrow> slot t e = 0 \<Longrightarrow> h < length t \<Longrightarrow> cdist (length t) h e < fuel \<Longrightarrow>
     \<exists>r. local_insert_loop fuel t h = Some r"
proof (induction fuel arbitrary: h)
  case (Suc fuel)
  show ?case
  proof (cases "h = e")
    case False
    with Suc.prems cdist_hnext [of h "length t" e] hnext_less [of h "length t"]
    have "\<exists>r. local_insert_loop fuel t (hnext (length t) h) = Some r"
      by (intro Suc.IH) auto
    then show ?thesis by auto
  qed (use Suc.prems in auto)
qed simp

lemma local_insert_loop_spec:
  "local_insert_loop fuel t h = Some r \<Longrightarrow> h < length t \<Longrightarrow>
     r < length t \<and> slot t r = 0 \<and> (\<forall>q<length t. on_path h q r \<longrightarrow> slot t q \<noteq> 0)"
proof (induction fuel arbitrary: h)
  case (Suc fuel)
  show ?case
  proof (cases "slot t h = 0")
    case True
    with Suc.prems show ?thesis by (auto simp: on_path_def)
  next
    case False
    with Suc.prems have "local_insert_loop fuel t (hnext (length t) h) = Some r" by simp
    from Suc.IH [OF this hnext_less [OF Suc.prems(2)]]
    have r: "r < length t" "slot t r = 0"
      "\<forall>q<length t. on_path (hnext (length t) h) q r \<longrightarrow> slot t q \<noteq> 0" by auto
    with False have "h \<noteq> r" by auto
    with r False Suc.prems(2) on_path_from_hnext [of h "length t" r] show ?thesis by blast
  qed
qed simp

text \<open>Writing slots does not touch the other fields.\<close>

definition set_slot :: "nat \<Rightarrow> nat \<Rightarrow> ipc_entry list \<Rightarrow> ipc_entry list" where
  "set_slot h i t = entry_upd h (\<lambda>e. e\<lparr>ie_index := i\<rparr>) t"

lemma length_set_slot [simp]: "length (set_slot h i t) = length t"
  by (simp add: set_slot_def)

lemma slot_set_slot [simp]:
  "h < length t \<Longrightarrow> slot (set_slot h i t) p = (if p = h then i else slot t p)"
  by (simp add: set_slot_def)

lemma sel_set_slot [simp]:
  "ie_object (set_slot h i t ! j) = ie_object (t ! j)"
  "ie_bits (set_slot h i t ! j) = ie_bits (t ! j)"
  "ie_request (set_slot h i t ! j) = ie_request (t ! j)"
  by (cases "h < length t"; simp add: set_slot_def entry_upd_out)+

lemma hash_inv_insert:
  assumes inv: "hash_inv t S" and i: "i \<notin> S" "0 < i" "i < length t"
    and r: "r < length t" "slot t r = 0" "\<forall>q<length t. on_path (home t i) q r \<longrightarrow> slot t q \<noteq> 0"
  shows "hash_inv (set_slot r i t) (insert i S)"
proof (rule hash_invI)
  show "insert i S \<subseteq> {0<..<length (set_slot r i t)}"
    using hash_inv_range [OF inv] i by auto
next
  fix p assume "p < length (set_slot r i t)" "slot (set_slot r i t) p \<noteq> 0"
  then show "slot (set_slot r i t) p \<in> insert i S"
    using hash_inv_slot [OF inv] r(1) by (auto split: if_splits)
next
  fix j assume "j \<in> insert i S"
  moreover have "\<exists>p<length t. p \<noteq> r \<and> slot t p = j" if "j \<in> S"
    using hash_inv_entered [OF inv that] hash_inv_range [OF inv that] r(2) by auto
  ultimately show "\<exists>p<length (set_slot r i t). slot (set_slot r i t) p = j"
    using r(1) by (cases "j = i") auto
next
  fix p q assume a: "p < length (set_slot r i t)" "q < length (set_slot r i t)"
    "slot (set_slot r i t) p = slot (set_slot r i t) q" "slot (set_slot r i t) p \<noteq> 0"
  have "slot t x \<noteq> i" if "x < length t" for x
    using hash_inv_slot [OF inv that] i by auto
  with a r(1) hash_inv_inj [OF inv, of p q] show "p = q"
    by (auto split: if_splits)
next
  fix p q assume a: "p < length (set_slot r i t)" "slot (set_slot r i t) p \<noteq> 0"
    "q < length (set_slot r i t)"
    "on_path (home (set_slot r i t) (slot (set_slot r i t) p)) q p"
  then show "slot (set_slot r i t) q \<noteq> 0"
    using hash_inv_clump [OF inv, of p q] r i(2) by (auto split: if_splits)
qed

lemma ipc_hash_local_insert_spec:
  assumes inv: "hash_inv t S" and i: "i \<notin> S" "0 < i" "i < length t" and obj: "ie_object (t ! i) = obj"
  obtains r where "ipc_hash_local_insert obj i t = Some (set_slot r i t)"
    and "hash_inv (set_slot r i t) (insert i S)"
proof -
  from i have ne: "t \<noteq> []" by auto
  then have h: "IH_LOCAL_HASH obj (length t) < length t" by (simp add: IH_LOCAL_HASH_less)
  obtain e where e: "e < length t" "slot t e = 0" using inv ne by (rule hash_inv_free_slot)
  obtain r where r: "local_insert_loop (length t) t (IH_LOCAL_HASH obj (length t)) = Some r"
    using local_insert_loop_returns [OF e h cdist_less [OF h e(1)]] by blast
  from local_insert_loop_spec [OF r h] obj
  have "hash_inv (set_slot r i t) (insert i S)" by (intro hash_inv_insert [OF inv i]) auto
  with r show thesis by (intro that) (auto simp: ipc_hash_local_insert_def set_slot_def)
qed

subsection \<open>Deletion\<close>

lemma local_find_loop_spec:
  assumes inv: "hash_inv t S" and p: "p < length t" "slot t p = i" "i \<noteq> 0"
    and "h < length t" and "cdist (length t) h p < fuel"
  shows "local_find_loop fuel t i h = Some p"
  using assms(5,6)
proof (induction fuel arbitrary: h)
  case (Suc fuel)
  show ?case
  proof (cases "h = p")
    case True
    with p show ?thesis by simp
  next
    case False
    then have "slot t h \<noteq> i" using hash_inv_inj [OF inv, of h p] p Suc.prems by auto
    moreover have "local_find_loop fuel t i (hnext (length t) h) = Some p"
      using Suc.prems cdist_hnext [OF Suc.prems(1) p(1) False] hnext_less [OF Suc.prems(1)]
      by (intro Suc.IH) auto
    ultimately show ?thesis by simp
  qed
qed simp

text \<open>
  The state of the delete loop: slot \<open>h\<close> is a hole (what it holds no longer counts), the slots
  after it up to \<open>d\<close> are in use and none of their probes pass the hole, and any other probe
  that passes the hole belongs to a slot beyond \<open>d\<close>.
\<close>

definition scanned :: "nat \<Rightarrow> nat \<Rightarrow> nat \<Rightarrow> bool" where
  "scanned h d p \<longleftrightarrow> p \<noteq> h \<and> (p = d \<or> on_path h p d)"

definition hole_inv :: "ipc_entry list \<Rightarrow> nat set \<Rightarrow> nat \<Rightarrow> nat \<Rightarrow> bool" where
  "hole_inv t S h d \<longleftrightarrow>
     h < length t \<and> d < length t \<and> S \<subseteq> {0<..<length t} \<and>
     (\<forall>p<length t. p \<noteq> h \<longrightarrow> slot t p \<noteq> 0 \<longrightarrow> slot t p \<in> S) \<and>
     (\<forall>i\<in>S. \<exists>p<length t. p \<noteq> h \<and> slot t p = i) \<and>
     (\<forall>p<length t. \<forall>q<length t. p \<noteq> h \<longrightarrow> q \<noteq> h \<longrightarrow> slot t p = slot t q \<longrightarrow> slot t p \<noteq> 0 \<longrightarrow> p = q) \<and>
     (\<forall>p<length t. p \<noteq> h \<longrightarrow> slot t p \<noteq> 0 \<longrightarrow>
        (\<forall>q<length t. on_path (home t (slot t p)) q p \<longrightarrow>
           (if q = h then \<not> scanned h d p else slot t q \<noteq> 0))) \<and>
     (\<forall>p<length t. scanned h d p \<longrightarrow> slot t p \<noteq> 0)"

lemma hole_invD:
  assumes "hole_inv t S h d"
  shows "h < length t" "d < length t" "S \<subseteq> {0<..<length t}"
    "\<And>p. p < length t \<Longrightarrow> p \<noteq> h \<Longrightarrow> slot t p \<noteq> 0 \<Longrightarrow> slot t p \<in> S"
    "\<And>i. i \<in> S \<Longrightarrow> \<exists>p<length t. p \<noteq> h \<and> slot t p = i"
    "\<And>p q. p < length t \<Longrightarrow> q < length t \<Longrightarrow> p \<noteq> h \<Longrightarrow> q \<noteq> h \<Longrightarrow> slot t p = slot t q \<Longrightarrow>
       slot t p \<noteq> 0 \<Longrightarrow> p = q"
    "\<And>p q. p < length t \<Longrightarrow> p \<noteq> h \<Longrightarrow> slot t p \<noteq> 0 \<Longrightarrow> q < length t \<Longrightarrow>
       on_path (home t (slot t p)) q p \<Longrightarrow> if q = h then \<not> scanned h d p else slot t q \<noteq> 0"
    "\<And>p. p < length t \<Longrightarrow> scanned h d p \<Longrightarrow> slot t p \<noteq> 0"
proof -
  note c = assms [unfolded hole_inv_def]
  show "h < length t" "d < length t" "S \<subseteq> {0<..<length t}"
    using c by meson+
  show "\<And>p. p < length t \<Longrightarrow> p \<noteq> h \<Longrightarrow> slot t p \<noteq> 0 \<Longrightarrow> slot t p \<in> S"
    "\<And>i. i \<in> S \<Longrightarrow> \<exists>p<length t. p \<noteq> h \<and> slot t p = i"
    "\<And>p q. p < length t \<Longrightarrow> q < length t \<Longrightarrow> p \<noteq> h \<Longrightarrow> q \<noteq> h \<Longrightarrow> slot t p = slot t q \<Longrightarrow>
       slot t p \<noteq> 0 \<Longrightarrow> p = q"
    "\<And>p q. p < length t \<Longrightarrow> p \<noteq> h \<Longrightarrow> slot t p \<noteq> 0 \<Longrightarrow> q < length t \<Longrightarrow>
       on_path (home t (slot t p)) q p \<Longrightarrow> if q = h then \<not> scanned h d p else slot t q \<noteq> 0"
    "\<And>p. p < length t \<Longrightarrow> scanned h d p \<Longrightarrow> slot t p \<noteq> 0"
    using c by meson+
qed

lemma scanned_start: "\<not> scanned h h p"
  by (auto simp: scanned_def on_path_def)

lemma scanned_hnext:
  "h < n \<Longrightarrow> d < n \<Longrightarrow> p < n \<Longrightarrow> hnext n d \<noteq> h \<Longrightarrow> scanned h (hnext n d) p \<longleftrightarrow> scanned h d p \<or> p = hnext n d"
  by (auto simp: scanned_def on_path_def hnext_def split: if_splits)

text \<open>The scan does not come round to the hole: an unused slot stops it first.\<close>

lemma scanned_all: "h < n \<Longrightarrow> d < n \<Longrightarrow> p < n \<Longrightarrow> hnext n d = h \<Longrightarrow> p \<noteq> h \<Longrightarrow> scanned h d p"
  by (auto simp: scanned_def on_path_def hnext_def split: if_splits)

text \<open>A probe that passes the hole and does not end in a scanned slot passes the slot after the scan.\<close>

lemma beyond_scan:
  "h < n \<Longrightarrow> d < n \<Longrightarrow> p < n \<Longrightarrow> a < n \<Longrightarrow> on_path a h p \<Longrightarrow> \<not> scanned h d p \<Longrightarrow> hnext n d \<noteq> h \<Longrightarrow>
     p \<noteq> hnext n d \<Longrightarrow> on_path a (hnext n d) p"
  by (auto simp: scanned_def on_path_def hnext_def split: if_splits)

lemma on_path_prefix: "on_path a h d \<Longrightarrow> on_path a q h \<Longrightarrow> on_path a q d"
  by (auto simp: on_path_def split: if_splits)

lemma hole_invI:
  assumes "h < length t" "d < length t" "S \<subseteq> {0<..<length t}"
    "\<And>p. p < length t \<Longrightarrow> p \<noteq> h \<Longrightarrow> slot t p \<noteq> 0 \<Longrightarrow> slot t p \<in> S"
    "\<And>i. i \<in> S \<Longrightarrow> \<exists>p<length t. p \<noteq> h \<and> slot t p = i"
    "\<And>p q. p < length t \<Longrightarrow> q < length t \<Longrightarrow> p \<noteq> h \<Longrightarrow> q \<noteq> h \<Longrightarrow> slot t p = slot t q \<Longrightarrow>
       slot t p \<noteq> 0 \<Longrightarrow> p = q"
    "\<And>p q. p < length t \<Longrightarrow> p \<noteq> h \<Longrightarrow> slot t p \<noteq> 0 \<Longrightarrow> q < length t \<Longrightarrow>
       on_path (home t (slot t p)) q p \<Longrightarrow> if q = h then \<not> scanned h d p else slot t q \<noteq> 0"
    "\<And>p. p < length t \<Longrightarrow> scanned h d p \<Longrightarrow> slot t p \<noteq> 0"
  shows "hole_inv t S h d"
  unfolding hole_inv_def by (intro conjI allI ballI impI; rule assms; assumption)

lemma hole_inv_move:
  assumes inv: "hole_inv t S h d" and d': "d' = hnext (length t) d" "d' \<noteq> h" "slot t d' \<noteq> 0"
    and pass: "on_path (home t (slot t d')) h d'"
  shows "hole_inv (set_slot h (slot t d') t) S d' d'"
proof -
  note I = hole_invD [OF inv]
  let ?i = "slot t d'" and ?t = "set_slot h (slot t d') t"
  from d'(1) I(2) have d'n: "d' < length t" by (simp add: hnext_less)
  from I(1) have slot': "slot ?t p = (if p = h then ?i else slot t p)" for p by simp
  show ?thesis
  proof (rule hole_invI)
    show "d' < length ?t" "d' < length ?t" "S \<subseteq> {0<..<length ?t}" using d'n I(3) by auto
  next
    fix p assume "p < length ?t" "p \<noteq> d'" "slot ?t p \<noteq> 0"
    then show "slot ?t p \<in> S" using I(4) [OF d'n d'(2,3)] I(4) [of p] unfolding slot' by auto
  next
    fix i assume "i \<in> S"
    from I(5) [OF this] obtain p where "p < length t" "p \<noteq> h" "slot t p = i" by blast
    then show "\<exists>p<length ?t. p \<noteq> d' \<and> slot ?t p = i"
      unfolding slot' using I(1) d'(2) by (cases "p = d'") auto
  next
    fix p q assume "p < length ?t" "q < length ?t" "p \<noteq> d'" "q \<noteq> d'" "slot ?t p = slot ?t q"
      "slot ?t p \<noteq> 0"
    then show "p = q" unfolding slot' using I(6) [of p q] I(6) [OF d'n _ d'(2) _ _ d'(3)] I(6) [OF _ d'n _ d'(2)]
      by (auto split: if_splits)
  next
    fix p q assume a: "p < length ?t" "p \<noteq> d'" "slot ?t p \<noteq> 0" "q < length ?t"
      "on_path (home ?t (slot ?t p)) q p"
    have "slot ?t q \<noteq> 0" if "q \<noteq> d'"
    proof (cases "q = h")
      case True
      with d'(3) show ?thesis unfolding slot' by simp
    next
      case q: False
      have "slot t q \<noteq> 0"
      proof (cases "p = h")
        case True
        with a(5) I(1) have "on_path (home t ?i) q h" by simp
        with pass have "on_path (home t ?i) q d'" by (rule on_path_prefix)
        with I(7) [OF d'n d'(2,3)] a(4) q show ?thesis by auto
      next
        case False
        with a I(1) I(7) [of p q] q show ?thesis by auto
      qed
      with q show ?thesis unfolding slot' by simp
    qed
    then show "if q = d' then \<not> scanned d' d' p else slot ?t q \<noteq> 0" by (simp add: scanned_start)
  next
    fix p assume "scanned d' d' p"
    then show "slot ?t p \<noteq> 0" by (simp add: scanned_start)
  qed
qed

lemma hole_inv_skip:
  assumes inv: "hole_inv t S h d" and d': "d' = hnext (length t) d" "d' \<noteq> h" "slot t d' \<noteq> 0"
    and pass: "\<not> on_path (home t (slot t d')) h d'"
  shows "hole_inv t S h d'"
proof -
  note I = hole_invD [OF inv]
  from d'(1) I(2) have d'n: "d' < length t" by (simp add: hnext_less)
  have sc: "scanned h d' p \<longleftrightarrow> scanned h d p \<or> p = d'" if "p < length t" for p
    using scanned_hnext [OF I(1,2) that] d' by simp
  show ?thesis
  proof (rule hole_invI [OF I(1) d'n I(3-6)])
    fix p q assume a: "p < length t" "p \<noteq> h" "slot t p \<noteq> 0" "q < length t"
      "on_path (home t (slot t p)) q p"
    with I(7) [OF this] pass sc show "if q = h then \<not> scanned h d' p else slot t q \<noteq> 0"
      by (auto split: if_splits)
  next
    fix p assume "p < length t" "scanned h d' p"
    with sc I(8) d'(3) show "slot t p \<noteq> 0" by auto
  qed
qed

lemma hole_inv_close:
  assumes inv: "hole_inv t S h d" and z: "slot t (hnext (length t) d) = 0"
  shows "hash_inv (set_slot h 0 t) S"
proof -
  note I = hole_invD [OF inv]
  let ?t = "set_slot h 0 t" and ?d = "hnext (length t) d"
  from I(2) have d'n: "?d < length t" by (rule hnext_less)
  from I(1) have slot': "slot ?t p = (if p = h then 0 else slot t p)" for p by simp
  show ?thesis
  proof (rule hash_invI)
    show "S \<subseteq> {0<..<length ?t}" using I(3) by simp
  next
    fix p assume "p < length ?t" "slot ?t p \<noteq> 0"
    then show "slot ?t p \<in> S" unfolding slot' using I(4) by (auto split: if_splits)
  next
    fix i assume "i \<in> S"
    from I(5) [OF this] show "\<exists>p<length ?t. slot ?t p = i" unfolding slot' by auto
  next
    fix p q assume "p < length ?t" "q < length ?t" "slot ?t p = slot ?t q" "slot ?t p \<noteq> 0"
    then show "p = q" unfolding slot' using I(6) [of p q] by (auto split: if_splits)
  next
    fix p q assume a: "p < length ?t" "slot ?t p \<noteq> 0" "q < length ?t"
      "on_path (home ?t (slot ?t p)) q p"
    then have p: "p < length t" "p \<noteq> h" "slot t p \<noteq> 0" and path: "on_path (home t (slot t p)) q p"
      using I(1) by (auto split: if_splits)
    have "q \<noteq> h"
    proof
      assume q: "q = h"
      with I(7) [OF p _ path] I(1) have ns: "\<not> scanned h d p" by simp
      then have ne: "?d \<noteq> h" using scanned_all [OF I(1,2) p(1)] p(2) by auto
      have "home t (slot t p) < length t" using p(1) by (auto intro: IH_LOCAL_HASH_less)
      moreover have "p \<noteq> ?d" using p(3) z by metis
      ultimately have "on_path (home t (slot t p)) ?d p"
        using beyond_scan [OF I(1,2) p(1) _ path [unfolded q] ns ne] by blast
      with I(7) [OF p d'n] ne z show False by auto
    qed
    with I(7) [OF p _ path] a(3) show "slot ?t q \<noteq> 0" unfolding slot' by simp
  qed
qed

lemma local_delete_loop_spec:
  assumes "hole_inv t S h d" and "e < length t" "e \<noteq> h" "slot t e = 0" and "cdist (length t) d e < fuel"
  shows "\<exists>t'. local_delete_loop fuel t h d = Some t' \<and> hash_inv t' S \<and> length t' = length t \<and>
    (\<forall>j. t' ! j = (t ! j)\<lparr>ie_index := slot t' j\<rparr>)"
  using assms
proof (induction fuel arbitrary: t h d)
  case (Suc fuel)
  note inv = Suc.prems(1) and I = hole_invD [OF Suc.prems(1)]
  let ?d = "hnext (length t) d" and ?i = "slot t (hnext (length t) d)"
  show ?case
  proof (cases "?i = 0")
    case True
    from hole_inv_close [OF inv True] I(1) True show ?thesis
      by (auto simp: set_slot_def entry_upd_def nth_list_update)
  next
    case False
    have "d = h \<or> slot t d \<noteq> 0" using I(8) [OF I(2)] by (cases "d = h") (auto simp: scanned_def)
    with Suc.prems have de: "d \<noteq> e" by auto
    from cdist_hnext [OF I(2) Suc.prems(2) de] Suc.prems(5)
    have m: "cdist (length t) ?d e < fuel" by simp
    have dh: "?d \<noteq> h"
      using scanned_all [OF I(1,2) Suc.prems(2)] I(8) [OF Suc.prems(2)] Suc.prems(3,4) by auto
    show ?thesis
    proof (cases "on_path (home t ?i) h ?d")
      case True
      let ?t = "set_slot h ?i t"
      from False Suc.prems(4) have "e \<noteq> ?d" by auto
      with Suc.IH [OF hole_inv_move [OF inv refl dh False True], of] Suc.prems I(1) m
      obtain t' where "local_delete_loop fuel ?t ?d ?d = Some t'" "hash_inv t' S" "length t' = length t"
        "\<forall>j. t' ! j = (?t ! j)\<lparr>ie_index := slot t' j\<rparr>" by auto
      with True False dh I(1) show ?thesis
        by (auto simp: Let_def displaced_iff set_slot_def entry_upd_def nth_list_update split: if_splits)
    next
      case F: False
      with Suc.IH [OF hole_inv_skip [OF inv refl dh False F]] Suc.prems m False dh show ?thesis
        by (auto simp: Let_def displaced_iff)
    qed
  qed
qed simp

lemma hole_inv_start:
  assumes inv: "hash_inv t S" and p: "p < length t" "slot t p = i" "i \<noteq> 0"
  shows "hole_inv t (S - {i}) p p"
proof (rule hole_invI)
  show "p < length t" "p < length t" "S - {i} \<subseteq> {0<..<length t}"
    using p hash_inv_range [OF inv] by auto
next
  fix q assume "q < length t" "q \<noteq> p" "slot t q \<noteq> 0"
  then show "slot t q \<in> S - {i}" using hash_inv_slot [OF inv] hash_inv_inj [OF inv, of q p] p by auto
next
  fix j assume j: "j \<in> S - {i}"
  then obtain q where "q < length t" "slot t q = j" using hash_inv_entered [OF inv] by auto
  with j p show "\<exists>q<length t. q \<noteq> p \<and> slot t q = j" by auto
next
  fix q r assume "q < length t" "r < length t" "slot t q = slot t r" "slot t q \<noteq> 0"
  then show "q = r" by (rule hash_inv_inj [OF inv])
next
  fix q r assume "q < length t" "slot t q \<noteq> 0" "r < length t" "on_path (home t (slot t q)) r q"
  then have "slot t r \<noteq> 0" by (rule hash_inv_clump [OF inv])
  then show "if r = p then \<not> scanned p p q else slot t r \<noteq> 0" by (simp add: scanned_start)
next
  fix q assume "scanned p p q"
  then show "slot t q \<noteq> 0" by (simp add: scanned_start)
qed

lemma ipc_hash_local_delete_spec:
  assumes inv: "hash_inv t S" and i: "i \<in> S" and obj: "ie_object (t ! i) = obj"
  obtains t' where "ipc_hash_local_delete obj i t = Some t'" and "hash_inv t' (S - {i})"
    and "length t' = length t" and "\<forall>j. t' ! j = (t ! j)\<lparr>ie_index := slot t' j\<rparr>"
proof -
  from hash_inv_range [OF inv i] have i0: "i \<noteq> 0" and "t \<noteq> []" by auto
  then have h: "IH_LOCAL_HASH obj (length t) < length t" by (simp add: IH_LOCAL_HASH_less)
  obtain p where p: "p < length t" "slot t p = i" using hash_inv_entered [OF inv i] by blast
  have f: "local_find_loop (length t) t i (IH_LOCAL_HASH obj (length t)) = Some p"
    by (rule local_find_loop_spec [OF inv p i0 h cdist_less [OF h p(1)]])
  obtain e where e: "e < length t" "slot t e = 0" using inv \<open>t \<noteq> []\<close> by (rule hash_inv_free_slot)
  with p i0 have "e \<noteq> p" by auto
  from local_delete_loop_spec [OF hole_inv_start [OF inv p i0] e(1) this e(2) cdist_less [OF p(1) e(1)]]
  obtain t' where "local_delete_loop (length t) t p p = Some t'" "hash_inv t' (S - {i})"
    "length t' = length t" "\<forall>j. t' ! j = (t ! j)\<lparr>ie_index := slot t' j\<rparr>" by blast
  with f show thesis by (intro that) (auto simp: ipc_hash_local_delete_def)
qed

end
