(* ===== verification/Ipc_Hash_Global.thy ===== *)
theory Ipc_Hash_Global
  imports Ipc_Hash
begin

section \<open>The global reverse hash table and the common interface (ipc/ipc_hash.c)\<close>

text \<open>
  The global table: one chain per bucket of the tree entries of all spaces that are pure
  send rights, with move-to-front at lookup.  A tree entry is identified by its space and its
  name; its object is the third field the chains are searched by.  The locks of the buckets
  are not modelled: every operation runs under the lock of the one bucket it uses.
\<close>

subsection \<open>Operations\<close>

record ipc_tree_entry =
  ite_space :: addr
  ite_name :: mach_port_t
  ite_object :: addr

record ipc_hash_global =
  ipc_hash_global_size :: u32
  ipc_hash_global_mask :: u32
  ipc_hash_global_table :: "ipc_tree_entry list list"

definition IH_GLOBAL_HASH :: "u32 \<Rightarrow> addr \<Rightarrow> addr \<Rightarrow> nat" where
  "IH_GLOBAL_HASH m space obj = unat ((drop_bit 4 space + drop_bit 6 obj) AND m)"

definition bucket_of :: "ipc_hash_global \<Rightarrow> addr \<Rightarrow> addr \<Rightarrow> nat" where
  "bucket_of g space obj = IH_GLOBAL_HASH (ipc_hash_global_mask g) space obj"

definition chain_match :: "addr \<Rightarrow> addr \<Rightarrow> ipc_tree_entry \<Rightarrow> bool" where
  "chain_match space obj this \<longleftrightarrow> ite_object this = obj \<and> ite_space this = space"

text \<open>
  The loops with \<open>this\<close> and \<open>last\<close>: the first entry of the chain that satisfies the test,
  and the chain without it.
\<close>

fun chain_unlink :: "(ipc_tree_entry \<Rightarrow> bool) \<Rightarrow> ipc_tree_entry list
    \<Rightarrow> (ipc_tree_entry \<times> ipc_tree_entry list) option" where
  "chain_unlink P [] = None"
| "chain_unlink P (this # chain) =
     (if P this then Some (this, chain)
      else case chain_unlink P chain of
             None \<Rightarrow> None
           | Some (found, chain') \<Rightarrow> Some (found, this # chain'))"

definition bucket_lookup :: "addr \<Rightarrow> addr \<Rightarrow> ipc_tree_entry list
    \<Rightarrow> ipc_tree_entry option \<times> ipc_tree_entry list" where
  "bucket_lookup space obj bucket =
     (case bucket of
        [] \<Rightarrow> (None, [])
      | this # chain \<Rightarrow>
          if chain_match space obj this then (Some this, bucket)
          else case chain_unlink (chain_match space obj) chain of
                 None \<Rightarrow> (None, bucket)
               | Some (found, chain') \<Rightarrow> (Some found, found # this # chain'))"

definition set_bucket :: "nat \<Rightarrow> ipc_tree_entry list \<Rightarrow> ipc_hash_global \<Rightarrow> ipc_hash_global" where
  "set_bucket i b g = g\<lparr>ipc_hash_global_table := (ipc_hash_global_table g)[i := b]\<rparr>"

definition ipc_hash_global_lookup :: "addr \<Rightarrow> addr \<Rightarrow> ipc_hash_global
    \<Rightarrow> ipc_tree_entry option \<times> ipc_hash_global" where
  "ipc_hash_global_lookup space obj g =
     (let i = bucket_of g space obj;
          (found, b) = bucket_lookup space obj (ipc_hash_global_table g ! i)
      in (found, set_bucket i b g))"

definition ipc_hash_global_insert :: "addr \<Rightarrow> mach_port_t \<Rightarrow> ipc_space \<Rightarrow> ipc_hash_global
    \<Rightarrow> ipc_space \<times> ipc_hash_global" where
  "ipc_hash_global_insert obj name space g =
     (let space' = space\<lparr>is_tree_hash := is_tree_hash space + 1\<rparr>;
          entry = \<lparr>ite_space = is_addr space, ite_name = name, ite_object = obj\<rparr>;
          i = bucket_of g (is_addr space) obj
      in (space', set_bucket i (entry # ipc_hash_global_table g ! i) g))"

definition chain_is :: "addr \<Rightarrow> mach_port_t \<Rightarrow> ipc_tree_entry \<Rightarrow> bool" where
  "chain_is space name this \<longleftrightarrow> ite_space this = space \<and> ite_name this = name"

definition ipc_hash_global_delete :: "addr \<Rightarrow> mach_port_t \<Rightarrow> ipc_space \<Rightarrow> ipc_hash_global
    \<Rightarrow> ipc_space \<times> ipc_hash_global" where
  "ipc_hash_global_delete obj name space g =
     (let space' = space\<lparr>is_tree_hash := is_tree_hash space - 1\<rparr>;
          i = bucket_of g (is_addr space) obj
      in (space',
          case chain_unlink (chain_is (is_addr space) name) (ipc_hash_global_table g ! i) of
            None \<Rightarrow> g
          | Some (this, chain) \<Rightarrow> set_bucket i chain g))"

text \<open>The counts that \<open>ipc_hash_info\<close> reports (once its buffer is allocated).\<close>

definition ipc_hash_info_counts :: "ipc_hash_global \<Rightarrow> nat list" where
  "ipc_hash_info_counts g =
     map (\<lambda>i. fold (\<lambda>entry count. count + 1) (ipc_hash_global_table g ! i) (0::nat))
       [0..<unat (ipc_hash_global_size g)]"

text \<open>The rounding loop; 32 rounds are all the bits there are.\<close>

fun hash_init_loop :: "nat \<Rightarrow> u32 \<Rightarrow> u32 \<Rightarrow> (u32 \<times> u32) option" where
  "hash_init_loop 0 b m = None"
| "hash_init_loop (Suc fuel) b m =
     (let m' = m OR b; sz = m' + 1
      in if sz AND m' = 0 then Some (sz, m') else hash_init_loop fuel (push_bit 1 b) m')"

definition hash_init_size :: "u32 \<Rightarrow> u32 \<Rightarrow> u32" where
  "hash_init_size configured tree_entry_max =
     (if configured = 0
      then let sz = drop_bit 8 tree_entry_max in if sz < 32 then 32 else sz
      else configured)"

definition ipc_hash_init :: "u32 \<Rightarrow> u32 \<Rightarrow> ipc_hash_global option" where
  "ipc_hash_init configured tree_entry_max =
     do {
       let sz = hash_init_size configured tree_entry_max;
       let m = sz - 1;
       (sz', m') \<leftarrow> (if sz AND m \<noteq> 0 then hash_init_loop 32 1 m else Some (sz, m));
       Some \<lparr>ipc_hash_global_size = sz', ipc_hash_global_mask = m',
             ipc_hash_global_table = replicate (unat sz') []\<rparr>
     }"

subsection \<open>The interface to both tables\<close>

text \<open>Where an entry is: an element of the table of the space, or a node of its tree.\<close>

datatype ipc_entry_ref = TableEntry nat | TreeEntry mach_port_t

definition ipc_hash_lookup :: "addr \<Rightarrow> ipc_space \<Rightarrow> ipc_hash_global
    \<Rightarrow> ((mach_port_t \<times> ipc_entry_ref) option \<times> ipc_hash_global) option" where
  "ipc_hash_lookup obj space g =
     do {
       found \<leftarrow> ipc_hash_local_lookup (is_table space) obj;
       case found of
         Some index \<Rightarrow>
           Some (Some (MACH_PORT_MAKEB (of_nat index) (ie_bits (is_table space ! index)), TableEntry index), g)
       | None \<Rightarrow>
           if 0 < is_tree_hash space
           then let (this, g') = ipc_hash_global_lookup (is_addr space) obj g
                in Some (map_option (\<lambda>e. (ite_name e, TreeEntry (ite_name e))) this, g')
           else Some (None, g)
     }"

definition ipc_hash_insert :: "addr \<Rightarrow> mach_port_t \<Rightarrow> ipc_entry_ref \<Rightarrow> ipc_space \<Rightarrow> ipc_hash_global
    \<Rightarrow> (ipc_space \<times> ipc_hash_global) option" where
  "ipc_hash_insert obj name entry space g =
     (let index = unat (MACH_PORT_INDEX name)
      in if index < is_table_size space \<and> entry = TableEntry index
         then do {
           t \<leftarrow> ipc_hash_local_insert obj index (is_table space);
           Some (space\<lparr>is_table := t\<rparr>, g)
         }
         else Some (ipc_hash_global_insert obj name space g))"

definition ipc_hash_delete :: "addr \<Rightarrow> mach_port_t \<Rightarrow> ipc_entry_ref \<Rightarrow> ipc_space \<Rightarrow> ipc_hash_global
    \<Rightarrow> (ipc_space \<times> ipc_hash_global) option" where
  "ipc_hash_delete obj name entry space g =
     (let index = unat (MACH_PORT_INDEX name)
      in if index < is_table_size space \<and> entry = TableEntry index
         then do {
           t \<leftarrow> ipc_hash_local_delete obj index (is_table space);
           Some (space\<lparr>is_table := t\<rparr>, g)
         }
         else Some (ipc_hash_global_delete obj name space g))"

subsection \<open>The global table as a set of entries\<close>

definition gh_entries :: "ipc_hash_global \<Rightarrow> ipc_tree_entry set" where
  "gh_entries g = \<Union> (set (map set (ipc_hash_global_table g)))"

text \<open>
  The size is the number of buckets, a power of two, the mask is one less; every entry is in
  its bucket, and no two entries have the same space and name.
\<close>

abbreviation gh_key :: "ipc_tree_entry \<Rightarrow> addr \<times> mach_port_t" where
  "gh_key e \<equiv> (ite_space e, ite_name e)"

definition gh_inv :: "ipc_hash_global \<Rightarrow> bool" where
  "gh_inv g \<longleftrightarrow>
     (\<forall>s obj. bucket_of g s obj < length (ipc_hash_global_table g)) \<and>
     (\<forall>i<length (ipc_hash_global_table g). distinct (map gh_key (ipc_hash_global_table g ! i)) \<and>
        (\<forall>e\<in>set (ipc_hash_global_table g ! i). bucket_of g (ite_space e) (ite_object e) = i)) \<and>
     inj_on gh_key (gh_entries g)"

lemma bucket_of_set_bucket [simp]: "bucket_of (set_bucket i b g) = bucket_of g"
  by (simp add: bucket_of_def set_bucket_def fun_eq_iff)

lemma chain_unlink_None: "chain_unlink P b = None \<longleftrightarrow> (\<forall>e\<in>set b. \<not> P e)"
  by (induction b) (auto split: option.splits)

lemma chain_unlink_Some:
  "chain_unlink P b = Some (e, b') \<Longrightarrow> \<exists>xs ys. b = xs @ e # ys \<and> b' = xs @ ys \<and> P e \<and> (\<forall>x\<in>set xs. \<not> P x)"
proof (induction b arbitrary: b')
  case (Cons a b)
  show ?case
  proof (cases "P a")
    case True
    with Cons.prems show ?thesis by (intro exI [of _ "[]"] exI [of _ b]) auto
  next
    case False
    with Cons.prems obtain b0 where b0: "chain_unlink P b = Some (e, b0)" "b' = a # b0"
      by (auto split: option.splits)
    from Cons.IH [OF b0(1)] obtain xs ys where "b = xs @ e # ys" "b0 = xs @ ys" "P e" "\<forall>x\<in>set xs. \<not> P x"
      by blast
    with b0 False show ?thesis by (intro exI [of _ "a # xs"] exI [of _ ys]) auto
  qed
qed simp

lemma bucket_lookup_spec:
  assumes "bucket_lookup s obj b = (found, b')"
  shows "set b' = set b \<and> (distinct (map gh_key b) \<longrightarrow> distinct (map gh_key b')) \<and>
    (case found of None \<Rightarrow> \<forall>e\<in>set b. \<not> chain_match s obj e
                 | Some e \<Rightarrow> e \<in> set b \<and> chain_match s obj e \<and> (\<exists>c. b' = e # c))"
proof (cases b)
  case (Cons a c)
  consider "chain_match s obj a"
    | "\<not> chain_match s obj a" "chain_unlink (chain_match s obj) c = None"
    | e d where "\<not> chain_match s obj a" "chain_unlink (chain_match s obj) c = Some (e, d)"
    by (cases "chain_unlink (chain_match s obj) c") auto
  then show ?thesis
  proof cases
    case 1
    with assms Cons show ?thesis by (auto simp: bucket_lookup_def)
  next
    case 2
    from this(2) have "\<forall>e\<in>set c. \<not> chain_match s obj e" by (simp add: chain_unlink_None)
    with 2 assms Cons show ?thesis by (auto simp: bucket_lookup_def)
  next
    case 3
    from chain_unlink_Some [OF 3(2)] obtain xs ys
      where "c = xs @ e # ys" "d = xs @ ys" "chain_match s obj e" by blast
    with 3 assms Cons show ?thesis by (auto simp: bucket_lookup_def)
  qed
qed (use assms in \<open>simp add: bucket_lookup_def\<close>)

lemma in_gh_entries:
  "e \<in> gh_entries g \<longleftrightarrow> (\<exists>i<length (ipc_hash_global_table g). e \<in> set (ipc_hash_global_table g ! i))"
  by (auto simp: gh_entries_def in_set_conv_nth Bex_def)

lemma gh_inv_bucket: "gh_inv g \<Longrightarrow> bucket_of g s obj < length (ipc_hash_global_table g)"
  by (simp add: gh_inv_def)

lemma gh_inv_in_bucket:
  assumes "gh_inv g"
  shows "e \<in> gh_entries g \<longleftrightarrow>
    e \<in> set (ipc_hash_global_table g ! bucket_of g (ite_space e) (ite_object e))"
proof
  assume "e \<in> gh_entries g"
  with assms show "e \<in> set (ipc_hash_global_table g ! bucket_of g (ite_space e) (ite_object e))"
    by (auto simp: in_gh_entries gh_inv_def)
next
  assume "e \<in> set (ipc_hash_global_table g ! bucket_of g (ite_space e) (ite_object e))"
  with gh_inv_bucket [OF assms] show "e \<in> gh_entries g" by (auto simp: in_gh_entries)
qed

lemma gh_inv_bucket_set:
  "gh_inv g \<Longrightarrow> i < length (ipc_hash_global_table g) \<Longrightarrow>
     set (ipc_hash_global_table g ! i) = {e \<in> gh_entries g. bucket_of g (ite_space e) (ite_object e) = i}"
  by (auto simp: in_gh_entries gh_inv_def)

text \<open>Replacing one bucket.\<close>

lemma gh_entries_set_bucket:
  assumes "gh_inv g" and "i < length (ipc_hash_global_table g)"
  shows "gh_entries (set_bucket i b g) =
    {e \<in> gh_entries g. bucket_of g (ite_space e) (ite_object e) \<noteq> i} \<union> set b"
proof -
  let ?t = "ipc_hash_global_table g"
  have home: "bucket_of g (ite_space e) (ite_object e) = j" if "j < length ?t" "e \<in> set (?t ! j)" for e j
    using assms(1) that by (auto simp: gh_inv_def)
  have "e \<in> gh_entries (set_bucket i b g) \<longleftrightarrow>
      e \<in> set b \<or> (\<exists>j<length ?t. j \<noteq> i \<and> e \<in> set (?t ! j))" for e
    using assms(2) by (auto simp: in_gh_entries set_bucket_def nth_list_update split: if_splits)
  with home show ?thesis by (auto simp: in_gh_entries)
qed

lemma gh_inv_set_bucket:
  assumes inv: "gh_inv g" and i: "i < length (ipc_hash_global_table g)"
    and b: "distinct (map gh_key b)" "\<forall>e\<in>set b. bucket_of g (ite_space e) (ite_object e) = i"
    and inj: "inj_on gh_key (gh_entries (set_bucket i b g))"
  shows "gh_inv (set_bucket i b g)"
  using assms unfolding gh_inv_def by (auto simp: set_bucket_def nth_list_update bucket_of_def)

lemma ipc_hash_global_lookup_spec:
  assumes inv: "gh_inv g"
  obtains found g' where "ipc_hash_global_lookup s obj g = (found, g')" and "gh_inv g'"
    and "gh_entries g' = gh_entries g" and "ipc_hash_global_mask g' = ipc_hash_global_mask g"
    and "case found of None \<Rightarrow> \<forall>e\<in>gh_entries g. \<not> chain_match s obj e
                     | Some e \<Rightarrow> e \<in> gh_entries g \<and> chain_match s obj e"
proof -
  let ?i = "bucket_of g s obj" and ?t = "ipc_hash_global_table g"
  obtain found b where f: "bucket_lookup s obj (?t ! ?i) = (found, b)" by fastforce
  note spec = bucket_lookup_spec [OF f]
  have i: "?i < length ?t" by (rule gh_inv_bucket [OF inv])
  have set: "set b = set (?t ! ?i)" using spec by simp
  have E: "gh_entries (set_bucket ?i b g) = gh_entries g"
    unfolding gh_entries_set_bucket [OF inv i] set gh_inv_bucket_set [OF inv i] by auto
  have d: "distinct (map gh_key b)" using spec inv i by (auto simp: gh_inv_def)
  have "gh_inv (set_bucket ?i b g)"
    using inv i by (intro gh_inv_set_bucket d) (auto simp: set E gh_inv_def)
  moreover have "ipc_hash_global_lookup s obj g = (found, set_bucket ?i b g)"
    by (simp add: ipc_hash_global_lookup_def f)
  moreover have "case found of None \<Rightarrow> \<forall>e\<in>gh_entries g. \<not> chain_match s obj e
                     | Some e \<Rightarrow> e \<in> gh_entries g \<and> chain_match s obj e"
    using spec gh_inv_in_bucket [OF inv] i
    by (auto simp: chain_match_def in_gh_entries split: option.splits)
  moreover have "ipc_hash_global_mask (set_bucket ?i b g) = ipc_hash_global_mask g"
    by (simp add: set_bucket_def)
  ultimately show thesis using E by (intro that)
qed

lemma ipc_hash_global_insert_spec:
  assumes inv: "gh_inv g" and new: "(is_addr s, name) \<notin> gh_key ` gh_entries g"
  shows "\<exists>g'. ipc_hash_global_insert obj name s g = (s\<lparr>is_tree_hash := is_tree_hash s + 1\<rparr>, g') \<and>
    gh_inv g' \<and> ipc_hash_global_mask g' = ipc_hash_global_mask g \<and>
    gh_entries g' = insert \<lparr>ite_space = is_addr s, ite_name = name, ite_object = obj\<rparr> (gh_entries g)"
proof -
  let ?e = "\<lparr>ite_space = is_addr s, ite_name = name, ite_object = obj\<rparr>"
  let ?i = "bucket_of g (is_addr s) obj" and ?t = "ipc_hash_global_table g"
  let ?g = "set_bucket ?i (?e # ?t ! ?i) g"
  have i: "?i < length ?t" by (rule gh_inv_bucket [OF inv])
  have E: "gh_entries ?g = insert ?e (gh_entries g)"
    unfolding gh_entries_set_bucket [OF inv i] list.set gh_inv_bucket_set [OF inv i] by auto
  have nb: "(is_addr s, name) \<notin> gh_key ` set (?t ! ?i)"
    using new i by (auto simp: in_gh_entries image_iff)
  have "inj_on gh_key (gh_entries ?g)"
    unfolding E using new inv by (auto simp: gh_inv_def image_iff)
  then have "gh_inv ?g" using inv i nb by (intro gh_inv_set_bucket) (auto simp: gh_inv_def)
  with E show ?thesis by (auto simp: ipc_hash_global_insert_def Let_def set_bucket_def)
qed

lemma ipc_hash_global_delete_spec:
  assumes inv: "gh_inv g" and e: "e \<in> gh_entries g" "ite_space e = is_addr s" "ite_object e = obj"
  shows "\<exists>g'. ipc_hash_global_delete obj (ite_name e) s g = (s\<lparr>is_tree_hash := is_tree_hash s - 1\<rparr>, g') \<and>
    gh_inv g' \<and> ipc_hash_global_mask g' = ipc_hash_global_mask g \<and>
    gh_entries g' = gh_entries g - {e}"
proof -
  let ?i = "bucket_of g (is_addr s) obj" and ?t = "ipc_hash_global_table g"
  have i: "?i < length ?t" by (rule gh_inv_bucket [OF inv])
  have eb: "e \<in> set (?t ! ?i)" using e gh_inv_in_bucket [OF inv] by auto
  have only: "chain_is (is_addr s) (ite_name e) x \<longleftrightarrow> x = e" if "x \<in> gh_entries g" for x
    using inv that e unfolding gh_inv_def chain_is_def inj_on_def by auto
  have sub: "set (?t ! ?i) \<subseteq> gh_entries g" using i by (auto simp: in_gh_entries)
  obtain x b where u: "chain_unlink (chain_is (is_addr s) (ite_name e)) (?t ! ?i) = Some (x, b)"
    using eb only [OF e(1)] chain_unlink_None [of "chain_is (is_addr s) (ite_name e)" "?t ! ?i"]
    by (cases "chain_unlink (chain_is (is_addr s) (ite_name e)) (?t ! ?i)") auto
  from chain_unlink_Some [OF u] obtain xs ys where xy: "?t ! ?i = xs @ x # ys" "b = xs @ ys"
    "chain_is (is_addr s) (ite_name e) x" by blast
  with sub only have x: "x = e" by auto
  have d: "distinct (map gh_key (?t ! ?i))" using inv i by (auto simp: gh_inv_def)
  have set: "set b = set (?t ! ?i) - {e}"
  proof -
    have "e \<notin> set xs \<union> set ys" using d xy(1) x by force
    with xy x show ?thesis by auto
  qed
  have E: "gh_entries (set_bucket ?i b g) = gh_entries g - {e}"
    unfolding gh_entries_set_bucket [OF inv i] set gh_inv_bucket_set [OF inv i] using e by auto
  have db: "distinct (map gh_key b)" using d xy by auto
  have "inj_on gh_key (gh_entries (set_bucket ?i b g))"
    unfolding E using inv by (auto simp: gh_inv_def inj_on_diff)
  then have "gh_inv (set_bucket ?i b g)" using inv i db by (intro gh_inv_set_bucket) (auto simp: gh_inv_def set)
  with E u show ?thesis by (auto simp: ipc_hash_global_delete_def Let_def set_bucket_def)
qed

lemma gh_entries_count:
  assumes "gh_inv g"
  shows "card (gh_entries g) = sum_list (map length (ipc_hash_global_table g))"
proof -
  let ?t = "ipc_hash_global_table g"
  have "card (gh_entries g) = card (\<Union>i<length ?t. set (?t ! i))"
    by (intro arg_cong [of _ _ card]) (auto simp: in_gh_entries)
  also have "\<dots> = (\<Sum>i<length ?t. card (set (?t ! i)))"
  proof (intro card_UN_disjoint ballI impI)
    fix i j assume "i \<in> {..<length ?t}" "j \<in> {..<length ?t}" "i \<noteq> j"
    then show "set (?t ! i) \<inter> set (?t ! j) = {}" using gh_inv_bucket_set [OF assms] by auto
  qed auto
  also have "\<dots> = (\<Sum>i<length ?t. length (?t ! i))"
    using assms by (intro sum.cong) (auto simp: gh_inv_def distinct_map intro!: distinct_card)
  finally show ?thesis by (simp add: sum_list_sum_nth atLeast0LessThan)
qed

lemma ipc_hash_info_counts_eq:
  "length (ipc_hash_global_table g) = unat (ipc_hash_global_size g) \<Longrightarrow>
     ipc_hash_info_counts g = map length (ipc_hash_global_table g)"
proof -
  have "fold (\<lambda>entry count. count + 1) c n = n + length c" for c :: "ipc_tree_entry list" and n :: nat
    by (induction c arbitrary: n) auto
  then show "length (ipc_hash_global_table g) = unat (ipc_hash_global_size g) \<Longrightarrow> ?thesis"
    unfolding ipc_hash_info_counts_def by (intro nth_equalityI) auto
qed

subsection \<open>Initialisation\<close>

lemma and_pred_nat:
  fixes n :: nat
  assumes "n AND (n - 1) = 0" and "0 < n"
  shows "\<exists>k. n = 2 ^ k"
proof -
  obtain k where k: "2 ^ k \<le> n" "n < 2 ^ (k + 1)"
    using ex_power_ivl1 [of 2 n] assms(2) by auto
  have "n = 2 ^ k"
  proof (rule ccontr)
    assume "n \<noteq> 2 ^ k"
    with k have k1: "2 ^ k \<le> n - 1" "n - 1 < 2 ^ (k + 1)" by auto
    have top: "bit m k" if "2 ^ k \<le> m" "m < 2 ^ (k + 1)" for m :: nat
    proof -
      have "m div 2 ^ k = 1" using that by (intro div_nat_eqI) auto
      then show ?thesis by (simp add: bit_iff_odd)
    qed
    from top [OF k] top [OF k1] have "bit (n AND (n - 1)) k" by (simp add: bit_and_iff)
    with assms(1) show False by simp
  qed
  then show ?thesis ..
qed

lemma or_less_exp: "a < 2 ^ n \<Longrightarrow> b < 2 ^ n \<Longrightarrow> a OR b < (2 :: nat) ^ n"
  by (simp add: take_bit_nat_eq_self_iff [symmetric] take_bit_or)

lemma le_or_nat: "a \<le> a OR (b :: nat)"
  using or_greater_eq [of "int b" "int a"] by (simp flip: of_nat_or_eq)

lemma unat_pow: "n < 32 \<Longrightarrow> unat (2 ^ n :: u32) = 2 ^ n"
proof -
  assume "n < 32"
  then have "(2 :: nat) ^ n < 2 ^ 32" by (intro power_strict_increasing) auto
  then have "unat (of_nat (2 ^ n) :: u32) = 2 ^ n"
    by (simp only: unat_of_nat len_num1 len_bit0) simp
  then show ?thesis by simp
qed

lemma full_mask:
  fixes m :: u32
  assumes "unat m < 2 ^ n" and "\<forall>i<n. bit m i" and "n < 32"
  shows "(m + 1) AND m = 0"
proof -
  have "m = mask n"
  proof (rule bit_word_eqI)
    fix i assume "i < LENGTH(32)"
    have "\<not> bit (unat m) i" if "n \<le> i"
    proof -
      have "unat m < 2 ^ i" using assms(1) that by (meson le_less_trans less_le_trans one_le_numeral power_increasing)
      then show ?thesis by (simp add: bit_iff_odd)
    qed
    then show "bit m i \<longleftrightarrow> bit (mask n :: u32) i"
      using assms(2) \<open>i < LENGTH(32)\<close>
      by (cases "n \<le> i") (auto simp: bit_mask_iff bit_unsigned_iff)
  qed
  then have "m + 1 = push_bit n 1" by (simp add: mask_eq_exp_minus_1 push_bit_eq_mult)
  with \<open>m = mask n\<close> show ?thesis
    by (auto intro!: bit_word_eqI simp: bit_and_iff bit_push_bit_iff bit_mask_iff bit_1_iff bit_exp_iff)
qed

lemma hash_init_loop_spec:
  assumes "2 ^ k \<le> unat m" "unat m < 2 ^ (k + 1)" "k \<le> 30" "\<forall>i<j. bit m i" "j \<le> k"
    and "k < j + fuel"
  shows "hash_init_loop fuel (push_bit j 1) m = Some (2 ^ (k + 1), 2 ^ (k + 1) - 1)"
  using assms(1,2,4-)
proof (induction fuel arbitrary: m j)
  case (Suc fuel)
  let ?m = "m OR push_bit j 1"
  have k32: "2 ^ (k + 1) \<le> (2 :: nat) ^ 31" using assms(3) by (intro power_increasing) auto
  have "unat (push_bit j 1 :: u32) = 2 ^ j"
    using Suc.prems(4) assms(3) by (simp add: push_bit_eq_mult unat_pow)
  moreover have "(2 :: nat) ^ j < 2 ^ (k + 1)" using Suc.prems(4) by (intro power_strict_increasing) auto
  ultimately have ub: "unat ?m < 2 ^ (k + 1)"
    using or_less_exp [OF Suc.prems(2)] by (simp only: unsigned_or_eq)
  have lb: "2 ^ k \<le> unat ?m" using Suc.prems(1) le_or_nat [of "unat m"] by (simp add: unsigned_or_eq) (meson le_trans)
  have bits: "\<forall>i<Suc j. bit ?m i"
    using Suc.prems(3,4) assms(3) by (auto simp: bit_or_iff bit_push_bit_iff less_Suc_eq bit_1_iff bit_exp_iff)
  have "(2 :: nat) ^ 31 < 2 ^ 32" by simp
  with ub k32 have "unat ?m + 1 < 2 ^ 32" by linarith
  then have u1: "unat (?m + 1) = unat ?m + 1" by (simp add: unat_word_ariths)
  show ?case
  proof (cases "(?m + 1) AND ?m = 0")
    case True
    then have "unat (?m + 1) AND unat ?m = 0" by (metis unsigned_and_eq unat_0)
    with u1 have "\<exists>l. unat ?m + 1 = 2 ^ l" by (intro and_pred_nat) auto
    then obtain l where l: "unat ?m + 1 = 2 ^ l" ..
    have "(2 :: nat) ^ k < 2 ^ l" "(2 :: nat) ^ l \<le> 2 ^ (k + 1)"
      unfolding l [symmetric] using lb ub by linarith+
    then have "l = k + 1"
      using power_strict_increasing_iff [of "2 :: nat" k l] power_increasing_iff [of "2 :: nat" l "k + 1"]
      by simp
    with l u1 have "unat (?m + 1) = 2 ^ (k + 1)" by metis
    then have "?m + 1 = 2 ^ (k + 1)"
      using unat_pow [of "k + 1"] assms(3) by (simp add: word_unat_eq_iff)
    with True show ?thesis by (auto simp: Let_def eq_diff_eq)
  next
    case False
    have "j < k"
    proof (rule ccontr)
      assume "\<not> j < k"
      with bits Suc.prems(4) have "\<forall>i<k + 1. bit ?m i" by auto
      with full_mask [OF ub] assms(3) False show False by auto
    qed
    with Suc.IH [OF lb ub bits] Suc.prems False show ?thesis by (simp add: Let_def push_bit_Suc mult.commute)
  qed
qed simp

lemma gh_inv_empty:
  assumes "unat m < n"
  shows "gh_inv \<lparr>ipc_hash_global_size = sz, ipc_hash_global_mask = m, ipc_hash_global_table = replicate n []\<rparr>"
proof -
  have "unat (x AND m) < n" for x using assms word_and_le1 [of x m] by (meson le_less_trans word_le_nat_alt)
  then show ?thesis by (auto simp: gh_inv_def gh_entries_def bucket_of_def IH_GLOBAL_HASH_def set_replicate_conv_if)
qed

lemma ipc_hash_init_size:
  assumes "hash_init_size configured tree_entry_max \<le> 2 ^ 31"
  shows "\<exists>g k. ipc_hash_init configured tree_entry_max = Some g \<and> gh_inv g \<and> gh_entries g = {} \<and>
    unat (ipc_hash_global_size g) = 2 ^ k \<and> length (ipc_hash_global_table g) = 2 ^ k \<and>
    hash_init_size configured tree_entry_max \<le> ipc_hash_global_size g \<and>
    unat (ipc_hash_global_size g) < 2 * unat (hash_init_size configured tree_entry_max)"
proof -
  let ?S = "hash_init_size configured tree_entry_max"
  have S0: "?S \<noteq> 0" by (auto simp: hash_init_size_def Let_def not_less)
  then have u1: "unat (?S - 1) = unat ?S - 1" by (simp add: unat_minus_one)
  have u0: "0 < unat ?S" using S0 by (simp add: unat_gt_0)
  have result: "?thesis" if r: "ipc_hash_init configured tree_entry_max =
      Some \<lparr>ipc_hash_global_size = 2 ^ k, ipc_hash_global_mask = 2 ^ k - 1,
            ipc_hash_global_table = replicate (unat (2 ^ k :: u32)) []\<rparr>"
    and k: "k < 32" "unat ?S \<le> 2 ^ k" "2 ^ k < 2 * unat ?S" for k
  proof -
    have "unat (2 ^ k - 1 :: u32) < 2 ^ k"
    proof -
      have "(2 ^ k :: u32) \<noteq> 0" using unat_pow [OF k(1)] by (metis unat_0 power_not_zero zero_neq_numeral)
      then show ?thesis using unat_pow [OF k(1)] by (simp add: unat_minus_one)
    qed
    moreover have "replicate (2 ^ k) {} \<noteq> []" by simp
    ultimately show ?thesis
      using k unat_pow [OF k(1)] unfolding r
      by (intro exI [of _ "\<lparr>ipc_hash_global_size = 2 ^ k, ipc_hash_global_mask = 2 ^ k - 1,
            ipc_hash_global_table = replicate (unat (2 ^ k :: u32)) []\<rparr>"] exI [of _ k])
        (auto simp: gh_inv_empty gh_entries_def word_le_nat_alt set_replicate_conv_if)
  qed
  show ?thesis
  proof (cases "?S AND (?S - 1) = 0")
    case True
    then have "unat ?S AND (unat ?S - 1) = 0" using u1 by (metis unsigned_and_eq unat_0)
    from and_pred_nat [OF this u0] obtain k where k: "unat ?S = 2 ^ k" ..
    moreover have "unat ?S < 2 ^ 32" using unsigned_less [where ?'a = nat, of ?S] by simp
    ultimately have "k < 32" using power_strict_increasing_iff [of "2 :: nat" k 32] by simp
    then have "?S = 2 ^ k" using k unat_pow by (metis word_unat_eq_iff)
    with True k \<open>k < 32\<close> show ?thesis by (intro result [of k]) (auto simp: ipc_hash_init_def Let_def)
  next
    case False
    let ?m = "?S - 1"
    have "unat ?S \<noteq> 1" using False by (metis unat_1 word_unat_eq_iff and_zero_eq diff_self)
    with u0 u1 have "1 \<le> unat ?m" by simp
    then obtain k where k: "2 ^ k \<le> unat ?m" "unat ?m < 2 ^ (k + 1)"
      using ex_power_ivl1 [of 2 "unat ?m"] by auto
    have "unat ?S \<le> 2 ^ 31" using assms unat_pow [of 31] by (simp add: word_le_nat_alt)
    with k u1 u0 have "(2 :: nat) ^ k < 2 ^ 31" by linarith
    then have "k \<le> 30" using power_strict_increasing_iff [of "2 :: nat" k 31] by simp
    with hash_init_loop_spec [OF k this, of 0 32]
    have "hash_init_loop 32 1 ?m = Some (2 ^ (k + 1), 2 ^ (k + 1) - 1)" by simp
    moreover have "unat ?S \<le> 2 ^ (k + 1)" "2 ^ (k + 1) < 2 * unat ?S" using k u1 u0 by simp_all
    ultimately show ?thesis
      using False \<open>k \<le> 30\<close> by (intro result [of "k + 1"]) (auto simp: ipc_hash_init_def Let_def)
  qed
qed

end
