(* ===== verification/Ipc_Table.thy ===== *)
theory Ipc_Table
  imports Ipc_Space
begin

section \<open>The sizes of tables (ipc/ipc_table.c)\<close>

text \<open>
  The arrays of table sizes that the entry tables and the dead-name request tables grow
  through.  \<open>its\<close> is the part of the array filled so far, so that \<open>index\<close> is its length; the
  sizes are machine words.  The doubling loops are given 32 rounds, one per bit of a word.
\<close>

fun fill_powers :: "nat \<Rightarrow> u32 \<Rightarrow> nat \<Rightarrow> u32 \<Rightarrow> u32 \<Rightarrow> u32 \<Rightarrow> u32 list \<Rightarrow> (u32 \<times> u32 list) option" where
  "fill_powers 0 PAGE_SIZE num minsize elemsize sz its = None"
| "fill_powers (Suc fuel) PAGE_SIZE num minsize elemsize sz its =
     (if length its < num \<and> sz < PAGE_SIZE
      then fill_powers fuel PAGE_SIZE num minsize elemsize (push_bit 1 sz)
             (if minsize \<le> sz then its @ [sz div elemsize] else its)
      else Some (sz, its))"

text \<open>One period of at most fifteen sizes; the first argument counts what is left of it.\<close>

fun fill_period :: "nat \<Rightarrow> nat \<Rightarrow> u32 \<Rightarrow> u32 \<Rightarrow> u32 \<Rightarrow> u32 \<Rightarrow> u32 list \<Rightarrow> u32 \<times> u32 list" where
  "fill_period 0 num minsize elemsize incrsize sz its = (sz, its)"
| "fill_period (Suc period) num minsize elemsize incrsize sz its =
     (if length its < num
      then fill_period period num minsize elemsize incrsize (sz + incrsize)
             (if minsize \<le> sz then its @ [sz div elemsize] else its)
      else (sz, its))"

fun fill_pages :: "nat \<Rightarrow> nat \<Rightarrow> u32 \<Rightarrow> u32 \<Rightarrow> u32 \<Rightarrow> u32 \<Rightarrow> u32 list \<Rightarrow> u32 list option" where
  "fill_pages 0 num minsize elemsize incrsize sz its = None"
| "fill_pages (Suc fuel) num minsize elemsize incrsize sz its =
     (if length its < num
      then let (sz', its') = fill_period 15 num minsize elemsize incrsize sz its
           in fill_pages fuel num minsize elemsize (push_bit 1 incrsize) sz' its'
      else Some its)"

definition ipc_table_fill :: "u32 \<Rightarrow> nat \<Rightarrow> u32 \<Rightarrow> u32 \<Rightarrow> u32 list option" where
  "ipc_table_fill PAGE_SIZE num min_elems elemsize =
     (let minsize = min_elems * elemsize
      in case fill_powers 33 PAGE_SIZE num minsize elemsize 1 [] of
           None \<Rightarrow> None
         | Some (sz, its) \<Rightarrow> fill_pages 33 num minsize elemsize PAGE_SIZE sz its)"

definition ipc_table_entries_size :: nat where "ipc_table_entries_size = 128"
definition ipc_table_dnrequests_size :: nat where "ipc_table_dnrequests_size = 64"

definition ipc_table_init :: "u32 \<Rightarrow> (u32 list \<times> u32 list) option" where
  "ipc_table_init PAGE_SIZE =
     (case ipc_table_fill PAGE_SIZE (ipc_table_entries_size - 1) 4 (of_nat sizeof_ipc_entry) of
        None \<Rightarrow> None
      | Some entries \<Rightarrow>
          (case ipc_table_fill PAGE_SIZE (ipc_table_dnrequests_size - 1) 2
                  (of_nat sizeof_ipc_port_request) of
             None \<Rightarrow> None
           | Some dnrequests \<Rightarrow>
               Some (entries @ [entries ! (ipc_table_entries_size - 2)], dnrequests @ [0])))"

text \<open>The arrays of the mac2 (\<open>mach/mac2/vm_param.h\<close>), as numbers.\<close>

definition MAC2_PGBYTES :: u32 where "MAC2_PGBYTES = 8192"

definition ipc_table_entries :: "nat list" where
  "ipc_table_entries =
     (case ipc_table_init MAC2_PGBYTES of None \<Rightarrow> [] | Some (entries, _) \<Rightarrow> map unat entries)"

definition ipc_table_dnrequests :: "nat list" where
  "ipc_table_dnrequests =
     (case ipc_table_init MAC2_PGBYTES of None \<Rightarrow> [] | Some (_, dnrequests) \<Rightarrow> map unat dnrequests)"

text \<open>
  An \<open>ipc_table_size_t\<close> is a pointer to an element of the array; here it is the index of the
  element.
\<close>

definition its_size :: "nat \<Rightarrow> nat" where
  "its_size its = ipc_table_entries ! its"

definition it_entries_reallocable :: "nat \<Rightarrow> bool" where
  "it_entries_reallocable its \<longleftrightarrow> unat MAC2_PGBYTES \<le> its_size its * sizeof_ipc_entry"

definition its_dn_size :: "nat \<Rightarrow> nat" where
  "its_dn_size its = ipc_table_dnrequests ! its"

subsection \<open>The arrays\<close>

lemma fill_period_eq:
  "k \<le> period \<Longrightarrow> length its + k \<le> num \<Longrightarrow> k = period \<or> length its + k = num \<Longrightarrow>
   (\<forall>i<k. minsize \<le> sz + of_nat i * incrsize) \<Longrightarrow>
     fill_period period num minsize elemsize incrsize sz its =
       (sz + of_nat k * incrsize, its @ map (\<lambda>i. (sz + of_nat i * incrsize) div elemsize) [0..<k])"
proof (induction k arbitrary: period its sz)
  case 0
  then show ?case by (cases period) auto
next
  case (Suc k)
  then obtain p where p: "period = Suc p" by (cases period) auto
  have "minsize \<le> sz" using Suc.prems(4) by auto
  moreover have "minsize \<le> sz + incrsize + of_nat i * incrsize" if "i < k" for i
    using Suc.prems(4) [rule_format, of "Suc i"] that by (simp add: algebra_simps)
  moreover have "map (\<lambda>i. (sz + of_nat i * incrsize) div elemsize) [0..<Suc k] =
      sz div elemsize # map (\<lambda>i. (sz + incrsize + of_nat i * incrsize) div elemsize) [0..<k]"
    by (simp add: upt_conv_Cons map_Suc_upt [symmetric] algebra_simps comp_def del: upt_Suc)
  ultimately show ?case
    using Suc.prems(1-3) Suc.IH [of p "its @ [sz div elemsize]" "sz + incrsize"]
    by (simp add: p algebra_simps del: upt_Suc)
qed

lemma fill_powers_step:
  "0 < fuel \<Longrightarrow> fill_powers fuel PAGE_SIZE num minsize elemsize sz its =
     (if length its < num \<and> sz < PAGE_SIZE
      then fill_powers (fuel - 1) PAGE_SIZE num minsize elemsize (push_bit 1 sz)
             (if minsize \<le> sz then its @ [sz div elemsize] else its)
      else Some (sz, its))"
  by (cases fuel) auto

text \<open>The \<open>k\<close> sizes from \<open>sz\<close> on, \<open>incrsize\<close> apart, in elements.\<close>

definition period_sizes :: "u32 \<Rightarrow> u32 \<Rightarrow> u32 \<Rightarrow> nat \<Rightarrow> u32 list" where
  "period_sizes elemsize incrsize sz k = map (\<lambda>i. (sz + of_nat i * incrsize) div elemsize) [0..<k]"

lemma length_period_sizes [simp]: "length (period_sizes elemsize incrsize sz k) = k"
  by (simp add: period_sizes_def)

lemma fill_pages_step:
  "length its + k \<le> num \<Longrightarrow> 0 < fuel \<Longrightarrow> 0 < k \<Longrightarrow> k \<le> 15 \<Longrightarrow> k = 15 \<or> length its + k = num \<Longrightarrow>
   list_all (\<lambda>i. minsize \<le> sz + of_nat i * incrsize) [0..<k] \<Longrightarrow>
     fill_pages fuel num minsize elemsize incrsize sz its =
       fill_pages (fuel - 1) num minsize elemsize (push_bit 1 incrsize) (sz + of_nat k * incrsize)
         (its @ period_sizes elemsize incrsize sz k)"
  using fill_period_eq [of k 15 its num minsize sz incrsize elemsize]
  by (cases fuel) (auto simp: list_all_iff period_sizes_def)

lemma upt_15: "[0..<15] = [0,1,2,3,4,5,6,7,8,9,10,11,12,13,14]"
  by (simp add: upt_rec)

lemma upt_9: "[0..<9] = [0,1,2,3,4,5,6,7,8]"
  by (simp add: upt_rec)

lemma small_le: "\<not> (64 :: u32) \<le> 1" "\<not> (16 :: u32) \<le> 1"
  by (simp_all add: word_le_nat_alt)

lemma fill_entries_powers: "fill_powers 33 8192 127 64 16 1 [] = Some (8192, [4, 8, 16, 32, 64, 128, 256])"
  by (simp add: fill_powers_step push_bit_eq_mult small_le)

lemma fill_dn_powers:
  "fill_powers 33 8192 63 16 8 1 [] = Some (8192, [2, 4, 8, 16, 32, 64, 128, 256, 512])"
  by (simp add: fill_powers_step push_bit_eq_mult small_le)

lemma fill_pages_done: "0 < fuel \<Longrightarrow> num \<le> length its \<Longrightarrow> fill_pages fuel num minsize elemsize incrsize sz its = Some its"
  by (cases fuel) auto

text \<open>Eight full periods, and three and nine elements more.\<close>

lemma fill_entries_pages:
  "fill_pages 33 127 64 16 8192 8192 [4, 8, 16, 32, 64, 128, 256] =
     Some ([4, 8, 16, 32, 64, 128, 256] @
       period_sizes 16 8192 8192 15 @ period_sizes 16 16384 131072 15 @
       period_sizes 16 32768 376832 15 @ period_sizes 16 65536 868352 15 @
       period_sizes 16 131072 1851392 15 @ period_sizes 16 262144 3817472 15 @
       period_sizes 16 524288 7749632 15 @ period_sizes 16 1048576 15613952 15)"
  by (simp add: fill_pages_step [where k=15] upt_15 push_bit_eq_mult fill_pages_done)

lemma fill_dn_pages:
  "fill_pages 33 63 16 8 8192 8192 [2, 4, 8, 16, 32, 64, 128, 256, 512] =
     Some ([2, 4, 8, 16, 32, 64, 128, 256, 512] @
       period_sizes 8 8192 8192 15 @ period_sizes 8 16384 131072 15 @
       period_sizes 8 32768 376832 15 @ period_sizes 8 65536 868352 9)"
  by (simp add: fill_pages_step [where k=15] fill_pages_step [where k=9] upt_15 upt_9 push_bit_eq_mult
      fill_pages_done)

lemmas table_init_defs =
  ipc_table_init_def ipc_table_fill_def MAC2_PGBYTES_def ipc_table_entries_size_def
  ipc_table_dnrequests_size_def sizeof_ipc_entry_def sizeof_ipc_port_request_def
  fill_entries_powers fill_dn_powers fill_entries_pages fill_dn_pages

lemma ipc_table_entries_eq:
  "ipc_table_entries = [
    4, 8, 16, 32, 64, 128, 256, 512, 1024, 1536, 2048, 2560, 3072, 3584, 4096, 4608, 5120,
    5632, 6144, 6656, 7168, 7680, 8192, 9216, 10240, 11264, 12288, 13312, 14336, 15360, 16384,
    17408, 18432, 19456, 20480, 21504, 22528, 23552, 25600, 27648, 29696, 31744, 33792, 35840,
    37888, 39936, 41984, 44032, 46080, 48128, 50176, 52224, 54272, 58368, 62464, 66560, 70656,
    74752, 78848, 82944, 87040, 91136, 95232, 99328, 103424, 107520, 111616, 115712, 123904,
    132096, 140288, 148480, 156672, 164864, 173056, 181248, 189440, 197632, 205824, 214016,
    222208, 230400, 238592, 254976, 271360, 287744, 304128, 320512, 336896, 353280, 369664,
    386048, 402432, 418816, 435200, 451584, 467968, 484352, 517120, 549888, 582656, 615424,
    648192, 680960, 713728, 746496, 779264, 812032, 844800, 877568, 910336, 943104, 975872,
    1041408, 1106944, 1172480, 1238016, 1303552, 1369088, 1434624, 1500160, 1565696, 1631232,
    1696768, 1762304, 1827840, 1893376, 1893376]"
  by (simp add: ipc_table_entries_def table_init_defs, simp add: period_sizes_def upt_15)

lemma ipc_table_dnrequests_eq:
  "ipc_table_dnrequests = [
    2, 4, 8, 16, 32, 64, 128, 256, 512, 1024, 2048, 3072, 4096, 5120, 6144, 7168, 8192, 9216,
    10240, 11264, 12288, 13312, 14336, 15360, 16384, 18432, 20480, 22528, 24576, 26624, 28672,
    30720, 32768, 34816, 36864, 38912, 40960, 43008, 45056, 47104, 51200, 55296, 59392, 63488,
    67584, 71680, 75776, 79872, 83968, 88064, 92160, 96256, 100352, 104448, 108544, 116736,
    124928, 133120, 141312, 149504, 157696, 165888, 174080, 0]"
  by (simp add: ipc_table_dnrequests_def table_init_defs, simp add: period_sizes_def upt_15 upt_9)

lemma ipc_table_entries_sorted: "sorted_wrt (<) (butlast ipc_table_entries)"
proof -
  have "successively (<) (butlast ipc_table_entries)" by (simp add: ipc_table_entries_eq)
  then show ?thesis by (simp add: successively_conv_sorted_wrt)
qed

lemma ipc_table_dnrequests_sorted: "sorted_wrt (<) (butlast ipc_table_dnrequests)"
proof -
  have "successively (<) (butlast ipc_table_dnrequests)" by (simp add: ipc_table_dnrequests_eq)
  then show ?thesis by (simp add: successively_conv_sorted_wrt)
qed

subsection \<open>What growing relies on\<close>

text \<open>
  An array of \<open>n\<close> sizes and the element that ends it, as the comment in \<open>ipc/ipc_table.h\<close>
  asks for it.
\<close>

locale table_sizes =
  fixes sz :: "nat \<Rightarrow> nat" and n :: nat and bound :: nat
  assumes increasing: "i < j \<Longrightarrow> j < n \<Longrightarrow> sz i < sz j"
    and positive: "0 < n \<Longrightarrow> 1 < sz 0"
    and bounded: "i \<le> n \<Longrightarrow> sz i \<le> bound"
begin

lemma size_pos: "i < n \<Longrightarrow> 1 < sz i"
  using increasing [of 0 i] positive by (cases "i = 0") auto

lemma size_inj: "i < n \<Longrightarrow> j < n \<Longrightarrow> sz i = sz j \<longleftrightarrow> i = j"
  using increasing [of i j] increasing [of j i] by (cases i j rule: linorder_cases) auto

lemma size_mono: "i \<le> j \<Longrightarrow> j < n \<Longrightarrow> sz i \<le> sz j"
  using increasing [of i j] by (cases "i = j") auto

text \<open>Growing through the array ends: each step gets at least one element more.\<close>

lemma size_ge: "i < n \<Longrightarrow> i \<le> sz i"
proof (induction i)
  case (Suc i)
  with increasing [of i "Suc i"] show ?case by auto
qed simp

end

lemma sorted_butlast_nth:
  "sorted_wrt (<) (butlast xs) \<Longrightarrow> i < j \<Longrightarrow> j < length xs - 1 \<Longrightarrow> xs ! i < (xs ! j :: nat)"
  using sorted_wrt_nth_less [of "(<)" "butlast xs" i j] by (simp add: nth_butlast)

lemma length_ipc_table_entries: "length ipc_table_entries = 128"
  by (simp add: ipc_table_entries_eq)

lemma length_ipc_table_dnrequests: "length ipc_table_dnrequests = 64"
  by (simp add: ipc_table_dnrequests_eq)

lemma its_size_bound: "its < 128 \<Longrightarrow> its_size its \<le> 1893376"
proof -
  have "list_all (\<lambda>x. x \<le> 1893376) ipc_table_entries" by (simp add: ipc_table_entries_eq)
  then show "its < 128 \<Longrightarrow> ?thesis" by (simp add: list_all_length length_ipc_table_entries its_size_def)
qed

lemma its_dn_size_bound: "its < 64 \<Longrightarrow> its_dn_size its \<le> 174080"
proof -
  have "list_all (\<lambda>x. x \<le> 174080) ipc_table_dnrequests" by (simp add: ipc_table_dnrequests_eq)
  then show "its < 64 \<Longrightarrow> ?thesis" by (simp add: list_all_length length_ipc_table_dnrequests its_dn_size_def)
qed

lemma its_size_last: "its_size 127 = its_size 126"
  by (simp add: its_size_def ipc_table_entries_eq)

interpretation entries: table_sizes its_size 127 1893376
proof
  show "its_size i < its_size j" if "i < j" "j < 127" for i j
    using sorted_butlast_nth [OF ipc_table_entries_sorted that(1)] that(2)
    by (simp add: its_size_def length_ipc_table_entries)
next
  show "1 < its_size 0" by (simp add: its_size_def ipc_table_entries_eq)
qed (simp add: its_size_bound)

interpretation dnrequests: table_sizes its_dn_size 63 174080
proof
  show "its_dn_size i < its_dn_size j" if "i < j" "j < 63" for i j
    using sorted_butlast_nth [OF ipc_table_dnrequests_sorted that(1)] that(2)
    by (simp add: its_dn_size_def length_ipc_table_dnrequests)
next
  show "1 < its_dn_size 0" by (simp add: its_dn_size_def ipc_table_dnrequests_eq)
qed (simp add: its_dn_size_bound)

end
