(* ===== verification/Ipc_Name_Tree.thy ===== *)
theory Ipc_Name_Tree
  imports Ipc_Splay
begin

section \<open>Trees of names: the interface of the splay trees to the entries\<close>

text \<open>
  What \<open>ipc/ipc_entry.c\<close> relies on when it uses a tree keyed by port names: the laws of
  \<open>lookup\<close>, \<open>insert\<close>, \<open>delete\<close>, \<open>split\<close>, \<open>join\<close>, \<open>bounds\<close> and \<open>pick\<close> over the sorted list of the
  items, and what follows for the names of one index and for a tree cut in pieces and put
  together again.  The splay trees are shown to provide the laws.
\<close>

abbreviation idx :: "mach_port_t \<Rightarrow> nat" where
  "idx name \<equiv> unat (MACH_PORT_INDEX name)"

subsection \<open>Names and indices\<close>

lemma idx_bound: "idx n < 2 ^ 24"
  by (rule MACH_PORT_INDEX_bound)

lemma idx_mono: "m \<le> n \<Longrightarrow> idx m \<le> idx n"
  using MACH_PORT_INDEX_mono by (simp add: word_le_nat_alt)

lemma unat_idx: "k < 2 ^ 24 \<Longrightarrow> unat (of_nat k :: u32) = k"
  by (simp add: unat_of_nat take_bit_nat_eq_self_iff)

lemma idx_less_MAKE_iff: "k < 2 ^ 24 \<Longrightarrow> n < MACH_PORT_MAKE (of_nat k) 0 \<longleftrightarrow> idx n < k"
  using name_less_MAKE_iff [of "of_nat k" n] by (simp add: unat_idx word_less_nat_alt)

lemma idx_MAKE: "k < 2 ^ 24 \<Longrightarrow> idx (MACH_PORT_MAKE (of_nat k) g) = k"
  using MACH_PORT_INDEX_MAKE [of "of_nat k" g] by (simp add: unat_idx)

lemma idx_eq_iff: "idx m = idx n \<longleftrightarrow> MACH_PORT_INDEX m = MACH_PORT_INDEX n"
  by (simp add: word_unat_eq_iff)

text \<open>The neighbours of a name in a sorted list.\<close>

lemma splay_lower_last:
  assumes "strict_keys xs" and "x \<in> set xs" and "fst x \<le> n"
  shows "splay_lower n xs \<in> fst ` set xs \<and> fst x \<le> splay_lower n xs \<and> splay_lower n xs \<le> n"
proof -
  let ?ys = "filter (\<lambda>x. fst x \<le> n) xs"
  from assms(2,3) have x: "x \<in> set ?ys" by simp
  then obtain ys y where ys: "?ys = ys @ [y]" by (cases ?ys rule: rev_cases) auto
  then have l: "splay_lower n xs = fst y" by (simp add: splay_lower_def)
  have "strict_keys (ys @ [y])" using strict_keys_filter [OF assms(1)] ys by metis
  with x have "fst x \<le> fst y" unfolding ys by (auto intro: less_imp_le)
  moreover have "y \<in> set ?ys" unfolding ys by simp
  ultimately show ?thesis using l by auto
qed

lemma splay_upper_first:
  assumes "strict_keys xs" and "x \<in> set xs" and "n \<le> fst x"
  shows "splay_upper n xs \<in> fst ` set xs \<and> splay_upper n xs \<le> fst x \<and> n \<le> splay_upper n xs"
proof -
  let ?ys = "filter (\<lambda>x. n \<le> fst x) xs"
  from assms(2,3) have x: "x \<in> set ?ys" by simp
  then obtain ys y where ys: "?ys = y # ys" by (cases ?ys) auto
  then have l: "splay_upper n xs = fst y" by (simp add: splay_upper_def)
  have "strict_keys (y # ys)" using strict_keys_filter [OF assms(1)] ys by metis
  with x have "fst y \<le> fst x" unfolding ys by (auto intro: less_imp_le)
  moreover have "y \<in> set ?ys" unfolding ys by simp
  ultimately show ?thesis using l by auto
qed

lemma splay_lower_in: "splay_lower n xs = NOT 0 \<or> splay_lower n xs \<in> fst ` set xs"
proof -
  have "set (rev (filter (\<lambda>x. fst x \<le> n) xs)) \<subseteq> set xs" by auto
  then show ?thesis
    unfolding splay_lower_def by (cases "rev (filter (\<lambda>x. fst x \<le> n) xs)") auto
qed

lemma splay_upper_in: "splay_upper n xs = 0 \<or> splay_upper n xs \<in> fst ` set xs"
proof -
  have "set (filter (\<lambda>x. n \<le> fst x) xs) \<subseteq> set xs" by auto
  then show ?thesis
    unfolding splay_upper_def by (cases "filter (\<lambda>x. n \<le> fst x) xs") auto
qed

subsection \<open>The interface\<close>

locale name_tree =
  fixes items :: "'t \<Rightarrow> (mach_port_t \<times> 'e) list" and inv :: "'t \<Rightarrow> bool"
    and lookup :: "mach_port_t \<Rightarrow> 't \<Rightarrow> 'e option \<times> 't"
    and ins :: "mach_port_t \<Rightarrow> 'e \<Rightarrow> 't \<Rightarrow> 't"
    and del :: "mach_port_t \<Rightarrow> 't \<Rightarrow> 't"
    and cut :: "mach_port_t \<Rightarrow> 't \<Rightarrow> 't \<times> 't"
    and join :: "'t \<Rightarrow> 't \<Rightarrow> 't \<times> 't"
    and bounds :: "mach_port_t \<Rightarrow> 't \<Rightarrow> (mach_port_t \<times> mach_port_t) \<times> 't"
    and pick :: "'t \<Rightarrow> (mach_port_t \<times> 'e) option"
  assumes ordered: "inv t \<Longrightarrow> strict_keys (items t)"
    and lookup_law: "inv t \<Longrightarrow> lookup n t = (r, t') \<Longrightarrow>
      r = map_of (items t) n \<and> items t' = items t \<and> inv t'"
    and ins_law: "inv t \<Longrightarrow> n \<notin> fst ` set (items t) \<Longrightarrow> inv (ins n e t) \<and>
      items (ins n e t) = filter (\<lambda>x. fst x < n) (items t) @ (n, e) # filter (\<lambda>x. n < fst x) (items t)"
    and del_law: "inv t \<Longrightarrow> n \<in> fst ` set (items t) \<Longrightarrow> inv (del n t) \<and>
      items (del n t) = filter (\<lambda>x. fst x \<noteq> n) (items t)"
    and cut_law: "inv t \<Longrightarrow> cut n t = (t', small) \<Longrightarrow> inv t' \<and> inv small \<and>
      items t' = filter (\<lambda>x. n \<le> fst x) (items t) \<and> items small = filter (\<lambda>x. fst x < n) (items t)"
    and join_law: "inv t \<Longrightarrow> inv small \<Longrightarrow> \<forall>x\<in>set (items small). \<forall>y\<in>set (items t). fst x < fst y \<Longrightarrow>
      join t small = (t', small') \<Longrightarrow> inv t' \<and> items t' = items small @ items t"
    and bounds_law: "inv t \<Longrightarrow> bounds n t = ((lower, upper), t') \<Longrightarrow>
      lower = splay_lower n (items t) \<and> upper = splay_upper n (items t) \<and> items t' = items t \<and> inv t'"
    and pick_law: "inv t \<Longrightarrow> case pick t of None \<Rightarrow> items t = [] | Some x \<Rightarrow> x \<in> set (items t)"
begin

lemma ins_set:
  assumes "inv t" and "n \<notin> fst ` set (items t)"
  shows "set (items (ins n e t)) = insert (n, e) (set (items t))"
  using ins_law [OF assms, of e] assms(2) by (auto simp: image_iff not_less_iff_gr_or_eq)

lemma ins_map:
  assumes "inv t" and "n \<notin> fst ` set (items t)"
  shows "map_of (items (ins n e t)) = (map_of (items t))(n \<mapsto> e)"
proof -
  have d: "distinct (map fst (items t))" by (rule strict_keys_distinct [OF ordered [OF assms(1)]])
  have d': "distinct (map fst (items (ins n e t)))"
    using ins_law [OF assms, of e] by (intro strict_keys_distinct ordered) simp
  show ?thesis
  proof
    fix m
    have "map_of (items (ins n e t)) m = Some v \<longleftrightarrow> ((map_of (items t))(n \<mapsto> e)) m = Some v" for v
      using assms(2) d d' ins_set [OF assms, of e] by (auto simp: image_iff)
    then show "map_of (items (ins n e t)) m = ((map_of (items t))(n \<mapsto> e)) m"
      by (metis option.exhaust)
  qed
qed

lemma ins_length:
  assumes "inv t" and "n \<notin> fst ` set (items t)"
  shows "length (items (ins n e t)) = Suc (length (items t))"
proof -
  have "distinct (items t)" "distinct (items (ins n e t))"
    using ordered [OF assms(1)] ordered ins_law [OF assms, of e]
    by (auto dest!: strict_keys_distinct simp: distinct_map)
  then show ?thesis using ins_set [OF assms, of e] assms(2)
    by (metis card_insert_disjoint distinct_card List.finite_set fst_conv image_eqI)
qed

lemma del_length:
  assumes "inv t" and "n \<in> fst ` set (items t)"
  shows "Suc (length (items (del n t))) = length (items t)"
proof -
  have "Suc (length (filter (\<lambda>x. fst x \<noteq> n) xs)) = length xs"
    if "distinct (map fst xs)" "n \<in> fst ` set xs" for xs :: "(mach_port_t \<times> 'e) list"
    using that
  proof (induction xs)
    case (Cons x xs)
    show ?case
    proof (cases "fst x = n")
      case True
      with Cons.prems have "filter (\<lambda>x. fst x \<noteq> n) xs = xs"
        by (intro filter_True) (auto simp: image_iff)
      with True show ?thesis by simp
    qed (use Cons in auto)
  qed simp
  with strict_keys_distinct [OF ordered [OF assms(1)]] assms(2) del_law [OF assms] show ?thesis by simp
qed

lemma del_map:
  assumes "inv t" and "n \<in> fst ` set (items t)"
  shows "map_of (items (del n t)) = (map_of (items t))(n := None)"
proof
  fix m
  have "map_of (filter (\<lambda>x. fst x \<noteq> n) xs) m = ((map_of xs)(n := None)) m" for xs :: "(mach_port_t \<times> 'e) list"
    by (induction xs) auto
  with del_law [OF assms] show "map_of (items (del n t)) m = ((map_of (items t))(n := None)) m" by simp
qed

text \<open>The test of \<open>ipc_entry_tree_collision\<close>: the neighbours of a name tell whether its index is used.\<close>

lemma bounds_index:
  assumes "inv t" and "bounds n t = ((lower, upper), t')" and "\<forall>x\<in>set (items t). MACH_PORT_VALID (fst x)"
  shows "(lower \<noteq> NOT 0 \<and> MACH_PORT_INDEX lower = MACH_PORT_INDEX n) \<or>
      (upper \<noteq> 0 \<and> MACH_PORT_INDEX upper = MACH_PORT_INDEX n) \<longleftrightarrow>
    (\<exists>x\<in>set (items t). idx (fst x) = idx n)" (is "?l \<longleftrightarrow> ?r")
proof
  from bounds_law [OF assms(1,2)] have lu: "lower = splay_lower n (items t)" "upper = splay_upper n (items t)"
    by auto
  { assume ?l
    with lu splay_lower_in [of n "items t"] splay_upper_in [of n "items t"]
    obtain m where "m \<in> fst ` set (items t)" "idx m = idx n" by (metis idx_eq_iff)
    then show ?r by auto }
  { assume ?r
    then obtain x where x: "x \<in> set (items t)" "idx (fst x) = idx n" by blast
    have valid: "m \<noteq> 0 \<and> m \<noteq> NOT 0" if "m \<in> fst ` set (items t)" for m
      using that assms(3) by (auto simp: MACH_PORT_VALID_def MACH_PORT_NULL_def MACH_PORT_DEAD_def)
    note o = ordered [OF assms(1)]
    show ?l
    proof (cases "fst x \<le> n")
      case True
      from splay_lower_last [OF o x(1) this] have
        "lower \<in> fst ` set (items t)" "idx (fst x) \<le> idx lower" "idx lower \<le> idx n"
        unfolding lu by (auto intro: idx_mono)
      with x(2) valid show ?thesis by (auto simp: idx_eq_iff [symmetric])
    next
      case False
      then have "n \<le> fst x" by simp
      from splay_upper_first [OF o x(1) this] have
        "upper \<in> fst ` set (items t)" "idx n \<le> idx upper" "idx upper \<le> idx (fst x)"
        unfolding lu by (auto intro: idx_mono)
      with x(2) valid show ?thesis by (auto simp: idx_eq_iff [symmetric])
    qed }
qed

text \<open>Cutting at an index, and putting pieces together.\<close>

lemma cut_index:
  assumes "inv t" and "k < 2 ^ 24" and "cut (MACH_PORT_MAKE (of_nat k) 0) t = (t', small)"
  shows "inv t'" "inv small" "items t' = filter (\<lambda>x. k \<le> idx (fst x)) (items t)"
    "items small = filter (\<lambda>x. idx (fst x) < k) (items t)"
  using cut_law [OF assms(1,3)] idx_less_MAKE_iff [OF assms(2)] by (auto simp: not_less [symmetric])

lemma join_index:
  assumes "inv t" "inv small" and "\<forall>x\<in>set (items small). idx (fst x) < k" "\<forall>x\<in>set (items t). k \<le> idx (fst x)"
  shows "inv (fst (join t small))" "items (fst (join t small)) = items small @ items t"
proof -
  have "fst x < fst y" if "x \<in> set (items small)" "y \<in> set (items t)" for x y
  proof -
    from that assms(3,4) have "idx (fst x) < idx (fst y)" by fastforce
    then show ?thesis using idx_mono [of "fst y" "fst x"] by (auto simp: not_le [symmetric])
  qed
  then show "inv (fst (join t small))" "items (fst (join t small)) = items small @ items t"
    using join_law [OF assms(1,2)] by (metis prod.collapse)+
qed

lemma pick_None: "inv t \<Longrightarrow> pick t = None \<longleftrightarrow> items t = []"
  using pick_law [of t] by (cases "pick t") auto

lemma pick_Some: "inv t \<Longrightarrow> pick t = Some x \<Longrightarrow> x \<in> set (items t)"
  using pick_law [of t] by simp

end

interpretation splay: name_tree splay_list splay_inv ipc_splay_tree_lookup ipc_splay_tree_insert
  ipc_splay_tree_delete ipc_splay_tree_split ipc_splay_tree_join ipc_splay_tree_bounds
  ipc_splay_tree_pick
proof
  fix t :: "'a ipc_splay_tree" and n r t' assume "splay_inv t" "ipc_splay_tree_lookup n t = (r, t')"
  from lookup_list [OF this] show "r = map_of (splay_list t) n \<and> splay_list t' = splay_list t \<and> splay_inv t'"
    by (simp add: splay_map_def)
next
  fix t :: "'a ipc_splay_tree" and n e assume "splay_inv t" "n \<notin> fst ` set (splay_list t)"
  from insert_list [OF this] show "splay_inv (ipc_splay_tree_insert n e t) \<and>
    splay_list (ipc_splay_tree_insert n e t) =
      filter (\<lambda>x. fst x < n) (splay_list t) @ (n, e) # filter (\<lambda>x. n < fst x) (splay_list t)" by simp
next
  fix t :: "'a ipc_splay_tree" and n assume "splay_inv t" "n \<in> fst ` set (splay_list t)"
  from delete_list [OF this] show "splay_inv (ipc_splay_tree_delete n t) \<and>
    splay_list (ipc_splay_tree_delete n t) = filter (\<lambda>x. fst x \<noteq> n) (splay_list t)" by simp
next
  fix t :: "'a ipc_splay_tree" and n t' small
  assume "splay_inv t" "ipc_splay_tree_split n t = (t', small)"
  from split_splay_list [OF this] show "splay_inv t' \<and> splay_inv small \<and>
    splay_list t' = filter (\<lambda>x. n \<le> fst x) (splay_list t) \<and>
    splay_list small = filter (\<lambda>x. fst x < n) (splay_list t)" by simp
next
  fix t small t' small' :: "'a ipc_splay_tree"
  assume "splay_inv t" "splay_inv small" "\<forall>x\<in>set (splay_list small). \<forall>y\<in>set (splay_list t). fst x < fst y"
    "ipc_splay_tree_join t small = (t', small')"
  from join_list [OF this] show "splay_inv t' \<and> splay_list t' = splay_list small @ splay_list t" by simp
next
  fix t t' :: "'a ipc_splay_tree" and n lower upper
  assume "splay_inv t" "ipc_splay_tree_bounds n t = ((lower, upper), t')"
  from bounds_list [OF this] show "lower = splay_lower n (splay_list t) \<and>
    upper = splay_upper n (splay_list t) \<and> splay_list t' = splay_list t \<and> splay_inv t'" by simp
next
  fix t :: "'a ipc_splay_tree" assume "splay_inv t"
  show "case ipc_splay_tree_pick t of None \<Rightarrow> splay_list t = [] | Some x \<Rightarrow> x \<in> set (splay_list t)"
  proof (cases "ist_root t")
    case Leaf
    then show ?thesis by (simp add: splay_list_Leaf)
  next
    case (Node l x r)
    then show ?thesis by (simp add: splay_list_def)
  qed
qed (simp add: splay_inv_def)

end
