(* ===== verification/Ipc_Entry.thy ===== *)
theory Ipc_Entry
  imports Ipc_Hash_Global Ipc_Table Ipc_Name_Tree
begin

section \<open>Entries of a space: lookup, allocation, deallocation and growth (ipc/ipc_entry.c)\<close>

text \<open>
  The operations work on a space and the global reverse hash table.  An \<open>ipc_entry_t\<close> is an
  element of the table or a node of the tree (\<open>ipc_entry_ref\<close>); the tree is modelled by the
  splay trees of \<open>ipc/ipc_splay.c\<close> with entries in their nodes.

  Where the code unlocks the space (to wait for another thread that grows the table, to
  allocate, to free the old table), other threads may run.  What they do is the argument
  \<open>env\<close>, a function on the state for each such window; whether an allocation succeeds is
  \<open>avail\<close>.  The loops that restart after such a window have a number of rounds as their first
  argument and answer \<open>None\<close> when it is used up.
\<close>

type_synonym ipc_state = "ipc_space \<times> ipc_hash_global"

datatype window = Waiting | Allocating | Freeing | Tree_allocating

type_synonym ipc_env = "window \<Rightarrow> ipc_state \<Rightarrow> ipc_state"

subsection \<open>Access through an entry pointer\<close>

definition entry_at :: "ipc_entry_ref \<Rightarrow> ipc_space \<Rightarrow> ipc_entry option" where
  "entry_at entry s =
     (case entry of
        TableEntry i \<Rightarrow> if i < is_table_size s then Some (is_table s ! i) else None
      | TreeEntry n \<Rightarrow> splay_map (is_tree s) n)"

definition entry_store :: "ipc_entry_ref \<Rightarrow> (ipc_entry \<Rightarrow> ipc_entry) \<Rightarrow> ipc_space \<Rightarrow> ipc_space" where
  "entry_store entry f s =
     (case entry of
        TableEntry i \<Rightarrow> s\<lparr>is_table := entry_upd i f (is_table s)\<rparr>
      | TreeEntry n \<Rightarrow> s\<lparr>is_tree := ipc_splay_update n f (is_tree s)\<rparr>)"

subsection \<open>Lookup\<close>

definition ipc_entry_tree_collision :: "mach_port_t \<Rightarrow> ipc_space \<Rightarrow> bool \<times> ipc_space" where
  "ipc_entry_tree_collision name s =
     (let ((lower, upper), tree) = ipc_splay_tree_bounds name (is_tree s);
          index = MACH_PORT_INDEX name
      in (lower \<noteq> NOT 0 \<and> MACH_PORT_INDEX lower = index \<or>
          upper \<noteq> 0 \<and> MACH_PORT_INDEX upper = index, s\<lparr>is_tree := tree\<rparr>))"

definition tree_lookup :: "mach_port_t \<Rightarrow> ipc_space \<Rightarrow> ipc_entry_ref option \<times> ipc_space" where
  "tree_lookup name s =
     (let (entry, tree) = ipc_splay_tree_lookup name (is_tree s)
      in (map_option (\<lambda>_. TreeEntry name) entry, s\<lparr>is_tree := tree\<rparr>))"

definition ipc_entry_lookup :: "mach_port_t \<Rightarrow> ipc_space \<Rightarrow> ipc_entry_ref option \<times> ipc_space" where
  "ipc_entry_lookup name s =
     (let index = unat (MACH_PORT_INDEX name) in
      if index < is_table_size s
      then let bits = ie_bits (is_table s ! index) in
           if IE_BITS_GEN bits \<noteq> MACH_PORT_GEN name
           then if bits AND IE_BITS_COLLISION \<noteq> 0 then tree_lookup name s else (None, s)
           else if IE_BITS_TYPE bits = MACH_PORT_TYPE_NONE then (None, s)
           else (Some (TableEntry index), s)
      else if is_tree_total s = 0 then (None, s)
      else tree_lookup name s)"

subsection \<open>Taking an entry off the free list\<close>

definition ipc_entry_get :: "ipc_space \<Rightarrow> (kern_return_t + mach_port_t \<times> ipc_entry_ref) \<times> ipc_space" where
  "ipc_entry_get s =
     (let table = is_table s; first_free = ie_next (table ! 0) in
      if first_free = 0 then (Inl KERN_NO_SPACE, s)
      else
        let table = entry_upd 0 (\<lambda>e. e\<lparr>ie_request := ie_next (table ! first_free)\<rparr>) table;
            gen = ie_bits (table ! first_free) + IE_BITS_GEN_ONE;
            table = entry_upd first_free (\<lambda>e. e\<lparr>ie_bits := gen, ie_request := 0\<rparr>) table
        in (Inr (MACH_PORT_MAKE (of_nat first_free) gen, TableEntry first_free), s\<lparr>is_table := table\<rparr>))"

subsection \<open>Growing the table\<close>

text \<open>\<open>ie_index\<close> is cleared in the old part; the new part is zero.\<close>

definition grow_copy :: "nat \<Rightarrow> ipc_entry list \<Rightarrow> ipc_entry list" where
  "grow_copy sz otable =
     map (\<lambda>e. e\<lparr>ie_index := 0\<rparr>) otable @ replicate (sz - length otable) zero_entry"

fun grow_rehash :: "nat list \<Rightarrow> ipc_entry list \<Rightarrow> ipc_entry list option" where
  "grow_rehash [] table = Some table"
| "grow_rehash (i # is) table =
     (if IE_BITS_TYPE (ie_bits (table ! i)) = MACH_PORT_TYPE_SEND
      then do { table \<leftarrow> ipc_hash_local_insert (ie_object (table ! i)) i table; grow_rehash is table }
      else grow_rehash is table)"

text \<open>
  A tree entry goes to the table slot of its index.  The step is the same in
  \<open>ipc_entry_dealloc\<close>, which refills the slot it frees.
\<close>

definition move_to_table :: "mach_port_t \<Rightarrow> ipc_entry \<Rightarrow> nat \<Rightarrow> ipc_state \<Rightarrow> ipc_state option" where
  "move_to_table name tentry index = (\<lambda>(s, g).
     let bits = ie_bits tentry;
         obj = ie_object tentry;
         s = s\<lparr>is_table := entry_upd index (\<lambda>e. e\<lparr>ie_bits := bits OR MACH_PORT_GEN name,
                 ie_object := obj, ie_request := ie_request tentry\<rparr>) (is_table s)\<rparr>
     in if IE_BITS_TYPE bits = MACH_PORT_TYPE_SEND
        then do {
          let (s, g) = ipc_hash_global_delete obj name s g;
          table \<leftarrow> ipc_hash_local_insert obj index (is_table s);
          Some (s\<lparr>is_table := table\<rparr>, g)
        }
        else Some (s, g))"

definition grow_move :: "ipc_state option \<Rightarrow> mach_port_t \<times> ipc_entry \<Rightarrow> ipc_state option \<times> bool" where
  "grow_move st item =
     (case st of
        None \<Rightarrow> (None, False)
      | Some (s, g) \<Rightarrow>
          let (name, tentry) = item;
              index = unat (MACH_PORT_INDEX name);
              bits = ie_bits (is_table s ! index)
          in if bits \<noteq> 0
             then (Some (s\<lparr>is_table := entry_upd index (\<lambda>e. e\<lparr>ie_bits := bits OR IE_BITS_COLLISION\<rparr>)
                              (is_table s)\<rparr>, g), False)
             else (map_option (\<lambda>(s, g). (s\<lparr>is_tree_total := is_tree_total s - 1\<rparr>, g))
                     (move_to_table name tentry index (s, g)), True))"

definition grow_count :: "nat \<times> nat \<Rightarrow> mach_port_t \<times> ipc_entry \<Rightarrow> (nat \<times> nat) \<times> bool" where
  "grow_count st item =
     (let (nosmall, index) = st; nindex = unat (MACH_PORT_INDEX (fst item))
      in (if nindex \<noteq> index then (nosmall + 1, nindex) else (nosmall, index), False))"

definition grow_tree :: "nat \<Rightarrow> nat \<Rightarrow> nat \<Rightarrow> ipc_state \<Rightarrow> ipc_state option" where
  "grow_tree osize sz nsize = (\<lambda>(s, g).
     if 0 < is_tree_total s
     then do {
       let (tree, small) = ipc_splay_tree_split (MACH_PORT_MAKE (of_nat nsize) 0) (is_tree s);
       let (small, move) = ipc_splay_tree_split (MACH_PORT_MAKE (of_nat sz) 0) small;
       let (move, ignore) = ipc_splay_tree_split (MACH_PORT_MAKE (of_nat osize) 0) move;
       (st, move) \<leftarrow> splay_traverse grow_move (Some (s\<lparr>is_tree := tree\<rparr>, g)) move;
       (s, g) \<leftarrow> st;
       ((nosmall, _), small) \<leftarrow> splay_traverse grow_count (0, 0) small;
       let tree = fst (ipc_splay_tree_join (is_tree s) small);
       let tree = fst (ipc_splay_tree_join tree move);
       let tree = fst (ipc_splay_tree_join tree ignore);
       Some (s\<lparr>is_tree_small := nosmall, is_tree := tree\<rparr>, g)
     }
     else Some (s, g))"

fun grow_free :: "nat list \<Rightarrow> nat \<Rightarrow> ipc_entry list \<Rightarrow> nat \<times> ipc_entry list" where
  "grow_free [] free_index table = (free_index, table)"
| "grow_free (i # is) free_index table =
     (if ie_bits (table ! i) = 0
      then grow_free is i (entry_upd i (\<lambda>e. e\<lparr>ie_bits := IE_BITS_GEN_MASK, ie_request := free_index\<rparr>) table)
      else grow_free is free_index table)"

text \<open>From taking the new table into use to the free list: all of it under the lock.\<close>

definition grow_install :: "nat \<Rightarrow> ipc_state \<Rightarrow> ipc_state option" where
  "grow_install its = (\<lambda>(s, g).
     do {
       let osize = is_table_size s;
       let sz = its_size its;
       let nsize = its_size (its + 1);
       table \<leftarrow> grow_rehash [0..<osize] (grow_copy sz (is_table s));
       let s = s\<lparr>is_table := table, is_table_next := its + 1\<rparr>;
       (s, g) \<leftarrow> grow_tree osize sz nsize (s, g);
       let (free_index, table) = grow_free (rev [osize..<sz]) (ie_next (is_table s ! 0)) (is_table s);
       Some (s\<lparr>is_table := entry_upd 0 (\<lambda>e. e\<lparr>ie_request := free_index\<rparr>) table\<rparr>, g)
     })"

primrec ipc_entry_grow_table :: "nat \<Rightarrow> ipc_env \<Rightarrow> (nat \<Rightarrow> bool) \<Rightarrow> ipc_state \<Rightarrow> (kern_return_t \<times> ipc_state) option" where
  "ipc_entry_grow_table 0 env avail st = None"
| "ipc_entry_grow_table (Suc rounds) env avail st =
     (let (s, g) = st in
      if is_growing s then Some (KERN_SUCCESS, env Waiting (s, g))
      else
        let its = is_table_next s;
            sz = its_size its;
            osize = its_size (its - 1);
            nits = its + 1;
            nsize = its_size nits
        in if osize = sz then Some (KERN_NO_SPACE, (s, g))
        else
          let (s, g) = env Allocating (s\<lparr>is_growing := True\<rparr>, g);
              s = s\<lparr>is_growing := False\<rparr>
          in if \<not> avail its then Some (KERN_RESOURCE_SHORTAGE, (s, g))
          else if \<not> is_active s then Some (KERN_SUCCESS, env Freeing (s, g))
          else do {
            st \<leftarrow> grow_install its (s, g);
            let (s, g) = env Freeing st;
            if \<not> is_active s \<or> is_table_next s \<noteq> nits then Some (KERN_SUCCESS, (s, g))
            else if 0 < is_tree_small s \<and>
                    (nsize - sz) * sizeof_ipc_entry < is_tree_small s * sizeof_ipc_tree_entry
            then ipc_entry_grow_table rounds env avail (s, g)
            else Some (KERN_SUCCESS, (s, g))
          })"

text \<open>A thread that grows an array of 128 sizes goes around the loop at most that often.\<close>

definition grow_rounds :: nat where "grow_rounds = 128"

subsection \<open>Allocation\<close>

primrec ipc_entry_alloc :: "nat \<Rightarrow> ipc_env \<Rightarrow> (nat \<Rightarrow> bool) \<Rightarrow> ipc_state
    \<Rightarrow> ((kern_return_t + mach_port_t \<times> ipc_entry_ref) \<times> ipc_state) option" where
  "ipc_entry_alloc 0 env avail st = None"
| "ipc_entry_alloc (Suc rounds) env avail st =
     (let (s, g) = st in
      if \<not> is_active s then Some (Inl KERN_INVALID_TASK, (s, g))
      else case ipc_entry_get s of
        (Inr found, s) \<Rightarrow> Some (Inr found, (s, g))
      | (Inl _, s) \<Rightarrow>
          do {
            (kr, st) \<leftarrow> ipc_entry_grow_table grow_rounds env avail (s, g);
            if kr \<noteq> KERN_SUCCESS then Some (Inl kr, st) else ipc_entry_alloc rounds env avail st
          })"

text \<open>
  The walk to the free entry before \<open>index\<close>; the free list has at most as many entries as the
  table.
\<close>

fun rip_walk :: "nat \<Rightarrow> ipc_entry list \<Rightarrow> nat \<Rightarrow> nat \<Rightarrow> nat option" where
  "rip_walk 0 table index free_index = None"
| "rip_walk (Suc fuel) table index free_index =
     (let next_index = ie_next (table ! free_index)
      in if next_index \<noteq> index then rip_walk fuel table index next_index else Some free_index)"

definition rip_entry :: "nat \<Rightarrow> mach_port_t \<Rightarrow> ipc_entry list \<Rightarrow> ipc_entry list option" where
  "rip_entry index gen table =
     do {
       free_index \<leftarrow> rip_walk (length table) table index 0;
       let table = entry_upd free_index (\<lambda>e. e\<lparr>ie_request := ie_next (table ! index)\<rparr>) table;
       Some (entry_upd index (\<lambda>e. e\<lparr>ie_bits := gen, ie_request := 0\<rparr>) table)
     }"

text \<open>The last case of the loop: the new node goes into the tree.\<close>

definition alloc_name_insert :: "mach_port_t \<Rightarrow> ipc_space \<Rightarrow> ipc_space" where
  "alloc_name_insert name s =
     (let index = unat (MACH_PORT_INDEX name);
          s = s\<lparr>is_tree_total := is_tree_total s + 1\<rparr>;
          s = (if index < is_table_size s
               then s\<lparr>is_table := entry_upd index (\<lambda>e. e\<lparr>ie_bits := ie_bits e OR IE_BITS_COLLISION\<rparr>)
                         (is_table s)\<rparr>
               else if index < its_size (is_table_next s)
               then let (collision, s) = ipc_entry_tree_collision name s
                    in if collision then s else s\<lparr>is_tree_small := is_tree_small s + 1\<rparr>
               else s)
      in s\<lparr>is_tree := ipc_splay_tree_insert name zero_entry (is_tree s)\<rparr>)"

primrec ipc_entry_alloc_name :: "nat \<Rightarrow> ipc_env \<Rightarrow> (nat \<Rightarrow> bool) \<Rightarrow> bool \<Rightarrow> bool \<Rightarrow> mach_port_t \<Rightarrow> ipc_state
    \<Rightarrow> ((kern_return_t + ipc_entry_ref) \<times> ipc_state) option" where
  "ipc_entry_alloc_name 0 env avail tavail tree_entry name st = None"
| "ipc_entry_alloc_name (Suc rounds) env avail tavail tree_entry name st =
     (let (s, g) = st;
          index = unat (MACH_PORT_INDEX name);
          gen = MACH_PORT_GEN name
      in if \<not> is_active s then Some (Inl KERN_INVALID_TASK, (s, g))
      else if 0 < index \<and> index < is_table_size s \<and>
              IE_BITS_TYPE (ie_bits (is_table s ! index)) \<noteq> 0 \<and>
              IE_BITS_GEN (ie_bits (is_table s ! index)) = gen
      then Some (Inr (TableEntry index), (s, g))
      else if 0 < index \<and> index < is_table_size s \<and>
              IE_BITS_TYPE (ie_bits (is_table s ! index)) = 0
      then do {
        table \<leftarrow> rip_entry index gen (is_table s);
        Some (Inr (TableEntry index), (s\<lparr>is_table := table\<rparr>, g))
      }
      else
        let (found, s) = (if 0 < is_tree_total s then tree_lookup name s else (None, s))
        in case found of
          Some entry \<Rightarrow> Some (Inr entry, (s, g))
        | None \<Rightarrow>
            let its = is_table_next s in
            if is_table_size s \<le> index \<and> index < its_size its \<and>
               (its_size its - is_table_size s) * sizeof_ipc_entry <
               (is_tree_small s + 1) * sizeof_ipc_tree_entry
            then do {
              (kr, st) \<leftarrow> ipc_entry_grow_table grow_rounds env avail (s, g);
              if kr \<noteq> KERN_SUCCESS then Some (Inl kr, st)
              else ipc_entry_alloc_name rounds env avail tavail tree_entry name st
            }
            else if tree_entry
            then Some (Inr (TreeEntry name), (alloc_name_insert name s, g))
            else if \<not> tavail then Some (Inl KERN_RESOURCE_SHORTAGE, env Tree_allocating (s, g))
            else ipc_entry_alloc_name rounds env avail tavail True name (env Tree_allocating (s, g)))"

subsection \<open>Deallocation\<close>

definition dealloc_collision :: "nat \<Rightarrow> ipc_state \<Rightarrow> ipc_state option" where
  "dealloc_collision index = (\<lambda>(s, g).
     do {
       let (tree, collisions) =
         ipc_splay_tree_split (MACH_PORT_MAKE (of_nat (index + 1)) 0) (is_tree s);
       let (collisions, small) = ipc_splay_tree_split (MACH_PORT_MAKE (of_nat index) 0) collisions;
       (tname, tentry) \<leftarrow> ipc_splay_tree_pick collisions;
       (s, g) \<leftarrow> move_to_table tname tentry index (s, g);
       let collisions = ipc_splay_tree_delete tname collisions;
       let s = s\<lparr>is_tree_total := is_tree_total s - 1\<rparr>;
       let (s, tree) =
         (case ipc_splay_tree_pick collisions of
            Some _ \<Rightarrow> (s\<lparr>is_table := entry_upd index (\<lambda>e. e\<lparr>ie_bits := ie_bits e OR IE_BITS_COLLISION\<rparr>)
                            (is_table s)\<rparr>, fst (ipc_splay_tree_join tree collisions))
          | None \<Rightarrow> (s, tree));
       Some (s\<lparr>is_tree := fst (ipc_splay_tree_join tree small)\<rparr>, g)
     })"

definition ipc_entry_dealloc :: "mach_port_t \<Rightarrow> ipc_entry_ref \<Rightarrow> ipc_state \<Rightarrow> ipc_state option" where
  "ipc_entry_dealloc name entry = (\<lambda>(s, g).
     let index = unat (MACH_PORT_INDEX name);
         table = is_table s;
         sz = is_table_size s
     in if index < sz \<and> entry = TableEntry index
        then if ie_bits (table ! index) AND IE_BITS_COLLISION \<noteq> 0
             then dealloc_collision index (s, g)
             else
               let table = entry_upd index (\<lambda>e. e\<lparr>ie_bits := ie_bits e AND IE_BITS_GEN_MASK,
                             ie_request := ie_next (table ! 0)\<rparr>) table;
                   table = entry_upd 0 (\<lambda>e. e\<lparr>ie_request := index\<rparr>) table
               in Some (s\<lparr>is_table := table\<rparr>, g)
        else
          let s = s\<lparr>is_tree := ipc_splay_tree_delete name (is_tree s),
                    is_tree_total := is_tree_total s - 1\<rparr>
          in if index < sz
             then let (collision, s) = ipc_entry_tree_collision name s
                  in Some (if collision then s
                           else s\<lparr>is_table := entry_upd index
                                    (\<lambda>e. e\<lparr>ie_bits := ie_bits e AND NOT IE_BITS_COLLISION\<rparr>) (is_table s)\<rparr>, g)
             else if index < its_size (is_table_next s)
             then let (collision, s) = ipc_entry_tree_collision name s
                  in Some (if collision then s else s\<lparr>is_tree_small := is_tree_small s - 1\<rparr>, g)
             else Some (s, g))"

end
