(* ===== verification/Ipc_Entry_Inv.thy ===== *)
theory Ipc_Entry_Inv
  imports Ipc_Entry
begin

section \<open>The invariant of a space and the map it stands for\<close>

text \<open>
  A space stands for a map from names to capabilities.  The entries in the table and the tree
  entries are its two parts; the collision bits, the counts, the free list and the two reverse
  hash tables have to agree with them.  \<open>P\<close> is the set of names in flight: entries that were
  handed out and have no type yet, or whose right was taken away and that are about to be
  deallocated.
\<close>

subsection \<open>Laws of entry bits\<close>

lemma bits_COLLISION_iff: "b AND IE_BITS_COLLISION \<noteq> 0 \<longleftrightarrow> bit b 23"
proof
  assume "b AND IE_BITS_COLLISION \<noteq> 0"
  moreover have "b AND IE_BITS_COLLISION = 0" if "\<not> bit b 23"
    using that by (intro bit_word_eqI) (auto simp: bit_and_iff bits_simps)
  ultimately show "bit b 23" by blast
next
  assume "bit b 23"
  then have "bit (b AND IE_BITS_COLLISION) 23" by (simp add: bit_and_iff bits_simps)
  then show "b AND IE_BITS_COLLISION \<noteq> 0" by auto
qed

lemma bits_or_COLLISION [simp]:
  "IE_BITS_TYPE (b OR IE_BITS_COLLISION) = IE_BITS_TYPE b"
  "IE_BITS_GEN (b OR IE_BITS_COLLISION) = IE_BITS_GEN b"
  "(b OR IE_BITS_COLLISION) AND IE_BITS_RIGHT_MASK = b AND IE_BITS_RIGHT_MASK"
  "bit (b OR IE_BITS_COLLISION) 23"
  by (auto simp: IE_BITS_TYPE_def IE_BITS_GEN_def bit_or_iff bit_and_iff bits_simps intro!: bit_word_eqI)

lemma bits_and_not_COLLISION [simp]:
  "IE_BITS_TYPE (b AND NOT IE_BITS_COLLISION) = IE_BITS_TYPE b"
  "IE_BITS_GEN (b AND NOT IE_BITS_COLLISION) = IE_BITS_GEN b"
  "(b AND NOT IE_BITS_COLLISION) AND IE_BITS_RIGHT_MASK = b AND IE_BITS_RIGHT_MASK"
  "\<not> bit (b AND NOT IE_BITS_COLLISION) 23"
  by (auto simp: IE_BITS_TYPE_def IE_BITS_GEN_def bit_not_iff bit_and_iff bits_simps intro!: bit_word_eqI)

text \<open>The bits of a tree entry have neither a generation nor the collision bit.\<close>

definition right_bits :: "u32 \<Rightarrow> bool" where
  "right_bits b \<longleftrightarrow> b AND IE_BITS_RIGHT_MASK = b"

lemma right_bits_iff: "right_bits b \<longleftrightarrow> (\<forall>n. bit b n \<longrightarrow> n < 23)"
proof
  assume b: "right_bits b"
  show "\<forall>n. bit b n \<longrightarrow> n < 23"
  proof (intro allI impI)
    fix n assume "bit b n"
    with b have "bit (b AND IE_BITS_RIGHT_MASK) n" by (simp add: right_bits_def)
    then show "n < 23" by (simp add: bit_and_iff bits_simps)
  qed
next
  assume "\<forall>n. bit b n \<longrightarrow> n < 23"
  then show "right_bits b"
    unfolding right_bits_def by (intro bit_word_eqI) (auto simp: bit_and_iff bits_simps)
qed

lemma right_bits_0 [simp]: "right_bits 0"
  by (simp add: right_bits_def)

lemma bits_or_GEN [simp]:
  assumes "right_bits b"
  shows "IE_BITS_TYPE (b OR MACH_PORT_GEN n) = IE_BITS_TYPE b"
    and "IE_BITS_GEN (b OR MACH_PORT_GEN n) = MACH_PORT_GEN n"
    and "(b OR MACH_PORT_GEN n) AND IE_BITS_RIGHT_MASK = b"
    and "\<not> bit (b OR MACH_PORT_GEN n) 23"
  using assms unfolding right_bits_iff IE_BITS_TYPE_def IE_BITS_GEN_def MACH_PORT_GEN_def
  by (auto simp: bit_or_iff bit_and_iff bit_push_bit_iff bits_simps intro!: bit_word_eqI)

text \<open>The bits of a free entry are a generation and nothing else.\<close>

definition gen_bits :: "u32 \<Rightarrow> bool" where
  "gen_bits b \<longleftrightarrow> IE_BITS_GEN b = b"

lemma gen_bits_iff: "gen_bits b \<longleftrightarrow> (\<forall>n. bit b n \<longrightarrow> 24 \<le> n)"
proof
  assume b: "gen_bits b"
  show "\<forall>n. bit b n \<longrightarrow> 24 \<le> n"
  proof (intro allI impI)
    fix n assume "bit b n"
    with b have "bit (b AND IE_BITS_GEN_MASK) n" by (simp add: gen_bits_def IE_BITS_GEN_def)
    then show "24 \<le> n" by (simp add: bit_and_iff bits_simps)
  qed
next
  assume "\<forall>n. bit b n \<longrightarrow> 24 \<le> n"
  then show "gen_bits b"
    unfolding gen_bits_def IE_BITS_GEN_def by (intro bit_word_eqI) (auto simp: bit_and_iff bits_simps)
qed

lemma gen_bits_sel:
  assumes "gen_bits b"
  shows "IE_BITS_TYPE b = 0" "b AND IE_BITS_RIGHT_MASK = 0" "\<not> bit b 23"
proof -
  have b: "\<not> bit b n" if "n < 24" for n using assms that by (auto simp: gen_bits_iff)
  then show "IE_BITS_TYPE b = 0" "b AND IE_BITS_RIGHT_MASK = 0" "\<not> bit b 23"
    unfolding IE_BITS_TYPE_def by (auto simp: bit_and_iff bits_simps intro!: bit_word_eqI)
qed

lemma gen_bits_GEN_MASK [simp]: "gen_bits IE_BITS_GEN_MASK"
  by (simp add: gen_bits_iff bits_simps)

lemma gen_bits_PORT_GEN [simp]: "gen_bits (MACH_PORT_GEN n)"
  by (simp add: gen_bits_def)

lemma gen_bits_and [simp]: "gen_bits (b AND IE_BITS_GEN_MASK)"
  by (simp add: gen_bits_iff bit_and_iff bits_simps)

lemma IE_BITS_GEN_and [simp]: "IE_BITS_GEN (b AND IE_BITS_GEN_MASK) = IE_BITS_GEN b"
  by (simp add: IE_BITS_GEN_def)

lemma gen_bits_next [simp]:
  assumes "gen_bits b"
  shows "gen_bits (b + IE_BITS_GEN_ONE)"
proof -
  have "b = push_bit 24 (drop_bit 24 b)"
    using assms by (intro bit_word_eqI) (auto simp: gen_bits_iff bit_push_bit_iff bit_drop_bit_eq)
  moreover have "IE_BITS_GEN_ONE = push_bit 24 1"
    by (simp add: IE_BITS_GEN_ONE_def push_bit_eq_mult)
  ultimately have "b + IE_BITS_GEN_ONE = push_bit 24 (drop_bit 24 b + 1)"
    using push_bit_add [of 24 "drop_bit 24 b" 1] by metis
  then show ?thesis unfolding gen_bits_iff by (simp add: bit_push_bit_iff del: push_bit_add)
qed

lemma TYPE_values [simp]:
  "MACH_PORT_TYPE_NONE = 0" "MACH_PORT_TYPE_SEND \<noteq> 0" "0 \<noteq> MACH_PORT_TYPE_SEND"
  by (simp_all add: type_defs)

subsection \<open>The map of names\<close>

text \<open>What an entry says about its right: the bits without generation and collision, and so on.\<close>

type_synonym capability = "u32 \<times> addr \<times> nat"

definition view :: "ipc_entry \<Rightarrow> capability" where
  "view e = (ie_bits e AND IE_BITS_RIGHT_MASK, ie_object e, ie_request e)"

abbreviation ename :: "ipc_entry list \<Rightarrow> nat \<Rightarrow> mach_port_t" where
  "ename t i \<equiv> MACH_PORT_MAKEB (of_nat i) (ie_bits (t ! i))"

definition used :: "ipc_entry list \<Rightarrow> mach_port_t set \<Rightarrow> nat \<Rightarrow> bool" where
  "used t P i \<longleftrightarrow> 0 < i \<and> i < length t \<and> (ie_type (t ! i) \<noteq> 0 \<or> ename t i \<in> P)"

definition names_map :: "ipc_entry list \<Rightarrow> (mach_port_t \<Rightarrow> ipc_entry option) \<Rightarrow> mach_port_t set
    \<Rightarrow> mach_port_t \<Rightarrow> capability option" where
  "names_map t T P n =
     (if used t P (idx n) \<and> ie_gen (t ! idx n) = MACH_PORT_GEN n then Some (view (t ! idx n))
      else map_option view (T n))"

definition space_map :: "ipc_space \<Rightarrow> mach_port_t set \<Rightarrow> mach_port_t \<Rightarrow> capability option" where
  "space_map s P = names_map (is_table s) (splay_map (is_tree s)) P"

lemma ename_iff: "i < 2 ^ 24 \<Longrightarrow> ename t i = n \<longleftrightarrow> idx n = i \<and> ie_gen (t ! i) = MACH_PORT_GEN n"
proof -
  assume i: "i < 2 ^ 24"
  have "idx (ename t i) = i" by (simp add: MACH_PORT_MAKEB_def idx_MAKE [OF i])
  moreover have "MACH_PORT_GEN (ename t i) = ie_gen (t ! i)"
    by (simp add: MACH_PORT_MAKEB_def IE_BITS_GEN_def)
  ultimately show ?thesis by (metis name_eq_iff idx_eq_iff)
qed

lemma idx_ename: "i < 2 ^ 24 \<Longrightarrow> idx (ename t i) = i"
  using ename_iff by blast

subsection \<open>The invariant\<close>

text \<open>\<open>F\<close> is the free list, from the head in entry 0.\<close>

fun free_chain :: "ipc_entry list \<Rightarrow> nat \<Rightarrow> nat list \<Rightarrow> bool" where
  "free_chain t i [] \<longleftrightarrow> ie_next (t ! i) = 0"
| "free_chain t i (j # F) \<longleftrightarrow> ie_next (t ! i) = j \<and> j \<noteq> 0 \<and> free_chain t j F"

definition free_ok :: "ipc_entry list \<Rightarrow> mach_port_t set \<Rightarrow> nat list \<Rightarrow> bool" where
  "free_ok t P F \<longleftrightarrow>
     free_chain t 0 F \<and> distinct F \<and> set F = {i. 0 < i \<and> i < length t \<and> \<not> used t P i} \<and>
     (\<forall>i\<in>set F. gen_bits (ie_bits (t ! i)) \<and> ie_object (t ! i) = IO_NULL)"

definition head_ok :: "ipc_entry list \<Rightarrow> bool" where
  "head_ok t \<longleftrightarrow> t \<noteq> [] \<and> ie_bits (t ! 0) AND NOT IE_BITS_COLLISION = IE_BITS_GEN_MASK \<and>
     ie_object (t ! 0) = IO_NULL"

text \<open>The collision bit of an entry tells whether the tree has names of its index.\<close>

definition coll_ok :: "ipc_entry list \<Rightarrow> (mach_port_t \<Rightarrow> ipc_entry option) \<Rightarrow> bool" where
  "coll_ok t T \<longleftrightarrow>
     (\<forall>i<length t. bit (ie_bits (t ! i)) 23 \<longleftrightarrow> (\<exists>n\<in>dom T. idx n = i)) \<and>
     (\<forall>n\<in>dom T. idx n < length t \<longrightarrow> ie_gen (t ! idx n) \<noteq> MACH_PORT_GEN n)"

definition tree_ok :: "ipc_entry ipc_splay_tree \<Rightarrow> mach_port_t set \<Rightarrow> bool" where
  "tree_ok tree P \<longleftrightarrow> splay_inv tree \<and>
     (\<forall>(n, e)\<in>set (splay_list tree).
        MACH_PORT_VALID n \<and> right_bits (ie_bits e) \<and> (ie_type e \<noteq> 0 \<or> n \<in> P))"

text \<open>Indices of the tree that the next larger table would hold.\<close>

definition small_set :: "nat \<Rightarrow> nat \<Rightarrow> (mach_port_t \<Rightarrow> ipc_entry option) \<Rightarrow> nat set" where
  "small_set lo hi T = {i. lo \<le> i \<and> i < hi \<and> (\<exists>n\<in>dom T. idx n = i)}"

text \<open>The two reverse tables hold the pure send rights that are not in flight.\<close>

definition send_ix :: "ipc_entry list \<Rightarrow> mach_port_t set \<Rightarrow> nat set" where
  "send_ix t P = {i. i < length t \<and> ie_type (t ! i) = MACH_PORT_TYPE_SEND \<and> ename t i \<notin> P}"

definition tree_sends :: "(mach_port_t \<Rightarrow> ipc_entry option) \<Rightarrow> mach_port_t set \<Rightarrow> (mach_port_t \<times> addr) set" where
  "tree_sends T P = {(n, obj). \<exists>e. T n = Some e \<and> ie_object e = obj \<and> ie_type e = MACH_PORT_TYPE_SEND \<and> n \<notin> P}"

definition gh_of :: "addr \<Rightarrow> ipc_hash_global \<Rightarrow> (mach_port_t \<times> addr) set" where
  "gh_of a g = {(n, obj). \<lparr>ite_space = a, ite_name = n, ite_object = obj\<rparr> \<in> gh_entries g}"

definition rev_ok :: "addr \<Rightarrow> ipc_entry list \<Rightarrow> (mach_port_t \<Rightarrow> ipc_entry option) \<Rightarrow> nat \<Rightarrow> ipc_hash_global
    \<Rightarrow> mach_port_t set \<Rightarrow> bool" where
  "rev_ok a t T c g P \<longleftrightarrow>
     hash_inv t (send_ix t P) \<and> gh_inv g \<and> gh_of a g = tree_sends T P \<and>
     finite (tree_sends T P) \<and> c = card (tree_sends T P)"

text \<open>No two send rights of a space name one port.\<close>

definition unique_sends :: "(mach_port_t \<Rightarrow> capability option) \<Rightarrow> mach_port_t set \<Rightarrow> bool" where
  "unique_sends M P \<longleftrightarrow>
     (\<forall>m n b c obj r q. M m = Some (b, obj, r) \<longrightarrow> M n = Some (c, obj, q) \<longrightarrow> m \<notin> P \<longrightarrow> n \<notin> P \<longrightarrow>
        IE_BITS_TYPE b = MACH_PORT_TYPE_SEND \<longrightarrow> IE_BITS_TYPE c = MACH_PORT_TYPE_SEND \<longrightarrow> m = n)"

definition size_ok :: "ipc_space \<Rightarrow> bool" where
  "size_ok s \<longleftrightarrow> 1 \<le> is_table_next s \<and> is_table_next s \<le> 127 \<and>
     is_table_size s = its_size (is_table_next s - 1)"

definition space_inv :: "ipc_space \<Rightarrow> ipc_hash_global \<Rightarrow> mach_port_t set \<Rightarrow> bool" where
  "space_inv s g P \<longleftrightarrow>
     size_ok s \<and> head_ok (is_table s) \<and> (\<exists>F. free_ok (is_table s) P F) \<and>
     coll_ok (is_table s) (splay_map (is_tree s)) \<and> tree_ok (is_tree s) P \<and>
     is_tree_total s = length (splay_list (is_tree s)) \<and>
     is_tree_small s =
       card (small_set (is_table_size s) (its_size (is_table_next s)) (splay_map (is_tree s))) \<and>
     rev_ok (is_addr s) (is_table s) (splay_map (is_tree s)) (is_tree_hash s) g P \<and>
     unique_sends (space_map s P) P \<and> P \<subseteq> dom (space_map s P)"

lemma space_invD:
  assumes "space_inv s g P"
  shows "size_ok s" "head_ok (is_table s)" "\<exists>F. free_ok (is_table s) P F"
    "coll_ok (is_table s) (splay_map (is_tree s))" "tree_ok (is_tree s) P"
    "is_tree_total s = length (splay_list (is_tree s))"
    "is_tree_small s =
       card (small_set (is_table_size s) (its_size (is_table_next s)) (splay_map (is_tree s)))"
    "rev_ok (is_addr s) (is_table s) (splay_map (is_tree s)) (is_tree_hash s) g P"
    "unique_sends (space_map s P) P" "P \<subseteq> dom (space_map s P)"
  using assms unfolding space_inv_def by blast+

lemma size_ok_bounds:
  assumes "size_ok s"
  shows "1 < is_table_size s" and "is_table_size s < 2 ^ 24"
proof -
  from assms have n: "is_table_next s - 1 < 127" "is_table_size s = its_size (is_table_next s - 1)"
    by (auto simp: size_ok_def)
  from entries.size_pos [OF n(1)] n(2) show "1 < is_table_size s" by simp
  from entries.bounded [of "is_table_next s - 1"] n show "is_table_size s < 2 ^ 24" by simp
qed


lemma head_ok_sel:
  assumes "head_ok t"
  shows "ie_type (t ! 0) = 0" "ie_gen (t ! 0) = IE_BITS_GEN_MASK" "0 < length t"
proof -
  from assms have m: "ie_bits (t ! 0) AND NOT IE_BITS_COLLISION = IE_BITS_GEN_MASK" and "t \<noteq> []"
    by (auto simp: head_ok_def)
  then show "0 < length t" by simp
  from bits_and_not_COLLISION(1) [of "ie_bits (t ! 0)"] m gen_bits_sel(1) [OF gen_bits_GEN_MASK]
  show "ie_type (t ! 0) = 0" by simp
  from bits_and_not_COLLISION(2) [of "ie_bits (t ! 0)"] m show "ie_gen (t ! 0) = IE_BITS_GEN_MASK"
    by (simp add: IE_BITS_GEN_def)
qed

lemma names_map_tree:
  assumes "coll_ok t T" and "n \<in> dom T"
  shows "names_map t T P n = map_option view (T n)"
  using assms by (auto simp: names_map_def coll_ok_def used_def)

lemma names_map_used:
  assumes "used t P i" and "length t < 2 ^ 24"
  shows "names_map t T P (ename t i) = Some (view (t ! i))"
proof -
  from assms have "i < 2 ^ 24" by (auto simp: used_def)
  with ename_iff [OF this, of t "ename t i"] assms(1) show ?thesis by (auto simp: names_map_def)
qed

lemma tree_okD:
  assumes "tree_ok tree P"
  shows "splay_inv tree" and "splay_map tree n = Some e \<Longrightarrow> MACH_PORT_VALID n"
    and "splay_map tree n = Some e \<Longrightarrow> right_bits (ie_bits e)"
    and "splay_map tree n = Some e \<Longrightarrow> n \<notin> P \<Longrightarrow> ie_type e \<noteq> 0"
    and "strict_keys (splay_list tree)"
  using assms by (auto simp: tree_ok_def splay_map_def splay_inv_def dest!: map_of_SomeD)

lemma dom_splay_map: "dom (splay_map tree) = fst ` set (splay_list tree)"
  by (simp add: splay_map_def dom_map_of_conv_image_fst)

lemma splay_map_cong: "splay_list t = splay_list t' \<Longrightarrow> splay_map t = splay_map t'"
  by (simp add: splay_map_def)

text \<open>A lookup in the tree only reshapes it.\<close>

definition reshaped :: "ipc_space \<Rightarrow> ipc_space \<Rightarrow> bool" where
  "reshaped s s' \<longleftrightarrow> s' = s\<lparr>is_tree := is_tree s'\<rparr> \<and> splay_list (is_tree s') = splay_list (is_tree s) \<and>
     splay_inv (is_tree s')"

lemma reshaped_sel:
  assumes "reshaped s s'"
  shows "is_table s' = is_table s" "is_table_next s' = is_table_next s" "is_active s' = is_active s"
    "is_growing s' = is_growing s" "is_tree_total s' = is_tree_total s" "is_tree_small s' = is_tree_small s"
    "is_tree_hash s' = is_tree_hash s" "is_addr s' = is_addr s" "splay_map (is_tree s') = splay_map (is_tree s)"
    "splay_list (is_tree s') = splay_list (is_tree s)" "splay_inv (is_tree s')"
  using assms unfolding reshaped_def by (auto simp: splay_map_def) (metis ipc_space.select_convs ipc_space.update_convs ipc_space.surjective)+

lemma reshaped_map [simp]: "reshaped s s' \<Longrightarrow> space_map s' P = space_map s P"
  by (simp add: space_map_def reshaped_sel)

lemma reshaped_inv: "reshaped s s' \<Longrightarrow> space_inv s g P \<Longrightarrow> space_inv s' g P"
  unfolding space_inv_def by (simp add: reshaped_sel size_ok_def tree_ok_def space_map_def)

lemma reshaped_refl: "space_inv s g P \<Longrightarrow> reshaped s s"
  by (auto simp: reshaped_def dest: space_invD(5) tree_okD(1))

lemma tree_lookup_spec:
  assumes "splay_inv (is_tree s)"
  obtains s' where "tree_lookup n s = (if n \<in> dom (splay_map (is_tree s)) then Some (TreeEntry n) else None, s')"
    and "reshaped s s'"
proof -
  obtain r tree where l: "ipc_splay_tree_lookup n (is_tree s) = (r, tree)" by fastforce
  from splay.lookup_law [OF assms l] have "r = splay_map (is_tree s) n"
    "splay_list tree = splay_list (is_tree s)" "splay_inv tree" by (auto simp: splay_map_def)
  with l show thesis
    by (intro that [of "s\<lparr>is_tree := tree\<rparr>"]) (auto simp: tree_lookup_def reshaped_def split: option.splits)
qed

definition lookup_ok :: "ipc_space \<Rightarrow> mach_port_t set \<Rightarrow> mach_port_t \<Rightarrow> ipc_entry_ref option \<Rightarrow> ipc_space \<Rightarrow> bool" where
  "lookup_ok s P n r s' \<longleftrightarrow> reshaped s s' \<and>
     (case r of None \<Rightarrow> space_map s P n = None
      | Some entry \<Rightarrow> (\<exists>e. entry_at entry s' = Some e \<and> space_map s P n = Some (view e)) \<and>
          entry = (if n \<in> dom (splay_map (is_tree s)) then TreeEntry n else TableEntry (idx n)))"

lemma lookup_ok_tree:
  assumes inv: "space_inv s g P"
    and "\<not> (used (is_table s) P (idx n) \<and> ie_gen (is_table s ! idx n) = MACH_PORT_GEN n)"
  shows "lookup_ok s P n (fst (tree_lookup n s)) (snd (tree_lookup n s))"
proof -
  note I = space_invD [OF inv]
  obtain s' where s': "tree_lookup n s = (if n \<in> dom (splay_map (is_tree s)) then Some (TreeEntry n) else None, s')"
    "reshaped s s'" using tree_okD(1) [OF I(5)] by (rule tree_lookup_spec)
  show ?thesis
  proof (cases "splay_map (is_tree s) n")
    case None
    with s' assms(2) show ?thesis
      by (auto simp: lookup_ok_def space_map_def names_map_def)
  next
    case (Some e)
    with s' names_map_tree [OF I(4), of n P] show ?thesis
      by (auto simp: lookup_ok_def space_map_def entry_at_def reshaped_sel)
  qed
qed

lemma lookup_ok_None:
  assumes "space_inv s g P" and "splay_map (is_tree s) n = None"
    and "\<not> (used (is_table s) P (idx n) \<and> ie_gen (is_table s ! idx n) = MACH_PORT_GEN n)"
  shows "lookup_ok s P n None s"
  using assms by (auto simp: lookup_ok_def space_map_def names_map_def intro: reshaped_refl)

lemma ipc_entry_lookup_spec:
  assumes inv: "space_inv s g P" and n: "n \<notin> P"
  shows "lookup_ok s P n (fst (ipc_entry_lookup n s)) (snd (ipc_entry_lookup n s))"
proof -
  let ?t = "is_table s" and ?T = "splay_map (is_tree s)" and ?i = "idx n"
  note I = space_invD [OF inv]
  show ?thesis
  proof (cases "?i < length ?t")
    case lt: True
    show ?thesis
    proof (cases "ie_gen (?t ! ?i) = MACH_PORT_GEN n")
      case gen: True
      with lt I(4) have T: "?T n = None" by (auto simp: coll_ok_def)
      show ?thesis
      proof (cases "ie_type (?t ! ?i) = 0")
        case True
        have "ename ?t ?i = n" using ename_iff [OF idx_bound, where t = ?t and n = n] gen by simp
        with True n have "\<not> used ?t P ?i" by (simp add: used_def)
        with lookup_ok_None [OF inv T] lt gen True show ?thesis by (simp add: ipc_entry_lookup_def)
      next
        case False
        then have "?i \<noteq> 0" using head_ok_sel(1) [OF I(2)] by metis
        with False lt have "used ?t P ?i" by (simp add: used_def)
        with False lt gen T reshaped_refl [OF inv] show ?thesis
          by (auto simp: ipc_entry_lookup_def lookup_ok_def entry_at_def space_map_def names_map_def)
      qed
    next
      case gen: False
      show ?thesis
      proof (cases "bit (ie_bits (?t ! ?i)) 23")
        case True
        with lt gen lookup_ok_tree [OF inv, of n] show ?thesis
          by (auto simp: ipc_entry_lookup_def bits_COLLISION_iff Let_def)
      next
        case False
        with lt I(4) have "?T n = None" by (auto simp: coll_ok_def)
        with False lt gen lookup_ok_None [OF inv, of n] show ?thesis
          by (auto simp: ipc_entry_lookup_def bits_COLLISION_iff Let_def)
      qed
    qed
  next
    case False
    then have "\<not> used ?t P ?i" by (simp add: used_def)
    moreover have "?T n = None" if "is_tree_total s = 0" using that I(6) by (simp add: splay_map_def)
    ultimately show ?thesis
      using False lookup_ok_None [OF inv, of n] lookup_ok_tree [OF inv, of n]
      by (auto simp: ipc_entry_lookup_def)
  qed
qed

subsection \<open>Tables that say the same\<close>

text \<open>Entries that agree up to the collision bit, the link and the slot of the hash table.\<close>

definition agree :: "ipc_entry list \<Rightarrow> ipc_entry list \<Rightarrow> nat \<Rightarrow> bool" where
  "agree t t' i \<longleftrightarrow>
     ie_bits (t' ! i) AND NOT IE_BITS_COLLISION = ie_bits (t ! i) AND NOT IE_BITS_COLLISION \<and>
     ie_object (t' ! i) = ie_object (t ! i)"

lemma agree_refl [simp]: "agree t t i"
  by (simp add: agree_def)

lemma agree_trans: "agree t t' i \<Longrightarrow> agree t' t'' i \<Longrightarrow> agree t t'' i"
  by (simp add: agree_def)

lemma agree_eq: "t' ! i = t ! i \<Longrightarrow> agree t t' i"
  by (simp add: agree_def)

lemma agree_sel:
  assumes "agree t t' i"
  shows "ie_type (t' ! i) = ie_type (t ! i)" "ie_gen (t' ! i) = ie_gen (t ! i)"
    "ie_request (t' ! i) = ie_request (t ! i) \<Longrightarrow> view (t' ! i) = view (t ! i)"
    "ename t' i = ename t i" "ie_object (t' ! i) = ie_object (t ! i)"
proof -
  let ?b = "ie_bits (t ! i)" and ?c = "ie_bits (t' ! i)"
  from assms have e: "?c AND NOT IE_BITS_COLLISION = ?b AND NOT IE_BITS_COLLISION"
    by (simp add: agree_def)
  show ty: "ie_type (t' ! i) = ie_type (t ! i)"
    using bits_and_not_COLLISION(1) [of ?b] bits_and_not_COLLISION(1) [of ?c] e by simp
  show ge: "ie_gen (t' ! i) = ie_gen (t ! i)"
    using bits_and_not_COLLISION(2) [of ?b] bits_and_not_COLLISION(2) [of ?c] e by simp
  show "view (t' ! i) = view (t ! i)" if "ie_request (t' ! i) = ie_request (t ! i)"
    using that bits_and_not_COLLISION(3) [of ?b] bits_and_not_COLLISION(3) [of ?c] e assms
    by (simp add: view_def agree_def)
  show "ename t' i = ename t i" using ge by (simp add: MACH_PORT_MAKEB_def)
  show "ie_object (t' ! i) = ie_object (t ! i)" using assms by (simp add: agree_def)
qed

lemma used_agree:
  "length t' = length t \<Longrightarrow> agree t t' i \<Longrightarrow> ename t i \<in> P' \<longleftrightarrow> ename t i \<in> P \<Longrightarrow> used t' P' i = used t P i"
  by (simp add: used_def agree_sel)

lemma names_map_agree:
  assumes "length t' = length t" and "0 < idx n \<Longrightarrow> idx n < length t \<Longrightarrow> agree t t' (idx n)"
    and "0 < idx n \<Longrightarrow> idx n < length t \<Longrightarrow> ename t (idx n) \<in> P' \<longleftrightarrow> ename t (idx n) \<in> P"
    and "used t P (idx n) \<Longrightarrow> ie_request (t' ! idx n) = ie_request (t ! idx n)" and "T' n = T n"
  shows "names_map t' T' P' n = names_map t T P n"
proof (cases "0 < idx n \<and> idx n < length t")
  case True
  with assms used_agree [of t' t "idx n" P' P] agree_sel(2,3) [of t t' "idx n"] show ?thesis
    by (auto simp: names_map_def)
next
  case False
  with assms show ?thesis by (auto simp: names_map_def used_def)
qed

lemma hash_inv_cong:
  assumes "length t' = length t" "\<And>p. p < length t \<Longrightarrow> slot t' p = slot t p"
    "\<And>i. i \<in> S \<Longrightarrow> ie_object (t' ! i) = ie_object (t ! i)" and inv: "hash_inv t S"
  shows "hash_inv t' S"
proof (rule hash_invI)
  show "S \<subseteq> {0<..<length t'}" using hash_inv_range [OF inv] assms(1) by auto
next
  fix p assume "p < length t'" "slot t' p \<noteq> 0"
  then show "slot t' p \<in> S" using hash_inv_slot [OF inv] assms(1,2) by auto
next
  fix i assume "i \<in> S"
  then show "\<exists>p<length t'. slot t' p = i" using hash_inv_entered [OF inv] assms(1,2) by auto
next
  fix p q assume "p < length t'" "q < length t'" "slot t' p = slot t' q" "slot t' p \<noteq> 0"
  then show "p = q" using hash_inv_inj [OF inv, of p q] assms(1,2) by auto
next
  fix p q assume a: "p < length t'" "slot t' p \<noteq> 0" "q < length t'" "on_path (home t' (slot t' p)) q p"
  then have p: "p < length t" "slot t p \<noteq> 0" and q: "q < length t" using assms(1,2) by auto
  have "home t' (slot t' p) = home t (slot t p)"
    using hash_inv_slot [OF inv p] assms(1-3) p by simp
  with a(4) hash_inv_clump [OF inv p q] show "slot t' q \<noteq> 0" using assms(2) q by auto
qed

lemma rev_ok_cong:
  assumes "rev_ok a t T c g P" and "length t' = length t" "\<And>p. p < length t \<Longrightarrow> slot t' p = slot t p"
    "send_ix t' P' = send_ix t P" "\<And>i. i \<in> send_ix t P \<Longrightarrow> ie_object (t' ! i) = ie_object (t ! i)"
    "tree_sends T' P' = tree_sends T P"
  shows "rev_ok a t' T' c g P'"
  using assms hash_inv_cong [OF assms(2,3,5)] unfolding rev_ok_def by auto

lemma free_chain_cong:
  "(\<And>j. j \<in> insert i (set F) \<Longrightarrow> ie_next (t' ! j) = ie_next (t ! j)) \<Longrightarrow> free_chain t' i F = free_chain t i F"
  by (induction F arbitrary: i) auto

text \<open>Adding a name to those in flight touches only the slot of its index.\<close>

lemma ename_in_insert:
  "i < 2 ^ 24 \<Longrightarrow> idx n \<noteq> i \<Longrightarrow> ename t i \<in> insert n P \<longleftrightarrow> ename t i \<in> P"
  using idx_ename [of i t] by auto

lemma space_invI:
  assumes "size_ok s" "head_ok (is_table s)" "free_ok (is_table s) P F"
    "coll_ok (is_table s) (splay_map (is_tree s))" "tree_ok (is_tree s) P"
    "is_tree_total s = length (splay_list (is_tree s))"
    "is_tree_small s =
       card (small_set (is_table_size s) (its_size (is_table_next s)) (splay_map (is_tree s)))"
    "rev_ok (is_addr s) (is_table s) (splay_map (is_tree s)) (is_tree_hash s) g P"
    "unique_sends (space_map s P) P" "P \<subseteq> dom (space_map s P)"
  shows "space_inv s g P"
  unfolding space_inv_def using assms by blast

lemma unique_sends_insert:
  assumes "unique_sends M P"
  shows "unique_sends (M(n \<mapsto> c)) (insert n P)"
  using assms unfolding unique_sends_def by (auto split: if_splits)

lemma used_bound: "used t P i \<Longrightarrow> 0 < i \<and> i < length t"
  by (simp add: used_def)

lemma unused_type: "\<not> used t P i \<Longrightarrow> 0 < i \<Longrightarrow> i < length t \<Longrightarrow> ie_type (t ! i) = 0"
  by (simp add: used_def)

lemma unused_no_tree:
  assumes "free_ok t P F" and "coll_ok t T" and "i \<in> set F" and "idx n = i"
  shows "T n = None"
proof -
  from assms(1,3) have "gen_bits (ie_bits (t ! i))" "i < length t" by (auto simp: free_ok_def)
  with gen_bits_sel(3) assms(2,4) show ?thesis by (auto simp: coll_ok_def)
qed

end
