(* ===== verification/Ipc_Entry_Alloc.thy ===== *)
theory Ipc_Entry_Alloc
  imports Ipc_Entry_Inv
begin

section \<open>Allocation of entries\<close>

text \<open>
  What \<open>ipc_entry_get\<close>, \<open>rip_entry\<close> and \<open>alloc_name_insert\<close> do to the map of names: one new
  name, with an empty capability and in flight.
\<close>

definition empty_cap :: capability where "empty_cap = (0, IO_NULL, 0)"

lemma VALID_index:
  assumes "0 < idx n" and "idx n < 2 ^ 24 - 1"
  shows "MACH_PORT_VALID n"
proof -
  have "idx 0 = 0" "idx (NOT 0) = 2 ^ 24 - 1" by (simp_all add: MACH_PORT_INDEX_def mask_eq_exp_minus_1)
  with assms show ?thesis
    by (auto simp: MACH_PORT_VALID_def MACH_PORT_NULL_def MACH_PORT_DEAD_def)
qed

subsection \<open>Taking an entry out of the free list\<close>

text \<open>Entry \<open>f\<close> leaves the free list; everything else keeps its bits, objects and slots.\<close>

definition taken :: "ipc_entry list \<Rightarrow> ipc_entry list \<Rightarrow> mach_port_t set \<Rightarrow> nat \<Rightarrow> bool" where
  "taken t t' P f \<longleftrightarrow>
     length t' = length t \<and> (\<forall>i. i \<noteq> f \<longrightarrow> ie_bits (t' ! i) = ie_bits (t ! i)) \<and>
     (\<forall>i. ie_object (t' ! i) = ie_object (t ! i)) \<and> (\<forall>i. slot t' i = slot t i) \<and>
     (\<forall>i. used t P i \<longrightarrow> ie_request (t' ! i) = ie_request (t ! i)) \<and>
     ie_request (t' ! f) = 0"

lemma taken_agree: "taken t t' P f \<Longrightarrow> i \<noteq> f \<Longrightarrow> agree t t' i"
  by (simp add: taken_def agree_def)

lemma taken_used:
  assumes tk: "taken t t' P f" and "length t < 2 ^ 24" and n: "idx n = f" "ie_bits (t' ! f) = MACH_PORT_GEN n"
    and f: "0 < f" "f < length t"
  shows "used t' (insert n P) i \<longleftrightarrow> used t P i \<or> i = f"
proof (cases "i = f")
  case True
  have "ename t' f = n"
    using assms(2) f n ename_iff [of f t' n] by simp
  with True f tk show ?thesis by (simp add: used_def taken_def)
next
  case False
  show ?thesis
  proof (cases "i < length t")
    case True
    with assms(2) False n(1) have "ename t i \<in> insert n P \<longleftrightarrow> ename t i \<in> P"
      by (intro ename_in_insert) auto
    with used_agree [OF _ taken_agree [OF tk False]] tk False show ?thesis by (simp add: taken_def)
  next
    case out: False
    with False tk show ?thesis by (simp add: used_def taken_def)
  qed
qed

lemma taken_map:
  assumes tk: "taken t t' P f" and "length t < 2 ^ 24" and n: "idx n = f" "ie_bits (t' ! f) = MACH_PORT_GEN n"
    and f: "0 < f" "f < length t" "\<not> used t P f" "ie_object (t ! f) = IO_NULL"
  shows "names_map t' T (insert n P) = (names_map t T P)(n \<mapsto> empty_cap)"
proof
  fix m
  show "names_map t' T (insert n P) m = ((names_map t T P)(n \<mapsto> empty_cap)) m"
  proof (cases "idx m = f")
    case True
    have "view (t' ! f) = empty_cap"
      using tk n f gen_bits_sel(2) [OF gen_bits_PORT_GEN] by (simp add: view_def empty_cap_def taken_def)
    moreover have "ie_gen (t' ! f) = MACH_PORT_GEN m \<longleftrightarrow> m = n"
      using n True by (auto simp: name_eq_iff [of m n] idx_eq_iff [symmetric])
    moreover have "used t' (insert n P) f" using taken_used [OF assms(1-6)] by simp
    ultimately show ?thesis using True f(3) n(1) by (auto simp: names_map_def)
  next
    case False
    with n have "m \<noteq> n" by auto
    moreover have "names_map t' T (insert n P) m = names_map t T P m"
    proof (rule names_map_agree)
      show "length t' = length t" using tk by (simp add: taken_def)
      show "agree t t' (idx m)" using taken_agree [OF tk False] .
      show "ename t (idx m) \<in> insert n P \<longleftrightarrow> ename t (idx m) \<in> P"
        using False n idx_bound [of m] by (intro ename_in_insert) auto
      show "ie_request (t' ! idx m) = ie_request (t ! idx m)" if "used t P (idx m)"
        using tk that by (simp add: taken_def)
    qed simp
    ultimately show ?thesis by simp
  qed
qed

lemma take_free:
  assumes inv: "space_inv s g P" and F: "free_ok (is_table s) P F" and f: "f \<in> set F"
    and tk: "taken (is_table s) t' P f" and n: "idx n = f" "ie_bits (t' ! f) = MACH_PORT_GEN n"
    and F': "free_chain t' 0 F'" "distinct F'" "set F' = set F - {f}"
  shows "space_map s P n = None" and "MACH_PORT_VALID n"
    and "space_map (s\<lparr>is_table := t'\<rparr>) (insert n P) = (space_map s P)(n \<mapsto> empty_cap)"
    and "space_inv (s\<lparr>is_table := t'\<rparr>) g (insert n P)"
proof -
  let ?t = "is_table s" and ?T = "splay_map (is_tree s)" and ?s = "s\<lparr>is_table := t'\<rparr>"
  note I = space_invD [OF inv]
  from F f have f': "0 < f" "f < length ?t" "\<not> used ?t P f" "ie_object (?t ! f) = IO_NULL"
    "gen_bits (ie_bits (?t ! f))" by (auto simp: free_ok_def)
  have len: "length ?t < 2 ^ 24" by (rule size_ok_bounds [OF I(1)])
  have len': "length t' = length ?t" using tk by (simp add: taken_def)
  have Tf: "?T m = None" if "idx m = f" for m by (rule unused_no_tree [OF F I(4) f that])
  show none: "space_map s P n = None"
    using f'(3) n(1) Tf [OF n(1)] by (simp add: space_map_def names_map_def)
  show "MACH_PORT_VALID n" using f'(1,2) len n(1) by (intro VALID_index) auto
  show M: "space_map ?s (insert n P) = (space_map s P)(n \<mapsto> empty_cap)"
    using taken_map [OF tk len n f'(1-4)] by (simp add: space_map_def)
  have sends: "send_ix t' (insert n P) = send_ix ?t P"
  proof -
    have "i \<in> send_ix t' (insert n P) \<longleftrightarrow> i \<in> send_ix ?t P" for i
    proof (cases "i = f")
      case True
      have "ie_type (t' ! f) = 0" "ie_type (?t ! f) = 0"
        using n(2) gen_bits_sel(1) f'(5) by auto
      with True show ?thesis by (auto simp: send_ix_def)
    next
      case False
      show ?thesis
      proof (cases "i < length ?t")
        case True
        with False n(1) len have "ename ?t i \<in> insert n P \<longleftrightarrow> ename ?t i \<in> P"
          by (intro ename_in_insert) auto
        with agree_sel(1,4) [OF taken_agree [OF tk False]] len' show ?thesis by (auto simp: send_ix_def)
      qed (simp add: send_ix_def len')
    qed
    then show ?thesis by blast
  qed
  have trees: "tree_sends ?T (insert n P) = tree_sends ?T P"
    using Tf [OF n(1)] by (auto simp: tree_sends_def)
  have free: "free_ok t' (insert n P) F'"
    unfolding free_ok_def
  proof (intro conjI ballI)
    show "free_chain t' 0 F'" "distinct F'" by (fact F')+
    show "set F' = {i. 0 < i \<and> i < length t' \<and> \<not> used t' (insert n P) i}"
      using F F'(3) taken_used [OF tk len n f'(1,2)] len' by (auto simp: free_ok_def)
    fix i assume "i \<in> set F'"
    then have "i \<in> set F" "i \<noteq> f" using F'(3) by auto
    with F tk show "gen_bits (ie_bits (t' ! i))" "ie_object (t' ! i) = IO_NULL"
      by (auto simp: free_ok_def taken_def)
  qed
  have coll: "coll_ok t' ?T"
  proof -
    have "bit (ie_bits (t' ! f)) 23 \<longleftrightarrow> bit (ie_bits (?t ! f)) 23"
      using n(2) gen_bits_sel(3) f'(5) by auto
    then have "bit (ie_bits (t' ! i)) 23 \<longleftrightarrow> bit (ie_bits (?t ! i)) 23" for i
      using tk by (cases "i = f") (auto simp: taken_def)
    moreover have "ie_gen (t' ! idx m) = ie_gen (?t ! idx m)" if "m \<in> dom ?T" for m
    proof -
      from that Tf [of m] have "idx m \<noteq> f" by auto
      with tk show ?thesis by (simp add: taken_def)
    qed
    ultimately show ?thesis using I(4) len' by (simp add: coll_ok_def)
  qed
  show "space_inv ?s g (insert n P)"
  proof (rule space_invI [where F = F'])
    show "size_ok ?s" using I(1) len' by (simp add: size_ok_def)
    show "head_ok (is_table ?s)" using I(2) tk f'(1) len' by (auto simp: head_ok_def taken_def)
    show "free_ok (is_table ?s) (insert n P) F'" using free by simp
    show "coll_ok (is_table ?s) (splay_map (is_tree ?s))" using coll by simp
    show "tree_ok (is_tree ?s) (insert n P)" using I(5) by (auto simp: tree_ok_def)
    show "is_tree_total ?s = length (splay_list (is_tree ?s))" using I(6) by simp
    show "is_tree_small ?s =
        card (small_set (is_table_size ?s) (its_size (is_table_next ?s)) (splay_map (is_tree ?s)))"
      using I(7) len' by simp
    have "rev_ok (is_addr s) t' ?T (is_tree_hash s) g (insert n P)"
      using rev_ok_cong [OF I(8) len' _ sends _ trees] tk by (simp add: taken_def)
    then show "rev_ok (is_addr ?s) (is_table ?s) (splay_map (is_tree ?s)) (is_tree_hash ?s) g (insert n P)"
      by simp
    show "unique_sends (space_map ?s (insert n P)) (insert n P)"
      unfolding M by (rule unique_sends_insert [OF I(9)])
    show "insert n P \<subseteq> dom (space_map ?s (insert n P))" unfolding M using I(10) by auto
  qed
qed

text \<open>\<open>ipc_entry_get\<close> takes the head of the free list.\<close>

lemma ipc_entry_get_spec:
  assumes inv: "space_inv s g P"
  shows "(ipc_entry_get s = (Inl KERN_NO_SPACE, s) \<and> free_ok (is_table s) P []) \<or>
    (\<exists>n t'. ipc_entry_get s = (Inr (n, TableEntry (idx n)), s\<lparr>is_table := t'\<rparr>) \<and>
       MACH_PORT_VALID n \<and> space_map s P n = None \<and>
       space_map (s\<lparr>is_table := t'\<rparr>) (insert n P) = (space_map s P)(n \<mapsto> empty_cap) \<and>
       space_inv (s\<lparr>is_table := t'\<rparr>) g (insert n P))"
proof -
  let ?t = "is_table s"
  note I = space_invD [OF inv]
  have len: "length ?t < 2 ^ 24" by (rule size_ok_bounds [OF I(1)])
  from I(3) obtain F where F: "free_ok ?t P F" ..
  then have ch: "free_chain ?t 0 F" by (simp add: free_ok_def)
  show ?thesis
  proof (cases F)
    case Nil
    with ch F show ?thesis by (simp add: ipc_entry_get_def)
  next
    case (Cons f F')
    with ch have nf: "ie_next (?t ! 0) = f" "f \<noteq> 0" "free_chain ?t f F'" by auto
    from F Cons have f: "f < length ?t" "\<not> used ?t P f" "gen_bits (ie_bits (?t ! f))" "f \<notin> set F'" "distinct F'"
      and F'u: "\<forall>i\<in>set F'. i \<noteq> 0" and u0: "\<not> used ?t P 0"
      by (auto simp: free_ok_def used_def)
    let ?b = "ie_bits (?t ! f) + IE_BITS_GEN_ONE"
    let ?t1 = "entry_upd 0 (\<lambda>e. e\<lparr>ie_request := ie_next (?t ! f)\<rparr>) ?t"
    let ?t' = "entry_upd f (\<lambda>e. e\<lparr>ie_bits := ?b, ie_request := 0\<rparr>) ?t1"
    let ?n = "MACH_PORT_MAKE (of_nat f) ?b"
    have len0: "0 < length ?t" using f(1) by auto
    have nth: "?t' ! i = (if i = f then (?t ! f)\<lparr>ie_bits := ?b, ie_request := 0\<rparr>
        else if i = 0 then (?t ! 0)\<lparr>ie_request := ie_next (?t ! f)\<rparr> else ?t ! i)" for i
      using f(1) len0 nf(2) by simp
    have tk: "taken ?t ?t' P f" using f(2) u0 unfolding taken_def nth by auto
    have n: "idx ?n = f" using f(1) len by (intro idx_MAKE) simp
    have g: "MACH_PORT_GEN ?n = ?b"
      using gen_bits_next [OF f(3)] by (simp add: gen_bits_def)
    have ch': "free_chain ?t' 0 F'"
    proof (cases F')
      case Nil
      with nf len0 f(1) show ?thesis by simp
    next
      case (Cons j G)
      with nf have j: "ie_next (?t ! f) = j" "j \<noteq> 0" "free_chain ?t j G" by auto
      have "free_chain ?t' j G = free_chain ?t j G"
        using Cons f(4) F'u by (intro free_chain_cong) (auto simp: nth)
      moreover have "ie_next (?t' ! 0) = j" unfolding nth using nf(2) j(1) by simp
      ultimately show ?thesis using j Cons by simp
    qed
    have fF: "f \<in> set F" and setF': "set F' = set F - {f}" using Cons f(4) by auto
    have gb: "ie_bits (?t' ! f) = MACH_PORT_GEN ?n" unfolding g nth by simp
    note tf = take_free [OF inv F fF tk n gb ch' f(5) setF']
    have "ipc_entry_get s = (Inr (?n, TableEntry f), s\<lparr>is_table := ?t'\<rparr>)"
      using nf f(1) len0 by (simp add: ipc_entry_get_def Let_def)
    with tf n show ?thesis by metis
  qed
qed

subsection \<open>Ripping a given entry out of the free list\<close>

lemma rip_walk_spec:
  "free_chain t i (A @ f # B) \<Longrightarrow> f \<notin> set A \<Longrightarrow> length A < fuel \<Longrightarrow>
     rip_walk fuel t f i = Some (last (i # A))"
proof (induction A arbitrary: i fuel)
  case Nil
  then obtain k where "fuel = Suc k" by (cases fuel) auto
  with Nil show ?case by simp
next
  case (Cons a A)
  then obtain k where "fuel = Suc k" "length A < k" by (cases fuel) auto
  with Cons show ?case by auto
qed

lemma free_chain_unlink:
  assumes "free_chain t i (A @ f # B)" and "distinct (i # A @ f # B)"
    and "ie_next (t' ! last (i # A)) = ie_next (t ! f)"
    and "\<And>j. j \<in> set (i # A @ B) \<Longrightarrow> j \<noteq> last (i # A) \<Longrightarrow> ie_next (t' ! j) = ie_next (t ! j)"
  shows "free_chain t' i (A @ B)"
  using assms
proof (induction A arbitrary: i)
  case Nil
  show ?case
  proof (cases B)
    case (Cons b C)
    have "free_chain t' b C = free_chain t b C"
      using Nil(2,4) Cons by (intro free_chain_cong) auto
    with Nil Cons show ?thesis by auto
  qed (use Nil in auto)
next
  case (Cons a A)
  have "free_chain t' a (A @ B)"
  proof (rule Cons.IH)
    show "ie_next (t' ! j) = ie_next (t ! j)" if "j \<in> set (a # A @ B)" "j \<noteq> last (a # A)" for j
      using that Cons.prems(4) [of j] by auto
  qed (use Cons.prems in auto)
  moreover have "i \<noteq> last (i # a # A)" using Cons.prems(2) by (auto split: if_splits)
  then have "ie_next (t' ! i) = ie_next (t ! i)" by (intro Cons.prems(4)) auto
  ultimately show ?case using Cons.prems(1) by auto
qed

lemma rip_entry_spec:
  assumes inv: "space_inv s g P" and f: "0 < idx n" "idx n < is_table_size s"
    and ty: "ie_type (is_table s ! idx n) = 0" and P: "ename (is_table s) (idx n) \<notin> P"
  obtains t' where "rip_entry (idx n) (MACH_PORT_GEN n) (is_table s) = Some t'"
    and "space_map s P n = None"
    and "space_map (s\<lparr>is_table := t'\<rparr>) (insert n P) = (space_map s P)(n \<mapsto> empty_cap)"
    and "space_inv (s\<lparr>is_table := t'\<rparr>) g (insert n P)"
proof -
  let ?t = "is_table s" and ?f = "idx n"
  note I = space_invD [OF inv]
  from I(3) obtain F where F: "free_ok ?t P F" ..
  with f ty P have fF: "?f \<in> set F" by (auto simp: free_ok_def used_def)
  then obtain A B where AB: "F = A @ ?f # B" "?f \<notin> set A" by (auto dest: split_list_first)
  from F have ch: "free_chain ?t 0 F" and d: "distinct F" and sF: "set F \<subseteq> {0<..<length ?t}"
    and u: "\<forall>i\<in>set F. \<not> used ?t P i" by (auto simp: free_ok_def)
  have "length F \<le> card {0<..<length ?t}" using d sF by (metis card_mono distinct_card finite_greaterThanLessThan)
  with AB(1) f have "length A < length ?t" by simp
  with rip_walk_spec [of ?t 0 A ?f B "length ?t"] ch AB
  have w: "rip_walk (length ?t) ?t ?f 0 = Some (last (0 # A))" by simp
  let ?p = "last (0 # A)"
  have p: "?p = 0 \<or> ?p \<in> set A" by (cases A rule: rev_cases) auto
  with AB sF f(2) have plen: "?p < length ?t" by auto
  have pf: "?p \<noteq> ?f" using p AB(2) f(1) by auto
  have pu: "\<not> used ?t P ?p" using p u AB(1) by (auto simp: used_def)
  let ?t1 = "entry_upd ?p (\<lambda>e. e\<lparr>ie_request := ie_next (?t ! ?f)\<rparr>) ?t"
  let ?t' = "entry_upd ?f (\<lambda>e. e\<lparr>ie_bits := MACH_PORT_GEN n, ie_request := 0\<rparr>) ?t1"
  have nth: "?t' ! i = (if i = ?f then (?t ! ?f)\<lparr>ie_bits := MACH_PORT_GEN n, ie_request := 0\<rparr>
      else if i = ?p then (?t ! ?p)\<lparr>ie_request := ie_next (?t ! ?f)\<rparr> else ?t ! i)" for i
    using f(2) plen pf by simp
  have "\<not> used ?t P ?f" using u fF by blast
  then have tk: "taken ?t ?t' P ?f" using pu unfolding taken_def nth by auto
  have d0: "distinct (0 # A @ ?f # B)" using d sF AB(1) by auto
  have ch': "free_chain ?t' 0 (A @ B)"
  proof (rule free_chain_unlink [OF _ d0])
    show "free_chain ?t 0 (A @ ?f # B)" using ch AB(1) by simp
    show "ie_next (?t' ! ?p) = ie_next (?t ! ?f)" unfolding nth using pf by simp
    show "ie_next (?t' ! j) = ie_next (?t ! j)" if "j \<in> set (0 # A @ B)" "j \<noteq> ?p" for j
      unfolding nth using that d0 by auto
  qed
  have dAB: "distinct (A @ B)" "set (A @ B) = set F - {?f}" using d AB(1) by auto
  have gb: "ie_bits (?t' ! ?f) = MACH_PORT_GEN n" unfolding nth by simp
  note tf = take_free [OF inv F fF tk refl gb ch' dAB]
  have "rip_entry ?f (MACH_PORT_GEN n) ?t = Some ?t'"
    using w f(2) plen by (simp add: rip_entry_def Let_def)
  from that [OF this tf(1,3,4)] show thesis .
qed

end
