(* ===== verification/Ipc_Entry_Tree.thy ===== *)
theory Ipc_Entry_Tree
  imports Ipc_Entry_Alloc
begin

section \<open>Entries in the tree: collisions, insertion and deletion\<close>

text \<open>
  The collision test of \<open>ipc_entry_tree_collision\<close>, and the two operations that change the
  tree by one name: the last case of \<open>ipc_entry_alloc_name\<close> and the tree case of
  \<open>ipc_entry_dealloc\<close>.
\<close>

lemma collision_spec:
  assumes "tree_ok (is_tree s) P"
  obtains tree where "ipc_entry_tree_collision n s =
      (\<exists>m\<in>dom (splay_map (is_tree s)). idx m = idx n, s\<lparr>is_tree := tree\<rparr>)"
    and "splay_list tree = splay_list (is_tree s)" and "splay_inv tree"
proof -
  obtain lower upper tree where b: "ipc_splay_tree_bounds n (is_tree s) = ((lower, upper), tree)"
    by (metis prod.collapse)
  note sp = tree_okD(1) [OF assms]
  from splay.bounds_law [OF sp b] have t: "splay_list tree = splay_list (is_tree s)" "splay_inv tree"
    by auto
  have "\<forall>x\<in>set (splay_list (is_tree s)). MACH_PORT_VALID (fst x)"
    using assms by (auto simp: tree_ok_def)
  from splay.bounds_index [OF sp b this] b t show thesis
    by (intro that [of tree]) (auto simp: ipc_entry_tree_collision_def dom_splay_map)
qed

lemma small_set_insert:
  "small_set lo hi (T(n \<mapsto> e)) =
     (if lo \<le> idx n \<and> idx n < hi then insert (idx n) (small_set lo hi T) else small_set lo hi T)"
  by (auto simp: small_set_def)

lemma finite_small_set [simp]: "finite (small_set lo hi T)"
  by (rule finite_subset [of _ "{..<hi}"]) (auto simp: small_set_def)

lemma small_set_delete:
  "small_set lo hi (T(n := None)) =
     (if \<exists>m\<in>dom T. m \<noteq> n \<and> idx m = idx n then small_set lo hi T else small_set lo hi T - {idx n})"
  by (auto simp: small_set_def)

lemma COLLISION_toggle [simp]:
  "(b OR IE_BITS_COLLISION) AND NOT IE_BITS_COLLISION = b AND NOT IE_BITS_COLLISION"
  "(b AND NOT IE_BITS_COLLISION) AND NOT IE_BITS_COLLISION = b AND NOT IE_BITS_COLLISION"
  by (auto intro!: bit_word_eqI simp: bit_and_iff bit_or_iff bit_not_iff)

text \<open>Nothing but collision bits and the tree change; \<open>n\<close> is no name of the table.\<close>

lemma agree_free_ok:
  assumes F: "free_ok t P F" and len: "length t' = length t"
    and same: "\<And>i. i < length t \<Longrightarrow> agree t t' i \<and> ie_request (t' ! i) = ie_request (t ! i)"
    and P: "\<And>i. i < length t \<Longrightarrow> ename t i \<in> P' \<longleftrightarrow> ename t i \<in> P"
    and bits: "\<And>i. i \<in> set F \<Longrightarrow> ie_bits (t' ! i) = ie_bits (t ! i)" and ne: "t \<noteq> []"
  shows "free_ok t' P' F"
  unfolding free_ok_def
proof (intro conjI ballI)
  from F have sF: "set F = {i. 0 < i \<and> i < length t \<and> \<not> used t P i}" by (simp add: free_ok_def)
  have "free_chain t' 0 F = free_chain t 0 F"
    using same sF ne by (intro free_chain_cong) auto
  with F show "free_chain t' 0 F" by (simp add: free_ok_def)
  show "distinct F" using F by (simp add: free_ok_def)
  have "used t' P' i = used t P i" if "i < length t" for i
    using len same [OF that] P [OF that] by (intro used_agree) auto
  then show "set F = {i. 0 < i \<and> i < length t' \<and> \<not> used t' P' i}" unfolding sF len by auto
  fix i assume i: "i \<in> set F"
  with F bits show "gen_bits (ie_bits (t' ! i))" by (simp add: free_ok_def)
  from i sF same F show "ie_object (t' ! i) = IO_NULL" by (auto simp: free_ok_def agree_def)
qed

lemma agree_send_ix:
  assumes "length t' = length t" and "\<And>i. i < length t \<Longrightarrow> agree t t' i"
    and "\<And>i. i < length t \<Longrightarrow> ename t i \<in> P' \<longleftrightarrow> ename t i \<in> P"
  shows "send_ix t' P' = send_ix t P"
proof -
  have "i \<in> send_ix t' P' \<longleftrightarrow> i \<in> send_ix t P" for i
    using assms(1) agree_sel(1,4) [OF assms(2), of i] assms(3) [of i] by (auto simp: send_ix_def)
  then show ?thesis by blast
qed

lemma coll_ok_gen:
  "coll_ok t T \<Longrightarrow> n \<in> dom T \<Longrightarrow> idx n < length t \<Longrightarrow> ie_gen (t ! idx n) \<noteq> MACH_PORT_GEN n"
  by (simp add: coll_ok_def)

lemma coll_ok_bit:
  "coll_ok t T \<Longrightarrow> i < length t \<Longrightarrow> bit (ie_bits (t ! i)) 23 \<longleftrightarrow> (\<exists>n\<in>dom T. idx n = i)"
  by (simp add: coll_ok_def)

lemma not_ename:
  assumes "idx n < length t \<Longrightarrow> ie_gen (t ! idx n) \<noteq> MACH_PORT_GEN n" and "i < length t" "length t < 2 ^ 24"
  shows "ename t i \<noteq> n"
  using assms ename_iff [of i t n] by auto

lemma alloc_name_insert_spec:
  assumes inv: "space_inv s g P" and v: "MACH_PORT_VALID n" and T: "splay_map (is_tree s) n = None"
    and slot: "idx n < is_table_size s \<Longrightarrow> ie_gen (is_table s ! idx n) \<noteq> MACH_PORT_GEN n \<and>
      (idx n = 0 \<or> used (is_table s) P (idx n))"
  defines "s' \<equiv> alloc_name_insert n s"
  shows "space_map s P n = None"
    and "space_map s' (insert n P) = (space_map s P)(n \<mapsto> empty_cap)"
    and "space_inv s' g (insert n P)"
    and "is_active s' = is_active s" "entry_at (TreeEntry n) s' = Some zero_entry"
proof -
  let ?t = "is_table s" and ?T = "splay_map (is_tree s)" and ?i = "idx n"
  note I = space_invD [OF inv]
  note sz = size_ok_bounds [OF I(1)]
  let ?hit = "\<exists>m\<in>dom ?T. idx m = ?i"
  define t' where "t' = (if ?i < length ?t
    then entry_upd ?i (\<lambda>e. e\<lparr>ie_bits := ie_bits e OR IE_BITS_COLLISION\<rparr>) ?t else ?t)"
  let ?small = "if length ?t \<le> ?i \<and> ?i < its_size (is_table_next s) \<and> \<not> ?hit
    then is_tree_small s + 1 else is_tree_small s"
  obtain tree where tree: "splay_list tree = splay_list (is_tree s)" "splay_inv tree"
    and s': "s' = s\<lparr>is_table := t', is_tree_total := is_tree_total s + 1, is_tree_small := ?small,
      is_tree := ipc_splay_tree_insert n zero_entry tree\<rparr>"
  proof (cases "length ?t \<le> ?i \<and> ?i < its_size (is_table_next s)")
    case True
    have "tree_ok (is_tree (s\<lparr>is_tree_total := is_tree_total s + 1\<rparr>)) P" using I(5) by simp
    then obtain tree where "ipc_entry_tree_collision n (s\<lparr>is_tree_total := is_tree_total s + 1\<rparr>) =
        (?hit, s\<lparr>is_tree_total := is_tree_total s + 1, is_tree := tree\<rparr>)"
      "splay_list tree = splay_list (is_tree s)" "splay_inv tree"
      by (rule collision_spec [where n = n]) simp
    with True show thesis
      by (intro that [of tree]) (auto simp: s'_def t'_def alloc_name_insert_def Let_def)
  next
    case False
    then show thesis
      using tree_okD(1) [OF I(5)]
      by (intro that [of "is_tree s"]) (auto simp: s'_def t'_def alloc_name_insert_def Let_def)
  qed
  let ?tree = "ipc_splay_tree_insert n zero_entry tree"
  have new: "n \<notin> fst ` set (splay_list tree)"
    using T by (auto simp: splay_map_def tree(1) map_of_eq_None_iff)
  have T': "splay_map ?tree = ?T(n \<mapsto> zero_entry)"
    using splay.ins_map [OF tree(2) new] by (simp add: splay_map_def tree(1))
  have len: "length t' = length ?t" by (simp add: t'_def)
  have same: "agree ?t t' i \<and> ie_request (t' ! i) = ie_request (?t ! i) \<and> slot t' i = slot ?t i" for i
    by (auto simp: agree_def t'_def)
  have b23: "bit (ie_bits (t' ! i)) 23 \<longleftrightarrow> bit (ie_bits (?t ! i)) 23 \<or> i = ?i" if "i < length ?t" for i
    using that by (auto simp: t'_def)
  have bF: "ie_bits (t' ! i) = ie_bits (?t ! i)" if "i \<noteq> ?i \<or> \<not> i < length ?t" for i
    using that by (auto simp: t'_def)
  have en: "ename ?t i \<noteq> n" if "i < length ?t" for i
    using slot that sz(2) by (intro not_ename) auto
  have P: "ename ?t i \<in> insert n P \<longleftrightarrow> ename ?t i \<in> P" if "i < length ?t" for i
    using en [OF that] by auto
  have unn: "\<not> (used ?t P ?i \<and> ie_gen (?t ! ?i) = MACH_PORT_GEN n)"
    using slot by (auto simp: used_def)
  show none: "space_map s P n = None" using unn T by (simp add: space_map_def names_map_def)
  show M: "space_map s' (insert n P) = (space_map s P)(n \<mapsto> empty_cap)"
  proof
    fix m
    have "names_map t' (splay_map ?tree) (insert n P) m = ((names_map ?t ?T P)(n \<mapsto> empty_cap)) m"
    proof (cases "m = n")
      case True
      have "ie_gen (t' ! ?i) = ie_gen (?t ! ?i)" using same agree_sel(2) by blast
      then have "\<not> (used t' (insert n P) ?i \<and> ie_gen (t' ! ?i) = MACH_PORT_GEN n)"
        using slot used_bound [of t' "insert n P" ?i] unfolding len by auto
      then have "names_map t' (splay_map ?tree) (insert n P) n = map_option view (splay_map ?tree n)"
        unfolding names_map_def by (rule if_not_P)
      also have "\<dots> = Some empty_cap"
        unfolding T' by (simp add: view_def zero_entry_def empty_cap_def)
      finally show ?thesis using True by simp
    next
      case False
      have "names_map t' (splay_map ?tree) (insert n P) m = names_map ?t ?T P m"
      proof (rule names_map_agree [OF len])
        show "agree ?t t' (idx m)" "ie_request (t' ! idx m) = ie_request (?t ! idx m)" using same by blast+
        show "idx m < length ?t \<Longrightarrow> ename ?t (idx m) \<in> insert n P \<longleftrightarrow> ename ?t (idx m) \<in> P" by (rule P)
      qed (use False in \<open>simp add: T'\<close>)
      with False show ?thesis by simp
    qed
    then show "space_map s' (insert n P) m = ((space_map s P)(n \<mapsto> empty_cap)) m"
      by (simp add: space_map_def s')
  qed
  from I(3) obtain F where F: "free_ok ?t P F" ..
  have iF: "?i \<notin> set F \<or> \<not> ?i < length ?t" using F slot by (auto simp: free_ok_def)
  have ins: "splay_inv ?tree" using splay.ins_law [OF tree(2) new] by simp
  show "space_inv s' g (insert n P)"
  proof (rule space_invI [where F = F])
    show "size_ok s'" using I(1) by (simp add: size_ok_def s' len)
    show "head_ok (is_table s')" using I(2) sz(1) same [of 0] len by (auto simp: head_ok_def s' agree_def)
    have "free_ok t' (insert n P) F"
    proof (rule agree_free_ok [OF F len])
      show "agree ?t t' i \<and> ie_request (t' ! i) = ie_request (?t ! i)" for i using same by blast
      show "ie_bits (t' ! i) = ie_bits (?t ! i)" if "i \<in> set F" for i using iF that by (intro bF) auto
      show "?t \<noteq> []" using sz(1) by auto
    qed (rule P)
    then show "free_ok (is_table s') (insert n P) F" by (simp add: s')
    have "coll_ok t' (?T(n \<mapsto> zero_entry))"
      unfolding coll_ok_def
    proof (intro conjI allI impI ballI)
      fix i assume i: "i < length t'"
      then show "bit (ie_bits (t' ! i)) 23 \<longleftrightarrow> (\<exists>m\<in>dom (?T(n \<mapsto> zero_entry)). idx m = i)"
        using coll_ok_bit [OF I(4), of i] b23 [of i] len by auto
    next
      fix m assume "m \<in> dom (?T(n \<mapsto> zero_entry))" "idx m < length t'"
      moreover have "ie_gen (t' ! idx m) = ie_gen (?t ! idx m)" using same agree_sel(2) by blast
      ultimately show "ie_gen (t' ! idx m) \<noteq> MACH_PORT_GEN m"
        using coll_ok_gen [OF I(4), of m] slot len by (cases "m = n") auto
    qed
    then show "coll_ok (is_table s') (splay_map (is_tree s'))" by (simp add: s' T')
    show "tree_ok (is_tree s') (insert n P)"
      using I(5) ins splay.ins_set [OF tree(2) new, of zero_entry] v
      by (auto simp: tree_ok_def s' tree(1) zero_entry_def)
    show "is_tree_total s' = length (splay_list (is_tree s'))"
      using I(6) splay.ins_length [OF tree(2) new] by (simp add: s' tree(1))
    show "is_tree_small s' = card (small_set (is_table_size s') (its_size (is_table_next s')) (splay_map (is_tree s')))"
      using I(7) by (auto simp: s' T' len small_set_insert card_insert_if) (auto simp: small_set_def)
    have "rev_ok (is_addr s) t' (?T(n \<mapsto> zero_entry)) (is_tree_hash s) g (insert n P)"
    proof (rule rev_ok_cong [OF I(8) len])
      show "slot t' p = slot ?t p" for p using same by blast
      show "send_ix t' (insert n P) = send_ix ?t P" using same P by (intro agree_send_ix len) blast+
      show "ie_object (t' ! i) = ie_object (?t ! i)" for i using same by (simp add: agree_def)
      show "tree_sends (?T(n \<mapsto> zero_entry)) (insert n P) = tree_sends ?T P"
        using T by (auto simp: tree_sends_def)
    qed
    then show "rev_ok (is_addr s') (is_table s') (splay_map (is_tree s')) (is_tree_hash s') g (insert n P)"
      by (simp add: s' T')
    show "unique_sends (space_map s' (insert n P)) (insert n P)"
      unfolding M by (rule unique_sends_insert [OF I(9)])
    show "insert n P \<subseteq> dom (space_map s' (insert n P))" unfolding M using I(10) by auto
  qed
  show "is_active s' = is_active s" by (simp add: s')
  show "entry_at (TreeEntry n) s' = Some zero_entry" by (simp add: entry_at_def s' T')
qed

end
