(* ===== verification/Ipc_Entry_Dealloc.thy ===== *)
theory Ipc_Entry_Dealloc
  imports Ipc_Entry_Tree
begin

section \<open>Moving an entry to the table; deallocation\<close>

text \<open>
  \<open>move_to_table\<close> keeps the reverse tables in step with the two places of an entry.
  \<open>ipc_entry_dealloc\<close> takes one name in flight out of the map, in all of its cases.
\<close>

subsection \<open>Moving\<close>

definition moved :: "ipc_entry list \<Rightarrow> ipc_entry list \<Rightarrow> nat \<Rightarrow> mach_port_t \<Rightarrow> ipc_entry \<Rightarrow> bool" where
  "moved t t' i n e \<longleftrightarrow> length t' = length t \<and>
     ie_bits (t' ! i) = ie_bits e OR MACH_PORT_GEN n \<and> ie_object (t' ! i) = ie_object e \<and>
     ie_request (t' ! i) = ie_request e \<and> (\<forall>j. j \<noteq> i \<longrightarrow> t' ! j = (t ! j)\<lparr>ie_index := slot t' j\<rparr>)"

lemma moved_agree: "moved t t' i n e \<Longrightarrow> j \<noteq> i \<Longrightarrow> agree t t' j \<and> ie_request (t' ! j) = ie_request (t ! j)"
  unfolding moved_def agree_def by (metis ipc_entry.select_convs ipc_entry.surjective ipc_entry.update_convs(4))

lemma moved_bits: "moved t t' i n e \<Longrightarrow> j \<noteq> i \<Longrightarrow> ie_bits (t' ! j) = ie_bits (t ! j)"
  unfolding moved_def by (metis ipc_entry.select_convs(1) ipc_entry.surjective ipc_entry.update_convs(4))

lemma tree_sends_remove: "tree_sends (T(n := None)) P = {x \<in> tree_sends T P. fst x \<noteq> n}"
  by (auto simp: tree_sends_def split: if_splits)

lemma set_slot_nth: "set_slot r i t ! j = (t ! j)\<lparr>ie_index := slot (set_slot r i t) j\<rparr>"
  by (cases "r < length t") (auto simp: set_slot_def entry_upd_def nth_list_update list_update_beyond)

lemma move_to_table_spec:
  assumes rev: "rev_ok (is_addr s) (is_table s) T (is_tree_hash s) g P"
    and e: "T n = Some e" "n \<notin> P" "right_bits (ie_bits e)"
    and i: "idx n = i" "0 < i" "i < is_table_size s" "is_table_size s < 2 ^ 24"
      "i \<notin> send_ix (is_table s) P"
  obtains t' c' g' where
    "move_to_table n e i (s, g) = Some (s\<lparr>is_table := t', is_tree_hash := c'\<rparr>, g')"
    and "moved (is_table s) t' i n e" and "rev_ok (is_addr s) t' (T(n := None)) c' g' P"
proof -
  let ?t = "is_table s" and ?a = "is_addr s"
  let ?f = "\<lambda>x. x\<lparr>ie_bits := ie_bits e OR MACH_PORT_GEN n, ie_object := ie_object e, ie_request := ie_request e\<rparr>"
  let ?t1 = "entry_upd i ?f ?t"
  have R: "hash_inv ?t (send_ix ?t P)" "gh_inv g" "gh_of ?a g = tree_sends T P" "finite (tree_sends T P)"
    "is_tree_hash s = card (tree_sends T P)"
    using rev by (auto simp: rev_ok_def)
  have nth: "?t1 ! j = (if j = i then ?f (?t ! i) else ?t ! j)" for j using i(3) by simp
  have h1: "hash_inv ?t1 (send_ix ?t P)"
    by (rule hash_inv_cong [OF _ _ _ R(1)]) (use i(5) nth in auto)
  have ty: "IE_BITS_TYPE (ie_bits e OR MACH_PORT_GEN n) = ie_type e" using e(3) by simp
  have en: "ename t i = n" if "ie_bits (t ! i) = ie_bits e OR MACH_PORT_GEN n" for t
    using ename_iff [of i t n] i e(3) that by simp
  show thesis
  proof (cases "ie_type e = MACH_PORT_TYPE_SEND")
    case True
    let ?e = "\<lparr>ite_space = ?a, ite_name = n, ite_object = ie_object e\<rparr>"
    have in_sends: "(n, ie_object e) \<in> tree_sends T P" using True e by (auto simp: tree_sends_def)
    with R(3) have ge: "?e \<in> gh_entries g" by (auto simp: gh_of_def)
    obtain g' where g': "ipc_hash_global_delete (ie_object e) n (s\<lparr>is_table := ?t1\<rparr>) g =
        (s\<lparr>is_table := ?t1, is_tree_hash := is_tree_hash s - 1\<rparr>, g')"
      "gh_inv g'" "gh_entries g' = gh_entries g - {?e}"
      using ipc_hash_global_delete_spec [OF R(2) ge, of "s\<lparr>is_table := ?t1\<rparr>" "ie_object e"] by auto
    have "ie_object (?t1 ! i) = ie_object e" using nth by simp
    with h1 i obtain r where r: "ipc_hash_local_insert (ie_object e) i ?t1 = Some (set_slot r i ?t1)"
      "hash_inv (set_slot r i ?t1) (insert i (send_ix ?t P))"
      by (auto intro: ipc_hash_local_insert_spec)
    let ?t2 = "set_slot r i ?t1"
    have sel: "ie_bits (?t2 ! j) = ie_bits (?t1 ! j)" for j by simp
    have sends: "send_ix ?t2 P = insert i (send_ix ?t P)"
    proof -
      have "j \<in> send_ix ?t2 P \<longleftrightarrow> j \<in> insert i (send_ix ?t P)" for j
        using i(3) e(2) True ty en [of ?t2] nth by (cases "j = i") (auto simp: send_ix_def)
      then show ?thesis by blast
    qed
    have only: "fst x = n \<longleftrightarrow> x = (n, ie_object e)" if "x \<in> tree_sends T P" for x
      using that e(1) by (auto simp: tree_sends_def)
    then have trees: "tree_sends (T(n := None)) P = tree_sends T P - {(n, ie_object e)}"
      unfolding tree_sends_remove by auto
    have gh: "gh_of ?a g' = tree_sends (T(n := None)) P"
      using R(3) unfolding trees by (auto simp: gh_of_def g'(3))
    have card: "is_tree_hash s - 1 = card (tree_sends (T(n := None)) P)"
      unfolding trees R(5) using in_sends R(4) by (simp add: card_Diff_singleton)
    have "rev_ok ?a ?t2 (T(n := None)) (is_tree_hash s - 1) g' P"
      unfolding rev_ok_def sends using r(2) g'(2) gh R(4) card trees by simp
    moreover have "moved ?t ?t2 i n e"
    proof -
      have "?t2 ! j = (?t ! j)\<lparr>ie_index := slot ?t2 j\<rparr>" if "j \<noteq> i" for j
        using set_slot_nth [of r i ?t1 j] nth [of j] that by simp
      then show ?thesis unfolding moved_def using nth [of i] by simp
    qed
    moreover have "move_to_table n e i (s, g) = Some (s\<lparr>is_table := ?t2, is_tree_hash := is_tree_hash s - 1\<rparr>, g')"
      using True g'(1) r(1) by (simp add: move_to_table_def Let_def)
    ultimately show thesis by (intro that)
  next
    case False
    have sends: "send_ix ?t1 P = send_ix ?t P"
    proof -
      have "j \<in> send_ix ?t1 P \<longleftrightarrow> j \<in> send_ix ?t P" for j
        using i(5) False ty nth by (cases "j = i") (auto simp: send_ix_def)
      then show ?thesis by blast
    qed
    have trees: "tree_sends (T(n := None)) P = tree_sends T P"
      unfolding tree_sends_remove using False e(1) by (auto simp: tree_sends_def)
    have "rev_ok ?a ?t1 (T(n := None)) (is_tree_hash s) g P"
      by (rule rev_ok_cong [OF rev _ _ sends _ trees]) (use i(5) nth in auto)
    moreover have "moved ?t ?t1 i n e"
      unfolding moved_def using nth by auto
    moreover have "move_to_table n e i (s, g) = Some (s\<lparr>is_table := ?t1, is_tree_hash := is_tree_hash s\<rparr>, g)"
      using False by (simp add: move_to_table_def Let_def)
    ultimately show thesis by (intro that)
  qed
qed

subsection \<open>Sorted lists of items\<close>

lemma strict_keys_unique:
  "strict_keys xs \<Longrightarrow> strict_keys ys \<Longrightarrow> set xs = set ys \<Longrightarrow> xs = ys"
proof (induction xs arbitrary: ys)
  case (Cons x xs)
  then obtain y ys' where ys: "ys = y # ys'" by (cases ys) auto
  have "x = y"
  proof (rule ccontr)
    assume "x \<noteq> y"
    with Cons.prems(3) ys have "y \<in> set xs" "x \<in> set ys'" by auto
    with Cons.prems(1,2) ys have "fst x < fst y" "fst y < fst x" by auto
    then show False by simp
  qed
  moreover have "x \<notin> set xs" "y \<notin> set ys'" using Cons.prems(1,2) ys by auto
  ultimately have "set xs = set ys'" using Cons.prems(3) ys by auto
  with Cons.IH [of ys'] Cons.prems(1,2) ys \<open>x = y\<close> show ?case by auto
qed simp

lemma map_of_filter_neq: "map_of (filter (\<lambda>x. fst x \<noteq> n) xs) = (map_of xs)(n := None)"
proof
  fix m
  show "map_of (filter (\<lambda>x. fst x \<noteq> n) xs) m = ((map_of xs)(n := None)) m"
    by (induction xs) auto
qed

lemma length_filter_neq:
  "distinct (map fst xs) \<Longrightarrow> n \<in> fst ` set xs \<Longrightarrow> Suc (length (filter (\<lambda>x. fst x \<noteq> n) xs)) = length xs"
proof (induction xs)
  case (Cons x xs)
  show ?case
  proof (cases "fst x = n")
    case True
    with Cons.prems have "filter (\<lambda>x. fst x \<noteq> n) xs = xs"
      by (intro filter_True) (auto simp: image_iff)
    with True show ?thesis by simp
  qed (use Cons in auto)
qed simp

lemma unique_sends_remove: "unique_sends M P \<Longrightarrow> unique_sends (M(n := None)) (P - {n})"
  unfolding unique_sends_def by (simp split: if_splits)

subsection \<open>Deallocation of a tree entry\<close>

lemma dealloc_tree_spec:
  assumes inv: "space_inv s g P" and P: "n \<in> P" and T: "splay_map (is_tree s) n = Some e"
  obtains s' where "ipc_entry_dealloc n (TreeEntry n) (s, g) = Some (s', g)"
    and "space_inv s' g (P - {n})" and "space_map s' (P - {n}) = (space_map s P)(n := None)"
    and "is_active s' = is_active s"
proof -
  let ?t = "is_table s" and ?T = "splay_map (is_tree s)" and ?i = "idx n"
  note I = space_invD [OF inv]
  note sz = size_ok_bounds [OF I(1)] and sp = tree_okD(1) [OF I(5)]
  have nin: "n \<in> fst ` set (splay_list (is_tree s))" using T unfolding dom_splay_map [symmetric] by auto
  let ?d = "ipc_splay_tree_delete n (is_tree s)"
  from splay.del_law [OF sp nin] have d: "splay_inv ?d"
    "splay_list ?d = filter (\<lambda>x. fst x \<noteq> n) (splay_list (is_tree s))" by auto
  have Td: "splay_map ?d = ?T(n := None)" by (simp add: splay_map_def d(2) map_of_filter_neq)
  have len_d: "is_tree_total s - 1 = length (splay_list ?d)"
    using I(6) splay.del_length [OF sp nin] by simp
  let ?hit = "\<exists>m\<in>dom (?T(n := None)). idx m = ?i"
  have okd: "tree_ok ?d (P - {n})" using I(5) d by (auto simp: tree_ok_def)
  let ?s1 = "s\<lparr>is_tree := ?d, is_tree_total := is_tree_total s - 1\<rparr>"
  obtain tree where c: "ipc_entry_tree_collision n ?s1 = (?hit, ?s1\<lparr>is_tree := tree\<rparr>)"
    "splay_list tree = splay_list ?d" "splay_inv tree"
    using collision_spec [of ?s1 "P - {n}" n] okd Td by auto
  have Tt: "splay_map tree = ?T(n := None)" using Td c(2) by (simp add: splay_map_def)
  define t' where "t' = (if ?i < length ?t \<and> \<not> ?hit
    then entry_upd ?i (\<lambda>e. e\<lparr>ie_bits := ie_bits e AND NOT IE_BITS_COLLISION\<rparr>) ?t else ?t)"
  let ?small = "if length ?t \<le> ?i \<and> ?i < its_size (is_table_next s) \<and> \<not> ?hit
    then is_tree_small s - 1 else is_tree_small s"
  obtain tr where tr: "splay_list tr = splay_list ?d" "splay_inv tr"
    and r: "ipc_entry_dealloc n (TreeEntry n) (s, g) =
      Some (s\<lparr>is_table := t', is_tree_small := ?small, is_tree := tr, is_tree_total := is_tree_total s - 1\<rparr>, g)"
  proof (cases "?i < its_size (is_table_next s) \<or> ?i < length ?t")
    case True
    with c show thesis
      by (intro that [of tree]) (auto simp: ipc_entry_dealloc_def t'_def Let_def)
  next
    case False
    with d show thesis
      by (intro that [of ?d]) (auto simp: ipc_entry_dealloc_def t'_def Let_def)
  qed
  let ?s' = "s\<lparr>is_table := t', is_tree_small := ?small, is_tree := tr, is_tree_total := is_tree_total s - 1\<rparr>"
  have T': "splay_map tr = ?T(n := None)" using Td tr(1) by (simp add: splay_map_def)
  have len: "length t' = length ?t" by (simp add: t'_def)
  have same: "agree ?t t' i \<and> ie_request (t' ! i) = ie_request (?t ! i) \<and> slot t' i = slot ?t i" for i
    by (auto simp: agree_def t'_def)
  have bF: "ie_bits (t' ! i) = ie_bits (?t ! i)" if "i \<noteq> ?i \<or> \<not> i < length ?t" for i
    using that by (auto simp: t'_def)
  have gen: "ie_gen (?t ! ?i) \<noteq> MACH_PORT_GEN n" if "?i < length ?t"
    using coll_ok_gen [OF I(4) _ that] T by auto
  have en: "ename ?t i \<noteq> n" if "i < length ?t" for i
    using gen that sz(2) by (intro not_ename) auto
  have Pn: "ename ?t i \<in> P - {n} \<longleftrightarrow> ename ?t i \<in> P" if "i < length ?t" for i
    using en [OF that] by auto
  have M: "space_map ?s' (P - {n}) = (space_map s P)(n := None)"
  proof
    fix m
    have "names_map t' (splay_map tr) (P - {n}) m = ((names_map ?t ?T P)(n := None)) m"
    proof (cases "m = n")
      case True
      have "ie_gen (t' ! ?i) = ie_gen (?t ! ?i)" using same agree_sel(2) by blast
      then have "\<not> (used t' (P - {n}) ?i \<and> ie_gen (t' ! ?i) = MACH_PORT_GEN n)"
        using gen used_bound [of t' "P - {n}" ?i] unfolding len by auto
      then have "names_map t' (splay_map tr) (P - {n}) n = map_option view (splay_map tr n)"
        unfolding names_map_def by (rule if_not_P)
      with True show ?thesis by (simp add: T')
    next
      case False
      have "names_map t' (splay_map tr) (P - {n}) m = names_map ?t ?T P m"
      proof (rule names_map_agree [OF len])
        show "agree ?t t' (idx m)" "ie_request (t' ! idx m) = ie_request (?t ! idx m)" using same by blast+
        show "idx m < length ?t \<Longrightarrow> ename ?t (idx m) \<in> P - {n} \<longleftrightarrow> ename ?t (idx m) \<in> P" by (rule Pn)
      qed (use False in \<open>simp add: T'\<close>)
      with False show ?thesis by simp
    qed
    then show "space_map ?s' (P - {n}) m = ((space_map s P)(n := None)) m"
      by (simp add: space_map_def)
  qed
  from I(3) obtain F where F: "free_ok ?t P F" ..
  have iF: "?i \<notin> set F" using unused_no_tree [OF F I(4), of ?i n] T by auto
  have "space_inv ?s' g (P - {n})"
  proof (rule space_invI [where F = F])
    show "size_ok ?s'" using I(1) by (simp add: size_ok_def len)
    show "head_ok (is_table ?s')" using I(2) sz(1) same [of 0] len by (auto simp: head_ok_def agree_def)
    have "free_ok t' (P - {n}) F"
    proof (rule agree_free_ok [OF F len])
      show "agree ?t t' i \<and> ie_request (t' ! i) = ie_request (?t ! i)" for i using same by blast
      show "ie_bits (t' ! i) = ie_bits (?t ! i)" if "i \<in> set F" for i using iF that by (intro bF) auto
      show "?t \<noteq> []" using sz(1) by auto
    qed (rule Pn)
    then show "free_ok (is_table ?s') (P - {n}) F" by simp
    have "coll_ok t' (?T(n := None))"
      unfolding coll_ok_def
    proof (intro conjI allI impI ballI)
      fix i assume i: "i < length t'"
      show "bit (ie_bits (t' ! i)) 23 \<longleftrightarrow> (\<exists>m\<in>dom (?T(n := None)). idx m = i)"
      proof (cases "i = ?i")
        case True
        then have "bit (ie_bits (?t ! i)) 23" using coll_ok_bit [OF I(4), of i] i len T by auto
        with True i len show ?thesis by (simp add: t'_def)
      next
        case False
        then have "(\<exists>m\<in>dom (?T(n := None)). idx m = i) \<longleftrightarrow> (\<exists>m\<in>dom ?T. idx m = i)" by auto
        with coll_ok_bit [OF I(4), of i] i len bF [of i] False show ?thesis by simp
      qed
    next
      fix m assume "m \<in> dom (?T(n := None))" "idx m < length t'"
      moreover have "ie_gen (t' ! idx m) = ie_gen (?t ! idx m)" using same agree_sel(2) by blast
      ultimately show "ie_gen (t' ! idx m) \<noteq> MACH_PORT_GEN m"
        using coll_ok_gen [OF I(4), of m] len by auto
    qed
    then show "coll_ok (is_table ?s') (splay_map (is_tree ?s'))" by (simp add: T')
    show "tree_ok (is_tree ?s') (P - {n})" using okd tr by (simp add: tree_ok_def)
    show "is_tree_total ?s' = length (splay_list (is_tree ?s'))" using len_d tr(1) by simp
    have hit: "?hit \<longleftrightarrow> (\<exists>m\<in>dom ?T. m \<noteq> n \<and> idx m = ?i)" by auto
    have inS: "?i \<in> small_set (length ?t) (its_size (is_table_next s)) ?T"
      if "length ?t \<le> ?i" "?i < its_size (is_table_next s)" using that T by (auto simp: small_set_def)
    have outS: "?i \<notin> small_set (length ?t) (its_size (is_table_next s)) ?T"
      if "\<not> (length ?t \<le> ?i \<and> ?i < its_size (is_table_next s))" using that by (auto simp: small_set_def)
    have "?small = card (small_set (length ?t) (its_size (is_table_next s)) (?T(n := None)))"
      unfolding small_set_delete hit I(7) using inS outS by (auto simp: card_Diff_singleton)
    then show "is_tree_small ?s' =
        card (small_set (is_table_size ?s') (its_size (is_table_next ?s')) (splay_map (is_tree ?s')))"
      by (simp add: T' len)
    have "rev_ok (is_addr s) t' (?T(n := None)) (is_tree_hash s) g (P - {n})"
    proof (rule rev_ok_cong [OF I(8) len])
      show "slot t' p = slot ?t p" for p using same by blast
      show "send_ix t' (P - {n}) = send_ix ?t P" using same Pn by (intro agree_send_ix len) blast+
      show "ie_object (t' ! i) = ie_object (?t ! i)" for i using same by (simp add: agree_def)
      show "tree_sends (?T(n := None)) (P - {n}) = tree_sends ?T P"
        using P by (auto simp: tree_sends_def split: if_splits)
    qed
    then show "rev_ok (is_addr ?s') (is_table ?s') (splay_map (is_tree ?s')) (is_tree_hash ?s') g (P - {n})"
      by (simp add: T')
    show "unique_sends (space_map ?s' (P - {n})) (P - {n})"
      unfolding M by (rule unique_sends_remove [OF I(9)])
    show "P - {n} \<subseteq> dom (space_map ?s' (P - {n}))" unfolding M using I(10) by auto
  qed
  moreover have "is_active ?s' = is_active s" by simp
  ultimately show thesis using that [OF r _ M] by blast
qed

subsection \<open>Deallocation of a table entry\<close>

lemma dealloc_free_spec:
  assumes inv: "space_inv s g P" and P: "n \<in> P" and T: "splay_map (is_tree s) n = None"
    and ncol: "\<not> bit (ie_bits (is_table s ! idx n)) 23"
    and obj: "ie_object (is_table s ! idx n) = IO_NULL"
  obtains s' where "ipc_entry_dealloc n (TableEntry (idx n)) (s, g) = Some (s', g)"
    and "space_inv s' g (P - {n})" and "space_map s' (P - {n}) = (space_map s P)(n := None)"
    and "is_active s' = is_active s"
proof -
  let ?t = "is_table s" and ?T = "splay_map (is_tree s)" and ?i = "idx n"
  note I = space_invD [OF inv]
  note sz = size_ok_bounds [OF I(1)]
  from I(10) P T have u: "used ?t P ?i" "ie_gen (?t ! ?i) = MACH_PORT_GEN n"
    by (auto simp: space_map_def names_map_def split: if_splits)
  then have i: "0 < ?i" "?i < length ?t" by (auto simp: used_def)
  let ?t1 = "entry_upd ?i (\<lambda>e. e\<lparr>ie_bits := ie_bits e AND IE_BITS_GEN_MASK, ie_request := ie_next (?t ! 0)\<rparr>) ?t"
  define t' where "t' = entry_upd 0 (\<lambda>e. e\<lparr>ie_request := ?i\<rparr>) ?t1"
  let ?s' = "s\<lparr>is_table := t'\<rparr>"
  have nth: "t' ! j = (if j = 0 then (?t ! 0)\<lparr>ie_request := ?i\<rparr>
      else if j = ?i then (?t ! ?i)\<lparr>ie_bits := ie_bits (?t ! ?i) AND IE_BITS_GEN_MASK, ie_request := ie_next (?t ! 0)\<rparr>
      else ?t ! j)" for j
  proof -
    have "?t \<noteq> []" using sz(1) by auto
    with i show ?thesis by (simp add: t'_def)
  qed
  have len: "length t' = length ?t" by (simp add: t'_def)
  have r: "ipc_entry_dealloc n (TableEntry ?i) (s, g) = Some (?s', g)"
    using i ncol by (simp add: ipc_entry_dealloc_def bits_COLLISION_iff Let_def t'_def)
  have agr: "agree ?t t' j" if "j \<noteq> ?i" for j using that by (auto simp: agree_def nth)
  have en: "ename t' j = ename ?t j" for j by (auto simp: nth MACH_PORT_MAKEB_def)
  have enj: "ename ?t j = n \<longleftrightarrow> j = ?i" if "j < length ?t" for j
    using ename_iff [of j ?t n] that sz(2) u(2) by auto
  have used': "used t' (P - {n}) j \<longleftrightarrow> used ?t P j \<and> j \<noteq> ?i" for j
  proof (cases "j = ?i")
    case True
    then show ?thesis
      using en [of ?i] enj [OF i(2)] gen_bits_sel(1) [OF gen_bits_and] by (simp add: used_def nth)
  next
    case False
    have "ename ?t j \<in> P - {n} \<longleftrightarrow> ename ?t j \<in> P" if "j < length ?t" using enj [OF that] False by auto
    with used_agree [OF len agr [OF False], of "P - {n}" P] False show ?thesis
      by (cases "j < length ?t") (auto simp: used_def len)
  qed
  have coll: "?T m = None" if "idx m = ?i" for m
    using coll_ok_bit [OF I(4) i(2)] ncol that by auto
  have M: "space_map ?s' (P - {n}) = (space_map s P)(n := None)"
  proof
    fix m
    have "names_map t' ?T (P - {n}) m = ((names_map ?t ?T P)(n := None)) m"
    proof (cases "idx m = ?i")
      case True
      then have "names_map t' ?T (P - {n}) m = None" using used' [of ?i] coll [OF True] by (simp add: names_map_def)
      moreover have "names_map ?t ?T P m = None" if "m \<noteq> n"
        using that True u(2) coll [OF True] by (auto simp: names_map_def name_eq_iff [of m n] idx_eq_iff [symmetric])
      ultimately show ?thesis by simp
    next
      case False
      have "names_map t' ?T (P - {n}) m = names_map ?t ?T P m"
      proof (rule names_map_agree [OF len agr [OF False]])
        show "idx m < length ?t \<Longrightarrow> ename ?t (idx m) \<in> P - {n} \<longleftrightarrow> ename ?t (idx m) \<in> P"
          using enj [of "idx m"] False by auto
        show "ie_request (t' ! idx m) = ie_request (?t ! idx m)" if "used ?t P (idx m)"
          using that False by (simp add: nth used_def)
      qed simp
      with False show ?thesis by auto
    qed
    then show "space_map ?s' (P - {n}) m = ((space_map s P)(n := None)) m" by (simp add: space_map_def)
  qed
  from I(3) obtain F where F: "free_ok ?t P F" ..
  then have Fs: "free_chain ?t 0 F" "distinct F" "set F = {j. 0 < j \<and> j < length ?t \<and> \<not> used ?t P j}"
    by (auto simp: free_ok_def)
  have iF: "?i \<notin> set F" using Fs(3) u(1) by simp
  have nF: "k \<noteq> 0 \<and> k \<noteq> ?i" if "k \<in> set F" for k
    using that iF unfolding Fs(3) by blast
  have "space_inv ?s' g (P - {n})"
  proof (rule space_invI [where F = "?i # F"])
    show "size_ok ?s'" using I(1) by (simp add: size_ok_def len)
    show "head_ok (is_table ?s')" using I(2) sz(1) len by (auto simp: head_ok_def nth)
    have "free_chain t' ?i F"
    proof (cases F)
      case Nil
      with Fs(1) i show ?thesis by (simp add: nth)
    next
      case (Cons j G)
      have "free_chain t' j G = free_chain ?t j G"
      proof (rule free_chain_cong)
        fix k assume "k \<in> insert j (set G)"
        with Cons have "k \<in> set F" by simp
        from nF [OF this] show "ie_next (t' ! k) = ie_next (?t ! k)" by (simp add: nth)
      qed
      with Cons Fs(1) i show ?thesis by (simp add: nth)
    qed
    then have "free_chain t' 0 (?i # F)" using i by (simp add: nth)
    moreover have "set (?i # F) = {j. 0 < j \<and> j < length t' \<and> \<not> used t' (P - {n}) j}"
      unfolding list.set Fs(3) len used' using i by auto
    moreover have "gen_bits (ie_bits (t' ! j)) \<and> ie_object (t' ! j) = IO_NULL" if "j \<in> set (?i # F)" for j
    proof (cases "j = ?i")
      case True
      with i obj show ?thesis by (simp add: nth)
    next
      case False
      with that have "j \<in> set F" by simp
      with F nF [OF this] show ?thesis by (simp add: free_ok_def nth)
    qed
    ultimately have "free_ok t' (P - {n}) (?i # F)"
      using Fs(2) iF unfolding free_ok_def by auto
    then show "free_ok (is_table ?s') (P - {n}) (?i # F)" by simp
    have "bit (ie_bits (t' ! j)) 23 \<longleftrightarrow> bit (ie_bits (?t ! j)) 23" for j
      using gen_bits_sel(3) [OF gen_bits_and] ncol by (simp add: nth)
    moreover have "ie_gen (t' ! j) = ie_gen (?t ! j)" for j by (simp add: nth)
    ultimately show "coll_ok (is_table ?s') (splay_map (is_tree ?s'))"
      using I(4) by (simp add: coll_ok_def len)
    show "tree_ok (is_tree ?s') (P - {n})"
      using I(5) T by (auto simp: tree_ok_def splay_map_def map_of_eq_None_iff image_iff)
    show "is_tree_total ?s' = length (splay_list (is_tree ?s'))" using I(6) by simp
    show "is_tree_small ?s' =
        card (small_set (is_table_size ?s') (its_size (is_table_next ?s')) (splay_map (is_tree ?s')))"
      using I(7) by (simp add: len)
    have "rev_ok (is_addr s) t' ?T (is_tree_hash s) g (P - {n})"
    proof (rule rev_ok_cong [OF I(8) len])
      show "slot t' p = slot ?t p" for p by (simp add: nth)
      show "send_ix t' (P - {n}) = send_ix ?t P"
      proof -
        have "j \<in> send_ix t' (P - {n}) \<longleftrightarrow> j \<in> send_ix ?t P" for j
        proof (cases "j = ?i")
          case True
          then show ?thesis using gen_bits_sel(1) [OF gen_bits_and] enj [OF i(2)] P i by (auto simp: send_ix_def nth)
        next
          case False
          with agree_sel(1) [OF agr [OF False]] en [of j] enj [of j] show ?thesis by (auto simp: send_ix_def len)
        qed
        then show ?thesis by blast
      qed
      show "ie_object (t' ! j) = ie_object (?t ! j)" for j by (simp add: nth)
      show "tree_sends ?T (P - {n}) = tree_sends ?T P" using T by (auto simp: tree_sends_def)
    qed
    then show "rev_ok (is_addr ?s') (is_table ?s') (splay_map (is_tree ?s')) (is_tree_hash ?s') g (P - {n})" by simp
    show "unique_sends (space_map ?s' (P - {n})) (P - {n})"
      unfolding M by (rule unique_sends_remove [OF I(9)])
    show "P - {n} \<subseteq> dom (space_map ?s' (P - {n}))" unfolding M using I(10) by auto
  qed
  moreover have "is_active ?s' = is_active s" by simp
  ultimately show thesis using that [OF r _ M] by blast
qed

end
