(* ===== verification/Ipc_Entry_Refill.thy ===== *)
theory Ipc_Entry_Refill
  imports Ipc_Entry_Dealloc
begin

section \<open>Deallocation that refills the slot from the tree\<close>

text \<open>
  When the tree has names of the index of the deallocated entry, one of them moves into the
  slot: the tree is cut in three, the piece of the index loses a node, and the pieces are
  joined again.
\<close>

lemma refill_pieces:
  assumes sp: "splay_inv tree" and i: "Suc i < 2 ^ 24" and hit: "\<exists>m\<in>dom (splay_map tree). idx m = i"
  obtains upper coll0 coll small tn te where
    "ipc_splay_tree_split (MACH_PORT_MAKE (of_nat (i + 1)) 0) tree = (upper, coll0)"
    "ipc_splay_tree_split (MACH_PORT_MAKE (of_nat i) 0) coll0 = (coll, small)"
    "ipc_splay_tree_pick coll = Some (tn, te)" "idx tn = i" "splay_map tree tn = Some te"
    "splay_list (case ipc_splay_tree_pick (ipc_splay_tree_delete tn coll) of
        Some _ \<Rightarrow> fst (ipc_splay_tree_join (fst (ipc_splay_tree_join upper (ipc_splay_tree_delete tn coll))) small)
      | None \<Rightarrow> fst (ipc_splay_tree_join upper small)) = filter (\<lambda>x. fst x \<noteq> tn) (splay_list tree)"
    "splay_inv (case ipc_splay_tree_pick (ipc_splay_tree_delete tn coll) of
        Some _ \<Rightarrow> fst (ipc_splay_tree_join (fst (ipc_splay_tree_join upper (ipc_splay_tree_delete tn coll))) small)
      | None \<Rightarrow> fst (ipc_splay_tree_join upper small))"
    "ipc_splay_tree_pick (ipc_splay_tree_delete tn coll) = None \<longleftrightarrow>
      \<not> (\<exists>m\<in>dom (splay_map tree). m \<noteq> tn \<and> idx m = i)"
proof -
  let ?xs = "splay_list tree"
  obtain upper coll0 where c1: "ipc_splay_tree_split (MACH_PORT_MAKE (of_nat (i + 1)) 0) tree = (upper, coll0)"
    by fastforce
  obtain coll small where c2: "ipc_splay_tree_split (MACH_PORT_MAKE (of_nat i) 0) coll0 = (coll, small)"
    by fastforce
  from i have i': "i + 1 < 2 ^ 24" "i < 2 ^ 24" by auto
  note k1 = splay.cut_index [OF sp i'(1) c1]
  note k2 = splay.cut_index [OF k1(2) i'(2) c2]
  have coll: "splay_list coll = filter (\<lambda>x. idx (fst x) = i) ?xs"
    unfolding k2(3) k1(4) by (simp add: filter_filter) (metis (lifting) less_Suc_eq_le order_antisym_conv order_refl)
  have small: "splay_list small = filter (\<lambda>x. idx (fst x) < i) ?xs"
    unfolding k2(4) k1(4) by (simp add: filter_filter) (metis (lifting) less_SucI)
  obtain m where m: "m \<in> fst ` set ?xs" "idx m = i" using hit unfolding dom_splay_map by blast
  then have "splay_list coll \<noteq> []" unfolding coll by (auto simp: filter_empty_conv)
  then obtain tn te where pk: "ipc_splay_tree_pick coll = Some (tn, te)"
    using splay.pick_None [OF k2(1)] by (metis option.exhaust prod.collapse)
  from splay.pick_Some [OF k2(1) this] have tin: "(tn, te) \<in> set ?xs" "idx tn = i" unfolding coll by auto
  have sk: "strict_keys ?xs" using sp by (simp add: splay_inv_def)
  have tm: "splay_map tree tn = Some te"
    using tin(1) strict_keys_distinct [OF sk] by (simp add: splay_map_def)
  let ?c = "ipc_splay_tree_delete tn coll"
  have "tn \<in> fst ` set (splay_list coll)" using tin unfolding coll by force
  from splay.del_law [OF k2(1) this] have c: "splay_inv ?c"
    "splay_list ?c = filter (\<lambda>x. idx (fst x) = i \<and> fst x \<noteq> tn) ?xs" by (auto simp: coll filter_filter)
  let ?res = "case ipc_splay_tree_pick ?c of
        Some _ \<Rightarrow> fst (ipc_splay_tree_join (fst (ipc_splay_tree_join upper ?c)) small)
      | None \<Rightarrow> fst (ipc_splay_tree_join upper small)"
  have j1: "splay_inv (fst (ipc_splay_tree_join upper ?c))"
    "splay_list (fst (ipc_splay_tree_join upper ?c)) = splay_list ?c @ splay_list upper"
    by (rule splay.join_index [OF k1(1) c(1), of "i + 1"]; auto simp: c(2) k1(3))+
  have j2: "splay_inv (fst (ipc_splay_tree_join (fst (ipc_splay_tree_join upper ?c)) small))"
    "splay_list (fst (ipc_splay_tree_join (fst (ipc_splay_tree_join upper ?c)) small)) =
       splay_list small @ splay_list ?c @ splay_list upper"
  proof -
    have "\<forall>x\<in>set (splay_list small). idx (fst x) < i" by (simp add: small)
    moreover have "\<forall>x\<in>set (splay_list (fst (ipc_splay_tree_join upper ?c))). i \<le> idx (fst x)"
      unfolding j1(2) c(2) k1(3) by auto
    ultimately show "splay_inv (fst (ipc_splay_tree_join (fst (ipc_splay_tree_join upper ?c)) small))"
      "splay_list (fst (ipc_splay_tree_join (fst (ipc_splay_tree_join upper ?c)) small)) =
       splay_list small @ splay_list ?c @ splay_list upper"
      using splay.join_index [OF j1(1) k2(2)] unfolding j1(2) by blast+
  qed
  have j3: "splay_inv (fst (ipc_splay_tree_join upper small))"
    "splay_list (fst (ipc_splay_tree_join upper small)) = splay_list small @ splay_list upper"
    using splay.join_index [OF k1(1) k2(2), of i] by (auto simp: k1(3) small)
  have res: "splay_inv ?res" "splay_list ?res = splay_list small @ splay_list ?c @ splay_list upper"
    using j2 j3 splay.pick_None [OF c(1)] by (auto split: option.splits)
  have eq: "splay_list ?res = filter (\<lambda>x. fst x \<noteq> tn) ?xs"
  proof (rule strict_keys_unique)
    show "strict_keys (splay_list ?res)" using res(1) by (simp add: splay_inv_def)
    show "strict_keys (filter (\<lambda>x. fst x \<noteq> tn) ?xs)" by (rule strict_keys_filter [OF sk])
    have "x \<in> set (splay_list ?res) \<longleftrightarrow> x \<in> set (filter (\<lambda>x. fst x \<noteq> tn) ?xs)" for x
      using tin(2) unfolding res(2) c(2) k1(3) small by (cases "idx (fst x)" i rule: linorder_cases) auto
    then show "set (splay_list ?res) = set (filter (\<lambda>x. fst x \<noteq> tn) ?xs)" by blast
  qed
  have "ipc_splay_tree_pick ?c = None \<longleftrightarrow> \<not> (\<exists>m\<in>dom (splay_map tree). m \<noteq> tn \<and> idx m = i)"
    unfolding splay.pick_None [OF c(1)] c(2) dom_splay_map by (auto simp: filter_empty_conv)
  from that [OF c1 c2 pk tin(2) tm eq res(1) this] show thesis .
qed

lemma dealloc_refill_spec:
  assumes inv: "space_inv s g P" and P: "n \<in> P" "\<forall>m\<in>P. idx m = idx n \<longrightarrow> m = n"
    and T: "splay_map (is_tree s) n = None" and col: "bit (ie_bits (is_table s ! idx n)) 23"
  obtains s' g' where "ipc_entry_dealloc n (TableEntry (idx n)) (s, g) = Some (s', g')"
    and "space_inv s' g' (P - {n})" and "space_map s' (P - {n}) = (space_map s P)(n := None)"
    and "is_active s' = is_active s"
proof -
  let ?t = "is_table s" and ?T = "splay_map (is_tree s)" and ?i = "idx n"
  note I = space_invD [OF inv]
  note sz = size_ok_bounds [OF I(1)] and sp = tree_okD(1) [OF I(5)]
  from I(10) P(1) T have u: "used ?t P ?i" "ie_gen (?t ! ?i) = MACH_PORT_GEN n"
    by (auto simp: space_map_def names_map_def split: if_splits)
  then have i: "0 < ?i" "?i < length ?t" by (auto simp: used_def)
  have hit: "\<exists>m\<in>dom ?T. idx m = ?i" using coll_ok_bit [OF I(4) i(2)] col by simp
  have i24: "Suc ?i < 2 ^ 24" using i(2) sz(2) by simp
  obtain upper coll0 coll small tn te where
    c1: "ipc_splay_tree_split (MACH_PORT_MAKE (of_nat (?i + 1)) 0) (is_tree s) = (upper, coll0)" and
    c2: "ipc_splay_tree_split (MACH_PORT_MAKE (of_nat ?i) 0) coll0 = (coll, small)" and
    pk: "ipc_splay_tree_pick coll = Some (tn, te)" and tn: "idx tn = ?i" "?T tn = Some te" and
    res: "splay_list (case ipc_splay_tree_pick (ipc_splay_tree_delete tn coll) of
        Some _ \<Rightarrow> fst (ipc_splay_tree_join (fst (ipc_splay_tree_join upper (ipc_splay_tree_delete tn coll))) small)
      | None \<Rightarrow> fst (ipc_splay_tree_join upper small)) = filter (\<lambda>x. fst x \<noteq> tn) (splay_list (is_tree s))"
    "splay_inv (case ipc_splay_tree_pick (ipc_splay_tree_delete tn coll) of
        Some _ \<Rightarrow> fst (ipc_splay_tree_join (fst (ipc_splay_tree_join upper (ipc_splay_tree_delete tn coll))) small)
      | None \<Rightarrow> fst (ipc_splay_tree_join upper small))" and
    more: "ipc_splay_tree_pick (ipc_splay_tree_delete tn coll) = None \<longleftrightarrow>
      \<not> (\<exists>m\<in>dom ?T. m \<noteq> tn \<and> idx m = ?i)"
    by (rule refill_pieces [OF sp i24 hit])
  let ?more = "\<exists>m\<in>dom ?T. m \<noteq> tn \<and> idx m = ?i"
  have tnn: "tn \<noteq> n" using tn(2) T by auto
  have tnP: "tn \<notin> P" using P(2) tn(1) tnn by auto
  have teb: "right_bits (ie_bits te)" "ie_type te \<noteq> 0"
    using tree_okD(3,4) [OF I(5) tn(2)] tnP by auto
  have enj: "ename ?t j = n \<longleftrightarrow> j = ?i" if "j < length ?t" for j
    using ename_iff [of j ?t n] that sz(2) u(2) by auto
  have "?i \<notin> send_ix ?t P" using enj [OF i(2)] P(1) by (auto simp: send_ix_def)
  with move_to_table_spec [OF I(8) tn(2) tnP teb(1) tn(1) i sz(2)]
  obtain t1 c' g' where mv: "move_to_table tn te ?i (s, g) = Some (s\<lparr>is_table := t1, is_tree_hash := c'\<rparr>, g')"
    and mo: "moved ?t t1 ?i tn te" and rev1: "rev_ok (is_addr s) t1 (?T(tn := None)) c' g' P" by metis
  define tr where "tr = (case ipc_splay_tree_pick (ipc_splay_tree_delete tn coll) of
        Some _ \<Rightarrow> fst (ipc_splay_tree_join (fst (ipc_splay_tree_join upper (ipc_splay_tree_delete tn coll))) small)
      | None \<Rightarrow> fst (ipc_splay_tree_join upper small))"
  define t' where "t' = (if ?more then entry_upd ?i (\<lambda>e. e\<lparr>ie_bits := ie_bits e OR IE_BITS_COLLISION\<rparr>) t1 else t1)"
  let ?s' = "s\<lparr>is_table := t', is_tree_hash := c', is_tree_total := is_tree_total s - 1, is_tree := tr\<rparr>"
  have r: "ipc_entry_dealloc n (TableEntry ?i) (s, g) = Some (?s', g')"
  proof -
    have "dealloc_collision ?i (s, g) = Some (?s', g')"
    proof (cases "ipc_splay_tree_pick (ipc_splay_tree_delete tn coll)")
      case None
      then have "\<not> ?more" using more by blast
      then have "t' = t1" unfolding t'_def by (rule if_not_P)
      with None c1 c2 pk mv show ?thesis
        by (simp add: dealloc_collision_def tr_def del: ipc_splay_tree_pick.simps)
    next
      case (Some x)
      then have "?more" using more by (metis option.distinct(1))
      then have "t' = entry_upd ?i (\<lambda>e. e\<lparr>ie_bits := ie_bits e OR IE_BITS_COLLISION\<rparr>) t1"
        unfolding t'_def by (rule if_P)
      with Some c1 c2 pk mv show ?thesis
        by (simp add: dealloc_collision_def tr_def del: ipc_splay_tree_pick.simps)
    qed
    with i col show ?thesis by (simp add: ipc_entry_dealloc_def bits_COLLISION_iff Let_def)
  qed
  have trl: "splay_list tr = filter (\<lambda>x. fst x \<noteq> tn) (splay_list (is_tree s))" "splay_inv tr"
    using res by (simp_all add: tr_def)
  have T': "splay_map tr = ?T(tn := None)" by (simp add: splay_map_def trl(1) map_of_filter_neq)
  have len: "length t' = length ?t" using mo by (simp add: t'_def moved_def)
  have t'j: "agree ?t t' j" "ie_request (t' ! j) = ie_request (?t ! j)" "ie_bits (t' ! j) = ie_bits (?t ! j)"
    if "j \<noteq> ?i" for j
    using moved_agree [OF mo that] moved_bits [OF mo that] that i(2) mo
    by (auto simp: t'_def agree_def moved_def)
  have t1': "agree t1 t' j \<and> ie_request (t' ! j) = ie_request (t1 ! j) \<and> slot t' j = slot t1 j" for j
  proof -
    have "?i < length t1" using mo i(2) by (simp add: moved_def)
    then show ?thesis by (auto simp: agree_def t'_def)
  qed
  have t'i: "ie_gen (t' ! ?i) = MACH_PORT_GEN tn" "ie_type (t' ! ?i) = ie_type te" "view (t' ! ?i) = view te"
    "bit (ie_bits (t' ! ?i)) 23 \<longleftrightarrow> ?more" "ie_object (t' ! ?i) = ie_object te"
  proof -
    have b: "ie_bits (t1 ! ?i) = ie_bits te OR MACH_PORT_GEN tn" "ie_object (t1 ! ?i) = ie_object te"
      "ie_request (t1 ! ?i) = ie_request te" using mo by (auto simp: moved_def)
    have a: "agree t1 t' ?i" "ie_request (t' ! ?i) = ie_request (t1 ! ?i)" using t1' by auto
    show "ie_gen (t' ! ?i) = MACH_PORT_GEN tn" "ie_type (t' ! ?i) = ie_type te" "ie_object (t' ! ?i) = ie_object te"
      using agree_sel [OF a(1)] b teb(1) by auto
    show "view (t' ! ?i) = view te"
      using agree_sel(3) [OF a] b teb(1) by (simp add: view_def right_bits_def)
    show "bit (ie_bits (t' ! ?i)) 23 \<longleftrightarrow> ?more"
      using b(1) teb(1) i(2) mo by (auto simp: t'_def moved_def)
  qed
  have used'i: "used t' Q ?i" for Q using i t'i(2) teb(2) by (simp add: used_def len)
  have used'j: "used t' (P - {n}) j \<longleftrightarrow> used ?t P j" if "j \<noteq> ?i" for j
  proof (cases "j < length ?t")
    case True
    with enj [OF this] that show ?thesis by (intro used_agree len t'j(1)) auto
  qed (simp add: used_def len)
  have genm: "MACH_PORT_GEN m = MACH_PORT_GEN k \<longleftrightarrow> m = k" if "idx m = ?i" "idx k = ?i" for m k
    using that by (auto simp: name_eq_iff [of m k] idx_eq_iff [symmetric])
  have M: "space_map ?s' (P - {n}) = (space_map s P)(n := None)"
  proof
    fix m
    have "names_map t' (?T(tn := None)) (P - {n}) m = ((names_map ?t ?T P)(n := None)) m"
    proof (cases "idx m = ?i")
      case True
      consider "m = tn" | "m = n" | "m \<noteq> tn" "m \<noteq> n" by blast
      then show ?thesis
      proof cases
        case 1
        with tnn genm [OF tn(1) refl] tn used'i t'i(1,3) u(2) show ?thesis
          by (auto simp: names_map_def)
      next
        case 2
        with genm [OF refl tn(1)] tnn tn(1) t'i(1) T show ?thesis by (simp add: names_map_def)
      next
        case 3
        with True genm [OF True tn(1)] genm [OF True refl] u t'i(1) show ?thesis by (auto simp: names_map_def)
      qed
    next
      case False
      have "names_map t' (?T(tn := None)) (P - {n}) m = names_map ?t ?T P m"
      proof (rule names_map_agree [OF len t'j(1) [OF False]])
        show "idx m < length ?t \<Longrightarrow> ename ?t (idx m) \<in> P - {n} \<longleftrightarrow> ename ?t (idx m) \<in> P"
          using enj [of "idx m"] False by auto
        show "ie_request (t' ! idx m) = ie_request (?t ! idx m)" by (rule t'j(2) [OF False])
        show "(?T(tn := None)) m = ?T m" using False tn(1) by auto
      qed
      with False show ?thesis by auto
    qed
    then show "space_map ?s' (P - {n}) m = ((space_map s P)(n := None)) m" by (simp add: space_map_def T')
  qed
  from I(3) obtain F where F: "free_ok ?t P F" ..
  then have Fs: "free_chain ?t 0 F" "distinct F" "set F = {j. 0 < j \<and> j < length ?t \<and> \<not> used ?t P j}"
    by (auto simp: free_ok_def)
  have nF: "j \<noteq> ?i" if "j \<in> insert 0 (set F)" for j using that i(1) u(1) unfolding Fs(3) by auto
  have "space_inv ?s' g' (P - {n})"
  proof (rule space_invI [where F = F])
    show "size_ok ?s'" using I(1) by (simp add: size_ok_def len)
    have "0 \<noteq> ?i" using i(1) by simp
    from t'j(1) [OF this] I(2) len sz(1) show "head_ok (is_table ?s')" by (auto simp: head_ok_def agree_def)
    have "free_chain t' 0 F"
      using free_chain_cong [of 0 F t' ?t] t'j(2) nF Fs(1) by blast
    moreover have "set F = {j. 0 < j \<and> j < length t' \<and> \<not> used t' (P - {n}) j}"
    proof -
      have "used t' (P - {n}) j \<longleftrightarrow> used ?t P j" for j using used'i used'j u(1) by (cases "j = ?i") auto
      then show ?thesis unfolding Fs(3) len by auto
    qed
    moreover have "gen_bits (ie_bits (t' ! j)) \<and> ie_object (t' ! j) = IO_NULL" if "j \<in> set F" for j
    proof -
      have "j \<noteq> ?i" using nF that by blast
      with t'j [OF this] F that show ?thesis by (simp add: free_ok_def agree_def)
    qed
    ultimately show "free_ok (is_table ?s') (P - {n}) F" using Fs(2) by (simp add: free_ok_def)
    have "coll_ok t' (?T(tn := None))"
      unfolding coll_ok_def
    proof (intro conjI allI impI ballI)
      fix j assume j: "j < length t'"
      show "bit (ie_bits (t' ! j)) 23 \<longleftrightarrow> (\<exists>m\<in>dom (?T(tn := None)). idx m = j)"
      proof (cases "j = ?i")
        case True
        then show ?thesis using t'i(4) by auto
      next
        case False
        then have "(\<exists>m\<in>dom (?T(tn := None)). idx m = j) \<longleftrightarrow> (\<exists>m\<in>dom ?T. idx m = j)" using tn(1) by auto
        with coll_ok_bit [OF I(4), of j] j len t'j(3) [OF False] show ?thesis by simp
      qed
    next
      fix m assume m: "m \<in> dom (?T(tn := None))" "idx m < length t'"
      show "ie_gen (t' ! idx m) \<noteq> MACH_PORT_GEN m"
      proof (cases "idx m = ?i")
        case True
        with m genm [OF tn(1) True] t'i(1) show ?thesis by auto
      next
        case False
        with m coll_ok_gen [OF I(4), of m] len t'j(3) [OF False] show ?thesis by auto
      qed
    qed
    then show "coll_ok (is_table ?s') (splay_map (is_tree ?s'))" by (simp add: T')
    show "tree_ok (is_tree ?s') (P - {n})"
      using I(5) T trl by (auto simp: tree_ok_def splay_map_def map_of_eq_None_iff image_iff)
    have "tn \<in> fst ` set (splay_list (is_tree s))" using tn(2) unfolding dom_splay_map [symmetric] by auto
    from length_filter_neq [OF strict_keys_distinct [OF tree_okD(5) [OF I(5)]] this] I(6)
    have "is_tree_total s - 1 = length (splay_list tr)" unfolding trl(1) by linarith
    then show "is_tree_total ?s' = length (splay_list (is_tree ?s'))" by simp
    have "small_set (length ?t) h (?T(tn := None)) = small_set (length ?t) h ?T" for h
      using i(2) tn(1) by (auto simp: small_set_def)
    then show "is_tree_small ?s' =
        card (small_set (is_table_size ?s') (its_size (is_table_next ?s')) (splay_map (is_tree ?s')))"
      using I(7) by (simp add: len T')
    have "rev_ok (is_addr s) t' (?T(tn := None)) c' g' (P - {n})"
    proof (rule rev_ok_cong [OF rev1])
      show "length t' = length t1" using mo len by (simp add: moved_def)
      show "slot t' p = slot t1 p" for p using t1' by blast
      show "send_ix t' (P - {n}) = send_ix t1 P"
      proof (rule agree_send_ix)
        show "length t' = length t1" using mo len by (simp add: moved_def)
        show "agree t1 t' j" for j using t1' by blast
        fix j assume "j < length t1"
        then have j: "j < length ?t" using mo by (simp add: moved_def)
        have "ename t1 j \<noteq> n"
        proof (cases "j = ?i")
          case True
          have "ename t' ?i = tn" using ename_iff [of ?i t' tn] i(2) sz(2) t'i(1) tn(1) by auto
          moreover have "ename t' ?i = ename t1 ?i" using t1' agree_sel(4) by blast
          ultimately show ?thesis using True tnn by metis
        next
          case False
          then have "ename t1 j = ename ?t j" using moved_agree [OF mo] agree_sel(4) by blast
          with enj [OF j] False show ?thesis by metis
        qed
        then show "ename t1 j \<in> P - {n} \<longleftrightarrow> ename t1 j \<in> P" by blast
      qed
      show "ie_object (t' ! j) = ie_object (t1 ! j)" for j using t1' by (simp add: agree_def)
      show "tree_sends (?T(tn := None)) (P - {n}) = tree_sends (?T(tn := None)) P"
        using T by (auto simp: tree_sends_def split: if_splits)
    qed
    then show "rev_ok (is_addr ?s') (is_table ?s') (splay_map (is_tree ?s')) (is_tree_hash ?s') g' (P - {n})"
      by (simp add: T')
    show "unique_sends (space_map ?s' (P - {n})) (P - {n})"
      unfolding M by (rule unique_sends_remove [OF I(9)])
    show "P - {n} \<subseteq> dom (space_map ?s' (P - {n}))" unfolding M using I(10) by auto
  qed
  moreover have "is_active ?s' = is_active s" by simp
  ultimately show thesis using that [OF r _ M] by blast
qed

text \<open>All cases together.\<close>

lemma ipc_entry_dealloc_spec:
  assumes inv: "space_inv s g P" and P: "n \<in> P" "\<forall>m\<in>P. idx m = idx n \<longrightarrow> m = n"
    and entry: "entry = (if n \<in> dom (splay_map (is_tree s)) then TreeEntry n else TableEntry (idx n))"
    and obj: "\<forall>e. entry_at entry s = Some e \<longrightarrow> ie_object e = IO_NULL"
  obtains s' g' where "ipc_entry_dealloc n entry (s, g) = Some (s', g')"
    and "space_inv s' g' (P - {n})" and "space_map s' (P - {n}) = (space_map s P)(n := None)"
    and "is_active s' = is_active s"
proof (cases "splay_map (is_tree s) n")
  case (Some e)
  then have "entry = TreeEntry n" using entry by auto
  with dealloc_tree_spec [OF inv P(1) Some] that show thesis by metis
next
  case None
  then have e: "entry = TableEntry (idx n)" using entry by auto
  show thesis
  proof (cases "bit (ie_bits (is_table s ! idx n)) 23")
    case True
    from dealloc_refill_spec [OF inv P None True] that e show thesis by metis
  next
    case False
    have "n \<in> dom (space_map s P)" using space_invD(10) [OF inv] P(1) by auto
    then have "idx n < is_table_size s"
      using None by (auto simp: space_map_def names_map_def used_def split: if_splits)
    then have "ie_object (is_table s ! idx n) = IO_NULL" using obj e by (simp add: entry_at_def)
    from dealloc_free_spec [OF inv P(1) None False this] that e show thesis by metis
  qed
qed

end
