(* ===== verification/Ipc_Entry_Grow.thy ===== *)
theory Ipc_Entry_Grow
  imports Ipc_Entry_Refill
begin

section \<open>Growing the table keeps the map\<close>

text \<open>
  The stages of \<open>grow_install\<close>: the copied table gets its hash slots back, the tree entries of
  the new indices move in (the first of each index; the others stay and set the collision
  bit), the entries still unused go on the free list.
\<close>

subsection \<open>Copying and rehashing\<close>

text \<open>Tables that differ in the hash slots only.\<close>

definition same_but_slots :: "ipc_entry list \<Rightarrow> ipc_entry list \<Rightarrow> bool" where
  "same_but_slots t t' \<longleftrightarrow> length t' = length t \<and> (\<forall>j. t' ! j = (t ! j)\<lparr>ie_index := slot t' j\<rparr>)"

lemma same_but_slots_sel:
  assumes "same_but_slots t t'"
  shows "length t' = length t" "ie_bits (t' ! j) = ie_bits (t ! j)" "ie_object (t' ! j) = ie_object (t ! j)"
    "ie_request (t' ! j) = ie_request (t ! j)" "agree t t' j"
proof -
  show "length t' = length t" using assms by (simp add: same_but_slots_def)
  have "t' ! j = (t ! j)\<lparr>ie_index := slot t' j\<rparr>" using assms unfolding same_but_slots_def by blast
  then show "ie_bits (t' ! j) = ie_bits (t ! j)" "ie_object (t' ! j) = ie_object (t ! j)"
    "ie_request (t' ! j) = ie_request (t ! j)" "agree t t' j"
    unfolding agree_def by (metis ipc_entry.select_convs ipc_entry.surjective ipc_entry.update_convs(4))+
qed

lemma same_but_slots_refl [simp]: "same_but_slots t t"
  by (simp add: same_but_slots_def)

lemma same_but_slots_trans: "same_but_slots t t' \<Longrightarrow> same_but_slots t' t'' \<Longrightarrow> same_but_slots t t''"
  unfolding same_but_slots_def by (metis ipc_entry.surjective ipc_entry.update_convs(4))

lemma same_but_slots_set_slot: "same_but_slots t (set_slot r i t)"
  unfolding same_but_slots_def using set_slot_nth by simp

lemma grow_rehash_spec:
  assumes "hash_inv t S" and "distinct is" and "set is \<inter> S = {}"
    and "\<And>i. i \<in> set is \<Longrightarrow> ie_type (t ! i) = MACH_PORT_TYPE_SEND \<Longrightarrow> 0 < i \<and> i < length t"
  shows "\<exists>t'. grow_rehash is t = Some t' \<and> same_but_slots t t' \<and>
    hash_inv t' (S \<union> {i \<in> set is. ie_type (t ! i) = MACH_PORT_TYPE_SEND})"
  using assms
proof (induction "is" arbitrary: t S)
  case (Cons i js)
  show ?case
  proof (cases "ie_type (t ! i) = MACH_PORT_TYPE_SEND")
    case True
    with Cons.prems(4) [of i] have i: "0 < i" "i < length t" by auto
    have "i \<notin> S" using Cons.prems(3) by auto
    from ipc_hash_local_insert_spec [OF Cons.prems(1) this i refl] obtain r where
      r: "ipc_hash_local_insert (ie_object (t ! i)) i t = Some (set_slot r i t)"
      "hash_inv (set_slot r i t) (insert i S)" by blast
    note sl = same_but_slots_set_slot [of t r i]
    have "\<exists>t'. grow_rehash js (set_slot r i t) = Some t' \<and> same_but_slots (set_slot r i t) t' \<and>
      hash_inv t' (insert i S \<union> {j \<in> set js. ie_type (set_slot r i t ! j) = MACH_PORT_TYPE_SEND})"
      using Cons.prems(2-4) by (intro Cons.IH [OF r(2)]) auto
    then obtain t' where "grow_rehash js (set_slot r i t) = Some t'" "same_but_slots (set_slot r i t) t'"
      "hash_inv t' (insert i S \<union> {j \<in> set js. ie_type (t ! j) = MACH_PORT_TYPE_SEND})" by auto
    moreover have "insert i S \<union> {j \<in> set js. ie_type (t ! j) = MACH_PORT_TYPE_SEND} =
        S \<union> {j \<in> set (i # js). ie_type (t ! j) = MACH_PORT_TYPE_SEND}" using True by auto
    ultimately show ?thesis using True r(1) same_but_slots_trans [OF sl] by auto
  next
    case False
    have "{j \<in> set (i # js). ie_type (t ! j) = MACH_PORT_TYPE_SEND} =
      {j \<in> set js. ie_type (t ! j) = MACH_PORT_TYPE_SEND}" using False by auto
    moreover have "\<exists>t'. grow_rehash js t = Some t' \<and> same_but_slots t t' \<and>
      hash_inv t' (S \<union> {j \<in> set js. ie_type (t ! j) = MACH_PORT_TYPE_SEND})"
      using Cons.prems by (intro Cons.IH) auto
    ultimately show ?thesis using False by simp
  qed
qed simp

lemma grow_copy_nth:
  assumes "length t \<le> sz"
  shows "length (grow_copy sz t) = sz"
    and "i < length t \<Longrightarrow> grow_copy sz t ! i = (t ! i)\<lparr>ie_index := 0\<rparr>"
    and "length t \<le> i \<Longrightarrow> i < sz \<Longrightarrow> grow_copy sz t ! i = zero_entry"
  using assms by (auto simp: grow_copy_def nth_append)

lemma zero_entry_sel [simp]:
  "ie_bits zero_entry = 0" "ie_object zero_entry = IO_NULL" "ie_request zero_entry = 0" "ie_index zero_entry = 0"
  by (simp_all add: zero_entry_def)

lemma type_0 [simp]: "IE_BITS_TYPE 0 = 0"
  by (simp add: IE_BITS_TYPE_def)

text \<open>The table after copying and rehashing.\<close>

definition copied :: "ipc_entry list \<Rightarrow> nat \<Rightarrow> ipc_entry list \<Rightarrow> bool" where
  "copied t sz t1 \<longleftrightarrow> length t1 = sz \<and>
     (\<forall>i<length t. ie_bits (t1 ! i) = ie_bits (t ! i) \<and> ie_object (t1 ! i) = ie_object (t ! i) \<and>
        ie_request (t1 ! i) = ie_request (t ! i)) \<and>
     (\<forall>i. length t \<le> i \<longrightarrow> i < sz \<longrightarrow> ie_bits (t1 ! i) = 0 \<and> ie_object (t1 ! i) = IO_NULL \<and> ie_request (t1 ! i) = 0) \<and>
     hash_inv t1 (send_ix t1 {})"

lemma grow_copy_rehash:
  assumes sz: "length t \<le> sz" and ne: "t \<noteq> []" and head: "ie_type (t ! 0) = 0"
  obtains t1 where "grow_rehash [0..<length t] (grow_copy sz t) = Some t1" and "copied t sz t1"
proof -
  let ?t0 = "grow_copy sz t"
  have slot0: "slot ?t0 p = 0" if "p < sz" for p
    using that grow_copy_nth(2,3) [OF sz, of p] by (cases "p < length t") auto
  have h0: "hash_inv ?t0 {}"
  proof (rule hash_invI)
    fix p q assume "p < length ?t0" "slot ?t0 p \<noteq> 0"
    then show "slot ?t0 p \<in> {}" "p = q" using slot0 grow_copy_nth(1) [OF sz] by auto
  next
    fix p q assume "p < length ?t0" "slot ?t0 p \<noteq> 0"
    then show "slot ?t0 q \<noteq> 0" using slot0 grow_copy_nth(1) [OF sz] by auto
  qed auto
  have "0 < i \<and> i < length ?t0" if "i \<in> set [0..<length t]" "ie_type (?t0 ! i) = MACH_PORT_TYPE_SEND" for i
  proof -
    have "i \<noteq> 0" using that head grow_copy_nth(2) [OF sz, of 0] ne by (cases "i = 0") auto
    with that sz grow_copy_nth(1) [OF sz] show ?thesis by auto
  qed
  with grow_rehash_spec [OF h0, of "[0..<length t]"] obtain t1 where
    t1: "grow_rehash [0..<length t] ?t0 = Some t1" "same_but_slots ?t0 t1"
    "hash_inv t1 {i \<in> set [0..<length t]. ie_type (?t0 ! i) = MACH_PORT_TYPE_SEND}" by auto
  note sb = same_but_slots_sel [OF t1(2)]
  have "send_ix t1 {} = {i \<in> set [0..<length t]. ie_type (?t0 ! i) = MACH_PORT_TYPE_SEND}"
  proof -
    have "i \<in> send_ix t1 {} \<longleftrightarrow> i < length t \<and> ie_type (?t0 ! i) = MACH_PORT_TYPE_SEND" for i
      using sb(2) [of i] sb(1) grow_copy_nth(1) [OF sz] grow_copy_nth(3) [OF sz, of i] sz
      by (cases "i < length t") (auto simp: send_ix_def)
    then show ?thesis by auto
  qed
  with t1(3) have "hash_inv t1 (send_ix t1 {})" by simp
  with sb grow_copy_nth [OF sz] have "copied t sz t1" by (simp add: copied_def)
  with t1(1) show thesis by (rule that)
qed

subsection \<open>The free list of the new part\<close>

text \<open>A free list that starts at \<open>f\<close> and is not yet linked to entry 0.\<close>

definition chain_from :: "ipc_entry list \<Rightarrow> nat \<Rightarrow> nat list \<Rightarrow> bool" where
  "chain_from t f F \<longleftrightarrow> (case F of [] \<Rightarrow> f = 0 | i # G \<Rightarrow> f = i \<and> i \<noteq> 0 \<and> free_chain t i G)"

lemma free_chain_from: "free_chain t 0 F \<longleftrightarrow> chain_from t (ie_next (t ! 0)) F"
  by (cases F) (auto simp: chain_from_def)

lemma chain_from_cong:
  "(\<And>j. j \<in> set F \<Longrightarrow> ie_next (t' ! j) = ie_next (t ! j)) \<Longrightarrow> chain_from t' f F = chain_from t f F"
  using free_chain_cong [of "hd F" "tl F" t' t] by (cases F) (auto simp: chain_from_def)

lemma grow_free_spec:
  assumes "chain_from t f F" and "distinct (is @ F)" and "\<And>i. i \<in> set is \<Longrightarrow> 0 < i \<and> i < length t"
    and "grow_free is f t = (f', t')"
  shows "chain_from t' f' (rev (filter (\<lambda>i. ie_bits (t ! i) = 0) is) @ F) \<and> length t' = length t \<and>
    (\<forall>j. if j \<in> set is \<and> ie_bits (t ! j) = 0
         then ie_bits (t' ! j) = IE_BITS_GEN_MASK \<and> ie_object (t' ! j) = ie_object (t ! j) \<and> slot t' j = slot t j
         else t' ! j = t ! j)"
  using assms
proof (induction "is" arbitrary: f t F)
  case (Cons i js)
  show ?case
  proof (cases "ie_bits (t ! i) = 0")
    case True
    let ?t = "entry_upd i (\<lambda>e. e\<lparr>ie_bits := IE_BITS_GEN_MASK, ie_request := f\<rparr>) t"
    from Cons.prems(3) [of i] have i: "0 < i" "i < length t" by auto
    have nth: "?t ! j = (if j = i then (t ! i)\<lparr>ie_bits := IE_BITS_GEN_MASK, ie_request := f\<rparr> else t ! j)" for j
      using i by simp
    have "chain_from ?t f F = chain_from t f F"
      using Cons.prems(2) by (intro chain_from_cong) (auto simp: nth)
    with Cons.prems(1) i have c: "chain_from ?t i (i # F)"
      by (cases F) (auto simp: chain_from_def nth)
    have g: "grow_free js i ?t = (f', t')" using Cons.prems(4) True by simp
    have d: "distinct (js @ i # F)" using Cons.prems(2) by auto
    have l: "0 < j \<and> j < length ?t" if "j \<in> set js" for j using Cons.prems(3) [of j] that by simp
    note IH = Cons.IH [OF c d l g]
    have "filter (\<lambda>j. ie_bits (?t ! j) = 0) js = filter (\<lambda>j. ie_bits (t ! j) = 0) js"
      using Cons.prems(2) by (intro filter_cong) (auto simp: nth)
    with IH True have "chain_from t' f' (rev (filter (\<lambda>i. ie_bits (t ! i) = 0) (i # js)) @ F)"
      "length t' = length t" by auto
    moreover have "if j \<in> set (i # js) \<and> ie_bits (t ! j) = 0
         then ie_bits (t' ! j) = IE_BITS_GEN_MASK \<and> ie_object (t' ! j) = ie_object (t ! j) \<and> slot t' j = slot t j
         else t' ! j = t ! j" for j
      using IH [THEN conjunct2, THEN conjunct2, rule_format, of j] True Cons.prems(2)
      by (cases "j = i") (auto simp: nth split: if_splits)
    ultimately show ?thesis by blast
  next
    case False
    with Cons.IH [OF Cons.prems(1)] Cons.prems(2-4) show ?thesis by auto
  qed
qed simp

end
