(* ===== verification/Ipc_Entry_Sweep.thy ===== *)
theory Ipc_Entry_Sweep
  imports Ipc_Entry_Grow
begin

section \<open>Moving tree entries into the grown table\<close>

text \<open>
  The sweep of \<open>ipc_entry_grow_table\<close> over the tree entries whose index is in the new part.
  \<open>L\<close> are the items already passed and kept (and those of smaller indices), \<open>xs\<close> those still to
  come, \<open>R\<close> those of larger indices; the items of the whole tree are \<open>L @ xs @ R\<close>.
\<close>

definition mid :: "ipc_entry list \<Rightarrow> nat \<Rightarrow> (mach_port_t \<Rightarrow> capability option) \<Rightarrow> ipc_space \<Rightarrow> ipc_hash_global
    \<Rightarrow> (mach_port_t \<times> ipc_entry) list \<Rightarrow> (mach_port_t \<times> ipc_entry) list \<Rightarrow> (mach_port_t \<times> ipc_entry) list \<Rightarrow> bool" where
  "mid t0 sz M s g L xs R \<longleftrightarrow>
     length (is_table s) = sz \<and> length t0 \<le> sz \<and> sz < 2 ^ 24 \<and> 0 < length t0 \<and>
     (\<forall>i<length t0. ie_bits (is_table s ! i) = ie_bits (t0 ! i) \<and> ie_object (is_table s ! i) = ie_object (t0 ! i) \<and>
        ie_request (is_table s ! i) = ie_request (t0 ! i)) \<and>
     (\<forall>i. length t0 \<le> i \<longrightarrow> i < sz \<longrightarrow>
        (if ie_bits (is_table s ! i) = 0
         then ie_object (is_table s ! i) = IO_NULL \<and> (\<forall>x\<in>set L. idx (fst x) \<noteq> i)
         else ie_type (is_table s ! i) \<noteq> 0 \<and>
           (bit (ie_bits (is_table s ! i)) 23 \<longleftrightarrow> (\<exists>x\<in>set L. idx (fst x) = i)) \<and>
           (\<forall>x\<in>set (L @ xs @ R). idx (fst x) = i \<longrightarrow> ie_gen (is_table s ! i) \<noteq> MACH_PORT_GEN (fst x)))) \<and>
     rev_ok (is_addr s) (is_table s) (map_of (L @ xs @ R)) (is_tree_hash s) g {} \<and>
     names_map (is_table s) (map_of (L @ xs @ R)) {} = M \<and>
     is_tree_total s = length (L @ xs @ R)"

lemma midD:
  assumes "mid t0 sz M s g L xs R"
  shows "length (is_table s) = sz" "length t0 \<le> sz" "sz < 2 ^ 24" "0 < length t0"
    "\<And>i. i < length t0 \<Longrightarrow> ie_bits (is_table s ! i) = ie_bits (t0 ! i) \<and> ie_object (is_table s ! i) = ie_object (t0 ! i) \<and>
        ie_request (is_table s ! i) = ie_request (t0 ! i)"
    "\<And>i. length t0 \<le> i \<Longrightarrow> i < sz \<Longrightarrow> if ie_bits (is_table s ! i) = 0
         then ie_object (is_table s ! i) = IO_NULL \<and> (\<forall>x\<in>set L. idx (fst x) \<noteq> i)
         else ie_type (is_table s ! i) \<noteq> 0 \<and>
           (bit (ie_bits (is_table s ! i)) 23 \<longleftrightarrow> (\<exists>x\<in>set L. idx (fst x) = i)) \<and>
           (\<forall>x\<in>set (L @ xs @ R). idx (fst x) = i \<longrightarrow> ie_gen (is_table s ! i) \<noteq> MACH_PORT_GEN (fst x))"
    "rev_ok (is_addr s) (is_table s) (map_of (L @ xs @ R)) (is_tree_hash s) g {}"
    "names_map (is_table s) (map_of (L @ xs @ R)) {} = M"
    "is_tree_total s = length (L @ xs @ R)"
proof -
  note c = assms [unfolded mid_def]
  show "length (is_table s) = sz" "length t0 \<le> sz" "sz < 2 ^ 24" "0 < length t0" using c by blast+
  show "\<And>i. i < length t0 \<Longrightarrow> ie_bits (is_table s ! i) = ie_bits (t0 ! i) \<and> ie_object (is_table s ! i) = ie_object (t0 ! i) \<and>
        ie_request (is_table s ! i) = ie_request (t0 ! i)" using c by meson
  show "\<And>i. length t0 \<le> i \<Longrightarrow> i < sz \<Longrightarrow> if ie_bits (is_table s ! i) = 0
         then ie_object (is_table s ! i) = IO_NULL \<and> (\<forall>x\<in>set L. idx (fst x) \<noteq> i)
         else ie_type (is_table s ! i) \<noteq> 0 \<and>
           (bit (ie_bits (is_table s ! i)) 23 \<longleftrightarrow> (\<exists>x\<in>set L. idx (fst x) = i)) \<and>
           (\<forall>x\<in>set (L @ xs @ R). idx (fst x) = i \<longrightarrow> ie_gen (is_table s ! i) \<noteq> MACH_PORT_GEN (fst x))"
    using c [THEN conjunct2, THEN conjunct2, THEN conjunct2, THEN conjunct2, THEN conjunct2, THEN conjunct1]
    by (elim allE impE) assumption+
  show "rev_ok (is_addr s) (is_table s) (map_of (L @ xs @ R)) (is_tree_hash s) g {}"
    "names_map (is_table s) (map_of (L @ xs @ R)) {} = M" "is_tree_total s = length (L @ xs @ R)"
    using c by blast+
qed

lemma midI:
  assumes "length (is_table s) = sz" "length t0 \<le> sz" "sz < 2 ^ 24" "0 < length t0"
    "\<And>i. i < length t0 \<Longrightarrow> ie_bits (is_table s ! i) = ie_bits (t0 ! i) \<and> ie_object (is_table s ! i) = ie_object (t0 ! i) \<and>
        ie_request (is_table s ! i) = ie_request (t0 ! i)"
    "\<And>i. length t0 \<le> i \<Longrightarrow> i < sz \<Longrightarrow> if ie_bits (is_table s ! i) = 0
         then ie_object (is_table s ! i) = IO_NULL \<and> (\<forall>x\<in>set L. idx (fst x) \<noteq> i)
         else ie_type (is_table s ! i) \<noteq> 0 \<and>
           (bit (ie_bits (is_table s ! i)) 23 \<longleftrightarrow> (\<exists>x\<in>set L. idx (fst x) = i)) \<and>
           (\<forall>x\<in>set (L @ xs @ R). idx (fst x) = i \<longrightarrow> ie_gen (is_table s ! i) \<noteq> MACH_PORT_GEN (fst x))"
    "rev_ok (is_addr s) (is_table s) (map_of (L @ xs @ R)) (is_tree_hash s) g {}"
    "names_map (is_table s) (map_of (L @ xs @ R)) {} = M"
    "is_tree_total s = length (L @ xs @ R)"
  shows "mid t0 sz M s g L xs R"
  unfolding mid_def
  by (intro conjI allI impI assms(1-4,7-9) assms(5) [THEN conjunct1] assms(5) [THEN conjunct2, THEN conjunct1]
      assms(5) [THEN conjunct2, THEN conjunct2] assms(6))

lemma bits_0_iff_type:
  assumes "mid t0 sz M s g L xs R" "length t0 \<le> i" "i < sz"
  shows "ie_bits (is_table s ! i) = 0 \<longleftrightarrow> ie_type (is_table s ! i) = 0"
  using midD(6) [OF assms] by (auto split: if_splits)

lemma map_of_middle_none:
  fixes n :: mach_port_t and e :: ipc_entry
  assumes "distinct (map fst (L @ (n, e) # xs @ R))"
  shows "map_of (L @ xs @ R) = (map_of (L @ (n, e) # xs @ R))(n := None)"
proof -
  have "n \<notin> fst ` set (L @ xs @ R)" using assms by auto
  then have "filter (\<lambda>x. fst x \<noteq> n) (L @ (n, e) # xs @ R) = L @ xs @ R"
  proof -
    have f: "filter (\<lambda>x. fst x \<noteq> n) ys = ys" if "n \<notin> fst ` set ys" for ys :: "(mach_port_t \<times> ipc_entry) list"
      using that by (intro filter_True) (auto simp: image_iff)
    show ?thesis using f [OF \<open>n \<notin> fst ` set (L @ xs @ R)\<close>] by simp
  qed
  with map_of_filter_neq [of n "L @ (n, e) # xs @ R"] show ?thesis by metis
qed

text \<open>A slot that is taken: the entry stays in the tree.\<close>

lemma grow_keep:
  assumes m: "mid t0 sz M s g L ((n, e) # xs) R" and i: "length t0 \<le> idx n" "idx n < sz"
    and b: "ie_bits (is_table s ! idx n) \<noteq> 0"
  shows "mid t0 sz M (s\<lparr>is_table := entry_upd (idx n)
      (\<lambda>e. e\<lparr>ie_bits := ie_bits (is_table s ! idx n) OR IE_BITS_COLLISION\<rparr>) (is_table s)\<rparr>) g (L @ [(n, e)]) xs R"
    (is "mid t0 sz M ?s g _ _ _")
proof -
  let ?i = "idx n" and ?t = "is_table s"
  let ?t' = "entry_upd ?i (\<lambda>e. e\<lparr>ie_bits := ie_bits (?t ! ?i) OR IE_BITS_COLLISION\<rparr>) ?t"
  note D = midD [OF m]
  have same: "agree ?t ?t' j \<and> ie_request (?t' ! j) = ie_request (?t ! j) \<and> slot ?t' j = slot ?t j" for j
    using i(2) D(1) by (auto simp: agree_def)
  have len: "length ?t' = length ?t" by simp
  have app: "(L @ [(n, e)]) @ xs @ R = L @ ((n, e) # xs) @ R" by simp
  have bits: "ie_bits (?t' ! j) = (if j = ?i then ie_bits (?t ! ?i) OR IE_BITS_COLLISION else ie_bits (?t ! j))" for j
    using i(2) D(1) by simp
  have obj: "ie_object (?t' ! j) = ie_object (?t ! j)" for j using same by (simp add: agree_def)
  have new: "if ie_bits (?t' ! j) = 0
         then ie_object (?t' ! j) = IO_NULL \<and> (\<forall>x\<in>set (L @ [(n, e)]). idx (fst x) \<noteq> j)
         else ie_type (?t' ! j) \<noteq> 0 \<and>
           (bit (ie_bits (?t' ! j)) 23 \<longleftrightarrow> (\<exists>x\<in>set (L @ [(n, e)]). idx (fst x) = j)) \<and>
           (\<forall>x\<in>set ((L @ [(n, e)]) @ xs @ R). idx (fst x) = j \<longrightarrow> ie_gen (?t' ! j) \<noteq> MACH_PORT_GEN (fst x))"
    if j: "length t0 \<le> j" "j < sz" for j
  proof (cases "j = ?i")
    case True
    have "ie_type (?t ! ?i) \<noteq> 0" using b bits_0_iff_type [OF m i] by simp
    then have ty: "ie_type (?t' ! ?i) \<noteq> 0" using bits [of ?i] by simp
    then have nz: "ie_bits (?t' ! ?i) \<noteq> 0" by (metis type_0)
    have "ie_gen (?t' ! ?i) = ie_gen (?t ! ?i)" using bits [of ?i] by simp
    with D(6) [OF i] b True ty nz bits [of ?i] app show ?thesis by simp
  next
    case False
    with D(6) [OF j] bits [of j] obj [of j] app show ?thesis by auto
  qed
  have rev: "rev_ok (is_addr s) ?t' (map_of (L @ ((n, e) # xs) @ R)) (is_tree_hash s) g {}"
  proof (rule rev_ok_cong [OF D(7) len])
    show "send_ix ?t' {} = send_ix ?t {}" using same by (intro agree_send_ix len) blast+
  qed (use same obj in blast)+
  have M: "names_map ?t' (map_of (L @ ((n, e) # xs) @ R)) {} = M"
    unfolding D(8) [symmetric] using same by (intro ext names_map_agree len) blast+
  have old: "ie_bits (?t' ! j) = ie_bits (t0 ! j) \<and> ie_object (?t' ! j) = ie_object (t0 ! j) \<and>
      ie_request (?t' ! j) = ie_request (t0 ! j)" if "j < length t0" for j
    using D(5) [OF that] bits [of j] obj [of j] same [of j] i(1) that by simp
  show ?thesis
    by (rule midI) (use D(1-4,9) old new rev M app in \<open>simp_all del: nth_entry_upd\<close>)
qed

text \<open>A free slot: the entry moves into it.\<close>

lemma grow_take:
  assumes m: "mid t0 sz M s g L ((n, e) # xs) R" and i: "length t0 \<le> idx n" "idx n < sz"
    and b: "ie_bits (is_table s ! idx n) = 0" and e: "right_bits (ie_bits e)" "ie_type e \<noteq> 0"
    and d: "distinct (map fst (L @ (n, e) # xs @ R))"
  obtains t' c' g' where
    "move_to_table n e (idx n) (s, g) = Some (s\<lparr>is_table := t', is_tree_hash := c'\<rparr>, g')"
    and "mid t0 sz M (s\<lparr>is_table := t', is_tree_hash := c', is_tree_total := is_tree_total s - 1\<rparr>) g' L xs R"
proof -
  let ?i = "idx n" and ?t = "is_table s" and ?T = "map_of (L @ ((n, e) # xs) @ R)"
  note D = midD [OF m]
  have "map_of L n = None" using d by (auto simp: map_of_eq_None_iff)
  then have Tn: "?T n = Some e"
    using d by (auto simp: map_of_append map_add_def map_of_eq_None_iff split: option.splits
        dest!: map_of_SomeD intro: rev_image_eqI)
  have T': "map_of (L @ xs @ R) = ?T(n := None)" using map_of_middle_none [OF d] by simp
  have ty0: "ie_type (?t ! ?i) = 0" using b by simp
  have i0: "0 < ?i" using i(1) D(4) by linarith
  have it: "?i < length ?t" "length ?t < 2 ^ 24" using i(2) D(1,3) by auto
  have "?i \<notin> send_ix ?t {}" using ty0 by (simp add: send_ix_def)
  with move_to_table_spec [OF D(7) Tn _ e(1) refl i0 it]
  obtain t' c' g' where mv: "move_to_table n e ?i (s, g) = Some (s\<lparr>is_table := t', is_tree_hash := c'\<rparr>, g')"
    and mo: "moved ?t t' ?i n e" and rev: "rev_ok (is_addr s) t' (?T(n := None)) c' g' {}"
    by (metis empty_iff)
  have len: "length t' = length ?t" using mo by (simp add: moved_def)
  have bi: "ie_bits (t' ! ?i) = ie_bits e OR MACH_PORT_GEN n" "ie_object (t' ! ?i) = ie_object e"
    "ie_request (t' ! ?i) = ie_request e" using mo by (auto simp: moved_def)
  have ti: "ie_type (t' ! ?i) \<noteq> 0" "ie_gen (t' ! ?i) = MACH_PORT_GEN n" "\<not> bit (ie_bits (t' ! ?i)) 23"
    "view (t' ! ?i) = view e"
    using bi e by (simp_all add: view_def right_bits_def)
  have other: "ie_bits (t' ! j) = ie_bits (?t ! j)" "ie_object (t' ! j) = ie_object (?t ! j)"
    "ie_request (t' ! j) = ie_request (?t ! j)" "agree ?t t' j" if "j \<noteq> ?i" for j
    using moved_agree [OF mo that] moved_bits [OF mo that] by (auto simp: agree_def)
  have notL: "\<forall>x\<in>set L. idx (fst x) \<noteq> ?i" using D(6) [OF i] b by simp
  have geni: "MACH_PORT_GEN n \<noteq> MACH_PORT_GEN (fst x)" if "x \<in> set (L @ xs @ R)" "idx (fst x) = ?i" for x
  proof -
    have "fst x \<in> fst ` set (L @ xs @ R)" using that(1) by (rule imageI)
    then have "fst x \<noteq> n" using d by auto
    with that(2) show ?thesis using name_eq_iff [of n "fst x"] idx_eq_iff [of n "fst x"] by metis
  qed
  have new: "if ie_bits (t' ! j) = 0
         then ie_object (t' ! j) = IO_NULL \<and> (\<forall>x\<in>set L. idx (fst x) \<noteq> j)
         else ie_type (t' ! j) \<noteq> 0 \<and>
           (bit (ie_bits (t' ! j)) 23 \<longleftrightarrow> (\<exists>x\<in>set L. idx (fst x) = j)) \<and>
           (\<forall>x\<in>set (L @ xs @ R). idx (fst x) = j \<longrightarrow> ie_gen (t' ! j) \<noteq> MACH_PORT_GEN (fst x))"
    if j: "length t0 \<le> j" "j < sz" for j
  proof (cases "j = ?i")
    case True
    have "ie_bits (t' ! ?i) \<noteq> 0" using ti(1) by (metis type_0)
    with True ti notL geni show ?thesis by auto
  next
    case False
    with D(6) [OF j] other [of j] show ?thesis by auto
  qed
  have M: "names_map t' (?T(n := None)) {} = M"
  proof
    fix m
    show "names_map t' (?T(n := None)) {} m = M m"
    proof (cases "idx m = ?i")
      case True
      have u: "used t' {} ?i" "\<not> used ?t {} ?i" using i0 i(2) D(1) len ti(1) ty0 by (auto simp: used_def)
      have "MACH_PORT_GEN n = MACH_PORT_GEN m \<longleftrightarrow> m = n"
        using True name_eq_iff [of m n] idx_eq_iff [of m n] by metis
      with u True ti Tn show ?thesis by (auto simp: names_map_def D(8) [symmetric])
    next
      case False
      have "names_map t' (?T(n := None)) {} m = names_map ?t ?T {} m"
        using False other [OF False] by (intro names_map_agree len) auto
      then show ?thesis by (simp only: D(8))
    qed
  qed
  have "mid t0 sz M (s\<lparr>is_table := t', is_tree_hash := c', is_tree_total := is_tree_total s - 1\<rparr>) g' L xs R"
  proof (rule midI)
    show "ie_bits (is_table (s\<lparr>is_table := t', is_tree_hash := c', is_tree_total := is_tree_total s - 1\<rparr>) ! j) = ie_bits (t0 ! j) \<and>
      ie_object (is_table (s\<lparr>is_table := t', is_tree_hash := c', is_tree_total := is_tree_total s - 1\<rparr>) ! j) = ie_object (t0 ! j) \<and>
      ie_request (is_table (s\<lparr>is_table := t', is_tree_hash := c', is_tree_total := is_tree_total s - 1\<rparr>) ! j) = ie_request (t0 ! j)"
      if "j < length t0" for j
    proof -
      have "j \<noteq> ?i" using that i(1) by auto
      with D(5) [OF that] other [of j] show ?thesis by simp
    qed
  qed (use D(1-4,9) new rev M T' len in simp_all)
  with mv show thesis by (rule that)
qed

lemma grow_move_Some:
  "grow_move (Some (s, g)) (n, e) =
     (if ie_bits (is_table s ! idx n) \<noteq> 0
      then (Some (s\<lparr>is_table := entry_upd (idx n)
              (\<lambda>e. e\<lparr>ie_bits := ie_bits (is_table s ! idx n) OR IE_BITS_COLLISION\<rparr>) (is_table s)\<rparr>, g), False)
      else (map_option (\<lambda>(s, g). (s\<lparr>is_tree_total := is_tree_total s - 1\<rparr>, g)) (move_to_table n e (idx n) (s, g)), True))"
  by (simp add: grow_move_def Let_def)

lemma grow_sweep:
  assumes "mid t0 sz M s g L xs R" and "distinct (map fst (L @ xs @ R))"
    and "\<forall>x\<in>set xs. length t0 \<le> idx (fst x) \<and> idx (fst x) < sz \<and> right_bits (ie_bits (snd x)) \<and> ie_type (snd x) \<noteq> 0"
  shows "\<exists>t' c' k g' kept. sweep grow_move (Some (s, g)) xs =
      (Some (s\<lparr>is_table := t', is_tree_hash := c', is_tree_total := k\<rparr>, g'), kept) \<and>
    set kept \<subseteq> set xs \<and>
    mid t0 sz M (s\<lparr>is_table := t', is_tree_hash := c', is_tree_total := k\<rparr>) g' (L @ kept) [] R"
  using assms
proof (induction xs arbitrary: s g L)
  case Nil
  then show ?case
    by (intro exI [of _ "is_table s"] exI [of _ "is_tree_hash s"] exI [of _ "is_tree_total s"] exI [of _ g]) simp
next
  case (Cons x xs)
  obtain n e where x: "x = (n, e)" by fastforce
  from Cons.prems(3) x have i: "length t0 \<le> idx n" "idx n < sz" and e: "right_bits (ie_bits e)" "ie_type e \<noteq> 0"
    by auto
  have m: "mid t0 sz M s g L ((n, e) # xs) R" using Cons.prems(1) x by simp
  show ?case
  proof (cases "ie_bits (is_table s ! idx n) = 0")
    case True
    have d: "distinct (map fst (L @ (n, e) # xs @ R))" using Cons.prems(2) x by simp
    obtain t1 c1 g1 where mv: "move_to_table n e (idx n) (s, g) = Some (s\<lparr>is_table := t1, is_tree_hash := c1\<rparr>, g1)"
      and m1: "mid t0 sz M (s\<lparr>is_table := t1, is_tree_hash := c1, is_tree_total := is_tree_total s - 1\<rparr>) g1 L xs R"
      by (rule grow_take [OF m i True e d])
    have d1: "distinct (map fst (L @ xs @ R))" using d by auto
    let ?s1 = "s\<lparr>is_table := t1, is_tree_hash := c1, is_tree_total := is_tree_total s - 1\<rparr>"
    obtain t' c' k g' kept where "sweep grow_move (Some (?s1, g1)) xs =
        (Some (?s1\<lparr>is_table := t', is_tree_hash := c', is_tree_total := k\<rparr>, g'), kept)"
      "set kept \<subseteq> set xs"
      "mid t0 sz M (?s1\<lparr>is_table := t', is_tree_hash := c', is_tree_total := k\<rparr>) g' (L @ kept) [] R"
      using Cons.IH [OF m1 d1] Cons.prems(3) by auto
    with mv True x show ?thesis
      by (intro exI [of _ t'] exI [of _ c'] exI [of _ k] exI [of _ g'] exI [of _ kept])
         (auto simp: grow_move_Some)
  next
    case False
    note m1 = grow_keep [OF m i False]
    let ?s1 = "s\<lparr>is_table := entry_upd (idx n)
      (\<lambda>e. e\<lparr>ie_bits := ie_bits (is_table s ! idx n) OR IE_BITS_COLLISION\<rparr>) (is_table s)\<rparr>"
    have d1: "distinct (map fst ((L @ [(n, e)]) @ xs @ R))" using Cons.prems(2) x by simp
    obtain t' c' k g' kept where "sweep grow_move (Some (?s1, g)) xs =
        (Some (?s1\<lparr>is_table := t', is_tree_hash := c', is_tree_total := k\<rparr>, g'), kept)"
      "set kept \<subseteq> set xs"
      "mid t0 sz M (?s1\<lparr>is_table := t', is_tree_hash := c', is_tree_total := k\<rparr>) g' ((L @ [(n, e)]) @ kept) [] R"
      using Cons.IH [OF m1 d1] Cons.prems(3) by auto
    with False x show ?thesis
      by (intro exI [of _ t'] exI [of _ c'] exI [of _ k] exI [of _ g'] exI [of _ "x # kept"])
         (auto simp: grow_move_Some)
  qed
qed

end
