(* ===== verification/Ipc_Entry_Install.thy ===== *)
theory Ipc_Entry_Install
  imports Ipc_Entry_Sweep
begin

section \<open>Installing the grown table\<close>

subsection \<open>The count of small indices\<close>

lemma grow_count_spec:
  assumes "strict_keys xs" and "\<forall>x\<in>set xs. i \<le> idx (fst x)"
  shows "\<exists>j. sweep grow_count (k, i) xs = ((k + card ((\<lambda>x. idx (fst x)) ` set xs - {i}), j), xs)"
  using assms
proof (induction xs arbitrary: k i)
  case (Cons x xs)
  let ?A = "(\<lambda>x. idx (fst x)) ` set xs"
  have ge: "\<forall>y\<in>set xs. idx (fst x) \<le> idx (fst y)"
  proof
    fix y assume "y \<in> set xs"
    with Cons.prems(1) have "fst x < fst y" by auto
    then show "idx (fst x) \<le> idx (fst y)" by (intro idx_mono) simp
  qed
  have sk: "strict_keys xs" using Cons.prems(1) by simp
  show ?case
  proof (cases "idx (fst x) = i")
    case True
    have "grow_count (k, i) x = ((k, i), False)" using True by (simp add: grow_count_def)
    moreover obtain j where "sweep grow_count (k, i) xs = ((k + card (?A - {i}), j), xs)"
      using Cons.IH [OF sk, of i k] ge True by auto
    ultimately show ?thesis using True by (simp add: insert_Diff_if)
  next
    case False
    let ?n = "idx (fst x)"
    have "i < ?n" using Cons.prems(2) False by auto
    have "grow_count (k, i) x = ((k + 1, ?n), False)" using False by (simp add: grow_count_def Let_def)
    moreover obtain j where "sweep grow_count (k + 1, ?n) xs = ((k + 1 + card (?A - {?n}), j), xs)"
      using Cons.IH [OF sk ge, of "k + 1"] by blast
    moreover have "card ((\<lambda>x. idx (fst x)) ` set (x # xs) - {i}) = Suc (card (?A - {?n}))"
    proof -
      have "(\<lambda>x. idx (fst x)) ` set (x # xs) - {i} = insert ?n (?A - {?n})"
        using ge \<open>i < ?n\<close> by auto
      moreover have "card (insert ?n (?A - {?n})) = Suc (card (?A - {?n}))"
        by (rule card_insert_disjoint) auto
      ultimately show ?thesis by (simp only:)
    qed
    ultimately show ?thesis by simp
  qed
qed simp

subsection \<open>The tree part\<close>

lemma mid_cong:
  assumes "is_table s' = is_table s" "is_addr s' = is_addr s" "is_tree_hash s' = is_tree_hash s"
    "is_tree_total s' = is_tree_total s"
  shows "mid t0 sz M s' g L xs R = mid t0 sz M s g L xs R"
  unfolding mid_def assms ..

lemma filter_idx:
  "k \<le> m \<Longrightarrow> filter (\<lambda>x. idx (fst x) < k) (filter (\<lambda>x. idx (fst x) < m) xs) = filter (\<lambda>x. idx (fst x) < k) xs"
  by (simp add: filter_filter) (metis (no_types, lifting) less_le_trans)

lemma cut_pieces:
  assumes sp: "splay_inv tree" and k: "a \<le> b" "b \<le> c" "c < 2 ^ 24"
  obtains big small0 small move0 move ign where
    "ipc_splay_tree_split (MACH_PORT_MAKE (of_nat c) 0) tree = (big, small0)"
    "ipc_splay_tree_split (MACH_PORT_MAKE (of_nat b) 0) small0 = (small, move0)"
    "ipc_splay_tree_split (MACH_PORT_MAKE (of_nat a) 0) move0 = (move, ign)"
    "splay_inv big" "splay_inv small" "splay_inv move" "splay_inv ign"
    "splay_list big = filter (\<lambda>x. c \<le> idx (fst x)) (splay_list tree)"
    "splay_list small = filter (\<lambda>x. b \<le> idx (fst x) \<and> idx (fst x) < c) (splay_list tree)"
    "splay_list move = filter (\<lambda>x. a \<le> idx (fst x) \<and> idx (fst x) < b) (splay_list tree)"
    "splay_list ign = filter (\<lambda>x. idx (fst x) < a) (splay_list tree)"
proof -
  from k have k': "a < 2 ^ 24" "b < 2 ^ 24" by auto
  obtain big small0 where c1: "ipc_splay_tree_split (MACH_PORT_MAKE (of_nat c) 0) tree = (big, small0)" by fastforce
  obtain small move0 where c2: "ipc_splay_tree_split (MACH_PORT_MAKE (of_nat b) 0) small0 = (small, move0)" by fastforce
  obtain move ign where c3: "ipc_splay_tree_split (MACH_PORT_MAKE (of_nat a) 0) move0 = (move, ign)" by fastforce
  note k1 = splay.cut_index [OF sp k(3) c1]
  note k2 = splay.cut_index [OF k1(2) k'(2) c2]
  note k3 = splay.cut_index [OF k2(2) k'(1) c3]
  show thesis
  proof (rule that [OF c1 c2 c3 k1(1) k2(1) k3(1,2) k1(3)])
    show "splay_list small = filter (\<lambda>x. b \<le> idx (fst x) \<and> idx (fst x) < c) (splay_list tree)"
      unfolding k2(3) k1(4) by (simp add: filter_filter conj_commute)
    show "splay_list move = filter (\<lambda>x. a \<le> idx (fst x) \<and> idx (fst x) < b) (splay_list tree)"
      unfolding k3(3) k2(4) k1(4) filter_idx [OF k(2)] by (simp add: filter_filter conj_commute)
    show "splay_list ign = filter (\<lambda>x. idx (fst x) < a) (splay_list tree)"
      unfolding k3(4) k2(4) k1(4) filter_idx [OF k(2)] by (rule filter_idx [OF k(1)])
  qed
qed

lemma tree_ok_items:
  assumes "tree_ok tree {}" and "x \<in> set (splay_list tree)"
  shows "MACH_PORT_VALID (fst x) \<and> right_bits (ie_bits (snd x)) \<and> ie_type (snd x) \<noteq> 0"
  using assms by (cases x) (auto simp: tree_ok_def)

lemma grow_tree_spec:
  assumes ok: "tree_ok (is_tree s) {}" and k: "length t0 \<le> sz" "sz \<le> nsize" "nsize < 2 ^ 24"
    and m: "mid t0 sz M s g (filter (\<lambda>x. idx (fst x) < length t0) (splay_list (is_tree s)))
      (filter (\<lambda>x. length t0 \<le> idx (fst x) \<and> idx (fst x) < sz) (splay_list (is_tree s)))
      (filter (\<lambda>x. sz \<le> idx (fst x)) (splay_list (is_tree s)))"
    and total: "is_tree_total s = length (splay_list (is_tree s))"
    and empty: "is_tree_total s = 0 \<Longrightarrow> is_tree_small s = 0"
  obtains t' c' k' n' tree' g' where
    "grow_tree (length t0) sz nsize (s, g) =
       Some (s\<lparr>is_table := t', is_tree_hash := c', is_tree_total := k', is_tree_small := n', is_tree := tree'\<rparr>, g')"
    and "tree_ok tree' {}"
    and "filter (\<lambda>x. idx (fst x) < length t0) (splay_list tree') =
      filter (\<lambda>x. idx (fst x) < length t0) (splay_list (is_tree s))"
    and "mid t0 sz M (s\<lparr>is_table := t', is_tree_hash := c', is_tree_total := k', is_tree_small := n', is_tree := tree'\<rparr>) g'
      (filter (\<lambda>x. idx (fst x) < sz) (splay_list tree')) [] (filter (\<lambda>x. sz \<le> idx (fst x)) (splay_list tree'))"
    and "n' = card (small_set sz nsize (splay_map tree'))"
proof (cases "0 < is_tree_total s")
  case False
  then have e: "splay_list (is_tree s) = []" using total by simp
  have r: "grow_tree (length t0) sz nsize (s, g) = Some (s\<lparr>is_table := is_table s, is_tree_hash := is_tree_hash s,
      is_tree_total := is_tree_total s, is_tree_small := is_tree_small s, is_tree := is_tree s\<rparr>, g)"
    using False by (simp add: grow_tree_def)
  have n: "is_tree_small s = card (small_set sz nsize (splay_map (is_tree s)))"
    using empty False e by (simp add: splay_map_def small_set_def)
  show thesis by (rule that [OF r ok]) (use m e n in \<open>simp_all add: mid_def\<close>)
next
  case True
  let ?xs = "splay_list (is_tree s)"
  note sp = tree_okD(1) [OF ok] and sk = tree_okD(5) [OF ok]
  obtain big small0 small move0 move ign where c:
    "ipc_splay_tree_split (MACH_PORT_MAKE (of_nat nsize) 0) (is_tree s) = (big, small0)"
    "ipc_splay_tree_split (MACH_PORT_MAKE (of_nat sz) 0) small0 = (small, move0)"
    "ipc_splay_tree_split (MACH_PORT_MAKE (of_nat (length t0)) 0) move0 = (move, ign)"
    "splay_inv big" "splay_inv small" "splay_inv move" "splay_inv ign"
    "splay_list big = filter (\<lambda>x. nsize \<le> idx (fst x)) ?xs"
    "splay_list small = filter (\<lambda>x. sz \<le> idx (fst x) \<and> idx (fst x) < nsize) ?xs"
    "splay_list move = filter (\<lambda>x. length t0 \<le> idx (fst x) \<and> idx (fst x) < sz) ?xs"
    "splay_list ign = filter (\<lambda>x. idx (fst x) < length t0) ?xs"
    by (rule cut_pieces [OF sp k])
  let ?s1 = "s\<lparr>is_tree := big\<rparr>" and ?R = "filter (\<lambda>x. sz \<le> idx (fst x)) ?xs"
  have m1: "mid t0 sz M ?s1 g (splay_list ign) (splay_list move) ?R"
    using m mid_cong [of ?s1 s] unfolding c(10,11) by simp
  have d: "distinct (map fst (splay_list ign @ splay_list move @ ?R))"
  proof -
    have "strict_keys (splay_list ign @ splay_list move @ ?R)"
    proof -
      have "fst x < fst y" if "idx (fst x) < idx (fst y)" for x y :: "mach_port_t \<times> ipc_entry"
        using idx_mono [of "fst y" "fst x"] that by (auto simp: not_le [symmetric])
      then show ?thesis
        unfolding c(10,11) using strict_keys_filter [OF sk] k(1) by (auto intro: less_le_trans)
    qed
    then show ?thesis by (rule strict_keys_distinct)
  qed
  have mv: "\<forall>x\<in>set (splay_list move). length t0 \<le> idx (fst x) \<and> idx (fst x) < sz \<and>
      right_bits (ie_bits (snd x)) \<and> ie_type (snd x) \<noteq> 0"
    using tree_ok_items [OF ok] unfolding c(10) by auto
  from grow_sweep [OF m1 d mv] obtain t' c' k' g' kept where
    sw: "sweep grow_move (Some (?s1, g)) (splay_list move) =
      (Some (?s1\<lparr>is_table := t', is_tree_hash := c', is_tree_total := k'\<rparr>, g'), kept)" and
    kept: "set kept \<subseteq> set (splay_list move)" and
    m2: "mid t0 sz M (?s1\<lparr>is_table := t', is_tree_hash := c', is_tree_total := k'\<rparr>) g' (splay_list ign @ kept) [] ?R"
    by blast
  obtain move' where mt: "splay_traverse grow_move (Some (?s1, g)) move =
      Some (Some (?s1\<lparr>is_table := t', is_tree_hash := c', is_tree_total := k'\<rparr>, g'), move')"
    "splay_list move' = kept" "splay_inv move'"
    by (rule traverse_list [OF c(6), where body = grow_move and s = "Some (?s1, g)"]) (simp add: sw)
  let ?S = "(\<lambda>x. idx (fst x)) ` set (splay_list small)"
  obtain j where "sweep grow_count (0, 0) (splay_list small) = ((card (?S - {0}), j), splay_list small)"
    using grow_count_spec [of "splay_list small" 0 0] c(5) by (auto simp: splay_inv_def)
  moreover have "?S - {0} = ?S" using midD(1,2,4) [OF m] unfolding c(9) by auto
  ultimately have "sweep grow_count (0, 0) (splay_list small) = ((card ?S, j), splay_list small)" by simp
  then obtain small' where st: "splay_traverse grow_count (0, 0) small = Some ((card ?S, j), small')"
    "splay_list small' = splay_list small" "splay_inv small'"
    by (rule_tac traverse_list [OF c(5), where body = grow_count and s = "(0, 0)"]) simp
  define tree' where "tree' = fst (ipc_splay_tree_join (fst (ipc_splay_tree_join
    (fst (ipc_splay_tree_join big small')) move')) ign)"
  have j1: "splay_inv (fst (ipc_splay_tree_join big small'))"
    "splay_list (fst (ipc_splay_tree_join big small')) = splay_list small @ splay_list big"
    using splay.join_index [OF c(4) st(3), of nsize] unfolding st(2) c(8,9) by auto
  have j2: "splay_inv (fst (ipc_splay_tree_join (fst (ipc_splay_tree_join big small')) move'))"
    "splay_list (fst (ipc_splay_tree_join (fst (ipc_splay_tree_join big small')) move')) =
      kept @ splay_list small @ splay_list big"
  proof -
    have "\<forall>x\<in>set (splay_list move'). idx (fst x) < sz" using kept mt(2) c(10) by auto
    moreover have "\<forall>x\<in>set (splay_list (fst (ipc_splay_tree_join big small'))). sz \<le> idx (fst x)"
      unfolding j1(2) c(8,9) using k(2) by auto
    ultimately show "splay_inv (fst (ipc_splay_tree_join (fst (ipc_splay_tree_join big small')) move'))"
      "splay_list (fst (ipc_splay_tree_join (fst (ipc_splay_tree_join big small')) move')) =
      kept @ splay_list small @ splay_list big"
      using splay.join_index [OF j1(1) mt(3)] unfolding mt(2) j1(2) by blast+
  qed
  have j3: "splay_inv tree'" "splay_list tree' = splay_list ign @ kept @ splay_list small @ splay_list big"
  proof -
    have "\<forall>x\<in>set (splay_list ign). idx (fst x) < length t0" unfolding c(11) by auto
    moreover have "\<forall>x\<in>set (kept @ splay_list small @ splay_list big). length t0 \<le> idx (fst x)"
      using kept k(1,2) unfolding c(8,9,10) by auto
    ultimately show "splay_inv tree'" "splay_list tree' = splay_list ign @ kept @ splay_list small @ splay_list big"
      using splay.join_index [OF j2(1) c(7)] unfolding tree'_def j2(2) by blast+
  qed
  have sbR: "splay_list small @ splay_list big = ?R"
  proof (rule strict_keys_unique)
    show "strict_keys (splay_list small @ splay_list big)" using j1 by (simp add: splay_inv_def)
    show "strict_keys ?R" by (rule strict_keys_filter [OF sk])
    show "set (splay_list small @ splay_list big) = set ?R" unfolding set_append c(8,9) using k(2) by auto
  qed
  have ktr: "\<forall>x\<in>set kept. length t0 \<le> idx (fst x) \<and> idx (fst x) < sz" using kept unfolding c(10) by auto
  have fR: "filter (\<lambda>x. idx (fst x) < m) ?R = []" if "m \<le> sz" for m
    using that by (auto simp: filter_empty_conv)
  have fR2: "filter (\<lambda>x. sz \<le> idx (fst x)) ?R = ?R" by simp
  have fk: "filter (\<lambda>x. idx (fst x) < length t0) kept = []" "filter (\<lambda>x. idx (fst x) < sz) kept = kept"
    "filter (\<lambda>x. sz \<le> idx (fst x)) kept = []" using ktr by (auto simp: filter_empty_conv intro!: filter_True)
  have fi: "filter (\<lambda>x. idx (fst x) < length t0) (splay_list ign) = splay_list ign"
    "filter (\<lambda>x. idx (fst x) < sz) (splay_list ign) = splay_list ign"
    "filter (\<lambda>x. sz \<le> idx (fst x)) (splay_list ign) = []"
  proof -
    have "\<forall>x\<in>set (splay_list ign). idx (fst x) < length t0" unfolding c(11) by auto
    then show "filter (\<lambda>x. idx (fst x) < length t0) (splay_list ign) = splay_list ign"
      "filter (\<lambda>x. idx (fst x) < sz) (splay_list ign) = splay_list ign"
      "filter (\<lambda>x. sz \<le> idx (fst x)) (splay_list ign) = []"
      using k(1) by (auto simp: filter_empty_conv intro!: filter_True)
  qed
  have f1: "filter (\<lambda>x. idx (fst x) < length t0) (splay_list tree') = filter (\<lambda>x. idx (fst x) < length t0) ?xs"
    unfolding j3(2) sbR filter_append fR [OF k(1)] fk fi by (simp add: c(11))
  have f2: "filter (\<lambda>x. idx (fst x) < sz) (splay_list tree') = splay_list ign @ kept"
    unfolding j3(2) sbR filter_append fR [OF order_refl] fk fi by simp
  have f3: "filter (\<lambda>x. sz \<le> idx (fst x)) (splay_list tree') = ?R"
    unfolding j3(2) sbR filter_append fR2 fk fi by simp
  let ?s' = "s\<lparr>is_table := t', is_tree_hash := c', is_tree_total := k', is_tree_small := card ?S, is_tree := tree'\<rparr>"
  have r: "grow_tree (length t0) sz nsize (s, g) = Some (?s', g')"
    using True by (simp add: grow_tree_def c(1-3) mt(1) st(1) tree'_def)
  have sub: "set (splay_list tree') \<subseteq> set ?xs"
    using kept unfolding j3(2) sbR set_append c(10,11) by auto
  have ok': "tree_ok tree' {}" using ok sub j3(1) by (auto simp: tree_ok_def)
  have m3: "mid t0 sz M ?s' g' (filter (\<lambda>x. idx (fst x) < sz) (splay_list tree')) []
      (filter (\<lambda>x. sz \<le> idx (fst x)) (splay_list tree'))"
    unfolding f2 f3 using m2 mid_cong [of ?s' "?s1\<lparr>is_table := t', is_tree_hash := c', is_tree_total := k'\<rparr>"] by simp
  have "?S = small_set sz nsize (splay_map tree')"
  proof -
    have "i \<in> small_set sz nsize (splay_map tree') \<longleftrightarrow> i \<in> ?S" for i
    proof
      assume "i \<in> small_set sz nsize (splay_map tree')"
      then obtain x where x: "x \<in> set (splay_list tree')" "idx (fst x) = i" "sz \<le> i" "i < nsize"
        unfolding small_set_def dom_splay_map by auto
      then have "x \<in> set (splay_list small)" using sub unfolding c(9) by auto
      with x(2) show "i \<in> ?S" by blast
    next
      assume "i \<in> ?S"
      then obtain x where x: "x \<in> set (splay_list small)" "idx (fst x) = i" by blast
      then have "sz \<le> i" "i < nsize" unfolding c(9) by auto
      moreover have "fst x \<in> fst ` set (splay_list tree')" using x(1) unfolding j3(2) by auto
      ultimately show "i \<in> small_set sz nsize (splay_map tree')"
        using x(2) unfolding small_set_def dom_splay_map by blast
    qed
    then show ?thesis by blast
  qed
  then have "card ?S = card (small_set sz nsize (splay_map tree'))" by simp
  from that [OF r ok' f1 m3 this] show thesis .
qed

end
