(* ===== verification/Ipc_Entry_Ops.thy ===== *)
theory Ipc_Entry_Ops
  imports Ipc_Entry_Install
begin

section \<open>The operations on entries keep the invariant\<close>

subsection \<open>Installing\<close>

lemma grow_sizes:
  assumes "size_ok s" and "is_table_next s < 127"
  shows "is_table_size s < its_size (is_table_next s)"
    and "its_size (is_table_next s) \<le> its_size (is_table_next s + 1)"
    and "its_size (is_table_next s + 1) < 2 ^ 24"
proof -
  let ?k = "is_table_next s"
  from assms have k: "1 \<le> ?k" "is_table_size s = its_size (?k - 1)" by (auto simp: size_ok_def)
  show "is_table_size s < its_size ?k"
    unfolding k(2) using k(1) assms(2) by (intro entries.increasing) auto
  show "its_size ?k \<le> its_size (?k + 1)"
  proof (cases "?k + 1 < 127")
    case True
    then show ?thesis by (intro less_imp_le entries.increasing) auto
  next
    case False
    with assms(2) have "?k = 126" by simp
    then show ?thesis using its_size_last by simp
  qed
  have "its_size (?k + 1) \<le> 1893376" using assms(2) by (intro its_size_bound) simp
  then show "its_size (?k + 1) < 2 ^ 24" by simp
qed

lemma list_three_pieces:
  assumes sk: "strict_keys xs" and ab: "a \<le> b"
  shows "filter (\<lambda>x. idx (fst x) < a) xs @ filter (\<lambda>x. a \<le> idx (fst x) \<and> idx (fst x) < b) xs @
    filter (\<lambda>x. b \<le> idx (fst x)) xs = xs"
proof (rule strict_keys_unique [OF _ sk])
  have "fst x < fst y" if "idx (fst x) < idx (fst y)" for x y :: "mach_port_t \<times> 'a"
    using idx_mono [of "fst y" "fst x"] that by (auto simp: not_le [symmetric])
  then show "strict_keys (filter (\<lambda>x. idx (fst x) < a) xs @
      filter (\<lambda>x. a \<le> idx (fst x) \<and> idx (fst x) < b) xs @ filter (\<lambda>x. b \<le> idx (fst x)) xs)"
    using strict_keys_filter [OF sk] ab by (auto intro: less_le_trans)
qed (use ab in auto)

lemma mid_start:
  assumes inv: "space_inv s g {}" and cp: "copied (is_table s) sz t1" and sz: "is_table_size s \<le> sz" "sz < 2 ^ 24"
  shows "mid (is_table s) sz (space_map s {}) (s\<lparr>is_table := t1, is_table_next := k\<rparr>) g
    (filter (\<lambda>x. idx (fst x) < is_table_size s) (splay_list (is_tree s)))
    (filter (\<lambda>x. is_table_size s \<le> idx (fst x) \<and> idx (fst x) < sz) (splay_list (is_tree s)))
    (filter (\<lambda>x. sz \<le> idx (fst x)) (splay_list (is_tree s)))"
proof -
  let ?t = "is_table s" and ?T = "splay_map (is_tree s)"
  note I = space_invD [OF inv]
  note pieces = list_three_pieces [OF tree_okD(5) [OF I(5)] sz(1)]
  from cp have len: "length t1 = sz" and h: "hash_inv t1 (send_ix t1 {})"
    and old: "\<And>i. i < length ?t \<Longrightarrow> ie_bits (t1 ! i) = ie_bits (?t ! i) \<and> ie_object (t1 ! i) = ie_object (?t ! i) \<and>
        ie_request (t1 ! i) = ie_request (?t ! i)"
    and new: "\<And>i. length ?t \<le> i \<Longrightarrow> i < sz \<Longrightarrow> ie_bits (t1 ! i) = 0 \<and> ie_object (t1 ! i) = IO_NULL"
    by (auto simp: copied_def)
  show ?thesis
  proof (rule midI, unfold pieces)
    show "length (is_table (s\<lparr>is_table := t1, is_table_next := k\<rparr>)) = sz" using len by simp
    show "0 < length ?t" using size_ok_bounds(1) [OF I(1)] by linarith
    have rv: "gh_inv g" "gh_of (is_addr s) g = tree_sends ?T {}" "finite (tree_sends ?T {})"
      "is_tree_hash s = card (tree_sends ?T {})" using I(8) by (auto simp: rev_ok_def)
    show "rev_ok (is_addr (s\<lparr>is_table := t1, is_table_next := k\<rparr>)) (is_table (s\<lparr>is_table := t1, is_table_next := k\<rparr>))
        (map_of (splay_list (is_tree s))) (is_tree_hash (s\<lparr>is_table := t1, is_table_next := k\<rparr>)) g {}"
      using h rv by (simp add: rev_ok_def splay_map_def)
    have "names_map t1 ?T {} n = names_map ?t ?T {} n" for n
    proof (cases "idx n < length ?t")
      case True
      have "agree ?t t1 (idx n)" using old [OF True] by (simp add: agree_def)
      from agree_sel [OF this] old [OF True] True sz(1) len show ?thesis
        by (simp add: names_map_def used_def)
    next
      case False
      then have "\<not> used t1 {} (idx n)" using new [of "idx n"] len by (auto simp: used_def)
      moreover have "\<not> used ?t {} (idx n)" using False by (simp add: used_def)
      ultimately show ?thesis by (simp add: names_map_def)
    qed
    then show "names_map (is_table (s\<lparr>is_table := t1, is_table_next := k\<rparr>)) (map_of (splay_list (is_tree s))) {} = space_map s {}"
      by (auto simp: space_map_def splay_map_def)
    show "if ie_bits (is_table (s\<lparr>is_table := t1, is_table_next := k\<rparr>) ! i) = 0
         then ie_object (is_table (s\<lparr>is_table := t1, is_table_next := k\<rparr>) ! i) = IO_NULL \<and>
           (\<forall>x\<in>set (filter (\<lambda>x. idx (fst x) < is_table_size s) (splay_list (is_tree s))). idx (fst x) \<noteq> i)
         else ie_type (is_table (s\<lparr>is_table := t1, is_table_next := k\<rparr>) ! i) \<noteq> 0 \<and>
           (bit (ie_bits (is_table (s\<lparr>is_table := t1, is_table_next := k\<rparr>) ! i)) 23 \<longleftrightarrow>
             (\<exists>x\<in>set (filter (\<lambda>x. idx (fst x) < is_table_size s) (splay_list (is_tree s))). idx (fst x) = i)) \<and>
           (\<forall>x\<in>set (splay_list (is_tree s)). idx (fst x) = i \<longrightarrow>
              ie_gen (is_table (s\<lparr>is_table := t1, is_table_next := k\<rparr>) ! i) \<noteq> MACH_PORT_GEN (fst x))"
      if "length ?t \<le> i" "i < sz" for i
      using new [OF that] that(1) by auto
    show "is_tree_total (s\<lparr>is_table := t1, is_table_next := k\<rparr>) = length (splay_list (is_tree s))"
      using I(6) by simp
  qed (use old sz in auto)
qed

text \<open>The table after the new part went on the free list.\<close>

definition freed :: "ipc_entry list \<Rightarrow> ipc_entry list \<Rightarrow> nat \<Rightarrow> bool" where
  "freed t t' osize \<longleftrightarrow> length t' = length t \<and>
     (\<forall>j. ie_object (t' ! j) = ie_object (t ! j) \<and> slot t' j = slot t j \<and>
        ie_bits (t' ! j) = (if osize \<le> j \<and> j < length t \<and> ie_bits (t ! j) = 0 then IE_BITS_GEN_MASK else ie_bits (t ! j)) \<and>
        (j \<noteq> 0 \<longrightarrow> (j < osize \<or> ie_bits (t ! j) \<noteq> 0) \<longrightarrow> ie_request (t' ! j) = ie_request (t ! j)))"

lemma freedD:
  assumes "freed t t' osize"
  shows "length t' = length t" "ie_object (t' ! j) = ie_object (t ! j)" "slot t' j = slot t j"
    "ie_bits (t' ! j) = (if osize \<le> j \<and> j < length t \<and> ie_bits (t ! j) = 0 then IE_BITS_GEN_MASK else ie_bits (t ! j))"
    "j \<noteq> 0 \<Longrightarrow> j < osize \<or> ie_bits (t ! j) \<noteq> 0 \<Longrightarrow> ie_request (t' ! j) = ie_request (t ! j)"
  using assms unfolding freed_def by blast+

lemma type_GEN_MASK [simp]: "IE_BITS_TYPE IE_BITS_GEN_MASK = 0" "IE_BITS_GEN IE_BITS_GEN_MASK = IE_BITS_GEN_MASK"
  using gen_bits_sel(1) [OF gen_bits_GEN_MASK] gen_bits_GEN_MASK by (auto simp: gen_bits_def)

lemma freed_type: "freed t t' osize \<Longrightarrow> ie_type (t' ! j) = ie_type (t ! j)"
  using freedD(4) [of t t' osize j] by simp

lemma freed_used: "freed t t' osize \<Longrightarrow> used t' {} j = used t {} j"
  by (simp add: used_def freedD(1) freed_type)

lemma freed_map:
  assumes f: "freed t t' osize"
  shows "names_map t' T {} = names_map t T {}"
proof
  fix n
  show "names_map t' T {} n = names_map t T {} n"
  proof (cases "used t {} (idx n)")
    case True
    then have u: "idx n \<noteq> 0" "ie_type (t ! idx n) \<noteq> 0" by (auto simp: used_def)
    then have "ie_bits (t ! idx n) \<noteq> 0" by auto
    with freedD(2,4,5) [OF f, of "idx n"] u(1) have "ie_bits (t' ! idx n) = ie_bits (t ! idx n)"
      "ie_object (t' ! idx n) = ie_object (t ! idx n)" "ie_request (t' ! idx n) = ie_request (t ! idx n)" by auto
    with True freed_used [OF f] show ?thesis by (simp add: names_map_def view_def)
  next
    case False
    with freed_used [OF f] show ?thesis by (simp add: names_map_def)
  qed
qed

lemma grow_free_install:
  assumes len: "length t = sz" and o: "0 < osize" "osize \<le> sz"
    and F: "free_chain t 0 F" "distinct F" "set F \<subseteq> {0<..<osize}"
    and g: "grow_free (rev [osize..<sz]) (ie_next (t ! 0)) t = (f', t3)"
  shows "freed t (entry_upd 0 (\<lambda>e. e\<lparr>ie_request := f'\<rparr>) t3) osize"
    and "free_chain (entry_upd 0 (\<lambda>e. e\<lparr>ie_request := f'\<rparr>) t3) 0 (filter (\<lambda>i. ie_bits (t ! i) = 0) [osize..<sz] @ F)"
    and "distinct (filter (\<lambda>i. ie_bits (t ! i) = 0) [osize..<sz] @ F)"
proof -
  let ?t4 = "entry_upd 0 (\<lambda>e. e\<lparr>ie_request := f'\<rparr>) t3"
  let ?F = "filter (\<lambda>i. ie_bits (t ! i) = 0) [osize..<sz] @ F"
  have d: "distinct (rev [osize..<sz] @ F)" using F(2,3) by auto
  have "chain_from t (ie_next (t ! 0)) F" using F(1) by (simp add: free_chain_from)
  from grow_free_spec [OF this d _ g] o len
  have s: "chain_from t3 f' (rev (filter (\<lambda>i. ie_bits (t ! i) = 0) (rev [osize..<sz])) @ F)" "length t3 = length t"
    "\<And>j. if j \<in> set (rev [osize..<sz]) \<and> ie_bits (t ! j) = 0
         then ie_bits (t3 ! j) = IE_BITS_GEN_MASK \<and> ie_object (t3 ! j) = ie_object (t ! j) \<and> slot t3 j = slot t j
         else t3 ! j = t ! j" by auto
  have t4: "?t4 ! j = (if j = 0 then (t3 ! 0)\<lparr>ie_request := f'\<rparr> else t3 ! j)" for j
    using s(2) len o by simp
  show "freed t ?t4 osize"
    unfolding freed_def
  proof (intro conjI allI)
    fix j
    show "ie_object (?t4 ! j) = ie_object (t ! j)" "slot ?t4 j = slot t j"
      unfolding t4 using s(3) [of j] by (auto split: if_splits)
    show "ie_bits (?t4 ! j) = (if osize \<le> j \<and> j < length t \<and> ie_bits (t ! j) = 0 then IE_BITS_GEN_MASK else ie_bits (t ! j))"
      unfolding t4 using s(3) [of j] len by (auto split: if_splits)
    show "j \<noteq> 0 \<longrightarrow> j < osize \<or> ie_bits (t ! j) \<noteq> 0 \<longrightarrow> ie_request (?t4 ! j) = ie_request (t ! j)"
      unfolding t4 using s(3) [of j] by (auto split: if_splits)
  qed (simp add: s(2))
  have n0: "j \<noteq> 0" if "j \<in> set ?F" for j using that F(3) o(1) by auto
  have "chain_from ?t4 f' ?F = chain_from t3 f' ?F"
  proof (rule chain_from_cong)
    fix j assume "j \<in> set ?F"
    from n0 [OF this] show "ie_next (?t4 ! j) = ie_next (t3 ! j)" unfolding t4 by simp
  qed
  moreover have "ie_next (?t4 ! 0) = f'" unfolding t4 by simp
  ultimately show "free_chain ?t4 0 ?F" using s(1) by (simp add: free_chain_from rev_filter)
  show "distinct ?F" using d by auto
qed

lemma grow_install_spec:
  assumes inv: "space_inv s g {}" and next_lt: "is_table_next s < 127"
  obtains s' g' where "grow_install (is_table_next s) (s, g) = Some (s', g')"
    and "space_inv s' g' {}" and "space_map s' {} = space_map s {}"
    and "is_active s' = is_active s" and "is_table_next s' = is_table_next s + 1" and "is_growing s' = is_growing s"
proof -
  let ?t = "is_table s" and ?k = "is_table_next s"
  let ?osize = "length ?t" and ?sz = "its_size ?k" and ?nsize = "its_size (?k + 1)"
  note I = space_invD [OF inv]
  note gs = grow_sizes [OF I(1) next_lt]
  have le: "?osize \<le> ?sz" "?sz < 2 ^ 24" using gs by auto
  have o1: "1 < ?osize" by (rule size_ok_bounds [OF I(1)])
  then have ne: "?t \<noteq> []" by auto
  from grow_copy_rehash [OF le(1) ne head_ok_sel(1) [OF I(2)]] obtain t1 where
    t1: "grow_rehash [0..<?osize] (grow_copy ?sz ?t) = Some t1" "copied ?t ?sz t1" .
  let ?s1 = "s\<lparr>is_table := t1, is_table_next := ?k + 1\<rparr>"
  have m1: "mid ?t ?sz (space_map s {}) ?s1 g
    (filter (\<lambda>x. idx (fst x) < ?osize) (splay_list (is_tree ?s1)))
    (filter (\<lambda>x. ?osize \<le> idx (fst x) \<and> idx (fst x) < ?sz) (splay_list (is_tree ?s1)))
    (filter (\<lambda>x. ?sz \<le> idx (fst x)) (splay_list (is_tree ?s1)))"
    using mid_start [OF inv t1(2) le] by simp
  have ok1: "tree_ok (is_tree ?s1) {}" using I(5) by simp
  have tot1: "is_tree_total ?s1 = length (splay_list (is_tree ?s1))" using I(6) by simp
  have emp1: "is_tree_small ?s1 = 0" if "is_tree_total ?s1 = 0"
    using that I(6,7) by (simp add: splay_map_def small_set_def)
  from grow_tree_spec [OF ok1 le(1) gs(2,3) m1 tot1 emp1]
  obtain t2 c2 k2 n2 tree2 g2 where
    gt: "grow_tree ?osize ?sz ?nsize (?s1, g) = Some (?s1\<lparr>is_table := t2, is_tree_hash := c2,
      is_tree_total := k2, is_tree_small := n2, is_tree := tree2\<rparr>, g2)" and
    ok2: "tree_ok tree2 {}" and
    low2': "filter (\<lambda>x. idx (fst x) < ?osize) (splay_list tree2) =
      filter (\<lambda>x. idx (fst x) < ?osize) (splay_list (is_tree ?s1))" and
    m2: "mid ?t ?sz (space_map s {}) (?s1\<lparr>is_table := t2, is_tree_hash := c2,
      is_tree_total := k2, is_tree_small := n2, is_tree := tree2\<rparr>) g2
      (filter (\<lambda>x. idx (fst x) < ?sz) (splay_list tree2)) [] (filter (\<lambda>x. ?sz \<le> idx (fst x)) (splay_list tree2))" and
    n2: "n2 = card (small_set ?sz ?nsize (splay_map tree2))" .
  have low2: "filter (\<lambda>x. idx (fst x) < ?osize) (splay_list tree2) =
      filter (\<lambda>x. idx (fst x) < ?osize) (splay_list (is_tree s))" using low2' by simp
  let ?T2 = "splay_map tree2"
  have all2: "filter (\<lambda>x. idx (fst x) < ?sz) (splay_list tree2) @ [] @ filter (\<lambda>x. ?sz \<le> idx (fst x)) (splay_list tree2) = splay_list tree2"
    using list_three_pieces [OF tree_okD(5) [OF ok2] order_refl, of ?sz] by simp
  note D = midD [OF m2, unfolded all2]
  have len2: "length t2 = ?sz" using D(1) by simp
  have old2: "ie_bits (t2 ! i) = ie_bits (?t ! i)" "ie_object (t2 ! i) = ie_object (?t ! i)"
    "ie_request (t2 ! i) = ie_request (?t ! i)" if "i < ?osize" for i using D(5) [OF that] by auto
  have new2: "if ie_bits (t2 ! i) = 0 then ie_object (t2 ! i) = IO_NULL \<and> \<not> (\<exists>n\<in>dom ?T2. idx n = i)
      else ie_type (t2 ! i) \<noteq> 0 \<and> (bit (ie_bits (t2 ! i)) 23 \<longleftrightarrow> (\<exists>n\<in>dom ?T2. idx n = i)) \<and>
        (\<forall>n\<in>dom ?T2. idx n = i \<longrightarrow> ie_gen (t2 ! i) \<noteq> MACH_PORT_GEN n)"
    if i: "?osize \<le> i" "i < ?sz" for i
  proof -
    have "(\<exists>x\<in>set (filter (\<lambda>x. idx (fst x) < ?sz) (splay_list tree2)). idx (fst x) = i) \<longleftrightarrow> (\<exists>n\<in>dom ?T2. idx n = i)"
      using i(2) unfolding dom_splay_map by (auto intro: bexI [rotated])
    moreover have "(\<forall>x\<in>set (splay_list tree2). idx (fst x) = i \<longrightarrow> ie_gen (t2 ! i) \<noteq> MACH_PORT_GEN (fst x)) \<longleftrightarrow>
        (\<forall>n\<in>dom ?T2. idx n = i \<longrightarrow> ie_gen (t2 ! i) \<noteq> MACH_PORT_GEN n)"
      unfolding dom_splay_map by auto
    ultimately show ?thesis using D(6) [OF i] by (simp split: if_splits) blast
  qed
  from I(3) obtain F where F: "free_ok ?t {} F" ..
  then have Fs: "free_chain ?t 0 F" "distinct F" "set F = {j. 0 < j \<and> j < ?osize \<and> \<not> used ?t {} j}"
    by (auto simp: free_ok_def)
  have F2: "free_chain t2 0 F"
  proof -
    have "free_chain t2 0 F = free_chain ?t 0 F"
    proof (rule free_chain_cong)
      fix j assume "j \<in> insert 0 (set F)"
      then have "j < ?osize" unfolding Fs(3) using o1 by auto
      then show "ie_next (t2 ! j) = ie_next (?t ! j)" by (rule old2)
    qed
    with Fs(1) show ?thesis by simp
  qed
  obtain f' t3 where gf: "grow_free (rev [?osize..<?sz]) (ie_next (t2 ! 0)) t2 = (f', t3)" by fastforce
  define t4 where "t4 = entry_upd 0 (\<lambda>e. e\<lparr>ie_request := f'\<rparr>) t3"
  let ?F = "filter (\<lambda>i. ie_bits (t2 ! i) = 0) [?osize..<?sz] @ F"
  have o0: "0 < ?osize" and sF: "set F \<subseteq> {0<..<?osize}" using o1 unfolding Fs(3) by auto
  note fi = grow_free_install [OF len2 o0 le(1) F2 Fs(2) sF gf, folded t4_def]
  note f4 = freedD [OF fi(1)]
  have len4: "length t4 = ?sz" using f4(1) len2 by simp
  let ?s' = "s\<lparr>is_table := t4, is_table_next := ?k + 1, is_tree_hash := c2,
      is_tree_total := k2, is_tree_small := n2, is_tree := tree2\<rparr>"
  have r: "grow_install ?k (s, g) = Some (?s', g2)"
    using gt gf by (simp add: grow_install_def t1(1) t4_def)
  have M: "space_map ?s' {} = space_map s {}"
    using freed_map [OF fi(1), of ?T2] D(8) by (simp add: space_map_def splay_map_def)
  have used2: "used t2 {} j \<longleftrightarrow> (if j < ?osize then used ?t {} j else j < ?sz \<and> ie_bits (t2 ! j) \<noteq> 0)" for j
  proof (cases "j < ?osize")
    case True
    with old2(1) [OF True] le len2 show ?thesis by (simp add: used_def)
  next
    case False
    then have "0 < j" using o1 by simp
    with False new2 [of j] len2 show ?thesis by (auto simp: used_def)
  qed
  have low: "(\<exists>n\<in>dom ?T2. idx n = i) \<longleftrightarrow> (\<exists>n\<in>dom (splay_map (is_tree s)). idx n = i)" if "i < ?osize" for i
  proof -
    have "n \<in> dom ?T2 \<longleftrightarrow> n \<in> dom (splay_map (is_tree s))" if "idx n = i" for n
    proof -
      have "n \<in> dom (splay_map t) \<longleftrightarrow> n \<in> fst ` set (filter (\<lambda>x. idx (fst x) < ?osize) (splay_list t))" for t :: "ipc_entry ipc_splay_tree"
        using \<open>i < ?osize\<close> that unfolding dom_splay_map by auto
      with low2 show ?thesis by metis
    qed
    then show ?thesis by blast
  qed
  have "space_inv ?s' g2 {}"
  proof (rule space_invI [where F = ?F])
    show "size_ok ?s'" using I(1) next_lt len4 by (simp add: size_ok_def)
    have "ie_bits (t4 ! 0) = ie_bits (?t ! 0)" "ie_object (t4 ! 0) = ie_object (?t ! 0)"
      using f4(2,4) [of 0] old2 [OF o0] o1 by auto
    moreover have "t4 \<noteq> []" using len4 le(1) ne by auto
    ultimately show "head_ok (is_table ?s')" using I(2) by (simp add: head_ok_def)
    have setF: "set ?F = {i. 0 < i \<and> i < length t4 \<and> \<not> used t4 {} i}"
    proof -
      have "i \<in> set ?F \<longleftrightarrow> 0 < i \<and> i < ?sz \<and> \<not> used t2 {} i" for i
        unfolding set_append Fs(3) used2 using o1 le(1) by auto
      then show ?thesis unfolding freed_used [OF fi(1)] len4 by auto
    qed
    have "gen_bits (ie_bits (t4 ! i)) \<and> ie_object (t4 ! i) = IO_NULL" if "i \<in> set ?F" for i
    proof (cases "i < ?osize")
      case True
      with that have "i \<in> set F" by auto
      with F f4(2,4) [of i] old2 [OF True] True show ?thesis by (auto simp: free_ok_def)
    next
      case False
      with that sF have "?osize \<le> i" "i < ?sz" "ie_bits (t2 ! i) = 0" by auto
      with new2 [of i] f4(2,4) [of i] len2 show ?thesis by simp
    qed
    with fi(2,3) setF show "free_ok (is_table ?s') {} ?F" by (simp add: free_ok_def)
    have "coll_ok t4 ?T2"
      unfolding coll_ok_def len4
    proof (intro conjI allI impI ballI)
      fix i assume i: "i < ?sz"
      show "bit (ie_bits (t4 ! i)) 23 \<longleftrightarrow> (\<exists>n\<in>dom ?T2. idx n = i)"
      proof (cases "i < ?osize")
        case True
        with coll_ok_bit [OF I(4) True] low [OF True] f4(4) [of i] old2(1) [OF True] show ?thesis by simp
      next
        case False
        then have "?osize \<le> i" by simp
        with new2 [OF this i] f4(4) [of i] i len2 gen_bits_sel(3) [OF gen_bits_GEN_MASK] show ?thesis
          by (auto split: if_splits)
      qed
    next
      fix n assume n: "n \<in> dom ?T2" "idx n < ?sz"
      show "ie_gen (t4 ! idx n) \<noteq> MACH_PORT_GEN n"
      proof (cases "idx n < ?osize")
        case True
        have "n \<in> dom (splay_map (is_tree s))"
        proof -
          have "n \<in> fst ` set (filter (\<lambda>x. idx (fst x) < ?osize) (splay_list tree2))"
            using n(1) True unfolding dom_splay_map by auto
          then show ?thesis unfolding low2 dom_splay_map by auto
        qed
        from coll_ok_gen [OF I(4) this True] f4(4) [of "idx n"] old2(1) [OF True] True show ?thesis by simp
      next
        case False
        then have "?osize \<le> idx n" by simp
        from new2 [OF this n(2)] n(1) f4(4) [of "idx n"] show ?thesis by (auto split: if_splits)
      qed
    qed
    then show "coll_ok (is_table ?s') (splay_map (is_tree ?s'))" by simp
    show "tree_ok (is_tree ?s') {}" using ok2 by simp
    show "is_tree_total ?s' = length (splay_list (is_tree ?s'))" using D(9) by simp
    show "is_tree_small ?s' =
        card (small_set (is_table_size ?s') (its_size (is_table_next ?s')) (splay_map (is_tree ?s')))"
      using n2 len4 by simp
    have "rev_ok (is_addr s) t2 ?T2 c2 g2 {}" using D(7) by (simp add: splay_map_def)
    then have "rev_ok (is_addr s) t4 ?T2 c2 g2 {}"
    proof (rule rev_ok_cong)
      show "length t4 = length t2" using f4(1) .
      show "slot t4 p = slot t2 p" for p using f4(3) .
      show "send_ix t4 {} = send_ix t2 {}" by (simp add: send_ix_def freed_type [OF fi(1)] f4(1))
      show "ie_object (t4 ! i) = ie_object (t2 ! i)" for i using f4(2) .
    qed simp
    then show "rev_ok (is_addr ?s') (is_table ?s') (splay_map (is_tree ?s')) (is_tree_hash ?s') g2 {}" by simp
    show "unique_sends (space_map ?s' {}) {}" unfolding M by (rule I(9))
  qed simp
  from that [OF r this M] show thesis by simp
qed

end
