(* ===== verification/Ipc_Entry_Alloc_Loops.thy ===== *)
theory Ipc_Entry_Alloc_Loops
  imports Ipc_Entry_Ops
begin

section \<open>The loops that grow the table and allocate\<close>

text \<open>
  What the other threads may do in a window where the space is unlocked: as long as the space
  stays alive its invariant holds, nobody else grows a table that somebody is growing, and a
  dead space stays dead.
\<close>

definition ipc_env_ok :: "ipc_env \<Rightarrow> bool" where
  "ipc_env_ok env \<longleftrightarrow>
     (\<forall>w s g s' g'. space_inv s g {} \<longrightarrow> env w (s, g) = (s', g') \<longrightarrow>
        (is_active s' \<longrightarrow> space_inv s' g' {}) \<and>
        (is_growing s \<longrightarrow> is_table_next s' = is_table_next s)) \<and>
     (\<forall>w s g. \<not> is_active s \<longrightarrow> \<not> is_active (fst (env w (s, g))))"

lemma ipc_env_okD:
  assumes "ipc_env_ok env" and "space_inv s g {}" and "env w (s, g) = (s', g')"
  shows "is_active s' \<Longrightarrow> space_inv s' g' {}" and "is_growing s \<Longrightarrow> is_table_next s' = is_table_next s"
  using assms unfolding ipc_env_ok_def by blast+

lemma ipc_env_ok_dead: "ipc_env_ok env \<Longrightarrow> env w (s, g) = (s', g') \<Longrightarrow> \<not> is_active s \<Longrightarrow> \<not> is_active s'"
  unfolding ipc_env_ok_def by (metis fst_conv)

text \<open>Nobody else runs.\<close>

definition quiet :: ipc_env where "quiet w st = st"

lemma space_inv_flags [simp]:
  "space_inv (s\<lparr>is_growing := b\<rparr>) g P = space_inv s g P"
  "space_inv (s\<lparr>is_active := b\<rparr>) g P = space_inv s g P"
  "space_map (s\<lparr>is_growing := b\<rparr>) P = space_map s P"
  by (simp_all add: space_inv_def size_ok_def space_map_def)

lemma quiet_ok: "ipc_env_ok quiet"
  by (auto simp: ipc_env_ok_def quiet_def)

declare ipc_entry_grow_table.simps [simp del]
declare ipc_entry_alloc.simps [simp del]
declare ipc_entry_alloc_name.simps [simp del]

lemmas grow_table_step = ipc_entry_grow_table.simps(2) Let_def

subsection \<open>Growing\<close>

lemma next_cases:
  assumes "size_ok s"
  shows "its_size (is_table_next s - 1) = its_size (is_table_next s) \<longleftrightarrow> is_table_next s = 127"
proof
  assume e: "its_size (is_table_next s - 1) = its_size (is_table_next s)"
  show "is_table_next s = 127"
  proof (rule ccontr)
    assume "is_table_next s \<noteq> 127"
    with assms have "is_table_next s < 127" by (simp add: size_ok_def)
    with grow_sizes(1) [OF assms] assms e show False by (simp add: size_ok_def)
  qed
next
  assume "is_table_next s = 127"
  then show "its_size (is_table_next s - 1) = its_size (is_table_next s)" using its_size_last by simp
qed

text \<open>The loop returns in any environment, and whatever it returns the invariant holds.\<close>

lemma ipc_entry_grow_table_inv:
  assumes env: "ipc_env_ok env" and "space_inv s g {}" and "is_table_next s + rounds > 127"
  shows "\<exists>kr s' g'. ipc_entry_grow_table rounds env avail (s, g) = Some (kr, (s', g')) \<and>
    kr \<in> {KERN_SUCCESS, KERN_NO_SPACE, KERN_RESOURCE_SHORTAGE} \<and> (is_active s' \<longrightarrow> space_inv s' g' {})"
  using assms(2,3)
proof (induction rounds arbitrary: s g)
  case 0
  from space_invD(1) [OF 0(1)] 0(2) show ?case by (simp add: size_ok_def)
next
  case (Suc rounds)
  note inv = Suc.prems(1) and I1 = space_invD(1) [OF Suc.prems(1)]
  let ?its = "is_table_next s"
  show ?case
  proof (cases "is_growing s")
    case True
    obtain s' g' where e: "env Waiting (s, g) = (s', g')" by fastforce
    from ipc_env_okD(1) [OF env inv e] True e show ?thesis by (simp add: grow_table_step)
  next
    case ng: False
    show ?thesis
    proof (cases "?its = 127")
      case True
      with next_cases [OF I1] ng inv show ?thesis by (simp add: grow_table_step)
    next
      case False
      with I1 have lt: "?its < 127" by (simp add: size_ok_def)
      with next_cases [OF I1] have ne: "its_size (?its - 1) \<noteq> its_size ?its" by simp
      obtain s1 g1 where e1: "env Allocating (s\<lparr>is_growing := True\<rparr>, g) = (s1, g1)" by fastforce
      have inv0: "space_inv (s\<lparr>is_growing := True\<rparr>) g {}" using inv by simp
      note E1 = ipc_env_okD [OF env inv0 e1]
      let ?s1 = "s1\<lparr>is_growing := False\<rparr>"
      show ?thesis
      proof (cases "avail ?its \<and> is_active s1")
        case False
        obtain s2 g2 where e2: "env Freeing (?s1, g1) = (s2, g2)" by fastforce
        consider "\<not> avail ?its" | "avail ?its" "\<not> is_active s1" using False by blast
        then show ?thesis
        proof cases
          case 1
          with ng ne e1 E1(1) show ?thesis by (simp add: grow_table_step)
        next
          case 2
          with ipc_env_ok_dead [OF env e2] have "\<not> is_active s2" by simp
          with 2 ng ne e1 e2 show ?thesis by (simp add: grow_table_step)
        qed
      next
        case True
        with E1 have inv1: "space_inv ?s1 g1 {}" and n1: "is_table_next ?s1 = ?its" by auto
        from grow_install_spec [OF inv1] n1 lt obtain s2 g2 where
          gi: "grow_install ?its (?s1, g1) = Some (s2, g2)" and inv2: "space_inv s2 g2 {}" by metis
        obtain s3 g3 where e3: "env Freeing (s2, g2) = (s3, g3)" by fastforce
        note E3 = ipc_env_okD(1) [OF env inv2 e3]
        show ?thesis
        proof (cases "is_active s3 \<and> is_table_next s3 = ?its + 1 \<and> 0 < is_tree_small s3 \<and>
            (its_size (?its + 1) - its_size ?its) * sizeof_ipc_entry < is_tree_small s3 * sizeof_ipc_tree_entry")
          case again: True
          with E3 have inv3: "space_inv s3 g3 {}" by simp
          from again Suc.prems(2) have "127 < is_table_next s3 + rounds" by simp
          from Suc.IH [OF inv3 this] ng ne e1 True gi e3 again show ?thesis
            by (simp add: grow_table_step)
        next
          case stop: False
          then show ?thesis using ng ne e1 True gi e3 E3 by (auto simp: grow_table_step)
        qed
      qed
    qed
  qed
qed

text \<open>Alone, the operation keeps the map, and it fails only at the last size or without memory.\<close>

lemma ipc_entry_grow_table_quiet:
  assumes "space_inv s g {}" and "is_active s" and "\<not> is_growing s" and "is_table_next s + rounds > 127"
  shows "\<exists>kr s' g'. ipc_entry_grow_table rounds quiet avail (s, g) = Some (kr, (s', g')) \<and>
    space_inv s' g' {} \<and> space_map s' {} = space_map s {} \<and> is_active s' \<and> \<not> is_growing s' \<and>
    is_table_next s \<le> is_table_next s' \<and>
    (kr = KERN_SUCCESS \<and> is_table_next s < is_table_next s' \<or>
     kr = KERN_NO_SPACE \<and> is_table_next s' = 127 \<or>
     kr = KERN_RESOURCE_SHORTAGE \<and> (\<exists>its. \<not> avail its)) \<and>
    (kr = KERN_NO_SPACE \<longrightarrow> is_table_next s = 127 \<and> (s', g') = (s, g))"
  using assms
proof (induction rounds arbitrary: s g)
  case 0
  from space_invD(1) [OF 0(1)] 0(4) show ?case by (simp add: size_ok_def)
next
  case (Suc rounds)
  note inv = Suc.prems(1) and I1 = space_invD(1) [OF Suc.prems(1)]
  let ?its = "is_table_next s"
  show ?case
  proof (cases "?its = 127")
    case True
    with next_cases [OF I1] Suc.prems show ?thesis by (simp add: grow_table_step)
  next
    case False
    with I1 have lt: "?its < 127" by (simp add: size_ok_def)
    with next_cases [OF I1] have ne: "its_size (?its - 1) \<noteq> its_size ?its" by simp
    let ?s1 = "s\<lparr>is_growing := False\<rparr>"
    show ?thesis
    proof (cases "avail ?its")
      case na: False
      have "ipc_entry_grow_table (Suc rounds) quiet avail (s, g) = Some (KERN_RESOURCE_SHORTAGE, (?s1, g))"
        using na Suc.prems(3) ne by (simp add: grow_table_step quiet_def)
      moreover have "space_inv ?s1 g {}" "space_map ?s1 {} = space_map s {}" "is_active ?s1"
        using inv Suc.prems(2) by simp_all
      ultimately show ?thesis using na by auto
    next
      case True
      have inv1: "space_inv ?s1 g {}" using inv by simp
      have lt1: "is_table_next ?s1 < 127" using lt by simp
      obtain s2 g2 where gi': "grow_install (is_table_next ?s1) (?s1, g) = Some (s2, g2)"
        and inv2: "space_inv s2 g2 {}" and m2: "space_map s2 {} = space_map ?s1 {}"
        and a2: "is_active s2 = is_active ?s1" "is_table_next s2 = is_table_next ?s1 + 1"
          "is_growing s2 = is_growing ?s1"
        by (rule grow_install_spec [OF inv1 lt1])
      have gi: "grow_install ?its (?s1, g) = Some (s2, g2)" using gi' by simp
      have a3: "is_active s2" "is_table_next s2 = ?its + 1" "\<not> is_growing s2" "space_map s2 {} = space_map s {}"
        using a2 m2 Suc.prems(2) by simp_all
      let ?again = "0 < is_tree_small s2 \<and>
        (its_size (?its + 1) - its_size ?its) * sizeof_ipc_entry < is_tree_small s2 * sizeof_ipc_tree_entry"
      have r: "ipc_entry_grow_table (Suc rounds) quiet avail (s, g) =
          (if ?again then ipc_entry_grow_table rounds quiet avail (s2, g2) else Some (KERN_SUCCESS, (s2, g2)))"
        using True Suc.prems(2,3) ne gi a3 by (simp add: grow_table_step quiet_def)
      show ?thesis
      proof (cases ?again)
        case False
        from r [unfolded if_not_P [OF this]] inv2 a3 show ?thesis by simp
      next
        case again: True
        have "is_table_next s2 \<noteq> 127"
        proof
          assume e: "is_table_next s2 = 127"
          with space_invD(1) [OF inv2] its_size_last have "small_set (is_table_size s2) (its_size (is_table_next s2)) T = {}" for T
            by (auto simp: small_set_def size_ok_def)
          with space_invD(7) [OF inv2] again show False by simp
        qed
        moreover have "127 < is_table_next s2 + rounds" using Suc.prems(4) a3(2) by simp
        from Suc.IH [OF inv2 a3(1,3) this] obtain kr s' g' where
          ih: "ipc_entry_grow_table rounds quiet avail (s2, g2) = Some (kr, (s', g'))"
          "space_inv s' g' {}" "space_map s' {} = space_map s2 {}" "is_active s'" "\<not> is_growing s'"
          "is_table_next s2 \<le> is_table_next s'"
          "kr = KERN_SUCCESS \<and> is_table_next s2 < is_table_next s' \<or>
           kr = KERN_NO_SPACE \<and> is_table_next s' = 127 \<or> kr = KERN_RESOURCE_SHORTAGE \<and> (\<exists>its. \<not> avail its)"
          "kr = KERN_NO_SPACE \<longrightarrow> is_table_next s2 = 127 \<and> (s', g') = (s2, g2)" by blast
        ultimately have "kr \<noteq> KERN_NO_SPACE" by blast
        moreover have "ipc_entry_grow_table (Suc rounds) quiet avail (s, g) = Some (kr, (s', g'))"
          using r [unfolded if_P [OF again]] ih(1) by simp
        moreover have "space_map s' {} = space_map s {}" using ih(3) a3(4) by simp
        moreover have "is_table_next s < is_table_next s'" using ih(6) a3(2) by simp
        ultimately show ?thesis using ih(2,4,5,7) by (metis less_imp_le)
      qed
    qed
  qed
qed

subsection \<open>Allocation of any name\<close>

lemmas alloc_step = ipc_entry_alloc.simps(2) Let_def

lemma grow_rounds_enough: "size_ok s \<Longrightarrow> is_table_next s + grow_rounds > 127"
  by (simp add: size_ok_def grow_rounds_def)

lemma ipc_entry_alloc_inv:
  assumes env: "ipc_env_ok env" and "is_active s \<longrightarrow> space_inv s g {}"
    and "ipc_entry_alloc rounds env avail (s, g) = Some (res, (s', g'))"
  shows "case res of
      Inl kr \<Rightarrow> kr \<in> {KERN_INVALID_TASK, KERN_NO_SPACE, KERN_RESOURCE_SHORTAGE} \<and> (is_active s' \<longrightarrow> space_inv s' g' {})
    | Inr (n, entry) \<Rightarrow> is_active s' \<and> MACH_PORT_VALID n \<and> entry = TableEntry (idx n) \<and>
        space_inv s' g' {n} \<and> space_map s' {n} n = Some empty_cap"
  using assms(2,3)
proof (induction rounds arbitrary: s g)
  case 0
  then show ?case by (simp add: ipc_entry_alloc.simps)
next
  case (Suc rounds)
  show ?case
  proof (cases "is_active s")
    case False
    with Suc.prems(2) show ?thesis by (auto simp: alloc_step)
  next
    case True
    with Suc.prems(1) have inv: "space_inv s g {}" by simp
    from ipc_entry_get_spec [OF inv] consider
      "ipc_entry_get s = (Inl KERN_NO_SPACE, s)"
      | n t' where "ipc_entry_get s = (Inr (n, TableEntry (idx n)), s\<lparr>is_table := t'\<rparr>)" "MACH_PORT_VALID n"
        "space_map (s\<lparr>is_table := t'\<rparr>) {n} = (space_map s {})(n \<mapsto> empty_cap)"
        "space_inv (s\<lparr>is_table := t'\<rparr>) g {n}" by blast
    then show ?thesis
    proof cases
      case 1
      obtain kr s1 g1 where gr: "ipc_entry_grow_table grow_rounds env avail (s, g) = Some (kr, (s1, g1))"
        "kr \<in> {KERN_SUCCESS, KERN_NO_SPACE, KERN_RESOURCE_SHORTAGE}" "is_active s1 \<longrightarrow> space_inv s1 g1 {}"
        using ipc_entry_grow_table_inv [OF env inv grow_rounds_enough [OF space_invD(1) [OF inv]]] by blast
      show ?thesis
      proof (cases "kr = KERN_SUCCESS")
        case T: True
        with Suc.prems(2) True 1 gr(1) have "ipc_entry_alloc rounds env avail (s1, g1) = Some (res, (s', g'))"
          by (simp add: alloc_step)
        from Suc.IH [OF gr(3) this] show ?thesis .
      next
        case False
        with Suc.prems(2) True 1 gr show ?thesis by (auto simp: alloc_step)
      qed
    next
      case 2
      with Suc.prems(2) True show ?thesis by (auto simp: alloc_step)
    qed
  qed
qed

lemma ipc_entry_alloc_quiet:
  assumes "space_inv s g {}" and "is_active s" and "\<not> is_growing s" and "is_table_next s + rounds > 127"
  shows "\<exists>res s' g'. ipc_entry_alloc rounds quiet avail (s, g) = Some (res, (s', g')) \<and> is_active s' \<and>
    (case res of
       Inl kr \<Rightarrow> space_inv s' g' {} \<and> space_map s' {} = space_map s {} \<and>
         (kr = KERN_NO_SPACE \<and> is_table_next s' = 127 \<and> free_ok (is_table s') {} [] \<or>
          kr = KERN_RESOURCE_SHORTAGE \<and> (\<exists>its. \<not> avail its))
     | Inr (n, entry) \<Rightarrow> MACH_PORT_VALID n \<and> entry = TableEntry (idx n) \<and> space_map s {} n = None \<and>
         space_inv s' g' {n} \<and> space_map s' {n} = (space_map s {})(n \<mapsto> empty_cap))"
  using assms
proof (induction rounds arbitrary: s g)
  case 0
  from space_invD(1) [OF 0(1)] 0(4) show ?case by (simp add: size_ok_def)
next
  case (Suc rounds)
  note inv = Suc.prems(1)
  from ipc_entry_get_spec [OF inv] consider
    "ipc_entry_get s = (Inl KERN_NO_SPACE, s)" "free_ok (is_table s) {} []"
    | n t' where "ipc_entry_get s = (Inr (n, TableEntry (idx n)), s\<lparr>is_table := t'\<rparr>)" "MACH_PORT_VALID n"
      "space_map s {} n = None"
      "space_map (s\<lparr>is_table := t'\<rparr>) {n} = (space_map s {})(n \<mapsto> empty_cap)"
      "space_inv (s\<lparr>is_table := t'\<rparr>) g {n}" by blast
  then show ?case
  proof cases
    case 1
    obtain kr s1 g1 where gr: "ipc_entry_grow_table grow_rounds quiet avail (s, g) = Some (kr, (s1, g1))"
      "space_inv s1 g1 {}" "space_map s1 {} = space_map s {}" "is_active s1" "\<not> is_growing s1"
      "kr = KERN_SUCCESS \<and> is_table_next s < is_table_next s1 \<or>
       kr = KERN_NO_SPACE \<and> is_table_next s1 = 127 \<or> kr = KERN_RESOURCE_SHORTAGE \<and> (\<exists>its. \<not> avail its)"
      "kr = KERN_NO_SPACE \<longrightarrow> is_table_next s = 127 \<and> (s1, g1) = (s, g)"
      using ipc_entry_grow_table_quiet [OF Suc.prems(1-3) grow_rounds_enough [OF space_invD(1) [OF inv]], of avail]
      by (elim exE conjE) (rule that, assumption+)
    show ?thesis
    proof (cases "kr = KERN_SUCCESS")
      case T: True
      with gr(6) Suc.prems(4) have "127 < is_table_next s1 + rounds" by auto
      have "ipc_entry_alloc (Suc rounds) quiet avail (s, g) = ipc_entry_alloc rounds quiet avail (s1, g1)"
        using T 1 Suc.prems(2) gr(1) by (simp add: alloc_step)
      with Suc.IH [OF gr(2,4,5) \<open>127 < is_table_next s1 + rounds\<close>] gr(3) show ?thesis by (simp only:)
    next
      case False
      with 1 Suc.prems(2) gr(1) have "ipc_entry_alloc (Suc rounds) quiet avail (s, g) = Some (Inl kr, (s1, g1))"
        by (simp add: alloc_step)
      moreover have "kr = KERN_NO_SPACE \<and> is_table_next s1 = 127 \<and> free_ok (is_table s1) {} [] \<or>
          kr = KERN_RESOURCE_SHORTAGE \<and> (\<exists>its. \<not> avail its)"
      proof (cases "kr = KERN_NO_SPACE")
        case t: True
        with gr(7) have "s1 = s" "is_table_next s = 127" by simp_all
        with t 1(2) show ?thesis by simp
      next
        case f: False
        with gr(6) False show ?thesis by blast
      qed
      ultimately show ?thesis using gr(2-4) by simp
    qed
  next
    case 2
    then have "ipc_entry_alloc (Suc rounds) quiet avail (s, g) =
        Some (Inr (n, TableEntry (idx n)), (s\<lparr>is_table := t'\<rparr>, g))"
      using Suc.prems(2) by (simp add: alloc_step)
    with 2 Suc.prems(2) show ?thesis by simp
  qed
qed

end
