(* ===== verification/Ipc_Space_Init.thy ===== *)
theory Ipc_Space_Init
  imports Ipc_Entry_Alloc_Loops
begin

section \<open>Making a space\<close>

text \<open>
  The part of \<open>ipc_space_create\<close> and \<open>ipc_space_create_special\<close> (\<open>ipc/ipc_space.c\<close>) that sets
  up the structure, and the reference count.  The table is cleared, then every entry gets the
  generation \<open>-1\<close> and a link to the next one; the last one ends the free list.  Entry 0 is the
  head of the list, so the names handed out first are those of index 1 and generation 0.
\<close>

definition table_init :: "nat \<Rightarrow> ipc_entry list" where
  "table_init new_size =
     entry_upd (new_size - 1) (\<lambda>e. e\<lparr>ie_request := 0\<rparr>)
       (map (\<lambda>index. zero_entry\<lparr>ie_bits := IE_BITS_GEN_MASK, ie_request := index + 1\<rparr>) [0..<new_size])"

definition ipc_space_init :: "addr \<Rightarrow> nat \<Rightarrow> ipc_space" where
  "ipc_space_init a initial =
     \<lparr>is_addr = a, is_references = 2, is_active = True, is_growing = False,
      is_table = table_init (its_size initial), is_table_next = initial + 1,
      is_tree = ipc_splay_tree_init raw_splay_tree, is_tree_total = 0, is_tree_small = 0,
      is_tree_hash = 0, is_notify = IO_NULL\<rparr>"

definition ipc_space_create_special :: "ipc_space option \<Rightarrow> kern_return_t + ipc_space" where
  "ipc_space_create_special is_alloc =
     (case is_alloc of
        None \<Rightarrow> Inl KERN_RESOURCE_SHORTAGE
      | Some space \<Rightarrow> Inr (space\<lparr>is_references := 1, is_active := False\<rparr>))"

text \<open>The counts are unsigned words; \<open>None\<close> is the space that was freed.\<close>

definition ipc_space_reference :: "ipc_space \<Rightarrow> ipc_space" where
  "ipc_space_reference s = s\<lparr>is_references := is_references s + 1\<rparr>"

definition ipc_space_release :: "ipc_space \<Rightarrow> ipc_space option" where
  "ipc_space_release s =
     (let s = s\<lparr>is_references := is_references s - 1\<rparr>
      in if is_references s = 0 then None else Some s)"

lemma ipc_space_reference_release:
  "0 < is_references s \<Longrightarrow> ipc_space_release (ipc_space_reference s) = Some s"
  by (simp add: ipc_space_reference_def ipc_space_release_def)

subsection \<open>The new table\<close>

lemma length_table_init [simp]: "length (table_init n) = n"
  by (simp add: table_init_def)

lemma table_init_nth:
  assumes "i < n"
  shows "table_init n ! i =
    zero_entry\<lparr>ie_bits := IE_BITS_GEN_MASK, ie_request := if Suc i = n then 0 else Suc i\<rparr>"
  using assms by (auto simp: table_init_def zero_entry_def)

lemma table_init_sel [simp]:
  assumes "i < n"
  shows "ie_bits (table_init n ! i) = IE_BITS_GEN_MASK" "ie_object (table_init n ! i) = IO_NULL"
    "ie_index (table_init n ! i) = 0" "ie_request (table_init n ! i) = (if Suc i = n then 0 else Suc i)"
  using assms by (simp_all add: table_init_nth zero_entry_def)

lemma free_chain_init: "i < n \<Longrightarrow> free_chain (table_init n) i [Suc i..<n]"
proof (induction "n - i" arbitrary: i)
  case (Suc k)
  show ?case
  proof (cases "Suc i = n")
    case False
    then have "[Suc i..<n] = Suc i # [Suc (Suc i)..<n]" using Suc.prems by (simp add: upt_conv_Cons)
    with Suc.hyps(1) [of "Suc i"] Suc.hyps(2) Suc.prems False show ?thesis by simp
  qed (use Suc.prems in simp)
qed simp

lemma not_used_init: "\<not> used (table_init n) {} i"
  by (auto simp: used_def)

lemma free_ok_init: "0 < n \<Longrightarrow> free_ok (table_init n) {} [1..<n]"
  using free_chain_init [of 0 n] by (auto simp: free_ok_def not_used_init)

subsection \<open>The new space\<close>

lemma splay_map_init [simp]: "splay_map (ipc_splay_tree_init s) = Map.empty"
  by (simp add: splay_map_def)

lemma ipc_space_init_inv:
  assumes "initial < 127" and "gh_inv g" and "gh_of a g = {}"
  shows "space_inv (ipc_space_init a initial) g {}"
    and "space_map (ipc_space_init a initial) {} = Map.empty"
proof -
  let ?s = "ipc_space_init a initial" and ?n = "its_size initial"
  have n: "1 < ?n" using entries.size_pos assms(1) by blast
  then have n0: "0 < ?n" by simp
  have map0: "space_map ?s {} = Map.empty"
    by (simp add: fun_eq_iff space_map_def names_map_def ipc_space_init_def not_used_init)
  then show "space_map ?s {} = Map.empty" .
  have small: "small_set lo hi Map.empty = {}" for lo hi by (simp add: small_set_def)
  have sends: "send_ix (table_init ?n) {} = {}" by (auto simp: send_ix_def type_defs)
  show "space_inv ?s g {}"
  proof (rule space_invI)
    show "size_ok ?s" using assms(1) by (simp add: size_ok_def ipc_space_init_def)
    have "IE_BITS_GEN_MASK AND NOT IE_BITS_COLLISION = IE_BITS_GEN_MASK"
      by (simp add: IE_BITS_GEN_MASK_def IE_BITS_COLLISION_def)
    then show "head_ok (is_table ?s)" using n0 by (auto simp: head_ok_def ipc_space_init_def simp flip: length_greater_0_conv)
    show "free_ok (is_table ?s) {} [1..<?n]" using free_ok_init [OF n0] by (simp add: ipc_space_init_def)
    have "\<not> bit IE_BITS_GEN_MASK 23" by (rule gen_bits_sel(3)) simp
    then show "coll_ok (is_table ?s) (splay_map (is_tree ?s))" by (simp add: coll_ok_def ipc_space_init_def)
    show "tree_ok (is_tree ?s) {}" by (simp add: tree_ok_def ipc_space_init_def)
    have "hash_inv (table_init ?n) {}" by (simp add: hash_inv_def)
    then show "rev_ok (is_addr ?s) (is_table ?s) (splay_map (is_tree ?s)) (is_tree_hash ?s) g {}"
      using assms(2,3) sends by (simp add: rev_ok_def ipc_space_init_def tree_sends_def)
    show "unique_sends (space_map ?s {}) {}" by (simp add: map0 unique_sends_def)
  qed (simp_all add: ipc_space_init_def small)
qed

end
