(* ===== verification/Ipc_Entry_Alloc_Name.thy ===== *)
theory Ipc_Entry_Alloc_Name
  imports Ipc_Space_Init
begin

section \<open>Allocation of a given name\<close>

text \<open>What \<open>ipc_entry_alloc_name\<close> promises of its result, for a map \<open>M\<close> of names before the call.\<close>

definition alloc_name_ok :: "mach_port_t \<Rightarrow> bool \<Rightarrow> (mach_port_t \<Rightarrow> capability option)
    \<Rightarrow> kern_return_t + ipc_entry_ref \<Rightarrow> ipc_state \<Rightarrow> bool" where
  "alloc_name_ok n short M res = (\<lambda>(s, g). is_active s \<and>
     (case res of
        Inl kr \<Rightarrow> kr = KERN_RESOURCE_SHORTAGE \<and> short \<and> space_inv s g {} \<and> space_map s {} = M
      | Inr entry \<Rightarrow>
          (\<exists>e. entry_at entry s = Some e \<and> M n = Some (view e)) \<and> space_inv s g {} \<and> space_map s {} = M \<or>
          M n = None \<and> space_inv s g {n} \<and> space_map s {n} = M(n \<mapsto> empty_cap) \<and>
          (\<exists>e. entry_at entry s = Some e \<and> view e = empty_cap)))"

lemmas alloc_name_step = ipc_entry_alloc_name.simps(2) Let_def

lemma used_empty: "used t {} i \<longleftrightarrow> 0 < i \<and> i < length t \<and> ie_type (t ! i) \<noteq> 0"
  by (auto simp: used_def)

text \<open>The first case: the table has the name.\<close>

lemma alloc_name_table:
  assumes "space_inv s g {}" and "is_active s" and "0 < idx n" "idx n < is_table_size s"
    and "ie_type (is_table s ! idx n) \<noteq> 0" and "ie_gen (is_table s ! idx n) = MACH_PORT_GEN n"
  shows "alloc_name_ok n b (space_map s {}) (Inr (TableEntry (idx n))) (s, g)"
  using assms by (auto simp: alloc_name_ok_def entry_at_def space_map_def names_map_def used_empty)

text \<open>The third case: the entry of that index is free.\<close>

lemma alloc_name_free:
  assumes inv: "space_inv s g {}" and "is_active s" and f: "0 < idx n" "idx n < is_table_size s"
    and "ie_type (is_table s ! idx n) = 0"
  obtains t' where "rip_entry (idx n) (MACH_PORT_GEN n) (is_table s) = Some t'"
    and "alloc_name_ok n b (space_map s {}) (Inr (TableEntry (idx n))) (s\<lparr>is_table := t'\<rparr>, g)"
proof (rule rip_entry_spec [OF inv f assms(5)])
  fix t'
  assume r: "rip_entry (idx n) (MACH_PORT_GEN n) (is_table s) = Some t'" and n: "space_map s {} n = None"
    and m: "space_map (s\<lparr>is_table := t'\<rparr>) {n} = (space_map s {})(n \<mapsto> empty_cap)"
    and i: "space_inv (s\<lparr>is_table := t'\<rparr>) g {n}"
  have len: "length t' = is_table_size s"
    using r by (auto simp: rip_entry_def Let_def split: bind_splits)
  have g: "ie_gen (t' ! idx n) = MACH_PORT_GEN n"
    using r f(2) by (auto simp: rip_entry_def Let_def split: bind_splits)
  then have "ename t' (idx n) = n" using ename_iff [OF idx_bound, where t = t' and n = n] by simp
  then have "used t' {n} (idx n)" using f len by (simp add: used_def)
  then have "space_map (s\<lparr>is_table := t'\<rparr>) {n} n = Some (view (t' ! idx n))"
    using g by (simp add: space_map_def names_map_def)
  with m have "view (t' ! idx n) = empty_cap" by simp
  with r n m i len f assms(2) show thesis
    by (intro that [OF r]) (simp add: alloc_name_ok_def entry_at_def)
qed simp

text \<open>What is left when the table has no room for the name and the tree does not have it.\<close>

lemma alloc_name_new:
  assumes inv: "space_inv s g {}" and "is_active s" and v: "MACH_PORT_VALID n"
    and T: "splay_map (is_tree s) n = None"
    and slot: "idx n < is_table_size s \<Longrightarrow> ie_gen (is_table s ! idx n) \<noteq> MACH_PORT_GEN n \<and>
      (idx n = 0 \<or> used (is_table s) {} (idx n))"
  shows "alloc_name_ok n b (space_map s {}) (Inr (TreeEntry n)) (alloc_name_insert n s, g)"
  using alloc_name_insert_spec [OF inv v T slot] assms(2)
  by (simp add: alloc_name_ok_def) (simp add: empty_cap_def view_def zero_entry_def)

lemma alloc_name_ok_map: "alloc_name_ok n b M res st \<Longrightarrow> M = M' \<Longrightarrow> alloc_name_ok n b M' res st"
  by simp

text \<open>Every round that does not end grows the table or fetches the tree entry.\<close>

lemma ipc_entry_alloc_name_quiet:
  assumes "space_inv s g {}" and "is_active s" and "\<not> is_growing s" and v: "MACH_PORT_VALID n"
    and nz: "\<not> (idx n = 0 \<and> MACH_PORT_GEN n = IE_BITS_GEN_MASK)"
    and "127 - is_table_next s + (if tree_entry then 0 else 1) < rounds"
  shows "\<exists>res st. ipc_entry_alloc_name rounds quiet avail tavail tree_entry n (s, g) = Some (res, st) \<and>
    alloc_name_ok n ((\<exists>its. \<not> avail its) \<or> \<not> tavail) (space_map s {}) res st"
  using assms(1-3,6)
proof (induction rounds arbitrary: s g tree_entry)
  case (Suc rounds)
  let ?short = "(\<exists>its. \<not> avail its) \<or> \<not> tavail" and ?i = "idx n" and ?t = "is_table s"
  note inv = Suc.prems(1) and act = Suc.prems(2)
  note I = space_invD [OF inv]
  consider (table) "0 < ?i" "?i < is_table_size s" "ie_type (?t ! ?i) \<noteq> 0" "ie_gen (?t ! ?i) = MACH_PORT_GEN n"
    | (free) "0 < ?i" "?i < is_table_size s" "ie_type (?t ! ?i) = 0"
    | (other) "\<not> (0 < ?i \<and> ?i < is_table_size s \<and> ie_type (?t ! ?i) \<noteq> 0 \<and> ie_gen (?t ! ?i) = MACH_PORT_GEN n)"
        "\<not> (0 < ?i \<and> ?i < is_table_size s \<and> ie_type (?t ! ?i) = 0)" by argo
  then show ?case
  proof cases
    case table
    with act have "ipc_entry_alloc_name (Suc rounds) quiet avail tavail tree_entry n (s, g) =
        Some (Inr (TableEntry ?i), (s, g))" by (simp add: alloc_name_step)
    with alloc_name_table [OF inv act table] show ?thesis by blast
  next
    case free
    obtain t' where r: "rip_entry ?i (MACH_PORT_GEN n) ?t = Some t'"
      and ok: "alloc_name_ok n ?short (space_map s {}) (Inr (TableEntry ?i)) (s\<lparr>is_table := t'\<rparr>, g)"
      by (rule alloc_name_free [OF inv act free])
    have "ipc_entry_alloc_name (Suc rounds) quiet avail tavail tree_entry n (s, g) =
        Some (Inr (TableEntry ?i), (s\<lparr>is_table := t'\<rparr>, g))"
      using act free r by (simp add: alloc_name_step)
    with ok show ?thesis by blast
  next
    case other
    define rest where "rest s = (let its = is_table_next s in
            if is_table_size s \<le> ?i \<and> ?i < its_size its \<and>
               (its_size its - is_table_size s) * sizeof_ipc_entry <
               (is_tree_small s + 1) * sizeof_ipc_tree_entry
            then do {
              (kr, st) \<leftarrow> ipc_entry_grow_table grow_rounds quiet avail (s, g);
              if kr \<noteq> KERN_SUCCESS then Some (Inl kr, st)
              else ipc_entry_alloc_name rounds quiet avail tavail tree_entry n st
            }
            else if tree_entry
            then Some (Inr (TreeEntry n), (alloc_name_insert n s, g))
            else if \<not> tavail then Some (Inl KERN_RESOURCE_SHORTAGE, (s, g))
            else ipc_entry_alloc_name rounds quiet avail tavail True n (s, g))" for s
    have step: "ipc_entry_alloc_name (Suc rounds) quiet avail tavail tree_entry n (s, g) =
      (case (if 0 < is_tree_total s then tree_lookup n s else (None, s)) of
         (Some entry, s) \<Rightarrow> Some (Inr entry, (s, g)) | (None, s) \<Rightarrow> rest s)"
    proof -
      obtain found s0 where X: "(if 0 < is_tree_total s then tree_lookup n s else (None, s)) = (found, s0)" by fastforce
      have "ipc_entry_alloc_name (Suc rounds) quiet avail tavail tree_entry n (s, g) =
          (let (found, s) = (if 0 < is_tree_total s then tree_lookup n s else (None, s))
           in case found of Some entry \<Rightarrow> Some (Inr entry, (s, g)) | None \<Rightarrow> rest s)"
        unfolding alloc_name_step prod.case if_not_P [OF other(1)] if_not_P [OF other(2)] rest_def quiet_def
        by (simp only: act not_True_eq_False if_False)
      then show ?thesis unfolding X by (cases found) (simp_all only: Let_def prod.case option.case)
    qed
    obtain s1 where tl: "tree_lookup n s = (if n \<in> dom (splay_map (is_tree s)) then Some (TreeEntry n) else None, s1)"
      and re: "reshaped s s1" by (rule tree_lookup_spec [OF tree_okD(1) [OF I(5)]])
    show ?thesis
    proof (cases "splay_map (is_tree s) n")
      case (Some e)
      then have "splay_list (is_tree s) \<noteq> []" by (auto simp: splay_map_def)
      then have "0 < is_tree_total s" using I(6) by simp
      with step tl Some have r: "ipc_entry_alloc_name (Suc rounds) quiet avail tavail tree_entry n (s, g) =
        Some (Inr (TreeEntry n), (s1, g))" by auto
      have "space_map s {} n = Some (view e)"
        using names_map_tree [OF I(4), of n "{}"] Some by (simp add: space_map_def domI)
      moreover have "entry_at (TreeEntry n) s1 = Some e" using Some by (simp add: entry_at_def reshaped_sel(9) [OF re])
      ultimately have "alloc_name_ok n ?short (space_map s {}) (Inr (TreeEntry n)) (s1, g)"
        using reshaped_inv [OF re inv] reshaped_map [OF re] reshaped_sel(3) [OF re] act by (simp add: alloc_name_ok_def)
      with r show ?thesis by blast
    next
      case None
      obtain s2 where st: "ipc_entry_alloc_name (Suc rounds) quiet avail tavail tree_entry n (s, g) = rest s2"
        and re2: "reshaped s s2"
      proof (cases "0 < is_tree_total s")
        case True
        with step tl None re show ?thesis by (intro that [of s1]) auto
      next
        case False
        with step show ?thesis by (intro that [of s]) (auto intro: reshaped_refl [OF inv])
      qed
      note R = reshaped_sel [OF re2]
      have inv2: "space_inv s2 g {}" and map2: "space_map s2 {} = space_map s {}"
        using reshaped_inv [OF re2 inv] reshaped_map [OF re2] by auto
      have act2: "is_active s2" "\<not> is_growing s2" using R act Suc.prems(3) by simp_all
      let ?grow = "is_table_size s2 \<le> ?i \<and> ?i < its_size (is_table_next s2) \<and>
               (its_size (is_table_next s2) - is_table_size s2) * sizeof_ipc_entry <
               (is_tree_small s2 + 1) * sizeof_ipc_tree_entry"
      consider (grow) ?grow | (insert) "\<not> ?grow" tree_entry | (short) "\<not> ?grow" "\<not> tree_entry" "\<not> tavail"
        | (fetch) "\<not> ?grow" "\<not> tree_entry" tavail by blast
      then show ?thesis
      proof cases
        case grow
        note I2 = space_invD [OF inv2]
        from grow I2(1) have nl: "is_table_next s2 \<noteq> 127" using its_size_last by (auto simp: size_ok_def)
        obtain kr s3 g3 where gr: "ipc_entry_grow_table grow_rounds quiet avail (s2, g) = Some (kr, (s3, g3))"
          "space_inv s3 g3 {}" "space_map s3 {} = space_map s2 {}" "is_active s3" "\<not> is_growing s3"
          "kr = KERN_SUCCESS \<and> is_table_next s2 < is_table_next s3 \<or>
           kr = KERN_NO_SPACE \<and> is_table_next s3 = 127 \<or> kr = KERN_RESOURCE_SHORTAGE \<and> (\<exists>its. \<not> avail its)"
          "kr = KERN_NO_SPACE \<longrightarrow> is_table_next s2 = 127 \<and> (s3, g3) = (s2, g)"
          using ipc_entry_grow_table_quiet [OF inv2 act2 grow_rounds_enough [OF I2(1)], of avail]
          by (elim exE conjE) (rule that, assumption+)
        show ?thesis
        proof (cases "kr = KERN_SUCCESS")
          case True
          with gr(6) have "is_table_next s < is_table_next s3" using R(2) by simp
          then have "127 - is_table_next s3 + (if tree_entry then 0 else 1) < rounds"
            using Suc.prems(4) space_invD(1) [OF gr(2)] by (auto simp: size_ok_def)
          from Suc.IH [OF gr(2,4,5) this] gr(3) map2
          have "\<exists>res st. ipc_entry_alloc_name rounds quiet avail tavail tree_entry n (s3, g3) = Some (res, st) \<and>
            alloc_name_ok n ?short (space_map s {}) res st" by (simp only:)
          moreover have "rest s2 = ipc_entry_alloc_name rounds quiet avail tavail tree_entry n (s3, g3)"
            unfolding rest_def Let_def if_P [OF grow] using gr(1) True by simp
          ultimately show ?thesis using st by (simp only:)
        next
          case False
          with gr(6,7) nl have "kr = KERN_RESOURCE_SHORTAGE" "\<exists>its. \<not> avail its" by auto
          moreover have "rest s2 = Some (Inl kr, (s3, g3))"
            unfolding rest_def Let_def if_P [OF grow] using gr(1) False by simp
          ultimately have "rest s2 = Some (Inl KERN_RESOURCE_SHORTAGE, (s3, g3))"
            "alloc_name_ok n ?short (space_map s {}) (Inl KERN_RESOURCE_SHORTAGE) (s3, g3)"
            using gr(2-4) map2 by (simp_all add: alloc_name_ok_def)
          then show ?thesis unfolding st by blast
        qed
      next
        case insert
        have T2: "splay_map (is_tree s2) n = None" using None R(9) by simp
        have slot: "ie_gen (is_table s2 ! ?i) \<noteq> MACH_PORT_GEN n \<and> (?i = 0 \<or> used (is_table s2) {} ?i)"
          if lt: "?i < is_table_size s2"
        proof (cases "?i = 0")
          case True
          with nz head_ok_sel(2) [OF I(2)] show ?thesis using R(1) by auto
        next
          case False
          with other lt show ?thesis using R(1) by (auto simp: used_empty)
        qed
        have "rest s2 = Some (Inr (TreeEntry n), (alloc_name_insert n s2, g))"
          unfolding rest_def Let_def if_not_P [OF insert(1)] using insert(2) by simp
        moreover have "alloc_name_ok n ?short (space_map s {}) (Inr (TreeEntry n)) (alloc_name_insert n s2, g)"
          using alloc_name_new [OF inv2 act2(1) v T2 slot] map2 by simp
        ultimately show ?thesis unfolding st by blast
      next
        case short
        then have "rest s2 = Some (Inl KERN_RESOURCE_SHORTAGE, (s2, g))"
          unfolding rest_def Let_def if_not_P [OF short(1)] by simp
        moreover have "alloc_name_ok n ?short (space_map s {}) (Inl KERN_RESOURCE_SHORTAGE) (s2, g)"
          using inv2 map2 act2 short by (simp add: alloc_name_ok_def)
        ultimately show ?thesis unfolding st by blast
      next
        case fetch
        then have "127 - is_table_next s2 + (if True then 0 else 1) < rounds" using Suc.prems(4) R(2) by simp
        from Suc.IH [OF inv2 act2 this] map2
        have "\<exists>res st. ipc_entry_alloc_name rounds quiet avail tavail True n (s2, g) = Some (res, st) \<and>
          alloc_name_ok n ?short (space_map s {}) res st" by (simp only:)
        moreover have "rest s2 = ipc_entry_alloc_name rounds quiet avail tavail True n (s2, g)"
          unfolding rest_def Let_def if_not_P [OF fetch(1)] using fetch by simp
        ultimately show ?thesis using st by (simp only:)
      qed
    qed
  qed
qed simp

subsection \<open>The one name that gets lost\<close>

text \<open>
  Entry 0 is never used, but its generation is \<open>-1\<close> and a lookup compares it: the name \<open>0xff\<close>, of
  index 0 and generation \<open>-1\<close>, matches the free entry 0.  \<open>ipc_entry_alloc_name\<close> accepts the name
  and puts it into the tree, where no lookup ever looks for it.
\<close>

lemma lookup_ff:
  assumes "head_ok (is_table s)"
  shows "ipc_entry_lookup 0xff s = (None, s)"
proof -
  note h = head_ok_sel [OF assms]
  have "idx 0xff = 0" "MACH_PORT_GEN 0xff = IE_BITS_GEN_MASK"
    by (simp_all add: MACH_PORT_INDEX_def MACH_PORT_GEN_def IE_BITS_GEN_MASK_def)
  with h show ?thesis by (simp add: ipc_entry_lookup_def Let_def)
qed

lemma head_ok_alloc_name_insert:
  assumes "head_ok (is_table s)"
  shows "head_ok (is_table (entry_store (TreeEntry n) f (alloc_name_insert n s)))"
proof -
  obtain b s1 where c: "ipc_entry_tree_collision n (s\<lparr>is_tree_total := is_tree_total s + 1\<rparr>) = (b, s1)" by fastforce
  have t: "is_table s1 = is_table s"
    using c by (auto simp: ipc_entry_tree_collision_def Let_def split: prod.splits)
  define t' where "t' = (if idx n < is_table_size s
    then entry_upd (idx n) (\<lambda>e. e\<lparr>ie_bits := ie_bits e OR IE_BITS_COLLISION\<rparr>) (is_table s) else is_table s)"
  have e: "is_table (entry_store (TreeEntry n) f (alloc_name_insert n s)) = t'"
    using c t by (simp add: alloc_name_insert_def entry_store_def t'_def Let_def)
  have len: "length t' = is_table_size s" and n0: "t' ! 0 = is_table s ! 0 \<or>
      t' ! 0 = (is_table s ! 0)\<lparr>ie_bits := ie_bits (is_table s ! 0) OR IE_BITS_COLLISION\<rparr>"
    by (auto simp: t'_def)
  have "(b OR IE_BITS_COLLISION) AND NOT IE_BITS_COLLISION = b AND NOT IE_BITS_COLLISION" for b :: u32
    by (intro bit_word_eqI) (auto simp: bit_or_iff bit_and_iff bit_not_iff)
  then show ?thesis using assms len n0 unfolding head_ok_def e by auto
qed

lemma alloc_name_ff:
  assumes inv: "space_inv s g {}" and act: "is_active s"
  obtains s' where
    "ipc_entry_alloc_name (Suc rounds) env avail tavail True 0xff (s, g) = Some (Inr (TreeEntry 0xff), (s', g))"
    and "\<And>f. fst (ipc_entry_lookup 0xff (entry_store (TreeEntry 0xff) f s')) = None"
proof -
  note I = space_invD [OF inv]
  have i0: "idx 0xff = 0" and g0: "MACH_PORT_GEN 0xff = IE_BITS_GEN_MASK"
    by (simp_all add: MACH_PORT_INDEX_def MACH_PORT_GEN_def IE_BITS_GEN_MASK_def)
  have T: "0xff \<notin> dom (splay_map (is_tree s))"
    using I(4) head_ok_sel [OF I(2)] i0 g0 unfolding coll_ok_def by metis
  obtain s1 where tl0: "tree_lookup 0xff s = (if 0xff \<in> dom (splay_map (is_tree s)) then Some (TreeEntry 0xff) else None, s1)"
    and re: "reshaped s s1" by (rule tree_lookup_spec [OF tree_okD(1) [OF I(5)]])
  have tl: "tree_lookup 0xff s = (None, s1)" using tl0 unfolding if_not_P [OF T] .
  have nz: "\<not> is_table_size s' \<le> 0" if "reshaped s s'" for s'
    using head_ok_sel(3) [OF I(2)] reshaped_sel(1) [OF that] by simp
  obtain s2 where s2: "(if 0 < is_tree_total s then tree_lookup 0xff s else (None, s)) = (None, s2)" and r2: "reshaped s s2"
    using tl re reshaped_refl [OF inv] by (cases "0 < is_tree_total s") auto
  have "ipc_entry_alloc_name (Suc rounds) env avail tavail True 0xff (s, g) =
      Some (Inr (TreeEntry 0xff), (alloc_name_insert 0xff s2, g))"
    unfolding alloc_name_step prod.case i0 s2 option.case
    by (simp only: act nz [OF r2] not_True_eq_False if_False less_irrefl simp_thms if_True)
  moreover have "head_ok (is_table s2)" using I(2) reshaped_sel(1) [OF r2] by simp
  from lookup_ff [OF head_ok_alloc_name_insert [OF this]]
  have "fst (ipc_entry_lookup 0xff (entry_store (TreeEntry 0xff) f (alloc_name_insert 0xff s2))) = None" for f
    by (rule arg_cong [of _ _ fst, THEN trans]) simp
  ultimately show thesis by (rule that)
qed

end
