(* ===== verification/Ipc_Entry_Update.thy ===== *)
theory Ipc_Entry_Update
  imports Ipc_Entry_Alloc_Name
begin

section \<open>Changing the right an entry holds\<close>

text \<open>
  The operations on rights (\<open>ipc/ipc_right.c\<close>) store into entries and move them in and out of
  the reverse hash tables.  Here is what such a store does to the map of names.
\<close>

definition ref_of :: "ipc_space \<Rightarrow> mach_port_t \<Rightarrow> ipc_entry_ref" where
  "ref_of s n = (if n \<in> dom (splay_map (is_tree s)) then TreeEntry n else TableEntry (idx n))"

lemma ref_of_reshaped: "reshaped s s' \<Longrightarrow> ref_of s' n = ref_of s n"
  by (simp add: ref_of_def reshaped_sel(9))

lemma cap_cases:
  assumes inv: "space_inv s g P" and c: "space_map s P n = Some c"
  obtains
    (table) "splay_map (is_tree s) n = None" "used (is_table s) P (idx n)"
      "ie_gen (is_table s ! idx n) = MACH_PORT_GEN n" "c = view (is_table s ! idx n)"
      "ref_of s n = TableEntry (idx n)" "ename (is_table s) (idx n) = n"
  | (tree) e where "splay_map (is_tree s) n = Some e" "c = view e" "ref_of s n = TreeEntry n"
      "idx n < is_table_size s \<Longrightarrow> ie_gen (is_table s ! idx n) \<noteq> MACH_PORT_GEN n"
proof (cases "splay_map (is_tree s) n")
  case None
  with c have "used (is_table s) P (idx n)" "ie_gen (is_table s ! idx n) = MACH_PORT_GEN n"
      "c = view (is_table s ! idx n)" by (auto simp: space_map_def names_map_def split: if_splits)
  moreover have "ref_of s n = TableEntry (idx n)" using None by (auto simp: ref_of_def)
  moreover have "ename (is_table s) (idx n) = n"
    by (subst ename_iff [OF idx_bound]) (use \<open>ie_gen (is_table s ! idx n) = MACH_PORT_GEN n\<close> in blast)
  ultimately show ?thesis using None by (intro table)
next
  case (Some e)
  with names_map_tree [OF space_invD(4) [OF inv], of n P] c have "c = view e" by (auto simp: space_map_def)
  moreover have "ie_gen (is_table s ! idx n) \<noteq> MACH_PORT_GEN n" if "idx n < is_table_size s"
    using coll_ok_gen [OF space_invD(4) [OF inv] _ that] Some by blast
  ultimately show ?thesis using Some by (intro tree) (auto simp: ref_of_def)
qed

text \<open>A store that leaves the generation, the collision bit and the hash slot alone.\<close>

definition rewritten :: "ipc_entry \<Rightarrow> ipc_entry \<Rightarrow> bool" where
  "rewritten e e' \<longleftrightarrow> ie_bits e' AND NOT IE_BITS_RIGHT_MASK = ie_bits e AND NOT IE_BITS_RIGHT_MASK \<and>
     ie_index e' = ie_index e"

lemma rewritten_sel:
  assumes "rewritten e e'"
  shows "ie_gen e' = ie_gen e" "bit (ie_bits e') 23 = bit (ie_bits e) 23" "ie_index e' = ie_index e"
    "right_bits (ie_bits e) \<Longrightarrow> right_bits (ie_bits e')"
proof -
  let ?b = "ie_bits e" and ?c = "ie_bits e'"
  from assms have e: "?c AND NOT IE_BITS_RIGHT_MASK = ?b AND NOT IE_BITS_RIGHT_MASK" and "ie_index e' = ie_index e"
    by (auto simp: rewritten_def)
  then show "ie_index e' = ie_index e" by simp
  have hi: "bit ?c i = bit ?b i" if "23 \<le> i" for i
  proof (cases "i < 32")
    case True
    have "bit (?c AND NOT IE_BITS_RIGHT_MASK) i = bit (?b AND NOT IE_BITS_RIGHT_MASK) i" using e by simp
    with True that show ?thesis by (simp add: bit_and_iff bit_not_iff bits_simps)
  next
    case False
    then have "\<not> bit ?c i" "\<not> bit ?b i" using bit_imp_le_length [of ?c i] bit_imp_le_length [of ?b i] by auto
    then show ?thesis by simp
  qed
  show "ie_gen e' = ie_gen e" unfolding IE_BITS_GEN_def
    by (intro bit_word_eqI) (auto simp: bit_and_iff bits_simps hi)
  show "bit ?c 23 = bit ?b 23" by (simp add: hi)
  show "right_bits ?c" if "right_bits ?b" using that hi unfolding right_bits_iff by (metis not_less)
qed

text \<open>The new capability stays what the tables say about it.\<close>

definition send_compatible :: "capability \<Rightarrow> capability \<Rightarrow> bool" where
  "send_compatible = (\<lambda>(b, obj, r) (b', obj', r').
     IE_BITS_TYPE b \<noteq> 0 \<and> IE_BITS_TYPE b' \<noteq> 0 \<and>
     (IE_BITS_TYPE b = MACH_PORT_TYPE_SEND \<longleftrightarrow> IE_BITS_TYPE b' = MACH_PORT_TYPE_SEND) \<and>
     (IE_BITS_TYPE b = MACH_PORT_TYPE_SEND \<longrightarrow> obj' = obj))"

lemma type_view: "IE_BITS_TYPE (fst (view e)) = ie_type e"
  by (auto simp: view_def IE_BITS_TYPE_def bit_and_iff bits_simps intro!: bit_word_eqI)

lemma unique_sends_update:
  assumes "unique_sends M P" and "M n = Some c" and "n \<in> P \<or> send_compatible c c'"
  shows "unique_sends (M(n \<mapsto> c')) P"
  unfolding unique_sends_def
proof (intro allI impI)
  fix m k b d obj r q
  assume a: "(M(n \<mapsto> c')) m = Some (b, obj, r)" "(M(n \<mapsto> c')) k = Some (d, obj, q)" "m \<notin> P" "k \<notin> P"
    "IE_BITS_TYPE b = MACH_PORT_TYPE_SEND" "IE_BITS_TYPE d = MACH_PORT_TYPE_SEND"
  have "\<exists>b r. M x = Some (b, obj, r) \<and> IE_BITS_TYPE b = MACH_PORT_TYPE_SEND"
    if "(M(n \<mapsto> c')) x = Some (b', obj, r')" "x \<notin> P" "IE_BITS_TYPE b' = MACH_PORT_TYPE_SEND" for x b' r'
    using that assms(2,3) by (cases "x = n"; cases c) (auto simp: send_compatible_def)
  from this [OF a(1,3,5)] this [OF a(2,4,6)] a(3,4) assms(1) show "m = k"
    unfolding unique_sends_def by blast
qed

lemma tree_sends_update:
  assumes "T n = Some e" and "n \<in> P \<or> send_compatible (view e) (view e')"
  shows "tree_sends (T(n \<mapsto> e')) P = tree_sends T P"
proof -
  have "ie_type e' = MACH_PORT_TYPE_SEND \<and> ie_object e' = obj \<longleftrightarrow> ie_type e = MACH_PORT_TYPE_SEND \<and> ie_object e = obj"
    if "n \<notin> P" for obj
    using assms(2) that type_view [of e] type_view [of e'] by (auto simp: send_compatible_def view_def)
  then have "p \<in> tree_sends (T(n \<mapsto> e')) P \<longleftrightarrow> p \<in> tree_sends T P" for p
    using assms(1) by (cases p) (auto simp: tree_sends_def)
  then show ?thesis by blast
qed

subsection \<open>In the table\<close>

lemma update_table:
  fixes s :: ipc_space and f :: "ipc_entry \<Rightarrow> ipc_entry"
  defines "t \<equiv> is_table s"
  assumes inv: "space_inv s g P" and u: "used t P (idx n)" and gen: "ie_gen (t ! idx n) = MACH_PORT_GEN n"
    and rw: "rewritten (t ! idx n) (f (t ! idx n))"
    and ok: "n \<in> P \<or> send_compatible (view (t ! idx n)) (view (f (t ! idx n)))"
  shows "space_inv (s\<lparr>is_table := entry_upd (idx n) f t\<rparr>) g P" (is "space_inv ?s' g P")
    and "space_map (s\<lparr>is_table := entry_upd (idx n) f t\<rparr>) P = (space_map s P)(n \<mapsto> view (f (t ! idx n)))"
proof -
  let ?i = "idx n" and ?T = "splay_map (is_tree s)"
  define t' where "t' = entry_upd ?i f t"
  note I = space_invD [OF inv, folded t_def]
  note R = rewritten_sel [OF rw]
  from u have i: "0 < ?i" "?i < length t" by (auto simp: used_def)
  have len: "length t' = length t" by (simp add: t'_def)
  have nth: "t' ! j = (if j = ?i then f (t ! ?i) else t ! j)" for j
    using i(2) by (simp add: t'_def)
  have gens: "ie_gen (t' ! j) = ie_gen (t ! j)" for j by (simp add: nth R(1))
  have en: "ename t' j = ename t j" for j by (simp add: MACH_PORT_MAKEB_def gens)
  have en_n: "ename t ?i = n" by (subst ename_iff [OF idx_bound]) (use gen in blast)
  have slots: "slot t' p = slot t p" for p by (simp add: nth R(3))
  have ty: "n \<in> P \<or> ie_type (f (t ! ?i)) \<noteq> 0"
    using ok type_view [of "f (t ! ?i)"] by (auto simp: send_compatible_def)
  have used: "used t' P j = used t P j" for j
  proof (cases "j = ?i")
    case True
    have "ename t' ?i = n" using en en_n by metis
    moreover have "n \<in> P \<or> ie_type (t' ! ?i) \<noteq> 0" using ty nth [of ?i] by simp
    ultimately have "used t' P ?i" unfolding used_def len using i by metis
    with u True show ?thesis by simp
  next
    case False
    then show ?thesis unfolding used_def len en nth by simp
  qed
  have nm: "names_map t' ?T P m = ((names_map t ?T P)(n \<mapsto> view (f (t ! ?i)))) m" for m
  proof (cases "m = n")
    case True
    then show ?thesis using u gen R(1) by (simp add: names_map_def used nth)
  next
    case False
    then have "idx m \<noteq> ?i \<or> ie_gen (t ! idx m) \<noteq> MACH_PORT_GEN m"
      using gen by (metis name_eq_iff idx_eq_iff)
    then show ?thesis using False R(1) by (auto simp: names_map_def used nth)
  qed
  have mp: "space_map ?s' P = (space_map s P)(n \<mapsto> view (f (t ! ?i)))"
    by (rule ext) (simp add: space_map_def nm [unfolded t'_def] t_def [symmetric])
  then show "space_map (s\<lparr>is_table := entry_upd (idx n) f t\<rparr>) P = (space_map s P)(n \<mapsto> view (f (t ! idx n)))" .
  have Mn: "space_map s P n = Some (view (t ! ?i))"
    using u gen by (simp add: space_map_def names_map_def t_def)
  have six: "send_ix t' P = send_ix t P"
  proof -
    have "n \<in> P \<or> ie_type (f (t ! ?i)) = MACH_PORT_TYPE_SEND \<longleftrightarrow> n \<in> P \<or> ie_type (t ! ?i) = MACH_PORT_TYPE_SEND"
      using ok type_view [of "f (t ! ?i)"] type_view [of "t ! ?i"] by (auto simp: send_compatible_def)
    then have iff: "ie_type (t' ! ?i) = MACH_PORT_TYPE_SEND \<and> ename t' ?i \<notin> P \<longleftrightarrow>
        ie_type (t ! ?i) = MACH_PORT_TYPE_SEND \<and> ename t ?i \<notin> P"
      using en [of ?i] en_n nth [of ?i] by metis
    have "j \<in> send_ix t' P \<longleftrightarrow> j \<in> send_ix t P" for j
    proof (cases "j = ?i")
      case True
      then show ?thesis unfolding send_ix_def mem_Collect_eq len using iff by blast
    next
      case False
      then show ?thesis unfolding send_ix_def mem_Collect_eq len en nth by simp
    qed
    then show ?thesis by blast
  qed
  have obj: "ie_object (t' ! j) = ie_object (t ! j)" if "j \<in> send_ix t P" for j
  proof (cases "j = ?i")
    case True
    with that have "ename t ?i \<notin> P" "ie_type (t ! ?i) = MACH_PORT_TYPE_SEND" unfolding send_ix_def by blast+
    with en_n have "n \<notin> P" "ie_type (t ! ?i) = MACH_PORT_TYPE_SEND" by metis+
    with ok True nth show ?thesis using type_view [of "t ! ?i"] by (auto simp: send_compatible_def view_def)
  qed (simp add: nth)
  from I(3) obtain F where F: "free_ok t P F" ..
  have nF: "?i \<notin> set F" using F u by (simp add: free_ok_def)
  show "space_inv ?s' g P"
  proof (rule space_invI)
    show "size_ok ?s'" using I(1) by (simp add: size_ok_def t_def)
    have "t' \<noteq> []" using len i by auto
    then show "head_ok (is_table ?s')" using I(2) i(1) nth [of 0] by (simp add: head_ok_def t'_def [symmetric])
    have "free_chain t' 0 F = free_chain t 0 F"
      using nF i(1) by (intro free_chain_cong) (auto simp: nth)
    then show "free_ok (is_table ?s') P F"
      using F nF nth by (auto simp: free_ok_def t'_def [symmetric] len used)
    show "coll_ok (is_table ?s') (splay_map (is_tree ?s'))"
    proof -
      have "bit (ie_bits (t' ! j)) 23 = bit (ie_bits (t ! j)) 23" for j by (simp add: nth R(2))
      then show ?thesis using I(4) by (simp add: coll_ok_def t'_def [symmetric] len gens)
    qed
    show "rev_ok (is_addr ?s') (is_table ?s') (splay_map (is_tree ?s')) (is_tree_hash ?s') g P"
      using rev_ok_cong [OF I(8) len slots six obj refl] by (simp add: t'_def [symmetric])
    show "unique_sends (space_map ?s' P) P"
      unfolding mp by (rule unique_sends_update [OF I(9) Mn ok])
    show "P \<subseteq> dom (space_map ?s' P)" using I(10) by (auto simp: mp)
  qed (use I in \<open>simp_all add: t_def [symmetric]\<close>)
qed

subsection \<open>In the tree\<close>

lemma splay_update_list_length [simp]: "length (splay_list (ipc_splay_update n f t)) = length (splay_list t)"
  by (simp add: splay_list_update)

lemma update_tree:
  fixes s :: ipc_space and f :: "ipc_entry \<Rightarrow> ipc_entry"
  assumes inv: "space_inv s g P" and T: "splay_map (is_tree s) n = Some e"
    and rw: "rewritten e (f e)"
    and ok: "n \<in> P \<or> send_compatible (view e) (view (f e))"
  shows "space_inv (s\<lparr>is_tree := ipc_splay_update n f (is_tree s)\<rparr>) g P" (is "space_inv ?s' g P")
    and "space_map (s\<lparr>is_tree := ipc_splay_update n f (is_tree s)\<rparr>) P = (space_map s P)(n \<mapsto> view (f e))"
proof -
  let ?t = "is_table s" and ?T = "splay_map (is_tree s)"
  define T' where "T' = splay_map (ipc_splay_update n f (is_tree s))"
  note I = space_invD [OF inv]
  note R = rewritten_sel [OF rw]
  have T': "T' = ?T(n \<mapsto> f e)" using T by (auto simp: T'_def fun_eq_iff)
  have d: "dom T' = dom ?T" using T by (auto simp: T')
  have Ts: "splay_map (is_tree ?s') = T'" by (simp add: T'_def)
  have gen: "idx n < length ?t \<Longrightarrow> ie_gen (?t ! idx n) \<noteq> MACH_PORT_GEN n"
    using coll_ok_gen [OF I(4), of n] T by blast
  then have no: "\<not> (used ?t P (idx n) \<and> ie_gen (?t ! idx n) = MACH_PORT_GEN n)" by (auto simp: used_def)
  have mp: "space_map ?s' P = (space_map s P)(n \<mapsto> view (f e))"
  proof
    fix m
    show "space_map ?s' P m = ((space_map s P)(n \<mapsto> view (f e))) m"
      using no T by (auto simp: space_map_def names_map_def)
  qed
  then show "space_map (s\<lparr>is_tree := ipc_splay_update n f (is_tree s)\<rparr>) P = (space_map s P)(n \<mapsto> view (f e))" .
  have Mn: "space_map s P n = Some (view e)" using no T by (auto simp: space_map_def names_map_def)
  from I(3) obtain F where F: "free_ok ?t P F" ..
  have ty: "n \<in> P \<or> ie_type (f e) \<noteq> 0"
    using ok type_view [of "f e"] by (auto simp: send_compatible_def)
  have tok: "tree_ok (ipc_splay_update n f (is_tree s)) P"
    unfolding tree_ok_def
  proof (intro conjI ballI)
    show "splay_inv (ipc_splay_update n f (is_tree s))" using tree_okD(1) [OF I(5)] by simp
    fix x assume "x \<in> set (splay_list (ipc_splay_update n f (is_tree s)))"
    moreover obtain m e1 where x: "x = (m, e1)" by (cases x)
    moreover have "strict_keys (splay_list (ipc_splay_update n f (is_tree s)))"
      using tree_okD(1) [OF I(5)] splay_inv_update [of n f "is_tree s"] unfolding splay_inv_def by blast
    ultimately have "T' m = Some e1"
      unfolding T'_def splay_map_def using strict_keys_distinct by (metis map_of_is_SomeI)
    then have "if m = n then e1 = f e else ?T m = Some e1" by (auto simp: T' split: if_splits)
    then show "case x of (n, e) \<Rightarrow> MACH_PORT_VALID n \<and> right_bits (ie_bits e) \<and> (ie_type e \<noteq> 0 \<or> n \<in> P)"
      using x T ty R(4) tree_okD(2,3) [OF I(5)] tree_okD(4) [OF I(5), of m e1] by (cases "m = n") auto
  qed
  show "space_inv ?s' g P"
  proof (rule space_invI)
    show "size_ok ?s'" using I(1) by (simp add: size_ok_def)
    show "free_ok (is_table ?s') P F" using F by simp
    show "coll_ok (is_table ?s') (splay_map (is_tree ?s'))"
      using I(4) unfolding Ts coll_ok_def d by simp
    show "rev_ok (is_addr ?s') (is_table ?s') (splay_map (is_tree ?s')) (is_tree_hash ?s') g P"
      using I(8) tree_sends_update [of ?T n e P "f e", OF T ok] unfolding Ts rev_ok_def T' by simp
    show "is_tree_small ?s' = card (small_set (is_table_size ?s') (its_size (is_table_next ?s')) (splay_map (is_tree ?s')))"
      using I(7) unfolding Ts small_set_def d by simp
    show "unique_sends (space_map ?s' P) P"
      unfolding mp by (rule unique_sends_update [OF I(9) Mn ok])
    show "P \<subseteq> dom (space_map ?s' P)" using I(10) by (auto simp: mp)
  qed (use I tok in simp_all)
qed

subsection \<open>Both\<close>

lemma entry_at_ref:
  assumes "space_inv s g P" and "space_map s P n = Some c"
  obtains e where "entry_at (ref_of s n) s = Some e" and "c = view e"
  using assms
proof (cases rule: cap_cases)
  case table
  then show thesis by (intro that) (auto simp: entry_at_def used_def)
next
  case (tree e)
  then show thesis by (intro that) (auto simp: entry_at_def)
qed

lemma entry_store_spec:
  assumes inv: "space_inv s g P" and c: "space_map s P n = Some c" and e: "entry_at (ref_of s n) s = Some e"
    and rw: "rewritten e (f e)" and ok: "n \<in> P \<or> send_compatible c (view (f e))"
  shows "space_inv (entry_store (ref_of s n) f s) g P"
    and "space_map (entry_store (ref_of s n) f s) P = (space_map s P)(n \<mapsto> view (f e))"
proof -
  have "space_inv (entry_store (ref_of s n) f s) g P \<and>
    space_map (entry_store (ref_of s n) f s) P = (space_map s P)(n \<mapsto> view (f e))"
    using inv c
  proof (cases rule: cap_cases)
    case table
    with e have "e = is_table s ! idx n" by (auto simp: entry_at_def split: if_splits)
    with update_table [OF inv table(2,3)] rw ok table show ?thesis by (auto simp: entry_store_def)
  next
    case (tree e1)
    with e have "e = e1" by (simp add: entry_at_def)
    with update_tree [OF inv tree(1)] rw ok tree show ?thesis by (auto simp: entry_store_def)
  qed
  then show "space_inv (entry_store (ref_of s n) f s) g P"
    and "space_map (entry_store (ref_of s n) f s) P = (space_map s P)(n \<mapsto> view (f e))" by auto
qed

end
