(* ===== verification/Ipc_Entry_Refile.thy ===== *)
theory Ipc_Entry_Refile
  imports Ipc_Entry_Update
begin

section \<open>Moving a right in and out of the reverse tables\<close>

text \<open>
  A name that has a right can be put in flight and taken back without touching the map; for a
  pure send right that is what \<open>ipc_hash_delete\<close> and \<open>ipc_hash_insert\<close> do.
\<close>

subsection \<open>The frame\<close>

text \<open>\<open>P\<close> and \<open>P'\<close> differ at most in \<open>n\<close>, which has a right.\<close>

definition refiled :: "mach_port_t \<Rightarrow> mach_port_t set \<Rightarrow> mach_port_t set \<Rightarrow> bool" where
  "refiled n P P' \<longleftrightarrow> P' - {n} = P - {n}"

lemma refiledD: "refiled n P P' \<Longrightarrow> m \<noteq> n \<Longrightarrow> m \<in> P' \<longleftrightarrow> m \<in> P"
  unfolding refiled_def by blast

lemma refiled_insert [simp]: "refiled n P (insert n P)" and refiled_remove [simp]: "refiled n P (P - {n})"
  by (auto simp: refiled_def)

lemma refiled_used:
  assumes inv: "space_inv s g P" and c: "space_map s P n = Some c" and ty: "IE_BITS_TYPE (fst c) \<noteq> 0"
    and r: "refiled n P P'"
  shows "used (is_table s) P' i = used (is_table s) P i"
proof (cases "ename (is_table s) i = n \<and> i < is_table_size s")
  case True
  note sz = size_ok_bounds(2) [OF space_invD(1) [OF inv]]
  have i: "i < 2 ^ 24" using True sz by linarith
  from True ename_iff [OF i, of "is_table s" n] have ii: "idx n = i" "ie_gen (is_table s ! i) = MACH_PORT_GEN n" by blast+
  have "ie_type (is_table s ! i) \<noteq> 0"
    using inv c
  proof (cases rule: cap_cases)
    case table
    with ty ii(1) type_view [of "is_table s ! i"] show ?thesis by simp
  next
    case (tree e)
    with ii True show ?thesis by simp
  qed
  then show ?thesis by (simp add: used_def)
next
  case False
  then have "i < is_table_size s \<longrightarrow> (ename (is_table s) i \<in> P' \<longleftrightarrow> ename (is_table s) i \<in> P)"
    using refiledD [OF r] by metis
  then show ?thesis unfolding used_def by blast
qed

lemma refile:
  assumes inv: "space_inv s g P" and c: "space_map s P n = Some c" and ty: "IE_BITS_TYPE (fst c) \<noteq> 0"
    and r: "refiled n P P'" and sl: "same_but_slots (is_table s) t'"
    and rev: "rev_ok (is_addr s) t' (splay_map (is_tree s)) h g' P'"
    and un: "unique_sends (space_map s P) P'"
  defines "s' \<equiv> s\<lparr>is_table := t', is_tree_hash := h\<rparr>"
  shows "space_inv s' g' P'" and "space_map s' P' = space_map s P"
proof -
  let ?t = "is_table s" and ?T = "splay_map (is_tree s)"
  note I = space_invD [OF inv] and S = same_but_slots_sel [OF sl]
  note sz = size_ok_bounds(2) [OF I(1)]
  have used: "used t' P' i = used ?t P i" for i
  proof -
    have "used t' P' i = used ?t P' i" by (simp add: used_def S(1,2))
    with refiled_used [OF inv c ty r] show ?thesis by simp
  qed
  have vw: "view (t' ! i) = view (?t ! i)" for i by (simp add: view_def S(2-4))
  have mp: "space_map s' P' = space_map s P"
    by (rule ext) (simp add: space_map_def names_map_def s'_def used vw S(2))
  then show "space_map s' P' = space_map s P" .
  from I(3) obtain F where F: "free_ok ?t P F" ..
  have ne: "?t \<noteq> []" using I(2) by (simp add: head_ok_def)
  show "space_inv s' g' P'"
  proof (rule space_invI)
    show "size_ok s'" using I(1) S(1) by (simp add: size_ok_def s'_def)
    have "t' \<noteq> []" using ne S(1) by auto
    then show "head_ok (is_table s')" using I(2) by (simp add: head_ok_def s'_def S(2,3))
    have "free_chain t' 0 F = free_chain ?t 0 F" by (rule free_chain_cong) (simp add: S(4))
    then show "free_ok (is_table s') P' F" using F by (simp add: free_ok_def s'_def used S(1-3))
    show "coll_ok (is_table s') (splay_map (is_tree s'))" using I(4) by (simp add: coll_ok_def s'_def S(1,2))
    show "tree_ok (is_tree s') P'"
      unfolding tree_ok_def
    proof (intro conjI ballI)
      show "splay_inv (is_tree s')" using tree_okD(1) [OF I(5)] by (simp add: s'_def)
      fix x assume x: "x \<in> set (splay_list (is_tree s'))"
      obtain m e where xm: "x = (m, e)" by (cases x)
      from x xm strict_keys_distinct [OF tree_okD(5) [OF I(5)]] have T: "?T m = Some e"
        by (simp add: s'_def splay_map_def)
      have "ie_type e \<noteq> 0 \<or> m \<in> P'"
      proof (cases "m = n")
        case True
        from inv c have "c = view e" using T True by (cases rule: cap_cases) auto
        with ty show ?thesis using type_view by metis
      next
        case False
        with refiledD [OF r] tree_okD(4) [OF I(5) T] show ?thesis by blast
      qed
      with tree_okD(2,3) [OF I(5) T]
      show "case x of (n, e) \<Rightarrow> MACH_PORT_VALID n \<and> right_bits (ie_bits e) \<and> (ie_type e \<noteq> 0 \<or> n \<in> P')"
        by (simp add: xm)
    qed
    show "rev_ok (is_addr s') (is_table s') (splay_map (is_tree s')) (is_tree_hash s') g' P'"
      using rev by (simp add: s'_def)
    show "unique_sends (space_map s' P') P'" unfolding mp by (rule un)
    show "P' \<subseteq> dom (space_map s' P')"
    proof
      fix m assume "m \<in> P'"
      with I(10) refiledD [OF r, of m] c show "m \<in> dom (space_map s' P')" unfolding mp by (cases "m = n") auto
    qed
  qed (use I S(1) in \<open>simp_all add: s'_def\<close>)
qed

text \<open>The names the reverse tables hold, before and after.\<close>

lemma refiled_send_ix:
  assumes inv: "space_inv s g P" and r: "refiled n P P'"
  shows "send_ix (is_table s) P' - {idx n} = send_ix (is_table s) P - {idx n}"
proof -
  note sz = size_ok_bounds(2) [OF space_invD(1) [OF inv]]
  have "i \<in> send_ix (is_table s) P' \<longleftrightarrow> i \<in> send_ix (is_table s) P" if "i \<noteq> idx n" for i
  proof (cases "i < is_table_size s")
    case True
    with sz have "i < 2 ^ 24" by linarith
    from ename_iff [OF this, of "is_table s" n] that have "ename (is_table s) i \<noteq> n" by metis
    then show ?thesis unfolding send_ix_def mem_Collect_eq using refiledD [OF r] by metis
  qed (simp add: send_ix_def)
  then show ?thesis by blast
qed

lemma send_ix_tree:
  assumes inv: "space_inv s g P" and T: "n \<in> dom (splay_map (is_tree s))" and r: "refiled n P P'"
  shows "send_ix (is_table s) P' = send_ix (is_table s) P"
proof -
  note I = space_invD [OF inv]
  have "ename (is_table s) i \<noteq> n" if "i < is_table_size s" for i
    using not_ename [of n "is_table s" i] coll_ok_gen [OF I(4) T] that size_ok_bounds(2) [OF I(1)] by blast
  then have "i \<in> send_ix (is_table s) P' \<longleftrightarrow> i \<in> send_ix (is_table s) P" for i
    unfolding send_ix_def mem_Collect_eq using refiledD [OF r] by metis
  then show ?thesis by blast
qed

lemma tree_sends_table:
  assumes "T n = None" and r: "refiled n P P'"
  shows "tree_sends T P' = tree_sends T P"
proof -
  have "p \<in> tree_sends T P' \<longleftrightarrow> p \<in> tree_sends T P" for p
    using assms(1) refiledD [OF r] by (cases p; cases "fst p = n") (auto simp: tree_sends_def)
  then show ?thesis by blast
qed

subsection \<open>Rights the tables do not hold\<close>

lemma refile_other:
  assumes inv: "space_inv s g P" and c: "space_map s P n = Some c"
    and ty: "IE_BITS_TYPE (fst c) \<noteq> 0" "IE_BITS_TYPE (fst c) \<noteq> MACH_PORT_TYPE_SEND"
    and r: "refiled n P P'"
  shows "space_inv s g P'" and "space_map s P' = space_map s P"
proof -
  let ?t = "is_table s" and ?T = "splay_map (is_tree s)"
  note I = space_invD [OF inv]
  have ix: "send_ix ?t P' = send_ix ?t P" and tr: "tree_sends ?T P' = tree_sends ?T P"
  proof -
    have "send_ix ?t P' = send_ix ?t P \<and> tree_sends ?T P' = tree_sends ?T P"
      using inv c
    proof (cases rule: cap_cases)
      case table
      with ty type_view have "ie_type (?t ! idx n) \<noteq> MACH_PORT_TYPE_SEND" by metis
      then have "idx n \<notin> send_ix ?t P'" "idx n \<notin> send_ix ?t P" by (auto simp: send_ix_def)
      with refiled_send_ix [OF inv r] tree_sends_table [where T = ?T, OF table(1) r] show ?thesis by blast
    next
      case (tree e)
      with ty type_view have te: "ie_type e \<noteq> MACH_PORT_TYPE_SEND" by metis
      have "p \<in> tree_sends ?T P' \<longleftrightarrow> p \<in> tree_sends ?T P" for p
        using te tree(1) refiledD [OF r] by (cases p; cases "fst p = n") (auto simp: tree_sends_def)
      with send_ix_tree [OF inv _ r] tree(1) show ?thesis by blast
    qed
    then show "send_ix ?t P' = send_ix ?t P" "tree_sends ?T P' = tree_sends ?T P" by auto
  qed
  have un: "unique_sends (space_map s P) P'"
    unfolding unique_sends_def
  proof (intro allI impI)
    fix m k b d obj q q'
    assume a: "space_map s P m = Some (b, obj, q)" "space_map s P k = Some (d, obj, q')" "m \<notin> P'" "k \<notin> P'"
      "IE_BITS_TYPE b = MACH_PORT_TYPE_SEND" "IE_BITS_TYPE d = MACH_PORT_TYPE_SEND"
    then have "m \<noteq> n" "k \<noteq> n" using c ty by auto
    with a(3,4) refiledD [OF r] have "m \<notin> P" "k \<notin> P" by auto
    with a I(9) show "m = k" unfolding unique_sends_def by blast
  qed
  have rev: "rev_ok (is_addr s) ?t ?T (is_tree_hash s) g P'"
    using I(8) ix tr by (simp add: rev_ok_def)
  have same: "s\<lparr>is_table := ?t, is_tree_hash := is_tree_hash s\<rparr> = s" by simp
  from refile [OF inv c ty(1) r same_but_slots_refl rev un, unfolded same]
  show "space_inv s g P'" and "space_map s P' = space_map s P" .
qed

subsection \<open>Deleting and inserting a send right\<close>

lemma same_but_slots_send_ix: "same_but_slots t t' \<Longrightarrow> send_ix t' P = send_ix t P"
  by (auto simp: send_ix_def same_but_slots_sel)

lemma gh_of_insert:
  "gh_entries g' = insert \<lparr>ite_space = a, ite_name = n, ite_object = obj\<rparr> (gh_entries g) \<Longrightarrow>
     gh_of a g' = insert (n, obj) (gh_of a g)"
  by (auto simp: gh_of_def)

lemma gh_of_remove:
  "gh_entries g' = gh_entries g - {\<lparr>ite_space = a, ite_name = n, ite_object = obj\<rparr>} \<Longrightarrow>
     gh_of a g' = gh_of a g - {(n, obj)}"
  by (auto simp: gh_of_def)

lemma unique_sends_less:
  assumes "unique_sends M P" and "P \<subseteq> P'"
  shows "unique_sends M P'"
  unfolding unique_sends_def
proof (intro allI impI)
  fix m n b c obj r q
  assume a: "M m = Some (b, obj, r)" "M n = Some (c, obj, q)" "m \<notin> P'" "n \<notin> P'"
    "IE_BITS_TYPE b = MACH_PORT_TYPE_SEND" "IE_BITS_TYPE c = MACH_PORT_TYPE_SEND"
  with assms(2) have "m \<notin> P" "n \<notin> P" by blast+
  from assms(1) [unfolded unique_sends_def, rule_format, OF a(1,2) this a(5,6)] show "m = n" .
qed

lemma ipc_hash_delete_spec:
  assumes inv: "space_inv s g P" and c: "space_map s P n = Some (b, obj, r)"
    and ty: "IE_BITS_TYPE b = MACH_PORT_TYPE_SEND" and n: "n \<notin> P"
  obtains t' h g' where "ipc_hash_delete obj n (ref_of s n) s g = Some (s\<lparr>is_table := t', is_tree_hash := h\<rparr>, g')"
    and "same_but_slots (is_table s) t'"
    and "space_inv (s\<lparr>is_table := t', is_tree_hash := h\<rparr>) g' (insert n P)"
    and "space_map (s\<lparr>is_table := t', is_tree_hash := h\<rparr>) (insert n P) = space_map s P"
proof -
  let ?t = "is_table s" and ?T = "splay_map (is_tree s)" and ?P = "insert n P"
  note I = space_invD [OF inv]
  have R: "hash_inv ?t (send_ix ?t P)" "gh_inv g" "gh_of (is_addr s) g = tree_sends ?T P"
    "finite (tree_sends ?T P)" "is_tree_hash s = card (tree_sends ?T P)"
    using I(8) by (auto simp: rev_ok_def)
  have "\<exists>t' h g'. ipc_hash_delete obj n (ref_of s n) s g = Some (s\<lparr>is_table := t', is_tree_hash := h\<rparr>, g') \<and>
    same_but_slots ?t t' \<and> rev_ok (is_addr s) t' ?T h g' ?P"
    using inv c
  proof (cases rule: cap_cases)
    case table
    let ?i = "idx n"
    from table(4) have e: "ie_object (?t ! ?i) = obj" "b = ie_bits (?t ! ?i) AND IE_BITS_RIGHT_MASK" by (simp_all add: view_def)
    then have "ie_type (?t ! ?i) = MACH_PORT_TYPE_SEND" using ty type_view [of "?t ! ?i"] by (simp add: view_def)
    moreover have i: "?i < length ?t" using table(2) by (simp add: used_def)
    ultimately have mem: "?i \<in> send_ix ?t P" unfolding send_ix_def mem_Collect_eq using table(6) n by metis
    from ipc_hash_local_delete_spec [OF R(1) mem e(1)] obtain t' where
      t': "ipc_hash_local_delete obj ?i ?t = Some t'" "hash_inv t' (send_ix ?t P - {?i})"
      and sl: "same_but_slots ?t t'" unfolding same_but_slots_def by blast
    have "send_ix ?t ?P = send_ix ?t P - {?i}"
      using refiled_send_ix [OF inv refiled_insert, of n] table(6) unfolding send_ix_def by blast
    then have "hash_inv t' (send_ix t' ?P)" using t'(2) same_but_slots_send_ix [OF sl] by simp
    moreover have "tree_sends ?T ?P = tree_sends ?T P"
      using table(1) by (rule tree_sends_table) simp
    ultimately have "rev_ok (is_addr s) t' ?T (is_tree_hash s) g ?P" using R by (simp add: rev_ok_def)
    moreover have "ipc_hash_delete obj n (ref_of s n) s g = Some (s\<lparr>is_table := t', is_tree_hash := is_tree_hash s\<rparr>, g)"
      using t'(1) i table(5) by (simp add: ipc_hash_delete_def Let_def)
    ultimately show ?thesis using sl by blast
  next
    case (tree e)
    from tree(2) have e: "ie_object e = obj" "ie_type e = MACH_PORT_TYPE_SEND"
      using ty type_view [of e] by (simp_all add: view_def)
    let ?e = "\<lparr>ite_space = is_addr s, ite_name = n, ite_object = obj\<rparr>"
    have nT: "n \<in> dom ?T" using tree(1) by blast
    have mem: "(n, obj) \<in> tree_sends ?T P" using tree(1) e n by (auto simp: tree_sends_def)
    with R(3) have "?e \<in> gh_entries g" by (auto simp: gh_of_def)
    from ipc_hash_global_delete_spec [OF R(2) this, of s obj] obtain g' where
      g': "ipc_hash_global_delete obj n s g = (s\<lparr>is_tree_hash := is_tree_hash s - 1\<rparr>, g')" "gh_inv g'"
      "gh_entries g' = gh_entries g - {?e}" by auto
    have rm: "tree_sends ?T ?P = tree_sends ?T P - {(n, obj)}" using tree(1) e by (auto simp: tree_sends_def)
    have "rev_ok (is_addr s) ?t ?T (is_tree_hash s - 1) g' ?P"
      using R gh_of_remove [OF g'(3)] g'(2) mem send_ix_tree [OF inv nT refiled_insert]
      by (auto simp: rev_ok_def rm)
    moreover have "ipc_hash_delete obj n (ref_of s n) s g = Some (s\<lparr>is_table := ?t, is_tree_hash := is_tree_hash s - 1\<rparr>, g')"
      using g'(1) tree(3) by (simp add: ipc_hash_delete_def Let_def)
    ultimately show ?thesis using same_but_slots_refl by blast
  qed
  then obtain t' h g' where d: "ipc_hash_delete obj n (ref_of s n) s g = Some (s\<lparr>is_table := t', is_tree_hash := h\<rparr>, g')"
    and sl: "same_but_slots ?t t'" and rev: "rev_ok (is_addr s) t' ?T h g' ?P" by blast
  have "IE_BITS_TYPE (fst (b, obj, r)) \<noteq> 0" using ty by simp
  from refile [OF inv c this refiled_insert sl rev unique_sends_less [OF I(9) subset_insertI]]
  show thesis by (intro that [OF d sl])
qed

lemma ipc_hash_insert_spec:
  assumes inv: "space_inv s g P" and c: "space_map s P n = Some (b, obj, r)"
    and ty: "IE_BITS_TYPE b = MACH_PORT_TYPE_SEND" and n: "n \<in> P"
    and only: "\<And>m d q. space_map s P m = Some (d, obj, q) \<Longrightarrow> m \<notin> P \<Longrightarrow> IE_BITS_TYPE d \<noteq> MACH_PORT_TYPE_SEND"
  obtains t' h g' where "ipc_hash_insert obj n (ref_of s n) s g = Some (s\<lparr>is_table := t', is_tree_hash := h\<rparr>, g')"
    and "same_but_slots (is_table s) t'"
    and "space_inv (s\<lparr>is_table := t', is_tree_hash := h\<rparr>) g' (P - {n})"
    and "space_map (s\<lparr>is_table := t', is_tree_hash := h\<rparr>) (P - {n}) = space_map s P"
proof -
  let ?t = "is_table s" and ?T = "splay_map (is_tree s)" and ?P = "P - {n}"
  note I = space_invD [OF inv]
  have R: "hash_inv ?t (send_ix ?t P)" "gh_inv g" "gh_of (is_addr s) g = tree_sends ?T P"
    "finite (tree_sends ?T P)" "is_tree_hash s = card (tree_sends ?T P)"
    using I(8) by (auto simp: rev_ok_def)
  have "\<exists>t' h g'. ipc_hash_insert obj n (ref_of s n) s g = Some (s\<lparr>is_table := t', is_tree_hash := h\<rparr>, g') \<and>
    same_but_slots ?t t' \<and> rev_ok (is_addr s) t' ?T h g' ?P"
    using inv c
  proof (cases rule: cap_cases)
    case table
    let ?i = "idx n"
    from table(4) have e: "ie_object (?t ! ?i) = obj" "b = ie_bits (?t ! ?i) AND IE_BITS_RIGHT_MASK" by (simp_all add: view_def)
    then have te: "ie_type (?t ! ?i) = MACH_PORT_TYPE_SEND" using ty type_view [of "?t ! ?i"] by (simp add: view_def)
    have i: "0 < ?i" "?i < length ?t" using table(2) by (simp_all add: used_def)
    have no: "?i \<notin> send_ix ?t P" unfolding send_ix_def mem_Collect_eq using table(6) n by metis
    from ipc_hash_local_insert_spec [OF R(1) no i e(1)] obtain q where
      t': "ipc_hash_local_insert obj ?i ?t = Some (set_slot q ?i ?t)" "hash_inv (set_slot q ?i ?t) (insert ?i (send_ix ?t P))" .
    have sl: "same_but_slots ?t (set_slot q ?i ?t)" by (rule same_but_slots_set_slot)
    have "?i \<in> send_ix ?t ?P" unfolding send_ix_def mem_Collect_eq using table(6) te i(2) by blast
    then have "send_ix ?t ?P = insert ?i (send_ix ?t P)"
      using refiled_send_ix [OF inv refiled_remove, of n] no by blast
    then have "hash_inv (set_slot q ?i ?t) (send_ix (set_slot q ?i ?t) ?P)" using t'(2) same_but_slots_send_ix [OF sl] by simp
    moreover have "tree_sends ?T ?P = tree_sends ?T P"
      using table(1) by (rule tree_sends_table) simp
    ultimately have "rev_ok (is_addr s) (set_slot q ?i ?t) ?T (is_tree_hash s) g ?P" using R by (simp add: rev_ok_def)
    moreover have "ipc_hash_insert obj n (ref_of s n) s g =
        Some (s\<lparr>is_table := set_slot q ?i ?t, is_tree_hash := is_tree_hash s\<rparr>, g)"
      using t'(1) i table(5) by (simp add: ipc_hash_insert_def Let_def)
    ultimately show ?thesis using sl by blast
  next
    case (tree e)
    from tree(2) have e: "ie_object e = obj" "ie_type e = MACH_PORT_TYPE_SEND"
      using ty type_view [of e] by (simp_all add: view_def)
    let ?e = "\<lparr>ite_space = is_addr s, ite_name = n, ite_object = obj\<rparr>"
    have nT: "n \<in> dom ?T" using tree(1) by blast
    have no: "(n, o') \<notin> tree_sends ?T P" for o' using n by (auto simp: tree_sends_def)
    have "(is_addr s, n) \<notin> gh_key ` gh_entries g"
    proof
      assume "(is_addr s, n) \<in> gh_key ` gh_entries g"
      then obtain x where "x \<in> gh_entries g" "ite_space x = is_addr s" "ite_name x = n" by auto
      then have "(n, ite_object x) \<in> gh_of (is_addr s) g"
        unfolding gh_of_def by (cases x) auto
      with no R(3) show False by simp
    qed
    from ipc_hash_global_insert_spec [OF R(2) this] obtain g' where
      g': "ipc_hash_global_insert obj n s g = (s\<lparr>is_tree_hash := is_tree_hash s + 1\<rparr>, g')" "gh_inv g'"
      "gh_entries g' = insert ?e (gh_entries g)" by blast
    have ins: "tree_sends ?T ?P = insert (n, obj) (tree_sends ?T P)" using tree(1) e by (auto simp: tree_sends_def)
    have "rev_ok (is_addr s) ?t ?T (is_tree_hash s + 1) g' ?P"
      using R gh_of_insert [OF g'(3)] g'(2) no send_ix_tree [OF inv nT refiled_remove]
      by (auto simp: rev_ok_def ins)
    moreover have "ipc_hash_insert obj n (ref_of s n) s g = Some (s\<lparr>is_table := ?t, is_tree_hash := is_tree_hash s + 1\<rparr>, g')"
      using g'(1) tree(3) by (simp add: ipc_hash_insert_def Let_def)
    ultimately show ?thesis using same_but_slots_refl by blast
  qed
  then obtain t' h g' where d: "ipc_hash_insert obj n (ref_of s n) s g = Some (s\<lparr>is_table := t', is_tree_hash := h\<rparr>, g')"
    and sl: "same_but_slots ?t t'" and rev: "rev_ok (is_addr s) t' ?T h g' ?P" by blast
  have un: "unique_sends (space_map s P) ?P"
    unfolding unique_sends_def
  proof (intro allI impI)
    fix m k d d' o' q q'
    assume a: "space_map s P m = Some (d, o', q)" "space_map s P k = Some (d', o', q')" "m \<notin> ?P" "k \<notin> ?P"
      "IE_BITS_TYPE d = MACH_PORT_TYPE_SEND" "IE_BITS_TYPE d' = MACH_PORT_TYPE_SEND"
    consider "m = n" "k = n" | "m = n" "k \<noteq> n" | "m \<noteq> n" "k = n" | "m \<noteq> n" "k \<noteq> n" by blast
    then show "m = k"
    proof cases
      case 2
      with a(1) c have "o' = obj" by simp
      with only [of k d' q'] a 2 show ?thesis by simp
    next
      case 3
      with a(2) c have "o' = obj" by simp
      with only [of m d q] a 3 show ?thesis by simp
    next
      case 4
      with a I(9) show ?thesis unfolding unique_sends_def by blast
    qed simp
  qed
  have "IE_BITS_TYPE (fst (b, obj, r)) \<noteq> 0" using ty by simp
  from refile [OF inv c this refiled_remove sl rev un]
  show thesis by (intro that [OF d sl])
qed

end
