(* ===== verification/Ipc_Mqueue.thy ===== *)
theory Ipc_Mqueue
  imports Ipc_Entry_Refile
begin

section \<open>Message queues\<close>

text \<open>
  The queues of \<open>ipc/ipc_mqueue.c\<close>: messages waiting to be received, and threads waiting for a
  message.  Both are first-in first-out; they are lists here, and \<open>Ipc_Queue\<close> shows that the rings
  of the code implement lists.  A thread that is woken is handed to the scheduler with the fields
  the code stored in it, so the operations return the woken threads in order.
\<close>

datatype mach_msg_return_t =
    MACH_MSG_SUCCESS
  | MACH_SEND_IN_PROGRESS | MACH_SEND_INVALID_DATA | MACH_SEND_INVALID_DEST | MACH_SEND_TIMED_OUT
  | MACH_SEND_WILL_NOTIFY | MACH_SEND_NOTIFY_IN_PROGRESS | MACH_SEND_INTERRUPTED
  | MACH_SEND_MSG_TOO_SMALL | MACH_SEND_INVALID_REPLY | MACH_SEND_INVALID_RIGHT
  | MACH_SEND_INVALID_NOTIFY | MACH_SEND_INVALID_MEMORY | MACH_SEND_NO_BUFFER
  | MACH_SEND_NO_NOTIFY | MACH_SEND_INVALID_TYPE | MACH_SEND_INVALID_HEADER
  | MACH_RCV_IN_PROGRESS | MACH_RCV_INVALID_NAME | MACH_RCV_TIMED_OUT | MACH_RCV_TOO_LARGE
  | MACH_RCV_INTERRUPTED | MACH_RCV_PORT_CHANGED | MACH_RCV_INVALID_NOTIFY | MACH_RCV_INVALID_DATA
  | MACH_RCV_PORT_DIED | MACH_RCV_IN_SET | MACH_RCV_HEADER_ERROR | MACH_RCV_BODY_ERROR

text \<open>
  A message in the kernel: its address, its msg-accepted request, and the fields of its header that
  the kernel looks at.  The ports are names in the message of a user and addresses in the kernel.
\<close>

record ipc_kmsg =
  ikm_addr :: addr
  ikm_marequest :: addr
  msgh_bits :: u32
  msgh_size :: u32
  msgh_remote_port :: addr
  msgh_local_port :: addr

text \<open>The part of a thread that message passing uses (\<open>kern/thread.h\<close>).\<close>

record ipc_thread =
  ith_addr :: addr
  ith_state :: mach_msg_return_t
  ith_msize :: u32
  ith_kmsg :: "ipc_kmsg option"
  ith_seqno :: u32

record ipc_mqueue =
  imq_messages :: "ipc_kmsg list"
  imq_threads :: "ipc_thread list"

definition ipc_mqueue_init :: ipc_mqueue where
  "ipc_mqueue_init = \<lparr>imq_messages = [], imq_threads = []\<rparr>"

subsection \<open>Handing a message to a waiting thread\<close>

text \<open>
  The loop of \<open>ipc_mqueue_send\<close> and of \<open>ipc_mqueue_move\<close>: threads whose buffer is too small are woken
  with the size of the message, the first one that can take the message gets it, with the sequence
  number.  The result has the woken threads, those that still wait, and whether the message went.
\<close>

fun find_receiver :: "ipc_kmsg \<Rightarrow> u32 \<Rightarrow> ipc_thread list \<Rightarrow> ipc_thread list \<times> ipc_thread list \<times> bool" where
  "find_receiver kmsg seqno [] = ([], [], False)"
| "find_receiver kmsg seqno (th # receivers) =
     (if msgh_size kmsg \<le> ith_msize th
      then ([th\<lparr>ith_state := MACH_MSG_SUCCESS, ith_kmsg := Some kmsg, ith_seqno := seqno\<rparr>], receivers, True)
      else let (woken, rest, delivered) = find_receiver kmsg seqno receivers
           in (th\<lparr>ith_state := MACH_RCV_TOO_LARGE, ith_msize := msgh_size kmsg\<rparr> # woken, rest, delivered))"

text \<open>The end of \<open>ipc_mqueue_send\<close>: deliver the message or put it last in the queue.\<close>

definition mqueue_post :: "ipc_kmsg \<Rightarrow> u32 \<Rightarrow> ipc_mqueue \<Rightarrow> ipc_mqueue \<times> u32 \<times> ipc_thread list" where
  "mqueue_post kmsg seqno mqueue =
     (case find_receiver kmsg seqno (imq_threads mqueue) of
        (woken, rest, True) \<Rightarrow> (mqueue\<lparr>imq_threads := rest\<rparr>, seqno + 1, woken)
      | (woken, rest, False) \<Rightarrow>
          (mqueue\<lparr>imq_threads := rest, imq_messages := imq_messages mqueue @ [kmsg]\<rparr>, seqno, woken))"

subsection \<open>Moving messages between queues\<close>

fun mqueue_move_loop ::
    "addr \<Rightarrow> ipc_kmsg list \<Rightarrow> u32 \<Rightarrow> ipc_mqueue \<Rightarrow> ipc_kmsg list \<times> ipc_mqueue \<times> u32 \<times> ipc_thread list" where
  "mqueue_move_loop port [] seqno dest = ([], dest, seqno, [])"
| "mqueue_move_loop port (kmsg # oldq) seqno dest =
     (if msgh_remote_port kmsg \<noteq> port
      then let (kept, dest', seqno', woken) = mqueue_move_loop port oldq seqno dest
           in (kmsg # kept, dest', seqno', woken)
      else let (dest1, seqno1, woken1) = mqueue_post kmsg seqno dest;
               (kept, dest', seqno', woken) = mqueue_move_loop port oldq seqno1 dest1
           in (kept, dest', seqno', woken1 @ woken))"

definition ipc_mqueue_move ::
    "ipc_mqueue \<Rightarrow> ipc_mqueue \<Rightarrow> addr \<Rightarrow> u32 \<Rightarrow> ipc_mqueue \<times> ipc_mqueue \<times> u32 \<times> ipc_thread list" where
  "ipc_mqueue_move dest source port seqno =
     (let (kept, dest', seqno', woken) = mqueue_move_loop port (imq_messages source) seqno dest
      in (dest', source\<lparr>imq_messages := kept\<rparr>, seqno', woken))"

definition ipc_mqueue_changed :: "ipc_mqueue \<Rightarrow> mach_msg_return_t \<Rightarrow> ipc_mqueue \<times> ipc_thread list" where
  "ipc_mqueue_changed mqueue mr =
     (mqueue\<lparr>imq_threads := []\<rparr>, map (\<lambda>th. th\<lparr>ith_state := mr\<rparr>) (imq_threads mqueue))"

subsection \<open>Taking the first message\<close>

text \<open>
  The part of \<open>ipc_mqueue_receive\<close> that does not block: \<open>None\<close> when the queue is empty, otherwise
  the size of a message that is too large, or the message.
\<close>

definition mqueue_take :: "u32 \<Rightarrow> ipc_mqueue \<Rightarrow> ((u32 + ipc_kmsg) \<times> ipc_mqueue) option" where
  "mqueue_take max_size mqueue =
     (case imq_messages mqueue of
        [] \<Rightarrow> None
      | kmsg # rest \<Rightarrow>
          if max_size < msgh_size kmsg then Some (Inl (msgh_size kmsg), mqueue)
          else Some (Inr kmsg, mqueue\<lparr>imq_messages := rest\<rparr>))"

section \<open>What the queues promise\<close>

text \<open>Messages and threads never wait in the same queue: the code asserts it when it wakes a thread.\<close>

definition mqueue_ok :: "ipc_mqueue \<Rightarrow> bool" where
  "mqueue_ok mqueue \<longleftrightarrow> imq_messages mqueue = [] \<or> imq_threads mqueue = []"

text \<open>The messages that were handed over, with their sequence numbers.\<close>

definition deliveries :: "ipc_thread list \<Rightarrow> (ipc_kmsg \<times> u32) list" where
  "deliveries woken =
     map (\<lambda>th. (the (ith_kmsg th), ith_seqno th)) (filter (\<lambda>th. ith_state th = MACH_MSG_SUCCESS) woken)"

lemma deliveries_simps [simp]:
  "deliveries [] = []" "deliveries (xs @ ys) = deliveries xs @ deliveries ys"
  "deliveries (th # ths) =
     (if ith_state th = MACH_MSG_SUCCESS then [(the (ith_kmsg th), ith_seqno th)] else []) @ deliveries ths"
  by (simp_all add: deliveries_def)

text \<open>Consecutive sequence numbers, modulo \<open>2 ^ 32\<close>.\<close>

fun numbered :: "u32 \<Rightarrow> 'a list \<Rightarrow> ('a \<times> u32) list" where
  "numbered s [] = []"
| "numbered s (x # xs) = (x, s) # numbered (s + 1) xs"

lemma numbered_append: "numbered s (xs @ ys) = numbered s xs @ numbered (s + of_nat (length xs)) ys"
  by (induction xs arbitrary: s) (auto simp: algebra_simps)

lemma fst_numbered [simp]: "map fst (numbered s xs) = xs"
  by (induction xs arbitrary: s) auto

lemma find_receiver_spec:
  assumes "find_receiver kmsg seqno receivers = (woken, rest, delivered)"
  shows "map ith_addr receivers = map ith_addr woken @ map ith_addr rest"
    and "deliveries woken = (if delivered then [(kmsg, seqno)] else [])"
    and "\<not> delivered \<Longrightarrow> rest = []"
    and "delivered \<longleftrightarrow> (\<exists>th\<in>set receivers. msgh_size kmsg \<le> ith_msize th)"
    and "\<exists>n. rest = drop n receivers"
proof (atomize (full), use assms in \<open>induction receivers arbitrary: woken rest delivered\<close>)
  case Nil
  then show ?case by simp
next
  case (Cons th ths)
  show ?case
  proof (cases "msgh_size kmsg \<le> ith_msize th")
    case True
    with Cons.prems show ?thesis by (auto intro: exI [of _ 1])
  next
    case False
    obtain w r d where f: "find_receiver kmsg seqno ths = (w, r, d)" by (metis prod_cases3)
    from Cons.IH [OF f] Cons.prems False f show ?thesis
      by (auto intro: exI [of _ "Suc _"])
  qed
qed

lemma mqueue_post_spec:
  assumes "mqueue_post kmsg seqno mq = (mq', seqno', woken)" and "mqueue_ok mq"
  shows "mqueue_ok mq'"
    and "numbered seqno (map fst (deliveries woken)) = deliveries woken"
    and "seqno' = seqno + of_nat (length (deliveries woken))"
    and "deliveries woken = [] \<and> imq_threads mq' = [] \<and> imq_messages mq' = imq_messages mq @ [kmsg] \<or>
         map fst (deliveries woken) = [kmsg] \<and> imq_messages mq' = imq_messages mq \<and> imq_messages mq = []"
    and "map ith_addr (imq_threads mq) = map ith_addr woken @ map ith_addr (imq_threads mq')"
proof -
  obtain w r d where f: "find_receiver kmsg seqno (imq_threads mq) = (w, r, d)" by (metis prod_cases3)
  note F = find_receiver_spec [OF f]
  from F(4) have "d \<Longrightarrow> imq_threads mq \<noteq> []" by auto
  with assms f F(1-3)
  show "mqueue_ok mq'"
    and "numbered seqno (map fst (deliveries woken)) = deliveries woken"
    and "seqno' = seqno + of_nat (length (deliveries woken))"
    and "deliveries woken = [] \<and> imq_threads mq' = [] \<and> imq_messages mq' = imq_messages mq @ [kmsg] \<or>
         map fst (deliveries woken) = [kmsg] \<and> imq_messages mq' = imq_messages mq \<and> imq_messages mq = []"
    and "map ith_addr (imq_threads mq) = map ith_addr woken @ map ith_addr (imq_threads mq')"
    by (cases d; auto simp: mqueue_post_def mqueue_ok_def)+
qed

text \<open>
  Who gets a message: the first thread with room for it.  The threads before it have no room; they are
  told the size of the message.
\<close>

lemma find_receiver_split:
  "\<exists>small later. receivers = small @ later \<and> (\<forall>th\<in>set small. ith_msize th < msgh_size kmsg) \<and>
     (case later of
        [] \<Rightarrow> find_receiver kmsg seqno receivers =
          (map (\<lambda>th. th\<lparr>ith_state := MACH_RCV_TOO_LARGE, ith_msize := msgh_size kmsg\<rparr>) small, [], False)
      | th # waiting \<Rightarrow> msgh_size kmsg \<le> ith_msize th \<and> find_receiver kmsg seqno receivers =
          (map (\<lambda>th. th\<lparr>ith_state := MACH_RCV_TOO_LARGE, ith_msize := msgh_size kmsg\<rparr>) small @
             [th\<lparr>ith_state := MACH_MSG_SUCCESS, ith_kmsg := Some kmsg, ith_seqno := seqno\<rparr>], waiting, True))"
proof (induction receivers)
  case Nil
  show ?case by (intro exI [of _ "[]"]) simp
next
  case (Cons th ths)
  show ?case
  proof (cases "msgh_size kmsg \<le> ith_msize th")
    case True
    then show ?thesis by (intro exI [of _ "[]"] exI [of _ "th # ths"]) simp
  next
    case False
    from Cons.IH obtain small later where "ths = small @ later" "\<forall>th\<in>set small. ith_msize th < msgh_size kmsg"
        and "case later of
          [] \<Rightarrow> find_receiver kmsg seqno ths =
            (map (\<lambda>th. th\<lparr>ith_state := MACH_RCV_TOO_LARGE, ith_msize := msgh_size kmsg\<rparr>) small, [], False)
        | th # waiting \<Rightarrow> msgh_size kmsg \<le> ith_msize th \<and> find_receiver kmsg seqno ths =
            (map (\<lambda>th. th\<lparr>ith_state := MACH_RCV_TOO_LARGE, ith_msize := msgh_size kmsg\<rparr>) small @
               [th\<lparr>ith_state := MACH_MSG_SUCCESS, ith_kmsg := Some kmsg, ith_seqno := seqno\<rparr>], waiting, True)" by blast
    with False show ?thesis
      by (intro exI [of _ "th # small"] exI [of _ later]) (cases later; simp add: not_le)
  qed
qed

lemma mqueue_post_first_with_room:
  assumes "mqueue_post kmsg seqno mq = (mq', seqno', woken)"
  shows "\<exists>small later. imq_threads mq = small @ later \<and> (\<forall>th\<in>set small. ith_msize th < msgh_size kmsg) \<and>
     (case later of
        [] \<Rightarrow> woken = map (\<lambda>th. th\<lparr>ith_state := MACH_RCV_TOO_LARGE, ith_msize := msgh_size kmsg\<rparr>) small \<and>
          mq' = mq\<lparr>imq_threads := [], imq_messages := imq_messages mq @ [kmsg]\<rparr> \<and> seqno' = seqno
      | th # waiting \<Rightarrow> msgh_size kmsg \<le> ith_msize th \<and>
          woken = map (\<lambda>th. th\<lparr>ith_state := MACH_RCV_TOO_LARGE, ith_msize := msgh_size kmsg\<rparr>) small @
            [th\<lparr>ith_state := MACH_MSG_SUCCESS, ith_kmsg := Some kmsg, ith_seqno := seqno\<rparr>] \<and>
          mq' = mq\<lparr>imq_threads := waiting\<rparr> \<and> seqno' = seqno + 1)"
proof -
  from find_receiver_split [of "imq_threads mq" kmsg seqno] obtain small later
    where s: "imq_threads mq = small @ later" "\<forall>th\<in>set small. ith_msize th < msgh_size kmsg"
      and c: "case later of
          [] \<Rightarrow> find_receiver kmsg seqno (imq_threads mq) =
            (map (\<lambda>th. th\<lparr>ith_state := MACH_RCV_TOO_LARGE, ith_msize := msgh_size kmsg\<rparr>) small, [], False)
        | th # waiting \<Rightarrow> msgh_size kmsg \<le> ith_msize th \<and> find_receiver kmsg seqno (imq_threads mq) =
            (map (\<lambda>th. th\<lparr>ith_state := MACH_RCV_TOO_LARGE, ith_msize := msgh_size kmsg\<rparr>) small @
               [th\<lparr>ith_state := MACH_MSG_SUCCESS, ith_kmsg := Some kmsg, ith_seqno := seqno\<rparr>], waiting, True)" by blast
  with assms show ?thesis
    by (intro exI [of _ small] exI [of _ later]) (cases later; auto simp: mqueue_post_def)
qed

text \<open>
  Moving: the messages for other ports stay, in order; those for the port are first handed to
  waiting threads with consecutive sequence numbers, and the rest is appended, in order.
\<close>

lemma mqueue_move_loop_spec:
  assumes "mqueue_move_loop port oldq seqno dest = (kept, dest', seqno', woken)" and "mqueue_ok dest"
  shows "kept = filter (\<lambda>k. msgh_remote_port k \<noteq> port) oldq"
    and "mqueue_ok dest'"
    and "\<exists>queued. imq_messages dest' = imq_messages dest @ queued \<and>
      map fst (deliveries woken) @ queued = filter (\<lambda>k. msgh_remote_port k = port) oldq \<and>
      (deliveries woken \<noteq> [] \<longrightarrow> imq_messages dest = [])"
    and "numbered seqno (map fst (deliveries woken)) = deliveries woken"
    and "seqno' = seqno + of_nat (length (deliveries woken))"
    and "map ith_addr (imq_threads dest) = map ith_addr woken @ map ith_addr (imq_threads dest')"
proof (atomize (full), use assms in \<open>induction oldq arbitrary: seqno seqno' dest dest' kept woken\<close>)
  case Nil
  then show ?case by auto
next
  case (Cons k oldq)
  show ?case
  proof (cases "msgh_remote_port k = port")
    case False
    obtain l d s w where f: "mqueue_move_loop port oldq seqno dest = (l, d, s, w)" by (metis prod_cases4)
    with Cons.IH [OF f Cons.prems(2)] Cons.prems(1) False show ?thesis by (auto simp: f)
  next
    case True
    obtain d1 s1 w1 where p: "mqueue_post k seqno dest = (d1, s1, w1)" by (metis prod_cases3)
    note P = mqueue_post_spec [OF p Cons.prems(2)]
    obtain l d s w where f: "mqueue_move_loop port oldq s1 d1 = (l, d, s, w)" by (metis prod_cases4)
    from Cons.prems(1) True p f
    have e: "kept = l" "dest' = d" "seqno' = s" "woken = w1 @ w" by auto
    note IH = Cons.IH [OF f [folded e(2,3)] P(1), folded e]
    then obtain q where q: "imq_messages dest' = imq_messages d1 @ q"
      "map fst (deliveries w) @ q = filter (\<lambda>k. msgh_remote_port k = port) oldq"
      "deliveries w \<noteq> [] \<longrightarrow> imq_messages d1 = []" by blast
    from P(4) show ?thesis
    proof
      assume a: "deliveries w1 = [] \<and> imq_threads d1 = [] \<and> imq_messages d1 = imq_messages dest @ [k]"
      with q(3) have "deliveries w = []" by auto
      with a IH q P(3,5) True e show ?thesis
        by (intro conjI) (auto intro!: exI [of _ "k # q"])
    next
      assume a: "map fst (deliveries w1) = [k] \<and> imq_messages d1 = imq_messages dest \<and> imq_messages dest = []"
      then obtain s0 where s0: "deliveries w1 = [(k, s0)]" by (auto simp: map_eq_Cons_conv)
      with P(2) have "s0 = seqno" by auto
      with a s0 IH q P(3,5) True e show ?thesis
        by (intro conjI) (auto intro!: exI [of _ q])
    qed
  qed
qed

lemma ipc_mqueue_move_spec:
  assumes "ipc_mqueue_move dest source port seqno = (dest', source', seqno', woken)" and "mqueue_ok dest"
  shows "imq_messages source' = filter (\<lambda>k. msgh_remote_port k \<noteq> port) (imq_messages source)"
    and "imq_threads source' = imq_threads source"
    and "mqueue_ok dest'"
    and "\<exists>queued. imq_messages dest' = imq_messages dest @ queued \<and>
      map fst (deliveries woken) @ queued = filter (\<lambda>k. msgh_remote_port k = port) (imq_messages source)"
    and "deliveries woken = numbered seqno (map fst (deliveries woken))"
    and "seqno' = seqno + of_nat (length (deliveries woken))"
proof -
  obtain l d s w where f: "mqueue_move_loop port (imq_messages source) seqno dest = (l, d, s, w)" by (metis prod_cases4)
  with assms(1) have e: "dest' = d" "source' = source\<lparr>imq_messages := l\<rparr>" "seqno' = s" "woken = w"
    by (auto simp: ipc_mqueue_move_def)
  note M = mqueue_move_loop_spec [OF f assms(2), folded e]
  show "imq_messages source' = filter (\<lambda>k. msgh_remote_port k \<noteq> port) (imq_messages source)"
    "imq_threads source' = imq_threads source" "mqueue_ok dest'"
    "seqno' = seqno + of_nat (length (deliveries woken))"
    "deliveries woken = numbered seqno (map fst (deliveries woken))"
    using M e by auto
  show "\<exists>queued. imq_messages dest' = imq_messages dest @ queued \<and>
      map fst (deliveries woken) @ queued = filter (\<lambda>k. msgh_remote_port k = port) (imq_messages source)"
    using M(3) by blast
qed

end
