(* ===== verification/Ipc_Queue.thy ===== *)
theory Ipc_Queue
  imports Ipc_Mqueue
begin

section \<open>The rings under the queues\<close>

text \<open>
  The queues of messages (\<open>ipc/ipc_kmsg.h\<close>, \<open>ipc/ipc_kmsg.c\<close>) and of threads (\<open>ipc/ipc_thread.h\<close>,
  \<open>ipc/ipc_thread.c\<close>) are doubly linked rings: the queue points to the first element, whose
  predecessor is the last.  The links of every object are two functions on addresses, and the
  assignments are made one after the other, as in the code.  The theory shows that the rings
  implement lists.
\<close>

record ipc_ring =
  ring_next :: "addr \<Rightarrow> addr"
  ring_prev :: "addr \<Rightarrow> addr"
  ring_base :: addr

definition set_next :: "addr \<Rightarrow> addr \<Rightarrow> ipc_ring \<Rightarrow> ipc_ring" where
  "set_next a b q = q\<lparr>ring_next := (ring_next q)(a := b)\<rparr>"

definition set_prev :: "addr \<Rightarrow> addr \<Rightarrow> ipc_ring \<Rightarrow> ipc_ring" where
  "set_prev a b q = q\<lparr>ring_prev := (ring_prev q)(a := b)\<rparr>"

definition set_base :: "addr \<Rightarrow> ipc_ring \<Rightarrow> ipc_ring" where
  "set_base a q = q\<lparr>ring_base := a\<rparr>"

lemma set_simps [simp]:
  "ring_next (set_next a b q) = (ring_next q)(a := b)" "ring_prev (set_next a b q) = ring_prev q"
  "ring_base (set_next a b q) = ring_base q"
  "ring_prev (set_prev a b q) = (ring_prev q)(a := b)" "ring_next (set_prev a b q) = ring_next q"
  "ring_base (set_prev a b q) = ring_base q"
  "ring_base (set_base a q) = a" "ring_next (set_base a q) = ring_next q"
  "ring_prev (set_base a q) = ring_prev q"
  by (simp_all add: set_next_def set_prev_def set_base_def)

subsection \<open>Messages\<close>

definition ipc_kmsg_queue_init :: "ipc_ring \<Rightarrow> ipc_ring" where
  "ipc_kmsg_queue_init queue = set_base 0 queue"

definition ipc_kmsg_queue_empty :: "ipc_ring \<Rightarrow> bool" where
  "ipc_kmsg_queue_empty queue \<longleftrightarrow> ring_base queue = 0"

definition ipc_kmsg_enqueue :: "ipc_ring \<Rightarrow> addr \<Rightarrow> ipc_ring" where
  "ipc_kmsg_enqueue queue kmsg =
     (let first = ring_base queue in
      if first = 0 then set_prev kmsg kmsg (set_next kmsg kmsg (set_base kmsg queue))
      else let last = ring_prev queue first in
        set_next last kmsg (set_prev first kmsg (set_prev kmsg last (set_next kmsg first queue))))"

definition ipc_kmsg_rmqueue_first :: "ipc_ring \<Rightarrow> addr \<Rightarrow> ipc_ring" where
  "ipc_kmsg_rmqueue_first queue kmsg =
     (let next = ring_next queue kmsg in
      if next = kmsg then set_base 0 queue
      else let prev = ring_prev queue kmsg in
        set_next prev next (set_prev next prev (set_base next queue)))"

definition ipc_kmsg_dequeue :: "ipc_ring \<Rightarrow> addr \<times> ipc_ring" where
  "ipc_kmsg_dequeue queue =
     (let first = ring_base queue in
      if first \<noteq> 0 then (first, ipc_kmsg_rmqueue_first queue first) else (first, queue))"

definition ipc_kmsg_rmqueue :: "ipc_ring \<Rightarrow> addr \<Rightarrow> ipc_ring" where
  "ipc_kmsg_rmqueue queue kmsg =
     (let next = ring_next queue kmsg; prev = ring_prev queue kmsg in
      if next = kmsg then set_base 0 queue
      else let queue1 = (if ring_base queue = kmsg then set_base next queue else queue) in
        set_next prev next (set_prev next prev queue1))"

definition ipc_kmsg_queue_next :: "ipc_ring \<Rightarrow> addr \<Rightarrow> addr" where
  "ipc_kmsg_queue_next queue kmsg =
     (let next = ring_next queue kmsg in if ring_base queue = next then 0 else next)"

subsection \<open>Threads\<close>

text \<open>A thread in no queue is linked to itself, and putting it in an empty queue relies on that.\<close>

definition ipc_thread_links_init :: "addr \<Rightarrow> ipc_ring \<Rightarrow> ipc_ring" where
  "ipc_thread_links_init thread q = set_prev thread thread (set_next thread thread q)"

definition ipc_thread_enqueue :: "ipc_ring \<Rightarrow> addr \<Rightarrow> ipc_ring" where
  "ipc_thread_enqueue queue thread =
     (let first = ring_base queue in
      if first = 0 then set_base thread queue
      else let last = ring_prev queue first in
        set_next last thread (set_prev first thread (set_prev thread last (set_next thread first queue))))"

definition ipc_thread_rmqueue_first :: "ipc_ring \<Rightarrow> addr \<Rightarrow> ipc_ring" where
  "ipc_thread_rmqueue_first queue thread =
     (let next = ring_next queue thread in
      if next = thread then set_base 0 queue
      else let prev = ring_prev queue thread in
        ipc_thread_links_init thread (set_next prev next (set_prev next prev (set_base next queue))))"

definition ipc_thread_dequeue :: "ipc_ring \<Rightarrow> addr \<times> ipc_ring" where
  "ipc_thread_dequeue queue =
     (let first = ring_base queue in
      if first \<noteq> 0 then (first, ipc_thread_rmqueue_first queue first) else (first, queue))"

definition ipc_thread_rmqueue :: "ipc_ring \<Rightarrow> addr \<Rightarrow> ipc_ring" where
  "ipc_thread_rmqueue queue thread =
     (let next = ring_next queue thread; prev = ring_prev queue thread in
      if next = thread then set_base 0 queue
      else let queue1 = (if ring_base queue = thread then set_base next queue else queue) in
        ipc_thread_links_init thread (set_next prev next (set_prev next prev queue1)))"

section \<open>Rings represent lists\<close>

abbreviation linked :: "ipc_ring \<Rightarrow> addr \<Rightarrow> addr \<Rightarrow> bool" where
  "linked q a b \<equiv> ring_next q a = b \<and> ring_prev q b = a"

definition cyclic :: "ipc_ring \<Rightarrow> addr list \<Rightarrow> bool" where
  "cyclic q xs \<longleftrightarrow> xs \<noteq> [] \<longrightarrow> successively (linked q) (xs @ [hd xs])"

definition ring_list :: "ipc_ring \<Rightarrow> addr list \<Rightarrow> bool" where
  "ring_list q xs \<longleftrightarrow> distinct xs \<and> 0 \<notin> set xs \<and> ring_base q = (if xs = [] then 0 else hd xs) \<and> cyclic q xs"

lemma cyclic_append:
  assumes "A \<noteq> []" and "B \<noteq> []"
  shows "cyclic q (A @ B) \<longleftrightarrow> successively (linked q) A \<and> successively (linked q) B \<and>
    linked q (last A) (hd B) \<and> linked q (last B) (hd A)"
  using assms by (auto simp: cyclic_def successively_append_iff)

lemma cyclic_rotate: "cyclic q (A @ B) \<Longrightarrow> cyclic q (B @ A)"
  by (cases "A = [] \<or> B = []") (auto simp: cyclic_append)

lemma cyclic_Cons: "cyclic q (a # ys) \<longleftrightarrow> successively (linked q) (a # ys @ [a])"
  by (simp add: cyclic_def)

lemma cyclic_ends:
  assumes "cyclic q (a # ys)"
  shows "ring_prev q a = last (a # ys)" and "ring_next q (last (a # ys)) = a"
    and "ring_next q a = hd (ys @ [a])"
proof -
  have "successively (linked q) ((a # ys) @ [a])" using assms by (simp add: cyclic_Cons)
  then show "ring_prev q a = last (a # ys)" "ring_next q (last (a # ys)) = a"
    unfolding successively_append_iff by auto
  show "ring_next q a = hd (ys @ [a])" using assms by (cases ys) (auto simp: cyclic_Cons)
qed

text \<open>Only the successor of the last element and the predecessor of the first may differ.\<close>

lemma successively_upd:
  assumes "successively (linked q) xs" and "distinct xs"
    and "\<And>a. a \<in> set (butlast xs) \<Longrightarrow> ring_next q' a = ring_next q a"
    and "\<And>a. a \<in> set (tl xs) \<Longrightarrow> ring_prev q' a = ring_prev q a"
  shows "successively (linked q') xs"
  using assms
proof (induction xs)
  case (Cons a xs)
  show ?case
  proof (cases xs)
    case (Cons b ys)
    with Cons.prems(1) have l: "linked q a b" "successively (linked q) xs" by auto
    have "linked q' a b" using l(1) Cons.prems(3) [of a] Cons.prems(4) [of b] Cons by auto
    moreover have "successively (linked q') xs"
      by (rule Cons.IH [OF l(2)]) (use Cons.prems Cons in \<open>auto dest: list.set_sel(2)\<close>)
    ultimately show ?thesis using Cons by simp
  qed simp
qed simp

lemma cyclic_single: "cyclic q [a] \<longleftrightarrow> ring_next q a = a \<and> ring_prev q a = a"
  by (auto simp: cyclic_def)

lemma last_notin_butlast: "distinct xs \<Longrightarrow> xs \<noteq> [] \<Longrightarrow> last xs \<notin> set (butlast xs)"
  by (metis append_butlast_last_id distinct_append disjoint_iff list.set_intros(1))

text \<open>Linking \<open>k\<close> in behind the last element.\<close>

lemma cyclic_link:
  assumes "cyclic q (a # ys)" and "distinct (a # ys)" and "k \<notin> set (a # ys)"
    and "ring_next q' = (ring_next q)(k := a, last (a # ys) := k)"
    and "ring_prev q' = (ring_prev q)(k := last (a # ys), a := k)"
  shows "cyclic q' (a # ys @ [k])" and "ring_prev q a = last (a # ys)"
proof -
  have s: "successively (linked q) (a # ys)" and l: "ring_prev q a = last (a # ys)"
    using assms(1) by (auto simp: cyclic_Cons successively_append_iff simp flip: append_Cons)
  have d: "last (a # ys) \<notin> set (butlast (a # ys))" using assms(2) by (intro last_notin_butlast) auto
  have "successively (linked q') (a # ys)"
    by (rule successively_upd [OF s assms(2)])
      (use assms d in \<open>auto dest: in_set_butlastD split: if_splits\<close>)
  moreover have "linked q' (last (a # ys)) k" "linked q' k a"
    using assms(3-5) by (auto split: if_splits)
  ultimately have "cyclic q' ((a # ys) @ [k])" by (subst cyclic_append) auto
  then show "cyclic q' (a # ys @ [k])" by simp
  show "ring_prev q a = last (a # ys)" by (fact l)
qed

text \<open>Unlinking the first element.\<close>

lemma cyclic_unlink:
  assumes "cyclic q (k # b # ys)" and "distinct (k # b # ys)"
    and "\<And>x. x \<noteq> k \<Longrightarrow> ring_next q' x = ((ring_next q)(last (b # ys) := b)) x"
    and "\<And>x. x \<noteq> k \<Longrightarrow> ring_prev q' x = ((ring_prev q)(b := last (b # ys))) x"
  shows "cyclic q' (b # ys)" and "ring_next q k = b" and "ring_prev q k = last (b # ys)"
proof -
  have s: "successively (linked q) (b # ys)" and n: "ring_next q k = b"
    and l: "ring_prev q k = last (b # ys)"
    using assms(1) by (auto simp: cyclic_Cons successively_append_iff successively_Cons simp flip: append_Cons)
  have nl: "last (b # ys) \<noteq> k" using assms(2) by (metis distinct.simps(2) last_in_set list.distinct(1))
  have d: "last (b # ys) \<notin> set (butlast (b # ys))" using assms(2) by (intro last_notin_butlast) auto
  have "successively (linked q') (b # ys)"
  proof (rule successively_upd [OF s])
    show "distinct (b # ys)" using assms(2) by simp
    fix x assume x: "x \<in> set (butlast (b # ys))"
    then have "x \<noteq> k" using assms(2) by (auto dest: in_set_butlastD split: if_splits)
    then show "ring_next q' x = ring_next q x" using assms(3) x d by auto
  next
    fix x assume x: "x \<in> set (tl (b # ys))"
    then have "x \<noteq> k" "x \<noteq> b" using assms(2) by auto
    then show "ring_prev q' x = ring_prev q x" using assms(4) by auto
  qed
  then show "cyclic q' (b # ys)" using assms(2-4) nl
    by (auto simp: cyclic_Cons successively_append_iff simp flip: append_Cons)
  show "ring_next q k = b" "ring_prev q k = last (b # ys)" by (fact n l)+
qed

section \<open>The interface: a queue\<close>

text \<open>
  What the users of a queue rely on.  \<open>own\<close> are the objects that are in this queue or in none.
\<close>

locale fifo =
  fixes repr :: "ipc_ring \<Rightarrow> addr list \<Rightarrow> bool" and own :: "addr set"
    and enq :: "ipc_ring \<Rightarrow> addr \<Rightarrow> ipc_ring" and deq :: "ipc_ring \<Rightarrow> addr \<times> ipc_ring"
    and rm :: "ipc_ring \<Rightarrow> addr \<Rightarrow> ipc_ring"
  assumes enq: "repr q xs \<Longrightarrow> k \<in> own \<Longrightarrow> k \<notin> set xs \<Longrightarrow> repr (enq q k) (xs @ [k])"
    and deq_Nil: "repr q [] \<Longrightarrow> deq q = (0, q)"
    and deq_Cons: "repr q (k # xs) \<Longrightarrow> fst (deq q) = k \<and> repr (snd (deq q)) xs"
    and rm: "repr q (A @ k # B) \<Longrightarrow> repr (rm q k) (A @ B)"
    and null: "repr q xs \<Longrightarrow> 0 \<notin> set xs"
begin

text \<open>Dequeue until the queue is empty, as the loops of the kernel do; \<open>fuel\<close> bounds the rounds.\<close>

fun drain :: "nat \<Rightarrow> ipc_ring \<Rightarrow> (addr list \<times> ipc_ring) option" where
  "drain 0 q = None"
| "drain (Suc fuel) q =
     (let (k, q') = deq q in
      if k = 0 then Some ([], q')
      else map_option (\<lambda>(ks, q''). (k # ks, q'')) (drain fuel q'))"

lemma drain_spec:
  assumes "repr q xs" and "length xs < fuel"
  shows "\<exists>q'. drain fuel q = Some (xs, q') \<and> repr q' []"
  using assms
proof (induction xs arbitrary: q fuel)
  case Nil
  then obtain f where "fuel = Suc f" by (cases fuel) auto
  with Nil deq_Nil show ?case by auto
next
  case (Cons k xs)
  then obtain f where f: "fuel = Suc f" "length xs < f" by (cases fuel) auto
  from deq_Cons [OF Cons.prems(1)] have d: "deq q = (k, snd (deq q))" "repr (snd (deq q)) xs"
    by (auto simp: prod_eq_iff)
  from Cons.IH [OF d(2) f(2)] obtain q' where "drain f (snd (deq q)) = Some (xs, q')" "repr q' []" by blast
  moreover have "k \<noteq> 0" using null [OF Cons.prems(1)] by auto
  moreover have "fst (deq q) = k" using d(1) by (metis fst_conv)
  ultimately show ?case using f(1) by (auto simp: split_beta)
qed

text \<open>First in, first out.\<close>

lemma fold_enq:
  "repr q xs \<Longrightarrow> set ks \<subseteq> own \<Longrightarrow> distinct (xs @ ks) \<Longrightarrow> repr (fold (\<lambda>k q. enq q k) ks q) (xs @ ks)"
proof (induction ks arbitrary: q xs)
  case (Cons k ks)
  then have "repr (enq q k) (xs @ [k])" by (auto intro: enq)
  with Cons.IH [of "enq q k" "xs @ [k]"] Cons.prems show ?case by auto
qed simp

lemma first_in_first_out:
  assumes "repr q []" and "set ks \<subseteq> own" and "distinct ks" and "length ks < fuel"
  shows "map_option fst (drain fuel (fold (\<lambda>k q. enq q k) ks q)) = Some ks"
  using drain_spec [OF fold_enq [of q "[]" ks], of fuel] assms by auto

end

subsection \<open>The message queues provide it\<close>

lemma ring_list_Cons:
  "ring_list q (a # ys) \<longleftrightarrow> distinct (a # ys) \<and> 0 \<notin> set (a # ys) \<and> ring_base q = a \<and> cyclic q (a # ys)"
  by (auto simp: ring_list_def)

lemma kmsg_enqueue_list:
  assumes "ring_list q xs" and "k \<noteq> 0" and "k \<notin> set xs"
  shows "ring_list (ipc_kmsg_enqueue q k) (xs @ [k])"
proof (cases xs)
  case Nil
  with assms show ?thesis by (auto simp: ring_list_def ipc_kmsg_enqueue_def Let_def cyclic_single)
next
  case (Cons a ys)
  let ?q = "ipc_kmsg_enqueue q k"
  from assms Cons have q: "distinct (a # ys)" "ring_base q = a" "a \<noteq> 0" "cyclic q (a # ys)" "0 \<notin> set ys"
    by (auto simp: ring_list_def)
  have l: "ring_prev q a = last (a # ys)"
    using cyclic_ends(1) [OF q(4)] .
  have "cyclic ?q (a # ys @ [k])"
    by (rule cyclic_link(1) [OF q(4,1)])
      (use assms Cons q l in \<open>auto simp: ipc_kmsg_enqueue_def Let_def fun_eq_iff\<close>)
  moreover have "ring_base ?q = a" using q by (simp add: ipc_kmsg_enqueue_def Let_def)
  ultimately show ?thesis using assms Cons q by (auto simp: ring_list_Cons)
qed

lemma kmsg_rmqueue_front:
  assumes "ring_list q (k # xs)"
  shows "ring_list (ipc_kmsg_rmqueue_first q k) xs"
proof (cases xs)
  case Nil
  with assms show ?thesis by (auto simp: ring_list_def ipc_kmsg_rmqueue_first_def cyclic_def)
next
  case (Cons b ys)
  with assms have q: "distinct (k # b # ys)" "cyclic q (k # b # ys)" "0 \<notin> set (b # ys)" by (auto simp: ring_list_def)
  note U = cyclic_unlink [OF q(2,1)]
  have n: "ring_next q k = b" "ring_prev q k = last (b # ys)" using cyclic_ends [OF q(2)] by auto
  have "b \<noteq> k" using q(1) by auto
  with n have e: "ipc_kmsg_rmqueue_first q k = set_next (last (b # ys)) b (set_prev b (last (b # ys)) (set_base b q))"
    by (simp add: ipc_kmsg_rmqueue_first_def Let_def)
  have "cyclic (ipc_kmsg_rmqueue_first q k) (b # ys)" unfolding e by (rule U(1)) simp_all
  with q Cons show ?thesis by (auto simp: ring_list_Cons e)
qed

text \<open>Removal anywhere: the ring is rotated until the element is first.\<close>

lemma kmsg_rmqueue_list:
  assumes "ring_list q (A @ k # B)"
  shows "ring_list (ipc_kmsg_rmqueue q k) (A @ B)"
proof (cases "A @ B = []")
  case True
  with assms show ?thesis by (auto simp: ring_list_def ipc_kmsg_rmqueue_def cyclic_def Let_def)
next
  case False
  from assms have c: "cyclic q (k # B @ A)" and d: "distinct (k # B @ A)"
    using cyclic_rotate [of q A "k # B"] by (auto simp: ring_list_def)
  from False obtain b ys where b: "B @ A = b # ys" by (cases "B @ A") auto
  note U = cyclic_unlink [OF c [unfolded b] d [unfolded b]]
  have n: "ring_next q k = b" "ring_prev q k = last (b # ys)" using cyclic_ends [OF c [unfolded b]] by auto
  have nk: "b \<noteq> k" using d b by auto
  let ?q1 = "if ring_base q = k then set_base b q else q"
  have e: "ipc_kmsg_rmqueue q k = set_next (last (b # ys)) b (set_prev b (last (b # ys)) ?q1)"
    using n nk by (simp add: ipc_kmsg_rmqueue_def Let_def)
  have "cyclic (ipc_kmsg_rmqueue q k) (b # ys)" unfolding e by (rule U(1)) simp_all
  then have "cyclic (ipc_kmsg_rmqueue q k) (A @ B)" unfolding b [symmetric] by (rule cyclic_rotate)
  moreover have "ring_base (ipc_kmsg_rmqueue q k) = hd (A @ B)"
    using assms b by (cases A) (auto simp: e ring_list_def)
  ultimately show ?thesis using assms False by (auto simp: ring_list_def)
qed

lemma kmsg_queue_next_list:
  assumes "ring_list q (A @ k # B)"
  shows "ipc_kmsg_queue_next q k = (case B of [] \<Rightarrow> 0 | b # _ \<Rightarrow> b)"
proof -
  from assms have c: "cyclic q (k # B @ A)" and d: "distinct (A @ k # B)" and b: "ring_base q = hd (A @ [k])"
    using cyclic_rotate [of q A "k # B"] by (cases A; auto simp: ring_list_def)+
  have n: "ring_next q k = hd ((B @ A) @ [k])" by (rule cyclic_ends(3) [OF c])
  show ?thesis
  proof (cases B)
    case Nil
    with n b show ?thesis by (simp add: ipc_kmsg_queue_next_def)
  next
    case (Cons x ys)
    with n b d have "ring_next q k = x" "ring_base q \<noteq> x" by (cases A; auto)+
    with Cons show ?thesis by (simp add: ipc_kmsg_queue_next_def)
  qed
qed

interpretation kmsgs: fifo ring_list "- {0}" ipc_kmsg_enqueue ipc_kmsg_dequeue ipc_kmsg_rmqueue
proof
  show "ring_list (ipc_kmsg_enqueue q k) (xs @ [k])" if "ring_list q xs" "k \<in> - {0}" "k \<notin> set xs" for q xs k
    using that by (intro kmsg_enqueue_list) auto
  show "ring_list (ipc_kmsg_rmqueue q k) (A @ B)" if "ring_list q (A @ k # B)" for q A k B
    using that by (rule kmsg_rmqueue_list)
  show "fst (ipc_kmsg_dequeue q) = k \<and> ring_list (snd (ipc_kmsg_dequeue q)) xs" if "ring_list q (k # xs)" for q k xs
    using that kmsg_rmqueue_front [OF that] by (auto simp: ipc_kmsg_dequeue_def ring_list_def Let_def)
qed (auto simp: ipc_kmsg_dequeue_def ring_list_def)

subsection \<open>So do the thread queues\<close>

definition detached :: "ipc_ring \<Rightarrow> addr \<Rightarrow> bool" where
  "detached q a \<longleftrightarrow> ring_next q a = a \<and> ring_prev q a = a"

definition thread_list :: "addr set \<Rightarrow> ipc_ring \<Rightarrow> addr list \<Rightarrow> bool" where
  "thread_list D q xs \<longleftrightarrow> ring_list q xs \<and> (\<forall>a\<in>D - set xs. a \<noteq> 0 \<longrightarrow> detached q a)"

lemma cyclic_cong:
  assumes "\<And>a. a \<in> set xs \<Longrightarrow> ring_next q' a = ring_next q a \<and> ring_prev q' a = ring_prev q a"
  shows "cyclic q' xs = cyclic q xs"
proof -
  have "successively (linked q') zs = successively (linked q) zs" if "set zs \<subseteq> set xs" for zs
    using that
  proof (induction zs)
    case (Cons a zs)
    then show ?case using assms by (cases zs) (auto simp: successively_Cons)
  qed simp
  from this [of "xs @ [hd xs]"] show ?thesis by (auto simp: cyclic_def)
qed

lemma ring_list_cong:
  assumes "ring_base q' = ring_base q"
    and "\<And>a. a \<in> set xs \<Longrightarrow> ring_next q' a = ring_next q a \<and> ring_prev q' a = ring_prev q a"
  shows "ring_list q' xs = ring_list q xs"
  using assms(1) cyclic_cong [of xs q' q, OF assms(2)] by (simp add: ring_list_def)

lemma thread_rmqueue_kmsg:
  assumes "ring_next q k \<noteq> k"
  shows "ipc_thread_rmqueue q k = ipc_thread_links_init k (ipc_kmsg_rmqueue q k)"
    and "ring_base q = k \<Longrightarrow> ipc_thread_rmqueue_first q k = ipc_thread_links_init k (ipc_kmsg_rmqueue q k)"
  using assms by (simp_all add: ipc_thread_rmqueue_def ipc_thread_rmqueue_first_def ipc_kmsg_rmqueue_def Let_def)

lemma cyclic_alone:
  assumes "cyclic q (A @ k # B)" and "distinct (A @ k # B)"
  shows "ring_next q k = k \<longleftrightarrow> A @ B = []"
proof
  assume n: "ring_next q k = k"
  show "A @ B = []"
  proof (rule ccontr)
    assume "A @ B \<noteq> []"
    then obtain b ys where b: "B @ A = b # ys" by (cases "B @ A") auto
    have c: "cyclic q (k # b # ys)" and d: "distinct (k # b # ys)"
      unfolding b [symmetric] using cyclic_rotate [of q A "k # B"] assms by auto
    have "ring_next q k = b" using c by (auto simp: cyclic_Cons)
    with n d show False by auto
  qed
qed (use assms in \<open>auto simp: cyclic_single\<close>)

lemma kmsg_rmqueue_links:
  assumes "ring_list q (A @ k # B)" and "a \<notin> set (A @ B)"
  shows "ring_next (ipc_kmsg_rmqueue q k) a = ring_next q a" "ring_prev (ipc_kmsg_rmqueue q k) a = ring_prev q a"
proof -
  have "ring_next (ipc_kmsg_rmqueue q k) a = ring_next q a \<and> ring_prev (ipc_kmsg_rmqueue q k) a = ring_prev q a"
  proof (cases "A @ B = []")
    case True
    with assms show ?thesis by (auto simp: ring_list_def ipc_kmsg_rmqueue_def cyclic_single Let_def)
  next
    case False
    then obtain b ys where b: "B @ A = b # ys" by (cases "B @ A") auto
    have c: "cyclic q (k # b # ys)" and d: "distinct (k # b # ys)"
      unfolding b [symmetric] using cyclic_rotate [of q A "k # B"] assms(1) by (auto simp: ring_list_def)
    have "set (A @ B) = set (b # ys)" using b by (metis set_append sup_commute)
    then have "a \<notin> set (b # ys)" using assms(2) by argo
    moreover have "last (b # ys) \<in> set (b # ys)" by (rule last_in_set) simp
    ultimately have "b \<noteq> a" "last (b # ys) \<noteq> a" by (metis list.set_intros(1))+
    note ne = this
    have n: "ring_next q k = b" "ring_prev q k = last (b # ys)" using cyclic_ends [OF c] by auto
    from ne show ?thesis unfolding ipc_kmsg_rmqueue_def Let_def n by simp
  qed
  then show "ring_next (ipc_kmsg_rmqueue q k) a = ring_next q a" "ring_prev (ipc_kmsg_rmqueue q k) a = ring_prev q a"
    by auto
qed

lemma thread_rmqueue_list:
  assumes "thread_list D q (A @ k # B)"
  shows "thread_list D (ipc_thread_rmqueue q k) (A @ B)"
    and "A = [] \<Longrightarrow> ipc_thread_rmqueue_first q k = ipc_thread_rmqueue q k"
proof -
  from assms have r: "ring_list q (A @ k # B)" and D: "\<forall>a\<in>D - set (A @ k # B). a \<noteq> 0 \<longrightarrow> detached q a"
    by (auto simp: thread_list_def)
  then have c: "cyclic q (A @ k # B)" "distinct (A @ k # B)" by (auto simp: ring_list_def)
  note L = kmsg_rmqueue_links [OF r]
  have k: "ring_next q k = k \<Longrightarrow> detached q k"
    using cyclic_alone [OF c] c(1) by (auto simp: detached_def cyclic_single)
  have "ring_list (ipc_thread_rmqueue q k) (A @ B) \<and>
    (\<forall>a. a \<notin> set (A @ B) \<longrightarrow> (a \<noteq> k \<longrightarrow> detached q a) \<longrightarrow> detached (ipc_thread_rmqueue q k) a)"
  proof (cases "ring_next q k = k")
    case True
    then have "ipc_thread_rmqueue q k = ipc_kmsg_rmqueue q k"
      by (simp add: ipc_thread_rmqueue_def ipc_kmsg_rmqueue_def Let_def)
    with kmsg_rmqueue_list [OF r] L k True show ?thesis by (auto simp: detached_def)
  next
    case False
    have "ring_list (ipc_thread_rmqueue q k) (A @ B) = ring_list (ipc_kmsg_rmqueue q k) (A @ B)"
      unfolding thread_rmqueue_kmsg(1) [OF False]
      by (rule ring_list_cong) (use c(2) in \<open>auto simp: ipc_thread_links_init_def\<close>)
    with kmsg_rmqueue_list [OF r] L show ?thesis
      unfolding thread_rmqueue_kmsg(1) [OF False] by (auto simp: detached_def ipc_thread_links_init_def)
  qed
  with D show "thread_list D (ipc_thread_rmqueue q k) (A @ B)" by (auto simp: thread_list_def)
  show "ipc_thread_rmqueue_first q k = ipc_thread_rmqueue q k" if "A = []"
    using r that by (simp add: ring_list_def ipc_thread_rmqueue_first_def ipc_thread_rmqueue_def Let_def)
qed

lemma thread_enqueue_list:
  assumes "thread_list D q xs" and "k \<in> D" and "k \<noteq> 0" and "k \<notin> set xs"
  shows "thread_list D (ipc_thread_enqueue q k) (xs @ [k])"
proof (cases xs)
  case Nil
  with assms show ?thesis
    by (auto simp: thread_list_def ring_list_def ipc_thread_enqueue_def cyclic_single detached_def Let_def)
next
  case (Cons a ys)
  from assms have r: "ring_list q xs" by (simp add: thread_list_def)
  with Cons have a: "ring_base q = a" "a \<noteq> 0" "cyclic q (a # ys)" by (auto simp: ring_list_def)
  have "ring_prev q a = last (a # ys)"
    using cyclic_ends(1) [OF a(3)] .
  then have l: "ring_prev q a \<in> set xs" using last_in_set [of xs] Cons by auto
  from a have e: "ipc_thread_enqueue q k = ipc_kmsg_enqueue q k"
    by (simp add: ipc_thread_enqueue_def ipc_kmsg_enqueue_def Let_def)
  have "ring_next (ipc_kmsg_enqueue q k) b = ring_next q b \<and> ring_prev (ipc_kmsg_enqueue q k) b = ring_prev q b"
    if "b \<notin> set (xs @ [k])" for b using that a l Cons by (auto simp: ipc_kmsg_enqueue_def Let_def)
  with assms kmsg_enqueue_list [OF r assms(3,4)] show ?thesis
    unfolding thread_list_def e by (auto simp: detached_def)
qed

interpretation threads: fifo "thread_list D" "D - {0}" ipc_thread_enqueue ipc_thread_dequeue ipc_thread_rmqueue
  for D
proof
  show "thread_list D (ipc_thread_enqueue q k) (xs @ [k])" if "thread_list D q xs" "k \<in> D - {0}" "k \<notin> set xs" for q xs k
    using that by (intro thread_enqueue_list) auto
  show "thread_list D (ipc_thread_rmqueue q k) (A @ B)" if "thread_list D q (A @ k # B)" for q A k B
    using that by (rule thread_rmqueue_list)
  show "fst (ipc_thread_dequeue q) = k \<and> thread_list D (snd (ipc_thread_dequeue q)) xs" if "thread_list D q (k # xs)" for q k xs
    using thread_rmqueue_list [of D q "[]" k xs] that by (auto simp: ipc_thread_dequeue_def thread_list_def ring_list_def Let_def)
qed (auto simp: ipc_thread_dequeue_def thread_list_def ring_list_def)

text \<open>A queue that shares the links but none of the objects is not disturbed.\<close>

lemma kmsg_enqueue_other:
  assumes "ring_list q xs" and "ring_list (set_base b q) ys" and "set xs \<inter> set ys = {}"
    and "k \<notin> set xs" and "k \<notin> set ys"
  shows "ring_list (set_base b (ipc_kmsg_enqueue q k)) ys"
proof (cases xs)
  case Nil
  with assms show ?thesis
    by (subst ring_list_cong [where q = "set_base b q"])
      (auto simp: ring_list_def ipc_kmsg_enqueue_def Let_def)
next
  case (Cons a zs)
  with assms(1) have a: "ring_base q = a" "a \<noteq> 0" "cyclic q (a # zs)" by (auto simp: ring_list_def)
  have "ring_prev q a = last (a # zs)"
    using cyclic_ends(1) [OF a(3)] .
  then have "ring_prev q a \<in> set xs" using last_in_set [of xs] Cons by auto
  with assms a Cons show ?thesis
    by (subst ring_list_cong [where q = "set_base b q"]) (auto simp: ipc_kmsg_enqueue_def Let_def)
qed

end
