(* ===== verification/Ipc_Marequest_Table.thy ===== *)
theory Ipc_Marequest_Table
  imports Ipc_Mqueue
begin

section \<open>The table of msg-accepted requests\<close>

text \<open>
  The hash table of \<open>ipc/ipc_marequest.c\<close>.  A request is named by its address; the chains of the
  buckets are lists of addresses, and the requests themselves are in a store, because a message
  keeps a pointer to its request after the request has left the table.
\<close>

record ipc_marequest =
  imar_space :: addr
  imar_name :: mach_port_t
  imar_soright :: addr

record imar_table =
  ipc_marequest_mask :: u32
  imarb_heads :: "addr list list"
  imar_at :: "addr \<Rightarrow> ipc_marequest option"

definition IMAR_HASH :: "u32 \<Rightarrow> addr \<Rightarrow> mach_port_t \<Rightarrow> nat" where
  "IMAR_HASH m space name =
     unat ((drop_bit 4 space + MACH_PORT_INDEX name + MACH_PORT_NGEN name) AND m)"

abbreviation imar_bucket :: "imar_table \<Rightarrow> addr \<Rightarrow> mach_port_t \<Rightarrow> nat" where
  "imar_bucket t \<equiv> IMAR_HASH (ipc_marequest_mask t)"

text \<open>
  The size of the table: \<open>ipc_marequest_size\<close> when it is configured, and the loop that rounds the
  mask up to one less than a power of two.  The fuel of the loop bounds the shifts of a 32-bit word.
\<close>

definition marequest_init_size :: "u32 \<Rightarrow> u32 \<Rightarrow> u32" where
  "marequest_init_size configured ipc_marequest_max =
     (if configured = 0
      then let sz = drop_bit 8 ipc_marequest_max in if sz < 16 then 16 else sz
      else configured)"

fun marequest_init_loop :: "nat \<Rightarrow> u32 \<Rightarrow> u32 \<Rightarrow> (u32 \<times> u32) option" where
  "marequest_init_loop 0 b m = None"
| "marequest_init_loop (Suc fuel) b m =
     (let m' = m OR b; sz = m' + 1
      in if sz AND m' = 0 then Some (sz, m') else marequest_init_loop fuel (push_bit 1 b) m')"

definition ipc_marequest_init :: "u32 \<Rightarrow> u32 \<Rightarrow> imar_table option" where
  "ipc_marequest_init configured ipc_marequest_max =
     do {
       let sz = marequest_init_size configured ipc_marequest_max;
       let m = sz - 1;
       (sz', m') \<leftarrow> (if sz AND m \<noteq> 0 then marequest_init_loop 32 1 m else Some (sz, m));
       Some \<lparr>ipc_marequest_mask = m', imarb_heads = replicate (unat sz') [], imar_at = \<lambda>_. None\<rparr>
     }"

text \<open>Putting a request first in its bucket.\<close>

definition imar_insert :: "addr \<Rightarrow> ipc_marequest \<Rightarrow> imar_table \<Rightarrow> imar_table" where
  "imar_insert a marequest t =
     (let i = imar_bucket t (imar_space marequest) (imar_name marequest)
      in t\<lparr>imarb_heads := (imarb_heads t)[i := a # imarb_heads t ! i],
           imar_at := (imar_at t)(a \<mapsto> marequest)\<rparr>)"

text \<open>
  The search that unlinks the request of a name.  The code asserts that it finds one, and would
  store through the null pointer otherwise: \<open>None\<close>.
\<close>

fun imar_unlink ::
    "(addr \<Rightarrow> ipc_marequest option) \<Rightarrow> addr \<Rightarrow> mach_port_t \<Rightarrow> addr list \<Rightarrow> (addr \<times> addr list) option" where
  "imar_unlink st space name [] = None"
| "imar_unlink st space name (a # as) =
     (case st a of
        None \<Rightarrow> None
      | Some marequest \<Rightarrow>
          if imar_space marequest = space \<and> imar_name marequest = name then Some (a, as)
          else map_option (\<lambda>(b, bs). (b, a # bs)) (imar_unlink st space name as))"

definition imar_remove :: "addr \<Rightarrow> mach_port_t \<Rightarrow> imar_table \<Rightarrow> (addr \<times> imar_table) option" where
  "imar_remove space name t =
     (let i = imar_bucket t space name
      in map_option (\<lambda>(a, as). (a, t\<lparr>imarb_heads := (imarb_heads t)[i := as]\<rparr>))
           (imar_unlink (imar_at t) space name (imarb_heads t ! i)))"

definition ipc_marequest_cancel :: "addr \<Rightarrow> mach_port_t \<Rightarrow> imar_table \<Rightarrow> imar_table option" where
  "ipc_marequest_cancel space name t =
     do {
       (a, t) \<leftarrow> imar_remove space name t;
       marequest \<leftarrow> imar_at t a;
       Some (t\<lparr>imar_at := (imar_at t)(a \<mapsto> marequest\<lparr>imar_name := MACH_PORT_NULL\<rparr>)\<rparr>)
     }"

definition ipc_marequest_rename :: "addr \<Rightarrow> mach_port_t \<Rightarrow> mach_port_t \<Rightarrow> imar_table \<Rightarrow> imar_table option" where
  "ipc_marequest_rename space old new t =
     do {
       (a, t) \<leftarrow> imar_remove space old t;
       marequest \<leftarrow> imar_at t a;
       Some (imar_insert a (marequest\<lparr>imar_name := new\<rparr>) t)
     }"

subsection \<open>The table as a map from names to requests\<close>

definition imar_is :: "imar_table \<Rightarrow> addr \<Rightarrow> mach_port_t \<Rightarrow> addr \<Rightarrow> bool" where
  "imar_is t space name a \<longleftrightarrow>
     (case imar_at t a of
        None \<Rightarrow> False
      | Some marequest \<Rightarrow> imar_space marequest = space \<and> imar_name marequest = name)"

definition imar_find :: "imar_table \<Rightarrow> addr \<Rightarrow> mach_port_t \<Rightarrow> addr option" where
  "imar_find t space name = find (imar_is t space name) (imarb_heads t ! imar_bucket t space name)"

text \<open>
  Every chain has the requests of its bucket, no request is in a chain twice, and no two requests
  in the table have the same space and name.
\<close>

definition imar_ok :: "imar_table \<Rightarrow> bool" where
  "imar_ok t \<longleftrightarrow>
     (\<forall>space name. imar_bucket t space name < length (imarb_heads t)) \<and>
     (\<forall>i<length (imarb_heads t). distinct (imarb_heads t ! i) \<and>
        (\<forall>a\<in>set (imarb_heads t ! i). \<exists>r. imar_at t a = Some r \<and> imar_bucket t (imar_space r) (imar_name r) = i)) \<and>
     (\<forall>i<length (imarb_heads t). \<forall>a\<in>set (imarb_heads t ! i). \<forall>b\<in>set (imarb_heads t ! i). \<forall>r q.
        imar_at t a = Some r \<and> imar_at t b = Some q \<and>
        imar_space r = imar_space q \<and> imar_name r = imar_name q \<longrightarrow> a = b)"

lemma option_eqI: "(\<And>b. x = Some b \<longleftrightarrow> y = Some b) \<Longrightarrow> x = y"
  by (cases x; cases y) auto

lemma imar_find_iff:
  assumes "imar_ok t"
  shows "imar_find t space name = Some a \<longleftrightarrow>
    a \<in> set (imarb_heads t ! imar_bucket t space name) \<and> imar_is t space name a"
proof
  assume "imar_find t space name = Some a"
  then show "a \<in> set (imarb_heads t ! imar_bucket t space name) \<and> imar_is t space name a"
    by (auto simp: imar_find_def find_Some_iff)
next
  let ?c = "imarb_heads t ! imar_bucket t space name"
  assume a: "a \<in> set ?c \<and> imar_is t space name a"
  then obtain b where b: "find (imar_is t space name) ?c = Some b"
    by (cases "find (imar_is t space name) ?c") (auto simp: find_None_iff)
  then have "b \<in> set ?c \<and> imar_is t space name b" by (auto simp: find_Some_iff)
  with a assms have "a = b" unfolding imar_ok_def imar_is_def by (auto split: option.splits) blast
  with b show "imar_find t space name = Some a" by (simp add: imar_find_def)
qed

lemma imar_unlink_spec:
  assumes "\<forall>a\<in>set as. st a \<noteq> None"
  shows "imar_unlink st space name as =
    map_option (\<lambda>a. (a, remove1 a as))
      (find (\<lambda>a. case st a of None \<Rightarrow> False | Some r \<Rightarrow> imar_space r = space \<and> imar_name r = name) as)"
  using assms
proof (induction as)
  case (Cons a as)
  let ?P = "\<lambda>a. case st a of None \<Rightarrow> False | Some r \<Rightarrow> imar_space r = space \<and> imar_name r = name"
  from Cons.prems obtain r where r: "st a = Some r" by auto
  show ?case
  proof (cases "?P a")
    case True
    then show ?thesis using r by auto
  next
    case False
    then have "find ?P as = Some b \<Longrightarrow> b \<noteq> a" for b by (auto simp: find_Some_iff)
    with Cons False r show ?thesis by (auto simp: map_option_case split: option.splits)
  qed
qed simp

lemma imar_remove_spec:
  assumes ok: "imar_ok t" and f: "imar_find t space name = Some a"
  defines "t' \<equiv> t\<lparr>imarb_heads := (imarb_heads t)[imar_bucket t space name := remove1 a (imarb_heads t ! imar_bucket t space name)]\<rparr>"
  shows "imar_remove space name t = Some (a, t')"
    and "imar_ok t'"
    and "imar_find t' sp n = (if sp = space \<and> n = name then None else imar_find t sp n)"
    and "\<forall>c\<in>set (imarb_heads t'). a \<notin> set c"
proof -
  let ?i = "imar_bucket t space name" and ?c = "imarb_heads t ! imar_bucket t space name"
  from ok have i: "?i < length (imarb_heads t)" and chains: "\<forall>j<length (imarb_heads t). distinct (imarb_heads t ! j) \<and>
      (\<forall>a\<in>set (imarb_heads t ! j). \<exists>r. imar_at t a = Some r \<and> imar_bucket t (imar_space r) (imar_name r) = j)"
    by (auto simp: imar_ok_def)
  then have st: "\<forall>a\<in>set ?c. imar_at t a \<noteq> None" by auto
  from f have "find (imar_is t space name) ?c = Some a" by (simp add: imar_find_def)
  then show "imar_remove space name t = Some (a, t')"
    using imar_unlink_spec [OF st, of space name]
    by (simp add: imar_remove_def t'_def Let_def imar_is_def [abs_def])
  have a: "a \<in> set ?c" "imar_is t space name a" using f imar_find_iff [OF ok] by auto
  have d: "distinct ?c" using chains i by blast
  have nth: "imarb_heads t' ! j = (if j = ?i then remove1 a ?c else imarb_heads t ! j)" for j
    using i by (simp add: t'_def)
  have set': "set (imarb_heads t' ! j) = set (imarb_heads t ! j) - (if j = ?i then {a} else {})" for j
    using d by (simp add: nth)
  have sel: "imar_at t' = imar_at t" "ipc_marequest_mask t' = ipc_marequest_mask t"
    "length (imarb_heads t') = length (imarb_heads t)" by (simp_all add: t'_def)
  show ok': "imar_ok t'"
    unfolding imar_ok_def sel
  proof (intro conjI allI impI ballI)
    fix j assume j: "j < length (imarb_heads t)"
    show "distinct (imarb_heads t' ! j)" using chains j d by (simp add: nth)
    show "\<exists>r. imar_at t b = Some r \<and> imar_bucket t (imar_space r) (imar_name r) = j" if "b \<in> set (imarb_heads t' ! j)" for b
      using chains j that by (auto simp: set')
  next
    fix j b b' r q assume "j < length (imarb_heads t)" "b \<in> set (imarb_heads t' ! j)" "b' \<in> set (imarb_heads t' ! j)"
      "imar_at t b = Some r \<and> imar_at t b' = Some q \<and> imar_space r = imar_space q \<and> imar_name r = imar_name q"
    with ok show "b = b'" unfolding imar_ok_def by (auto simp: set')
  qed (use ok in \<open>simp add: imar_ok_def\<close>)
  show "imar_find t' sp n = (if sp = space \<and> n = name then None else imar_find t sp n)"
  proof -
    have eq: "imar_find t' sp n = Some b \<longleftrightarrow> imar_find t sp n = Some b \<and> \<not> (sp = space \<and> n = name)" for b
    proof -
      have "imar_is t sp n a \<longleftrightarrow> sp = space \<and> n = name"
        using a(2) by (auto simp: imar_is_def split: option.splits)
      moreover have "imar_find t space name = Some b \<longleftrightarrow> b = a" using f by auto
      ultimately show ?thesis
        unfolding imar_find_iff [OF ok'] imar_find_iff [OF ok]
        using f imar_find_iff [OF ok] by (auto simp: set' sel imar_is_def)
    qed
    show ?thesis by (rule option_eqI) (use eq in auto)
  qed
  show "\<forall>c\<in>set (imarb_heads t'). a \<notin> set c"
  proof
    fix c assume "c \<in> set (imarb_heads t')"
    then obtain j where j: "j < length (imarb_heads t)" "c = imarb_heads t' ! j" using sel by (metis in_set_conv_nth)
    show "a \<notin> set c"
    proof
      assume "a \<in> set c"
      with j have "a \<in> set (imarb_heads t ! j)" "j \<noteq> ?i" by (auto simp: set' split: if_splits)
      with chains j(1) obtain r where "imar_at t a = Some r" "imar_bucket t (imar_space r) (imar_name r) = j" by blast
      moreover from chains i a(1) obtain q where "imar_at t a = Some q" "imar_bucket t (imar_space q) (imar_name q) = ?i" by blast
      ultimately show False using \<open>j \<noteq> ?i\<close> by simp
    qed
  qed
qed

text \<open>Storing a new name into a request that is in no chain.\<close>

lemma imar_insert_spec:
  assumes ok: "imar_ok t" and new: "\<forall>c\<in>set (imarb_heads t). a \<notin> set c"
    and f: "imar_find t (imar_space r) (imar_name r) = None"
  shows "imar_ok (imar_insert a r t)"
    and "imar_find (imar_insert a r t) sp n =
      (if sp = imar_space r \<and> n = imar_name r then Some a else imar_find t sp n)"
    and "imar_at (imar_insert a r t) = (imar_at t)(a \<mapsto> r)"
proof -
  let ?i = "imar_bucket t (imar_space r) (imar_name r)" and ?t = "imar_insert a r t"
  from ok have i: "?i < length (imarb_heads t)" and chains: "\<forall>j<length (imarb_heads t). distinct (imarb_heads t ! j) \<and>
      (\<forall>a\<in>set (imarb_heads t ! j). \<exists>r. imar_at t a = Some r \<and> imar_bucket t (imar_space r) (imar_name r) = j)"
    by (auto simp: imar_ok_def)
  have nth: "imarb_heads ?t ! j = (if j = ?i then a # imarb_heads t ! j else imarb_heads t ! j)" for j
    using i by (simp add: imar_insert_def Let_def)
  have sel: "imar_at ?t = (imar_at t)(a \<mapsto> r)" "ipc_marequest_mask ?t = ipc_marequest_mask t"
    "length (imarb_heads ?t) = length (imarb_heads t)" by (simp_all add: imar_insert_def Let_def)
  then show "imar_at ?t = (imar_at t)(a \<mapsto> r)" by simp
  have na: "j < length (imarb_heads t) \<Longrightarrow> a \<notin> set (imarb_heads t ! j)" for j using new by auto
  have none: "\<not> imar_is t (imar_space r) (imar_name r) b" if "b \<in> set (imarb_heads t ! ?i)" for b
    using f that by (auto simp: imar_find_def find_None_iff)
  show ok': "imar_ok ?t"
    unfolding imar_ok_def sel
  proof (intro conjI allI impI ballI)
    fix j assume j: "j < length (imarb_heads t)"
    show "distinct (imarb_heads ?t ! j)" using chains j na by (simp add: nth)
    show "\<exists>q. ((imar_at t)(a \<mapsto> r)) b = Some q \<and> imar_bucket t (imar_space q) (imar_name q) = j"
      if "b \<in> set (imarb_heads ?t ! j)" for b
      using chains j that na [OF j] by (auto simp: nth split: if_splits)
  next
    fix j b b' q q' assume j: "j < length (imarb_heads t)" and b: "b \<in> set (imarb_heads ?t ! j)" "b' \<in> set (imarb_heads ?t ! j)"
      and e: "((imar_at t)(a \<mapsto> r)) b = Some q \<and> ((imar_at t)(a \<mapsto> r)) b' = Some q' \<and>
        imar_space q = imar_space q' \<and> imar_name q = imar_name q'"
    have old: "b \<in> set (imarb_heads t ! j) \<or> b = a \<and> j = ?i" "b' \<in> set (imarb_heads t ! j) \<or> b' = a \<and> j = ?i"
      using b by (auto simp: nth split: if_splits)
    show "b = b'"
    proof (cases "b = a \<or> b' = a")
      case True
      then show ?thesis using old na [OF j] e none [of b] none [of b'] by (auto simp: imar_is_def split: if_splits)
    next
      case False
      with old e j ok show ?thesis unfolding imar_ok_def by auto
    qed
  qed (use ok in \<open>simp add: imar_ok_def\<close>)
  have eq: "imar_find ?t sp n = Some b \<longleftrightarrow>
      (if sp = imar_space r \<and> n = imar_name r then b = a else imar_find t sp n = Some b)" for b
  proof -
    have j: "imar_bucket t sp n < length (imarb_heads t)" using ok by (simp add: imar_ok_def)
    show ?thesis
    proof (cases "b = a")
      case True
      then show ?thesis using na [OF j]
        unfolding imar_find_iff [OF ok'] imar_find_iff [OF ok] by (auto simp: nth sel imar_is_def)
    next
      case False
      then show ?thesis using none
        unfolding imar_find_iff [OF ok'] imar_find_iff [OF ok] by (auto simp: nth sel imar_is_def)
    qed
  qed
  show "imar_find ?t sp n = (if sp = imar_space r \<and> n = imar_name r then Some a else imar_find t sp n)"
    by (rule option_eqI) (use eq in auto)
qed

lemma imar_at_upd:
  assumes "imar_ok t" and "\<forall>c\<in>set (imarb_heads t). a \<notin> set c"
  shows "imar_ok (t\<lparr>imar_at := (imar_at t)(a := x)\<rparr>)"
    and "imar_find (t\<lparr>imar_at := (imar_at t)(a := x)\<rparr>) sp n = imar_find t sp n"
proof -
  have na: "j < length (imarb_heads t) \<Longrightarrow> b \<in> set (imarb_heads t ! j) \<Longrightarrow> b \<noteq> a" for j b using assms(2) by auto
  show ok': "imar_ok (t\<lparr>imar_at := (imar_at t)(a := x)\<rparr>)"
    unfolding imar_ok_def
  proof (intro conjI allI impI ballI)
    fix j b assume "j < length (imarb_heads (t\<lparr>imar_at := (imar_at t)(a := x)\<rparr>))"
      "b \<in> set (imarb_heads (t\<lparr>imar_at := (imar_at t)(a := x)\<rparr>) ! j)"
    then show "\<exists>r. imar_at (t\<lparr>imar_at := (imar_at t)(a := x)\<rparr>) b = Some r \<and>
        imar_bucket (t\<lparr>imar_at := (imar_at t)(a := x)\<rparr>) (imar_space r) (imar_name r) = j"
      using assms(1) na [of j b] by (auto simp: imar_ok_def)
  next
    fix j b c r q assume "j < length (imarb_heads (t\<lparr>imar_at := (imar_at t)(a := x)\<rparr>))"
      "b \<in> set (imarb_heads (t\<lparr>imar_at := (imar_at t)(a := x)\<rparr>) ! j)"
      "c \<in> set (imarb_heads (t\<lparr>imar_at := (imar_at t)(a := x)\<rparr>) ! j)"
      "imar_at (t\<lparr>imar_at := (imar_at t)(a := x)\<rparr>) b = Some r \<and>
       imar_at (t\<lparr>imar_at := (imar_at t)(a := x)\<rparr>) c = Some q \<and>
       imar_space r = imar_space q \<and> imar_name r = imar_name q"
    then show "b = c" using assms(1) na [of j b] na [of j c] by (auto simp: imar_ok_def)
  qed (use assms(1) in \<open>auto simp: imar_ok_def\<close>)
  have j: "imar_bucket t sp n < length (imarb_heads t)" using assms(1) by (simp add: imar_ok_def)
  have eq: "imar_find (t\<lparr>imar_at := (imar_at t)(a := x)\<rparr>) sp n = Some b \<longleftrightarrow> imar_find t sp n = Some b" for b
    unfolding imar_find_iff [OF ok'] imar_find_iff [OF assms(1)] using na [OF j] by (auto simp: imar_is_def)
  then show "imar_find (t\<lparr>imar_at := (imar_at t)(a := x)\<rparr>) sp n = imar_find t sp n"
    by (metis not_None_eq)
qed

lemma imar_find_at: "imar_ok t \<Longrightarrow> imar_find t sp n = Some a \<Longrightarrow>
  \<exists>r. imar_at t a = Some r \<and> imar_space r = sp \<and> imar_name r = n"
  by (auto simp: imar_find_iff imar_is_def split: option.splits)

lemma ipc_marequest_cancel_spec:
  assumes ok: "imar_ok t" and f: "imar_find t space name = Some a"
  shows "\<exists>t'. ipc_marequest_cancel space name t = Some t' \<and> imar_ok t' \<and>
    (\<forall>sp n. imar_find t' sp n = (if sp = space \<and> n = name then None else imar_find t sp n)) \<and>
    (\<exists>r. imar_at t a = Some r \<and> imar_at t' = (imar_at t)(a \<mapsto> r\<lparr>imar_name := MACH_PORT_NULL\<rparr>))"
proof -
  note R = imar_remove_spec [OF ok f]
  from imar_find_at [OF ok f] obtain r where r: "imar_at t a = Some r" by blast
  with R(1) imar_at_upd [OF R(2,4)] R(3) show ?thesis by (auto simp: ipc_marequest_cancel_def)
qed

lemma ipc_marequest_rename_spec:
  assumes ok: "imar_ok t" and f: "imar_find t space old = Some a"
    and new: "new = old \<or> imar_find t space new = None"
  shows "\<exists>t'. ipc_marequest_rename space old new t = Some t' \<and> imar_ok t' \<and>
    (\<forall>sp n. imar_find t' sp n =
       (if sp = space \<and> n = new then Some a else if sp = space \<and> n = old then None else imar_find t sp n)) \<and>
    (\<exists>r. imar_at t a = Some r \<and> imar_at t' = (imar_at t)(a \<mapsto> r\<lparr>imar_name := new\<rparr>))"
proof -
  note R = imar_remove_spec [OF ok f]
  from imar_find_at [OF ok f] obtain r where r: "imar_at t a = Some r" "imar_space r = space" by blast
  have "imar_find (t\<lparr>imarb_heads := (imarb_heads t)[imar_bucket t space old := remove1 a (imarb_heads t ! imar_bucket t space old)]\<rparr>)
      (imar_space (r\<lparr>imar_name := new\<rparr>)) (imar_name (r\<lparr>imar_name := new\<rparr>)) = None"
    using R(3) new r by auto
  note I = imar_insert_spec [OF R(2,4) this]
  show ?thesis using R(1,3) I r by (auto simp: ipc_marequest_rename_def)
qed

end
