(* ===== verification/Ipc_Kernel.thy ===== *)
theory Ipc_Kernel
  imports Ipc_Marequest_Table
begin

section \<open>Objects, ports, port sets and the state of the kernel\<close>

text \<open>
  The structures of \<open>ipc/ipc_object.h\<close>, \<open>ipc/ipc_port.h\<close> and \<open>ipc/ipc_pset.h\<close>, and the state the
  operations on rights share.  An object is named by its address; a store that maps addresses to
  objects is part of the state, and an address that was freed has no object: an operation that
  follows a dangling pointer has no result.  Counts are 32-bit words, as in the code.
\<close>

subsection \<open>Object bits\<close>

definition IO_BITS_KOTYPE :: u32 where "IO_BITS_KOTYPE = 0x0000ffff"
definition IO_BITS_OTYPE :: u32 where "IO_BITS_OTYPE = 0x7fff0000"
definition IO_BITS_ACTIVE :: u32 where "IO_BITS_ACTIVE = 0x80000000"

definition IOT_PORT :: u32 where "IOT_PORT = 0"
definition IOT_PORT_SET :: u32 where "IOT_PORT_SET = 1"

text \<open>The test of the sign, and the constructor.\<close>

definition io_active :: "u32 \<Rightarrow> bool" where "io_active bits \<longleftrightarrow> sint bits < 0"
definition io_otype :: "u32 \<Rightarrow> u32" where "io_otype bits = drop_bit 16 (bits AND IO_BITS_OTYPE)"
definition io_kotype :: "u32 \<Rightarrow> u32" where "io_kotype bits = bits AND IO_BITS_KOTYPE"

definition io_makebits :: "bool \<Rightarrow> u32 \<Rightarrow> u32 \<Rightarrow> u32" where
  "io_makebits active otype kotype =
     (if active then IO_BITS_ACTIVE else 0) OR push_bit 16 otype OR kotype"

lemma bit_ACTIVE [bits_simps]: "bit IO_BITS_ACTIVE n \<longleftrightarrow> n = 31"
proof -
  have e: "IO_BITS_ACTIVE = push_bit 31 1" by (simp add: IO_BITS_ACTIVE_def push_bit_eq_mult)
  show ?thesis unfolding e bit_push_bit_iff bit_1_iff by auto
qed

lemma io_active_iff: "io_active bits \<longleftrightarrow> bit bits 31"
proof -
  have "bit (uint bits) 31 \<longleftrightarrow> odd (uint bits div 2147483648)" by (simp add: bit_iff_odd)
  also have "uint bits div 2147483648 = (if uint bits < 2147483648 then 0 else 1)"
    using uint_u32_bounds [of bits] by auto
  finally have "bit (uint bits) 31 \<longleftrightarrow> \<not> uint bits < 2147483648" by (simp split: if_splits)
  moreover have "bit bits 31 \<longleftrightarrow> bit (uint bits) 31" by (simp add: bit_uint_iff)
  moreover have "sint bits < 0 \<longleftrightarrow> \<not> uint bits < 2147483648"
    using uint_u32_bounds [of bits] by (simp add: sint_u32)
  ultimately show ?thesis by (simp add: io_active_def)
qed

lemma io_active_off [simp]: "\<not> io_active (bits AND NOT IO_BITS_ACTIVE)"
  by (simp add: io_active_iff bit_and_iff bit_not_iff bits_simps)

definition IO_VALID :: "addr \<Rightarrow> bool" where
  "IO_VALID io \<longleftrightarrow> io \<noteq> IO_NULL \<and> io \<noteq> IO_DEAD"

abbreviation IP_NULL :: addr where "IP_NULL \<equiv> IO_NULL"
abbreviation IP_DEAD :: addr where "IP_DEAD \<equiv> IO_DEAD"
abbreviation IP_VALID :: "addr \<Rightarrow> bool" where "IP_VALID \<equiv> IO_VALID"

subsection \<open>The structures\<close>

text \<open>
  A slot of the table of dead-name requests.  \<open>ipr_notify\<close> is the union of the send-once right
  and the link of the free list; element 0 of a table has the head of the free list there, and in
  \<open>ipr_name\<close> the index of its size in \<open>ipc_table_dnrequests\<close>.
\<close>

record ipc_port_request =
  ipr_notify :: addr
  ipr_name :: mach_port_t

abbreviation ipr_next :: "ipc_port_request \<Rightarrow> nat" where "ipr_next r \<equiv> unat (ipr_notify r)"
abbreviation ipr_soright :: "ipc_port_request \<Rightarrow> addr" where "ipr_soright \<equiv> ipr_notify"
abbreviation ipr_size :: "ipc_port_request \<Rightarrow> nat" where "ipr_size r \<equiv> unat (ipr_name r)"

text \<open>
  A port.  \<open>ip_data\<close> is the union of receiver, destination and time stamp.  \<open>ip_dnrequests\<close> is the
  address of the table of dead-name requests, with its contents.  The counts of messages are
  \<open>unsigned short\<close>.
\<close>

record ipc_port =
  ip_references :: u32
  ip_bits :: u32
  ip_data :: addr
  ip_receiver_name :: mach_port_t
  ip_kobject :: addr
  ip_mscount :: u32
  ip_srights :: u32
  ip_sorights :: u32
  ip_nsrequest :: addr
  ip_pdrequest :: addr
  ip_dnrequests :: "(addr \<times> ipc_port_request list) option"
  ip_pset :: addr
  ip_seqno :: u32
  ip_msgcount :: "16 word"
  ip_qlimit :: "16 word"
  ip_messages :: ipc_mqueue
  ip_blocked :: "ipc_thread list"

abbreviation ip_receiver :: "ipc_port \<Rightarrow> addr" where "ip_receiver \<equiv> ip_data"
abbreviation ip_destination :: "ipc_port \<Rightarrow> addr" where "ip_destination \<equiv> ip_data"
abbreviation ip_timestamp :: "ipc_port \<Rightarrow> addr" where "ip_timestamp \<equiv> ip_data"
abbreviation ip_active :: "ipc_port \<Rightarrow> bool" where "ip_active p \<equiv> io_active (ip_bits p)"
abbreviation ip_kotype :: "ipc_port \<Rightarrow> u32" where "ip_kotype p \<equiv> io_kotype (ip_bits p)"

record ipc_pset =
  ips_references :: u32
  ips_bits :: u32
  ips_local_name :: mach_port_t
  ips_messages :: ipc_mqueue

abbreviation ips_active :: "ipc_pset \<Rightarrow> bool" where "ips_active p \<equiv> io_active (ips_bits p)"

text \<open>The low bit of a pointer that is a send right, or a space.\<close>

definition IPR_NULL :: "(addr \<times> ipc_port_request list) option" where "IPR_NULL = None"

definition ip_pdsendp :: "addr \<Rightarrow> bool" where "ip_pdsendp soright \<longleftrightarrow> soright AND 1 \<noteq> 0"
definition ip_pdsend :: "addr \<Rightarrow> addr" where "ip_pdsend soright = soright AND NOT 1"
definition ip_pdsendm :: "addr \<Rightarrow> addr" where "ip_pdsendm sright = sright OR 1"
definition ipr_spacep :: "addr \<Rightarrow> bool" where "ipr_spacep soright \<longleftrightarrow> soright AND 1 \<noteq> 0"
definition ipr_space :: "addr \<Rightarrow> addr" where "ipr_space soright = soright AND NOT 1"
definition ipr_spacem :: "addr \<Rightarrow> addr" where "ipr_spacem space = space OR 1"

text \<open>Time stamps are compared modulo \<open>2 ^ 32\<close>.\<close>

definition IP_TIMESTAMP_ORDER :: "u32 \<Rightarrow> u32 \<Rightarrow> bool" where
  "IP_TIMESTAMP_ORDER one two \<longleftrightarrow> sint (one - two) < 0"

subsection \<open>The state\<close>

text \<open>
  The space that is worked on and, by address, the other spaces, the global reverse table, the stores of
  ports and port sets, the table of msg-accepted requests, the clock of port deaths, and the calls made
  to the components that are not part of this state, oldest first: notifications
  (\<open>ipc/ipc_notify.c\<close>), threads made runnable, and messages and kernel objects destroyed.
\<close>

datatype ipc_event =
    Notify_Dead_Name addr mach_port_t
  | Notify_Port_Deleted addr mach_port_t
  | Notify_Port_Deleted_Compat addr mach_port_t
  | Notify_Msg_Accepted addr mach_port_t
  | Notify_Msg_Accepted_Compat addr mach_port_t
  | Notify_Port_Destroyed addr addr
  | Notify_Port_Destroyed_Compat addr addr
  | Notify_No_Senders addr u32
  | Notify_Send_Once addr
  | Thread_Go ipc_thread
  | Kmsg_Destroy ipc_kmsg
  | Kobject_Destroy addr

record ipc_kernel =
  k_space :: ipc_space
  k_spaces :: "addr \<Rightarrow> ipc_space option"
  k_hash :: ipc_hash_global
  k_ports :: "addr \<Rightarrow> ipc_port option"
  k_psets :: "addr \<Rightarrow> ipc_pset option"
  k_marequests :: imar_table
  k_timestamp :: u32
  k_events :: "ipc_event list"

definition post :: "ipc_event \<Rightarrow> ipc_kernel \<Rightarrow> ipc_kernel" where
  "post e k = k\<lparr>k_events := k_events k @ [e]\<rparr>"

definition wake :: "ipc_thread list \<Rightarrow> ipc_kernel \<Rightarrow> ipc_kernel" where
  "wake ths k = k\<lparr>k_events := k_events k @ map Thread_Go ths\<rparr>"

definition put_port :: "addr \<Rightarrow> ipc_port \<Rightarrow> ipc_kernel \<Rightarrow> ipc_kernel" where
  "put_port a p k = k\<lparr>k_ports := (k_ports k)(a \<mapsto> p)\<rparr>"

definition put_pset :: "addr \<Rightarrow> ipc_pset \<Rightarrow> ipc_kernel \<Rightarrow> ipc_kernel" where
  "put_pset a s k = k\<lparr>k_psets := (k_psets k)(a \<mapsto> s)\<rparr>"

lemma kernel_simps [simp]:
  "k_space (post e k) = k_space k" "k_spaces (post e k) = k_spaces k"
  "k_hash (post e k) = k_hash k" "k_ports (post e k) = k_ports k"
  "k_psets (post e k) = k_psets k" "k_marequests (post e k) = k_marequests k"
  "k_timestamp (post e k) = k_timestamp k" "k_events (post e k) = k_events k @ [e]"
  "k_space (wake w k) = k_space k" "k_spaces (wake w k) = k_spaces k"
  "k_hash (wake w k) = k_hash k" "k_ports (wake w k) = k_ports k"
  "k_psets (wake w k) = k_psets k" "k_marequests (wake w k) = k_marequests k"
  "k_timestamp (wake w k) = k_timestamp k" "k_events (wake w k) = k_events k @ map Thread_Go w"
  "k_space (put_port a p k) = k_space k" "k_spaces (put_port a p k) = k_spaces k"
  "k_hash (put_port a p k) = k_hash k"
  "k_ports (put_port a p k) = (k_ports k)(a \<mapsto> p)"
  "k_psets (put_port a p k) = k_psets k" "k_marequests (put_port a p k) = k_marequests k"
  "k_timestamp (put_port a p k) = k_timestamp k" "k_events (put_port a p k) = k_events k"
  "k_space (put_pset a s k) = k_space k" "k_spaces (put_pset a s k) = k_spaces k"
  "k_hash (put_pset a s k) = k_hash k"
  "k_psets (put_pset a s k) = (k_psets k)(a \<mapsto> s)"
  "k_ports (put_pset a s k) = k_ports k" "k_marequests (put_pset a s k) = k_marequests k"
  "k_timestamp (put_pset a s k) = k_timestamp k" "k_events (put_pset a s k) = k_events k"
  by (simp_all add: post_def wake_def put_port_def put_pset_def)

subsection \<open>References\<close>

definition ip_reference :: "ipc_port \<Rightarrow> ipc_port" where
  "ip_reference p = p\<lparr>ip_references := ip_references p + 1\<rparr>"

definition ip_release :: "ipc_port \<Rightarrow> ipc_port" where
  "ip_release p = p\<lparr>ip_references := ip_references p - 1\<rparr>"

definition ips_reference :: "ipc_pset \<Rightarrow> ipc_pset" where
  "ips_reference s = s\<lparr>ips_references := ips_references s + 1\<rparr>"

definition ips_release :: "ipc_pset \<Rightarrow> ipc_pset" where
  "ips_release s = s\<lparr>ips_references := ips_references s - 1\<rparr>"

text \<open>An object is freed when the last reference is gone.\<close>

definition ip_check_unlock :: "addr \<Rightarrow> ipc_kernel \<Rightarrow> ipc_kernel option" where
  "ip_check_unlock a k =
     do {
       p \<leftarrow> k_ports k a;
       Some (if ip_references p = 0 then k\<lparr>k_ports := (k_ports k)(a := None)\<rparr> else k)
     }"

definition ips_check_unlock :: "addr \<Rightarrow> ipc_kernel \<Rightarrow> ipc_kernel option" where
  "ips_check_unlock a k =
     do {
       s \<leftarrow> k_psets k a;
       Some (if ips_references s = 0 then k\<lparr>k_psets := (k_psets k)(a := None)\<rparr> else k)
     }"

definition ipc_object_reference :: "addr \<Rightarrow> ipc_kernel \<Rightarrow> ipc_kernel option" where
  "ipc_object_reference a k = do { p \<leftarrow> k_ports k a; Some (put_port a (ip_reference p) k) }"

definition ipc_object_release :: "addr \<Rightarrow> ipc_kernel \<Rightarrow> ipc_kernel option" where
  "ipc_object_release a k =
     do { p \<leftarrow> k_ports k a; ip_check_unlock a (put_port a (ip_release p) k) }"

abbreviation ipc_port_release :: "addr \<Rightarrow> ipc_kernel \<Rightarrow> ipc_kernel option" where
  "ipc_port_release \<equiv> ipc_object_release"

subsection \<open>The clock of port deaths\<close>

definition ipc_port_timestamp :: "ipc_kernel \<Rightarrow> u32 \<times> ipc_kernel" where
  "ipc_port_timestamp k = (k_timestamp k, k\<lparr>k_timestamp := k_timestamp k + 1\<rparr>)"

text \<open>Two time stamps are ordered as they were taken when fewer than \<open>2 ^ 31\<close> deaths lie between them.\<close>

lemma IP_TIMESTAMP_ORDER_iff:
  assumes "0 < n" and "n < 2 ^ 31"
  shows "IP_TIMESTAMP_ORDER t (t + of_nat n)" and "\<not> IP_TIMESTAMP_ORDER (t + of_nat n) t"
proof -
  have u: "uint (of_nat n :: u32) = int n"
    using assms by (simp add: uint_nat unat_of_nat take_bit_nat_eq_self)
  have m: "uint (- (of_nat n) :: u32) = 4294967296 - int n"
    using assms u by (simp add: uint_word_ariths zmod_zminus1_eq_if)
  have "sint (of_nat n :: u32) = int n" "sint (- of_nat n :: u32) = - int n"
    using assms unfolding sint_u32 u m by auto
  then show "IP_TIMESTAMP_ORDER t (t + of_nat n)" and "\<not> IP_TIMESTAMP_ORDER (t + of_nat n) t"
    using assms by (simp_all add: IP_TIMESTAMP_ORDER_def)
qed

end
