(* ===== verification/Ipc_Pset.thy ===== *)
theory Ipc_Pset
  imports Ipc_Kernel
begin

section \<open>Port sets\<close>

text \<open>
  The operations of \<open>ipc/ipc_pset.c\<close>.  The address 0 is the null port set.  The messages of the
  members of a set wait in the queue of the set; a set that was destroyed keeps its members until
  somebody looks at them, and is freed with the last reference.
\<close>

definition IPS_NULL :: addr where "IPS_NULL = 0"

definition ipc_pset_add :: "addr \<Rightarrow> addr \<Rightarrow> ipc_kernel \<Rightarrow> ipc_kernel option" where
  "ipc_pset_add pset port k =
     do {
       p \<leftarrow> k_ports k port;
       s \<leftarrow> k_psets k pset;
       let p = p\<lparr>ip_pset := pset\<rparr>;
       let s = ips_reference s;
       let (setq, portq, seqno, woken) =
         ipc_mqueue_move (ips_messages s) (ip_messages p) port (ip_seqno p);
       let (portq, changed) = ipc_mqueue_changed portq MACH_RCV_PORT_CHANGED;
       Some (wake (woken @ changed)
         (put_port port (p\<lparr>ip_messages := portq, ip_seqno := seqno\<rparr>)
           (put_pset pset (s\<lparr>ips_messages := setq\<rparr>) k)))
     }"

definition ipc_pset_remove :: "addr \<Rightarrow> addr \<Rightarrow> ipc_kernel \<Rightarrow> ipc_kernel option" where
  "ipc_pset_remove pset port k =
     do {
       p \<leftarrow> k_ports k port;
       s \<leftarrow> k_psets k pset;
       let p = p\<lparr>ip_pset := IPS_NULL\<rparr>;
       let s = ips_release s;
       let (portq, setq, seqno, woken) =
         ipc_mqueue_move (ip_messages p) (ips_messages s) port (ip_seqno p);
       Some (wake woken
         (put_port port (p\<lparr>ip_messages := portq, ip_seqno := seqno\<rparr>)
           (put_pset pset (s\<lparr>ips_messages := setq\<rparr>) k)))
     }"

definition ipc_pset_move :: "addr \<Rightarrow> addr \<Rightarrow> ipc_kernel \<Rightarrow> (kern_return_t \<times> ipc_kernel) option" where
  "ipc_pset_move port nset k =
     do {
       p \<leftarrow> k_ports k port;
       let oset = ip_pset p;
       if oset = nset then
         Some (if nset = IPS_NULL \<and> oset = IPS_NULL then KERN_NOT_IN_SET else KERN_SUCCESS, k)
       else if oset = IPS_NULL then do {
         k \<leftarrow> ipc_pset_add nset port k;
         Some (KERN_SUCCESS, k)
       }
       else if nset = IPS_NULL then do {
         k \<leftarrow> ipc_pset_remove oset port k;
         s \<leftarrow> k_psets k oset;
         if ips_active s then Some (KERN_SUCCESS, k)
         else do {
           k \<leftarrow> ips_check_unlock oset k;
           Some (KERN_NOT_IN_SET, k)
         }
       }
       else do {
         k \<leftarrow> ipc_pset_remove oset port k;
         k \<leftarrow> ipc_pset_add nset port k;
         k \<leftarrow> ips_check_unlock oset k;
         Some (KERN_SUCCESS, k)
       }
     }"

definition ipc_pset_destroy :: "addr \<Rightarrow> ipc_kernel \<Rightarrow> ipc_kernel option" where
  "ipc_pset_destroy pset k =
     do {
       s \<leftarrow> k_psets k pset;
       let s = s\<lparr>ips_bits := ips_bits s AND NOT IO_BITS_ACTIVE\<rparr>;
       let (q, changed) = ipc_mqueue_changed (ips_messages s) MACH_RCV_PORT_DIED;
       let s = ips_release (s\<lparr>ips_messages := q\<rparr>);
       ips_check_unlock pset (wake changed (put_pset pset s k))
     }"

section \<open>Where messages wait, and who refers to a set\<close>

definition members :: "ipc_kernel \<Rightarrow> addr \<Rightarrow> addr set" where
  "members k pset = {a. \<exists>p. k_ports k a = Some p \<and> ip_pset p = pset}"

text \<open>
  \<open>others pset\<close> counts the references that do not come from members: the entry that names the set,
  and receivers.  The sets in \<open>X\<close> may have lost their last reference; they are looked at again by
  \<open>ips_check_unlock\<close>.
\<close>

definition psets_inv :: "(addr \<Rightarrow> nat) \<Rightarrow> addr set \<Rightarrow> ipc_kernel \<Rightarrow> bool" where
  "psets_inv others X k \<longleftrightarrow> finite (dom (k_ports k)) \<and> k_psets k IPS_NULL = None \<and>
     (\<forall>a p. k_ports k a = Some p \<longrightarrow> mqueue_ok (ip_messages p) \<and>
        (\<forall>m\<in>set (imq_messages (ip_messages p)). msgh_remote_port m = a) \<and>
        (ip_pset p \<noteq> IPS_NULL \<longrightarrow> k_psets k (ip_pset p) \<noteq> None \<and> ip_messages p = ipc_mqueue_init)) \<and>
     (\<forall>a s. k_psets k a = Some s \<longrightarrow> mqueue_ok (ips_messages s) \<and>
        (\<forall>m\<in>set (imq_messages (ips_messages s)). msgh_remote_port m \<in> members k a) \<and>
        (ips_active s \<longrightarrow> 0 < others a) \<and>
        (a \<notin> X \<longrightarrow> members k a \<noteq> {} \<or> 0 < others a) \<and> card (members k a) + others a < 2 ^ 32 \<and>
        ips_references s = of_nat (card (members k a) + others a))"

abbreviation psets_ok :: "(addr \<Rightarrow> nat) \<Rightarrow> ipc_kernel \<Rightarrow> bool" where
  "psets_ok others \<equiv> psets_inv others {}"

lemma members_finite: "finite (dom (k_ports k)) \<Longrightarrow> finite (members k s)"
  by (rule finite_subset [of _ "dom (k_ports k)"]) (auto simp: members_def)

lemma psets_invD:
  assumes "psets_inv others X k"
  shows "finite (members k s)" "k_psets k IPS_NULL = None" "finite (dom (k_ports k))"
    and "k_ports k a = Some p \<Longrightarrow> mqueue_ok (ip_messages p)"
    and "k_ports k a = Some p \<Longrightarrow> m \<in> set (imq_messages (ip_messages p)) \<Longrightarrow> msgh_remote_port m = a"
    and "k_ports k a = Some p \<Longrightarrow> ip_pset p \<noteq> IPS_NULL \<Longrightarrow> \<exists>s. k_psets k (ip_pset p) = Some s"
    and "k_ports k a = Some p \<Longrightarrow> ip_pset p \<noteq> IPS_NULL \<Longrightarrow> ip_messages p = ipc_mqueue_init"
    and "k_psets k b = Some t \<Longrightarrow> mqueue_ok (ips_messages t)"
    and "k_psets k b = Some t \<Longrightarrow> m \<in> set (imq_messages (ips_messages t)) \<Longrightarrow> msgh_remote_port m \<in> members k b"
    and "k_psets k b = Some t \<Longrightarrow> card (members k b) + others b < 2 ^ 32"
    and "k_psets k b = Some t \<Longrightarrow> ips_references t = of_nat (card (members k b) + others b)"
    and "k_psets k b = Some t \<Longrightarrow> b \<notin> X \<Longrightarrow> members k b \<noteq> {} \<or> 0 < others b"
    and "k_psets k b = Some t \<Longrightarrow> ips_active t \<Longrightarrow> 0 < others b"
  using assms members_finite by (auto simp: psets_inv_def)

lemma psets_inv_except:
  assumes "psets_inv others X k"
    and "\<And>a s. k_psets k a = Some s \<Longrightarrow> a \<notin> Y \<Longrightarrow> a \<in> X \<Longrightarrow> members k a \<noteq> {} \<or> 0 < others a"
  shows "psets_inv others Y k"
proof -
  note I = psets_invD [OF assms(1)]
  show ?thesis
    unfolding psets_inv_def
  proof (intro conjI allI impI ballI)
    show "members k a \<noteq> {} \<or> 0 < others a" if "k_psets k a = Some s" "a \<notin> Y" for a s
      using I(12) [OF that(1)] assms(2) [OF that] by argo
  qed (use I in auto)
qed

lemma u32_of_nat_zero: "n < 2 ^ 32 \<Longrightarrow> (of_nat n :: u32) = 0 \<longleftrightarrow> n = 0"
  by (auto simp: word_of_nat_eq_0_iff dest: dvd_imp_le)

lemma ips_check_unlock_spec:
  assumes l: "psets_inv others X k" and s: "k_psets k x = Some s"
  shows "\<exists>k'. ips_check_unlock x k = Some k' \<and> psets_inv others (X - {x}) k' \<and> k_ports k' = k_ports k \<and>
    k_psets k' = (if members k x = {} \<and> others x = 0 then (k_psets k)(x := None) else k_psets k) \<and>
    k_events k' = k_events k"
proof -
  note L = psets_invD [OF l]
  have "ips_references s = of_nat (card (members k x) + others x)" "card (members k x) + others x < 2 ^ 32"
    using L(10,11) s by auto
  then have z: "ips_references s = 0 \<longleftrightarrow> members k x = {} \<and> others x = 0"
    using L(1) [of x] u32_of_nat_zero [of "card (members k x) + others x"] by simp
  show ?thesis
  proof (cases "ips_references s = 0")
    case True
    have mm: "members (k\<lparr>k_psets := (k_psets k)(x := None)\<rparr>) b = members k b" for b by (simp add: members_def)
    have "ip_pset p \<noteq> x" if "k_ports k a = Some p" for a p
      using True z that by (auto simp: members_def)
    then have "psets_inv others (X - {x}) (k\<lparr>k_psets := (k_psets k)(x := None)\<rparr>)"
      using L unfolding psets_inv_def mm by auto
    with True s z show ?thesis by (simp add: ips_check_unlock_def)
  next
    case False
    with z have "members k x \<noteq> {} \<or> 0 < others x" by auto
    then have "psets_inv others (X - {x}) k" by (intro psets_inv_except [OF l]) auto
    with False s z show ?thesis by (auto simp: ips_check_unlock_def)
  qed
qed

text \<open>Changing one port and one set, when the port leaves or joins no other set.\<close>

lemma psets_inv_update:
  assumes inv: "psets_inv others X k" and k': "k_ports k' = (k_ports k)(a \<mapsto> p')" "k_psets k' = (k_psets k)(x \<mapsto> s')"
    and old: "k_ports k a = Some p" "ip_pset p = x \<or> ip_pset p = IPS_NULL" "k_psets k x = Some s"
    and port: "mqueue_ok (ip_messages p')" "\<forall>m\<in>set (imq_messages (ip_messages p')). msgh_remote_port m = a"
      "ip_pset p' \<noteq> IPS_NULL \<Longrightarrow> ip_pset p' = x \<and> ip_messages p' = ipc_mqueue_init"
    and pset: "mqueue_ok (ips_messages s')" "\<forall>m\<in>set (imq_messages (ips_messages s')). msgh_remote_port m \<in> members k' x"
      "card (members k' x) + others' x < 2 ^ 32" "ips_references s' = of_nat (card (members k' x) + others' x)"
      "ips_active s' \<Longrightarrow> 0 < others' x"
    and others': "\<And>b. b \<noteq> x \<Longrightarrow> others' b = others b"
  shows "psets_inv others' (insert x X) k'"
proof -
  note I = psets_invD [OF inv]
  have x: "x \<noteq> IPS_NULL" using I(2) old(3) by auto
  have mem: "members k' b = members k b" if "b \<noteq> x" "b \<noteq> IPS_NULL" for b
    using that old port(3) by (auto simp: members_def k')
  show ?thesis
    unfolding psets_inv_def
  proof (intro conjI allI impI ballI)
    show "finite (dom (k_ports k'))" using I(3) by (simp add: k')
    show "k_psets k' IPS_NULL = None" using I(2) x by (simp add: k')
    fix b q assume q: "k_ports k' b = Some q"
    show "mqueue_ok (ip_messages q)" using q I(4) port(1) by (auto simp: k' split: if_splits)
    show "msgh_remote_port m = b" if "m \<in> set (imq_messages (ip_messages q))" for m
      using q that I(5) port(2) by (auto simp: k' split: if_splits)
    show "k_psets k' (ip_pset q) \<noteq> None" "ip_messages q = ipc_mqueue_init" if "ip_pset q \<noteq> IPS_NULL"
      using q that I(6,7) port(3) by (auto simp: k' split: if_splits)
  next
    fix b t assume t: "k_psets k' b = Some t"
    have b: "b \<noteq> IPS_NULL" using t x I(2) by (auto simp: k' split: if_splits)
    show "mqueue_ok (ips_messages t)" using t I(8) pset(1) by (auto simp: k' split: if_splits)
    show "msgh_remote_port m \<in> members k' b" if "m \<in> set (imq_messages (ips_messages t))" for m
      using t that I(9) pset(2) mem b by (cases "b = x") (auto simp: k')
    show "card (members k' b) + others' b < 2 ^ 32" "ips_references t = of_nat (card (members k' b) + others' b)"
      using t I(10,11) pset(3,4) mem b others' by (cases "b = x"; auto simp: k')+
    show "0 < others' b" if "ips_active t" using t that I(13) pset(5) others' by (cases "b = x") (auto simp: k')
    show "members k' b \<noteq> {} \<or> 0 < others' b" if "b \<notin> insert x X"
      using t that I(12) mem b others' by (auto simp: k')
  qed
qed

lemma ipc_pset_add_spec:
  assumes inv: "psets_inv others X k" and p: "k_ports k port = Some p" "ip_pset p = IPS_NULL"
    and s: "k_psets k pset = Some s" and room: "card (members k pset) + others pset + 1 < 2 ^ 32"
  shows "\<exists>k' p' s' queued woken. ipc_pset_add pset port k = Some k' \<and> psets_inv others (X - {pset}) k' \<and>
    k_ports k' = (k_ports k)(port \<mapsto> p') \<and> k_psets k' = (k_psets k)(pset \<mapsto> s') \<and>
    p' = p\<lparr>ip_pset := pset, ip_messages := ipc_mqueue_init, ip_seqno := ip_seqno p + of_nat (length (deliveries woken))\<rparr> \<and>
    imq_messages (ips_messages s') = imq_messages (ips_messages s) @ queued \<and>
    map fst (deliveries woken) @ queued = imq_messages (ip_messages p) \<and>
    deliveries woken = numbered (ip_seqno p) (map fst (deliveries woken)) \<and>
    ips_bits s' = ips_bits s \<and>
    k_events k' = k_events k @ map Thread_Go (woken @ snd (ipc_mqueue_changed (ip_messages p) MACH_RCV_PORT_CHANGED))"
proof -
  note I = psets_invD [OF inv]
  have ps: "pset \<noteq> IPS_NULL" using I(2) s by auto
  obtain setq portq seqno woken where m:
    "ipc_mqueue_move (ips_messages s) (ip_messages p) port (ip_seqno p) = (setq, portq, seqno, woken)" by (metis prod_cases4)
  note M = ipc_mqueue_move_spec [OF m I(8) [OF s]]
  from M(4) obtain queued where q: "imq_messages setq = imq_messages (ips_messages s) @ queued"
    "map fst (deliveries woken) @ queued = filter (\<lambda>k. msgh_remote_port k = port) (imq_messages (ip_messages p))" by blast
  have f: "filter (\<lambda>k. msgh_remote_port k = port) (imq_messages (ip_messages p)) = imq_messages (ip_messages p)"
    "filter (\<lambda>k. msgh_remote_port k \<noteq> port) (imq_messages (ip_messages p)) = []"
    using I(5) [OF p(1)] by (auto simp: filter_id_conv filter_empty_conv)
  let ?p = "p\<lparr>ip_pset := pset, ip_messages := portq\<lparr>imq_threads := []\<rparr>, ip_seqno := seqno\<rparr>"
  let ?s = "ips_reference s\<lparr>ips_messages := setq\<rparr>"
  let ?k = "wake (woken @ snd (ipc_mqueue_changed (ip_messages p) MACH_RCV_PORT_CHANGED)) (put_port port ?p (put_pset pset ?s k))"
  have pm: "portq\<lparr>imq_threads := []\<rparr> = ipc_mqueue_init" using M(1) f by (simp add: ipc_mqueue_init_def)
  have e: "ipc_pset_add pset port k = Some ?k"
    using p s m M(2) by (simp add: ipc_pset_add_def ips_reference_def ipc_mqueue_changed_def)
  have mem: "members ?k pset = insert port (members k pset)" "port \<notin> members k pset"
    using p ps by (auto simp: members_def)
  have "psets_inv others (insert pset X) ?k"
  proof (rule psets_inv_update [OF inv])
    show "k_ports ?k = (k_ports k)(port \<mapsto> ?p)" "k_psets ?k = (k_psets k)(pset \<mapsto> ?s)" by simp_all
    show "k_ports k port = Some p" "ip_pset p = pset \<or> ip_pset p = IPS_NULL" "k_psets k pset = Some s" using p s by auto
    show "mqueue_ok (ip_messages ?p)" "\<forall>m\<in>set (imq_messages (ip_messages ?p)). msgh_remote_port m = port"
      "ip_pset ?p = pset \<and> ip_messages ?p = ipc_mqueue_init" by (simp_all add: pm ipc_mqueue_init_def mqueue_ok_def)
    show "mqueue_ok (ips_messages ?s)" using M(3) by simp
    show "\<forall>m\<in>set (imq_messages (ips_messages ?s)). msgh_remote_port m \<in> members ?k pset"
    proof
      fix m assume "m \<in> set (imq_messages (ips_messages ?s))"
      then have "m \<in> set (imq_messages (ips_messages s)) \<or> m \<in> set queued" using q(1) by simp
      then show "msgh_remote_port m \<in> members ?k pset"
      proof
        assume "m \<in> set (imq_messages (ips_messages s))"
        then show ?thesis using I(9) [OF s] mem(1) by blast
      next
        assume "m \<in> set queued"
        then have "m \<in> set (imq_messages (ip_messages p))" using q(2) f(1) by (metis Un_iff set_append)
        then show ?thesis using I(5) [OF p(1)] mem(1) by blast
      qed
    qed
    show "card (members ?k pset) + others pset < 2 ^ 32" using room mem I(1) [of pset] by simp
    show "ips_references ?s = of_nat (card (members ?k pset) + others pset)"
      using I(11) [OF s] mem I(1) [of pset] by (simp add: ips_reference_def)
    show "ips_active ?s \<Longrightarrow> 0 < others pset" using I(13) [OF s] by (simp add: ips_reference_def)
  qed simp
  then have "psets_inv others (X - {pset}) ?k" by (rule psets_inv_except) (use mem(1) in auto)
  with e pm M(5,6) q f show ?thesis by (intro exI [of _ ?k] exI [of _ ?p] exI [of _ ?s]) (auto simp: ips_reference_def)
qed

lemma ipc_pset_remove_spec:
  assumes inv: "psets_inv others X k" and p: "k_ports k port = Some p" "ip_pset p = pset" "pset \<noteq> IPS_NULL"
  shows "\<exists>s k' p' s' queued. k_psets k pset = Some s \<and> ipc_pset_remove pset port k = Some k' \<and>
    psets_inv others (insert pset X) k' \<and>
    k_ports k' = (k_ports k)(port \<mapsto> p') \<and> k_psets k' = (k_psets k)(pset \<mapsto> s') \<and>
    p' = p\<lparr>ip_pset := IPS_NULL, ip_messages := ipc_mqueue_init\<lparr>imq_messages := queued\<rparr>\<rparr> \<and>
    queued = filter (\<lambda>k. msgh_remote_port k = port) (imq_messages (ips_messages s)) \<and>
    imq_messages (ips_messages s') = filter (\<lambda>k. msgh_remote_port k \<noteq> port) (imq_messages (ips_messages s)) \<and>
    ips_bits s' = ips_bits s \<and> k_events k' = k_events k"
proof -
  note I = psets_invD [OF inv]
  obtain s where s: "k_psets k pset = Some s" using I(6) p by blast
  have pm: "ip_messages p = ipc_mqueue_init" using I(7) p by blast
  obtain portq setq seqno woken where m:
    "ipc_mqueue_move (ip_messages p) (ips_messages s) port (ip_seqno p) = (portq, setq, seqno, woken)" by (metis prod_cases4)
  note M = ipc_mqueue_move_spec [OF m I(4) [OF p(1)]]
  let ?q = "filter (\<lambda>k. msgh_remote_port k = port) (imq_messages (ips_messages s))"
  have none: "woken = [] \<and> imq_threads portq = []"
  proof -
    obtain l d sq w where f: "mqueue_move_loop port (imq_messages (ips_messages s)) (ip_seqno p) (ip_messages p) = (l, d, sq, w)"
      by (metis prod_cases4)
    from mqueue_move_loop_spec(6) [OF f I(4) [OF p(1)]] m f pm show ?thesis
      by (auto simp: ipc_mqueue_move_def ipc_mqueue_init_def)
  qed
  have q: "imq_messages portq = ?q" using M(4) none pm by (auto simp: ipc_mqueue_init_def)
  have seq: "seqno = ip_seqno p" using M(6) none by simp
  have pq: "portq = ipc_mqueue_init\<lparr>imq_messages := ?q\<rparr>" using q none by (simp add: ipc_mqueue_init_def)
  let ?p = "p\<lparr>ip_pset := IPS_NULL, ip_messages := portq, ip_seqno := seqno\<rparr>"
  let ?s = "ips_release s\<lparr>ips_messages := setq\<rparr>"
  let ?k = "wake woken (put_port port ?p (put_pset pset ?s k))"
  have e: "ipc_pset_remove pset port k = Some ?k"
    using p s m by (simp add: ipc_pset_remove_def ips_release_def)
  have mem: "members ?k pset = members k pset - {port}" "port \<in> members k pset"
    using p by (auto simp: members_def)
  have fin: "finite (members k pset)" by (rule I(1))
  have c: "card (members k pset) = Suc (card (members ?k pset))"
    unfolding mem(1) by (rule card.remove [OF fin mem(2)])
  have "psets_inv others (insert pset X) ?k"
  proof (rule psets_inv_update [OF inv])
    show "k_ports ?k = (k_ports k)(port \<mapsto> ?p)" "k_psets ?k = (k_psets k)(pset \<mapsto> ?s)" by simp_all
    show "k_ports k port = Some p" "ip_pset p = pset \<or> ip_pset p = IPS_NULL" "k_psets k pset = Some s" using p s by auto
    show "mqueue_ok (ip_messages ?p)" "\<forall>m\<in>set (imq_messages (ip_messages ?p)). msgh_remote_port m = port"
      using none q by (auto simp: mqueue_ok_def)
    show "mqueue_ok (ips_messages ?s)" using M(1,2) I(8) [OF s] by (auto simp: mqueue_ok_def)
    show "\<forall>m\<in>set (imq_messages (ips_messages ?s)). msgh_remote_port m \<in> members ?k pset"
      using M(1) I(9) [OF s] mem(1) by auto
    show "card (members ?k pset) + others pset < 2 ^ 32" using I(10) [OF s] c by simp
    show "ips_references ?s = of_nat (card (members ?k pset) + others pset)"
    proof -
      have "ips_references ?s = ips_references s - 1" by (simp add: ips_release_def)
      then show ?thesis unfolding I(11) [OF s] c by simp
    qed
    show "ips_active ?s \<Longrightarrow> 0 < others pset" using I(13) [OF s] by (simp add: ips_release_def)
  qed simp_all
  then show ?thesis
  proof (intro exI conjI)
    show "k_psets k pset = Some s" "ipc_pset_remove pset port k = Some ?k" by (fact s e)+
    show "k_ports ?k = (k_ports k)(port \<mapsto> ?p)" "k_psets ?k = (k_psets k)(pset \<mapsto> ?s)" by simp_all
    show "?p = p\<lparr>ip_pset := IPS_NULL, ip_messages := ipc_mqueue_init\<lparr>imq_messages := ?q\<rparr>\<rparr>" using pq seq by simp
    show "imq_messages (ips_messages ?s) = filter (\<lambda>k. msgh_remote_port k \<noteq> port) (imq_messages (ips_messages s))"
      using M(1) by simp
    show "ips_bits ?s = ips_bits s" by (simp add: ips_release_def)
    show "k_events ?k = k_events k" using none by simp
  qed (assumption | rule refl)+
qed

text \<open>
  The move: the port ends in the new set, every reference is accounted for, the old set is freed
  exactly when nothing refers to it any more, and no message of the port is lost.
\<close>

lemma ipc_pset_move_ok:
  assumes inv: "psets_ok others k" and p: "k_ports k port = Some p"
    and n: "nset \<noteq> IPS_NULL \<Longrightarrow> k_psets k nset \<noteq> None \<and> card (members k nset) + others nset + 1 < 2 ^ 32"
  shows "\<exists>kr k' p'. ipc_pset_move port nset k = Some (kr, k') \<and> psets_ok others k' \<and>
    k_ports k' = (k_ports k)(port \<mapsto> p') \<and> ip_pset p' = nset \<and>
    (kr = KERN_NOT_IN_SET \<longleftrightarrow> nset = IPS_NULL \<and>
       (ip_pset p = IPS_NULL \<or> (\<exists>s. k_psets k (ip_pset p) = Some s \<and> \<not> ips_active s))) \<and>
    (kr = KERN_NOT_IN_SET \<or> kr = KERN_SUCCESS)"
proof -
  let ?o = "ip_pset p"
  consider (same) "?o = nset" | (add) "?o \<noteq> nset" "?o = IPS_NULL"
    | (remove) "?o \<noteq> IPS_NULL" "nset = IPS_NULL" | (both) "?o \<noteq> nset" "?o \<noteq> IPS_NULL" "nset \<noteq> IPS_NULL" by blast
  then show ?thesis
  proof cases
    case same
    have "(k_ports k)(port \<mapsto> p) = k_ports k" using p by (simp add: fun_upd_idem)
    then show ?thesis using same inv p
      by (intro exI [of _ "if nset = IPS_NULL then KERN_NOT_IN_SET else KERN_SUCCESS"] exI [of _ k] exI [of _ p])
        (simp add: ipc_pset_move_def)
  next
    case add
    with n obtain s where s: "k_psets k nset = Some s" "card (members k nset) + others nset + 1 < 2 ^ 32" by auto
    from ipc_pset_add_spec [OF inv p add(2) s] obtain k' p' where
      "ipc_pset_add nset port k = Some k'" "psets_inv others ({} - {nset}) k'" "k_ports k' = (k_ports k)(port \<mapsto> p')" "ip_pset p' = nset"
      by (elim exE conjE) (rule that, assumption+, simp)
    with add p show ?thesis by (auto simp: ipc_pset_move_def)
  next
    case remove
    from ipc_pset_remove_spec [OF inv p refl remove(1)] obtain s k1 p1 s1 where r:
      "k_psets k ?o = Some s" "ipc_pset_remove ?o port k = Some k1" "psets_inv others (insert ?o {}) k1"
      "k_ports k1 = (k_ports k)(port \<mapsto> p1)" "k_psets k1 = (k_psets k)(?o \<mapsto> s1)" "ip_pset p1 = IPS_NULL" "ips_bits s1 = ips_bits s"
      by (elim exE conjE) (rule that, assumption+, simp, assumption)
    have s1: "k_psets k1 ?o = Some s1" using r(5) by simp
    show ?thesis
    proof (cases "ips_active s")
      case True
      then have a: "ips_active s1" using r(7) by simp
      have "psets_ok others k1"
        by (rule psets_inv_except [OF r(3)]) (use s1 psets_invD(13) [OF r(3) s1 a] in auto)
      with a s1 remove p r True show ?thesis by (auto simp: ipc_pset_move_def)
    next
      case False
      then have "\<not> ips_active s1" using r(7) by simp
      moreover from ips_check_unlock_spec [OF r(3) s1] obtain k2 where
        "ips_check_unlock ?o k1 = Some k2" "psets_inv others (insert ?o {} - {?o}) k2" "k_ports k2 = k_ports k1" by blast
      ultimately show ?thesis using remove p r False by (auto simp: ipc_pset_move_def)
    qed
  next
    case both
    with n obtain t where t: "k_psets k nset = Some t" "card (members k nset) + others nset + 1 < 2 ^ 32" by auto
    from ipc_pset_remove_spec [OF inv p refl both(2)] obtain s k1 p1 s1 where r:
      "k_psets k ?o = Some s" "ipc_pset_remove ?o port k = Some k1" "psets_inv others (insert ?o {}) k1"
      "k_ports k1 = (k_ports k)(port \<mapsto> p1)" "k_psets k1 = (k_psets k)(?o \<mapsto> s1)" "ip_pset p1 = IPS_NULL"
      by (elim exE conjE) (rule that, assumption+, simp)
    have p1: "k_ports k1 port = Some p1" using r(4) by simp
    have m: "members k1 nset = members k nset" using both p r(4,6) by (auto simp: members_def)
    have t1: "k_psets k1 nset = Some t" using r(5) t(1) both by simp
    have room: "card (members k1 nset) + others nset + 1 < 2 ^ 32" using t(2) m by simp
    from ipc_pset_add_spec [OF r(3) p1 r(6) t1 room] obtain k2 p2 s2 where a:
      "ipc_pset_add nset port k1 = Some k2" "psets_inv others (insert ?o {} - {nset}) k2" "k_ports k2 = (k_ports k1)(port \<mapsto> p2)"
      "k_psets k2 = (k_psets k1)(nset \<mapsto> s2)" "ip_pset p2 = nset"
      by (elim exE conjE) (rule that, assumption+, simp)
    have o2: "k_psets k2 ?o = Some s1" using a(4) r(5) both by simp
    from ips_check_unlock_spec [OF a(2) o2] obtain k3 where
      "ips_check_unlock ?o k2 = Some k3" "psets_inv others (insert ?o {} - {nset} - {?o}) k3" "k_ports k3 = k_ports k2" by blast
    moreover have "insert ?o {} - {nset} - {?o} = {}" by auto
    ultimately show ?thesis using both p r a by (auto simp: ipc_pset_move_def)
  qed
qed

text \<open>Destroying a set: the reference of the caller goes, and the receivers are told.\<close>

lemma ipc_pset_destroy_ok:
  assumes inv: "psets_ok others k" and s: "k_psets k pset = Some s" and one: "0 < others pset"
  shows "\<exists>k'. ipc_pset_destroy pset k = Some k' \<and> psets_ok (others(pset := others pset - 1)) k' \<and>
    k_ports k' = k_ports k \<and>
    (case k_psets k' pset of
       None \<Rightarrow> members k pset = {} \<and> others pset = 1
     | Some s' \<Rightarrow> \<not> ips_active s' \<and> imq_messages (ips_messages s') = imq_messages (ips_messages s) \<and>
         imq_threads (ips_messages s') = []) \<and>
    k_events k' = k_events k @
      map (\<lambda>th. Thread_Go (th\<lparr>ith_state := MACH_RCV_PORT_DIED\<rparr>)) (imq_threads (ips_messages s))"
proof -
  note I = psets_invD [OF inv]
  let ?o = "others(pset := others pset - 1)"
  let ?s = "ips_release (s\<lparr>ips_bits := ips_bits s AND NOT IO_BITS_ACTIVE, ips_messages := (ips_messages s)\<lparr>imq_threads := []\<rparr>\<rparr>)"
  let ?k = "wake (snd (ipc_mqueue_changed (ips_messages s) MACH_RCV_PORT_DIED)) (put_pset pset ?s k)"
  have mem: "members ?k b = members k b" for b by (simp add: members_def)
  have off: "\<not> io_active (b AND NOT IO_BITS_ACTIVE)" for b by simp
  have x: "pset \<noteq> IPS_NULL" using I(2) s by auto
  have "psets_inv ?o {pset} ?k"
    unfolding psets_inv_def mem
  proof (intro conjI allI impI ballI)
    fix a t assume t: "k_psets ?k a = Some t"
    show "mqueue_ok (ips_messages t)" using t I(8) s by (auto simp: ips_release_def mqueue_ok_def split: if_splits)
    show "msgh_remote_port m \<in> members k a" if "m \<in> set (imq_messages (ips_messages t))" for m
      using t that I(9) s by (auto simp: ips_release_def split: if_splits)
    show "card (members k a) + ?o a < 2 ^ 32" using t I(10) [of a] s by (auto split: if_splits)
    show "ips_references t = of_nat (card (members k a) + ?o a)"
      using t I(11) [of a] s one by (cases "others pset") (auto simp: ips_release_def split: if_splits)
    show "0 < ?o a" if "ips_active t" using t that off I(13) [of a] by (auto simp: ips_release_def split: if_splits)
    show "members k a \<noteq> {} \<or> 0 < ?o a" if "a \<notin> {pset}" using t that I(12) [of a] by auto
  qed (use I x in auto)
  moreover have "k_psets ?k pset = Some ?s" by simp
  ultimately obtain k' where k': "ips_check_unlock pset ?k = Some k'" "psets_inv ?o ({pset} - {pset}) k'"
    "k_ports k' = k_ports ?k" "k_events k' = k_events ?k"
    "k_psets k' = (if members ?k pset = {} \<and> ?o pset = 0 then (k_psets ?k)(pset := None) else k_psets ?k)"
    using ips_check_unlock_spec by blast
  have e: "ipc_pset_destroy pset k = Some k'"
    using s k'(1) by (simp add: ipc_pset_destroy_def ipc_mqueue_changed_def)
  have "map Thread_Go (snd (ipc_mqueue_changed (ips_messages s) MACH_RCV_PORT_DIED)) =
      map (\<lambda>th. Thread_Go (th\<lparr>ith_state := MACH_RCV_PORT_DIED\<rparr>)) (imq_threads (ips_messages s))"
    by (simp add: ipc_mqueue_changed_def comp_def)
  with k' e mem off one show ?thesis by (intro exI [of _ k']) (auto simp: ips_release_def)
qed

end
