(* ===== verification/Ipc_Dnrequest.thy ===== *)
theory Ipc_Dnrequest
  imports Ipc_Pset
begin

section \<open>Dead-name requests\<close>

text \<open>
  The table of requests of a port (\<open>ipc/ipc_port.c\<close>, \<open>ipc/ipc_port.h\<close>).  A slot in use has a name
  and a send-once right, or the address of a space with its low bit set for a compat entry; the
  free slots are linked through the same word, from element 0.  The operations work on the port,
  which is locked; \<open>ipc_port_dngrow\<close> unlocks it, and other threads may run then.
\<close>

definition ipc_port_dnrequest ::
    "mach_port_t \<Rightarrow> addr \<Rightarrow> ipc_port \<Rightarrow> (kern_return_t + nat) \<times> ipc_port" where
  "ipc_port_dnrequest name soright p =
     (case ip_dnrequests p of
        None \<Rightarrow> (Inl KERN_NO_SPACE, p)
      | Some (a, table) \<Rightarrow>
          let index = ipr_next (table ! 0) in
          if index = 0 then (Inl KERN_NO_SPACE, p)
          else let ipr = table ! index;
                   table = table[0 := (table ! 0)\<lparr>ipr_notify := ipr_notify ipr\<rparr>];
                   table = table[index := ipr\<lparr>ipr_name := name, ipr_notify := soright\<rparr>]
               in (Inr index, p\<lparr>ip_dnrequests := Some (a, table)\<rparr>))"

definition ipc_port_dncancel :: "mach_port_t \<Rightarrow> nat \<Rightarrow> ipc_port \<Rightarrow> (addr \<times> ipc_port) option" where
  "ipc_port_dncancel name index p =
     (case ip_dnrequests p of
        None \<Rightarrow> None
      | Some (a, table) \<Rightarrow>
          if index < length table
          then let ipr = table ! index;
                   dnrequest = ipr_soright ipr;
                   table = table[index := ipr\<lparr>ipr_name := MACH_PORT_NULL, ipr_notify := ipr_notify (table ! 0)\<rparr>];
                   table = table[0 := (table ! 0)\<lparr>ipr_notify := of_nat index\<rparr>]
               in Some (dnrequest, p\<lparr>ip_dnrequests := Some (a, table)\<rparr>)
          else None)"

definition ipc_port_dnrename :: "nat \<Rightarrow> mach_port_t \<Rightarrow> mach_port_t \<Rightarrow> ipc_port \<Rightarrow> ipc_port option" where
  "ipc_port_dnrename index oname nname p =
     (case ip_dnrequests p of
        None \<Rightarrow> None
      | Some (a, table) \<Rightarrow>
          if index < length table
          then Some (p\<lparr>ip_dnrequests := Some (a, table[index := (table ! index)\<lparr>ipr_name := nname\<rparr>])\<rparr>)
          else None)"

text \<open>The loop that links new elements, from index \<open>i\<close> on, before the old free list.\<close>

fun dngrow_free :: "nat \<Rightarrow> nat \<Rightarrow> nat \<Rightarrow> ipc_port_request list \<times> nat" where
  "dngrow_free i 0 free = ([], free)"
| "dngrow_free i (Suc n) free =
     (let (rest, free') = dngrow_free (i + 1) n i
      in (\<lparr>ipr_notify = of_nat free, ipr_name = MACH_PORT_NULL\<rparr> # rest, free'))"

text \<open>The table of the next size, with the old elements copied.\<close>

definition dngrow_table :: "nat \<Rightarrow> ipc_port_request list option \<Rightarrow> ipc_port_request list" where
  "dngrow_table its otable =
     (let (osize, free, old) =
        (case otable of
           None \<Rightarrow> (1, 0, [])
         | Some t \<Rightarrow> let osize = its_dn_size (ipr_size (t ! 0)) in (osize, ipr_next (t ! 0), take (osize - 1) (tl t)));
          nsize = its_dn_size its;
          (new, free) = dngrow_free osize (nsize - osize) free
      in \<lparr>ipr_notify = of_nat free, ipr_name = of_nat its\<rparr> # old @ new)"

text \<open>
  \<open>alloc\<close> is the allocator: the address of a new table of the given size, or none.  Another thread
  that grows the table first, or kills the port, is noticed by comparing the address of the table
  and its size.
\<close>

definition ipc_port_dngrow ::
    "(ipc_kernel \<Rightarrow> ipc_kernel) \<Rightarrow> (nat \<Rightarrow> addr option) \<Rightarrow> addr \<Rightarrow> ipc_kernel
      \<Rightarrow> (kern_return_t \<times> ipc_kernel) option" where
  "ipc_port_dngrow env alloc port k =
     do {
       p \<leftarrow> k_ports k port;
       let otable = ip_dnrequests p;
       let its = (case otable of None \<Rightarrow> 0 | Some (_, t) \<Rightarrow> ipr_size (t ! 0) + 1);
       let k = env (put_port port (ip_reference p) k);
       case (if its_dn_size its = 0 then None else alloc its) of
         None \<Rightarrow> do {
           k \<leftarrow> ipc_port_release port k;
           Some (KERN_RESOURCE_SHORTAGE, k)
         }
       | Some ntable \<Rightarrow> do {
           p \<leftarrow> k_ports k port;
           let p = ip_release p;
           if ip_active p \<and> map_option fst (ip_dnrequests p) = map_option fst otable \<and>
              (case ip_dnrequests p of None \<Rightarrow> True | Some (_, t) \<Rightarrow> ipr_size (t ! 0) + 1 = its)
           then Some (KERN_SUCCESS, put_port port
             (p\<lparr>ip_dnrequests := Some (ntable, dngrow_table its (map_option snd (ip_dnrequests p)))\<rparr>) k)
           else do {
             k \<leftarrow> ip_check_unlock port (put_port port p k);
             Some (KERN_SUCCESS, k)
           }
         }
     }"

section \<open>The table as a map from slots to requests\<close>

fun dn_chain :: "ipc_port_request list \<Rightarrow> nat \<Rightarrow> nat list \<Rightarrow> bool" where
  "dn_chain t j [] \<longleftrightarrow> j = 0"
| "dn_chain t j (f # F) \<longleftrightarrow> j = f \<and> dn_chain t (ipr_next (t ! f)) F"

definition dn_ok :: "ipc_port_request list \<Rightarrow> bool" where
  "dn_ok t \<longleftrightarrow> ipr_size (t ! 0) < 63 \<and> length t = its_dn_size (ipr_size (t ! 0)) \<and>
     (\<exists>F. dn_chain t (ipr_next (t ! 0)) F \<and> distinct F \<and>
        set F = {i. 0 < i \<and> i < length t \<and> ipr_name (t ! i) = MACH_PORT_NULL})"

definition dn_map :: "ipc_port_request list \<Rightarrow> nat \<Rightarrow> (mach_port_t \<times> addr) option" where
  "dn_map t i =
     (if 0 < i \<and> i < length t \<and> ipr_name (t ! i) \<noteq> MACH_PORT_NULL
      then Some (ipr_name (t ! i), ipr_soright (t ! i)) else None)"

definition requests_ok :: "ipc_port \<Rightarrow> bool" where
  "requests_ok p \<longleftrightarrow> (case ip_dnrequests p of None \<Rightarrow> True | Some (_, t) \<Rightarrow> dn_ok t)"

definition requests :: "ipc_port \<Rightarrow> nat \<Rightarrow> (mach_port_t \<times> addr) option" where
  "requests p = (case ip_dnrequests p of None \<Rightarrow> Map.empty | Some (_, t) \<Rightarrow> dn_map t)"

lemma dn_ok_length: "dn_ok t \<Longrightarrow> 1 < length t" "dn_ok t \<Longrightarrow> length t \<le> 174080"
proof -
  assume "dn_ok t"
  then have s: "ipr_size (t ! 0) < 63" "length t = its_dn_size (ipr_size (t ! 0))" by (auto simp: dn_ok_def)
  show "1 < length t"
    using s dnrequests.size_pos by auto
  show "length t \<le> 174080" using s its_dn_size_bound by auto
qed

lemma unat_index: "i \<le> 174080 \<Longrightarrow> unat (of_nat i :: u32) = i"
  by (simp add: unat_of_nat take_bit_nat_eq_self)

lemma dn_chain_cong: "(\<And>i. i \<in> set F \<Longrightarrow> ipr_next (t' ! i) = ipr_next (t ! i)) \<Longrightarrow> dn_chain t' j F = dn_chain t j F"
  by (induction F arbitrary: j) auto

text \<open>A request takes a slot that was free, or the table is full.\<close>

lemma dnrequest_spec:
  assumes ok: "requests_ok p" and n: "name \<noteq> MACH_PORT_NULL"
  shows "case ipc_port_dnrequest name soright p of
      (Inr i, p') \<Rightarrow> 0 < i \<and> requests p i = None \<and> requests_ok p' \<and>
        requests p' = (requests p)(i \<mapsto> (name, soright)) \<and>
        (\<exists>a t. p' = p\<lparr>ip_dnrequests := Some (a, t)\<rparr> \<and> map_option fst (ip_dnrequests p) = Some a)
    | (Inl kr, p') \<Rightarrow> kr = KERN_NO_SPACE \<and> p' = p \<and>
        (case ip_dnrequests p of None \<Rightarrow> True | Some (_, t) \<Rightarrow> \<forall>i. 0 < i \<and> i < length t \<longrightarrow> requests p i \<noteq> None)"
proof (cases "ip_dnrequests p")
  case None
  then show ?thesis by (simp add: ipc_port_dnrequest_def)
next
  case (Some at)
  obtain a t where at: "at = (a, t)" by (cases at)
  with ok Some have t: "dn_ok t" by (simp add: requests_ok_def)
  then obtain F where F: "dn_chain t (ipr_next (t ! 0)) F" "distinct F"
    "set F = {i. 0 < i \<and> i < length t \<and> ipr_name (t ! i) = MACH_PORT_NULL}" by (auto simp: dn_ok_def)
  show ?thesis
  proof (cases F)
    case Nil
    with F Some at show ?thesis
      by (auto simp: ipc_port_dnrequest_def requests_def dn_map_def)
  next
    case (Cons i G)
    from F Cons have i: "ipr_next (t ! 0) = i" "0 < i" "i < length t" "ipr_name (t ! i) = MACH_PORT_NULL"
      "i \<notin> set G" "distinct G" "dn_chain t (ipr_next (t ! i)) G" "set G = set F - {i}" by auto
    define t' where "t' = t[0 := (t ! 0)\<lparr>ipr_notify := ipr_notify (t ! i)\<rparr>, i := (t ! i)\<lparr>ipr_name := name, ipr_notify := soright\<rparr>]"
    have nth: "t' ! j = (if j = i then (t ! i)\<lparr>ipr_name := name, ipr_notify := soright\<rparr>
        else if j = 0 then (t ! 0)\<lparr>ipr_notify := ipr_notify (t ! i)\<rparr> else t ! j)" for j
    proof -
      from i(3) have "t \<noteq> []" by auto
      with i(2,3) show ?thesis by (simp add: t'_def nth_list_update)
    qed
    have len: "length t' = length t" by (simp add: t'_def)
    have "j \<noteq> 0 \<and> j \<noteq> i" if "j \<in> set G" for j using that i(5,8) F(3) by blast
    then have c: "dn_chain t' j G = dn_chain t j G" for j by (intro dn_chain_cong) (metis nth)
    have "ipr_next (t' ! 0) = ipr_next (t ! i)" using i(2) by (simp add: nth)
    then have "dn_chain t' (ipr_next (t' ! 0)) G" using i(7) c by simp
    moreover have "set G = {j. 0 < j \<and> j < length t' \<and> ipr_name (t' ! j) = MACH_PORT_NULL}"
      unfolding i(8) F(3) len using i(2,3) n by (auto simp: nth)
    moreover have "ipr_size (t' ! 0) = ipr_size (t ! 0)" using i(2) by (simp add: nth)
    ultimately have "dn_ok t'" using t i(6) unfolding dn_ok_def len by metis
    moreover have "dn_map t' = (dn_map t)(i \<mapsto> (name, soright))"
      using i n by (auto simp: fun_eq_iff dn_map_def nth len)
    moreover have "ipc_port_dnrequest name soright p = (Inr i, p\<lparr>ip_dnrequests := Some (a, t')\<rparr>)"
      using Some at i by (auto simp: ipc_port_dnrequest_def t'_def Let_def)
    ultimately show ?thesis using Some at i by (auto simp: requests_ok_def requests_def dn_map_def)
  qed
qed

text \<open>Cancelling returns the right that was registered and frees the slot.\<close>

lemma dncancel_spec:
  assumes ok: "requests_ok p" and r: "requests p i = Some (name, soright)"
  shows "\<exists>p'. ipc_port_dncancel name i p = Some (soright, p') \<and> requests_ok p' \<and>
    requests p' = (requests p)(i := None) \<and>
    (\<exists>a t. p' = p\<lparr>ip_dnrequests := Some (a, t)\<rparr> \<and> map_option fst (ip_dnrequests p) = Some a)"
proof -
  from r obtain a t where at: "ip_dnrequests p = Some (a, t)" "dn_map t i = Some (name, soright)"
    by (auto simp: requests_def split: option.splits)
  with ok have t: "dn_ok t" by (simp add: requests_ok_def)
  then obtain F where F: "dn_chain t (ipr_next (t ! 0)) F" "distinct F"
    "set F = {i. 0 < i \<and> i < length t \<and> ipr_name (t ! i) = MACH_PORT_NULL}" by (auto simp: dn_ok_def)
  from at(2) have i: "0 < i" "i < length t" "ipr_name (t ! i) = name" "name \<noteq> MACH_PORT_NULL" "ipr_soright (t ! i) = soright"
    by (auto simp: dn_map_def split: if_splits)
  define t' where "t' = t[i := (t ! i)\<lparr>ipr_name := MACH_PORT_NULL, ipr_notify := ipr_notify (t ! 0)\<rparr>, 0 := (t ! 0)\<lparr>ipr_notify := of_nat i\<rparr>]"
  have nth: "t' ! j = (if j = i then (t ! i)\<lparr>ipr_name := MACH_PORT_NULL, ipr_notify := ipr_notify (t ! 0)\<rparr>
        else if j = 0 then (t ! 0)\<lparr>ipr_notify := of_nat i\<rparr> else t ! j)" for j
  proof -
    from i(2) have "t \<noteq> []" by auto
    with i(1,2) show ?thesis by (simp add: t'_def nth_list_update)
  qed
  have len: "length t' = length t" by (simp add: t'_def)
  have ui: "unat (of_nat i :: u32) = i" using i(2) dn_ok_length(2) [OF t] by (intro unat_index) simp
  have nF: "i \<notin> set F" "0 \<notin> set F" using F(3) i by auto
  have "dn_chain t' j F = dn_chain t j F" for j
    using nF by (intro dn_chain_cong) (auto simp: nth)
  then have "dn_chain t' (ipr_next (t' ! 0)) (i # F)" using F(1) i by (simp add: nth ui)
  moreover have "set (i # F) = {j. 0 < j \<and> j < length t' \<and> ipr_name (t' ! j) = MACH_PORT_NULL}"
    using i F(3) by (auto simp: nth len)
  moreover have "distinct (i # F)" using nF F(2) by simp
  moreover have sz: "ipr_size (t' ! 0) = ipr_size (t ! 0)" using i by (simp add: nth)
  ultimately have "dn_ok t'" using t i unfolding dn_ok_def len using sz by metis
  moreover have "dn_map t' = (dn_map t)(i := None)"
    using i by (auto simp: fun_eq_iff dn_map_def nth len)
  moreover have "ipc_port_dncancel name i p = Some (soright, p\<lparr>ip_dnrequests := Some (a, t')\<rparr>)"
    using at i by (auto simp: ipc_port_dncancel_def t'_def Let_def)
  ultimately show ?thesis using at by (auto simp: requests_ok_def requests_def)
qed

lemma dnrename_spec:
  assumes ok: "requests_ok p" and r: "requests p i = Some (oname, soright)" and n: "nname \<noteq> MACH_PORT_NULL"
  shows "\<exists>p'. ipc_port_dnrename i oname nname p = Some p' \<and> requests_ok p' \<and>
    requests p' = (requests p)(i \<mapsto> (nname, soright)) \<and>
    (\<exists>a t. p' = p\<lparr>ip_dnrequests := Some (a, t)\<rparr> \<and> map_option fst (ip_dnrequests p) = Some a)"
proof -
  from r obtain a t where at: "ip_dnrequests p = Some (a, t)" "dn_map t i = Some (oname, soright)"
    by (auto simp: requests_def split: option.splits)
  with ok have t: "dn_ok t" by (simp add: requests_ok_def)
  from at(2) have i: "0 < i" "i < length t" "ipr_name (t ! i) = oname" "oname \<noteq> MACH_PORT_NULL" "ipr_soright (t ! i) = soright"
    by (auto simp: dn_map_def split: if_splits)
  define t' where "t' = t[i := (t ! i)\<lparr>ipr_name := nname\<rparr>]"
  have nth: "t' ! j = (if j = i then (t ! i)\<lparr>ipr_name := nname\<rparr> else t ! j)" for j
    using i by (auto simp: t'_def nth_list_update)
  have len: "length t' = length t" by (simp add: t'_def)
  have "dn_chain t' j F = dn_chain t j F" for j F by (intro dn_chain_cong) (auto simp: nth)
  then have "dn_ok t'" using t i n unfolding dn_ok_def len by (auto simp: nth) 
  moreover have "dn_map t' = (dn_map t)(i \<mapsto> (nname, soright))"
    using i n by (auto simp: fun_eq_iff dn_map_def nth len)
  moreover have "ipc_port_dnrename i oname nname p = Some (p\<lparr>ip_dnrequests := Some (a, t')\<rparr>)"
    using at i by (auto simp: ipc_port_dnrename_def t'_def Let_def)
  ultimately show ?thesis using at by (auto simp: requests_ok_def requests_def)
qed

section \<open>Growing\<close>

lemma dngrow_free_spec:
  assumes "dngrow_free i n free = (new, free')" and "i + n \<le> 174080" and "free \<le> 174080"
  shows "length new = n"
    and "\<forall>j<n. ipr_name (new ! j) = MACH_PORT_NULL \<and> ipr_next (new ! j) = (if j = 0 then free else i + j - 1)"
    and "free' = (if n = 0 then free else i + n - 1)"
proof (atomize (full), use assms in \<open>induction i n free arbitrary: new free' rule: dngrow_free.induct\<close>)
  case (1 i free)
  then show ?case by simp
next
  case (2 i n free)
  obtain r f where d: "dngrow_free (i + 1) n i = (r, f)" by (metis prod.exhaust)
  with "2.prems" have e: "new = \<lparr>ipr_notify = of_nat free, ipr_name = MACH_PORT_NULL\<rparr> # r" "free' = f" by auto
  from "2.IH" [OF d] "2.prems" have IH: "length r = n"
    "\<forall>j<n. ipr_name (r ! j) = MACH_PORT_NULL \<and> ipr_next (r ! j) = (if j = 0 then i else i + 1 + j - 1)"
    "f = (if n = 0 then i else i + 1 + n - 1)" by auto
  have "unat (of_nat free :: u32) = free" using "2.prems"(3) by (rule unat_index)
  with IH e show ?case by (auto simp: nth_Cons less_Suc_eq_0_disj split: nat.splits)
qed

lemma dn_chain_down:
  assumes "\<And>j. j < n \<Longrightarrow> ipr_next (t ! (i + j)) = (if j = 0 then free else i + j - 1)" and "dn_chain t free F"
  shows "dn_chain t (if n = 0 then free else i + n - 1) (rev [i..<i + n] @ F)"
  using assms(1)
proof (induction n)
  case 0
  then show ?case using assms(2) by simp
next
  case (Suc n)
  have "ipr_next (t ! (i + n)) = (if n = 0 then free else i + n - 1)" using Suc.prems by simp
  moreover have "dn_chain t (if n = 0 then free else i + n - 1) (rev [i..<i + n] @ F)" using Suc by simp
  ultimately show ?case by simp
qed

text \<open>The new table is larger, keeps every request at its index, and its new slots are free.\<close>

lemma dngrow_table_spec:
  assumes "case otable of None \<Rightarrow> its = 0 | Some t \<Rightarrow> dn_ok t \<and> its = ipr_size (t ! 0) + 1" and "its < 63"
  defines "nt \<equiv> dngrow_table its otable"
  shows "dn_ok nt" and "ipr_size (nt ! 0) = its" and "length nt = its_dn_size its"
    and "dn_map nt = (case otable of None \<Rightarrow> Map.empty | Some t \<Rightarrow> dn_map t)"
proof -
  let ?n = "its_dn_size its"
  define t where "t = (case otable of None \<Rightarrow> [\<lparr>ipr_notify = 0, ipr_name = 0\<rparr>] | Some t \<Rightarrow> t)"
  define osize where "osize = length t"
  define free where "free = ipr_next (t ! 0)"
  have t: "0 < osize" "osize < ?n" "osize \<le> 174080"
    and F: "\<exists>F. dn_chain t free F \<and> distinct F \<and> set F = {i. 0 < i \<and> i < osize \<and> ipr_name (t ! i) = MACH_PORT_NULL}"
  proof -
    show "0 < osize" "osize \<le> 174080" using assms(1) dn_ok_length by (fastforce simp: t_def osize_def split: option.splits)+
    show "osize < ?n"
    proof (cases otable)
      case None
      then show ?thesis using assms(1) dnrequests.size_pos [of 0] by (simp add: osize_def t_def)
    next
      case (Some u)
      then show ?thesis using assms dnrequests.increasing [of "ipr_size (u ! 0)" its]
        by (auto simp: osize_def t_def dn_ok_def)
    qed
    show "\<exists>F. dn_chain t free F \<and> distinct F \<and> set F = {i. 0 < i \<and> i < osize \<and> ipr_name (t ! i) = MACH_PORT_NULL}"
      using assms(1) by (cases otable) (auto simp: t_def osize_def free_def dn_ok_def intro: exI [of _ "[]"])
  qed
  have n: "?n \<le> 174080" using assms(2) by (intro its_dn_size_bound) simp
  from F obtain F where F: "dn_chain t free F" "distinct F" "set F = {i. 0 < i \<and> i < osize \<and> ipr_name (t ! i) = MACH_PORT_NULL}" by blast
  have fb: "free \<le> 174080"
  proof (cases F)
    case (Cons f G)
    then have "free = f" "f \<in> set F" using F(1) by simp_all
    then show ?thesis unfolding F(3) using t(3) by simp
  qed (use F(1) in simp)
  obtain new free' where d: "dngrow_free osize (?n - osize) free = (new, free')" by (metis prod.exhaust)
  have nt: "nt = \<lparr>ipr_notify = of_nat free', ipr_name = of_nat its\<rparr> # tl t @ new"
  proof (cases otable)
    case None
    then show ?thesis using d by (simp add: nt_def dngrow_table_def t_def osize_def free_def Let_def)
  next
    case (Some u)
    then have "its_dn_size (ipr_size (u ! 0)) = length u" "t = u" using assms(1) by (auto simp: dn_ok_def t_def)
    with Some d show ?thesis by (simp add: nt_def dngrow_table_def osize_def free_def Let_def)
  qed
  note S = dngrow_free_spec [OF d _ fb]
  have S: "length new = ?n - osize" "free' = (if ?n - osize = 0 then free else osize + (?n - osize) - 1)"
    "\<forall>j<?n - osize. ipr_name (new ! j) = MACH_PORT_NULL \<and> ipr_next (new ! j) = (if j = 0 then free else osize + j - 1)"
    using S n t(2) by auto
  have f': "free' \<le> 174080" using S(2) n t by auto
  have len: "length nt = ?n" using S(1) t unfolding nt osize_def by (cases t) auto
  then show "length nt = ?n" .
  have old: "nt ! i = t ! i" if "0 < i" "i < osize" for i
    using that by (cases i) (auto simp: nt nth_append osize_def nth_tl)
  have nw: "nt ! (osize + j) = new ! j" if "j < ?n - osize" for j
    using t(1) that by (cases osize) (auto simp: nt nth_append osize_def)
  have h: "ipr_next (nt ! 0) = free'" using f' by (simp add: nt unat_index)
  have sz: "ipr_size (nt ! 0) = its" using assms(2) by (simp add: nt unat_index)
  then show "ipr_size (nt ! 0) = its" .
  have "dn_chain nt free F = dn_chain t free F" using F(3) old by (intro dn_chain_cong) auto
  then have "dn_chain nt free' (rev [osize..<osize + (?n - osize)] @ F)"
    using F(1) S(3) nw unfolding S(2) by (intro dn_chain_down) auto
  moreover have "\<forall>i\<in>set F. i < osize" unfolding F(3) by blast
  then have "distinct (rev [osize..<osize + (?n - osize)] @ F)" using F(2) by auto
  moreover have "set (rev [osize..<osize + (?n - osize)] @ F) = {i. 0 < i \<and> i < length nt \<and> ipr_name (nt ! i) = MACH_PORT_NULL}"
  proof -
    have "ipr_name (nt ! i) = MACH_PORT_NULL" if "osize \<le> i" "i < ?n" for i
      using nw [of "i - osize"] S(3) that by auto
    moreover have "ipr_name (nt ! i) = ipr_name (t ! i)" if "0 < i" "i < osize" for i using old that by simp
    moreover have "set (rev [osize..<osize + (?n - osize)]) = {osize..<?n}" using t(2) by auto
    ultimately have "i \<in> set (rev [osize..<osize + (?n - osize)]) \<union> set F \<longleftrightarrow> 0 < i \<and> i < ?n \<and> ipr_name (nt ! i) = MACH_PORT_NULL" for i
      using t(1,2) unfolding F(3) by (cases "i < osize") auto
    then show ?thesis unfolding set_append len by blast
  qed
  ultimately have "\<exists>F. dn_chain nt free' F \<and> distinct F \<and> set F = {i. 0 < i \<and> i < length nt \<and> ipr_name (nt ! i) = MACH_PORT_NULL}"
    by blast
  then show "dn_ok nt" using len assms(2) unfolding dn_ok_def h sz by simp
  show "dn_map nt = (case otable of None \<Rightarrow> Map.empty | Some t \<Rightarrow> dn_map t)"
  proof
    fix i
    have "ipr_name (nt ! i) = MACH_PORT_NULL" if "osize \<le> i" "i < ?n"
      using nw [of "i - osize"] S(3) that by auto
    then have "dn_map nt i = dn_map t i" using old t len unfolding dn_map_def osize_def [symmetric]
      by (cases "i < osize") auto
    then show "dn_map nt i = (case otable of None \<Rightarrow> Map.empty | Some t \<Rightarrow> dn_map t) i"
      by (auto simp: t_def dn_map_def split: option.splits)
  qed
qed

text \<open>
  Growing, with other threads in the middle: it returns, and if the port is still there, its
  requests are those the other threads left.
\<close>

lemma dngrow_spec:
  assumes p: "k_ports k port = Some p" "requests_ok p"
    and env: "k_ports (env (put_port port (ip_reference p) k)) port = Some q" "requests_ok q"
  shows "\<exists>kr k'. ipc_port_dngrow env alloc port k = Some (kr, k') \<and> (kr = KERN_SUCCESS \<or> kr = KERN_RESOURCE_SHORTAGE) \<and>
    (case k_ports k' port of
       None \<Rightarrow> ip_references q = 1
     | Some q' \<Rightarrow> requests_ok q' \<and> requests q' = requests q \<and> ip_references q' = ip_references q - 1 \<and>
         q' = ip_release q\<lparr>ip_dnrequests := ip_dnrequests q'\<rparr>) \<and>
    (\<forall>a. a \<noteq> port \<longrightarrow> k_ports k' a = k_ports (env (put_port port (ip_reference p) k)) a) \<and>
    k_space k' = k_space (env (put_port port (ip_reference p) k)) \<and> k_hash k' = k_hash (env (put_port port (ip_reference p) k))"
proof -
  let ?k1 = "env (put_port port (ip_reference p) k)"
  let ?its = "case ip_dnrequests p of None \<Rightarrow> 0 | Some (_, t) \<Rightarrow> ipr_size (t ! 0) + 1"
  have its: "?its < 64" using p(2) by (auto simp: requests_ok_def dn_ok_def split: option.splits)
  have rel: "requests_ok (ip_release q)" "requests (ip_release q) = requests q"
    using env(2) by (simp_all add: requests_ok_def requests_def ip_release_def)
  show ?thesis
  proof (cases "if its_dn_size ?its = 0 then None else alloc ?its")
    case None
    then show ?thesis using p(1) env(1) rel
      by (auto simp: ipc_port_dngrow_def ipc_object_release_def ip_check_unlock_def ip_release_def Let_def)
  next
    case (Some ntable)
    have "its_dn_size 63 = 0" by (simp add: its_dn_size_def ipc_table_dnrequests_eq)
    with Some its have its': "?its < 63" by (cases "?its = 63") auto
    let ?q = "ip_release q"
    let ?test = "ip_active ?q \<and> map_option fst (ip_dnrequests ?q) = map_option fst (ip_dnrequests p) \<and>
              (case ip_dnrequests ?q of None \<Rightarrow> True | Some (_, t) \<Rightarrow> ipr_size (t ! 0) + 1 = ?its)"
    show ?thesis
    proof (cases ?test)
      case True
      have "case map_option snd (ip_dnrequests ?q) of None \<Rightarrow> ?its = 0 | Some t \<Rightarrow> dn_ok t \<and> ?its = ipr_size (t ! 0) + 1"
        using True rel(1) by (auto simp: requests_ok_def split: option.splits)
      note G = dngrow_table_spec [OF this its']
      have e: "ipc_port_dngrow env alloc port k = Some (KERN_SUCCESS, put_port port
          (?q\<lparr>ip_dnrequests := Some (ntable, dngrow_table ?its (map_option snd (ip_dnrequests ?q)))\<rparr>) ?k1)"
        using p(1) env(1) Some True by (simp add: ipc_port_dngrow_def Let_def)
      have m: "requests (?q\<lparr>ip_dnrequests := Some (ntable, dngrow_table ?its (map_option snd (ip_dnrequests ?q)))\<rparr>) = requests q"
        using G(4) rel(2) by (auto simp: requests_def split: option.splits)
      show ?thesis unfolding e using G(1) m by (auto simp: requests_ok_def ip_release_def)
    next
      case False
      then show ?thesis using p(1) env(1) Some rel
        by (auto simp: ipc_port_dngrow_def ip_check_unlock_def ip_release_def Let_def)
    qed
  qed
qed

end
