(* ===== verification/Ipc_Space_Entries.thy ===== *)
theory Ipc_Space_Entries
  imports Ipc_Dnrequest
begin

section \<open>The entries of a space\<close>

text \<open>
  The operations of a space (\<open>ipc/ipc_entry.c\<close>, \<open>ipc/ipc_hash.c\<close>, \<open>ipc/ipc_marequest.c\<close>) as steps of the
  kernel, for the space that is worked on, and how work moves to another space.
\<close>

abbreviation k_addr :: "ipc_kernel \<Rightarrow> addr" where "k_addr k \<equiv> is_addr (k_space k)"

definition get_entry :: "ipc_entry_ref \<Rightarrow> ipc_kernel \<Rightarrow> ipc_entry option" where
  "get_entry entry k = entry_at entry (k_space k)"

definition set_entry :: "ipc_entry_ref \<Rightarrow> (ipc_entry \<Rightarrow> ipc_entry) \<Rightarrow> ipc_kernel \<Rightarrow> ipc_kernel" where
  "set_entry entry f k = k\<lparr>k_space := entry_store entry f (k_space k)\<rparr>"

definition entry_dealloc :: "mach_port_t \<Rightarrow> ipc_entry_ref \<Rightarrow> ipc_kernel \<Rightarrow> ipc_kernel option" where
  "entry_dealloc name entry k =
     map_option (\<lambda>(s, g). k\<lparr>k_space := s, k_hash := g\<rparr>) (ipc_entry_dealloc name entry (k_space k, k_hash k))"

definition hash_insert :: "addr \<Rightarrow> mach_port_t \<Rightarrow> ipc_entry_ref \<Rightarrow> ipc_kernel \<Rightarrow> ipc_kernel option" where
  "hash_insert object name entry k =
     map_option (\<lambda>(s, g). k\<lparr>k_space := s, k_hash := g\<rparr>) (ipc_hash_insert object name entry (k_space k) (k_hash k))"

definition hash_delete :: "addr \<Rightarrow> mach_port_t \<Rightarrow> ipc_entry_ref \<Rightarrow> ipc_kernel \<Rightarrow> ipc_kernel option" where
  "hash_delete object name entry k =
     map_option (\<lambda>(s, g). k\<lparr>k_space := s, k_hash := g\<rparr>) (ipc_hash_delete object name entry (k_space k) (k_hash k))"

definition marequest_cancel :: "mach_port_t \<Rightarrow> ipc_kernel \<Rightarrow> ipc_kernel option" where
  "marequest_cancel name k =
     map_option (\<lambda>t. k\<lparr>k_marequests := t\<rparr>) (ipc_marequest_cancel (k_addr k) name (k_marequests k))"

text \<open>\<open>is_release\<close> on the space: somebody holds it locked, so this is never its last reference.\<close>

definition space_release :: "ipc_kernel \<Rightarrow> ipc_kernel" where
  "space_release k = k\<lparr>k_space := (k_space k)\<lparr>is_references := is_references (k_space k) - 1\<rparr>\<rparr>"

definition space_reference :: "ipc_kernel \<Rightarrow> ipc_kernel" where
  "space_reference k = k\<lparr>k_space := (k_space k)\<lparr>is_references := is_references (k_space k) + 1\<rparr>\<rparr>"

definition ipc_right_lookup_write :: "mach_port_t \<Rightarrow> ipc_kernel \<Rightarrow> (kern_return_t + ipc_entry_ref) \<times> ipc_kernel" where
  "ipc_right_lookup_write name k =
     (if \<not> is_active (k_space k) then (Inl KERN_INVALID_TASK, k)
      else let (found, s) = ipc_entry_lookup name (k_space k); k = k\<lparr>k_space := s\<rparr>
           in case found of None \<Rightarrow> (Inl KERN_INVALID_NAME, k) | Some entry \<Rightarrow> (Inr entry, k))"

subsection \<open>Another space\<close>

text \<open>
  What is done in the space at an address: in the space worked on, or in one of the others, which is
  gone when its last reference was released.
\<close>

definition in_space :: "addr \<Rightarrow> (ipc_kernel \<Rightarrow> ipc_kernel option) \<Rightarrow> ipc_kernel \<Rightarrow> ipc_kernel option" where
  "in_space space f k =
     (if space = k_addr k then f k
      else do {
        s \<leftarrow> k_spaces k space;
        k' \<leftarrow> f (k\<lparr>k_space := s\<rparr>);
        Some (k'\<lparr>k_space := k_space k, k_spaces := (k_spaces k')(space :=
          if is_references (k_space k') = 0 then None else Some (k_space k'))\<rparr>)
      })"

end
