(* ===== verification/Ipc_Port.thy ===== *)
theory Ipc_Port
  imports Ipc_Space_Entries
begin

section \<open>Ports\<close>

text \<open>
  The operations of \<open>ipc/ipc_port.c\<close>.  The calls made to other components
  (notifications, threads, messages, kernel objects) are recorded in the order the code makes them.
\<close>

definition MACH_PORT_QLIMIT_DEFAULT :: u32 where "MACH_PORT_QLIMIT_DEFAULT = 5"
definition IKOT_NONE :: u32 where "IKOT_NONE = 0"
definition IS_NULL :: addr where "IS_NULL = 0"

subsection \<open>Requests for notifications\<close>

definition ipc_port_pdrequest :: "addr \<Rightarrow> addr \<Rightarrow> ipc_kernel \<Rightarrow> (addr \<times> ipc_kernel) option" where
  "ipc_port_pdrequest port notify k =
     do {
       p \<leftarrow> k_ports k port;
       Some (ip_pdrequest p, put_port port (p\<lparr>ip_pdrequest := notify\<rparr>) k)
     }"

definition ipc_port_nsrequest :: "addr \<Rightarrow> u32 \<Rightarrow> addr \<Rightarrow> ipc_kernel \<Rightarrow> (addr \<times> ipc_kernel) option" where
  "ipc_port_nsrequest port sync notify k =
     do {
       p \<leftarrow> k_ports k port;
       let previous = ip_nsrequest p;
       let mscount = ip_mscount p;
       if ip_srights p = 0 \<and> sync \<le> mscount \<and> notify \<noteq> IP_NULL
       then Some (previous, post (Notify_No_Senders notify mscount)
              (put_port port (p\<lparr>ip_nsrequest := IP_NULL\<rparr>) k))
       else Some (previous, put_port port (p\<lparr>ip_nsrequest := notify\<rparr>) k)
     }"

subsection \<open>Queue limit and sequence number\<close>

text \<open>\<open>ip_qlimit\<close> is an \<open>unsigned short\<close>: it is widened when compared, and cut when stored.\<close>

definition ipc_port_set_qlimit :: "addr \<Rightarrow> u32 \<Rightarrow> ipc_kernel \<Rightarrow> ipc_kernel option" where
  "ipc_port_set_qlimit port qlimit k =
     do {
       p \<leftarrow> k_ports k port;
       let (woken, blocked) =
         (if ucast (ip_qlimit p) < qlimit
          then let wakeup = unat (qlimit - ucast (ip_qlimit p))
               in (map (\<lambda>th. th\<lparr>ith_state := MACH_MSG_SUCCESS\<rparr>) (take wakeup (ip_blocked p)), drop wakeup (ip_blocked p))
          else ([], ip_blocked p));
       Some (wake woken (put_port port (p\<lparr>ip_blocked := blocked, ip_qlimit := ucast qlimit\<rparr>) k))
     }"

definition ipc_port_set_seqno :: "addr \<Rightarrow> u32 \<Rightarrow> ipc_kernel \<Rightarrow> ipc_kernel option" where
  "ipc_port_set_seqno port seqno k =
     do {
       p \<leftarrow> k_ports k port;
       let pset = ip_pset p;
       k \<leftarrow> (if pset \<noteq> IPS_NULL
             then do {
               s \<leftarrow> k_psets k pset;
               if \<not> ips_active s
               then do { k \<leftarrow> ipc_pset_remove pset port k; ips_check_unlock pset k }
               else Some k
             }
             else Some k);
       p \<leftarrow> k_ports k port;
       Some (put_port port (p\<lparr>ip_seqno := seqno\<rparr>) k)
     }"

definition ipc_port_clear_receiver :: "addr \<Rightarrow> ipc_kernel \<Rightarrow> ipc_kernel option" where
  "ipc_port_clear_receiver port k =
     do {
       p \<leftarrow> k_ports k port;
       let pset = ip_pset p;
       k \<leftarrow> (if pset \<noteq> IPS_NULL
             then do { k \<leftarrow> ipc_pset_remove pset port k; ips_check_unlock pset k }
             else let (q, changed) = ipc_mqueue_changed (ip_messages p) MACH_RCV_PORT_DIED
                  in Some (wake changed (put_port port (p\<lparr>ip_messages := q\<rparr>) k)));
       p \<leftarrow> k_ports k port;
       Some (put_port port (p\<lparr>ip_mscount := 0, ip_seqno := 0\<rparr>) k)
     }"

subsection \<open>Initialisation\<close>

definition ipc_port_init :: "addr \<Rightarrow> mach_port_t \<Rightarrow> ipc_port \<Rightarrow> ipc_port" where
  "ipc_port_init space name p =
     p\<lparr>ip_data := space, ip_receiver_name := name, ip_mscount := 0, ip_srights := 0, ip_sorights := 0,
       ip_nsrequest := IP_NULL, ip_pdrequest := IP_NULL, ip_dnrequests := IPR_NULL,
       ip_pset := IPS_NULL, ip_seqno := 0, ip_msgcount := 0, ip_qlimit := ucast MACH_PORT_QLIMIT_DEFAULT,
       ip_messages := ipc_mqueue_init, ip_blocked := []\<rparr>"

text \<open>The contents of fresh memory: \<open>ipc_port_init\<close> and its callers set every field but \<open>ip_kobject\<close>.\<close>

definition fresh_port :: ipc_port where
  "fresh_port = \<lparr>ip_references = 0, ip_bits = 0, ip_data = 0, ip_receiver_name = 0, ip_kobject = 0,
     ip_mscount = 0, ip_srights = 0, ip_sorights = 0, ip_nsrequest = 0, ip_pdrequest = 0,
     ip_dnrequests = None, ip_pset = 0, ip_seqno = 0, ip_msgcount = 0, ip_qlimit = 0,
     ip_messages = ipc_mqueue_init, ip_blocked = []\<rparr>"

text \<open>\<open>io\<close> is the outcome of \<open>io_alloc\<close>: an address without an object, or none.\<close>

definition ipc_port_alloc_special :: "addr option \<Rightarrow> addr \<Rightarrow> ipc_kernel \<Rightarrow> addr \<times> ipc_kernel" where
  "ipc_port_alloc_special io space k =
     (case io of
        None \<Rightarrow> (IP_NULL, k)
      | Some port \<Rightarrow>
          (port, put_port port
             (ipc_port_init space 1
               (fresh_port\<lparr>ip_references := 1, ip_bits := io_makebits True IOT_PORT 0\<rparr>)) k))"

subsection \<open>Making and releasing naked rights\<close>

definition ipc_port_make_send :: "addr \<Rightarrow> ipc_kernel \<Rightarrow> (addr \<times> ipc_kernel) option" where
  "ipc_port_make_send port k =
     do {
       p \<leftarrow> k_ports k port;
       Some (port, put_port port
         (ip_reference (p\<lparr>ip_mscount := ip_mscount p + 1, ip_srights := ip_srights p + 1\<rparr>)) k)
     }"

definition ipc_port_copy_send :: "addr \<Rightarrow> ipc_kernel \<Rightarrow> (addr \<times> ipc_kernel) option" where
  "ipc_port_copy_send port k =
     (if \<not> IP_VALID port then Some (port, k)
      else do {
        p \<leftarrow> k_ports k port;
        Some (if ip_active p
              then (port, put_port port (ip_reference p\<lparr>ip_srights := ip_srights p + 1\<rparr>) k)
              else (IP_DEAD, k))
      })"

definition ipc_space_make_notify :: "ipc_kernel \<Rightarrow> (addr \<times> ipc_kernel) option" where
  "ipc_space_make_notify k = ipc_port_copy_send (is_notify (k_space k)) k"

text \<open>
  The decrement of the send rights that several operations share: the last one takes the
  no-senders request with it, which the caller sends.
\<close>

definition drop_send :: "ipc_port \<Rightarrow> ipc_port \<times> addr \<times> u32" where
  "drop_send p =
     (let p = p\<lparr>ip_srights := ip_srights p - 1\<rparr> in
      if ip_srights p = 0 \<and> ip_nsrequest p \<noteq> IP_NULL
      then (p\<lparr>ip_nsrequest := IP_NULL\<rparr>, ip_nsrequest p, ip_mscount p)
      else (p, IP_NULL, 0))"

definition notify_no_senders :: "addr \<Rightarrow> u32 \<Rightarrow> ipc_kernel \<Rightarrow> ipc_kernel" where
  "notify_no_senders nsrequest mscount k =
     (if nsrequest \<noteq> IP_NULL then post (Notify_No_Senders nsrequest mscount) k else k)"

definition ipc_port_release_send :: "addr \<Rightarrow> ipc_kernel \<Rightarrow> ipc_kernel option" where
  "ipc_port_release_send port k =
     do {
       p \<leftarrow> k_ports k port;
       let p = ip_release p;
       if \<not> ip_active p then ip_check_unlock port (put_port port p k)
       else let (p, nsrequest, mscount) = drop_send p
            in Some (notify_no_senders nsrequest mscount (put_port port p k))
     }"

definition ipc_port_make_sonce :: "addr \<Rightarrow> ipc_kernel \<Rightarrow> (addr \<times> ipc_kernel) option" where
  "ipc_port_make_sonce port k =
     do {
       p \<leftarrow> k_ports k port;
       Some (port, put_port port (ip_reference (p\<lparr>ip_sorights := ip_sorights p + 1\<rparr>)) k)
     }"

definition ipc_port_release_sonce :: "addr \<Rightarrow> ipc_kernel \<Rightarrow> ipc_kernel option" where
  "ipc_port_release_sonce port k =
     do {
       p \<leftarrow> k_ports k port;
       let p = ip_release p;
       if \<not> ip_active p then ip_check_unlock port (put_port port p k)
       else Some (put_port port (p\<lparr>ip_sorights := ip_sorights p - 1\<rparr>) k)
     }"

text \<open>
  A send-once right made from the receive right a name denotes, and the name of the receiver; the
  union \<open>ip_receiver\<close> is read without a look at the state of the port.
\<close>

definition ipc_port_lookup_notify :: "mach_port_t \<Rightarrow> ipc_kernel \<Rightarrow> (addr \<times> ipc_kernel) option" where
  "ipc_port_lookup_notify name k =
     (let (found, s) = ipc_entry_lookup name (k_space k); k = k\<lparr>k_space := s\<rparr> in
      case found of
        None \<Rightarrow> Some (IP_NULL, k)
      | Some entry \<Rightarrow> do {
          e \<leftarrow> entry_at entry (k_space k);
          if ie_bits e AND MACH_PORT_TYPE_RECEIVE = 0 then Some (IP_NULL, k)
          else do {
            let port = ie_object e;
            p \<leftarrow> k_ports k port;
            Some (port, put_port port (ip_reference p\<lparr>ip_sorights := ip_sorights p + 1\<rparr>) k)
          }
        })"

definition ipc_port_copyout_receiver :: "addr \<Rightarrow> addr \<Rightarrow> ipc_kernel \<Rightarrow> (mach_port_t \<times> ipc_kernel) option" where
  "ipc_port_copyout_receiver port space k =
     (if \<not> IP_VALID port then Some (MACH_PORT_NULL, k)
      else do {
        p \<leftarrow> k_ports k port;
        let name = (if ip_receiver p = space then ip_receiver_name p else MACH_PORT_NULL);
        k \<leftarrow> ip_check_unlock port (put_port port (ip_release p) k);
        Some (name, k)
      })"

subsection \<open>Circular destinations\<close>

text \<open>A receive right in a message is in transit to the port the message is sent to.\<close>

abbreviation not_in_transit :: "ipc_port \<Rightarrow> bool" where
  "not_in_transit p \<equiv> \<not> ip_active p \<or> ip_receiver_name p \<noteq> MACH_PORT_NULL \<or> ip_destination p = IP_NULL"

text \<open>The search for the end of the chain is a loop without a bound: no result when it runs forever.\<close>

partial_function (option) chain_base :: "(addr \<Rightarrow> ipc_port option) \<Rightarrow> addr \<Rightarrow> addr option" where
  "chain_base ports base =
     do {
       p \<leftarrow> ports base;
       if not_in_transit p then Some base else chain_base ports (ip_destination p)
     }"

text \<open>\<open>lock_try\<close> is the outcome of \<open>ip_lock_try\<close>: whether the quick check could lock the destination.\<close>

definition ipc_port_check_circularity :: "bool \<Rightarrow> addr \<Rightarrow> addr \<Rightarrow> ipc_kernel \<Rightarrow> (bool \<times> ipc_kernel) option" where
  "ipc_port_check_circularity lock_try port dest k =
     (if port = dest then Some (True, k)
      else do {
        d \<leftarrow> k_ports k dest;
        circular \<leftarrow> (if lock_try \<and> not_in_transit d then Some False
                     else do { base \<leftarrow> chain_base (k_ports k) dest; Some (port = base) });
        if circular then Some (True, k)
        else do {
          p \<leftarrow> k_ports k port;
          Some (False, put_port port (p\<lparr>ip_data := dest\<rparr>) (put_port dest (ip_reference d) k))
        }
      })"

subsection \<open>Destruction\<close>

text \<open>The queued messages: each gives its reference for the port back and is destroyed.\<close>

fun destroy_kmsgs :: "addr \<Rightarrow> ipc_kmsg list \<Rightarrow> ipc_kernel \<Rightarrow> ipc_kernel option" where
  "destroy_kmsgs port [] k = Some k"
| "destroy_kmsgs port (kmsg # rest) k =
     do {
       p \<leftarrow> k_ports k port;
       let k = put_port port (p\<lparr>ip_messages := (ip_messages p)\<lparr>imq_messages := rest\<rparr>\<rparr>) k;
       k \<leftarrow> ipc_port_release port k;
       destroy_kmsgs port rest (post (Kmsg_Destroy (kmsg\<lparr>msgh_remote_port := MACH_PORT_NULL\<rparr>)) k)
     }"

text \<open>
  What \<open>ipc_right_destroy\<close> (\<open>ipc/ipc_right.c\<close>) does to a right whose port is dead; other entries are
  not looked at by the caller below.
\<close>

definition right_destroy_dead :: "mach_port_t \<Rightarrow> ipc_entry_ref \<Rightarrow> ipc_kernel \<Rightarrow> (kern_return_t \<times> ipc_kernel) option" where
  "right_destroy_dead name entry k =
     do {
       e \<leftarrow> get_entry entry k;
       let bits = ie_bits e;
       let type = IE_BITS_TYPE bits;
       if type \<in> {MACH_PORT_TYPE_SEND, MACH_PORT_TYPE_RECEIVE, MACH_PORT_TYPE_SEND_RECEIVE, MACH_PORT_TYPE_SEND_ONCE}
       then do {
         let port = ie_object e;
         k \<leftarrow> (if bits AND IE_BITS_MAREQUEST \<noteq> 0 then marequest_cancel name k else Some k);
         k \<leftarrow> (if type = MACH_PORT_TYPE_SEND then hash_delete port name entry k else Some k);
         p \<leftarrow> k_ports k port;
         if \<not> ip_active p
         then do {
           k \<leftarrow> ip_check_unlock port (put_port port (ip_release p) k);
           k \<leftarrow> entry_dealloc name entry (set_entry entry (\<lambda>e. e\<lparr>ie_request := 0, ie_object := IO_NULL\<rparr>) k);
           Some (if bits AND IE_BITS_COMPAT \<noteq> 0 then KERN_INVALID_NAME else KERN_SUCCESS, k)
         }
         else None
       }
       else None
     }"

text \<open>
  \<open>ipc_port_delete_compat\<close>, in the space worked on: the compat entry of a dead port goes, the space is
  told, and the reference for the space that the port held is released.  Its call of
  \<open>ipc_right_destroy\<close> can only meet a right to the dead port, and is asserted to answer
  \<open>KERN_INVALID_NAME\<close>; \<open>right_destroy_dead_eq\<close> shows that nothing is lost.
\<close>

definition ipc_port_delete_compat :: "addr \<Rightarrow> mach_port_t \<Rightarrow> ipc_kernel \<Rightarrow> ipc_kernel option" where
  "ipc_port_delete_compat port name k =
     (case ipc_right_lookup_write name k of
        (Inl kr, k) \<Rightarrow> Some (space_release k)
      | (Inr entry, k) \<Rightarrow> do {
          e \<leftarrow> get_entry entry k;
          (sright, k) \<leftarrow>
            (if ie_object e = port
             then do {
               (sright, k) \<leftarrow> ipc_space_make_notify k;
               (_, k) \<leftarrow> right_destroy_dead name entry k;
               Some (sright, k)
             }
             else Some (IP_NULL, k));
          let k = (if IP_VALID sright then post (Notify_Port_Deleted_Compat sright name) k else k);
          Some (space_release k)
        })"

text \<open>The loop over the slots of the table of requests.\<close>

fun answer_requests :: "addr \<Rightarrow> ipc_port_request list \<Rightarrow> ipc_kernel \<Rightarrow> ipc_kernel option" where
  "answer_requests port [] k = Some k"
| "answer_requests port (ipr # rest) k =
     (if ipr_name ipr = MACH_PORT_NULL then answer_requests port rest k
      else if ipr_spacep (ipr_soright ipr)
      then do {
        k \<leftarrow> in_space (ipr_space (ipr_soright ipr)) (ipc_port_delete_compat port (ipr_name ipr)) k;
        answer_requests port rest k
      }
      else answer_requests port rest (post (Notify_Dead_Name (ipr_soright ipr) (ipr_name ipr)) k))"

definition dead_name_requests :: "ipc_port_request list \<Rightarrow> ipc_port_request list" where
  "dead_name_requests table = map (\<lambda>i. table ! i) [1..<its_dn_size (ipr_size (table ! 0))]"

text \<open>From the point where nothing can save the port any more.\<close>

definition port_destroy :: "addr \<Rightarrow> ipc_kernel \<Rightarrow> ipc_kernel option" where
  "port_destroy port k =
     do {
       p \<leftarrow> k_ports k port;
       let k = wake (map (\<lambda>th. th\<lparr>ith_state := MACH_MSG_SUCCESS\<rparr>) (ip_blocked p)) k;
       let (timestamp, k) = ipc_port_timestamp k;
       let p = p\<lparr>ip_blocked := [], ip_bits := ip_bits p AND NOT IO_BITS_ACTIVE, ip_data := timestamp\<rparr>;
       let k = put_port port p k;
       let k = (if ip_nsrequest p \<noteq> IP_NULL then post (Notify_Send_Once (ip_nsrequest p)) k else k);
       k \<leftarrow> destroy_kmsgs port (imq_messages (ip_messages p)) k;
       k \<leftarrow> (case ip_dnrequests p of
               None \<Rightarrow> Some k
             | Some (_, table) \<Rightarrow> answer_requests port (dead_name_requests table) k);
       let k = (if ip_kotype p \<noteq> IKOT_NONE then post (Kobject_Destroy port) k else k);
       ipc_port_release port k
     }"

definition ipc_port_destroy :: "bool \<Rightarrow> addr \<Rightarrow> ipc_kernel \<Rightarrow> ipc_kernel option" where
  "ipc_port_destroy lock_try port k =
     do {
       p \<leftarrow> k_ports k port;
       let pdrequest = ip_pdrequest p;
       if pdrequest \<noteq> IP_NULL
       then do {
         let k = put_port port
           (p\<lparr>ip_pdrequest := IP_NULL, ip_receiver_name := MACH_PORT_NULL, ip_data := IP_NULL\<rparr>) k;
         if ip_pdsendp pdrequest
         then do {
           let sright = ip_pdsend pdrequest;
           (circular, k) \<leftarrow> ipc_port_check_circularity lock_try port sright k;
           if \<not> circular then Some (post (Notify_Port_Destroyed_Compat sright port) k)
           else do { k \<leftarrow> ipc_port_release_send sright k; port_destroy port k }
         }
         else do {
           (circular, k) \<leftarrow> ipc_port_check_circularity lock_try port pdrequest k;
           if \<not> circular then Some (post (Notify_Port_Destroyed pdrequest port) k)
           else do { k \<leftarrow> ipc_port_release_sonce pdrequest k; port_destroy port k }
         }
       }
       else port_destroy port k
     }"

definition ipc_port_release_receive :: "bool \<Rightarrow> addr \<Rightarrow> ipc_kernel \<Rightarrow> ipc_kernel option" where
  "ipc_port_release_receive lock_try port k =
     do {
       p \<leftarrow> k_ports k port;
       let dest = ip_destination p;
       k \<leftarrow> ipc_port_destroy lock_try port k;
       if dest \<noteq> IP_NULL then ipc_port_release dest k else Some k
     }"

definition ipc_port_dealloc_special :: "bool \<Rightarrow> addr \<Rightarrow> ipc_kernel \<Rightarrow> ipc_kernel option" where
  "ipc_port_dealloc_special lock_try port k =
     do {
       p \<leftarrow> k_ports k port;
       ipc_port_destroy lock_try port
         (put_port port (p\<lparr>ip_receiver_name := MACH_PORT_NULL, ip_data := IS_NULL, ip_mscount := 0\<rparr>) k)
     }"

end
