(* ===== verification/Ipc_Port_Facts.thy ===== *)
theory Ipc_Port_Facts
  imports Ipc_Port
begin

section \<open>The chain of ports in transit\<close>

text \<open>
  A receive right that is in a message is in transit to the port of the message; the graph of these
  edges must stay free of circles, or a group of ports and messages would keep itself alive.
\<close>

definition transit :: "(addr \<Rightarrow> ipc_port option) \<Rightarrow> (addr \<times> addr) set" where
  "transit ports = {(a, b). \<exists>p. ports a = Some p \<and> \<not> not_in_transit p \<and> ip_destination p = b}"

definition limbo :: "ipc_port \<Rightarrow> bool" where
  "limbo p \<longleftrightarrow> ip_active p \<and> ip_receiver_name p = MACH_PORT_NULL \<and> ip_destination p = IP_NULL"

definition transit_ok :: "(addr \<Rightarrow> ipc_port option) \<Rightarrow> bool" where
  "transit_ok ports \<longleftrightarrow> finite (dom ports) \<and> acyclic (transit ports) \<and> Range (transit ports) \<subseteq> dom ports"

lemma transit_finite: "finite (dom ports) \<Longrightarrow> finite (transit ports)"
proof -
  assume f: "finite (dom ports)"
  have "transit ports \<subseteq> (\<lambda>a. (a, ip_destination (the (ports a)))) ` dom ports"
    by (auto simp: transit_def image_iff)
  then show ?thesis using f by (meson finite_imageI finite_subset)
qed

lemma transit_functional: "(a, b) \<in> transit ports \<Longrightarrow> (a, c) \<in> transit ports \<Longrightarrow> b = c"
  by (auto simp: transit_def)

text \<open>The search ends, at the one port in the chain that is not in transit.\<close>

lemma chain_base_ends:
  assumes "transit_ok ports" and "a \<in> dom ports"
  shows "\<exists>b. chain_base ports a = Some b \<and> (a, b) \<in> (transit ports)\<^sup>* \<and> b \<notin> Domain (transit ports) \<and> b \<in> dom ports"
proof -
  have "wf ((transit ports)\<inverse>)"
    using assms(1) by (auto simp: transit_ok_def intro: finite_acyclic_wf_converse transit_finite)
  then show ?thesis using assms(2)
  proof (induction a rule: wf_induct_rule)
    case (less a)
    then obtain p where p: "ports a = Some p" by auto
    show ?case
    proof (cases "not_in_transit p")
      case True
      then have "a \<notin> Domain (transit ports)" using p by (auto simp: transit_def)
      moreover have "chain_base ports a = Some a" using p True by (subst chain_base.simps) simp
      ultimately show ?thesis using p by auto
    next
      case False
      then have t: "(a, ip_destination p) \<in> transit ports" using p by (auto simp: transit_def)
      then have "ip_destination p \<in> dom ports" using assms(1) by (auto simp: transit_ok_def)
      with less.IH [of "ip_destination p"] t obtain b where b: "chain_base ports (ip_destination p) = Some b"
        "(ip_destination p, b) \<in> (transit ports)\<^sup>*" "b \<notin> Domain (transit ports)" "b \<in> dom ports" by auto
      moreover have "chain_base ports a = chain_base ports (ip_destination p)"
        using p False by (subst chain_base.simps) simp
      ultimately show ?thesis using t by (auto intro: converse_rtrancl_into_rtrancl)
    qed
  qed
qed

lemma chain_end_unique:
  assumes "(a, b) \<in> (transit ports)\<^sup>*" "b \<notin> Domain (transit ports)"
    and "(a, c) \<in> (transit ports)\<^sup>*" "c \<notin> Domain (transit ports)"
  shows "b = c"
  using assms
proof (induction rule: converse_rtrancl_induct)
  case base
  then show ?case by (metis Domain.DomainI converse_rtranclE)
next
  case (step y z)
  from step.prems(2) have "y = c \<or> (\<exists>w. (y, w) \<in> transit ports \<and> (w, c) \<in> (transit ports)\<^sup>*)"
    by (metis converse_rtranclE)
  with step show ?case using transit_functional by (metis Domain.DomainI)
qed

lemma transit_put:
  assumes "ports port = Some p" and "ports dest = Some d" and "port \<noteq> dest" and "limbo p" and "dest \<noteq> IP_NULL"
  shows "transit (ports(dest \<mapsto> ip_reference d, port \<mapsto> p\<lparr>ip_data := dest\<rparr>)) = insert (port, dest) (transit ports)"
  using assms by (auto simp: transit_def limbo_def ip_reference_def split: if_splits)

text \<open>
  The check returns; it says circular exactly when the port is the destination or lies at the end of
  its chain; otherwise it puts the port in transit, and the graph stays free of circles.
\<close>

lemma check_circularity_spec:
  assumes ok: "transit_ok (k_ports k)" and p: "k_ports k port = Some p" "limbo p"
    and d: "k_ports k dest = Some d" and null: "dest \<noteq> IP_NULL"
  shows "\<exists>circular k'. ipc_port_check_circularity lock_try port dest k = Some (circular, k') \<and>
    (circular \<longleftrightarrow> (dest, port) \<in> (transit (k_ports k))\<^sup>*) \<and>
    (if circular then k' = k
     else k' = put_port port (p\<lparr>ip_data := dest\<rparr>) (put_port dest (ip_reference d) k) \<and>
       transit (k_ports k') = insert (port, dest) (transit (k_ports k)) \<and> transit_ok (k_ports k'))"
proof -
  let ?T = "transit (k_ports k)"
  from chain_base_ends [OF ok, of dest] d obtain b where b: "chain_base (k_ports k) dest = Some b"
    "(dest, b) \<in> ?T\<^sup>*" "b \<notin> Domain ?T" by auto
  have pD: "port \<notin> Domain ?T" using p by (auto simp: transit_def limbo_def)
  have reach: "(dest, port) \<in> ?T\<^sup>* \<longleftrightarrow> port = b"
    using b chain_end_unique [OF b(2,3) _ pD] by auto
  have quick: "b = dest" if "not_in_transit d"
    using that d b(1) by (subst (asm) chain_base.simps) simp
  show ?thesis
  proof (cases "port = dest")
    case True
    then show ?thesis by (auto simp: ipc_port_check_circularity_def)
  next
    case False
    let ?k = "put_port port (p\<lparr>ip_data := dest\<rparr>) (put_port dest (ip_reference d) k)"
    have e: "ipc_port_check_circularity lock_try port dest k =
        Some (if port = b then (True, k) else (False, ?k))"
      using False d p b quick by (auto simp: ipc_port_check_circularity_def)
    show ?thesis
    proof (cases "port = b")
      case True
      then show ?thesis using e reach by auto
    next
      case nb: False
      have T: "transit (k_ports ?k) = insert (port, dest) ?T"
        using transit_put [OF p(1) d False p(2) null] by simp
      have "acyclic (insert (port, dest) ?T)"
        using ok nb reach by (simp add: acyclic_insert transit_ok_def)
      moreover have "dom (k_ports ?k) = dom (k_ports k)" using p d by auto
      ultimately have "transit_ok (k_ports ?k)" using ok d T unfolding transit_ok_def by auto
      then show ?thesis using e nb reach T by auto
    qed
  qed
qed

section \<open>Rights and references\<close>

text \<open>Making a right and releasing it again leaves the counts as they were.\<close>

lemma make_release_sonce:
  assumes "k_ports k port = Some p" and "ip_active p"
  shows "\<exists>k'. ipc_port_make_sonce port k = Some (port, k') \<and> ipc_port_release_sonce port k' = Some k"
  using assms
  by (auto simp: ipc_port_make_sonce_def ipc_port_release_sonce_def ip_reference_def ip_release_def put_port_def
      fun_upd_idem)

lemma copy_release_send:
  assumes "k_ports k port = Some p" and "ip_active p" and "IP_VALID port" and "ip_srights p \<noteq> 0"
  shows "\<exists>k'. ipc_port_copy_send port k = Some (port, k') \<and> ipc_port_release_send port k' = Some k"
  using assms
  by (auto simp: ipc_port_copy_send_def ipc_port_release_send_def ip_reference_def ip_release_def put_port_def
      drop_send_def notify_no_senders_def Let_def fun_upd_idem)

text \<open>The last send right takes the no-senders request with it.\<close>

lemma release_send_spec:
  assumes p: "k_ports k port = Some p" "ip_active p"
  shows "\<exists>k' p'. ipc_port_release_send port k = Some k' \<and> k_ports k' = (k_ports k)(port \<mapsto> p') \<and>
    ip_srights p' = ip_srights p - 1 \<and> ip_references p' = ip_references p - 1 \<and>
    (if ip_srights p = 1 \<and> ip_nsrequest p \<noteq> IP_NULL
     then ip_nsrequest p' = IP_NULL \<and> k_events k' = k_events k @ [Notify_No_Senders (ip_nsrequest p) (ip_mscount p)]
     else ip_nsrequest p' = ip_nsrequest p \<and> k_events k' = k_events k)"
  using p by (auto simp: ipc_port_release_send_def ip_release_def drop_send_def notify_no_senders_def Let_def)

section \<open>Destroying a port\<close>

text \<open>One notification for every request, in the order of the slots.\<close>

definition request_event :: "mach_port_t \<times> addr \<Rightarrow> ipc_event" where
  "request_event = (\<lambda>(name, soright). Notify_Dead_Name soright name)"

definition port_requests :: "ipc_port \<Rightarrow> (mach_port_t \<times> addr) list" where
  "port_requests p =
     (case ip_dnrequests p of None \<Rightarrow> [] | Some (_, t) \<Rightarrow> List.map_filter (dn_map t) [0..<length t])"

lemma port_requests_set: "set (port_requests p) = ran (requests p)"
proof (cases "ip_dnrequests p")
  case (Some at)
  obtain a t where "at = (a, t)" by (cases at)
  moreover have "dn_map t i = Some x \<Longrightarrow> i < length t" for i x by (auto simp: dn_map_def split: if_splits)
  then have "ran (dn_map t) = set (List.map_filter (dn_map t) [0..<length t])"
    by (auto simp: ran_def map_filter_def image_iff) (metis atLeastLessThan_iff option.sel le0 option.discI)
  ultimately show ?thesis using Some by (simp add: port_requests_def requests_def)
qed (simp add: port_requests_def requests_def)

lemma answer_requests_eq:
  assumes "dn_ok t" and "\<forall>r\<in>set (List.map_filter (dn_map t) [0..<length t]). \<not> ipr_spacep (snd r)"
  shows "answer_requests port (dead_name_requests t) k =
    Some (k\<lparr>k_events := k_events k @ map request_event (List.map_filter (dn_map t) [0..<length t])\<rparr>)"
proof -
  have l: "its_dn_size (ipr_size (t ! 0)) = length t" and pos: "0 < length t"
    using assms(1) dn_ok_length(1) [OF assms(1)] by (auto simp: dn_ok_def)
  have "answer_requests port (map (\<lambda>i. t ! i) is) k =
      Some (k\<lparr>k_events := k_events k @ map request_event (List.map_filter (dn_map t) is)\<rparr>)"
    if "\<forall>i\<in>set is. 0 < i \<and> i < length t" "\<forall>r\<in>set (List.map_filter (dn_map t) is). \<not> ipr_spacep (snd r)" for "is" k
    using that by (induction "is" arbitrary: k) (auto simp: map_filter_def dn_map_def request_event_def post_def split: if_splits)
  moreover have u: "[0..<length t] = 0 # [1..<length t]" using pos by (simp add: upt_conv_Cons)
  moreover have d: "dn_map t 0 = None" by (simp add: dn_map_def)
  ultimately show ?thesis using assms(2) unfolding dead_name_requests_def l by (simp add: map_filter_def)
qed

lemma unat_sub_nat: "n \<le> unat (w :: u32) \<Longrightarrow> unat (w - of_nat n) = unat w - n"
proof -
  assume n: "n \<le> unat w"
  have "unat w < 2 ^ 32" using unsigned_less [of w, where ?'a = nat] by simp
  with n have u: "unat (of_nat n :: u32) = n" by (simp add: unat_of_nat take_bit_nat_eq_self)
  then have "(of_nat n :: u32) \<le> w" using n by (simp add: word_le_nat_alt)
  then show ?thesis using u n by (simp add: unat_sub_if')
qed

lemma destroy_kmsgs_spec:
  assumes "k_ports k port = Some p" and "imq_messages (ip_messages p) = ms" and "length ms < unat (ip_references p)"
  shows "\<exists>k'. destroy_kmsgs port ms k = Some k' \<and>
    k_ports k' = (k_ports k)(port \<mapsto> p\<lparr>ip_references := ip_references p - of_nat (length ms),
      ip_messages := (ip_messages p)\<lparr>imq_messages := []\<rparr>\<rparr>) \<and>
    k_events k' = k_events k @ map (\<lambda>m. Kmsg_Destroy (m\<lparr>msgh_remote_port := MACH_PORT_NULL\<rparr>)) ms \<and>
    k_space k' = k_space k \<and> k_spaces k' = k_spaces k \<and> k_hash k' = k_hash k \<and> k_psets k' = k_psets k \<and>
    k_marequests k' = k_marequests k \<and> k_timestamp k' = k_timestamp k"
  using assms
proof (induction ms arbitrary: k p)
  case Nil
  then have "p\<lparr>ip_references := ip_references p - of_nat (length []), ip_messages := (ip_messages p)\<lparr>imq_messages := []\<rparr>\<rparr> = p"
    by (cases "ip_messages p") (simp add: ipc_mqueue.defs)
  with Nil show ?case by (auto simp: fun_upd_idem)
next
  case (Cons m ms)
  let ?p = "p\<lparr>ip_messages := (ip_messages p)\<lparr>imq_messages := ms\<rparr>, ip_references := ip_references p - 1\<rparr>"
  let ?k = "post (Kmsg_Destroy (m\<lparr>msgh_remote_port := MACH_PORT_NULL\<rparr>)) (put_port port ?p (put_port port (p\<lparr>ip_messages := (ip_messages p)\<lparr>imq_messages := ms\<rparr>\<rparr>) k))"
  have r: "unat (ip_references p - 1) = unat (ip_references p) - 1"
    using Cons.prems(3) by (intro unat_minus_one) auto
  then have "0 < unat (ip_references p - 1)" using Cons.prems(3) by simp
  then have nz: "ip_references p - 1 \<noteq> 0" by (metis less_irrefl unat_0)
  have e: "destroy_kmsgs port (m # ms) k = destroy_kmsgs port ms ?k"
    using Cons.prems(1) nz by (simp add: ipc_object_release_def ip_check_unlock_def ip_release_def)
  have "length ms < unat (ip_references ?p)" using r Cons.prems(3) by simp
  moreover have "k_ports ?k port = Some ?p" "imq_messages (ip_messages ?p) = ms" by simp_all
  ultimately obtain k' where k': "destroy_kmsgs port ms ?k = Some k'"
    "k_ports k' = (k_ports ?k)(port \<mapsto> ?p\<lparr>ip_references := ip_references ?p - of_nat (length ms),
      ip_messages := (ip_messages ?p)\<lparr>imq_messages := []\<rparr>\<rparr>)"
    "k_events k' = k_events ?k @ map (\<lambda>m. Kmsg_Destroy (m\<lparr>msgh_remote_port := MACH_PORT_NULL\<rparr>)) ms"
    "k_space k' = k_space ?k" "k_spaces k' = k_spaces ?k" "k_hash k' = k_hash ?k" "k_psets k' = k_psets ?k"
    "k_marequests k' = k_marequests ?k" "k_timestamp k' = k_timestamp ?k"
    using Cons.IH [of ?k ?p] by (elim exE conjE meta_impE) (assumption, assumption, assumption, rule that, assumption+)
  have r2: "ip_references p - 1 - of_nat (length ms) = ip_references p - of_nat (length (m # ms))" by simp
  have "k_ports k' = (k_ports k)(port \<mapsto> p\<lparr>ip_references := ip_references p - of_nat (length (m # ms)),
      ip_messages := (ip_messages p)\<lparr>imq_messages := []\<rparr>\<rparr>)"
    unfolding k'(2) r2 [symmetric] by simp
  with k' show ?case unfolding e by (intro exI [of _ k']) simp
qed

text \<open>
  What \<open>ipc_port_destroy\<close> does to a port nothing saves: it is dead with a time stamp, or gone when
  the caller had the last reference; blocked senders go on, every queued message is destroyed, and
  every request is answered once.
\<close>

lemma port_destroy_spec:
  assumes p: "k_ports k port = Some p" "requests_ok p"
    and refs: "length (imq_messages (ip_messages p)) < unat (ip_references p)"
    and plain: "\<forall>r\<in>set (port_requests p). \<not> ipr_spacep (snd r)"
  shows "\<exists>k'. port_destroy port k = Some k' \<and>
    k_events k' = k_events k
      @ map (\<lambda>th. Thread_Go (th\<lparr>ith_state := MACH_MSG_SUCCESS\<rparr>)) (ip_blocked p)
      @ (if ip_nsrequest p \<noteq> IP_NULL then [Notify_Send_Once (ip_nsrequest p)] else [])
      @ map (\<lambda>m. Kmsg_Destroy (m\<lparr>msgh_remote_port := MACH_PORT_NULL\<rparr>)) (imq_messages (ip_messages p))
      @ map (request_event) (port_requests p)
      @ (if ip_kotype p \<noteq> IKOT_NONE then [Kobject_Destroy port] else []) \<and>
    (\<forall>a. a \<noteq> port \<longrightarrow> k_ports k' a = k_ports k a) \<and>
    (case k_ports k' port of
       None \<Rightarrow> unat (ip_references p) = length (imq_messages (ip_messages p)) + 1
     | Some p' \<Rightarrow> \<not> ip_active p' \<and> ip_timestamp p' = k_timestamp k \<and> imq_messages (ip_messages p') = [] \<and>
         ip_blocked p' = [] \<and> ip_references p' = ip_references p - of_nat (length (imq_messages (ip_messages p)) + 1)) \<and>
    k_timestamp k' = k_timestamp k + 1 \<and> k_space k' = k_space k \<and> k_spaces k' = k_spaces k \<and> k_hash k' = k_hash k \<and>
    k_psets k' = k_psets k \<and> k_marequests k' = k_marequests k"
proof -
  let ?ms = "imq_messages (ip_messages p)"
  let ?p1 = "p\<lparr>ip_blocked := [], ip_bits := ip_bits p AND NOT IO_BITS_ACTIVE, ip_data := k_timestamp k\<rparr>"
  define k1 where "k1 = put_port port ?p1 ((wake (map (\<lambda>th. th\<lparr>ith_state := MACH_MSG_SUCCESS\<rparr>) (ip_blocked p)) k)\<lparr>k_timestamp := k_timestamp k + 1\<rparr>)"
  define k2 where "k2 = (if ip_nsrequest p \<noteq> IP_NULL then post (Notify_Send_Once (ip_nsrequest p)) k1 else k1)"
  have k2: "k_ports k2 port = Some ?p1" "k_ports k2 = (k_ports k)(port \<mapsto> ?p1)" "k_timestamp k2 = k_timestamp k + 1"
    "k_space k2 = k_space k" "k_spaces k2 = k_spaces k" "k_hash k2 = k_hash k" "k_psets k2 = k_psets k" "k_marequests k2 = k_marequests k"
    "k_events k2 = k_events k @ map (\<lambda>th. Thread_Go (th\<lparr>ith_state := MACH_MSG_SUCCESS\<rparr>)) (ip_blocked p)
      @ (if ip_nsrequest p \<noteq> IP_NULL then [Notify_Send_Once (ip_nsrequest p)] else [])"
    by (simp_all add: k2_def k1_def comp_def)
  from destroy_kmsgs_spec [OF k2(1), of ?ms] refs obtain k3 where k3: "destroy_kmsgs port ?ms k2 = Some k3"
    "k_ports k3 = (k_ports k2)(port \<mapsto> ?p1\<lparr>ip_references := ip_references p - of_nat (length ?ms), ip_messages := (ip_messages p)\<lparr>imq_messages := []\<rparr>\<rparr>)"
    "k_events k3 = k_events k2 @ map (\<lambda>m. Kmsg_Destroy (m\<lparr>msgh_remote_port := MACH_PORT_NULL\<rparr>)) ?ms"
    "k_space k3 = k_space k2" "k_spaces k3 = k_spaces k2" "k_hash k3 = k_hash k2" "k_psets k3 = k_psets k2"
    "k_marequests k3 = k_marequests k2" "k_timestamp k3 = k_timestamp k2" by auto
  let ?p3 = "?p1\<lparr>ip_references := ip_references p - of_nat (length ?ms), ip_messages := (ip_messages p)\<lparr>imq_messages := []\<rparr>\<rparr>"
  let ?dn = "map (request_event) (port_requests p)"
  have dn: "(case ip_dnrequests p of None \<Rightarrow> Some k3 | Some (_, t) \<Rightarrow> answer_requests port (dead_name_requests t) k3)
      = Some (k3\<lparr>k_events := k_events k3 @ ?dn\<rparr>)"
  proof (cases "ip_dnrequests p")
    case (Some at)
    obtain a t where at: "at = (a, t)" by (cases at)
    have "dn_ok t" using p(2) Some at by (simp add: requests_ok_def)
    from answer_requests_eq [OF this, of port k3] plain Some at show ?thesis by (simp add: port_requests_def)
  qed (simp add: port_requests_def)
  define k4 where "k4 = k3\<lparr>k_events := k_events k3 @ ?dn\<rparr>"
  define k5 where "k5 = (if ip_kotype p \<noteq> IKOT_NONE then post (Kobject_Destroy port) k4 else k4)"
  have "IO_BITS_KOTYPE = IE_BITS_UREFS_MASK" by (simp add: IO_BITS_KOTYPE_def IE_BITS_UREFS_MASK_def)
  then have ko: "io_kotype (ip_bits p AND NOT IO_BITS_ACTIVE) = io_kotype (ip_bits p)"
    unfolding io_kotype_def by (auto simp: bit_simps bits_simps intro!: bit_word_eqI)
  have e: "port_destroy port k = ipc_port_release port k5"
    using p(1) k3(1) dn ko
    by (simp add: port_destroy_def ipc_port_timestamp_def k1_def [symmetric] k2_def [symmetric] k4_def [symmetric] k5_def
        Let_def split del: if_split cong: if_cong)
  have k5: "k_ports k5 port = Some ?p3" "k_ports k5 = (k_ports k)(port \<mapsto> ?p3)"
    by (simp_all add: k5_def k4_def k3(2) k2(2))
  let ?n = "length ?ms"
  have un: "unat (ip_references p - of_nat ?n) = unat (ip_references p) - ?n"
    using refs by (intro unat_sub_nat) simp
  have ur: "ip_references p - of_nat ?n - 1 = 0 \<longleftrightarrow> unat (ip_references p) = ?n + 1"
  proof -
    have "ip_references p - of_nat ?n - 1 = 0 \<longleftrightarrow> ip_references p - of_nat ?n = 1" by auto
    also have "\<dots> \<longleftrightarrow> unat (ip_references p - of_nat ?n) = unat (1 :: u32)" by (simp only: word_unat_eq_iff)
    finally show ?thesis using un refs by auto
  qed
  let ?p5 = "ip_release ?p3"
  define k6 where "k6 = put_port port ?p5 k5"
  have r: "ipc_port_release port k5 = Some (if ip_references p - of_nat ?n - 1 = 0 then k6\<lparr>k_ports := (k_ports k6)(port := None)\<rparr> else k6)"
    using k5(1) by (simp add: ipc_object_release_def ip_check_unlock_def ip_release_def k6_def)
  have k6: "k_ports k6 = (k_ports k)(port \<mapsto> ?p5)" "k_timestamp k6 = k_timestamp k + 1" "k_space k6 = k_space k" "k_spaces k6 = k_spaces k"
    "k_hash k6 = k_hash k" "k_psets k6 = k_psets k" "k_marequests k6 = k_marequests k"
    using k2 k3 by (simp_all add: k6_def k5_def k4_def)
  have ev: "k_events k6 = k_events k
      @ map (\<lambda>th. Thread_Go (th\<lparr>ith_state := MACH_MSG_SUCCESS\<rparr>)) (ip_blocked p)
      @ (if ip_nsrequest p \<noteq> IP_NULL then [Notify_Send_Once (ip_nsrequest p)] else [])
      @ map (\<lambda>m. Kmsg_Destroy (m\<lparr>msgh_remote_port := MACH_PORT_NULL\<rparr>)) (imq_messages (ip_messages p))
      @ ?dn
      @ (if ip_kotype p \<noteq> IKOT_NONE then [Kobject_Destroy port] else [])"
    by (simp add: k6_def k5_def k4_def k3(3) k2(9))
  have p5: "\<not> ip_active ?p5" "ip_timestamp ?p5 = k_timestamp k" "imq_messages (ip_messages ?p5) = []" "ip_blocked ?p5 = []"
    "ip_references ?p5 = ip_references p - of_nat (?n + 1)" by (simp_all add: ip_release_def algebra_simps)
  show ?thesis
  proof (cases "unat (ip_references p) = ?n + 1")
    case True
    then have "port_destroy port k = Some (k6\<lparr>k_ports := (k_ports k6)(port := None)\<rparr>)" unfolding e r ur by simp
    then show ?thesis using k6 ev True by (intro exI conjI) (assumption | simp)+
  next
    case False
    then have "port_destroy port k = Some k6" unfolding e r ur by simp
    then show ?thesis using k6 ev p5 by (intro exI conjI) (assumption | simp)+
  qed
qed

section \<open>A port with a backup\<close>

text \<open>
  A port that asked for it is not destroyed but sent to its backup, unless the backup is in transit,
  through any number of ports, to the port itself.
\<close>

definition backup :: "ipc_port \<Rightarrow> addr" where
  "backup p = (if ip_pdsendp (ip_pdrequest p) then ip_pdsend (ip_pdrequest p) else ip_pdrequest p)"

lemma transit_ok_limbo:
  assumes "transit_ok ports" and "ports port = Some p" and "not_in_transit q"
  shows "transit_ok (ports(port \<mapsto> q))"
proof -
  have "transit (ports(port \<mapsto> q)) \<subseteq> transit ports" using assms(3) by (auto simp: transit_def split: if_splits)
  then show ?thesis using assms(1,2) unfolding transit_ok_def
    by (auto intro: acyclic_subset simp: insert_absorb domI)
qed

lemma port_destroy_backup:
  assumes ok: "transit_ok (k_ports k)" and p: "k_ports k port = Some p" "ip_active p" "ip_pdrequest p \<noteq> IP_NULL"
    and d: "k_ports k (backup p) \<noteq> None" "backup p \<noteq> IP_NULL"
    and p0: "p0 = p\<lparr>ip_pdrequest := IP_NULL, ip_receiver_name := MACH_PORT_NULL, ip_data := IP_NULL\<rparr>"
    and k0: "k0 = put_port port p0 k"
  shows "if (backup p, port) \<in> (transit (k_ports k0))\<^sup>*
    then ipc_port_destroy lock_try port k = do {
        k \<leftarrow> (if ip_pdsendp (ip_pdrequest p) then ipc_port_release_send (backup p) k0 else ipc_port_release_sonce (backup p) k0);
        port_destroy port k
      }
    else \<exists>d k'. k_ports k (backup p) = Some d \<and> ipc_port_destroy lock_try port k = Some k' \<and>
      k' = post (if ip_pdsendp (ip_pdrequest p) then Notify_Port_Destroyed_Compat (backup p) port
                 else Notify_Port_Destroyed (backup p) port)
             (put_port port (p0\<lparr>ip_data := backup p\<rparr>) (put_port (backup p) (ip_reference d) k)) \<and>
      transit (k_ports k') = insert (port, backup p) (transit (k_ports k0)) \<and> transit_ok (k_ports k')"
proof -
  have limbo: "limbo p0" using p(2) by (simp add: limbo_def p0)
  have ok0: "transit_ok (k_ports k0)"
    using transit_ok_limbo [OF ok p(1), of p0] limbo by (simp add: k0 limbo_def)
  obtain d0 where d0: "k_ports k0 (backup p) = Some d0" using d(1) by (cases "backup p = port") (auto simp: k0)
  from check_circularity_spec [OF ok0 _ limbo d0 d(2), of port lock_try] obtain circular k' where
      c: "ipc_port_check_circularity lock_try port (backup p) k0 = Some (circular, k')"
      "circular \<longleftrightarrow> (backup p, port) \<in> (transit (k_ports k0))\<^sup>*"
      "if circular then k' = k0
       else k' = put_port port (p0\<lparr>ip_data := backup p\<rparr>) (put_port (backup p) (ip_reference d0) k0) \<and>
         transit (k_ports k') = insert (port, backup p) (transit (k_ports k0)) \<and> transit_ok (k_ports k')"
    by (auto simp: k0)
  have e: "ipc_port_destroy lock_try port k =
      (if ip_pdsendp (ip_pdrequest p)
       then if \<not> circular then Some (post (Notify_Port_Destroyed_Compat (backup p) port) k')
            else do { k \<leftarrow> ipc_port_release_send (backup p) k'; port_destroy port k }
       else if \<not> circular then Some (post (Notify_Port_Destroyed (backup p) port) k')
            else do { k \<leftarrow> ipc_port_release_sonce (backup p) k'; port_destroy port k })"
    using p(1,3) c(1) unfolding ipc_port_destroy_def p0 [symmetric] k0 [symmetric]
    by (simp add: backup_def Let_def p0 [symmetric] k0 [symmetric] split: if_splits)
  show ?thesis
  proof (cases circular)
    case True
    then show ?thesis using c e by simp
  next
    case False
    then have "port \<noteq> backup p" using c(2) by auto
    then have "k_ports k (backup p) = Some d0"
      "put_port port (p0\<lparr>ip_data := backup p\<rparr>) (put_port (backup p) (ip_reference d0) k0) =
       put_port port (p0\<lparr>ip_data := backup p\<rparr>) (put_port (backup p) (ip_reference d0) k)"
      using d0 by (auto simp: k0 put_port_def fun_upd_twist)
    then show ?thesis using False c e by auto
  qed
qed

end
