(* ===== verification/Ipc_Right.thy ===== *)
theory Ipc_Right
  imports Ipc_Port_Facts
begin

section \<open>Rights\<close>

text \<open>
  The operations of \<open>ipc/ipc_right.c\<close> on the capabilities of a space: lookup, the interplay with
  dead-name and msg-accepted requests, the death of ports, and the operations that destroy rights or
  change their user references.  The space is \<open>k_space\<close>, locked by the caller; an entry is a
  reference to an element of the table or a node of the tree.  \<open>None\<close> stands for following a pointer
  to an object that is gone, and for the assertions that a \<open>default\<close> branch is not reached.
\<close>

datatype mach_port_right_t =
    MACH_PORT_RIGHT_SEND | MACH_PORT_RIGHT_RECEIVE | MACH_PORT_RIGHT_SEND_ONCE
  | MACH_PORT_RIGHT_PORT_SET | MACH_PORT_RIGHT_DEAD_NAME

definition MACH_PORT_TYPE_DNREQUEST :: u32 where "MACH_PORT_TYPE_DNREQUEST = 0x80000000"
definition MACH_PORT_TYPE_MAREQUEST :: u32 where "MACH_PORT_TYPE_MAREQUEST = 0x40000000"
definition MACH_PORT_TYPE_COMPAT :: u32 where "MACH_PORT_TYPE_COMPAT = 0x20000000"

subsection \<open>Lookup\<close>

definition ipc_right_reverse ::
    "addr \<Rightarrow> ipc_kernel \<Rightarrow> ((mach_port_t \<times> ipc_entry_ref) option \<times> ipc_kernel) option" where
  "ipc_right_reverse object k =
     do {
       p \<leftarrow> k_ports k object;
       if \<not> ip_active p then Some (None, k)
       else if ip_receiver p = k_addr k
       then let name = ip_receiver_name p; (found, s) = ipc_entry_lookup name (k_space k)
            in Some (map_option (\<lambda>entry. (name, entry)) found, k\<lparr>k_space := s\<rparr>)
       else do {
         (found, g) \<leftarrow> ipc_hash_lookup object (k_space k) (k_hash k);
         Some (found, k\<lparr>k_hash := g\<rparr>)
       }
     }"

subsection \<open>Cancelling requests\<close>

definition ipc_right_dncancel ::
    "addr \<Rightarrow> mach_port_t \<Rightarrow> ipc_entry_ref \<Rightarrow> ipc_kernel \<Rightarrow> (addr \<times> ipc_kernel) option" where
  "ipc_right_dncancel port name entry k =
     do {
       e \<leftarrow> get_entry entry k;
       p \<leftarrow> k_ports k port;
       (dnrequest, p) \<leftarrow> ipc_port_dncancel name (ie_request e) p;
       let k = set_entry entry (\<lambda>e. e\<lparr>ie_request := 0\<rparr>) (put_port port p k);
       if ie_bits e AND IE_BITS_COMPAT \<noteq> 0 then Some (IP_NULL, space_release k)
       else Some (dnrequest, k)
     }"

definition ipc_right_dncancel_macro ::
    "addr \<Rightarrow> mach_port_t \<Rightarrow> ipc_entry_ref \<Rightarrow> ipc_kernel \<Rightarrow> (addr \<times> ipc_kernel) option" where
  "ipc_right_dncancel_macro port name entry k =
     do {
       e \<leftarrow> get_entry entry k;
       if ie_request e = 0 then Some (IP_NULL, k) else ipc_right_dncancel port name entry k
     }"

definition notify_port_deleted :: "addr \<Rightarrow> mach_port_t \<Rightarrow> ipc_kernel \<Rightarrow> ipc_kernel" where
  "notify_port_deleted dnrequest name k =
     (if dnrequest \<noteq> IP_NULL then post (Notify_Port_Deleted dnrequest name) k else k)"

subsection \<open>Ports that have died\<close>

definition ipc_right_inuse :: "mach_port_t \<Rightarrow> ipc_entry_ref \<Rightarrow> ipc_kernel \<Rightarrow> (bool \<times> ipc_kernel) option" where
  "ipc_right_inuse name entry k =
     do {
       e \<leftarrow> get_entry entry k;
       let bits = ie_bits e;
       let type = IE_BITS_TYPE bits;
       if type = MACH_PORT_TYPE_NONE then Some (False, k)
       else if bits AND IE_BITS_COMPAT \<noteq> 0 \<and> (type = MACH_PORT_TYPE_SEND \<or> type = MACH_PORT_TYPE_SEND_ONCE)
       then do {
         let port = ie_object e;
         p \<leftarrow> k_ports k port;
         if ip_active p then Some (True, k)
         else do {
           k \<leftarrow> (if type = MACH_PORT_TYPE_SEND
                 then do {
                   k \<leftarrow> (if bits AND IE_BITS_MAREQUEST \<noteq> 0 then marequest_cancel name k else Some k);
                   hash_delete port name entry k
                 }
                 else Some k);
           k \<leftarrow> ipc_port_release port k;
           Some (False, set_entry entry (\<lambda>e. e\<lparr>ie_request := 0, ie_object := IO_NULL,
                          ie_bits := ie_bits e AND NOT IE_BITS_RIGHT_MASK\<rparr>) k)
         }
       }
       else Some (True, k)
     }"

text \<open>The result is whether the port was dead.\<close>

definition ipc_right_check ::
    "addr \<Rightarrow> mach_port_t \<Rightarrow> ipc_entry_ref \<Rightarrow> ipc_kernel \<Rightarrow> (bool \<times> ipc_kernel) option" where
  "ipc_right_check port name entry k =
     do {
       p \<leftarrow> k_ports k port;
       if ip_active p then Some (False, k)
       else do {
         e \<leftarrow> get_entry entry k;
         let bits = ie_bits e;
         (bits, k) \<leftarrow>
           (if bits AND MACH_PORT_TYPE_SEND \<noteq> 0
            then do {
              (bits, k) \<leftarrow>
                (if bits AND IE_BITS_MAREQUEST \<noteq> 0
                 then do { k \<leftarrow> marequest_cancel name k; Some (bits AND NOT IE_BITS_MAREQUEST, k) }
                 else Some (bits, k));
              k \<leftarrow> hash_delete port name entry k;
              Some (bits, k)
            }
            else Some (bits, k));
         k \<leftarrow> ipc_port_release port k;
         if bits AND IE_BITS_COMPAT \<noteq> 0
         then do {
           k \<leftarrow> entry_dealloc name entry (set_entry entry (\<lambda>e. e\<lparr>ie_request := 0, ie_object := IO_NULL\<rparr>) k);
           Some (True, k)
         }
         else do {
           let bits = bits AND NOT IE_BITS_TYPE_MASK OR MACH_PORT_TYPE_DEAD_NAME;
           let bits = (if ie_request e \<noteq> 0 then bits + 1 else bits);
           Some (True, set_entry entry (\<lambda>e. e\<lparr>ie_request := 0, ie_bits := bits, ie_object := IO_NULL\<rparr>) k)
         }
       }
     }"

subsection \<open>Dead-name requests\<close>

text \<open>
  One round of the loop: \<open>None\<close> inside asks for another round, after the table of requests has
  grown (or somebody else ran while the port was unlocked).
\<close>

definition dnrequest_round ::
    "(ipc_kernel \<Rightarrow> ipc_kernel) \<Rightarrow> (nat \<Rightarrow> addr option) \<Rightarrow> mach_port_t \<Rightarrow> bool \<Rightarrow> addr \<Rightarrow> ipc_kernel
      \<Rightarrow> ((kern_return_t + addr) option \<times> ipc_kernel) option" where
  "dnrequest_round env alloc name immediate notify k =
     (case ipc_right_lookup_write name k of
        (Inl kr, k) \<Rightarrow> Some (Some (Inl kr), k)
      | (Inr entry, k) \<Rightarrow> do {
          e \<leftarrow> get_entry entry k;
          let bits = ie_bits e;
          let port = ie_object e;
          (dead, k) \<leftarrow>
            (if bits AND MACH_PORT_TYPE_PORT_RIGHTS \<noteq> 0 then ipc_right_check port name entry k else Some (True, k));
          if \<not> dead
          then if notify = IP_NULL
               then if bits AND IE_BITS_COMPAT \<noteq> 0 then Some (Some (Inr IP_NULL), k)
                    else do {
                      (previous, k) \<leftarrow> ipc_right_dncancel_macro port name entry k;
                      Some (Some (Inr previous), k)
                    }
               else do {
                 (previous, k) \<leftarrow> ipc_right_dncancel_macro port name entry k;
                 p \<leftarrow> k_ports k port;
                 case ipc_port_dnrequest name notify p of
                   (Inl kr, p) \<Rightarrow> do {
                     (kr, k) \<leftarrow> ipc_port_dngrow env alloc port k;
                     Some (if kr \<noteq> KERN_SUCCESS then Some (Inl kr) else None, k)
                   }
                 | (Inr request, p) \<Rightarrow>
                     Some (Some (Inr previous), set_entry entry
                       (\<lambda>e. e\<lparr>ie_request := request, ie_bits := bits AND NOT IE_BITS_COMPAT\<rparr>) (put_port port p k))
               }
          else if bits AND MACH_PORT_TYPE_PORT_RIGHTS \<noteq> 0 \<and> bits AND IE_BITS_COMPAT \<noteq> 0
          then Some (Some (Inl KERN_INVALID_NAME), k)
          else do {
            e \<leftarrow> get_entry entry k;
            let bits = ie_bits e;
            if bits AND MACH_PORT_TYPE_DEAD_NAME \<noteq> 0 \<and> immediate \<and> notify \<noteq> IP_NULL
            then if MACH_PORT_UREFS_OVERFLOW (IE_BITS_UREFS bits) 1
                 then Some (Some (Inl KERN_UREFS_OVERFLOW), k)
                 else Some (Some (Inr IP_NULL), post (Notify_Dead_Name notify name)
                        (set_entry entry (\<lambda>e. e\<lparr>ie_bits := bits + 1\<rparr>) k))
            else Some (Some (Inl (if bits AND MACH_PORT_TYPE_PORT_OR_DEAD \<noteq> 0
                                  then KERN_INVALID_ARGUMENT else KERN_INVALID_RIGHT)), k)
          }
        })"

text \<open>The loop; \<open>rounds\<close> bounds it.\<close>

fun ipc_right_dnrequest ::
    "nat \<Rightarrow> (ipc_kernel \<Rightarrow> ipc_kernel) \<Rightarrow> (nat \<Rightarrow> addr option) \<Rightarrow> mach_port_t \<Rightarrow> bool \<Rightarrow> addr \<Rightarrow> ipc_kernel
      \<Rightarrow> ((kern_return_t + addr) \<times> ipc_kernel) option" where
  "ipc_right_dnrequest 0 env alloc name immediate notify k = None"
| "ipc_right_dnrequest (Suc rounds) env alloc name immediate notify k =
     do {
       (result, k) \<leftarrow> dnrequest_round env alloc name immediate notify k;
       case result of
         Some r \<Rightarrow> Some (r, k)
       | None \<Rightarrow> ipc_right_dnrequest rounds env alloc name immediate notify k
     }"

subsection \<open>Destroying an entry\<close>

text \<open>
  What happens to the port after its entry is gone: the send right is dropped, the receive right
  destroys the port, a send-once right is used up by a notification, and the reference goes.
\<close>

definition right_drop_port :: "bool \<Rightarrow> addr \<Rightarrow> u32 \<Rightarrow> ipc_kernel \<Rightarrow> (addr \<times> u32 \<times> ipc_kernel) option" where
  "right_drop_port lock_try port type k =
     do {
       p \<leftarrow> k_ports k port;
       let (p, nsrequest, mscount) = (if type AND MACH_PORT_TYPE_SEND \<noteq> 0 then drop_send p else (p, IP_NULL, 0));
       let k = put_port port p k;
       k \<leftarrow> (if type AND MACH_PORT_TYPE_RECEIVE \<noteq> 0
             then do { k \<leftarrow> ipc_port_clear_receiver port k; ipc_port_destroy lock_try port k }
             else if type AND MACH_PORT_TYPE_SEND_ONCE \<noteq> 0
             then Some (post (Notify_Send_Once port) k)
             else Some (put_port port (ip_release p) k));
       Some (nsrequest, mscount, k)
     }"

definition ipc_right_clean :: "bool \<Rightarrow> mach_port_t \<Rightarrow> ipc_entry_ref \<Rightarrow> ipc_kernel \<Rightarrow> ipc_kernel option" where
  "ipc_right_clean lock_try name entry k =
     do {
       e \<leftarrow> get_entry entry k;
       let type = IE_BITS_TYPE (ie_bits e);
       if type = MACH_PORT_TYPE_DEAD_NAME then Some k
       else if type = MACH_PORT_TYPE_PORT_SET then ipc_pset_destroy (ie_object e) k
       else if type \<in> {MACH_PORT_TYPE_SEND, MACH_PORT_TYPE_RECEIVE, MACH_PORT_TYPE_SEND_RECEIVE, MACH_PORT_TYPE_SEND_ONCE}
       then do {
         let port = ie_object e;
         p \<leftarrow> k_ports k port;
         if \<not> ip_active p then ip_check_unlock port (put_port port (ip_release p) k)
         else do {
           (dnrequest, k) \<leftarrow> ipc_right_dncancel_macro port name entry k;
           (nsrequest, mscount, k) \<leftarrow> right_drop_port lock_try port type k;
           Some (notify_port_deleted dnrequest name (notify_no_senders nsrequest mscount k))
         }
       }
       else None
     }"

definition ipc_right_destroy ::
    "bool \<Rightarrow> mach_port_t \<Rightarrow> ipc_entry_ref \<Rightarrow> ipc_kernel \<Rightarrow> (kern_return_t \<times> ipc_kernel) option" where
  "ipc_right_destroy lock_try name entry k =
     do {
       e \<leftarrow> get_entry entry k;
       let bits = ie_bits e;
       let type = IE_BITS_TYPE bits;
       if type = MACH_PORT_TYPE_DEAD_NAME
       then do { k \<leftarrow> entry_dealloc name entry k; Some (KERN_SUCCESS, k) }
       else if type = MACH_PORT_TYPE_PORT_SET
       then do {
         k \<leftarrow> entry_dealloc name entry (set_entry entry (\<lambda>e. e\<lparr>ie_object := IO_NULL\<rparr>) k);
         k \<leftarrow> ipc_pset_destroy (ie_object e) k;
         Some (KERN_SUCCESS, k)
       }
       else if type \<in> {MACH_PORT_TYPE_SEND, MACH_PORT_TYPE_RECEIVE, MACH_PORT_TYPE_SEND_RECEIVE, MACH_PORT_TYPE_SEND_ONCE}
       then do {
         let port = ie_object e;
         k \<leftarrow> (if bits AND IE_BITS_MAREQUEST \<noteq> 0 then marequest_cancel name k else Some k);
         k \<leftarrow> (if type = MACH_PORT_TYPE_SEND then hash_delete port name entry k else Some k);
         p \<leftarrow> k_ports k port;
         if \<not> ip_active p
         then do {
           k \<leftarrow> ip_check_unlock port (put_port port (ip_release p) k);
           k \<leftarrow> entry_dealloc name entry (set_entry entry (\<lambda>e. e\<lparr>ie_request := 0, ie_object := IO_NULL\<rparr>) k);
           Some (if bits AND IE_BITS_COMPAT \<noteq> 0 then KERN_INVALID_NAME else KERN_SUCCESS, k)
         }
         else do {
           (dnrequest, k) \<leftarrow> ipc_right_dncancel_macro port name entry k;
           k \<leftarrow> entry_dealloc name entry (set_entry entry (\<lambda>e. e\<lparr>ie_object := IO_NULL\<rparr>) k);
           (nsrequest, mscount, k) \<leftarrow> right_drop_port lock_try port type k;
           Some (KERN_SUCCESS, notify_port_deleted dnrequest name (notify_no_senders nsrequest mscount k))
         }
       }
       else None
     }"

text \<open>On a right to a dead port this is what \<open>ipc_port_delete_compat\<close> does.\<close>

lemma unfile_ports:
  "marequest_cancel name k = Some k' \<Longrightarrow> k_ports k' = k_ports k"
  "hash_delete object name entry k = Some k' \<Longrightarrow> k_ports k' = k_ports k"
  by (auto simp: marequest_cancel_def hash_delete_def)

lemma right_destroy_dead_eq:
  assumes e: "get_entry entry k = Some e" and p: "k_ports k (ie_object e) = Some p" "\<not> ip_active p"
    and ty: "IE_BITS_TYPE (ie_bits e) \<in>
      {MACH_PORT_TYPE_SEND, MACH_PORT_TYPE_RECEIVE, MACH_PORT_TYPE_SEND_RECEIVE, MACH_PORT_TYPE_SEND_ONCE}"
  shows "ipc_right_destroy lock_try name entry k = right_destroy_dead name entry k"
proof -
  define c1 where "c1 = (if ie_bits e AND IE_BITS_MAREQUEST \<noteq> 0 then marequest_cancel name k else Some k)"
  define c2 where "c2 k' = (if IE_BITS_TYPE (ie_bits e) = MACH_PORT_TYPE_SEND
      then hash_delete (ie_object e) name entry k' else Some k')" for k'
  have ty': "IE_BITS_TYPE (ie_bits e) \<noteq> MACH_PORT_TYPE_DEAD_NAME" "IE_BITS_TYPE (ie_bits e) \<noteq> MACH_PORT_TYPE_PORT_SET"
    using ty by (auto simp: type_defs)
  show ?thesis
  proof (cases c1)
    case None
    then show ?thesis using e ty ty'
      by (simp only: ipc_right_destroy_def right_destroy_dead_def Let_def c1_def [symmetric] bind.bind_lunit if_True if_False bind.bind_lzero)
  next
    case (Some k1)
    then have p1: "k_ports k1 = k_ports k" using unfile_ports(1) by (auto simp: c1_def split: if_splits)
    show ?thesis
    proof (cases "c2 k1")
      case None
      then show ?thesis using e ty ty' Some
        by (simp only: ipc_right_destroy_def right_destroy_dead_def Let_def c1_def [symmetric] c2_def [symmetric]
            bind.bind_lunit if_True if_False bind.bind_lzero)
    next
      case k2: (Some k2)
      then have p2: "k_ports k2 = k_ports k" using unfile_ports(2) p1 by (auto simp: c2_def split: if_splits)
      show ?thesis using e ty ty' Some k2 p
        by (simp only: ipc_right_destroy_def right_destroy_dead_def Let_def c1_def [symmetric] c2_def [symmetric]
            bind.bind_lunit if_True if_False bind.bind_lzero p2 not_False_eq_True)
    qed
  qed
qed

subsection \<open>Giving up one user reference\<close>

text \<open>The label \<open>dead_name\<close>.\<close>

definition dealloc_dead_name ::
    "mach_port_t \<Rightarrow> ipc_entry_ref \<Rightarrow> ipc_entry_bits_t \<Rightarrow> ipc_kernel \<Rightarrow> (kern_return_t \<times> ipc_kernel) option" where
  "dealloc_dead_name name entry bits k =
     (if IE_BITS_UREFS bits = 1
      then do { k \<leftarrow> entry_dealloc name entry k; Some (KERN_SUCCESS, k) }
      else Some (KERN_SUCCESS, set_entry entry (\<lambda>e. e\<lparr>ie_bits := bits - 1\<rparr>) k))"

definition dealloc_send_once ::
    "mach_port_t \<Rightarrow> ipc_entry_ref \<Rightarrow> ipc_entry_bits_t \<Rightarrow> addr \<Rightarrow> ipc_kernel \<Rightarrow> (kern_return_t \<times> ipc_kernel) option" where
  "dealloc_send_once name entry bits port k =
     do {
       (dead, k) \<leftarrow> ipc_right_check port name entry k;
       if dead
       then if bits AND IE_BITS_COMPAT \<noteq> 0 then Some (KERN_INVALID_NAME, k)
            else do { e \<leftarrow> get_entry entry k; dealloc_dead_name name entry (ie_bits e) k }
       else do {
         (dnrequest, k) \<leftarrow> ipc_right_dncancel_macro port name entry k;
         k \<leftarrow> entry_dealloc name entry (set_entry entry (\<lambda>e. e\<lparr>ie_object := IO_NULL\<rparr>) k);
         Some (KERN_SUCCESS, notify_port_deleted dnrequest name (post (Notify_Send_Once port) k))
       }
     }"

definition dealloc_send ::
    "mach_port_t \<Rightarrow> ipc_entry_ref \<Rightarrow> ipc_entry_bits_t \<Rightarrow> addr \<Rightarrow> ipc_kernel \<Rightarrow> (kern_return_t \<times> ipc_kernel) option" where
  "dealloc_send name entry bits port k =
     do {
       (dead, k) \<leftarrow> ipc_right_check port name entry k;
       if dead
       then if bits AND IE_BITS_COMPAT \<noteq> 0 then Some (KERN_INVALID_NAME, k)
            else do { e \<leftarrow> get_entry entry k; dealloc_dead_name name entry (ie_bits e) k }
       else if IE_BITS_UREFS bits = 1
       then do {
         p \<leftarrow> k_ports k port;
         let (p, nsrequest, mscount) = drop_send p;
         (dnrequest, k) \<leftarrow> ipc_right_dncancel_macro port name entry (put_port port p k);
         k \<leftarrow> hash_delete port name entry k;
         k \<leftarrow> (if bits AND IE_BITS_MAREQUEST \<noteq> 0 then marequest_cancel name k else Some k);
         p \<leftarrow> k_ports k port;
         k \<leftarrow> entry_dealloc name entry
                (set_entry entry (\<lambda>e. e\<lparr>ie_object := IO_NULL\<rparr>) (put_port port (ip_release p) k));
         Some (KERN_SUCCESS, notify_port_deleted dnrequest name (notify_no_senders nsrequest mscount k))
       }
       else Some (KERN_SUCCESS, set_entry entry (\<lambda>e. e\<lparr>ie_bits := bits - 1\<rparr>) k)
     }"

definition dealloc_send_receive ::
    "ipc_entry_ref \<Rightarrow> ipc_entry_bits_t \<Rightarrow> addr \<Rightarrow> ipc_kernel \<Rightarrow> (kern_return_t \<times> ipc_kernel) option" where
  "dealloc_send_receive entry bits port k =
     do {
       p \<leftarrow> k_ports k port;
       if IE_BITS_UREFS bits = 1
       then let (p, nsrequest, mscount) = drop_send p;
                k = set_entry entry (\<lambda>e. e\<lparr>ie_bits := bits AND NOT (IE_BITS_UREFS_MASK OR MACH_PORT_TYPE_SEND)\<rparr>)
                      (put_port port p k)
            in Some (KERN_SUCCESS, notify_no_senders nsrequest mscount k)
       else Some (KERN_SUCCESS, set_entry entry (\<lambda>e. e\<lparr>ie_bits := bits - 1\<rparr>) k)
     }"

definition ipc_right_dealloc ::
    "mach_port_t \<Rightarrow> ipc_entry_ref \<Rightarrow> ipc_kernel \<Rightarrow> (kern_return_t \<times> ipc_kernel) option" where
  "ipc_right_dealloc name entry k =
     do {
       e \<leftarrow> get_entry entry k;
       let bits = ie_bits e;
       let type = IE_BITS_TYPE bits;
       if type = MACH_PORT_TYPE_DEAD_NAME then dealloc_dead_name name entry bits k
       else if type = MACH_PORT_TYPE_SEND_ONCE then dealloc_send_once name entry bits (ie_object e) k
       else if type = MACH_PORT_TYPE_SEND then dealloc_send name entry bits (ie_object e) k
       else if type = MACH_PORT_TYPE_SEND_RECEIVE then dealloc_send_receive entry bits (ie_object e) k
       else Some (KERN_INVALID_RIGHT, k)
     }"

subsection \<open>Changing the user references\<close>

text \<open>\<open>delta\<close> is a C \<open>int\<close>; the sums with the count and the bits are unsigned.\<close>

definition delta_port_set ::
    "mach_port_t \<Rightarrow> ipc_entry_ref \<Rightarrow> u32 \<Rightarrow> ipc_kernel \<Rightarrow> (kern_return_t \<times> ipc_kernel) option" where
  "delta_port_set name entry delta k =
     do {
       e \<leftarrow> get_entry entry k;
       if ie_bits e AND MACH_PORT_TYPE_PORT_SET = 0 then Some (KERN_INVALID_RIGHT, k)
       else if delta = 0 then Some (KERN_SUCCESS, k)
       else if delta \<noteq> -1 then Some (KERN_INVALID_VALUE, k)
       else do {
         k \<leftarrow> entry_dealloc name entry (set_entry entry (\<lambda>e. e\<lparr>ie_object := IO_NULL\<rparr>) k);
         k \<leftarrow> ipc_pset_destroy (ie_object e) k;
         Some (KERN_SUCCESS, k)
       }
     }"

definition delta_receive ::
    "bool \<Rightarrow> mach_port_t \<Rightarrow> ipc_entry_ref \<Rightarrow> u32 \<Rightarrow> ipc_kernel \<Rightarrow> (kern_return_t \<times> ipc_kernel) option" where
  "delta_receive lock_try name entry delta k =
     do {
       e \<leftarrow> get_entry entry k;
       let bits = ie_bits e;
       if bits AND MACH_PORT_TYPE_RECEIVE = 0 then Some (KERN_INVALID_RIGHT, k)
       else if delta = 0 then Some (KERN_SUCCESS, k)
       else if delta \<noteq> -1 then Some (KERN_INVALID_VALUE, k)
       else do {
         (bits, k) \<leftarrow> (if bits AND IE_BITS_MAREQUEST \<noteq> 0
                      then do { k \<leftarrow> marequest_cancel name k; Some (bits AND NOT IE_BITS_MAREQUEST, k) }
                      else Some (bits, k));
         let port = ie_object e;
         (dnrequest, k) \<leftarrow>
           (if bits AND IE_BITS_COMPAT \<noteq> 0
            then do {
              (dnrequest, k) \<leftarrow> ipc_right_dncancel port name entry k;
              k \<leftarrow> entry_dealloc name entry (set_entry entry (\<lambda>e. e\<lparr>ie_object := IO_NULL\<rparr>) k);
              Some (dnrequest, k)
            }
            else if bits AND MACH_PORT_TYPE_SEND \<noteq> 0
            then do {
              let bits = bits AND NOT IE_BITS_TYPE_MASK OR MACH_PORT_TYPE_DEAD_NAME;
              let bits = (if ie_request e \<noteq> 0 then bits + 1 else bits);
              Some (IP_NULL, set_entry entry (\<lambda>e. e\<lparr>ie_request := 0, ie_bits := bits, ie_object := IO_NULL\<rparr>) k)
            }
            else do {
              (dnrequest, k) \<leftarrow> ipc_right_dncancel_macro port name entry k;
              k \<leftarrow> entry_dealloc name entry (set_entry entry (\<lambda>e. e\<lparr>ie_object := IO_NULL\<rparr>) k);
              Some (dnrequest, k)
            });
         k \<leftarrow> ipc_port_clear_receiver port k;
         k \<leftarrow> ipc_port_destroy lock_try port k;
         Some (KERN_SUCCESS, notify_port_deleted dnrequest name k)
       }
     }"

definition delta_send_once ::
    "mach_port_t \<Rightarrow> ipc_entry_ref \<Rightarrow> u32 \<Rightarrow> ipc_kernel \<Rightarrow> (kern_return_t \<times> ipc_kernel) option" where
  "delta_send_once name entry delta k =
     do {
       e \<leftarrow> get_entry entry k;
       let bits = ie_bits e;
       if bits AND MACH_PORT_TYPE_SEND_ONCE = 0 then Some (KERN_INVALID_RIGHT, k)
       else if 0 < sint delta \<or> sint delta < -1 then Some (KERN_INVALID_VALUE, k)
       else do {
         let port = ie_object e;
         (dead, k) \<leftarrow> ipc_right_check port name entry k;
         if dead
         then Some (if bits AND IE_BITS_COMPAT \<noteq> 0 then KERN_INVALID_NAME else KERN_INVALID_RIGHT, k)
         else if delta = 0 then Some (KERN_SUCCESS, k)
         else do {
           (dnrequest, k) \<leftarrow> ipc_right_dncancel_macro port name entry k;
           k \<leftarrow> entry_dealloc name entry (set_entry entry (\<lambda>e. e\<lparr>ie_object := IO_NULL\<rparr>) k);
           Some (KERN_SUCCESS, notify_port_deleted dnrequest name (post (Notify_Send_Once port) k))
         }
       }
     }"

definition delta_dead_name ::
    "mach_port_t \<Rightarrow> ipc_entry_ref \<Rightarrow> u32 \<Rightarrow> ipc_kernel \<Rightarrow> (kern_return_t \<times> ipc_kernel) option" where
  "delta_dead_name name entry delta k =
     do {
       e \<leftarrow> get_entry entry k;
       let bits = ie_bits e;
       (stop, k) \<leftarrow>
         (if bits AND MACH_PORT_TYPE_SEND_RIGHTS \<noteq> 0
          then do {
            (dead, k) \<leftarrow> ipc_right_check (ie_object e) name entry k;
            Some (if \<not> dead then Some KERN_INVALID_RIGHT
                  else if bits AND IE_BITS_COMPAT \<noteq> 0 then Some KERN_INVALID_NAME else None, k)
          }
          else Some (if bits AND MACH_PORT_TYPE_DEAD_NAME = 0 then Some KERN_INVALID_RIGHT else None, k));
       case stop of
         Some kr \<Rightarrow> Some (kr, k)
       | None \<Rightarrow> do {
           e \<leftarrow> get_entry entry k;
           let bits = ie_bits e;
           let urefs = IE_BITS_UREFS bits;
           if MACH_PORT_UREFS_UNDERFLOW urefs delta then Some (KERN_INVALID_VALUE, k)
           else if MACH_PORT_UREFS_OVERFLOW urefs delta then Some (KERN_UREFS_OVERFLOW, k)
           else if urefs + delta = 0
           then do { k \<leftarrow> entry_dealloc name entry k; Some (KERN_SUCCESS, k) }
           else Some (KERN_SUCCESS, set_entry entry (\<lambda>e. e\<lparr>ie_bits := bits + delta\<rparr>) k)
         }
     }"

definition delta_send ::
    "mach_port_t \<Rightarrow> ipc_entry_ref \<Rightarrow> u32 \<Rightarrow> ipc_kernel \<Rightarrow> (kern_return_t \<times> ipc_kernel) option" where
  "delta_send name entry delta k =
     do {
       e \<leftarrow> get_entry entry k;
       let bits = ie_bits e;
       let urefs = IE_BITS_UREFS bits;
       if bits AND MACH_PORT_TYPE_SEND = 0 then Some (KERN_INVALID_RIGHT, k)
       else if MACH_PORT_UREFS_UNDERFLOW urefs delta then Some (KERN_INVALID_VALUE, k)
       else if MACH_PORT_UREFS_OVERFLOW (urefs + 1) delta then Some (KERN_UREFS_OVERFLOW, k)
       else do {
         let port = ie_object e;
         (dead, k) \<leftarrow> ipc_right_check port name entry k;
         if dead
         then Some (if bits AND IE_BITS_COMPAT \<noteq> 0 then KERN_INVALID_NAME else KERN_INVALID_RIGHT, k)
         else if urefs + delta = 0
         then do {
           p \<leftarrow> k_ports k port;
           let (p, nsrequest, mscount) = drop_send p;
           let k = put_port port p k;
           (dnrequest, k) \<leftarrow>
             (if bits AND MACH_PORT_TYPE_RECEIVE \<noteq> 0
              then Some (IP_NULL, set_entry entry
                     (\<lambda>e. e\<lparr>ie_bits := bits AND NOT (IE_BITS_UREFS_MASK OR MACH_PORT_TYPE_SEND)\<rparr>) k)
              else do {
                (dnrequest, k) \<leftarrow> ipc_right_dncancel_macro port name entry k;
                k \<leftarrow> hash_delete port name entry k;
                k \<leftarrow> (if bits AND IE_BITS_MAREQUEST \<noteq> 0 then marequest_cancel name k else Some k);
                p \<leftarrow> k_ports k port;
                k \<leftarrow> entry_dealloc name entry
                       (set_entry entry (\<lambda>e. e\<lparr>ie_object := IO_NULL\<rparr>) (put_port port (ip_release p) k));
                Some (dnrequest, k)
              });
           Some (KERN_SUCCESS, notify_port_deleted dnrequest name (notify_no_senders nsrequest mscount k))
         }
         else Some (KERN_SUCCESS, set_entry entry (\<lambda>e. e\<lparr>ie_bits := bits + delta\<rparr>) k)
       }
     }"

definition ipc_right_delta ::
    "bool \<Rightarrow> mach_port_t \<Rightarrow> ipc_entry_ref \<Rightarrow> mach_port_right_t \<Rightarrow> u32 \<Rightarrow> ipc_kernel
      \<Rightarrow> (kern_return_t \<times> ipc_kernel) option" where
  "ipc_right_delta lock_try name entry rt delta k =
     (case rt of
        MACH_PORT_RIGHT_PORT_SET \<Rightarrow> delta_port_set name entry delta k
      | MACH_PORT_RIGHT_RECEIVE \<Rightarrow> delta_receive lock_try name entry delta k
      | MACH_PORT_RIGHT_SEND_ONCE \<Rightarrow> delta_send_once name entry delta k
      | MACH_PORT_RIGHT_DEAD_NAME \<Rightarrow> delta_dead_name name entry delta k
      | MACH_PORT_RIGHT_SEND \<Rightarrow> delta_send name entry delta k)"

subsection \<open>Information\<close>

definition ipc_right_info ::
    "mach_port_t \<Rightarrow> ipc_entry_ref \<Rightarrow> ipc_kernel \<Rightarrow> ((kern_return_t + u32 \<times> u32) \<times> ipc_kernel) option" where
  "ipc_right_info name entry k =
     do {
       e \<leftarrow> get_entry entry k;
       let bits = ie_bits e;
       (dead, k) \<leftarrow> (if bits AND MACH_PORT_TYPE_SEND_RIGHTS \<noteq> 0
                    then ipc_right_check (ie_object e) name entry k else Some (False, k));
       if dead \<and> bits AND IE_BITS_COMPAT \<noteq> 0 then Some (Inl KERN_INVALID_NAME, k)
       else do {
         e \<leftarrow> get_entry entry k;
         let bits = ie_bits e;
         let type = IE_BITS_TYPE bits;
         let type = (if bits AND IE_BITS_COMPAT \<noteq> 0 then type OR MACH_PORT_TYPE_COMPAT
                     else if ie_request e \<noteq> 0 then type OR MACH_PORT_TYPE_DNREQUEST else type);
         let type = (if bits AND IE_BITS_MAREQUEST \<noteq> 0 then type OR MACH_PORT_TYPE_MAREQUEST else type);
         Some (Inr (type, IE_BITS_UREFS bits), k)
       }
     }"

end
