(* ===== verification/Ipc_Right_Copy.thy ===== *)
theory Ipc_Right_Copy
  imports Ipc_Right
begin

section \<open>Moving rights into and out of the kernel\<close>

text \<open>
  The rest of \<open>ipc/ipc_right.c\<close>: copyin takes a right out of the space for a message, copyout puts
  the right of a received message into the space.
\<close>

datatype mach_msg_type_name_t =
    MACH_MSG_TYPE_MOVE_RECEIVE | MACH_MSG_TYPE_MOVE_SEND | MACH_MSG_TYPE_MOVE_SEND_ONCE
  | MACH_MSG_TYPE_COPY_SEND | MACH_MSG_TYPE_MAKE_SEND | MACH_MSG_TYPE_MAKE_SEND_ONCE

abbreviation "MACH_MSG_TYPE_PORT_RECEIVE \<equiv> MACH_MSG_TYPE_MOVE_RECEIVE"
abbreviation "MACH_MSG_TYPE_PORT_SEND \<equiv> MACH_MSG_TYPE_MOVE_SEND"
abbreviation "MACH_MSG_TYPE_PORT_SEND_ONCE \<equiv> MACH_MSG_TYPE_MOVE_SEND_ONCE"

datatype msg_type_port = MSG_TYPE_PORT | MSG_TYPE_PORT_ALL

definition ipc_right_copyin_check ::
    "ipc_entry_ref \<Rightarrow> mach_msg_type_name_t \<Rightarrow> ipc_kernel \<Rightarrow> bool option" where
  "ipc_right_copyin_check entry msgt_name k =
     do {
       e \<leftarrow> get_entry entry k;
       let bits = ie_bits e;
       if msgt_name \<in> {MACH_MSG_TYPE_MAKE_SEND, MACH_MSG_TYPE_MAKE_SEND_ONCE, MACH_MSG_TYPE_MOVE_RECEIVE}
       then Some (bits AND MACH_PORT_TYPE_RECEIVE \<noteq> 0)
       else if bits AND MACH_PORT_TYPE_DEAD_NAME \<noteq> 0 then Some True
       else if bits AND MACH_PORT_TYPE_SEND_RIGHTS = 0 then Some False
       else do {
         p \<leftarrow> k_ports k (ie_object e);
         Some (if \<not> ip_active p then bits AND IE_BITS_COMPAT = 0
               else if msgt_name = MACH_MSG_TYPE_MOVE_SEND_ONCE then bits AND MACH_PORT_TYPE_SEND_ONCE \<noteq> 0
               else bits AND MACH_PORT_TYPE_SEND \<noteq> 0)
       }
     }"

text \<open>The result of a copyin: an error, or the object and the send-once right for a notification.\<close>

type_synonym copyin_result = "kern_return_t + addr \<times> addr"

text \<open>The labels \<open>copy_dead\<close> and \<open>move_dead\<close>.\<close>

definition copyin_copy_dead :: "bool \<Rightarrow> ipc_kernel \<Rightarrow> (copyin_result \<times> ipc_kernel) option" where
  "copyin_copy_dead deadok k =
     Some (if \<not> deadok then Inl KERN_INVALID_RIGHT else Inr (IO_DEAD, IP_NULL), k)"

definition copyin_move_dead ::
    "ipc_entry_ref \<Rightarrow> ipc_entry_bits_t \<Rightarrow> bool \<Rightarrow> ipc_kernel \<Rightarrow> (copyin_result \<times> ipc_kernel) option" where
  "copyin_move_dead entry bits deadok k =
     (if \<not> deadok then Some (Inl KERN_INVALID_RIGHT, k)
      else let bits' = (if IE_BITS_UREFS bits = 1 then bits AND NOT MACH_PORT_TYPE_DEAD_NAME else bits - 1)
           in Some (Inr (IO_DEAD, IP_NULL), set_entry entry (\<lambda>e. e\<lparr>ie_bits := bits'\<rparr>) k))"

definition copyin_make_send :: "ipc_entry_ref \<Rightarrow> ipc_kernel \<Rightarrow> (copyin_result \<times> ipc_kernel) option" where
  "copyin_make_send entry k =
     do {
       e \<leftarrow> get_entry entry k;
       if ie_bits e AND MACH_PORT_TYPE_RECEIVE = 0 then Some (Inl KERN_INVALID_RIGHT, k)
       else do {
         p \<leftarrow> k_ports k (ie_object e);
         Some (Inr (ie_object e, IP_NULL), put_port (ie_object e)
           (ip_reference (p\<lparr>ip_mscount := ip_mscount p + 1, ip_srights := ip_srights p + 1\<rparr>)) k)
       }
     }"

definition copyin_make_send_once :: "ipc_entry_ref \<Rightarrow> ipc_kernel \<Rightarrow> (copyin_result \<times> ipc_kernel) option" where
  "copyin_make_send_once entry k =
     do {
       e \<leftarrow> get_entry entry k;
       if ie_bits e AND MACH_PORT_TYPE_RECEIVE = 0 then Some (Inl KERN_INVALID_RIGHT, k)
       else do {
         p \<leftarrow> k_ports k (ie_object e);
         Some (Inr (ie_object e, IP_NULL), put_port (ie_object e)
           (ip_reference (p\<lparr>ip_sorights := ip_sorights p + 1\<rparr>)) k)
       }
     }"

definition copyin_move_receive ::
    "mach_port_t \<Rightarrow> ipc_entry_ref \<Rightarrow> ipc_kernel \<Rightarrow> (copyin_result \<times> ipc_kernel) option" where
  "copyin_move_receive name entry k =
     do {
       e \<leftarrow> get_entry entry k;
       let bits = ie_bits e;
       if bits AND MACH_PORT_TYPE_RECEIVE = 0 then Some (Inl KERN_INVALID_RIGHT, k)
       else do {
         let port = ie_object e;
         (dnrequest, k) \<leftarrow>
           (if bits AND MACH_PORT_TYPE_SEND \<noteq> 0
            then do {
              k \<leftarrow> hash_insert port name entry k;
              p \<leftarrow> k_ports k port;
              Some (IP_NULL, put_port port (ip_reference p) k)
            }
            else do {
              (dnrequest, k) \<leftarrow> ipc_right_dncancel_macro port name entry k;
              k \<leftarrow> (if bits AND IE_BITS_MAREQUEST \<noteq> 0 then marequest_cancel name k else Some k);
              Some (dnrequest, set_entry entry (\<lambda>e. e\<lparr>ie_object := IO_NULL\<rparr>) k)
            });
         let k = set_entry entry (\<lambda>e. e\<lparr>ie_bits := bits AND NOT MACH_PORT_TYPE_RECEIVE\<rparr>) k;
         k \<leftarrow> ipc_port_clear_receiver port k;
         p \<leftarrow> k_ports k port;
         Some (Inr (port, dnrequest),
           put_port port (p\<lparr>ip_receiver_name := MACH_PORT_NULL, ip_data := IP_NULL\<rparr>) k)
       }
     }"

definition copyin_copy_send ::
    "mach_port_t \<Rightarrow> ipc_entry_ref \<Rightarrow> bool \<Rightarrow> ipc_kernel \<Rightarrow> (copyin_result \<times> ipc_kernel) option" where
  "copyin_copy_send name entry deadok k =
     do {
       e \<leftarrow> get_entry entry k;
       let bits = ie_bits e;
       if bits AND MACH_PORT_TYPE_DEAD_NAME \<noteq> 0 then copyin_copy_dead deadok k
       else if bits AND MACH_PORT_TYPE_SEND_RIGHTS = 0 then Some (Inl KERN_INVALID_RIGHT, k)
       else do {
         let port = ie_object e;
         (dead, k) \<leftarrow> ipc_right_check port name entry k;
         if dead
         then if bits AND IE_BITS_COMPAT \<noteq> 0 then Some (Inl KERN_INVALID_NAME, k)
              else copyin_copy_dead deadok k
         else if bits AND MACH_PORT_TYPE_SEND = 0 then Some (Inl KERN_INVALID_RIGHT, k)
         else do {
           p \<leftarrow> k_ports k port;
           Some (Inr (port, IP_NULL), put_port port (ip_reference (p\<lparr>ip_srights := ip_srights p + 1\<rparr>)) k)
         }
       }
     }"

definition copyin_move_send ::
    "mach_port_t \<Rightarrow> ipc_entry_ref \<Rightarrow> bool \<Rightarrow> ipc_kernel \<Rightarrow> (copyin_result \<times> ipc_kernel) option" where
  "copyin_move_send name entry deadok k =
     do {
       e \<leftarrow> get_entry entry k;
       let bits = ie_bits e;
       if bits AND MACH_PORT_TYPE_DEAD_NAME \<noteq> 0 then copyin_move_dead entry bits deadok k
       else if bits AND MACH_PORT_TYPE_SEND_RIGHTS = 0 then Some (Inl KERN_INVALID_RIGHT, k)
       else do {
         let port = ie_object e;
         (dead, k) \<leftarrow> ipc_right_check port name entry k;
         if dead
         then if bits AND IE_BITS_COMPAT \<noteq> 0 then Some (Inl KERN_INVALID_NAME, k)
              else do { e \<leftarrow> get_entry entry k; copyin_move_dead entry (ie_bits e) deadok k }
         else if bits AND MACH_PORT_TYPE_SEND = 0 then Some (Inl KERN_INVALID_RIGHT, k)
         else if IE_BITS_UREFS bits = 1
         then do {
           (dnrequest, k) \<leftarrow>
             (if bits AND MACH_PORT_TYPE_RECEIVE \<noteq> 0
              then do { p \<leftarrow> k_ports k port; Some (IP_NULL, put_port port (ip_reference p) k) }
              else do {
                (dnrequest, k) \<leftarrow> ipc_right_dncancel_macro port name entry k;
                k \<leftarrow> hash_delete port name entry k;
                k \<leftarrow> (if bits AND IE_BITS_MAREQUEST \<noteq> 0 then marequest_cancel name k else Some k);
                Some (dnrequest, set_entry entry (\<lambda>e. e\<lparr>ie_object := IO_NULL\<rparr>) k)
              });
           Some (Inr (port, dnrequest), set_entry entry
             (\<lambda>e. e\<lparr>ie_bits := bits AND NOT (IE_BITS_UREFS_MASK OR MACH_PORT_TYPE_SEND)\<rparr>) k)
         }
         else do {
           p \<leftarrow> k_ports k port;
           let k = put_port port (ip_reference (p\<lparr>ip_srights := ip_srights p + 1\<rparr>)) k;
           Some (Inr (port, IP_NULL), set_entry entry (\<lambda>e. e\<lparr>ie_bits := bits - 1\<rparr>) k)
         }
       }
     }"

definition copyin_move_send_once ::
    "mach_port_t \<Rightarrow> ipc_entry_ref \<Rightarrow> bool \<Rightarrow> ipc_kernel \<Rightarrow> (copyin_result \<times> ipc_kernel) option" where
  "copyin_move_send_once name entry deadok k =
     do {
       e \<leftarrow> get_entry entry k;
       let bits = ie_bits e;
       if bits AND MACH_PORT_TYPE_DEAD_NAME \<noteq> 0 then copyin_move_dead entry bits deadok k
       else if bits AND MACH_PORT_TYPE_SEND_RIGHTS = 0 then Some (Inl KERN_INVALID_RIGHT, k)
       else do {
         let port = ie_object e;
         (dead, k) \<leftarrow> ipc_right_check port name entry k;
         if dead
         then if bits AND IE_BITS_COMPAT \<noteq> 0 then Some (Inl KERN_INVALID_NAME, k)
              else do { e \<leftarrow> get_entry entry k; copyin_move_dead entry (ie_bits e) deadok k }
         else if bits AND MACH_PORT_TYPE_SEND_ONCE = 0 then Some (Inl KERN_INVALID_RIGHT, k)
         else do {
           (dnrequest, k) \<leftarrow> ipc_right_dncancel_macro port name entry k;
           Some (Inr (port, dnrequest), set_entry entry
             (\<lambda>e. e\<lparr>ie_object := IO_NULL, ie_bits := bits AND NOT MACH_PORT_TYPE_SEND_ONCE\<rparr>) k)
         }
       }
     }"

definition ipc_right_copyin ::
    "mach_port_t \<Rightarrow> ipc_entry_ref \<Rightarrow> mach_msg_type_name_t \<Rightarrow> bool \<Rightarrow> ipc_kernel
      \<Rightarrow> (copyin_result \<times> ipc_kernel) option" where
  "ipc_right_copyin name entry msgt_name deadok k =
     (case msgt_name of
        MACH_MSG_TYPE_MAKE_SEND \<Rightarrow> copyin_make_send entry k
      | MACH_MSG_TYPE_MAKE_SEND_ONCE \<Rightarrow> copyin_make_send_once entry k
      | MACH_MSG_TYPE_MOVE_RECEIVE \<Rightarrow> copyin_move_receive name entry k
      | MACH_MSG_TYPE_COPY_SEND \<Rightarrow> copyin_copy_send name entry deadok k
      | MACH_MSG_TYPE_MOVE_SEND \<Rightarrow> copyin_move_send name entry deadok k
      | MACH_MSG_TYPE_MOVE_SEND_ONCE \<Rightarrow> copyin_move_send_once name entry deadok k)"

definition ipc_right_copyin_undo ::
    "mach_port_t \<Rightarrow> ipc_entry_ref \<Rightarrow> mach_msg_type_name_t \<Rightarrow> addr \<Rightarrow> addr \<Rightarrow> ipc_kernel \<Rightarrow> ipc_kernel option" where
  "ipc_right_copyin_undo name entry msgt_name object soright k =
     do {
       e \<leftarrow> get_entry entry k;
       let bits = ie_bits e;
       k \<leftarrow> (if soright \<noteq> IP_NULL
             then Some (set_entry entry
               (\<lambda>e. e\<lparr>ie_bits := bits AND NOT IE_BITS_RIGHT_MASK OR MACH_PORT_TYPE_DEAD_NAME OR 2\<rparr>) k)
             else if IE_BITS_TYPE bits = MACH_PORT_TYPE_NONE
             then Some (set_entry entry
               (\<lambda>e. e\<lparr>ie_bits := bits AND NOT IE_BITS_RIGHT_MASK OR MACH_PORT_TYPE_DEAD_NAME OR 1\<rparr>) k)
             else if IE_BITS_TYPE bits = MACH_PORT_TYPE_DEAD_NAME
             then Some (if msgt_name \<noteq> MACH_MSG_TYPE_COPY_SEND
                        then set_entry entry (\<lambda>e. e\<lparr>ie_bits := bits + 1\<rparr>) k else k)
             else do {
               let k = (if msgt_name \<noteq> MACH_MSG_TYPE_COPY_SEND
                        then set_entry entry (\<lambda>e. e\<lparr>ie_bits := bits + 1\<rparr>) k else k);
               (_, k) \<leftarrow> ipc_right_check object name entry k;
               Some k
             });
       if object \<noteq> IO_DEAD then ipc_object_release object k else Some k
     }"

definition ipc_right_copyin_two ::
    "mach_port_t \<Rightarrow> ipc_entry_ref \<Rightarrow> ipc_kernel \<Rightarrow> (copyin_result \<times> ipc_kernel) option" where
  "ipc_right_copyin_two name entry k =
     do {
       e \<leftarrow> get_entry entry k;
       let bits = ie_bits e;
       let urefs = IE_BITS_UREFS bits;
       if bits AND MACH_PORT_TYPE_SEND = 0 then Some (Inl KERN_INVALID_RIGHT, k)
       else if urefs < 2 then Some (Inl KERN_INVALID_RIGHT, k)
       else do {
         let port = ie_object e;
         (dead, k) \<leftarrow> ipc_right_check port name entry k;
         if dead
         then Some (Inl (if bits AND IE_BITS_COMPAT \<noteq> 0 then KERN_INVALID_NAME else KERN_INVALID_RIGHT), k)
         else if urefs = 2
         then do {
           (dnrequest, k) \<leftarrow>
             (if bits AND MACH_PORT_TYPE_RECEIVE \<noteq> 0
              then do {
                p \<leftarrow> k_ports k port;
                Some (IP_NULL, put_port port
                  (ip_reference (ip_reference (p\<lparr>ip_srights := ip_srights p + 1\<rparr>))) k)
              }
              else do {
                (dnrequest, k) \<leftarrow> ipc_right_dncancel_macro port name entry k;
                k \<leftarrow> hash_delete port name entry k;
                k \<leftarrow> (if bits AND IE_BITS_MAREQUEST \<noteq> 0 then marequest_cancel name k else Some k);
                p \<leftarrow> k_ports k port;
                let k = put_port port (ip_reference (p\<lparr>ip_srights := ip_srights p + 1\<rparr>)) k;
                Some (dnrequest, set_entry entry (\<lambda>e. e\<lparr>ie_object := IO_NULL\<rparr>) k)
              });
           Some (Inr (port, dnrequest), set_entry entry
             (\<lambda>e. e\<lparr>ie_bits := bits AND NOT (IE_BITS_UREFS_MASK OR MACH_PORT_TYPE_SEND)\<rparr>) k)
         }
         else do {
           p \<leftarrow> k_ports k port;
           let k = put_port port (ip_reference (ip_reference (p\<lparr>ip_srights := ip_srights p + 2\<rparr>))) k;
           Some (Inr (port, IP_NULL), set_entry entry (\<lambda>e. e\<lparr>ie_bits := bits - 2\<rparr>) k)
         }
       }
     }"

subsection \<open>Copyout\<close>

definition copyout_send ::
    "mach_port_t \<Rightarrow> ipc_entry_ref \<Rightarrow> bool \<Rightarrow> addr \<Rightarrow> ipc_kernel \<Rightarrow> (kern_return_t \<times> ipc_kernel) option" where
  "copyout_send name entry overflow port k =
     do {
       e \<leftarrow> get_entry entry k;
       p \<leftarrow> k_ports k port;
       let bits = ie_bits e;
       let store = set_entry entry (\<lambda>e. e\<lparr>ie_bits := (bits OR MACH_PORT_TYPE_SEND) + 1\<rparr>);
       let released = put_port port (ip_release (p\<lparr>ip_srights := ip_srights p - 1\<rparr>)) k;
       if bits AND MACH_PORT_TYPE_SEND \<noteq> 0
       then if IE_BITS_UREFS bits + 1 = MACH_PORT_UREFS_MAX
            then if overflow then Some (KERN_SUCCESS, released) else Some (KERN_UREFS_OVERFLOW, k)
            else Some (KERN_SUCCESS, store released)
       else if bits AND MACH_PORT_TYPE_RECEIVE \<noteq> 0
       then Some (KERN_SUCCESS, store (put_port port (ip_release p) k))
       else do {
         k \<leftarrow> hash_insert port name entry k;
         Some (KERN_SUCCESS, store k)
       }
     }"

definition copyout_receive ::
    "mach_port_t \<Rightarrow> ipc_entry_ref \<Rightarrow> addr \<Rightarrow> ipc_kernel \<Rightarrow> (kern_return_t \<times> ipc_kernel) option" where
  "copyout_receive name entry port k =
     do {
       e \<leftarrow> get_entry entry k;
       p \<leftarrow> k_ports k port;
       let bits = ie_bits e;
       let dest = ip_destination p;
       let p = p\<lparr>ip_receiver_name := name, ip_data := k_addr k\<rparr>;
       k \<leftarrow> (if bits AND MACH_PORT_TYPE_SEND \<noteq> 0
             then hash_delete port name entry (put_port port (ip_release p) k)
             else Some (put_port port p k));
       let k = set_entry entry (\<lambda>e. e\<lparr>ie_bits := bits OR MACH_PORT_TYPE_RECEIVE\<rparr>) k;
       k \<leftarrow> (if dest \<noteq> IP_NULL then ipc_port_release dest k else Some k);
       Some (KERN_SUCCESS, k)
     }"

definition ipc_right_copyout ::
    "mach_port_t \<Rightarrow> ipc_entry_ref \<Rightarrow> mach_msg_type_name_t \<Rightarrow> bool \<Rightarrow> addr \<Rightarrow> ipc_kernel
      \<Rightarrow> (kern_return_t \<times> ipc_kernel) option" where
  "ipc_right_copyout name entry msgt_name overflow object k =
     (case msgt_name of
        MACH_MSG_TYPE_MOVE_SEND_ONCE \<Rightarrow>
          do {
            e \<leftarrow> get_entry entry k;
            Some (KERN_SUCCESS, set_entry entry
              (\<lambda>e'. e'\<lparr>ie_bits := ie_bits e OR (MACH_PORT_TYPE_SEND_ONCE OR 1)\<rparr>) k)
          }
      | MACH_MSG_TYPE_MOVE_SEND \<Rightarrow> copyout_send name entry overflow object k
      | MACH_MSG_TYPE_MOVE_RECEIVE \<Rightarrow> copyout_receive name entry object k
      | _ \<Rightarrow> None)"

subsection \<open>Renaming\<close>

text \<open>The part of \<open>ipc_right_rename\<close> that moves the right once the requests are settled.\<close>

definition rename_move ::
    "mach_port_t \<Rightarrow> ipc_entry_ref \<Rightarrow> mach_port_t \<Rightarrow> ipc_entry_ref \<Rightarrow> ipc_entry_bits_t \<Rightarrow> nat \<Rightarrow> addr
      \<Rightarrow> ipc_kernel \<Rightarrow> (kern_return_t \<times> ipc_kernel) option" where
  "rename_move oname oentry nname nentry bits request object k =
     do {
       k \<leftarrow> (if bits AND IE_BITS_MAREQUEST \<noteq> 0
             then map_option (\<lambda>t. k\<lparr>k_marequests := t\<rparr>)
                    (ipc_marequest_rename (k_addr k) oname nname (k_marequests k))
             else Some k);
       let k = set_entry nentry (\<lambda>e. e\<lparr>ie_bits := ie_bits e OR bits AND IE_BITS_RIGHT_MASK,
                 ie_request := request, ie_object := object\<rparr>) k;
       let type = IE_BITS_TYPE bits;
       k \<leftarrow> (if type = MACH_PORT_TYPE_SEND
             then do { k \<leftarrow> hash_delete object oname oentry k; hash_insert object nname nentry k }
             else if type = MACH_PORT_TYPE_RECEIVE \<or> type = MACH_PORT_TYPE_SEND_RECEIVE
             then do { p \<leftarrow> k_ports k object; Some (put_port object (p\<lparr>ip_receiver_name := nname\<rparr>) k) }
             else if type = MACH_PORT_TYPE_PORT_SET
             then do { s \<leftarrow> k_psets k object; Some (put_pset object (s\<lparr>ips_local_name := nname\<rparr>) k) }
             else if type = MACH_PORT_TYPE_SEND_ONCE \<or> type = MACH_PORT_TYPE_DEAD_NAME then Some k
             else None);
       k \<leftarrow> entry_dealloc oname oentry (set_entry oentry (\<lambda>e. e\<lparr>ie_object := IO_NULL\<rparr>) k);
       Some (KERN_SUCCESS, k)
     }"

definition ipc_right_rename ::
    "mach_port_t \<Rightarrow> ipc_entry_ref \<Rightarrow> mach_port_t \<Rightarrow> ipc_entry_ref \<Rightarrow> ipc_kernel
      \<Rightarrow> (kern_return_t \<times> ipc_kernel) option" where
  "ipc_right_rename oname oentry nname nentry k =
     do {
       e \<leftarrow> get_entry oentry k;
       let bits = ie_bits e;
       let request = ie_request e;
       let object = ie_object e;
       if request \<noteq> 0
       then do {
         (dead, k) \<leftarrow> ipc_right_check object oname oentry k;
         if dead
         then if bits AND IE_BITS_COMPAT \<noteq> 0
              then do { k \<leftarrow> entry_dealloc nname nentry k; Some (KERN_INVALID_NAME, k) }
              else do {
                e \<leftarrow> get_entry oentry k;
                rename_move oname oentry nname nentry (ie_bits e) 0 IO_NULL k
              }
         else do {
           p \<leftarrow> k_ports k object;
           p \<leftarrow> ipc_port_dnrename request oname nname p;
           let k = set_entry oentry (\<lambda>e. e\<lparr>ie_request := 0\<rparr>) (put_port object p k);
           rename_move oname oentry nname nentry bits request object k
         }
       }
       else rename_move oname oentry nname nentry bits request object k
     }"

subsection \<open>Old-style copyin\<close>

type_synonym compat_result = "kern_return_t + addr"

definition copyin_compat_port_dealloc ::
    "mach_port_t \<Rightarrow> ipc_entry_ref \<Rightarrow> ipc_kernel \<Rightarrow> (compat_result \<times> ipc_kernel) option" where
  "copyin_compat_port_dealloc name entry k =
     do {
       e \<leftarrow> get_entry entry k;
       let bits = ie_bits e;
       if IE_BITS_TYPE bits \<noteq> MACH_PORT_TYPE_SEND then Some (Inl KERN_INVALID_RIGHT, k)
       else do {
         let port = ie_object e;
         (dead, k) \<leftarrow> ipc_right_check port name entry k;
         if dead
         then Some (Inl (if bits AND IE_BITS_COMPAT \<noteq> 0 then KERN_INVALID_NAME else KERN_INVALID_RIGHT), k)
         else do {
           (dnrequest, k) \<leftarrow> ipc_right_dncancel_macro port name entry k;
           k \<leftarrow> (if bits AND IE_BITS_MAREQUEST \<noteq> 0 then marequest_cancel name k else Some k);
           k \<leftarrow> entry_dealloc name entry (set_entry entry (\<lambda>e. e\<lparr>ie_object := IO_NULL\<rparr>) k);
           Some (Inr port, notify_port_deleted dnrequest name k)
         }
       }
     }"

definition copyin_compat_port ::
    "mach_port_t \<Rightarrow> ipc_entry_ref \<Rightarrow> ipc_kernel \<Rightarrow> (compat_result \<times> ipc_kernel) option" where
  "copyin_compat_port name entry k =
     do {
       e \<leftarrow> get_entry entry k;
       let bits = ie_bits e;
       if bits AND MACH_PORT_TYPE_SEND_RECEIVE = 0 then Some (Inl KERN_INVALID_RIGHT, k)
       else do {
         let port = ie_object e;
         (dead, k) \<leftarrow> ipc_right_check port name entry k;
         if dead
         then Some (Inl (if bits AND IE_BITS_COMPAT \<noteq> 0 then KERN_INVALID_NAME else KERN_INVALID_RIGHT), k)
         else do {
           p \<leftarrow> k_ports k port;
           let p = (if bits AND MACH_PORT_TYPE_SEND = 0 then p\<lparr>ip_mscount := ip_mscount p + 1\<rparr> else p);
           Some (Inr port, put_port port (ip_reference (p\<lparr>ip_srights := ip_srights p + 1\<rparr>)) k)
         }
       }
     }"

definition copyin_compat_all_dealloc ::
    "mach_port_t \<Rightarrow> ipc_entry_ref \<Rightarrow> ipc_kernel \<Rightarrow> (compat_result \<times> ipc_kernel) option" where
  "copyin_compat_all_dealloc name entry k =
     do {
       e \<leftarrow> get_entry entry k;
       let bits = ie_bits e;
       if bits AND MACH_PORT_TYPE_RECEIVE = 0 then Some (Inl KERN_INVALID_RIGHT, k)
       else do {
         let port = ie_object e;
         (dnrequest, k) \<leftarrow> ipc_right_dncancel_macro port name entry k;
         k \<leftarrow> (if bits AND IE_BITS_MAREQUEST \<noteq> 0 then marequest_cancel name k else Some k);
         k \<leftarrow> entry_dealloc name entry (set_entry entry (\<lambda>e. e\<lparr>ie_object := IO_NULL\<rparr>) k);
         p \<leftarrow> k_ports k port;
         let (p, nsrequest, mscount) =
           (if bits AND MACH_PORT_TYPE_SEND \<noteq> 0 then drop_send p else (p, IP_NULL, 0));
         k \<leftarrow> ipc_port_clear_receiver port (put_port port p k);
         p \<leftarrow> k_ports k port;
         let k = put_port port (p\<lparr>ip_receiver_name := MACH_PORT_NULL, ip_data := IP_NULL\<rparr>) k;
         Some (Inr port, notify_port_deleted dnrequest name (notify_no_senders nsrequest mscount k))
       }
     }"

definition copyin_compat_all ::
    "mach_port_t \<Rightarrow> ipc_entry_ref \<Rightarrow> ipc_kernel \<Rightarrow> (compat_result \<times> ipc_kernel) option" where
  "copyin_compat_all name entry k =
     do {
       e \<leftarrow> get_entry entry k;
       let bits = ie_bits e;
       if bits AND MACH_PORT_TYPE_RECEIVE = 0 then Some (Inl KERN_INVALID_RIGHT, k)
       else do {
         let port = ie_object e;
         p \<leftarrow> k_ports k port;
         let (p, bits) =
           (if bits AND MACH_PORT_TYPE_SEND = 0
            then (p\<lparr>ip_srights := ip_srights p + 1\<rparr>, bits OR (MACH_PORT_TYPE_SEND OR 1)) else (p, bits));
         k \<leftarrow> hash_insert port name entry (put_port port p k);
         let k = set_entry entry (\<lambda>e. e\<lparr>ie_bits := bits AND NOT MACH_PORT_TYPE_RECEIVE\<rparr>) k;
         k \<leftarrow> ipc_port_clear_receiver port k;
         p \<leftarrow> k_ports k port;
         Some (Inr port, put_port port
           (ip_reference (p\<lparr>ip_receiver_name := MACH_PORT_NULL, ip_data := IP_NULL\<rparr>)) k)
       }
     }"

definition ipc_right_copyin_compat ::
    "mach_port_t \<Rightarrow> ipc_entry_ref \<Rightarrow> msg_type_port \<Rightarrow> bool \<Rightarrow> ipc_kernel \<Rightarrow> (compat_result \<times> ipc_kernel) option" where
  "ipc_right_copyin_compat name entry msgt_name dealloc k =
     (case msgt_name of
        MSG_TYPE_PORT \<Rightarrow>
          if dealloc then copyin_compat_port_dealloc name entry k else copyin_compat_port name entry k
      | MSG_TYPE_PORT_ALL \<Rightarrow>
          if dealloc then copyin_compat_all_dealloc name entry k else copyin_compat_all name entry k)"

definition copyin_header_send_once ::
    "mach_port_t \<Rightarrow> ipc_entry_ref \<Rightarrow> ipc_entry_bits_t \<Rightarrow> addr \<Rightarrow> ipc_kernel
      \<Rightarrow> ((kern_return_t + addr \<times> mach_msg_type_name_t) \<times> ipc_kernel) option" where
  "copyin_header_send_once name entry bits port k =
     do {
       (dead, k) \<leftarrow> ipc_right_check port name entry k;
       if dead
       then Some (Inl (if bits AND IE_BITS_COMPAT \<noteq> 0 then KERN_INVALID_NAME else KERN_INVALID_RIGHT), k)
       else do {
         (dnrequest, k) \<leftarrow> ipc_right_dncancel_macro port name entry k;
         k \<leftarrow> entry_dealloc name entry (set_entry entry (\<lambda>e. e\<lparr>ie_object := IO_NULL\<rparr>) k);
         (notify, k) \<leftarrow> ipc_space_make_notify k;
         let k = notify_port_deleted dnrequest name k;
         let k = (if IP_VALID notify then post (Notify_Port_Deleted_Compat notify name) k else k);
         Some (Inr (port, MACH_MSG_TYPE_PORT_SEND_ONCE), k)
       }
     }"

definition ipc_right_copyin_header ::
    "mach_port_t \<Rightarrow> ipc_entry_ref \<Rightarrow> ipc_kernel
      \<Rightarrow> ((kern_return_t + addr \<times> mach_msg_type_name_t) \<times> ipc_kernel) option" where
  "ipc_right_copyin_header name entry k =
     do {
       e \<leftarrow> get_entry entry k;
       let bits = ie_bits e;
       let type = IE_BITS_TYPE bits;
       let port = ie_object e;
       if type = MACH_PORT_TYPE_PORT_SET \<or> type = MACH_PORT_TYPE_DEAD_NAME
       then Some (Inl KERN_INVALID_RIGHT, k)
       else if type = MACH_PORT_TYPE_RECEIVE
       then do {
         p \<leftarrow> k_ports k port;
         Some (Inr (port, MACH_MSG_TYPE_PORT_SEND), put_port port
           (ip_reference (p\<lparr>ip_mscount := ip_mscount p + 1, ip_srights := ip_srights p + 1\<rparr>)) k)
       }
       else if type = MACH_PORT_TYPE_SEND \<or> type = MACH_PORT_TYPE_SEND_RECEIVE
       then do {
         (dead, k) \<leftarrow> ipc_right_check port name entry k;
         if dead
         then Some (Inl (if bits AND IE_BITS_COMPAT \<noteq> 0 then KERN_INVALID_NAME else KERN_INVALID_RIGHT), k)
         else do {
           p \<leftarrow> k_ports k port;
           Some (Inr (port, MACH_MSG_TYPE_PORT_SEND),
             put_port port (ip_reference (p\<lparr>ip_srights := ip_srights p + 1\<rparr>)) k)
         }
       }
       else if type = MACH_PORT_TYPE_SEND_ONCE then copyin_header_send_once name entry bits port k
       else None
     }"

end
