(* ===== verification/Ipc_Right_Inv.thy ===== *)
theory Ipc_Right_Inv
  imports Ipc_Right_Copy
begin

section \<open>The entry of a name\<close>

text \<open>
  How the steps of the operations on rights act on the map of names: reading and storing into the
  entry of a name, filing it in the reverse tables, deallocating it.
\<close>

subsection \<open>Bits of a capability\<close>

text \<open>The bits outside of the right are those of the entry itself.\<close>

abbreviation same_entry :: "u32 \<Rightarrow> u32 \<Rightarrow> bool" where
  "same_entry b b' \<equiv> b' AND NOT IE_BITS_RIGHT_MASK = b AND NOT IE_BITS_RIGHT_MASK"

lemma right_mask_and:
  assumes "m AND IE_BITS_RIGHT_MASK = m"
  shows "(b AND IE_BITS_RIGHT_MASK) AND m = b AND m"
  using assms by (metis and.assoc and.commute)

lemma masks_in_right [simp]:
  "MACH_PORT_TYPE_SEND AND IE_BITS_RIGHT_MASK = MACH_PORT_TYPE_SEND"
  "MACH_PORT_TYPE_RECEIVE AND IE_BITS_RIGHT_MASK = MACH_PORT_TYPE_RECEIVE"
  "MACH_PORT_TYPE_SEND_ONCE AND IE_BITS_RIGHT_MASK = MACH_PORT_TYPE_SEND_ONCE"
  "MACH_PORT_TYPE_PORT_SET AND IE_BITS_RIGHT_MASK = MACH_PORT_TYPE_PORT_SET"
  "MACH_PORT_TYPE_DEAD_NAME AND IE_BITS_RIGHT_MASK = MACH_PORT_TYPE_DEAD_NAME"
  "MACH_PORT_TYPE_SEND_RECEIVE AND IE_BITS_RIGHT_MASK = MACH_PORT_TYPE_SEND_RECEIVE"
  "MACH_PORT_TYPE_SEND_RIGHTS AND IE_BITS_RIGHT_MASK = MACH_PORT_TYPE_SEND_RIGHTS"
  "MACH_PORT_TYPE_PORT_RIGHTS AND IE_BITS_RIGHT_MASK = MACH_PORT_TYPE_PORT_RIGHTS"
  "MACH_PORT_TYPE_PORT_OR_DEAD AND IE_BITS_RIGHT_MASK = MACH_PORT_TYPE_PORT_OR_DEAD"
  "IE_BITS_MAREQUEST AND IE_BITS_RIGHT_MASK = IE_BITS_MAREQUEST"
  "IE_BITS_COMPAT AND IE_BITS_RIGHT_MASK = IE_BITS_COMPAT"
  "IE_BITS_TYPE_MASK AND IE_BITS_RIGHT_MASK = IE_BITS_TYPE_MASK"
  "IE_BITS_UREFS_MASK AND IE_BITS_RIGHT_MASK = IE_BITS_UREFS_MASK"
  by (simp_all add: type_defs mask_defs)

lemma right_mask_views [simp]:
  "(b AND IE_BITS_RIGHT_MASK) AND MACH_PORT_TYPE_SEND = b AND MACH_PORT_TYPE_SEND"
  "(b AND IE_BITS_RIGHT_MASK) AND MACH_PORT_TYPE_RECEIVE = b AND MACH_PORT_TYPE_RECEIVE"
  "(b AND IE_BITS_RIGHT_MASK) AND MACH_PORT_TYPE_SEND_ONCE = b AND MACH_PORT_TYPE_SEND_ONCE"
  "(b AND IE_BITS_RIGHT_MASK) AND MACH_PORT_TYPE_PORT_SET = b AND MACH_PORT_TYPE_PORT_SET"
  "(b AND IE_BITS_RIGHT_MASK) AND MACH_PORT_TYPE_DEAD_NAME = b AND MACH_PORT_TYPE_DEAD_NAME"
  "(b AND IE_BITS_RIGHT_MASK) AND MACH_PORT_TYPE_SEND_RECEIVE = b AND MACH_PORT_TYPE_SEND_RECEIVE"
  "(b AND IE_BITS_RIGHT_MASK) AND MACH_PORT_TYPE_SEND_RIGHTS = b AND MACH_PORT_TYPE_SEND_RIGHTS"
  "(b AND IE_BITS_RIGHT_MASK) AND MACH_PORT_TYPE_PORT_RIGHTS = b AND MACH_PORT_TYPE_PORT_RIGHTS"
  "(b AND IE_BITS_RIGHT_MASK) AND MACH_PORT_TYPE_PORT_OR_DEAD = b AND MACH_PORT_TYPE_PORT_OR_DEAD"
  "(b AND IE_BITS_RIGHT_MASK) AND IE_BITS_MAREQUEST = b AND IE_BITS_MAREQUEST"
  "(b AND IE_BITS_RIGHT_MASK) AND IE_BITS_COMPAT = b AND IE_BITS_COMPAT"
  "IE_BITS_TYPE (b AND IE_BITS_RIGHT_MASK) = IE_BITS_TYPE b"
  "IE_BITS_UREFS (b AND IE_BITS_RIGHT_MASK) = IE_BITS_UREFS b"
  unfolding IE_BITS_TYPE_def IE_BITS_UREFS_def by (simp_all only: right_mask_and masks_in_right)

text \<open>The type of a right, as a set of flags.\<close>

lemma type_flag [simp]:
  "IE_BITS_TYPE b AND MACH_PORT_TYPE_SEND = b AND MACH_PORT_TYPE_SEND"
  "IE_BITS_TYPE b AND MACH_PORT_TYPE_RECEIVE = b AND MACH_PORT_TYPE_RECEIVE"
  "IE_BITS_TYPE b AND MACH_PORT_TYPE_SEND_ONCE = b AND MACH_PORT_TYPE_SEND_ONCE"
  "IE_BITS_TYPE b AND MACH_PORT_TYPE_PORT_SET = b AND MACH_PORT_TYPE_PORT_SET"
  "IE_BITS_TYPE b AND MACH_PORT_TYPE_DEAD_NAME = b AND MACH_PORT_TYPE_DEAD_NAME"
  "IE_BITS_TYPE b AND MACH_PORT_TYPE_SEND_RECEIVE = b AND MACH_PORT_TYPE_SEND_RECEIVE"
  "IE_BITS_TYPE b AND MACH_PORT_TYPE_SEND_RIGHTS = b AND MACH_PORT_TYPE_SEND_RIGHTS"
  "IE_BITS_TYPE b AND MACH_PORT_TYPE_PORT_RIGHTS = b AND MACH_PORT_TYPE_PORT_RIGHTS"
  "IE_BITS_TYPE b AND MACH_PORT_TYPE_PORT_OR_DEAD = b AND MACH_PORT_TYPE_PORT_OR_DEAD"
  unfolding IE_BITS_TYPE_def by (simp_all add: type_defs mask_defs and.assoc)

lemma flags_of_type:
  assumes "IE_BITS_TYPE b = t"
  shows "b AND MACH_PORT_TYPE_SEND = t AND MACH_PORT_TYPE_SEND"
    "b AND MACH_PORT_TYPE_RECEIVE = t AND MACH_PORT_TYPE_RECEIVE"
    "b AND MACH_PORT_TYPE_SEND_ONCE = t AND MACH_PORT_TYPE_SEND_ONCE"
    "b AND MACH_PORT_TYPE_PORT_SET = t AND MACH_PORT_TYPE_PORT_SET"
    "b AND MACH_PORT_TYPE_DEAD_NAME = t AND MACH_PORT_TYPE_DEAD_NAME"
    "b AND MACH_PORT_TYPE_SEND_RECEIVE = t AND MACH_PORT_TYPE_SEND_RECEIVE"
    "b AND MACH_PORT_TYPE_SEND_RIGHTS = t AND MACH_PORT_TYPE_SEND_RIGHTS"
    "b AND MACH_PORT_TYPE_PORT_RIGHTS = t AND MACH_PORT_TYPE_PORT_RIGHTS"
    "b AND MACH_PORT_TYPE_PORT_OR_DEAD = t AND MACH_PORT_TYPE_PORT_OR_DEAD"
  using assms type_flag [of b] by metis+

text \<open>Counting in the low bits.\<close>

lemma urefs_split: "b = (b AND NOT IE_BITS_UREFS_MASK) + IE_BITS_UREFS b"
proof -
  have "(b AND NOT IE_BITS_UREFS_MASK) + (b AND IE_BITS_UREFS_MASK) =
      (b AND NOT IE_BITS_UREFS_MASK) OR (b AND IE_BITS_UREFS_MASK)"
    by (rule disjunctive_add) (auto simp: bit_and_iff bit_not_iff)
  also have "\<dots> = b" by (rule bit_eqI) (auto simp: bit_and_iff bit_or_iff bit_not_iff)
  finally show ?thesis by (simp add: IE_BITS_UREFS_def)
qed

lemma urefs_take: "IE_BITS_UREFS x = take_bit 16 x"
  by (simp add: IE_BITS_UREFS_def IE_BITS_UREFS_MASK_def take_bit_eq_mask mask_eq_decr_exp)

lemma urefs_less: "unat (IE_BITS_UREFS b) < 65536"
proof -
  have "unat (take_bit 16 b) = take_bit 16 (unat b)" by (simp add: unsigned_take_bit_eq)
  then show ?thesis using take_bit_nat_less_exp [of 16 "unat b"] by (simp add: urefs_take)
qed

lemma urefs_low: "x AND NOT IE_BITS_UREFS_MASK = 0" "IE_BITS_UREFS x = x" if "unat x < 65536" for x :: u32
proof -
  have "unat (take_bit 16 x) = take_bit 16 (unat x)" by (simp add: unsigned_take_bit_eq)
  then have "take_bit 16 x = x" using that by (simp add: take_bit_nat_eq_self_iff word_unat_eq_iff)
  then show "IE_BITS_UREFS x = x" by (simp add: urefs_take)
  then have "bit x n \<Longrightarrow> bit IE_BITS_UREFS_MASK n" for n
    unfolding IE_BITS_UREFS_def by (metis bit_and_iff)
  then show "x AND NOT IE_BITS_UREFS_MASK = 0" by (intro bit_eqI) (auto simp: bit_and_iff bit_not_iff)
qed

lemma urefs_add:
  assumes "unat (IE_BITS_UREFS b + d) < 65536"
  shows "(b + d) AND NOT IE_BITS_UREFS_MASK = b AND NOT IE_BITS_UREFS_MASK"
    and "IE_BITS_UREFS (b + d) = IE_BITS_UREFS b + d"
proof -
  let ?h = "b AND NOT IE_BITS_UREFS_MASK" and ?x = "IE_BITS_UREFS b + d"
  note low = urefs_low [OF assms]
  have "?h AND ?x = 0"
    using low(1) by (metis and.assoc and.commute and_zero_eq)
  then have or: "?h + ?x = ?h OR ?x" by (intro disjunctive_add) (metis bit_and_iff bit_0_eq bot_apply bot_bool_def)
  have "b + d = ?h + ?x" using urefs_split [of b] by (metis add.assoc)
  with or have e: "b + d = ?h OR ?x" by simp
  show "(b + d) AND NOT IE_BITS_UREFS_MASK = ?h"
    unfolding e using low(1) by (simp add: bit.conj_disj_distrib2 and.assoc)
  show "IE_BITS_UREFS (b + d) = ?x"
    unfolding e using low(2) unfolding IE_BITS_UREFS_def by (simp add: bit.conj_disj_distrib2 and.assoc)
qed

lemma urefs_add_and:
  assumes "unat (IE_BITS_UREFS b + d) < 65536" and "m AND NOT IE_BITS_UREFS_MASK = m"
  shows "(b + d) AND m = b AND m"
proof -
  have "x AND m = (x AND NOT IE_BITS_UREFS_MASK) AND m" for x
    using assms(2) by (subst assms(2) [symmetric]) (simp only: and.assoc and.commute [of m])
  from this [of "b + d"] this [of b] show ?thesis by (simp only: urefs_add(1) [OF assms(1)])
qed

lemma masks_above_urefs:
  "MACH_PORT_TYPE_SEND AND NOT IE_BITS_UREFS_MASK = MACH_PORT_TYPE_SEND"
  "MACH_PORT_TYPE_RECEIVE AND NOT IE_BITS_UREFS_MASK = MACH_PORT_TYPE_RECEIVE"
  "MACH_PORT_TYPE_SEND_ONCE AND NOT IE_BITS_UREFS_MASK = MACH_PORT_TYPE_SEND_ONCE"
  "MACH_PORT_TYPE_DEAD_NAME AND NOT IE_BITS_UREFS_MASK = MACH_PORT_TYPE_DEAD_NAME"
  "IE_BITS_MAREQUEST AND NOT IE_BITS_UREFS_MASK = IE_BITS_MAREQUEST"
  "IE_BITS_COMPAT AND NOT IE_BITS_UREFS_MASK = IE_BITS_COMPAT"
  "IE_BITS_TYPE_MASK AND NOT IE_BITS_UREFS_MASK = IE_BITS_TYPE_MASK"
  "NOT IE_BITS_RIGHT_MASK AND NOT IE_BITS_UREFS_MASK = NOT IE_BITS_RIGHT_MASK"
  by (auto intro!: bit_word_eqI simp: MACH_PORT_TYPE_SEND_def
      MACH_PORT_TYPE_RECEIVE_def MACH_PORT_TYPE_SEND_ONCE_def MACH_PORT_TYPE_DEAD_NAME_def bits_simps bit_and_iff bit_not_iff)

lemma and_mask_self: "x AND NOT m = 0 \<Longrightarrow> x AND m = x" for x :: u32
proof (rule bit_eqI)
  fix n assume "x AND NOT m = 0"
  then have "\<not> bit (x AND NOT m) n" by simp
  then show "bit (x AND m) n = bit x n" by (auto simp: bit_and_iff bit_not_iff dest: bit_imp_le_length)
qed

lemma urefs_add_bits:
  assumes "unat (IE_BITS_UREFS b + d) < 65536"
  shows "(b + d) AND MACH_PORT_TYPE_SEND = b AND MACH_PORT_TYPE_SEND"
    and "(b + d) AND MACH_PORT_TYPE_RECEIVE = b AND MACH_PORT_TYPE_RECEIVE"
    and "(b + d) AND MACH_PORT_TYPE_SEND_ONCE = b AND MACH_PORT_TYPE_SEND_ONCE"
    and "(b + d) AND MACH_PORT_TYPE_DEAD_NAME = b AND MACH_PORT_TYPE_DEAD_NAME"
    and "(b + d) AND IE_BITS_MAREQUEST = b AND IE_BITS_MAREQUEST"
    and "(b + d) AND IE_BITS_COMPAT = b AND IE_BITS_COMPAT"
    and "IE_BITS_TYPE (b + d) = IE_BITS_TYPE b"
    and "same_entry b (b + d)"
  unfolding IE_BITS_TYPE_def
  by (rule urefs_add_and [OF assms], rule masks_above_urefs)+

text \<open>The count of the right part of the bits is the count of the bits.\<close>

lemma urefs_add_view:
  assumes "unat (IE_BITS_UREFS b + d) < 65536"
  shows "(b + d) AND IE_BITS_RIGHT_MASK = (b AND IE_BITS_RIGHT_MASK) + d"
proof -
  let ?c = "b AND IE_BITS_RIGHT_MASK"
  have c: "unat (IE_BITS_UREFS ?c + d) < 65536" using assms by simp
  have "(?c + d) AND NOT IE_BITS_RIGHT_MASK = ?c AND NOT IE_BITS_RIGHT_MASK"
    by (rule urefs_add_bits(8) [OF c])
  then have "(?c + d) AND NOT IE_BITS_RIGHT_MASK = 0" by (simp add: and.assoc)
  then have r: "?c + d = (?c + d) AND IE_BITS_RIGHT_MASK" by (rule and_mask_self [symmetric])
  have "((b + d) AND IE_BITS_RIGHT_MASK) AND NOT IE_BITS_UREFS_MASK = (?c + d) AND NOT IE_BITS_UREFS_MASK"
  proof -
    have "((b + d) AND IE_BITS_RIGHT_MASK) AND NOT IE_BITS_UREFS_MASK =
        ((b + d) AND NOT IE_BITS_UREFS_MASK) AND IE_BITS_RIGHT_MASK"
      by (simp only: and.assoc and.commute [of IE_BITS_RIGHT_MASK])
    also have "\<dots> = ?c AND NOT IE_BITS_UREFS_MASK"
      unfolding urefs_add(1) [OF assms] by (simp only: and.assoc and.commute [of IE_BITS_RIGHT_MASK])
    finally show ?thesis by (simp only: urefs_add(1) [OF c])
  qed
  moreover have "IE_BITS_UREFS ((b + d) AND IE_BITS_RIGHT_MASK) = IE_BITS_UREFS (?c + d)"
    using urefs_add(2) [OF c] urefs_add(2) [OF assms] by simp
  ultimately show ?thesis
    using urefs_split [of "(b + d) AND IE_BITS_RIGHT_MASK"] urefs_split [of "?c + d"] by simp
qed

subsection \<open>The frame of a space\<close>

definition sframe :: "ipc_space \<Rightarrow> ipc_space \<Rightarrow> bool" where
  "sframe s s' \<longleftrightarrow> is_addr s' = is_addr s \<and> is_active s' = is_active s \<and> is_notify s' = is_notify s"

lemma sframe_refl [simp]: "sframe s s" by (simp add: sframe_def)

lemma sframe_trans: "sframe s s' \<Longrightarrow> sframe s' s'' \<Longrightarrow> sframe s s''" by (simp add: sframe_def)

lemma sframe_store [simp]: "sframe s (entry_store entry f s)"
  by (simp add: sframe_def entry_store_def split: ipc_entry_ref.split)

lemma sframe_hash_insert: "ipc_hash_insert obj n entry s g = Some (s', g') \<Longrightarrow> sframe s s'"
  by (auto simp: ipc_hash_insert_def ipc_hash_global_insert_def sframe_def Let_def bind_eq_Some_conv split: if_splits)

lemma sframe_hash_delete: "ipc_hash_delete obj n entry s g = Some (s', g') \<Longrightarrow> sframe s s'"
  by (auto simp: ipc_hash_delete_def ipc_hash_global_delete_def sframe_def Let_def bind_eq_Some_conv split: if_splits)

lemma sframe_move: "move_to_table n e i (s, g) = Some (s', g') \<Longrightarrow> sframe s s'"
  by (auto simp: move_to_table_def ipc_hash_global_delete_def sframe_def Let_def bind_eq_Some_conv
      split: if_splits prod.splits)

lemma sframe_collision: "ipc_entry_tree_collision n s = (c, s') \<Longrightarrow> sframe s s'"
  by (auto simp: ipc_entry_tree_collision_def sframe_def Let_def split: prod.splits)

lemma sframe_dealloc_collision:
  "dealloc_collision i (s, g) = Some (s', g') \<Longrightarrow> sframe s s'"
  by (auto simp: dealloc_collision_def Let_def bind_eq_Some_conv dest!: sframe_move split: prod.splits option.splits)
    (auto simp: sframe_def)

lemma sframe_dealloc: "ipc_entry_dealloc n entry (s, g) = Some (s', g') \<Longrightarrow> sframe s s'"
  by (auto simp: ipc_entry_dealloc_def Let_def dest!: sframe_dealloc_collision sframe_collision
      split: if_splits prod.splits) (auto simp: sframe_def)

subsection \<open>An entry and its capability\<close>

text \<open>
  \<open>entry\<close> is the entry of the name \<open>n\<close> of a well-formed space, and these are its fields.
\<close>

definition points :: "ipc_space \<Rightarrow> ipc_hash_global \<Rightarrow> mach_port_t set \<Rightarrow> mach_port_t \<Rightarrow> ipc_entry_ref
    \<Rightarrow> u32 \<Rightarrow> addr \<Rightarrow> nat \<Rightarrow> bool" where
  "points s g P n entry b obj r \<longleftrightarrow>
     space_inv s g P \<and> space_map s P n \<noteq> None \<and> entry = ref_of s n \<and>
     (\<exists>e. entry_at entry s = Some e \<and> ie_bits e = b \<and> ie_object e = obj \<and> ie_request e = r)"

lemma pointsD:
  assumes "points s g P n entry b obj r"
  shows "space_inv s g P" and "space_map s P n = Some (b AND IE_BITS_RIGHT_MASK, obj, r)" and "entry = ref_of s n"
proof -
  from assms obtain c e where *: "space_inv s g P" "space_map s P n = Some c" "entry = ref_of s n"
      "entry_at entry s = Some e" "ie_bits e = b" "ie_object e = obj" "ie_request e = r"
    by (auto simp: points_def)
  from entry_at_ref [OF *(1,2)] * have "c = view e" by auto
  with * show "space_inv s g P" "space_map s P n = Some (b AND IE_BITS_RIGHT_MASK, obj, r)" "entry = ref_of s n"
    by (auto simp: view_def)
qed

lemma pointsE:
  assumes "points s g P n entry b obj r"
  obtains e where "entry_at entry s = Some e" "ie_bits e = b" "ie_object e = obj" "ie_request e = r"
  using assms by (auto simp: points_def)

lemma points_exists:
  assumes "space_inv s g P" and "space_map s P n = Some (c, obj, r)"
  obtains b where "points s g P n (ref_of s n) b obj r" and "c = b AND IE_BITS_RIGHT_MASK"
proof -
  from entry_at_ref [OF assms] obtain e where "entry_at (ref_of s n) s = Some e" "(c, obj, r) = view e" .
  then show thesis using assms by (intro that [of "ie_bits e"]) (auto simp: points_def view_def)
qed

text \<open>Reading.\<close>

lemma get_points:
  assumes "points (k_space k) (k_hash k) P n entry b obj r"
  obtains e where "get_entry entry k = Some e" "ie_bits e = b" "ie_object e = obj" "ie_request e = r"
  using assms by (auto simp: get_entry_def elim: pointsE)

text \<open>Storing.\<close>

lemma ref_of_store:
  assumes "space_inv s g P" and "space_map s P n = Some c"
  shows "ref_of (entry_store (ref_of s n) f s) m = ref_of s m"
    and "entry_at (ref_of s n) (entry_store (ref_of s n) f s) = map_option f (entry_at (ref_of s n) s)"
proof -
  have "ref_of (entry_store (ref_of s n) f s) m = ref_of s m \<and>
      entry_at (ref_of s n) (entry_store (ref_of s n) f s) = map_option f (entry_at (ref_of s n) s)"
    using assms
  proof (cases rule: cap_cases)
    case table
    then show ?thesis by (auto simp: entry_store_def entry_at_def ref_of_def used_def)
  next
    case (tree e)
    then have "dom (splay_map (ipc_splay_update n f (is_tree s))) = dom (splay_map (is_tree s))"
      by (auto split: if_splits)
    with tree show ?thesis by (simp add: entry_store_def entry_at_def ref_of_def)
  qed
  then show "ref_of (entry_store (ref_of s n) f s) m = ref_of s m"
    and "entry_at (ref_of s n) (entry_store (ref_of s n) f s) = map_option f (entry_at (ref_of s n) s)" by auto
qed

definition stores :: "(ipc_entry \<Rightarrow> ipc_entry) \<Rightarrow> u32 \<Rightarrow> addr \<Rightarrow> nat \<Rightarrow> u32 \<Rightarrow> addr \<Rightarrow> nat \<Rightarrow> bool" where
  "stores f b obj r b' obj' r' \<longleftrightarrow>
     (\<forall>e. ie_bits e = b \<longrightarrow> ie_object e = obj \<longrightarrow> ie_request e = r \<longrightarrow>
        ie_bits (f e) = b' \<and> ie_object (f e) = obj' \<and> ie_request (f e) = r' \<and> ie_index (f e) = ie_index e)"

definition keeps_send :: "u32 \<Rightarrow> addr \<Rightarrow> u32 \<Rightarrow> addr \<Rightarrow> bool" where
  "keeps_send b obj b' obj' \<longleftrightarrow>
     IE_BITS_TYPE b \<noteq> 0 \<and> IE_BITS_TYPE b' \<noteq> 0 \<and>
     (IE_BITS_TYPE b = MACH_PORT_TYPE_SEND \<longleftrightarrow> IE_BITS_TYPE b' = MACH_PORT_TYPE_SEND) \<and>
     (IE_BITS_TYPE b = MACH_PORT_TYPE_SEND \<longrightarrow> obj' = obj)"

lemma points_store:
  assumes pt: "points s g P n entry b obj r" and f: "stores f b obj r b' obj' r'"
    and same: "same_entry b b'" and ok: "n \<in> P \<or> keeps_send b obj b' obj'"
  shows "points (entry_store entry f s) g P n entry b' obj' r'"
    and "space_map (entry_store entry f s) P = (space_map s P)(n \<mapsto> (b' AND IE_BITS_RIGHT_MASK, obj', r'))"
proof -
  from pt obtain e where e: "entry_at entry s = Some e" "ie_bits e = b" "ie_object e = obj" "ie_request e = r"
    by (rule pointsE)
  note D = pointsD [OF pt]
  from f e have fe: "ie_bits (f e) = b'" "ie_object (f e) = obj'" "ie_request (f e) = r'" "ie_index (f e) = ie_index e"
    by (auto simp: stores_def)
  have rw: "rewritten e (f e)" using same fe e by (simp add: rewritten_def)
  have ok': "n \<in> P \<or> send_compatible (b AND IE_BITS_RIGHT_MASK, obj, r) (view (f e))"
    using ok fe by (auto simp: send_compatible_def keeps_send_def view_def)
  note S = entry_store_spec [where f = f, OF D(1,2) e(1) [unfolded D(3)] rw ok']
  show mp: "space_map (entry_store entry f s) P = (space_map s P)(n \<mapsto> (b' AND IE_BITS_RIGHT_MASK, obj', r'))"
    using S(2) fe by (simp add: D(3) view_def)
  show "points (entry_store entry f s) g P n entry b' obj' r'"
    unfolding points_def
  proof (intro conjI exI)
    show "space_inv (entry_store entry f s) g P" using S(1) by (simp add: D(3))
    show "space_map (entry_store entry f s) P n \<noteq> None" by (simp add: mp)
    show "entry = ref_of (entry_store entry f s) n" by (simp add: D(3) ref_of_store [OF D(1,2)])
    show "entry_at entry (entry_store entry f s) = Some (f e)"
      using e(1) by (simp add: D(3) ref_of_store [OF D(1,2)])
  qed (use fe in simp_all)
qed

lemma set_points:
  assumes "points (k_space k) (k_hash k) P n entry b obj r" and "stores f b obj r b' obj' r'"
    and "same_entry b b'" and "n \<in> P \<or> keeps_send b obj b' obj'"
  shows "points (k_space (set_entry entry f k)) (k_hash (set_entry entry f k)) P n entry b' obj' r'"
    and "space_map (k_space (set_entry entry f k)) P = (space_map (k_space k) P)(n \<mapsto> (b' AND IE_BITS_RIGHT_MASK, obj', r'))"
  using points_store [OF assms] by (simp_all add: set_entry_def)

lemma set_entry_sel [simp]:
  "k_ports (set_entry entry f k) = k_ports k" "k_psets (set_entry entry f k) = k_psets k"
  "k_events (set_entry entry f k) = k_events k" "k_marequests (set_entry entry f k) = k_marequests k"
  "k_timestamp (set_entry entry f k) = k_timestamp k" "k_hash (set_entry entry f k) = k_hash k"
  "is_addr (k_space (set_entry entry f k)) = k_addr k"
  "is_active (k_space (set_entry entry f k)) = is_active (k_space k)"
  "is_notify (k_space (set_entry entry f k)) = is_notify (k_space k)"
  using sframe_store [of "k_space k" entry f] by (simp_all add: set_entry_def sframe_def)

text \<open>Filing and unfiling.\<close>

lemma points_refiled:
  assumes pt: "points s g P n entry b obj r" and sl: "same_but_slots (is_table s) t'"
    and inv: "space_inv (s\<lparr>is_table := t', is_tree_hash := h\<rparr>) g' P'"
    and mp: "space_map (s\<lparr>is_table := t', is_tree_hash := h\<rparr>) P' = space_map s P"
  shows "points (s\<lparr>is_table := t', is_tree_hash := h\<rparr>) g' P' n entry b obj r"
proof -
  from pt obtain e where e: "entry_at entry s = Some e" "ie_bits e = b" "ie_object e = obj" "ie_request e = r"
    by (rule pointsE)
  have "\<exists>e'. entry_at entry (s\<lparr>is_table := t', is_tree_hash := h\<rparr>) = Some e' \<and> ie_bits e' = b \<and> ie_object e' = obj \<and>
      ie_request e' = r"
    using e same_but_slots_sel [OF sl] by (auto simp: entry_at_def split: ipc_entry_ref.splits if_splits)
  then show ?thesis using pt inv mp by (auto simp: points_def ref_of_def)
qed

lemma delete_points:
  assumes pt: "points (k_space k) (k_hash k) P n entry b obj r" and ty: "IE_BITS_TYPE b = MACH_PORT_TYPE_SEND"
    and n: "n \<notin> P"
  obtains s g where "hash_delete obj n entry k = Some (k\<lparr>k_space := s, k_hash := g\<rparr>)"
    and "points s g (insert n P) n entry b obj r" and "space_map s (insert n P) = space_map (k_space k) P"
    and "sframe (k_space k) s"
proof -
  note D = pointsD [OF pt]
  from ty have ty': "IE_BITS_TYPE (b AND IE_BITS_RIGHT_MASK) = MACH_PORT_TYPE_SEND" by simp
  from ipc_hash_delete_spec [OF D(1,2) ty' n] obtain t' h g' where
      *: "ipc_hash_delete obj n (ref_of (k_space k) n) (k_space k) (k_hash k) =
            Some ((k_space k)\<lparr>is_table := t', is_tree_hash := h\<rparr>, g')"
      "same_but_slots (is_table (k_space k)) t'"
      "space_inv ((k_space k)\<lparr>is_table := t', is_tree_hash := h\<rparr>) g' (insert n P)"
      "space_map ((k_space k)\<lparr>is_table := t', is_tree_hash := h\<rparr>) (insert n P) = space_map (k_space k) P" .
  from sframe_hash_delete [OF *(1)] *(1) points_refiled [OF pt *(2-4)] *(4) that D(3) show thesis
    by (simp add: hash_delete_def)
qed

lemma insert_points:
  assumes pt: "points (k_space k) (k_hash k) P n entry b obj r" and ty: "IE_BITS_TYPE b = MACH_PORT_TYPE_SEND"
    and n: "n \<in> P"
    and only: "\<And>m d q. space_map (k_space k) P m = Some (d, obj, q) \<Longrightarrow> m \<notin> P \<Longrightarrow> IE_BITS_TYPE d \<noteq> MACH_PORT_TYPE_SEND"
  obtains s g where "hash_insert obj n entry k = Some (k\<lparr>k_space := s, k_hash := g\<rparr>)"
    and "points s g (P - {n}) n entry b obj r" and "space_map s (P - {n}) = space_map (k_space k) P"
    and "sframe (k_space k) s"
proof -
  note D = pointsD [OF pt]
  from ty have ty': "IE_BITS_TYPE (b AND IE_BITS_RIGHT_MASK) = MACH_PORT_TYPE_SEND" by simp
  from ipc_hash_insert_spec [OF D(1,2) ty' n only] obtain t' h g' where
      *: "ipc_hash_insert obj n (ref_of (k_space k) n) (k_space k) (k_hash k) =
            Some ((k_space k)\<lparr>is_table := t', is_tree_hash := h\<rparr>, g')"
      "same_but_slots (is_table (k_space k)) t'"
      "space_inv ((k_space k)\<lparr>is_table := t', is_tree_hash := h\<rparr>) g' (P - {n})"
      "space_map ((k_space k)\<lparr>is_table := t', is_tree_hash := h\<rparr>) (P - {n}) = space_map (k_space k) P" .
  from sframe_hash_insert [OF *(1)] *(1) points_refiled [OF pt *(2-4)] *(4) that D(3) show thesis
    by (simp add: hash_insert_def)
qed

text \<open>Other rights are in no reverse table, so they can be put in flight freely.\<close>

lemma refile_points:
  assumes pt: "points s g P n entry b obj r" and ty: "IE_BITS_TYPE b \<noteq> 0" "IE_BITS_TYPE b \<noteq> MACH_PORT_TYPE_SEND"
    and r: "refiled n P P'"
  shows "points s g P' n entry b obj r" and "space_map s P' = space_map s P"
proof -
  note D = pointsD [OF pt]
  from ty have ty': "IE_BITS_TYPE (fst (b AND IE_BITS_RIGHT_MASK, obj, r)) \<noteq> 0"
    "IE_BITS_TYPE (fst (b AND IE_BITS_RIGHT_MASK, obj, r)) \<noteq> MACH_PORT_TYPE_SEND" by simp_all
  note R = refile_other [OF D(1,2) ty' r]
  from R(2) show "space_map s P' = space_map s P" .
  with R(1) pt show "points s g P' n entry b obj r" by (auto simp: points_def)
qed

text \<open>Deallocating an entry in flight.\<close>

lemma dealloc_points:
  assumes pt: "points (k_space k) (k_hash k) P n entry b IO_NULL r" and P: "n \<in> P" "\<forall>m\<in>P. idx m = idx n \<longrightarrow> m = n"
  obtains s g where "entry_dealloc n entry k = Some (k\<lparr>k_space := s, k_hash := g\<rparr>)"
    and "space_inv s g (P - {n})" and "space_map s (P - {n}) = (space_map (k_space k) P)(n := None)"
    and "sframe (k_space k) s"
proof -
  note D = pointsD [OF pt]
  from pt have "\<forall>e. entry_at entry (k_space k) = Some e \<longrightarrow> ie_object e = IO_NULL" by (auto simp: points_def)
  from ipc_entry_dealloc_spec [OF D(1) P D(3) [unfolded ref_of_def] this] obtain s g where
      *: "ipc_entry_dealloc n entry (k_space k, k_hash k) = Some (s, g)"
      "space_inv s g (P - {n})" "space_map s (P - {n}) = (space_map (k_space k) P)(n := None)" by metis
  from * sframe_dealloc [OF *(1)] that show thesis by (simp add: entry_dealloc_def)
qed

subsection \<open>Msg-accepted requests\<close>

lemma cancel_marequest:
  assumes "imar_ok (k_marequests k)" and "imar_find (k_marequests k) (k_addr k) n \<noteq> None"
  obtains t where "marequest_cancel n k = Some (k\<lparr>k_marequests := t\<rparr>)" and "imar_ok t"
    and "\<And>sp m. imar_find t sp m = (if sp = k_addr k \<and> m = n then None else imar_find (k_marequests k) sp m)"
proof -
  from assms(2) obtain a where "imar_find (k_marequests k) (k_addr k) n = Some a" by auto
  from ipc_marequest_cancel_spec [OF assms(1) this] that show thesis by (auto simp: marequest_cancel_def)
qed

end
