(* ===== verification/Ipc_Right_Account.thy ===== *)
theory Ipc_Right_Account
  imports Ipc_Right_Inv
begin

section \<open>Rights and references, counted\<close>

text \<open>
  The invariant that the assertions of \<open>ipc/ipc_right.c\<close> describe: what a capability may look like,
  and that every port counts its references, send rights and send-once rights exactly: those of the
  entries of the space and those held outside of it (in messages, by other spaces, by the caller).
\<close>

subsection \<open>Well-formed capabilities\<close>

fun right_ok :: "ipc_kernel \<Rightarrow> mach_port_t \<Rightarrow> capability \<Rightarrow> bool" where
  "right_ok k n (b, obj, r) \<longleftrightarrow>
     (IE_BITS_TYPE b \<in> {MACH_PORT_TYPE_SEND, MACH_PORT_TYPE_SEND_RECEIVE} \<and>
        0 < unat (IE_BITS_UREFS b) \<and> unat (IE_BITS_UREFS b) < 65535 \<or>
      IE_BITS_TYPE b = MACH_PORT_TYPE_SEND_ONCE \<and> IE_BITS_UREFS b = 1 \<or>
      IE_BITS_TYPE b \<in> {MACH_PORT_TYPE_RECEIVE, MACH_PORT_TYPE_PORT_SET} \<and> IE_BITS_UREFS b = 0 \<or>
      IE_BITS_TYPE b = MACH_PORT_TYPE_DEAD_NAME \<and> 0 < unat (IE_BITS_UREFS b) \<and> obj = IO_NULL) \<and>
     (IE_BITS_TYPE b \<in> {MACH_PORT_TYPE_PORT_SET, MACH_PORT_TYPE_DEAD_NAME} \<longrightarrow>
        r = 0 \<and> b AND IE_BITS_MAREQUEST = 0 \<and> b AND IE_BITS_COMPAT = 0) \<and>
     (b AND IE_BITS_MAREQUEST \<noteq> 0 \<longrightarrow>
        b AND MACH_PORT_TYPE_SEND_RECEIVE \<noteq> 0 \<and> imar_find (k_marequests k) (k_addr k) n \<noteq> None) \<and>
     (b AND IE_BITS_COMPAT \<noteq> 0 \<longrightarrow> r \<noteq> 0) \<and>
     (b AND MACH_PORT_TYPE_PORT_RIGHTS \<noteq> 0 \<longrightarrow>
        IO_VALID obj \<and>
        (\<exists>p. k_ports k obj = Some p \<and> requests_ok p \<and>
          (ip_active p \<and> r \<noteq> 0 \<longrightarrow> (\<exists>soright. requests p r = Some (n, soright))) \<and>
          (b AND MACH_PORT_TYPE_RECEIVE \<noteq> 0 \<longrightarrow>
             ip_active p \<and> ip_receiver_name p = n \<and> ip_receiver p = k_addr k)))"

declare right_ok.simps [simp del]

text \<open>What one operation on the entry \<open>n\<close> may do to the port, as far as other names can tell.\<close>

definition port_step :: "mach_port_t \<Rightarrow> ipc_port \<Rightarrow> ipc_port \<Rightarrow> bool" where
  "port_step n p p' \<longleftrightarrow>
     requests_ok p' \<and> (\<forall>r m so. m \<noteq> n \<longrightarrow> requests p r = Some (m, so) \<longrightarrow> requests p' r = Some (m, so)) \<and>
     (ip_active p' \<longleftrightarrow> ip_active p) \<and> ip_receiver_name p' = ip_receiver_name p \<and> ip_data p' = ip_data p"

lemma port_step_refl: "requests_ok p \<Longrightarrow> port_step n p p"
  by (simp add: port_step_def)

lemma requests_cong: "ip_dnrequests p = ip_dnrequests q \<Longrightarrow> requests p = requests q"
  by (simp add: requests_def)

lemma requests_ok_cong: "ip_dnrequests p = ip_dnrequests q \<Longrightarrow> requests_ok p = requests_ok q"
  by (simp add: requests_ok_def)

lemma port_step_fields:
  assumes "requests_ok p" and "ip_dnrequests p' = ip_dnrequests p" and "ip_bits p' = ip_bits p"
    and "ip_receiver_name p' = ip_receiver_name p" and "ip_data p' = ip_data p"
  shows "port_step n p p'"
  using assms requests_cong [of p' p] requests_ok_cong [of p' p] by (simp add: port_step_def)

lemma port_step_cancel:
  assumes "requests_ok p'" and "requests p' = (requests p)(r := None)" and "requests p r = Some (n, so)"
    and "ip_bits p' = ip_bits p" and "ip_receiver_name p' = ip_receiver_name p" and "ip_data p' = ip_data p"
  shows "port_step n p p'"
  using assms by (auto simp: port_step_def)

lemma right_ok_frame:
  assumes ok: "right_ok k m c" and m: "m \<noteq> n"
    and addr: "k_addr k' = k_addr k"
    and imar: "imar_find (k_marequests k') (k_addr k) m = imar_find (k_marequests k) (k_addr k) m"
    and ports: "\<And>a. a \<noteq> obj \<Longrightarrow> k_ports k' a = k_ports k a"
    and step: "fst c AND MACH_PORT_TYPE_PORT_RIGHTS \<noteq> 0 \<Longrightarrow> fst (snd c) = obj \<Longrightarrow>
      \<exists>p p'. k_ports k obj = Some p \<and> k_ports k' obj = Some p' \<and> port_step n p p'"
  shows "right_ok k' m c"
proof -
  obtain b a r where c: "c = (b, a, r)" by (cases c)
  have "\<exists>p. k_ports k' a = Some p \<and> requests_ok p \<and>
      (ip_active p \<and> r \<noteq> 0 \<longrightarrow> (\<exists>so. requests p r = Some (m, so))) \<and>
      (b AND MACH_PORT_TYPE_RECEIVE \<noteq> 0 \<longrightarrow> ip_active p \<and> ip_receiver_name p = m \<and> ip_receiver p = k_addr k')"
    if nz: "b AND MACH_PORT_TYPE_PORT_RIGHTS \<noteq> 0"
  proof -
    from ok nz obtain p where p: "k_ports k a = Some p" "requests_ok p"
        "ip_active p \<and> r \<noteq> 0 \<longrightarrow> (\<exists>so. requests p r = Some (m, so))"
        "b AND MACH_PORT_TYPE_RECEIVE \<noteq> 0 \<longrightarrow> ip_active p \<and> ip_receiver_name p = m \<and> ip_receiver p = k_addr k"
      unfolding c right_ok.simps by blast
    show ?thesis
    proof (cases "a = obj")
      case False
      with p ports addr show ?thesis by auto
    next
      case True
      with step nz p(1) obtain p' where "k_ports k' obj = Some p'" "port_step n p p'" by (auto simp: c)
      with p m True addr show ?thesis unfolding port_step_def by auto
    qed
  qed
  with ok show ?thesis unfolding c right_ok.simps addr imar by blast
qed

subsection \<open>Counting\<close>

definition holders :: "(capability \<Rightarrow> bool) \<Rightarrow> (mach_port_t \<Rightarrow> capability option) \<Rightarrow> nat" where
  "holders sel M = card {n. \<exists>c. M n = Some c \<and> sel c}"

fun one_if :: "(capability \<Rightarrow> bool) \<Rightarrow> capability option \<Rightarrow> nat" where
  "one_if sel None = 0"
| "one_if sel (Some c) = (if sel c then 1 else 0)"

lemma card_remove_point: "card S = card (S - {n}) + (if n \<in> S then 1 else 0)" for S :: "mach_port_t set"
  using card_Suc_Diff1 [of S n] by (cases "n \<in> S") simp_all

lemma holders_upd: "holders sel (M(n := c)) + one_if sel (M n) = holders sel M + one_if sel c"
proof -
  let ?S = "{m. \<exists>c. M m = Some c \<and> sel c}" and ?T = "{m. \<exists>d. (M(n := c)) m = Some d \<and> sel d}"
  have "?S - {n} = ?T - {n}" by auto
  then have "card (?S - {n}) = card (?T - {n})" by simp
  moreover have "card ?S = card (?S - {n}) + one_if sel (M n)"
    unfolding card_remove_point [of ?S n] by (cases "M n") (simp_all del: split_paired_Ex)
  moreover have "card ?T = card (?T - {n}) + one_if sel c"
    unfolding card_remove_point [of ?T n] by (cases c) (simp_all del: split_paired_Ex)
  ultimately show ?thesis by (simp add: holders_def)
qed

lemma holders_zero: "holders sel M = 0 \<Longrightarrow> M n = Some c \<Longrightarrow> \<not> sel c"
  by (cases c) (auto simp: holders_def)

fun has_ref :: "addr \<Rightarrow> capability \<Rightarrow> bool" where
  "has_ref a (b, obj, r) \<longleftrightarrow> obj = a \<and> b AND MACH_PORT_TYPE_PORT_RIGHTS \<noteq> 0"

fun has_send :: "addr \<Rightarrow> capability \<Rightarrow> bool" where
  "has_send a (b, obj, r) \<longleftrightarrow> obj = a \<and> b AND MACH_PORT_TYPE_SEND \<noteq> 0"

fun has_sonce :: "addr \<Rightarrow> capability \<Rightarrow> bool" where
  "has_sonce a (b, obj, r) \<longleftrightarrow> obj = a \<and> b AND MACH_PORT_TYPE_SEND_ONCE \<noteq> 0"

fun has_receive :: "addr \<Rightarrow> capability \<Rightarrow> bool" where
  "has_receive a (b, obj, r) \<longleftrightarrow> obj = a \<and> b AND MACH_PORT_TYPE_RECEIVE \<noteq> 0"

lemma has_ref_of: "has_send a c \<Longrightarrow> has_ref a c" "has_sonce a c \<Longrightarrow> has_ref a c" "has_receive a c \<Longrightarrow> has_ref a c"
proof -
  have "b AND MACH_PORT_TYPE_PORT_RIGHTS \<noteq> 0"
    if "b AND MACH_PORT_TYPE_SEND \<noteq> 0 \<or> b AND MACH_PORT_TYPE_SEND_ONCE \<noteq> 0 \<or> b AND MACH_PORT_TYPE_RECEIVE \<noteq> 0" for b
    using that by (auto simp: MACH_PORT_TYPE_PORT_RIGHTS_def MACH_PORT_TYPE_SEND_RIGHTS_def bit.conj_disj_distrib or_eq_0_iff)
  then show "has_send a c \<Longrightarrow> has_ref a c" "has_sonce a c \<Longrightarrow> has_ref a c" "has_receive a c \<Longrightarrow> has_ref a c" by (cases c; auto)+
qed

text \<open>What the rest of the system holds.\<close>

record outside =
  o_refs :: "addr \<Rightarrow> nat"
  o_sends :: "addr \<Rightarrow> nat"
  o_sonces :: "addr \<Rightarrow> nat"
  o_receives :: "addr \<Rightarrow> nat"

definition port_counts :: "nat \<Rightarrow> nat \<Rightarrow> nat \<Rightarrow> nat \<Rightarrow> ipc_port option \<Rightarrow> bool" where
  "port_counts refs sends sonces receives = (\<lambda>port. case port of
       None \<Rightarrow> refs = 0
     | Some p \<Rightarrow> unat (ip_references p) = refs \<and> 0 < refs \<and>
         (ip_active p \<longrightarrow> unat (ip_srights p) = sends \<and> unat (ip_sorights p) = sonces \<and> receives = 1))"

definition accounts :: "(mach_port_t \<Rightarrow> capability option) \<Rightarrow> outside \<Rightarrow> (addr \<Rightarrow> ipc_port option) \<Rightarrow> bool" where
  "accounts M x ports \<longleftrightarrow>
     (\<forall>a. port_counts (holders (has_ref a) M + o_refs x a) (holders (has_send a) M + o_sends x a)
            (holders (has_sonce a) M + o_sonces x a) (holders (has_receive a) M + o_receives x a) (ports a) \<and>
          o_receives x a \<le> o_refs x a)"

definition same_outside :: "addr \<Rightarrow> outside \<Rightarrow> outside \<Rightarrow> bool" where
  "same_outside obj x x' \<longleftrightarrow>
     (\<forall>a. a \<noteq> obj \<longrightarrow> o_refs x' a = o_refs x a \<and> o_sends x' a = o_sends x a \<and> o_sonces x' a = o_sonces x a \<and>
        o_receives x' a = o_receives x a)"

lemma same_outside_refl [simp]: "same_outside obj x x" by (simp add: same_outside_def)

text \<open>The balance at one port, when one name changes from \<open>c\<close> to \<open>c'\<close>.\<close>

definition balanced :: "addr \<Rightarrow> capability option \<Rightarrow> capability option \<Rightarrow> outside \<Rightarrow> outside \<Rightarrow> ipc_port \<Rightarrow> ipc_port option \<Rightarrow> bool"
  where
  "balanced obj c c' x x' p p' \<longleftrightarrow> o_receives x' obj \<le> o_refs x' obj \<and>
     (case p' of
        None \<Rightarrow> unat (ip_references p) + one_if (has_ref obj) c' + o_refs x' obj = one_if (has_ref obj) c + o_refs x obj
      | Some q \<Rightarrow> 0 < unat (ip_references q) \<and>
          unat (ip_references q) + one_if (has_ref obj) c + o_refs x obj =
            unat (ip_references p) + one_if (has_ref obj) c' + o_refs x' obj \<and>
          (ip_active q \<longrightarrow> ip_active p \<and>
             unat (ip_srights q) + one_if (has_send obj) c + o_sends x obj =
               unat (ip_srights p) + one_if (has_send obj) c' + o_sends x' obj \<and>
             unat (ip_sorights q) + one_if (has_sonce obj) c + o_sonces x obj =
               unat (ip_sorights p) + one_if (has_sonce obj) c' + o_sonces x' obj \<and>
             one_if (has_receive obj) c + o_receives x obj = one_if (has_receive obj) c' + o_receives x' obj))"

definition only_at :: "addr \<Rightarrow> capability option \<Rightarrow> bool" where
  "only_at obj c \<longleftrightarrow> (\<forall>a. a \<noteq> obj \<longrightarrow> one_if (has_ref a) c = 0)"

lemma only_at_sel:
  assumes "only_at obj c" and "a \<noteq> obj"
  shows "one_if (has_ref a) c = 0" "one_if (has_send a) c = 0" "one_if (has_sonce a) c = 0" "one_if (has_receive a) c = 0"
  using assms has_ref_of [of a] by (cases c; auto simp: only_at_def split: if_splits)+

lemma accounts_upd:
  assumes acc: "accounts M x ports" and p: "ports obj = Some p"
    and at: "only_at obj (M n)" "only_at obj c'" and x: "same_outside obj x x'"
    and bal: "balanced obj (M n) c' x x' p p'"
  shows "accounts (M(n := c')) x' (ports(obj := p'))"
  unfolding accounts_def
proof
  fix a
  note H = holders_upd [of "has_ref a" M n c'] holders_upd [of "has_send a" M n c'] holders_upd [of "has_sonce a" M n c']
    holders_upd [of "has_receive a" M n c']
  from acc have A: "port_counts (holders (has_ref a) M + o_refs x a) (holders (has_send a) M + o_sends x a)
      (holders (has_sonce a) M + o_sonces x a) (holders (has_receive a) M + o_receives x a) (ports a) \<and>
      o_receives x a \<le> o_refs x a" by (simp add: accounts_def)
  show "port_counts (holders (has_ref a) (M(n := c')) + o_refs x' a) (holders (has_send a) (M(n := c')) + o_sends x' a)
      (holders (has_sonce a) (M(n := c')) + o_sonces x' a) (holders (has_receive a) (M(n := c')) + o_receives x' a)
      ((ports(obj := p')) a) \<and> o_receives x' a \<le> o_refs x' a"
  proof (cases "a = obj")
    case False
    with only_at_sel [OF at(1) False] only_at_sel [OF at(2) False] H A x show ?thesis
      by (simp add: same_outside_def)
  next
    case True
    show ?thesis
    proof (cases p')
      case None
      with True H A p bal show ?thesis by (simp add: port_counts_def balanced_def)
    next
      case (Some q)
      with True H A p bal show ?thesis by (auto simp: port_counts_def balanced_def)
    qed
  qed
qed

lemma accounts_other:
  assumes acc: "accounts M x ports" and none: "\<And>a. one_if (has_ref a) (M n) = 0" "\<And>a. one_if (has_ref a) c' = 0"
  shows "accounts (M(n := c')) x ports"
proof -
  have z: "one_if (has_send a) d = 0" "one_if (has_sonce a) d = 0" "one_if (has_receive a) d = 0" if "one_if (has_ref a) d = 0" for a d
    using that has_ref_of [of a] by (cases d; auto split: if_splits)+
  have "holders (has_ref a) (M(n := c')) = holders (has_ref a) M"
    "holders (has_send a) (M(n := c')) = holders (has_send a) M"
    "holders (has_sonce a) (M(n := c')) = holders (has_sonce a) M"
    "holders (has_receive a) (M(n := c')) = holders (has_receive a) M" for a
    using holders_upd [of "has_ref a" M n c'] holders_upd [of "has_send a" M n c'] holders_upd [of "has_sonce a" M n c']
      holders_upd [of "has_receive a" M n c'] none [of a] z [OF none(1) [of a]] z [OF none(2) [of a]] by simp_all
  with acc show ?thesis by (simp add: accounts_def)
qed

subsection \<open>The invariant\<close>

abbreviation caps :: "ipc_kernel \<Rightarrow> mach_port_t set \<Rightarrow> mach_port_t \<Rightarrow> capability option" where
  "caps k P \<equiv> space_map (k_space k) P"

definition rights_inv :: "mach_port_t set \<Rightarrow> outside \<Rightarrow> ipc_kernel \<Rightarrow> bool" where
  "rights_inv P x k \<longleftrightarrow>
     space_inv (k_space k) (k_hash k) P \<and> imar_ok (k_marequests k) \<and>
     (\<forall>n c. caps k P n = Some c \<longrightarrow> (if n \<in> P then IE_BITS_TYPE (fst c) = 0 else right_ok k n c)) \<and>
     accounts (caps k P) x (k_ports k)"

lemma rights_invD:
  assumes "rights_inv P x k"
  shows "space_inv (k_space k) (k_hash k) P" "imar_ok (k_marequests k)" "accounts (caps k P) x (k_ports k)"
    and "\<And>n c. caps k P n = Some c \<Longrightarrow> n \<notin> P \<Longrightarrow> right_ok k n c"
    and "\<And>n c. caps k P n = Some c \<Longrightarrow> n \<in> P \<Longrightarrow> IE_BITS_TYPE (fst c) = 0"
  using assms unfolding rights_inv_def by metis+

lemma no_type_no_ref: "IE_BITS_TYPE b = 0 \<Longrightarrow> \<not> has_ref a (b, obj, r)"
  using type_flag(8) [of b] by simp

text \<open>The entry of a name with a right, and what is known about it.\<close>

lemma rights_entry:
  assumes "rights_inv P x k" and "caps k P n = Some (c, obj, r)"
  obtains b where "points (k_space k) (k_hash k) P n (ref_of (k_space k) n) b obj r"
    and "c = b AND IE_BITS_RIGHT_MASK"
  using points_exists [OF rights_invD(1) [OF assms(1)] assms(2)] that by blast

text \<open>
  One name changes, and at most one port with it.
\<close>

lemma rights_inv_upd:
  assumes inv: "rights_inv P x k" and obj: "k_ports k obj = Some p"
    and s': "space_inv (k_space k') (k_hash k') P'" and m': "caps k' P' = (caps k P)(n := c')"
    and P': "P' - {n} = P - {n}" and addr: "k_addr k' = k_addr k"
    and imar: "imar_ok (k_marequests k')"
      "\<And>m. m \<noteq> n \<Longrightarrow> imar_find (k_marequests k') (k_addr k) m = imar_find (k_marequests k) (k_addr k) m"
    and ports: "k_ports k' = (k_ports k)(obj := p')" and step: "\<And>q. p' = Some q \<Longrightarrow> port_step n p q"
    and at: "only_at obj (caps k P n)" "only_at obj c'" and x: "same_outside obj x x'"
    and bal: "balanced obj (caps k P n) c' x x' p p'"
    and new: "\<And>c. c' = Some c \<Longrightarrow> if n \<in> P' then IE_BITS_TYPE (fst c) = 0 else right_ok k' n c"
  shows "rights_inv P' x' k'"
  unfolding rights_inv_def
proof (intro conjI allI impI)
  note I = rights_invD [OF inv]
  show acc: "accounts (caps k' P') x' (k_ports k')"
    unfolding m' ports by (rule accounts_upd [OF I(3) obj at x bal])
  show "space_inv (k_space k') (k_hash k') P'" "imar_ok (k_marequests k')" by (fact s' imar(1))+
  fix m c assume c: "caps k' P' m = Some c"
  show "if m \<in> P' then IE_BITS_TYPE (fst c) = 0 else right_ok k' m c"
  proof (cases "m = n")
    case True
    with c m' new show ?thesis by auto
  next
    case False
    with c m' have old: "caps k P m = Some c" by simp
    have P: "m \<in> P' \<longleftrightarrow> m \<in> P" using False P' by blast
    show ?thesis
    proof (cases "m \<in> P")
      case True
      with P I(5) [OF old] show ?thesis by simp
    next
      case out: False
      have "right_ok k' m c"
      proof (rule right_ok_frame [where obj = obj, OF I(4) [OF old out] False addr imar(2) [OF False]])
        show "k_ports k' a = k_ports k a" if "a \<noteq> obj" for a using that ports by simp
        assume "fst c AND MACH_PORT_TYPE_PORT_RIGHTS \<noteq> 0" "fst (snd c) = obj"
        then have "has_ref obj c" by (cases c) auto
        then have "holders (has_ref obj) (caps k' P') \<noteq> 0" using holders_zero c by blast
        then obtain q where "p' = Some q"
          using acc ports unfolding accounts_def port_counts_def by (cases p') (auto dest: spec [of _ obj])
        then show "\<exists>p p'. k_ports k obj = Some p \<and> k_ports k' obj = Some p' \<and> port_step n p p'"
          using obj ports step by auto
      qed
      with P out show ?thesis by simp
    qed
  qed
qed

lemma rights_inv_other:
  assumes inv: "rights_inv P x k"
    and s': "space_inv (k_space k') (k_hash k') P'" and m': "caps k' P' = (caps k P)(n := c')"
    and P': "P' - {n} = P - {n}" and addr: "k_addr k' = k_addr k"
    and imar: "k_marequests k' = k_marequests k" and ports: "k_ports k' = k_ports k"
    and none: "\<And>a. one_if (has_ref a) (caps k P n) = 0" "\<And>a. one_if (has_ref a) c' = 0"
    and new: "\<And>c. c' = Some c \<Longrightarrow> if n \<in> P' then IE_BITS_TYPE (fst c) = 0 else right_ok k' n c"
  shows "rights_inv P' x k'"
  unfolding rights_inv_def
proof (intro conjI allI impI)
  note I = rights_invD [OF inv]
  show "accounts (caps k' P') x (k_ports k')"
    unfolding m' ports by (rule accounts_other [OF I(3) none])
  show "space_inv (k_space k') (k_hash k') P'" by (fact s')
  show "imar_ok (k_marequests k')" using I(2) imar by simp
  fix m c assume c: "caps k' P' m = Some c"
  have cong: "right_ok k' m c = right_ok k m c" by (cases c) (simp add: right_ok.simps addr imar ports)
  show "if m \<in> P' then IE_BITS_TYPE (fst c) = 0 else right_ok k' m c"
  proof (cases "m = n")
    case True
    with c m' new show ?thesis by auto
  next
    case False
    with c m' have "caps k P m = Some c" by simp
    moreover have "m \<in> P' \<longleftrightarrow> m \<in> P" using False P' by blast
    ultimately show ?thesis using I(4,5) cong by auto
  qed
qed

end
