(* ===== verification/Ipc_Right_Check.thy ===== *)
theory Ipc_Right_Check
  imports Ipc_Right_Account
begin

section \<open>Rights whose port has died\<close>

text \<open>
  What \<open>ipc_right_check\<close> does to the map of capabilities and to the counts of the ports, and the
  facts about right bits that all operations share.
\<close>

subsection \<open>The types of rights\<close>

lemma type_cases:
  assumes "right_ok k n (c, obj, r)" and "c = b AND IE_BITS_RIGHT_MASK"
  obtains
    (send) "IE_BITS_TYPE b = MACH_PORT_TYPE_SEND" "0 < unat (IE_BITS_UREFS b)" "unat (IE_BITS_UREFS b) < 65535"
  | (receive) "IE_BITS_TYPE b = MACH_PORT_TYPE_RECEIVE" "IE_BITS_UREFS b = 0"
  | (send_receive) "IE_BITS_TYPE b = MACH_PORT_TYPE_SEND_RECEIVE" "0 < unat (IE_BITS_UREFS b)" "unat (IE_BITS_UREFS b) < 65535"
  | (send_once) "IE_BITS_TYPE b = MACH_PORT_TYPE_SEND_ONCE" "IE_BITS_UREFS b = 1"
  | (port_set) "IE_BITS_TYPE b = MACH_PORT_TYPE_PORT_SET" "IE_BITS_UREFS b = 0"
  | (dead_name) "IE_BITS_TYPE b = MACH_PORT_TYPE_DEAD_NAME" "0 < unat (IE_BITS_UREFS b)" "obj = IO_NULL"
  using assms unfolding right_ok.simps by auto

lemma type_consts:
  "MACH_PORT_TYPE_SEND = 0x10000" "MACH_PORT_TYPE_RECEIVE = 0x20000" "MACH_PORT_TYPE_SEND_ONCE = 0x40000"
  "MACH_PORT_TYPE_PORT_SET = 0x80000" "MACH_PORT_TYPE_DEAD_NAME = 0x100000" "MACH_PORT_TYPE_SEND_RECEIVE = 0x30000"
  "MACH_PORT_TYPE_SEND_RIGHTS = 0x50000" "MACH_PORT_TYPE_PORT_RIGHTS = 0x70000" "MACH_PORT_TYPE_PORT_OR_DEAD = 0x170000"
  by (simp_all add: type_defs)

text \<open>The flags of each type.\<close>

lemma send_flags:
  assumes "IE_BITS_TYPE b = MACH_PORT_TYPE_SEND"
  shows "b AND MACH_PORT_TYPE_SEND \<noteq> 0" "b AND MACH_PORT_TYPE_RECEIVE = 0" "b AND MACH_PORT_TYPE_SEND_ONCE = 0"
    "b AND MACH_PORT_TYPE_PORT_SET = 0" "b AND MACH_PORT_TYPE_DEAD_NAME = 0" "b AND MACH_PORT_TYPE_SEND_RECEIVE \<noteq> 0"
    "b AND MACH_PORT_TYPE_SEND_RIGHTS \<noteq> 0" "b AND MACH_PORT_TYPE_PORT_RIGHTS \<noteq> 0" "b AND MACH_PORT_TYPE_PORT_OR_DEAD \<noteq> 0"
  using flags_of_type [OF assms] by (simp_all add: type_consts)

lemma receive_flags:
  assumes "IE_BITS_TYPE b = MACH_PORT_TYPE_RECEIVE"
  shows "b AND MACH_PORT_TYPE_SEND = 0" "b AND MACH_PORT_TYPE_RECEIVE \<noteq> 0" "b AND MACH_PORT_TYPE_SEND_ONCE = 0"
    "b AND MACH_PORT_TYPE_PORT_SET = 0" "b AND MACH_PORT_TYPE_DEAD_NAME = 0" "b AND MACH_PORT_TYPE_SEND_RECEIVE \<noteq> 0"
    "b AND MACH_PORT_TYPE_SEND_RIGHTS = 0" "b AND MACH_PORT_TYPE_PORT_RIGHTS \<noteq> 0" "b AND MACH_PORT_TYPE_PORT_OR_DEAD \<noteq> 0"
  using flags_of_type [OF assms] by (simp_all add: type_consts)

lemma send_receive_flags:
  assumes "IE_BITS_TYPE b = MACH_PORT_TYPE_SEND_RECEIVE"
  shows "b AND MACH_PORT_TYPE_SEND \<noteq> 0" "b AND MACH_PORT_TYPE_RECEIVE \<noteq> 0" "b AND MACH_PORT_TYPE_SEND_ONCE = 0"
    "b AND MACH_PORT_TYPE_PORT_SET = 0" "b AND MACH_PORT_TYPE_DEAD_NAME = 0" "b AND MACH_PORT_TYPE_SEND_RECEIVE \<noteq> 0"
    "b AND MACH_PORT_TYPE_SEND_RIGHTS \<noteq> 0" "b AND MACH_PORT_TYPE_PORT_RIGHTS \<noteq> 0" "b AND MACH_PORT_TYPE_PORT_OR_DEAD \<noteq> 0"
  using flags_of_type [OF assms] by (simp_all add: type_consts)

lemma send_once_flags:
  assumes "IE_BITS_TYPE b = MACH_PORT_TYPE_SEND_ONCE"
  shows "b AND MACH_PORT_TYPE_SEND = 0" "b AND MACH_PORT_TYPE_RECEIVE = 0" "b AND MACH_PORT_TYPE_SEND_ONCE \<noteq> 0"
    "b AND MACH_PORT_TYPE_PORT_SET = 0" "b AND MACH_PORT_TYPE_DEAD_NAME = 0" "b AND MACH_PORT_TYPE_SEND_RECEIVE = 0"
    "b AND MACH_PORT_TYPE_SEND_RIGHTS \<noteq> 0" "b AND MACH_PORT_TYPE_PORT_RIGHTS \<noteq> 0" "b AND MACH_PORT_TYPE_PORT_OR_DEAD \<noteq> 0"
  using flags_of_type [OF assms] by (simp_all add: type_consts)

lemma port_set_flags:
  assumes "IE_BITS_TYPE b = MACH_PORT_TYPE_PORT_SET"
  shows "b AND MACH_PORT_TYPE_SEND = 0" "b AND MACH_PORT_TYPE_RECEIVE = 0" "b AND MACH_PORT_TYPE_SEND_ONCE = 0"
    "b AND MACH_PORT_TYPE_PORT_SET \<noteq> 0" "b AND MACH_PORT_TYPE_DEAD_NAME = 0" "b AND MACH_PORT_TYPE_SEND_RECEIVE = 0"
    "b AND MACH_PORT_TYPE_SEND_RIGHTS = 0" "b AND MACH_PORT_TYPE_PORT_RIGHTS = 0" "b AND MACH_PORT_TYPE_PORT_OR_DEAD = 0"
  using flags_of_type [OF assms] by (simp_all add: type_consts)

lemma dead_name_flags:
  assumes "IE_BITS_TYPE b = MACH_PORT_TYPE_DEAD_NAME"
  shows "b AND MACH_PORT_TYPE_SEND = 0" "b AND MACH_PORT_TYPE_RECEIVE = 0" "b AND MACH_PORT_TYPE_SEND_ONCE = 0"
    "b AND MACH_PORT_TYPE_PORT_SET = 0" "b AND MACH_PORT_TYPE_DEAD_NAME \<noteq> 0" "b AND MACH_PORT_TYPE_SEND_RECEIVE = 0"
    "b AND MACH_PORT_TYPE_SEND_RIGHTS = 0" "b AND MACH_PORT_TYPE_PORT_RIGHTS = 0" "b AND MACH_PORT_TYPE_PORT_OR_DEAD \<noteq> 0"
  using flags_of_type [OF assms] by (simp_all add: type_consts)

lemma none_flags:
  assumes "IE_BITS_TYPE b = 0"
  shows "b AND MACH_PORT_TYPE_SEND = 0" "b AND MACH_PORT_TYPE_RECEIVE = 0" "b AND MACH_PORT_TYPE_SEND_ONCE = 0"
    "b AND MACH_PORT_TYPE_DEAD_NAME = 0" "b AND MACH_PORT_TYPE_SEND_RIGHTS = 0" "b AND MACH_PORT_TYPE_PORT_RIGHTS = 0"
  using flags_of_type [OF assms] by (simp_all add: type_consts)

text \<open>What the invariant says about a port right.\<close>

lemma right_port:
  assumes "right_ok k n (c, obj, r)" and "c AND MACH_PORT_TYPE_PORT_RIGHTS \<noteq> 0"
  obtains p where "k_ports k obj = Some p" "requests_ok p" "IO_VALID obj"
    "ip_active p \<Longrightarrow> r \<noteq> 0 \<Longrightarrow> \<exists>soright. requests p r = Some (n, soright)"
    "c AND MACH_PORT_TYPE_RECEIVE \<noteq> 0 \<Longrightarrow> ip_active p \<and> ip_receiver_name p = n \<and> ip_receiver p = k_addr k"
  using assms unfolding right_ok.simps by blast

subsection \<open>Releasing a reference\<close>

definition released :: "ipc_port \<Rightarrow> ipc_port option" where
  "released p = (if ip_references p = 1 then None else Some (ip_release p))"

lemma release_eq:
  assumes "k_ports k a = Some p"
  shows "ipc_object_release a k = Some (k\<lparr>k_ports := (k_ports k)(a := released p)\<rparr>)"
  using assms by (simp add: ipc_object_release_def ip_check_unlock_def released_def put_port_def) (simp add: ip_release_def)

lemma ip_release_sel [simp]:
  "ip_references (ip_release p) = ip_references p - 1" "ip_bits (ip_release p) = ip_bits p"
  "ip_srights (ip_release p) = ip_srights p" "ip_sorights (ip_release p) = ip_sorights p"
  "ip_dnrequests (ip_release p) = ip_dnrequests p" "ip_receiver_name (ip_release p) = ip_receiver_name p"
  "ip_data (ip_release p) = ip_data p"
  by (simp_all add: ip_release_def)

lemma ip_reference_sel [simp]:
  "ip_references (ip_reference p) = ip_references p + 1" "ip_bits (ip_reference p) = ip_bits p"
  "ip_srights (ip_reference p) = ip_srights p" "ip_sorights (ip_reference p) = ip_sorights p"
  "ip_dnrequests (ip_reference p) = ip_dnrequests p" "ip_receiver_name (ip_reference p) = ip_receiver_name p"
  "ip_data (ip_reference p) = ip_data p"
  by (simp_all add: ip_reference_def)

lemma released_step: "requests_ok p \<Longrightarrow> released p = Some q \<Longrightarrow> port_step n p q"
  by (auto simp: released_def split: if_splits intro!: port_step_fields)

text \<open>A dead port gives up the reference of a name.\<close>

lemma released_balanced:
  assumes "one_if (has_ref obj) c = Suc (one_if (has_ref obj) c')" and "\<not> ip_active p"
    and "ip_references p \<noteq> 0" and "o_receives x obj \<le> o_refs x obj"
  shows "balanced obj c c' x x p (released p)"
proof -
  have "unat (ip_references p) \<noteq> 0" using assms(3) by (simp add: unat_eq_0)
  moreover have "ip_references p \<noteq> 1 \<Longrightarrow> unat (ip_references p - 1) = unat (ip_references p) - 1 \<and> unat (ip_references p) \<noteq> 1"
    using assms(3) by (simp add: unat_minus_one word_unat_eq_iff [of "ip_references p" 1])
  ultimately show ?thesis using assms by (auto simp: balanced_def released_def)
qed

lemma counted:
  assumes "rights_inv P x k" and "k_ports k a = Some p"
  shows "unat (ip_references p) = holders (has_ref a) (caps k P) + o_refs x a" and "ip_references p \<noteq> 0"
    and "ip_active p \<Longrightarrow> unat (ip_srights p) = holders (has_send a) (caps k P) + o_sends x a"
    and "ip_active p \<Longrightarrow> unat (ip_sorights p) = holders (has_sonce a) (caps k P) + o_sonces x a"
    and "ip_active p \<Longrightarrow> holders (has_receive a) (caps k P) + o_receives x a = 1"
proof -
  from rights_invD(3) [OF assms(1)] have "port_counts (holders (has_ref a) (caps k P) + o_refs x a)
      (holders (has_send a) (caps k P) + o_sends x a) (holders (has_sonce a) (caps k P) + o_sonces x a)
      (holders (has_receive a) (caps k P) + o_receives x a) (Some p)"
    unfolding accounts_def assms(2) [symmetric] by blast
  then show "unat (ip_references p) = holders (has_ref a) (caps k P) + o_refs x a" and "ip_references p \<noteq> 0"
    and "ip_active p \<Longrightarrow> unat (ip_srights p) = holders (has_send a) (caps k P) + o_sends x a"
    and "ip_active p \<Longrightarrow> unat (ip_sorights p) = holders (has_sonce a) (caps k P) + o_sonces x a"
    and "ip_active p \<Longrightarrow> holders (has_receive a) (caps k P) + o_receives x a = 1"
    unfolding port_counts_def by auto
qed

lemma counted_outside: "rights_inv P x k \<Longrightarrow> o_receives x a \<le> o_refs x a"
  by (simp add: rights_inv_def accounts_def)

lemma holders_pos:
  assumes "M n = Some c" and "sel c"
  shows "0 < holders sel M"
  using holders_zero [of sel M n c] assms by blast

text \<open>The receive right of an active port has a reference of its own.\<close>

lemma receive_reference:
  assumes inv: "rights_inv P x k" and p: "k_ports k a = Some p" "ip_active p"
    and c: "caps k P n = Some c" "has_ref a c" "\<not> has_receive a c"
  shows "1 < unat (ip_references p)"
proof (cases "o_receives x a = 0")
  case False
  then have "0 < o_refs x a" using counted_outside [OF inv, of a] by simp
  moreover have "0 < holders (has_ref a) (caps k P)" using holders_pos [of "caps k P" n c "has_ref a"] c(1,2) by simp
  ultimately show ?thesis using counted(1) [OF inv p(1)] by simp
next
  case True
  with counted(5) [OF inv p] have "{m. \<exists>c. caps k P m = Some c \<and> has_receive a c} \<noteq> {}"
    unfolding holders_def by (metis add.right_neutral card.empty zero_neq_one)
  then obtain m d where m: "caps k P m = Some d" "has_receive a d" by blast
  with c have "m \<noteq> n" by auto
  moreover have "{m, n} \<subseteq> {m. \<exists>c. caps k P m = Some c \<and> has_ref a c}" using m c has_ref_of(3) [of a d] by blast
  ultimately have "2 \<le> holders (has_ref a) (caps k P)"
    unfolding holders_def using card_mono [of "{m. \<exists>c. caps k P m = Some c \<and> has_ref a c}" "{m, n}"] by simp
  then show ?thesis using counted(1) [OF inv p(1)] by simp
qed

subsection \<open>The dead name a right turns into\<close>

definition dead_bits :: "u32 \<Rightarrow> nat \<Rightarrow> u32" where
  "dead_bits b r =
     (let b = (b AND NOT IE_BITS_MAREQUEST) AND NOT IE_BITS_TYPE_MASK OR MACH_PORT_TYPE_DEAD_NAME
      in if r \<noteq> 0 then b + 1 else b)"

definition dead_cap :: "u32 \<Rightarrow> nat \<Rightarrow> capability option" where
  "dead_cap b r =
     (if b AND IE_BITS_COMPAT \<noteq> 0 then None else Some (dead_bits b r AND IE_BITS_RIGHT_MASK, IO_NULL, 0))"

lemma dead_base:
  fixes b :: u32
  defines "d \<equiv> (b AND NOT IE_BITS_MAREQUEST) AND NOT IE_BITS_TYPE_MASK OR MACH_PORT_TYPE_DEAD_NAME"
  shows "IE_BITS_TYPE d = MACH_PORT_TYPE_DEAD_NAME" "IE_BITS_UREFS d = IE_BITS_UREFS b" "same_entry b d"
    "d AND IE_BITS_MAREQUEST = 0" "d AND IE_BITS_COMPAT = b AND IE_BITS_COMPAT"
  unfolding d_def IE_BITS_TYPE_def IE_BITS_UREFS_def
  by (auto intro!: bit_word_eqI simp: MACH_PORT_TYPE_DEAD_NAME_def bits_simps bit_and_iff bit_or_iff bit_not_iff)

lemma unat_add_le: "unat (x + d) \<le> unat x + unat d" for x d :: u32
  by (simp add: unat_word_ariths)

lemma dead_bits_sel:
  assumes "unat (IE_BITS_UREFS b) < 65535"
  shows "IE_BITS_TYPE (dead_bits b r) = MACH_PORT_TYPE_DEAD_NAME"
    and "IE_BITS_UREFS (dead_bits b r) = (if r \<noteq> 0 then IE_BITS_UREFS b + 1 else IE_BITS_UREFS b)"
    and "same_entry b (dead_bits b r)"
    and "dead_bits b r AND IE_BITS_MAREQUEST = 0" and "dead_bits b r AND IE_BITS_COMPAT = b AND IE_BITS_COMPAT"
proof -
  let ?d = "(b AND NOT IE_BITS_MAREQUEST) AND NOT IE_BITS_TYPE_MASK OR MACH_PORT_TYPE_DEAD_NAME"
  note D = dead_base [of b]
  have u: "unat (IE_BITS_UREFS ?d + 1) < 65536"
    using assms unat_add_le [of "IE_BITS_UREFS b" 1] unfolding D(2) by simp
  show "IE_BITS_TYPE (dead_bits b r) = MACH_PORT_TYPE_DEAD_NAME"
    "IE_BITS_UREFS (dead_bits b r) = (if r \<noteq> 0 then IE_BITS_UREFS b + 1 else IE_BITS_UREFS b)"
    "same_entry b (dead_bits b r)" "dead_bits b r AND IE_BITS_MAREQUEST = 0"
    "dead_bits b r AND IE_BITS_COMPAT = b AND IE_BITS_COMPAT"
    unfolding dead_bits_def Let_def using D urefs_add [OF u] urefs_add_bits [OF u] by auto
qed

lemma dead_right_ok:
  assumes "unat (IE_BITS_UREFS b) < 65535" and "0 < unat (IE_BITS_UREFS b)" and "b AND IE_BITS_COMPAT = 0"
  shows "right_ok k n (dead_bits b r AND IE_BITS_RIGHT_MASK, IO_NULL, 0)"
proof -
  note D = dead_bits_sel [OF assms(1), of r]
  have "unat (IE_BITS_UREFS b + 1) = unat (IE_BITS_UREFS b) + 1"
    using assms(1) by (simp add: unat_word_ariths)
  then have "0 < unat (IE_BITS_UREFS (dead_bits b r))" using assms(2) unfolding D(2) by simp
  then show ?thesis
    unfolding right_ok.simps using D assms(3) dead_name_flags [OF D(1)] by simp
qed

subsection \<open>Canceling the msg-accepted request of an entry\<close>

lemma maybe_cancel:
  assumes "rights_inv P x k" and "right_ok k n (b AND IE_BITS_RIGHT_MASK, obj, r)"
  obtains t where "b AND IE_BITS_MAREQUEST \<noteq> 0 \<longrightarrow> marequest_cancel n k = Some (k\<lparr>k_marequests := t\<rparr>)"
    and "b AND IE_BITS_MAREQUEST = 0 \<longrightarrow> t = k_marequests k" and "imar_ok t"
    and "\<forall>sp m. m \<noteq> n \<longrightarrow> imar_find t sp m = imar_find (k_marequests k) sp m"
proof (cases "b AND IE_BITS_MAREQUEST = 0")
  case True
  with rights_invD(2) [OF assms(1)] show thesis by (intro that [of "k_marequests k"]) auto
next
  case False
  with assms(2) have "imar_find (k_marequests k) (k_addr k) n \<noteq> None" unfolding right_ok.simps by simp
  from cancel_marequest [OF rights_invD(2) [OF assms(1)] this] obtain t where
      "marequest_cancel n k = Some (k\<lparr>k_marequests := t\<rparr>)" "imar_ok t"
      "\<forall>sp m. imar_find t sp m = (if sp = k_addr k \<and> m = n then None else imar_find (k_marequests k) sp m)" by metis
  with False show thesis by (intro that [of t]) simp_all
qed

text \<open>Taking a right out of the reverse tables.\<close>

lemma maybe_unfile:
  assumes pt: "points (k_space k) (k_hash k) P n entry b obj r" and ty: "IE_BITS_TYPE b \<noteq> 0" and n: "n \<notin> P"
  obtains s g where
      "IE_BITS_TYPE b = MACH_PORT_TYPE_SEND \<longrightarrow> hash_delete obj n entry k = Some (k\<lparr>k_space := s, k_hash := g\<rparr>)"
    and "IE_BITS_TYPE b \<noteq> MACH_PORT_TYPE_SEND \<longrightarrow> s = k_space k \<and> g = k_hash k"
    and "points s g (insert n P) n entry b obj r" and "space_map s (insert n P) = caps k P" and "sframe (k_space k) s"
proof (cases "IE_BITS_TYPE b = MACH_PORT_TYPE_SEND")
  case True
  from delete_points [OF pt True n] that True show thesis by metis
next
  case False
  from refile_points [OF pt ty False refiled_insert] False show thesis
    by (intro that [where s = "k_space k" and g = "k_hash k"]) simp_all
qed

subsection \<open>The check\<close>

lemma right_check_alive:
  "k_ports k port = Some p \<Longrightarrow> ip_active p \<Longrightarrow> ipc_right_check port name entry k = Some (False, k)"
  by (simp add: ipc_right_check_def)

text \<open>Taking a right of a dead port out of the reverse table, and its reference from the port.\<close>

lemma right_check_dead:
  assumes inv: "rights_inv P x k" and pt: "points (k_space k) (k_hash k) P n entry b obj r" and n: "n \<notin> P"
    and port: "b AND MACH_PORT_TYPE_PORT_RIGHTS \<noteq> 0" and p: "k_ports k obj = Some p" "\<not> ip_active p"
    and ix: "\<forall>m\<in>P. idx m \<noteq> idx n"
  obtains k' where "ipc_right_check obj n entry k = Some (True, k')" and "rights_inv P x k'"
    and "caps k' P = (caps k P)(n := dead_cap b r)" and "k_ports k' = (k_ports k)(obj := released p)"
    and "b AND IE_BITS_COMPAT = 0 \<longrightarrow> points (k_space k') (k_hash k') P n entry (dead_bits b r) IO_NULL 0"
    and "sframe (k_space k) (k_space k')" and "k_events k' = k_events k" and "k_psets k' = k_psets k"
    and "k_timestamp k' = k_timestamp k"
proof -
  note I = rights_invD [OF inv] and D = pointsD [OF pt]
  have ok: "right_ok k n (b AND IE_BITS_RIGHT_MASK, obj, r)" by (rule I(4) [OF D(2) n])
  obtain p1 where "k_ports k obj = Some p1" "requests_ok p1" "b AND MACH_PORT_TYPE_RECEIVE \<noteq> 0 \<Longrightarrow> ip_active p1"
    using right_port [OF ok] port by (metis right_mask_views(2,8))
  with p have alive: "b AND MACH_PORT_TYPE_RECEIVE = 0" and rq: "requests_ok p" by auto
  have ty: "IE_BITS_TYPE b = MACH_PORT_TYPE_SEND \<or> IE_BITS_TYPE b = MACH_PORT_TYPE_SEND_ONCE"
    and u: "unat (IE_BITS_UREFS b) < 65535" "0 < unat (IE_BITS_UREFS b)"
    using ok alive port
    by (cases rule: type_cases [OF _ refl]; simp add: receive_flags send_receive_flags port_set_flags dead_name_flags)+
  obtain e where e: "get_entry entry k = Some e" "ie_bits e = b" "ie_object e = obj" "ie_request e = r"
    using pt by (rule get_points)
  obtain t where t: "b AND IE_BITS_MAREQUEST \<noteq> 0 \<longrightarrow> marequest_cancel n k = Some (k\<lparr>k_marequests := t\<rparr>)"
      "b AND IE_BITS_MAREQUEST = 0 \<longrightarrow> t = k_marequests k" "imar_ok t"
      "\<forall>sp m. m \<noteq> n \<longrightarrow> imar_find t sp m = imar_find (k_marequests k) sp m"
    using maybe_cancel [OF inv ok] .
  have ty0: "IE_BITS_TYPE b \<noteq> 0" using ty by (auto simp: type_consts)
  obtain s g where sg:
      "IE_BITS_TYPE b = MACH_PORT_TYPE_SEND \<longrightarrow>
         hash_delete obj n entry (k\<lparr>k_marequests := t\<rparr>) = Some (k\<lparr>k_marequests := t, k_space := s, k_hash := g\<rparr>)"
      "IE_BITS_TYPE b \<noteq> MACH_PORT_TYPE_SEND \<longrightarrow> s = k_space k \<and> g = k_hash k"
      "points s g (insert n P) n entry b obj r" "space_map s (insert n P) = caps k P" "sframe (k_space k) s"
    using maybe_unfile [of "k\<lparr>k_marequests := t\<rparr>" P n entry b obj r] pt ty0 n by simp metis
  define k3 where "k3 = k\<lparr>k_marequests := t, k_space := s, k_hash := g, k_ports := (k_ports k)(obj := released p)\<rparr>"
  have k3: "k_space k3 = s" "k_hash k3 = g" by (simp_all add: k3_def)
  have mare: "b AND NOT IE_BITS_MAREQUEST = b" if "b AND IE_BITS_MAREQUEST = 0"
    using that and_mask_self [of b "NOT IE_BITS_MAREQUEST"] by simp
  have comp: "(b AND NOT IE_BITS_MAREQUEST) AND IE_BITS_COMPAT = b AND IE_BITS_COMPAT"
    by (auto intro!: bit_word_eqI simp: bits_simps bit_and_iff bit_not_iff)
  have run: "ipc_right_check obj n entry k =
      (if b AND IE_BITS_COMPAT \<noteq> 0
       then do { k \<leftarrow> entry_dealloc n entry (set_entry entry (\<lambda>e. e\<lparr>ie_request := 0, ie_object := IO_NULL\<rparr>) k3);
                 Some (True, k) }
       else Some (True, set_entry entry (\<lambda>e. e\<lparr>ie_request := 0, ie_bits := dead_bits b r, ie_object := IO_NULL\<rparr>) k3))"
  proof (cases "IE_BITS_TYPE b = MACH_PORT_TYPE_SEND")
    case True
    show ?thesis
    proof (cases "b AND IE_BITS_MAREQUEST = 0")
      case m: True
      then show ?thesis using sg(1) t(2) m p e True
        by (simp add: ipc_right_check_def Let_def release_eq k3_def send_flags mare dead_bits_def)
    next
      case m: False
      then show ?thesis using sg(1) t(1) m p e True
        by (simp add: ipc_right_check_def Let_def release_eq k3_def send_flags dead_bits_def comp)
    qed
  next
    case False
    with ty have so: "IE_BITS_TYPE b = MACH_PORT_TYPE_SEND_ONCE" by simp
    have m: "b AND IE_BITS_MAREQUEST = 0"
      using ok so unfolding right_ok.simps by (auto simp: send_once_flags)
    then show ?thesis using sg(2) False t(2) m p e so
      by (simp add: ipc_right_check_def Let_def release_eq k3_def send_once_flags mare dead_bits_def)
  qed
  have at: "only_at obj (caps k P n)" unfolding D(2) by (simp add: only_at_def)
  have refs: "ip_references p \<noteq> 0" by (rule counted(2) [OF inv p(1)])
  have one: "one_if (has_ref obj) (caps k P n) = 1" using port unfolding D(2) by simp
  have addr: "is_addr s = k_addr k" using sg(5) by (simp add: sframe_def)
  show thesis
  proof (cases "b AND IE_BITS_COMPAT = 0")
    case True
    let ?d = "dead_bits b r"
    define k' where "k' = set_entry entry (\<lambda>e. e\<lparr>ie_request := 0, ie_bits := ?d, ie_object := IO_NULL\<rparr>) k3"
    note DB = dead_bits_sel [OF u(1), of r]
    have "points (k_space k3) (k_hash k3) (insert n P) n entry b obj r" using sg(3) by (simp add: k3)
    from set_points [OF this, of _ ?d IO_NULL 0] DB(3)
    have st: "points (k_space k') (k_hash k') (insert n P) n entry ?d IO_NULL 0"
        "caps k' (insert n P) = (caps k P)(n \<mapsto> (?d AND IE_BITS_RIGHT_MASK, IO_NULL, 0))"
      using sg(4) by (auto simp: k'_def k3 stores_def)
    have pt': "points (k_space k') (k_hash k') P n entry ?d IO_NULL 0" "caps k' P = caps k' (insert n P)"
      using refile_points [OF st(1) _ _ refiled_remove] n DB(1) by (simp_all add: type_consts)
    have cap: "dead_cap b r = Some (?d AND IE_BITS_RIGHT_MASK, IO_NULL, 0)" using True by (simp add: dead_cap_def)
    have sel: "k_ports k' = (k_ports k)(obj := released p)" "k_marequests k' = t" "k_events k' = k_events k"
        "k_psets k' = k_psets k" "k_timestamp k' = k_timestamp k" "k_addr k' = k_addr k" "sframe (k_space k) (k_space k')"
      using sg(5) by (simp_all add: k'_def k3_def sframe_def)
    have inv': "rights_inv P x k'"
    proof (rule rights_inv_upd [OF inv p(1) pointsD(1) [OF pt'(1)]])
      show "caps k' P = (caps k P)(n := dead_cap b r)" using st(2) pt'(2) cap by simp
      show "balanced obj (caps k P n) (dead_cap b r) x x p (released p)"
        using released_balanced [OF _ p(2) refs counted_outside [OF inv]] one cap dead_name_flags [OF DB(1)] by simp
      show "only_at obj (dead_cap b r)" using dead_name_flags [OF DB(1)] by (simp add: cap only_at_def)
      show "if n \<in> P then IE_BITS_TYPE (fst c) = 0 else right_ok k' n c" if "dead_cap b r = Some c" for c
        using that n cap dead_right_ok [OF u True, of k' n r] by auto
    qed (use sel t at rq in \<open>auto intro: released_step\<close>)
    show thesis
    proof (rule that)
      show "ipc_right_check obj n entry k = Some (True, k')" using run True by (simp add: k'_def)
      show "caps k' P = (caps k P)(n := dead_cap b r)" using st(2) pt'(2) cap by simp
    qed (use inv' pt' sel in simp_all)
  next
    case False
    define k4 where "k4 = set_entry entry (\<lambda>e. e\<lparr>ie_request := 0, ie_object := IO_NULL\<rparr>) k3"
    have "points (k_space k3) (k_hash k3) (insert n P) n entry b obj r" using sg(3) by (simp add: k3)
    from set_points [OF this, of _ b IO_NULL 0]
    have st: "points (k_space k4) (k_hash k4) (insert n P) n entry b IO_NULL 0"
        "caps k4 (insert n P) = (caps k P)(n \<mapsto> (b AND IE_BITS_RIGHT_MASK, IO_NULL, 0))"
      using sg(4) by (auto simp: k4_def k3 stores_def)
    have "\<forall>m\<in>insert n P. idx m = idx n \<longrightarrow> m = n" using ix by auto
    from dealloc_points [OF st(1) _ this] obtain s' g' where
        de: "entry_dealloc n entry k4 = Some (k4\<lparr>k_space := s', k_hash := g'\<rparr>)" "space_inv s' g' (insert n P - {n})"
        "space_map s' (insert n P - {n}) = (caps k4 (insert n P))(n := None)" "sframe (k_space k4) s'" by blast
    define k' where "k' = k4\<lparr>k_space := s', k_hash := g'\<rparr>"
    have P: "insert n P - {n} = P" using n by auto
    have cap: "dead_cap b r = None" using False by (simp add: dead_cap_def)
    have m': "caps k' P = (caps k P)(n := dead_cap b r)" using de(3) st(2) cap by (simp add: k'_def P)
    have sel: "k_ports k' = (k_ports k)(obj := released p)" "k_marequests k' = t" "k_events k' = k_events k"
        "k_psets k' = k_psets k" "k_timestamp k' = k_timestamp k" "k_addr k' = k_addr k" "sframe (k_space k) (k_space k')"
      using sg(5) de(4) by (simp_all add: k'_def k4_def k3_def sframe_def)
    have inv': "rights_inv P x k'"
    proof (rule rights_inv_upd [OF inv p(1) _ m'])
      show "space_inv (k_space k') (k_hash k') P" using de(2) by (simp add: k'_def P)
      show "balanced obj (caps k P n) (dead_cap b r) x x p (released p)"
        using released_balanced [OF _ p(2) refs counted_outside [OF inv]] one cap by simp
    qed (use sel t at rq cap in \<open>auto intro: released_step simp: only_at_def\<close>)
    show thesis
    proof (rule that)
      show "ipc_right_check obj n entry k = Some (True, k')" using run False de(1) by (simp add: k4_def k'_def)
      show "b AND IE_BITS_COMPAT = 0 \<longrightarrow> points (k_space k') (k_hash k') P n entry (dead_bits b r) IO_NULL 0"
        using False by simp
    qed (use inv' m' sel in simp_all)
  qed
qed

end
