(* ===== verification/Ipc_Right_Drop.thy ===== *)
theory Ipc_Right_Drop
  imports Ipc_Right_Check
begin

section \<open>Giving up rights\<close>

text \<open>
  The operations that take a right out of the space: cancelling its dead-name request, dropping the
  send right of the port, and \<open>ipc_right_dealloc\<close>.
\<close>

subsection \<open>Cancelling the dead-name request\<close>

lemma space_inv_references [simp]:
  "space_inv (s\<lparr>is_references := v\<rparr>) g P = space_inv s g P"
  "space_map (s\<lparr>is_references := v\<rparr>) P = space_map s P"
  "ref_of (s\<lparr>is_references := v\<rparr>) n = ref_of s n"
  "entry_at entry (s\<lparr>is_references := v\<rparr>) = entry_at entry s"
  by (simp_all add: space_inv_def space_map_def size_ok_def ref_of_def entry_at_def
      split: ipc_entry_ref.split)

lemma points_references [simp]: "points (s\<lparr>is_references := v\<rparr>) g P n entry b obj r = points s g P n entry b obj r"
  by (simp add: points_def)

lemma space_release_sel [simp]:
  "k_hash (space_release k) = k_hash k" "k_ports (space_release k) = k_ports k" "k_psets (space_release k) = k_psets k"
  "k_marequests (space_release k) = k_marequests k" "k_timestamp (space_release k) = k_timestamp k"
  "k_events (space_release k) = k_events k" "space_map (k_space (space_release k)) P = space_map (k_space k) P"
  "points (k_space (space_release k)) g P n entry b obj r = points (k_space k) g P n entry b obj r"
  "sframe s (k_space (space_release k)) = sframe s (k_space k)" "k_addr (space_release k) = k_addr k"
  "is_active (k_space (space_release k)) = is_active (k_space k)" "is_notify (k_space (space_release k)) = is_notify (k_space k)"
  by (simp_all add: space_release_def sframe_def)

text \<open>The send-once right of a request, which the caller gets to send a notification.\<close>

definition canceled :: "ipc_port \<Rightarrow> u32 \<Rightarrow> nat \<Rightarrow> addr" where
  "canceled p b r = (if r = 0 \<or> b AND IE_BITS_COMPAT \<noteq> 0 then IP_NULL else snd (the (requests p r)))"

lemma cancel_points:
  assumes pt: "points (k_space k) (k_hash k) P n entry b obj r"
    and p: "k_ports k obj = Some p" "requests_ok p" and ty: "n \<in> P \<or> IE_BITS_TYPE b \<noteq> 0"
    and rq: "r \<noteq> 0 \<longrightarrow> (\<exists>soright. requests p r = Some (n, soright))"
  obtains k' q where "ipc_right_dncancel_macro obj n entry k = Some (canceled p b r, k')"
    and "k_ports k' = (k_ports k)(obj \<mapsto> q)" and "q = p\<lparr>ip_dnrequests := ip_dnrequests q\<rparr>"
    and "port_step n p q" and "requests q = (requests p)(r := None)"
    and "points (k_space k') (k_hash k') P n entry b obj 0"
    and "caps k' P = (caps k P)(n \<mapsto> (b AND IE_BITS_RIGHT_MASK, obj, 0))" and "sframe (k_space k) (k_space k')"
    and "k_marequests k' = k_marequests k" and "k_events k' = k_events k" and "k_psets k' = k_psets k"
    and "k_timestamp k' = k_timestamp k"
proof (cases "r = 0")
  case True
  obtain e where e: "get_entry entry k = Some e" "ie_bits e = b" "ie_object e = obj" "ie_request e = r"
    using pt by (rule get_points)
  have "requests p 0 = None" by (simp add: requests_def dn_map_def split: option.split prod.split)
  then have rq0: "requests p = (requests p)(r := None)" using True by auto
  have m0: "caps k P = (caps k P)(n \<mapsto> (b AND IE_BITS_RIGHT_MASK, obj, 0))"
    using pointsD(2) [OF pt] True by auto
  show thesis
    by (rule that [of k p]) (use e True pt p rq0 m0 in \<open>simp_all add: ipc_right_dncancel_macro_def canceled_def
        port_step_refl fun_upd_idem\<close>)
next
  case False
  obtain e where e: "get_entry entry k = Some e" "ie_bits e = b" "ie_object e = obj" "ie_request e = r"
    using pt by (rule get_points)
  from rq False obtain so where so: "requests p r = Some (n, so)" by auto
  from dncancel_spec [OF p(2) so] obtain q a t where q: "ipc_port_dncancel n r p = Some (so, q)" "requests_ok q"
      "requests q = (requests p)(r := None)" "q = p\<lparr>ip_dnrequests := Some (a, t)\<rparr>" by blast
  have qs: "q = p\<lparr>ip_dnrequests := ip_dnrequests q\<rparr>" unfolding q(4) by simp
  have step: "port_step n p q"
    using port_step_cancel [OF q(2,3) so] qs by (metis ipc_port.select_convs(2-4) ipc_port.surjective ipc_port.update_convs(11))
  define k1 where "k1 = set_entry entry (\<lambda>e. e\<lparr>ie_request := 0\<rparr>) (put_port obj q k)"
  have "points (k_space (put_port obj q k)) (k_hash (put_port obj q k)) P n entry b obj r" using pt by simp
  from set_points [OF this, of _ b obj 0]
  have st: "points (k_space k1) (k_hash k1) P n entry b obj 0" "caps k1 P = (caps k P)(n \<mapsto> (b AND IE_BITS_RIGHT_MASK, obj, 0))"
    using ty by (auto simp: k1_def stores_def keeps_send_def)
  define k' where "k' = (if b AND IE_BITS_COMPAT \<noteq> 0 then space_release k1 else k1)"
  have sel: "k_ports k' = (k_ports k)(obj \<mapsto> q)" "k_marequests k' = k_marequests k" "k_events k' = k_events k"
      "k_psets k' = k_psets k" "k_timestamp k' = k_timestamp k" "sframe (k_space k) (k_space k')"
    by (simp_all add: k'_def k1_def sframe_def)
  show thesis
  proof (rule that [of k' q])
    show "ipc_right_dncancel_macro obj n entry k = Some (canceled p b r, k')"
      using e False p q(1) so
      by (simp add: ipc_right_dncancel_macro_def ipc_right_dncancel_def canceled_def k'_def k1_def Let_def)
    show "points (k_space k') (k_hash k') P n entry b obj 0" using st(1) by (simp add: k'_def)
    show "caps k' P = (caps k P)(n \<mapsto> (b AND IE_BITS_RIGHT_MASK, obj, 0))" using st(2) by (simp add: k'_def)
  qed (use sel qs step q(3) in simp_all)
qed

subsection \<open>Taking user references away\<close>

lemma urefs_sub_less:
  assumes "d \<le> IE_BITS_UREFS b"
  shows "unat (IE_BITS_UREFS b + - d) < 65536"
proof -
  have "unat (IE_BITS_UREFS b - d) = unat (IE_BITS_UREFS b) - unat d" using assms by (rule unat_sub)
  with urefs_less [of b] show ?thesis by simp
qed

lemma urefs_sub:
  assumes "d \<le> IE_BITS_UREFS b"
  shows "IE_BITS_UREFS (b - d) = IE_BITS_UREFS b - d" and "IE_BITS_TYPE (b - d) = IE_BITS_TYPE b"
    and "same_entry b (b - d)" and "(b - d) AND IE_BITS_MAREQUEST = b AND IE_BITS_MAREQUEST"
    and "(b - d) AND IE_BITS_COMPAT = b AND IE_BITS_COMPAT"
    and "(b - d) AND IE_BITS_RIGHT_MASK = (b AND IE_BITS_RIGHT_MASK) - d"
  using urefs_add(2) [OF urefs_sub_less [OF assms]] urefs_add_bits [OF urefs_sub_less [OF assms]]
    urefs_add_view [OF urefs_sub_less [OF assms]] by simp_all

text \<open>A capability with a different count is as good.\<close>

lemma right_ok_recount:
  assumes ok: "right_ok k n (b AND IE_BITS_RIGHT_MASK, obj, r)"
    and eq: "IE_BITS_TYPE b' = IE_BITS_TYPE b" "b' AND IE_BITS_MAREQUEST = b AND IE_BITS_MAREQUEST"
      "b' AND IE_BITS_COMPAT = b AND IE_BITS_COMPAT"
    and ty: "IE_BITS_TYPE b \<in> {MACH_PORT_TYPE_SEND, MACH_PORT_TYPE_SEND_RECEIVE, MACH_PORT_TYPE_DEAD_NAME}"
    and u: "0 < unat (IE_BITS_UREFS b')" "unat (IE_BITS_UREFS b') < 65535 \<or> IE_BITS_TYPE b = MACH_PORT_TYPE_DEAD_NAME"
  shows "right_ok k n (b' AND IE_BITS_RIGHT_MASK, obj, r)"
proof -
  have f: "b' AND MACH_PORT_TYPE_PORT_RIGHTS = b AND MACH_PORT_TYPE_PORT_RIGHTS"
    "b' AND MACH_PORT_TYPE_RECEIVE = b AND MACH_PORT_TYPE_RECEIVE"
    "b' AND MACH_PORT_TYPE_SEND_RECEIVE = b AND MACH_PORT_TYPE_SEND_RECEIVE"
    using flags_of_type [OF eq(1)] by simp_all
  have c: "MACH_PORT_TYPE_SEND \<noteq> MACH_PORT_TYPE_DEAD_NAME" "MACH_PORT_TYPE_SEND_RECEIVE \<noteq> MACH_PORT_TYPE_DEAD_NAME"
    "MACH_PORT_TYPE_DEAD_NAME \<noteq> MACH_PORT_TYPE_SEND" "MACH_PORT_TYPE_DEAD_NAME \<noteq> MACH_PORT_TYPE_SEND_RECEIVE"
    "MACH_PORT_TYPE_SEND \<noteq> MACH_PORT_TYPE_SEND_ONCE" "MACH_PORT_TYPE_SEND_RECEIVE \<noteq> MACH_PORT_TYPE_SEND_ONCE"
    "MACH_PORT_TYPE_DEAD_NAME \<noteq> MACH_PORT_TYPE_SEND_ONCE" "MACH_PORT_TYPE_SEND \<noteq> MACH_PORT_TYPE_RECEIVE"
    "MACH_PORT_TYPE_SEND_RECEIVE \<noteq> MACH_PORT_TYPE_RECEIVE" "MACH_PORT_TYPE_DEAD_NAME \<noteq> MACH_PORT_TYPE_RECEIVE"
    "MACH_PORT_TYPE_SEND \<noteq> MACH_PORT_TYPE_PORT_SET" "MACH_PORT_TYPE_SEND_RECEIVE \<noteq> MACH_PORT_TYPE_PORT_SET"
    "MACH_PORT_TYPE_DEAD_NAME \<noteq> MACH_PORT_TYPE_PORT_SET"
    by (simp_all add: type_consts)
  from ok ty u show ?thesis
    unfolding right_ok.simps right_mask_views eq f using c by (elim insertE emptyE) auto
qed

text \<open>A name keeps its kind of right.\<close>

lemma holders_same: "sel c' = sel c \<Longrightarrow> M n = Some c \<Longrightarrow> holders sel (M(n \<mapsto> c')) = holders sel M"
  using holders_upd [of sel M n "Some c'"] by simp

lemma rights_inv_same_kind:
  assumes inv: "rights_inv P x k" and old: "caps k P n = Some c" and n: "n \<notin> P"
    and s': "space_inv (k_space k') (k_hash k') P" and m': "caps k' P = (caps k P)(n \<mapsto> c')"
    and addr: "k_addr k' = k_addr k" and imar: "k_marequests k' = k_marequests k" and ports: "k_ports k' = k_ports k"
    and kind: "fst (snd c') = fst (snd c)" "IE_BITS_TYPE (fst c') = IE_BITS_TYPE (fst c)" and new: "right_ok k n c'"
  shows "rights_inv P x k'"
  unfolding rights_inv_def
proof (intro conjI allI impI)
  note I = rights_invD [OF inv]
  have cong: "right_ok k' m d = right_ok k m d" for m d by (cases d) (simp add: right_ok.simps addr imar ports)
  have same: "has_ref a c' = has_ref a c" "has_send a c' = has_send a c" "has_sonce a c' = has_sonce a c"
    "has_receive a c' = has_receive a c" for a
    using kind(1) flags_of_type [OF kind(2)] by (cases c; cases c'; simp)+
  show "accounts (caps k' P) x (k_ports k')"
    using I(3) holders_same [where M = "caps k P" and n = n, OF _ old] same by (simp add: accounts_def m' ports)
  show "space_inv (k_space k') (k_hash k') P" "imar_ok (k_marequests k')" using s' I(2) imar by simp_all
  fix m d assume d: "caps k' P m = Some d"
  show "if m \<in> P then IE_BITS_TYPE (fst d) = 0 else right_ok k' m d"
  proof (cases "m = n")
    case True
    with d n new show ?thesis by (simp add: m' cong)
  next
    case False
    with d have "caps k P m = Some d" by (simp add: m')
    with I(4,5) show ?thesis by (simp add: cong)
  qed
qed

text \<open>The step shared by all deallocations: some user references less.\<close>

lemma fewer_urefs:
  assumes inv: "rights_inv P x k" and pt: "points (k_space k) (k_hash k) P n entry b obj r" and n: "n \<notin> P"
    and ty: "IE_BITS_TYPE b \<in> {MACH_PORT_TYPE_SEND, MACH_PORT_TYPE_SEND_RECEIVE, MACH_PORT_TYPE_DEAD_NAME}"
    and d: "d < IE_BITS_UREFS b"
  defines "k' \<equiv> set_entry entry (\<lambda>e. e\<lparr>ie_bits := b - d\<rparr>) k"
  shows "rights_inv P x k'" and "caps k' P = (caps k P)(n \<mapsto> ((b AND IE_BITS_RIGHT_MASK) - d, obj, r))"
proof -
  note I = rights_invD [OF inv] and D = pointsD [OF pt]
  have ok: "right_ok k n (b AND IE_BITS_RIGHT_MASK, obj, r)" by (rule I(4) [OF D(2) n])
  from d have le: "d \<le> IE_BITS_UREFS b" by simp
  note S = urefs_sub [OF this]
  have ty0: "IE_BITS_TYPE b \<noteq> 0" using ty by (auto simp: type_consts)
  from set_points [OF pt, of _ "b - d" obj r] S(2,3) ty0
  have st: "points (k_space k') (k_hash k') P n entry (b - d) obj r"
      "caps k' P = (caps k P)(n \<mapsto> ((b - d) AND IE_BITS_RIGHT_MASK, obj, r))"
    by (auto simp: k'_def stores_def keeps_send_def)
  then show "caps k' P = (caps k P)(n \<mapsto> ((b AND IE_BITS_RIGHT_MASK) - d, obj, r))" by (simp add: S(6))
  have u: "0 < unat (IE_BITS_UREFS (b - d))" "unat (IE_BITS_UREFS (b - d)) \<le> unat (IE_BITS_UREFS b)"
    using d unfolding S(1) unat_sub [OF le] by (simp_all add: word_less_nat_alt)
  have "unat (IE_BITS_UREFS b) < 65535 \<or> IE_BITS_TYPE b = MACH_PORT_TYPE_DEAD_NAME"
    using ok ty unfolding right_ok.simps by (auto simp: type_consts)
  then have ok': "right_ok k n ((b - d) AND IE_BITS_RIGHT_MASK, obj, r)"
    using u by (intro right_ok_recount [OF ok S(2,4,5) ty]) auto
  show "rights_inv P x k'"
    by (rule rights_inv_same_kind [OF inv D(2) n pointsD(1) [OF st(1)] st(2)]) (simp_all add: k'_def S(2) ok')
qed

text \<open>Giving up one reference to a dead name.\<close>

lemma dealloc_dead_name_spec:
  assumes inv: "rights_inv P x k" and pt: "points (k_space k) (k_hash k) P n entry b obj r" and n: "n \<notin> P"
    and ix: "\<forall>m\<in>P. idx m \<noteq> idx n" and ty: "IE_BITS_TYPE b = MACH_PORT_TYPE_DEAD_NAME"
  obtains k' where "dealloc_dead_name n entry b k = Some (KERN_SUCCESS, k')" and "rights_inv P x k'"
    and "caps k' P = (caps k P)(n := if IE_BITS_UREFS b = 1 then None else Some ((b AND IE_BITS_RIGHT_MASK) - 1, IO_NULL, 0))"
    and "k_ports k' = k_ports k" and "k_events k' = k_events k"
proof -
  note I = rights_invD [OF inv] and D = pointsD [OF pt]
  have ok: "right_ok k n (b AND IE_BITS_RIGHT_MASK, obj, r)" by (rule I(4) [OF D(2) n])
  from ok ty have f: "obj = IO_NULL" "r = 0" "0 < unat (IE_BITS_UREFS b)" unfolding right_ok.simps by (auto simp: type_consts)
  show thesis
  proof (cases "IE_BITS_UREFS b = 1")
    case False
    from f(3) False have "1 < IE_BITS_UREFS b"
      by (metis less_one linorder_neqE_nat not_less_iff_gr_or_eq unat_1 word_less_nat_alt word_unat_eq_iff)
    with fewer_urefs [OF inv pt n _ this] ty f show thesis
      by (intro that [of "set_entry entry (\<lambda>e. e\<lparr>ie_bits := b - 1\<rparr>) k"]) (auto simp: dealloc_dead_name_def False)
  next
    case True
    note R = refile_points [OF pt _ _ refiled_insert]
    have "IE_BITS_TYPE b \<noteq> 0" "IE_BITS_TYPE b \<noteq> MACH_PORT_TYPE_SEND" using ty by (simp_all add: type_consts)
    note R = refile_points [OF pt this refiled_insert]
    have "\<forall>m\<in>insert n P. idx m = idx n \<longrightarrow> m = n" using ix by auto
    from dealloc_points [OF R(1) [unfolded f(1)] _ this] obtain s g where
        de: "entry_dealloc n entry k = Some (k\<lparr>k_space := s, k_hash := g\<rparr>)" "space_inv s g (insert n P - {n})"
        "space_map s (insert n P - {n}) = (caps k (insert n P))(n := None)" "sframe (k_space k) s" by blast
    have P: "insert n P - {n} = P" using n by auto
    have m': "caps (k\<lparr>k_space := s, k_hash := g\<rparr>) P = (caps k P)(n := None)" using de(3) R(2) P by simp
    have none: "one_if (has_ref a) (caps k P n) = 0" for a unfolding D(2) using dead_name_flags [OF ty] by simp
    have inv': "rights_inv P x (k\<lparr>k_space := s, k_hash := g\<rparr>)"
      by (rule rights_inv_other [OF inv _ m' _ _ _ _ none]) (use de(2,4) P in \<open>simp_all add: sframe_def\<close>)
    show thesis
      by (rule that [of "k\<lparr>k_space := s, k_hash := g\<rparr>"]) (use de(1) True inv' m' in \<open>simp_all add: dealloc_dead_name_def\<close>)
  qed
qed

subsection \<open>Shared steps\<close>

lemma cancel_any:
  assumes "imar_ok (k_marequests k)" and "right_ok k n (b AND IE_BITS_RIGHT_MASK, obj, r)"
  obtains t where "\<forall>k'. k_marequests k' = k_marequests k \<longrightarrow> k_addr k' = k_addr k \<longrightarrow>
      (if b AND IE_BITS_MAREQUEST \<noteq> 0 then marequest_cancel n k' else Some k') = Some (k'\<lparr>k_marequests := t\<rparr>)"
    and "imar_ok t" and "\<forall>sp m. m \<noteq> n \<longrightarrow> imar_find t sp m = imar_find (k_marequests k) sp m"
proof (cases "b AND IE_BITS_MAREQUEST = 0")
  case True
  have "k' = k'\<lparr>k_marequests := k_marequests k\<rparr>" if "k_marequests k' = k_marequests k" for k'
    unfolding that [symmetric] by simp
  with True assms(1) show thesis by (intro that [of "k_marequests k"]) auto
next
  case False
  with assms(2) obtain a where a: "imar_find (k_marequests k) (k_addr k) n = Some a" unfolding right_ok.simps by auto
  from ipc_marequest_cancel_spec [OF assms(1) this] obtain t where
      t: "ipc_marequest_cancel (k_addr k) n (k_marequests k) = Some t" "imar_ok t"
      "\<forall>sp m. imar_find t sp m = (if sp = k_addr k \<and> m = n then None else imar_find (k_marequests k) sp m)" by blast
  with False show thesis by (intro that [of t]) (simp_all add: marequest_cancel_def)
qed

lemma remove_points:
  assumes pt: "points (k_space k) (k_hash k) (insert n P) n entry b obj r" and n: "n \<notin> P"
    and ix: "\<forall>m\<in>P. idx m \<noteq> idx n" and f: "stores f b obj r b IO_NULL r'"
  obtains s g where "entry_dealloc n entry (set_entry entry f k) = Some (k\<lparr>k_space := s, k_hash := g\<rparr>)"
    and "space_inv s g P" and "space_map s P = (caps k (insert n P))(n := None)" and "sframe (k_space k) s"
proof -
  have st: "points (k_space (set_entry entry f k)) (k_hash (set_entry entry f k)) (insert n P) n entry b IO_NULL r'"
      "caps (set_entry entry f k) (insert n P) = (caps k (insert n P))(n \<mapsto> (b AND IE_BITS_RIGHT_MASK, IO_NULL, r'))"
    using set_points [OF pt f] by auto
  have P: "insert n P - {n} = P" using n by auto
  have "\<forall>m\<in>insert n P. idx m = idx n \<longrightarrow> m = n" using ix by auto
  from dealloc_points [OF st(1) _ this] obtain s g where
      de: "entry_dealloc n entry (set_entry entry f k) = Some ((set_entry entry f k)\<lparr>k_space := s, k_hash := g\<rparr>)"
      "space_inv s g (insert n P - {n})"
      "space_map s (insert n P - {n}) = (caps (set_entry entry f k) (insert n P))(n := None)"
      "sframe (k_space (set_entry entry f k)) s" by blast
  show thesis
  proof (rule that)
    show "entry_dealloc n entry (set_entry entry f k) = Some (k\<lparr>k_space := s, k_hash := g\<rparr>)"
      using de(1) by (simp add: set_entry_def)
    show "space_inv s g P" using de(2) by (simp add: P)
    show "space_map s P = (caps k (insert n P))(n := None)" using de(3) by (simp add: P st(2))
    show "sframe (k_space k) s" using de(4) by (simp add: sframe_def)
  qed
qed

lemma port_step_trans: "port_step n p q \<Longrightarrow> port_step n q u \<Longrightarrow> port_step n p u"
  by (simp add: port_step_def)

lemma drop_send_sel:
  assumes "drop_send p = (q, ns, ms)"
  shows "ip_srights q = ip_srights p - 1" "ip_references q = ip_references p" "ip_bits q = ip_bits p"
    "ip_sorights q = ip_sorights p" "ip_dnrequests q = ip_dnrequests p" "ip_receiver_name q = ip_receiver_name p"
    "ip_data q = ip_data p" "ns = (if ip_srights p = 1 then ip_nsrequest p else IP_NULL)"
  using assms by (auto simp: drop_send_def Let_def split: if_splits)

lemma drop_send_step: "drop_send p = (q, ns, ms) \<Longrightarrow> requests_ok p \<Longrightarrow> port_step n p q"
  by (rule port_step_fields) (simp_all add: drop_send_sel)

lemma release_step: "requests_ok p \<Longrightarrow> port_step n p (ip_release p)"
  by (rule port_step_fields) simp_all

lemma only_dnrequests:
  assumes "q = p\<lparr>ip_dnrequests := d\<rparr>"
  shows "ip_references q = ip_references p" "ip_srights q = ip_srights p" "ip_sorights q = ip_sorights p"
    "ip_bits q = ip_bits p" "ip_nsrequest q = ip_nsrequest p"
  using assms by simp_all

text \<open>Notifications do not touch the rights.\<close>

lemma rights_inv_cong:
  assumes "k_space k' = k_space k" "k_hash k' = k_hash k" "k_ports k' = k_ports k" "k_marequests k' = k_marequests k"
  shows "rights_inv P x k' = rights_inv P x k"
proof -
  have "right_ok k' m d = right_ok k m d" for m d by (cases d) (simp add: right_ok.simps assms)
  then show ?thesis by (simp add: rights_inv_def assms)
qed

lemma notify_sel [simp]:
  "k_space (notify_port_deleted a n k) = k_space k" "k_hash (notify_port_deleted a n k) = k_hash k"
  "k_ports (notify_port_deleted a n k) = k_ports k" "k_marequests (notify_port_deleted a n k) = k_marequests k"
  "k_space (notify_no_senders a m k) = k_space k" "k_hash (notify_no_senders a m k) = k_hash k"
  "k_ports (notify_no_senders a m k) = k_ports k" "k_marequests (notify_no_senders a m k) = k_marequests k"
  "k_events (notify_port_deleted a n k) = k_events k @ (if a \<noteq> IP_NULL then [Notify_Port_Deleted a n] else [])"
  "k_events (notify_no_senders a m k) = k_events k @ (if a \<noteq> IP_NULL then [Notify_No_Senders a m] else [])"
  by (simp_all add: notify_port_deleted_def notify_no_senders_def)

lemma rights_inv_notify [simp]:
  "rights_inv P x (post ev k) = rights_inv P x k" "rights_inv P x (notify_port_deleted a n k) = rights_inv P x k"
  "rights_inv P x (notify_no_senders a m k) = rights_inv P x k" "rights_inv P x (wake w k) = rights_inv P x k"
  by (rule rights_inv_cong; simp)+

end
