(* ===== verification/Ipc_Right_Dealloc.thy ===== *)
theory Ipc_Right_Dealloc
  imports Ipc_Right_Drop
begin

section \<open>Deallocating rights\<close>

text \<open>
  \<open>ipc_right_dealloc\<close> on every kind of capability, as an operation on the map of names that keeps
  the counts of the ports.
\<close>

text \<open>The notifications when a last send right and its request go away.\<close>

definition no_senders_events :: "ipc_port \<Rightarrow> ipc_event list" where
  "no_senders_events p =
     (if ip_srights p = 1 \<and> ip_nsrequest p \<noteq> IP_NULL then [Notify_No_Senders (ip_nsrequest p) (ip_mscount p)] else [])"

definition deleted_events :: "mach_port_t \<Rightarrow> ipc_port \<Rightarrow> u32 \<Rightarrow> nat \<Rightarrow> ipc_event list" where
  "deleted_events n p b r = (if canceled p b r \<noteq> IP_NULL then [Notify_Port_Deleted (canceled p b r) n] else [])"

lemma drop_send_events:
  "drop_send p = (q, ns, ms) \<Longrightarrow> k_events (notify_no_senders ns ms k) = k_events k @ no_senders_events p"
  by (auto simp: drop_send_def no_senders_events_def Let_def split: if_splits)

lemma canceled_cong: "requests p = requests q \<Longrightarrow> canceled p b r = canceled q b r"
  by (simp add: canceled_def)

subsection \<open>The last reference to a send right\<close>

lemma send_dropped:
  assumes inv: "rights_inv P x k" and c: "caps k P n = Some c" and send: "has_send a c"
    and p: "k_ports k a = Some p" "ip_active p"
  shows "unat (ip_srights p - 1) + 1 = unat (ip_srights p)"
proof -
  have "0 < holders (has_send a) (caps k P)" using holders_pos [of "caps k P" n c "has_send a"] c send by simp
  then have "ip_srights p \<noteq> 0" using counted(3) [OF inv p] by auto
  moreover from this have "0 < unat (ip_srights p)" by (simp add: unat_gt_0)
  ultimately show ?thesis by (simp add: unat_minus_one)
qed

lemma reference_dropped:
  fixes w :: u32
  assumes "1 < unat w"
  shows "unat (w - 1) + 1 = unat w" and "0 < unat (w - 1)"
proof -
  from assms have "w \<noteq> 0" by auto
  then have "unat (w - 1) = unat w - 1" by (rule unat_minus_one)
  with assms show "unat (w - 1) + 1 = unat w" and "0 < unat (w - 1)" by simp_all
qed

lemma dealloc_send_last:
  assumes inv: "rights_inv P x k" and pt: "points (k_space k) (k_hash k) P n entry b obj r" and n: "n \<notin> P"
    and ix: "\<forall>m\<in>P. idx m \<noteq> idx n" and ty: "IE_BITS_TYPE b = MACH_PORT_TYPE_SEND" and u: "IE_BITS_UREFS b = 1"
    and p: "k_ports k obj = Some p" "ip_active p"
  obtains k' q where "dealloc_send n entry b obj k = Some (KERN_SUCCESS, k')" and "rights_inv P x k'"
    and "caps k' P = (caps k P)(n := None)" and "k_ports k' = (k_ports k)(obj \<mapsto> q)"
    and "ip_srights q = ip_srights p - 1" and "requests q = (requests p)(r := None)"
    and "k_events k' = k_events k @ no_senders_events p @ deleted_events n p b r"
proof -
  note I = rights_invD [OF inv] and D = pointsD [OF pt] and F = send_flags [OF ty]
  have ok: "right_ok k n (b AND IE_BITS_RIGHT_MASK, obj, r)" by (rule I(4) [OF D(2) n])
  obtain p0 where "k_ports k obj = Some p0" "requests_ok p0"
      "ip_active p0 \<Longrightarrow> r \<noteq> 0 \<Longrightarrow> \<exists>soright. requests p0 r = Some (n, soright)"
    using right_port [OF ok] F(8) by (metis right_mask_views(8))
  with p have rq: "requests_ok p" and rq': "r \<noteq> 0 \<longrightarrow> (\<exists>soright. requests p r = Some (n, soright))" by auto
  obtain p1 ns ms where dr: "drop_send p = (p1, ns, ms)" by (cases "drop_send p") auto
  note DS = drop_send_sel [OF dr]
  have rp1: "requests p1 = requests p" "requests_ok p1" using DS(5) rq requests_cong requests_ok_cong by metis+
  define k1 where "k1 = put_port obj p1 k"
  have "points (k_space k1) (k_hash k1) P n entry b obj r" using pt by (simp add: k1_def)
  moreover have "k_ports k1 obj = Some p1" by (simp add: k1_def)
  moreover have "n \<in> P \<or> IE_BITS_TYPE b \<noteq> 0" using ty by (simp add: type_consts)
  moreover have "r \<noteq> 0 \<longrightarrow> (\<exists>soright. requests p1 r = Some (n, soright))" using rq' rp1 by simp
  ultimately obtain k2 q where dn: "ipc_right_dncancel_macro obj n entry k1 = Some (canceled p1 b r, k2)"
      "k_ports k2 = (k_ports k1)(obj \<mapsto> q)" "q = p1\<lparr>ip_dnrequests := ip_dnrequests q\<rparr>" "port_step n p1 q"
      "requests q = (requests p1)(r := None)"
      "points (k_space k2) (k_hash k2) P n entry b obj 0" "caps k2 P = (caps k1 P)(n \<mapsto> (b AND IE_BITS_RIGHT_MASK, obj, 0))"
      "sframe (k_space k1) (k_space k2)" "k_marequests k2 = k_marequests k1" "k_events k2 = k_events k1"
    using cancel_points [of k1 P n entry b obj r p1] rp1(2) by metis
  from delete_points [OF dn(6) ty n] obtain s g where
      hd: "hash_delete obj n entry k2 = Some (k2\<lparr>k_space := s, k_hash := g\<rparr>)"
      "points s g (insert n P) n entry b obj 0" "space_map s (insert n P) = caps k2 P" "sframe (k_space k2) s" .
  define k3 where "k3 = k2\<lparr>k_space := s, k_hash := g\<rparr>"
  obtain t where t: "\<forall>k'. k_marequests k' = k_marequests k \<longrightarrow> k_addr k' = k_addr k \<longrightarrow>
      (if b AND IE_BITS_MAREQUEST \<noteq> 0 then marequest_cancel n k' else Some k') = Some (k'\<lparr>k_marequests := t\<rparr>)"
      "imar_ok t" "\<forall>sp m. m \<noteq> n \<longrightarrow> imar_find t sp m = imar_find (k_marequests k) sp m"
    using cancel_any [OF I(2) ok] .
  have k3: "k_marequests k3 = k_marequests k" "k_addr k3 = k_addr k" "k_ports k3 = (k_ports k)(obj \<mapsto> q)" "k_events k3 = k_events k"
    using dn(2,8,9,10) hd(4) by (simp_all add: k3_def k1_def sframe_def)
  define k4 where "k4 = put_port obj (ip_release q) (k3\<lparr>k_marequests := t\<rparr>)"
  have "points (k_space k4) (k_hash k4) (insert n P) n entry b obj 0" using hd(2) by (simp add: k4_def k3_def)
  moreover have "stores (\<lambda>e. e\<lparr>ie_object := IO_NULL\<rparr>) b obj 0 b IO_NULL 0" by (simp add: stores_def)
  ultimately obtain s' g' where
      de: "entry_dealloc n entry (set_entry entry (\<lambda>e. e\<lparr>ie_object := IO_NULL\<rparr>) k4) = Some (k4\<lparr>k_space := s', k_hash := g'\<rparr>)"
      "space_inv s' g' P" "space_map s' P = (caps k4 (insert n P))(n := None)" "sframe (k_space k4) s'"
    using remove_points [OF _ n ix] by blast
  define k5 where "k5 = k4\<lparr>k_space := s', k_hash := g'\<rparr>"
  define k' where "k' = notify_port_deleted (canceled p1 b r) n (notify_no_senders ns ms k5)"
  have m4: "caps k4 (insert n P) = (caps k P)(n \<mapsto> (b AND IE_BITS_RIGHT_MASK, obj, 0))"
    using hd(3) dn(7) by (simp add: k4_def k3_def k1_def)
  have m': "caps k5 P = (caps k P)(n := None)" using de(3) m4 by (simp add: k5_def)
  have refs: "1 < unat (ip_references p)"
    by (rule receive_reference [OF inv p D(2)]) (use F in simp_all)
  have sr: "unat (ip_srights p - 1) + 1 = unat (ip_srights p)"
    by (rule send_dropped [OF inv D(2) _ p]) (use F in simp)
  note Q = only_dnrequests [OF dn(3)]
  have step: "port_step n p (ip_release q)"
    using port_step_trans [OF drop_send_step [OF dr rq] port_step_trans [OF dn(4) release_step]] dn(4)
    by (simp add: port_step_def)
  have inv': "rights_inv P x k5"
  proof (rule rights_inv_upd [OF inv p(1) _ m'])
    show "space_inv (k_space k5) (k_hash k5) P" using de(2) by (simp add: k5_def)
    show "k_addr k5 = k_addr k" using de(4) k3(2) by (simp add: k5_def k4_def sframe_def)
    show "k_ports k5 = (k_ports k)(obj := Some (ip_release q))" using k3(3) by (simp add: k5_def k4_def)
    show "balanced obj (caps k P n) None x x p (Some (ip_release q))"
      using F counted_outside [OF inv, of obj] sr reference_dropped [OF refs] p(2) Q DS
      unfolding D(2) by (simp add: balanced_def)
    show "only_at obj (caps k P n)" "only_at obj None" unfolding D(2) by (simp_all add: only_at_def)
  qed (use t step in \<open>simp_all add: k5_def k4_def\<close>)
  show thesis
  proof (rule that [of k' "ip_release q"])
    show "dealloc_send n entry b obj k = Some (KERN_SUCCESS, k')"
      using p u dr dn(1) hd(1) t(1) k3 de(1)
      by (simp add: dealloc_send_def right_check_alive k1_def [symmetric] k3_def [symmetric] k4_def [symmetric]
          k5_def [symmetric] k'_def)
    show "rights_inv P x k'" using inv' by (simp add: k'_def)
    show "caps k' P = (caps k P)(n := None)" using m' by (simp add: k'_def)
    show "k_ports k' = (k_ports k)(obj \<mapsto> ip_release q)" using k3(3) by (simp add: k'_def k5_def k4_def)
    show "ip_srights (ip_release q) = ip_srights p - 1" using Q DS by simp
    show "requests (ip_release q) = (requests p)(r := None)"
      using dn(5) rp1 requests_cong [of "ip_release q" q] by simp
    show "k_events k' = k_events k @ no_senders_events p @ deleted_events n p b r"
      using drop_send_events [OF dr, of k5] canceled_cong [OF rp1(1), of b r] k3(4)
      by (simp add: k'_def k5_def k4_def deleted_events_def del: notify_sel(10))
  qed
qed

subsection \<open>The last reference to a send right next to the receive right\<close>

definition no_send_bits :: "u32 \<Rightarrow> u32" where
  "no_send_bits b = b AND NOT (IE_BITS_UREFS_MASK OR MACH_PORT_TYPE_SEND)"

lemma no_send_bits_sel:
  "IE_BITS_UREFS (no_send_bits b) = 0" "same_entry b (no_send_bits b)"
  "no_send_bits b AND IE_BITS_MAREQUEST = b AND IE_BITS_MAREQUEST"
  "no_send_bits b AND IE_BITS_COMPAT = b AND IE_BITS_COMPAT"
  "no_send_bits b AND IE_BITS_RIGHT_MASK = no_send_bits (b AND IE_BITS_RIGHT_MASK)"
  "no_send_bits b AND MACH_PORT_TYPE_SEND = 0"
  "no_send_bits b AND MACH_PORT_TYPE_RECEIVE = b AND MACH_PORT_TYPE_RECEIVE"
  unfolding no_send_bits_def IE_BITS_UREFS_def
  by (auto intro!: bit_word_eqI simp: MACH_PORT_TYPE_SEND_def MACH_PORT_TYPE_RECEIVE_def bits_simps
      bit_and_iff bit_or_iff bit_not_iff)

lemma no_send_type:
  assumes "IE_BITS_TYPE b = MACH_PORT_TYPE_SEND_RECEIVE"
  shows "IE_BITS_TYPE (no_send_bits b) = MACH_PORT_TYPE_RECEIVE"
proof -
  have "IE_BITS_TYPE (no_send_bits b) = IE_BITS_TYPE b AND NOT MACH_PORT_TYPE_SEND"
    unfolding no_send_bits_def IE_BITS_TYPE_def
    by (auto intro!: bit_word_eqI simp: MACH_PORT_TYPE_SEND_def bits_simps bit_and_iff bit_or_iff bit_not_iff)
  then show ?thesis by (simp add: assms type_consts)
qed

lemma dealloc_send_receive_last:
  assumes inv: "rights_inv P x k" and pt: "points (k_space k) (k_hash k) P n entry b obj r" and n: "n \<notin> P"
    and ty: "IE_BITS_TYPE b = MACH_PORT_TYPE_SEND_RECEIVE" and u: "IE_BITS_UREFS b = 1" and p: "k_ports k obj = Some p"
  obtains k' q where "dealloc_send_receive entry b obj k = Some (KERN_SUCCESS, k')" and "rights_inv P x k'"
    and "caps k' P = (caps k P)(n \<mapsto> (no_send_bits (b AND IE_BITS_RIGHT_MASK), obj, r))"
    and "k_ports k' = (k_ports k)(obj \<mapsto> q)" and "ip_srights q = ip_srights p - 1"
    and "k_events k' = k_events k @ no_senders_events p"
proof -
  note I = rights_invD [OF inv] and D = pointsD [OF pt] and F = send_receive_flags [OF ty]
  have ok: "right_ok k n (b AND IE_BITS_RIGHT_MASK, obj, r)" by (rule I(4) [OF D(2) n])
  obtain p0 where "k_ports k obj = Some p0" "requests_ok p0" "IO_VALID obj"
      "ip_active p0 \<Longrightarrow> r \<noteq> 0 \<Longrightarrow> \<exists>soright. requests p0 r = Some (n, soright)"
      "b AND MACH_PORT_TYPE_RECEIVE \<noteq> 0 \<Longrightarrow> ip_active p0 \<and> ip_receiver_name p0 = n \<and> ip_receiver p0 = k_addr k"
    using right_port [OF ok] F(8) by (metis right_mask_views(2,8))
  with p F(2) have rq: "requests_ok p" and rq': "r \<noteq> 0 \<longrightarrow> (\<exists>soright. requests p r = Some (n, soright))"
    and rc: "ip_active p" "ip_receiver_name p = n" "ip_receiver p = k_addr k" and v: "IO_VALID obj" by auto
  obtain q ns ms where dr: "drop_send p = (q, ns, ms)" by (cases "drop_send p") auto
  note DS = drop_send_sel [OF dr]
  note N = no_send_bits_sel [of b] and NT = no_send_type [OF ty]
  define k1 where "k1 = put_port obj q k"
  define k2 where "k2 = set_entry entry (\<lambda>e. e\<lparr>ie_bits := no_send_bits b\<rparr>) k1"
  have "points (k_space k1) (k_hash k1) P n entry b obj r" using pt by (simp add: k1_def)
  moreover have "stores (\<lambda>e. e\<lparr>ie_bits := no_send_bits b\<rparr>) b obj r (no_send_bits b) obj r" by (simp add: stores_def)
  moreover have "keeps_send b obj (no_send_bits b) obj" by (simp add: keeps_send_def ty NT type_consts)
  ultimately have st: "points (k_space k2) (k_hash k2) P n entry (no_send_bits b) obj r"
      "caps k2 P = (caps k1 P)(n \<mapsto> (no_send_bits b AND IE_BITS_RIGHT_MASK, obj, r))"
    using set_points [OF _ _ N(2)] unfolding k2_def by blast+
  have m': "caps k2 P = (caps k P)(n \<mapsto> (no_send_bits (b AND IE_BITS_RIGHT_MASK), obj, r))"
    using st(2) by (simp add: k1_def N(5))
  have ok': "right_ok k2 n (no_send_bits (b AND IE_BITS_RIGHT_MASK), obj, r)"
    using ok rq rq' rc v DS requests_cong [of q p] requests_ok_cong [of q p] F(1,2,6) receive_flags [OF NT] N
    unfolding right_ok.simps N(5) [symmetric] right_mask_views NT
    by (auto simp: k2_def k1_def ty type_consts)
  have sr: "unat (ip_srights p - 1) + 1 = unat (ip_srights p)"
    by (rule send_dropped [OF inv D(2) _ p rc(1)]) (use F in simp)
  have inv': "rights_inv P x k2"
  proof (rule rights_inv_upd [OF inv p pointsD(1) [OF st(1)] m'])
    show "k_ports k2 = (k_ports k)(obj := Some q)" by (simp add: k2_def k1_def)
    show "\<And>q'. Some q = Some q' \<Longrightarrow> port_step n p q'" using drop_send_step [OF dr rq] by simp
    show "balanced obj (caps k P n) (Some (no_send_bits (b AND IE_BITS_RIGHT_MASK), obj, r)) x x p (Some q)"
      using F counted_outside [OF inv, of obj] sr counted(2) [OF inv p] rc(1) DS receive_flags [OF NT]
      unfolding D(2) N(5) [symmetric] by (simp add: balanced_def unat_gt_0)
    show "only_at obj (caps k P n)" "only_at obj (Some (no_send_bits (b AND IE_BITS_RIGHT_MASK), obj, r))"
      unfolding D(2) by (simp_all add: only_at_def)
  qed (use I(2) ok' n in \<open>simp_all add: k2_def k1_def\<close>)
  show thesis
  proof (rule that [of "notify_no_senders ns ms k2" q])
    show "dealloc_send_receive entry b obj k = Some (KERN_SUCCESS, notify_no_senders ns ms k2)"
      using p u dr by (simp add: dealloc_send_receive_def k2_def k1_def no_send_bits_def)
    show "k_events (notify_no_senders ns ms k2) = k_events k @ no_senders_events p"
      using drop_send_events [OF dr, of k2] by (simp add: k2_def k1_def del: notify_sel(10))
  qed (use inv' m' DS(1) in \<open>simp_all add: k2_def k1_def\<close>)
qed

subsection \<open>A send-once right is used up\<close>

text \<open>The right and its reference go into the send-once notification.\<close>

definition give_sonce :: "addr \<Rightarrow> outside \<Rightarrow> outside" where
  "give_sonce a x = x\<lparr>o_refs := (o_refs x)(a := o_refs x a + 1), o_sonces := (o_sonces x)(a := o_sonces x a + 1)\<rparr>"

lemma give_sonce_same [simp]: "same_outside a x (give_sonce a x)"
  by (simp add: same_outside_def give_sonce_def)

lemma dealloc_send_once_alive:
  assumes inv: "rights_inv P x k" and pt: "points (k_space k) (k_hash k) P n entry b obj r" and n: "n \<notin> P"
    and ix: "\<forall>m\<in>P. idx m \<noteq> idx n" and ty: "IE_BITS_TYPE b = MACH_PORT_TYPE_SEND_ONCE"
    and p: "k_ports k obj = Some p" "ip_active p"
  obtains k' q where "dealloc_send_once n entry b obj k = Some (KERN_SUCCESS, k')"
    and "rights_inv P (give_sonce obj x) k'"
    and "caps k' P = (caps k P)(n := None)" and "k_ports k' = (k_ports k)(obj \<mapsto> q)"
    and "requests q = (requests p)(r := None)"
    and "k_events k' = k_events k @ [Notify_Send_Once obj] @ deleted_events n p b r"
proof -
  note I = rights_invD [OF inv] and D = pointsD [OF pt] and F = send_once_flags [OF ty]
  have ok: "right_ok k n (b AND IE_BITS_RIGHT_MASK, obj, r)" by (rule I(4) [OF D(2) n])
  obtain p0 where "k_ports k obj = Some p0" "requests_ok p0"
      "ip_active p0 \<Longrightarrow> r \<noteq> 0 \<Longrightarrow> \<exists>soright. requests p0 r = Some (n, soright)"
    using right_port [OF ok] F(8) by (metis right_mask_views(8))
  with p have rq: "requests_ok p" and rq': "r \<noteq> 0 \<longrightarrow> (\<exists>soright. requests p r = Some (n, soright))" by auto
  have ty0: "IE_BITS_TYPE b \<noteq> 0" "IE_BITS_TYPE b \<noteq> MACH_PORT_TYPE_SEND" using ty by (simp_all add: type_consts)
  obtain k2 q where dn: "ipc_right_dncancel_macro obj n entry k = Some (canceled p b r, k2)"
      "k_ports k2 = (k_ports k)(obj \<mapsto> q)" "q = p\<lparr>ip_dnrequests := ip_dnrequests q\<rparr>" "port_step n p q"
      "requests q = (requests p)(r := None)"
      "points (k_space k2) (k_hash k2) P n entry b obj 0" "caps k2 P = (caps k P)(n \<mapsto> (b AND IE_BITS_RIGHT_MASK, obj, 0))"
      "sframe (k_space k) (k_space k2)" "k_marequests k2 = k_marequests k" "k_events k2 = k_events k"
    using cancel_points [OF pt p(1) rq _ rq'] ty0(1) by metis
  note R = refile_points [OF dn(6) ty0 refiled_insert]
  have "stores (\<lambda>e. e\<lparr>ie_object := IO_NULL\<rparr>) b obj 0 b IO_NULL 0" by (simp add: stores_def)
  with R(1) obtain s' g' where
      de: "entry_dealloc n entry (set_entry entry (\<lambda>e. e\<lparr>ie_object := IO_NULL\<rparr>) k2) = Some (k2\<lparr>k_space := s', k_hash := g'\<rparr>)"
      "space_inv s' g' P" "space_map s' P = (caps k2 (insert n P))(n := None)" "sframe (k_space k2) s'"
    using remove_points [OF _ n ix] by blast
  define k5 where "k5 = k2\<lparr>k_space := s', k_hash := g'\<rparr>"
  have m': "caps k5 P = (caps k P)(n := None)" using de(3) R(2) dn(7) by (simp add: k5_def)
  have addr: "k_addr k5 = k_addr k" using de(4) dn(8) by (simp add: k5_def sframe_def)
  note Q = only_dnrequests [OF dn(3)]
  have inv': "rights_inv P (give_sonce obj x) k5"
  proof (rule rights_inv_upd [OF inv p(1) _ m' _ addr])
    show "space_inv (k_space k5) (k_hash k5) P" using de(2) by (simp add: k5_def)
    show "k_ports k5 = (k_ports k)(obj := Some q)" using dn(2) by (simp add: k5_def)
    show "balanced obj (caps k P n) None x (give_sonce obj x) p (Some q)"
      using F counted_outside [OF inv, of obj] counted(2) [OF inv p(1)] p(2) Q
      unfolding D(2) by (simp add: balanced_def give_sonce_def unat_gt_0)
    show "only_at obj (caps k P n)" "only_at obj None" unfolding D(2) by (simp_all add: only_at_def)
  qed (use dn(4,9) I(2) in \<open>simp_all add: k5_def\<close>)
  show thesis
  proof (rule that [of "notify_port_deleted (canceled p b r) n (post (Notify_Send_Once obj) k5)" q])
    show "dealloc_send_once n entry b obj k =
        Some (KERN_SUCCESS, notify_port_deleted (canceled p b r) n (post (Notify_Send_Once obj) k5))"
      using p dn(1) de(1) by (simp add: dealloc_send_once_def right_check_alive k5_def)
  qed (use inv' m' dn(2,5,10) in \<open>simp_all add: k5_def deleted_events_def\<close>)
qed

subsection \<open>All of it\<close>

definition uref_less :: "u32 \<Rightarrow> addr \<Rightarrow> nat \<Rightarrow> capability option" where
  "uref_less c obj r = (if IE_BITS_UREFS c = 1 then None else Some (c - 1, obj, r))"

text \<open>What deallocating does to a capability, when its port is alive or dead.\<close>

definition dealloc_result :: "bool \<Rightarrow> capability \<Rightarrow> kern_return_t \<times> capability option" where
  "dealloc_result alive = (\<lambda>(c, obj, r).
     let type = IE_BITS_TYPE c in
     if type = MACH_PORT_TYPE_DEAD_NAME then (KERN_SUCCESS, uref_less c obj r)
     else if type = MACH_PORT_TYPE_SEND_RECEIVE
     then (KERN_SUCCESS, Some (if IE_BITS_UREFS c = 1 then no_send_bits c else c - 1, obj, r))
     else if type \<noteq> MACH_PORT_TYPE_SEND \<and> type \<noteq> MACH_PORT_TYPE_SEND_ONCE then (KERN_INVALID_RIGHT, Some (c, obj, r))
     else if alive then (KERN_SUCCESS, uref_less c obj r)
     else if c AND IE_BITS_COMPAT \<noteq> 0 then (KERN_INVALID_NAME, None)
     else (KERN_SUCCESS, uref_less (dead_bits c r) IO_NULL 0))"

definition port_alive :: "ipc_kernel \<Rightarrow> addr \<Rightarrow> bool" where
  "port_alive k a \<longleftrightarrow> (case k_ports k a of None \<Rightarrow> False | Some p \<Rightarrow> ip_active p)"

lemma uref_less_view:
  assumes "0 < unat (IE_BITS_UREFS b)"
  shows "uref_less (b AND IE_BITS_RIGHT_MASK) obj r =
    (if IE_BITS_UREFS b = 1 then None else Some ((b AND IE_BITS_RIGHT_MASK) - 1, obj, r))"
  by (simp add: uref_less_def)

lemma uref_more_than_one:
  fixes u :: u32
  assumes "0 < unat u" and "u \<noteq> 1"
  shows "1 < u"
  using assms by (metis less_one linorder_neqE_nat not_less_iff_gr_or_eq unat_1 word_less_nat_alt word_unat_eq_iff)

lemma dead_bits_view:
  assumes "unat (IE_BITS_UREFS b) < 65535"
  shows "dead_bits (b AND IE_BITS_RIGHT_MASK) r = dead_bits b r AND IE_BITS_RIGHT_MASK"
proof -
  let ?d = "\<lambda>b. (b AND NOT IE_BITS_MAREQUEST) AND NOT IE_BITS_TYPE_MASK OR MACH_PORT_TYPE_DEAD_NAME"
  have d: "?d (b AND IE_BITS_RIGHT_MASK) = ?d b AND IE_BITS_RIGHT_MASK"
    by (auto intro!: bit_word_eqI simp: MACH_PORT_TYPE_DEAD_NAME_def bits_simps bit_and_iff bit_or_iff bit_not_iff)
  have "unat (IE_BITS_UREFS (?d b) + 1) < 65536"
    using assms unat_add_le [of "IE_BITS_UREFS b" 1] unfolding dead_base(2) by simp
  from urefs_add_view [OF this] d show ?thesis by (simp add: dead_bits_def Let_def)
qed

lemma dealloc_dead_port:
  assumes inv: "rights_inv P x k" and pt: "points (k_space k) (k_hash k) P n entry b obj r" and n: "n \<notin> P"
    and ix: "\<forall>m\<in>P. idx m \<noteq> idx n" and port: "b AND MACH_PORT_TYPE_PORT_RIGHTS \<noteq> 0"
    and u: "unat (IE_BITS_UREFS b) < 65535" and p: "k_ports k obj = Some p" "\<not> ip_active p"
  obtains kr k' where "dealloc_send n entry b obj k = Some (kr, k')" and "dealloc_send_once n entry b obj k = Some (kr, k')"
    and "rights_inv P x k'"
    and "kr = (if b AND IE_BITS_COMPAT \<noteq> 0 then KERN_INVALID_NAME else KERN_SUCCESS)"
    and "caps k' P = (caps k P)(n := if b AND IE_BITS_COMPAT \<noteq> 0 then None
           else uref_less (dead_bits (b AND IE_BITS_RIGHT_MASK) r) IO_NULL 0)"
proof -
  obtain k1 where k1: "ipc_right_check obj n entry k = Some (True, k1)" "rights_inv P x k1"
      "caps k1 P = (caps k P)(n := dead_cap b r)"
      "b AND IE_BITS_COMPAT = 0 \<longrightarrow> points (k_space k1) (k_hash k1) P n entry (dead_bits b r) IO_NULL 0"
    using right_check_dead [OF inv pt n port p ix] by metis
  show thesis
  proof (cases "b AND IE_BITS_COMPAT = 0")
    case False
    with k1 show thesis
      by (intro that [of KERN_INVALID_NAME k1]) (simp_all add: dealloc_send_def dealloc_send_once_def dead_cap_def)
  next
    case True
    with k1(4) have pt1: "points (k_space k1) (k_hash k1) P n entry (dead_bits b r) IO_NULL 0" by simp
    obtain e where e: "get_entry entry k1 = Some e" "ie_bits e = dead_bits b r" using get_points [OF pt1] by metis
    from dealloc_dead_name_spec [OF k1(2) pt1 n ix dead_bits_sel(1) [OF u]] obtain k' where
      k': "dealloc_dead_name n entry (dead_bits b r) k1 = Some (KERN_SUCCESS, k')" "rights_inv P x k'"
      "caps k' P = (caps k1 P)(n := if IE_BITS_UREFS (dead_bits b r) = 1 then None
         else Some ((dead_bits b r AND IE_BITS_RIGHT_MASK) - 1, IO_NULL, 0))" by blast
    show thesis
      by (rule that [of KERN_SUCCESS k'])
        (use True k1 e k' in \<open>simp_all add: dealloc_send_def dealloc_send_once_def dead_bits_view [OF u] uref_less_def\<close>)
  qed
qed

lemma right_dealloc_spec:
  assumes inv: "rights_inv P x k" and c: "caps k P n = Some (c, obj, r)" and n: "n \<notin> P" and ix: "\<forall>m\<in>P. idx m \<noteq> idx n"
  shows "\<exists>kr k'. ipc_right_dealloc n (ref_of (k_space k) n) k = Some (kr, k') \<and>
    (kr, caps k' P) = (fst (dealloc_result (port_alive k obj) (c, obj, r)),
      (caps k P)(n := snd (dealloc_result (port_alive k obj) (c, obj, r)))) \<and>
    rights_inv P (if IE_BITS_TYPE c = MACH_PORT_TYPE_SEND_ONCE \<and> port_alive k obj then give_sonce obj x else x) k'"
proof -
  obtain b where pt: "points (k_space k) (k_hash k) P n (ref_of (k_space k) n) b obj r" and cb: "c = b AND IE_BITS_RIGHT_MASK"
    using rights_entry [OF inv c] .
  let ?entry = "ref_of (k_space k) n"
  note I = rights_invD [OF inv]
  have ok: "right_ok k n (c, obj, r)" by (rule I(4) [OF c n])
  obtain e where e: "get_entry ?entry k = Some e" "ie_bits e = b" "ie_object e = obj" "ie_request e = r"
    using pt by (rule get_points)
  note TC = type_consts
  from ok cb show ?thesis
  proof (cases rule: type_cases)
    case dead_name
    note F = dead_name_flags [OF dead_name(1)]
    have r0: "r = 0" using ok cb dead_name unfolding right_ok.simps by simp
    from dealloc_dead_name_spec [OF inv pt n ix dead_name(1)] obtain k' where
      "dealloc_dead_name n ?entry b k = Some (KERN_SUCCESS, k')" "rights_inv P x k'"
      "caps k' P = (caps k P)(n := if IE_BITS_UREFS b = 1 then None else Some ((b AND IE_BITS_RIGHT_MASK) - 1, IO_NULL, 0))"
      by blast
    then show ?thesis using e dead_name r0
      by (intro exI [of _ KERN_SUCCESS] exI [of _ k'])
        (simp add: ipc_right_dealloc_def Let_def cb dealloc_result_def uref_less_def TC)
  next
    case receive
    then show ?thesis using e c inv
      by (intro exI [of _ KERN_INVALID_RIGHT] exI [of _ k])
        (auto simp: ipc_right_dealloc_def Let_def cb dealloc_result_def TC)
  next
    case port_set
    then show ?thesis using e c inv
      by (intro exI [of _ KERN_INVALID_RIGHT] exI [of _ k])
        (auto simp: ipc_right_dealloc_def Let_def cb dealloc_result_def TC)
  next
    case send_receive
    note F = send_receive_flags [OF send_receive(1)]
    obtain p where p: "k_ports k obj = Some p" using right_port [OF ok] F(8) cb by (metis right_mask_views(8))
    show ?thesis
    proof (cases "IE_BITS_UREFS b = 1")
      case True
      from dealloc_send_receive_last [OF inv pt n send_receive(1) True p] obtain k' where
        "dealloc_send_receive ?entry b obj k = Some (KERN_SUCCESS, k')" "rights_inv P x k'"
        "caps k' P = (caps k P)(n \<mapsto> (no_send_bits (b AND IE_BITS_RIGHT_MASK), obj, r))" by blast
      then show ?thesis using e send_receive True
        by (intro exI [of _ KERN_SUCCESS] exI [of _ k']) (simp add: ipc_right_dealloc_def Let_def cb dealloc_result_def TC)
    next
      case False
      from fewer_urefs [OF inv pt n _ uref_more_than_one [OF send_receive(2) False]] send_receive(1)
      show ?thesis using e send_receive False p
        by (intro exI [of _ KERN_SUCCESS] exI [of _ "set_entry ?entry (\<lambda>e. e\<lparr>ie_bits := b - 1\<rparr>) k"])
          (simp add: ipc_right_dealloc_def dealloc_send_receive_def Let_def cb dealloc_result_def TC)
    qed
  next
    case send
    note F = send_flags [OF send(1)]
    obtain p where p: "k_ports k obj = Some p" using right_port [OF ok] F(8) cb by (metis right_mask_views(8))
    show ?thesis
    proof (cases "ip_active p")
      case True
      show ?thesis
      proof (cases "IE_BITS_UREFS b = 1")
        case u: True
        from dealloc_send_last [OF inv pt n ix send(1) u p True] obtain k' where
          "dealloc_send n ?entry b obj k = Some (KERN_SUCCESS, k')" "rights_inv P x k'"
          "caps k' P = (caps k P)(n := None)" by blast
        then show ?thesis using e send u p True
          by (intro exI [of _ KERN_SUCCESS] exI [of _ k'])
            (simp add: ipc_right_dealloc_def Let_def cb dealloc_result_def TC port_alive_def uref_less_def)
      next
        case u: False
        from fewer_urefs [OF inv pt n _ uref_more_than_one [OF send(2) u]] send(1)
        show ?thesis using e send u p True
          by (intro exI [of _ KERN_SUCCESS] exI [of _ "set_entry ?entry (\<lambda>e. e\<lparr>ie_bits := b - 1\<rparr>) k"])
            (simp add: ipc_right_dealloc_def dealloc_send_def right_check_alive Let_def cb dealloc_result_def TC
              port_alive_def uref_less_def)
      qed
    next
      case False
      from dealloc_dead_port [OF inv pt n ix F(8) send(3) p False] obtain kr k' where
        "dealloc_send n ?entry b obj k = Some (kr, k')" "rights_inv P x k'"
        "kr = (if b AND IE_BITS_COMPAT \<noteq> 0 then KERN_INVALID_NAME else KERN_SUCCESS)"
        "caps k' P = (caps k P)(n := if b AND IE_BITS_COMPAT \<noteq> 0 then None
           else uref_less (dead_bits (b AND IE_BITS_RIGHT_MASK) r) IO_NULL 0)" by metis
      then show ?thesis using e send p False
        by (intro exI [of _ kr] exI [of _ k'])
          (simp add: ipc_right_dealloc_def Let_def cb dealloc_result_def TC port_alive_def)
    qed
  next
    case send_once
    note F = send_once_flags [OF send_once(1)]
    obtain p where p: "k_ports k obj = Some p" using right_port [OF ok] F(8) cb by (metis right_mask_views(8))
    show ?thesis
    proof (cases "ip_active p")
      case True
      from dealloc_send_once_alive [OF inv pt n ix send_once(1) p True] obtain k' where
        "dealloc_send_once n ?entry b obj k = Some (KERN_SUCCESS, k')" "rights_inv P (give_sonce obj x) k'"
        "caps k' P = (caps k P)(n := None)" by metis
      then show ?thesis using e send_once p True
        by (intro exI [of _ KERN_SUCCESS] exI [of _ k'])
          (simp add: ipc_right_dealloc_def Let_def cb dealloc_result_def TC port_alive_def uref_less_def)
    next
      case False
      have u: "unat (IE_BITS_UREFS b) < 65535" using send_once(2) by simp
      from dealloc_dead_port [OF inv pt n ix F(8) u p False] obtain kr k' where
        "dealloc_send_once n ?entry b obj k = Some (kr, k')" "rights_inv P x k'"
        "kr = (if b AND IE_BITS_COMPAT \<noteq> 0 then KERN_INVALID_NAME else KERN_SUCCESS)"
        "caps k' P = (caps k P)(n := if b AND IE_BITS_COMPAT \<noteq> 0 then None
           else uref_less (dead_bits (b AND IE_BITS_RIGHT_MASK) r) IO_NULL 0)" by metis
      then show ?thesis using e send_once p False
        by (intro exI [of _ kr] exI [of _ k'])
          (simp add: ipc_right_dealloc_def Let_def cb dealloc_result_def TC port_alive_def)
    qed
  qed
qed

end
