(* ===== verification/Ipc_Boot.thy ===== *)
theory Ipc_Boot
  imports Ipc_Right_Dealloc Ipc_Queue Ipc_Pset
begin

section \<open>Concrete kernels\<close>

text \<open>
  Small kernels built with the operations of the model, to which the properties are applied: a new
  space, a space with one name in flight, one with a dead name, and one with a send right.
\<close>

text \<open>A global hash table with one empty bucket, and a space with the smallest table.\<close>

definition boot_hash :: ipc_hash_global where
  "boot_hash = \<lparr>ipc_hash_global_size = 1, ipc_hash_global_mask = 0, ipc_hash_global_table = [[]]\<rparr>"

lemma boot_hash_inv: "gh_inv boot_hash" and boot_hash_of [simp]: "gh_of a boot_hash = {}"
  by (simp_all add: boot_hash_def gh_inv_def gh_entries_def gh_of_def bucket_of_def IH_GLOBAL_HASH_def)

definition boot_space :: ipc_space where "boot_space = ipc_space_init 0x1000 0"

lemma boot_space_inv: "space_inv boot_space boot_hash {}" and boot_space_map: "space_map boot_space {} = Map.empty"
  unfolding boot_space_def
  using ipc_space_init_inv [OF _ boot_hash_inv, of 0 "0x1000"] by simp_all

lemma boot_space_sel [simp]:
  "is_active boot_space" "\<not> is_growing boot_space" "is_table_next boot_space = 1" "is_addr boot_space = 0x1000"
  by (simp_all add: boot_space_def ipc_space_init_def)

text \<open>The first name handed out is \<open>0x100\<close>: index 1, generation 0.\<close>

definition boot_space1 :: ipc_space where "boot_space1 = snd (ipc_entry_get boot_space)"

lemmas boot_eval = ipc_entry_get_def boot_space_def ipc_space_init_def its_size_def ipc_table_entries_eq
  table_init_def upt_rec entry_upd_def Let_def zero_entry_def MACH_PORT_MAKE_def mask_defs

lemma boot_get: "ipc_entry_get boot_space = (Inr (0x100, TableEntry 1), boot_space1)"
proof -
  have "fst (ipc_entry_get boot_space) = Inr (0x100, TableEntry 1)" by (simp add: boot_eval)
  then show ?thesis unfolding boot_space1_def by (metis prod.collapse)
qed

lemma boot_space1_inv: "space_inv boot_space1 boot_hash {0x100}"
  and boot_space1_map: "space_map boot_space1 {0x100} = [0x100 \<mapsto> empty_cap]"
  using ipc_entry_get_spec [OF boot_space_inv] boot_get boot_space_map by auto

lemma idx_100 [simp]: "idx 0x100 = 1" by (simp add: MACH_PORT_INDEX_def)

lemma boot_space1_sel [simp]:
  "splay_map (is_tree boot_space1) = Map.empty"
  "entry_at (TableEntry (idx 0x100)) boot_space1 = Some zero_entry"
  "is_addr boot_space1 = 0x1000" "is_active boot_space1"
  by (simp_all add: boot_space1_def boot_eval entry_at_def)

lemma boot_space1_entry [simp]: "entry_at (TableEntry (Suc 0)) boot_space1 = Some zero_entry"
  using boot_space1_sel(2) by simp

definition boot_kernel :: ipc_kernel where
  "boot_kernel = \<lparr>k_space = boot_space1, k_spaces = Map.empty, k_hash = boot_hash, k_ports = Map.empty, k_psets = Map.empty,
     k_marequests = \<lparr>ipc_marequest_mask = 0, imarb_heads = [[]], imar_at = Map.empty\<rparr>,
     k_timestamp = 0, k_events = []\<rparr>"

lemma boot_points: "points (k_space boot_kernel) (k_hash boot_kernel) {0x100} 0x100 (TableEntry 1) 0 IO_NULL 0"
  using boot_space1_inv boot_space1_map boot_space1_sel(2)
  by (simp add: boot_kernel_def points_def ref_of_def zero_entry_def)

lemma boot_imar: "imar_ok (k_marequests boot_kernel)"
  by (simp add: boot_kernel_def imar_ok_def IMAR_HASH_def)

text \<open>Nothing is held outside of the space.\<close>

definition no_outside :: outside where
  "no_outside = \<lparr>o_refs = \<lambda>_. 0, o_sends = \<lambda>_. 0, o_sonces = \<lambda>_. 0, o_receives = \<lambda>_. 0\<rparr>"

subsection \<open>A dead name\<close>

definition dead_kernel :: ipc_kernel where
  "dead_kernel = set_entry (TableEntry 1) (\<lambda>e. e\<lparr>ie_bits := 0x100002\<rparr>) boot_kernel"

lemma dead_kernel_points:
  "points (k_space dead_kernel) (k_hash dead_kernel) {} 0x100 (TableEntry 1) 0x100002 IO_NULL 0"
  "caps dead_kernel {} = [0x100 \<mapsto> (0x100002, IO_NULL, 0)]"
proof -
  have st: "points (k_space dead_kernel) (k_hash dead_kernel) {0x100} 0x100 (TableEntry 1) 0x100002 IO_NULL 0"
    "caps dead_kernel {0x100} = [0x100 \<mapsto> (0x100002, IO_NULL, 0)]"
    using set_points [OF boot_points, of _ "0x100002" IO_NULL 0] boot_space1_map unfolding dead_kernel_def
    by (auto simp: stores_def mask_defs boot_kernel_def)
  note R = refile_points [OF st(1), of "{}"]
  show "points (k_space dead_kernel) (k_hash dead_kernel) {} 0x100 (TableEntry 1) 0x100002 IO_NULL 0"
    "caps dead_kernel {} = [0x100 \<mapsto> (0x100002, IO_NULL, 0)]"
    using R st(2) by (simp_all add: IE_BITS_TYPE_def mask_defs type_consts refiled_def)
qed

lemma dead_kernel_inv: "rights_inv {} no_outside dead_kernel"
proof -
  have ports: "k_ports dead_kernel = Map.empty" and imar: "imar_ok (k_marequests dead_kernel)"
    using boot_imar by (simp_all add: dead_kernel_def) (simp add: boot_kernel_def)
  have "holders sel [0x100 \<mapsto> (0x100002 :: u32, IO_NULL, 0 :: nat)] = 0" if "\<not> sel (0x100002, IO_NULL, 0)" for sel
    using holders_upd [of sel Map.empty "0x100" "Some (0x100002, IO_NULL, 0)"] that by (simp add: holders_def)
  then have "accounts (caps dead_kernel {}) no_outside (k_ports dead_kernel)"
    by (simp add: accounts_def dead_kernel_points(2) ports port_counts_def no_outside_def type_consts)
  moreover have "right_ok dead_kernel 0x100 (0x100002, IO_NULL, 0)"
    by (simp add: right_ok.simps IE_BITS_TYPE_def IE_BITS_UREFS_def mask_defs type_consts)
  ultimately show ?thesis
    unfolding rights_inv_def using pointsD(1) [OF dead_kernel_points(1)] imar by (simp add: dead_kernel_points(2))
qed

subsection \<open>A send right\<close>

text \<open>The port has its receive right elsewhere; the space has one user reference to a send right.\<close>

definition send_port :: ipc_port where
  "send_port = (ipc_port_init 0x5000 0x7 fresh_port)\<lparr>ip_references := 2, ip_bits := io_makebits True IOT_PORT 0,
     ip_srights := 1\<rparr>"

definition send_stored :: ipc_kernel where
  "send_stored = put_port 0x3000 send_port
     (set_entry (TableEntry 1) (\<lambda>e. e\<lparr>ie_bits := 0x10001, ie_object := 0x3000\<rparr>) boot_kernel)"

definition send_kernel :: ipc_kernel where
  "send_kernel = the (hash_insert 0x3000 0x100 (TableEntry 1) send_stored)"

definition receiver_outside :: outside where
  "receiver_outside = no_outside\<lparr>o_refs := (\<lambda>_. 0)(0x3000 := 1), o_receives := (\<lambda>_. 0)(0x3000 := 1)\<rparr>"

lemma send_stored_points:
  "points (k_space send_stored) (k_hash send_stored) {0x100} 0x100 (TableEntry 1) 0x10001 0x3000 0"
  "caps send_stored {0x100} = [0x100 \<mapsto> (0x10001, 0x3000, 0)]"
  using set_points [OF boot_points, of _ "0x10001" "0x3000" 0] boot_space1_map unfolding send_stored_def
  by (auto simp: stores_def mask_defs boot_kernel_def)

lemma send_kernel_points:
  "points (k_space send_kernel) (k_hash send_kernel) {} 0x100 (TableEntry 1) 0x10001 0x3000 0"
  "caps send_kernel {} = [0x100 \<mapsto> (0x10001, 0x3000, 0)]"
  and send_kernel_sel: "k_ports send_kernel = [0x3000 \<mapsto> send_port]" "k_marequests send_kernel = k_marequests boot_kernel"
    "k_addr send_kernel = 0x1000" "is_active (k_space send_kernel)" "k_psets send_kernel = Map.empty"
proof -
  have ty: "IE_BITS_TYPE 0x10001 = MACH_PORT_TYPE_SEND" by (simp add: IE_BITS_TYPE_def mask_defs type_consts)
  have only: "IE_BITS_TYPE d \<noteq> MACH_PORT_TYPE_SEND"
    if "caps send_stored {0x100} m = Some (d, 0x3000, q)" "m \<notin> {0x100}" for m d q
    using that by (simp add: send_stored_points(2))
  obtain s g where *: "hash_insert 0x3000 0x100 (TableEntry 1) send_stored = Some (send_stored\<lparr>k_space := s, k_hash := g\<rparr>)"
      "points s g ({0x100} - {0x100}) 0x100 (TableEntry 1) 0x10001 0x3000 0"
      "space_map s ({0x100} - {0x100}) = caps send_stored {0x100}" "sframe (k_space send_stored) s"
    using send_stored_points(2) by (auto intro: insert_points [OF send_stored_points(1) ty, of thesis])
  then have k: "send_kernel = send_stored\<lparr>k_space := s, k_hash := g\<rparr>" by (simp add: send_kernel_def)
  show "points (k_space send_kernel) (k_hash send_kernel) {} 0x100 (TableEntry 1) 0x10001 0x3000 0"
    "caps send_kernel {} = [0x100 \<mapsto> (0x10001, 0x3000, 0)]"
    using * by (simp_all add: k send_stored_points(2))
  show "k_ports send_kernel = [0x3000 \<mapsto> send_port]" "k_marequests send_kernel = k_marequests boot_kernel"
    "k_addr send_kernel = 0x1000" "is_active (k_space send_kernel)" "k_psets send_kernel = Map.empty"
    using *(4) by (simp_all add: k send_stored_def sframe_def) (simp_all add: boot_kernel_def)
qed

lemma send_port_sel [simp]:
  "ip_references send_port = 2" "ip_active send_port" "ip_srights send_port = 1" "ip_sorights send_port = 0"
  "requests_ok send_port" "ip_dnrequests send_port = None" "ip_pset send_port = IPS_NULL"
  "ip_nsrequest send_port = IP_NULL" "imq_messages (ip_messages send_port) = []" "ip_blocked send_port = []"
  by (simp_all add: send_port_def ipc_port_init_def fresh_port_def io_makebits_def IOT_PORT_def io_active_iff bit_ACTIVE
      IO_BITS_ACTIVE_def requests_ok_def IPR_NULL_def ipc_mqueue_init_def)

lemma send_holders:
  "holders sel [0x100 \<mapsto> (0x10001 :: u32, 0x3000 :: addr, 0 :: nat)] = (if sel (0x10001, 0x3000, 0) then 1 else 0)"
  using holders_upd [of sel Map.empty "0x100" "Some (0x10001, 0x3000, 0)"] by (simp add: holders_def)

lemma send_kernel_inv: "rights_inv {} receiver_outside send_kernel"
proof -
  have imar: "imar_ok (k_marequests send_kernel)" using boot_imar by (simp add: send_kernel_sel)
  have "accounts (caps send_kernel {}) receiver_outside (k_ports send_kernel)"
    unfolding accounts_def
    by (simp add: send_kernel_points(2) send_kernel_sel send_holders port_counts_def receiver_outside_def no_outside_def type_consts)
  moreover have "right_ok send_kernel 0x100 (0x10001, 0x3000, 0)"
    by (simp add: right_ok.simps IE_BITS_TYPE_def IE_BITS_UREFS_def mask_defs type_consts send_kernel_sel IO_VALID_def
        IO_NULL_def IO_DEAD_def)
  ultimately show ?thesis
    unfolding rights_inv_def using pointsD(1) [OF send_kernel_points(1)] imar by (simp add: send_kernel_points(2))
qed

subsection \<open>A send right to a dead port\<close>

text \<open>The port died after the right was made; its last holder still has a reference.\<close>

definition doomed_port :: ipc_port where "doomed_port = send_port\<lparr>ip_bits := 0\<rparr>"

definition doomed_kernel :: ipc_kernel where "doomed_kernel = put_port 0x3000 doomed_port send_kernel"

lemma doomed_port_sel [simp]:
  "\<not> ip_active doomed_port" "ip_references doomed_port = 2" "requests_ok doomed_port"
  using send_port_sel(5) by (simp_all add: doomed_port_def io_active_iff requests_ok_def)

lemma doomed_kernel_points:
  "points (k_space doomed_kernel) (k_hash doomed_kernel) {} 0x100 (TableEntry 1) 0x10001 0x3000 0"
  "caps doomed_kernel {} = [0x100 \<mapsto> (0x10001, 0x3000, 0)]"
  and doomed_kernel_ports: "k_ports doomed_kernel = [0x3000 \<mapsto> doomed_port]"
  using send_kernel_points by (simp_all add: doomed_kernel_def send_kernel_sel)

lemma doomed_kernel_inv: "rights_inv {} receiver_outside doomed_kernel"
proof -
  have imar: "imar_ok (k_marequests doomed_kernel)" using boot_imar by (simp add: doomed_kernel_def send_kernel_sel)
  have "accounts (caps doomed_kernel {}) receiver_outside (k_ports doomed_kernel)"
    unfolding accounts_def
    by (simp add: doomed_kernel_points(2) doomed_kernel_ports send_holders port_counts_def receiver_outside_def
        no_outside_def type_consts)
  moreover have "right_ok doomed_kernel 0x100 (0x10001, 0x3000, 0)"
    by (simp add: right_ok.simps IE_BITS_TYPE_def IE_BITS_UREFS_def mask_defs type_consts doomed_kernel_ports
        IO_VALID_def IO_NULL_def IO_DEAD_def)
  ultimately show ?thesis
    unfolding rights_inv_def using pointsD(1) [OF doomed_kernel_points(1)] imar by (simp add: doomed_kernel_points(2))
qed

subsection \<open>A port in limbo\<close>

text \<open>Its receive right has been taken out of a space, and is in no message yet.\<close>

definition limbo_port :: ipc_port where
  "limbo_port = send_port\<lparr>ip_receiver_name := MACH_PORT_NULL, ip_data := IP_NULL\<rparr>"

definition limbo_kernel :: ipc_kernel where
  "limbo_kernel = boot_kernel\<lparr>k_ports := [0x6000 \<mapsto> limbo_port]\<rparr>"

lemma limbo_limbo [simp]: "limbo limbo_port"
  using send_port_sel(2) by (simp add: limbo_def limbo_port_def)

lemma limbo_transit_ok: "transit_ok (k_ports limbo_kernel)"
proof -
  have "transit (k_ports limbo_kernel) = {}"
    using limbo_limbo by (auto simp: transit_def limbo_kernel_def limbo_def split: if_splits)
  then show ?thesis by (simp add: transit_ok_def limbo_kernel_def acyclic_def)
qed

subsection \<open>Queues and a port set\<close>

definition empty_ring :: ipc_ring where
  "empty_ring = \<lparr>ring_next = \<lambda>_. 0, ring_prev = \<lambda>_. 0, ring_base = 0\<rparr>"

lemma empty_ring_list: "ring_list empty_ring []" by (simp add: ring_list_def empty_ring_def cyclic_def)

definition some_kmsg :: ipc_kmsg where
  "some_kmsg = \<lparr>ikm_addr = 0x9000, ikm_marequest = 0, msgh_bits = 0, msgh_size = 24,
     msgh_remote_port = 0x3000, msgh_local_port = 0\<rparr>"

definition some_pset :: ipc_pset where
  "some_pset = \<lparr>ips_references = 1, ips_bits = io_makebits True IOT_PORT_SET 0, ips_local_name = 0x200,
     ips_messages = ipc_mqueue_init\<rparr>"

definition pset_kernel :: ipc_kernel where "pset_kernel = put_pset 0x7000 some_pset send_kernel"

definition one_other :: "addr \<Rightarrow> nat" where "one_other a = (if a = 0x7000 then 1 else 0)"

lemma pset_kernel_sel [simp]:
  "k_ports pset_kernel = [0x3000 \<mapsto> send_port]" "k_psets pset_kernel = [0x7000 \<mapsto> some_pset]"
  "mqueue_ok (ip_messages send_port)" "mqueue_ok (ips_messages some_pset)"
  "imq_messages (ips_messages some_pset) = []" "ips_references some_pset = 1"
  by (simp_all add: pset_kernel_def send_kernel_sel mqueue_ok_def some_pset_def ipc_mqueue_init_def)

lemma pset_kernel_members [simp]: "members pset_kernel a = (if a = IPS_NULL then {0x3000} else {})"
  using send_port_sel(7) by (auto simp: members_def split: if_splits)

lemma pset_kernel_ok: "psets_ok one_other pset_kernel"
  unfolding psets_inv_def using send_port_sel(7) by (simp add: one_other_def IPS_NULL_def)

definition empty_splay :: "nat ipc_splay_tree" where "empty_splay = ipc_splay_tree_init raw_splay_tree"

lemma empty_splay [simp]: "splay_inv empty_splay" "splay_list empty_splay = []"
  by (simp_all add: empty_splay_def)

definition one_splay :: "nat ipc_splay_tree" where "one_splay = ipc_splay_tree_insert 0x305 7 empty_splay"

lemma one_splay [simp]: "splay_inv one_splay" "splay_list one_splay = [(0x305, 7)]"
  using insert_list [of empty_splay "0x305" 7] by (simp_all add: one_splay_def)

text \<open>A sorted list is its part below a key followed by the rest.\<close>

lemma split_strict_keys:
  "strict_keys xs \<Longrightarrow> filter (\<lambda>x. fst x < name) xs @ filter (\<lambda>x. name \<le> fst x) xs = xs"
proof (induction xs)
  case (Cons x xs)
  then have "filter (\<lambda>x. fst x < name) xs = []" if "name \<le> fst x"
    using that by (force simp: strict_keys_def filter_empty_conv)
  with Cons show ?case by (auto simp: strict_keys_def filter_empty_conv)
qed simp

subsection \<open>Hash tables\<close>

definition two_entries :: "ipc_entry list" where
  "two_entries = [zero_entry, zero_entry\<lparr>ie_object := 0x3000\<rparr>]"

lemma two_entries_inv: "hash_inv two_entries {}"
  by (auto simp: hash_inv_def two_entries_def zero_entry_def less_Suc_eq)

lemma local_hash_round:
  assumes inv: "hash_inv t S" and i: "i \<notin> S" "0 < i" "i < length t"
    and inj: "inj_on (\<lambda>j. ie_object (t ! j)) (insert i S)"
  shows "\<exists>t'. ipc_hash_local_insert (ie_object (t ! i)) i t = Some t' \<and> hash_inv t' (insert i S) \<and>
    ipc_hash_local_lookup t' (ie_object (t ! i)) = Some (Some i) \<and>
    (\<exists>t''. ipc_hash_local_delete (ie_object (t ! i)) i t' = Some t'' \<and> hash_inv t'' S \<and>
       ipc_hash_local_lookup t'' (ie_object (t ! i)) = Some None)"
proof -
  obtain r where ins: "ipc_hash_local_insert (ie_object (t ! i)) i t = Some (set_slot r i t)"
      and inv': "hash_inv (set_slot r i t) (insert i S)"
    by (rule ipc_hash_local_insert_spec [OF inv i refl])
  define t' where "t' = set_slot r i t"
  have len: "length t' = length t" and obj: "ie_object (t' ! j) = ie_object (t ! j)" for j
    by (simp_all add: t'_def)
  from inv' have inv': "hash_inv t' (insert i S)" by (simp add: t'_def)
  have inj': "inj_on (\<lambda>j. ie_object (t' ! j)) (insert i S)" using inj by (simp add: obj)
  have the_i: "(THE j. j \<in> insert i S \<and> ie_object (t ! j) = ie_object (t ! i)) = i"
    using inj i by (intro the_equality) (auto simp: inj_on_def)
  have found: "ipc_hash_local_lookup t' (ie_object (t ! i)) = Some (Some i)"
    using ipc_hash_local_lookup_spec [OF inv' _ inj', of "ie_object (t ! i)"] i len the_i unfolding obj by fastforce
  obtain t'' where del: "ipc_hash_local_delete (ie_object (t ! i)) i t' = Some t''" and inv'': "hash_inv t'' (insert i S - {i})"
      and "length t'' = length t'" and same: "\<forall>j. t'' ! j = (t' ! j)\<lparr>ie_index := slot t'' j\<rparr>"
    by (rule ipc_hash_local_delete_spec [OF inv', of i "ie_object (t ! i)"]) (auto simp: obj)
  have obj'': "ie_object (t'' ! j) = ie_object (t ! j)" for j
    using same [rule_format, of j] by (metis obj ipc_entry.select_convs(2) ipc_entry.surjective ipc_entry.update_convs(4))
  have S: "insert i S - {i} = S" using i by blast
  have none: "\<not> (\<exists>j\<in>S. ie_object (t'' ! j) = ie_object (t ! i))" using inj i(1) by (auto simp: obj'' inj_on_def)
  have "t'' \<noteq> []" "inj_on (\<lambda>j. ie_object (t'' ! j)) S"
    using i len \<open>length t'' = length t'\<close> inj by (auto simp: obj'')
  then have "ipc_hash_local_lookup t'' (ie_object (t ! i)) = Some None"
    using ipc_hash_local_lookup_spec [of t'' S "ie_object (t ! i)"] inv'' S none by simp
  with ins found del inv' inv'' S show ?thesis by (auto simp: t'_def)
qed

definition one_marequest :: imar_table where
  "one_marequest = imar_insert 0xa000 \<lparr>imar_space = 0x1000, imar_name = 0x100, imar_soright = 0x5000\<rparr>
     (k_marequests boot_kernel)"

lemma one_marequest_ok: "imar_ok one_marequest"
  and one_marequest_find: "imar_find one_marequest sp n = (if sp = 0x1000 \<and> n = 0x100 then Some 0xa000 else None)"
proof -
  have "imar_find (k_marequests boot_kernel) sp n = None" for sp n
    by (simp add: imar_find_def boot_kernel_def IMAR_HASH_def)
  then show "imar_ok one_marequest"
    "imar_find one_marequest sp n = (if sp = 0x1000 \<and> n = 0x100 then Some 0xa000 else None)"
    unfolding one_marequest_def using imar_insert_spec [OF boot_imar, of "0xa000"] by (auto simp: boot_kernel_def)
qed

end
