(* ===== verification/Ipc_Port_Compat.thy ===== *)
theory Ipc_Port_Compat
  imports Ipc_Right_Dealloc
begin

section \<open>Compatibility requests of a port that dies\<close>

text \<open>
  \<open>ipc_port_delete_compat\<close> (\<open>ipc/ipc_port.c\<close>), which \<open>ipc_port_destroy\<close> calls for every request that a
  compat entry registered: the entry and its references go, and the space is told through its notify
  port.  What it does to the entry is what \<open>ipc_right_check\<close> does to it.
\<close>

subsection \<open>Looking the entry up\<close>

lemma lookup_points:
  assumes "points s g P n entry b obj r" and "n \<notin> P"
  obtains s' where "ipc_entry_lookup n s = (Some entry, s')" and "reshaped s s'" and "points s' g P n entry b obj r"
proof -
  note D = pointsD [OF assms(1)]
  obtain res s' where l: "ipc_entry_lookup n s = (res, s')" by (cases "ipc_entry_lookup n s")
  with ipc_entry_lookup_spec [OF D(1) assms(2)] have lk: "lookup_ok s P n res s'" by simp
  with D(2,3) have res: "res = Some entry" and re: "reshaped s s'"
    by (auto simp: lookup_ok_def ref_of_def split: option.splits)
  have "entry_at entry s' = entry_at entry s"
    using reshaped_sel [OF re] by (simp add: entry_at_def split: ipc_entry_ref.split)
  then have "points s' g P n entry b obj r"
    using assms(1) reshaped_inv [OF re D(1)] unfolding points_def ref_of_reshaped [OF re] reshaped_map [OF re] by metis
  with l res re show thesis by (intro that) simp_all
qed

lemma rights_inv_reshaped:
  assumes "rights_inv P x k" and "reshaped (k_space k) s"
  shows "rights_inv P x (k\<lparr>k_space := s\<rparr>)"
proof -
  have "right_ok (k\<lparr>k_space := s\<rparr>) m d = right_ok k m d" for m d
    by (cases d) (simp add: right_ok.simps reshaped_sel(8) [OF assms(2)])
  moreover have "caps (k\<lparr>k_space := s\<rparr>) P = caps k P" by (simp add: reshaped_map [OF assms(2)])
  ultimately show ?thesis using assms(1) reshaped_inv [OF assms(2)] unfolding rights_inv_def
    by (simp del: split_paired_All)
qed

subsection \<open>The send right for the notification\<close>

definition give_send :: "addr \<Rightarrow> outside \<Rightarrow> outside" where
  "give_send a x = x\<lparr>o_refs := (o_refs x)(a := o_refs x a + 1), o_sends := (o_sends x)(a := o_sends x a + 1)\<rparr>"

lemma rights_inv_copied_send:
  assumes inv: "rights_inv P x k" and q: "k_ports k a = Some q"
    and room: "unat (ip_references q) + 1 < 2 ^ 32" "unat (ip_srights q) + 1 < 2 ^ 32"
  shows "rights_inv P (give_send a x) (put_port a (ip_reference q\<lparr>ip_srights := ip_srights q + 1\<rparr>) k)"
    (is "rights_inv P ?x ?k")
  unfolding rights_inv_def
proof (intro conjI allI impI)
  note I = rights_invD [OF inv]
  show "space_inv (k_space ?k) (k_hash ?k) P" "imar_ok (k_marequests ?k)" using I(1,2) by simp_all
  have one: "unat (ip_references q + 1) = unat (ip_references q) + 1" "unat (ip_srights q + 1) = unat (ip_srights q) + 1"
    using room by (simp_all add: unat_word_ariths)
  show "accounts (caps ?k P) ?x (k_ports ?k)"
    unfolding accounts_def
  proof
    fix b
    have "port_counts (holders (has_ref b) (caps k P) + o_refs x b) (holders (has_send b) (caps k P) + o_sends x b)
        (holders (has_sonce b) (caps k P) + o_sonces x b) (holders (has_receive b) (caps k P) + o_receives x b) (k_ports k b)"
      and "o_receives x b \<le> o_refs x b" using I(3) unfolding accounts_def by blast+
    then show "port_counts (holders (has_ref b) (caps ?k P) + o_refs ?x b) (holders (has_send b) (caps ?k P) + o_sends ?x b)
        (holders (has_sonce b) (caps ?k P) + o_sonces ?x b) (holders (has_receive b) (caps ?k P) + o_receives ?x b) (k_ports ?k b) \<and>
        o_receives ?x b \<le> o_refs ?x b"
      using q one by (cases "b = a") (auto simp: port_counts_def give_send_def)
  qed
  fix m d assume d: "caps ?k P m = Some d"
  then have d': "caps k P m = Some d" by simp
  show "if m \<in> P then IE_BITS_TYPE (fst d) = 0 else right_ok ?k m d"
  proof (cases "m \<in> P")
    case True
    then show ?thesis using I(5) [OF d'] by simp
  next
    case False
    have "m \<noteq> m + 1" by simp
    then have "right_ok ?k m d"
    proof (rule right_ok_frame [OF I(4) [OF d' False], where obj = a])
      assume "fst d AND MACH_PORT_TYPE_PORT_RIGHTS \<noteq> 0" "fst (snd d) = a"
      then have "requests_ok q" using right_port [of k m "fst d" "fst (snd d)" "snd (snd d)"] I(4) [OF d' False] q by auto
      then show "\<exists>p p'. k_ports k a = Some p \<and> k_ports ?k a = Some p' \<and> port_step (m + 1) p p'"
        using q by (auto intro!: port_step_fields)
    qed simp_all
    then show ?thesis using False by simp
  qed
qed

subsection \<open>The entry\<close>

lemma compat_right:
  assumes inv: "rights_inv P x k" and pt: "points (k_space k) (k_hash k) P n entry b obj r" and n: "n \<notin> P"
    and c: "b AND IE_BITS_COMPAT \<noteq> 0" and p: "k_ports k obj = Some p" "\<not> ip_active p"
  shows "b AND MACH_PORT_TYPE_PORT_RIGHTS \<noteq> 0" and "b AND MACH_PORT_TYPE_RECEIVE = 0"
    and "IE_BITS_TYPE b = MACH_PORT_TYPE_SEND \<or> IE_BITS_TYPE b = MACH_PORT_TYPE_SEND_ONCE \<and> b AND IE_BITS_MAREQUEST = 0"
proof -
  have ok: "right_ok k n (b AND IE_BITS_RIGHT_MASK, obj, r)" by (rule rights_invD(4) [OF inv pointsD(2) [OF pt] n])
  have set: "IE_BITS_TYPE b \<noteq> MACH_PORT_TYPE_PORT_SET" "IE_BITS_TYPE b \<noteq> MACH_PORT_TYPE_DEAD_NAME"
    using ok c unfolding right_ok.simps by auto
  show port: "b AND MACH_PORT_TYPE_PORT_RIGHTS \<noteq> 0"
    by (cases rule: type_cases [OF ok refl])
      (use set in \<open>simp_all add: send_flags receive_flags send_receive_flags send_once_flags\<close>)
  obtain p1 where "k_ports k obj = Some p1" "b AND MACH_PORT_TYPE_RECEIVE \<noteq> 0 \<Longrightarrow> ip_active p1"
    using right_port [OF ok] port by (metis right_mask_views(2,8))
  with p show recv: "b AND MACH_PORT_TYPE_RECEIVE = 0" by auto
  have m: "b AND IE_BITS_MAREQUEST \<noteq> 0 \<longrightarrow> b AND MACH_PORT_TYPE_SEND_RECEIVE \<noteq> 0" using ok unfolding right_ok.simps by simp
  show "IE_BITS_TYPE b = MACH_PORT_TYPE_SEND \<or> IE_BITS_TYPE b = MACH_PORT_TYPE_SEND_ONCE \<and> b AND IE_BITS_MAREQUEST = 0"
    by (cases rule: type_cases [OF ok refl]) (use set recv m in \<open>auto simp: receive_flags send_receive_flags send_once_flags\<close>)
qed

lemma right_destroy_dead_check:
  assumes inv: "rights_inv P x k" and pt: "points (k_space k) (k_hash k) P n entry b obj r" and n: "n \<notin> P"
    and c: "b AND IE_BITS_COMPAT \<noteq> 0" and p: "k_ports k obj = Some p" "\<not> ip_active p"
    and ix: "\<forall>m\<in>P. idx m \<noteq> idx n" and check: "ipc_right_check obj n entry k = Some (True, k')"
  shows "right_destroy_dead n entry k = Some (KERN_INVALID_NAME, k')"
proof -
  obtain e where e: "get_entry entry k = Some e" "ie_bits e = b" "ie_object e = obj" "ie_request e = r"
    using pt by (rule get_points)
  note T = compat_right [OF inv pt n c p]
  have comp: "(b AND NOT IE_BITS_MAREQUEST) AND IE_BITS_COMPAT = b AND IE_BITS_COMPAT"
    by (auto intro!: bit_word_eqI simp: bits_simps bit_and_iff bit_not_iff)
  have dis: "MACH_PORT_TYPE_SEND_ONCE \<noteq> MACH_PORT_TYPE_SEND" by (simp add: type_consts)
  have run: "right_destroy_dead n entry k = Some (KERN_INVALID_NAME, k')"
    if "(if b AND IE_BITS_MAREQUEST \<noteq> 0 then marequest_cancel n k else Some k) = Some k1"
      and "(if IE_BITS_TYPE b = MACH_PORT_TYPE_SEND then hash_delete obj n entry k1 else Some k1) = Some k2"
      and "k_ports k2 obj = Some p" and "ip_check_unlock obj (put_port obj (ip_release p) k2) = Some k3"
      and "entry_dealloc n entry (set_entry entry (\<lambda>e. e\<lparr>ie_request := 0, ie_object := IO_NULL\<rparr>) k3) = Some k'" for k1 k2 k3
    using that e c p(2) T(3) unfolding right_destroy_dead_def by auto
  from T(3) show ?thesis
  proof
    assume s: "IE_BITS_TYPE b = MACH_PORT_TYPE_SEND"
    obtain k1 where k1: "(if b AND IE_BITS_MAREQUEST \<noteq> 0 then marequest_cancel n k else Some k) = Some k1"
      using check e p s send_flags(1) [OF s] by (auto simp: ipc_right_check_def Let_def bind_eq_Some_conv split: if_splits)
    then have p1: "k_ports k1 = k_ports k" using unfile_ports(1) by (auto split: if_splits)
    obtain k2 k3 where k2: "hash_delete obj n entry k1 = Some k2" "ipc_port_release obj k2 = Some k3"
        "entry_dealloc n entry (set_entry entry (\<lambda>e. e\<lparr>ie_request := 0, ie_object := IO_NULL\<rparr>) k3) = Some k'"
      using check e p s k1 c comp send_flags(1) [OF s]
      by (auto simp: ipc_right_check_def Let_def bind_eq_Some_conv split: if_splits)
    have p2: "k_ports k2 obj = Some p" using unfile_ports(2) [OF k2(1)] p1 p by simp
    then have "ip_check_unlock obj (put_port obj (ip_release p) k2) = Some k3" using k2(2) by (simp add: ipc_object_release_def)
    from run [OF k1 _ p2 this k2(3)] show ?thesis using s k2(1) by simp
  next
    assume s: "IE_BITS_TYPE b = MACH_PORT_TYPE_SEND_ONCE \<and> b AND IE_BITS_MAREQUEST = 0"
    then obtain k3 where k3: "ipc_port_release obj k = Some k3"
        "entry_dealloc n entry (set_entry entry (\<lambda>e. e\<lparr>ie_request := 0, ie_object := IO_NULL\<rparr>) k3) = Some k'"
      using check e p c send_once_flags(1) [of b]
      by (auto simp: ipc_right_check_def Let_def bind_eq_Some_conv split: if_splits)
    then have "ip_check_unlock obj (put_port obj (ip_release p) k) = Some k3" using p by (simp add: ipc_object_release_def)
    from run [OF _ _ p(1) this k3(2)] show ?thesis using s dis by simp
  qed
qed

subsection \<open>The whole operation\<close>

text \<open>The send right of the space that gets the notification: none when the space has no live notify port.\<close>

definition notified :: "ipc_kernel \<Rightarrow> addr option" where
  "notified k =
     (let a = is_notify (k_space k) in
      if \<not> IP_VALID a then None
      else case k_ports k a of None \<Rightarrow> None | Some q \<Rightarrow> if ip_active q then Some a else None)"

lemma make_notify_spec:
  assumes inv: "rights_inv P x k"
    and room: "\<And>q. IP_VALID (is_notify (k_space k)) \<Longrightarrow> \<exists>q. k_ports k (is_notify (k_space k)) = Some q \<and>
      unat (ip_references q) + 1 < 2 ^ 32 \<and> unat (ip_srights q) + 1 < 2 ^ 32"
  obtains sright k' where "ipc_space_make_notify k = Some (sright, k')"
    and "IP_VALID sright \<longleftrightarrow> notified k \<noteq> None" and "notified k = None \<longrightarrow> k' = k"
    and "\<And>a. notified k = Some a \<Longrightarrow> sright = a"
    and "rights_inv P (case notified k of None \<Rightarrow> x | Some a \<Rightarrow> give_send a x) k'"
    and "k_space k' = k_space k" and "k_hash k' = k_hash k" and "k_events k' = k_events k"
    and "\<And>b p. k_ports k b = Some p \<Longrightarrow> \<not> ip_active p \<Longrightarrow> k_ports k' b = Some p"
proof (cases "IP_VALID (is_notify (k_space k))")
  case False
  then have n: "notified k = None" by (simp add: notified_def)
  show thesis
    by (rule that [of "is_notify (k_space k)" k]) (use False n inv in \<open>auto simp: ipc_space_make_notify_def ipc_port_copy_send_def\<close>)
next
  case True
  let ?a = "is_notify (k_space k)"
  from room [OF True] obtain q where q: "k_ports k ?a = Some q" "unat (ip_references q) + 1 < 2 ^ 32" "unat (ip_srights q) + 1 < 2 ^ 32"
    by blast
  show thesis
  proof (cases "ip_active q")
    case False
    then have n: "notified k = None" using q True by (simp add: notified_def Let_def)
    have "\<not> IP_VALID IP_DEAD" by (simp add: IO_VALID_def)
    then show thesis
      by (intro that [of IP_DEAD k]) (use True False q n inv in \<open>auto simp: ipc_space_make_notify_def ipc_port_copy_send_def\<close>)
  next
    case act: True
    then have n: "notified k = Some ?a" using q True by (simp add: notified_def Let_def)
    let ?k = "put_port ?a (ip_reference q\<lparr>ip_srights := ip_srights q + 1\<rparr>) k"
    have "rights_inv P (give_send ?a x) ?k" by (rule rights_inv_copied_send [OF inv q])
    then show thesis
      by (intro that [of ?a ?k]) (use True act q n in \<open>auto simp: ipc_space_make_notify_def ipc_port_copy_send_def\<close>)
  qed
qed

text \<open>Nothing on the way touches the references of the space.\<close>

lemma refs_hash_delete: "ipc_hash_delete obj n entry s g = Some (s', g') \<Longrightarrow> is_references s' = is_references s"
  by (auto simp: ipc_hash_delete_def ipc_hash_global_delete_def Let_def bind_eq_Some_conv split: if_splits)

lemma refs_move: "move_to_table n e i (s, g) = Some (s', g') \<Longrightarrow> is_references s' = is_references s"
  by (auto simp: move_to_table_def ipc_hash_global_delete_def Let_def bind_eq_Some_conv split: if_splits prod.splits)

lemma refs_collision: "ipc_entry_tree_collision n s = (c, s') \<Longrightarrow> is_references s' = is_references s"
  by (auto simp: ipc_entry_tree_collision_def Let_def split: prod.splits)

lemma refs_dealloc_collision: "dealloc_collision i (s, g) = Some (s', g') \<Longrightarrow> is_references s' = is_references s"
  by (auto simp: dealloc_collision_def Let_def bind_eq_Some_conv dest!: refs_move split: prod.splits option.splits)

lemma refs_dealloc: "ipc_entry_dealloc n entry (s, g) = Some (s', g') \<Longrightarrow> is_references s' = is_references s"
  by (auto simp: ipc_entry_dealloc_def Let_def dest!: refs_dealloc_collision refs_collision split: if_splits prod.splits)

lemma refs_store [simp]: "is_references (entry_store entry f s) = is_references s"
  by (simp add: entry_store_def split: ipc_entry_ref.split)

lemma kernel_refs:
  "marequest_cancel n k = Some k' \<Longrightarrow> k_space k' = k_space k"
  "hash_delete obj n entry k = Some k' \<Longrightarrow> is_references (k_space k') = is_references (k_space k)"
  "entry_dealloc n entry k = Some k' \<Longrightarrow> is_references (k_space k') = is_references (k_space k)"
  "ip_check_unlock a k = Some k' \<Longrightarrow> k_space k' = k_space k"
  "is_references (k_space (set_entry entry f k)) = is_references (k_space k)"
  by (auto simp: marequest_cancel_def hash_delete_def entry_dealloc_def ip_check_unlock_def set_entry_def bind_eq_Some_conv
      dest: refs_hash_delete refs_dealloc)

lemma right_destroy_dead_refs:
  assumes "right_destroy_dead n entry k = Some (kr, k')"
  shows "is_references (k_space k') = is_references (k_space k)"
proof -
  obtain e where e: "get_entry entry k = Some e"
    using assms by (cases "get_entry entry k") (simp_all add: right_destroy_dead_def)
  define c1 where "c1 = (if ie_bits e AND IE_BITS_MAREQUEST \<noteq> 0 then marequest_cancel n k else Some k)"
  define c2 where "c2 k1 = (if IE_BITS_TYPE (ie_bits e) = MACH_PORT_TYPE_SEND then hash_delete (ie_object e) n entry k1 else Some k1)" for k1
  have run: "c1 \<bind> (\<lambda>k1. c2 k1 \<bind> (\<lambda>k2. k_ports k2 (ie_object e) \<bind> (\<lambda>p. if \<not> ip_active p
      then ip_check_unlock (ie_object e) (put_port (ie_object e) (ip_release p) k2) \<bind> (\<lambda>k3.
        entry_dealloc n entry (set_entry entry (\<lambda>e. e\<lparr>ie_request := 0, ie_object := IO_NULL\<rparr>) k3) \<bind> (\<lambda>k4.
        Some (if ie_bits e AND IE_BITS_COMPAT \<noteq> 0 then KERN_INVALID_NAME else KERN_SUCCESS, k4)))
      else None))) = Some (kr, k')"
    using assms unfolding right_destroy_dead_def e Let_def bind.bind_lunit c1_def [symmetric] c2_def [symmetric]
    by (rule if_split [where P = "\<lambda>x. x = Some (kr, k')", THEN iffD1, THEN conjE]) (metis option.distinct(1))
  then obtain k1 where k1: "c1 = Some k1" by (cases c1) simp_all
  note run = run [unfolded k1 bind.bind_lunit]
  then obtain k2 where k2: "c2 k1 = Some k2" by (cases "c2 k1") simp_all
  note run = run [unfolded k2 bind.bind_lunit]
  then obtain p where p: "k_ports k2 (ie_object e) = Some p" "\<not> ip_active p"
    by (cases "k_ports k2 (ie_object e)") (simp_all split: if_splits)
  with run obtain k3 where k3: "ip_check_unlock (ie_object e) (put_port (ie_object e) (ip_release p) k2) = Some k3"
      "entry_dealloc n entry (set_entry entry (\<lambda>e. e\<lparr>ie_request := 0, ie_object := IO_NULL\<rparr>) k3) = Some k'"
    by (auto simp: bind_eq_Some_conv)
  have "is_references (k_space k1) = is_references (k_space k)" using k1 kernel_refs(1) [of n k k1] by (auto simp: c1_def split: if_splits)
  moreover have "is_references (k_space k2) = is_references (k_space k1)"
    using k2 kernel_refs(2) [of "ie_object e" n entry k1 k2] by (auto simp: c2_def split: if_splits)
  moreover have "k_space k3 = k_space k2" using kernel_refs(4) [OF k3(1)] by simp
  moreover have "is_references (k_space k') = is_references (k_space k3)" using kernel_refs(3) [OF k3(2)] by (simp add: kernel_refs(5))
  ultimately show ?thesis by simp
qed

lemma rights_inv_space_release: "rights_inv P x (space_release k) = rights_inv P x k"
proof -
  have "right_ok (space_release k) m d = right_ok k m d" for m d
    by (cases d) (simp add: right_ok.simps)
  moreover have "space_inv (k_space (space_release k)) (k_hash (space_release k)) P = space_inv (k_space k) (k_hash k) P"
    by (simp add: space_release_def)
  ultimately show ?thesis by (simp add: rights_inv_def del: split_paired_All)
qed

lemma delete_compat_spec:
  assumes inv: "rights_inv P x k" and pt: "points (k_space k) (k_hash k) P n entry b obj r" and n: "n \<notin> P"
    and ix: "\<forall>m\<in>P. idx m \<noteq> idx n" and c: "b AND IE_BITS_COMPAT \<noteq> 0" and p: "k_ports k obj = Some p" "\<not> ip_active p"
    and act: "is_active (k_space k)"
    and room: "IP_VALID (is_notify (k_space k)) \<longrightarrow> (\<exists>q. k_ports k (is_notify (k_space k)) = Some q \<and>
      unat (ip_references q) + 1 < 2 ^ 32 \<and> unat (ip_srights q) + 1 < 2 ^ 32)"
  shows "\<exists>k'. ipc_port_delete_compat obj n k = Some k' \<and>
    rights_inv P (case notified k of None \<Rightarrow> x | Some a \<Rightarrow> give_send a x) k' \<and>
    caps k' P = (caps k P)(n := None) \<and> k_ports k' obj = released p \<and>
    k_events k' = k_events k @ (case notified k of None \<Rightarrow> [] | Some a \<Rightarrow> [Notify_Port_Deleted_Compat a n]) \<and>
    is_references (k_space k') = is_references (k_space k) - 1"
proof -
  from lookup_points [OF pt n] obtain s where s: "ipc_entry_lookup n (k_space k) = (Some entry, s)"
      "reshaped (k_space k) s" "points s (k_hash k) P n entry b obj r" .
  let ?k = "k\<lparr>k_space := s\<rparr>"
  have "s = (k_space k)\<lparr>is_tree := is_tree s\<rparr>" using s(2) unfolding reshaped_def by (rule conjunct1)
  then have refs: "is_references s = is_references (k_space k)" and ntf: "is_notify s = is_notify (k_space k)"
    by (cases "k_space k"; cases s; simp)+
  have look: "ipc_right_lookup_write n k = (Inr entry, ?k)"
    using act s(1) by (simp add: ipc_right_lookup_write_def)
  have inv1: "rights_inv P x ?k" by (rule rights_inv_reshaped [OF inv s(2)])
  have pt1: "points (k_space ?k) (k_hash ?k) P n entry b obj r" using s(3) by simp
  have not1: "notified ?k = notified k" by (simp add: notified_def ntf Let_def)
  have room1: "\<exists>q. k_ports ?k (is_notify (k_space ?k)) = Some q \<and> unat (ip_references q) + 1 < 2 ^ 32 \<and> unat (ip_srights q) + 1 < 2 ^ 32"
    if "IP_VALID (is_notify (k_space ?k))" using room that by (simp add: ntf)
  let ?x = "case notified k of None \<Rightarrow> x | Some a \<Rightarrow> give_send a x"
  obtain sright k1 where k1: "ipc_space_make_notify ?k = Some (sright, k1)" "IP_VALID sright \<longleftrightarrow> notified k \<noteq> None"
      "\<And>a. notified k = Some a \<Longrightarrow> sright = a" "rights_inv P ?x k1" "k_space k1 = s" "k_hash k1 = k_hash k"
      "k_events k1 = k_events k" "k_ports k1 obj = Some p"
  proof (rule make_notify_spec [OF inv1 room1, unfolded not1])
    fix sright k1
    assume m: "ipc_space_make_notify ?k = Some (sright, k1)" "IP_VALID sright \<longleftrightarrow> notified k \<noteq> None"
      "\<And>a. notified k = Some a \<Longrightarrow> sright = a" "rights_inv P ?x k1" "k_space k1 = k_space ?k" "k_hash k1 = k_hash ?k"
      "k_events k1 = k_events ?k" "\<And>b p. k_ports ?k b = Some p \<Longrightarrow> \<not> ip_active p \<Longrightarrow> k_ports k1 b = Some p"
    have "k_ports k1 obj = Some p" using m(8) p by simp
    with m show thesis by (intro that [of sright k1]) simp_all
  qed
  have pt2: "points (k_space k1) (k_hash k1) P n entry b obj r" using s(3) k1(5,6) by simp
  have port: "b AND MACH_PORT_TYPE_PORT_RIGHTS \<noteq> 0" by (rule compat_right(1) [OF k1(4) pt2 n c k1(8) p(2)])
  from right_check_dead [OF k1(4) pt2 n port k1(8) p(2) ix] obtain k2 where k2:
      "ipc_right_check obj n entry k1 = Some (True, k2)" "rights_inv P ?x k2" "caps k2 P = (caps k1 P)(n := dead_cap b r)"
      "k_ports k2 = (k_ports k1)(obj := released p)" "k_events k2 = k_events k1" by blast
  have dest: "right_destroy_dead n entry k1 = Some (KERN_INVALID_NAME, k2)"
    by (rule right_destroy_dead_check [OF k1(4) pt2 n c k1(8) p(2) ix k2(1)])
  obtain e where e: "get_entry entry ?k = Some e" "ie_object e = obj" using pt1 by (rule get_points)
  let ?k' = "space_release (if IP_VALID sright then post (Notify_Port_Deleted_Compat sright n) k2 else k2)"
  have run: "ipc_port_delete_compat obj n k = Some ?k'"
    by (simp add: ipc_port_delete_compat_def look e k1(1) dest)
  have "caps k1 P = caps k P" using reshaped_map [OF s(2)] k1(5) by simp
  moreover have "dead_cap b r = None" using c by (simp add: dead_cap_def)
  moreover have "is_references (k_space ?k') = is_references (k_space k) - 1"
    using right_destroy_dead_refs [OF dest] k1(5) refs by (simp add: space_release_def)
  moreover have "k_events ?k' = k_events k @ (case notified k of None \<Rightarrow> [] | Some a \<Rightarrow> [Notify_Port_Deleted_Compat a n])"
    using k1(2,3,7) k2(5) by (cases "notified k") auto
  moreover have "rights_inv P ?x ?k'" using k2(2) by (simp add: rights_inv_space_release)
  ultimately show ?thesis using run k2(3,4) by (intro exI [of _ ?k']) simp
qed

end
