(* ===== verification/Ipc_Object.thy ===== *)
theory Ipc_Object
  imports Ipc_Right_Copy
begin

section \<open>Objects and their names\<close>

text \<open>
  The operations of \<open>ipc/ipc_object.c\<close>, which lock a space, look a name up or allocate an entry, and
  call the operations on rights; with the allocation of ports and port sets that is built on them
  (\<open>ipc/ipc_port.c\<close>, \<open>ipc/ipc_pset.c\<close>).  While the table of entries grows the space is unlocked:
  \<open>env\<close> is what happens to the space, \<open>other\<close> what happens to the rest of the kernel meanwhile.
\<close>

subsection \<open>Types of carried rights\<close>

fun msgt_code :: "mach_msg_type_name_t \<Rightarrow> u32" where
  "msgt_code MACH_MSG_TYPE_MOVE_RECEIVE = 16"
| "msgt_code MACH_MSG_TYPE_MOVE_SEND = 17"
| "msgt_code MACH_MSG_TYPE_MOVE_SEND_ONCE = 18"
| "msgt_code MACH_MSG_TYPE_COPY_SEND = 19"
| "msgt_code MACH_MSG_TYPE_MAKE_SEND = 20"
| "msgt_code MACH_MSG_TYPE_MAKE_SEND_ONCE = 21"

definition msgt_of :: "u32 \<Rightarrow> mach_msg_type_name_t option" where
  "msgt_of c =
     find (\<lambda>m. msgt_code m = c)
       [MACH_MSG_TYPE_MOVE_RECEIVE, MACH_MSG_TYPE_MOVE_SEND, MACH_MSG_TYPE_MOVE_SEND_ONCE,
        MACH_MSG_TYPE_COPY_SEND, MACH_MSG_TYPE_MAKE_SEND, MACH_MSG_TYPE_MAKE_SEND_ONCE]"

lemma msgt_of_code [simp]: "msgt_of (msgt_code m) = Some m"
  by (cases m) (simp_all add: msgt_of_def)

lemma msgt_of_SomeD: "msgt_of c = Some m \<Longrightarrow> c = msgt_code m"
  by (auto simp: msgt_of_def find_Some_iff split: if_splits)

definition MACH_MSG_TYPE_PORT_ANY :: "u32 \<Rightarrow> bool" where
  "MACH_MSG_TYPE_PORT_ANY x \<longleftrightarrow>
     msgt_code MACH_MSG_TYPE_MOVE_RECEIVE \<le> x \<and> x \<le> msgt_code MACH_MSG_TYPE_MAKE_SEND_ONCE"

definition MACH_MSG_TYPE_PORT_ANY_SEND :: "u32 \<Rightarrow> bool" where
  "MACH_MSG_TYPE_PORT_ANY_SEND x \<longleftrightarrow>
     msgt_code MACH_MSG_TYPE_MOVE_SEND \<le> x \<and> x \<le> msgt_code MACH_MSG_TYPE_MAKE_SEND_ONCE"

text \<open>The old types are 5 (\<open>MSG_TYPE_PORT_ALL\<close>) and 6 (\<open>MSG_TYPE_PORT\<close>).\<close>

fun msg_type_code :: "msg_type_port \<Rightarrow> u32" where
  "msg_type_code MSG_TYPE_PORT_ALL = 5"
| "msg_type_code MSG_TYPE_PORT = 6"

definition ipc_object_copyin_type :: "u32 \<Rightarrow> u32 option" where
  "ipc_object_copyin_type msgt_name =
     (if msgt_name = 0 then Some 0
      else if msgt_name = msgt_code MACH_MSG_TYPE_MOVE_RECEIVE then Some (msgt_code MACH_MSG_TYPE_PORT_RECEIVE)
      else if msgt_name = msgt_code MACH_MSG_TYPE_MOVE_SEND_ONCE \<or>
              msgt_name = msgt_code MACH_MSG_TYPE_MAKE_SEND_ONCE then Some (msgt_code MACH_MSG_TYPE_PORT_SEND_ONCE)
      else if msgt_name = msgt_code MACH_MSG_TYPE_MOVE_SEND \<or> msgt_name = msgt_code MACH_MSG_TYPE_MAKE_SEND \<or>
              msgt_name = msgt_code MACH_MSG_TYPE_COPY_SEND then Some (msgt_code MACH_MSG_TYPE_PORT_SEND)
      else if msgt_name = msg_type_code MSG_TYPE_PORT then Some (msgt_code MACH_MSG_TYPE_PORT_SEND)
      else if msgt_name = msg_type_code MSG_TYPE_PORT_ALL then Some (msgt_code MACH_MSG_TYPE_PORT_RECEIVE)
      else None)"

fun ipc_object_copyout_type_compat :: "mach_msg_type_name_t \<Rightarrow> msg_type_port option" where
  "ipc_object_copyout_type_compat MACH_MSG_TYPE_PORT_SEND = Some MSG_TYPE_PORT"
| "ipc_object_copyout_type_compat MACH_MSG_TYPE_PORT_SEND_ONCE = Some MSG_TYPE_PORT"
| "ipc_object_copyout_type_compat MACH_MSG_TYPE_PORT_RECEIVE = Some MSG_TYPE_PORT_ALL"
| "ipc_object_copyout_type_compat _ = None"

subsection \<open>Entries of the space\<close>

definition with_state :: "ipc_kernel \<Rightarrow> ipc_state \<Rightarrow> ipc_kernel" where
  "with_state k = (\<lambda>(s, g). k\<lparr>k_space := s, k_hash := g\<rparr>)"

definition entry_alloc :: "nat \<Rightarrow> ipc_env \<Rightarrow> (nat \<Rightarrow> bool) \<Rightarrow> ipc_kernel
    \<Rightarrow> ((kern_return_t + mach_port_t \<times> ipc_entry_ref) \<times> ipc_kernel) option" where
  "entry_alloc rounds env avail k =
     map_option (map_prod id (with_state k)) (ipc_entry_alloc rounds env avail (k_space k, k_hash k))"

definition entry_alloc_name :: "nat \<Rightarrow> ipc_env \<Rightarrow> (nat \<Rightarrow> bool) \<Rightarrow> bool \<Rightarrow> mach_port_t \<Rightarrow> ipc_kernel
    \<Rightarrow> ((kern_return_t + ipc_entry_ref) \<times> ipc_kernel) option" where
  "entry_alloc_name rounds env avail tavail name k =
     map_option (map_prod id (with_state k))
       (ipc_entry_alloc_name rounds env avail tavail False name (k_space k, k_hash k))"

definition entry_grow_table :: "ipc_env \<Rightarrow> (nat \<Rightarrow> bool) \<Rightarrow> ipc_kernel \<Rightarrow> (kern_return_t \<times> ipc_kernel) option" where
  "entry_grow_table env avail k =
     map_option (map_prod id (with_state k)) (ipc_entry_grow_table grow_rounds env avail (k_space k, k_hash k))"

definition entry_get :: "ipc_kernel \<Rightarrow> (kern_return_t + mach_port_t \<times> ipc_entry_ref) \<times> ipc_kernel" where
  "entry_get k = (let (res, s) = ipc_entry_get (k_space k) in (res, k\<lparr>k_space := s\<rparr>))"

definition entry_lookup :: "mach_port_t \<Rightarrow> ipc_kernel \<Rightarrow> ipc_entry_ref option \<times> ipc_kernel" where
  "entry_lookup name k = (let (found, s) = ipc_entry_lookup name (k_space k) in (found, k\<lparr>k_space := s\<rparr>))"

subsection \<open>Translation\<close>

fun right_type :: "mach_port_right_t \<Rightarrow> u32" where
  "right_type MACH_PORT_RIGHT_SEND = MACH_PORT_TYPE_SEND"
| "right_type MACH_PORT_RIGHT_RECEIVE = MACH_PORT_TYPE_RECEIVE"
| "right_type MACH_PORT_RIGHT_SEND_ONCE = MACH_PORT_TYPE_SEND_ONCE"
| "right_type MACH_PORT_RIGHT_PORT_SET = MACH_PORT_TYPE_PORT_SET"
| "right_type MACH_PORT_RIGHT_DEAD_NAME = MACH_PORT_TYPE_DEAD_NAME"

definition ipc_object_translate ::
    "mach_port_t \<Rightarrow> mach_port_right_t \<Rightarrow> ipc_kernel \<Rightarrow> ((kern_return_t + addr) \<times> ipc_kernel) option" where
  "ipc_object_translate name rt k =
     (case ipc_right_lookup_write name k of
        (Inl kr, k) \<Rightarrow> Some (Inl kr, k)
      | (Inr entry, k) \<Rightarrow> do {
          e \<leftarrow> get_entry entry k;
          Some (if ie_bits e AND right_type rt = 0 then Inl KERN_INVALID_RIGHT else Inr (ie_object e), k)
        })"

subsection \<open>Allocation\<close>

definition ipc_object_alloc_dead :: "nat \<Rightarrow> ipc_env \<Rightarrow> (nat \<Rightarrow> bool) \<Rightarrow> ipc_kernel
    \<Rightarrow> ((kern_return_t + mach_port_t) \<times> ipc_kernel) option" where
  "ipc_object_alloc_dead rounds env avail k =
     do {
       (res, k) \<leftarrow> entry_alloc rounds env avail k;
       case res of
         Inl kr \<Rightarrow> Some (Inl kr, k)
       | Inr (name, entry) \<Rightarrow>
           Some (Inr name, set_entry entry (\<lambda>e. e\<lparr>ie_bits := ie_bits e OR (MACH_PORT_TYPE_DEAD_NAME OR 1)\<rparr>) k)
     }"

definition ipc_object_alloc_dead_name :: "nat \<Rightarrow> ipc_env \<Rightarrow> (nat \<Rightarrow> bool) \<Rightarrow> bool \<Rightarrow> mach_port_t \<Rightarrow> ipc_kernel
    \<Rightarrow> (kern_return_t \<times> ipc_kernel) option" where
  "ipc_object_alloc_dead_name rounds env avail tavail name k =
     do {
       (res, k) \<leftarrow> entry_alloc_name rounds env avail tavail name k;
       case res of
         Inl kr \<Rightarrow> Some (kr, k)
       | Inr entry \<Rightarrow> do {
           (inuse, k) \<leftarrow> ipc_right_inuse name entry k;
           if inuse then Some (KERN_NAME_EXISTS, k)
           else Some (KERN_SUCCESS,
             set_entry entry (\<lambda>e. e\<lparr>ie_bits := ie_bits e OR (MACH_PORT_TYPE_DEAD_NAME OR 1)\<rparr>) k)
         }
     }"

text \<open>The object's memory: references and bits are set here, the rest by the callers.\<close>

definition fresh_pset :: ipc_pset where
  "fresh_pset = \<lparr>ips_references = 0, ips_bits = 0, ips_local_name = 0, ips_messages = ipc_mqueue_init\<rparr>"

definition object_init :: "u32 \<Rightarrow> addr \<Rightarrow> ipc_kernel \<Rightarrow> ipc_kernel" where
  "object_init otype object k =
     (if otype = IOT_PORT
      then put_port object (fresh_port\<lparr>ip_references := 1, ip_bits := io_makebits True otype 0\<rparr>) k
      else put_pset object (fresh_pset\<lparr>ips_references := 1, ips_bits := io_makebits True otype 0\<rparr>) k)"

text \<open>\<open>io\<close> is the outcome of \<open>io_alloc\<close>: an address without an object, or none.\<close>

definition ipc_object_alloc :: "nat \<Rightarrow> ipc_env \<Rightarrow> (nat \<Rightarrow> bool) \<Rightarrow> addr option \<Rightarrow> u32 \<Rightarrow> u32 \<Rightarrow> u32 \<Rightarrow> ipc_kernel
    \<Rightarrow> ((kern_return_t + mach_port_t \<times> addr) \<times> ipc_kernel) option" where
  "ipc_object_alloc rounds env avail io otype type urefs k =
     (case io of
        None \<Rightarrow> Some (Inl KERN_RESOURCE_SHORTAGE, k)
      | Some object \<Rightarrow> do {
          (res, k) \<leftarrow> entry_alloc rounds env avail k;
          case res of
            Inl kr \<Rightarrow> Some (Inl kr, k)
          | Inr (name, entry) \<Rightarrow>
              Some (Inr (name, object), object_init otype object (set_entry entry
                (\<lambda>e. e\<lparr>ie_bits := ie_bits e OR (type OR urefs), ie_object := object\<rparr>) k))
        })"

definition ipc_object_alloc_name :: "nat \<Rightarrow> ipc_env \<Rightarrow> (nat \<Rightarrow> bool) \<Rightarrow> bool \<Rightarrow> addr option \<Rightarrow> u32 \<Rightarrow> u32 \<Rightarrow> u32
    \<Rightarrow> mach_port_t \<Rightarrow> ipc_kernel \<Rightarrow> ((kern_return_t + addr) \<times> ipc_kernel) option" where
  "ipc_object_alloc_name rounds env avail tavail io otype type urefs name k =
     (case io of
        None \<Rightarrow> Some (Inl KERN_RESOURCE_SHORTAGE, k)
      | Some object \<Rightarrow> do {
          (res, k) \<leftarrow> entry_alloc_name rounds env avail tavail name k;
          case res of
            Inl kr \<Rightarrow> Some (Inl kr, k)
          | Inr entry \<Rightarrow> do {
              (inuse, k) \<leftarrow> ipc_right_inuse name entry k;
              if inuse then Some (Inl KERN_NAME_EXISTS, k)
              else Some (Inr object, object_init otype object (set_entry entry
                     (\<lambda>e. e\<lparr>ie_bits := ie_bits e OR (type OR urefs), ie_object := object\<rparr>) k))
            }
        })"

definition ipc_port_alloc :: "nat \<Rightarrow> ipc_env \<Rightarrow> (nat \<Rightarrow> bool) \<Rightarrow> addr option \<Rightarrow> ipc_kernel
    \<Rightarrow> ((kern_return_t + mach_port_t \<times> addr) \<times> ipc_kernel) option" where
  "ipc_port_alloc rounds env avail io k =
     do {
       (res, k) \<leftarrow> ipc_object_alloc rounds env avail io IOT_PORT MACH_PORT_TYPE_RECEIVE 0 k;
       case res of
         Inl kr \<Rightarrow> Some (Inl kr, k)
       | Inr (name, port) \<Rightarrow> do {
           p \<leftarrow> k_ports k port;
           Some (Inr (name, port), put_port port (ipc_port_init (k_addr k) name p) k)
         }
     }"

definition ipc_port_alloc_name :: "nat \<Rightarrow> ipc_env \<Rightarrow> (nat \<Rightarrow> bool) \<Rightarrow> bool \<Rightarrow> addr option \<Rightarrow> mach_port_t \<Rightarrow> ipc_kernel
    \<Rightarrow> ((kern_return_t + addr) \<times> ipc_kernel) option" where
  "ipc_port_alloc_name rounds env avail tavail io name k =
     do {
       (res, k) \<leftarrow> ipc_object_alloc_name rounds env avail tavail io IOT_PORT MACH_PORT_TYPE_RECEIVE 0 name k;
       case res of
         Inl kr \<Rightarrow> Some (Inl kr, k)
       | Inr port \<Rightarrow> do {
           p \<leftarrow> k_ports k port;
           Some (Inr port, put_port port (ipc_port_init (k_addr k) name p) k)
         }
     }"

definition ipc_pset_alloc :: "nat \<Rightarrow> ipc_env \<Rightarrow> (nat \<Rightarrow> bool) \<Rightarrow> addr option \<Rightarrow> ipc_kernel
    \<Rightarrow> ((kern_return_t + mach_port_t \<times> addr) \<times> ipc_kernel) option" where
  "ipc_pset_alloc rounds env avail io k =
     do {
       (res, k) \<leftarrow> ipc_object_alloc rounds env avail io IOT_PORT_SET MACH_PORT_TYPE_PORT_SET 0 k;
       case res of
         Inl kr \<Rightarrow> Some (Inl kr, k)
       | Inr (name, pset) \<Rightarrow> do {
           s \<leftarrow> k_psets k pset;
           Some (Inr (name, pset), put_pset pset (s\<lparr>ips_local_name := name, ips_messages := ipc_mqueue_init\<rparr>) k)
         }
     }"

definition ipc_pset_alloc_name :: "nat \<Rightarrow> ipc_env \<Rightarrow> (nat \<Rightarrow> bool) \<Rightarrow> bool \<Rightarrow> addr option \<Rightarrow> mach_port_t \<Rightarrow> ipc_kernel
    \<Rightarrow> ((kern_return_t + addr) \<times> ipc_kernel) option" where
  "ipc_pset_alloc_name rounds env avail tavail io name k =
     do {
       (res, k) \<leftarrow> ipc_object_alloc_name rounds env avail tavail io IOT_PORT_SET MACH_PORT_TYPE_PORT_SET 0 name k;
       case res of
         Inl kr \<Rightarrow> Some (Inl kr, k)
       | Inr pset \<Rightarrow> do {
           s \<leftarrow> k_psets k pset;
           Some (Inr pset, put_pset pset (s\<lparr>ips_local_name := name, ips_messages := ipc_mqueue_init\<rparr>) k)
         }
     }"

text \<open>
  An old-style port starts with the smallest table of dead-name requests; slot 1 has the request for
  the name, the others are free, the last one first.
\<close>

definition compat_dnrequests :: "mach_port_t \<Rightarrow> addr \<Rightarrow> ipc_port_request list" where
  "compat_dnrequests name space =
     (let sz = its_dn_size 0
      in \<lparr>ipr_notify = (if 2 < sz then of_nat (sz - 1) else 0), ipr_name = 0\<rparr> #
         \<lparr>ipr_notify = ipr_spacem space, ipr_name = name\<rparr> #
         map (\<lambda>i. \<lparr>ipr_notify = (if i = 2 then 0 else of_nat (i - 1)), ipr_name = MACH_PORT_NULL\<rparr>) [2..<sz])"

definition ipc_port_alloc_compat :: "nat \<Rightarrow> ipc_env \<Rightarrow> (nat \<Rightarrow> bool) \<Rightarrow> addr option \<Rightarrow> addr option \<Rightarrow> ipc_kernel
    \<Rightarrow> ((kern_return_t + mach_port_t \<times> addr) \<times> ipc_kernel) option" where
  "ipc_port_alloc_compat rounds env avail io table k =
     (case (io, table) of
        (Some port, Some a) \<Rightarrow> do {
          (res, k) \<leftarrow> entry_alloc rounds env avail k;
          case res of
            Inl kr \<Rightarrow> Some (Inl kr, k)
          | Inr (name, entry) \<Rightarrow>
              let k = set_entry entry (\<lambda>e. e\<lparr>ie_object := port, ie_request := 1,
                        ie_bits := ie_bits e OR (IE_BITS_COMPAT OR MACH_PORT_TYPE_RECEIVE)\<rparr>) k;
                  p = ipc_port_init (k_addr k) name
                        (fresh_port\<lparr>ip_references := 1, ip_bits := io_makebits True IOT_PORT 0\<rparr>);
                  k = put_port port (p\<lparr>ip_dnrequests := Some (a, compat_dnrequests name (k_addr k))\<rparr>) k
              in Some (Inr (name, port), space_reference k)
        }
      | _ \<Rightarrow> Some (Inl KERN_RESOURCE_SHORTAGE, k))"

subsection \<open>Copyin\<close>

text \<open>
  The test of the entry after the copyin also happens when the copyin failed; when the entry is a node
  of the tree that is gone by then, the code reads freed memory: no result.
\<close>

definition ipc_object_copyin ::
    "mach_port_t \<Rightarrow> mach_msg_type_name_t \<Rightarrow> ipc_kernel \<Rightarrow> ((kern_return_t + addr) \<times> ipc_kernel) option" where
  "ipc_object_copyin name msgt_name k =
     (case ipc_right_lookup_write name k of
        (Inl kr, k) \<Rightarrow> Some (Inl kr, k)
      | (Inr entry, k) \<Rightarrow> do {
          (res, k) \<leftarrow> ipc_right_copyin name entry msgt_name True k;
          e \<leftarrow> get_entry entry k;
          k \<leftarrow> (if IE_BITS_TYPE (ie_bits e) = MACH_PORT_TYPE_NONE then entry_dealloc name entry k else Some k);
          case res of
            Inl kr \<Rightarrow> Some (Inl kr, k)
          | Inr (object, soright) \<Rightarrow> Some (Inr object, notify_port_deleted soright name k)
        })"

definition ipc_object_copyin_from_kernel :: "addr \<Rightarrow> mach_msg_type_name_t \<Rightarrow> ipc_kernel \<Rightarrow> ipc_kernel option" where
  "ipc_object_copyin_from_kernel object msgt_name k =
     (case msgt_name of
        MACH_MSG_TYPE_MOVE_RECEIVE \<Rightarrow> do {
          p \<leftarrow> k_ports k object;
          Some (put_port object (p\<lparr>ip_mscount := 0, ip_receiver_name := MACH_PORT_NULL, ip_data := IP_NULL\<rparr>) k)
        }
      | MACH_MSG_TYPE_COPY_SEND \<Rightarrow> do {
          p \<leftarrow> k_ports k object;
          let p = (if ip_active p then p\<lparr>ip_srights := ip_srights p + 1\<rparr> else p);
          Some (put_port object (ip_reference p) k)
        }
      | MACH_MSG_TYPE_MAKE_SEND \<Rightarrow> do {
          p \<leftarrow> k_ports k object;
          Some (put_port object
            ((ip_reference p)\<lparr>ip_mscount := ip_mscount p + 1, ip_srights := ip_srights p + 1\<rparr>) k)
        }
      | MACH_MSG_TYPE_MOVE_SEND \<Rightarrow> Some k
      | MACH_MSG_TYPE_MAKE_SEND_ONCE \<Rightarrow> do {
          p \<leftarrow> k_ports k object;
          Some (put_port object ((ip_reference p)\<lparr>ip_sorights := ip_sorights p + 1\<rparr>) k)
        }
      | MACH_MSG_TYPE_MOVE_SEND_ONCE \<Rightarrow> Some k)"

definition ipc_object_destroy :: "bool \<Rightarrow> addr \<Rightarrow> mach_msg_type_name_t \<Rightarrow> ipc_kernel \<Rightarrow> ipc_kernel option" where
  "ipc_object_destroy lock_try object msgt_name k =
     (case msgt_name of
        MACH_MSG_TYPE_MOVE_SEND \<Rightarrow> ipc_port_release_send object k
      | MACH_MSG_TYPE_MOVE_SEND_ONCE \<Rightarrow> Some (post (Notify_Send_Once object) k)
      | MACH_MSG_TYPE_MOVE_RECEIVE \<Rightarrow> ipc_port_release_receive lock_try object k
      | _ \<Rightarrow> None)"

end
