(* ===== verification/Ipc_Object_Copy.thy ===== *)
theory Ipc_Object_Copy
  imports Ipc_Object
begin

section \<open>Putting objects into a space\<close>

text \<open>
  The rest of \<open>ipc/ipc_object.c\<close>: copyout under a new or a given name, the destination of a message,
  renaming, and the old-style variants, whose entries register a dead-name request for the space.
  The loops start again after the table of entries or of requests has grown; \<open>rounds\<close> bounds them.
\<close>

subsection \<open>Copyout\<close>

text \<open>
  One round of the loop of \<open>ipc_object_copyout\<close>: an error, an entry to put the right in, or \<open>None\<close>
  inside when the space was unlocked and the loop starts again.
\<close>

definition copyout_round ::
    "ipc_env \<Rightarrow> (ipc_kernel \<Rightarrow> ipc_kernel) \<Rightarrow> (nat \<Rightarrow> bool) \<Rightarrow> addr \<Rightarrow> mach_msg_type_name_t \<Rightarrow> ipc_kernel
      \<Rightarrow> ((kern_return_t + mach_port_t \<times> ipc_entry_ref) option \<times> ipc_kernel) option" where
  "copyout_round env other avail object msgt_name k =
     (if \<not> is_active (k_space k) then Some (Some (Inl KERN_INVALID_TASK), k)
      else do {
        (found, k) \<leftarrow> (if msgt_name \<noteq> MACH_MSG_TYPE_PORT_SEND_ONCE then ipc_right_reverse object k
                       else Some (None, k));
        case found of
          Some (name, entry) \<Rightarrow> Some (Some (Inr (name, entry)), k)
        | None \<Rightarrow>
            (case entry_get k of
               (Inl _, k) \<Rightarrow> do {
                 (kr, k) \<leftarrow> entry_grow_table env avail k;
                 Some (if kr \<noteq> KERN_SUCCESS then Some (Inl kr) else None, other k)
               }
             | (Inr (name, entry), k) \<Rightarrow> do {
                 p \<leftarrow> k_ports k object;
                 if \<not> ip_active p
                 then do {
                   k \<leftarrow> entry_dealloc name entry k;
                   Some (Some (Inl KERN_INVALID_CAPABILITY), k)
                 }
                 else Some (Some (Inr (name, entry)), set_entry entry (\<lambda>e. e\<lparr>ie_object := object\<rparr>) k)
               })
      })"

fun ipc_object_copyout ::
    "nat \<Rightarrow> ipc_env \<Rightarrow> (ipc_kernel \<Rightarrow> ipc_kernel) \<Rightarrow> (nat \<Rightarrow> bool) \<Rightarrow> addr \<Rightarrow> mach_msg_type_name_t \<Rightarrow> bool \<Rightarrow> ipc_kernel
      \<Rightarrow> ((kern_return_t + mach_port_t) \<times> ipc_kernel) option" where
  "ipc_object_copyout 0 env other avail object msgt_name overflow k = None"
| "ipc_object_copyout (Suc rounds) env other avail object msgt_name overflow k =
     do {
       (res, k) \<leftarrow> copyout_round env other avail object msgt_name k;
       case res of
         None \<Rightarrow> ipc_object_copyout rounds env other avail object msgt_name overflow k
       | Some (Inl kr) \<Rightarrow> Some (Inl kr, k)
       | Some (Inr (name, entry)) \<Rightarrow> do {
           (kr, k) \<leftarrow> ipc_right_copyout name entry msgt_name overflow object k;
           Some (if kr = KERN_SUCCESS then Inr name else Inl kr, k)
         }
     }"

definition ipc_object_copyout_name ::
    "nat \<Rightarrow> ipc_env \<Rightarrow> (nat \<Rightarrow> bool) \<Rightarrow> bool \<Rightarrow> addr \<Rightarrow> mach_msg_type_name_t \<Rightarrow> bool \<Rightarrow> mach_port_t \<Rightarrow> ipc_kernel
      \<Rightarrow> (kern_return_t \<times> ipc_kernel) option" where
  "ipc_object_copyout_name rounds env avail tavail object msgt_name overflow name k =
     do {
       (res, k) \<leftarrow> entry_alloc_name rounds env avail tavail name k;
       case res of
         Inl kr \<Rightarrow> Some (kr, k)
       | Inr entry \<Rightarrow> do {
           (found, k) \<leftarrow> (if msgt_name \<noteq> MACH_MSG_TYPE_PORT_SEND_ONCE then ipc_right_reverse object k
                          else Some (None, k));
           case found of
             Some (oname, oentry) \<Rightarrow>
               if name \<noteq> oname
               then do {
                 e \<leftarrow> get_entry entry k;
                 k \<leftarrow> (if IE_BITS_TYPE (ie_bits e) = MACH_PORT_TYPE_NONE then entry_dealloc name entry k else Some k);
                 Some (KERN_RIGHT_EXISTS, k)
               }
               else ipc_right_copyout name entry msgt_name overflow object k
           | None \<Rightarrow> do {
               (inuse, k) \<leftarrow> ipc_right_inuse name entry k;
               if inuse then Some (KERN_NAME_EXISTS, k)
               else do {
                 p \<leftarrow> k_ports k object;
                 if \<not> ip_active p
                 then do { k \<leftarrow> entry_dealloc name entry k; Some (KERN_INVALID_CAPABILITY, k) }
                 else ipc_right_copyout name entry msgt_name overflow object
                        (set_entry entry (\<lambda>e. e\<lparr>ie_object := object\<rparr>) k)
               }
             }
         }
     }"

subsection \<open>The destination of a message\<close>

definition ipc_object_copyout_dest ::
    "addr \<Rightarrow> mach_msg_type_name_t \<Rightarrow> ipc_kernel \<Rightarrow> (mach_port_t \<times> ipc_kernel) option" where
  "ipc_object_copyout_dest object msgt_name k =
     do {
       p \<leftarrow> k_ports k object;
       let p = ip_release p;
       case msgt_name of
         MACH_MSG_TYPE_MOVE_SEND \<Rightarrow>
           let (p, nsrequest, mscount) =
                 (if ip_srights p - 1 = 0
                  then if ip_nsrequest p \<noteq> IP_NULL
                       then (p\<lparr>ip_srights := ip_srights p - 1, ip_nsrequest := IP_NULL\<rparr>, ip_nsrequest p, ip_mscount p)
                       else (p\<lparr>ip_srights := ip_srights p - 1\<rparr>, IP_NULL, 0)
                  else (p\<lparr>ip_srights := ip_srights p - 1\<rparr>, IP_NULL, 0));
               name = (if ip_receiver p = k_addr k then ip_receiver_name p else MACH_PORT_NULL)
           in Some (name, notify_no_senders nsrequest mscount (put_port object p k))
       | MACH_MSG_TYPE_MOVE_SEND_ONCE \<Rightarrow>
           if ip_receiver p = k_addr k
           then Some (ip_receiver_name p, put_port object (p\<lparr>ip_sorights := ip_sorights p - 1\<rparr>) k)
           else Some (MACH_PORT_NULL, post (Notify_Send_Once object) (put_port object (ip_reference p) k))
       | _ \<Rightarrow> None
     }"

subsection \<open>Renaming\<close>

definition ipc_object_rename ::
    "nat \<Rightarrow> ipc_env \<Rightarrow> (nat \<Rightarrow> bool) \<Rightarrow> bool \<Rightarrow> mach_port_t \<Rightarrow> mach_port_t \<Rightarrow> ipc_kernel
      \<Rightarrow> (kern_return_t \<times> ipc_kernel) option" where
  "ipc_object_rename rounds env avail tavail oname nname k =
     do {
       (res, k) \<leftarrow> entry_alloc_name rounds env avail tavail nname k;
       case res of
         Inl kr \<Rightarrow> Some (kr, k)
       | Inr nentry \<Rightarrow> do {
           (inuse, k) \<leftarrow> ipc_right_inuse nname nentry k;
           if inuse then Some (KERN_NAME_EXISTS, k)
           else
             let (found, k) = (if oname = nname then (None, k) else entry_lookup oname k)
             in case found of
                  None \<Rightarrow> do { k \<leftarrow> entry_dealloc nname nentry k; Some (KERN_INVALID_NAME, k) }
                | Some oentry \<Rightarrow> ipc_right_rename oname oentry nname nentry k
         }
     }"

subsection \<open>Naked send rights for a space\<close>

definition ipc_port_copyout_send ::
    "nat \<Rightarrow> ipc_env \<Rightarrow> (ipc_kernel \<Rightarrow> ipc_kernel) \<Rightarrow> (nat \<Rightarrow> bool) \<Rightarrow> addr \<Rightarrow> ipc_kernel
      \<Rightarrow> (mach_port_t \<times> ipc_kernel) option" where
  "ipc_port_copyout_send rounds env other avail sright k =
     (if \<not> IP_VALID sright then Some (sright, k)
      else do {
        (res, k) \<leftarrow> ipc_object_copyout rounds env other avail sright MACH_MSG_TYPE_PORT_SEND True k;
        case res of
          Inr name \<Rightarrow> Some (name, k)
        | Inl kr \<Rightarrow> do {
            k \<leftarrow> ipc_port_release_send sright k;
            Some (if kr = KERN_INVALID_CAPABILITY then MACH_PORT_DEAD else MACH_PORT_NULL, k)
          }
      })"

subsection \<open>Old-style operations\<close>

definition ipc_object_copyin_compat ::
    "mach_port_t \<Rightarrow> msg_type_port \<Rightarrow> bool \<Rightarrow> ipc_kernel \<Rightarrow> (compat_result \<times> ipc_kernel) option" where
  "ipc_object_copyin_compat name msgt_name dealloc k =
     (case ipc_right_lookup_write name k of
        (Inl kr, k) \<Rightarrow> Some (Inl kr, k)
      | (Inr entry, k) \<Rightarrow> ipc_right_copyin_compat name entry msgt_name dealloc k)"

definition ipc_object_copyin_header ::
    "mach_port_t \<Rightarrow> ipc_kernel \<Rightarrow> ((kern_return_t + addr \<times> mach_msg_type_name_t) \<times> ipc_kernel) option" where
  "ipc_object_copyin_header name k =
     (case ipc_right_lookup_write name k of
        (Inl kr, k) \<Rightarrow> Some (Inl kr, k)
      | (Inr entry, k) \<Rightarrow> ipc_right_copyin_header name entry k)"

text \<open>
  The new entry of an old-style copyout: it registers a dead-name request for the space.  \<open>None\<close>
  inside asks for another round, after the table of requests has grown.
\<close>

definition compat_entry ::
    "(ipc_kernel \<Rightarrow> ipc_kernel) \<Rightarrow> (nat \<Rightarrow> addr option) \<Rightarrow> addr \<Rightarrow> mach_port_t \<Rightarrow> ipc_entry_ref \<Rightarrow> ipc_kernel
      \<Rightarrow> ((kern_return_t + mach_port_t \<times> ipc_entry_ref) option \<times> ipc_kernel) option" where
  "compat_entry other alloc port name entry k =
     do {
       p \<leftarrow> k_ports k port;
       if \<not> ip_active p
       then do { k \<leftarrow> entry_dealloc name entry k; Some (Some (Inl KERN_INVALID_CAPABILITY), k) }
       else case ipc_port_dnrequest name (ipr_spacem (k_addr k)) p of
         (Inl _, p) \<Rightarrow> do {
           k \<leftarrow> entry_dealloc name entry k;
           (kr, k) \<leftarrow> ipc_port_dngrow other alloc port k;
           Some (if kr \<noteq> KERN_SUCCESS then Some (Inl kr) else None, k)
         }
       | (Inr request, p) \<Rightarrow>
           Some (Some (Inr (name, entry)), set_entry entry (\<lambda>e. e\<lparr>ie_object := port, ie_request := request,
             ie_bits := ie_bits e OR IE_BITS_COMPAT\<rparr>) (space_reference (put_port port p k)))
     }"

definition copyout_compat_round ::
    "ipc_env \<Rightarrow> (ipc_kernel \<Rightarrow> ipc_kernel) \<Rightarrow> (nat \<Rightarrow> bool) \<Rightarrow> (nat \<Rightarrow> addr option) \<Rightarrow> addr \<Rightarrow> mach_msg_type_name_t
      \<Rightarrow> ipc_kernel \<Rightarrow> ((kern_return_t + mach_port_t \<times> ipc_entry_ref) option \<times> ipc_kernel) option" where
  "copyout_compat_round env other avail alloc port msgt_name k =
     (if \<not> is_active (k_space k) then Some (Some (Inl KERN_INVALID_TASK), k)
      else do {
        (found, k) \<leftarrow> (if msgt_name \<noteq> MACH_MSG_TYPE_PORT_SEND_ONCE then ipc_right_reverse port k
                       else Some (None, k));
        case found of
          Some (name, entry) \<Rightarrow> Some (Some (Inr (name, entry)), k)
        | None \<Rightarrow>
            (case entry_get k of
               (Inl _, k) \<Rightarrow> do {
                 (kr, k) \<leftarrow> entry_grow_table env avail k;
                 Some (if kr \<noteq> KERN_SUCCESS then Some (Inl kr) else None, other k)
               }
             | (Inr (name, entry), k) \<Rightarrow> compat_entry other alloc port name entry k)
      })"

fun ipc_object_copyout_compat ::
    "nat \<Rightarrow> ipc_env \<Rightarrow> (ipc_kernel \<Rightarrow> ipc_kernel) \<Rightarrow> (nat \<Rightarrow> bool) \<Rightarrow> (nat \<Rightarrow> addr option) \<Rightarrow> addr \<Rightarrow> mach_msg_type_name_t
      \<Rightarrow> ipc_kernel \<Rightarrow> ((kern_return_t + mach_port_t) \<times> ipc_kernel) option" where
  "ipc_object_copyout_compat 0 env other avail alloc port msgt_name k = None"
| "ipc_object_copyout_compat (Suc rounds) env other avail alloc port msgt_name k =
     do {
       (res, k) \<leftarrow> copyout_compat_round env other avail alloc port msgt_name k;
       case res of
         None \<Rightarrow> ipc_object_copyout_compat rounds env other avail alloc port msgt_name k
       | Some (Inl kr) \<Rightarrow> Some (Inl kr, k)
       | Some (Inr (name, entry)) \<Rightarrow> do {
           (kr, k) \<leftarrow> ipc_right_copyout name entry msgt_name True port k;
           Some (if kr = KERN_SUCCESS then Inr name else Inl kr, k)
         }
     }"

definition copyout_name_compat_round ::
    "nat \<Rightarrow> ipc_env \<Rightarrow> (ipc_kernel \<Rightarrow> ipc_kernel) \<Rightarrow> (nat \<Rightarrow> bool) \<Rightarrow> bool \<Rightarrow> (nat \<Rightarrow> addr option) \<Rightarrow> addr
      \<Rightarrow> mach_msg_type_name_t \<Rightarrow> mach_port_t \<Rightarrow> ipc_kernel
      \<Rightarrow> ((kern_return_t + mach_port_t \<times> ipc_entry_ref) option \<times> ipc_kernel) option" where
  "copyout_name_compat_round erounds env other avail tavail alloc port msgt_name name k =
     do {
       (res, k) \<leftarrow> entry_alloc_name erounds env avail tavail name k;
       case res of
         Inl kr \<Rightarrow> Some (Some (Inl kr), k)
       | Inr entry \<Rightarrow> do {
           (inuse, k) \<leftarrow> ipc_right_inuse name entry k;
           if inuse then Some (Some (Inl KERN_NAME_EXISTS), k)
           else do {
             (found, k) \<leftarrow> (if msgt_name \<noteq> MACH_MSG_TYPE_PORT_SEND_ONCE then ipc_right_reverse port k
                            else Some (None, k));
             if found \<noteq> None
             then do { k \<leftarrow> entry_dealloc name entry k; Some (Some (Inl KERN_RIGHT_EXISTS), k) }
             else compat_entry other alloc port name entry k
           }
         }
     }"

fun ipc_object_copyout_name_compat ::
    "nat \<Rightarrow> nat \<Rightarrow> ipc_env \<Rightarrow> (ipc_kernel \<Rightarrow> ipc_kernel) \<Rightarrow> (nat \<Rightarrow> bool) \<Rightarrow> bool \<Rightarrow> (nat \<Rightarrow> addr option) \<Rightarrow> addr
      \<Rightarrow> mach_msg_type_name_t \<Rightarrow> mach_port_t \<Rightarrow> ipc_kernel \<Rightarrow> (kern_return_t \<times> ipc_kernel) option" where
  "ipc_object_copyout_name_compat 0 erounds env other avail tavail alloc port msgt_name name k = None"
| "ipc_object_copyout_name_compat (Suc rounds) erounds env other avail tavail alloc port msgt_name name k =
     do {
       (res, k) \<leftarrow> copyout_name_compat_round erounds env other avail tavail alloc port msgt_name name k;
       case res of
         None \<Rightarrow> ipc_object_copyout_name_compat rounds erounds env other avail tavail alloc port msgt_name name k
       | Some (Inl kr) \<Rightarrow> Some (kr, k)
       | Some (Inr (name, entry)) \<Rightarrow> ipc_right_copyout name entry msgt_name True port k
     }"

definition ipc_port_copyout_send_compat ::
    "nat \<Rightarrow> ipc_env \<Rightarrow> (ipc_kernel \<Rightarrow> ipc_kernel) \<Rightarrow> (nat \<Rightarrow> bool) \<Rightarrow> (nat \<Rightarrow> addr option) \<Rightarrow> addr \<Rightarrow> ipc_kernel
      \<Rightarrow> (mach_port_t \<times> ipc_kernel) option" where
  "ipc_port_copyout_send_compat rounds env other avail alloc sright k =
     (if \<not> IP_VALID sright then Some (sright, k)
      else do {
        (res, k) \<leftarrow> ipc_object_copyout_compat rounds env other avail alloc sright MACH_MSG_TYPE_PORT_SEND k;
        case res of
          Inr name \<Rightarrow> Some (name, k)
        | Inl kr \<Rightarrow> do { k \<leftarrow> ipc_port_release_send sright k; Some (MACH_PORT_NULL, k) }
      })"

end
