(* ===== verification/Ipc_Kmsg_Copyin.thy ===== *)
theory Ipc_Kmsg_Copyin
  imports Ipc_Object_Copy
begin

section \<open>Message headers on their way into the kernel\<close>

text \<open>
  \<open>ipc_kmsg_copyin_header\<close> of \<open>ipc/ipc_kmsg.c\<close> replaces the two names in the header of a message by
  the objects they denote, all or nothing.  It starts with three shortcuts for the common kinds of
  message and continues with the general case.
\<close>

subsection \<open>The bits of a header\<close>

definition MACH_MSGH_BITS_PORTS_MASK :: u32 where "MACH_MSGH_BITS_PORTS_MASK = 0x0000ffff"
definition MACH_MSGH_BITS_REMOTE_MASK :: u32 where "MACH_MSGH_BITS_REMOTE_MASK = 0x000000ff"
definition MACH_MSGH_BITS_LOCAL_MASK :: u32 where "MACH_MSGH_BITS_LOCAL_MASK = 0x0000ff00"
definition MACH_MSGH_BITS_COMPLEX :: u32 where "MACH_MSGH_BITS_COMPLEX = 0x80000000"
definition MACH_MSGH_BITS_CIRCULAR :: u32 where "MACH_MSGH_BITS_CIRCULAR = 0x40000000"

definition MACH_MSGH_BITS :: "u32 \<Rightarrow> u32 \<Rightarrow> u32" where
  "MACH_MSGH_BITS remote local = remote OR push_bit 8 local"
definition MACH_MSGH_BITS_REMOTE :: "u32 \<Rightarrow> u32" where
  "MACH_MSGH_BITS_REMOTE bits = bits AND MACH_MSGH_BITS_REMOTE_MASK"
definition MACH_MSGH_BITS_LOCAL :: "u32 \<Rightarrow> u32" where
  "MACH_MSGH_BITS_LOCAL bits = drop_bit 8 (bits AND MACH_MSGH_BITS_LOCAL_MASK)"
definition MACH_MSGH_BITS_PORTS :: "u32 \<Rightarrow> u32" where
  "MACH_MSGH_BITS_PORTS bits = bits AND MACH_MSGH_BITS_PORTS_MASK"
definition MACH_MSGH_BITS_OTHER :: "u32 \<Rightarrow> u32" where
  "MACH_MSGH_BITS_OTHER bits = bits AND NOT MACH_MSGH_BITS_PORTS_MASK"

subsection \<open>The shortcuts\<close>

text \<open>
  A shortcut gives up (\<open>None\<close> inside) before it changes anything, or finishes the message.  The
  comparison of the bits checks the generation and the type at once.
\<close>

type_synonym header_result = "(mach_msg_return_t \<times> ipc_kmsg) \<times> ipc_kernel"

definition fast_entry :: "mach_port_t \<Rightarrow> u32 \<Rightarrow> u32 \<Rightarrow> ipc_kernel \<Rightarrow> ipc_entry option" where
  "fast_entry name flags type k =
     (let index = unat (MACH_PORT_INDEX name); table = is_table (k_space k)
      in if is_table_size (k_space k) \<le> index then None
         else if ie_bits (table ! index) AND (IE_BITS_GEN_MASK OR flags) \<noteq> MACH_PORT_GEN name OR type then None
         else Some (table ! index))"

text \<open>An asynchronous message: copy a send right.\<close>

definition copyin_async :: "u32 \<Rightarrow> ipc_kmsg \<Rightarrow> ipc_kernel \<Rightarrow> header_result option option" where
  "copyin_async mbits msg k =
     (if msgh_local_port msg \<noteq> MACH_PORT_NULL \<or> \<not> is_active (k_space k) then Some None
      else case fast_entry (msgh_remote_port msg) MACH_PORT_TYPE_SEND MACH_PORT_TYPE_SEND k of
        None \<Rightarrow> Some None
      | Some entry \<Rightarrow> do {
          let dest_port = ie_object entry;
          p \<leftarrow> k_ports k dest_port;
          Some (if \<not> ip_active p then None
                else Some ((MACH_MSG_SUCCESS,
                       msg\<lparr>msgh_bits := MACH_MSGH_BITS_OTHER mbits OR MACH_MSGH_BITS (msgt_code MACH_MSG_TYPE_PORT_SEND) 0,
                           msgh_remote_port := dest_port\<rparr>),
                     put_port dest_port (ip_reference (p\<lparr>ip_srights := ip_srights p + 1\<rparr>)) k))
        })"

text \<open>
  A request: copy a send right, make a send-once right for the reply.  The locks are taken in the
  order destination, reply, the second one without waiting (\<open>lock_try\<close>).
\<close>

definition copyin_request :: "bool \<Rightarrow> u32 \<Rightarrow> ipc_kmsg \<Rightarrow> ipc_kernel \<Rightarrow> header_result option option" where
  "copyin_request lock_try mbits msg k =
     (if \<not> is_active (k_space k) then Some None
      else case (fast_entry (msgh_remote_port msg) MACH_PORT_TYPE_SEND MACH_PORT_TYPE_SEND k,
                 fast_entry (msgh_local_port msg) MACH_PORT_TYPE_RECEIVE MACH_PORT_TYPE_RECEIVE k) of
        (Some dest_entry, Some reply_entry) \<Rightarrow> do {
          let dest_port = ie_object dest_entry;
          let reply_port = ie_object reply_entry;
          p \<leftarrow> k_ports k dest_port;
          if \<not> ip_active p \<or> \<not> lock_try then Some None
          else do {
            let k = put_port dest_port (ip_reference (p\<lparr>ip_srights := ip_srights p + 1\<rparr>)) k;
            q \<leftarrow> k_ports k reply_port;
            let k = put_port reply_port (ip_reference (q\<lparr>ip_sorights := ip_sorights q + 1\<rparr>)) k;
            Some (Some ((MACH_MSG_SUCCESS,
              msg\<lparr>msgh_bits := MACH_MSGH_BITS_OTHER mbits OR
                    MACH_MSGH_BITS (msgt_code MACH_MSG_TYPE_PORT_SEND) (msgt_code MACH_MSG_TYPE_PORT_SEND_ONCE),
                  msgh_remote_port := dest_port, msgh_local_port := reply_port\<rparr>), k))
          }
        }
      | _ \<Rightarrow> Some None)"

text \<open>A reply: move a send-once right, and free its entry by hand.\<close>

definition copyin_reply :: "u32 \<Rightarrow> ipc_kmsg \<Rightarrow> ipc_kernel \<Rightarrow> header_result option option" where
  "copyin_reply mbits msg k =
     (if msgh_local_port msg \<noteq> MACH_PORT_NULL \<or> \<not> is_active (k_space k) then Some None
      else let name = msgh_remote_port msg; index = unat (MACH_PORT_INDEX name); gen = MACH_PORT_GEN name in
        case fast_entry name (IE_BITS_COLLISION OR MACH_PORT_TYPE_SEND_ONCE) MACH_PORT_TYPE_SEND_ONCE k of
          None \<Rightarrow> Some None
        | Some entry \<Rightarrow>
            if ie_request entry \<noteq> 0 then Some None
            else do {
              let dest_port = ie_object entry;
              p \<leftarrow> k_ports k dest_port;
              if \<not> ip_active p then Some None
              else
                let table = is_table (k_space k);
                    table = entry_upd index (\<lambda>e. e\<lparr>ie_request := ie_next (table ! 0)\<rparr>) table;
                    table = entry_upd 0 (\<lambda>e. e\<lparr>ie_request := index\<rparr>) table;
                    table = entry_upd index (\<lambda>e. e\<lparr>ie_bits := gen, ie_object := IO_NULL\<rparr>) table
                in Some (Some ((MACH_MSG_SUCCESS,
                     msg\<lparr>msgh_bits := MACH_MSGH_BITS_OTHER mbits OR
                           MACH_MSGH_BITS (msgt_code MACH_MSG_TYPE_PORT_SEND_ONCE) 0,
                         msgh_remote_port := dest_port\<rparr>),
                   k\<lparr>k_space := (k_space k)\<lparr>is_table := table\<rparr>\<rparr>))
            })"

definition copyin_fast :: "bool \<Rightarrow> u32 \<Rightarrow> ipc_kmsg \<Rightarrow> ipc_kernel \<Rightarrow> header_result option option" where
  "copyin_fast lock_try mbits msg k =
     (let ports = MACH_MSGH_BITS_PORTS mbits
      in if ports = MACH_MSGH_BITS (msgt_code MACH_MSG_TYPE_COPY_SEND) 0 then copyin_async mbits msg k
         else if ports = MACH_MSGH_BITS (msgt_code MACH_MSG_TYPE_COPY_SEND) (msgt_code MACH_MSG_TYPE_MAKE_SEND_ONCE)
         then copyin_request lock_try mbits msg k
         else if ports = MACH_MSGH_BITS (msgt_code MACH_MSG_TYPE_MOVE_SEND_ONCE) 0 then copyin_reply mbits msg k
         else Some None)"

subsection \<open>The general case\<close>

text \<open>The objects and send-once rights for the destination and the reply port.\<close>

type_synonym header_rights = "(addr \<times> addr) \<times> (addr \<times> addr)"
type_synonym copyin_ports = "(mach_msg_return_t + header_rights) \<times> ipc_kernel"

text \<open>A right that was moved out leaves an entry without a type, which is freed.\<close>

definition free_if_none :: "mach_port_t \<Rightarrow> ipc_entry_ref \<Rightarrow> ipc_kernel \<Rightarrow> ipc_kernel option" where
  "free_if_none name entry k =
     do {
       e \<leftarrow> get_entry entry k;
       if IE_BITS_TYPE (ie_bits e) = MACH_PORT_TYPE_NONE then entry_dealloc name entry k else Some k
     }"

text \<open>Destination and reply port have the same name.\<close>

definition copyin_same_made ::
    "mach_port_t \<Rightarrow> ipc_entry_ref \<Rightarrow> mach_msg_type_name_t \<Rightarrow> mach_msg_type_name_t \<Rightarrow> ipc_kernel
      \<Rightarrow> copyin_ports option" where
  "copyin_same_made name entry dest_type reply_type k =
     do {
       (res, k) \<leftarrow> ipc_right_copyin name entry dest_type False k;
       case res of
         Inl _ \<Rightarrow> Some (Inl MACH_SEND_INVALID_DEST, k)
       | Inr dest \<Rightarrow> do {
           (res, k) \<leftarrow> ipc_right_copyin name entry reply_type True k;
           case res of
             Inl _ \<Rightarrow> None
           | Inr reply \<Rightarrow> Some (Inr (dest, reply), k)
         }
     }"

definition copyin_same_copied ::
    "mach_port_t \<Rightarrow> ipc_entry_ref \<Rightarrow> ipc_kernel \<Rightarrow> copyin_ports option" where
  "copyin_same_copied name entry k =
     do {
       (res, k) \<leftarrow> ipc_right_copyin name entry MACH_MSG_TYPE_COPY_SEND False k;
       case res of
         Inl _ \<Rightarrow> Some (Inl MACH_SEND_INVALID_DEST, k)
       | Inr (dest_port, dest_soright) \<Rightarrow> do {
           (reply_port, k) \<leftarrow> ipc_port_copy_send dest_port k;
           Some (Inr ((dest_port, dest_soright), (reply_port, IP_NULL)), k)
         }
     }"

definition copyin_same_two :: "mach_port_t \<Rightarrow> ipc_entry_ref \<Rightarrow> ipc_kernel \<Rightarrow> copyin_ports option" where
  "copyin_same_two name entry k =
     do {
       (res, k) \<leftarrow> ipc_right_copyin_two name entry k;
       case res of
         Inl _ \<Rightarrow> Some (Inl MACH_SEND_INVALID_DEST, k)
       | Inr (dest_port, dest_soright) \<Rightarrow> do {
           k \<leftarrow> free_if_none name entry k;
           Some (Inr ((dest_port, dest_soright), (dest_port, IP_NULL)), k)
         }
     }"

definition copyin_same_mixed ::
    "mach_port_t \<Rightarrow> ipc_entry_ref \<Rightarrow> mach_msg_type_name_t \<Rightarrow> ipc_kernel \<Rightarrow> copyin_ports option" where
  "copyin_same_mixed name entry dest_type k =
     do {
       (res, k) \<leftarrow> ipc_right_copyin name entry MACH_MSG_TYPE_MOVE_SEND False k;
       case res of
         Inl _ \<Rightarrow> Some (Inl MACH_SEND_INVALID_DEST, k)
       | Inr (dest_port, soright) \<Rightarrow> do {
           k \<leftarrow> free_if_none name entry k;
           (reply_port, k) \<leftarrow> ipc_port_copy_send dest_port k;
           Some (Inr (if dest_type = MACH_MSG_TYPE_MOVE_SEND then ((dest_port, soright), (reply_port, IP_NULL))
                      else ((dest_port, IP_NULL), (reply_port, soright))), k)
         }
     }"

definition copyin_same ::
    "mach_port_t \<Rightarrow> mach_msg_type_name_t \<Rightarrow> mach_msg_type_name_t option \<Rightarrow> ipc_kernel \<Rightarrow> copyin_ports option" where
  "copyin_same name dest_type reply k =
     (case entry_lookup name k of
        (None, k) \<Rightarrow> Some (Inl MACH_SEND_INVALID_DEST, k)
      | (Some entry, k) \<Rightarrow> do {
          reply_type \<leftarrow> reply;
          ok \<leftarrow> ipc_right_copyin_check entry reply_type k;
          let made = {MACH_MSG_TYPE_MAKE_SEND, MACH_MSG_TYPE_MAKE_SEND_ONCE};
          if \<not> ok then Some (Inl MACH_SEND_INVALID_REPLY, k)
          else if dest_type = MACH_MSG_TYPE_MOVE_SEND_ONCE \<or> reply_type = MACH_MSG_TYPE_MOVE_SEND_ONCE
          then Some (Inl MACH_SEND_INVALID_DEST, k)
          else if dest_type \<in> made \<or> reply_type \<in> made then copyin_same_made name entry dest_type reply_type k
          else if dest_type = MACH_MSG_TYPE_COPY_SEND \<and> reply_type = MACH_MSG_TYPE_COPY_SEND
          then copyin_same_copied name entry k
          else if dest_type = MACH_MSG_TYPE_MOVE_SEND \<and> reply_type = MACH_MSG_TYPE_MOVE_SEND
          then copyin_same_two name entry k
          else copyin_same_mixed name entry dest_type k
        })"

text \<open>There is no reply port.\<close>

definition copyin_dest_only ::
    "mach_port_t \<Rightarrow> mach_msg_type_name_t \<Rightarrow> mach_port_t \<Rightarrow> ipc_kernel \<Rightarrow> copyin_ports option" where
  "copyin_dest_only dest_name dest_type reply_name k =
     (case entry_lookup dest_name k of
        (None, k) \<Rightarrow> Some (Inl MACH_SEND_INVALID_DEST, k)
      | (Some entry, k) \<Rightarrow> do {
          (res, k) \<leftarrow> ipc_right_copyin dest_name entry dest_type False k;
          case res of
            Inl _ \<Rightarrow> Some (Inl MACH_SEND_INVALID_DEST, k)
          | Inr dest \<Rightarrow> do {
              k \<leftarrow> free_if_none dest_name entry k;
              Some (Inr (dest, (reply_name, IP_NULL)), k)
            }
        })"

text \<open>
  Two names.  After both copyins: when the reply port died first although the destination had died
  before it, both copyins are undone.
\<close>

definition reference_port :: "addr \<Rightarrow> ipc_kernel \<Rightarrow> ipc_kernel option" where
  "reference_port a k = (if a \<noteq> IP_NULL then ipc_object_reference a k else Some k)"

definition release_port :: "addr \<Rightarrow> ipc_kernel \<Rightarrow> ipc_kernel option" where
  "release_port a k = (if a \<noteq> IP_NULL then ipc_port_release a k else Some k)"

definition copyin_must_undo :: "addr \<Rightarrow> addr \<Rightarrow> addr \<Rightarrow> ipc_kernel \<Rightarrow> bool option" where
  "copyin_must_undo saved_reply reply_port dest_port k =
     (if saved_reply \<noteq> IP_NULL \<and> reply_port = IO_DEAD
      then do {
        q \<leftarrow> k_ports k saved_reply;
        d \<leftarrow> k_ports k dest_port;
        Some (\<not> ip_active d \<and> IP_TIMESTAMP_ORDER (ip_timestamp d) (ip_timestamp q))
      }
      else Some False)"

definition copyin_undo_both ::
    "mach_port_t \<Rightarrow> ipc_entry_ref \<Rightarrow> mach_msg_type_name_t \<Rightarrow> addr \<times> addr
      \<Rightarrow> mach_port_t \<Rightarrow> ipc_entry_ref \<Rightarrow> mach_msg_type_name_t \<Rightarrow> addr \<times> addr \<Rightarrow> addr \<Rightarrow> ipc_kernel
      \<Rightarrow> copyin_ports option" where
  "copyin_undo_both dest_name dest_entry dest_type dest reply_name reply_entry reply_type reply saved_reply k =
     do {
       k \<leftarrow> ipc_right_copyin_undo dest_name dest_entry dest_type (fst dest) (snd dest) k;
       k \<leftarrow> ipc_right_copyin_undo reply_name reply_entry reply_type (fst reply) (snd reply) k;
       let k = (if snd dest \<noteq> IP_NULL then post (Notify_Dead_Name (snd dest) dest_name) k else k);
       k \<leftarrow> ipc_port_release saved_reply k;
       Some (Inl MACH_SEND_INVALID_DEST, k)
     }"

definition copyin_reply_port ::
    "mach_port_t \<Rightarrow> ipc_entry_ref \<Rightarrow> mach_msg_type_name_t \<Rightarrow> addr \<times> addr
      \<Rightarrow> mach_port_t \<Rightarrow> ipc_entry_ref \<Rightarrow> mach_msg_type_name_t \<Rightarrow> ipc_kernel \<Rightarrow> copyin_ports option" where
  "copyin_reply_port dest_name dest_entry dest_type dest reply_name reply_entry reply_type k =
     do {
       e \<leftarrow> get_entry reply_entry k;
       let saved_reply = ie_object e;
       k \<leftarrow> reference_port saved_reply k;
       (res, k) \<leftarrow> ipc_right_copyin reply_name reply_entry reply_type True k;
       case res of
         Inl _ \<Rightarrow> do {
           k \<leftarrow> free_if_none dest_name dest_entry k;
           k \<leftarrow> release_port saved_reply k;
           Some (Inr (dest, (IO_DEAD, IP_NULL)), k)
         }
       | Inr reply \<Rightarrow> do {
           must_undo \<leftarrow> copyin_must_undo saved_reply (fst reply) (fst dest) k;
           if must_undo
           then copyin_undo_both dest_name dest_entry dest_type dest reply_name reply_entry reply_type reply
                  saved_reply k
           else do {
             k \<leftarrow> free_if_none reply_name reply_entry k;
             k \<leftarrow> free_if_none dest_name dest_entry k;
             k \<leftarrow> release_port saved_reply k;
             Some (Inr (dest, reply), k)
           }
         }
     }"

definition copyin_both ::
    "mach_port_t \<Rightarrow> mach_msg_type_name_t \<Rightarrow> mach_port_t \<Rightarrow> mach_msg_type_name_t option \<Rightarrow> ipc_kernel
      \<Rightarrow> copyin_ports option" where
  "copyin_both dest_name dest_type reply_name reply k =
     (case entry_lookup dest_name k of
        (None, k) \<Rightarrow> Some (Inl MACH_SEND_INVALID_DEST, k)
      | (Some dest_entry, k) \<Rightarrow>
          (case entry_lookup reply_name k of
             (None, k) \<Rightarrow> Some (Inl MACH_SEND_INVALID_REPLY, k)
           | (Some reply_entry, k) \<Rightarrow> do {
               reply_type \<leftarrow> reply;
               ok \<leftarrow> ipc_right_copyin_check reply_entry reply_type k;
               if \<not> ok then Some (Inl MACH_SEND_INVALID_REPLY, k)
               else do {
                 (res, k) \<leftarrow> ipc_right_copyin dest_name dest_entry dest_type False k;
                 case res of
                   Inl _ \<Rightarrow> Some (Inl MACH_SEND_INVALID_DEST, k)
                 | Inr dest \<Rightarrow>
                     copyin_reply_port dest_name dest_entry dest_type dest reply_name reply_entry reply_type k
               }
             }))"

text \<open>The port named by \<open>notify\<close>, for \<open>MACH_SEND_CANCEL\<close>.\<close>

definition copyin_notify :: "mach_port_t \<Rightarrow> ipc_kernel \<Rightarrow> ((mach_msg_return_t + addr) \<times> ipc_kernel) option" where
  "copyin_notify notify k =
     (if notify = MACH_PORT_NULL then Some (Inr IP_NULL, k)
      else case entry_lookup notify k of
        (None, k) \<Rightarrow> Some (Inl MACH_SEND_INVALID_NOTIFY, k)
      | (Some entry, k) \<Rightarrow> do {
          e \<leftarrow> get_entry entry k;
          Some (if ie_bits e AND MACH_PORT_TYPE_RECEIVE = 0 then Inl MACH_SEND_INVALID_NOTIFY
                else Inr (ie_object e), k)
        })"

text \<open>The end: notifications for the names that are gone, and the new header.\<close>

definition copyin_finish ::
    "u32 \<Rightarrow> ipc_kmsg \<Rightarrow> u32 \<Rightarrow> u32 \<Rightarrow> mach_port_t \<Rightarrow> addr \<Rightarrow> header_rights \<Rightarrow> ipc_kernel \<Rightarrow> header_result option" where
  "copyin_finish mbits msg dest_type reply_type notify notify_port = (\<lambda>((dest_port, dest_soright), (reply_port, reply_soright)) k.
     do {
       (dest_soright, k) \<leftarrow>
         (if notify \<noteq> MACH_PORT_NULL \<and> dest_soright = notify_port
          then do { k \<leftarrow> ipc_port_release_sonce dest_soright k; Some (IP_NULL, k) }
          else Some (dest_soright, k));
       let k = notify_port_deleted dest_soright (msgh_remote_port msg) k;
       let k = notify_port_deleted reply_soright (msgh_local_port msg) k;
       dest_type \<leftarrow> ipc_object_copyin_type dest_type;
       reply_type \<leftarrow> ipc_object_copyin_type reply_type;
       Some ((MACH_MSG_SUCCESS,
         msg\<lparr>msgh_bits := MACH_MSGH_BITS_OTHER mbits OR MACH_MSGH_BITS dest_type reply_type,
             msgh_remote_port := dest_port, msgh_local_port := reply_port\<rparr>), k)
     })"

definition copyin_general :: "u32 \<Rightarrow> ipc_kmsg \<Rightarrow> mach_port_t \<Rightarrow> ipc_kernel \<Rightarrow> header_result option" where
  "copyin_general mbits msg notify k =
     (let dest_name = msgh_remote_port msg; reply_name = msgh_local_port msg;
          dest_type = MACH_MSGH_BITS_REMOTE mbits; reply_type = MACH_MSGH_BITS_LOCAL mbits
      in if \<not> MACH_MSG_TYPE_PORT_ANY_SEND dest_type then Some ((MACH_SEND_INVALID_HEADER, msg), k)
         else if (if reply_type = 0 then reply_name \<noteq> MACH_PORT_NULL else \<not> MACH_MSG_TYPE_PORT_ANY_SEND reply_type)
         then Some ((MACH_SEND_INVALID_HEADER, msg), k)
         else if \<not> is_active (k_space k) then Some ((MACH_SEND_INVALID_DEST, msg), k)
         else do {
           (res, k) \<leftarrow> copyin_notify notify k;
           case res of
             Inl mr \<Rightarrow> Some ((mr, msg), k)
           | Inr notify_port \<Rightarrow> do {
               dt \<leftarrow> msgt_of dest_type;
               let rt = msgt_of reply_type;
               (res, k) \<leftarrow>
                 (if dest_name = reply_name then copyin_same dest_name dt rt k
                  else if \<not> MACH_PORT_VALID reply_name then copyin_dest_only dest_name dt reply_name k
                  else copyin_both dest_name dt reply_name rt k);
               case res of
                 Inl mr \<Rightarrow> Some ((mr, msg), k)
               | Inr rights \<Rightarrow> copyin_finish mbits msg dest_type reply_type notify notify_port rights k
             }
         })"

definition ipc_kmsg_copyin_header :: "bool \<Rightarrow> ipc_kmsg \<Rightarrow> mach_port_t \<Rightarrow> ipc_kernel \<Rightarrow> header_result option" where
  "ipc_kmsg_copyin_header lock_try msg notify k =
     do {
       let mbits = msgh_bits msg AND NOT MACH_MSGH_BITS_CIRCULAR;
       fast \<leftarrow> (if notify = MACH_PORT_NULL then copyin_fast lock_try mbits msg k else Some None);
       case fast of
         Some result \<Rightarrow> Some result
       | None \<Rightarrow> copyin_general mbits msg notify k
     }"

end
