(* ===== verification/Ipc_Kmsg_Copyout.thy ===== *)
theory Ipc_Kmsg_Copyout
  imports Ipc_Kmsg_Copyin
begin

section \<open>Message headers on their way to the receiver\<close>

text \<open>
  \<open>ipc_kmsg_copyout_header\<close> of \<open>ipc/ipc_kmsg.c\<close>: the reply right of the header goes into the space of
  the receiver, the destination right is consumed, and the header has their names afterwards.  Again
  there are three shortcuts.  A result has, beside the code, the extra bits that say where the
  shortage was.
\<close>

definition MACH_MSG_IPC_SPACE :: u32 where "MACH_MSG_IPC_SPACE = 0x2000"
definition MACH_MSG_IPC_KERNEL :: u32 where "MACH_MSG_IPC_KERNEL = 0x0800"

type_synonym copyout_result = "((mach_msg_return_t \<times> u32) \<times> ipc_kmsg) \<times> ipc_kernel"

subsection \<open>The shortcuts\<close>

text \<open>
  The end that two shortcuts share: the send right of the destination is used up, with the no-senders
  notification when it was the last one.
\<close>

definition fast_dest_send :: "addr \<Rightarrow> ipc_kernel \<Rightarrow> (mach_port_t \<times> ipc_kernel) option" where
  "fast_dest_send dest k =
     do {
       p \<leftarrow> k_ports k dest;
       let p = ip_release p;
       let dest_name = (if ip_receiver p = k_addr k then ip_receiver_name p else MACH_PORT_NULL);
       let p = p\<lparr>ip_srights := ip_srights p - 1\<rparr>;
       if ip_srights p = 0 \<and> ip_nsrequest p \<noteq> IP_NULL
       then Some (dest_name, post (Notify_No_Senders (ip_nsrequest p) (ip_mscount p))
              (put_port dest (p\<lparr>ip_nsrequest := IP_NULL\<rparr>) k))
       else Some (dest_name, put_port dest p k)
     }"

definition copyout_async :: "ipc_kmsg \<Rightarrow> ipc_kernel \<Rightarrow> copyout_result option option" where
  "copyout_async msg k =
     do {
       let dest = msgh_remote_port msg;
       p \<leftarrow> k_ports k dest;
       if \<not> ip_active p then Some None
       else do {
         (dest_name, k) \<leftarrow> fast_dest_send dest k;
         Some (Some (((MACH_MSG_SUCCESS, 0),
           msg\<lparr>msgh_bits := MACH_MSGH_BITS_OTHER (msgh_bits msg) OR MACH_MSGH_BITS 0 (msgt_code MACH_MSG_TYPE_PORT_SEND),
               msgh_local_port := dest_name, msgh_remote_port := MACH_PORT_NULL\<rparr>), k))
       }
     }"

definition copyout_request :: "bool \<Rightarrow> ipc_kmsg \<Rightarrow> ipc_kernel \<Rightarrow> copyout_result option option" where
  "copyout_request lock_try msg k =
     (let dest = msgh_remote_port msg; reply = msgh_local_port msg; table = is_table (k_space k);
          index = ie_next (table ! 0)
      in if \<not> IP_VALID reply \<or> \<not> is_active (k_space k) \<or> index = 0 then Some None
         else do {
           p \<leftarrow> k_ports k dest;
           if \<not> ip_active p \<or> \<not> lock_try then Some None
           else do {
             q \<leftarrow> k_ports k reply;
             if \<not> ip_active q then Some None
             else do {
               let table = entry_upd 0 (\<lambda>e. e\<lparr>ie_request := ie_next (table ! index)\<rparr>) table;
               let gen = ie_bits (table ! index) + IE_BITS_GEN_ONE;
               let reply_name = MACH_PORT_MAKE (of_nat index) gen;
               let table = entry_upd index (\<lambda>e. e\<lparr>ie_request := 0, ie_bits := gen OR (MACH_PORT_TYPE_SEND_ONCE OR 1),
                             ie_object := reply\<rparr>) table;
               let k = k\<lparr>k_space := (k_space k)\<lparr>is_table := table\<rparr>\<rparr>;
               (dest_name, k) \<leftarrow> fast_dest_send dest k;
               Some (Some (((MACH_MSG_SUCCESS, 0),
                 msg\<lparr>msgh_bits := MACH_MSGH_BITS_OTHER (msgh_bits msg) OR
                       MACH_MSGH_BITS (msgt_code MACH_MSG_TYPE_PORT_SEND_ONCE) (msgt_code MACH_MSG_TYPE_PORT_SEND),
                     msgh_local_port := dest_name, msgh_remote_port := reply_name\<rparr>), k))
             }
           }
         })"

definition copyout_reply :: "ipc_kmsg \<Rightarrow> ipc_kernel \<Rightarrow> copyout_result option option" where
  "copyout_reply msg k =
     do {
       let dest = msgh_remote_port msg;
       p \<leftarrow> k_ports k dest;
       if \<not> ip_active p then Some None
       else
         let (dest_name, k) =
           (if ip_receiver p = k_addr k
            then (ip_receiver_name p, put_port dest ((ip_release p)\<lparr>ip_sorights := ip_sorights p - 1\<rparr>) k)
            else (MACH_PORT_NULL, post (Notify_Send_Once dest) k))
         in Some (Some (((MACH_MSG_SUCCESS, 0),
              msg\<lparr>msgh_bits := MACH_MSGH_BITS_OTHER (msgh_bits msg) OR
                    MACH_MSGH_BITS 0 (msgt_code MACH_MSG_TYPE_PORT_SEND_ONCE),
                  msgh_local_port := dest_name, msgh_remote_port := MACH_PORT_NULL\<rparr>), k))
     }"

definition copyout_fast :: "bool \<Rightarrow> ipc_kmsg \<Rightarrow> ipc_kernel \<Rightarrow> copyout_result option option" where
  "copyout_fast lock_try msg k =
     (let ports = MACH_MSGH_BITS_PORTS (msgh_bits msg)
      in if ports = MACH_MSGH_BITS (msgt_code MACH_MSG_TYPE_PORT_SEND) 0 then copyout_async msg k
         else if ports = MACH_MSGH_BITS (msgt_code MACH_MSG_TYPE_PORT_SEND) (msgt_code MACH_MSG_TYPE_PORT_SEND_ONCE)
         then copyout_request lock_try msg k
         else if ports = MACH_MSGH_BITS (msgt_code MACH_MSG_TYPE_PORT_SEND_ONCE) 0 then copyout_reply msg k
         else Some None)"

subsection \<open>The general case\<close>

text \<open>
  The reply right.  A round of the loop ends with an error, with the entry the right goes into (and the
  send-once right for the notification that was not needed), with a reply port that has died, or asks
  for another round.
\<close>

datatype reply_entry =
    Copyout_Error mach_msg_return_t u32
  | Reply_Entry mach_port_t ipc_entry_ref addr
  | Reply_Dead
  | Copyout_Again

definition release_notify :: "addr \<Rightarrow> ipc_kernel \<Rightarrow> ipc_kernel option" where
  "release_notify notify_port k =
     (if notify_port \<noteq> IP_NULL then ipc_port_release_sonce notify_port k else Some k)"

definition reply_new_entry ::
    "(ipc_kernel \<Rightarrow> ipc_kernel) \<Rightarrow> (nat \<Rightarrow> addr option) \<Rightarrow> addr \<Rightarrow> addr \<Rightarrow> mach_port_t \<Rightarrow> ipc_entry_ref \<Rightarrow> ipc_kernel
      \<Rightarrow> (reply_entry \<times> ipc_kernel) option" where
  "reply_new_entry other alloc reply notify_port name entry k =
     (if notify_port = IP_NULL
      then Some (Reply_Entry name entry IP_NULL, set_entry entry (\<lambda>e. e\<lparr>ie_object := reply\<rparr>) k)
      else do {
        q \<leftarrow> k_ports k reply;
        case ipc_port_dnrequest name notify_port q of
          (Inr request, q) \<Rightarrow>
            Some (Reply_Entry name entry IP_NULL,
              set_entry entry (\<lambda>e. e\<lparr>ie_object := reply, ie_request := request\<rparr>) (put_port reply q k))
        | (Inl _, q) \<Rightarrow> do {
            k \<leftarrow> ipc_port_release_sonce notify_port k;
            k \<leftarrow> entry_dealloc name entry k;
            q \<leftarrow> k_ports k reply;
            if \<not> ip_active q then Some (Copyout_Again, k)
            else do {
              (kr, k) \<leftarrow> ipc_port_dngrow other alloc reply k;
              Some (if kr \<noteq> KERN_SUCCESS then Copyout_Error MACH_RCV_HEADER_ERROR MACH_MSG_IPC_KERNEL
                    else Copyout_Again, k)
            }
          }
      })"

definition reply_round ::
    "ipc_env \<Rightarrow> (ipc_kernel \<Rightarrow> ipc_kernel) \<Rightarrow> (nat \<Rightarrow> bool) \<Rightarrow> (nat \<Rightarrow> addr option)
      \<Rightarrow> addr \<Rightarrow> u32 \<Rightarrow> mach_port_t \<Rightarrow> ipc_kernel \<Rightarrow> (reply_entry \<times> ipc_kernel) option" where
  "reply_round env other avail alloc reply reply_type notify k =
     (if \<not> is_active (k_space k) then Some (Copyout_Error MACH_RCV_HEADER_ERROR MACH_MSG_IPC_SPACE, k)
      else do {
        (notify_port, k) \<leftarrow> (if notify \<noteq> MACH_PORT_NULL then ipc_port_lookup_notify notify k else Some (IP_NULL, k));
        if notify \<noteq> MACH_PORT_NULL \<and> notify_port = IP_NULL then Some (Copyout_Error MACH_RCV_INVALID_NOTIFY 0, k)
        else do {
          (found, k) \<leftarrow> (if reply_type \<noteq> msgt_code MACH_MSG_TYPE_PORT_SEND_ONCE then ipc_right_reverse reply k
                         else Some (None, k));
          case found of
            Some (name, entry) \<Rightarrow> Some (Reply_Entry name entry notify_port, k)
          | None \<Rightarrow> do {
              q \<leftarrow> k_ports k reply;
              if \<not> ip_active q
              then do {
                k \<leftarrow> ipc_port_release reply k;
                k \<leftarrow> release_notify notify_port k;
                Some (Reply_Dead, k)
              }
              else case entry_get k of
                (Inl _, k) \<Rightarrow> do {
                  k \<leftarrow> release_notify notify_port k;
                  (kr, k) \<leftarrow> entry_grow_table env avail k;
                  Some (if kr = KERN_SUCCESS then Copyout_Again
                        else Copyout_Error MACH_RCV_HEADER_ERROR
                               (if kr = KERN_RESOURCE_SHORTAGE then MACH_MSG_IPC_KERNEL else MACH_MSG_IPC_SPACE),
                        other k)
                }
              | (Inr (name, entry), k) \<Rightarrow> reply_new_entry other alloc reply notify_port name entry k
            }
        }
      })"

text \<open>The result has the reply port (\<open>IP_DEAD\<close> when it had died) and its name.\<close>

fun copyout_reply_right ::
    "nat \<Rightarrow> ipc_env \<Rightarrow> (ipc_kernel \<Rightarrow> ipc_kernel) \<Rightarrow> (nat \<Rightarrow> bool) \<Rightarrow> (nat \<Rightarrow> addr option)
      \<Rightarrow> addr \<Rightarrow> u32 \<Rightarrow> mach_port_t \<Rightarrow> ipc_kernel
      \<Rightarrow> ((mach_msg_return_t \<times> u32 + addr \<times> mach_port_t) \<times> ipc_kernel) option" where
  "copyout_reply_right 0 env other avail alloc reply reply_type notify k = None"
| "copyout_reply_right (Suc rounds) env other avail alloc reply reply_type notify k =
     do {
       (res, k) \<leftarrow> reply_round env other avail alloc reply reply_type notify k;
       case res of
         Copyout_Again \<Rightarrow> copyout_reply_right rounds env other avail alloc reply reply_type notify k
       | Copyout_Error mr bits \<Rightarrow> Some (Inl (mr, bits), k)
       | Reply_Dead \<Rightarrow> Some (Inr (IP_DEAD, MACH_PORT_DEAD), k)
       | Reply_Entry name entry notify_port \<Rightarrow> do {
           q \<leftarrow> k_ports k reply;
           rt \<leftarrow> msgt_of reply_type;
           (kr, k) \<leftarrow> ipc_right_copyout name entry rt True reply (put_port reply (ip_reference q) k);
           k \<leftarrow> release_notify notify_port k;
           Some (Inr (reply, name), k)
         }
     }"

text \<open>There is no reply right: the space is locked only to look at it and at \<open>notify\<close>.\<close>

definition copyout_no_reply ::
    "addr \<Rightarrow> mach_port_t \<Rightarrow> ipc_kernel \<Rightarrow> ((mach_msg_return_t \<times> u32 + addr \<times> mach_port_t) \<times> ipc_kernel) option" where
  "copyout_no_reply reply notify k =
     (if \<not> is_active (k_space k) then Some (Inl (MACH_RCV_HEADER_ERROR, MACH_MSG_IPC_SPACE), k)
      else if notify = MACH_PORT_NULL then Some (Inr (reply, reply), k)
      else case entry_lookup notify k of
        (None, k) \<Rightarrow> Some (Inl (MACH_RCV_INVALID_NOTIFY, 0), k)
      | (Some entry, k) \<Rightarrow> do {
          e \<leftarrow> get_entry entry k;
          Some (if ie_bits e AND MACH_PORT_TYPE_RECEIVE = 0 then Inl (MACH_RCV_INVALID_NOTIFY, 0)
                else Inr (reply, reply), k)
        })"

text \<open>
  The label \<open>copyout_dest\<close>.  When the destination is dead its name depends on which of the two ports
  died first.
\<close>

definition copyout_dest_right :: "addr \<Rightarrow> addr \<Rightarrow> u32 \<Rightarrow> ipc_kernel \<Rightarrow> (mach_port_t \<times> ipc_kernel) option" where
  "copyout_dest_right reply dest dest_type k =
     do {
       p \<leftarrow> k_ports k dest;
       if ip_active p then do { dt \<leftarrow> msgt_of dest_type; ipc_object_copyout_dest dest dt k }
       else do {
         k \<leftarrow> ipc_port_release dest k;
         if IP_VALID reply
         then do {
           q \<leftarrow> k_ports k reply;
           Some (if ip_active q \<or> IP_TIMESTAMP_ORDER (ip_timestamp p) (ip_timestamp q)
                 then MACH_PORT_DEAD else MACH_PORT_NULL, k)
         }
         else Some (MACH_PORT_DEAD, k)
       }
     }"

definition copyout_general ::
    "nat \<Rightarrow> ipc_env \<Rightarrow> (ipc_kernel \<Rightarrow> ipc_kernel) \<Rightarrow> (nat \<Rightarrow> bool) \<Rightarrow> (nat \<Rightarrow> addr option)
      \<Rightarrow> ipc_kmsg \<Rightarrow> mach_port_t \<Rightarrow> ipc_kernel \<Rightarrow> copyout_result option" where
  "copyout_general rounds env other avail alloc msg notify k =
     (let mbits = msgh_bits msg; dest = msgh_remote_port msg; reply = msgh_local_port msg;
          dest_type = MACH_MSGH_BITS_REMOTE mbits; reply_type = MACH_MSGH_BITS_LOCAL mbits
      in do {
        (res, k) \<leftarrow> (if IP_VALID reply
                     then copyout_reply_right rounds env other avail alloc reply reply_type notify k
                     else copyout_no_reply reply notify k);
        case res of
          Inl mr \<Rightarrow> Some ((mr, msg), k)
        | Inr (reply, reply_name) \<Rightarrow> do {
            (dest_name, k) \<leftarrow> copyout_dest_right reply dest dest_type k;
            k \<leftarrow> (if IP_VALID reply then ipc_port_release reply k else Some k);
            Some (((MACH_MSG_SUCCESS, 0),
              msg\<lparr>msgh_bits := MACH_MSGH_BITS_OTHER mbits OR MACH_MSGH_BITS reply_type dest_type,
                  msgh_local_port := dest_name, msgh_remote_port := reply_name\<rparr>), k)
          }
      })"

definition ipc_kmsg_copyout_header ::
    "bool \<Rightarrow> nat \<Rightarrow> ipc_env \<Rightarrow> (ipc_kernel \<Rightarrow> ipc_kernel) \<Rightarrow> (nat \<Rightarrow> bool) \<Rightarrow> (nat \<Rightarrow> addr option)
      \<Rightarrow> ipc_kmsg \<Rightarrow> mach_port_t \<Rightarrow> ipc_kernel \<Rightarrow> copyout_result option" where
  "ipc_kmsg_copyout_header lock_try rounds env other avail alloc msg notify k =
     do {
       fast \<leftarrow> (if notify = MACH_PORT_NULL then copyout_fast lock_try msg k else Some None);
       case fast of
         Some result \<Rightarrow> Some result
       | None \<Rightarrow> copyout_general rounds env other avail alloc msg notify k
     }"

end
