(* ===== verification/Ipc_Kmsg_Fast.thy ===== *)
theory Ipc_Kmsg_Fast
  imports Ipc_Kmsg_Copyout Ipc_Right_Dealloc
begin

section \<open>The shortcuts agree with the general case\<close>

text \<open>
  The shortcuts of the header operations are written out by hand; here they are shown to do what the
  general case does, on every kernel that satisfies the invariant.
\<close>

lemma combined_bits:
  fixes b :: "'a :: len word"
  assumes "b AND (G OR F) = g OR t" and "g AND G = g" and "t AND F = t" and "G AND F = 0"
  shows "b AND G = g" and "b AND F = t"
proof -
  have "bit b n \<and> (bit G n \<or> bit F n) \<longleftrightarrow> bit g n \<or> bit t n" "bit g n \<and> bit G n \<longleftrightarrow> bit g n"
    "bit t n \<and> bit F n \<longleftrightarrow> bit t n" "\<not> (bit G n \<and> bit F n)" for n
    using arg_cong [OF assms(1), of "\<lambda>w. bit w n"] arg_cong [OF assms(2), of "\<lambda>w. bit w n"]
      arg_cong [OF assms(3), of "\<lambda>w. bit w n"] arg_cong [OF assms(4), of "\<lambda>w. bit w n"]
    by (simp_all add: bit_and_iff bit_or_iff)
  then have "bit b n \<and> bit G n \<longleftrightarrow> bit g n" "bit b n \<and> bit F n \<longleftrightarrow> bit t n" for n by blast+
  then show "b AND G = g" and "b AND F = t" by (auto intro!: bit_word_eqI simp: bit_and_iff)
qed

lemma gen_of_name: "MACH_PORT_GEN n AND IE_BITS_GEN_MASK = MACH_PORT_GEN n"
  unfolding MACH_PORT_GEN_def by (rule bit_word_eqI) (auto simp: bit_simps bits_simps)

text \<open>What the comparison of a shortcut finds out about an entry.\<close>

lemma fast_entry_hit:
  assumes inv: "rights_inv {} x k" and f: "fast_entry n flags type k = Some e"
    and t: "type AND flags = type" "IE_BITS_GEN_MASK AND flags = 0" and ty: "IE_BITS_TYPE type \<noteq> 0"
  obtains "e = is_table (k_space k) ! idx n" and "idx n < is_table_size (k_space k)"
    and "IE_BITS_GEN (ie_bits e) = MACH_PORT_GEN n" and "ie_bits e AND flags = type"
    and "entry_lookup n k = (Some (TableEntry (idx n)), k)" and "get_entry (TableEntry (idx n)) k = Some e"
    and "caps k {} n = Some (view e)" and "right_ok k n (view e)"
proof -
  have e: "e = is_table (k_space k) ! idx n" and ix: "idx n < is_table_size (k_space k)"
    and b: "ie_bits e AND (IE_BITS_GEN_MASK OR flags) = MACH_PORT_GEN n OR type"
    using f by (auto simp: fast_entry_def Let_def split: if_splits)
  note B = combined_bits [OF b gen_of_name t]
  from B(1) have gen: "IE_BITS_GEN (ie_bits e) = MACH_PORT_GEN n" by (simp add: IE_BITS_GEN_def)
  have "IE_BITS_TYPE (ie_bits e) \<noteq> 0"
  proof
    assume z: "IE_BITS_TYPE (ie_bits e) = 0"
    have "IE_BITS_TYPE type = (ie_bits e AND flags) AND IE_BITS_TYPE_MASK" by (simp add: B(2) IE_BITS_TYPE_def)
    also have "\<dots> = IE_BITS_TYPE (ie_bits e) AND flags" by (simp add: IE_BITS_TYPE_def ac_simps)
    finally show False using z ty by simp
  qed
  then have lk: "ipc_entry_lookup n (k_space k) = (Some (TableEntry (idx n)), k_space k)"
    using ix gen e by (simp add: ipc_entry_lookup_def)
  have ge: "get_entry (TableEntry (idx n)) k = Some e" using ix e by (simp add: get_entry_def entry_at_def)
  have "lookup_ok (k_space k) {} n (Some (TableEntry (idx n))) (k_space k)"
    using ipc_entry_lookup_spec [OF rights_invD(1) [OF inv], of n] lk by simp
  then have c: "caps k {} n = Some (view e)" using ge by (auto simp: lookup_ok_def get_entry_def)
  show thesis
    by (rule that [OF e ix gen B(2) _ ge c]) (use lk c rights_invD(4) [OF inv c] in \<open>simp_all add: entry_lookup_def\<close>)
qed


subsection \<open>Copyin\<close>

lemma header_types:
  "MACH_MSGH_BITS_REMOTE mbits = MACH_MSGH_BITS_PORTS mbits AND 0xff"
  "MACH_MSGH_BITS_LOCAL mbits = drop_bit 8 (MACH_MSGH_BITS_PORTS mbits AND 0xff00)"
proof -
  have "(mbits AND 0xffff) AND 0xff = mbits AND (0xffff AND 0xff)" "(mbits AND 0xffff) AND 0xff00 = mbits AND (0xffff AND 0xff00)"
    by (simp_all only: and.assoc)
  then show "MACH_MSGH_BITS_REMOTE mbits = MACH_MSGH_BITS_PORTS mbits AND 0xff"
    "MACH_MSGH_BITS_LOCAL mbits = drop_bit 8 (MACH_MSGH_BITS_PORTS mbits AND 0xff00)"
    by (simp_all add: MACH_MSGH_BITS_REMOTE_def MACH_MSGH_BITS_LOCAL_def MACH_MSGH_BITS_PORTS_def
        MACH_MSGH_BITS_REMOTE_MASK_def MACH_MSGH_BITS_LOCAL_MASK_def MACH_MSGH_BITS_PORTS_MASK_def)
qed

lemmas copyin_type_eval = MACH_MSG_TYPE_PORT_ANY_SEND_def ipc_object_copyin_type_def msgt_of_def

lemma hit_not_null:
  assumes inv: "rights_inv {} x k" and f: "fast_entry n flags type k = Some e"
    and t: "type AND flags = type" "IE_BITS_GEN_MASK AND flags = 0" and ty: "IE_BITS_TYPE type \<noteq> 0"
  shows "n \<noteq> MACH_PORT_NULL"
proof
  assume n: "n = MACH_PORT_NULL"
  have "IE_BITS_TYPE (ie_bits (is_table (k_space k) ! 0)) = 0"
    using head_ok_sel(1) [OF space_invD(2) [OF rights_invD(1) [OF inv]]] by simp
  moreover from fast_entry_hit [OF inv f t ty] have "e = is_table (k_space k) ! idx n" "right_ok k n (view e)" by auto
  moreover have "idx n = 0" by (simp add: n MACH_PORT_NULL_def MACH_PORT_INDEX_def)
  ultimately show False
    by (cases "view e") (auto simp: right_ok.simps view_def type_consts)
qed

lemma send_hit:
  assumes inv: "rights_inv {} x k" and f: "fast_entry n MACH_PORT_TYPE_SEND MACH_PORT_TYPE_SEND k = Some e"
  obtains "entry_lookup n k = (Some (TableEntry (idx n)), k)" and "get_entry (TableEntry (idx n)) k = Some e"
    and "ie_bits e AND MACH_PORT_TYPE_SEND \<noteq> 0" and "ie_bits e AND MACH_PORT_TYPE_DEAD_NAME = 0"
    and "ie_bits e AND MACH_PORT_TYPE_SEND_RIGHTS \<noteq> 0" and "IE_BITS_TYPE (ie_bits e) \<noteq> 0" and "n \<noteq> MACH_PORT_NULL"
proof -
  have t: "MACH_PORT_TYPE_SEND AND MACH_PORT_TYPE_SEND = MACH_PORT_TYPE_SEND" "IE_BITS_GEN_MASK AND MACH_PORT_TYPE_SEND = 0"
      "IE_BITS_TYPE MACH_PORT_TYPE_SEND \<noteq> 0"
    by (simp_all add: type_consts mask_defs IE_BITS_TYPE_def)
  note nn = hit_not_null [OF inv f t]
  show thesis
  proof (rule fast_entry_hit [OF inv f t])
    assume H: "ie_bits e AND MACH_PORT_TYPE_SEND = MACH_PORT_TYPE_SEND"
      "entry_lookup n k = (Some (TableEntry (idx n)), k)" "get_entry (TableEntry (idx n)) k = Some e"
      "right_ok k n (view e)"
    then have s: "ie_bits e AND MACH_PORT_TYPE_SEND \<noteq> 0" by (simp add: type_consts)
    from H(4) have "right_ok k n (ie_bits e AND IE_BITS_RIGHT_MASK, ie_object e, ie_request e)" by (simp add: view_def)
    then show thesis
    proof (rule type_cases [OF _ refl])
      assume "IE_BITS_TYPE (ie_bits e) = MACH_PORT_TYPE_SEND"
      with send_flags [OF this] H nn show thesis by (intro that) (simp_all add: type_consts)
    next
      assume "IE_BITS_TYPE (ie_bits e) = MACH_PORT_TYPE_SEND_RECEIVE"
      with send_receive_flags [OF this] H nn show thesis by (intro that) (simp_all add: type_consts)
    qed (use s receive_flags(1) send_once_flags(1) port_set_flags(1) dead_name_flags(1) in blast)+
  qed
qed

lemma copyin_async_general:
  assumes inv: "rights_inv {} x k" and ports: "MACH_MSGH_BITS_PORTS mbits = MACH_MSGH_BITS (msgt_code MACH_MSG_TYPE_COPY_SEND) 0"
    and fast: "copyin_async mbits msg k = Some (Some res)"
  shows "copyin_general mbits msg MACH_PORT_NULL k = Some res"
proof -
  from fast obtain e p where e: "fast_entry (msgh_remote_port msg) MACH_PORT_TYPE_SEND MACH_PORT_TYPE_SEND k = Some e"
      and null: "msgh_local_port msg = MACH_PORT_NULL" and act: "is_active (k_space k)"
      and p: "k_ports k (ie_object e) = Some p" "ip_active p"
      and res: "res = ((MACH_MSG_SUCCESS,
        msg\<lparr>msgh_bits := MACH_MSGH_BITS_OTHER mbits OR MACH_MSGH_BITS (msgt_code MACH_MSG_TYPE_PORT_SEND) 0,
            msgh_remote_port := ie_object e\<rparr>),
        put_port (ie_object e) (ip_reference (p\<lparr>ip_srights := ip_srights p + 1\<rparr>)) k)"
    by (auto simp: copyin_async_def Let_def bind_eq_Some_conv split: if_splits option.splits)
  have types: "MACH_MSGH_BITS_REMOTE mbits = 19" "MACH_MSGH_BITS_LOCAL mbits = 0"
    by (simp_all add: header_types ports MACH_MSGH_BITS_def)
  show ?thesis
  proof (rule send_hit [OF inv e])
    assume H: "entry_lookup (msgh_remote_port msg) k = (Some (TableEntry (idx (msgh_remote_port msg))), k)"
      "get_entry (TableEntry (idx (msgh_remote_port msg))) k = Some e"
      "ie_bits e AND MACH_PORT_TYPE_SEND \<noteq> 0" "ie_bits e AND MACH_PORT_TYPE_DEAD_NAME = 0"
      "ie_bits e AND MACH_PORT_TYPE_SEND_RIGHTS \<noteq> 0" "IE_BITS_TYPE (ie_bits e) \<noteq> 0" "msgh_remote_port msg \<noteq> MACH_PORT_NULL"
    let ?k = "put_port (ie_object e) (ip_reference (p\<lparr>ip_srights := ip_srights p + 1\<rparr>)) k"
    have "copyin_dest_only (msgh_remote_port msg) MACH_MSG_TYPE_COPY_SEND MACH_PORT_NULL k =
        Some (Inr ((ie_object e, IP_NULL), (MACH_PORT_NULL, IP_NULL)), ?k)"
      using H p right_check_alive [OF p]
      by (simp add: copyin_dest_only_def ipc_right_copyin_def copyin_copy_send_def Let_def free_if_none_def get_entry_def
          type_consts)
    then show ?thesis
      using H act by (simp add: copyin_general_def types copyin_type_eval null copyin_notify_def copyin_finish_def res
          MACH_PORT_VALID_def notify_port_deleted_def)
  qed
qed


lemma put_port_twice [simp]: "put_port a x (put_port a y k) = put_port a x k"
  by (simp add: put_port_def)

lemma release_after_reference:
  assumes "k_ports k a = Some p" and "ip_references p \<noteq> - 1" and "ip_references q = ip_references p + 2"
  shows "ipc_port_release a (put_port a q k') = Some (put_port a (ip_release q) k')"
proof -
  have "ip_references p + 2 \<noteq> 1"
  proof
    assume "ip_references p + 2 = 1"
    then have "ip_references p = 1 - 2" by (metis add_diff_cancel_right')
    with assms(2) show False by simp
  qed
  then show ?thesis using assms(3) by (simp add: release_eq released_def put_port_def)
qed

lemma receive_hit:
  assumes inv: "rights_inv {} x k" and f: "fast_entry n MACH_PORT_TYPE_RECEIVE MACH_PORT_TYPE_RECEIVE k = Some e"
  obtains p where "entry_lookup n k = (Some (TableEntry (idx n)), k)" and "get_entry (TableEntry (idx n)) k = Some e"
    and "ie_bits e AND MACH_PORT_TYPE_RECEIVE \<noteq> 0" and "IE_BITS_TYPE (ie_bits e) \<noteq> 0" and "MACH_PORT_VALID n"
    and "k_ports k (ie_object e) = Some p" and "IO_VALID (ie_object e)" and "idx n < is_table_size (k_space k)"
proof -
  have t: "MACH_PORT_TYPE_RECEIVE AND MACH_PORT_TYPE_RECEIVE = MACH_PORT_TYPE_RECEIVE"
      "IE_BITS_GEN_MASK AND MACH_PORT_TYPE_RECEIVE = 0" "IE_BITS_TYPE MACH_PORT_TYPE_RECEIVE \<noteq> 0"
    by (simp_all add: type_consts mask_defs IE_BITS_TYPE_def)
  note nn = hit_not_null [OF inv f t]
  show thesis
  proof (rule fast_entry_hit [OF inv f t])
    assume H: "ie_bits e AND MACH_PORT_TYPE_RECEIVE = MACH_PORT_TYPE_RECEIVE" "idx n < is_table_size (k_space k)"
      "entry_lookup n k = (Some (TableEntry (idx n)), k)" "get_entry (TableEntry (idx n)) k = Some e"
      "right_ok k n (view e)"
    have "is_table_size (k_space k) < 2 ^ 24" using size_ok_bounds(2) [OF space_invD(1) [OF rights_invD(1) [OF inv]]] .
    moreover have "idx (- 1) = 2 ^ 24 - 1" by (simp add: MACH_PORT_INDEX_def mask_eq_exp_minus_1)
    ultimately have "n \<noteq> MACH_PORT_DEAD" using H(2) by (auto simp: MACH_PORT_DEAD_def)
    with nn have valid: "MACH_PORT_VALID n" by (simp add: MACH_PORT_VALID_def)
    from H(1) have s: "ie_bits e AND MACH_PORT_TYPE_RECEIVE \<noteq> 0" by (simp add: type_consts)
    from H(5) have ok: "right_ok k n (ie_bits e AND IE_BITS_RIGHT_MASK, ie_object e, ie_request e)" by (simp add: view_def)
    have ty: "IE_BITS_TYPE (ie_bits e) \<noteq> 0 \<and> (ie_bits e AND IE_BITS_RIGHT_MASK) AND MACH_PORT_TYPE_PORT_RIGHTS \<noteq> 0"
      by (rule type_cases [OF ok refl])
        (use s send_flags(2) send_once_flags(2) port_set_flags(2) dead_name_flags(2) receive_flags(8)
          send_receive_flags(8) in \<open>auto simp: type_consts\<close>)
    then obtain p where "k_ports k (ie_object e) = Some p" "IO_VALID (ie_object e)"
      using right_port [OF ok] by blast
    with H s ty valid show thesis by (intro that) simp_all
  qed
qed

lemma copyin_request_general:
  assumes inv: "rights_inv {} x k" and few: "\<forall>a p. k_ports k a = Some p \<longrightarrow> ip_references p < 2 ^ 31"
    and ports: "MACH_MSGH_BITS_PORTS mbits =
      MACH_MSGH_BITS (msgt_code MACH_MSG_TYPE_COPY_SEND) (msgt_code MACH_MSG_TYPE_MAKE_SEND_ONCE)"
    and fast: "copyin_request lock_try mbits msg k = Some (Some res)"
  shows "copyin_general mbits msg MACH_PORT_NULL k = Some res"
proof -
  let ?dn = "msgh_remote_port msg" and ?rn = "msgh_local_port msg"
  from fast obtain e f p q where e: "fast_entry ?dn MACH_PORT_TYPE_SEND MACH_PORT_TYPE_SEND k = Some e"
      and f: "fast_entry ?rn MACH_PORT_TYPE_RECEIVE MACH_PORT_TYPE_RECEIVE k = Some f"
      and act: "is_active (k_space k)" and p: "k_ports k (ie_object e) = Some p" "ip_active p"
      and q: "k_ports (put_port (ie_object e) (ip_reference (p\<lparr>ip_srights := ip_srights p + 1\<rparr>)) k) (ie_object f) = Some q"
      and res: "res = ((MACH_MSG_SUCCESS,
        msg\<lparr>msgh_bits := MACH_MSGH_BITS_OTHER mbits OR
              MACH_MSGH_BITS (msgt_code MACH_MSG_TYPE_PORT_SEND) (msgt_code MACH_MSG_TYPE_PORT_SEND_ONCE),
            msgh_remote_port := ie_object e, msgh_local_port := ie_object f\<rparr>),
        put_port (ie_object f) (ip_reference (q\<lparr>ip_sorights := ip_sorights q + 1\<rparr>))
          (put_port (ie_object e) (ip_reference (p\<lparr>ip_srights := ip_srights p + 1\<rparr>)) k))"
    by (auto simp: copyin_request_def Let_def bind_eq_Some_conv split: if_splits option.splits)
  let ?k1 = "put_port (ie_object e) (ip_reference (p\<lparr>ip_srights := ip_srights p + 1\<rparr>)) k"
  let ?k2 = "put_port (ie_object f) (ip_reference (q\<lparr>ip_sorights := ip_sorights q + 1\<rparr>)) ?k1"
  have types: "MACH_MSGH_BITS_REMOTE mbits = 19" "MACH_MSGH_BITS_LOCAL mbits = 21"
    by (simp_all add: header_types ports MACH_MSGH_BITS_def)
  have inc: "r < 2 ^ 31 \<Longrightarrow> r + 1 \<noteq> - 1 \<and> r \<noteq> - 1" for r :: u32
  proof -
    have m: "unat (- 1 :: u32) = 4294967295" by (simp add: unsigned_minus_1_eq_mask mask_eq_exp_minus_1)
    show "r < 2 ^ 31 \<Longrightarrow> r + 1 \<noteq> - 1 \<and> r \<noteq> - 1" for r :: u32
      using m by (auto simp: unat_arith_simps)
  qed
  have refs: "ip_references q \<noteq> - 1"
    using q p(1) few inc [of "ip_references p"] inc [of "ip_references q"] by (auto simp: ip_reference_def split: if_splits)
  obtain ee: "entry_lookup ?dn k = (Some (TableEntry (idx ?dn)), k)" "get_entry (TableEntry (idx ?dn)) k = Some e"
      "ie_bits e AND MACH_PORT_TYPE_SEND \<noteq> 0" "ie_bits e AND MACH_PORT_TYPE_DEAD_NAME = 0"
      "ie_bits e AND MACH_PORT_TYPE_SEND_RIGHTS \<noteq> 0" "IE_BITS_TYPE (ie_bits e) \<noteq> 0" "?dn \<noteq> MACH_PORT_NULL"
    by (rule send_hit [OF inv e])
  obtain ff: "entry_lookup ?rn k = (Some (TableEntry (idx ?rn)), k)" "get_entry (TableEntry (idx ?rn)) k = Some f"
      "ie_bits f AND MACH_PORT_TYPE_RECEIVE \<noteq> 0" "IE_BITS_TYPE (ie_bits f) \<noteq> 0" "MACH_PORT_VALID ?rn"
      "IO_VALID (ie_object f)"
    by (rule receive_hit [OF inv f]) blast
  have send: "ipc_right_copyin ?dn (TableEntry (idx ?dn)) MACH_MSG_TYPE_COPY_SEND False k = Some (Inr (ie_object e, IP_NULL), ?k1)"
    using ee p right_check_alive [OF p] by (simp add: ipc_right_copyin_def copyin_copy_send_def Let_def)
  have ge: "get_entry r (put_port a b c) = get_entry r c" for r a b c by (simp add: get_entry_def)
  have check: "ipc_right_copyin_check (TableEntry (idx ?rn)) MACH_MSG_TYPE_MAKE_SEND_ONCE k = Some True"
    using ff by (simp add: ipc_right_copyin_check_def)
  have "(if ?dn = ?rn then copyin_same ?dn MACH_MSG_TYPE_COPY_SEND (Some MACH_MSG_TYPE_MAKE_SEND_ONCE) k
      else copyin_both ?dn MACH_MSG_TYPE_COPY_SEND ?rn (Some MACH_MSG_TYPE_MAKE_SEND_ONCE) k) =
      Some (Inr ((ie_object e, IP_NULL), (ie_object f, IP_NULL)), ?k2)"
  proof (cases "?dn = ?rn")
    case True
    have "ipc_right_copyin ?dn (TableEntry (idx ?dn)) MACH_MSG_TYPE_MAKE_SEND_ONCE True ?k1 =
        Some (Inr (ie_object f, IP_NULL), ?k2)"
      using ff q True by (simp add: ipc_right_copyin_def copyin_make_send_once_def ge)
    with True ee(1) check send show ?thesis by (simp add: copyin_same_def copyin_same_made_def Let_def)
  next
    case False
    have null: "ie_object f \<noteq> IP_NULL" "ie_object f \<noteq> IO_DEAD" using ff(6) by (simp_all add: IO_VALID_def)
    let ?q = "ip_reference (ip_reference q\<lparr>ip_sorights := ip_sorights q + 1\<rparr>)"
    have "reference_port (ie_object f) ?k1 = Some (put_port (ie_object f) (ip_reference q) ?k1)"
      using q null by (simp add: reference_port_def ipc_object_reference_def)
    moreover have "ipc_right_copyin ?rn (TableEntry (idx ?rn)) MACH_MSG_TYPE_MAKE_SEND_ONCE True
        (put_port (ie_object f) (ip_reference q) ?k1) = Some (Inr (ie_object f, IP_NULL), put_port (ie_object f) ?q ?k1)"
      using ff q by (simp add: ipc_right_copyin_def copyin_make_send_once_def ge)
    moreover have "release_port (ie_object f) (put_port (ie_object f) ?q ?k1) = Some ?k2"
      using release_after_reference [OF q refs, of ?q ?k1] null
      by (simp add: release_port_def ip_reference_def ip_release_def add.commute)
    ultimately have "copyin_reply_port ?dn (TableEntry (idx ?dn)) MACH_MSG_TYPE_COPY_SEND (ie_object e, IP_NULL) ?rn
        (TableEntry (idx ?rn)) MACH_MSG_TYPE_MAKE_SEND_ONCE ?k1 = Some (Inr ((ie_object e, IP_NULL), (ie_object f, IP_NULL)), ?k2)"
      using ee ff null by (simp add: copyin_reply_port_def ge copyin_must_undo_def free_if_none_def type_consts Let_def)
    with False ee(1) ff(1) check send show ?thesis by (simp add: copyin_both_def)
  qed
  then show ?thesis
    using act ff(5) by (cases "?dn = ?rn") (simp_all add: copyin_general_def types copyin_type_eval copyin_notify_def
        copyin_finish_def res notify_port_deleted_def Let_def)
qed


text \<open>Freeing an entry of the table without collisions, by hand and by \<open>ipc_entry_dealloc\<close>.\<close>

lemma dealloc_by_hand:
  assumes i: "0 < i" "i < length t" and e: "ie_bits (t ! i) AND IE_BITS_GEN_MASK = gen"
    and b: "b AND IE_BITS_GEN_MASK = gen"
  shows "(let t' = entry_upd i (\<lambda>e. e\<lparr>ie_request := ie_next (t ! 0)\<rparr>) t;
      t' = entry_upd 0 (\<lambda>e. e\<lparr>ie_request := i\<rparr>) t'
    in entry_upd i (\<lambda>e. e\<lparr>ie_bits := gen, ie_object := IO_NULL\<rparr>) t') =
    (let t1 = entry_upd i (\<lambda>e. e\<lparr>ie_object := IO_NULL, ie_bits := b\<rparr>) t;
      t2 = entry_upd i (\<lambda>e. e\<lparr>ie_bits := ie_bits e AND IE_BITS_GEN_MASK, ie_request := ie_next (t1 ! 0)\<rparr>) t1
    in entry_upd 0 (\<lambda>e. e\<lparr>ie_request := i\<rparr>) t2)"
proof (rule nth_equalityI)
  fix j assume j: "j < length (let t' = entry_upd i (\<lambda>e. e\<lparr>ie_request := ie_next (t ! 0)\<rparr>) t;
      t' = entry_upd 0 (\<lambda>e. e\<lparr>ie_request := i\<rparr>) t'
    in entry_upd i (\<lambda>e. e\<lparr>ie_bits := gen, ie_object := IO_NULL\<rparr>) t')"
  have t: "0 < length t" using i by linarith
  consider "j = i" | "j = 0" | "j \<noteq> i" "j \<noteq> 0" by blast
  then show "(let t' = entry_upd i (\<lambda>e. e\<lparr>ie_request := ie_next (t ! 0)\<rparr>) t;
      t' = entry_upd 0 (\<lambda>e. e\<lparr>ie_request := i\<rparr>) t'
    in entry_upd i (\<lambda>e. e\<lparr>ie_bits := gen, ie_object := IO_NULL\<rparr>) t') ! j =
    (let t1 = entry_upd i (\<lambda>e. e\<lparr>ie_object := IO_NULL, ie_bits := b\<rparr>) t;
      t2 = entry_upd i (\<lambda>e. e\<lparr>ie_bits := ie_bits e AND IE_BITS_GEN_MASK, ie_request := ie_next (t1 ! 0)\<rparr>) t1
    in entry_upd 0 (\<lambda>e. e\<lparr>ie_request := i\<rparr>) t2) ! j"
    by cases (use i b t in \<open>simp_all add: entry_upd_def Let_def\<close>)
qed (simp add: entry_upd_def Let_def)

lemma copyin_reply_general:
  assumes inv: "rights_inv {} x k" and ports: "MACH_MSGH_BITS_PORTS mbits = MACH_MSGH_BITS (msgt_code MACH_MSG_TYPE_MOVE_SEND_ONCE) 0"
    and fast: "copyin_reply mbits msg k = Some (Some res)"
  shows "copyin_general mbits msg MACH_PORT_NULL k = Some res"
proof -
  let ?n = "msgh_remote_port msg" and ?F = "IE_BITS_COLLISION OR MACH_PORT_TYPE_SEND_ONCE"
  let ?i = "idx ?n" and ?t = "is_table (k_space k)"
  from fast obtain e p where e: "fast_entry ?n ?F MACH_PORT_TYPE_SEND_ONCE k = Some e"
      and null: "msgh_local_port msg = MACH_PORT_NULL" and act: "is_active (k_space k)" and r: "ie_request e = 0"
      and p: "k_ports k (ie_object e) = Some p" "ip_active p"
      and res: "res = ((MACH_MSG_SUCCESS,
        msg\<lparr>msgh_bits := MACH_MSGH_BITS_OTHER mbits OR MACH_MSGH_BITS (msgt_code MACH_MSG_TYPE_PORT_SEND_ONCE) 0,
            msgh_remote_port := ie_object e\<rparr>),
        k\<lparr>k_space := (k_space k)\<lparr>is_table :=
          (let t' = entry_upd ?i (\<lambda>e. e\<lparr>ie_request := ie_next (?t ! 0)\<rparr>) ?t;
            t' = entry_upd 0 (\<lambda>e. e\<lparr>ie_request := ?i\<rparr>) t'
          in entry_upd ?i (\<lambda>e. e\<lparr>ie_bits := MACH_PORT_GEN ?n, ie_object := IO_NULL\<rparr>) t')\<rparr>\<rparr>)"
    by (auto simp: copyin_reply_def Let_def bind_eq_Some_conv split: if_splits option.splits)
  have types: "MACH_MSGH_BITS_REMOTE mbits = 18" "MACH_MSGH_BITS_LOCAL mbits = 0"
    by (simp_all add: header_types ports MACH_MSGH_BITS_def)
  have t: "MACH_PORT_TYPE_SEND_ONCE AND ?F = MACH_PORT_TYPE_SEND_ONCE" "IE_BITS_GEN_MASK AND ?F = 0"
      "IE_BITS_TYPE MACH_PORT_TYPE_SEND_ONCE \<noteq> 0"
    by (simp_all add: type_consts mask_defs IE_BITS_TYPE_def)
  show ?thesis
  proof (rule fast_entry_hit [OF inv e t])
    assume H: "e = ?t ! ?i" "?i < is_table_size (k_space k)" "IE_BITS_GEN (ie_bits e) = MACH_PORT_GEN ?n"
      "ie_bits e AND ?F = MACH_PORT_TYPE_SEND_ONCE" "entry_lookup ?n k = (Some (TableEntry ?i), k)"
      "get_entry (TableEntry ?i) k = Some e" "right_ok k ?n (view e)"
    have "(ie_bits e AND ?F) AND MACH_PORT_TYPE_SEND_ONCE = ie_bits e AND MACH_PORT_TYPE_SEND_ONCE"
      by (simp add: and.assoc type_consts mask_defs)
    then have so: "ie_bits e AND MACH_PORT_TYPE_SEND_ONCE \<noteq> 0" by (simp add: H(4)) (simp add: type_consts)
    have "(ie_bits e AND ?F) AND IE_BITS_COLLISION = ie_bits e AND IE_BITS_COLLISION"
      by (simp add: and.assoc type_consts mask_defs)
    then have coll: "ie_bits e AND IE_BITS_COLLISION = 0" by (simp add: H(4)) (simp add: type_consts mask_defs)
    have "right_ok k ?n (ie_bits e AND IE_BITS_RIGHT_MASK, ie_object e, ie_request e)" using H(7) by (simp add: view_def)
    then have ty: "IE_BITS_TYPE (ie_bits e) = MACH_PORT_TYPE_SEND_ONCE"
      by (rule type_cases [OF _ refl])
        (use so send_flags(3) receive_flags(3) send_receive_flags(3) port_set_flags(3) dead_name_flags(3) in blast)+
    note F = send_once_flags [OF ty]
    have i0: "0 < ?i"
    proof (rule ccontr)
      assume "\<not> 0 < ?i"
      with H(1) have "IE_BITS_TYPE (ie_bits e) = 0"
        using head_ok_sel(1) [OF space_invD(2) [OF rights_invD(1) [OF inv]]] by simp
      with ty show False by (simp add: type_consts)
    qed
    let ?b = "ie_bits e AND NOT MACH_PORT_TYPE_SEND_ONCE"
    have none: "IE_BITS_TYPE ?b = 0"
    proof -
      have "IE_BITS_TYPE ?b = IE_BITS_TYPE (ie_bits e) AND NOT MACH_PORT_TYPE_SEND_ONCE" by (simp add: IE_BITS_TYPE_def ac_simps)
      then show ?thesis by (simp add: ty)
    qed
    have gen: "?b AND IE_BITS_GEN_MASK = MACH_PORT_GEN ?n" and coll': "?b AND IE_BITS_COLLISION = 0"
    proof -
      have "?b AND IE_BITS_GEN_MASK = ie_bits e AND (NOT MACH_PORT_TYPE_SEND_ONCE AND IE_BITS_GEN_MASK)" by (simp add: and.assoc)
      also have "NOT MACH_PORT_TYPE_SEND_ONCE AND IE_BITS_GEN_MASK = IE_BITS_GEN_MASK" by (simp add: type_consts mask_defs)
      finally show "?b AND IE_BITS_GEN_MASK = MACH_PORT_GEN ?n" using H(3) by (simp add: IE_BITS_GEN_def)
      have "?b AND IE_BITS_COLLISION = (ie_bits e AND IE_BITS_COLLISION) AND NOT MACH_PORT_TYPE_SEND_ONCE" by (simp add: ac_simps)
      then show "?b AND IE_BITS_COLLISION = 0" by (simp add: coll)
    qed
    let ?k1 = "set_entry (TableEntry ?i) (\<lambda>e. e\<lparr>ie_object := IO_NULL, ie_bits := ?b\<rparr>) k"
    have copyin: "ipc_right_copyin ?n (TableEntry ?i) MACH_MSG_TYPE_MOVE_SEND_ONCE False k = Some (Inr (ie_object e, IP_NULL), ?k1)"
      using H(6) F so p right_check_alive [OF p] r
      by (simp add: ipc_right_copyin_def copyin_move_send_once_def ipc_right_dncancel_macro_def Let_def)
    have t1: "is_table (k_space ?k1) = entry_upd ?i (\<lambda>e. e\<lparr>ie_object := IO_NULL, ie_bits := ?b\<rparr>) ?t"
      by (simp add: set_entry_def entry_store_def)
    have e1: "is_table (k_space ?k1) ! ?i = e\<lparr>ie_object := IO_NULL, ie_bits := ?b\<rparr>"
      unfolding t1 using H(1,2) by (simp add: entry_upd_def)
    have free: "free_if_none ?n (TableEntry ?i) ?k1 = Some (snd res)"
    proof -
      have ge: "get_entry (TableEntry ?i) ?k1 = Some (e\<lparr>ie_object := IO_NULL, ie_bits := ?b\<rparr>)"
        using H(2) e1 t1 by (simp add: get_entry_def entry_at_def)
      have "entry_dealloc ?n (TableEntry ?i) ?k1 = Some (snd res)"
        using H(2) e1 coll' i0 dealloc_by_hand [OF i0 H(2), of "MACH_PORT_GEN ?n" ?b] gen H(1,3)
        by (simp add: entry_dealloc_def ipc_entry_dealloc_def t1 res Let_def IE_BITS_GEN_def)
          (simp add: set_entry_def entry_store_def)
      then show ?thesis using ge none by (simp add: free_if_none_def type_consts)
    qed
    have "?n \<noteq> MACH_PORT_NULL" using i0 by (auto simp: MACH_PORT_NULL_def MACH_PORT_INDEX_def)
    moreover have "copyin_dest_only ?n MACH_MSG_TYPE_MOVE_SEND_ONCE MACH_PORT_NULL k =
        Some (Inr ((ie_object e, IP_NULL), (MACH_PORT_NULL, IP_NULL)), snd res)"
      using H(5) copyin free by (simp add: copyin_dest_only_def)
    ultimately show ?thesis
      using act by (simp add: copyin_general_def types copyin_type_eval null copyin_notify_def copyin_finish_def
          MACH_PORT_VALID_def notify_port_deleted_def) (simp add: res null)
  qed
qed


text \<open>A shortcut that is taken finds its ports, so it never gets stuck.\<close>

lemma fast_port:
  assumes inv: "rights_inv {} x k" and f: "fast_entry n flags type k = Some e"
    and t: "type AND flags = type" "IE_BITS_GEN_MASK AND flags = 0" and ty: "IE_BITS_TYPE type \<noteq> 0"
    and port: "type AND MACH_PORT_TYPE_PORT_RIGHTS \<noteq> 0"
  shows "\<exists>p. k_ports k (ie_object e) = Some p"
proof (rule fast_entry_hit [OF inv f t ty])
  assume H: "ie_bits e AND flags = type" "right_ok k n (view e)"
  have "ie_bits e AND MACH_PORT_TYPE_PORT_RIGHTS \<noteq> 0"
  proof
    assume z: "ie_bits e AND MACH_PORT_TYPE_PORT_RIGHTS = 0"
    have "type AND MACH_PORT_TYPE_PORT_RIGHTS = (ie_bits e AND MACH_PORT_TYPE_PORT_RIGHTS) AND flags"
      unfolding H(1) [symmetric] by (simp only: ac_simps)
    with z port show False by simp
  qed
  moreover have "IE_BITS_RIGHT_MASK AND MACH_PORT_TYPE_PORT_RIGHTS = MACH_PORT_TYPE_PORT_RIGHTS"
    by (simp add: type_consts mask_defs)
  ultimately have "(ie_bits e AND IE_BITS_RIGHT_MASK) AND MACH_PORT_TYPE_PORT_RIGHTS \<noteq> 0"
    by (simp add: and.assoc)
  then show ?thesis using right_port [of k n "ie_bits e AND IE_BITS_RIGHT_MASK" "ie_object e" "ie_request e"] H(2)
    by (auto simp: view_def)
qed

lemma fast_send_port:
  assumes "rights_inv {} x k" and "fast_entry n MACH_PORT_TYPE_SEND MACH_PORT_TYPE_SEND k = Some e"
  shows "\<exists>p. k_ports k (ie_object e) = Some p"
  by (rule fast_port [OF assms]) (simp_all add: type_consts mask_defs IE_BITS_TYPE_def)

lemma fast_receive_port:
  assumes "rights_inv {} x k" and "fast_entry n MACH_PORT_TYPE_RECEIVE MACH_PORT_TYPE_RECEIVE k = Some e"
  shows "\<exists>p. k_ports k (ie_object e) = Some p"
  by (rule fast_port [OF assms]) (simp_all add: type_consts mask_defs IE_BITS_TYPE_def)

lemma fast_send_once_port:
  assumes "rights_inv {} x k"
    and "fast_entry n (IE_BITS_COLLISION OR MACH_PORT_TYPE_SEND_ONCE) MACH_PORT_TYPE_SEND_ONCE k = Some e"
  shows "\<exists>p. k_ports k (ie_object e) = Some p"
  by (rule fast_port [OF assms]) (simp_all add: type_consts mask_defs IE_BITS_TYPE_def)

lemma copyin_fast_defined:
  assumes inv: "rights_inv {} x k"
  shows "copyin_fast lock_try mbits msg k \<noteq> None"
proof -
  have "copyin_async mbits msg k \<noteq> None"
    using fast_send_port [OF inv] by (fastforce simp: copyin_async_def Let_def split: option.splits)
  moreover have "copyin_request lock_try mbits msg k \<noteq> None"
    using fast_send_port [OF inv] fast_receive_port [OF inv]
    by (fastforce simp: copyin_request_def Let_def put_port_def split: option.splits)
  moreover have "copyin_reply mbits msg k \<noteq> None"
    using fast_send_once_port [OF inv] by (fastforce simp: copyin_reply_def Let_def split: option.splits)
  ultimately show ?thesis by (simp add: copyin_fast_def Let_def)
qed

lemma copyin_header_general:
  assumes "rights_inv {} x k" and "\<forall>a p. k_ports k a = Some p \<longrightarrow> ip_references p < 2 ^ 31"
  shows "ipc_kmsg_copyin_header lock_try msg MACH_PORT_NULL k =
    copyin_general (msgh_bits msg AND NOT MACH_MSGH_BITS_CIRCULAR) msg MACH_PORT_NULL k"
proof -
  have "copyin_general mbits msg MACH_PORT_NULL k = Some res"
    if "copyin_fast lock_try mbits msg k = Some (Some res)" for mbits res
    using that copyin_async_general [OF assms(1)] copyin_request_general [OF assms] copyin_reply_general [OF assms(1)]
    by (auto simp: copyin_fast_def Let_def split: if_splits)
  then show ?thesis
    using copyin_fast_defined [OF assms(1), of lock_try "msgh_bits msg AND NOT MACH_MSGH_BITS_CIRCULAR" msg]
    by (auto simp: ipc_kmsg_copyin_header_def Let_def split: option.splits)
qed

end
