(* ===== verification/Ipc_Kmsg_Fast_Copyout.thy ===== *)
theory Ipc_Kmsg_Fast_Copyout
  imports Ipc_Kmsg_Fast
begin

section \<open>The shortcuts of copyout agree with the general case\<close>

text \<open>
  A message in transit holds a reference to each port of its header.
\<close>

definition header_holds :: "ipc_kmsg \<Rightarrow> outside \<Rightarrow> bool" where
  "header_holds msg x \<longleftrightarrow>
     (\<forall>a. of_bool (a = msgh_remote_port msg) + of_bool (IP_VALID (msgh_local_port msg) \<and> a = msgh_local_port msg)
        \<le> o_refs x a) \<and>
     (MACH_MSGH_BITS_LOCAL (msgh_bits msg) = 0 \<longrightarrow> msgh_local_port msg = MACH_PORT_NULL)"

lemma null_invalid: "\<not> IP_VALID MACH_PORT_NULL"
  by (simp add: IO_VALID_def MACH_PORT_NULL_def IO_NULL_def)

lemma dest_send:
  "ipc_object_copyout_dest dest MACH_MSG_TYPE_PORT_SEND k = fast_dest_send dest k"
  by (cases "k_ports k dest") (auto simp: ipc_object_copyout_dest_def fast_dest_send_def Let_def notify_no_senders_def)

lemma header_port:
  assumes "rights_inv P x k" and "0 < o_refs x a"
  obtains p where "k_ports k a = Some p" and "o_refs x a \<le> unat (ip_references p)"
proof (cases "k_ports k a")
  case None
  with rights_invD(3) [OF assms(1)] assms(2) show thesis
    by (auto simp: accounts_def port_counts_def dest: spec [of _ a])
next
  case (Some p)
  with counted(1) [OF assms(1) Some] show thesis by (intro that) auto
qed

lemma copyout_async_general:
  assumes ports: "MACH_MSGH_BITS_PORTS (msgh_bits msg) = MACH_MSGH_BITS (msgt_code MACH_MSG_TYPE_PORT_SEND) 0"
    and held: "header_holds msg x" and act: "is_active (k_space k)" and fast: "copyout_async msg k = Some (Some res)"
  shows "copyout_general (Suc rounds) env other avail alloc msg MACH_PORT_NULL k = Some res"
proof -
  have types: "MACH_MSGH_BITS_REMOTE (msgh_bits msg) = 17" "MACH_MSGH_BITS_LOCAL (msgh_bits msg) = 0"
    by (simp_all add: header_types ports MACH_MSGH_BITS_def)
  have local: "msgh_local_port msg = MACH_PORT_NULL" using held types by (simp add: header_holds_def)
  show ?thesis
    using fast by (auto simp: copyout_async_def copyout_general_def types local copyout_no_reply_def act copyout_dest_right_def
        msgt_of_def dest_send Let_def bind_eq_Some_conv null_invalid split: if_splits)
qed

lemma copyout_reply_general:
  assumes ports: "MACH_MSGH_BITS_PORTS (msgh_bits msg) = MACH_MSGH_BITS (msgt_code MACH_MSG_TYPE_PORT_SEND_ONCE) 0"
    and held: "header_holds msg x" and act: "is_active (k_space k)" and fast: "copyout_reply msg k = Some (Some res)"
  shows "copyout_general (Suc rounds) env other avail alloc msg MACH_PORT_NULL k = Some res"
proof -
  have types: "MACH_MSGH_BITS_REMOTE (msgh_bits msg) = 18" "MACH_MSGH_BITS_LOCAL (msgh_bits msg) = 0"
    by (simp_all add: header_types ports MACH_MSGH_BITS_def)
  have local: "msgh_local_port msg = MACH_PORT_NULL" using held types by (simp add: header_holds_def)
  have same: "put_port a p k = k" if "k_ports k a = Some p" for a p
    using that by (simp add: put_port_def fun_upd_idem)
  have again: "ip_reference (ip_release p) = p" for p by (simp add: ip_reference_def ip_release_def)
  obtain p where p: "k_ports k (msgh_remote_port msg) = Some p" "ip_active p"
    using fast by (auto simp: copyout_reply_def Let_def bind_eq_Some_conv split: if_splits)
  with fast show ?thesis
    by (auto simp: copyout_reply_def copyout_general_def types local copyout_no_reply_def act copyout_dest_right_def
        msgt_of_def ipc_object_copyout_dest_def Let_def same again null_invalid split: if_splits)
qed

text \<open>
  The general case holds an extra reference to the reply port while it consumes the destination.
\<close>

lemma release_last:
  "p\<lparr>ip_references := a, ip_srights := b\<rparr> = p\<lparr>ip_srights := b, ip_references := a\<rparr>"
  "p\<lparr>ip_references := a, ip_nsrequest := c\<rparr> = p\<lparr>ip_nsrequest := c, ip_references := a\<rparr>"
  "k\<lparr>k_ports := P, k_events := E\<rparr> = k\<lparr>k_events := E, k_ports := P\<rparr>"
  by simp_all

lemma dest_send_commutes:
  assumes q: "k_ports k reply = Some q" "ip_references q \<noteq> 0" "dest = reply \<Longrightarrow> ip_references q \<noteq> 1"
    and send: "fast_dest_send dest k = Some (n, k1)"
  shows "\<exists>k2. fast_dest_send dest (put_port reply (ip_reference q) k) = Some (n, k2) \<and>
    ipc_port_release reply k2 = Some k1"
proof (cases "dest = reply")
  case True
  show ?thesis
    using send True q(1) q(3) [OF True]
    by (auto simp: fast_dest_send_def Let_def put_port_def release_eq released_def ip_reference_def
        ip_release_def post_def release_last split: if_splits)
next
  case False
  obtain y where y: "k_ports k dest = Some y" using send by (auto simp: fast_dest_send_def bind_eq_Some_conv)
  have restore: "(k_ports k)(dest \<mapsto> z, reply \<mapsto> q) = (k_ports k)(dest \<mapsto> z)" for z
    using q(1) False by (auto simp: fun_eq_iff)
  have "ip_references q + 1 \<noteq> 1" using q(2) by simp
  with send False q(1) y show ?thesis
    by (auto simp: fast_dest_send_def Let_def put_port_def release_eq released_def ip_reference_def
        ip_release_def post_def release_last fun_upd_twist [of reply dest] restore split: if_splits)
qed


lemma object_last:
  "k\<lparr>k_ports := P, k_space := S\<rparr> = k\<lparr>k_space := S, k_ports := P\<rparr>"
  "e\<lparr>ie_object := c, ie_bits := d\<rparr> = e\<lparr>ie_bits := d, ie_object := c\<rparr>"
  "e\<lparr>ie_request := r, ie_bits := d\<rparr> = e\<lparr>ie_bits := d, ie_request := r\<rparr>"
  "e\<lparr>ie_object := c, ie_request := r\<rparr> = e\<lparr>ie_request := r, ie_object := c\<rparr>"
  by simp_all

lemma copyout_request_general:
  assumes inv: "rights_inv {} x k" and held: "header_holds msg x"
    and ports: "MACH_MSGH_BITS_PORTS (msgh_bits msg) =
      MACH_MSGH_BITS (msgt_code MACH_MSG_TYPE_PORT_SEND) (msgt_code MACH_MSG_TYPE_PORT_SEND_ONCE)"
    and fast: "copyout_request lock_try msg k = Some (Some res)"
  shows "copyout_general (Suc rounds) env other avail alloc msg MACH_PORT_NULL k = Some res"
proof -
  let ?dest = "msgh_remote_port msg" and ?reply = "msgh_local_port msg" and ?t = "is_table (k_space k)"
  let ?i = "ie_next (?t ! 0)"
  let ?t1 = "entry_upd 0 (\<lambda>e. e\<lparr>ie_request := ie_next (?t ! ?i)\<rparr>) ?t"
  let ?gen = "ie_bits (?t1 ! ?i) + IE_BITS_GEN_ONE"
  let ?name = "MACH_PORT_MAKE (of_nat ?i) ?gen"
  let ?t2 = "entry_upd ?i (\<lambda>e. e\<lparr>ie_request := 0, ie_bits := ?gen OR (MACH_PORT_TYPE_SEND_ONCE OR 1), ie_object := ?reply\<rparr>) ?t1"
  let ?k = "k\<lparr>k_space := (k_space k)\<lparr>is_table := ?t2\<rparr>\<rparr>"
  from fast obtain p q dest_name k1 where valid: "IP_VALID ?reply" and act: "is_active (k_space k)" and i: "?i \<noteq> 0"
      and p: "k_ports k ?dest = Some p" "ip_active p" and q: "k_ports k ?reply = Some q" "ip_active q"
      and send: "fast_dest_send ?dest ?k = Some (dest_name, k1)"
      and res: "res = (((MACH_MSG_SUCCESS, 0),
        msg\<lparr>msgh_bits := MACH_MSGH_BITS_OTHER (msgh_bits msg) OR
              MACH_MSGH_BITS (msgt_code MACH_MSG_TYPE_PORT_SEND_ONCE) (msgt_code MACH_MSG_TYPE_PORT_SEND),
            msgh_local_port := dest_name, msgh_remote_port := ?name\<rparr>), k1)"
    by (auto simp: copyout_request_def Let_def bind_eq_Some_conv split: if_splits)
  have types: "MACH_MSGH_BITS_REMOTE (msgh_bits msg) = 17" "MACH_MSGH_BITS_LOCAL (msgh_bits msg) = 18"
    by (simp_all add: header_types ports MACH_MSGH_BITS_def)
  have ilen: "?i < length ?t"
  proof -
    obtain F where "free_ok ?t {} F" using space_invD(3) [OF rights_invD(1) [OF inv]] by blast
    with i show ?thesis by (cases F) (auto simp: free_ok_def)
  qed
  have refs: "ip_references q \<noteq> 0" "?dest = ?reply \<Longrightarrow> ip_references q \<noteq> 1"
  proof -
    have "o_refs x ?reply \<le> unat (ip_references q)" using counted(1) [OF inv q(1)] by simp
    moreover have "1 + of_bool (?reply = ?dest) \<le> o_refs x ?reply" using held valid
      by (auto simp: header_holds_def dest!: conjunct1 dest: spec [of _ "msgh_local_port msg"])
    ultimately show "ip_references q \<noteq> 0" "?dest = ?reply \<Longrightarrow> ip_references q \<noteq> 1" by auto
  qed
  have get: "entry_get k = (Inr (?name, TableEntry ?i),
      k\<lparr>k_space := (k_space k)\<lparr>is_table := entry_upd ?i (\<lambda>e. e\<lparr>ie_bits := ?gen, ie_request := 0\<rparr>) ?t1\<rparr>\<rparr>)"
    using i by (simp add: entry_get_def ipc_entry_get_def Let_def)
  let ?mid = "set_entry (TableEntry ?i) (\<lambda>e. e\<lparr>ie_object := ?reply\<rparr>)
    (k\<lparr>k_space := (k_space k)\<lparr>is_table := entry_upd ?i (\<lambda>e. e\<lparr>ie_bits := ?gen, ie_request := 0\<rparr>) ?t1\<rparr>\<rparr>)"
  have round: "reply_round env other avail alloc ?reply 18 MACH_PORT_NULL k = Some (Reply_Entry ?name (TableEntry ?i) IP_NULL, ?mid)"
    using act q get by (simp add: reply_round_def reply_new_entry_def)
  have table: "entry_upd ?i (\<lambda>e. e\<lparr>ie_bits := ?gen OR (MACH_PORT_TYPE_SEND_ONCE OR 1)\<rparr>)
      (entry_upd ?i (\<lambda>e. e\<lparr>ie_object := ?reply\<rparr>) (entry_upd ?i (\<lambda>e. e\<lparr>ie_bits := ?gen, ie_request := 0\<rparr>) ?t1)) = ?t2"
    using ilen by (simp add: entry_upd_def object_last)
  have e: "get_entry (TableEntry ?i) (put_port ?reply (ip_reference q) ?mid) =
      Some ((?t1 ! ?i)\<lparr>ie_bits := ?gen, ie_request := 0, ie_object := ?reply\<rparr>)"
    using ilen by (simp add: get_entry_def set_entry_def entry_store_def entry_at_def entry_upd_def)
  have stored: "set_entry (TableEntry ?i) (\<lambda>e. e\<lparr>ie_bits := ?gen OR (MACH_PORT_TYPE_SEND_ONCE OR 1)\<rparr>)
      (put_port ?reply (ip_reference q) ?mid) = put_port ?reply (ip_reference q) ?k"
    by (simp add: set_entry_def entry_store_def put_port_def object_last table)
  have out: "ipc_right_copyout ?name (TableEntry ?i) MACH_MSG_TYPE_MOVE_SEND_ONCE True ?reply
      (put_port ?reply (ip_reference q) ?mid) = Some (KERN_SUCCESS, put_port ?reply (ip_reference q) ?k)"
    unfolding ipc_right_copyout_def e using stored by simp
  have right: "copyout_reply_right (Suc rounds) env other avail alloc ?reply 18 MACH_PORT_NULL k =
      Some (Inr (?reply, ?name), put_port ?reply (ip_reference q) ?k)"
    using q out by (simp add: round set_entry_def msgt_of_def release_notify_def)
  obtain k2 where k2: "fast_dest_send ?dest (put_port ?reply (ip_reference q) ?k) = Some (dest_name, k2)"
      "ipc_port_release ?reply k2 = Some k1"
    using dest_send_commutes [of ?k ?reply q ?dest] q(1) refs send by auto
  have "\<exists>p. k_ports (put_port ?reply (ip_reference q) ?k) ?dest = Some p \<and> ip_active p"
    using p q by (auto simp: put_port_def)
  then have "copyout_dest_right ?reply ?dest 17 (put_port ?reply (ip_reference q) ?k) = Some (dest_name, k2)"
    using k2(1) by (auto simp: copyout_dest_right_def msgt_of_def dest_send)
  then show ?thesis
    using valid k2(2) by (simp add: copyout_general_def types right res del: copyout_reply_right.simps)
qed


text \<open>The ports of the header exist, so a shortcut never gets stuck.\<close>

lemma copyout_fast_defined:
  assumes inv: "rights_inv {} x k" and held: "header_holds msg x"
  shows "copyout_fast lock_try msg k \<noteq> None"
proof -
  have "0 < o_refs x (msgh_remote_port msg)"
    using held by (auto simp: header_holds_def dest!: conjunct1 dest: spec [of _ "msgh_remote_port msg"])
  then obtain p where p: "k_ports k (msgh_remote_port msg) = Some p" by (rule header_port [OF inv])
  have q: "\<exists>q. k_ports k (msgh_local_port msg) = Some q" if v: "IP_VALID (msgh_local_port msg)"
  proof -
    have "0 < o_refs x (msgh_local_port msg)"
      using held v by (auto simp: header_holds_def dest!: conjunct1 dest: spec [of _ "msgh_local_port msg"])
    then show ?thesis using header_port [OF inv] by metis
  qed
  have "fast_dest_send (msgh_remote_port msg) (k\<lparr>k_space := s\<rparr>) \<noteq> None" for s
    using p by (simp add: fast_dest_send_def Let_def)
  then obtain F where send: "fast_dest_send (msgh_remote_port msg) (k\<lparr>k_space := s\<rparr>) = Some (F s)" for s
    using that [of "\<lambda>s. the (fast_dest_send (msgh_remote_port msg) (k\<lparr>k_space := s\<rparr>))"] by simp
  have send': "fast_dest_send (msgh_remote_port msg) k = Some (F (k_space k))" using send [of "k_space k"] by simp
  show ?thesis
    using p q send send'
    by (auto simp: copyout_fast_def copyout_async_def copyout_request_def copyout_reply_def Let_def split: prod.splits)
qed

lemma copyout_header_general:
  assumes "rights_inv {} x k" and "header_holds msg x" and "is_active (k_space k)"
  shows "ipc_kmsg_copyout_header lock_try (Suc rounds) env other avail alloc msg MACH_PORT_NULL k =
    copyout_general (Suc rounds) env other avail alloc msg MACH_PORT_NULL k"
proof -
  have "copyout_general (Suc rounds) env other avail alloc msg MACH_PORT_NULL k = Some res"
    if "copyout_fast lock_try msg k = Some (Some res)" for res
    using that copyout_async_general [OF _ assms(2,3)] copyout_request_general [OF assms(1,2)]
      copyout_reply_general [OF _ assms(2,3)]
    by (auto simp: copyout_fast_def Let_def split: if_splits)
  then show ?thesis
    using copyout_fast_defined [OF assms(1,2), of lock_try]
    by (auto simp: ipc_kmsg_copyout_header_def split: option.splits simp del: copyout_reply_right.simps)
qed

subsection \<open>A dead space\<close>

text \<open>
  The general case refuses to copy out into a dead space.  The shortcuts without a reply port do not
  look at the space: the message is received, and its right used up.
\<close>

lemma copyout_general_dead_space:
  assumes "\<not> is_active (k_space k)"
  shows "copyout_general (Suc rounds) env other avail alloc msg notify k =
    Some (((MACH_RCV_HEADER_ERROR, MACH_MSG_IPC_SPACE), msg), k)"
  using assms by (simp add: copyout_general_def Let_def reply_round_def copyout_no_reply_def)

lemma kernel_refs_differ:
  assumes "k_ports k a = Some p" and "k_ports k' a = Some q" and "ip_references q \<noteq> ip_references p"
  shows "k' \<noteq> k"
  using assms by auto

lemma copyout_async_dead_space:
  assumes "k_ports k (msgh_remote_port msg) = Some p" and "ip_active p"
  shows "\<exists>msg' k'. copyout_async msg k = Some (Some (((MACH_MSG_SUCCESS, 0), msg'), k')) \<and> k' \<noteq> k"
proof -
  obtain n k' where f: "fast_dest_send (msgh_remote_port msg) k = Some (n, k')"
      "\<exists>q. k_ports k' (msgh_remote_port msg) = Some q \<and> ip_references q = ip_references p - 1"
    using assms by (cases "ip_srights p = 1 \<and> ip_nsrequest p \<noteq> IP_NULL") (auto simp: fast_dest_send_def Let_def ip_release_def)
  then have "k' \<noteq> k" using assms(1) by (auto dest: kernel_refs_differ)
  then show ?thesis using assms f(1) by (simp add: copyout_async_def)
qed

lemma copyout_reply_dead_space:
  assumes "k_ports k (msgh_remote_port msg) = Some p" and "ip_active p"
  shows "\<exists>msg' k'. copyout_reply msg k = Some (Some (((MACH_MSG_SUCCESS, 0), msg'), k')) \<and> k' \<noteq> k"
proof -
  let ?k = "if ip_receiver p = k_addr k
     then put_port (msgh_remote_port msg) ((ip_release p)\<lparr>ip_sorights := ip_sorights p - 1\<rparr>) k
     else post (Notify_Send_Once (msgh_remote_port msg)) k"
  have "ip_references ((ip_release p)\<lparr>ip_sorights := ip_sorights p - 1\<rparr>) \<noteq> ip_references p"
    by (simp add: ip_release_def)
  then have "put_port (msgh_remote_port msg) ((ip_release p)\<lparr>ip_sorights := ip_sorights p - 1\<rparr>) k \<noteq> k"
    using kernel_refs_differ [OF assms(1)] by simp
  moreover have "post e k \<noteq> k" for e
  proof
    assume "post e k = k"
    then have "length (k_events (post e k)) = length (k_events k)" by simp
    then show False by simp
  qed
  ultimately have "?k \<noteq> k" by simp
  with assms show ?thesis by (auto simp: copyout_reply_def Let_def)
qed

lemma copyout_dead_space:
  assumes dest: "k_ports k (msgh_remote_port msg) = Some p" and dead: "\<not> is_active (k_space k)"
  shows "if ip_active p \<and> MACH_MSGH_BITS_PORTS (msgh_bits msg) \<in>
      {MACH_MSGH_BITS (msgt_code MACH_MSG_TYPE_PORT_SEND) 0, MACH_MSGH_BITS (msgt_code MACH_MSG_TYPE_PORT_SEND_ONCE) 0}
    then \<exists>msg' k'. ipc_kmsg_copyout_header lock_try (Suc rounds) env other avail alloc msg MACH_PORT_NULL k =
      Some (((MACH_MSG_SUCCESS, 0), msg'), k') \<and> k' \<noteq> k
    else ipc_kmsg_copyout_header lock_try (Suc rounds) env other avail alloc msg MACH_PORT_NULL k =
      Some (((MACH_RCV_HEADER_ERROR, MACH_MSG_IPC_SPACE), msg), k)"
proof (cases "ip_active p")
  case True
  from copyout_async_dead_space [OF dest True] obtain m1 k1 where 1:
      "copyout_async msg k = Some (Some (((MACH_MSG_SUCCESS, 0), m1), k1))" "k1 \<noteq> k" by blast
  from copyout_reply_dead_space [OF dest True] obtain m2 k2 where 2:
      "copyout_reply msg k = Some (Some (((MACH_MSG_SUCCESS, 0), m2), k2))" "k2 \<noteq> k" by blast
  have "copyout_request lock_try msg k = Some None" using dead by (simp add: copyout_request_def Let_def)
  moreover have "MACH_MSGH_BITS 18 0 \<noteq> MACH_MSGH_BITS 17 18" by (simp add: MACH_MSGH_BITS_def)
  ultimately show ?thesis using 1 2 True
    by (auto simp: ipc_kmsg_copyout_header_def copyout_fast_def Let_def copyout_general_dead_space [OF dead])
next
  case False
  have "copyout_request lock_try msg k = Some None" using dead by (simp add: copyout_request_def Let_def)
  moreover have "copyout_async msg k = Some None" "copyout_reply msg k = Some None"
    using dest False by (simp_all add: copyout_async_def copyout_reply_def)
  ultimately show ?thesis using False
    by (auto simp: ipc_kmsg_copyout_header_def copyout_fast_def Let_def copyout_general_dead_space [OF dead])
qed

end
