(* ===== verification/Ipc_Port_Boot.thy ===== *)
theory Ipc_Port_Boot
  imports Ipc_Boot Ipc_Port_Compat Ipc_Kmsg_Fast_Copyout
begin

section \<open>Ports that die\<close>

text \<open>Kernels for the examples: a compat entry of a dead port, a port with a backup, a dead space.\<close>

definition compat_kernel :: ipc_kernel where
  "compat_kernel = put_port 0x3000 doomed_port
     (set_entry (TableEntry 1) (\<lambda>e. e\<lparr>ie_bits := 0x410001, ie_object := 0x3000, ie_request := 1\<rparr>) send_kernel)"

lemma compat_kernel_points:
  "points (k_space compat_kernel) (k_hash compat_kernel) {} 0x100 (TableEntry 1) 0x410001 0x3000 1"
  "caps compat_kernel {} = [0x100 \<mapsto> (0x410001, 0x3000, 1)]"
  and compat_kernel_sel: "k_ports compat_kernel = [0x3000 \<mapsto> doomed_port]" "is_active (k_space compat_kernel)"
    "k_marequests compat_kernel = k_marequests boot_kernel"
  using set_points [OF send_kernel_points(1), of _ "0x410001" "0x3000" 1]
  by (auto simp: compat_kernel_def send_kernel_sel send_kernel_points(2) stores_def keeps_send_def mask_defs type_consts IE_BITS_TYPE_def)

lemma compat_holders:
  "holders sel [0x100 \<mapsto> (0x410001 :: u32, 0x3000 :: addr, Suc 0)] = (if sel (0x410001, 0x3000, Suc 0) then 1 else 0)"
  using holders_upd [of sel Map.empty "0x100" "Some (0x410001, 0x3000, Suc 0)"] by (simp add: holders_def)

lemma compat_kernel_inv: "rights_inv {} receiver_outside compat_kernel"
proof -
  have imar: "imar_ok (k_marequests compat_kernel)" using boot_imar by (simp add: compat_kernel_sel)
  have "accounts (caps compat_kernel {}) receiver_outside (k_ports compat_kernel)"
    unfolding accounts_def
    by (simp add: compat_kernel_points(2) compat_kernel_sel compat_holders port_counts_def receiver_outside_def
        no_outside_def type_consts)
  moreover have "right_ok compat_kernel 0x100 (0x410001, 0x3000, 1)"
    by (simp add: right_ok.simps IE_BITS_TYPE_def IE_BITS_UREFS_def mask_defs type_consts compat_kernel_sel
        IO_VALID_def IO_NULL_def IO_DEAD_def)
  ultimately show ?thesis
    unfolding rights_inv_def using pointsD(1) [OF compat_kernel_points(1)] imar by (simp add: compat_kernel_points(2))
qed

lemma compat_notify: "is_notify (k_space compat_kernel) = IO_NULL"
proof -
  have only: "IE_BITS_TYPE d \<noteq> MACH_PORT_TYPE_SEND"
    if "caps send_stored {0x100} m = Some (d, 0x3000, q)" "m \<notin> {0x100}" for m d q
    using that by (simp add: send_stored_points(2))
  have ty: "IE_BITS_TYPE 0x10001 = MACH_PORT_TYPE_SEND" by (simp add: IE_BITS_TYPE_def mask_defs type_consts)
  obtain s g where "hash_insert 0x3000 0x100 (TableEntry 1) send_stored = Some (send_stored\<lparr>k_space := s, k_hash := g\<rparr>)"
      "sframe (k_space send_stored) s"
    using send_stored_points(2) by (auto intro: insert_points [OF send_stored_points(1) ty, of thesis])
  then have "is_notify (k_space send_kernel) = is_notify (k_space send_stored)" by (simp add: send_kernel_def sframe_def)
  also have "\<dots> = IO_NULL" by (simp add: send_stored_def) (simp add: boot_kernel_def boot_space1_def boot_eval)
  finally show ?thesis by (simp add: compat_kernel_def)
qed

text \<open>The port is 6000; its backup is the port of the other examples.\<close>

definition backup_kernel :: ipc_kernel where
  "backup_kernel = boot_kernel\<lparr>k_ports := [0x6000 \<mapsto> send_port\<lparr>ip_pdrequest := 0x3000\<rparr>, 0x3000 \<mapsto> send_port]\<rparr>"

lemma backup_transit: "transit_ok (k_ports backup_kernel)" "transit (k_ports backup_kernel) = {}"
proof -
  show "transit (k_ports backup_kernel) = {}"
    by (auto simp: transit_def backup_kernel_def send_port_def ipc_port_init_def MACH_PORT_NULL_def split: if_splits)
  then show "transit_ok (k_ports backup_kernel)" by (simp add: transit_ok_def backup_kernel_def acyclic_def)
qed

definition ended_kernel :: ipc_kernel where
  "ended_kernel = send_kernel\<lparr>k_space := (k_space send_kernel)\<lparr>is_active := False\<rparr>\<rparr>"

end
