(* ===== verification/Ipc_Marequest.thy ===== *)
theory Ipc_Marequest
  imports Ipc_Right
begin

section \<open>Making and destroying msg-accepted requests\<close>

text \<open>
  \<open>ipc_marequest_create\<close> and \<open>ipc_marequest_destroy\<close> of \<open>ipc/ipc_marequest.c\<close>.  A sender that forces a
  message past the limit of a queue leaves a request; it is answered when the message is received or
  destroyed.  \<open>alloc\<close> is the answer of the allocator.
\<close>

definition marequest_soright :: "mach_port_t \<Rightarrow> ipc_kernel \<Rightarrow> ((mach_msg_return_t + addr) \<times> ipc_kernel) option" where
  "marequest_soright notify k =
     (if notify = MACH_PORT_NULL then Some (Inr IP_NULL, k)
      else do {
        (soright, k) \<leftarrow> ipc_port_lookup_notify notify k;
        Some (if soright = IP_NULL then Inl MACH_SEND_INVALID_NOTIFY else Inr soright, k)
      })"

definition ipc_marequest_create ::
    "addr option \<Rightarrow> addr \<Rightarrow> mach_port_t \<Rightarrow> ipc_kernel \<Rightarrow> ((mach_msg_return_t + addr) \<times> ipc_kernel) option" where
  "ipc_marequest_create alloc port notify k =
     (case alloc of
        None \<Rightarrow> Some (Inl MACH_SEND_NO_NOTIFY, k)
      | Some marequest \<Rightarrow>
          if \<not> is_active (k_space k) then Some (Inl MACH_SEND_INVALID_NOTIFY, k)
          else do {
            (found, k) \<leftarrow> ipc_right_reverse port k;
            case found of
              Some (name, entry) \<Rightarrow> do {
                e \<leftarrow> get_entry entry k;
                let bits = ie_bits e;
                if bits AND IE_BITS_MAREQUEST \<noteq> 0 then Some (Inl MACH_SEND_NOTIFY_IN_PROGRESS, k)
                else do {
                  (res, k) \<leftarrow> marequest_soright notify k;
                  case res of
                    Inl mr \<Rightarrow> Some (Inl mr, k)
                  | Inr soright \<Rightarrow>
                      let k = set_entry entry (\<lambda>e. e\<lparr>ie_bits := bits OR IE_BITS_MAREQUEST\<rparr>) k;
                          k = space_reference k;
                          request = \<lparr>imar_space = k_addr k, imar_name = name, imar_soright = soright\<rparr>
                      in Some (Inr marequest, k\<lparr>k_marequests := imar_insert marequest request (k_marequests k)\<rparr>)
                }
              }
            | None \<Rightarrow> do {
                (res, k) \<leftarrow> marequest_soright notify k;
                case res of
                  Inl mr \<Rightarrow> Some (Inl mr, k)
                | Inr soright \<Rightarrow>
                    let k = space_reference k;
                        request = \<lparr>imar_space = k_addr k, imar_name = MACH_PORT_NULL, imar_soright = soright\<rparr>;
                        t = k_marequests k
                    in Some (Inr marequest, k\<lparr>k_marequests := t\<lparr>imar_at := (imar_at t)(marequest \<mapsto> request)\<rparr>\<rparr>)
              }
          })"

text \<open>
  The part of \<open>ipc_marequest_destroy\<close> for a request that still belongs to a name: the request leaves
  the table and the entry its mark.  The result has the name for the notification and, for an
  old-style request, a send right for the notification port of the space.
\<close>

definition marequest_unmark ::
    "mach_port_t \<Rightarrow> addr \<Rightarrow> ipc_kernel \<Rightarrow> ((mach_port_t \<times> addr) \<times> ipc_kernel) option" where
  "marequest_unmark name soright k =
     do {
       (_, t) \<leftarrow> imar_remove (k_addr k) name (k_marequests k);
       let k = k\<lparr>k_marequests := t\<rparr>;
       if \<not> is_active (k_space k) then Some ((MACH_PORT_NULL, IP_NULL), k)
       else
         let (found, s) = ipc_entry_lookup name (k_space k); k = k\<lparr>k_space := s\<rparr>
         in do {
              entry \<leftarrow> found;
              let k = set_entry entry (\<lambda>e. e\<lparr>ie_bits := ie_bits e AND NOT IE_BITS_MAREQUEST\<rparr>) k;
              (sright, k) \<leftarrow> (if soright = IP_NULL then ipc_space_make_notify k else Some (IP_NULL, k));
              Some ((name, sright), k)
            }
     }"

text \<open>The request must be one of the space of the model.\<close>

definition ipc_marequest_destroy :: "addr \<Rightarrow> ipc_kernel \<Rightarrow> ipc_kernel option" where
  "ipc_marequest_destroy marequest k =
     do {
       request \<leftarrow> imar_at (k_marequests k) marequest;
       let soright = imar_soright request;
       if imar_space request \<noteq> k_addr k then None
       else do {
         ((name, sright), k) \<leftarrow>
           (if imar_name request \<noteq> MACH_PORT_NULL then marequest_unmark (imar_name request) soright k
            else Some ((MACH_PORT_NULL, IP_NULL), k));
         let k = space_release k;
         let t = k_marequests k;
         let k = k\<lparr>k_marequests := t\<lparr>imar_at := (imar_at t)(marequest := None)\<rparr>\<rparr>;
         Some (if soright = IP_NULL
               then if IP_VALID sright then post (Notify_Msg_Accepted_Compat sright name) k else k
               else post (Notify_Msg_Accepted soright name) k)
       }
     }"

end
