(* ===== verification/Ipc_Mqueue_Ops.thy ===== *)
theory Ipc_Mqueue_Ops
  imports Ipc_Marequest Ipc_Kmsg_Copyin
begin

section \<open>Sending and receiving\<close>

text \<open>
  \<open>ipc_mqueue_send\<close>, \<open>ipc_mqueue_copyin\<close> and \<open>ipc_mqueue_receive\<close> of \<open>ipc/ipc_mqueue.c\<close>.  A thread that
  calls \<open>thread_block\<close> stops there; the operation is cut at these points.  What precedes a block is one
  function, with the outcome \<open>Send_Block\<close> or \<open>Receive_Block\<close>, and what follows it is another, which is
  given the thread with the fields other threads left in it and the reason of its wake-up.
\<close>

definition MACH_SEND_TIMEOUT :: u32 where "MACH_SEND_TIMEOUT = 0x00000010"
definition MACH_RCV_TIMEOUT :: u32 where "MACH_RCV_TIMEOUT = 0x00000100"
definition MACH_SEND_ALWAYS :: u32 where "MACH_SEND_ALWAYS = 0x00010000"

datatype wait_result =
    THREAD_AWAKENED | THREAD_TIMED_OUT | THREAD_INTERRUPTED | THREAD_SHOULD_TERMINATE | THREAD_RESTART

text \<open>\<open>ipc_thread_rmqueue\<close>.\<close>

definition threads_without :: "addr \<Rightarrow> ipc_thread list \<Rightarrow> ipc_thread list" where
  "threads_without self ths = filter (\<lambda>th. ith_addr th \<noteq> self) ths"

subsection \<open>Sending\<close>

datatype send_outcome = Send_Return mach_msg_return_t | Send_Block

text \<open>The queue a message goes to: that of the set the port is in, dead or alive, or that of the port.\<close>

definition mqueue_enter :: "addr \<Rightarrow> ipc_kmsg \<Rightarrow> ipc_kernel \<Rightarrow> ipc_kernel option" where
  "mqueue_enter port kmsg k =
     do {
       p \<leftarrow> k_ports k port;
       let p = p\<lparr>ip_msgcount := ip_msgcount p + 1\<rparr>;
       if ip_pset p = IPS_NULL
       then let (q, seqno, woken) = mqueue_post kmsg (ip_seqno p) (ip_messages p)
            in Some (wake woken (put_port port (p\<lparr>ip_messages := q, ip_seqno := seqno\<rparr>) k))
       else do {
         s \<leftarrow> k_psets k (ip_pset p);
         let (q, seqno, woken) = mqueue_post kmsg (ip_seqno p) (ips_messages s);
         Some (wake woken (put_port port (p\<lparr>ip_seqno := seqno\<rparr>)
           (put_pset (ip_pset p) (s\<lparr>ips_messages := q\<rparr>) k)))
       }
     }"

text \<open>One round of the loop, up to a return or a block.\<close>

definition send_room :: "ipc_kmsg \<Rightarrow> u32 \<Rightarrow> ipc_port \<Rightarrow> bool" where
  "send_room kmsg option p \<longleftrightarrow>
     ip_msgcount p < ip_qlimit p \<or> option AND MACH_SEND_ALWAYS \<noteq> 0 \<or>
     MACH_MSGH_BITS_REMOTE (msgh_bits kmsg) = msgt_code MACH_MSG_TYPE_PORT_SEND_ONCE"

definition send_round ::
    "ipc_thread \<Rightarrow> ipc_kmsg \<Rightarrow> u32 \<Rightarrow> u32 \<Rightarrow> ipc_kernel \<Rightarrow> (send_outcome \<times> ipc_kernel) option" where
  "send_round self kmsg option timeout k =
     do {
       let port = msgh_remote_port kmsg;
       p \<leftarrow> k_ports k port;
       if \<not> ip_active p
       then do {
         k \<leftarrow> ip_check_unlock port (put_port port (ip_release p) k);
         Some (Send_Return MACH_MSG_SUCCESS, post (Kmsg_Destroy (kmsg\<lparr>msgh_remote_port := MACH_PORT_NULL\<rparr>)) k)
       }
       else if \<not> send_room kmsg option p
       then if option AND MACH_SEND_TIMEOUT \<noteq> 0 \<and> timeout = 0 then Some (Send_Return MACH_SEND_TIMED_OUT, k)
            else Some (Send_Block, put_port port (p\<lparr>ip_blocked := ip_blocked p @ [self\<lparr>ith_state := MACH_SEND_IN_PROGRESS\<rparr>]\<rparr>) k)
       else if msgh_bits kmsg AND MACH_MSGH_BITS_CIRCULAR \<noteq> 0
       then Some (Send_Return MACH_MSG_SUCCESS, post (Kmsg_Destroy kmsg) k)
       else do { k \<leftarrow> mqueue_enter port kmsg k; Some (Send_Return MACH_MSG_SUCCESS, k) }
     }"

text \<open>
  The whole call.  A message to a port of the kernel itself goes to \<open>ipc_kobject_server\<close>, a parameter
  that gives the reply, if any, and the kernel afterwards; the reply is sent with \<open>MACH_SEND_ALWAYS\<close>
  and may go to another port of the kernel, so replies are followed at most \<open>rounds\<close> times.
\<close>

fun ipc_mqueue_send ::
    "nat \<Rightarrow> addr \<Rightarrow> (ipc_kmsg \<Rightarrow> ipc_kernel \<Rightarrow> ipc_kmsg option \<times> ipc_kernel)
      \<Rightarrow> ipc_thread \<Rightarrow> ipc_kmsg \<Rightarrow> u32 \<Rightarrow> u32 \<Rightarrow> ipc_kernel \<Rightarrow> (send_outcome \<times> ipc_kernel) option" where
  "ipc_mqueue_send 0 ipc_space_kernel server self kmsg option timeout k = None"
| "ipc_mqueue_send (Suc rounds) ipc_space_kernel server self kmsg option timeout k =
     do {
       p \<leftarrow> k_ports k (msgh_remote_port kmsg);
       if ip_receiver p = ipc_space_kernel
       then case server kmsg k of
              (None, k) \<Rightarrow> Some (Send_Return MACH_MSG_SUCCESS, k)
            | (Some reply, k) \<Rightarrow> do {
                (_, k) \<leftarrow> ipc_mqueue_send rounds ipc_space_kernel server self reply MACH_SEND_ALWAYS 0 k;
                Some (Send_Return MACH_MSG_SUCCESS, k)
              }
       else send_round self kmsg option timeout k
     }"

text \<open>After \<open>thread_block\<close>.\<close>

definition send_resume ::
    "ipc_thread \<Rightarrow> wait_result \<Rightarrow> ipc_kmsg \<Rightarrow> u32 \<Rightarrow> u32 \<Rightarrow> ipc_kernel \<Rightarrow> (send_outcome \<times> ipc_kernel) option" where
  "send_resume self result kmsg option timeout k =
     (if ith_state self = MACH_MSG_SUCCESS then send_round self kmsg option timeout k
      else do {
        let port = msgh_remote_port kmsg;
        p \<leftarrow> k_ports k port;
        let k = put_port port (p\<lparr>ip_blocked := threads_without (ith_addr self) (ip_blocked p)\<rparr>) k;
        case result of
          THREAD_INTERRUPTED \<Rightarrow> Some (Send_Return MACH_SEND_INTERRUPTED, k)
        | THREAD_SHOULD_TERMINATE \<Rightarrow> Some (Send_Return MACH_SEND_INTERRUPTED, k)
        | THREAD_TIMED_OUT \<Rightarrow> send_round self kmsg option 0 k
        | _ \<Rightarrow> send_round self kmsg option timeout k
      })"

subsection \<open>From a name to a queue\<close>

text \<open>A message queue is that of a port or of a set; the reference is to the object.\<close>

datatype mqueue_ref = Port_Queue addr | Pset_Queue addr

definition ips_reference_at :: "addr \<Rightarrow> ipc_kernel \<Rightarrow> ipc_kernel option" where
  "ips_reference_at a k = do { s \<leftarrow> k_psets k a; Some (put_pset a (ips_reference s) k) }"

definition ipc_mqueue_copyin :: "mach_port_t \<Rightarrow> ipc_kernel \<Rightarrow> ((mach_msg_return_t + mqueue_ref) \<times> ipc_kernel) option" where
  "ipc_mqueue_copyin name k =
     (if \<not> is_active (k_space k) then Some (Inl MACH_RCV_INVALID_NAME, k)
      else case entry_lookup name k of
        (None, k) \<Rightarrow> Some (Inl MACH_RCV_INVALID_NAME, k)
      | (Some entry, k) \<Rightarrow> do {
          e \<leftarrow> get_entry entry k;
          let bits = ie_bits e;
          let object = ie_object e;
          if bits AND MACH_PORT_TYPE_RECEIVE \<noteq> 0
          then do {
            p \<leftarrow> k_ports k object;
            (set, k) \<leftarrow> (if ip_pset p \<noteq> IPS_NULL
                         then do {
                           s \<leftarrow> k_psets k (ip_pset p);
                           if ips_active s then Some (True, k)
                           else do {
                             k \<leftarrow> ipc_pset_remove (ip_pset p) object k;
                             k \<leftarrow> ips_check_unlock (ip_pset p) k;
                             Some (False, k)
                           }
                         }
                         else Some (False, k));
            if set then Some (Inl MACH_RCV_IN_SET, k)
            else do { k \<leftarrow> ipc_object_reference object k; Some (Inr (Port_Queue object), k) }
          }
          else if bits AND MACH_PORT_TYPE_PORT_SET \<noteq> 0
          then do { k \<leftarrow> ips_reference_at object k; Some (Inr (Pset_Queue object), k) }
          else Some (Inl MACH_RCV_INVALID_NAME, k)
        })"

subsection \<open>Receiving\<close>

text \<open>
  An outcome has the message and its sequence number, or the size of one that is too large, or the
  reason why there is none.
\<close>

datatype receive_outcome =
    Received ipc_kmsg u32
  | Receive_Too_Large u32
  | Receive_Return mach_msg_return_t
  | Receive_Block

fun get_queue :: "mqueue_ref \<Rightarrow> ipc_kernel \<Rightarrow> ipc_mqueue option" where
  "get_queue (Port_Queue a) k = map_option ip_messages (k_ports k a)"
| "get_queue (Pset_Queue a) k = map_option ips_messages (k_psets k a)"

fun put_queue :: "mqueue_ref \<Rightarrow> ipc_mqueue \<Rightarrow> ipc_kernel \<Rightarrow> ipc_kernel option" where
  "put_queue (Port_Queue a) q k = do { p \<leftarrow> k_ports k a; Some (put_port a (p\<lparr>ip_messages := q\<rparr>) k) }"
| "put_queue (Pset_Queue a) q k = do { s \<leftarrow> k_psets k a; Some (put_pset a (s\<lparr>ips_messages := q\<rparr>) k) }"

text \<open>The end: the message has left the queue.\<close>

definition receive_finish :: "ipc_kmsg \<Rightarrow> u32 \<Rightarrow> ipc_kernel \<Rightarrow> (receive_outcome \<times> ipc_kernel) option" where
  "receive_finish kmsg seqno k =
     do {
       k \<leftarrow> (if ikm_marequest kmsg \<noteq> 0 then ipc_marequest_destroy (ikm_marequest kmsg) k else Some k);
       let port = msgh_remote_port kmsg;
       p \<leftarrow> k_ports k port;
       let k =
         (if \<not> ip_active p then k
          else
            let p = p\<lparr>ip_msgcount := ip_msgcount p - 1\<rparr>
            in case ip_blocked p of
                 [] \<Rightarrow> put_port port p k
               | sender # senders \<Rightarrow>
                   if ip_msgcount p < ip_qlimit p
                   then wake [sender\<lparr>ith_state := MACH_MSG_SUCCESS\<rparr>] (put_port port (p\<lparr>ip_blocked := senders\<rparr>) k)
                   else put_port port p k);
       Some (Received (kmsg\<lparr>ikm_marequest := 0\<rparr>) seqno, k)
     }"

definition receive_round ::
    "mqueue_ref \<Rightarrow> ipc_thread \<Rightarrow> u32 \<Rightarrow> u32 \<Rightarrow> u32 \<Rightarrow> ipc_kernel \<Rightarrow> (receive_outcome \<times> ipc_kernel) option" where
  "receive_round mq self option max_size timeout k =
     do {
       q \<leftarrow> get_queue mq k;
       case mqueue_take max_size q of
         Some (Inl sz, _) \<Rightarrow> Some (Receive_Too_Large sz, k)
       | Some (Inr kmsg, q) \<Rightarrow> do {
           k \<leftarrow> put_queue mq q k;
           p \<leftarrow> k_ports k (msgh_remote_port kmsg);
           receive_finish kmsg (ip_seqno p) (put_port (msgh_remote_port kmsg) (p\<lparr>ip_seqno := ip_seqno p + 1\<rparr>) k)
         }
       | None \<Rightarrow>
           if option AND MACH_RCV_TIMEOUT \<noteq> 0 \<and> timeout = 0 then Some (Receive_Return MACH_RCV_TIMED_OUT, k)
           else do {
             k \<leftarrow> put_queue mq (q\<lparr>imq_threads := imq_threads q @
                    [self\<lparr>ith_state := MACH_RCV_IN_PROGRESS, ith_msize := max_size\<rparr>]\<rparr>) k;
             Some (Receive_Block, k)
           }
     }"

definition receive_resume ::
    "mqueue_ref \<Rightarrow> ipc_thread \<Rightarrow> wait_result \<Rightarrow> u32 \<Rightarrow> u32 \<Rightarrow> u32 \<Rightarrow> ipc_kernel
      \<Rightarrow> (receive_outcome \<times> ipc_kernel) option" where
  "receive_resume mq self result option max_size timeout k =
     (case ith_state self of
        MACH_MSG_SUCCESS \<Rightarrow> do { kmsg \<leftarrow> ith_kmsg self; receive_finish kmsg (ith_seqno self) k }
      | MACH_RCV_TOO_LARGE \<Rightarrow> Some (Receive_Too_Large (ith_msize self), k)
      | MACH_RCV_PORT_DIED \<Rightarrow> Some (Receive_Return MACH_RCV_PORT_DIED, k)
      | MACH_RCV_PORT_CHANGED \<Rightarrow> Some (Receive_Return MACH_RCV_PORT_CHANGED, k)
      | MACH_RCV_IN_PROGRESS \<Rightarrow> do {
          q \<leftarrow> get_queue mq k;
          k \<leftarrow> put_queue mq (q\<lparr>imq_threads := threads_without (ith_addr self) (imq_threads q)\<rparr>) k;
          case result of
            THREAD_INTERRUPTED \<Rightarrow> Some (Receive_Return MACH_RCV_INTERRUPTED, k)
          | THREAD_SHOULD_TERMINATE \<Rightarrow> Some (Receive_Return MACH_RCV_INTERRUPTED, k)
          | THREAD_TIMED_OUT \<Rightarrow> receive_round mq self option max_size 0 k
          | _ \<Rightarrow> receive_round mq self option max_size timeout k
        }
      | _ \<Rightarrow> receive_round mq self option max_size timeout k)"

definition ipc_mqueue_receive ::
    "mqueue_ref \<Rightarrow> (ipc_thread \<times> wait_result) option \<Rightarrow> ipc_thread \<Rightarrow> u32 \<Rightarrow> u32 \<Rightarrow> u32 \<Rightarrow> ipc_kernel
      \<Rightarrow> (receive_outcome \<times> ipc_kernel) option" where
  "ipc_mqueue_receive mq resume self option max_size timeout k =
     (case resume of
        Some (self, result) \<Rightarrow> receive_resume mq self result option max_size timeout k
      | None \<Rightarrow> receive_round mq self option max_size timeout k)"

end
