(* ===== verification/Ipc_Message_Flow.thy ===== *)
theory Ipc_Message_Flow
  imports Ipc_Mqueue_Ops
begin

section \<open>How messages flow\<close>

text \<open>
  The messages of a port wait in its own queue or in that of its set.  \<open>queued k a\<close> are the messages
  for port \<open>a\<close>, wherever they wait; \<open>handed evs a\<close> are those that were given to a thread that is about to
  run, with their sequence numbers.
\<close>

definition port_queue :: "ipc_kernel \<Rightarrow> ipc_port \<Rightarrow> ipc_kmsg list" where
  "port_queue k p =
     (if ip_pset p = IPS_NULL then imq_messages (ip_messages p)
      else case k_psets k (ip_pset p) of None \<Rightarrow> [] | Some s \<Rightarrow> imq_messages (ips_messages s))"

definition queued :: "ipc_kernel \<Rightarrow> addr \<Rightarrow> ipc_kmsg list" where
  "queued k a =
     (case k_ports k a of None \<Rightarrow> [] | Some p \<Rightarrow> filter (\<lambda>m. msgh_remote_port m = a) (port_queue k p))"

fun handed_by :: "ipc_event \<Rightarrow> (ipc_kmsg \<times> u32) list" where
  "handed_by (Thread_Go th) =
     (if ith_state th = MACH_MSG_SUCCESS then case ith_kmsg th of None \<Rightarrow> [] | Some m \<Rightarrow> [(m, ith_seqno th)] else [])"
| "handed_by _ = []"

definition handed :: "ipc_event list \<Rightarrow> addr \<Rightarrow> (ipc_kmsg \<times> u32) list" where
  "handed evs a = filter (\<lambda>(m, _). msgh_remote_port m = a) (concat (map handed_by evs))"

lemma handed_append [simp]: "handed (xs @ ys) a = handed xs a @ handed ys a" by (simp add: handed_def)
lemma handed_Nil [simp]: "handed [] a = []" by (simp add: handed_def)

text \<open>Threads woken with \<open>MACH_MSG_SUCCESS\<close> have a message: they are receivers.\<close>

definition receivers_only :: "ipc_thread list \<Rightarrow> bool" where
  "receivers_only woken \<longleftrightarrow> (\<forall>th\<in>set woken. ith_state th = MACH_MSG_SUCCESS \<longrightarrow> ith_kmsg th \<noteq> None)"

lemma receivers_only_simps [simp]:
  "receivers_only []" "receivers_only (xs @ ys) \<longleftrightarrow> receivers_only xs \<and> receivers_only ys"
  by (auto simp: receivers_only_def)

lemma handed_woken:
  assumes "receivers_only woken"
  shows "handed (map Thread_Go woken) a = filter (\<lambda>(m, _). msgh_remote_port m = a) (deliveries woken)"
  using assms
proof (induction woken)
  case (Cons th ths)
  then have "handed (map Thread_Go ths) a = filter (\<lambda>(m, _). msgh_remote_port m = a) (deliveries ths)"
    by (simp add: receivers_only_def)
  moreover have "handed (map Thread_Go (th # ths)) a =
      filter (\<lambda>(m, _). msgh_remote_port m = a) (handed_by (Thread_Go th)) @ handed (map Thread_Go ths) a"
    unfolding handed_def by (simp only: list.map concat.simps filter_append)
  moreover have "handed_by (Thread_Go th) = deliveries [th]"
    using Cons.prems by (cases "ith_kmsg th") (simp_all add: receivers_only_def)
  moreover have "deliveries (th # ths) = deliveries [th] @ deliveries ths" by simp
  ultimately show ?case by (simp only: filter_append)
qed simp

lemma find_receiver_only:
  "find_receiver kmsg seqno ths = (woken, rest, d) \<Longrightarrow> receivers_only woken"
  by (induction ths arbitrary: woken rest d) (auto simp: receivers_only_def split: if_splits prod.splits)

lemma mqueue_post_only: "mqueue_post kmsg seqno q = (q', seqno', woken) \<Longrightarrow> receivers_only woken"
  by (auto simp: mqueue_post_def find_receiver_only split: prod.splits bool.splits)

lemma mqueue_move_loop_only: "mqueue_move_loop port old seqno q = (l, q', seqno', woken) \<Longrightarrow> receivers_only woken"
proof (induction old arbitrary: seqno q l q' seqno' woken)
  case Nil
  then show ?case by simp
next
  case (Cons m old)
  show ?case
  proof (cases "msgh_remote_port m = port")
    case False
    with Cons show ?thesis by (auto split: prod.splits)
  next
    case True
    obtain q1 s1 w1 where p: "mqueue_post m seqno q = (q1, s1, w1)" by (metis prod_cases3)
    obtain l2 q2 s2 w2 where r: "mqueue_move_loop port old s1 q1 = (l2, q2, s2, w2)" by (metis prod_cases4)
    from True p r Cons.prems Cons.IH [OF r] mqueue_post_only [OF p] show ?thesis by auto
  qed
qed

lemma ipc_mqueue_move_only: "ipc_mqueue_move q q0 port seqno = (q1, q2, seqno', woken) \<Longrightarrow> receivers_only woken"
  by (auto simp: ipc_mqueue_move_def mqueue_move_loop_only split: prod.splits)

lemma changed_only:
  "mr \<noteq> MACH_MSG_SUCCESS \<Longrightarrow> receivers_only (snd (ipc_mqueue_changed q mr))"
  "mr \<noteq> MACH_MSG_SUCCESS \<Longrightarrow> deliveries (snd (ipc_mqueue_changed q mr)) = []"
  by (auto simp: ipc_mqueue_changed_def receivers_only_def deliveries_def filter_empty_conv)

text \<open>
  The common effect of all operations on queues: for every port, the messages that waited or are new
  keep their order, a first part of them is handed over with consecutive sequence numbers, and the
  rest waits.
\<close>

definition port_flows :: "ipc_kmsg list \<Rightarrow> ipc_kmsg list \<Rightarrow> (ipc_kmsg \<times> u32) list \<Rightarrow> ipc_port \<Rightarrow> ipc_port \<Rightarrow> bool" where
  "port_flows old rest given p p' \<longleftrightarrow>
     ip_bits p' = ip_bits p \<and> ip_qlimit p' = ip_qlimit p \<and> ip_blocked p' = ip_blocked p \<and>
     (\<exists>j\<le>length old. rest = drop j old \<and> ip_seqno p' = ip_seqno p + of_nat j \<and>
        given = numbered (ip_seqno p) (take j old))"

definition flows :: "(addr \<Rightarrow> ipc_kmsg list) \<Rightarrow> ipc_kernel \<Rightarrow> ipc_kernel \<Rightarrow> bool" where
  "flows new k k' \<longleftrightarrow>
     (\<exists>woken. receivers_only woken \<and> k_events k' = k_events k @ map Thread_Go woken \<and>
        dom (k_ports k') = dom (k_ports k) \<and>
        (\<forall>a p p'. k_ports k a = Some p \<longrightarrow> k_ports k' a = Some p' \<longrightarrow>
           ip_msgcount p' = ip_msgcount p + of_nat (length (new a)) \<and>
           port_flows (queued k a @ new a) (queued k' a) (handed (map Thread_Go woken) a) p p'))"

abbreviation none_new :: "addr \<Rightarrow> ipc_kmsg list" where "none_new \<equiv> \<lambda>_. []"

lemma port_flows_refl: "port_flows q q [] p p"
  by (auto simp: port_flows_def intro: exI [of _ 0])

lemma numbered_take_add:
  "i \<le> length xs \<Longrightarrow> numbered s (take i xs) @ numbered (s + of_nat i) (take j (drop i xs)) = numbered s (take (i + j) xs)"
  by (simp add: take_add numbered_append)

lemma port_flows_trans:
  assumes "port_flows q1 q2 g1 p1 p2" and "port_flows q2 q3 g2 p2 p3"
  shows "port_flows q1 q3 (g1 @ g2) p1 p3"
proof -
  from assms obtain i j where ij: "i \<le> length q1" "q2 = drop i q1" "ip_seqno p2 = ip_seqno p1 + of_nat i"
      "g1 = numbered (ip_seqno p1) (take i q1)" "j \<le> length q2" "q3 = drop j q2"
      "ip_seqno p3 = ip_seqno p2 + of_nat j" "g2 = numbered (ip_seqno p2) (take j q2)"
    by (auto simp: port_flows_def)
  then have "i + j \<le> length q1 \<and> q3 = drop (i + j) q1 \<and> ip_seqno p3 = ip_seqno p1 + of_nat (i + j) \<and>
      g1 @ g2 = numbered (ip_seqno p1) (take (i + j) q1)"
    by (auto simp: numbered_take_add ac_simps)
  then show ?thesis using assms unfolding port_flows_def by metis
qed

lemma flows_refl: "flows none_new k k"
  by (auto simp: flows_def port_flows_refl intro!: exI [of _ "[]"])

lemma flows_trans:
  assumes "flows none_new k1 k2" and "flows none_new k2 k3"
  shows "flows none_new k1 k3"
proof -
  from assms obtain w1 w2 where w: "receivers_only w1" "k_events k2 = k_events k1 @ map Thread_Go w1"
      "dom (k_ports k2) = dom (k_ports k1)" "receivers_only w2" "k_events k3 = k_events k2 @ map Thread_Go w2"
      "dom (k_ports k3) = dom (k_ports k2)"
      "\<And>a p p'. k_ports k1 a = Some p \<Longrightarrow> k_ports k2 a = Some p' \<Longrightarrow> ip_msgcount p' = ip_msgcount p \<and>
         port_flows (queued k1 a) (queued k2 a) (handed (map Thread_Go w1) a) p p'"
      "\<And>a p p'. k_ports k2 a = Some p \<Longrightarrow> k_ports k3 a = Some p' \<Longrightarrow> ip_msgcount p' = ip_msgcount p \<and>
         port_flows (queued k2 a) (queued k3 a) (handed (map Thread_Go w2) a) p p'"
    by (auto simp: flows_def)
  show ?thesis
    unfolding flows_def
  proof (intro exI [of _ "w1 @ w2"] conjI allI impI)
    fix a p p3 assume p: "k_ports k1 a = Some p" "k_ports k3 a = Some p3"
    then obtain p2 where "k_ports k2 a = Some p2" using w(3) by blast
    note f = w(7) [OF p(1) this] w(8) [OF this p(2)]
    from f show "ip_msgcount p3 = ip_msgcount p + of_nat (length [])" by simp
    from f port_flows_trans [OF conjunct2 [OF f(1)] conjunct2 [OF f(2)]]
    show "port_flows (queued k1 a @ []) (queued k3 a) (handed (map Thread_Go (w1 @ w2)) a) p p3" by simp
  qed (use w in auto)
qed


subsection \<open>The operations\<close>

text \<open>Only the queue and the set of a port matter for the invariant of the sets.\<close>

lemma psets_inv_port:
  assumes inv: "psets_inv others X k" and p: "k_ports k a = Some p"
    and k': "k_ports k' = (k_ports k)(a \<mapsto> p')" "k_psets k' = k_psets k" and ps: "ip_pset p' = ip_pset p"
    and q: "mqueue_ok (ip_messages p')" "\<forall>m\<in>set (imq_messages (ip_messages p')). msgh_remote_port m = a"
      "ip_pset p \<noteq> IPS_NULL \<Longrightarrow> ip_messages p' = ip_messages p"
  shows "psets_inv others X k'"
proof -
  note I = psets_invD [OF inv]
  have mem: "members k' b = members k b" for b using p ps by (auto simp: members_def k')
  show ?thesis
    unfolding psets_inv_def mem k'(2)
  proof (intro conjI allI impI ballI)
    show "finite (dom (k_ports k'))" using I(3) by (simp add: k')
    show "k_psets k IPS_NULL = None" by (rule I(2))
    fix b t assume t: "k_ports k' b = Some t"
    show "mqueue_ok (ip_messages t)" using t I(4) q(1) by (auto simp: k' split: if_splits)
    show "msgh_remote_port m = b" if "m \<in> set (imq_messages (ip_messages t))" for m
      using t that I(5) q(2) by (auto simp: k' split: if_splits)
    show "k_psets k (ip_pset t) \<noteq> None" "ip_messages t = ipc_mqueue_init" if "ip_pset t \<noteq> IPS_NULL"
      using t that I(6,7) p ps q(3) by (auto simp: k' split: if_splits)
  qed (use I in auto)
qed

lemma queued_other:
  assumes "k_ports k b = Some q" and "k_ports k' b = Some q'" and "ip_pset q' = ip_pset q" and "ip_messages q' = ip_messages q"
    and "\<And>s. ip_pset q \<noteq> IPS_NULL \<Longrightarrow> k_psets k (ip_pset q) = Some s \<Longrightarrow>
      \<exists>s'. k_psets k' (ip_pset q) = Some s' \<and>
        filter (\<lambda>m. msgh_remote_port m = b) (imq_messages (ips_messages s')) =
        filter (\<lambda>m. msgh_remote_port m = b) (imq_messages (ips_messages s))"
    and "ip_pset q \<noteq> IPS_NULL \<Longrightarrow> k_psets k (ip_pset q) \<noteq> None"
  shows "queued k' b = queued k b"
proof (cases "ip_pset q = IPS_NULL")
  case True
  with assms(1-4) show ?thesis by (simp add: queued_def port_queue_def)
next
  case False
  with assms(6) obtain s where s: "k_psets k (ip_pset q) = Some s" by blast
  with assms(5) [OF False s] assms(1-4) False show ?thesis by (auto simp: queued_def port_queue_def)
qed

lemma port_flows_same: "port_flows q q [] p (p\<lparr>ip_msgcount := c\<rparr>)"
  by (auto simp: port_flows_def intro: exI [of _ 0])

text \<open>What \<open>mqueue_post\<close> does to a queue, in the terms above.\<close>

lemma mqueue_post_flow:
  assumes post: "mqueue_post m seqno q = (q', seqno', woken)" and ok: "mqueue_ok q"
  shows "\<exists>j\<le>length (filter P (imq_messages q) @ [m]).
      (P m \<longrightarrow> filter P (imq_messages q') = drop j (filter P (imq_messages q) @ [m])) \<and>
      seqno' = seqno + of_nat j \<and> deliveries woken = numbered seqno (take j (filter P (imq_messages q) @ [m]))"
    and "\<not> P m \<Longrightarrow> filter P (imq_messages q') = filter P (imq_messages q)"
    and "set (imq_messages q') \<subseteq> insert m (set (imq_messages q))"
    and "set (map fst (deliveries woken)) \<subseteq> {m}"
proof -
  note S = mqueue_post_spec [OF post ok]
  from S(4) consider (queue) "deliveries woken = []" "imq_messages q' = imq_messages q @ [m]"
    | (hand) s where "deliveries woken = [(m, s)]" "imq_messages q' = []" "imq_messages q = []"
    by (auto simp: map_eq_Cons_conv)
  note cases = this
  show "\<exists>j\<le>length (filter P (imq_messages q) @ [m]).
      (P m \<longrightarrow> filter P (imq_messages q') = drop j (filter P (imq_messages q) @ [m])) \<and>
      seqno' = seqno + of_nat j \<and> deliveries woken = numbered seqno (take j (filter P (imq_messages q) @ [m]))"
    by (cases rule: cases) (use S(2,3) in \<open>auto intro: exI [of _ 0] exI [of _ "Suc 0"]\<close>)
  show "\<not> P m \<Longrightarrow> filter P (imq_messages q') = filter P (imq_messages q)"
    "set (imq_messages q') \<subseteq> insert m (set (imq_messages q))" "set (map fst (deliveries woken)) \<subseteq> {m}"
    by (cases rule: cases, auto)+
qed


lemma mqueue_enter_flows:
  assumes inv: "psets_inv others X k" and p: "k_ports k a = Some p" and m: "msgh_remote_port m = a"
  shows "\<exists>k'. mqueue_enter a m k = Some k' \<and> psets_inv others X k' \<and> flows (none_new(a := [m])) k k'"
proof (cases "ip_pset p = IPS_NULL")
  case True
  let ?p = "p\<lparr>ip_msgcount := ip_msgcount p + 1\<rparr>"
  obtain q seqno woken where post: "mqueue_post m (ip_seqno p) (ip_messages p) = (q, seqno, woken)" by (metis prod_cases3)
  note S = mqueue_post_spec [OF post psets_invD(4) [OF inv p]]
    and F = mqueue_post_flow [OF post psets_invD(4) [OF inv p]]
  let ?k = "wake woken (put_port a (?p\<lparr>ip_messages := q, ip_seqno := seqno\<rparr>) k)"
  have "mqueue_enter a m k = Some ?k" using p True post by (simp add: mqueue_enter_def)
  moreover have "psets_inv others X ?k"
    by (rule psets_inv_port [OF inv p, where p' = "?p\<lparr>ip_messages := q, ip_seqno := seqno\<rparr>"])
      (use S(1) F(3) psets_invD(5) [OF inv p] True m in \<open>auto dest: subsetD\<close>)
  moreover have "flows (none_new(a := [m])) k ?k"
    unfolding flows_def
  proof (intro exI [of _ woken] conjI allI impI)
    fix b r r' assume r: "k_ports k b = Some r" "k_ports ?k b = Some r'"
    show "ip_msgcount r' = ip_msgcount r + of_nat (length ((none_new(a := [m])) b))"
      using r p by (auto split: if_splits)
    show "port_flows (queued k b @ (none_new(a := [m])) b) (queued ?k b) (handed (map Thread_Go woken) b) r r'"
    proof (cases "b = a")
      case True
      with r p have e: "r = p" "r' = ?p\<lparr>ip_messages := q, ip_seqno := seqno\<rparr>" by auto
      have d: "handed (map Thread_Go woken) a = deliveries woken"
        using F(4) m by (auto simp: handed_woken [OF mqueue_post_only [OF post]] filter_id_conv)
      show ?thesis
        using F(1) [where P = "\<lambda>m. msgh_remote_port m = a"] m \<open>ip_pset p = IPS_NULL\<close> p True
        by (auto simp: e d port_flows_def queued_def port_queue_def)
    next
      case False
      with r have e: "r' = r" by auto
      have "queued ?k b = queued k b"
        by (rule queued_other [OF r]) (use psets_invD(6) [OF inv r(1)] in \<open>auto simp: e\<close>)
      moreover have "handed (map Thread_Go woken) b = []"
        using F(4) m False by (auto simp: handed_woken [OF mqueue_post_only [OF post]] filter_empty_conv)
      ultimately show ?thesis using False by (simp add: e port_flows_refl)
    qed
  qed (use p mqueue_post_only [OF post] in auto)
  ultimately show ?thesis by blast
next
  case False
  let ?x = "ip_pset p" and ?p = "p\<lparr>ip_msgcount := ip_msgcount p + 1\<rparr>"
  obtain s where s: "k_psets k ?x = Some s" using psets_invD(6) [OF inv p False] by blast
  obtain q seqno woken where post: "mqueue_post m (ip_seqno p) (ips_messages s) = (q, seqno, woken)" by (metis prod_cases3)
  note S = mqueue_post_spec [OF post psets_invD(8) [OF inv s]]
    and F = mqueue_post_flow [OF post psets_invD(8) [OF inv s]]
  let ?k = "wake woken (put_port a (?p\<lparr>ip_seqno := seqno\<rparr>) (put_pset ?x (s\<lparr>ips_messages := q\<rparr>) k))"
  have "mqueue_enter a m k = Some ?k" using p False s post by (simp add: mqueue_enter_def)
  moreover have mem: "members ?k b = members k b" for b using p by (auto simp: members_def)
  have "psets_inv others (insert ?x X) ?k"
  proof (rule psets_inv_update [OF inv])
    show "k_ports ?k = (k_ports k)(a \<mapsto> ?p\<lparr>ip_seqno := seqno\<rparr>)"
      "k_psets ?k = (k_psets k)(?x \<mapsto> s\<lparr>ips_messages := q\<rparr>)" by simp_all
    show "\<forall>m'\<in>set (imq_messages (ips_messages (s\<lparr>ips_messages := q\<rparr>))). msgh_remote_port m' \<in> members ?k ?x"
      unfolding mem using F(3) psets_invD(9) [OF inv s] p m by (auto simp: members_def dest: subsetD)
  qed (use p s False S(1) psets_invD(7) [OF inv p False] psets_invD(4) [OF inv p] psets_invD(5) [OF inv p] psets_invD(10,11,13) [OF inv s] mem in auto)
  then have "psets_inv others X ?k"
    by (rule psets_inv_except) (use p mem in \<open>auto simp: members_def\<close>)
  moreover have "flows (none_new(a := [m])) k ?k"
    unfolding flows_def
  proof (intro exI [of _ woken] conjI allI impI)
    fix b r r' assume r: "k_ports k b = Some r" "k_ports ?k b = Some r'"
    show "ip_msgcount r' = ip_msgcount r + of_nat (length ((none_new(a := [m])) b))"
      using r p by (auto split: if_splits)
    show "port_flows (queued k b @ (none_new(a := [m])) b) (queued ?k b) (handed (map Thread_Go woken) b) r r'"
    proof (cases "b = a")
      case True
      with r p have e: "r = p" "r' = ?p\<lparr>ip_seqno := seqno\<rparr>" by auto
      have d: "handed (map Thread_Go woken) a = deliveries woken"
        using F(4) m by (auto simp: handed_woken [OF mqueue_post_only [OF post]] filter_id_conv)
      show ?thesis
        using F(1) [where P = "\<lambda>m. msgh_remote_port m = a"] m False p s True
        by (auto simp: e d port_flows_def queued_def port_queue_def)
    next
      case ba: False
      with r have e: "r' = r" by auto
      have "queued ?k b = queued k b"
        by (rule queued_other [OF r])
          (use psets_invD(6) [OF inv r(1)] F(2) [where P = "\<lambda>m. msgh_remote_port m = b"] ba m s in \<open>auto simp: e\<close>)
      moreover have "handed (map Thread_Go woken) b = []"
        using F(4) m ba by (auto simp: handed_woken [OF mqueue_post_only [OF post]] filter_empty_conv)
      ultimately show ?thesis using ba by (simp add: e port_flows_refl)
    qed
  qed (use p mqueue_post_only [OF post] in auto)
  ultimately show ?thesis by blast
qed


lemma pset_add_only:
  assumes "ipc_pset_add pset port k = Some k'" and "k_events k' = k_events k @ map Thread_Go w"
  shows "receivers_only w"
proof -
  have inj: "map Thread_Go u = map Thread_Go v \<Longrightarrow> u = v" for u v by (rule list.inj_map_strong) auto
  have no: "receivers_only (map (\<lambda>th. th\<lparr>ith_state := MACH_RCV_PORT_CHANGED\<rparr>) ths)" for ths
    by (auto simp: receivers_only_def)
  obtain p t where p: "k_ports k port = Some p" "k_psets k pset = Some t"
    using assms(1) by (auto simp: ipc_pset_add_def bind_eq_Some_conv)
  obtain q1 q2 n v where m: "ipc_mqueue_move (ips_messages t) (ip_messages p) port (ip_seqno p) = (q1, q2, n, v)"
    by (metis prod_cases4)
  have "k_events k' = k_events k @ map Thread_Go (v @ map (\<lambda>th. th\<lparr>ith_state := MACH_RCV_PORT_CHANGED\<rparr>) (imq_threads q2))"
    using assms(1) p m by (auto simp: ipc_pset_add_def ipc_mqueue_changed_def ips_reference_def)
  with assms(2) have "w = v @ map (\<lambda>th. th\<lparr>ith_state := MACH_RCV_PORT_CHANGED\<rparr>) (imq_threads q2)"
    by (intro inj) (simp only: same_append_eq)
  with no ipc_mqueue_move_only [OF m] show ?thesis by simp
qed

lemma pset_add_flows:
  assumes inv: "psets_inv others X k" and p: "k_ports k a = Some p" "ip_pset p = IPS_NULL"
    and s: "k_psets k pset = Some s" and room: "card (members k pset) + others pset + 1 < 2 ^ 32"
  shows "\<exists>k' p'. ipc_pset_add pset a k = Some k' \<and> psets_inv others (X - {pset}) k' \<and> flows none_new k k' \<and>
    k_ports k' = (k_ports k)(a \<mapsto> p') \<and> ip_pset p' = pset \<and> dom (k_psets k') = dom (k_psets k)"
proof -
  from ipc_pset_add_spec [OF inv p s room] obtain k' p' s' rest woken where
    A: "ipc_pset_add pset a k = Some k'" "psets_inv others (X - {pset}) k'" "k_ports k' = (k_ports k)(a \<mapsto> p')"
      "k_psets k' = (k_psets k)(pset \<mapsto> s')"
      "p' = p\<lparr>ip_pset := pset, ip_messages := ipc_mqueue_init, ip_seqno := ip_seqno p + of_nat (length (deliveries woken))\<rparr>"
      "imq_messages (ips_messages s') = imq_messages (ips_messages s) @ rest"
      "map fst (deliveries woken) @ rest = imq_messages (ip_messages p)"
      "deliveries woken = numbered (ip_seqno p) (map fst (deliveries woken))"
      "k_events k' = k_events k @ map Thread_Go (woken @ snd (ipc_mqueue_changed (ip_messages p) MACH_RCV_PORT_CHANGED))"
    by (elim exE conjE) (rule that)
  let ?w = "woken @ snd (ipc_mqueue_changed (ip_messages p) MACH_RCV_PORT_CHANGED)" and ?d = "map fst (deliveries woken)"
  have only: "receivers_only ?w" by (rule pset_add_only [OF A(1,9)])
  have mine: "msgh_remote_port m = a" if "m \<in> set ?d \<or> m \<in> set rest" for m
    using that psets_invD(5) [OF inv p(1)] unfolding A(7) [symmetric] by auto
  have ps: "pset \<noteq> IPS_NULL" using psets_invD(2) [OF inv] s by auto
  have theirs: "msgh_remote_port m \<noteq> a" if "m \<in> set (imq_messages (ips_messages s))" for m
    using psets_invD(9) [OF inv s that] p ps by (auto simp: members_def)
  have given: "handed (map Thread_Go ?w) b = (if b = a then deliveries woken else [])" for b
  proof -
    have "\<forall>(m, _)\<in>set (deliveries woken). msgh_remote_port m = a" using mine by force
    then show ?thesis
      unfolding handed_woken [OF only] using changed_only(2) [of MACH_RCV_PORT_CHANGED]
      by (auto simp: filter_id_conv filter_empty_conv)
  qed
  have "flows none_new k k'"
    unfolding flows_def
  proof (intro exI [of _ ?w] conjI allI impI)
    fix b r r' assume r: "k_ports k b = Some r" "k_ports k' b = Some r'"
    show "ip_msgcount r' = ip_msgcount r + of_nat (length [])" using r p A(3,5) by (auto split: if_splits)
    show "port_flows (queued k b @ []) (queued k' b) (handed (map Thread_Go ?w) b) r r'"
    proof (cases "b = a")
      case True
      with r p A(3) have e: "r = p" "r' = p'" by auto
      have q: "queued k a = ?d @ rest"
        using p A(7) psets_invD(5) [OF inv p(1)] by (auto simp: queued_def port_queue_def filter_id_conv)
      have q': "queued k' a = rest"
        using A(3-6) ps theirs mine by (auto simp: queued_def port_queue_def filter_id_conv filter_empty_conv)
      show ?thesis
        unfolding port_flows_def True given q q' e
        using A(5,8) by (auto intro!: exI [of _ "length (deliveries woken)"])
    next
      case False
      with r A(3) have e: "r' = r" by auto
      have "queued k' b = queued k b"
        by (rule queued_other [OF r])
          (use psets_invD(6) [OF inv r(1)] False mine A(4,6) s in \<open>auto simp: e filter_empty_conv\<close>)
      then show ?thesis unfolding given using False by (simp add: e port_flows_refl)
    qed
  qed (use p A(3,9) only in auto)
  with A s show ?thesis by (auto simp: insert_absorb domI)
qed

lemma pset_remove_flows:
  assumes inv: "psets_inv others X k" and p: "k_ports k a = Some p" "ip_pset p = pset" "pset \<noteq> IPS_NULL"
  shows "\<exists>s k' p' s'. k_psets k pset = Some s \<and> ipc_pset_remove pset a k = Some k' \<and>
    psets_inv others (insert pset X) k' \<and> flows none_new k k' \<and>
    k_ports k' = (k_ports k)(a \<mapsto> p') \<and> ip_pset p' = IPS_NULL \<and> k_psets k' = (k_psets k)(pset \<mapsto> s') \<and> ips_bits s' = ips_bits s"
proof -
  from ipc_pset_remove_spec [OF inv p] obtain s k' p' s' rest where
    R: "k_psets k pset = Some s" "ipc_pset_remove pset a k = Some k'" "psets_inv others (insert pset X) k'"
      "k_ports k' = (k_ports k)(a \<mapsto> p')" "k_psets k' = (k_psets k)(pset \<mapsto> s')"
      "p' = p\<lparr>ip_pset := IPS_NULL, ip_messages := ipc_mqueue_init\<lparr>imq_messages := rest\<rparr>\<rparr>"
      "rest = filter (\<lambda>k. msgh_remote_port k = a) (imq_messages (ips_messages s))"
      "imq_messages (ips_messages s') = filter (\<lambda>k. msgh_remote_port k \<noteq> a) (imq_messages (ips_messages s))"
      "ips_bits s' = ips_bits s" "k_events k' = k_events k"
    by (elim exE conjE) (rule that)
  have "flows none_new k k'"
    unfolding flows_def
  proof (intro exI [of _ "[]"] conjI allI impI)
    fix b r r' assume r: "k_ports k b = Some r" "k_ports k' b = Some r'"
    show "ip_msgcount r' = ip_msgcount r + of_nat (length [])" using r p R(4,6) by (auto split: if_splits)
    show "port_flows (queued k b @ []) (queued k' b) (handed (map Thread_Go []) b) r r'"
    proof (cases "b = a")
      case True
      with r p R(4) have e: "r = p" "r' = p'" by auto
      have "queued k' a = queued k a"
        using p R(1,4-7) by (auto simp: queued_def port_queue_def filter_id_conv ipc_mqueue_init_def)
      then show ?thesis using R(6) by (auto simp: True e port_flows_def intro: exI [of _ 0])
    next
      case False
      with r R(4) have e: "r' = r" by auto
      have "queued k' b = queued k b"
        by (rule queued_other [OF r])
          (use psets_invD(6) [OF inv r(1)] False R(1,5,8) in \<open>auto simp: e intro!: filter_cong\<close>)
      then show ?thesis by (simp add: e port_flows_refl)
    qed
  qed (use p R(4,10) in auto)
  with R show ?thesis by auto
qed

lemma check_unlock_flows:
  assumes inv: "psets_inv others X k" and s: "k_psets k x = Some s"
  shows "\<exists>k'. ips_check_unlock x k = Some k' \<and> psets_inv others (X - {x}) k' \<and> flows none_new k k' \<and> k_ports k' = k_ports k"
proof -
  from ips_check_unlock_spec [OF inv s] obtain k' where
    C: "ips_check_unlock x k = Some k'" "psets_inv others (X - {x}) k'" "k_ports k' = k_ports k"
      "k_psets k' = (if members k x = {} \<and> others x = 0 then (k_psets k)(x := None) else k_psets k)"
      "k_events k' = k_events k" by blast
  have x: "x \<noteq> IPS_NULL" using psets_invD(2) [OF inv] s by auto
  have "queued k' b = queued k b" if r: "k_ports k b = Some r" for b r
  proof (rule queued_other [OF r])
    show "k_ports k' b = Some r" using r C(3) by simp
    fix t assume t: "ip_pset r \<noteq> IPS_NULL" "k_psets k (ip_pset r) = Some t"
    have "ip_pset r \<noteq> x \<or> members k x \<noteq> {}" using r by (auto simp: members_def)
    then show "\<exists>s'. k_psets k' (ip_pset r) = Some s' \<and>
        filter (\<lambda>m. msgh_remote_port m = b) (imq_messages (ips_messages s')) =
        filter (\<lambda>m. msgh_remote_port m = b) (imq_messages (ips_messages t))" using t C(4) by auto
  qed (use psets_invD(6) [OF inv r] in auto)
  then have "flows none_new k k'"
    unfolding flows_def using C(3,5) by (auto intro!: exI [of _ "[]"] simp: port_flows_refl)
  with C show ?thesis by blast
qed


lemma pset_move_flows:
  assumes inv: "psets_ok others k" and p: "k_ports k a = Some p"
    and n: "nset \<noteq> IPS_NULL \<Longrightarrow> k_psets k nset \<noteq> None \<and> card (members k nset) + others nset + 1 < 2 ^ 32"
  shows "\<exists>kr k'. ipc_pset_move a nset k = Some (kr, k') \<and> psets_ok others k' \<and> flows none_new k k'"
proof -
  let ?o = "ip_pset p"
  consider (same) "?o = nset" | (add) "?o \<noteq> nset" "?o = IPS_NULL"
    | (remove) "?o \<noteq> IPS_NULL" "nset = IPS_NULL" | (both) "?o \<noteq> nset" "?o \<noteq> IPS_NULL" "nset \<noteq> IPS_NULL" by blast
  then show ?thesis
  proof cases
    case same
    then show ?thesis using inv p by (simp add: ipc_pset_move_def flows_refl)
  next
    case add
    with n obtain s where s: "k_psets k nset = Some s" "card (members k nset) + others nset + 1 < 2 ^ 32" by auto
    from pset_add_flows [OF inv p add(2) s] add p show ?thesis by (auto simp: ipc_pset_move_def)
  next
    case remove
    from pset_remove_flows [OF inv p refl remove(1)] obtain s k1 s1 where r:
      "ipc_pset_remove ?o a k = Some k1" "psets_inv others (insert ?o {}) k1" "flows none_new k k1"
      "k_psets k1 = (k_psets k)(?o \<mapsto> s1)" by blast
    have s1: "k_psets k1 ?o = Some s1" using r(4) by simp
    show ?thesis
    proof (cases "ips_active s1")
      case True
      have "psets_ok others k1"
        by (rule psets_inv_except [OF r(2)]) (use s1 psets_invD(13) [OF r(2) s1 True] in auto)
      with r remove p s1 True show ?thesis by (auto simp: ipc_pset_move_def)
    next
      case False
      from check_unlock_flows [OF r(2) s1] obtain k2 where
        "ips_check_unlock ?o k1 = Some k2" "psets_inv others (insert ?o {} - {?o}) k2" "flows none_new k1 k2" by blast
      with r remove p s1 False flows_trans [OF r(3)] show ?thesis by (auto simp: ipc_pset_move_def)
    qed
  next
    case both
    with n obtain t where t: "k_psets k nset = Some t" "card (members k nset) + others nset + 1 < 2 ^ 32" by auto
    from pset_remove_flows [OF inv p refl both(2)] obtain s k1 p1 s1 where r:
      "ipc_pset_remove ?o a k = Some k1" "psets_inv others (insert ?o {}) k1" "flows none_new k k1"
      "k_ports k1 = (k_ports k)(a \<mapsto> p1)" "ip_pset p1 = IPS_NULL" "k_psets k1 = (k_psets k)(?o \<mapsto> s1)" by blast
    have p1: "k_ports k1 a = Some p1" using r(4) by simp
    have m: "members k1 nset = members k nset" using both p r(4,5) by (auto simp: members_def)
    have t1: "k_psets k1 nset = Some t" using r(6) t(1) both by simp
    have room: "card (members k1 nset) + others nset + 1 < 2 ^ 32" using t(2) m by simp
    from pset_add_flows [OF r(2) p1 r(5) t1 room] obtain k2 where a:
      "ipc_pset_add nset a k1 = Some k2" "psets_inv others (insert ?o {} - {nset}) k2" "flows none_new k1 k2"
      "dom (k_psets k2) = dom (k_psets k1)" by blast
    have "?o \<in> dom (k_psets k2)" unfolding a(4) r(6) by simp
    then obtain o2 where o2: "k_psets k2 ?o = Some o2" by blast
    from check_unlock_flows [OF a(2) o2] obtain k3 where c:
      "ips_check_unlock ?o k2 = Some k3" "psets_inv others (insert ?o {} - {nset} - {?o}) k3" "flows none_new k2 k3" by blast
    have "insert ?o {} - {nset} - {?o} = {}" by auto
    with c(2) have "psets_ok others k3" by simp
    moreover have "flows none_new k k3" by (rule flows_trans [OF flows_trans [OF r(3) a(3)] c(3)])
    ultimately show ?thesis using both p r(1) a(1) c(1) by (auto simp: ipc_pset_move_def)
  qed
qed

end
