(* ===== verification/Ipc_Message_System.thy ===== *)
theory Ipc_Message_System
  imports Ipc_Message_Flow "HOL-Library.Multiset"
begin

section \<open>Threads that send and receive\<close>

text \<open>
  The operations of \<open>ipc/ipc_mqueue.c\<close> as a transition system.  A state has the kernel, the arguments of
  the threads that are inside \<open>ipc_mqueue_send\<close> or \<open>ipc_mqueue_receive\<close> (blocked, or woken and about to
  run), and, for the statements only, the messages every port accepted, those that were received from
  it, and those that a sender was woken for and destroyed because they are circular.  A thread that was
  made runnable is an event \<open>Thread_Go\<close> of the kernel; when it runs, the event is taken away.  One step is what a thread does between two points where it can block.
\<close>

record msg_system =
  ms_kernel :: ipc_kernel
  ms_senders :: "addr \<Rightarrow> (ipc_kmsg \<times> u32 \<times> u32) option"
  ms_receivers :: "addr \<Rightarrow> (mqueue_ref \<times> u32 \<times> u32 \<times> u32) option"
  ms_sent :: "addr \<Rightarrow> ipc_kmsg list"
  ms_received :: "addr \<Rightarrow> (ipc_kmsg \<times> u32) list"
  ms_lost :: "addr \<Rightarrow> ipc_kmsg list"

definition calling :: "addr \<Rightarrow> ipc_thread" where
  "calling t = \<lparr>ith_addr = t, ith_state = MACH_MSG_SUCCESS, ith_msize = 0, ith_kmsg = None, ith_seqno = 0\<rparr>"

definition scheduled :: "ipc_thread \<Rightarrow> ipc_kernel \<Rightarrow> ipc_kernel" where
  "scheduled th k = k\<lparr>k_events := remove1 (Thread_Go th) (k_events k)\<rparr>"

text \<open>
  The messages that \<open>ipc_mqueue_send\<close> puts into a queue, those it destroys because they are circular
  although there is room, and the assertion it makes about the count.
\<close>

definition accepts :: "ipc_kmsg \<Rightarrow> u32 \<Rightarrow> ipc_kernel \<Rightarrow> bool" where
  "accepts kmsg option k \<longleftrightarrow>
     (case k_ports k (msgh_remote_port kmsg) of
        None \<Rightarrow> False
      | Some p \<Rightarrow> ip_active p \<and> send_room kmsg option p \<and> msgh_bits kmsg AND MACH_MSGH_BITS_CIRCULAR = 0)"

definition destroys :: "ipc_kmsg \<Rightarrow> u32 \<Rightarrow> ipc_kernel \<Rightarrow> bool" where
  "destroys kmsg option k \<longleftrightarrow>
     (case k_ports k (msgh_remote_port kmsg) of
        None \<Rightarrow> False
      | Some p \<Rightarrow> ip_active p \<and> send_room kmsg option p \<and> msgh_bits kmsg AND MACH_MSGH_BITS_CIRCULAR \<noteq> 0)"

definition count_fits :: "ipc_kmsg \<Rightarrow> ipc_kernel \<Rightarrow> bool" where
  "count_fits kmsg k \<longleftrightarrow>
     (case k_ports k (msgh_remote_port kmsg) of None \<Rightarrow> True | Some p \<Rightarrow> 0 < ip_msgcount p + 1)"

definition send_done ::
    "addr \<Rightarrow> ipc_kmsg \<Rightarrow> u32 \<Rightarrow> u32 \<Rightarrow> send_outcome \<Rightarrow> ipc_kernel \<Rightarrow> msg_system \<Rightarrow> msg_system" where
  "send_done t kmsg option timeout out k s =
     s\<lparr>ms_kernel := k,
       ms_senders := (ms_senders s)(t := if out = Send_Block then Some (kmsg, option, timeout) else None),
       ms_sent := (let a = msgh_remote_port kmsg
                   in (ms_sent s)(a := ms_sent s a @ (if accepts kmsg option (ms_kernel s) then [kmsg] else [])))\<rparr>"

definition lost ::
    "ipc_kmsg \<Rightarrow> u32 \<Rightarrow> ipc_kernel \<Rightarrow> (addr \<Rightarrow> ipc_kmsg list) \<Rightarrow> addr \<Rightarrow> ipc_kmsg list" where
  "lost kmsg option k l =
     (let a = msgh_remote_port kmsg in l(a := l a @ (if destroys kmsg option k then [kmsg] else [])))"

text \<open>What a receiver leaves behind.\<close>

definition got :: "receive_outcome \<Rightarrow> (addr \<Rightarrow> (ipc_kmsg \<times> u32) list) \<Rightarrow> addr \<Rightarrow> (ipc_kmsg \<times> u32) list" where
  "got out received =
     (case out of
        Received m seqno \<Rightarrow> received(msgh_remote_port m := received (msgh_remote_port m) @ [(m, seqno)])
      | _ \<Rightarrow> received)"

definition receive_done ::
    "addr \<Rightarrow> mqueue_ref \<Rightarrow> u32 \<Rightarrow> u32 \<Rightarrow> u32 \<Rightarrow> receive_outcome \<Rightarrow> ipc_kernel \<Rightarrow> msg_system \<Rightarrow> msg_system" where
  "receive_done t mq option max_size timeout out k s =
     s\<lparr>ms_kernel := k,
       ms_receivers := (ms_receivers s)(t := if out = Receive_Block then Some (mq, option, max_size, timeout) else None),
       ms_received := got out (ms_received s)\<rparr>"

text \<open>
  A caller of \<open>ipc_mqueue_receive\<close> has the queue from \<open>ipc_mqueue_copyin\<close>: it is that of a port which is
  in no set, or of a set.
\<close>

fun receivable :: "mqueue_ref \<Rightarrow> ipc_kernel \<Rightarrow> bool" where
  "receivable (Port_Queue a) k \<longleftrightarrow> (case k_ports k a of None \<Rightarrow> False | Some p \<Rightarrow> ip_pset p = IPS_NULL)"
| "receivable (Pset_Queue a) k \<longleftrightarrow> k_psets k a \<noteq> None"

inductive msg_step :: "(addr \<Rightarrow> nat) \<Rightarrow> msg_system \<Rightarrow> msg_system \<Rightarrow> bool" for others where
  Send:
    "\<lbrakk>ms_senders s t = None; ms_receivers s t = None;
      k_ports (ms_kernel s) (msgh_remote_port kmsg) \<noteq> None;
      count_fits kmsg (ms_kernel s);
      send_round (calling t) kmsg option timeout (ms_kernel s) = Some (out, k)\<rbrakk>
     \<Longrightarrow> msg_step others s (send_done t kmsg option timeout out k s)"
| Send_Woken:
    "\<lbrakk>Thread_Go th \<in> set (k_events (ms_kernel s)); ith_state th = MACH_MSG_SUCCESS; ith_kmsg th = None;
      ms_senders s (ith_addr th) = Some (kmsg, option, timeout); count_fits kmsg (ms_kernel s);
      send_resume th THREAD_AWAKENED kmsg option timeout (scheduled th (ms_kernel s)) = Some (out, k)\<rbrakk>
     \<Longrightarrow> msg_step others s ((send_done (ith_addr th) kmsg option timeout out k s)
           \<lparr>ms_lost := lost kmsg option (ms_kernel s) (ms_lost s)\<rparr>)"
| Send_Timed_Out:
    "\<lbrakk>k_ports (ms_kernel s) (msgh_remote_port kmsg) = Some p; th \<in> set (ip_blocked p);
      ms_senders s (ith_addr th) = Some (kmsg, option, timeout); option AND MACH_SEND_TIMEOUT \<noteq> 0;
      count_fits kmsg (ms_kernel s);
      send_resume th THREAD_TIMED_OUT kmsg option timeout (ms_kernel s) = Some (out, k)\<rbrakk>
     \<Longrightarrow> msg_step others s (send_done (ith_addr th) kmsg option 0 out k s)"
| Send_Interrupted:
    "\<lbrakk>k_ports (ms_kernel s) (msgh_remote_port kmsg) = Some p; th \<in> set (ip_blocked p);
      ms_senders s (ith_addr th) = Some (kmsg, option, timeout); result \<in> {THREAD_INTERRUPTED, THREAD_SHOULD_TERMINATE};
      send_resume th result kmsg option timeout (ms_kernel s) = Some (out, k)\<rbrakk>
     \<Longrightarrow> msg_step others s (s\<lparr>ms_kernel := k, ms_senders := (ms_senders s)(ith_addr th := None)\<rparr>)"
| Receive:
    "\<lbrakk>ms_senders s t = None; ms_receivers s t = None; receivable mq (ms_kernel s);
      receive_round mq (calling t) option max_size timeout (ms_kernel s) = Some (out, k)\<rbrakk>
     \<Longrightarrow> msg_step others s (receive_done t mq option max_size timeout out k s)"
| Receive_Woken:
    "\<lbrakk>Thread_Go th \<in> set (k_events (ms_kernel s)); ms_receivers s (ith_addr th) = Some (mq, option, max_size, timeout);
      ith_state th \<in> {MACH_MSG_SUCCESS, MACH_RCV_TOO_LARGE, MACH_RCV_PORT_DIED, MACH_RCV_PORT_CHANGED};
      ith_state th = MACH_MSG_SUCCESS \<Longrightarrow> ith_kmsg th \<noteq> None;
      receive_resume mq th THREAD_AWAKENED option max_size timeout (scheduled th (ms_kernel s)) = Some (out, k)\<rbrakk>
     \<Longrightarrow> msg_step others s (receive_done (ith_addr th) mq option max_size timeout out k s)"
| Receive_Unblocked:
    "\<lbrakk>get_queue mq (ms_kernel s) = Some q; th \<in> set (imq_threads q); ith_state th = MACH_RCV_IN_PROGRESS;
      ms_receivers s (ith_addr th) = Some (mq, option, max_size, timeout);
      result \<in> {THREAD_TIMED_OUT, THREAD_INTERRUPTED, THREAD_SHOULD_TERMINATE};
      receive_resume mq th result option max_size timeout (ms_kernel s) = Some (out, k)\<rbrakk>
     \<Longrightarrow> msg_step others s (receive_done (ith_addr th) mq option max_size 0 out k s)"
| Set_Qlimit:
    "\<lbrakk>ipc_port_set_qlimit a qlimit (ms_kernel s) = Some k; qlimit < 2 ^ 16\<rbrakk>
     \<Longrightarrow> msg_step others s (s\<lparr>ms_kernel := k\<rparr>)"
| Move:
    "\<lbrakk>k_ports (ms_kernel s) a \<noteq> None;
      nset \<noteq> IPS_NULL \<Longrightarrow> k_psets (ms_kernel s) nset \<noteq> None \<and> card (members (ms_kernel s) nset) + others nset + 1 < 2 ^ 32;
      ipc_pset_move a nset (ms_kernel s) = Some (kr, k)\<rbrakk>
     \<Longrightarrow> msg_step others s (s\<lparr>ms_kernel := k\<rparr>)"

text \<open>The start: nobody sends or receives, and the ports have the messages counted that wait.\<close>

definition quiet_kernel :: "ipc_kernel \<Rightarrow> bool" where
  "quiet_kernel k \<longleftrightarrow>
     (\<forall>th. Thread_Go th \<notin> set (k_events k)) \<and>
     (\<forall>a p. k_ports k a = Some p \<longrightarrow> ip_active p \<and> ip_blocked p = [] \<and> unat (ip_msgcount p) = length (queued k a))"

definition start :: "ipc_kernel \<Rightarrow> msg_system" where
  "start k = \<lparr>ms_kernel = k, ms_senders = Map.empty, ms_receivers = Map.empty, ms_sent = queued k,
     ms_received = (\<lambda>_. []), ms_lost = (\<lambda>_. [])\<rparr>"

definition seqno_at :: "ipc_kernel \<Rightarrow> addr \<Rightarrow> u32" where
  "seqno_at k a = (case k_ports k a of None \<Rightarrow> 0 | Some p \<Rightarrow> ip_seqno p)"

subsection \<open>The invariant\<close>

text \<open>The senders that were woken and have not run yet.\<close>

fun sender_of :: "(addr \<Rightarrow> (ipc_kmsg \<times> u32 \<times> u32) option) \<Rightarrow> addr \<Rightarrow> ipc_event \<Rightarrow> addr list" where
  "sender_of T a (Thread_Go th) =
     (if ith_state th = MACH_MSG_SUCCESS \<and> ith_kmsg th = None
      then case T (ith_addr th) of
             None \<Rightarrow> []
           | Some (m, _) \<Rightarrow> if msgh_remote_port m = a then [ith_addr th] else []
      else [])"
| "sender_of T a _ = []"

definition woken_senders :: "(addr \<Rightarrow> (ipc_kmsg \<times> u32 \<times> u32) option) \<Rightarrow> ipc_event list \<Rightarrow> addr \<Rightarrow> addr list" where
  "woken_senders T evs a = concat (map (sender_of T a) evs)"

text \<open>A message that was received has lost its msg-accepted request.\<close>

abbreviation without_request :: "ipc_kmsg \<Rightarrow> ipc_kmsg" where
  "without_request m \<equiv> m\<lparr>ikm_marequest := 0\<rparr>"

text \<open>
  The order of the messages of a port: those that wait are the last ones it accepted, and those that
  were received or handed over are the first ones, with consecutive sequence numbers.
\<close>

definition in_order ::
    "u32 \<Rightarrow> ipc_kmsg list \<Rightarrow> (ipc_kmsg \<times> u32) list \<Rightarrow> (ipc_kmsg \<times> u32) list \<Rightarrow> ipc_kmsg list \<Rightarrow> ipc_port \<Rightarrow> bool" where
  "in_order s0 sent received given waiting p \<longleftrightarrow>
     (\<exists>n\<le>length sent. waiting = drop n sent \<and> ip_seqno p = s0 + of_nat n \<and>
        mset received + mset (map (map_prod without_request id) given) =
          mset (numbered s0 (take n (map without_request sent)))) \<and>
     length received \<le> length sent \<and> unat (ip_msgcount p) = length sent - length received"

text \<open>
  The blocked senders of a port, and why they wait: the queue is full, or a sender was woken for every
  place but \<open>d\<close>: those that a woken sender left free, and one more in the middle of a step.
\<close>

definition senders_wait ::
    "(addr \<Rightarrow> (ipc_kmsg \<times> u32 \<times> u32) option) \<Rightarrow> ipc_event list \<Rightarrow> addr \<Rightarrow> nat \<Rightarrow> ipc_port \<Rightarrow> bool" where
  "senders_wait T evs a d p \<longleftrightarrow>
     distinct (map ith_addr (ip_blocked p) @ woken_senders T evs a) \<and>
     (\<forall>th\<in>set (ip_blocked p). ith_kmsg th = None \<and> ith_state th = MACH_SEND_IN_PROGRESS \<and>
        (\<exists>m opt to. T (ith_addr th) = Some (m, opt, to) \<and> msgh_remote_port m = a)) \<and>
     (ip_blocked p \<noteq> [] \<longrightarrow> unat (ip_qlimit p) \<le> unat (ip_msgcount p) + length (woken_senders T evs a) + d)"

definition sys_inv ::
    "(addr \<Rightarrow> nat) \<Rightarrow> (addr \<Rightarrow> u32) \<Rightarrow> (addr \<Rightarrow> nat) \<Rightarrow> ipc_kernel \<Rightarrow> (addr \<Rightarrow> (ipc_kmsg \<times> u32 \<times> u32) option)
      \<Rightarrow> (addr \<Rightarrow> ipc_kmsg list) \<Rightarrow> (addr \<Rightarrow> (ipc_kmsg \<times> u32) list) \<Rightarrow> bool" where
  "sys_inv others s0 D k T sent received \<longleftrightarrow>
     psets_ok others k \<and>
     (\<forall>t m opt to. T t = Some (m, opt, to) \<longrightarrow>
        k_ports k (msgh_remote_port m) \<noteq> None) \<and>
     (\<forall>th. Thread_Go th \<in> set (k_events k) \<longrightarrow> ith_state th = MACH_MSG_SUCCESS \<longrightarrow> ith_kmsg th = None \<longrightarrow>
        T (ith_addr th) \<noteq> None) \<and>
     (\<forall>a p. k_ports k a = Some p \<longrightarrow> ip_active p \<and> senders_wait T (k_events k) a (D a) p \<and>
        in_order (s0 a) (sent a) (received a) (handed (k_events k) a) (queued k a) p)"

abbreviation msg_inv :: "(addr \<Rightarrow> nat) \<Rightarrow> (addr \<Rightarrow> u32) \<Rightarrow> msg_system \<Rightarrow> bool" where
  "msg_inv others s0 s \<equiv> sys_inv others s0 (\<lambda>a. length (ms_lost s a)) (ms_kernel s) (ms_senders s) (ms_sent s) (ms_received s)"

lemma sys_invI:
  assumes "psets_ok others k"
    and "\<And>t m opt to. T t = Some (m, opt, to) \<Longrightarrow>
      k_ports k (msgh_remote_port m) \<noteq> None"
    and "\<And>th. Thread_Go th \<in> set (k_events k) \<Longrightarrow> ith_state th = MACH_MSG_SUCCESS \<Longrightarrow> ith_kmsg th = None \<Longrightarrow>
      T (ith_addr th) \<noteq> None"
    and "\<And>a p. k_ports k a = Some p \<Longrightarrow> ip_active p \<and> senders_wait T (k_events k) a (D a) p \<and>
      in_order (s0 a) (sent a) (received a) (handed (k_events k) a) (queued k a) p"
  shows "sys_inv others s0 D k T sent received"
  using assms unfolding sys_inv_def by blast

lemma sys_invD:
  assumes "sys_inv others s0 D k T sent received"
  shows "psets_ok others k"
    and "T t = Some (m, opt, to) \<Longrightarrow> k_ports k (msgh_remote_port m) \<noteq> None"
    and "Thread_Go th \<in> set (k_events k) \<Longrightarrow> ith_state th = MACH_MSG_SUCCESS \<Longrightarrow> ith_kmsg th = None \<Longrightarrow>
      T (ith_addr th) \<noteq> None"
    and "k_ports k a = Some p \<Longrightarrow> ip_active p"
    and "k_ports k a = Some p \<Longrightarrow> senders_wait T (k_events k) a (D a) p"
    and "k_ports k a = Some p \<Longrightarrow> in_order (s0 a) (sent a) (received a) (handed (k_events k) a) (queued k a) p"
  using assms unfolding sys_inv_def by blast+

lemma start_inv:
  assumes "psets_ok others k" and "quiet_kernel k"
  shows "msg_inv others (seqno_at k) (start k)"
proof -
  have none: "Thread_Go th \<notin> set (k_events k)" for th using assms(2) by (simp add: quiet_kernel_def)
  have no: "handed_by e = []" "sender_of T a e = []" if "\<forall>th. e \<noteq> Thread_Go th" for e T a
    using that by (cases e; simp)+
  have "\<forall>e\<in>set (k_events k). \<forall>th. e \<noteq> Thread_Go th" using none by metis
  then have h: "handed (k_events k) a = []" and w: "woken_senders T (k_events k) a = []" for a T
    by (simp_all add: handed_def woken_senders_def no cong: map_cong)
  show ?thesis
  proof (rule sys_invI)
    fix a p assume "k_ports (ms_kernel (start k)) a = Some p"
    then have p: "k_ports k a = Some p" by (simp add: start_def)
    with assms(2) have q: "ip_active p" "ip_blocked p = []" "unat (ip_msgcount p) = length (queued k a)"
      by (auto simp: quiet_kernel_def)
    have "in_order (seqno_at k a) (queued k a) [] [] (queued k a) p"
      using p q(3) unfolding in_order_def by (intro conjI exI [of _ 0]) (simp_all add: seqno_at_def)
    then show "ip_active p \<and> senders_wait (ms_senders (start k)) (k_events (ms_kernel (start k))) a (length (ms_lost (start k) a)) p \<and>
      in_order (seqno_at k a) (ms_sent (start k) a) (ms_received (start k) a)
        (handed (k_events (ms_kernel (start k))) a) (queued (ms_kernel (start k)) a) p"
      using q w h by (simp add: start_def senders_wait_def)
  qed (use assms(1) none in \<open>simp_all add: start_def\<close>)
qed

subsection \<open>Lists\<close>

lemma map_numbered: "map (map_prod f id) (numbered s xs) = numbered s (map f xs)"
  by (induction xs arbitrary: s) auto

lemma length_numbered [simp]: "length (numbered s xs) = length xs"
  by (induction xs arbitrary: s) auto

lemma mset_concat_remove1:
  "x \<in> set xs \<Longrightarrow> mset (concat (map f xs)) = mset (f x) + mset (concat (map f (remove1 x xs)))"
  by (induction xs) auto

lemma in_order_length:
  assumes "in_order s0 sent received given waiting p"
  shows "length received + length given + length waiting = length sent"
proof -
  from assms obtain n where n: "n \<le> length sent" "waiting = drop n sent"
      "mset received + mset (map (map_prod without_request id) given) = mset (numbered s0 (take n (map without_request sent)))"
    by (auto simp: in_order_def)
  from arg_cong [OF n(3), of size] n(1,2) show ?thesis by simp
qed

lemma in_order_flow:
  assumes "in_order s0 sent received given waiting p" and "port_flows (waiting @ new) waiting' given' p p'"
    and count: "unat (ip_msgcount p') = unat (ip_msgcount p) + length new"
  shows "in_order s0 (sent @ new) received (given @ given') waiting' p'"
proof -
  let ?c = "map without_request"
  from assms(1) obtain n where n: "n \<le> length sent" "waiting = drop n sent" "ip_seqno p = s0 + of_nat n"
      "mset received + mset (map (map_prod without_request id) given) = mset (numbered s0 (take n (?c sent)))"
      "length received \<le> length sent" "unat (ip_msgcount p) = length sent - length received"
    by (auto simp: in_order_def)
  from assms(2) obtain j where j: "j \<le> length (waiting @ new)" "waiting' = drop j (waiting @ new)"
      "ip_seqno p' = ip_seqno p + of_nat j" "given' = numbered (ip_seqno p) (take j (waiting @ new))"
    by (auto simp: port_flows_def)
  have all: "waiting @ new = drop n (sent @ new)" using n(1,2) by simp
  have "numbered s0 (take (n + j) (?c (sent @ new))) =
      numbered s0 (take n (?c (sent @ new))) @ numbered (s0 + of_nat n) (take j (drop n (?c (sent @ new))))"
    using n(1) by (intro numbered_take_add [symmetric]) simp
  also have "take n (?c (sent @ new)) = take n (?c sent)" using n(1) by simp
  also have "numbered (s0 + of_nat n) (take j (drop n (?c (sent @ new)))) = map (map_prod without_request id) given'"
    by (simp only: map_numbered j(4) all n(3) take_map drop_map)
  finally have num: "numbered s0 (take (n + j) (?c (sent @ new))) =
      numbered s0 (take n (?c sent)) @ map (map_prod without_request id) given'" .
  show ?thesis
    unfolding in_order_def
  proof (intro conjI exI [of _ "n + j"])
    show "n + j \<le> length (sent @ new)" using j(1) n(1,2) by simp
    show "waiting' = drop (n + j) (sent @ new)" unfolding j(2) all by (simp only: drop_drop add.commute)
    show "ip_seqno p' = s0 + of_nat (n + j)" using j(3) n(3) by simp
    show "mset received + mset (map (map_prod without_request id) (given @ given')) =
        mset (numbered s0 (take (n + j) (?c (sent @ new))))"
      unfolding num using n(4) by simp
    show "length received \<le> length (sent @ new)" "unat (ip_msgcount p') = length (sent @ new) - length received"
      using n(5,6) count by simp_all
  qed
qed

text \<open>A receiver takes the first message that waits.\<close>

lemma in_order_take:
  assumes ord: "in_order s0 sent received given (m # waiting) p" and s: "ip_seqno p' = ip_seqno p + 1"
    and count: "unat (ip_msgcount p') = unat (ip_msgcount p) - 1"
  shows "in_order s0 sent (received @ [(without_request m, ip_seqno p)]) given waiting p'"
proof -
  from ord obtain n where n: "n \<le> length sent" "m # waiting = drop n sent" "ip_seqno p = s0 + of_nat n"
      "mset received + mset (map (map_prod without_request id) given) = mset (numbered s0 (take n (map without_request sent)))"
      "length received \<le> length sent" "unat (ip_msgcount p) = length sent - length received"
    by (auto simp: in_order_def)
  have l: "n < length sent" using n(2) by (metis drop_all list.distinct(1) not_le)
  then have m: "sent ! n = m" "waiting = drop (Suc n) sent" using n(2) by (auto simp: Cons_nth_drop_Suc [symmetric])
  show ?thesis
    unfolding in_order_def
  proof (intro conjI exI [of _ "Suc n"])
    show "mset (received @ [(without_request m, ip_seqno p)]) + mset (map (map_prod without_request id) given) =
        mset (numbered s0 (take (Suc n) (map without_request sent)))"
      using l n(3,4) m(1) by (simp add: take_Suc_conv_app_nth numbered_append)
    show "ip_seqno p' = s0 + of_nat (Suc n)" using s n(3) by simp
    show "length (received @ [(without_request m, ip_seqno p)]) \<le> length sent"
      using in_order_length [OF ord] by simp
  qed (use l m n(6) count in auto)
qed

text \<open>A receiver picks up the message it was given.\<close>

lemma in_order_finish:
  assumes ord: "in_order s0 sent received given waiting p" and g: "mset given = add_mset (m, sq) (mset given')"
    and s: "ip_seqno p' = ip_seqno p" and count: "unat (ip_msgcount p') = unat (ip_msgcount p) - 1"
  shows "in_order s0 sent (received @ [(without_request m, sq)]) given' waiting p'"
proof -
  from ord obtain n where n: "n \<le> length sent" "waiting = drop n sent" "ip_seqno p = s0 + of_nat n"
      "mset received + mset (map (map_prod without_request id) given) = mset (numbered s0 (take n (map without_request sent)))"
      "unat (ip_msgcount p) = length sent - length received"
    by (auto simp: in_order_def)
  have gm: "mset (map (map_prod without_request id) given) =
      add_mset (without_request m, sq) (mset (map (map_prod without_request id) given'))"
    using g by simp
  have "length given = Suc (length given')" using arg_cong [OF g, of size] by simp
  then have "Suc (length received) \<le> length sent" using in_order_length [OF ord] by simp
  then show ?thesis
    unfolding in_order_def using n gm s count by (intro conjI exI [of _ n]) simp_all
qed


subsection \<open>The senders that will run\<close>

lemma woken_senders_append [simp]: "woken_senders T (xs @ ys) a = woken_senders T xs a @ woken_senders T ys a"
  by (simp add: woken_senders_def)

lemma woken_senders_Nil [simp]: "woken_senders T [] a = []" by (simp add: woken_senders_def)

lemma sender_of_receivers: "receivers_only w \<Longrightarrow> woken_senders T (map Thread_Go w) a = []"
  by (auto simp: woken_senders_def receivers_only_def)

lemma woken_sendersI:
  assumes "Thread_Go th \<in> set evs" and "ith_state th = MACH_MSG_SUCCESS" and "ith_kmsg th = None"
    and "T (ith_addr th) = Some (m, opt, to)"
  shows "ith_addr th \<in> set (woken_senders T evs (msgh_remote_port m))"
proof -
  have "ith_addr th \<in> set (sender_of T (msgh_remote_port m) (Thread_Go th))" using assms(2-4) by simp
  with assms(1) show ?thesis unfolding woken_senders_def set_concat set_map by blast
qed

lemma woken_sendersE:
  assumes "t \<in> set (woken_senders T evs a)"
  obtains th m opt to where "Thread_Go th \<in> set evs" "ith_addr th = t" "ith_state th = MACH_MSG_SUCCESS" "ith_kmsg th = None"
    "T t = Some (m, opt, to)" "msgh_remote_port m = a"
proof -
  from assms obtain e where e: "e \<in> set evs" "t \<in> set (sender_of T a e)"
    unfolding woken_senders_def set_concat set_map by blast
  have "sender_of T a e = []" if "\<forall>th. e \<noteq> Thread_Go th" using that by (cases e; simp)
  with e(2) have "\<not> (\<forall>th. e \<noteq> Thread_Go th)" by (metis empty_iff list.set(1))
  then obtain th where th: "e = Thread_Go th" by blast
  have c: "ith_state th = MACH_MSG_SUCCESS \<and> ith_kmsg th = None" using e(2) th by (rule_tac ccontr) simp
  then obtain x where x: "T (ith_addr th) = Some x" using e(2) th by (cases "T (ith_addr th)") simp_all
  obtain m opt to where m: "x = (m, opt, to)" by (cases x)
  have "msgh_remote_port m = a \<and> ith_addr th = t" using e(2) th c x m by (cases "msgh_remote_port m = a") simp_all
  with e(1) th c x m show thesis by (intro that) auto
qed

lemma woken_senders_upd:
  assumes "\<And>th. Thread_Go th \<in> set evs \<Longrightarrow> ith_state th = MACH_MSG_SUCCESS \<Longrightarrow> ith_kmsg th = None \<Longrightarrow> ith_addr th \<noteq> t"
  shows "woken_senders (T(t := v)) evs a = woken_senders T evs a"
proof -
  have "sender_of (T(t := v)) a e = sender_of T a e" if "e \<in> set evs" for e
    using assms that by (cases e) auto
  then show ?thesis by (simp add: woken_senders_def cong: map_cong)
qed

text \<open>Events that wake nobody.\<close>

definition wakes_none :: "ipc_event list \<Rightarrow> bool" where
  "wakes_none evs \<longleftrightarrow> (\<forall>th. Thread_Go th \<notin> set evs)"

lemma wakes_none_events:
  assumes "wakes_none evs"
  shows "handed evs a = []" "woken_senders T evs a = []"
proof -
  have no: "handed_by e = []" "sender_of T a e = []" if "\<forall>th. e \<noteq> Thread_Go th" for e
    using that by (cases e; simp)+
  have "\<forall>e\<in>set evs. \<forall>th. e \<noteq> Thread_Go th" using assms by (auto simp: wakes_none_def)
  then show "handed evs a = []" "woken_senders T evs a = []"
    by (simp_all add: handed_def woken_senders_def no cong: map_cong)
qed

subsection \<open>Steps that move messages\<close>

lemma senders_wait_mono:
  assumes "senders_wait T evs a d p" and "ip_blocked p' = ip_blocked p" and "ip_qlimit p' = ip_qlimit p"
    and "unat (ip_msgcount p) + d \<le> unat (ip_msgcount p') + d'" and "woken_senders T evs' a = woken_senders T evs a"
  shows "senders_wait T evs' a d' p'"
  using assms by (auto simp: senders_wait_def)

lemma sys_inv_flows:
  assumes inv: "sys_inv others s0 D k T sent received" and fl: "flows new k k'" and ps: "psets_ok others k'"
    and count: "\<And>a p. k_ports k a = Some p \<Longrightarrow>
      unat (ip_msgcount p + of_nat (length (new a))) = unat (ip_msgcount p) + length (new a) \<and> D a \<le> D' a + length (new a)"
  shows "sys_inv others s0 D' k' T (\<lambda>a. sent a @ new a) received"
proof -
  note I = sys_invD [OF inv]
  from fl obtain w where w: "receivers_only w" "k_events k' = k_events k @ map Thread_Go w" "dom (k_ports k') = dom (k_ports k)"
      "\<And>a p p'. k_ports k a = Some p \<Longrightarrow> k_ports k' a = Some p' \<Longrightarrow> ip_msgcount p' = ip_msgcount p + of_nat (length (new a)) \<and>
         port_flows (queued k a @ new a) (queued k' a) (handed (map Thread_Go w) a) p p'"
    by (auto simp: flows_def)
  show ?thesis
  proof (rule sys_invI)
    show "psets_ok others k'" by (fact ps)
    show "k_ports k' (msgh_remote_port m) \<noteq> None"
      if "T t = Some (m, opt, to)" for t m opt to
      using I(2) [OF that] w(3) by (auto simp: dom_def set_eq_iff)
    show "T (ith_addr th) \<noteq> None"
      if "Thread_Go th \<in> set (k_events k')" "ith_state th = MACH_MSG_SUCCESS" "ith_kmsg th = None" for th
      using that I(3) [of th] w(1,2) by (auto simp: receivers_only_def)
    fix a p' assume p': "k_ports k' a = Some p'"
    then obtain p where p: "k_ports k a = Some p" using w(3) by blast
    from w(4) [OF p p'] have f: "ip_msgcount p' = ip_msgcount p + of_nat (length (new a))"
      "port_flows (queued k a @ new a) (queued k' a) (handed (map Thread_Go w) a) p p'" by auto
    from f(2) have sel: "ip_bits p' = ip_bits p" "ip_qlimit p' = ip_qlimit p" "ip_blocked p' = ip_blocked p"
      by (simp_all add: port_flows_def)
    have c: "unat (ip_msgcount p') = unat (ip_msgcount p) + length (new a)" using count [OF p] f(1) by simp
    have "senders_wait T (k_events k') a (D' a) p'"
      by (rule senders_wait_mono [OF I(5) [OF p] sel(3,2)])
        (use c count [OF p] in \<open>simp_all add: w(2) sender_of_receivers [OF w(1)]\<close>)
    moreover have "in_order (s0 a) (sent a @ new a) (received a) (handed (k_events k') a) (queued k' a) p'"
      using in_order_flow [OF I(6) [OF p] f(2) c] by (simp add: w(2))
    ultimately show "ip_active p' \<and> senders_wait T (k_events k') a (D' a) p' \<and>
        in_order (s0 a) (sent a @ new a) (received a) (handed (k_events k') a) (queued k' a) p'"
      using I(4) [OF p] sel(1) by simp
  qed
qed

text \<open>A change of one port that leaves its messages alone.\<close>

lemma queued_put:
  assumes "k_ports k a = Some p" and "k_ports k' = (k_ports k)(a \<mapsto> p')" and "k_psets k' = k_psets k"
    and "ip_pset p' = ip_pset p" and "imq_messages (ip_messages p') = imq_messages (ip_messages p)"
  shows "queued k' b = queued k b"
  using assms by (cases "b = a") (simp_all add: queued_def port_queue_def split: option.splits)

lemma sys_inv_port:
  assumes inv: "sys_inv others s0 D k T sent received" and p: "k_ports k a = Some p"
    and k': "k_ports k' = (k_ports k)(a \<mapsto> p')" "k_psets k' = k_psets k" "psets_ok others k'"
    and sel: "ip_bits p' = ip_bits p" "ip_pset p' = ip_pset p" "imq_messages (ip_messages p') = imq_messages (ip_messages p)"
      "ip_seqno p' = ip_seqno p" "ip_msgcount p' = ip_msgcount p"
    and ev: "\<And>b. mset (handed (k_events k') b) = mset (handed (k_events k) b)"
    and T': "\<And>t m opt to. T' t = Some (m, opt, to) \<Longrightarrow>
      k_ports k (msgh_remote_port m) \<noteq> None"
      "\<And>th. Thread_Go th \<in> set (k_events k') \<Longrightarrow> ith_state th = MACH_MSG_SUCCESS \<Longrightarrow> ith_kmsg th = None \<Longrightarrow>
        T' (ith_addr th) \<noteq> None"
    and wait: "\<And>b q. b \<noteq> a \<Longrightarrow> k_ports k b = Some q \<Longrightarrow> senders_wait T' (k_events k') b (D' b) q"
      "senders_wait T' (k_events k') a (D' a) p'"
  shows "sys_inv others s0 D' k' T' sent received"
proof (rule sys_invI)
  note I = sys_invD [OF inv]
  show "k_ports k' (msgh_remote_port m) \<noteq> None"
    if "T' t = Some (m, opt, to)" for t m opt to
    using T'(1) [OF that] k'(1) by auto
  have q: "queued k' b = queued k b" for b by (rule queued_put [OF p k'(1,2) sel(2,3)])
  fix b r assume r: "k_ports k' b = Some r"
  have same: "in_order s sn rv (handed (k_events k') b) w x \<longleftrightarrow> in_order s sn rv (handed (k_events k) b) w y"
    if "ip_seqno x = ip_seqno y" "ip_msgcount x = ip_msgcount y" for s sn rv w x y
    using that ev [of b] by (simp add: in_order_def)
  show "ip_active r \<and> senders_wait T' (k_events k') b (D' b) r \<and>
      in_order (s0 b) (sent b) (received b) (handed (k_events k') b) (queued k' b) r"
  proof (cases "b = a")
    case True
    with r k'(1) have "r = p'" by simp
    then show ?thesis using True I(4,6) [OF p] wait(2) sel same [of p' p] q by simp
  next
    case False
    with r k'(1) have "k_ports k b = Some r" by simp
    then show ?thesis using I(4,6) wait(1) [OF False] same [of r r] q by simp
  qed
qed (use k'(3) T'(2) in auto)


subsection \<open>Sending\<close>

lemma sys_inv_slack:
  assumes inv: "sys_inv others s0 D k T sent received"
    and full: "\<And>b p. k_ports k b = Some p \<Longrightarrow> D' b < D b \<Longrightarrow> ip_qlimit p \<le> ip_msgcount p"
  shows "sys_inv others s0 D' k T sent received"
proof (rule sys_invI)
  note I = sys_invD [OF inv]
  fix b p assume p: "k_ports k b = Some p"
  have "senders_wait T (k_events k) b (D' b) p"
    using I(5) [OF p] full [OF p] by (cases "D' b < D b") (auto simp: senders_wait_def word_le_nat_alt)
  then show "ip_active p \<and> senders_wait T (k_events k) b (D' b) p \<and>
      in_order (s0 b) (sent b) (received b) (handed (k_events k) b) (queued k b) p"
    using I(4,6) [OF p] by simp
qed (use sys_invD(1-3) [OF inv] in auto)

lemma psets_inv_cong:
  "k_ports k' = k_ports k \<Longrightarrow> k_psets k' = k_psets k \<Longrightarrow> psets_inv others X k' \<longleftrightarrow> psets_inv others X k"
  by (simp add: psets_inv_def members_def)

lemma queued_cong: "k_ports k' = k_ports k \<Longrightarrow> k_psets k' = k_psets k \<Longrightarrow> queued k' = queued k"
  by (rule ext) (simp add: queued_def port_queue_def split: option.splits)

text \<open>An event that wakes nobody.\<close>

lemma sys_inv_post:
  assumes inv: "sys_inv others s0 D k T sent received" and e: "\<And>th. e \<noteq> Thread_Go th"
  shows "sys_inv others s0 D (post e k) T sent received"
proof (rule sys_invI)
  note I = sys_invD [OF inv]
  have q: "queued (post e k) b = queued k b" for b by (rule fun_cong [OF queued_cong]) simp_all
  have w: "handed [e] b = []" "woken_senders T [e] b = []" for b
    using wakes_none_events [of "[e]"] e by (auto simp: wakes_none_def)
  fix b p assume "k_ports (post e k) b = Some p"
  then have p: "k_ports k b = Some p" by simp
  have "senders_wait T (k_events (post e k)) b (D b) p" using I(5) [OF p] w by (simp add: senders_wait_def)
  moreover have "handed (k_events (post e k)) b = handed (k_events k) b" using w by (simp add: handed_def)
  ultimately show "ip_active p \<and> senders_wait T (k_events (post e k)) b (D b) p \<and>
      in_order (s0 b) (sent b) (received b) (handed (k_events (post e k)) b) (queued (post e k) b) p"
    using I(4,6) [OF p] q by simp
next
  note I = sys_invD [OF inv]
  show "psets_ok others (post e k)" using I(1) by (simp add: psets_inv_def members_def)
  show "k_ports (post e k) (msgh_remote_port m) \<noteq> None" if "T t = Some (m, opt, to)" for t m opt to
    using I(2) [OF that] by simp
  show "T (ith_addr th) \<noteq> None" if "Thread_Go th \<in> set (k_events (post e k))" "ith_state th = MACH_MSG_SUCCESS" "ith_kmsg th = None" for th
    using that I(3) [of th] e by auto
qed

text \<open>A thread without arguments is nowhere.\<close>

lemma absent:
  assumes inv: "sys_inv others s0 D k T sent received" and t: "T t = None"
  shows "Thread_Go th \<in> set (k_events k) \<Longrightarrow> ith_state th = MACH_MSG_SUCCESS \<Longrightarrow> ith_kmsg th = None \<Longrightarrow> ith_addr th \<noteq> t"
    and "t \<notin> set (woken_senders T (k_events k) b)"
    and "k_ports k b = Some q \<Longrightarrow> t \<notin> set (map ith_addr (ip_blocked q))"
proof -
  show "Thread_Go th \<in> set (k_events k) \<Longrightarrow> ith_state th = MACH_MSG_SUCCESS \<Longrightarrow> ith_kmsg th = None \<Longrightarrow> ith_addr th \<noteq> t"
    using sys_invD(3) [OF inv] t by blast
  show "t \<notin> set (woken_senders T (k_events k) b)" using t by (auto elim: woken_sendersE)
  assume q: "k_ports k b = Some q"
  have "ith_addr th \<noteq> t" if "th \<in> set (ip_blocked q)" for th
    using sys_invD(5) [OF inv q] that t by (fastforce simp: senders_wait_def)
  then show "t \<notin> set (map ith_addr (ip_blocked q))" by auto
qed

lemma senders_wait_upd:
  assumes "senders_wait T evs b d q" and "woken_senders (T(t := v)) evs b = woken_senders T evs b"
    and "t \<notin> set (map ith_addr (ip_blocked q))"
  shows "senders_wait (T(t := v)) evs b d q"
proof -
  have "(T(t := v)) (ith_addr th) = T (ith_addr th)" if "th \<in> set (ip_blocked q)" for th using assms(3) that by auto
  then show ?thesis using assms(1,2) unfolding senders_wait_def by auto
qed

lemma sys_inv_forget:
  assumes inv: "sys_inv others s0 D k T sent received" and t: "T t = None"
  shows "sys_inv others s0 D k (T(t := None)) sent received"
  using inv t by (simp add: fun_upd_idem)

lemma send_block_inv:
  assumes inv: "sys_inv others s0 D k T sent received" and p: "k_ports k (msgh_remote_port m) = Some p"
    and D: "\<And>b. b \<noteq> msgh_remote_port m \<Longrightarrow> D b = L b" and t: "T (ith_addr self) = None" "ith_kmsg self = None"
    and full: "ip_qlimit p \<le> ip_msgcount p"
  shows "sys_inv others s0 L
    (put_port (msgh_remote_port m) (p\<lparr>ip_blocked := ip_blocked p @ [self\<lparr>ith_state := MACH_SEND_IN_PROGRESS\<rparr>]\<rparr>) k)
    (T(ith_addr self \<mapsto> (m, opt, to))) sent received"
    (is "sys_inv others s0 _ (put_port ?a ?p k) ?T sent received")
proof (rule sys_inv_port [OF inv p])
  note I = sys_invD [OF inv] and A = absent [OF inv t(1)]
  have w: "woken_senders ?T (k_events k) b = woken_senders T (k_events k) b" for b
    by (rule woken_senders_upd) (rule A(1))
  show "psets_ok others (put_port ?a ?p k)"
    by (rule psets_inv_port [OF I(1) p, where p' = ?p]) (use psets_invD(4,5) [OF I(1) p] in auto)
  show "senders_wait ?T (k_events (put_port ?a ?p k)) b (L b) q" if "b \<noteq> ?a" "k_ports k b = Some q" for b q
    using senders_wait_upd [OF I(5) [OF that(2)] w A(3) [OF that(2)]] D [OF that(1)] by simp
  show "senders_wait ?T (k_events (put_port ?a ?p k)) ?a (L ?a) ?p"
  proof -
    have s: "senders_wait ?T (k_events k) ?a (D ?a) p" by (rule senders_wait_upd [OF I(5) [OF p] w A(3) [OF p]])
    have "ith_addr self \<notin> set (woken_senders ?T (k_events k) ?a)" unfolding w by (rule A(2))
    moreover have "ith_addr self \<notin> set (map ith_addr (ip_blocked p))" by (rule A(3) [OF p])
    ultimately show ?thesis using s full t(2) unfolding senders_wait_def by (auto simp: word_le_nat_alt)
  qed
  show "k_ports k (msgh_remote_port m') \<noteq> None"
    if "?T u = Some (m', opt', to')" for u m' opt' to'
    using that I(2) p by (auto split: if_splits)
  show "?T (ith_addr th) \<noteq> None" if "Thread_Go th \<in> set (k_events (put_port ?a ?p k))" "ith_state th = MACH_MSG_SUCCESS"
      "ith_kmsg th = None" for th
    using that I(3) [of th] by auto
qed simp_all

lemma count_Suc: "0 < c + 1 \<Longrightarrow> unat (c + 1) = unat c + 1" for c :: "16 word"
proof -
  assume "0 < c + 1"
  then have "0 < (unat c + 1) mod 2 ^ 16" by (simp add: word_less_nat_alt unat_word_ariths)
  moreover have "unat c < 2 ^ LENGTH(16)" by (rule unsigned_less)
  ultimately have "unat c + 1 < 2 ^ 16" by (cases "unat c + 1 = 2 ^ 16") auto
  then show "unat (c + 1) = unat c + 1" by (simp add: unat_word_ariths)
qed

lemma send_round_inv:
  assumes inv: "sys_inv others s0 D k T sent received"
    and D: "\<And>b. D b \<le> L b + (if b = msgh_remote_port m then 1 else 0)" "destroys m opt k \<Longrightarrow> D (msgh_remote_port m) \<le> L (msgh_remote_port m)"
    and t: "T (ith_addr self) = None" "ith_kmsg self = None" and fits: "count_fits m k"
    and round: "send_round self m opt to k = Some (out, k')"
  shows "sys_inv others s0 L k' (T(ith_addr self := if out = Send_Block then Some (m, opt, to) else None))
    (sent(msgh_remote_port m := sent (msgh_remote_port m) @ (if accepts m opt k then [m] else []))) received"
proof -
  let ?a = "msgh_remote_port m"
  note I = sys_invD [OF inv]
  from round obtain p where p: "k_ports k ?a = Some p" by (auto simp: send_round_def Let_def bind_eq_Some_conv)
  have act: "ip_active p" by (rule I(4) [OF p])
  have D0: "D b \<le> L b" if "b \<noteq> ?a" for b using D(1) [of b] that by simp
  show ?thesis
  proof (cases "send_room m opt p")
    case False
    then have full: "ip_qlimit p \<le> ip_msgcount p" and no: "\<not> accepts m opt k" using p by (auto simp: send_room_def accepts_def)
    have invL: "sys_inv others s0 L k T sent received"
    proof (rule sys_inv_slack [OF inv])
      fix b q assume "k_ports k b = Some q" "L b < D b"
      with D0 [of b] full p show "ip_qlimit q \<le> ip_msgcount q" by (cases "b = ?a") auto
    qed
    show ?thesis
    proof (cases "opt AND MACH_SEND_TIMEOUT \<noteq> 0 \<and> to = 0")
      case True
      with round p act False have e: "out = Send_Return MACH_SEND_TIMED_OUT" "k' = k"
        by (auto simp: send_round_def Let_def)
      show ?thesis using invL no t by (simp add: e fun_upd_idem)
    next
      case go: False
      with round p act False have "out = Send_Block"
        "k' = put_port ?a (p\<lparr>ip_blocked := ip_blocked p @ [self\<lparr>ith_state := MACH_SEND_IN_PROGRESS\<rparr>]\<rparr>) k"
        by (auto simp: send_round_def Let_def)
      with send_block_inv [OF invL p refl t full] no show ?thesis by simp
    qed
  next
    case room: True
    show ?thesis
    proof (cases "msgh_bits m AND MACH_MSGH_BITS_CIRCULAR = 0")
      case False
      then have d: "destroys m opt k" and no: "\<not> accepts m opt k" using p act room by (simp_all add: destroys_def accepts_def)
      have e: "out = Send_Return MACH_MSG_SUCCESS" "k' = post (Kmsg_Destroy m) k"
        using round p act room False by (auto simp: send_round_def Let_def)
      have "sys_inv others s0 L k T sent received"
      proof (rule sys_inv_slack [OF inv])
        fix b q assume "L b < D b"
        with D0 [of b] D(2) [OF d] show "ip_qlimit q \<le> ip_msgcount q" by (cases "b = ?a") auto
      qed
      then have "sys_inv others s0 L k' T sent received" unfolding e by (rule sys_inv_post) simp
      then show ?thesis using no t by (simp add: e fun_upd_idem)
    next
    case m: True
    with p act room have yes: "accepts m opt k" by (simp add: accepts_def)
    from mqueue_enter_flows [OF I(1) p refl] obtain k1 where
      k1: "mqueue_enter ?a m k = Some k1" "psets_ok others k1" "flows (none_new(?a := [m])) k k1" by blast
    with round p act room m have e: "out = Send_Return MACH_MSG_SUCCESS" "k' = k1" by (auto simp: send_round_def Let_def)
    have one: "unat (ip_msgcount p + 1) = unat (ip_msgcount p) + 1"
      using fits p count_Suc by (simp add: count_fits_def)
    have "sys_inv others s0 L k' T (\<lambda>b. sent b @ (none_new(?a := [m])) b) received"
      unfolding e by (rule sys_inv_flows [OF inv k1(3,2)]) (use p one D(1) [of ?a] D0 in \<open>auto split: if_splits\<close>)
    moreover have "(\<lambda>b. sent b @ (none_new(?a := [m])) b) = sent(?a := sent ?a @ [m])" by auto
    ultimately show ?thesis using yes t by (simp add: e fun_upd_idem)
    qed
  qed
qed


subsection \<open>Senders that run again\<close>

lemma scheduled_sel [simp]:
  "k_ports (scheduled th k) = k_ports k" "k_psets (scheduled th k) = k_psets k"
  "k_events (scheduled th k) = remove1 (Thread_Go th) (k_events k)"
  by (simp_all add: scheduled_def)

lemma scheduled_queues [simp]:
  "queued (scheduled th k) = queued k" "psets_inv others X (scheduled th k) \<longleftrightarrow> psets_inv others X k"
  by (rule queued_cong psets_inv_cong; simp)+

lemma handed_remove1:
  assumes "Thread_Go th \<in> set evs"
  shows "mset (handed evs b) =
    mset (filter (\<lambda>(m, _). msgh_remote_port m = b) (handed_by (Thread_Go th))) + mset (handed (remove1 (Thread_Go th) evs) b)"
  using mset_concat_remove1 [OF assms, of handed_by] unfolding handed_def mset_filter by simp

lemma woken_senders_remove1:
  assumes "Thread_Go th \<in> set evs"
  shows "mset (woken_senders T evs b) =
    mset (sender_of T b (Thread_Go th)) + mset (woken_senders T (remove1 (Thread_Go th) evs) b)"
  unfolding woken_senders_def by (rule mset_concat_remove1 [OF assms])

lemma in_order_cong:
  assumes "mset given' = mset given" and "ip_seqno p' = ip_seqno p" and "ip_msgcount p' = ip_msgcount p"
  shows "in_order s sn rv given' w p' \<longleftrightarrow> in_order s sn rv given w p"
  using assms by (simp add: in_order_def)

lemma sender_scheduled_inv:
  assumes inv: "sys_inv others s0 L k T sent received" and ev: "Thread_Go th \<in> set (k_events k)"
    and th: "ith_state th = MACH_MSG_SUCCESS" "ith_kmsg th = None" and T: "T (ith_addr th) = Some (m, opt, to)"
  shows "sys_inv others s0 (\<lambda>b. L b + (if b = msgh_remote_port m then 1 else 0)) (scheduled th k) (T(ith_addr th := None)) sent received"
proof (rule sys_invI)
  note I = sys_invD [OF inv]
  let ?t = "ith_addr th" and ?a = "msgh_remote_port m" and ?evs = "remove1 (Thread_Go th) (k_events k)"
  have here: "sender_of T b (Thread_Go th) = (if b = ?a then [?t] else [])" for b using th T by simp
  have count: "mset (woken_senders T (k_events k) b) = mset (if b = ?a then [?t] else []) + mset (woken_senders T ?evs b)" for b
    using woken_senders_remove1 [OF ev, of T b] unfolding here .
  obtain p where p: "k_ports k ?a = Some p" using I(2) [OF T] by blast
  have split: "distinct (woken_senders T (k_events k) b) \<longleftrightarrow>
      distinct ((if b = ?a then [?t] else []) @ woken_senders T ?evs b)" for b
    by (rule mset_eq_imp_distinct_iff) (simp add: count del: if_split)
  have "distinct (woken_senders T (k_events k) ?a)" using I(5) [OF p] by (simp add: senders_wait_def)
  then have "?t \<notin> set (woken_senders T ?evs ?a)" unfolding split by simp
  then have gone: "ith_addr th' \<noteq> ?t"
    if "Thread_Go th' \<in> set ?evs" "ith_state th' = MACH_MSG_SUCCESS" "ith_kmsg th' = None" for th'
    using woken_sendersI [OF that, of T m opt to] T by auto
  have w: "woken_senders (T(?t := None)) ?evs b = woken_senders T ?evs b" for b
    by (rule woken_senders_upd) (rule gone)
  show "psets_ok others (scheduled th k)" using I(1) by simp
  show "k_ports (scheduled th k) (msgh_remote_port m') \<noteq> None"
    if "(T(?t := None)) u = Some (m', opt', to')" for u m' opt' to'
    using that I(2) by (auto split: if_splits)
  show "(T(?t := None)) (ith_addr th') \<noteq> None" if "Thread_Go th' \<in> set (k_events (scheduled th k))"
      "ith_state th' = MACH_MSG_SUCCESS" "ith_kmsg th' = None" for th'
    using that gone [of th'] I(3) [of th'] by (auto dest: notin_set_remove1)
  fix b q assume q: "k_ports (scheduled th k) b = Some q"
  then have q': "k_ports k b = Some q" by simp
  have b: "?t \<notin> set (map ith_addr (ip_blocked q))"
  proof
    assume t: "?t \<in> set (map ith_addr (ip_blocked q))"
    then obtain th' where "th' \<in> set (ip_blocked q)" "ith_addr th' = ?t" by auto
    with I(5) [OF q'] T have "b = ?a" by (fastforce simp: senders_wait_def)
    moreover have "?t \<in># mset (woken_senders T (k_events k) ?a)" unfolding count by simp
    ultimately show False using t I(5) [OF q'] by (auto simp: senders_wait_def)
  qed
  have s: "senders_wait T ?evs b (L b + (if b = ?a then 1 else 0)) q"
  proof -
    have "length (woken_senders T (k_events k) b) = (if b = ?a then 1 else 0) + length (woken_senders T ?evs b)"
      using arg_cong [OF count [of b], of size] by simp
    moreover have "set (woken_senders T ?evs b) \<subseteq> set (woken_senders T (k_events k) b)"
      using arg_cong [OF count [of b], of set_mset] by auto
    moreover have "distinct (woken_senders T ?evs b)" if "distinct (woken_senders T (k_events k) b)"
      using that unfolding split by simp
    ultimately show ?thesis using I(5) [OF q'] unfolding senders_wait_def by auto
  qed
  have "mset (handed ?evs b) = mset (handed (k_events k) b)" using handed_remove1 [OF ev, of b] th by simp
  then show "ip_active q \<and> senders_wait (T(?t := None)) (k_events (scheduled th k)) b (L b + (if b = ?a then 1 else 0)) q \<and>
      in_order (s0 b) (sent b) (received b) (handed (k_events (scheduled th k)) b) (queued (scheduled th k) b) q"
    using I(4,6) [OF q'] senders_wait_upd [OF s w b] in_order_cong [of "handed ?evs b" "handed (k_events k) b" q q] by simp
qed

text \<open>A sender that gives up, or whose time is over, leaves the queue.\<close>

lemma sender_unblocked_inv:
  assumes inv: "sys_inv others s0 L k T sent received" and p: "k_ports k (msgh_remote_port m) = Some p"
    and th: "th \<in> set (ip_blocked p)" and T: "T (ith_addr th) = Some (m, opt, to)"
  shows "sys_inv others s0 L
    (put_port (msgh_remote_port m) (p\<lparr>ip_blocked := threads_without (ith_addr th) (ip_blocked p)\<rparr>) k)
    (T(ith_addr th := None)) sent received" (is "sys_inv others s0 _ (put_port ?a ?p k) ?T sent received")
proof (rule sys_inv_port [OF inv p])
  note I = sys_invD [OF inv]
  let ?t = "ith_addr th"
  have "?t \<notin> set (woken_senders T (k_events k) ?a)" using I(5) [OF p] th by (auto simp: senders_wait_def)
  then have gone: "ith_addr th' \<noteq> ?t"
    if "Thread_Go th' \<in> set (k_events k)" "ith_state th' = MACH_MSG_SUCCESS" "ith_kmsg th' = None" for th'
    using woken_sendersI [OF that, of T m opt to] T by auto
  have w: "woken_senders ?T (k_events k) b = woken_senders T (k_events k) b" for b
    by (rule woken_senders_upd) (rule gone)
  show "psets_ok others (put_port ?a ?p k)"
    by (rule psets_inv_port [OF I(1) p, where p' = ?p]) (use psets_invD(4,5) [OF I(1) p] in auto)
  show "senders_wait ?T (k_events (put_port ?a ?p k)) b (L b) q" if b: "b \<noteq> ?a" and q: "k_ports k b = Some q" for b q
  proof -
    have "?t \<notin> set (map ith_addr (ip_blocked q))" using I(5) [OF q] T b by (fastforce simp: senders_wait_def)
    from senders_wait_upd [OF I(5) [OF q] w this] show ?thesis by simp
  qed
  show "senders_wait ?T (k_events (put_port ?a ?p k)) ?a (L ?a) ?p"
  proof -
    have "distinct (map ith_addr (filter P (ip_blocked p)))" for P
      using I(5) [OF p] by (auto simp: senders_wait_def distinct_map_filter)
    then show ?thesis
      using I(5) [OF p] unfolding senders_wait_def threads_without_def by (auto simp: w filter_empty_conv)
  qed
  show "k_ports k (msgh_remote_port m') \<noteq> None"
    if "?T u = Some (m', opt', to')" for u m' opt' to'
    using that I(2) by (auto split: if_splits)
  show "?T (ith_addr th') \<noteq> None" if "Thread_Go th' \<in> set (k_events (put_port ?a ?p k))" "ith_state th' = MACH_MSG_SUCCESS"
      "ith_kmsg th' = None" for th'
    using that I(3) [of th'] gone [of th'] by auto
qed simp_all

end
