(* ===== verification/Ipc_Message_Receive.thy ===== *)
theory Ipc_Message_Receive
  imports Ipc_Message_System
begin

section \<open>Receiving and the invariant of the message system\<close>

subsection \<open>Changes that queues do not see\<close>

definition same_port :: "ipc_port \<Rightarrow> ipc_port \<Rightarrow> bool" where
  "same_port p p' \<longleftrightarrow>
     ip_bits p' = ip_bits p \<and> ip_seqno p' = ip_seqno p \<and> ip_msgcount p' = ip_msgcount p \<and>
     ip_qlimit p' = ip_qlimit p \<and> ip_blocked p' = ip_blocked p \<and> ip_pset p' = ip_pset p \<and> ip_messages p' = ip_messages p"

definition unseen :: "ipc_kernel \<Rightarrow> ipc_kernel \<Rightarrow> bool" where
  "unseen k k' \<longleftrightarrow>
     k_psets k' = k_psets k \<and> (\<exists>E. wakes_none E \<and> k_events k' = k_events k @ E) \<and> dom (k_ports k') = dom (k_ports k) \<and>
     (\<forall>b p p'. k_ports k b = Some p \<longrightarrow> k_ports k' b = Some p' \<longrightarrow> same_port p p')"

lemma same_port_refl [simp]: "same_port p p" by (simp add: same_port_def)

lemma unseenI:
  assumes "k_psets k' = k_psets k" and "wakes_none E" and "k_events k' = k_events k @ E" and "k_ports k' = k_ports k"
  shows "unseen k k'"
  using assms by (auto simp: unseen_def)

lemma unseen_same:
  assumes "k_psets k' = k_psets k" and "k_events k' = k_events k" and "k_ports k' = k_ports k"
  shows "unseen k k'"
  using assms by (intro unseenI [of _ _ "[]"]) (simp_all add: wakes_none_def)

lemma unseen_trans:
  assumes "unseen k1 k2" and "unseen k2 k3"
  shows "unseen k1 k3"
proof -
  from assms obtain E F where e: "wakes_none E" "k_events k2 = k_events k1 @ E" "wakes_none F" "k_events k3 = k_events k2 @ F"
    by (auto simp: unseen_def)
  then have "wakes_none (E @ F) \<and> k_events k3 = k_events k1 @ (E @ F)" by (auto simp: wakes_none_def)
  moreover have "same_port p1 p3" if p: "k_ports k1 b = Some p1" "k_ports k3 b = Some p3" for b p1 p3
  proof -
    have "b \<in> dom (k_ports k2)" using p(1) assms(1) by (auto simp: unseen_def)
    then obtain p2 where "k_ports k2 b = Some p2" by blast
    with p assms have "same_port p1 p2" "same_port p2 p3" unfolding unseen_def by blast+
    then show ?thesis by (simp add: same_port_def)
  qed
  ultimately show ?thesis using assms unfolding unseen_def by auto
qed

lemma unseen_put:
  assumes "k_ports k a = Some p" and "same_port p p'"
  shows "unseen k (put_port a p' k)"
  using assms by (auto simp: unseen_def wakes_none_def intro: exI [of _ "[]"])

lemma make_notify_unseen:
  assumes "ipc_space_make_notify k = Some (r, k')"
  shows "unseen k k'"
  using assms
  by (auto simp: ipc_space_make_notify_def ipc_port_copy_send_def bind_eq_Some_conv Let_def same_port_def ip_reference_def
      split: if_splits intro!: unseen_put unseen_same)

lemma marequest_unmark_unseen:
  assumes "marequest_unmark name sr k = Some (x, k')"
  shows "unseen k k'"
proof -
  obtain a t where t: "imar_remove (k_addr k) name (k_marequests k) = Some (a, t)"
    using assms by (auto simp: marequest_unmark_def bind_eq_Some_conv)
  obtain found s where f: "ipc_entry_lookup name (k_space k) = (found, s)" by (cases "ipc_entry_lookup name (k_space k)")
  show ?thesis
  proof (cases "is_active (k_space k)")
    case False
    with assms t have "k' = k\<lparr>k_marequests := t\<rparr>" by (simp add: marequest_unmark_def)
    then show ?thesis by (auto intro: unseen_same)
  next
    case True
    with assms t f obtain entry where e: "found = Some entry"
      by (cases found) (simp_all add: marequest_unmark_def)
    let ?k = "set_entry entry (\<lambda>e. e\<lparr>ie_bits := ie_bits e AND NOT IE_BITS_MAREQUEST\<rparr>) (k\<lparr>k_marequests := t, k_space := s\<rparr>)"
    have k1: "unseen k ?k" by (rule unseen_same) (simp_all add: set_entry_def)
    obtain sright where r: "(if sr = IP_NULL then ipc_space_make_notify ?k else Some (IP_NULL, ?k)) = Some (sright, k')"
      using assms t f e True by (auto simp: marequest_unmark_def bind_eq_Some_conv Let_def split: if_splits)
    have "unseen ?k k'"
    proof (cases "sr = IP_NULL")
      case True
      with r show ?thesis by (auto dest: make_notify_unseen)
    next
      case False
      with r show ?thesis by (auto intro: unseen_same)
    qed
    with k1 show ?thesis by (rule unseen_trans)
  qed
qed

lemma marequest_destroy_unseen:
  assumes "ipc_marequest_destroy r k = Some k'"
  shows "unseen k k'"
proof -
  obtain req where req: "imar_at (k_marequests k) r = Some req" "imar_space req = k_addr k"
    using assms by (auto simp: ipc_marequest_destroy_def bind_eq_Some_conv Let_def split: if_splits)
  let ?op = "if imar_name req \<noteq> MACH_PORT_NULL then marequest_unmark (imar_name req) (imar_soright req) k
    else Some ((MACH_PORT_NULL, IP_NULL), k)"
  obtain name sright k1 where op: "?op = Some ((name, sright), k1)"
    using assms req by (cases ?op) (auto simp: ipc_marequest_destroy_def Let_def)
  have k1: "unseen k k1"
    using op by (auto dest: marequest_unmark_unseen intro: unseen_same split: if_splits)
  let ?t = "k_marequests (space_release k1)"
  let ?k = "(space_release k1)\<lparr>k_marequests := ?t\<lparr>imar_at := (imar_at ?t)(r := None)\<rparr>\<rparr>"
  from assms req op have "k' = (if imar_soright req = IP_NULL
      then if IP_VALID sright then post (Notify_Msg_Accepted_Compat sright name) ?k else ?k
      else post (Notify_Msg_Accepted (imar_soright req) name) ?k)"
    by (auto simp add: ipc_marequest_destroy_def Let_def split del: if_split)
  then have "unseen k1 k'"
    by (intro unseenI [of _ _ "if imar_soright req = IP_NULL then if IP_VALID sright then [Notify_Msg_Accepted_Compat sright name]
        else [] else [Notify_Msg_Accepted (imar_soright req) name]"])
      (auto simp: space_release_def wakes_none_def split: if_splits)
  with k1 show ?thesis by (rule unseen_trans)
qed


lemma unseenD:
  assumes "unseen k k'"
  obtains E where "wakes_none E" "k_events k' = k_events k @ E" "k_psets k' = k_psets k" "dom (k_ports k') = dom (k_ports k)"
    "\<And>b p'. k_ports k' b = Some p' \<Longrightarrow> \<exists>p. k_ports k b = Some p \<and> same_port p p'"
    "\<And>b p. k_ports k b = Some p \<Longrightarrow> \<exists>p'. k_ports k' b = Some p' \<and> same_port p p'"
    "queued k' = queued k"
proof -
  from assms obtain E where e: "wakes_none E" "k_events k' = k_events k @ E" "k_psets k' = k_psets k"
      "dom (k_ports k') = dom (k_ports k)"
      "\<And>b p p'. k_ports k b = Some p \<Longrightarrow> k_ports k' b = Some p' \<Longrightarrow> same_port p p'"
    by (auto simp: unseen_def)
  have old: "\<exists>p. k_ports k b = Some p \<and> same_port p p'" if "k_ports k' b = Some p'" for b p'
  proof -
    have "b \<in> dom (k_ports k)" using that e(4) by blast
    then show ?thesis using e(5) that by blast
  qed
  have new: "\<exists>p'. k_ports k' b = Some p' \<and> same_port p p'" if "k_ports k b = Some p" for b p
  proof -
    have "b \<in> dom (k_ports k')" using that e(4) by blast
    then show ?thesis using e(5) that by blast
  qed
  have "queued k' b = queued k b" for b
  proof (cases "k_ports k b")
    case None
    then have "b \<notin> dom (k_ports k')" using e(4) by blast
    then have "k_ports k' b = None" by blast
    with None show ?thesis by (simp add: queued_def)
  next
    case (Some p)
    with new [OF Some] e(3) show ?thesis by (auto simp: queued_def port_queue_def same_port_def)
  qed
  then have "queued k' = queued k" by (rule ext)
  with e old new show thesis by (intro that)
qed

lemma psets_inv_unseen:
  assumes inv: "psets_inv others X k" and un: "unseen k k'"
  shows "psets_inv others X k'"
proof (rule unseenD [OF un])
  note I = psets_invD [OF inv]
  fix E assume e: "k_psets k' = k_psets k" "dom (k_ports k') = dom (k_ports k)"
    "\<And>b p'. k_ports k' b = Some p' \<Longrightarrow> \<exists>p. k_ports k b = Some p \<and> same_port p p'"
    "\<And>b p. k_ports k b = Some p \<Longrightarrow> \<exists>p'. k_ports k' b = Some p' \<and> same_port p p'"
  have mem: "members k' b = members k b" for b
    using e(3,4) unfolding members_def same_port_def by fastforce
  show ?thesis
    unfolding psets_inv_def mem e(1)
  proof (intro conjI allI impI ballI)
    show "finite (dom (k_ports k'))" using I(3) e(2) by simp
    show "k_psets k IPS_NULL = None" by (rule I(2))
    fix b t assume "k_ports k' b = Some t"
    from e(3) [OF this] obtain p where p: "k_ports k b = Some p" "ip_messages t = ip_messages p" "ip_pset t = ip_pset p"
      by (auto simp: same_port_def)
    show "mqueue_ok (ip_messages t)" using p I(4) by simp
    show "msgh_remote_port m = b" if "m \<in> set (imq_messages (ip_messages t))" for m using that p I(5) by simp
    show "k_psets k (ip_pset t) \<noteq> None" "ip_messages t = ipc_mqueue_init" if "ip_pset t \<noteq> IPS_NULL"
      using that p I(6,7) by auto
  qed (use I in auto)
qed

lemma senders_wait_same:
  assumes "senders_wait T evs a d p" and "same_port p p'" and "mset (woken_senders T evs' a) = mset (woken_senders T evs a)"
  shows "senders_wait T evs' a d p'"
proof -
  have d: "distinct (xs @ woken_senders T evs' a) \<longleftrightarrow> distinct (xs @ woken_senders T evs a)" for xs
    by (rule mset_eq_imp_distinct_iff) (simp add: assms(3))
  have l: "length (woken_senders T evs' a) = length (woken_senders T evs a)" by (rule mset_eq_length [OF assms(3)])
  show ?thesis using assms(1,2) unfolding senders_wait_def same_port_def by (simp add: d l del: distinct_append)
qed

lemma in_order_same:
  assumes "in_order s sn rv given w p" and "same_port p p'" and "mset given' = mset given"
  shows "in_order s sn rv given' w p'"
  using assms by (simp add: in_order_def same_port_def)

text \<open>Events may be reordered, and a kernel may change where queues do not see it.\<close>

lemma sys_inv_unseen:
  assumes inv: "sys_inv others s0 D (k\<lparr>k_events := E @ k_events k\<rparr>) T sent received" and un: "unseen k k'"
  shows "sys_inv others s0 D (k'\<lparr>k_events := E @ k_events k'\<rparr>) T sent received"
proof (rule unseenD [OF un])
  note I = sys_invD [OF inv]
  fix F assume e: "wakes_none F" "k_events k' = k_events k @ F" "k_psets k' = k_psets k" "dom (k_ports k') = dom (k_ports k)"
    "\<And>b p'. k_ports k' b = Some p' \<Longrightarrow> \<exists>p. k_ports k b = Some p \<and> same_port p p'"
    "queued k' = queued k"
  have q: "queued (k\<lparr>k_events := x\<rparr>) = queued k" "queued (k'\<lparr>k_events := x\<rparr>) = queued k" for x
    using queued_cong [of "k\<lparr>k_events := x\<rparr>" k] queued_cong [of "k'\<lparr>k_events := x\<rparr>" k'] e(6) by simp_all
  have ps: "psets_ok others k"
    using I(1) psets_inv_cong [of "k\<lparr>k_events := E @ k_events k\<rparr>" k] by simp
  show ?thesis
  proof (rule sys_invI)
    show "psets_ok others (k'\<lparr>k_events := E @ k_events k'\<rparr>)"
      using psets_inv_unseen [OF ps un] psets_inv_cong [of "k'\<lparr>k_events := E @ k_events k'\<rparr>" k'] by simp
    show "k_ports (k'\<lparr>k_events := E @ k_events k'\<rparr>) (msgh_remote_port m) \<noteq> None"
      if "T t = Some (m, opt, to)" for t m opt to
      using I(2) [OF that] e(4) by (auto simp: dom_def set_eq_iff)
    show "T (ith_addr th) \<noteq> None" if "Thread_Go th \<in> set (k_events (k'\<lparr>k_events := E @ k_events k'\<rparr>))"
        "ith_state th = MACH_MSG_SUCCESS" "ith_kmsg th = None" for th
      using that I(3) [of th] e(1,2) by (auto simp: wakes_none_def)
    fix a p' assume "k_ports (k'\<lparr>k_events := E @ k_events k'\<rparr>) a = Some p'"
    then obtain p where p: "k_ports k a = Some p" "same_port p p'" using e(5) by auto
    have pk: "k_ports (k\<lparr>k_events := E @ k_events k\<rparr>) a = Some p" using p by simp
    note J = I(4-6) [OF pk]
    show "ip_active p' \<and> senders_wait T (k_events (k'\<lparr>k_events := E @ k_events k'\<rparr>)) a (D a) p' \<and>
        in_order (s0 a) (sent a) (received a) (handed (k_events (k'\<lparr>k_events := E @ k_events k'\<rparr>)) a)
          (queued (k'\<lparr>k_events := E @ k_events k'\<rparr>) a) p'"
      using J p(2) senders_wait_same [OF J(2) p(2)] in_order_same [OF J(3) p(2)] wakes_none_events [OF e(1)]
      by (simp add: e(2) q same_port_def)
  qed
qed


lemma sys_inv_permute:
  assumes inv: "sys_inv others s0 D k T sent received" and E: "mset E = mset (k_events k)"
  shows "sys_inv others s0 D (k\<lparr>k_events := E\<rparr>) T sent received"
proof (rule sys_invI)
  note I = sys_invD [OF inv]
  have set: "set E = set (k_events k)" by (rule mset_eq_setD [OF E])
  have cm: "mset (concat (map f xs)) = mset (concat (map f ys))" if "mset xs = mset ys" for f :: "ipc_event \<Rightarrow> 'b list" and xs ys
  proof -
    have "mset (concat (map f zs)) = (\<Sum>z\<in>#mset zs. mset (f z))" for zs by (induction zs) auto
    with that show ?thesis by simp
  qed
  have w: "mset (woken_senders T E a) = mset (woken_senders T (k_events k) a)"
    and h: "mset (handed E a) = mset (handed (k_events k) a)" for a
    unfolding woken_senders_def handed_def mset_filter cm [OF E] by simp_all
  have q: "queued (k\<lparr>k_events := E\<rparr>) = queued k" by (rule queued_cong) simp_all
  show "psets_ok others (k\<lparr>k_events := E\<rparr>)" using I(1) psets_inv_cong [of "k\<lparr>k_events := E\<rparr>" k] by simp
  fix a p assume "k_ports (k\<lparr>k_events := E\<rparr>) a = Some p"
  then have p: "k_ports k a = Some p" by simp
  show "ip_active p \<and> senders_wait T (k_events (k\<lparr>k_events := E\<rparr>)) a (D a) p \<and>
      in_order (s0 a) (sent a) (received a) (handed (k_events (k\<lparr>k_events := E\<rparr>)) a) (queued (k\<lparr>k_events := E\<rparr>) a) p"
    using I(4) [OF p] senders_wait_same [OF I(5) [OF p] same_port_refl w] in_order_same [OF I(6) [OF p] same_port_refl h]
    by (simp add: q)
qed (use sys_invD(2,3) [OF inv] mset_eq_setD [OF E] in auto)

subsection \<open>Receiving\<close>

lemma count_pred: "0 < unat c \<Longrightarrow> unat (c - 1) = unat c - 1" for c :: "16 word"
  by (cases "c = 0") (simp_all add: unat_minus_one)

text \<open>
  While a receiver finishes it has the message in its hands, like a thread that was woken with it: the
  invariant holds with that event added.
\<close>

lemma finish_port_inv:
  assumes inv: "sys_inv others s0 L (k\<lparr>k_events := Thread_Go th # k_events k\<rparr>) T sent received"
    and th: "ith_state th = MACH_MSG_SUCCESS" "ith_kmsg th = Some m" "ith_seqno th = sq"
    and p: "k_ports k (msgh_remote_port m) = Some p"
    and p': "p' = p\<lparr>ip_msgcount := ip_msgcount p - 1, ip_blocked := bl\<rparr>"
    and k': "k_ports k' = (k_ports k)(msgh_remote_port m \<mapsto> p')" "k_psets k' = k_psets k" "k_events k' = k_events k @ evs"
    and evs: "\<And>b. handed evs b = []" "\<And>b. b \<noteq> msgh_remote_port m \<Longrightarrow> woken_senders T evs b = []"
      "\<And>th'. Thread_Go th' \<in> set evs \<Longrightarrow> T (ith_addr th') \<noteq> None"
    and wait: "unat (ip_msgcount p - 1) = unat (ip_msgcount p) - 1 \<Longrightarrow> 0 < unat (ip_msgcount p) \<Longrightarrow>
      senders_wait T (k_events k) (msgh_remote_port m) (L (msgh_remote_port m)) p \<Longrightarrow>
      senders_wait T (k_events k @ evs) (msgh_remote_port m) (L (msgh_remote_port m)) p'"
  shows "sys_inv others s0 L k' T sent
    (received(msgh_remote_port m := received (msgh_remote_port m) @ [(without_request m, sq)]))"
proof (rule sys_invI)
  let ?a = "msgh_remote_port m" and ?k = "k\<lparr>k_events := Thread_Go th # k_events k\<rparr>"
  note I = sys_invD [OF inv]
  have ps: "psets_ok others k" using I(1) psets_inv_cong [of ?k k] by simp
  show "psets_ok others k'"
    by (rule psets_inv_port [OF ps p k'(1,2)]) (use p' psets_invD(4,5) [OF ps p] in auto)
  show "k_ports k' (msgh_remote_port m') \<noteq> None"
    if "T t = Some (m', opt, to)" for t m' opt to
    using I(2) [OF that] k'(1) by auto
  show "T (ith_addr th') \<noteq> None"
    if "Thread_Go th' \<in> set (k_events k')" "ith_state th' = MACH_MSG_SUCCESS" "ith_kmsg th' = None" for th'
    using that I(3) [of th'] evs(3) [of th'] k'(3) by auto
  have h: "handed (k_events ?k) b = (if b = ?a then [(m, sq)] else []) @ handed (k_events k) b" for b
    using th by (simp add: handed_def)
  have w: "woken_senders T (k_events ?k) b = woken_senders T (k_events k) b" for b
    using th by (simp add: woken_senders_def)
  have q: "queued k' b = queued ?k b" for b
    using queued_put [OF p k'(1,2), of b] queued_cong [of ?k k] p' by simp
  fix b r assume r: "k_ports k' b = Some r"
  show "ip_active r \<and> senders_wait T (k_events k') b (L b) r \<and>
      in_order (s0 b) (sent b) ((received(?a := received ?a @ [(without_request m, sq)])) b)
        (handed (k_events k') b) (queued k' b) r"
  proof (cases "b = ?a")
    case False
    with r k'(1) have r': "k_ports ?k b = Some r" by simp
    have "senders_wait T (k_events k') b (L b) r"
      by (rule senders_wait_same [OF I(5) [OF r'] same_port_refl]) (simp only: w k'(3) woken_senders_append evs(2) [OF False] append_Nil2)
    moreover have "in_order (s0 b) (sent b) (received b) (handed (k_events k') b) (queued k' b) r"
      using I(6) [OF r'] h [of b] False evs(1) [of b] by (simp only: q k'(3) handed_append if_False append_Nil append_Nil2)
    ultimately show ?thesis using False I(4) [OF r'] by simp
  next
    case True
    with r k'(1) have e: "r = p'" by simp
    have pk: "k_ports ?k ?a = Some p" using p by simp
    have given: "mset (handed (k_events ?k) ?a) = add_mset (m, sq) (mset (handed (k_events k') ?a))"
      by (simp only: h k'(3) handed_append evs(1)) simp
    have "handed (k_events ?k) ?a \<noteq> []" by (simp only: h) simp
    then have "length (handed (k_events ?k) ?a) \<noteq> 0" by (simp only: length_0_conv not_False_eq_True)
    moreover have "unat (ip_msgcount p) = length (sent ?a) - length (received ?a)"
      using I(6) [OF pk] by (simp only: in_order_def)
    ultimately have pos: "0 < unat (ip_msgcount p)" using in_order_length [OF I(6) [OF pk]] by linarith
    then have c: "unat (ip_msgcount p - 1) = unat (ip_msgcount p) - 1" by (rule count_pred)
    have "senders_wait T (k_events k) ?a (L ?a) p"
      by (rule senders_wait_same [OF I(5) [OF pk] same_port_refl]) (simp only: w)
    from wait [OF c pos this] have "senders_wait T (k_events k') ?a (L ?a) p'" by (simp add: k'(3))
    moreover have "in_order (s0 ?a) (sent ?a) (received ?a @ [(without_request m, sq)]) (handed (k_events k') ?a) (queued k' ?a) p'"
      unfolding q by (rule in_order_finish [OF I(6) [OF pk] given]) (use p' c in simp_all)
    ultimately show ?thesis using True I(4) [OF pk] p' e by simp
  qed
qed

lemma finish_wake_wait:
  assumes w: "senders_wait T evs a d p" and b: "ip_blocked p = sender # senders"
  shows "woken_senders T [Thread_Go (sender\<lparr>ith_state := MACH_MSG_SUCCESS\<rparr>)] b' = (if b' = a then [ith_addr sender] else [])"
    and "handed [Thread_Go (sender\<lparr>ith_state := MACH_MSG_SUCCESS\<rparr>)] b' = []"
    and "T (ith_addr sender) \<noteq> None"
    and "unat (ip_msgcount p - 1) = unat (ip_msgcount p) - 1 \<Longrightarrow> 0 < unat (ip_msgcount p) \<Longrightarrow>
      senders_wait T (evs @ [Thread_Go (sender\<lparr>ith_state := MACH_MSG_SUCCESS\<rparr>)]) a d
      (p\<lparr>ip_msgcount := ip_msgcount p - 1, ip_blocked := senders\<rparr>)"
proof -
  from w b obtain m opt to where s: "ith_kmsg sender = None" "T (ith_addr sender) = Some (m, opt, to)" "msgh_remote_port m = a"
    by (auto simp: senders_wait_def)
  then show woken: "woken_senders T [Thread_Go (sender\<lparr>ith_state := MACH_MSG_SUCCESS\<rparr>)] b' =
      (if b' = a then [ith_addr sender] else [])" for b'
    by (auto simp: woken_senders_def)
  show "handed [Thread_Go (sender\<lparr>ith_state := MACH_MSG_SUCCESS\<rparr>)] b' = []" using s by (simp add: handed_def)
  show "T (ith_addr sender) \<noteq> None" using s by simp
  show "senders_wait T (evs @ [Thread_Go (sender\<lparr>ith_state := MACH_MSG_SUCCESS\<rparr>)]) a d
      (p\<lparr>ip_msgcount := ip_msgcount p - 1, ip_blocked := senders\<rparr>)"
    if "unat (ip_msgcount p - 1) = unat (ip_msgcount p) - 1" "0 < unat (ip_msgcount p)"
    using w b that unfolding senders_wait_def woken_senders_append woken by auto
qed

lemma receive_finish_inv:
  assumes inv: "sys_inv others s0 L (k\<lparr>k_events := Thread_Go th # k_events k\<rparr>) T sent received"
    and th: "ith_state th = MACH_MSG_SUCCESS" "ith_kmsg th = Some m" "ith_seqno th = sq"
    and fin: "receive_finish m sq k = Some (out, k')"
  shows "out = Received (without_request m) sq"
    and "sys_inv others s0 L k' T sent
      (received(msgh_remote_port m := received (msgh_remote_port m) @ [(without_request m, sq)]))"
proof -
  let ?a = "msgh_remote_port m"
  from fin show "out = Received (without_request m) sq" by (auto simp: receive_finish_def bind_eq_Some_conv Let_def)
  from fin obtain k1 p where k1: "(if ikm_marequest m \<noteq> 0 then ipc_marequest_destroy (ikm_marequest m) k else Some k) = Some k1"
      and p: "k_ports k1 ?a = Some p"
    by (auto simp: receive_finish_def bind_eq_Some_conv Let_def)
  from k1 have "unseen k k1" by (auto dest: marequest_destroy_unseen intro: unseen_same split: if_splits)
  from sys_inv_unseen [where E = "[Thread_Go th]", OF _ this] inv
  have inv1: "sys_inv others s0 L (k1\<lparr>k_events := Thread_Go th # k_events k1\<rparr>) T sent received" by simp
  note I = sys_invD [OF inv1]
  have p1: "k_ports (k1\<lparr>k_events := Thread_Go th # k_events k1\<rparr>) ?a = Some p" using p by simp
  have act: "ip_active p" by (rule I(4) [OF p1])
  have mono: "senders_wait T (k_events k1) ?a (L ?a) p"
    by (rule senders_wait_same [OF I(5) [OF p1] same_port_refl]) (use th in \<open>simp add: woken_senders_def\<close>)
  note finish = finish_port_inv [OF inv1 th p]
  have sel: "q\<lparr>ip_msgcount := c\<rparr> = q\<lparr>ip_msgcount := c, ip_blocked := ip_blocked q\<rparr>" for q :: ipc_port and c by (cases q) simp
  show "sys_inv others s0 L k' T sent (received(?a := received ?a @ [(without_request m, sq)]))"
  proof (cases "ip_blocked p \<noteq> [] \<and> ip_msgcount p - 1 < ip_qlimit p")
    case False
    then have "k' = put_port ?a (p\<lparr>ip_msgcount := ip_msgcount p - 1\<rparr>) k1"
      using fin k1 p act by (auto simp: receive_finish_def Let_def split: list.splits)
    then show ?thesis
    proof (intro finish [where bl = "ip_blocked p" and evs = "[]", OF sel])
      assume c: "unat (ip_msgcount p - 1) = unat (ip_msgcount p) - 1" "0 < unat (ip_msgcount p)"
        and w: "senders_wait T (k_events k1) ?a (L ?a) p"
      then show "senders_wait T (k_events k1 @ []) ?a (L ?a) (p\<lparr>ip_msgcount := ip_msgcount p - 1\<rparr>)"
        using False w by (auto simp: senders_wait_def word_le_nat_alt not_less)
    qed auto
  next
    case True
    then obtain sender senders where b: "ip_blocked p = sender # senders" by (cases "ip_blocked p") auto
    let ?evs = "[Thread_Go (sender\<lparr>ith_state := MACH_MSG_SUCCESS\<rparr>)]"
    have k': "k' = wake [sender\<lparr>ith_state := MACH_MSG_SUCCESS\<rparr>]
        (put_port ?a (p\<lparr>ip_msgcount := ip_msgcount p - 1, ip_blocked := senders\<rparr>) k1)"
      using fin k1 p act True b by (auto simp: receive_finish_def Let_def)
    note W = finish_wake_wait [OF mono b]
    show ?thesis
      by (rule finish [where bl = senders and evs = ?evs, OF refl])
        (use W in \<open>auto simp: k'\<close>)
  qed
qed

subsection \<open>Taking a message from a queue, and waiting for one\<close>

lemma psets_inv_pset_queue:
  assumes inv: "psets_inv others X k" and s: "k_psets k x = Some s" and k': "k_ports k' = k_ports k"
      "k_psets k' = (k_psets k)(x \<mapsto> s\<lparr>ips_messages := q\<rparr>)"
    and q: "mqueue_ok q" "set (imq_messages q) \<subseteq> set (imq_messages (ips_messages s))"
  shows "psets_inv others X k'"
proof -
  note I = psets_invD [OF inv]
  have mem: "members k' b = members k b" for b by (simp add: members_def k')
  show ?thesis
    unfolding psets_inv_def mem k'(1)
  proof (intro conjI allI impI ballI)
    show "finite (dom (k_ports k))" by (rule I(3))
    show "k_psets k' IPS_NULL = None" using I(2) s k'(2) by auto
    show "k_psets k' (ip_pset p) \<noteq> None" if "k_ports k a = Some p" "ip_pset p \<noteq> IPS_NULL" for a p
      using I(6) [OF that] k'(2) by auto
    fix b t assume t: "k_psets k' b = Some t"
    then obtain t0 where t0: "k_psets k b = Some t0" "ips_bits t = ips_bits t0" "ips_references t = ips_references t0"
        "mqueue_ok (ips_messages t)" "set (imq_messages (ips_messages t)) \<subseteq> set (imq_messages (ips_messages t0))"
      using s q k'(2) I(8) by (cases "b = x") auto
    show "mqueue_ok (ips_messages t)" by (fact t0(4))
    show "msgh_remote_port m \<in> members k b" if "m \<in> set (imq_messages (ips_messages t))" for m
      using I(9) [OF t0(1)] that t0(5) by blast
    show "ips_active t \<Longrightarrow> 0 < others b" using I(13) [OF t0(1)] t0(2) by simp
    show "card (members k b) + others b < 2 ^ 32" "ips_references t = of_nat (card (members k b) + others b)"
      "b \<notin> X \<Longrightarrow> members k b \<noteq> {} \<or> 0 < others b"
      using I(10,11,12) [OF t0(1)] t0(3) by auto
  qed (use I in auto)
qed

definition carrier :: "ipc_kmsg \<Rightarrow> u32 \<Rightarrow> ipc_thread" where
  "carrier m seqno =
     \<lparr>ith_addr = 0, ith_state = MACH_MSG_SUCCESS, ith_msize = 0, ith_kmsg = Some m, ith_seqno = seqno\<rparr>"

lemma carrier_handed: "handed (map Thread_Go [carrier m s]) b = (if b = msgh_remote_port m then [(m, s)] else [])"
  by (simp add: handed_def carrier_def)

lemma receivable_pset: "receivable (Pset_Queue x) k \<longleftrightarrow> (\<exists>s. k_psets k x = Some s)" by auto

lemma take_flows:
  assumes inv: "psets_ok others k" and rc: "receivable mq k" and q: "get_queue mq k = Some q" "imq_messages q = m # rest"
    and put: "put_queue mq (q\<lparr>imq_messages := rest\<rparr>) k = Some k1" and p1: "k_ports k1 (msgh_remote_port m) = Some p1"
    and k2: "k2 = put_port (msgh_remote_port m) (p1\<lparr>ip_seqno := ip_seqno p1 + 1\<rparr>) k1"
  shows "psets_ok others k2"
    and "flows none_new k (k2\<lparr>k_events := k_events k @ [Thread_Go (carrier m (ip_seqno p1))]\<rparr>)"
    and "k_events k2 = k_events k"
proof -
  let ?a = "msgh_remote_port m"
  have "\<exists>p. k_ports k ?a = Some p \<and> k_ports k2 = (k_ports k)(?a \<mapsto> p1\<lparr>ip_seqno := ip_seqno p1 + 1\<rparr>) \<and>
      psets_ok others k2 \<and> (\<exists>q'. p1 = p\<lparr>ip_messages := q'\<rparr>) \<and> k_events k2 = k_events k \<and>
      (\<exists>xs. queued k ?a = m # xs \<and> queued k2 ?a = xs) \<and>
      (\<forall>b r. b \<noteq> ?a \<longrightarrow> k_ports k b = Some r \<longrightarrow> queued k2 b = queued k b)"
  proof (cases mq)
    case (Port_Queue c)
    with rc q obtain p where p: "k_ports k c = Some p" "ip_pset p = IPS_NULL" "ip_messages p = q"
      by (auto split: option.splits)
    have a: "?a = c" using psets_invD(5) [OF inv p(1)] q(2) p(3) by auto
    let ?p = "p\<lparr>ip_messages := q\<lparr>imq_messages := rest\<rparr>\<rparr>"
    have e: "p1 = ?p" "k1 = put_port c ?p k" using put p p1 a Port_Queue by auto
    have ps: "psets_ok others k2"
      by (rule psets_inv_port [OF inv p(1), where p' = "p1\<lparr>ip_seqno := ip_seqno p1 + 1\<rparr>"])
        (use p q(2) e psets_invD(4,5) [OF inv p(1)] in \<open>auto simp: k2 a mqueue_ok_def\<close>)
    have "queued k2 b = queued k b" if "b \<noteq> c" "k_ports k b = Some r" for b r
      by (rule queued_other [OF that(2)]) (use that e psets_invD(6) [OF inv that(2)] in \<open>auto simp: k2 a\<close>)
    moreover have "queued k c = m # rest" "queued k2 c = rest"
      using p q(2) e psets_invD(5) [OF inv p(1)] by (auto simp: queued_def port_queue_def k2 a filter_id_conv)
    ultimately show ?thesis using p ps e by (auto simp: k2 a)
  next
    case (Pset_Queue x)
    with q obtain s where s: "k_psets k x = Some s" "ips_messages s = q" by auto
    have x: "x \<noteq> IPS_NULL" using psets_invD(2) [OF inv] s by auto
    from psets_invD(9) [OF inv s(1), of m] s(2) q(2) obtain p where p: "k_ports k ?a = Some p" "ip_pset p = x"
      by (auto simp: members_def)
    let ?s = "s\<lparr>ips_messages := q\<lparr>imq_messages := rest\<rparr>\<rparr>"
    have e: "p1 = p" "k1 = put_pset x ?s k" using put s p p1 Pset_Queue by auto
    have "psets_ok others k1"
      by (rule psets_inv_pset_queue [OF inv s(1), where q = "q\<lparr>imq_messages := rest\<rparr>"])
        (use e s q psets_invD(8) [OF inv s(1)] in \<open>auto simp: mqueue_ok_def\<close>)
    then have ps: "psets_ok others k2"
      by (rule psets_inv_port [where a = ?a and p = p and p' = "p1\<lparr>ip_seqno := ip_seqno p1 + 1\<rparr>"])
        (use p e psets_invD(4,5) [OF inv p(1)] in \<open>auto simp: k2\<close>)
    have "queued k2 b = queued k b" if "b \<noteq> ?a" "k_ports k b = Some r" for b r
      by (rule queued_other [OF that(2)]) (use that e s q(2) psets_invD(6) [OF inv that(2)] in \<open>auto simp: k2\<close>)
    moreover have "\<exists>xs. queued k ?a = m # xs \<and> queued k2 ?a = xs"
      using p s q(2) e x by (auto simp: queued_def port_queue_def k2)
    moreover have "\<exists>q'. p1 = p\<lparr>ip_messages := q'\<rparr>" by (rule exI [of _ "ip_messages p"]) (simp add: e)
    ultimately show ?thesis using p ps e by (auto simp: k2)
  qed
  then obtain p q' xs where p: "k_ports k ?a = Some p" "k_ports k2 = (k_ports k)(?a \<mapsto> p1\<lparr>ip_seqno := ip_seqno p1 + 1\<rparr>)"
      and ps: "psets_ok others k2" and p1': "p1 = p\<lparr>ip_messages := q'\<rparr>" and ev: "k_events k2 = k_events k"
      and xs: "queued k ?a = m # xs" "queued k2 ?a = xs"
      and other: "\<And>b r. b \<noteq> ?a \<Longrightarrow> k_ports k b = Some r \<Longrightarrow> queued k2 b = queued k b"
    by blast
  show "psets_ok others k2" by (fact ps)
  show "k_events k2 = k_events k" by (fact ev)
  let ?k = "k2\<lparr>k_events := k_events k @ [Thread_Go (carrier m (ip_seqno p1))]\<rparr>"
  have qk: "queued ?k = queued k2" by (rule queued_cong) simp_all
  show "flows none_new k ?k"
    unfolding flows_def
  proof (intro exI [of _ "[carrier m (ip_seqno p1)]"] conjI allI impI)
    fix b r r' assume r: "k_ports k b = Some r" "k_ports ?k b = Some r'"
    show "ip_msgcount r' = ip_msgcount r + of_nat (length [])" using r p p1' by (auto split: if_splits)
    show "port_flows (queued k b @ []) (queued ?k b) (handed (map Thread_Go [carrier m (ip_seqno p1)]) b) r r'"
    proof (cases "b = ?a")
      case True
      with r p have "r = p" "r' = p1\<lparr>ip_seqno := ip_seqno p1 + 1\<rparr>" by auto
      then show ?thesis
        unfolding carrier_handed qk True xs port_flows_def by (auto simp: p1' intro!: exI [of _ 1])
    next
      case False
      with r p have "r' = r" by auto
      then show ?thesis using other [OF False r(1)] False unfolding carrier_handed qk by (simp add: port_flows_refl)
    qed
  qed (use p in \<open>auto simp: receivers_only_def carrier_def\<close>)
qed

lemma threads_flows:
  assumes inv: "psets_ok others k" and rc: "receivable mq k" and q: "get_queue mq k = Some q"
    and ok: "mqueue_ok (q\<lparr>imq_threads := ths\<rparr>)" and put: "put_queue mq (q\<lparr>imq_threads := ths\<rparr>) k = Some k'"
  shows "psets_ok others k'" and "flows none_new k k'"
proof -
  have "psets_ok others k' \<and> (\<forall>b. queued k' b = queued k b) \<and> dom (k_ports k') = dom (k_ports k) \<and> k_events k' = k_events k \<and>
      (\<forall>b p p'. k_ports k b = Some p \<longrightarrow> k_ports k' b = Some p' \<longrightarrow> (\<exists>q'. p' = p\<lparr>ip_messages := q'\<rparr>))"
  proof (cases mq)
    case (Port_Queue c)
    with rc q obtain p where p: "k_ports k c = Some p" "ip_pset p = IPS_NULL" "ip_messages p = q"
      by (auto split: option.splits)
    let ?p = "p\<lparr>ip_messages := q\<lparr>imq_threads := ths\<rparr>\<rparr>"
    have e: "k' = put_port c ?p k" using put p Port_Queue by auto
    have "psets_ok others k'"
      by (rule psets_inv_port [OF inv p(1), where p' = ?p]) (use p e ok psets_invD(5) [OF inv p(1)] in auto)
    moreover have "queued k' b = queued k b" for b by (rule queued_put [OF p(1), where p' = ?p]) (use e p in auto)
    moreover have "\<exists>q'. r' = r\<lparr>ip_messages := q'\<rparr>" if "k_ports k b = Some r" "k_ports k' b = Some r'" for b r r'
      using that p e by (cases "b = c") (auto intro: exI [of _ "ip_messages r"])
    ultimately show ?thesis using p e by auto
  next
    case (Pset_Queue x)
    with q obtain s where s: "k_psets k x = Some s" "ips_messages s = q" by auto
    have e: "k' = put_pset x (s\<lparr>ips_messages := q\<lparr>imq_threads := ths\<rparr>\<rparr>) k" using put s Pset_Queue by auto
    have "psets_ok others k'"
      by (rule psets_inv_pset_queue [OF inv s(1), where q = "q\<lparr>imq_threads := ths\<rparr>"]) (use e s ok in auto)
    moreover have "queued k' b = queued k b" for b
      using e s by (auto simp: queued_def port_queue_def split: option.splits)
    moreover have "\<exists>q'. r' = r\<lparr>ip_messages := q'\<rparr>" if "k_ports k b = Some r" "k_ports k' b = Some r'" for b r r'
      using that e by (intro exI [of _ "ip_messages r"]) simp
    ultimately show ?thesis using e by auto
  qed
  then have ps: "psets_ok others k'" and qd: "\<And>b. queued k' b = queued k b" and d: "dom (k_ports k') = dom (k_ports k)"
      and ev: "k_events k' = k_events k"
      and same: "\<And>b p p'. k_ports k b = Some p \<Longrightarrow> k_ports k' b = Some p' \<Longrightarrow> \<exists>q'. p' = p\<lparr>ip_messages := q'\<rparr>"
    by blast+
  show "psets_ok others k'" by (fact ps)
  show "flows none_new k k'"
    unfolding flows_def
  proof (intro exI [of _ "[]"] conjI allI impI)
    fix b r r' assume r: "k_ports k b = Some r" "k_ports k' b = Some r'"
    from same [OF this] obtain q' where e: "r' = r\<lparr>ip_messages := q'\<rparr>" by blast
    show "ip_msgcount r' = ip_msgcount r + of_nat (length [])" by (simp add: e)
    show "port_flows (queued k b @ []) (queued k' b) (handed (map Thread_Go []) b) r r'"
      by (auto simp: qd e port_flows_def intro: exI [of _ 0])
  qed (use d ev in simp_all)
qed

lemma sys_inv_flows_none:
  assumes inv: "sys_inv others s0 D k T sent received" and fl: "flows none_new k k'" and ps: "psets_ok others k'"
  shows "sys_inv others s0 D k' T sent received"
  using sys_inv_flows [OF inv fl ps, of D] by simp

lemma receive_round_inv:
  assumes inv: "sys_inv others s0 L k T sent received" and rc: "receivable mq k"
    and round: "receive_round mq self opt sz to k = Some (out, k')"
  shows "sys_inv others s0 L k' T sent (got out received)"
proof -
  note I = sys_invD [OF inv]
  from round obtain q where q: "get_queue mq k = Some q" by (auto simp: receive_round_def bind_eq_Some_conv)
  show ?thesis
  proof (cases "imq_messages q")
    case Nil
    show ?thesis
    proof (cases "opt AND MACH_RCV_TIMEOUT \<noteq> 0 \<and> to = 0")
      case True
      with round q Nil inv show ?thesis by (auto simp: receive_round_def mqueue_take_def got_def)
    next
      case False
      with round q Nil obtain put: "put_queue mq (q\<lparr>imq_threads := imq_threads q @
          [self\<lparr>ith_state := MACH_RCV_IN_PROGRESS, ith_msize := sz\<rparr>]\<rparr>) k = Some k'" and o: "out = Receive_Block"
        by (auto simp: receive_round_def mqueue_take_def bind_eq_Some_conv)
      have "mqueue_ok (q\<lparr>imq_threads := ths\<rparr>)" for ths using Nil by (simp add: mqueue_ok_def)
      from threads_flows [OF I(1) rc q this put] sys_inv_flows_none [OF inv] show ?thesis by (simp add: o got_def)
    qed
  next
    case (Cons m rest)
    show ?thesis
    proof (cases "sz < msgh_size m")
      case True
      with round q Cons inv show ?thesis by (auto simp: receive_round_def mqueue_take_def got_def)
    next
      case False
      with round q Cons obtain k1 p1 where put: "put_queue mq (q\<lparr>imq_messages := rest\<rparr>) k = Some k1"
          and p1: "k_ports k1 (msgh_remote_port m) = Some p1"
          and fin: "receive_finish m (ip_seqno p1) (put_port (msgh_remote_port m) (p1\<lparr>ip_seqno := ip_seqno p1 + 1\<rparr>) k1) = Some (out, k')"
        by (auto simp: receive_round_def mqueue_take_def bind_eq_Some_conv)
      let ?k = "put_port (msgh_remote_port m) (p1\<lparr>ip_seqno := ip_seqno p1 + 1\<rparr>) k1" and ?c = "carrier m (ip_seqno p1)"
      note F = take_flows [OF I(1) rc q Cons put p1 refl]
      have "psets_ok others (?k\<lparr>k_events := k_events k @ [Thread_Go ?c]\<rparr>)"
        using F(1) psets_inv_cong [of "?k\<lparr>k_events := k_events k @ [Thread_Go ?c]\<rparr>" ?k] by simp
      from sys_inv_flows_none [OF inv F(2) this]
      have "sys_inv others s0 L (?k\<lparr>k_events := Thread_Go ?c # k_events ?k\<rparr>) T sent received"
        using sys_inv_permute [where k = "?k\<lparr>k_events := k_events k @ [Thread_Go ?c]\<rparr>" and E = "Thread_Go ?c # k_events ?k"] F(3) by simp
      from receive_finish_inv [OF this _ _ _ fin]
      show ?thesis by (simp add: carrier_def got_def)
    qed
  qed
qed

subsection \<open>Receivers that run again\<close>

lemma sys_inv_drop:
  assumes inv: "sys_inv others s0 L k T sent received" and ev: "Thread_Go th \<in> set (k_events k)"
    and th: "ith_state th \<noteq> MACH_MSG_SUCCESS"
  shows "sys_inv others s0 L (scheduled th k) T sent received"
proof (rule sys_invI)
  note I = sys_invD [OF inv]
  let ?evs = "remove1 (Thread_Go th) (k_events k)"
  show "psets_ok others (scheduled th k)" using I(1) by simp
  show "T (ith_addr th') \<noteq> None" if "Thread_Go th' \<in> set (k_events (scheduled th k))" "ith_state th' = MACH_MSG_SUCCESS"
      "ith_kmsg th' = None" for th'
    using that I(3) [of th'] by (auto dest: notin_set_remove1)
  fix a p assume "k_ports (scheduled th k) a = Some p"
  then have p: "k_ports k a = Some p" by simp
  have w: "mset (woken_senders T ?evs a) = mset (woken_senders T (k_events k) a)"
    using woken_senders_remove1 [OF ev, of T a] th by simp
  have h: "mset (handed ?evs a) = mset (handed (k_events k) a)" using handed_remove1 [OF ev, of a] th by simp
  show "ip_active p \<and> senders_wait T (k_events (scheduled th k)) a (L a) p \<and>
      in_order (s0 a) (sent a) (received a) (handed (k_events (scheduled th k)) a) (queued (scheduled th k) a) p"
    using I(4) [OF p] senders_wait_same [OF I(5) [OF p] same_port_refl w] in_order_same [OF I(6) [OF p] same_port_refl h]
    by simp
qed (use sys_invD(2) [OF inv] in simp)

lemma receive_woken_inv:
  assumes inv: "sys_inv others s0 L k T sent received" and ev: "Thread_Go th \<in> set (k_events k)"
    and st: "ith_state th \<in> {MACH_MSG_SUCCESS, MACH_RCV_TOO_LARGE, MACH_RCV_PORT_DIED, MACH_RCV_PORT_CHANGED}"
    and resume: "receive_resume mq th THREAD_AWAKENED opt sz to (scheduled th k) = Some (out, k')"
  shows "sys_inv others s0 L k' T sent (got out received)"
proof (cases "ith_state th = MACH_MSG_SUCCESS")
  case True
  with resume obtain m where m: "ith_kmsg th = Some m" and fin: "receive_finish m (ith_seqno th) (scheduled th k) = Some (out, k')"
    by (auto simp: receive_resume_def bind_eq_Some_conv)
  have "mset (Thread_Go th # k_events (scheduled th k)) = mset (k_events k)" using ev by simp
  from sys_inv_permute [OF inv this]
  have "sys_inv others s0 L ((scheduled th k)\<lparr>k_events := Thread_Go th # k_events (scheduled th k)\<rparr>) T sent received"
    by (simp add: scheduled_def)
  from receive_finish_inv [OF this True m refl fin] show ?thesis by (simp add: got_def)
next
  case False
  with st resume have "k' = scheduled th k" "\<And>m sq. out \<noteq> Received m sq" by (auto simp: receive_resume_def)
  with sys_inv_drop [OF inv ev False] show ?thesis by (auto simp: got_def split: receive_outcome.splits)
qed

lemma waiting_receivable:
  assumes "psets_ok others k" and "get_queue mq k = Some q" and "imq_threads q \<noteq> []"
  shows "receivable mq k"
proof (cases mq)
  case (Port_Queue a)
  with assms obtain p where p: "k_ports k a = Some p" "ip_messages p = q" by auto
  have "ip_pset p = IPS_NULL"
  proof (rule ccontr)
    assume "ip_pset p \<noteq> IPS_NULL"
    with psets_invD(7) [OF assms(1) p(1)] p(2) assms(3) show False by (simp add: ipc_mqueue_init_def)
  qed
  with p Port_Queue show ?thesis by simp
qed (use assms in auto)

lemma put_queue_receivable: "put_queue mq q k = Some k' \<Longrightarrow> receivable mq k \<Longrightarrow> receivable mq k'"
  by (cases mq) (auto simp: bind_eq_Some_conv)

lemma queue_mqueue_ok:
  assumes "psets_ok others k" and "get_queue mq k = Some q"
  shows "mqueue_ok q"
  using assms by (cases mq) (auto dest: psets_invD(4,8))

lemma receive_unblocked_inv:
  assumes inv: "sys_inv others s0 L k T sent received" and q: "get_queue mq k = Some q" "th \<in> set (imq_threads q)"
    and st: "ith_state th = MACH_RCV_IN_PROGRESS"
      "result \<in> {THREAD_TIMED_OUT, THREAD_INTERRUPTED, THREAD_SHOULD_TERMINATE}"
    and resume: "receive_resume mq th result opt sz to k = Some (out, k')"
  shows "sys_inv others s0 L k' T sent (got out received)"
proof -
  note I = sys_invD [OF inv]
  let ?q = "q\<lparr>imq_threads := threads_without (ith_addr th) (imq_threads q)\<rparr>"
  have rc: "receivable mq k" using waiting_receivable [OF I(1) q(1)] q(2) by (cases "imq_threads q") auto
  have ok: "mqueue_ok ?q" using queue_mqueue_ok [OF I(1) q(1)] by (auto simp: mqueue_ok_def threads_without_def)
  from resume st q(1) obtain k1 where put: "put_queue mq ?q k = Some k1"
      and rest: "if result = THREAD_TIMED_OUT then receive_round mq th opt sz 0 k1 = Some (out, k')
        else out = Receive_Return MACH_RCV_INTERRUPTED \<and> k' = k1"
    by (auto simp: receive_resume_def bind_eq_Some_conv)
  have "sys_inv others s0 L k1 T sent received"
    using threads_flows [OF I(1) rc q(1) ok put] sys_inv_flows_none [OF inv] by blast
  from receive_round_inv [OF this put_queue_receivable [OF put rc]] this rest
  show ?thesis by (auto simp: got_def split: if_splits)
qed

subsection \<open>A new limit\<close>

lemma woken_blocked:
  assumes "\<forall>th\<in>set ths. ith_kmsg th = None \<and> (\<exists>m opt to. T (ith_addr th) = Some (m, opt, to) \<and> msgh_remote_port m = a)"
  shows "woken_senders T (map Thread_Go (map (\<lambda>th. th\<lparr>ith_state := MACH_MSG_SUCCESS\<rparr>) ths)) b =
      (if b = a then map ith_addr ths else [])"
    and "handed (map Thread_Go (map (\<lambda>th. th\<lparr>ith_state := MACH_MSG_SUCCESS\<rparr>) ths)) b = []"
  using assms by (induction ths) (auto simp: woken_senders_def handed_def)

lemma distinct_rotate: "distinct (map f (drop n xs) @ ys @ map f (take n xs)) \<longleftrightarrow> distinct (map f xs @ ys)"
proof (rule mset_eq_imp_distinct_iff)
  have "mset (map f xs) = mset (map f (take n xs)) + mset (map f (drop n xs))"
    unfolding mset_append [symmetric] map_append [symmetric] append_take_drop_id ..
  then show "mset (map f (drop n xs) @ ys @ map f (take n xs)) = mset (map f xs @ ys)" by (simp only: mset_append ac_simps)
qed

lemma set_qlimit_inv:
  assumes inv: "sys_inv others s0 L k T sent received" and lim: "ipc_port_set_qlimit a qlimit k = Some k'" "qlimit < 2 ^ 16"
  shows "sys_inv others s0 L k' T sent received"
proof -
  note I = sys_invD [OF inv]
  from lim(1) obtain p where p: "k_ports k a = Some p" by (auto simp: ipc_port_set_qlimit_def bind_eq_Some_conv)
  define n where "n = (if ucast (ip_qlimit p) < qlimit then unat (qlimit - ucast (ip_qlimit p)) else 0)"
  let ?ths = "take n (ip_blocked p)" and ?p = "p\<lparr>ip_blocked := drop n (ip_blocked p), ip_qlimit := ucast qlimit\<rparr>"
  let ?w = "map (\<lambda>th. th\<lparr>ith_state := MACH_MSG_SUCCESS\<rparr>) ?ths"
  have k': "k' = wake ?w (put_port a ?p k)"
    using lim(1) p by (auto simp: ipc_port_set_qlimit_def n_def Let_def split: if_splits)
  have sw: "senders_wait T (k_events k) a (L a) p" by (rule I(5) [OF p])
  have old: "unat (ucast (ip_qlimit p) :: u32) = unat (ip_qlimit p)"
  proof -
    have "unat (ip_qlimit p) < 2 ^ 16" using unsigned_less [of "ip_qlimit p"] by simp
    then show ?thesis by (simp add: unsigned_ucast_eq take_bit_nat_def)
  qed
  have new: "unat (ucast qlimit :: 16 word) = unat qlimit"
    using lim(2) by (simp add: unsigned_ucast_eq take_bit_nat_def word_less_nat_alt)
  have lim_n: "unat (ucast qlimit :: 16 word) \<le> unat (ip_qlimit p) + n"
    unfolding new n_def by (auto simp: word_less_nat_alt unat_sub_if' not_less old)
  have th: "\<forall>th\<in>set ?ths. ith_kmsg th = None \<and> (\<exists>m opt to. T (ith_addr th) = Some (m, opt, to) \<and> msgh_remote_port m = a)"
    using sw by (auto simp: senders_wait_def dest!: in_set_takeD)
  note W = woken_blocked [OF th]
  have ev: "k_events k' = k_events k @ map Thread_Go ?w" by (simp add: k')
  show ?thesis
  proof (rule sys_inv_port [OF inv p, where p' = ?p])
    show "psets_ok others k'" by (rule psets_inv_port [OF I(1) p, where p' = ?p]) (use psets_invD(4,5) [OF I(1) p] k' in auto)
    show "mset (handed (k_events k') b) = mset (handed (k_events k) b)" for b by (simp only: ev handed_append W(2) append_Nil2)
    show "k_ports k (msgh_remote_port m) \<noteq> None"
      if "T t = Some (m, opt, to)" for t m opt to by (rule I(2) [OF that])
    show "T (ith_addr t) \<noteq> None" if "Thread_Go t \<in> set (k_events k')" "ith_state t = MACH_MSG_SUCCESS" "ith_kmsg t = None" for t
    proof (cases "Thread_Go t \<in> set (k_events k)")
      case True
      then show ?thesis using I(3) that by blast
    next
      case False
      with that(1) ev obtain x where "x \<in> set ?ths" "ith_addr t = ith_addr x" by auto
      then show ?thesis using th by auto
    qed
    show "senders_wait T (k_events k') b (L b) q" if "b \<noteq> a" "k_ports k b = Some q" for b q
      by (rule senders_wait_same [OF I(5) [OF that(2)] same_port_refl]) (use that in \<open>simp only: ev woken_senders_append W(1) if_False append_Nil2\<close>)
    have "distinct (map ith_addr (drop n (ip_blocked p)) @ woken_senders T (k_events k) a @ map ith_addr ?ths)"
      using sw unfolding senders_wait_def by (simp only: distinct_rotate simp_thms)
    moreover have "unat (ip_qlimit ?p) \<le> unat (ip_msgcount p) + length (woken_senders T (k_events k) a @ map ith_addr ?ths) + L a"
      if "drop n (ip_blocked p) \<noteq> []"
      using that sw lim_n unfolding senders_wait_def by auto
    ultimately show "senders_wait T (k_events k') a (L a) ?p"
      using sw unfolding senders_wait_def ev woken_senders_append W(1) by (auto dest: in_set_dropD)
  qed (use k' in simp_all)
qed

subsection \<open>Every step\<close>

lemma send_done_inv:
  "msg_inv others s0 (send_done t kmsg option timeout out k s) \<longleftrightarrow>
     sys_inv others s0 (\<lambda>a. length (ms_lost s a)) k ((ms_senders s)(t := if out = Send_Block then Some (kmsg, option, timeout) else None))
       ((ms_sent s)(msgh_remote_port kmsg := ms_sent s (msgh_remote_port kmsg) @
          (if accepts kmsg option (ms_kernel s) then [kmsg] else []))) (ms_received s)"
  by (simp add: send_done_def Let_def split del: if_split)

lemma msg_step_inv:
  assumes "msg_step others s s'" and "msg_inv others s0 s"
  shows "msg_inv others s0 s'"
  using assms
proof (induction rule: msg_step.induct)
  case (Send s t kmsg option timeout out k)
  from send_round_inv [OF Send.prems _ _ _ _ Send.hyps(4,5)] Send.hyps(1) show ?case
    by (simp add: calling_def send_done_inv split del: if_split)
next
  case (Send_Woken th s kmsg option timeout out k)
  let ?lost = "lost kmsg option (ms_kernel s) (ms_lost s)"
  have "send_round th kmsg option timeout (scheduled th (ms_kernel s)) = Some (out, k)"
    using Send_Woken.hyps(2,6) by (simp add: send_resume_def)
  note round = send_round_inv [OF sender_scheduled_inv [OF Send_Woken.prems Send_Woken.hyps(1-4)] _ _ _ _ _ this,
      where L = "\<lambda>a. length (?lost a)"]
  have "destroys kmsg option (scheduled th (ms_kernel s)) = destroys kmsg option (ms_kernel s)"
    "accepts kmsg option (scheduled th (ms_kernel s)) = accepts kmsg option (ms_kernel s)"
    "count_fits kmsg (scheduled th (ms_kernel s)) = count_fits kmsg (ms_kernel s)"
    by (simp_all add: destroys_def accepts_def count_fits_def)
  with round Send_Woken.hyps(3,5) show ?case
    by (simp add: send_done_def lost_def Let_def split del: if_split) (simp add: fun_upd_def)
next
  case (Send_Timed_Out s kmsg p th option timeout out k)
  note I = sys_invD(5) [OF Send_Timed_Out.prems Send_Timed_Out.hyps(1)]
  have th: "ith_kmsg th = None" "ith_state th = MACH_SEND_IN_PROGRESS"
    using I Send_Timed_Out.hyps(2) by (auto simp: senders_wait_def)
  let ?k = "put_port (msgh_remote_port kmsg) (p\<lparr>ip_blocked := threads_without (ith_addr th) (ip_blocked p)\<rparr>) (ms_kernel s)"
  have round: "send_round th kmsg option 0 ?k = Some (out, k)"
    using Send_Timed_Out.hyps(1,6) th by (simp add: send_resume_def)
  from send_round_inv [OF sender_unblocked_inv [OF Send_Timed_Out.prems Send_Timed_Out.hyps(1-3)] _ _ _ _ _ round, where L = "\<lambda>a. length (ms_lost s a)"]
    th Send_Timed_Out.hyps(1,5) sys_invD(2) [OF Send_Timed_Out.prems Send_Timed_Out.hyps(3)]
  show ?case by (simp add: send_done_inv accepts_def count_fits_def send_room_def split del: if_split)
next
  case (Send_Interrupted s kmsg p th option timeout result out k)
  have th: "ith_state th = MACH_SEND_IN_PROGRESS"
    using sys_invD(5) [OF Send_Interrupted.prems Send_Interrupted.hyps(1)] Send_Interrupted.hyps(2)
    by (auto simp: senders_wait_def)
  have "k = put_port (msgh_remote_port kmsg) (p\<lparr>ip_blocked := threads_without (ith_addr th) (ip_blocked p)\<rparr>) (ms_kernel s)"
    using Send_Interrupted.hyps(1,4,5) th by (auto simp: send_resume_def)
  with sender_unblocked_inv [OF Send_Interrupted.prems Send_Interrupted.hyps(1-3)] show ?case by (simp add: fun_upd_def)
next
  case (Receive s t mq option max_size timeout out k)
  from receive_round_inv [OF Receive.prems Receive.hyps(3,4)] show ?case by (simp add: receive_done_def)
next
  case (Receive_Woken th s mq option max_size timeout out k)
  from receive_woken_inv [OF Receive_Woken.prems Receive_Woken.hyps(1,3,5)] show ?case by (simp add: receive_done_def)
next
  case (Receive_Unblocked mq s q th option max_size timeout result out k)
  from receive_unblocked_inv [OF Receive_Unblocked.prems Receive_Unblocked.hyps(1-3,5,6)] show ?case
    by (simp add: receive_done_def)
next
  case (Set_Qlimit a qlimit s k)
  from set_qlimit_inv [OF Set_Qlimit.prems Set_Qlimit.hyps] show ?case by simp
next
  case (Move s a nset kr k)
  from Move.hyps(1) obtain p where "k_ports (ms_kernel s) a = Some p" by blast
  from pset_move_flows [OF sys_invD(1) [OF Move.prems] this Move.hyps(2)] Move.hyps(3)
  have "psets_ok others k" "flows none_new (ms_kernel s) k" by auto
  from sys_inv_flows_none [OF Move.prems this(2,1)] show ?case by simp
qed

lemma reachable_inv:
  assumes "(msg_step others)\<^sup>*\<^sup>* (start k) s" and "psets_ok others k" and "quiet_kernel k"
  shows "msg_inv others (seqno_at k) s"
  using assms(1)
  by (induction rule: rtranclp_induct) (auto intro: msg_step_inv start_inv [OF assms(2,3)])

text \<open>Only circular messages are lost.\<close>

lemma lost_circular_step:
  assumes "msg_step others s s'" and "\<forall>a. \<forall>m\<in>set (ms_lost s a). msgh_remote_port m = a \<and> msgh_bits m AND MACH_MSGH_BITS_CIRCULAR \<noteq> 0"
  shows "\<forall>a. \<forall>m\<in>set (ms_lost s' a). msgh_remote_port m = a \<and> msgh_bits m AND MACH_MSGH_BITS_CIRCULAR \<noteq> 0"
  using assms
proof (induction rule: msg_step.induct)
  case (Send_Woken th s kmsg option timeout out k)
  have "msgh_bits kmsg AND MACH_MSGH_BITS_CIRCULAR \<noteq> 0" if "destroys kmsg option (ms_kernel s)"
    using that by (simp add: destroys_def split: option.splits)
  then show ?case using Send_Woken.prems by (auto simp: lost_def Let_def)
qed (simp_all add: send_done_def receive_done_def)

lemma lost_circular:
  assumes "(msg_step others)\<^sup>*\<^sup>* (start k) s"
  shows "\<forall>a. \<forall>m\<in>set (ms_lost s a). msgh_remote_port m = a \<and> msgh_bits m AND MACH_MSGH_BITS_CIRCULAR \<noteq> 0"
  using assms
proof (induction rule: rtranclp_induct)
  case base
  show ?case by (simp add: start_def)
next
  case (step s s')
  then show ?case by (rule_tac lost_circular_step)
qed

end
