(* ===== verification/Ipc_Message_Boot.thy ===== *)
theory Ipc_Message_Boot
  imports Ipc_Boot Ipc_Message_Receive
begin

section \<open>A run of the message system\<close>

definition queue_kernel :: ipc_kernel where
  "queue_kernel = boot_kernel\<lparr>k_ports := [0x3000 \<mapsto> send_port], k_psets := [0x7000 \<mapsto> some_pset]\<rparr>"

lemma queue_kernel_sel [simp]:
  "k_ports queue_kernel = [0x3000 \<mapsto> send_port]" "k_psets queue_kernel = [0x7000 \<mapsto> some_pset]"
  "k_events queue_kernel = []"
  by (simp_all add: queue_kernel_def boot_kernel_def)

lemma send_port_counts:
  "ip_msgcount send_port = 0" "ip_qlimit send_port = 5" "ip_seqno send_port = 0" "ip_messages send_port = ipc_mqueue_init"
  by (simp_all add: send_port_def ipc_port_init_def fresh_port_def MACH_PORT_QLIMIT_DEFAULT_def)

lemma queue_kernel_ok: "psets_ok one_other queue_kernel" and queue_kernel_quiet: "quiet_kernel queue_kernel"
proof -
  have "members queue_kernel a = (if a = IPS_NULL then {0x3000} else {})" for a
    by (auto simp: members_def split: if_splits)
  then show "psets_ok one_other queue_kernel"
    unfolding psets_inv_def by (simp add: send_port_counts one_other_def IPS_NULL_def mqueue_ok_def ipc_mqueue_init_def)
  show "quiet_kernel queue_kernel"
    by (simp add: send_port_counts quiet_kernel_def queued_def port_queue_def ipc_mqueue_init_def)
qed

text \<open>One thread sends a message to the port, another receives it.\<close>

definition sent_kernel :: ipc_kernel where
  "sent_kernel = put_port 0x3000 (send_port\<lparr>ip_msgcount := 1, ip_messages := \<lparr>imq_messages = [some_kmsg], imq_threads = []\<rparr>\<rparr>)
     queue_kernel"

definition received_kernel :: ipc_kernel where
  "received_kernel = put_port 0x3000 (send_port\<lparr>ip_seqno := 1\<rparr>) queue_kernel"

definition after_send :: msg_system where
  "after_send = send_done 0xb000 some_kmsg 0 0 (Send_Return MACH_MSG_SUCCESS) sent_kernel (start queue_kernel)"

definition after_receive :: msg_system where
  "after_receive = receive_done 0xc000 (Port_Queue 0x3000) 0 100 0 (Received some_kmsg 0) received_kernel after_send"

lemma some_kmsg_sel [simp]:
  "msgh_remote_port some_kmsg = 0x3000" "msgh_bits some_kmsg = 0" "ikm_marequest some_kmsg = 0" "msgh_size some_kmsg = 24"
  by (simp_all add: some_kmsg_def)

lemma send_enters:
  "send_round (calling t) some_kmsg 0 0 queue_kernel = Some (Send_Return MACH_MSG_SUCCESS, sent_kernel)"
  by (simp add: send_port_counts send_round_def mqueue_enter_def mqueue_post_def ipc_mqueue_init_def sent_kernel_def send_room_def
      wake_def put_port_def Let_def)
    (simp add: queue_kernel_def boot_kernel_def send_port_def ipc_port_init_def fresh_port_def)

lemma receive_takes:
  "receive_round (Port_Queue 0x3000) (calling t) 0 100 0 sent_kernel = Some (Received some_kmsg 0, received_kernel)"
  by (simp add: send_port_counts receive_round_def receive_finish_def mqueue_take_def sent_kernel_def received_kernel_def Let_def put_port_def)
    (simp add: queue_kernel_def boot_kernel_def send_port_def ipc_port_init_def fresh_port_def ipc_mqueue_init_def some_kmsg_def)

lemma after_send_step: "msg_step one_other (start queue_kernel) after_send"
  unfolding after_send_def
  by (rule msg_step.Send) (use send_enters in \<open>simp_all add: start_def count_fits_def send_port_counts\<close>)

lemma after_receive_step: "msg_step one_other after_send after_receive"
  unfolding after_receive_def
  by (rule msg_step.Receive)
    (use receive_takes in \<open>simp_all add: send_port_counts after_send_def send_done_def start_def sent_kernel_def\<close>)

lemma after_receive_run: "(msg_step one_other)\<^sup>*\<^sup>* (start queue_kernel) after_receive"
  using after_send_step after_receive_step by (meson converse_rtranclp_into_rtranclp rtranclp.rtrancl_refl)

text \<open>With no place in the queue, the sender waits.\<close>

definition full_kernel :: ipc_kernel where "full_kernel = put_port 0x3000 (send_port\<lparr>ip_qlimit := 0\<rparr>) queue_kernel"

definition after_block :: msg_system where
  "after_block = send_done 0xb000 some_kmsg 0 0 Send_Block
     (put_port 0x3000 (send_port\<lparr>ip_qlimit := 0, ip_blocked := [(calling 0xb000)\<lparr>ith_state := MACH_SEND_IN_PROGRESS\<rparr>]\<rparr>) queue_kernel)
     ((start queue_kernel)\<lparr>ms_kernel := full_kernel\<rparr>)"

lemma after_block_run: "(msg_step one_other)\<^sup>*\<^sup>* (start queue_kernel) after_block"
proof -
  have "ipc_port_set_qlimit 0x3000 0 (ms_kernel (start queue_kernel)) = Some full_kernel"
    by (simp add: send_port_counts ipc_port_set_qlimit_def start_def full_kernel_def wake_def put_port_def)
  then have "msg_step one_other (start queue_kernel) ((start queue_kernel)\<lparr>ms_kernel := full_kernel\<rparr>)"
    by (rule msg_step.Set_Qlimit) simp
  moreover have "msg_step one_other ((start queue_kernel)\<lparr>ms_kernel := full_kernel\<rparr>) after_block"
    unfolding after_block_def
    by (rule msg_step.Send)
      (simp_all add: send_port_counts start_def count_fits_def full_kernel_def send_round_def send_room_def calling_def type_consts Let_def MACH_MSGH_BITS_REMOTE_def put_port_def)
  ultimately show ?thesis by (meson converse_rtranclp_into_rtranclp rtranclp.rtrancl_refl)
qed

lemma after_receive_lists:
  "ms_received after_receive 0x3000 = [(some_kmsg, 0)]" "ms_sent after_receive 0x3000 = [some_kmsg]"
  using send_port_sel(2)
  by (simp_all add: send_port_counts after_receive_def receive_done_def got_def after_send_def send_done_def start_def accepts_def
      send_room_def queued_def port_queue_def ipc_mqueue_init_def)

lemma pred_less: "0 < c \<Longrightarrow> c - 1 < c" for c :: "16 word"
  by (simp add: word_less_nat_alt unat_minus_one unat_gt_0)

definition stranded_port :: ipc_port where
  "stranded_port = send_port\<lparr>ip_qlimit := 1, ip_msgcount := 1, ip_blocked := [calling 0xb000, calling 0xc000]\<rparr>"

definition stranded_kernel :: ipc_kernel where "stranded_kernel = put_port 0x3000 stranded_port queue_kernel"

end
