(* ===== verification/Vm_Page.thy ===== *)
theory Vm_Page
  imports Ipc_Table "HOL-Library.Monad_Syntax"
begin

section \<open>Resident pages\<close>

text \<open>
  \<open>vm/vm_resident.c\<close>: the pages of physical memory, the hash table that finds the page of an object at
  an offset, the list of pages of every object, and the queues of free, active and inactive pages.
  Pages and objects are named by address in stores; the queues and the chains of the hash table are
  lists of addresses, first element first.  \<open>None\<close> is a panic or a wild pointer.
\<close>

definition page_size :: u32 where "page_size = MAC2_PGBYTES"
definition page_shift :: nat where "page_shift = 13"

record vm_page =
  vp_object :: addr
  vp_offset :: u32
  vp_wire_count :: "16 word"
  vp_inactive :: bool
  vp_active :: bool
  vp_laundry :: bool
  vp_free :: bool
  vp_reference :: bool
  vp_busy :: bool
  vp_wanted :: bool
  vp_tabled :: bool
  vp_fictitious :: bool
  vp_private :: bool
  vp_absent :: bool
  vp_error :: bool
  vp_dirty :: bool
  vp_precious :: bool
  vp_overwriting :: bool
  vp_phys_addr :: u32
  vp_page_lock :: u32
  vp_unlock_request :: u32

text \<open>
  The object of \<open>vm/vm_object.h\<close>, without its locks, its wake-up bits and its place in the queue of
  cached objects.  \<open>ob_memq\<close> lists its pages.  \<open>ref_count\<close>, \<open>resident_page_count\<close> and
  \<open>paging_in_progress\<close> are 16 bits wide; the first two are signed shorts in the code, and are read as
  such (\<open>sint\<close>, \<open>scast\<close>) wherever their sign matters.
\<close>

record vm_object =
  ob_memq :: "addr list"
  ob_size :: u32
  ob_ref_count :: "16 word"
  ob_resident_page_count :: "16 word"
  ob_copy :: addr
  ob_shadow :: addr
  ob_shadow_offset :: u32
  ob_pager :: addr
  ob_paging_offset :: u32
  ob_pager_request :: addr
  ob_pager_name :: addr
  ob_absent_count :: u32
  ob_paging_in_progress :: "16 word"
  ob_pager_created :: bool
  ob_pager_initialized :: bool
  ob_pager_ready :: bool
  ob_can_persist :: bool
  ob_internal :: bool
  ob_temporary :: bool
  ob_alive :: bool
  ob_last_alloc :: u32

text \<open>Calls of other parts: the physical maps and the scheduler.\<close>

datatype vm_event =
    Pmap_Clear_Reference u32
  | Pmap_Page_Protect u32 u32
  | Pmap_Protect addr u32 u32 u32
  | Pmap_Remove addr u32 u32
  | Pmap_Remove_Attributes addr u32 u32
  | Thread_Wakeup addr
  | Thread_Wakeup_Free_Wanted
  | Thread_Wakeup_One_Free_Count
  | Absent_Wakeup addr
  | Kobject_Set addr addr
  | Pmap_Zero_Page u32
  | Pmap_Copy_Page u32 u32

record vm_state =
  vm_pages :: "addr \<Rightarrow> vm_page option"
  vm_objects :: "addr \<Rightarrow> vm_object option"
  vm_page_buckets :: "u32 \<Rightarrow> addr list"
  vm_page_hash_mask :: u32
  vm_page_queue_free :: "addr list"
  vm_page_queue_fictitious :: "addr list"
  vm_page_queue_active :: "addr list"
  vm_page_queue_inactive :: "addr list"
  vm_page_free_count :: int
  vm_page_fictitious_count :: int
  vm_page_active_count :: int
  vm_page_inactive_count :: int
  vm_page_wire_count :: int
  vm_page_laundry_count :: int
  vm_page_free_count_minimum :: int
  vm_page_free_target :: int
  vm_page_free_min :: int
  vm_page_inactive_target :: int
  vm_page_free_reserved :: int
  vm_page_free_wanted :: u32
  vm_page_fictitious_addr :: u32
  vm_events :: "vm_event list"

definition vm_post :: "vm_event \<Rightarrow> 'a vm_state_scheme \<Rightarrow> 'a vm_state_scheme" where
  "vm_post e s = s\<lparr>vm_events := vm_events s @ [e]\<rparr>"

definition put_page :: "addr \<Rightarrow> vm_page \<Rightarrow> 'a vm_state_scheme \<Rightarrow> 'a vm_state_scheme" where
  "put_page m p s = s\<lparr>vm_pages := (vm_pages s)(m \<mapsto> p)\<rparr>"

definition put_object :: "addr \<Rightarrow> vm_object \<Rightarrow> 'a vm_state_scheme \<Rightarrow> 'a vm_state_scheme" where
  "put_object a ob s = s\<lparr>vm_objects := (vm_objects s)(a \<mapsto> ob)\<rparr>"

text \<open>\<open>vm_page_template\<close>, from which a page is initialised.\<close>

definition vm_page_init :: "u32 \<Rightarrow> vm_page" where
  "vm_page_init phys_addr =
     \<lparr>vp_object = 0, vp_offset = 0, vp_wire_count = 0, vp_inactive = False, vp_active = False,
      vp_laundry = False, vp_free = False, vp_reference = False, vp_busy = True, vp_wanted = False,
      vp_tabled = False, vp_fictitious = False, vp_private = False, vp_absent = False, vp_error = False,
      vp_dirty = False, vp_precious = False, vp_overwriting = False, vp_phys_addr = phys_addr,
      vp_page_lock = 0, vp_unlock_request = 0\<rparr>"

subsection \<open>The table of pages\<close>

definition vm_page_hash :: "addr \<Rightarrow> u32 \<Rightarrow> 'a vm_state_scheme \<Rightarrow> u32" where
  "vm_page_hash object offset s = (object + drop_bit page_shift offset) AND vm_page_hash_mask s"

definition vm_page_lookup :: "addr \<Rightarrow> u32 \<Rightarrow> 'a vm_state_scheme \<Rightarrow> addr option" where
  "vm_page_lookup object offset s =
     find (\<lambda>m. case vm_pages s m of None \<Rightarrow> False | Some p \<Rightarrow> vp_object p = object \<and> vp_offset p = offset)
       (vm_page_buckets s (vm_page_hash object offset s))"

subsection \<open>The queues\<close>

definition queues_remove :: "addr \<Rightarrow> 'a vm_state_scheme \<Rightarrow> 'a vm_state_scheme option" where
  "queues_remove m s =
     do {
       p \<leftarrow> vm_pages s m;
       let s = (if vp_active p
                then put_page m (p\<lparr>vp_active := False\<rparr>)
                       (s\<lparr>vm_page_queue_active := remove1 m (vm_page_queue_active s),
                          vm_page_active_count := vm_page_active_count s - 1\<rparr>)
                else s);
       p \<leftarrow> vm_pages s m;
       Some (if vp_inactive p
             then put_page m (p\<lparr>vp_inactive := False\<rparr>)
                    (s\<lparr>vm_page_queue_inactive := remove1 m (vm_page_queue_inactive s),
                       vm_page_inactive_count := vm_page_inactive_count s - 1\<rparr>)
             else s)
     }"

definition vm_page_deactivate :: "addr \<Rightarrow> 'a vm_state_scheme \<Rightarrow> 'a vm_state_scheme option" where
  "vm_page_deactivate m s =
     do {
       p \<leftarrow> vm_pages s m;
       s \<leftarrow> (if vp_active p \<or> vp_inactive p \<and> vp_reference p
             then let s = (if \<not> vp_fictitious p \<and> \<not> vp_absent p
                           then vm_post (Pmap_Clear_Reference (vp_phys_addr p)) s else s);
                      s = put_page m (p\<lparr>vp_reference := False\<rparr>) s
                  in queues_remove m s
             else Some s);
       p \<leftarrow> vm_pages s m;
       Some (if vp_wire_count p = 0 \<and> \<not> vp_inactive p
             then put_page m (p\<lparr>vp_inactive := True\<rparr>)
                    (s\<lparr>vm_page_queue_inactive := vm_page_queue_inactive s @ [m],
                       vm_page_inactive_count := vm_page_inactive_count s + 1\<rparr>)
             else s)
     }"

definition vm_page_activate :: "addr \<Rightarrow> 'a vm_state_scheme \<Rightarrow> 'a vm_state_scheme option" where
  "vm_page_activate m s =
     do {
       p \<leftarrow> vm_pages s m;
       let s = (if vp_inactive p
                then put_page m (p\<lparr>vp_inactive := False\<rparr>)
                       (s\<lparr>vm_page_queue_inactive := remove1 m (vm_page_queue_inactive s),
                          vm_page_inactive_count := vm_page_inactive_count s - 1\<rparr>)
                else s);
       p \<leftarrow> vm_pages s m;
       if vp_wire_count p = 0
       then if vp_active p then None
            else Some (put_page m (p\<lparr>vp_active := True\<rparr>)
                         (s\<lparr>vm_page_queue_active := vm_page_queue_active s @ [m],
                            vm_page_active_count := vm_page_active_count s + 1\<rparr>))
       else Some s
     }"

definition vm_page_wire :: "addr \<Rightarrow> 'a vm_state_scheme \<Rightarrow> 'a vm_state_scheme option" where
  "vm_page_wire m s =
     do {
       p \<leftarrow> vm_pages s m;
       s \<leftarrow> (if vp_wire_count p = 0
             then do {
               s \<leftarrow> queues_remove m s;
               Some (if \<not> vp_private p \<and> \<not> vp_fictitious p
                     then s\<lparr>vm_page_wire_count := vm_page_wire_count s + 1\<rparr> else s)
             }
             else Some s);
       p \<leftarrow> vm_pages s m;
       Some (put_page m (p\<lparr>vp_wire_count := vp_wire_count p + 1\<rparr>) s)
     }"

definition vm_page_unwire :: "addr \<Rightarrow> 'a vm_state_scheme \<Rightarrow> 'a vm_state_scheme option" where
  "vm_page_unwire m s =
     do {
       p \<leftarrow> vm_pages s m;
       let p = p\<lparr>vp_wire_count := vp_wire_count p - 1\<rparr>;
       Some (if vp_wire_count p = 0
             then let s = put_page m (p\<lparr>vp_active := True\<rparr>)
                        (s\<lparr>vm_page_queue_active := vm_page_queue_active s @ [m],
                           vm_page_active_count := vm_page_active_count s + 1\<rparr>)
                  in if \<not> vp_private p \<and> \<not> vp_fictitious p
                     then s\<lparr>vm_page_wire_count := vm_page_wire_count s - 1\<rparr> else s
             else put_page m p s)
     }"

subsection \<open>Entering and removing pages\<close>

text \<open>
  The end of \<open>vm_page_insert\<close>: a page that continues a sequential access makes the one before it
  inactive (\<open>vm_page_deactivate_behind\<close> is never cleared).
\<close>

definition deactivate_behind :: "addr \<Rightarrow> u32 \<Rightarrow> 'a vm_state_scheme \<Rightarrow> 'a vm_state_scheme option" where
  "deactivate_behind object offset s =
     do {
       ob \<leftarrow> vm_objects s object;
       if offset = ob_last_alloc ob + page_size
       then case vm_page_lookup object (ob_last_alloc ob) s of
              None \<Rightarrow> Some s
            | Some last_mem \<Rightarrow> do {
                p \<leftarrow> vm_pages s last_mem;
                if \<not> vp_busy p then vm_page_deactivate last_mem s else Some s
              }
       else Some s
     }"

definition vm_page_insert :: "addr \<Rightarrow> addr \<Rightarrow> u32 \<Rightarrow> 'a vm_state_scheme \<Rightarrow> 'a vm_state_scheme option" where
  "vm_page_insert m object offset s =
     do {
       p \<leftarrow> vm_pages s m;
       ob \<leftarrow> vm_objects s object;
       if vp_tabled p then None
       else do {
         let h = vm_page_hash object offset s;
         let s = put_page m (p\<lparr>vp_object := object, vp_offset := offset, vp_tabled := True\<rparr>)
               (s\<lparr>vm_page_buckets := (vm_page_buckets s)(h := m # vm_page_buckets s h)\<rparr>);
         let s = put_object object (ob\<lparr>ob_memq := ob_memq ob @ [m],
               ob_resident_page_count := ob_resident_page_count ob + 1\<rparr>) s;
         s \<leftarrow> deactivate_behind object offset s;
         ob \<leftarrow> vm_objects s object;
         Some (put_object object (ob\<lparr>ob_last_alloc := offset\<rparr>) s)
       }
     }"

definition vm_page_remove :: "addr \<Rightarrow> 'a vm_state_scheme \<Rightarrow> 'a vm_state_scheme option" where
  "vm_page_remove m s =
     do {
       p \<leftarrow> vm_pages s m;
       ob \<leftarrow> vm_objects s (vp_object p);
       let h = vm_page_hash (vp_object p) (vp_offset p) s;
       if m \<notin> set (vm_page_buckets s h) then None
       else
         Some (put_page m (p\<lparr>vp_tabled := False\<rparr>)
           (put_object (vp_object p) (ob\<lparr>ob_memq := remove1 m (ob_memq ob),
              ob_resident_page_count := ob_resident_page_count ob - 1\<rparr>)
             (s\<lparr>vm_page_buckets := (vm_page_buckets s)(h := remove1 m (vm_page_buckets s h))\<rparr>)))
     }"

definition vm_page_rename :: "addr \<Rightarrow> addr \<Rightarrow> u32 \<Rightarrow> 'a vm_state_scheme \<Rightarrow> 'a vm_state_scheme option" where
  "vm_page_rename m new_object new_offset s =
     do { s \<leftarrow> vm_page_remove m s; vm_page_insert m new_object new_offset s }"

subsection \<open>Free pages\<close>

definition vm_page_release :: "addr \<Rightarrow> 'a vm_state_scheme \<Rightarrow> 'a vm_state_scheme option" where
  "vm_page_release m s =
     do {
       p \<leftarrow> vm_pages s m;
       if vp_free p then None
       else
         let s = put_page m (p\<lparr>vp_free := True\<rparr>)
               (s\<lparr>vm_page_queue_free := m # vm_page_queue_free s, vm_page_free_count := vm_page_free_count s + 1\<rparr>)
         in Some (if 0 < vm_page_free_wanted s \<and> vm_page_free_reserved s \<le> vm_page_free_count s
                  then vm_post Thread_Wakeup_One_Free_Count (s\<lparr>vm_page_free_wanted := vm_page_free_wanted s - 1\<rparr>)
                  else s)
     }"

definition vm_page_release_fictitious :: "addr \<Rightarrow> 'a vm_state_scheme \<Rightarrow> 'a vm_state_scheme option" where
  "vm_page_release_fictitious m s =
     do {
       p \<leftarrow> vm_pages s m;
       if vp_free p then None
       else Some (put_page m (p\<lparr>vp_free := True\<rparr>)
              (s\<lparr>vm_page_queue_fictitious := m # vm_page_queue_fictitious s,
                 vm_page_fictitious_count := vm_page_fictitious_count s + 1\<rparr>))
     }"

text \<open>\<open>privileged\<close> is \<open>vm_privilege\<close> of the current thread.\<close>

definition vm_page_grab :: "bool \<Rightarrow> 'a vm_state_scheme \<Rightarrow> (addr option \<times> 'a vm_state_scheme) option" where
  "vm_page_grab privileged s =
     (if vm_page_free_count s < vm_page_free_reserved s \<and> \<not> privileged then Some (None, s)
      else case vm_page_queue_free s of
        [] \<Rightarrow> None
      | m # rest \<Rightarrow> do {
          p \<leftarrow> vm_pages s m;
          let s = put_page m (p\<lparr>vp_free := False\<rparr>)
                (s\<lparr>vm_page_queue_free := rest, vm_page_free_count := vm_page_free_count s - 1,
                   vm_page_free_count_minimum := min (vm_page_free_count_minimum s) (vm_page_free_count s - 1)\<rparr>);
          let s = (if vm_page_free_count s < vm_page_free_min s \<or>
                      vm_page_free_count s < vm_page_free_target s \<and> vm_page_inactive_count s < vm_page_inactive_target s
                   then vm_post Thread_Wakeup_Free_Wanted s else s);
          Some (Some m, s)
        })"

definition vm_page_grab_fictitious :: "'a vm_state_scheme \<Rightarrow> (addr option \<times> 'a vm_state_scheme) option" where
  "vm_page_grab_fictitious s =
     (case vm_page_queue_fictitious s of
        [] \<Rightarrow> Some (None, s)
      | m # rest \<Rightarrow> do {
          p \<leftarrow> vm_pages s m;
          Some (Some m, put_page m (p\<lparr>vp_free := False\<rparr>)
            (s\<lparr>vm_page_queue_fictitious := rest, vm_page_fictitious_count := vm_page_fictitious_count s - 1\<rparr>))
        })"

definition vm_page_convert :: "bool \<Rightarrow> addr \<Rightarrow> 'a vm_state_scheme \<Rightarrow> (bool \<times> 'a vm_state_scheme) option" where
  "vm_page_convert privileged m s =
     do {
       (real, s) \<leftarrow> vm_page_grab privileged s;
       case real of
         None \<Rightarrow> Some (False, s)
       | Some real_m \<Rightarrow> do {
           r \<leftarrow> vm_pages s real_m;
           p \<leftarrow> vm_pages s m;
           let s = put_page m (p\<lparr>vp_phys_addr := vp_phys_addr r, vp_fictitious := False\<rparr>) s;
           r \<leftarrow> vm_pages s real_m;
           let s = put_page real_m (r\<lparr>vp_phys_addr := vm_page_fictitious_addr s, vp_fictitious := True\<rparr>) s;
           s \<leftarrow> vm_page_release_fictitious real_m s;
           Some (True, s)
         }
     }"

definition vm_page_alloc :: "bool \<Rightarrow> addr \<Rightarrow> u32 \<Rightarrow> 'a vm_state_scheme \<Rightarrow> (addr option \<times> 'a vm_state_scheme) option" where
  "vm_page_alloc privileged object offset s =
     do {
       (found, s) \<leftarrow> vm_page_grab privileged s;
       case found of
         None \<Rightarrow> Some (None, s)
       | Some m \<Rightarrow> do { s \<leftarrow> vm_page_insert m object offset s; Some (Some m, s) }
     }"

text \<open>\<open>PAGE_WAKEUP_DONE\<close>.\<close>

definition page_wakeup_done :: "addr \<Rightarrow> 'a vm_state_scheme \<Rightarrow> 'a vm_state_scheme option" where
  "page_wakeup_done m s =
     do {
       p \<leftarrow> vm_pages s m;
       let s' = put_page m (p\<lparr>vp_busy := False, vp_wanted := False\<rparr>) s;
       Some (if vp_wanted p then vm_post (Thread_Wakeup m) s' else s')
     }"

definition vm_page_free :: "addr \<Rightarrow> 'a vm_state_scheme \<Rightarrow> 'a vm_state_scheme option" where
  "vm_page_free m s =
     do {
       p \<leftarrow> vm_pages s m;
       if vp_free p then None
       else do {
         s \<leftarrow> (if vp_tabled p then vm_page_remove m s else Some s);
         s \<leftarrow> queues_remove m s;
         p \<leftarrow> vm_pages s m;
         let s = (if vp_wire_count p \<noteq> 0
                  then put_page m (p\<lparr>vp_wire_count := 0\<rparr>)
                         (if \<not> vp_private p \<and> \<not> vp_fictitious p
                          then s\<lparr>vm_page_wire_count := vm_page_wire_count s - 1\<rparr> else s)
                  else s);
         p \<leftarrow> vm_pages s m;
         let s = (if vp_laundry p
                  then put_page m (p\<lparr>vp_laundry := False\<rparr>)
                         (s\<lparr>vm_page_laundry_count := vm_page_laundry_count s - 1\<rparr>)
                  else s);
         s \<leftarrow> page_wakeup_done m s;
         s \<leftarrow> (if vp_absent p
               then do {
                 ob \<leftarrow> vm_objects s (vp_object p);
                 Some (vm_post (Absent_Wakeup (vp_object p))
                   (put_object (vp_object p) (ob\<lparr>ob_absent_count := ob_absent_count ob - 1\<rparr>) s))
               }
               else Some s);
         if vp_private p \<or> vp_fictitious p
         then vm_page_release_fictitious m
                (put_page m ((vm_page_init (vm_page_fictitious_addr s))\<lparr>vp_fictitious := True\<rparr>) s)
         else vm_page_release m (put_page m (vm_page_init (vp_phys_addr p)) s)
       }
     }"

text \<open>\<open>vm_page_replace\<close>: the page that is at the offset, if any, goes.\<close>

definition vm_page_replace :: "addr \<Rightarrow> addr \<Rightarrow> u32 \<Rightarrow> 'a vm_state_scheme \<Rightarrow> 'a vm_state_scheme option" where
  "vm_page_replace mem object offset s =
     do {
       p \<leftarrow> vm_pages s mem;
       if vp_tabled p then None
       else do {
         let s = put_page mem (p\<lparr>vp_object := object, vp_offset := offset\<rparr>) s;
         let h = vm_page_hash object offset s;
         s \<leftarrow> (case vm_page_lookup object offset s of
                None \<Rightarrow> Some s
              | Some m \<Rightarrow> do { s \<leftarrow> vm_page_remove m s; vm_page_free m s });
         p \<leftarrow> vm_pages s mem;
         ob \<leftarrow> vm_objects s object;
         let s = put_page mem (p\<lparr>vp_tabled := True\<rparr>)
               (s\<lparr>vm_page_buckets := (vm_page_buckets s)(h := mem # vm_page_buckets s h)\<rparr>);
         Some (put_object object (ob\<lparr>ob_memq := ob_memq ob @ [mem],
           ob_resident_page_count := ob_resident_page_count ob + 1\<rparr>) s)
       }
     }"

definition vm_page_grab_phys_addr :: "bool \<Rightarrow> 'a vm_state_scheme \<Rightarrow> (u32 \<times> 'a vm_state_scheme) option" where
  "vm_page_grab_phys_addr privileged s =
     do {
       (r, s) \<leftarrow> vm_page_grab privileged s;
       case r of
         None \<Rightarrow> Some (- 1, s)
       | Some m \<Rightarrow> do { p \<leftarrow> vm_pages s m; Some (vp_phys_addr p, s) }
     }"

text \<open>\<open>vm_page_wait\<close>, up to the block: the result tells whether the thread blocks.\<close>

definition vm_page_wait :: "'a vm_state_scheme \<Rightarrow> bool \<times> 'a vm_state_scheme" where
  "vm_page_wait s =
     (if vm_page_free_count s < vm_page_free_target s
      then let s' = s\<lparr>vm_page_free_wanted := vm_page_free_wanted s + 1\<rparr>
           in (True, if vm_page_free_wanted s = 0 then vm_post Thread_Wakeup_Free_Wanted s' else s')
      else (False, s))"

definition vm_page_zero_fill :: "addr \<Rightarrow> 'a vm_state_scheme \<Rightarrow> 'a vm_state_scheme option" where
  "vm_page_zero_fill m s = do { p \<leftarrow> vm_pages s m; Some (vm_post (Pmap_Zero_Page (vp_phys_addr p)) s) }"

definition vm_page_copy :: "addr \<Rightarrow> addr \<Rightarrow> 'a vm_state_scheme \<Rightarrow> 'a vm_state_scheme option" where
  "vm_page_copy src_m dest_m s =
     do {
       p \<leftarrow> vm_pages s src_m;
       q \<leftarrow> vm_pages s dest_m;
       Some (vm_post (Pmap_Copy_Page (vp_phys_addr p) (vp_phys_addr q)) s)
     }"

end
