(* ===== verification/Vm_Page_Facts.thy ===== *)
theory Vm_Page_Facts
  imports Vm_Page
begin

section \<open>What the table of pages and the queues promise\<close>

subsection \<open>The table\<close>

text \<open>
  A page that is tabled has a place: an object and an offset.  The table is right when every chain has
  the pages that hash to it, every object lists its pages and counts them, and no two pages have the
  same place.
\<close>

definition place :: "'a vm_state_scheme \<Rightarrow> addr \<Rightarrow> (addr \<times> u32) option" where
  "place s m =
     (case vm_pages s m of
        None \<Rightarrow> None
      | Some p \<Rightarrow> if vp_tabled p then Some (vp_object p, vp_offset p) else None)"

definition chains_ok :: "'a vm_state_scheme \<Rightarrow> bool" where
  "chains_ok s \<longleftrightarrow>
     (\<forall>h. distinct (vm_page_buckets s h) \<and>
        (\<forall>m. m \<in> set (vm_page_buckets s h) \<longleftrightarrow> (\<exists>a off. place s m = Some (a, off) \<and> vm_page_hash a off s = h)))"

definition memq_ok :: "'a vm_state_scheme \<Rightarrow> bool" where
  "memq_ok s \<longleftrightarrow>
     (\<forall>a ob. vm_objects s a = Some ob \<longrightarrow>
        distinct (ob_memq ob) \<and> (\<forall>m. m \<in> set (ob_memq ob) \<longleftrightarrow> (\<exists>off. place s m = Some (a, off))) \<and>
        ob_resident_page_count ob = of_nat (length (ob_memq ob)))"

definition table_ok :: "'a vm_state_scheme \<Rightarrow> bool" where
  "table_ok s \<longleftrightarrow> chains_ok s \<and> memq_ok s \<and>
     (\<forall>m a off. place s m = Some (a, off) \<longrightarrow> vm_objects s a \<noteq> None) \<and>
     (\<forall>m m' x. place s m = Some x \<longrightarrow> place s m' = Some x \<longrightarrow> m = m')"

lemma vm_put_sel [simp]:
  "vm_pages (put_page m p s) = (vm_pages s)(m \<mapsto> p)" "vm_objects (put_page m p s) = vm_objects s"
  "vm_page_buckets (put_page m p s) = vm_page_buckets s" "vm_page_hash_mask (put_page m p s) = vm_page_hash_mask s"
  "vm_objects (put_object a ob s) = (vm_objects s)(a \<mapsto> ob)" "vm_pages (put_object a ob s) = vm_pages s"
  "vm_page_buckets (put_object a ob s) = vm_page_buckets s" "vm_page_hash_mask (put_object a ob s) = vm_page_hash_mask s"
  "vm_pages (vm_post e s) = vm_pages s" "vm_objects (vm_post e s) = vm_objects s"
  "vm_page_buckets (vm_post e s) = vm_page_buckets s" "vm_page_hash_mask (vm_post e s) = vm_page_hash_mask s"
  by (simp_all add: put_page_def put_object_def vm_post_def)

lemma place_put [simp]:
  "place (put_page m p s) = (place s)(m := if vp_tabled p then Some (vp_object p, vp_offset p) else None)"
  "place (put_object a ob s) = place s" "place (vm_post e s) = place s"
  by (auto simp: place_def fun_eq_iff)

lemma vm_page_hash_cong: "vm_page_hash_mask s' = vm_page_hash_mask s \<Longrightarrow> vm_page_hash a off s' = vm_page_hash a off s"
  by (simp add: vm_page_hash_def)

lemma placeD: "place s m = Some (a, off) \<Longrightarrow> \<exists>p. vm_pages s m = Some p \<and> vp_tabled p \<and> vp_object p = a \<and> vp_offset p = off"
  by (auto simp: place_def split: option.splits if_splits)

lemma placeI: "vm_pages s m = Some p \<Longrightarrow> vp_tabled p \<Longrightarrow> place s m = Some (vp_object p, vp_offset p)"
  by (simp add: place_def)

text \<open>The lookup finds exactly the page with the place.\<close>

lemma vm_page_lookup_spec:
  assumes "table_ok s"
  shows "vm_page_lookup a off s = Some m \<longleftrightarrow> place s m = Some (a, off)"
proof -
  let ?h = "vm_page_hash a off s"
  let ?P = "\<lambda>m. case vm_pages s m of None \<Rightarrow> False | Some p \<Rightarrow> vp_object p = a \<and> vp_offset p = off"
  have in_chain: "m \<in> set (vm_page_buckets s ?h) \<longleftrightarrow> (\<exists>a' off'. place s m = Some (a', off') \<and> vm_page_hash a' off' s = ?h)" for m
    using assms by (auto simp: table_ok_def chains_ok_def)
  have P: "?P m \<longleftrightarrow> place s m = Some (a, off)" if "m \<in> set (vm_page_buckets s ?h)" for m
    using that unfolding in_chain by (auto simp: place_def split: option.splits if_splits)
  show ?thesis
  proof
    assume "vm_page_lookup a off s = Some m"
    then have "m \<in> set (vm_page_buckets s ?h)" "?P m" by (auto simp: vm_page_lookup_def find_Some_iff)
    with P show "place s m = Some (a, off)" by blast
  next
    assume m: "place s m = Some (a, off)"
    then have "m \<in> set (vm_page_buckets s ?h)" unfolding in_chain by blast
    moreover from this m P have "?P m" by blast
    ultimately have "find ?P (vm_page_buckets s ?h) \<noteq> None" by (auto simp: find_None_iff)
    then obtain m' where m': "find ?P (vm_page_buckets s ?h) = Some m'" by blast
    then have "m' \<in> set (vm_page_buckets s ?h)" "?P m'" by (auto simp: find_Some_iff)
    with P have "place s m' = Some (a, off)" by blast
    with m assms have "m' = m" by (auto simp: table_ok_def)
    with m' show "vm_page_lookup a off s = Some m" by (simp add: vm_page_lookup_def)
  qed
qed

lemma vm_page_lookup_None:
  assumes "table_ok s"
  shows "vm_page_lookup a off s = None \<longleftrightarrow> (\<forall>m. place s m \<noteq> Some (a, off))"
  using vm_page_lookup_spec [OF assms, of a off] by (metis not_None_eq option.distinct(1))

text \<open>What the table does not see.\<close>

definition page_data :: "vm_page \<Rightarrow> u32 \<times> bool \<times> bool \<times> bool \<times> bool \<times> bool \<times> bool \<times> bool" where
  "page_data p = (vp_phys_addr p, vp_absent p, vp_busy p, vp_free p, vp_fictitious p, vp_private p, vp_dirty p, vp_precious p)"

definition table_frame :: "'a vm_state_scheme \<Rightarrow> 'a vm_state_scheme \<Rightarrow> bool" where
  "table_frame s s' \<longleftrightarrow> place s' = place s \<and> vm_page_buckets s' = vm_page_buckets s \<and>
     vm_page_hash_mask s' = vm_page_hash_mask s \<and> vm_objects s' = vm_objects s \<and>
     (\<forall>m. map_option page_data (vm_pages s' m) = map_option page_data (vm_pages s m))"

lemma table_frame_refl [simp]: "table_frame s s" by (simp add: table_frame_def)

lemma table_frame_trans: "table_frame s1 s2 \<Longrightarrow> table_frame s2 s3 \<Longrightarrow> table_frame s1 s3"
  by (simp add: table_frame_def)

lemma table_ok_cong:
  assumes "place s' = place s" and "vm_page_buckets s' = vm_page_buckets s" and "vm_page_hash_mask s' = vm_page_hash_mask s"
    and "dom (vm_objects s') = dom (vm_objects s)"
    and "\<And>a ob ob'. vm_objects s a = Some ob \<Longrightarrow> vm_objects s' a = Some ob' \<Longrightarrow>
      ob_memq ob' = ob_memq ob \<and> ob_resident_page_count ob' = ob_resident_page_count ob"
    and "table_ok s"
  shows "table_ok s'"
proof -
  have ob: "\<exists>ob. vm_objects s a = Some ob \<and> ob_memq ob' = ob_memq ob \<and> ob_resident_page_count ob' = ob_resident_page_count ob"
    if "vm_objects s' a = Some ob'" for a ob'
  proof -
    have "a \<in> dom (vm_objects s)" using that assms(4) by blast
    then show ?thesis using assms(5) that by blast
  qed
  have some: "vm_objects s' a \<noteq> None \<longleftrightarrow> vm_objects s a \<noteq> None" for a using assms(4) by (auto simp: dom_def set_eq_iff)
  have "memq_ok s'"
    unfolding memq_ok_def assms(1)
  proof (intro allI impI)
    fix a ob' assume "vm_objects s' a = Some ob'"
    from ob [OF this] obtain ob where o: "vm_objects s a = Some ob" "ob_memq ob' = ob_memq ob"
        "ob_resident_page_count ob' = ob_resident_page_count ob" by blast
    show "distinct (ob_memq ob') \<and> (\<forall>m. m \<in> set (ob_memq ob') \<longleftrightarrow> (\<exists>off. place s m = Some (a, off))) \<and>
        ob_resident_page_count ob' = of_nat (length (ob_memq ob'))"
      using assms(6) o by (simp add: table_ok_def memq_ok_def)
  qed
  moreover have "chains_ok s'"
    using assms(6) unfolding table_ok_def chains_ok_def by (simp add: assms(1,2) vm_page_hash_cong [OF assms(3)])
  ultimately show ?thesis using assms(6) some unfolding table_ok_def by (simp add: assms(1))
qed

lemma table_frame_ok: "table_frame s s' \<Longrightarrow> table_ok s \<Longrightarrow> table_ok s'"
  by (rule table_ok_cong) (auto simp: table_frame_def)

lemma table_frame_lookup:
  assumes "table_frame s s'" and "table_ok s"
  shows "vm_page_lookup a off s' = vm_page_lookup a off s"
proof -
  have ok: "table_ok s'" by (rule table_frame_ok [OF assms])
  have "vm_page_lookup a off s' = Some m \<longleftrightarrow> vm_page_lookup a off s = Some m" for m
    unfolding vm_page_lookup_spec [OF ok] vm_page_lookup_spec [OF assms(2)] using assms(1) by (simp add: table_frame_def)
  then show ?thesis by (metis not_None_eq)
qed

lemma table_frame_put:
  assumes "vm_pages s m = Some p" and "vp_tabled p' = vp_tabled p" and "vp_object p' = vp_object p" and "vp_offset p' = vp_offset p"
    and "page_data p' = page_data p"
  shows "table_frame s (put_page m p' s)"
  using assms by (auto simp: table_frame_def place_def fun_eq_iff)

subsection \<open>Operations on the queues do not touch the table\<close>

lemma table_frame_upd [simp]:
  "table_frame s (s\<lparr>vm_page_queue_active := x\<rparr>) \<longleftrightarrow> True" "table_frame s (s\<lparr>vm_page_queue_inactive := x\<rparr>) \<longleftrightarrow> True"
  "table_frame s (s\<lparr>vm_page_active_count := n\<rparr>) \<longleftrightarrow> True" "table_frame s (s\<lparr>vm_page_inactive_count := n\<rparr>) \<longleftrightarrow> True"
  "table_frame s (vm_post e s) \<longleftrightarrow> True"
  by (simp_all add: table_frame_def place_def vm_post_def fun_eq_iff)

lemma table_frame_sim:
  assumes "vm_pages s' = (vm_pages s)(m \<mapsto> p')" and "vm_page_buckets s' = vm_page_buckets s"
    and "vm_page_hash_mask s' = vm_page_hash_mask s" and "vm_objects s' = vm_objects s" and "vm_pages s m = Some p"
    and "vp_tabled p' = vp_tabled p" and "vp_object p' = vp_object p" and "vp_offset p' = vp_offset p"
    and "page_data p' = page_data p"
  shows "table_frame s s'"
  using assms by (auto simp: table_frame_def place_def fun_eq_iff)

text \<open>A page that changes its flags only.\<close>

definition flags_only :: "vm_page \<Rightarrow> vm_page \<Rightarrow> bool" where
  "flags_only p p' \<longleftrightarrow> vp_tabled p' = vp_tabled p \<and> vp_object p' = vp_object p \<and> vp_offset p' = vp_offset p \<and>
     vp_free p' = vp_free p \<and> vp_phys_addr p' = vp_phys_addr p \<and> vp_fictitious p' = vp_fictitious p \<and>
     vp_private p' = vp_private p \<and> vp_absent p' = vp_absent p \<and> vp_busy p' = vp_busy p \<and> vp_laundry p' = vp_laundry p \<and>
     vp_dirty p' = vp_dirty p \<and> vp_precious p' = vp_precious p"

text \<open>The effect of an operation on the queues: one page, its flags, and the queues.\<close>

definition queue_step :: "addr \<Rightarrow> vm_page \<Rightarrow> vm_page \<Rightarrow> 'a vm_state_scheme \<Rightarrow> 'a vm_state_scheme \<Rightarrow> bool" where
  "queue_step m p p' s s' \<longleftrightarrow>
     vm_pages s m = Some p \<and> flags_only p p' \<and> vm_pages s' = (vm_pages s)(m \<mapsto> p') \<and> vm_objects s' = vm_objects s \<and>
     vm_page_buckets s' = vm_page_buckets s \<and> vm_page_hash_mask s' = vm_page_hash_mask s"

lemma queue_step_frame: "queue_step m p p' s s' \<Longrightarrow> table_frame s s'"
  by (rule table_frame_sim [of s' s m p' p]) (auto simp: queue_step_def flags_only_def page_data_def)

lemma queues_remove_step:
  assumes "vm_pages s m = Some p"
  shows "\<exists>s'. queues_remove m s = Some s' \<and> queue_step m p (p\<lparr>vp_active := False, vp_inactive := False\<rparr>) s s' \<and>
    vm_page_queue_active s' = (if vp_active p then remove1 m (vm_page_queue_active s) else vm_page_queue_active s) \<and>
    vm_page_queue_inactive s' = (if vp_inactive p then remove1 m (vm_page_queue_inactive s) else vm_page_queue_inactive s) \<and>
    vm_page_active_count s' = vm_page_active_count s - (if vp_active p then 1 else 0) \<and>
    vm_page_inactive_count s' = vm_page_inactive_count s - (if vp_inactive p then 1 else 0) \<and>
    vm_page_wire_count s' = vm_page_wire_count s \<and> vm_page_queue_free s' = vm_page_queue_free s \<and>
    vm_page_queue_fictitious s' = vm_page_queue_fictitious s \<and> vm_page_free_count s' = vm_page_free_count s \<and>
    vm_page_fictitious_count s' = vm_page_fictitious_count s"
proof (cases "vp_active p")
  case True
  then show ?thesis
    using assms by (cases "vp_inactive p") (auto simp: queues_remove_def put_page_def queue_step_def flags_only_def)
next
  case False
  then have "p\<lparr>vp_active := False\<rparr> = p" by (cases p) simp
  then show ?thesis
    using assms False by (cases "vp_inactive p") (auto simp: queues_remove_def put_page_def queue_step_def flags_only_def)
qed

subsection \<open>The queues\<close>

text \<open>
  A queue has exactly the pages with its flag, each once, and its count is its length.  A page is in
  at most one queue; a wired page is in none; a free page is nowhere else.  The count of wired pages
  leaves private and fictitious ones out.
\<close>

definition queue_is :: "'a vm_state_scheme \<Rightarrow> addr list \<Rightarrow> int \<Rightarrow> (vm_page \<Rightarrow> bool) \<Rightarrow> bool" where
  "queue_is s q n f \<longleftrightarrow>
     distinct q \<and> n = int (length q) \<and> (\<forall>m. m \<in> set q \<longleftrightarrow> (\<exists>p. vm_pages s m = Some p \<and> f p))"

abbreviation free_real :: "vm_page \<Rightarrow> bool" where "free_real p \<equiv> vp_free p \<and> \<not> vp_fictitious p"
abbreviation free_fict :: "vm_page \<Rightarrow> bool" where "free_fict p \<equiv> vp_free p \<and> vp_fictitious p"

definition page_ok :: "vm_page \<Rightarrow> bool" where
  "page_ok p \<longleftrightarrow> \<not> (vp_active p \<and> vp_inactive p) \<and>
     (vp_wire_count p \<noteq> 0 \<or> vp_free p \<longrightarrow> \<not> vp_active p \<and> \<not> vp_inactive p) \<and>
     (vp_free p \<longrightarrow> \<not> vp_tabled p \<and> vp_wire_count p = 0)"

definition wired :: "vm_page \<Rightarrow> bool" where
  "wired p \<longleftrightarrow> vp_wire_count p \<noteq> 0 \<and> \<not> vp_private p \<and> \<not> vp_fictitious p"

definition wired_pages :: "'a vm_state_scheme \<Rightarrow> addr set" where
  "wired_pages s = {m. \<exists>p. vm_pages s m = Some p \<and> wired p}"

definition queues_ok :: "'a vm_state_scheme \<Rightarrow> bool" where
  "queues_ok s \<longleftrightarrow>
     queue_is s (vm_page_queue_active s) (vm_page_active_count s) vp_active \<and>
     queue_is s (vm_page_queue_inactive s) (vm_page_inactive_count s) vp_inactive \<and>
     queue_is s (vm_page_queue_free s) (vm_page_free_count s) free_real \<and>
     queue_is s (vm_page_queue_fictitious s) (vm_page_fictitious_count s) free_fict \<and>
     (\<forall>m p. vm_pages s m = Some p \<longrightarrow> page_ok p) \<and>
     finite (dom (vm_pages s)) \<and> vm_page_wire_count s = int (card (wired_pages s))"

lemma queues_okD:
  assumes "queues_ok s"
  shows "queue_is s (vm_page_queue_active s) (vm_page_active_count s) vp_active"
    "queue_is s (vm_page_queue_inactive s) (vm_page_inactive_count s) vp_inactive"
    "queue_is s (vm_page_queue_free s) (vm_page_free_count s) free_real"
    "queue_is s (vm_page_queue_fictitious s) (vm_page_fictitious_count s) free_fict"
    "vm_pages s m = Some p \<Longrightarrow> page_ok p"
    "finite (dom (vm_pages s))" "vm_page_wire_count s = int (card (wired_pages s))"
  using assms unfolding queues_ok_def by blast+

text \<open>One page changes, and the queues with it.\<close>

definition queue_upd :: "addr \<Rightarrow> bool \<Rightarrow> bool \<Rightarrow> addr list \<Rightarrow> int \<Rightarrow> addr list \<Rightarrow> int \<Rightarrow> bool" where
  "queue_upd m old new q n q' n' \<longleftrightarrow>
     (if old = new then q' = q \<and> n' = n
      else if old then q' = remove1 m q \<and> n' = n - 1
      else (q' = q @ [m] \<or> q' = m # q) \<and> n' = n + 1)"

lemma Suc_length_remove1: "m \<in> set q \<Longrightarrow> Suc (length (remove1 m q)) = length q"
  by (induction q) auto

lemma queue_is_upd:
  assumes q: "queue_is s q n f" and p: "vm_pages s m = Some p" and p': "vm_pages s' = (vm_pages s)(m \<mapsto> p')"
    and u: "queue_upd m (f p) (f p') q n q' n'"
  shows "queue_is s' q' n' f"
proof -
  have d: "distinct q" "n = int (length q)" and m: "\<And>x. x \<in> set q \<longleftrightarrow> (\<exists>r. vm_pages s x = Some r \<and> f r)"
    using q by (auto simp: queue_is_def)
  have mem: "m \<in> set q \<longleftrightarrow> f p" using m p by simp
  then have "f p \<Longrightarrow> int (length (remove1 m q)) = int (length q) - 1"
    using Suc_length_remove1 [of m q] by simp
  with mem show ?thesis
    using d m p u unfolding queue_is_def p' queue_upd_def
    by (cases "f p"; cases "f p'") (auto split: if_splits)
qed

lemma wired_pages_upd:
  assumes "vm_pages s m = Some p" and "vm_pages s' = (vm_pages s)(m \<mapsto> p')" and "finite (dom (vm_pages s))"
  shows "int (card (wired_pages s')) = int (card (wired_pages s)) + of_bool (wired p') - of_bool (wired p)"
proof -
  have fin: "finite (wired_pages s)" by (rule finite_subset [OF _ assms(3)]) (auto simp: wired_pages_def)
  have "wired_pages s' = (if wired p' then insert m (wired_pages s) else wired_pages s - {m})"
    using assms(1,2) by (auto simp: wired_pages_def split: if_splits)
  moreover have "m \<in> wired_pages s \<longleftrightarrow> wired p" using assms(1) by (simp add: wired_pages_def)
  moreover have "wired p \<Longrightarrow> 0 < card (wired_pages s)" using fin calculation(2) by (auto simp: card_gt_0_iff)
  ultimately show ?thesis using fin by (cases "wired p"; cases "wired p'") (simp_all add: card_insert_if insert_absorb)
qed

lemma queues_ok_upd:
  assumes ok: "queues_ok s" and p: "vm_pages s m = Some p" and p': "vm_pages s' = (vm_pages s)(m \<mapsto> p')" "page_ok p'"
    and u: "queue_upd m (vp_active p) (vp_active p') (vm_page_queue_active s) (vm_page_active_count s)
        (vm_page_queue_active s') (vm_page_active_count s')"
      "queue_upd m (vp_inactive p) (vp_inactive p') (vm_page_queue_inactive s) (vm_page_inactive_count s)
        (vm_page_queue_inactive s') (vm_page_inactive_count s')"
      "queue_upd m (free_real p) (free_real p') (vm_page_queue_free s) (vm_page_free_count s)
        (vm_page_queue_free s') (vm_page_free_count s')"
      "queue_upd m (free_fict p) (free_fict p') (vm_page_queue_fictitious s) (vm_page_fictitious_count s)
        (vm_page_queue_fictitious s') (vm_page_fictitious_count s')"
    and w: "vm_page_wire_count s' = vm_page_wire_count s + of_bool (wired p') - of_bool (wired p)"
  shows "queues_ok s'"
proof -
  note Q = queues_okD [OF ok]
  have "page_ok r" if "vm_pages s' x = Some r" for x r
    using that Q(5) [of x r] p' by (auto split: if_splits)
  moreover have "vm_page_wire_count s' = int (card (wired_pages s'))"
    using w wired_pages_upd [OF p p'(1) Q(6)] Q(7) by simp
  ultimately show ?thesis
    unfolding queues_ok_def
    using queue_is_upd [OF Q(1) p p'(1) u(1)] queue_is_upd [OF Q(2) p p'(1) u(2)]
      queue_is_upd [OF Q(3) p p'(1) u(3)] queue_is_upd [OF Q(4) p p'(1) u(4)] Q(6) p'(1) by simp
qed

lemma queue_is_cong: "vm_pages s' = vm_pages s \<Longrightarrow> queue_is s' q n f \<longleftrightarrow> queue_is s q n f"
  by (simp add: queue_is_def)

lemma queues_ok_cong:
  assumes "vm_pages s' = vm_pages s" and "vm_page_queue_active s' = vm_page_queue_active s"
    and "vm_page_active_count s' = vm_page_active_count s" and "vm_page_queue_inactive s' = vm_page_queue_inactive s"
    and "vm_page_inactive_count s' = vm_page_inactive_count s" and "vm_page_queue_free s' = vm_page_queue_free s"
    and "vm_page_free_count s' = vm_page_free_count s" and "vm_page_queue_fictitious s' = vm_page_queue_fictitious s"
    and "vm_page_fictitious_count s' = vm_page_fictitious_count s" and "vm_page_wire_count s' = vm_page_wire_count s"
  shows "queues_ok s' \<longleftrightarrow> queues_ok s"
  using assms by (simp add: queues_ok_def queue_is_def wired_pages_def)

lemma queue_upd_same [simp]: "queue_upd m b b q n q' n' \<longleftrightarrow> q' = q \<and> n' = n"
  by (simp add: queue_upd_def)

lemma vm_post_queues [simp]:
  "vm_page_queue_active (vm_post e s) = vm_page_queue_active s" "vm_page_queue_inactive (vm_post e s) = vm_page_queue_inactive s"
  "vm_page_queue_free (vm_post e s) = vm_page_queue_free s" "vm_page_queue_fictitious (vm_post e s) = vm_page_queue_fictitious s"
  "vm_page_active_count (vm_post e s) = vm_page_active_count s" "vm_page_inactive_count (vm_post e s) = vm_page_inactive_count s"
  "vm_page_free_count (vm_post e s) = vm_page_free_count s" "vm_page_fictitious_count (vm_post e s) = vm_page_fictitious_count s"
  "vm_page_wire_count (vm_post e s) = vm_page_wire_count s"
  "vm_page_free_wanted (vm_post e s) = vm_page_free_wanted s" "vm_page_fictitious_addr (vm_post e s) = vm_page_fictitious_addr s"
  by (simp_all add: vm_post_def)

lemma put_page_queues [simp]:
  "vm_page_queue_active (put_page m p s) = vm_page_queue_active s" "vm_page_queue_inactive (put_page m p s) = vm_page_queue_inactive s"
  "vm_page_queue_free (put_page m p s) = vm_page_queue_free s" "vm_page_queue_fictitious (put_page m p s) = vm_page_queue_fictitious s"
  "vm_page_active_count (put_page m p s) = vm_page_active_count s" "vm_page_inactive_count (put_page m p s) = vm_page_inactive_count s"
  "vm_page_free_count (put_page m p s) = vm_page_free_count s" "vm_page_fictitious_count (put_page m p s) = vm_page_fictitious_count s"
  "vm_page_wire_count (put_page m p s) = vm_page_wire_count s"
  "vm_page_free_wanted (put_page m p s) = vm_page_free_wanted s" "vm_page_fictitious_addr (put_page m p s) = vm_page_fictitious_addr s"
  by (simp_all add: put_page_def)

lemma put_object_queues [simp]:
  "vm_page_queue_active (put_object a ob s) = vm_page_queue_active s" "vm_page_queue_inactive (put_object a ob s) = vm_page_queue_inactive s"
  "vm_page_queue_free (put_object a ob s) = vm_page_queue_free s" "vm_page_queue_fictitious (put_object a ob s) = vm_page_queue_fictitious s"
  "vm_page_active_count (put_object a ob s) = vm_page_active_count s" "vm_page_inactive_count (put_object a ob s) = vm_page_inactive_count s"
  "vm_page_free_count (put_object a ob s) = vm_page_free_count s" "vm_page_fictitious_count (put_object a ob s) = vm_page_fictitious_count s"
  "vm_page_wire_count (put_object a ob s) = vm_page_wire_count s" "vm_page_fictitious_addr (put_object a ob s) = vm_page_fictitious_addr s"
  by (simp_all add: put_object_def)

text \<open>A page that stays where it is.\<close>

lemma put_page_ok:
  assumes "queues_ok s" and "vm_pages s m = Some p" and "page_ok p'"
    and "vp_active p' = vp_active p" and "vp_inactive p' = vp_inactive p" and "vp_free p' = vp_free p"
    and "vp_fictitious p' = vp_fictitious p" and "wired p' = wired p"
  shows "queues_ok (put_page m p' s)"
  by (rule queues_ok_upd [OF assms(1,2), where p' = p']) (use assms in simp_all)

lemma queues_remove_ok:
  assumes ok: "queues_ok s" and p: "vm_pages s m = Some p"
  shows "\<exists>s'. queues_remove m s = Some s' \<and> queues_ok s' \<and>
    queue_step m p (p\<lparr>vp_active := False, vp_inactive := False\<rparr>) s s' \<and>
    (\<not> vp_active p \<longrightarrow> \<not> vp_inactive p \<longrightarrow> vm_page_queue_active s' = vm_page_queue_active s)"
proof -
  from queues_remove_step [OF p] obtain s' where r: "queues_remove m s = Some s'"
      "queue_step m p (p\<lparr>vp_active := False, vp_inactive := False\<rparr>) s s'"
      "vm_page_queue_active s' = (if vp_active p then remove1 m (vm_page_queue_active s) else vm_page_queue_active s)"
      "vm_page_queue_inactive s' = (if vp_inactive p then remove1 m (vm_page_queue_inactive s) else vm_page_queue_inactive s)"
      "vm_page_active_count s' = vm_page_active_count s - (if vp_active p then 1 else 0)"
      "vm_page_inactive_count s' = vm_page_inactive_count s - (if vp_inactive p then 1 else 0)"
      "vm_page_wire_count s' = vm_page_wire_count s" "vm_page_queue_free s' = vm_page_queue_free s"
      "vm_page_queue_fictitious s' = vm_page_queue_fictitious s" "vm_page_free_count s' = vm_page_free_count s"
      "vm_page_fictitious_count s' = vm_page_fictitious_count s"
    by blast
  have "queues_ok s'"
    by (rule queues_ok_upd [OF ok p, where p' = "p\<lparr>vp_active := False, vp_inactive := False\<rparr>"])
      (use r queues_okD(5) [OF ok p] in \<open>auto simp: queue_step_def page_ok_def queue_upd_def wired_def\<close>)
  with r show ?thesis by auto
qed

lemma vm_page_deactivate_ok:
  assumes ok: "queues_ok s" and p: "vm_pages s m = Some p" "\<not> vp_free p"
  shows "\<exists>s'. vm_page_deactivate m s = Some s' \<and> queues_ok s' \<and> table_frame s s'"
proof (cases "vp_active p \<or> vp_inactive p \<and> vp_reference p")
  case True
  let ?p = "p\<lparr>vp_reference := False\<rparr>" and ?q = "p\<lparr>vp_reference := False, vp_active := False, vp_inactive := False\<rparr>"
  let ?s = "put_page m ?p (if \<not> vp_fictitious p \<and> \<not> vp_absent p then vm_post (Pmap_Clear_Reference (vp_phys_addr p)) s else s)"
  have ok1: "queues_ok ?s"
    by (rule queues_ok_upd [OF ok p(1), where p' = ?p]) (use queues_okD(5) [OF ok p(1)] in \<open>auto simp: page_ok_def wired_def\<close>)
  have f1: "table_frame s ?s" by (rule table_frame_sim [where p' = ?p and m = m and p = p]) (use p in \<open>auto simp: page_data_def\<close>)
  have "vm_pages ?s m = Some ?p" by simp
  from queues_remove_ok [OF ok1 this] obtain s' where r: "queues_remove m ?s = Some s'" "queues_ok s'"
      "queue_step m ?p ?q ?s s'" by auto
  have f2: "table_frame s s'" by (rule table_frame_trans [OF f1 queue_step_frame [OF r(3)]])
  have p2: "vm_pages s' m = Some ?q" using r(3) by (simp add: queue_step_def)
  show ?thesis
  proof (cases "vp_wire_count p = 0")
    case w: True
    let ?s2 = "put_page m (?q\<lparr>vp_inactive := True\<rparr>)
      (s'\<lparr>vm_page_queue_inactive := vm_page_queue_inactive s' @ [m], vm_page_inactive_count := vm_page_inactive_count s' + 1\<rparr>)"
    have "queues_ok ?s2"
      by (rule queues_ok_upd [OF r(2) p2, where p' = "?q\<lparr>vp_inactive := True\<rparr>"])
        (use p w queues_okD(5) [OF r(2) p2] in \<open>auto simp: page_ok_def queue_upd_def wired_def\<close>)
    moreover have "table_frame s' ?s2" by (rule table_frame_sim [where m = m and p = ?q and p' = "?q\<lparr>vp_inactive := True\<rparr>"]) (use p2 in \<open>auto simp: page_data_def\<close>)
    moreover have "vm_page_deactivate m s = Some ?s2" using True p r p2 w by (simp add: vm_page_deactivate_def Let_def)
    ultimately show ?thesis using table_frame_trans [OF f2] by blast
  next
    case False
    then have "vm_page_deactivate m s = Some s'" using True p r p2 by (simp add: vm_page_deactivate_def Let_def)
    with r f2 show ?thesis by blast
  qed
next
  case False
  show ?thesis
  proof (cases "vp_wire_count p = 0 \<and> \<not> vp_inactive p")
    case True
    let ?s2 = "put_page m (p\<lparr>vp_inactive := True\<rparr>)
      (s\<lparr>vm_page_queue_inactive := vm_page_queue_inactive s @ [m], vm_page_inactive_count := vm_page_inactive_count s + 1\<rparr>)"
    have "queues_ok ?s2"
      by (rule queues_ok_upd [OF ok p(1), where p' = "p\<lparr>vp_inactive := True\<rparr>"])
        (use p True False queues_okD(5) [OF ok p(1)] in \<open>auto simp: page_ok_def queue_upd_def wired_def\<close>)
    moreover have "table_frame s ?s2" by (rule table_frame_sim [where m = m and p = p and p' = "p\<lparr>vp_inactive := True\<rparr>"]) (use p in \<open>auto simp: page_data_def\<close>)
    moreover have "vm_page_deactivate m s = Some ?s2" using True False p by (simp add: vm_page_deactivate_def)
    ultimately show ?thesis by blast
  next
    case no: False
    then have "vm_page_deactivate m s = Some s" using False p by (auto simp add: vm_page_deactivate_def)
    with ok show ?thesis by auto
  qed
qed

lemma vm_page_activate_ok:
  assumes ok: "queues_ok s" and p: "vm_pages s m = Some p" "\<not> vp_free p" "\<not> vp_active p"
  shows "\<exists>s'. vm_page_activate m s = Some s' \<and> queues_ok s' \<and> table_frame s s' \<and>
    (\<exists>p'. vm_pages s' m = Some p' \<and> vp_active p' = (vp_wire_count p = 0) \<and> \<not> vp_inactive p')"
proof -
  let ?p = "p\<lparr>vp_inactive := False\<rparr>"
  let ?s = "if vp_inactive p
    then put_page m ?p (s\<lparr>vm_page_queue_inactive := remove1 m (vm_page_queue_inactive s),
           vm_page_inactive_count := vm_page_inactive_count s - 1\<rparr>) else s"
  have e: "?p = p" if "\<not> vp_inactive p" using that by (cases p) simp
  have p1: "vm_pages ?s m = Some ?p" using p e by auto
  have ok1: "queues_ok ?s"
    by (rule queues_ok_upd [OF ok p(1), where p' = ?p])
      (use p e queues_okD(5) [OF ok p(1)] in \<open>auto simp: page_ok_def queue_upd_def wired_def fun_upd_idem\<close>)
  have f1: "table_frame s ?s" by (rule table_frame_sim [where m = m and p = p and p' = ?p]) (use p e in \<open>auto simp: fun_upd_idem page_data_def\<close>)
  show ?thesis
  proof (cases "vp_wire_count p = 0")
    case True
    let ?s2 = "put_page m (?p\<lparr>vp_active := True\<rparr>)
      (?s\<lparr>vm_page_queue_active := vm_page_queue_active ?s @ [m], vm_page_active_count := vm_page_active_count ?s + 1\<rparr>)"
    have "queues_ok ?s2"
      by (rule queues_ok_upd [OF ok1 p1, where p' = "?p\<lparr>vp_active := True\<rparr>"])
        (use p True queues_okD(5) [OF ok p(1)] in \<open>auto simp: page_ok_def queue_upd_def wired_def\<close>)
    moreover have "table_frame ?s ?s2"
      by (rule table_frame_sim [where m = m and p = ?p and p' = "?p\<lparr>vp_active := True\<rparr>"]) (use p1 in \<open>auto simp: page_data_def\<close>)
    moreover have "vm_page_activate m s = Some ?s2" using p True p1 by (simp add: vm_page_activate_def Let_def)
    moreover have "vm_pages ?s2 m = Some (?p\<lparr>vp_active := True\<rparr>)" by (simp only: vm_put_sel fun_upd_same)
    ultimately show ?thesis using table_frame_trans [OF f1] True by (intro exI [of _ ?s2] conjI) auto
  next
    case False
    then have "vm_page_activate m s = Some ?s" using p p1 by (simp add: vm_page_activate_def Let_def)
    with ok1 f1 p1 False p show ?thesis by (intro exI [of _ ?s] conjI) auto
  qed
qed

lemma vm_page_wire_ok:
  assumes ok: "queues_ok s" and p: "vm_pages s m = Some p" "\<not> vp_free p" and n: "vp_wire_count p + 1 \<noteq> 0"
  shows "\<exists>s'. vm_page_wire m s = Some s' \<and> queues_ok s' \<and> table_frame s s' \<and>
    vm_pages s' = (vm_pages s)(m \<mapsto> p\<lparr>vp_active := False, vp_inactive := False, vp_wire_count := vp_wire_count p + 1\<rparr>)"
proof -
  let ?q = "p\<lparr>vp_active := False, vp_inactive := False\<rparr>"
  let ?r = "?q\<lparr>vp_wire_count := vp_wire_count p + 1\<rparr>"
  have pk: "page_ok p" by (rule queues_okD(5) [OF ok p(1)])
  show ?thesis
  proof (cases "vp_wire_count p = 0")
    case True
    from queues_remove_ok [OF ok p(1)] obtain s1 where r: "queues_remove m s = Some s1" "queues_ok s1" "queue_step m p ?q s s1"
      by blast
    have p1: "vm_pages s1 = (vm_pages s)(m \<mapsto> ?q)" "vm_pages s1 m = Some ?q" using r(3) by (simp_all add: queue_step_def)
    let ?s = "put_page m ?r (if \<not> vp_private p \<and> \<not> vp_fictitious p
      then s1\<lparr>vm_page_wire_count := vm_page_wire_count s1 + 1\<rparr> else s1)"
    have "queues_ok ?s"
      by (rule queues_ok_upd [OF r(2) p1(2), where p' = ?r]) (use n True p pk in \<open>auto simp: page_ok_def wired_def\<close>)
    moreover have "table_frame s1 ?s"
      by (rule table_frame_sim [where m = m and p = ?q and p' = ?r]) (use p1 in \<open>auto simp: page_data_def\<close>)
    moreover have "vm_page_wire m s = Some ?s" using r p p1 True by (simp add: vm_page_wire_def)
    moreover have "vm_pages ?s = (vm_pages s)(m \<mapsto> ?r)" using p1 by simp
    ultimately show ?thesis using table_frame_trans [OF queue_step_frame [OF r(3)]] by blast
  next
    case False
    then have "vp_active p = False" "vp_inactive p = False" using pk by (auto simp: page_ok_def)
    then have e: "p\<lparr>vp_wire_count := c\<rparr> = p\<lparr>vp_active := False, vp_inactive := False, vp_wire_count := c\<rparr>" for c by (cases p) simp
    let ?s = "put_page m (p\<lparr>vp_wire_count := vp_wire_count p + 1\<rparr>) s"
    have "queues_ok ?s"
      by (rule put_page_ok [OF ok p(1)]) (use n False p pk in \<open>auto simp: page_ok_def wired_def\<close>)
    moreover have "table_frame s ?s" by (rule table_frame_put [OF p(1)]) (simp_all add: page_data_def)
    moreover have "vm_page_wire m s = Some ?s" using p False by (simp add: vm_page_wire_def)
    ultimately show ?thesis by (simp add: e)
  qed
qed

lemma vm_page_unwire_ok:
  assumes ok: "queues_ok s" and p: "vm_pages s m = Some p" and n: "vp_wire_count p \<noteq> 0"
  shows "\<exists>s'. vm_page_unwire m s = Some s' \<and> queues_ok s' \<and> table_frame s s' \<and>
    vm_pages s' = (vm_pages s)(m \<mapsto> p\<lparr>vp_wire_count := vp_wire_count p - 1, vp_active := (vp_wire_count p = 1)\<rparr>)"
proof -
  have pk: "page_ok p" by (rule queues_okD(5) [OF ok p])
  then have na: "vp_active p = False" "vp_inactive p = False" "\<not> vp_free p" using n by (auto simp: page_ok_def)
  have one: "vp_wire_count p - 1 = 0 \<longleftrightarrow> vp_wire_count p = 1" by auto
  let ?q = "p\<lparr>vp_wire_count := vp_wire_count p - 1\<rparr>"
  show ?thesis
  proof (cases "vp_wire_count p = 1")
    case True
    let ?s1 = "put_page m (?q\<lparr>vp_active := True\<rparr>)
      (s\<lparr>vm_page_queue_active := vm_page_queue_active s @ [m], vm_page_active_count := vm_page_active_count s + 1\<rparr>)"
    let ?s = "if \<not> vp_private p \<and> \<not> vp_fictitious p then ?s1\<lparr>vm_page_wire_count := vm_page_wire_count ?s1 - 1\<rparr> else ?s1"
    have "queues_ok ?s"
      by (rule queues_ok_upd [OF ok p, where p' = "?q\<lparr>vp_active := True\<rparr>"])
        (use n True na pk in \<open>auto simp: page_ok_def queue_upd_def wired_def\<close>)
    moreover have "table_frame s ?s"
      by (rule table_frame_sim [where m = m and p = p and p' = "?q\<lparr>vp_active := True\<rparr>"]) (use p in \<open>auto simp: page_data_def\<close>)
    moreover have "vm_page_unwire m s = Some ?s" using p True by (simp add: vm_page_unwire_def Let_def)
    moreover have "vm_pages ?s = (vm_pages s)(m \<mapsto> ?q\<lparr>vp_active := True\<rparr>)" by simp
    ultimately show ?thesis using True by auto
  next
    case False
    have e: "?q = p\<lparr>vp_wire_count := vp_wire_count p - 1, vp_active := False\<rparr>" using na by (cases p) simp
    have "queues_ok (put_page m ?q s)"
      by (rule put_page_ok [OF ok p]) (use n False na one pk in \<open>auto simp: page_ok_def wired_def\<close>)
    moreover have "table_frame s (put_page m ?q s)" by (rule table_frame_put [OF p]) (simp_all add: page_data_def)
    moreover have "vm_page_unwire m s = Some (put_page m ?q s)" using p False one by (simp add: vm_page_unwire_def Let_def)
    ultimately show ?thesis using False e by simp
  qed
qed

end
