(* ===== verification/Vm_Page_Table.thy ===== *)
theory Vm_Page_Table
  imports Vm_Page_Facts
begin

section \<open>Entering, removing, allocating and freeing pages\<close>

definition pages_inv :: "'a vm_state_scheme \<Rightarrow> bool" where
  "pages_inv s \<longleftrightarrow> table_ok s \<and> queues_ok s"

text \<open>The change of one object, and of the places of pages.\<close>

lemma table_ok_insert:
  assumes ok: "table_ok s" and m: "place s m = None" and ob: "vm_objects s a = Some ob"
    and new: "\<And>x. place s x \<noteq> Some (a, off)"
    and s': "place s' = (place s)(m \<mapsto> (a, off))" "vm_page_hash_mask s' = vm_page_hash_mask s"
      "vm_page_buckets s' = (vm_page_buckets s)(vm_page_hash a off s := m # vm_page_buckets s (vm_page_hash a off s))"
      "vm_objects s' = (vm_objects s)(a \<mapsto> ob')" "ob_memq ob' = ob_memq ob @ [m]"
      "ob_resident_page_count ob' = ob_resident_page_count ob + 1"
  shows "table_ok s'"
proof -
  note H = vm_page_hash_cong [OF s'(2)]
  have T: "chains_ok s" "memq_ok s" "\<And>m a off. place s m = Some (a, off) \<Longrightarrow> vm_objects s a \<noteq> None"
    "\<And>m m' x. place s m = Some x \<Longrightarrow> place s m' = Some x \<Longrightarrow> m = m'"
    using ok by (auto simp: table_ok_def)
  have nm: "m \<notin> set (vm_page_buckets s h)" for h using T(1) m by (auto simp: chains_ok_def)
  have "chains_ok s'"
    unfolding chains_ok_def
  proof (intro allI conjI)
    fix h x
    show "distinct (vm_page_buckets s' h)" using T(1) nm by (auto simp: chains_ok_def s'(3))
    show "x \<in> set (vm_page_buckets s' h) \<longleftrightarrow> (\<exists>a' off'. place s' x = Some (a', off') \<and> vm_page_hash a' off' s' = h)"
    proof (cases "x = m")
      case True
      then show ?thesis using nm by (auto simp: s'(1,3) H)
    next
      case False
      then have "x \<in> set (vm_page_buckets s' h) \<longleftrightarrow> x \<in> set (vm_page_buckets s h)" by (simp add: s'(3))
      also have "\<dots> \<longleftrightarrow> (\<exists>a' off'. place s x = Some (a', off') \<and> vm_page_hash a' off' s = h)"
        using T(1) by (simp add: chains_ok_def)
      finally show ?thesis using False by (simp add: s'(1) H)
    qed
  qed
  moreover have "memq_ok s'"
    unfolding memq_ok_def
  proof (intro allI impI)
    fix b o' assume b: "vm_objects s' b = Some o'"
    have old: "distinct (ob_memq q)" "\<And>x. x \<in> set (ob_memq q) \<longleftrightarrow> (\<exists>off. place s x = Some (c, off))"
      "ob_resident_page_count q = of_nat (length (ob_memq q))" if "vm_objects s c = Some q" for c q
      using T(2) that by (auto simp: memq_ok_def)
    show "distinct (ob_memq o') \<and> (\<forall>x. x \<in> set (ob_memq o') \<longleftrightarrow> (\<exists>off. place s' x = Some (b, off))) \<and>
        ob_resident_page_count o' = of_nat (length (ob_memq o'))"
    proof (cases "b = a")
      case True
      with b have "o' = ob'" by (simp add: s'(4))
      then show ?thesis using old [OF ob] m True by (auto simp: s'(1,5,6))
    next
      case False
      with b have "vm_objects s b = Some o'" by (simp add: s'(4))
      from old [OF this] show ?thesis using False m by (auto simp: s'(1))
    qed
  qed
  moreover have "vm_objects s' b \<noteq> None" if "place s' x = Some (b, o')" for x b o'
    using that T(3) by (auto simp: s'(1,4) split: if_splits)
  moreover have "x = y" if "place s' x = Some z" "place s' y = Some z" for x y z
    using that T(4) new by (auto simp: s'(1) split: if_splits)
  ultimately show ?thesis unfolding table_ok_def by blast
qed

lemma table_ok_remove:
  assumes ok: "table_ok s" and m: "place s m = Some (a, off)" and ob: "vm_objects s a = Some ob"
    and s': "place s' = (place s)(m := None)" "vm_page_hash_mask s' = vm_page_hash_mask s"
      "vm_page_buckets s' = (vm_page_buckets s)(vm_page_hash a off s := remove1 m (vm_page_buckets s (vm_page_hash a off s)))"
      "vm_objects s' = (vm_objects s)(a \<mapsto> ob')" "ob_memq ob' = remove1 m (ob_memq ob)"
      "ob_resident_page_count ob' = ob_resident_page_count ob - 1"
  shows "table_ok s'"
proof -
  note H = vm_page_hash_cong [OF s'(2)]
  have T: "chains_ok s" "memq_ok s" "\<And>m a off. place s m = Some (a, off) \<Longrightarrow> vm_objects s a \<noteq> None"
    "\<And>m m' x. place s m = Some x \<Longrightarrow> place s m' = Some x \<Longrightarrow> m = m'"
    using ok by (auto simp: table_ok_def)
  have chain: "x \<in> set (vm_page_buckets s h) \<longleftrightarrow> (\<exists>a' off'. place s x = Some (a', off') \<and> vm_page_hash a' off' s = h)"
    and cd: "distinct (vm_page_buckets s h)" for x h using T(1) by (auto simp: chains_ok_def)
  have "chains_ok s'"
    unfolding chains_ok_def
  proof (intro allI conjI)
    fix h x
    show "distinct (vm_page_buckets s' h)" using cd by (auto simp: s'(3))
    show "x \<in> set (vm_page_buckets s' h) \<longleftrightarrow> (\<exists>a' off'. place s' x = Some (a', off') \<and> vm_page_hash a' off' s' = h)"
    proof (cases "x = m")
      case True
      then show ?thesis using cd chain m by (auto simp: s'(1,3))
    next
      case False
      then have "x \<in> set (vm_page_buckets s' h) \<longleftrightarrow> x \<in> set (vm_page_buckets s h)" by (simp add: s'(3))
      then show ?thesis using False chain by (simp add: s'(1) H)
    qed
  qed
  moreover have "memq_ok s'"
    unfolding memq_ok_def
  proof (intro allI impI)
    fix b o' assume b: "vm_objects s' b = Some o'"
    have old: "distinct (ob_memq q)" "\<And>x. x \<in> set (ob_memq q) \<longleftrightarrow> (\<exists>off. place s x = Some (c, off))"
      "ob_resident_page_count q = of_nat (length (ob_memq q))" if "vm_objects s c = Some q" for c q
      using T(2) that by (auto simp: memq_ok_def)
    show "distinct (ob_memq o') \<and> (\<forall>x. x \<in> set (ob_memq o') \<longleftrightarrow> (\<exists>off. place s' x = Some (b, off))) \<and>
        ob_resident_page_count o' = of_nat (length (ob_memq o'))"
    proof (cases "b = a")
      case True
      with b have "o' = ob'" by (simp add: s'(4))
      moreover have "Suc (length (remove1 m (ob_memq ob))) = length (ob_memq ob)"
        using old(2) [OF ob] m by (intro Suc_length_remove1) auto
      then have "(of_nat (length (ob_memq ob)) :: 16 word) - 1 = of_nat (length (remove1 m (ob_memq ob)))"
        by (metis add_diff_cancel_left' of_nat_Suc)
      ultimately show ?thesis using old [OF ob] m True by (auto simp: s'(1,5,6))
    next
      case False
      with b have "vm_objects s b = Some o'" by (simp add: s'(4))
      from old [OF this] show ?thesis using False m by (auto simp: s'(1))
    qed
  qed
  moreover have "vm_objects s' b \<noteq> None" if "place s' x = Some (b, o')" for x b o'
    using that T(3) by (auto simp: s'(1,4) split: if_splits)
  moreover have "x = y" if "place s' x = Some z" "place s' y = Some z" for x y z
    using that T(4) by (auto simp: s'(1) split: if_splits)
  ultimately show ?thesis unfolding table_ok_def by blast
qed

definition kept :: "'a vm_state_scheme \<Rightarrow> 'a vm_state_scheme \<Rightarrow> bool" where
  "kept s s' \<longleftrightarrow> vm_page_hash_mask s' = vm_page_hash_mask s \<and>
     (\<forall>x. map_option page_data (vm_pages s' x) = map_option page_data (vm_pages s x))"

lemma kept_refl [simp]: "kept s s" by (simp add: kept_def)
lemma kept_trans: "kept s1 s2 \<Longrightarrow> kept s2 s3 \<Longrightarrow> kept s1 s3" by (simp add: kept_def)

lemma keptD:
  assumes "kept s s'" and "vm_pages s m = Some p"
  shows "\<exists>p'. vm_pages s' m = Some p' \<and> page_data p' = page_data p"
proof -
  have "map_option page_data (vm_pages s' m) = Some (page_data p)" using assms by (simp add: kept_def)
  then show ?thesis by (cases "vm_pages s' m") auto
qed

lemma frame_kept: "table_frame s s' \<Longrightarrow> kept s s'" by (simp add: table_frame_def kept_def)

lemma deactivate_behind_ok:
  assumes t: "table_ok s" and q: "queues_ok s" and ob: "vm_objects s a = Some ob"
  shows "\<exists>s'. deactivate_behind a off s = Some s' \<and> queues_ok s' \<and> table_frame s s'"
proof (cases "off = ob_last_alloc ob + page_size")
  case True
  show ?thesis
  proof (cases "vm_page_lookup a (ob_last_alloc ob) s")
    case None
    with ob q True show ?thesis by (simp add: deactivate_behind_def)
  next
    case (Some m)
    then have "place s m = Some (a, ob_last_alloc ob)" by (simp add: vm_page_lookup_spec [OF t])
    then obtain p where p: "vm_pages s m = Some p" "vp_tabled p" by (auto dest: placeD)
    then have "\<not> vp_free p" using queues_okD(5) [OF q p(1)] by (auto simp: page_ok_def)
    from vm_page_deactivate_ok [OF q p(1) this] show ?thesis
      using True Some ob p q by (cases "vp_busy p") (auto simp: deactivate_behind_def)
  qed
next
  case False
  with ob q show ?thesis by (simp add: deactivate_behind_def)
qed

lemma vm_page_insert_spec:
  assumes inv: "pages_inv s" and p: "vm_pages s m = Some p" "\<not> vp_tabled p" "\<not> vp_free p" and ob: "vm_objects s a = Some ob"
    and new: "\<And>x. place s x \<noteq> Some (a, off)"
  shows "\<exists>s'. vm_page_insert m a off s = Some s' \<and> pages_inv s' \<and> place s' = (place s)(m \<mapsto> (a, off)) \<and>
    vm_objects s' = (vm_objects s)(a \<mapsto> ob\<lparr>ob_memq := ob_memq ob @ [m],
      ob_resident_page_count := ob_resident_page_count ob + 1, ob_last_alloc := off\<rparr>) \<and> kept s s'"
proof -
  have t: "table_ok s" and q: "queues_ok s" using inv by (simp_all add: pages_inv_def)
  have m: "place s m = None" using p by (simp add: place_def)
  let ?h = "vm_page_hash a off s" and ?p = "p\<lparr>vp_object := a, vp_offset := off, vp_tabled := True\<rparr>"
  let ?ob = "ob\<lparr>ob_memq := ob_memq ob @ [m], ob_resident_page_count := ob_resident_page_count ob + 1\<rparr>"
  define s1 where "s1 = put_object a ?ob (put_page m ?p
    (s\<lparr>vm_page_buckets := (vm_page_buckets s)(?h := m # vm_page_buckets s ?h)\<rparr>))"
  have pl: "place s1 = (place s)(m \<mapsto> (a, off))" by (simp add: s1_def) (simp add: place_def fun_eq_iff)
  have t1: "table_ok s1"
    by (rule table_ok_insert [OF t m ob new pl, where ob' = ?ob]) (simp_all add: s1_def)
  have q1: "queues_ok s1"
    by (rule queues_ok_upd [OF q p(1), where p' = ?p])
      (use queues_okD(5) [OF q p(1)] p in \<open>auto simp: s1_def page_ok_def wired_def\<close>)
  have o1: "vm_objects s1 a = Some ?ob" by (simp add: s1_def)
  have k1: "kept s s1" using p by (auto simp: kept_def s1_def page_data_def)
  from deactivate_behind_ok [OF t1 q1 o1, of off] obtain s2 where d: "deactivate_behind a off s1 = Some s2" "queues_ok s2"
      "table_frame s1 s2" by blast
  have o2: "vm_objects s2 a = Some ?ob" using o1 d(3) by (simp add: table_frame_def)
  let ?s = "put_object a (?ob\<lparr>ob_last_alloc := off\<rparr>) s2"
  have "vm_page_insert m a off s = Some ?s"
    using p ob d(1) o2 by (simp add: vm_page_insert_def Let_def s1_def)
  moreover have "table_ok ?s"
    by (rule table_ok_cong [OF _ _ _ _ _ table_frame_ok [OF d(3) t1]]) (use o2 in \<open>auto split: if_splits\<close>)
  moreover have "queues_ok ?s" using d(2) queues_ok_cong [of ?s s2] by simp
  moreover have "place ?s = (place s)(m \<mapsto> (a, off))" using d(3) pl by (simp add: table_frame_def)
  moreover have "vm_objects ?s = (vm_objects s)(a \<mapsto> ?ob\<lparr>ob_last_alloc := off\<rparr>)"
    using d(3) by (simp add: table_frame_def s1_def)
  moreover have "kept s2 ?s" by (simp add: kept_def)
  ultimately show ?thesis using kept_trans [OF kept_trans [OF k1 frame_kept [OF d(3)]]] by (simp add: pages_inv_def)
qed

lemma vm_page_remove_spec:
  assumes inv: "pages_inv s" and p: "place s m = Some (a, off)"
  shows "\<exists>s' ob. vm_page_remove m s = Some s' \<and> pages_inv s' \<and> place s' = (place s)(m := None) \<and>
    vm_objects s a = Some ob \<and>
    vm_objects s' = (vm_objects s)(a \<mapsto> ob\<lparr>ob_memq := remove1 m (ob_memq ob),
      ob_resident_page_count := ob_resident_page_count ob - 1\<rparr>) \<and> kept s s'"
proof -
  have t: "table_ok s" and q: "queues_ok s" using inv by (simp_all add: pages_inv_def)
  from placeD [OF p] obtain r where r: "vm_pages s m = Some r" "vp_tabled r" "vp_object r = a" "vp_offset r = off" by blast
  from t p have "vm_objects s a \<noteq> None" by (auto simp: table_ok_def)
  then obtain ob where ob: "vm_objects s a = Some ob" by blast
  let ?h = "vm_page_hash a off s" and ?r = "r\<lparr>vp_tabled := False\<rparr>"
  let ?ob = "ob\<lparr>ob_memq := remove1 m (ob_memq ob), ob_resident_page_count := ob_resident_page_count ob - 1\<rparr>"
  let ?s = "put_page m ?r (put_object a ?ob (s\<lparr>vm_page_buckets := (vm_page_buckets s)(?h := remove1 m (vm_page_buckets s ?h))\<rparr>))"
  have "m \<in> set (vm_page_buckets s ?h)" using t p by (auto simp: table_ok_def chains_ok_def)
  then have "vm_page_remove m s = Some ?s" using r ob by (simp add: vm_page_remove_def Let_def)
  moreover have pl: "place ?s = (place s)(m := None)" by (simp add: place_def fun_eq_iff)
  moreover have "table_ok ?s" by (rule table_ok_remove [OF t p ob pl, where ob' = ?ob]) simp_all
  moreover have "queues_ok ?s"
    by (rule queues_ok_upd [OF q r(1), where p' = ?r])
      (use queues_okD(5) [OF q r(1)] in \<open>auto simp: page_ok_def wired_def\<close>)
  moreover have "kept s ?s" using r by (auto simp: kept_def page_data_def)
  ultimately show ?thesis using ob by (auto simp: pages_inv_def)
qed

text \<open>An object without what the table of pages keeps in it.\<close>

definition ob_core :: "vm_object \<Rightarrow> vm_object" where
  "ob_core ob = ob\<lparr>ob_memq := [], ob_resident_page_count := 0, ob_last_alloc := 0\<rparr>"

lemma ob_core_upd [simp]:
  "ob_core (ob\<lparr>ob_memq := q, ob_resident_page_count := n\<rparr>) = ob_core ob"
  "ob_core (ob\<lparr>ob_memq := q, ob_resident_page_count := n, ob_last_alloc := l\<rparr>) = ob_core ob"
  by (simp_all add: ob_core_def)

definition core_same :: "'a vm_state_scheme \<Rightarrow> 'a vm_state_scheme \<Rightarrow> bool" where
  "core_same s s' \<longleftrightarrow> (\<forall>a. map_option ob_core (vm_objects s' a) = map_option ob_core (vm_objects s a))"

lemma core_same_trans: "core_same s1 s2 \<Longrightarrow> core_same s2 s3 \<Longrightarrow> core_same s1 s3"
  by (simp add: core_same_def)

lemma core_same_upd:
  "vm_objects s a = Some ob \<Longrightarrow> vm_objects s' = (vm_objects s)(a \<mapsto> ob') \<Longrightarrow> ob_core ob' = ob_core ob \<Longrightarrow> core_same s s'"
  by (simp add: core_same_def)

lemma vm_page_rename_spec:
  assumes inv: "pages_inv s" and p: "place s m = Some (a0, off0)" and a: "vm_objects s a \<noteq> None"
    and new: "\<And>x. x \<noteq> m \<Longrightarrow> place s x \<noteq> Some (a, off)"
  shows "\<exists>s'. vm_page_rename m a off s = Some s' \<and> pages_inv s' \<and> place s' = (place s)(m \<mapsto> (a, off)) \<and>
    core_same s s' \<and> kept s s'"
proof -
  from vm_page_remove_spec [OF inv p] obtain s1 ob0 where r: "vm_page_remove m s = Some s1" "pages_inv s1"
      "place s1 = (place s)(m := None)" "vm_objects s a0 = Some ob0" "vm_objects s1 = (vm_objects s)(a0 \<mapsto>
        ob0\<lparr>ob_memq := remove1 m (ob_memq ob0), ob_resident_page_count := ob_resident_page_count ob0 - 1\<rparr>)" "kept s s1"
    by blast
  from placeD [OF p] obtain t where t: "vm_pages s m = Some t" "vp_tabled t" by blast
  have "\<not> vp_free t" using inv t by (auto simp: pages_inv_def page_ok_def dest: queues_okD(5))
  with keptD [OF r(6) t(1)] obtain u where u: "vm_pages s1 m = Some u" "\<not> vp_free u" by (auto simp: page_data_def)
  have "place s1 m = None" by (simp add: r(3))
  then have nt: "\<not> vp_tabled u" using u by (auto simp: place_def)
  from a r(5) obtain ob where ob: "vm_objects s1 a = Some ob" by (cases "a = a0") auto
  have "place s1 x \<noteq> Some (a, off)" for x using new by (simp add: r(3))
  from vm_page_insert_spec [OF r(2) u(1) nt u(2) ob this] obtain s2 where i: "vm_page_insert m a off s1 = Some s2" "pages_inv s2"
      "place s2 = (place s1)(m \<mapsto> (a, off))" "vm_objects s2 = (vm_objects s1)(a \<mapsto> ob\<lparr>ob_memq := ob_memq ob @ [m],
        ob_resident_page_count := ob_resident_page_count ob + 1, ob_last_alloc := off\<rparr>)" "kept s1 s2" by blast
  have "core_same s s2"
    by (rule core_same_trans [OF core_same_upd [OF r(4,5)] core_same_upd [OF ob i(4)]]) simp_all
  with r i kept_trans [OF r(6) i(5)] show ?thesis by (auto simp: vm_page_rename_def)
qed

lemma vm_page_release_ok:
  assumes q: "queues_ok s" and p: "vm_pages s m = Some p" "\<not> vp_free p" "\<not> vp_fictitious p" "\<not> vp_active p" "\<not> vp_inactive p"
    "\<not> vp_tabled p" "vp_wire_count p = 0"
  shows "\<exists>s'. vm_page_release m s = Some s' \<and> queues_ok s' \<and> vm_pages s' = (vm_pages s)(m \<mapsto> p\<lparr>vp_free := True\<rparr>) \<and>
    vm_page_buckets s' = vm_page_buckets s \<and> vm_page_hash_mask s' = vm_page_hash_mask s \<and> vm_objects s' = vm_objects s"
proof -
  let ?s = "put_page m (p\<lparr>vp_free := True\<rparr>)
    (s\<lparr>vm_page_queue_free := m # vm_page_queue_free s, vm_page_free_count := vm_page_free_count s + 1\<rparr>)"
  let ?s' = "if 0 < vm_page_free_wanted ?s \<and> vm_page_free_reserved ?s \<le> vm_page_free_count ?s
    then vm_post Thread_Wakeup_One_Free_Count (?s\<lparr>vm_page_free_wanted := vm_page_free_wanted ?s - 1\<rparr>) else ?s"
  have "vm_page_release m s = Some ?s'" using p by (simp add: vm_page_release_def Let_def)
  moreover have "queues_ok ?s'"
    by (rule queues_ok_upd [OF q p(1), where p' = "p\<lparr>vp_free := True\<rparr>"])
      (use p in \<open>auto simp: page_ok_def wired_def queue_upd_def\<close>)
  moreover have "vm_pages ?s' = (vm_pages s)(m \<mapsto> p\<lparr>vp_free := True\<rparr>)" by simp
  ultimately show ?thesis by simp
qed

lemma vm_page_release_fictitious_ok:
  assumes q: "queues_ok s" and p: "vm_pages s m = Some p" "\<not> vp_free p" "vp_fictitious p" "\<not> vp_active p" "\<not> vp_inactive p"
    "\<not> vp_tabled p" "vp_wire_count p = 0"
  shows "\<exists>s'. vm_page_release_fictitious m s = Some s' \<and> queues_ok s' \<and> vm_pages s' = (vm_pages s)(m \<mapsto> p\<lparr>vp_free := True\<rparr>) \<and>
    vm_page_buckets s' = vm_page_buckets s \<and> vm_page_hash_mask s' = vm_page_hash_mask s \<and> vm_objects s' = vm_objects s"
proof -
  let ?s = "put_page m (p\<lparr>vp_free := True\<rparr>)
    (s\<lparr>vm_page_queue_fictitious := m # vm_page_queue_fictitious s, vm_page_fictitious_count := vm_page_fictitious_count s + 1\<rparr>)"
  have "vm_page_release_fictitious m s = Some ?s" using p by (simp add: vm_page_release_fictitious_def)
  moreover have "queues_ok ?s"
    by (rule queues_ok_upd [OF q p(1), where p' = "p\<lparr>vp_free := True\<rparr>"])
      (use p in \<open>auto simp: page_ok_def wired_def queue_upd_def\<close>)
  ultimately show ?thesis by simp
qed

lemma vm_page_grab_spec:
  assumes inv: "pages_inv s" and g: "vm_page_grab privileged s = Some (Some m, s')"
  shows "pages_inv s'" and "place s' = place s" and "vm_objects s' = vm_objects s" and "vm_page_hash_mask s' = vm_page_hash_mask s"
    and "\<exists>p. vm_pages s m = Some p \<and> free_real p \<and> vm_pages s' = (vm_pages s)(m \<mapsto> p\<lparr>vp_free := False\<rparr>)"
proof -
  have t: "table_ok s" and q: "queues_ok s" using inv by (simp_all add: pages_inv_def)
  from g obtain rest where free: "vm_page_queue_free s = m # rest"
    by (auto simp: vm_page_grab_def bind_eq_Some_conv Let_def split: if_splits list.splits)
  then have "m \<in> set (vm_page_queue_free s)" by simp
  with queues_okD(3) [OF q] obtain p where p: "vm_pages s m = Some p" "free_real p" by (auto simp: queue_is_def)
  have pk: "page_ok p" by (rule queues_okD(5) [OF q p(1)])
  let ?s = "put_page m (p\<lparr>vp_free := False\<rparr>)
    (s\<lparr>vm_page_queue_free := rest, vm_page_free_count := vm_page_free_count s - 1,
       vm_page_free_count_minimum := min (vm_page_free_count_minimum s) (vm_page_free_count s - 1)\<rparr>)"
  have s': "s' = ?s \<or> s' = vm_post Thread_Wakeup_Free_Wanted ?s"
    using g free p by (auto simp: vm_page_grab_def Let_def split: if_splits)
  have sel: "vm_pages s' = (vm_pages s)(m \<mapsto> p\<lparr>vp_free := False\<rparr>)" "vm_page_buckets s' = vm_page_buckets s"
    "vm_page_hash_mask s' = vm_page_hash_mask s" "vm_objects s' = vm_objects s"
    using s' by auto
  have pl: "place s' = place s" using p pk by (auto simp: place_def fun_eq_iff sel(1) page_ok_def)
  have "table_ok s'" by (rule table_ok_cong [OF pl sel(2,3) _ _ t]) (simp_all add: sel(4))
  moreover have "queues_ok s'"
    by (rule queues_ok_upd [OF q p(1) sel(1)])
      (use s' p pk free in \<open>auto simp: page_ok_def wired_def queue_upd_def\<close>)
  ultimately show "pages_inv s'" by (simp add: pages_inv_def)
  show "place s' = place s" "vm_objects s' = vm_objects s" "vm_page_hash_mask s' = vm_page_hash_mask s" by fact+
  show "\<exists>p. vm_pages s m = Some p \<and> free_real p \<and> vm_pages s' = (vm_pages s)(m \<mapsto> p\<lparr>vp_free := False\<rparr>)"
    using p sel(1) by blast
qed

lemma vm_page_alloc_spec:
  assumes inv: "pages_inv s" and ob: "vm_objects s a = Some ob" and new: "\<And>x. place s x \<noteq> Some (a, off)"
    and g: "vm_page_grab privileged s = Some (Some m, s1)"
  shows "\<exists>s'. vm_page_alloc privileged a off s = Some (Some m, s') \<and> pages_inv s' \<and> place s' = (place s)(m \<mapsto> (a, off)) \<and>
    vm_objects s' = (vm_objects s)(a \<mapsto> ob\<lparr>ob_memq := ob_memq ob @ [m],
      ob_resident_page_count := ob_resident_page_count ob + 1, ob_last_alloc := off\<rparr>)"
proof -
  note G = vm_page_grab_spec [OF inv g]
  from G(5) obtain p where p: "vm_pages s m = Some p" "free_real p" "vm_pages s1 m = Some (p\<lparr>vp_free := False\<rparr>)" by auto
  have "\<not> vp_tabled p" using inv p(1,2) queues_okD(5) [OF _ p(1)] by (auto simp: pages_inv_def page_ok_def)
  then have p1: "\<not> vp_tabled (p\<lparr>vp_free := False\<rparr>)" "\<not> vp_free (p\<lparr>vp_free := False\<rparr>)" by simp_all
  have ob1: "vm_objects s1 a = Some ob" and "\<And>x. place s1 x \<noteq> Some (a, off)" using ob new by (simp_all add: G(2,3))
  from vm_page_insert_spec [OF G(1) p(3) p1 ob1 this(2)] show ?thesis
    using g by (auto simp: vm_page_alloc_def G(2,3))
qed

text \<open>What freeing a page leaves alone.\<close>

definition table_same :: "'a vm_state_scheme \<Rightarrow> 'a vm_state_scheme \<Rightarrow> bool" where
  "table_same s s' \<longleftrightarrow> place s' = place s \<and> vm_page_buckets s' = vm_page_buckets s \<and>
     vm_page_hash_mask s' = vm_page_hash_mask s \<and> 
     (\<forall>a. map_option (\<lambda>ob. (ob_memq ob, ob_resident_page_count ob)) (vm_objects s' a) =
       map_option (\<lambda>ob. (ob_memq ob, ob_resident_page_count ob)) (vm_objects s a))"

lemma table_same_ok:
  assumes "table_same s s'" and "table_ok s"
  shows "table_ok s'"
proof (rule table_ok_cong [OF _ _ _ _ _ assms(2)])
  have m: "map_option (\<lambda>ob. (ob_memq ob, ob_resident_page_count ob)) (vm_objects s' a) =
       map_option (\<lambda>ob. (ob_memq ob, ob_resident_page_count ob)) (vm_objects s a)" for a
    using assms(1) by (simp add: table_same_def)
  show "dom (vm_objects s') = dom (vm_objects s)"
  proof (rule set_eqI)
    fix a show "a \<in> dom (vm_objects s') \<longleftrightarrow> a \<in> dom (vm_objects s)"
      using m [of a] by (cases "vm_objects s' a"; cases "vm_objects s a") (simp_all add: domIff)
  qed
  show "ob_memq ob' = ob_memq ob \<and> ob_resident_page_count ob' = ob_resident_page_count ob"
    if "vm_objects s a = Some ob" "vm_objects s' a = Some ob'" for a ob ob'
    using m [of a] that by simp
qed (use assms(1) in \<open>auto simp: table_same_def\<close>)

lemma table_same_trans: "table_same s1 s2 \<Longrightarrow> table_same s2 s3 \<Longrightarrow> table_same s1 s3"
  by (simp add: table_same_def)

lemma table_same_page:
  assumes "place s m = None" and "\<not> vp_tabled p'" and "vm_pages s' = (vm_pages s)(m \<mapsto> p')"
    and "vm_page_buckets s' = vm_page_buckets s" and "vm_page_hash_mask s' = vm_page_hash_mask s"
    and "vm_objects s' = vm_objects s"
  shows "table_same s s'"
proof -
  have "place s' = place s" using assms(1-3) by (auto simp: place_def fun_eq_iff)
  with assms(4-) show ?thesis by (simp add: table_same_def)
qed

lemma page_flag_id: "\<not> vp_laundry p \<Longrightarrow> p\<lparr>vp_laundry := False\<rparr> = p" "vp_wire_count p = 0 \<Longrightarrow> p\<lparr>vp_wire_count := 0\<rparr> = p"
  by (cases p; simp)+

text \<open>The page is off the table and the queues: it goes back to the free pages.\<close>

lemma free_detached:
  assumes q: "queues_ok s" and p: "vm_pages s m = Some p" "\<not> vp_free p" "\<not> vp_active p" "\<not> vp_inactive p" "\<not> vp_tabled p"
    and obj: "vp_absent p \<Longrightarrow> vm_objects s (vp_object p) \<noteq> None"
  shows "\<exists>s'. (do {
         p \<leftarrow> vm_pages s m;
         let s = (if vp_wire_count p \<noteq> 0
                  then put_page m (p\<lparr>vp_wire_count := 0\<rparr>)
                         (if \<not> vp_private p \<and> \<not> vp_fictitious p
                          then s\<lparr>vm_page_wire_count := vm_page_wire_count s - 1\<rparr> else s)
                  else s);
         p \<leftarrow> vm_pages s m;
         let s = (if vp_laundry p
                  then put_page m (p\<lparr>vp_laundry := False\<rparr>)
                         (s\<lparr>vm_page_laundry_count := vm_page_laundry_count s - 1\<rparr>)
                  else s);
         s \<leftarrow> page_wakeup_done m s;
         s \<leftarrow> (if vp_absent p
               then do {
                 ob \<leftarrow> vm_objects s (vp_object p);
                 Some (vm_post (Absent_Wakeup (vp_object p))
                   (put_object (vp_object p) (ob\<lparr>ob_absent_count := ob_absent_count ob - 1\<rparr>) s))
               }
               else Some s);
         if vp_private p \<or> vp_fictitious p
         then vm_page_release_fictitious m
                (put_page m ((vm_page_init (vm_page_fictitious_addr s))\<lparr>vp_fictitious := True\<rparr>) s)
         else vm_page_release m (put_page m (vm_page_init (vp_phys_addr p)) s) }) = Some s' \<and>
    queues_ok s' \<and> table_same s s' \<and> (\<exists>r. vm_pages s' = (vm_pages s)(m \<mapsto> r) \<and> vp_free r) \<and>
    (\<not> vp_absent p \<longrightarrow> vm_objects s' = vm_objects s)"
proof -
  have pk: "page_ok p" by (rule queues_okD(5) [OF q p(1)])
  have pl: "place s m = None" using p by (simp add: place_def)
  let ?p3 = "p\<lparr>vp_wire_count := 0\<rparr>"
  define s3 where "s3 = (if vp_wire_count p \<noteq> 0
     then put_page m ?p3 (if \<not> vp_private p \<and> \<not> vp_fictitious p
          then s\<lparr>vm_page_wire_count := vm_page_wire_count s - 1\<rparr> else s) else s)"
  have p3: "vm_pages s3 = (vm_pages s)(m \<mapsto> ?p3)" using p by (auto simp: s3_def page_flag_id fun_upd_idem)
  have q3: "queues_ok s3"
    by (rule queues_ok_upd [OF q p(1) p3]) (use p pk in \<open>auto simp: s3_def page_ok_def wired_def\<close>)
  have t3: "table_same s s3" by (rule table_same_page [OF pl _ p3]) (use p in \<open>auto simp: s3_def\<close>)
  have o3: "vm_objects s3 = vm_objects s" by (simp add: s3_def)
  let ?p4 = "?p3\<lparr>vp_laundry := False\<rparr>"
  define s4 where "s4 = (if vp_laundry p
     then put_page m ?p4 (s3\<lparr>vm_page_laundry_count := vm_page_laundry_count s3 - 1\<rparr>) else s3)"
  have p4: "vm_pages s4 = (vm_pages s)(m \<mapsto> ?p4)" using p3 by (auto simp: s4_def page_flag_id)
  have q4: "queues_ok s4"
    by (rule queues_ok_upd [OF q3, where m = m and p = ?p3 and p' = ?p4]) (use p pk p3 p4 in \<open>auto simp: s4_def page_ok_def wired_def\<close>)
  let ?p5 = "?p4\<lparr>vp_busy := False, vp_wanted := False\<rparr>"
  define s5 where "s5 = (if vp_wanted p then vm_post (Thread_Wakeup m) (put_page m ?p5 s4) else put_page m ?p5 s4)"
  have p5: "vm_pages s5 = (vm_pages s)(m \<mapsto> ?p5)" using p4 by (auto simp: s5_def)
  have q5: "queues_ok s5"
    by (rule queues_ok_upd [OF q4, where m = m and p = ?p4 and p' = ?p5]) (use p pk p4 p5 in \<open>auto simp: s5_def page_ok_def wired_def\<close>)
  have w5: "page_wakeup_done m s4 = Some s5" using p4 by (simp add: page_wakeup_done_def s5_def Let_def)
  have o5: "vm_objects s5 = vm_objects s" by (simp add: s5_def s4_def s3_def)
  have b5: "vm_page_buckets s5 = vm_page_buckets s" "vm_page_hash_mask s5 = vm_page_hash_mask s" by (simp_all add: s5_def s4_def s3_def)
  define s6 where "s6 = (if vp_absent p
     then vm_post (Absent_Wakeup (vp_object p)) (put_object (vp_object p)
       ((the (vm_objects s (vp_object p)))\<lparr>ob_absent_count := ob_absent_count (the (vm_objects s (vp_object p))) - 1\<rparr>) s5) else s5)"
  have p6: "vm_pages s6 = (vm_pages s)(m \<mapsto> ?p5)" using p5 by (simp add: s6_def)
  have q6: "queues_ok s6" using q5 queues_ok_cong [of s6 s5] by (simp add: s6_def)
  have o6: "\<not> vp_absent p \<Longrightarrow> vm_objects s6 = vm_objects s" by (simp add: s6_def o5)
  have t6: "table_same s s6"
  proof -
    have "place s6 = place s" using pl p by (auto simp: place_def fun_eq_iff p6)
    moreover have "map_option (\<lambda>ob. (ob_memq ob, ob_resident_page_count ob)) (vm_objects s6 a) =
       map_option (\<lambda>ob. (ob_memq ob, ob_resident_page_count ob)) (vm_objects s a)" for a
      using obj by (auto simp: s6_def o5)
    ultimately show ?thesis using b5 by (simp add: table_same_def s6_def)
  qed
  show ?thesis
  proof (cases "vp_private p \<or> vp_fictitious p")
    case True
    let ?i = "(vm_page_init (vm_page_fictitious_addr s6))\<lparr>vp_fictitious := True\<rparr>"
    have q7: "queues_ok (put_page m ?i s6)"
      by (rule queues_ok_upd [OF q6, where m = m and p = ?p5 and p' = ?i])
        (use p p6 in \<open>auto simp: vm_page_init_def page_ok_def wired_def\<close>)
    from vm_page_release_fictitious_ok [OF q7, of m ?i] obtain s' where r: "vm_page_release_fictitious m (put_page m ?i s6) = Some s'"
        "queues_ok s'" "vm_pages s' = (vm_pages s6)(m \<mapsto> ?i\<lparr>vp_free := True\<rparr>)" "vm_page_buckets s' = vm_page_buckets s6"
        "vm_page_hash_mask s' = vm_page_hash_mask s6" "vm_objects s' = vm_objects s6"
      by (auto simp: vm_page_init_def)
    have "table_same s6 s'"
      by (rule table_same_page [OF _ _ r(3)]) (use r t6 pl in \<open>auto simp: table_same_def vm_page_init_def\<close>)
    with r t6 True p p3 w5 o5 o6 obj p6 show ?thesis
      by (intro exI [of _ s'] conjI)
        (auto simp: s3_def [symmetric] s4_def [symmetric] s6_def bind_eq_Some_conv table_same_trans)
  next
    case False
    let ?i = "vm_page_init (vp_phys_addr p)"
    have q7: "queues_ok (put_page m ?i s6)"
      by (rule queues_ok_upd [OF q6, where m = m and p = ?p5 and p' = ?i])
        (use p p6 False in \<open>auto simp: vm_page_init_def page_ok_def wired_def\<close>)
    from vm_page_release_ok [OF q7, of m ?i] obtain s' where r: "vm_page_release m (put_page m ?i s6) = Some s'"
        "queues_ok s'" "vm_pages s' = (vm_pages s6)(m \<mapsto> ?i\<lparr>vp_free := True\<rparr>)" "vm_page_buckets s' = vm_page_buckets s6"
        "vm_page_hash_mask s' = vm_page_hash_mask s6" "vm_objects s' = vm_objects s6"
      by (auto simp: vm_page_init_def)
    have "table_same s6 s'"
      by (rule table_same_page [OF _ _ r(3)]) (use r t6 pl in \<open>auto simp: table_same_def vm_page_init_def\<close>)
    with r t6 False p p3 w5 o5 o6 obj p6 show ?thesis
      by (intro exI [of _ s'] conjI)
        (auto simp: s3_def [symmetric] s4_def [symmetric] s6_def bind_eq_Some_conv table_same_trans)
  qed
qed

lemma detach_queues:
  assumes inv: "pages_inv s" and p: "vm_pages s m = Some p" "\<not> vp_free p" "\<not> vp_tabled p"
  shows "\<exists>s'. queues_remove m s = Some s' \<and> pages_inv s' \<and> table_frame s s' \<and>
    vm_pages s' = (vm_pages s)(m \<mapsto> p\<lparr>vp_active := False, vp_inactive := False\<rparr>)"
proof -
  have t: "table_ok s" and q: "queues_ok s" using inv by (simp_all add: pages_inv_def)
  from queues_remove_ok [OF q p(1)] obtain s' where s': "queues_remove m s = Some s'" "queues_ok s'"
      "queue_step m p (p\<lparr>vp_active := False, vp_inactive := False\<rparr>) s s'" by blast
  note f = queue_step_frame [OF s'(3)]
  with s' table_frame_ok [OF f t] show ?thesis by (auto simp: pages_inv_def queue_step_def)
qed

lemma vm_page_free_spec:
  assumes inv: "pages_inv s" and p: "vm_pages s m = Some p" "\<not> vp_free p"
    and obj: "vp_absent p \<Longrightarrow> vm_objects s (vp_object p) \<noteq> None"
  shows "\<exists>s' r. vm_page_free m s = Some s' \<and> pages_inv s' \<and> place s' = (place s)(m := None) \<and>
    vm_pages s' m = Some r \<and> vp_free r \<and> (\<forall>x. x \<noteq> m \<longrightarrow> map_option page_data (vm_pages s' x) = map_option page_data (vm_pages s x)) \<and>
    (\<not> vp_absent p \<longrightarrow> core_same s s')"
proof -
  have "\<exists>s1 p1. (if vp_tabled p then vm_page_remove m s else Some s) = Some s1 \<and> pages_inv s1 \<and>
    place s1 = (place s)(m := None) \<and> kept s s1 \<and> vm_pages s1 m = Some p1 \<and> \<not> vp_tabled p1 \<and> \<not> vp_free p1 \<and>
    (vp_absent p1 \<longrightarrow> vm_objects s1 (vp_object p1) \<noteq> None) \<and> vp_absent p1 = vp_absent p \<and> core_same s s1"
  proof (cases "vp_tabled p")
    case True
    from vm_page_remove_spec [OF inv placeI [OF p(1) True]] obtain s1 ob where r: "vm_page_remove m s = Some s1" "pages_inv s1"
        "place s1 = (place s)(m := None)" "vm_objects s (vp_object p) = Some ob"
        "vm_objects s1 = (vm_objects s)(vp_object p \<mapsto> ob\<lparr>ob_memq := remove1 m (ob_memq ob),
           ob_resident_page_count := ob_resident_page_count ob - 1\<rparr>)" "kept s s1" by blast
    from keptD [OF r(6) p(1)] obtain p1 where p1: "vm_pages s1 m = Some p1" "page_data p1 = page_data p" by blast
    have "m \<in> set (vm_page_buckets s (vm_page_hash (vp_object p) (vp_offset p) s))" using r(1) p(1)
      by (auto simp: vm_page_remove_def bind_eq_Some_conv Let_def split: if_splits)
    then have "p1 = p\<lparr>vp_tabled := False\<rparr>" using r(1,4) p(1) p1(1) by (auto simp: vm_page_remove_def Let_def)
    moreover have "core_same s s1" by (rule core_same_upd [OF r(4,5)]) simp
    ultimately show ?thesis using r p1 p True by auto
  next
    case False
    then have "(place s)(m := None) = place s" using p by (auto simp: place_def fun_eq_iff)
    with inv p obj False show ?thesis by (auto simp: core_same_def)
  qed
  then obtain s1 p1 where s1: "(if vp_tabled p then vm_page_remove m s else Some s) = Some s1" "pages_inv s1"
      "place s1 = (place s)(m := None)" "kept s s1"
    and p1: "vm_pages s1 m = Some p1" "\<not> vp_tabled p1" "\<not> vp_free p1" "vp_absent p1 \<Longrightarrow> vm_objects s1 (vp_object p1) \<noteq> None"
    and c1: "vp_absent p1 = vp_absent p" "core_same s s1" by blast
  let ?p = "p1\<lparr>vp_active := False, vp_inactive := False\<rparr>"
  from detach_queues [OF s1(2) p1(1,3,2)] obtain s2 where s2: "queues_remove m s1 = Some s2" "pages_inv s2" "table_frame s1 s2"
      "vm_pages s2 = (vm_pages s1)(m \<mapsto> ?p)" by blast
  have p2: "vm_pages s2 m = Some ?p" by (simp add: s2(4))
  have q2: "queues_ok s2" and t2: "table_ok s2" using s2(2) by (simp_all add: pages_inv_def)
  have o2: "vp_absent ?p \<Longrightarrow> vm_objects s2 (vp_object ?p) \<noteq> None" using p1(4) s2(3) by (simp add: table_frame_def)
  have f2: "\<not> vp_free ?p" "\<not> vp_active ?p" "\<not> vp_inactive ?p" "\<not> vp_tabled ?p" using p1 by simp_all
  note fd = free_detached [OF q2 p2 f2 o2]
  then obtain s3 r where s3: "queues_ok s3" "table_same s2 s3" "vm_pages s3 = (vm_pages s2)(m \<mapsto> r)" "vp_free r"
      "\<not> vp_absent ?p \<longrightarrow> vm_objects s3 = vm_objects s2"
    and free: "vm_page_free m s = Some s3"
    using p s1(1) s2(1) unfolding vm_page_free_def by auto
  have "place s3 = (place s)(m := None)" using s3(2) s2(3) s1(3) by (simp add: table_same_def table_frame_def)
  moreover have "pages_inv s3" using s3 table_same_ok [OF s3(2) t2] by (simp add: pages_inv_def)
  moreover have "map_option page_data (vm_pages s3 x) = map_option page_data (vm_pages s x)" if "x \<noteq> m" for x
    using that s1(4) by (simp add: s3(3) s2(4) kept_def)
  moreover have "core_same s s3" if "\<not> vp_absent p"
  proof -
    have "vm_objects s3 = vm_objects s1" using that s3(5) c1(1) s2(3) by (simp add: table_frame_def)
    with c1(2) show ?thesis by (simp add: core_same_def)
  qed
  ultimately show ?thesis using free s3(3,4) by auto
qed

lemma vm_page_grab_fictitious_spec:
  assumes inv: "pages_inv s" and g: "vm_page_grab_fictitious s = Some (Some m, s')"
  shows "pages_inv s' \<and> place s' = place s \<and>
    (\<exists>p. vm_pages s m = Some p \<and> free_fict p \<and> vm_pages s' = (vm_pages s)(m \<mapsto> p\<lparr>vp_free := False\<rparr>))"
proof -
  have t: "table_ok s" and q: "queues_ok s" using inv by (simp_all add: pages_inv_def)
  from g obtain rest where free: "vm_page_queue_fictitious s = m # rest"
    by (auto simp: vm_page_grab_fictitious_def bind_eq_Some_conv split: list.splits)
  then have "m \<in> set (vm_page_queue_fictitious s)" by simp
  with queues_okD(4) [OF q] obtain p where p: "vm_pages s m = Some p" "free_fict p" by (auto simp: queue_is_def)
  have pk: "page_ok p" by (rule queues_okD(5) [OF q p(1)])
  have s': "s' = put_page m (p\<lparr>vp_free := False\<rparr>)
      (s\<lparr>vm_page_queue_fictitious := rest, vm_page_fictitious_count := vm_page_fictitious_count s - 1\<rparr>)"
    using g free p by (auto simp: vm_page_grab_fictitious_def)
  have sel: "vm_pages s' = (vm_pages s)(m \<mapsto> p\<lparr>vp_free := False\<rparr>)" by (simp add: s')
  have pl: "place s m = None" "\<not> vp_tabled p" using p pk by (auto simp: place_def page_ok_def)
  have "queues_ok s'"
    by (rule queues_ok_upd [OF q p(1) sel]) (use s' p pk free in \<open>auto simp: page_ok_def wired_def queue_upd_def\<close>)
  moreover have same: "table_same s s'" by (rule table_same_page [OF pl(1) _ sel]) (use pl in \<open>simp_all add: s'\<close>)
  ultimately show ?thesis using table_same_ok [OF same t] p sel by (auto simp: pages_inv_def table_same_def)
qed

lemma vm_page_convert_spec:
  assumes inv: "pages_inv s" and p: "vm_pages s m = Some p" "\<not> vp_free p" "vp_fictitious p" "vp_wire_count p = 0"
    and g: "vm_page_grab privileged s = Some (Some r, s1)"
  shows "\<exists>s'. vm_page_convert privileged m s = Some (True, s') \<and> pages_inv s' \<and> place s' = place s \<and>
    (\<exists>t. vm_pages s r = Some t \<and>
      vm_pages s' m = Some (p\<lparr>vp_phys_addr := vp_phys_addr t, vp_fictitious := False\<rparr>)) \<and> r \<noteq> m"
proof -
  note G = vm_page_grab_spec [OF inv g]
  have t1: "table_ok s1" and q1: "queues_ok s1" using G(1) by (simp_all add: pages_inv_def)
  from G(5) obtain t where t: "vm_pages s r = Some t" "free_real t" "vm_pages s1 = (vm_pages s)(r \<mapsto> t\<lparr>vp_free := False\<rparr>)" by blast
  with p have rm: "r \<noteq> m" by auto
  have pt: "page_ok t" "page_ok p" using inv t(1) p(1) by (auto simp: pages_inv_def dest: queues_okD(5))
  have pm: "vm_pages s1 m = Some p" using t(3) p(1) rm by simp
  let ?p = "p\<lparr>vp_phys_addr := vp_phys_addr t, vp_fictitious := False\<rparr>"
  let ?r = "t\<lparr>vp_free := False, vp_phys_addr := vm_page_fictitious_addr s1, vp_fictitious := True\<rparr>"
  let ?s2 = "put_page m ?p s1"
  let ?s3 = "put_page r ?r ?s2"
  have q2: "queues_ok ?s2"
    by (rule queues_ok_upd [OF q1 pm, where p' = ?p]) (use p pt in \<open>auto simp: page_ok_def wired_def\<close>)
  have pr: "vm_pages ?s2 r = Some (t\<lparr>vp_free := False\<rparr>)" using t(3) rm by simp
  have q3: "queues_ok ?s3"
    by (rule queues_ok_upd [OF q2 pr, where p' = ?r]) (use t pt in \<open>auto simp: page_ok_def wired_def\<close>)
  have pr3: "vm_pages ?s3 r = Some ?r" by simp
  have rr: "\<not> vp_free ?r" "vp_fictitious ?r" "\<not> vp_active ?r" "\<not> vp_inactive ?r" "\<not> vp_tabled ?r" "vp_wire_count ?r = 0"
    using t(2) pt(1) by (simp_all add: page_ok_def)
  from vm_page_release_fictitious_ok [OF q3 pr3 rr] obtain s' where r: "vm_page_release_fictitious r ?s3 = Some s'" "queues_ok s'"
      "vm_pages s' = (vm_pages ?s3)(r \<mapsto> ?r\<lparr>vp_free := True\<rparr>)" "vm_page_buckets s' = vm_page_buckets ?s3"
      "vm_page_hash_mask s' = vm_page_hash_mask ?s3" "vm_objects s' = vm_objects ?s3" by blast
  have pl: "place s' = place s"
    using t p pt rm by (auto simp: place_def fun_eq_iff r(3) page_ok_def)
  have same: "table_same s1 s'" using pl G(2) r(4-) by (simp add: table_same_def)
  have "vm_page_convert privileged m s = Some (True, s')"
    using g t(3) rm pm r(1) by (simp add: vm_page_convert_def Let_def)
  moreover have "vm_pages s' m = Some ?p" using rm by (simp add: r(3))
  ultimately show ?thesis using r(2) table_same_ok [OF same t1] pl t(1) rm by (auto simp: pages_inv_def)
qed

lemma wire_inv:
  assumes inv: "pages_inv s" and p: "vm_pages s m = Some p" "\<not> vp_free p" "vp_wire_count p + 1 \<noteq> 0"
  shows "\<exists>s'. vm_page_wire m s = Some s' \<and> pages_inv s' \<and> table_frame s s'"
  using vm_page_wire_ok [OF _ p] inv table_frame_ok by (auto simp: pages_inv_def)

lemma unwire_inv:
  assumes inv: "pages_inv s" and p: "vm_pages s m = Some p" "vp_wire_count p \<noteq> 0"
  shows "\<exists>s'. vm_page_unwire m s = Some s' \<and> pages_inv s' \<and> table_frame s s'"
  using vm_page_unwire_ok [OF _ p] inv table_frame_ok by (auto simp: pages_inv_def)

lemma activate_inv:
  assumes inv: "pages_inv s" and p: "vm_pages s m = Some p" "\<not> vp_free p" "\<not> vp_active p"
  shows "\<exists>s'. vm_page_activate m s = Some s' \<and> pages_inv s' \<and> table_frame s s'"
  using vm_page_activate_ok [OF _ p] inv table_frame_ok by (auto simp: pages_inv_def)

lemma deactivate_inv:
  assumes inv: "pages_inv s" and p: "vm_pages s m = Some p" "\<not> vp_free p"
  shows "\<exists>s'. vm_page_deactivate m s = Some s' \<and> pages_inv s' \<and> table_frame s s'"
  using vm_page_deactivate_ok [OF _ p] inv table_frame_ok by (auto simp: pages_inv_def)

end
