(* ===== verification/Vm_Object.thy ===== *)
theory Vm_Object
  imports Vm_Page_Table
begin

unbundle bit_operations_syntax

section \<open>Memory objects\<close>

text \<open>
  \<open>vm/vm_object.c\<close>: the objects that hold the pages of memory, chained by their shadows.  An object
  that has no page at an offset shows what its pager has there, and otherwise what its shadow shows
  at the offset plus \<open>ob_shadow_offset\<close>.  Address 0 is \<open>VM_OBJECT_NULL\<close> and \<open>IP_NULL\<close>.  \<open>vm_object_zone\<close>
  lists the addresses \<open>zalloc\<close> will hand out.
\<close>

definition VM_PROT_NONE :: u32 where "VM_PROT_NONE = 0"
definition VM_PROT_READ :: u32 where "VM_PROT_READ = 1"
definition VM_PROT_WRITE :: u32 where "VM_PROT_WRITE = 2"
definition VM_PROT_EXECUTE :: u32 where "VM_PROT_EXECUTE = 4"
definition VM_PROT_DEFAULT :: u32 where "VM_PROT_DEFAULT = VM_PROT_READ OR VM_PROT_WRITE"
definition VM_PROT_ALL :: u32 where "VM_PROT_ALL = VM_PROT_READ OR VM_PROT_WRITE OR VM_PROT_EXECUTE"

record vm_obj_state = vm_state +
  vm_object_zone :: "addr list"
  vm_object_cached_list :: "addr list"
  vm_object_cached_count :: int
  vm_object_cached_max :: int

definition vm_object_template :: vm_object where
  "vm_object_template =
     \<lparr>ob_memq = [], ob_size = 0, ob_ref_count = 1, ob_resident_page_count = 0, ob_copy = 0, ob_shadow = 0,
      ob_shadow_offset = 0, ob_pager = 0, ob_paging_offset = 0, ob_pager_request = 0, ob_pager_name = 0,
      ob_absent_count = 0, ob_paging_in_progress = 0, ob_pager_created = False, ob_pager_initialized = False,
      ob_pager_ready = False, ob_can_persist = False, ob_internal = True, ob_temporary = True, ob_alive = True,
      ob_last_alloc = 0\<rparr>"

definition vm_object_allocate :: "u32 \<Rightarrow> 'a vm_obj_state_scheme \<Rightarrow> (addr \<times> 'a vm_obj_state_scheme) option" where
  "vm_object_allocate len s =
     (case vm_object_zone s of
        [] \<Rightarrow> None
      | a # rest \<Rightarrow> Some (a, put_object a (vm_object_template\<lparr>ob_size := len\<rparr>) (s\<lparr>vm_object_zone := rest\<rparr>)))"

definition vm_object_reference :: "addr \<Rightarrow> 'a vm_state_scheme \<Rightarrow> 'a vm_state_scheme option" where
  "vm_object_reference object s =
     (if object = 0 then Some s
      else do { ob \<leftarrow> vm_objects s object; Some (put_object object (ob\<lparr>ob_ref_count := ob_ref_count ob + 1\<rparr>) s) })"

text \<open>The new object and the offset into it.\<close>

definition vm_object_shadow ::
    "addr \<Rightarrow> u32 \<Rightarrow> u32 \<Rightarrow> 'a vm_obj_state_scheme \<Rightarrow> (addr \<times> u32 \<times> 'a vm_obj_state_scheme) option" where
  "vm_object_shadow object offset len s =
     do {
       (result, s) \<leftarrow> vm_object_allocate len s;
       ob \<leftarrow> vm_objects s result;
       Some (result, 0, put_object result (ob\<lparr>ob_shadow := object, ob_shadow_offset := offset\<rparr>) s)
     }"

text \<open>The result says whether the copy was made, and whether source and destination need copies.\<close>

definition vm_object_copy_temporary :: "addr \<Rightarrow> 'a vm_state_scheme \<Rightarrow> ((bool \<times> bool \<times> bool) \<times> 'a vm_state_scheme) option" where
  "vm_object_copy_temporary object s =
     (if object = 0 then Some ((True, False, False), s)
      else do {
        ob \<leftarrow> vm_objects s object;
        Some (if ob_temporary ob
              then ((True, True, True), put_object object (ob\<lparr>ob_ref_count := ob_ref_count ob + 1\<rparr>) s)
              else ((False, False, False), s))
      })"

subsection \<open>The pages of an object\<close>

fun pmap_remove_iterate :: "addr list \<Rightarrow> u32 \<Rightarrow> u32 \<Rightarrow> 'a vm_state_scheme \<Rightarrow> 'a vm_state_scheme option" where
  "pmap_remove_iterate [] start end' s = Some s"
| "pmap_remove_iterate (m # ms) start end' s =
     do {
       p \<leftarrow> vm_pages s m;
       pmap_remove_iterate ms start end'
         (if \<not> vp_fictitious p \<and> start \<le> vp_offset p \<and> vp_offset p < end'
          then vm_post (Pmap_Page_Protect (vp_phys_addr p) VM_PROT_NONE) s else s)
     }"

definition vm_object_pmap_remove :: "addr \<Rightarrow> u32 \<Rightarrow> u32 \<Rightarrow> 'a vm_state_scheme \<Rightarrow> 'a vm_state_scheme option" where
  "vm_object_pmap_remove object start end' s =
     (if object = 0 then Some s
      else do { ob \<leftarrow> vm_objects s object; pmap_remove_iterate (ob_memq ob) start end' s })"

fun deactivate_iterate :: "addr list \<Rightarrow> 'a vm_state_scheme \<Rightarrow> 'a vm_state_scheme option" where
  "deactivate_iterate [] s = Some s"
| "deactivate_iterate (m # ms) s =
     do {
       p \<leftarrow> vm_pages s m;
       s \<leftarrow> (if \<not> vp_busy p then vm_page_deactivate m s else Some s);
       deactivate_iterate ms s
     }"

definition vm_object_deactivate_pages :: "addr \<Rightarrow> 'a vm_state_scheme \<Rightarrow> 'a vm_state_scheme option" where
  "vm_object_deactivate_pages object s = do { ob \<leftarrow> vm_objects s object; deactivate_iterate (ob_memq ob) s }"

text \<open>A page of the range that \<open>vm_object_page_remove\<close> clears.\<close>

definition page_remove_one :: "addr \<Rightarrow> 'a vm_state_scheme \<Rightarrow> 'a vm_state_scheme option" where
  "page_remove_one m s =
     do {
       p \<leftarrow> vm_pages s m;
       vm_page_free m (if \<not> vp_fictitious p then vm_post (Pmap_Page_Protect (vp_phys_addr p) VM_PROT_NONE) s else s)
     }"

partial_function (option) page_remove_lookup :: "addr \<Rightarrow> u32 \<Rightarrow> u32 \<Rightarrow> 'a vm_state_scheme \<Rightarrow> 'a vm_state_scheme option" where
  "page_remove_lookup object start end' s =
     (if start < end'
      then do {
        s \<leftarrow> (case vm_page_lookup object start s of None \<Rightarrow> Some s | Some m \<Rightarrow> page_remove_one m s);
        page_remove_lookup object (start + page_size) end' s
      }
      else Some s)"

fun page_remove_iterate :: "addr list \<Rightarrow> u32 \<Rightarrow> u32 \<Rightarrow> 'a vm_state_scheme \<Rightarrow> 'a vm_state_scheme option" where
  "page_remove_iterate [] start end' s = Some s"
| "page_remove_iterate (m # ms) start end' s =
     do {
       p \<leftarrow> vm_pages s m;
       s \<leftarrow> (if start \<le> vp_offset p \<and> vp_offset p < end' then page_remove_one m s else Some s);
       page_remove_iterate ms start end' s
     }"

definition vm_object_page_remove :: "addr \<Rightarrow> u32 \<Rightarrow> u32 \<Rightarrow> 'a vm_state_scheme \<Rightarrow> 'a vm_state_scheme option" where
  "vm_object_page_remove object start end' s =
     do {
       ob \<leftarrow> vm_objects s object;
       if drop_bit page_shift (end' - start) < scast (ob_resident_page_count ob) div 16
       then page_remove_lookup object start end' s
       else page_remove_iterate (ob_memq ob) start end' s
     }"

subsection \<open>Collapsing a chain of shadows\<close>

text \<open>
  The loop that empties the backing object.  \<open>fuel\<close> bounds it by the number of its pages: every turn
  takes one page away.
\<close>

fun collapse_pages :: "nat \<Rightarrow> addr \<Rightarrow> addr \<Rightarrow> u32 \<Rightarrow> u32 \<Rightarrow> 'a vm_state_scheme \<Rightarrow> 'a vm_state_scheme option" where
  "collapse_pages 0 object backing_object backing_offset len s = None"
| "collapse_pages (Suc n) object backing_object backing_offset len s =
     do {
       bo \<leftarrow> vm_objects s backing_object;
       case ob_memq bo of
         [] \<Rightarrow> Some s
       | m # _ \<Rightarrow> do {
           p \<leftarrow> vm_pages s m;
           let new_offset = vp_offset p - backing_offset;
           s \<leftarrow> (if vp_offset p < backing_offset \<or> len \<le> new_offset then vm_page_free m s
                 else case vm_page_lookup object new_offset s of
                   Some pp \<Rightarrow> do { q \<leftarrow> vm_pages s pp; if \<not> vp_absent q then vm_page_free m s else None }
                 | None \<Rightarrow> vm_page_rename m object new_offset s);
           collapse_pages n object backing_object backing_offset len s
         }
     }"

text \<open>The backing object is referenced by its parent only: the parent takes its place.\<close>

definition collapse_pager :: "addr \<Rightarrow> vm_object \<Rightarrow> vm_object \<Rightarrow> u32 \<Rightarrow> 'a vm_state_scheme \<Rightarrow> vm_object \<times> 'a vm_state_scheme" where
  "collapse_pager object ob bo backing_offset s =
     (let ob = ob\<lparr>ob_pager := ob_pager bo, ob_pager_initialized := ob_pager_initialized bo,
            ob_pager_ready := ob_pager_ready bo, ob_pager_created := ob_pager_created bo,
            ob_pager_request := ob_pager_request bo, ob_pager_name := ob_pager_name bo\<rparr>;
          s = (if ob_pager_request ob \<noteq> 0 then vm_post (Kobject_Set (ob_pager_request ob) object) s else s);
          s = (if ob_pager ob \<noteq> 0 then vm_post (Kobject_Set (ob_pager ob) object) s else s)
      in (if ob_pager ob \<noteq> 0 then ob\<lparr>ob_paging_offset := ob_paging_offset bo + backing_offset\<rparr> else ob, s))"

definition collapse_backing :: "addr \<Rightarrow> addr \<Rightarrow> 'a vm_obj_state_scheme \<Rightarrow> 'a vm_obj_state_scheme option" where
  "collapse_backing object backing_object s =
     do {
       ob \<leftarrow> vm_objects s object;
       bo \<leftarrow> vm_objects s backing_object;
       let backing_offset = ob_shadow_offset ob;
       s \<leftarrow> collapse_pages (Suc (length (ob_memq bo))) object backing_object backing_offset (ob_size ob) s;
       ob \<leftarrow> vm_objects s object;
       bo \<leftarrow> vm_objects s backing_object;
       let (ob, s) = collapse_pager object ob bo backing_offset s;
       let ob = ob\<lparr>ob_shadow := ob_shadow bo, ob_shadow_offset := ob_shadow_offset ob + ob_shadow_offset bo\<rparr>;
       let s = put_object object ob s;
       copied \<leftarrow> (if ob_shadow bo = 0 then Some False
                  else do { next_ob \<leftarrow> vm_objects s (ob_shadow bo); Some (ob_copy next_ob \<noteq> 0) });
       if copied then None
       else Some (s\<lparr>vm_objects := (vm_objects s)(backing_object := None),
               vm_object_zone := backing_object # vm_object_zone s\<rparr>)
     }"

text \<open>The backing object has other references, and no page that the parent needs: the parent goes round it.\<close>

definition collapse_needed :: "addr \<Rightarrow> addr list \<Rightarrow> u32 \<Rightarrow> u32 \<Rightarrow> 'a vm_state_scheme \<Rightarrow> bool" where
  "collapse_needed object ms backing_offset len s \<longleftrightarrow>
     list_ex (\<lambda>m. case vm_pages s m of
        None \<Rightarrow> False
      | Some p \<Rightarrow> backing_offset \<le> vp_offset p \<and> vp_offset p - backing_offset \<le> len \<and>
          vm_page_lookup object (vp_offset p - backing_offset) s = None) ms"

definition collapse_bypass :: "addr \<Rightarrow> addr \<Rightarrow> 'a vm_obj_state_scheme \<Rightarrow> 'a vm_obj_state_scheme option" where
  "collapse_bypass object backing_object s =
     do {
       ob \<leftarrow> vm_objects s object;
       bo \<leftarrow> vm_objects s backing_object;
       let s = put_object object (ob\<lparr>ob_shadow := ob_shadow bo\<rparr>) s;
       s \<leftarrow> vm_object_reference (ob_shadow bo) s;
       ob \<leftarrow> vm_objects s object;
       bo \<leftarrow> vm_objects s backing_object;
       let s = put_object object (ob\<lparr>ob_shadow_offset := ob_shadow_offset ob + ob_shadow_offset bo\<rparr>) s;
       Some (put_object backing_object (bo\<lparr>ob_ref_count := ob_ref_count bo - 1\<rparr>) s)
     }"

text \<open>One turn: \<open>Some None\<close> when the object cannot be collapsed any further.  \<open>cache_free\<close> tells
  whether \<open>vm_object_cache_lock_try\<close> gets the lock.\<close>

definition collapse_step :: "bool \<Rightarrow> addr \<Rightarrow> 'a vm_obj_state_scheme \<Rightarrow> 'a vm_obj_state_scheme option option" where
  "collapse_step cache_free object s =
     (if object = 0 then Some None
      else do {
        ob \<leftarrow> vm_objects s object;
        if ob_pager_created ob \<or> ob_paging_in_progress ob \<noteq> 0 \<or> ob_absent_count ob \<noteq> 0 then Some None
        else if ob_shadow ob = 0 then Some None
        else do {
          bo \<leftarrow> vm_objects s (ob_shadow ob);
          if \<not> ob_internal bo \<or> ob_paging_in_progress bo \<noteq> 0 then Some None
          else do {
            shared \<leftarrow> (if ob_shadow bo = 0 then Some False
                       else do { next_ob \<leftarrow> vm_objects s (ob_shadow bo); Some (ob_copy next_ob \<noteq> 0) });
            if shared then Some None
            else if ob_ref_count bo = 1
            then if \<not> cache_free then Some None
                 else do { s \<leftarrow> collapse_backing object (ob_shadow ob) s; Some (Some s) }
            else if ob_pager_created bo then Some None
            else if collapse_needed object (ob_memq bo) (ob_shadow_offset ob) (ob_size ob) s then Some None
            else do { s \<leftarrow> collapse_bypass object (ob_shadow ob) s; Some (Some s) }
          }
        }
      })"

partial_function (option) vm_object_collapse :: "bool \<Rightarrow> addr \<Rightarrow> 'a vm_obj_state_scheme \<Rightarrow> 'a vm_obj_state_scheme option" where
  "vm_object_collapse cache_free object s =
     do {
       r \<leftarrow> collapse_step cache_free object s;
       case r of None \<Rightarrow> Some s | Some s' \<Rightarrow> vm_object_collapse cache_free object s'
     }"

definition vm_object_coalesce ::
    "bool \<Rightarrow> addr \<Rightarrow> addr \<Rightarrow> u32 \<Rightarrow> u32 \<Rightarrow> u32 \<Rightarrow> 'a vm_obj_state_scheme \<Rightarrow> (bool \<times> 'a vm_obj_state_scheme) option" where
  "vm_object_coalesce cache_free prev_object next_object prev_offset prev_size next_size s =
     (if next_object \<noteq> 0 then Some (False, s)
      else if prev_object = 0 then Some (True, s)
      else do {
        s \<leftarrow> vm_object_collapse cache_free prev_object s;
        ob \<leftarrow> vm_objects s prev_object;
        if 1 < sint (ob_ref_count ob) \<or> ob_pager_created ob \<or> ob_shadow ob \<noteq> 0 \<or> ob_copy ob \<noteq> 0 then Some (False, s)
        else do {
          s \<leftarrow> vm_object_page_remove prev_object (prev_offset + prev_size) (prev_offset + prev_size + next_size) s;
          ob \<leftarrow> vm_objects s prev_object;
          let newsize = prev_offset + prev_size + next_size;
          Some (True, if ob_size ob < newsize then put_object prev_object (ob\<lparr>ob_size := newsize\<rparr>) s else s)
        }
      })"

text \<open>The object at the end of the chain of shadows.\<close>

partial_function (option) chain_end :: "addr \<Rightarrow> 'a vm_state_scheme \<Rightarrow> addr option" where
  "chain_end object s =
     do { ob \<leftarrow> vm_objects s object; if ob_shadow ob \<noteq> 0 then chain_end (ob_shadow ob) s else Some object }"

end
