(* ===== verification/Vm_Page_System.thy ===== *)
theory Vm_Page_System
  imports Vm_Page_Table
begin

section \<open>What is left alone, and replacing a page\<close>

text \<open>What operations on one page leave alone.\<close>

definition page_only :: "addr \<Rightarrow> 'a vm_state_scheme \<Rightarrow> 'a vm_state_scheme \<Rightarrow> bool" where
  "page_only m s s' \<longleftrightarrow> (\<forall>x. x \<noteq> m \<longrightarrow> vm_pages s' x = vm_pages s x) \<and> vm_page_hash_mask s' = vm_page_hash_mask s \<and>
     dom (vm_objects s') = dom (vm_objects s) \<and> vm_state.more s' = vm_state.more s"

lemma vm_put_more [simp]:
  "vm_state.more (put_page m p s) = vm_state.more s" "vm_state.more (put_object a ob s) = vm_state.more s"
  "vm_state.more (vm_post e s) = vm_state.more s"
  by (simp_all add: put_page_def put_object_def vm_post_def)

lemma page_only_refl [simp]: "page_only m s s" by (simp add: page_only_def)
lemma page_only_trans: "page_only m s1 s2 \<Longrightarrow> page_only m s2 s3 \<Longrightarrow> page_only m s1 s3" by (simp add: page_only_def)

lemma page_only_upd [simp]:
  "page_only m (put_page m p s) s' \<longleftrightarrow> page_only m s s'"
  "page_only m s (put_page m p s') \<longleftrightarrow> page_only m s s'"
  "page_only m s (vm_post e s') \<longleftrightarrow> page_only m s s'"
  "page_only m s (s'\<lparr>vm_page_wire_count := n\<rparr>) \<longleftrightarrow> page_only m s s'"
  "page_only m s (s'\<lparr>vm_page_laundry_count := n\<rparr>) \<longleftrightarrow> page_only m s s'"
  by (simp_all add: page_only_def)

lemma page_only_state [simp]:
  "page_only m s (s'\<lparr>vm_page_queue_active := q, vm_page_active_count := n\<rparr>) \<longleftrightarrow> page_only m s s'"
  "page_only m s (s'\<lparr>vm_page_queue_inactive := q, vm_page_inactive_count := n\<rparr>) \<longleftrightarrow> page_only m s s'"
  "page_only m s (s'\<lparr>vm_page_queue_free := q, vm_page_free_count := n\<rparr>) \<longleftrightarrow> page_only m s s'"
  "page_only m s (s'\<lparr>vm_page_queue_fictitious := q, vm_page_fictitious_count := n\<rparr>) \<longleftrightarrow> page_only m s s'"
  "page_only m s (s'\<lparr>vm_page_free_wanted := w\<rparr>) \<longleftrightarrow> page_only m s s'"
  "page_only m s (s'\<lparr>vm_page_buckets := b\<rparr>) \<longleftrightarrow> page_only m s s'"
  by (simp_all add: page_only_def)

lemma page_only_object: "page_only m s s' \<Longrightarrow> vm_objects s' a = Some ob \<Longrightarrow> page_only m s (put_object a ob' s')"
  by (auto simp: page_only_def dom_def set_eq_iff)

lemma vm_page_remove_only: "vm_page_remove m s = Some s' \<Longrightarrow> page_only m s s'"
  by (auto simp: vm_page_remove_def Let_def bind_eq_Some_conv split: if_splits)
    (rule page_only_object; simp)

lemma queues_remove_only: "queues_remove m s = Some s' \<Longrightarrow> page_only m s s'"
  unfolding queues_remove_def Let_def bind_eq_Some_conv by (auto split: if_splits)

lemma page_wakeup_done_only: "page_wakeup_done m s = Some s' \<Longrightarrow> page_only m s s'"
  by (auto simp: page_wakeup_done_def Let_def bind_eq_Some_conv split: if_splits)

lemma vm_page_release_only: "vm_page_release m s = Some s' \<Longrightarrow> page_only m s s'"
  by (auto simp: vm_page_release_def Let_def bind_eq_Some_conv split: if_splits)

lemma vm_page_release_fictitious_only: "vm_page_release_fictitious m s = Some s' \<Longrightarrow> page_only m s s'"
  by (auto simp: vm_page_release_fictitious_def Let_def bind_eq_Some_conv split: if_splits)

lemmas page_only_steps = vm_page_remove_only queues_remove_only page_wakeup_done_only vm_page_release_only
  vm_page_release_fictitious_only

definition yields :: "addr \<Rightarrow> 'a vm_state_scheme \<Rightarrow> 'a vm_state_scheme option \<Rightarrow> bool" where
  "yields m s r \<longleftrightarrow> (\<forall>s'. r = Some s' \<longrightarrow> page_only m s s')"

lemma yields_rules:
  "yields m s None"
  "page_only m s s' \<Longrightarrow> yields m s (Some s')"
  "(b \<Longrightarrow> yields m s r) \<Longrightarrow> (\<not> b \<Longrightarrow> yields m s r') \<Longrightarrow> yields m s (if b then r else r')"
  "yields m s f \<Longrightarrow> (\<And>s'. page_only m s s' \<Longrightarrow> yields m s (g s')) \<Longrightarrow> yields m s (f \<bind> g)"
  "(\<And>x. v = Some x \<Longrightarrow> yields m s (h x)) \<Longrightarrow> yields m s (v \<bind> h)"
  "(\<And>x. x = v' \<Longrightarrow> yields m s (k x)) \<Longrightarrow> yields m s (let x = v' in k x)"
  by (auto simp: yields_def bind_eq_Some_conv)

lemma yields_step: "page_only m s t \<Longrightarrow> (\<And>s'. f t = Some s' \<Longrightarrow> page_only m t s') \<Longrightarrow> yields m s (f t)"
  using page_only_trans by (auto simp: yields_def)

lemma vm_page_free_only:
  assumes "vm_page_free m s = Some s'"
  shows "page_only m s s'"
proof -
  have r: "yields m s (vm_page_release m (put_page m q t))" "yields m s (vm_page_release_fictitious m (put_page m q t))"
    "yields m s (page_wakeup_done m t)" "yields m s (queues_remove m t)" "yields m s (vm_page_remove m t)" if "page_only m s t" for q t
    using that by (auto intro!: yields_step dest!: page_only_steps)
  have "yields m s (vm_page_free m s)"
    unfolding vm_page_free_def
    apply (rule yields_rules(5))
    apply (rule yields_rules(3) yields_rules(1))+
    apply (rule yields_rules(4))
     apply (simp add: r yields_rules)
    apply (rule yields_rules(4))
     apply (simp add: r)
    apply (rule yields_rules(5))
    apply (rule yields_rules(6))
    apply (rule yields_rules(5))
    apply (rule yields_rules(6))
    apply (rule yields_rules(4))
     apply (simp add: r)
    apply (rule yields_rules(4))
     apply (rule yields_rules(3))
      apply (rule yields_rules(5))
      apply (rule yields_rules(2))
      apply (force simp: page_only_def)
     apply (simp add: yields_rules)
    apply (rule yields_rules(3))
     apply (simp_all add: r)
    done
  with assms show ?thesis by (simp add: yields_def)
qed

lemma vm_page_replace_spec:
  assumes inv: "pages_inv s" and p: "vm_pages s m = Some p" "\<not> vp_tabled p" "\<not> vp_free p" and ob: "vm_objects s a \<noteq> None"
  shows "\<exists>s'. vm_page_replace m a off s = Some s' \<and> pages_inv s' \<and>
    place s' = (\<lambda>x. if x = m then Some (a, off) else if place s x = Some (a, off) then None else place s x)"
proof -
  let ?p = "p\<lparr>vp_object := a, vp_offset := off\<rparr>" let ?s = "put_page m ?p s" let ?h = "vm_page_hash a off s"
  have t: "table_ok s" and q: "queues_ok s" using inv by (simp_all add: pages_inv_def)
  have m: "place s m = None" using p by (simp add: place_def)
  have pl0: "place ?s = place s" using p by (auto simp: place_def fun_eq_iff)
  have t0: "table_ok ?s" by (rule table_ok_cong [OF _ _ _ _ _ t]) (use pl0 in simp_all)
  have q0: "queues_ok ?s"
    by (rule queues_ok_upd [OF q p(1), where p' = ?p]) (use queues_okD(5) [OF q p(1)] in \<open>auto simp: page_ok_def wired_def\<close>)
  have i0: "pages_inv ?s" using t0 q0 by (simp add: pages_inv_def)
  have h0: "vm_page_hash a off ?s = ?h" by (simp add: vm_page_hash_def)
  obtain s1 where s1: "(case vm_page_lookup a off ?s of None \<Rightarrow> Some ?s
        | Some x \<Rightarrow> do { s \<leftarrow> vm_page_remove x ?s; vm_page_free x s }) = Some s1"
      "pages_inv s1" "place s1 = (\<lambda>x. if place s x = Some (a, off) then None else place s x)" "vm_pages s1 m = Some ?p"
      "vm_objects s1 a \<noteq> None" "vm_page_hash_mask s1 = vm_page_hash_mask s"
  proof (cases "vm_page_lookup a off ?s")
    case None
    then have "place s x \<noteq> Some (a, off)" for x using vm_page_lookup_None [OF t0] unfolding pl0 by blast
    then have "place ?s = (\<lambda>x. if place s x = Some (a, off) then None else place s x)" unfolding pl0 by auto
    with None i0 ob show ?thesis by (intro that [of ?s]) simp_all
  next
    case (Some x)
    then have x: "place ?s x = Some (a, off)" using vm_page_lookup_spec [OF t0] by blast
    then have xm: "x \<noteq> m" using m unfolding pl0 by fastforce
    from vm_page_remove_spec [OF i0 x] obtain s2 o2 where s2: "vm_page_remove x ?s = Some s2" "pages_inv s2"
        "place s2 = (place ?s)(x := None)" "vm_objects s2 = (vm_objects ?s)(a \<mapsto> o2\<lparr>ob_memq := remove1 x (ob_memq o2),
          ob_resident_page_count := ob_resident_page_count o2 - 1\<rparr>)" "kept ?s s2" by blast
    from placeD [OF x] obtain r where r: "vm_pages ?s x = Some r" "vp_tabled r" "vp_object r = a" by blast
    have "\<not> vp_free r" using queues_okD(5) [OF q0 r(1)] r(2) by (auto simp: page_ok_def)
    moreover from keptD [OF s2(5) r(1)] obtain r' where r': "vm_pages s2 x = Some r'" "page_data r' = page_data r" by blast
    ultimately have f: "\<not> vp_free r'" by (simp add: page_data_def)
    have ro: "vp_object r' = a" using s2(1) r r'(1) by (auto simp: vm_page_remove_def Let_def bind_eq_Some_conv split: if_splits)
    have "vm_objects s2 (vp_object r') \<noteq> None" by (simp add: s2(4) ro)
    from vm_page_free_spec [OF s2(2) r'(1) f this] obtain s3 where s3: "vm_page_free x s2 = Some s3" "pages_inv s3"
        "place s3 = (place s2)(x := None)" by blast
    have "vm_pages s3 m = Some ?p"
      using vm_page_free_only [OF s3(1)] page_only_steps(1) [OF s2(1)] xm by (simp add: page_only_def)
    moreover have "place s3 = (\<lambda>x. if place s x = Some (a, off) then None else place s x)"
      using x t unfolding s3(3) s2(3) pl0 by (auto simp: table_ok_def fun_eq_iff)
    moreover have "vm_objects s3 a \<noteq> None"
      using vm_page_free_only [OF s3(1)] s2(4) by (auto simp: page_only_def dom_def set_eq_iff)
    moreover have "vm_page_hash_mask s3 = vm_page_hash_mask s"
      using vm_page_free_only [OF s3(1)] page_only_steps(1) [OF s2(1)] by (simp add: page_only_def)
    ultimately show ?thesis using Some s2(1) s3(1,2) by (intro that [of s3]) simp_all
  qed
  from s1(5) obtain o1 where o1: "vm_objects s1 a = Some o1" by blast
  let ?q = "?p\<lparr>vp_tabled := True\<rparr>"
  let ?ob = "o1\<lparr>ob_memq := ob_memq o1 @ [m], ob_resident_page_count := ob_resident_page_count o1 + 1\<rparr>"
  define s2 where "s2 = put_object a ?ob (put_page m ?q
    (s1\<lparr>vm_page_buckets := (vm_page_buckets s1)(?h := m # vm_page_buckets s1 ?h)\<rparr>))"
  have t1: "table_ok s1" and q1: "queues_ok s1" using s1(2) by (simp_all add: pages_inv_def)
  have hh: "vm_page_hash a off s1 = ?h" using s1(6) by (simp add: vm_page_hash_def)
  have pl: "place s2 = (place s1)(m \<mapsto> (a, off))" by (simp add: s2_def) (simp add: place_def fun_eq_iff)
  have m1: "place s1 m = None" using m by (simp add: s1(3))
  have new: "place s1 x \<noteq> Some (a, off)" for x by (simp add: s1(3))
  have t2: "table_ok s2"
    by (rule table_ok_insert [OF t1 m1 o1 new pl, where ob' = ?ob]) (simp_all add: s2_def hh)
  have q2: "queues_ok s2"
    by (rule queues_ok_upd [OF q1 s1(4), where p' = ?q])
      (use queues_okD(5) [OF q1 s1(4)] p in \<open>auto simp: s2_def page_ok_def wired_def\<close>)
  have "vm_page_replace m a off s = Some s2"
    using p s1(1,4) o1 by (simp add: vm_page_replace_def Let_def h0 s2_def)
  moreover have "place s2 = (\<lambda>x. if x = m then Some (a, off) else if place s x = Some (a, off) then None else place s x)"
    by (auto simp: pl s1(3))
  ultimately show ?thesis using t2 q2 by (simp add: pages_inv_def)
qed

section \<open>Physical memory as a transition system\<close>

text \<open>
  The states that the operations of \<open>vm/vm_resident.c\<close> reach from the boot of the system, each called
  under the conditions its callers keep.  \<open>Touch\<close> and \<open>Change\<close> stand for the assignments other code
  makes to the fields of pages and objects that this module does not own, \<open>Elsewhere\<close> for all state
  that other modules add.
\<close>

definition vm_page_bucket_loop :: "nat \<Rightarrow> u32 \<Rightarrow> u32 \<Rightarrow> u32 option" where
  "vm_page_bucket_loop fuel npages count =
     rec_nat (\<lambda>_. None) (\<lambda>_ again c. if c < npages then again (push_bit 1 c) else Some c) fuel count"

lemma vm_page_bucket_loop_simps [simp]:
  "vm_page_bucket_loop 0 npages c = None"
  "vm_page_bucket_loop (Suc n) npages c =
     (if c < npages then vm_page_bucket_loop n npages (push_bit 1 c) else Some c)"
  by (simp_all add: vm_page_bucket_loop_def)

definition vm_page_bootstrap :: "u32 \<Rightarrow> 'a vm_state_scheme \<Rightarrow> 'a vm_state_scheme" where
  "vm_page_bootstrap bucket_count s =
     s\<lparr>vm_page_queue_free := [], vm_page_queue_fictitious := [], vm_page_queue_active := [],
       vm_page_queue_inactive := [], vm_page_free_wanted := 0, vm_page_hash_mask := bucket_count - 1,
       vm_page_buckets := (\<lambda>_. [])\<rparr>"

definition vm_page_create :: "addr \<Rightarrow> u32 \<Rightarrow> 'a vm_state_scheme \<Rightarrow> 'a vm_state_scheme option" where
  "vm_page_create m paddr s = vm_page_release m (put_page m (vm_page_init paddr) s)"

text \<open>The page frames of \<open>pmap_startup\<close>: \<open>ms\<close> are the page structures, \<open>paddrs\<close> the answers of
  \<open>pmap_next_page\<close>.\<close>

fun pmap_startup :: "addr list \<Rightarrow> u32 list \<Rightarrow> 'a vm_state_scheme \<Rightarrow> 'a vm_state_scheme option" where
  "pmap_startup (m # ms) (paddr # paddrs) s = do { s \<leftarrow> vm_page_create m paddr s; pmap_startup ms paddrs s }"
| "pmap_startup ms paddrs s = Some s"

definition vm_page_more_fictitious :: "addr list \<Rightarrow> 'a vm_state_scheme \<Rightarrow> 'a vm_state_scheme option" where
  "vm_page_more_fictitious ms s =
     foldr (\<lambda>m k s. vm_page_release_fictitious m
              (put_page m ((vm_page_init (vm_page_fictitious_addr s))\<lparr>vp_fictitious := True\<rparr>) s) \<bind> k)
       ms Some s"

text \<open>The store before the boot: no page and no object.\<close>

definition vm_zero :: "'a \<Rightarrow> 'a vm_state_scheme" where
  "vm_zero rest = \<lparr>vm_pages = (\<lambda>_. None), vm_objects = (\<lambda>_. None), vm_page_buckets = (\<lambda>_. []), vm_page_hash_mask = 0,
     vm_page_queue_free = [], vm_page_queue_fictitious = [], vm_page_queue_active = [], vm_page_queue_inactive = [],
     vm_page_free_count = 0, vm_page_fictitious_count = 0, vm_page_active_count = 0, vm_page_inactive_count = 0,
     vm_page_wire_count = 0, vm_page_laundry_count = 0, vm_page_free_count_minimum = 0, vm_page_free_target = 0,
     vm_page_free_min = 0, vm_page_inactive_target = 0, vm_page_free_reserved = 0, vm_page_free_wanted = 0,
     vm_page_fictitious_addr = -1, vm_events = [], \<dots> = rest\<rparr>"

definition touches :: "vm_page \<Rightarrow> vm_page \<Rightarrow> bool" where
  "touches p p' \<longleftrightarrow> vp_tabled p' = vp_tabled p \<and> vp_object p' = vp_object p \<and> vp_offset p' = vp_offset p \<and>
     vp_free p' = vp_free p \<and> vp_fictitious p' = vp_fictitious p \<and> vp_private p' = vp_private p \<and>
     vp_wire_count p' = vp_wire_count p \<and> vp_active p' = vp_active p \<and> vp_inactive p' = vp_inactive p"

inductive page_step :: "'a vm_state_scheme \<Rightarrow> 'a vm_state_scheme \<Rightarrow> bool" where
  Create: "vm_pages s m = None \<Longrightarrow> vm_page_create m paddr s = Some s' \<Longrightarrow> page_step s s'"
| More: "distinct ms \<Longrightarrow> \<forall>m\<in>set ms. vm_pages s m = None \<Longrightarrow> vm_page_more_fictitious ms s = Some s' \<Longrightarrow> page_step s s'"
| New_Object: "vm_objects s a = None \<Longrightarrow> ob_memq ob = [] \<Longrightarrow> ob_resident_page_count ob = 0 \<Longrightarrow> page_step s (put_object a ob s)"
| Change: "vm_objects s a = Some ob \<Longrightarrow> ob_memq ob' = ob_memq ob \<Longrightarrow> ob_resident_page_count ob' = ob_resident_page_count ob \<Longrightarrow>
    page_step s (put_object a ob' s)"
| Gone: "vm_objects s a = Some ob \<Longrightarrow> ob_memq ob = [] \<Longrightarrow> page_step s (s\<lparr>vm_objects := (vm_objects s)(a := None)\<rparr>)"
| Touch: "vm_pages s m = Some p \<Longrightarrow> touches p p' \<Longrightarrow> page_step s (put_page m p' s)"
| Grab: "vm_page_grab privileged s = Some (r, s') \<Longrightarrow> page_step s s'"
| Grab_Fictitious: "vm_page_grab_fictitious s = Some (r, s') \<Longrightarrow> page_step s s'"
| Convert: "vm_pages s m = Some p \<Longrightarrow> \<not> vp_free p \<Longrightarrow> vp_fictitious p \<Longrightarrow> vp_wire_count p = 0 \<Longrightarrow>
    vm_page_convert privileged m s = Some (r, s') \<Longrightarrow> page_step s s'"
| Alloc: "vm_objects s a \<noteq> None \<Longrightarrow> vm_page_lookup a off s = None \<Longrightarrow> vm_page_alloc privileged a off s = Some (r, s') \<Longrightarrow> page_step s s'"
| Insert: "vm_pages s m = Some p \<Longrightarrow> \<not> vp_free p \<Longrightarrow> vm_page_lookup a off s = None \<Longrightarrow>
    vm_page_insert m a off s = Some s' \<Longrightarrow> page_step s s'"
| Remove: "vm_pages s m = Some p \<Longrightarrow> vp_tabled p \<Longrightarrow> vm_page_remove m s = Some s' \<Longrightarrow> page_step s s'"
| Rename: "vm_pages s m = Some p \<Longrightarrow> vp_tabled p \<Longrightarrow> vm_objects s a \<noteq> None \<Longrightarrow> vm_page_lookup a off s \<in> {None, Some m} \<Longrightarrow>
    vm_page_rename m a off s = Some s' \<Longrightarrow> page_step s s'"
| Wire: "vm_pages s m = Some p \<Longrightarrow> \<not> vp_free p \<Longrightarrow> vp_wire_count p + 1 \<noteq> 0 \<Longrightarrow> vm_page_wire m s = Some s' \<Longrightarrow> page_step s s'"
| Unwire: "vm_pages s m = Some p \<Longrightarrow> vp_wire_count p \<noteq> 0 \<Longrightarrow> vm_page_unwire m s = Some s' \<Longrightarrow> page_step s s'"
| Activate: "vm_pages s m = Some p \<Longrightarrow> \<not> vp_free p \<Longrightarrow> vm_page_activate m s = Some s' \<Longrightarrow> page_step s s'"
| Deactivate: "vm_pages s m = Some p \<Longrightarrow> \<not> vp_free p \<Longrightarrow> vm_page_deactivate m s = Some s' \<Longrightarrow> page_step s s'"
| Free: "vm_pages s m = Some p \<Longrightarrow> (vp_absent p \<longrightarrow> vm_objects s (vp_object p) \<noteq> None) \<Longrightarrow> vm_page_free m s = Some s' \<Longrightarrow> page_step s s'"
| Replace: "vm_pages s m = Some p \<Longrightarrow> \<not> vp_free p \<Longrightarrow> vm_objects s a \<noteq> None \<Longrightarrow> vm_page_replace m a off s = Some s' \<Longrightarrow> page_step s s'"
| Grab_Phys_Addr: "vm_page_grab_phys_addr privileged s = Some (r, s') \<Longrightarrow> page_step s s'"
| Wakeup: "page_wakeup_done m s = Some s' \<Longrightarrow> page_step s s'"
| Wait: "page_step s (snd (vm_page_wait s))"
| Fill: "vm_page_zero_fill m s = Some s' \<Longrightarrow> page_step s s'"
| Copy: "vm_page_copy m m' s = Some s' \<Longrightarrow> page_step s s'"
| Elsewhere: "page_step s (vm_state.more_update f s)"

inductive page_reachable :: "'a vm_state_scheme \<Rightarrow> bool" where
  Boot: "page_reachable (vm_page_bootstrap n (vm_zero rest))"
| Step: "page_reachable s \<Longrightarrow> page_step s s' \<Longrightarrow> page_reachable s'"

lemma boot_inv: "pages_inv (vm_page_bootstrap n (vm_zero rest))"
  by (simp add: pages_inv_def vm_page_bootstrap_def vm_zero_def table_ok_def chains_ok_def memq_ok_def place_def
      queues_ok_def queue_is_def wired_pages_def)

text \<open>A page at an address that had none.\<close>

lemma new_page_ok:
  assumes q: "queues_ok s" and m: "vm_pages s m = None" and p: "\<not> vp_active p" "\<not> vp_inactive p" "\<not> vp_free p" "vp_wire_count p = 0"
    and s': "s' = put_page m p s"
  shows "queues_ok s'"
proof -
  have "queue_is s' l n f" if "queue_is s l n f" "\<not> f p" for l n f
    using that m by (auto simp: queue_is_def s')
  note Q = queues_okD(1-4) [OF q, THEN this]
  have "wired_pages s' = wired_pages s" using m p by (auto simp: wired_pages_def wired_def s')
  moreover have "page_ok r" if "vm_pages s' x = Some r" for x r
    using that queues_okD(5) [OF q, of x r] p by (auto simp: s' page_ok_def split: if_splits)
  moreover have "finite (dom (vm_pages s'))" using queues_okD(6) [OF q] by (simp add: s')
  ultimately show ?thesis using Q p queues_okD(7) [OF q] by (simp add: queues_ok_def s')
qed

lemma place_new: "vm_pages s m = None \<Longrightarrow> \<not> vp_tabled p \<Longrightarrow> place (put_page m p s) = place s"
  by (auto simp: place_def fun_eq_iff)

lemma vm_page_create_inv:
  assumes inv: "pages_inv s" and m: "vm_pages s m = None" and c: "vm_page_create m paddr s = Some s'"
  shows "pages_inv s'"
proof -
  let ?i = "vm_page_init paddr" and ?s = "put_page m (vm_page_init paddr) s"
  have q: "queues_ok ?s" by (rule new_page_ok [OF _ m]) (use inv in \<open>simp_all add: pages_inv_def vm_page_init_def\<close>)
  have i: "\<not> vp_free ?i" "\<not> vp_fictitious ?i" "\<not> vp_active ?i" "\<not> vp_inactive ?i" "\<not> vp_tabled ?i" "vp_wire_count ?i = 0"
    by (simp_all add: vm_page_init_def)
  have pm: "vm_pages ?s m = Some ?i" by simp
  from vm_page_release_ok [OF q pm i] c have r: "queues_ok s'" "vm_pages s' = (vm_pages ?s)(m \<mapsto> ?i\<lparr>vp_free := True\<rparr>)"
      "vm_page_buckets s' = vm_page_buckets ?s" "vm_page_hash_mask s' = vm_page_hash_mask ?s" "vm_objects s' = vm_objects ?s"
    by (auto simp: vm_page_create_def)
  have "table_same s s'"
    by (rule table_same_page [where m = m]) (use r i m in \<open>simp_all add: place_def\<close>)
  with r(1) inv table_same_ok show ?thesis by (auto simp: pages_inv_def)
qed

lemma more_fictitious_inv:
  "distinct ms \<Longrightarrow> \<forall>m\<in>set ms. vm_pages s m = None \<Longrightarrow> pages_inv s \<Longrightarrow>
   \<exists>s'. vm_page_more_fictitious ms s = Some s' \<and> pages_inv s'"
proof (induction ms arbitrary: s)
  case Nil then show ?case by (simp add: vm_page_more_fictitious_def)
next
  case (Cons m ms)
  let ?i = "(vm_page_init (vm_page_fictitious_addr s))\<lparr>vp_fictitious := True\<rparr>"
  let ?s = "put_page m ?i s"
  have m: "vm_pages s m = None" using Cons.prems by simp
  have q: "queues_ok ?s" by (rule new_page_ok [OF _ m]) (use Cons.prems in \<open>simp_all add: pages_inv_def vm_page_init_def\<close>)
  have i: "\<not> vp_free ?i" "vp_fictitious ?i" "\<not> vp_active ?i" "\<not> vp_inactive ?i" "\<not> vp_tabled ?i" "vp_wire_count ?i = 0"
    by (simp_all add: vm_page_init_def)
  have pm: "vm_pages ?s m = Some ?i" by simp
  from vm_page_release_fictitious_ok [OF q pm i] obtain s1 where r: "vm_page_release_fictitious m ?s = Some s1" "queues_ok s1"
      "vm_pages s1 = (vm_pages ?s)(m \<mapsto> ?i\<lparr>vp_free := True\<rparr>)"
      "vm_page_buckets s1 = vm_page_buckets ?s" "vm_page_hash_mask s1 = vm_page_hash_mask ?s" "vm_objects s1 = vm_objects ?s" by blast
  have "table_same s s1"
    by (rule table_same_page [where m = m]) (use r i m in \<open>simp_all add: place_def\<close>)
  then have inv1: "pages_inv s1" using r(2) Cons.prems(3) table_same_ok by (auto simp: pages_inv_def)
  have "\<forall>x\<in>set ms. vm_pages s1 x = None" using Cons.prems(1,2) r(3) by auto
  from Cons.IH [OF _ this inv1] Cons.prems(1) r(1) show ?case by (simp add: vm_page_more_fictitious_def)
qed

lemma objects_inv:
  assumes inv: "pages_inv s" and t: "table_ok s'" and s': "s' = s\<lparr>vm_objects := f\<rparr>"
  shows "pages_inv s'"
  using inv t queues_ok_cong [of s' s] by (simp add: pages_inv_def s')

lemma place_objects [simp]: "place (s\<lparr>vm_objects := f\<rparr>) = place s" by (simp add: place_def fun_eq_iff)

lemma new_object_inv:
  assumes inv: "pages_inv s" and a: "vm_objects s a = None" "ob_memq ob = []" "ob_resident_page_count ob = 0"
  shows "pages_inv (put_object a ob s)"
proof -
  have t: "table_ok s" using inv by (simp add: pages_inv_def)
  have none: "place s m \<noteq> Some (a, off)" for m off
  proof
    assume "place s m = Some (a, off)"
    then have "vm_objects s a \<noteq> None" using t unfolding table_ok_def by blast
    with a(1) show False by simp
  qed
  have "table_ok (put_object a ob s)"
    using t a none unfolding table_ok_def chains_ok_def memq_ok_def by (simp add: vm_page_hash_def)
  then show ?thesis by (rule objects_inv [OF inv]) (simp add: put_object_def)
qed

lemma change_object_inv:
  assumes inv: "pages_inv s" and a: "vm_objects s a = Some ob" "ob_memq ob' = ob_memq ob"
      "ob_resident_page_count ob' = ob_resident_page_count ob"
  shows "pages_inv (put_object a ob' s)"
proof -
  have t: "table_ok s" using inv by (simp add: pages_inv_def)
  have "table_same s (put_object a ob' s)" using a by (simp add: table_same_def)
  from table_same_ok [OF this t] show ?thesis by (rule objects_inv [OF inv]) (simp add: put_object_def)
qed

lemma gone_object_inv:
  assumes inv: "pages_inv s" and a: "vm_objects s a = Some ob" "ob_memq ob = []"
  shows "pages_inv (s\<lparr>vm_objects := (vm_objects s)(a := None)\<rparr>)"
proof -
  have t: "table_ok s" using inv by (simp add: pages_inv_def)
  then have "m \<in> set (ob_memq ob) \<longleftrightarrow> (\<exists>off. place s m = Some (a, off))" for m using a(1) unfolding table_ok_def memq_ok_def by blast
  then have none: "place s m \<noteq> Some (a, off)" for m off using a(2) by auto
  have "table_ok (s\<lparr>vm_objects := (vm_objects s)(a := None)\<rparr>)"
    using t none unfolding table_ok_def chains_ok_def memq_ok_def by (auto simp: vm_page_hash_def)
  then show ?thesis by (rule objects_inv [OF inv]) simp
qed

lemma touch_inv:
  assumes inv: "pages_inv s" and p: "vm_pages s m = Some p" "touches p p'"
  shows "pages_inv (put_page m p' s)"
proof -
  have "page_ok p" using inv p(1) queues_okD(5) by (auto simp: pages_inv_def)
  then have "queues_ok (put_page m p' s)"
    by (intro put_page_ok [of s m p]) (use inv p in \<open>auto simp: pages_inv_def touches_def page_ok_def wired_def\<close>)
  moreover have "place (put_page m p' s) = place s" using p by (auto simp: place_def fun_eq_iff touches_def)
  then have "table_same s (put_page m p' s)" by (simp add: table_same_def)
  ultimately show ?thesis using inv table_same_ok by (auto simp: pages_inv_def)
qed

lemma none_placed: "table_ok s \<Longrightarrow> vm_page_lookup a off s = None \<Longrightarrow> place s x \<noteq> Some (a, off)"
  by (simp add: vm_page_lookup_None)

lemma elsewhere_inv: "pages_inv (vm_state.more_update f s) \<longleftrightarrow> pages_inv s"
proof -
  let ?s = "vm_state.more_update f s"
  have "place ?s = place s" by (simp add: place_def fun_eq_iff)
  then have "table_ok ?s \<longleftrightarrow> table_ok s"
    unfolding table_ok_def chains_ok_def memq_ok_def vm_page_hash_def by simp
  moreover have "queues_ok ?s \<longleftrightarrow> queues_ok s" by (rule queues_ok_cong) simp_all
  ultimately show ?thesis by (simp add: pages_inv_def)
qed

lemma pages_inv_post [simp]: "pages_inv (vm_post e s) \<longleftrightarrow> pages_inv s"
proof -
  have "place (vm_post e s) = place s" by simp
  then have "table_ok (vm_post e s) \<longleftrightarrow> table_ok s"
    unfolding table_ok_def chains_ok_def memq_ok_def vm_page_hash_def by simp
  moreover have "queues_ok (vm_post e s) \<longleftrightarrow> queues_ok s" by (rule queues_ok_cong) simp_all
  ultimately show ?thesis by (simp add: pages_inv_def)
qed

lemma free_wanted_inv: "pages_inv (s\<lparr>vm_page_free_wanted := w\<rparr>) \<longleftrightarrow> pages_inv s"
proof -
  let ?s = "s\<lparr>vm_page_free_wanted := w\<rparr>"
  have "place ?s = place s" by (simp add: place_def fun_eq_iff)
  then have "table_ok ?s \<longleftrightarrow> table_ok s"
    unfolding table_ok_def chains_ok_def memq_ok_def vm_page_hash_def by simp
  moreover have "queues_ok ?s \<longleftrightarrow> queues_ok s" by (rule queues_ok_cong) simp_all
  ultimately show ?thesis by (simp add: pages_inv_def)
qed

lemma wait_inv: "pages_inv s \<Longrightarrow> pages_inv (snd (vm_page_wait s))"
  by (simp add: vm_page_wait_def Let_def free_wanted_inv)

lemma zero_fill_inv: "vm_page_zero_fill m s = Some s' \<Longrightarrow> pages_inv s \<Longrightarrow> pages_inv s'"
  and page_copy_inv: "vm_page_copy m m' s = Some s' \<Longrightarrow> pages_inv s \<Longrightarrow> pages_inv s'"
  by (auto simp: vm_page_zero_fill_def vm_page_copy_def bind_eq_Some_conv)

lemma page_step_inv: "page_step s s' \<Longrightarrow> pages_inv s \<Longrightarrow> pages_inv s'"
proof (induction rule: page_step.induct)
  case (Create s m paddr s') then show ?case using vm_page_create_inv by blast
next
  case (More ms s s') then show ?case using more_fictitious_inv [of ms s] by auto
next
  case New_Object then show ?case by (rule new_object_inv [rotated])
next
  case Change then show ?case by (rule change_object_inv [rotated])
next
  case Gone then show ?case by (rule gone_object_inv [rotated])
next
  case Touch then show ?case by (rule touch_inv [rotated])
next
  case (Grab privileged s r s')
  show ?case
  proof (cases r)
    case None
    with Grab show ?thesis by (auto simp: vm_page_grab_def Let_def bind_eq_Some_conv split: if_splits list.splits)
  next
    case (Some m) with Grab show ?thesis using vm_page_grab_spec(1) by blast
  qed
next
  case (Grab_Fictitious s r s')
  show ?case
  proof (cases r)
    case None
    with Grab_Fictitious show ?thesis by (auto simp: vm_page_grab_fictitious_def bind_eq_Some_conv split: list.splits)
  next
    case (Some m) with Grab_Fictitious show ?thesis using vm_page_grab_fictitious_spec by blast
  qed
next
  case (Convert s m p privileged r s')
  then obtain r' s1 where g: "vm_page_grab privileged s = Some (r', s1)" by (auto simp: vm_page_convert_def bind_eq_Some_conv)
  show ?case
  proof (cases r')
    case None
    with Convert g show ?thesis
      by (auto simp: vm_page_convert_def vm_page_grab_def Let_def bind_eq_Some_conv split: if_splits list.splits)
  next
    case (Some m') with Convert g show ?thesis using vm_page_convert_spec [OF Convert(6) Convert(1-4)] by fastforce
  qed
next
  case (Alloc s a off privileged r s')
  then obtain r' s1 where g: "vm_page_grab privileged s = Some (r', s1)" by (auto simp: vm_page_alloc_def bind_eq_Some_conv)
  have t: "table_ok s" using Alloc by (simp add: pages_inv_def)
  obtain ob where ob: "vm_objects s a = Some ob" using Alloc by blast
  show ?case
  proof (cases r')
    case None
    with Alloc g show ?thesis
      by (auto simp: vm_page_alloc_def vm_page_grab_def Let_def bind_eq_Some_conv split: if_splits list.splits)
  next
    case (Some m')
    with Alloc g show ?thesis using vm_page_alloc_spec [OF Alloc(4) ob none_placed [OF t Alloc(2)], of privileged m' s1] by fastforce
  qed
next
  case (Insert s m p a off s')
  have t: "table_ok s" using Insert by (simp add: pages_inv_def)
  obtain ob where "vm_objects s a = Some ob" "\<not> vp_tabled p"
    using Insert by (auto simp: vm_page_insert_def bind_eq_Some_conv split: if_splits)
  with Insert vm_page_insert_spec [OF Insert(5) Insert(1) _ Insert(2) _ none_placed [OF t Insert(3)]] show ?case by fastforce
next
  case (Remove s m p s')
  with vm_page_remove_spec [OF Remove(4) placeI [OF Remove(1,2)]] show ?case by fastforce
next
  case (Rename s m p a off s')
  have t: "table_ok s" using Rename by (simp add: pages_inv_def)
  have "place s x \<noteq> Some (a, off)" if "x \<noteq> m" for x
    using Rename(4) none_placed [OF t, of a off x] vm_page_lookup_spec [OF t, of a off x] that by auto
  with Rename vm_page_rename_spec [OF Rename(6) placeI [OF Rename(1,2)] Rename(3)] show ?case by fastforce
next
  case (Wire s m p s') with wire_inv [OF Wire(5) Wire(1-3)] show ?case by auto
next
  case (Unwire s m p s') with unwire_inv [OF Unwire(4) Unwire(1,2)] show ?case by auto
next
  case (Activate s m p s')
  show ?case
  proof (cases "vp_active p")
    case True
    with Activate have "vp_wire_count p = 0" "\<not> vp_inactive p" using queues_okD(5) by (auto simp: pages_inv_def page_ok_def)
    with True Activate show ?thesis by (simp add: vm_page_activate_def)
  next
    case False
    with Activate activate_inv [OF Activate(4) Activate(1,2)] show ?thesis by auto
  qed
next
  case (Deactivate s m p s') with deactivate_inv [OF Deactivate(4) Deactivate(1,2)] show ?case by auto
next
  case (Free s m p s')
  then have "\<not> vp_free p" by (auto simp: vm_page_free_def)
  with Free vm_page_free_spec [OF Free(4) Free(1)] show ?case by fastforce
next
  case (Replace s m p a off s')
  then have "\<not> vp_tabled p" by (auto simp: vm_page_replace_def)
  with Replace vm_page_replace_spec [OF Replace(5) Replace(1) _ Replace(2,3), of off] show ?case by fastforce
next
  case (Grab_Phys_Addr privileged s r s')
  then obtain r' where g: "vm_page_grab privileged s = Some (r', s')"
    by (auto simp: vm_page_grab_phys_addr_def bind_eq_Some_conv split: option.splits)
  show ?case
  proof (cases r')
    case None
    with g Grab_Phys_Addr(2) show ?thesis by (auto simp: vm_page_grab_def Let_def bind_eq_Some_conv split: if_splits list.splits)
  next
    case (Some m) with g Grab_Phys_Addr(2) show ?thesis using vm_page_grab_spec(1) by blast
  qed
next
  case (Wakeup m s s')
  then obtain p where p: "vm_pages s m = Some p" "s' = put_page m (p\<lparr>vp_busy := False, vp_wanted := False\<rparr>) s \<or>
      s' = vm_post (Thread_Wakeup m) (put_page m (p\<lparr>vp_busy := False, vp_wanted := False\<rparr>) s)"
    by (auto simp: page_wakeup_done_def Let_def bind_eq_Some_conv)
  have "pages_inv (put_page m (p\<lparr>vp_busy := False, vp_wanted := False\<rparr>) s)"
    by (rule touch_inv [OF Wakeup(2) p(1)]) (simp add: touches_def)
  with p(2) show ?case by auto
next
  case (Wait s) then show ?case by (rule wait_inv)
next
  case (Fill m s s') then show ?case using zero_fill_inv by blast
next
  case (Copy m m' s s') then show ?case using page_copy_inv by blast
next
  case (Elsewhere s f)
  then show ?case by (simp add: elsewhere_inv)
qed

lemma page_reachable_inv: "page_reachable s \<Longrightarrow> pages_inv s"
proof (induction rule: page_reachable.induct)
  case (Boot n rest) then show ?case by (rule boot_inv)
next
  case (Step s s') then show ?case using page_step_inv by metis
qed

text \<open>What the table shows before and after.\<close>

lemma lookup_place:
  assumes "pages_inv s" and "pages_inv s'" and "place s' = (place s)(m := x)"
  shows "vm_page_lookup a off s' =
    (if x = Some (a, off) then Some m else if vm_page_lookup a off s = Some m then None else vm_page_lookup a off s)"
proof -
  have t: "table_ok s" and t': "table_ok s'" using assms by (simp_all add: pages_inv_def)
  have e: "vm_page_lookup a off s' = Some y \<longleftrightarrow> (if y = m then x = Some (a, off) else vm_page_lookup a off s = Some y)" for y
    unfolding vm_page_lookup_spec [OF t'] vm_page_lookup_spec [OF t] assms(3) by simp
  show ?thesis
  proof (cases "vm_page_lookup a off s'")
    case None
    then have "x \<noteq> Some (a, off)" "\<And>y. y \<noteq> m \<Longrightarrow> vm_page_lookup a off s \<noteq> Some y" using e by (metis option.distinct(1))+
    with None show ?thesis by (cases "vm_page_lookup a off s") auto
  next
    case (Some y)
    have "m = y" if "x = Some (a, off)" using e [of m] that Some by simp
    note mx = this
    show ?thesis
    proof (cases "y = m")
      case True with Some e [of y] show ?thesis by simp
    next
      case False
      with Some e [of y] have "vm_page_lookup a off s = Some y" by simp
      moreover have "x \<noteq> Some (a, off)" using mx False by blast
      ultimately show ?thesis using Some False by simp
    qed
  qed
qed

end
