(* ===== verification/Vm_Object_Chain.thy ===== *)
theory Vm_Object_Chain
  imports Vm_Object Vm_Page_System
begin

section \<open>What a chain of shadows shows\<close>

text \<open>
  The contents an object shows at an offset: a page in memory, data of a pager, or zeros.  \<open>has\<close> tells
  which data the pagers have.
\<close>

datatype content = In_Frame u32 | In_Pager addr u32 | Zero_Fill

inductive reads :: "(addr \<Rightarrow> u32 \<Rightarrow> bool) \<Rightarrow> 'a vm_state_scheme \<Rightarrow> addr \<Rightarrow> u32 \<Rightarrow> content \<Rightarrow> bool"
  for has s where
  Reads_Page: "vm_objects s a = Some ob \<Longrightarrow> vm_page_lookup a off s = Some m \<Longrightarrow> vm_pages s m = Some p \<Longrightarrow>
    reads has s a off (In_Frame (vp_phys_addr p))"
| Reads_Pager: "vm_objects s a = Some ob \<Longrightarrow> vm_page_lookup a off s = None \<Longrightarrow> ob_pager_created ob \<Longrightarrow>
    has (ob_pager ob) (off + ob_paging_offset ob) \<Longrightarrow> reads has s a off (In_Pager (ob_pager ob) (off + ob_paging_offset ob))"
| Reads_Shadow: "vm_objects s a = Some ob \<Longrightarrow> vm_page_lookup a off s = None \<Longrightarrow>
    \<not> (ob_pager_created ob \<and> has (ob_pager ob) (off + ob_paging_offset ob)) \<Longrightarrow> ob_shadow ob \<noteq> 0 \<Longrightarrow>
    reads has s (ob_shadow ob) (off + ob_shadow_offset ob) c \<Longrightarrow> reads has s a off c"
| Reads_Zero: "vm_objects s a = Some ob \<Longrightarrow> vm_page_lookup a off s = None \<Longrightarrow>
    \<not> (ob_pager_created ob \<and> has (ob_pager ob) (off + ob_paging_offset ob)) \<Longrightarrow> ob_shadow ob = 0 \<Longrightarrow>
    reads has s a off Zero_Fill"

inductive_cases reads_E: "reads has s a off c"

lemma reads_unique: "reads has s a off c \<Longrightarrow> reads has s a off d \<Longrightarrow> c = d"
  by (induction arbitrary: d rule: reads.induct) (erule reads_E; simp)+

lemma reads_iff:
  "reads has s a off c \<longleftrightarrow>
     (\<exists>ob. vm_objects s a = Some ob \<and>
        (case vm_page_lookup a off s of
           Some m \<Rightarrow> \<exists>p. vm_pages s m = Some p \<and> c = In_Frame (vp_phys_addr p)
         | None \<Rightarrow> if ob_pager_created ob \<and> has (ob_pager ob) (off + ob_paging_offset ob)
                   then c = In_Pager (ob_pager ob) (off + ob_paging_offset ob)
                   else if ob_shadow ob = 0 then c = Zero_Fill
                   else reads has s (ob_shadow ob) (off + ob_shadow_offset ob) c))"
  by (subst reads.simps) (auto split: option.splits if_splits)

text \<open>The number of shadows behind an object.\<close>

fun chain :: "nat \<Rightarrow> addr \<Rightarrow> 'a vm_state_scheme \<Rightarrow> bool" where
  "chain 0 a s \<longleftrightarrow> (\<exists>ob. vm_objects s a = Some ob \<and> ob_shadow ob = 0)"
| "chain (Suc n) a s \<longleftrightarrow> (\<exists>ob. vm_objects s a = Some ob \<and> ob_shadow ob \<noteq> 0 \<and> chain n (ob_shadow ob) s)"

lemma chain_unique: "chain n a s \<Longrightarrow> chain m a s \<Longrightarrow> n = m"
proof (induction n arbitrary: a m)
  case 0 then show ?case by (cases m) auto
next
  case (Suc n) then show ?case by (cases m) auto
qed

lemma chain_next: "chain n a s \<Longrightarrow> vm_objects s a = Some ob \<Longrightarrow> ob_shadow ob \<noteq> 0 \<Longrightarrow> \<exists>m. n = Suc m \<and> chain m (ob_shadow ob) s"
  by (cases n) auto

text \<open>
  What collapsing relies on: the chains end, a shadow reaches as far as the object in front of it, an
  object knows all the objects in front of it by its reference count, no page is absent, and an
  object that had its pager created has a pager.
\<close>

definition shadowers :: "'a vm_state_scheme \<Rightarrow> addr \<Rightarrow> addr set" where
  "shadowers s a = {b. \<exists>ob. vm_objects s b = Some ob \<and> ob_shadow ob = a}"

definition object_ok :: "'a vm_state_scheme \<Rightarrow> addr \<Rightarrow> vm_object \<Rightarrow> bool" where
  "object_ok s a ob \<longleftrightarrow>
     card (shadowers s a) \<le> unat (ob_ref_count ob) \<and> (ob_pager_created ob \<longrightarrow> ob_pager ob \<noteq> 0) \<and>
     (ob_shadow ob \<noteq> 0 \<longrightarrow> (\<exists>bo. vm_objects s (ob_shadow ob) = Some bo \<and>
        unat (ob_size ob) + unat (ob_shadow_offset ob) \<le> unat (ob_size bo)))"

definition none_absent :: "'a vm_state_scheme \<Rightarrow> bool" where
  "none_absent s \<longleftrightarrow> (\<forall>m x p. place s m = Some x \<longrightarrow> vm_pages s m = Some p \<longrightarrow> \<not> vp_absent p)"

definition chains_inv :: "'a vm_state_scheme \<Rightarrow> bool" where
  "chains_inv s \<longleftrightarrow> pages_inv s \<and> vm_objects s 0 = None \<and> finite (dom (vm_objects s)) \<and>
     (\<forall>a ob. vm_objects s a = Some ob \<longrightarrow> object_ok s a ob \<and> (\<exists>n. chain n a s)) \<and>
     none_absent s"

lemma chains_invD:
  assumes "chains_inv s"
  shows "pages_inv s" "table_ok s" "queues_ok s" "vm_objects s 0 = None" "finite (dom (vm_objects s))"
    "vm_objects s a = Some ob \<Longrightarrow> object_ok s a ob" "vm_objects s a = Some ob \<Longrightarrow> \<exists>n. chain n a s"
    "none_absent s"
  using assms unfolding chains_inv_def pages_inv_def by blast+

lemma finite_shadowers: "chains_inv s \<Longrightarrow> finite (shadowers s a)"
  by (rule finite_subset [of _ "dom (vm_objects s)"]) (auto simp: shadowers_def dest: chains_invD(5))

lemma reads_total:
  assumes inv: "chains_inv s" and ch: "chain n a s"
  shows "\<exists>c. reads has s a off c"
  using ch
proof (induction n arbitrary: a off)
  case 0
  then obtain ob where ob: "vm_objects s a = Some ob" "ob_shadow ob = 0" by auto
  show ?case
  proof (cases "vm_page_lookup a off s")
    case None
    then show ?thesis using ob Reads_Zero [OF ob(1) None] Reads_Pager [OF ob(1) None] by metis
  next
    case (Some m)
    then obtain p where "vm_pages s m = Some p"
      using vm_page_lookup_spec [OF chains_invD(2) [OF inv]] placeD by blast
    with ob Some show ?thesis using Reads_Page by blast
  qed
next
  case (Suc n)
  then obtain ob where ob: "vm_objects s a = Some ob" "ob_shadow ob \<noteq> 0" "chain n (ob_shadow ob) s" by auto
  show ?case
  proof (cases "vm_page_lookup a off s")
    case None
    from Suc.IH [OF ob(3)] obtain c where "reads has s (ob_shadow ob) (off + ob_shadow_offset ob) c" by blast
    then show ?thesis using ob Reads_Shadow [OF ob(1) None] Reads_Pager [OF ob(1) None] by metis
  next
    case (Some m)
    then obtain p where "vm_pages s m = Some p"
      using vm_page_lookup_spec [OF chains_invD(2) [OF inv]] placeD by blast
    with ob Some show ?thesis using Reads_Page by blast
  qed
qed

subsection \<open>The pages of the backing object\<close>

text \<open>Where a page is once the backing object has been emptied into its parent.\<close>

definition moved_place :: "'a vm_state_scheme \<Rightarrow> addr \<Rightarrow> addr \<Rightarrow> u32 \<Rightarrow> u32 \<Rightarrow> addr \<Rightarrow> (addr \<times> u32) option" where
  "moved_place s object backing boff len m =
     (case place s m of
        None \<Rightarrow> None
      | Some (b, off) \<Rightarrow>
          if b \<noteq> backing then Some (b, off)
          else if off < boff \<or> len \<le> off - boff \<or> (\<exists>x. place s x = Some (object, off - boff)) then None
          else Some (object, off - boff))"

lemma moved_place_step:
  assumes t: "table_ok s" and m: "place s m = Some (backing, off)" and ne: "object \<noteq> backing"
    and s1: "place s1 = (place s)(m := moved_place s object backing boff len m)"
  shows "moved_place s1 object backing boff len = moved_place s object backing boff len"
proof
  fix x
  show "moved_place s1 object backing boff len x = moved_place s object backing boff len x"
  proof (cases "x = m")
    case True
    then show ?thesis using m ne by (auto simp: moved_place_def s1 split: option.splits if_splits)
  next
    case False
    have ex: "(\<exists>y. place s1 y = Some (object, off' - boff)) \<longleftrightarrow> (\<exists>y. place s y = Some (object, off' - boff))"
      if "place s x = Some (backing, off')" for off'
    proof -
      have "off' \<noteq> off" using that m False t unfolding table_ok_def by blast
      then have "off' - boff \<noteq> off - boff" by simp
      then have "place s1 m \<noteq> Some (object, off' - boff)" using m by (auto simp: s1 moved_place_def split: if_splits)
      moreover have "place s m \<noteq> Some (object, off' - boff)" using m ne by simp
      ultimately show ?thesis by (metis s1 fun_upd_other)
    qed
    have "place s1 x = place s x" using False by (simp add: s1)
    then show ?thesis using ex by (auto simp: moved_place_def split: option.splits)
  qed
qed

lemma memq_iff: "table_ok s \<Longrightarrow> vm_objects s a = Some ob \<Longrightarrow> m \<in> set (ob_memq ob) \<longleftrightarrow> (\<exists>off. place s m = Some (a, off))"
  and memq_distinct: "table_ok s \<Longrightarrow> vm_objects s a = Some ob \<Longrightarrow> distinct (ob_memq ob)"
  unfolding table_ok_def memq_ok_def by blast+

lemma core_same_object:
  assumes "core_same s s'" and "vm_objects s a = Some ob"
  shows "\<exists>ob'. vm_objects s' a = Some ob' \<and> ob_core ob' = ob_core ob"
proof -
  have "map_option ob_core (vm_objects s' a) = Some (ob_core ob)" using assms by (simp add: core_same_def)
  then show ?thesis by (cases "vm_objects s' a") auto
qed

lemma placed_page:
  assumes "pages_inv s" and "place s m = Some (a, off)"
  shows "\<exists>p. vm_pages s m = Some p \<and> vp_tabled p \<and> vp_object p = a \<and> vp_offset p = off \<and> \<not> vp_free p"
proof -
  from placeD [OF assms(2)] obtain p where p: "vm_pages s m = Some p" "vp_tabled p" "vp_object p = a" "vp_offset p = off" by blast
  then have "\<not> vp_free p" using assms(1) queues_okD(5) by (auto simp: pages_inv_def page_ok_def)
  with p show ?thesis by blast
qed

lemma collapse_pages_spec:
  assumes "pages_inv s" and "vm_objects s object \<noteq> None" and "object \<noteq> backing" and "vm_objects s backing = Some bo"
    and "length (ob_memq bo) < n" and "none_absent s"
  shows "\<exists>s'. collapse_pages n object backing boff len s = Some s' \<and> pages_inv s' \<and> core_same s s' \<and>
    place s' = moved_place s object backing boff len \<and>
    (\<forall>x. place s' x \<noteq> None \<longrightarrow> map_option page_data (vm_pages s' x) = map_option page_data (vm_pages s x))"
  using assms
proof (induction n arbitrary: s bo)
  case 0 then show ?case by simp
next
  case (Suc n)
  have t: "table_ok s" using Suc.prems(1) by (simp add: pages_inv_def)
  note memq = memq_iff [OF t Suc.prems(4)]
  show ?case
  proof (cases "ob_memq bo")
    case Nil
    then have none: "place s x \<noteq> Some (backing, off)" for x off using memq by auto
    have "moved_place s object backing boff len = place s"
    proof
      fix x show "moved_place s object backing boff len x = place s x"
      proof (cases "place s x")
        case (Some y)
        obtain b off where y: "y = (b, off)" by (cases y)
        with Some none have "b \<noteq> backing" by blast
        with Some y show ?thesis by (simp add: moved_place_def)
      qed (simp add: moved_place_def)
    qed
    then show ?thesis using Suc.prems Nil by (auto simp: core_same_def)
  next
    case (Cons m ms)
    then obtain off where m: "place s m = Some (backing, off)" using memq by auto
    from placed_page [OF Suc.prems(1) m] obtain p where p: "vm_pages s m = Some p" "vp_tabled p" "vp_object p = backing"
        "vp_offset p = off" "\<not> vp_free p" by blast
    have pa: "\<not> vp_absent p" using Suc.prems(6) m p(1) unfolding none_absent_def by blast
    let ?new = "off - boff"
    let ?gone = "off < boff \<or> len \<le> ?new \<or> (\<exists>x. place s x = Some (object, ?new))"
    obtain s1 where s1: "(if off < boff \<or> len \<le> ?new then vm_page_free m s
         else case vm_page_lookup object ?new s of
           Some pp \<Rightarrow> do { q \<leftarrow> vm_pages s pp; if \<not> vp_absent q then vm_page_free m s else None }
         | None \<Rightarrow> vm_page_rename m object ?new s) = Some s1"
      "pages_inv s1" "place s1 = (place s)(m := moved_place s object backing boff len m)" "core_same s s1"
      "\<forall>x. place s1 x \<noteq> None \<longrightarrow> map_option page_data (vm_pages s1 x) = map_option page_data (vm_pages s x)"
    proof (cases ?gone)
      case True
      have mp: "moved_place s object backing boff len m = None" using m True by (simp add: moved_place_def)
      from vm_page_free_spec [OF Suc.prems(1) p(1,5)] pa obtain s1 where f: "vm_page_free m s = Some s1" "pages_inv s1"
          "place s1 = (place s)(m := None)" "core_same s s1"
          "\<forall>x. x \<noteq> m \<longrightarrow> map_option page_data (vm_pages s1 x) = map_option page_data (vm_pages s x)" by auto
      have "(if off < boff \<or> len \<le> ?new then vm_page_free m s
         else case vm_page_lookup object ?new s of
           Some pp \<Rightarrow> do { q \<leftarrow> vm_pages s pp; if \<not> vp_absent q then vm_page_free m s else None }
         | None \<Rightarrow> vm_page_rename m object ?new s) = Some s1"
      proof (cases "off < boff \<or> len \<le> ?new")
        case True with f(1) show ?thesis by simp
      next
        case False
        with True obtain x where x: "place s x = Some (object, ?new)" by blast
        then have "vm_page_lookup object ?new s = Some x" using vm_page_lookup_spec [OF t] by blast
        moreover obtain q where "vm_pages s x = Some q" "\<not> vp_absent q" using x Suc.prems(6) placeD unfolding none_absent_def by blast
        ultimately show ?thesis using False f(1) by auto
      qed
      with f mp show ?thesis by (intro that [of s1]) auto
    next
      case False
      have mp: "moved_place s object backing boff len m = Some (object, ?new)" using m False by (simp add: moved_place_def)
      have "vm_page_lookup object ?new s = None" using False vm_page_lookup_None [OF t] by blast
      moreover have "\<And>x. x \<noteq> m \<Longrightarrow> place s x \<noteq> Some (object, ?new)" using False by blast
      ultimately show ?thesis
        using vm_page_rename_spec [OF Suc.prems(1) m Suc.prems(2), of ?new] False mp that by (auto simp: kept_def)
    qed
    from core_same_object [OF s1(4) Suc.prems(4)] obtain bo1 where b1: "vm_objects s1 backing = Some bo1" by blast
    have t1: "table_ok s1" using s1(2) by (simp add: pages_inv_def)
    have mm: "x \<in> set (ob_memq bo1) \<longleftrightarrow> x \<in> set ms" for x
    proof -
      have "x \<in> set (ob_memq bo1) \<longleftrightarrow> x \<noteq> m \<and> x \<in> set (ob_memq bo)"
        using Suc.prems(3) m unfolding memq memq_iff [OF t1 b1] s1(3)
        by (auto simp: moved_place_def)
      then show ?thesis using Cons memq_distinct [OF t Suc.prems(4)] by auto
    qed
    have "length (ob_memq bo1) = length ms"
      using mm memq_distinct [OF t1 b1] memq_distinct [OF t Suc.prems(4)] Cons distinct_card
      by (metis distinct.simps(2) set_eq_iff)
    then have len: "length (ob_memq bo1) < n" using Suc.prems(5) Cons by simp
    have o1: "vm_objects s1 object \<noteq> None" using core_same_object [OF s1(4)] Suc.prems(2) by fastforce
    have a1: "none_absent s1"
      unfolding none_absent_def
    proof (intro allI impI)
      fix x y q assume that: "place s1 x = Some y" "vm_pages s1 x = Some q"
      have "place s x \<noteq> None" using that(1) m by (auto simp: s1(3) split: if_splits)
      then obtain r z where r: "vm_pages s x = Some r" "place s x = Some z" by (fastforce dest: placeD)
      have "map_option page_data (vm_pages s1 x) = map_option page_data (vm_pages s x)" using s1(5) that(1) by auto
      moreover have "\<not> vp_absent r" using r Suc.prems(6) unfolding none_absent_def by blast
      ultimately show "\<not> vp_absent q" using r that(2) by (simp add: page_data_def)
    qed
    from Suc.IH [OF s1(2) o1 Suc.prems(3) b1 len a1] obtain s' where s': "collapse_pages n object backing boff len s1 = Some s'"
      "pages_inv s'" "core_same s1 s'" "place s' = moved_place s1 object backing boff len"
      "\<forall>x. place s' x \<noteq> None \<longrightarrow> map_option page_data (vm_pages s' x) = map_option page_data (vm_pages s1 x)" by blast
    have same: "moved_place s1 object backing boff len = moved_place s object backing boff len"
      by (rule moved_place_step [OF t m Suc.prems(3) s1(3)])
    have "place s1 x \<noteq> None" if "place s' x \<noteq> None" for x
      using that by (cases "place s1 x") (auto simp: s'(4) moved_place_def)
    then have "\<forall>x. place s' x \<noteq> None \<longrightarrow> map_option page_data (vm_pages s' x) = map_option page_data (vm_pages s x)"
      using s'(5) s1(5) by metis
    moreover have "collapse_pages (Suc n) object backing boff len s = Some s'"
      using Suc.prems(4) Cons p(1,4) s1(1) s'(1) by (auto simp: Let_def)
    ultimately show ?thesis using s' same core_same_trans [OF s1(4) s'(3)] by auto
  qed
qed

lemma pages_inv_cong:
  assumes "vm_pages s' = vm_pages s" and "vm_objects s' = vm_objects s" and "vm_page_buckets s' = vm_page_buckets s"
    and "vm_page_hash_mask s' = vm_page_hash_mask s" and "vm_page_queue_active s' = vm_page_queue_active s"
    and "vm_page_active_count s' = vm_page_active_count s" and "vm_page_queue_inactive s' = vm_page_queue_inactive s"
    and "vm_page_inactive_count s' = vm_page_inactive_count s" and "vm_page_queue_free s' = vm_page_queue_free s"
    and "vm_page_free_count s' = vm_page_free_count s" and "vm_page_queue_fictitious s' = vm_page_queue_fictitious s"
    and "vm_page_fictitious_count s' = vm_page_fictitious_count s" and "vm_page_wire_count s' = vm_page_wire_count s"
  shows "pages_inv s' \<longleftrightarrow> pages_inv s"
proof -
  have "place s' = place s" using assms(1) by (simp add: place_def fun_eq_iff)
  then have "table_ok s' \<longleftrightarrow> table_ok s"
    unfolding table_ok_def chains_ok_def memq_ok_def vm_page_hash_def by (simp add: assms(2-4))
  moreover have "queues_ok s' \<longleftrightarrow> queues_ok s" by (rule queues_ok_cong) (use assms in simp_all)
  ultimately show ?thesis by (simp add: pages_inv_def)
qed

lemma pages_inv_zone [simp]: "pages_inv (s\<lparr>vm_object_zone := z\<rparr>) \<longleftrightarrow> pages_inv s"
  by (rule pages_inv_cong) simp_all

lemma place_zone [simp]: "place (s\<lparr>vm_object_zone := z\<rparr>) = place s"
  by (simp add: place_def fun_eq_iff)

text \<open>The parent after it took the place of its backing object.\<close>

definition took_over :: "vm_object \<Rightarrow> vm_object \<Rightarrow> vm_object \<Rightarrow> bool" where
  "took_over ob bo ob' \<longleftrightarrow>
     ob_size ob' = ob_size ob \<and> ob_ref_count ob' = ob_ref_count ob \<and> ob_copy ob' = ob_copy ob \<and>
     ob_shadow ob' = ob_shadow bo \<and> ob_shadow_offset ob' = ob_shadow_offset ob + ob_shadow_offset bo \<and>
     ob_pager ob' = ob_pager bo \<and> ob_pager_created ob' = ob_pager_created bo \<and> ob_internal ob' = ob_internal ob \<and>
     ob_absent_count ob' = ob_absent_count ob \<and> ob_paging_in_progress ob' = ob_paging_in_progress ob \<and>
     (ob_pager bo \<noteq> 0 \<longrightarrow> ob_paging_offset ob' = ob_paging_offset bo + ob_shadow_offset ob)"

lemma ob_coreD:
  assumes "ob_core ob' = ob_core ob"
  shows "ob_size ob' = ob_size ob" "ob_ref_count ob' = ob_ref_count ob" "ob_copy ob' = ob_copy ob" "ob_shadow ob' = ob_shadow ob"
    "ob_shadow_offset ob' = ob_shadow_offset ob" "ob_pager ob' = ob_pager ob" "ob_pager_created ob' = ob_pager_created ob"
    "ob_internal ob' = ob_internal ob" "ob_absent_count ob' = ob_absent_count ob"
    "ob_paging_in_progress ob' = ob_paging_in_progress ob" "ob_paging_offset ob' = ob_paging_offset ob"
  using assms by (simp_all add: ob_core_def vm_object.defs) (cases ob; cases ob'; simp)+

lemma collapse_pager_state:
  assumes "collapse_pager object ob bo off s = (ob', s')"
  shows "pages_inv s' \<longleftrightarrow> pages_inv s" "vm_objects s' = vm_objects s" "vm_pages s' = vm_pages s" "place s' = place s"
proof -
  have s': "s' = snd (collapse_pager object ob bo off s)" using assms by simp
  show "pages_inv s' \<longleftrightarrow> pages_inv s" "vm_objects s' = vm_objects s" "vm_pages s' = vm_pages s" "place s' = place s"
    unfolding s' by (simp_all add: collapse_pager_def Let_def)
qed

lemma collapse_pager_object:
  assumes "collapse_pager object ob bo off s = (ob', s')"
  shows "ob_memq ob' = ob_memq ob" "ob_resident_page_count ob' = ob_resident_page_count ob"
    "ob_size ob' = ob_size ob" "ob_ref_count ob' = ob_ref_count ob" "ob_copy ob' = ob_copy ob"
    "ob_shadow_offset ob' = ob_shadow_offset ob" "ob_pager ob' = ob_pager bo" "ob_pager_created ob' = ob_pager_created bo"
    "ob_internal ob' = ob_internal ob" "ob_absent_count ob' = ob_absent_count ob"
    "ob_paging_in_progress ob' = ob_paging_in_progress ob"
    "ob_paging_offset ob' = (if ob_pager bo \<noteq> 0 then ob_paging_offset bo + off else ob_paging_offset ob)"
proof -
  have ob': "ob' = fst (collapse_pager object ob bo off s)" using assms by simp
  show "ob_memq ob' = ob_memq ob" "ob_resident_page_count ob' = ob_resident_page_count ob"
    "ob_size ob' = ob_size ob" "ob_ref_count ob' = ob_ref_count ob" "ob_copy ob' = ob_copy ob"
    "ob_shadow_offset ob' = ob_shadow_offset ob" "ob_pager ob' = ob_pager bo" "ob_pager_created ob' = ob_pager_created bo"
    "ob_internal ob' = ob_internal ob" "ob_absent_count ob' = ob_absent_count ob"
    "ob_paging_in_progress ob' = ob_paging_in_progress ob"
    "ob_paging_offset ob' = (if ob_pager bo \<noteq> 0 then ob_paging_offset bo + off else ob_paging_offset ob)"
    unfolding ob' by (simp_all add: collapse_pager_def Let_def)
qed

lemma collapse_backing_spec:
  assumes inv: "chains_inv s" and ob: "vm_objects s object = Some ob" and bo: "vm_objects s (ob_shadow ob) = Some bo"
    and ne: "object \<noteq> ob_shadow ob"
    and next': "ob_shadow bo \<noteq> 0 \<Longrightarrow> ob_shadow bo \<notin> {object, ob_shadow ob} \<and>
      (\<exists>no. vm_objects s (ob_shadow bo) = Some no \<and> ob_copy no = 0)"
  shows "\<exists>s' ob'. collapse_backing object (ob_shadow ob) s = Some s' \<and> pages_inv s' \<and>
    place s' = moved_place s object (ob_shadow ob) (ob_shadow_offset ob) (ob_size ob) \<and>
    (\<forall>x. place s' x \<noteq> None \<longrightarrow> map_option page_data (vm_pages s' x) = map_option page_data (vm_pages s x)) \<and>
    vm_objects s' object = Some ob' \<and> took_over ob bo ob' \<and> vm_objects s' (ob_shadow ob) = None \<and>
    (\<forall>a. a \<notin> {object, ob_shadow ob} \<longrightarrow> map_option ob_core (vm_objects s' a) = map_option ob_core (vm_objects s a))"
proof -
  let ?b = "ob_shadow ob"
  from collapse_pages_spec [OF chains_invD(1) [OF inv] _ ne bo lessI chains_invD(8) [OF inv], of "ob_shadow_offset ob" "ob_size ob"] ob
  obtain s1 where s1: "collapse_pages (Suc (length (ob_memq bo))) object ?b (ob_shadow_offset ob) (ob_size ob) s = Some s1"
      "pages_inv s1" "core_same s s1" "place s1 = moved_place s object ?b (ob_shadow_offset ob) (ob_size ob)"
      "\<forall>x. place s1 x \<noteq> None \<longrightarrow> map_option page_data (vm_pages s1 x) = map_option page_data (vm_pages s x)" by auto
  have t1: "table_ok s1" using s1(2) by (simp add: pages_inv_def)
  from core_same_object [OF s1(3) ob] obtain ob1 where ob1: "vm_objects s1 object = Some ob1" "ob_core ob1 = ob_core ob" by blast
  from core_same_object [OF s1(3) bo] obtain bo1 where bo1: "vm_objects s1 ?b = Some bo1" "ob_core bo1 = ob_core bo" by blast
  have empty: "ob_memq bo1 = []"
  proof -
    have "place s1 x \<noteq> Some (?b, off)" for x off
      using ne by (cases "place s x") (auto simp: s1(4) moved_place_def split: if_splits)
    then show ?thesis using memq_iff [OF t1 bo1(1)] by (cases "ob_memq bo1") auto
  qed
  obtain ob3 s3 where cp: "collapse_pager object ob1 bo1 (ob_shadow_offset ob) s1 = (ob3, s3)" by fastforce
  note cs = collapse_pager_state [OF cp] and co = collapse_pager_object [OF cp]
  have c3: "pages_inv s3" "vm_objects s3 = vm_objects s1" "vm_pages s3 = vm_pages s1" "place s3 = place s1"
    using cs s1(2) by simp_all
  note i3 = c3(1) and o3 = c3(2)
  define ob4 where "ob4 = ob3\<lparr>ob_shadow := ob_shadow bo1, ob_shadow_offset := ob_shadow_offset ob3 + ob_shadow_offset bo1\<rparr>"
  define s4 where "s4 = put_object object ob4 s3"
  define s5 where "s5 = s4\<lparr>vm_objects := (vm_objects s4)(?b := None), vm_object_zone := ?b # vm_object_zone s4\<rparr>"
  have m4: "ob_memq ob4 = ob_memq ob1" "ob_resident_page_count ob4 = ob_resident_page_count ob1"
    using co by (simp_all add: ob4_def)
  have i4: "pages_inv s4"
    unfolding s4_def by (rule change_object_inv [OF i3]) (use ob1 o3 m4 in simp_all)
  have b4: "vm_objects s4 ?b = Some bo1" using bo1 ne o3 by (simp add: s4_def)
  have "pages_inv (s4\<lparr>vm_objects := (vm_objects s4)(?b := None)\<rparr>)" by (rule gone_object_inv [OF i4 b4 empty])
  then have i5: "pages_inv s5" by (simp add: s5_def)
  have copied: "(if ob_shadow bo1 = 0 then Some False
      else do { next_ob \<leftarrow> vm_objects s4 (ob_shadow bo1); Some (ob_copy next_ob \<noteq> 0) }) = Some False"
  proof (cases "ob_shadow bo1 = 0")
    case False
    then have "ob_shadow bo \<noteq> 0" using ob_coreD(4) [OF bo1(2)] by simp
    with next' obtain no where no: "ob_shadow bo \<notin> {object, ?b}" "vm_objects s (ob_shadow bo) = Some no" "ob_copy no = 0" by blast
    from core_same_object [OF s1(3) no(2)] obtain no1 where "vm_objects s1 (ob_shadow bo) = Some no1" "ob_core no1 = ob_core no" by blast
    then show ?thesis using False no ob_coreD(4) [OF bo1(2)] ob_coreD(3) [of no1 no] by (simp add: s4_def o3)
  qed simp
  have "collapse_backing object ?b s = Some s5"
    using ob bo s1(1) ob1(1) bo1(1) copied
    by (simp add: collapse_backing_def cp ob4_def [symmetric] s4_def [symmetric] s5_def del: collapse_pages.simps)
  moreover have "place s5 = place s1" using c3(4) by (simp add: s5_def s4_def)
  moreover have "vm_pages s5 = vm_pages s1" using c3(3) by (simp add: s5_def s4_def)
  moreover have "vm_objects s5 object = Some ob4" using ne by (simp add: s5_def s4_def)
  moreover have "took_over ob bo ob4" using co ob_coreD [OF ob1(2)] ob_coreD [OF bo1(2)] by (simp add: took_over_def ob4_def)
  moreover have "map_option ob_core (vm_objects s5 a) = map_option ob_core (vm_objects s a)" if "a \<notin> {object, ?b}" for a
    using that s1(3) by (simp add: s5_def s4_def o3 core_same_def)
  moreover have "vm_objects s5 ?b = None" by (simp add: s5_def)
  ultimately show ?thesis using i5 s1(4,5) by auto
qed

end
