(* ===== verification/Vm_Object_Collapse.thy ===== *)
theory Vm_Object_Collapse
  imports Vm_Object_Chain
begin

section \<open>Collapsing keeps what every object shows\<close>

text \<open>What reading looks at in an object.\<close>

definition ob_view :: "vm_object \<Rightarrow> u32 \<times> addr \<times> u32 \<times> addr \<times> bool \<times> u32" where
  "ob_view ob = (ob_size ob, ob_shadow ob, ob_shadow_offset ob, ob_pager ob, ob_pager_created ob, ob_paging_offset ob)"

lemma ob_view_core:
  assumes "ob_core ob' = ob_core ob"
  shows "ob_view ob' = ob_view ob"
  by (simp add: ob_view_def ob_coreD [OF assms])

text \<open>An offset within an object is within its shadow.\<close>

lemma window:
  assumes "chains_inv s" and "vm_objects s a = Some ob" and "ob_shadow ob \<noteq> 0" and "off < ob_size ob"
  shows "\<exists>bo. vm_objects s (ob_shadow ob) = Some bo \<and> off + ob_shadow_offset ob < ob_size bo \<and>
    ob_shadow_offset ob \<le> off + ob_shadow_offset ob"
proof -
  have "object_ok s a ob" by (rule chains_invD(6) [OF assms(1,2)])
  with assms(3) obtain bo where bo: "vm_objects s (ob_shadow ob) = Some bo"
      "unat (ob_size ob) + unat (ob_shadow_offset ob) \<le> unat (ob_size bo)" unfolding object_ok_def by blast
  have o: "unat off < unat (ob_size ob)" using assms(4) by (simp add: word_less_nat_alt)
  have "unat (ob_size bo) < 2 ^ 32" using unsigned_less [of "ob_size bo"] by simp
  then have "unat off + unat (ob_shadow_offset ob) < 2 ^ 32" using bo(2) o by linarith
  then have u: "unat (off + ob_shadow_offset ob) = unat off + unat (ob_shadow_offset ob)"
    by (simp add: unat_word_ariths)
  have "off + ob_shadow_offset ob < ob_size bo"
    unfolding word_less_nat_alt u using bo(2) o by linarith
  with bo(1) u show ?thesis by (simp add: word_le_nat_alt)
qed

lemma collapse_reads:
  assumes inv: "chains_inv s" and t': "table_ok s'" and ob: "vm_objects s object = Some ob" "ob_shadow ob \<noteq> 0" "\<not> ob_pager_created ob"
    and bo: "vm_objects s (ob_shadow ob) = Some bo"
    and data: "\<And>x. place s' x \<noteq> None \<Longrightarrow> map_option page_data (vm_pages s' x) = map_option page_data (vm_pages s x)"
    and ob': "vm_objects s' object = Some ob'" "ob_shadow ob' = ob_shadow bo"
      "ob_shadow_offset ob' = ob_shadow_offset ob + ob_shadow_offset bo" "ob_pager_created ob' = ob_pager_created bo"
      "ob_pager_created bo \<Longrightarrow> ob_pager ob' = ob_pager bo \<and> ob_paging_offset ob' = ob_paging_offset bo + ob_shadow_offset ob"
    and l1: "\<And>off m. vm_page_lookup object off s = Some m \<Longrightarrow> vm_page_lookup object off s' = Some m"
    and l2: "\<And>off. vm_page_lookup object off s = None \<Longrightarrow> off < ob_size ob \<Longrightarrow>
      vm_page_lookup object off s' = vm_page_lookup (ob_shadow ob) (off + ob_shadow_offset ob) s"
    and l3: "\<And>a off. a \<noteq> object \<Longrightarrow> a \<noteq> g \<Longrightarrow> vm_page_lookup a off s' = vm_page_lookup a off s"
    and oth: "\<And>a oa. vm_objects s a = Some oa \<Longrightarrow> a \<noteq> object \<Longrightarrow> a \<noteq> g \<Longrightarrow>
      \<exists>oa'. vm_objects s' a = Some oa' \<and> ob_view oa' = ob_view oa"
    and g: "\<And>a oa. vm_objects s a = Some oa \<Longrightarrow> a \<noteq> object \<Longrightarrow> ob_shadow oa \<noteq> 0 \<Longrightarrow> ob_shadow oa \<noteq> g"
    and ne: "ob_shadow ob \<noteq> object"
  shows "chain n a s \<Longrightarrow> a \<noteq> g \<Longrightarrow> vm_objects s a = Some oa \<Longrightarrow> off < ob_size oa \<Longrightarrow> reads has s a off c \<Longrightarrow> reads has s' a off c"
proof (induction n arbitrary: a oa off rule: less_induct)
  case (less n)
  have frame: "\<exists>p'. vm_pages s' m = Some p' \<and> vp_phys_addr p' = vp_phys_addr p"
    if "vm_page_lookup x y s' = Some m" "vm_pages s m = Some p" for x y m p
  proof -
    have "place s' m \<noteq> None" using that(1) vm_page_lookup_spec [OF t'] by simp
    from data [OF this] that(2) show ?thesis by (auto simp: page_data_def)
  qed
  from less.prems(3,5) have body: "case vm_page_lookup a off s of
      Some m \<Rightarrow> \<exists>p. vm_pages s m = Some p \<and> c = In_Frame (vp_phys_addr p)
    | None \<Rightarrow> if ob_pager_created oa \<and> has (ob_pager oa) (off + ob_paging_offset oa)
              then c = In_Pager (ob_pager oa) (off + ob_paging_offset oa)
              else if ob_shadow oa = 0 then c = Zero_Fill
              else reads has s (ob_shadow oa) (off + ob_shadow_offset oa) c"
    unfolding reads_iff [of has s a] by auto
  show ?case
  proof (cases "vm_page_lookup a off s")
    case (Some m)
    with body obtain p where p: "vm_pages s m = Some p" "c = In_Frame (vp_phys_addr p)" by auto
    have lk: "vm_page_lookup a off s' = Some m"
      using Some l1 l3 [OF _ less.prems(2)] by (cases "a = object") auto
    from frame [OF lk p(1)] obtain p' where p': "vm_pages s' m = Some p'" "vp_phys_addr p' = vp_phys_addr p" by blast
    obtain oa' where "vm_objects s' a = Some oa'"
      using oth [OF less.prems(3) _ less.prems(2)] ob'(1) by (cases "a = object") auto
    from Reads_Page [OF this lk p'(1)] p(2) p'(2) show ?thesis by simp
  next
    case none: None
    show ?thesis
    proof (cases "a = object")
      case True
      with ob less.prems have oa: "oa = ob" by simp
      let ?b = "ob_shadow ob" and ?off = "off + ob_shadow_offset ob"
      have read_b: "reads has s ?b ?off c" using body none oa ob(2,3) by simp
      have lk: "vm_page_lookup object off s' = vm_page_lookup ?b ?off s" using l2 none less.prems(4) oa True by simp
      from window [OF inv ob(1,2)] less.prems(4) oa bo have w: "?off < ob_size bo" by auto
      from chain_next [OF less.prems(1), of ob] ob True obtain n1 where n1: "n = Suc n1" "chain n1 ?b s" by auto
      have pg: "ob_pager_created ob' \<and> has (ob_pager ob') (off + ob_paging_offset ob') \<longleftrightarrow>
          ob_pager_created bo \<and> has (ob_pager bo) (?off + ob_paging_offset bo)"
        "ob_pager_created bo \<Longrightarrow> In_Pager (ob_pager ob') (off + ob_paging_offset ob') = In_Pager (ob_pager bo) (?off + ob_paging_offset bo)"
        using ob'(4,5) by (auto simp: ac_simps)
      have body_b: "case vm_page_lookup ?b ?off s of
          Some m \<Rightarrow> \<exists>p. vm_pages s m = Some p \<and> c = In_Frame (vp_phys_addr p)
        | None \<Rightarrow> if ob_pager_created bo \<and> has (ob_pager bo) (?off + ob_paging_offset bo)
                  then c = In_Pager (ob_pager bo) (?off + ob_paging_offset bo)
                  else if ob_shadow bo = 0 then c = Zero_Fill
                  else reads has s (ob_shadow bo) (?off + ob_shadow_offset bo) c"
        using read_b bo unfolding reads_iff [of has s ?b] by auto
      have "case vm_page_lookup object off s' of
          Some m \<Rightarrow> \<exists>p. vm_pages s' m = Some p \<and> c = In_Frame (vp_phys_addr p)
        | None \<Rightarrow> if ob_pager_created ob' \<and> has (ob_pager ob') (off + ob_paging_offset ob')
                  then c = In_Pager (ob_pager ob') (off + ob_paging_offset ob')
                  else if ob_shadow ob' = 0 then c = Zero_Fill
                  else reads has s' (ob_shadow ob') (off + ob_shadow_offset ob') c"
      proof (cases "vm_page_lookup ?b ?off s")
        case (Some m)
        with body_b frame [of object off m] lk show ?thesis by fastforce
      next
        case None
        have "reads has s' (ob_shadow ob') (off + ob_shadow_offset ob') c"
          if sh: "ob_shadow bo \<noteq> 0" and r: "reads has s (ob_shadow bo) (?off + ob_shadow_offset bo) c"
        proof -
          from window [OF inv bo sh w] obtain no where no: "vm_objects s (ob_shadow bo) = Some no"
            "?off + ob_shadow_offset bo < ob_size no" by blast
          from chain_next [OF n1(2) bo sh] obtain n2 where n2: "n1 = Suc n2" "chain n2 (ob_shadow bo) s" by blast
          have "ob_shadow bo \<noteq> g" using g [OF bo ne sh] .
          from less.IH [OF _ n2(2) this no r] n1 n2 have "reads has s' (ob_shadow bo) (?off + ob_shadow_offset bo) c" by simp
          then show ?thesis by (simp add: ob'(2,3) ac_simps)
        qed
        with None body_b lk pg ob'(2) show ?thesis by (auto split: if_splits)
      qed
      then show ?thesis using True ob'(1) unfolding reads_iff [of has s' a] by auto
    next
      case False
      from oth [OF less.prems(3) False less.prems(2)] obtain oa' where oa': "vm_objects s' a = Some oa'" "ob_view oa' = ob_view oa" by blast
      then have v: "ob_shadow oa' = ob_shadow oa" "ob_shadow_offset oa' = ob_shadow_offset oa" "ob_pager oa' = ob_pager oa"
        "ob_pager_created oa' = ob_pager_created oa" "ob_paging_offset oa' = ob_paging_offset oa" by (simp_all add: ob_view_def)
      have lk: "vm_page_lookup a off s' = None" using l3 [OF False less.prems(2)] none by simp
      have "reads has s' (ob_shadow oa) (off + ob_shadow_offset oa) c"
        if sh: "ob_shadow oa \<noteq> 0" and r: "reads has s (ob_shadow oa) (off + ob_shadow_offset oa) c"
      proof -
        from window [OF inv less.prems(3) sh less.prems(4)] obtain no where no: "vm_objects s (ob_shadow oa) = Some no"
          "off + ob_shadow_offset oa < ob_size no" by blast
        from chain_next [OF less.prems(1,3) sh] obtain m where m: "n = Suc m" "chain m (ob_shadow oa) s" by blast
        have "ob_shadow oa \<noteq> g" by (rule g [OF less.prems(3) False sh])
        from less.IH [OF _ m(2) this no r] m show ?thesis by simp
      qed
      with body none lk v oa'(1) show ?thesis unfolding reads_iff [of has s' a] by (auto split: if_splits)
    qed
  qed
qed

subsection \<open>One turn of the loop\<close>

text \<open>
  What both ways of collapsing do: the object \<open>g\<close> goes (0 when none does), \<open>object\<close> now stands on the
  shadow of its old backing object, and all others stay as they were.
\<close>

definition collapse_turn ::
    "'a vm_state_scheme \<Rightarrow> 'a vm_state_scheme \<Rightarrow> addr \<Rightarrow> vm_object \<Rightarrow> vm_object \<Rightarrow> vm_object \<Rightarrow> addr \<Rightarrow> bool" where
  "collapse_turn s s' object ob bo ob' g \<longleftrightarrow>
     chains_inv s \<and> pages_inv s' \<and> vm_objects s object = Some ob \<and> ob_shadow ob \<noteq> 0 \<and> \<not> ob_pager_created ob \<and>
     vm_objects s (ob_shadow ob) = Some bo \<and> ob_shadow ob \<noteq> object \<and> object \<noteq> g \<and> vm_objects s' g = None \<and>
     (\<forall>x. place s' x \<noteq> None \<longrightarrow> place s x \<noteq> None) \<and>
     (\<forall>x. place s' x \<noteq> None \<longrightarrow> map_option page_data (vm_pages s' x) = map_option page_data (vm_pages s x)) \<and>
     vm_objects s' object = Some ob' \<and> ob_size ob' = ob_size ob \<and> ob_shadow ob' = ob_shadow bo \<and>
     ob_shadow_offset ob' = ob_shadow_offset ob + ob_shadow_offset bo \<and> ob_pager_created ob' = ob_pager_created bo \<and>
     (ob_pager_created bo \<longrightarrow> ob_pager ob' = ob_pager bo \<and> ob_paging_offset ob' = ob_paging_offset bo + ob_shadow_offset ob) \<and>
     (\<forall>off m. vm_page_lookup object off s = Some m \<longrightarrow> vm_page_lookup object off s' = Some m) \<and>
     (\<forall>off. vm_page_lookup object off s = None \<longrightarrow> off < ob_size ob \<longrightarrow>
        vm_page_lookup object off s' = vm_page_lookup (ob_shadow ob) (off + ob_shadow_offset ob) s) \<and>
     (\<forall>a off. a \<noteq> object \<longrightarrow> a \<noteq> g \<longrightarrow> vm_page_lookup a off s' = vm_page_lookup a off s) \<and>
     (\<forall>a. a \<noteq> object \<longrightarrow> a \<noteq> g \<longrightarrow> map_option ob_view (vm_objects s' a) = map_option ob_view (vm_objects s a)) \<and>
     (\<forall>a oa. vm_objects s a = Some oa \<longrightarrow> a \<noteq> object \<longrightarrow> ob_shadow oa \<noteq> 0 \<longrightarrow> ob_shadow oa \<noteq> g) \<and>
     ob_ref_count ob' = ob_ref_count ob \<and>
     (\<forall>m off. place s' m = Some (object, off) \<longrightarrow>
        place s m = Some (object, off) \<or> place s m = Some (ob_shadow ob, off + ob_shadow_offset ob))"

lemma collapse_turn_parts:
  assumes "collapse_turn s s' object ob bo ob' g"
  shows "chains_inv s" "pages_inv s'" "vm_objects s object = Some ob" "ob_shadow ob \<noteq> 0" "\<not> ob_pager_created ob"
    "vm_objects s (ob_shadow ob) = Some bo" "ob_shadow ob \<noteq> object" "object \<noteq> g" "vm_objects s' g = None"
    "\<forall>x. place s' x \<noteq> None \<longrightarrow> place s x \<noteq> None"
    "\<forall>x. place s' x \<noteq> None \<longrightarrow> map_option page_data (vm_pages s' x) = map_option page_data (vm_pages s x)"
    "vm_objects s' object = Some ob'" "ob_size ob' = ob_size ob" "ob_shadow ob' = ob_shadow bo"
    "ob_shadow_offset ob' = ob_shadow_offset ob + ob_shadow_offset bo" "ob_pager_created ob' = ob_pager_created bo"
    "ob_pager_created bo \<longrightarrow> ob_pager ob' = ob_pager bo \<and> ob_paging_offset ob' = ob_paging_offset bo + ob_shadow_offset ob"
    "\<forall>off m. vm_page_lookup object off s = Some m \<longrightarrow> vm_page_lookup object off s' = Some m"
    "\<forall>off. vm_page_lookup object off s = None \<longrightarrow> off < ob_size ob \<longrightarrow>
        vm_page_lookup object off s' = vm_page_lookup (ob_shadow ob) (off + ob_shadow_offset ob) s"
    "\<forall>a off. a \<noteq> object \<longrightarrow> a \<noteq> g \<longrightarrow> vm_page_lookup a off s' = vm_page_lookup a off s"
    "\<forall>a. a \<noteq> object \<longrightarrow> a \<noteq> g \<longrightarrow> map_option ob_view (vm_objects s' a) = map_option ob_view (vm_objects s a)"
    "\<forall>a oa. vm_objects s a = Some oa \<longrightarrow> a \<noteq> object \<longrightarrow> ob_shadow oa \<noteq> 0 \<longrightarrow> ob_shadow oa \<noteq> g"
    "ob_ref_count ob' = ob_ref_count ob"
    "\<forall>m off. place s' m = Some (object, off) \<longrightarrow>
        place s m = Some (object, off) \<or> place s m = Some (ob_shadow ob, off + ob_shadow_offset ob)"
  by (insert assms, unfold collapse_turn_def, elim conjE, assumption)+

lemmas collapse_turnD = collapse_turn_parts [rule_format]

text \<open>A chain does not come back.\<close>

lemma chain_no_loop:
  assumes inv: "chains_inv s" and ob: "vm_objects s a = Some ob" "ob_shadow ob \<noteq> 0"
  shows "ob_shadow ob \<noteq> a"
    and "vm_objects s (ob_shadow ob) = Some bo \<Longrightarrow> ob_shadow bo \<noteq> 0 \<Longrightarrow> ob_shadow bo \<noteq> a"
proof -
  from chains_invD(7) [OF inv ob(1)] obtain n where n: "chain n a s" by blast
  from chain_next [OF n ob] obtain m where m: "n = Suc m" "chain m (ob_shadow ob) s" by blast
  show "ob_shadow ob \<noteq> a"
  proof
    assume "ob_shadow ob = a"
    with m(2) have "chain m a s" by metis
    from chain_unique [OF n this] m(1) show False by simp
  qed
  show "ob_shadow bo \<noteq> a" if bo: "vm_objects s (ob_shadow ob) = Some bo" "ob_shadow bo \<noteq> 0"
  proof
    assume e: "ob_shadow bo = a"
    from chain_next [OF m(2) bo] obtain k where k: "m = Suc k" "chain k (ob_shadow bo) s" by blast
    with e have "chain k a s" by metis
    from chain_unique [OF n this] m(1) k(1) show False by simp
  qed
qed

lemma collapse_turn_other:
  assumes "collapse_turn s s' object ob bo ob' g" and "a \<noteq> object" and "a \<noteq> g" and "vm_objects s a = Some oa"
  shows "\<exists>oa'. vm_objects s' a = Some oa' \<and> ob_view oa' = ob_view oa"
proof -
  have "map_option ob_view (vm_objects s' a) = Some (ob_view oa)" using collapse_turnD(21) [OF assms(1-3)] assms(4) by simp
  then show ?thesis by (cases "vm_objects s' a") auto
qed

lemma collapse_turn_back:
  assumes "collapse_turn s s' object ob bo ob' g" and "a \<noteq> object" and "vm_objects s' a = Some oa'"
  shows "\<exists>oa. vm_objects s a = Some oa \<and> ob_view oa' = ob_view oa \<and> a \<noteq> g"
proof -
  have "a \<noteq> g" using collapse_turnD(9) [OF assms(1)] assms(3) by auto
  then have "map_option ob_view (vm_objects s a) = Some (ob_view oa')" using collapse_turnD(21) [OF assms(1,2)] assms(3) by simp
  with \<open>a \<noteq> g\<close> show ?thesis by (cases "vm_objects s a") auto
qed

lemma collapse_turn_chain:
  assumes turn: "collapse_turn s s' object ob bo ob' g"
  shows "chain n a s \<Longrightarrow> a \<noteq> g \<Longrightarrow> \<exists>k. chain k a s' \<and> k \<le> n \<and> (a = object \<longrightarrow> k < n)"
proof (induction n arbitrary: a rule: less_induct)
  case (less n)
  note T = collapse_turnD [OF turn]
  show ?case
  proof (cases "a = object")
    case True
    from chain_next [OF less.prems(1), of ob] T(3,4) True obtain n1 where n1: "n = Suc n1" "chain n1 (ob_shadow ob) s" by auto
    show ?thesis
    proof (cases "ob_shadow bo = 0")
      case z: True
      with T(12,14) True have "chain 0 a s'" by simp
      with n1 show ?thesis by blast
    next
      case False
      from chain_next [OF n1(2) T(6) False] obtain n2 where n2: "n1 = Suc n2" "chain n2 (ob_shadow bo) s" by blast
      have "ob_shadow bo \<noteq> g" by (rule T(22) [OF T(6,7) False])
      with less.IH [OF _ n2(2)] n1 n2 obtain k where k: "chain k (ob_shadow bo) s'" "k \<le> n2" by auto
      then have "chain (Suc k) a s'" using T(12,14) True False by simp
      with k n1 n2 show ?thesis by (intro exI [of _ "Suc k"]) auto
    qed
  next
    case False
    show ?thesis
    proof (cases n)
      case 0
      with less.prems obtain oa where oa: "vm_objects s a = Some oa" "ob_shadow oa = 0" by auto
      from collapse_turn_other [OF turn False less.prems(2) oa(1)] oa(2) 0 False show ?thesis
        by (intro exI [of _ 0]) (auto simp: ob_view_def)
    next
      case (Suc m)
      with less.prems obtain oa where oa: "vm_objects s a = Some oa" "ob_shadow oa \<noteq> 0" "chain m (ob_shadow oa) s" by auto
      from collapse_turn_other [OF turn False less.prems(2) oa(1)] obtain oa' where oa': "vm_objects s' a = Some oa'"
        "ob_shadow oa' = ob_shadow oa" by (auto simp: ob_view_def)
      have "ob_shadow oa \<noteq> g" by (rule T(22) [OF oa(1) False oa(2)])
      with less.IH [OF _ oa(3)] Suc obtain k where "chain k (ob_shadow oa) s'" "k \<le> m" by auto
      with oa' oa(2) Suc False show ?thesis by (intro exI [of _ "Suc k"]) auto
    qed
  qed
qed

lemma collapse_turn_shadowers:
  assumes turn: "collapse_turn s s' object ob bo ob' g"
  shows "shadowers s' object \<subseteq> shadowers s object"
proof
  note T = collapse_turnD [OF turn]
  fix y assume "y \<in> shadowers s' object"
  then obtain oy where y: "vm_objects s' y = Some oy" "ob_shadow oy = object" by (auto simp: shadowers_def)
  have "object \<noteq> 0" using T(3) chains_invD(4) [OF T(1)] by auto
  then have "y \<noteq> object" using y T(12,14) chain_no_loop(2) [OF T(1,3,4,6)] by auto
  from collapse_turn_back [OF turn this y(1)] y(2) show "y \<in> shadowers s object"
    by (auto simp: shadowers_def ob_view_def)
qed

lemma collapse_turn_inv:
  assumes turn: "collapse_turn s s' object ob bo ob' g"
    and refs: "\<And>a oa'. vm_objects s' a = Some oa' \<Longrightarrow> card (shadowers s' a) \<le> unat (ob_ref_count oa')"
  shows "chains_inv s'"
proof -
  note T = collapse_turnD [OF turn] and I = chains_invD [OF T(1)]
  have old: "vm_objects s a \<noteq> None" if "vm_objects s' a = Some oa'" for a oa'
    using collapse_turn_back [OF turn _ that] T(3) by (cases "a = object") auto
  have g': "a \<noteq> g" if "vm_objects s' a = Some oa'" for a oa' using T(9) that by auto
  have z: "vm_objects s' 0 = None" using old [of 0] I(4) by (cases "vm_objects s' 0") auto
  have fin: "finite (dom (vm_objects s'))" by (rule finite_subset [OF _ I(5)]) (use old in auto)
  have ch: "\<exists>n. chain n a s'" if a: "vm_objects s' a = Some oa'" for a oa'
  proof -
    from old [OF a] I(7) obtain n where "chain n a s" by blast
    from collapse_turn_chain [OF turn this g' [OF a]] show ?thesis by blast
  qed
  have na: "none_absent s'"
    unfolding none_absent_def
  proof (intro allI impI)
    fix m x p assume m: "place s' m = Some x" "vm_pages s' m = Some p"
    then have "place s m \<noteq> None" "map_option page_data (vm_pages s m) = Some (page_data p)" using T(10,11) [of m] by auto
    then obtain q y where q: "vm_pages s m = Some q" "page_data q = page_data p" "place s m = Some y" by auto
    then have "\<not> vp_absent q" using I(8) unfolding none_absent_def by blast
    with q(2) show "\<not> vp_absent p" by (simp add: page_data_def)
  qed
  have "object_ok s' a oa'" if a: "vm_objects s' a = Some oa'" for a oa'
  proof (cases "a = object")
    case True
    have oa': "oa' = ob'" using a T(12) True by simp
    have bo: "object_ok s (ob_shadow ob) bo" by (rule I(6) [OF T(6)])
    have "object_ok s object ob" by (rule I(6) [OF T(3)])
    then have w1: "unat (ob_size ob) + unat (ob_shadow_offset ob) \<le> unat (ob_size bo)"
      using T(4,6) by (auto simp: object_ok_def)
    have "\<exists>no. vm_objects s' (ob_shadow bo) = Some no \<and> unat (ob_size ob') + unat (ob_shadow_offset ob') \<le> unat (ob_size no)"
      if sh: "ob_shadow bo \<noteq> 0"
    proof -
      from bo sh obtain no where no: "vm_objects s (ob_shadow bo) = Some no"
        "unat (ob_size bo) + unat (ob_shadow_offset bo) \<le> unat (ob_size no)" unfolding object_ok_def by blast
      have "unat (ob_shadow_offset ob') \<le> unat (ob_shadow_offset ob) + unat (ob_shadow_offset bo)"
        unfolding T(15) by (simp add: unat_word_ariths mod_less_eq_dividend)
      with w1 no(2) T(13) have le: "unat (ob_size ob') + unat (ob_shadow_offset ob') \<le> unat (ob_size no)" by simp
      have "ob_shadow bo \<noteq> object" by (rule chain_no_loop(2) [OF T(1,3,4,6) sh])
      from collapse_turn_other [OF turn this T(22) [OF T(6,7) sh] no(1)] le show ?thesis by (auto simp: ob_view_def)
    qed
    moreover have "ob_pager_created ob' \<longrightarrow> ob_pager ob' \<noteq> 0"
      using bo T(16,17) by (auto simp: object_ok_def)
    ultimately show ?thesis using refs [OF a] T(14) by (simp add: object_ok_def oa' True)
  next
    case False
    from collapse_turn_back [OF turn False a] obtain oa where oa: "vm_objects s a = Some oa" "ob_view oa' = ob_view oa" by blast
    then have v: "ob_shadow oa' = ob_shadow oa" "ob_shadow_offset oa' = ob_shadow_offset oa" "ob_pager oa' = ob_pager oa"
      "ob_pager_created oa' = ob_pager_created oa" "ob_size oa' = ob_size oa" by (simp_all add: ob_view_def)
    have ok: "object_ok s a oa" by (rule I(6) [OF oa(1)])
    have "\<exists>no. vm_objects s' (ob_shadow oa) = Some no \<and> unat (ob_size oa) + unat (ob_shadow_offset oa) \<le> unat (ob_size no)"
      if sh: "ob_shadow oa \<noteq> 0"
    proof -
      from ok sh obtain no where no: "vm_objects s (ob_shadow oa) = Some no"
        "unat (ob_size oa) + unat (ob_shadow_offset oa) \<le> unat (ob_size no)" unfolding object_ok_def by blast
      show ?thesis
      proof (cases "ob_shadow oa = object")
        case True with no T(3,12,13) show ?thesis by auto
      next
        case f: False
        from collapse_turn_other [OF turn f T(22) [OF oa(1) False sh] no(1)] no(2) show ?thesis by (auto simp: ob_view_def)
      qed
    qed
    then show ?thesis using refs [OF a] ok by (auto simp: object_ok_def v)
  qed
  with T(2) z fin ch na show ?thesis unfolding chains_inv_def by blast
qed

lemma collapse_turn_reads:
  assumes turn: "collapse_turn s s' object ob bo ob' g" and inv': "chains_inv s'"
    and a: "vm_objects s a = Some oa" "a \<noteq> g" "off < ob_size oa"
  shows "reads has s' a off c \<longleftrightarrow> reads has s a off c"
proof -
  note T = collapse_turnD [OF turn]
  from chains_invD(7) [OF T(1) a(1)] obtain n where n: "chain n a s" by blast
  have fwd: "reads has s' a off d" if "reads has s a off d" for d
    by (rule collapse_reads [OF T(1) chains_invD(2) [OF inv'] T(3,4,5,6,11,12,14,15,16,17,18,19,20) _ T(22,7) n a(2,1,3) that])
      (use collapse_turn_other [OF turn] in auto)
  show ?thesis
  proof
    assume r: "reads has s' a off c"
    from reads_total [OF T(1) n] obtain d where d: "reads has s a off d" by blast
    with reads_unique [OF fwd [OF d] r] show "reads has s a off c" by simp
  qed (rule fwd)
qed

subsection \<open>Both ways are turns\<close>

lemma lookup_eqI:
  assumes "table_ok s" and "table_ok s'" and "\<And>m. place s' m = Some (a', off') \<longleftrightarrow> place s m = Some (a, off)"
  shows "vm_page_lookup a' off' s' = vm_page_lookup a off s"
proof -
  have "vm_page_lookup a' off' s' = Some m \<longleftrightarrow> vm_page_lookup a off s = Some m" for m
    using vm_page_lookup_spec [OF assms(1)] vm_page_lookup_spec [OF assms(2)] assms(3) by simp
  then show ?thesis by (metis not_None_eq)
qed

lemma shadowers_single:
  assumes inv: "chains_inv s" and ob: "vm_objects s object = Some ob" "ob_shadow ob \<noteq> 0"
    and bo: "vm_objects s (ob_shadow ob) = Some bo" "ob_ref_count bo = 1"
  shows "shadowers s (ob_shadow ob) = {object}"
proof -
  have "card (shadowers s (ob_shadow ob)) \<le> 1" using chains_invD(6) [OF inv bo(1)] bo(2) by (simp add: object_ok_def)
  moreover have "object \<in> shadowers s (ob_shadow ob)" using ob by (auto simp: shadowers_def)
  moreover have "card (shadowers s (ob_shadow ob)) \<le> Suc 0 \<longleftrightarrow>
      (\<forall>x\<in>shadowers s (ob_shadow ob). \<forall>y\<in>shadowers s (ob_shadow ob). x = y)"
    by (rule card_le_Suc0_iff_eq [OF finite_shadowers [OF inv]])
  ultimately show ?thesis by auto
qed

lemma collapse_backing_turn:
  assumes inv: "chains_inv s" and ob: "vm_objects s object = Some ob" "ob_shadow ob \<noteq> 0" "\<not> ob_pager_created ob"
    and bo: "vm_objects s (ob_shadow ob) = Some bo" "ob_ref_count bo = 1"
    and copy: "ob_shadow bo \<noteq> 0 \<Longrightarrow> \<exists>no. vm_objects s (ob_shadow bo) = Some no \<and> ob_copy no = 0"
  shows "\<exists>s' ob'. collapse_backing object (ob_shadow ob) s = Some s' \<and> chains_inv s' \<and>
    collapse_turn s s' object ob bo ob' (ob_shadow ob) \<and>
    (\<forall>a oa'. vm_objects s' a = Some oa' \<longrightarrow> (\<exists>oa. vm_objects s a = Some oa \<and> ob_ref_count oa' = ob_ref_count oa))"
proof -
  let ?b = "ob_shadow ob" and ?soff = "ob_shadow_offset ob"
  note loop = chain_no_loop [OF inv ob(1,2)]
  have nb: "ob_shadow bo \<noteq> ?b" if "ob_shadow bo \<noteq> 0" by (rule chain_no_loop(1) [OF inv bo(1) that])
  have "ob_shadow bo \<noteq> 0 \<Longrightarrow> ob_shadow bo \<notin> {object, ?b} \<and> (\<exists>no. vm_objects s (ob_shadow bo) = Some no \<and> ob_copy no = 0)"
    using copy loop(2) [OF bo(1)] nb by blast
  from collapse_backing_spec [OF inv ob(1) bo(1) loop(1) [symmetric] this] obtain s' ob' where s':
      "collapse_backing object ?b s = Some s'" "pages_inv s'" "place s' = moved_place s object ?b ?soff (ob_size ob)"
      "\<forall>x. place s' x \<noteq> None \<longrightarrow> map_option page_data (vm_pages s' x) = map_option page_data (vm_pages s x)"
      "vm_objects s' object = Some ob'" "took_over ob bo ob'" "vm_objects s' ?b = None"
      "\<forall>a. a \<notin> {object, ?b} \<longrightarrow> map_option ob_core (vm_objects s' a) = map_option ob_core (vm_objects s a)" by blast
  have single: "shadowers s ?b = {object}" by (rule shadowers_single [OF inv ob(1,2) bo])
  have t: "table_ok s" and t': "table_ok s'" using chains_invD(2) [OF inv] s'(2) by (simp_all add: pages_inv_def)
  have mp: "place s' x = Some (a, off) \<longleftrightarrow> place s x = Some (a, off)" if "a \<noteq> object" "a \<noteq> ?b" for x a off
    using that by (cases "place s x") (auto simp: s'(3) moved_place_def split: if_splits)
  have own: "place s' x = Some (object, off)" if "place s x = Some (object, off)" for x off
    using that loop(1) by (simp add: s'(3) moved_place_def)
  have moved: "place s' x = Some (object, off) \<longleftrightarrow> place s x = Some (?b, off + ?soff)"
    if none: "vm_page_lookup object off s = None" and off: "off < ob_size ob" for x off
  proof -
    have no: "place s y \<noteq> Some (object, off)" for y using none vm_page_lookup_None [OF t] by blast
    from window [OF inv ob(1,2) off] bo(1) have le: "?soff \<le> off + ?soff" by blast
    show ?thesis
    proof
      assume "place s' x = Some (object, off)"
      then have "\<exists>o'. place s x = Some (?b, o') \<and> off = o' - ?soff"
        using no [of x] loop(1) by (cases "place s x") (auto simp: s'(3) moved_place_def split: if_splits)
      then show "place s x = Some (?b, off + ?soff)" by auto
    next
      assume "place s x = Some (?b, off + ?soff)"
      then show "place s' x = Some (object, off)"
        using no off le by (auto simp: s'(3) moved_place_def)
    qed
  qed
  have turn: "collapse_turn s s' object ob bo ob' ?b"
    unfolding collapse_turn_def
  proof (intro conjI)
    show "\<forall>x. place s' x \<noteq> None \<longrightarrow> place s x \<noteq> None"
    proof (intro allI impI)
      fix x assume "place s' x \<noteq> None" then show "place s x \<noteq> None" by (cases "place s x") (auto simp: s'(3) moved_place_def)
    qed
    show "\<forall>off m. vm_page_lookup object off s = Some m \<longrightarrow> vm_page_lookup object off s' = Some m"
      using own by (simp add: vm_page_lookup_spec [OF t] vm_page_lookup_spec [OF t'])
    show "\<forall>off. vm_page_lookup object off s = None \<longrightarrow> off < ob_size ob \<longrightarrow>
        vm_page_lookup object off s' = vm_page_lookup ?b (off + ?soff) s"
    proof (intro allI impI)
      fix off assume "vm_page_lookup object off s = None" "off < ob_size ob"
      from moved [OF this] show "vm_page_lookup object off s' = vm_page_lookup ?b (off + ?soff) s" by (rule lookup_eqI [OF t t'])
    qed
    show "\<forall>a off. a \<noteq> object \<longrightarrow> a \<noteq> ?b \<longrightarrow> vm_page_lookup a off s' = vm_page_lookup a off s"
      by (intro allI impI) (rule lookup_eqI [OF t t'], rule mp)
    show "\<forall>m off. place s' m = Some (object, off) \<longrightarrow>
        place s m = Some (object, off) \<or> place s m = Some (?b, off + ?soff)"
    proof (intro allI impI)
      fix m off assume "place s' m = Some (object, off)"
      then show "place s m = Some (object, off) \<or> place s m = Some (?b, off + ?soff)"
        by (cases "place s m") (auto simp: s'(3) moved_place_def split: if_splits)
    qed
    show "\<forall>a. a \<noteq> object \<longrightarrow> a \<noteq> ?b \<longrightarrow> map_option ob_view (vm_objects s' a) = map_option ob_view (vm_objects s a)"
    proof (intro allI impI)
      fix a assume "a \<noteq> object" "a \<noteq> ?b"
      then have "map_option ob_core (vm_objects s' a) = map_option ob_core (vm_objects s a)" using s'(8) by blast
      then show "map_option ob_view (vm_objects s' a) = map_option ob_view (vm_objects s a)"
        by (cases "vm_objects s' a"; cases "vm_objects s a") (auto dest: ob_view_core)
    qed
    show "\<forall>a oa. vm_objects s a = Some oa \<longrightarrow> a \<noteq> object \<longrightarrow> ob_shadow oa \<noteq> 0 \<longrightarrow> ob_shadow oa \<noteq> ?b"
      using single by (auto simp: shadowers_def set_eq_iff)
    show "ob_pager_created bo \<longrightarrow> ob_pager ob' = ob_pager bo \<and> ob_paging_offset ob' = ob_paging_offset bo + ?soff"
      using s'(6) chains_invD(6) [OF inv bo(1)] by (auto simp: took_over_def object_ok_def)
  qed (use inv s' ob bo loop(1) in \<open>auto simp: took_over_def\<close>)
  have core: "\<exists>oa. vm_objects s a = Some oa \<and> ob_ref_count oa' = ob_ref_count oa \<and> (a \<noteq> object \<longrightarrow> ob_shadow oa' = ob_shadow oa) \<and> a \<noteq> ?b"
    if a: "vm_objects s' a = Some oa'" for a oa'
  proof (cases "a = object")
    case True
    with a s'(5,6) ob(1) loop(1) show ?thesis by (auto simp: took_over_def)
  next
    case False
    moreover have "a \<noteq> ?b" using a s'(7) by auto
    ultimately have "map_option ob_core (vm_objects s' a) = map_option ob_core (vm_objects s a)" using s'(8) by blast
    then have "map_option ob_core (vm_objects s a) = Some (ob_core oa')" using a by (metis option.map(2))
    then obtain oa where oa: "vm_objects s a = Some oa" "ob_core oa' = ob_core oa" by auto
    from ob_coreD(2,4) [OF oa(2)] oa(1) \<open>a \<noteq> ?b\<close> show ?thesis by auto
  qed
  have "card (shadowers s' a) \<le> unat (ob_ref_count oa')" if a: "vm_objects s' a = Some oa'" for a oa'
  proof -
    from core [OF a] obtain oa where oa: "vm_objects s a = Some oa" "ob_ref_count oa' = ob_ref_count oa" by blast
    have le: "card (shadowers s a) \<le> unat (ob_ref_count oa)" using chains_invD(6) [OF inv oa(1)] by (simp add: object_ok_def)
    have sub: "shadowers s' a \<subseteq> (if a = ob_shadow bo then insert object (shadowers s a - {?b}) else shadowers s a)"
    proof
      fix y assume "y \<in> shadowers s' a"
      then obtain oy where y: "vm_objects s' y = Some oy" "ob_shadow oy = a" by (auto simp: shadowers_def)
      from core [OF y(1)] y(2) s'(5,6) y(1) show "y \<in> (if a = ob_shadow bo then insert object (shadowers s a - {?b}) else shadowers s a)"
        by (cases "y = object") (auto simp: shadowers_def took_over_def)
    qed
    note fin = finite_shadowers [OF inv, of a]
    have "card (shadowers s' a) \<le> card (shadowers s a)"
    proof (cases "a = ob_shadow bo")
      case True
      then have b: "?b \<in> shadowers s a" using bo(1) by (auto simp: shadowers_def)
      then have "Suc (card (shadowers s a - {?b})) = card (shadowers s a)" by (rule card_Suc_Diff1 [OF fin])
      moreover have "card (insert object (shadowers s a - {?b})) \<le> Suc (card (shadowers s a - {?b}))"
        using fin by (simp add: card_insert_if)
      moreover have "card (shadowers s' a) \<le> card (insert object (shadowers s a - {?b}))"
        using sub True fin by (intro card_mono) auto
      ultimately show ?thesis by linarith
    next
      case False
      with sub fin show ?thesis by (simp add: card_mono)
    qed
    with le oa(2) show ?thesis by simp
  qed
  from collapse_turn_inv [OF turn this] turn s'(1) core show ?thesis by blast
qed

definition refs_below :: "'a vm_state_scheme \<Rightarrow> nat \<Rightarrow> bool" where
  "refs_below s k \<longleftrightarrow> (\<forall>a ob. vm_objects s a = Some ob \<longrightarrow> unat (ob_ref_count ob) + k < 2 ^ 16)"

lemma collapse_bypass_spec:
  assumes inv: "chains_inv s" and ob: "vm_objects s object = Some ob" "ob_shadow ob \<noteq> 0"
    and bo: "vm_objects s (ob_shadow ob) = Some bo"
  shows "\<exists>s' f. collapse_bypass object (ob_shadow ob) s = Some s' \<and> pages_inv s' \<and> place s' = place s \<and> vm_pages s' = vm_pages s \<and>
    vm_page_buckets s' = vm_page_buckets s \<and> vm_page_hash_mask s' = vm_page_hash_mask s \<and>
    f = (if ob_shadow bo = 0 then vm_objects s
         else (vm_objects s)(ob_shadow bo \<mapsto> (the (vm_objects s (ob_shadow bo)))\<lparr>ob_ref_count :=
           ob_ref_count (the (vm_objects s (ob_shadow bo))) + 1\<rparr>)) \<and>
    vm_objects s' = f(object \<mapsto> ob\<lparr>ob_shadow := ob_shadow bo, ob_shadow_offset := ob_shadow_offset ob + ob_shadow_offset bo\<rparr>,
      ob_shadow ob \<mapsto> bo\<lparr>ob_ref_count := ob_ref_count bo - 1\<rparr>)"
proof -
  let ?b = "ob_shadow ob" and ?n = "ob_shadow bo"
  note ne = chain_no_loop(1) [OF inv ob]
  have i0: "pages_inv s" by (rule chains_invD(1) [OF inv])
  let ?o1 = "ob\<lparr>ob_shadow := ?n\<rparr>"
  let ?o2 = "ob\<lparr>ob_shadow := ?n, ob_shadow_offset := ob_shadow_offset ob + ob_shadow_offset bo\<rparr>"
  define s1 where "s1 = put_object object ?o1 s"
  have i1: "pages_inv s1" unfolding s1_def by (rule change_object_inv [OF i0 ob(1)]) simp_all
  define no where "no = the (vm_objects s ?n)"
  define s2 where "s2 = (if ?n = 0 then s1 else put_object ?n (no\<lparr>ob_ref_count := ob_ref_count no + 1\<rparr>) s1)"
  have no: "?n \<noteq> 0 \<Longrightarrow> vm_objects s ?n = Some no \<and> ?n \<noteq> object \<and> ?n \<noteq> ?b"
    using chains_invD(6) [OF inv bo] chain_no_loop(2) [OF inv ob bo] chain_no_loop(1) [OF inv bo]
    by (auto simp: object_ok_def no_def)
  have r: "vm_object_reference ?n s1 = Some s2"
    using no by (simp add: vm_object_reference_def s2_def s1_def)
  have i2: "pages_inv s2"
  proof (cases "?n = 0")
    case False
    have "vm_objects s1 ?n = Some no" using no [OF False] by (simp add: s1_def)
    from change_object_inv [OF i1 this] show ?thesis using False by (simp add: s2_def)
  qed (simp add: s2_def i1)
  have o2: "vm_objects s2 object = Some ?o1 \<and> vm_objects s2 ?b = Some bo"
  proof (cases "?n = 0")
    case True
    then show ?thesis using ne bo by (simp add: s2_def s1_def)
  next
    case False
    from no [OF False] have "?n \<noteq> object" "?n \<noteq> ?b" by blast+
    then show ?thesis using False ne bo by (simp add: s2_def s1_def)
  qed
  note o2 = conjunct1 [OF o2] conjunct2 [OF o2]
  define s3 where "s3 = put_object object ?o2 s2"
  have i3: "pages_inv s3" unfolding s3_def by (rule change_object_inv [OF i2 o2(1)]) simp_all
  have o3: "vm_objects s3 ?b = Some bo" using o2 ne by (simp add: s3_def)
  let ?s' = "put_object ?b (bo\<lparr>ob_ref_count := ob_ref_count bo - 1\<rparr>) s3"
  have i4: "pages_inv ?s'" by (rule change_object_inv [OF i3 o3]) simp_all
  have "collapse_bypass object ?b s = Some ?s'"
    using ob bo r o2 by (simp add: collapse_bypass_def s1_def [symmetric] s3_def)
  moreover have "place ?s' = place s" "vm_pages ?s' = vm_pages s" "vm_page_buckets ?s' = vm_page_buckets s"
    "vm_page_hash_mask ?s' = vm_page_hash_mask s" by (simp_all add: s3_def s2_def s1_def)
  moreover have "vm_objects ?s' = (if ?n = 0 then vm_objects s else (vm_objects s)(?n \<mapsto> no\<lparr>ob_ref_count := ob_ref_count no + 1\<rparr>))
      (object \<mapsto> ?o2, ?b \<mapsto> bo\<lparr>ob_ref_count := ob_ref_count bo - 1\<rparr>)"
    using no by (auto simp: s3_def s2_def s1_def fun_eq_iff)
  ultimately show ?thesis using i4 by (auto simp: no_def)
qed

lemma collapse_bypass_turn:
  assumes inv: "chains_inv s" and ob: "vm_objects s object = Some ob" "ob_shadow ob \<noteq> 0" "\<not> ob_pager_created ob"
    and bo: "vm_objects s (ob_shadow ob) = Some bo" "\<not> ob_pager_created bo" "ob_ref_count bo \<noteq> 1"
    and need: "\<not> collapse_needed object (ob_memq bo) (ob_shadow_offset ob) (ob_size ob) s"
    and refs: "refs_below s 1"
  shows "\<exists>s' ob'. collapse_bypass object (ob_shadow ob) s = Some s' \<and> chains_inv s' \<and>
    collapse_turn s s' object ob bo ob' 0 \<and>
    (\<forall>a oa'. vm_objects s' a = Some oa' \<longrightarrow>
       (\<exists>oa. vm_objects s a = Some oa \<and> unat (ob_ref_count oa') \<le> unat (ob_ref_count oa) + 1))"
proof -
  let ?b = "ob_shadow ob" and ?n = "ob_shadow bo" and ?soff = "ob_shadow_offset ob"
  let ?o2 = "ob\<lparr>ob_shadow := ?n, ob_shadow_offset := ?soff + ob_shadow_offset bo\<rparr>"
  let ?b2 = "bo\<lparr>ob_ref_count := ob_ref_count bo - 1\<rparr>"
  define no where "no = the (vm_objects s ?n)"
  let ?n2 = "no\<lparr>ob_ref_count := ob_ref_count no + 1\<rparr>"
  from collapse_bypass_spec [OF inv ob(1,2) bo(1)] obtain s' where s': "collapse_bypass object ?b s = Some s'" "pages_inv s'"
      "place s' = place s" "vm_pages s' = vm_pages s"
      "vm_objects s' = (if ?n = 0 then vm_objects s else (vm_objects s)(?n \<mapsto> ?n2))(object \<mapsto> ?o2, ?b \<mapsto> ?b2)"
    unfolding no_def by blast
  note ne = chain_no_loop(1) [OF inv ob(1,2)]
  have no: "?n \<noteq> 0 \<Longrightarrow> vm_objects s ?n = Some no \<and> ?n \<noteq> object \<and> ?n \<noteq> ?b"
    using chains_invD(6) [OF inv bo(1)] chain_no_loop(2) [OF inv ob(1,2) bo(1)] chain_no_loop(1) [OF inv bo(1)]
    by (auto simp: object_ok_def no_def)
  have t: "table_ok s" and t': "table_ok s'" using chains_invD(2) [OF inv] s'(2) by (simp_all add: pages_inv_def)
  have z: "vm_objects s 0 = None" "vm_objects s' 0 = None" using chains_invD(4) [OF inv] ob(1,2) by (auto simp: s'(5))
  have o0: "object \<noteq> 0" using z(1) ob(1) by auto
  have lk: "vm_page_lookup a off s' = vm_page_lookup a off s" for a off
    by (rule lookup_eqI [OF t t']) (simp add: s'(3))
  have nob: "vm_page_lookup ?b (off + ?soff) s = None" if none: "vm_page_lookup object off s = None" and off: "off < ob_size ob" for off
  proof (rule ccontr)
    assume "vm_page_lookup ?b (off + ?soff) s \<noteq> None"
    then obtain m where m: "place s m = Some (?b, off + ?soff)" using vm_page_lookup_spec [OF t] by blast
    then have mem: "m \<in> set (ob_memq bo)" using memq_iff [OF t bo(1)] by blast
    from placeD [OF m] obtain p where p: "vm_pages s m = Some p" "vp_offset p = off + ?soff" by blast
    from window [OF inv ob(1,2) off] have "?soff \<le> off + ?soff" by blast
    with need mem p none off show False by (auto simp: collapse_needed_def list_ex_iff dest: less_imp_le)
  qed
  have turn: "collapse_turn s s' object ob bo ?o2 0"
    unfolding collapse_turn_def
  proof (intro conjI)
    show "\<forall>off. vm_page_lookup object off s = None \<longrightarrow> off < ob_size ob \<longrightarrow>
        vm_page_lookup object off s' = vm_page_lookup ?b (off + ?soff) s"
      using nob by (simp add: lk)
    show "\<forall>a. a \<noteq> object \<longrightarrow> a \<noteq> 0 \<longrightarrow> map_option ob_view (vm_objects s' a) = map_option ob_view (vm_objects s a)"
      using no bo(1) by (auto simp: s'(5) ob_view_def)
    show "vm_objects s' object = Some ?o2" using ne by (simp add: s'(5))
  qed (use inv s' ob bo ne z o0 lk in \<open>auto simp: chains_inv_def\<close>)
  have core: "\<exists>oa. vm_objects s a = Some oa \<and> (a \<noteq> object \<longrightarrow> ob_shadow oa' = ob_shadow oa) \<and>
      ob_ref_count oa' = (if a = ?b then ob_ref_count oa - 1 else if a = ?n then ob_ref_count oa + 1 else ob_ref_count oa)"
    if a: "vm_objects s' a = Some oa'" for a oa'
  proof -
    have a0: "a \<noteq> 0" using a z(2) by auto
    show ?thesis
    proof (cases "a = ?b")
      case True with a bo(1) show ?thesis by (auto simp: s'(5))
    next
      case b: False
      show ?thesis
      proof (cases "a = object")
        case True
        with a ob(1) b no o0 show ?thesis by (auto simp: s'(5))
      next
        case False
        with a b a0 no show ?thesis by (cases "a = ?n") (auto simp: s'(5) split: if_splits)
      qed
    qed
  qed
  have ref1: "unat (ob_ref_count oa + 1) = unat (ob_ref_count oa) + 1" if "vm_objects s a = Some oa" for a oa
    using refs that by (simp add: refs_below_def unat_word_ariths)
  have refm: "unat (ob_ref_count oa - 1) = unat (ob_ref_count oa) - 1" if "0 < unat (ob_ref_count oa)" for oa
    using that by (metis unat_minus_one gr_implies_not0 unat_0)
  have "card (shadowers s' a) \<le> unat (ob_ref_count oa')" if a: "vm_objects s' a = Some oa'" for a oa'
  proof -
    from core [OF a] obtain oa where oa: "vm_objects s a = Some oa"
      "ob_ref_count oa' = (if a = ?b then ob_ref_count oa - 1 else if a = ?n then ob_ref_count oa + 1 else ob_ref_count oa)" by blast
    have le: "card (shadowers s a) \<le> unat (ob_ref_count oa)" using chains_invD(6) [OF inv oa(1)] by (simp add: object_ok_def)
    note fin = finite_shadowers [OF inv, of a]
    have sub: "y \<in> shadowers s' a \<Longrightarrow> y \<noteq> object \<Longrightarrow> y \<in> shadowers s a" for y
      using core by (fastforce simp: shadowers_def)
    have own: "object \<in> shadowers s' a \<longleftrightarrow> a = ?n" using ne by (auto simp: shadowers_def s'(5))
    show ?thesis
    proof (cases "a = ?b")
      case True
      then have nn: "a \<noteq> ?n" using no ob(2) by auto
      have mem: "object \<in> shadowers s a" using ob(1) True by (auto simp: shadowers_def)
      have "shadowers s' a \<subseteq> shadowers s a - {object}" using sub own nn by blast
      then have "card (shadowers s' a) \<le> card (shadowers s a - {object})" using fin by (intro card_mono) auto
      moreover have "Suc (card (shadowers s a - {object})) = card (shadowers s a)" by (rule card_Suc_Diff1 [OF fin mem])
      moreover have "unat (ob_ref_count oa') = unat (ob_ref_count oa) - 1"
        using True oa(2) refm [of oa] le calculation by simp
      ultimately show ?thesis using le by linarith
    next
      case b: False
      show ?thesis
      proof (cases "a = ?n")
        case True
        have "shadowers s' a \<subseteq> insert object (shadowers s a)" using sub by blast
        then have "card (shadowers s' a) \<le> card (insert object (shadowers s a))" using fin by (intro card_mono) auto
        also have "\<dots> \<le> Suc (card (shadowers s a))" using fin by (simp add: card_insert_if)
        finally show ?thesis using le oa b True ref1 [OF oa(1)] by simp
      next
        case False
        then have "shadowers s' a \<subseteq> shadowers s a" using sub own by blast
        then have "card (shadowers s' a) \<le> card (shadowers s a)" using fin by (intro card_mono)
        then show ?thesis using le oa b False by simp
      qed
    qed
  qed
  from collapse_turn_inv [OF turn this] have inv': "chains_inv s'" .
  have "\<exists>oa. vm_objects s a = Some oa \<and> unat (ob_ref_count oa') \<le> unat (ob_ref_count oa) + 1" if a: "vm_objects s' a = Some oa'" for a oa'
  proof -
    from core [OF a] obtain oa where oa: "vm_objects s a = Some oa"
      "ob_ref_count oa' = (if a = ?b then ob_ref_count oa - 1 else if a = ?n then ob_ref_count oa + 1 else ob_ref_count oa)" by blast
    have "0 < unat (ob_ref_count oa)" if "a = ?b"
    proof -
      have "object \<in> shadowers s a" using ob(1) that by (auto simp: shadowers_def)
      then have "0 < card (shadowers s a)" using finite_shadowers [OF inv] by (auto simp: card_gt_0_iff)
      then show ?thesis using chains_invD(6) [OF inv oa(1)] by (simp add: object_ok_def)
    qed
    with oa refm [of oa] ref1 [OF oa(1)] show ?thesis by (cases "a = ?b") auto
  qed
  with s'(1) inv' turn show ?thesis by blast
qed

subsection \<open>The loop\<close>

lemma collapse_step_turn:
  assumes inv: "chains_inv s" and ob: "vm_objects s object = Some ob" and refs: "refs_below s 1"
  shows "collapse_step cache_free object s = Some None \<or>
    (\<exists>s' bo ob' g. collapse_step cache_free object s = Some (Some s') \<and> chains_inv s' \<and> collapse_turn s s' object ob bo ob' g \<and>
      (\<forall>a oa'. vm_objects s' a = Some oa' \<longrightarrow>
        (\<exists>oa. vm_objects s a = Some oa \<and> unat (ob_ref_count oa') \<le> unat (ob_ref_count oa) + 1)))"
proof -
  have o0: "object \<noteq> 0" using chains_invD(4) [OF inv] ob by auto
  show ?thesis
  proof (cases "ob_pager_created ob \<or> ob_paging_in_progress ob \<noteq> 0 \<or> ob_absent_count ob \<noteq> 0 \<or> ob_shadow ob = 0")
    case True
    then show ?thesis using ob o0 by (auto simp: collapse_step_def)
  next
    case False
    then have g: "\<not> ob_pager_created ob" "ob_shadow ob \<noteq> 0" by simp_all
    from chains_invD(6) [OF inv ob] g obtain bo where bo: "vm_objects s (ob_shadow ob) = Some bo" by (auto simp: object_ok_def)
    have no: "\<exists>no. vm_objects s (ob_shadow bo) = Some no" if "ob_shadow bo \<noteq> 0"
      using chains_invD(6) [OF inv bo] that by (auto simp: object_ok_def)
    define shared where "shared = (ob_shadow bo \<noteq> 0 \<and> ob_copy (the (vm_objects s (ob_shadow bo))) \<noteq> 0)"
    have sh: "(if ob_shadow bo = 0 then Some False
        else do { next_ob \<leftarrow> vm_objects s (ob_shadow bo); Some (ob_copy next_ob \<noteq> 0) }) = Some shared"
      using no by (auto simp: shared_def)
    have step: "collapse_step cache_free object s =
       (if \<not> ob_internal bo \<or> ob_paging_in_progress bo \<noteq> 0 \<or> shared then Some None
        else if ob_ref_count bo = 1
        then if \<not> cache_free then Some None
             else do { s \<leftarrow> collapse_backing object (ob_shadow ob) s; Some (Some s) }
        else if ob_pager_created bo then Some None
        else if collapse_needed object (ob_memq bo) (ob_shadow_offset ob) (ob_size ob) s then Some None
        else do { s \<leftarrow> collapse_bypass object (ob_shadow ob) s; Some (Some s) })"
      using False ob o0 bo sh by (simp add: collapse_step_def)
    show ?thesis
    proof (cases "ob_internal bo \<and> ob_paging_in_progress bo = 0 \<and> \<not> shared")
      case ok: True
      show ?thesis
      proof (cases "ob_ref_count bo = 1")
        case True
        have copy: "\<exists>no. vm_objects s (ob_shadow bo) = Some no \<and> ob_copy no = 0" if "ob_shadow bo \<noteq> 0"
          using no [OF that] ok that by (auto simp: shared_def)
        from collapse_backing_turn [OF inv ob g(2,1) bo True copy] obtain s' ob' where s':
            "collapse_backing object (ob_shadow ob) s = Some s'" "chains_inv s'" "collapse_turn s s' object ob bo ob' (ob_shadow ob)"
            "\<forall>a oa'. vm_objects s' a = Some oa' \<longrightarrow> (\<exists>oa. vm_objects s a = Some oa \<and> ob_ref_count oa' = ob_ref_count oa)" by blast
        have le: "\<exists>oa. vm_objects s a = Some oa \<and> unat (ob_ref_count oa') \<le> unat (ob_ref_count oa) + 1"
          if "vm_objects s' a = Some oa'" for a oa' using s'(4) that by fastforce
        show ?thesis
        proof (cases cache_free)
          case c: True
          have "collapse_step cache_free object s = Some (Some s')" using step ok True c s'(1) by simp
          with s'(2,3) le show ?thesis by blast
        next
          case False
          then show ?thesis using step ok True by simp
        qed
      next
        case ref: False
        show ?thesis
        proof (cases "ob_pager_created bo \<or> collapse_needed object (ob_memq bo) (ob_shadow_offset ob) (ob_size ob) s")
          case True
          then show ?thesis using step ok ref by auto
        next
          case False
          then have nb: "\<not> ob_pager_created bo" "\<not> collapse_needed object (ob_memq bo) (ob_shadow_offset ob) (ob_size ob) s" by simp_all
          from collapse_bypass_turn [OF inv ob g(2,1) bo nb(1) ref nb(2) refs] obtain s' ob' where s':
              "collapse_bypass object (ob_shadow ob) s = Some s'" "chains_inv s'" "collapse_turn s s' object ob bo ob' 0"
              "\<forall>a oa'. vm_objects s' a = Some oa' \<longrightarrow>
                 (\<exists>oa. vm_objects s a = Some oa \<and> unat (ob_ref_count oa') \<le> unat (ob_ref_count oa) + 1)" by blast
          have "collapse_step cache_free object s = Some (Some s')" using step ok ref nb s'(1) by simp
          with s'(2-4) show ?thesis by blast
        qed
      qed
    next
      case False
      then show ?thesis using step by auto
    qed
  qed
qed

text \<open>Pages and shadows that start at page boundaries.\<close>

definition all_aligned :: "'a vm_state_scheme \<Rightarrow> bool" where
  "all_aligned s \<longleftrightarrow> (\<forall>m a off. place s m = Some (a, off) \<longrightarrow> 8192 dvd unat off) \<and>
     (\<forall>a ob. vm_objects s a = Some ob \<longrightarrow> 8192 dvd unat (ob_shadow_offset ob))"

lemma dvd_unat_add:
  fixes x y :: u32
  assumes "8192 dvd unat y"
  shows "8192 dvd unat (x + y) \<longleftrightarrow> 8192 dvd unat x"
proof -
  have "unat (x + y) = (unat x + unat y) mod 2 ^ 32" by (simp add: unat_word_ariths)
  then have "8192 dvd unat (x + y) \<longleftrightarrow> 8192 dvd (unat x + unat y)" by (simp add: dvd_mod_iff)
  with assms show ?thesis by (simp add: dvd_add_left_iff)
qed

lemma collapse_turn_aligned:
  assumes turn: "collapse_turn s s' object ob bo ob' g" and al: "all_aligned s" and inv': "pages_inv s'"
  shows "all_aligned s'"
proof -
  note T = collapse_turnD [OF turn]
  have t: "table_ok s" and t': "table_ok s'" using chains_invD(2) [OF T(1)] inv' by (simp_all add: pages_inv_def)
  have A: "8192 dvd unat off" if "place s m = Some (a, off)" for m a off using al that unfolding all_aligned_def by blast
  have B: "8192 dvd unat (ob_shadow_offset o1)" if "vm_objects s a = Some o1" for a o1 using al that unfolding all_aligned_def by blast
  have "8192 dvd unat off" if pl: "place s' m = Some (a, off)" for m a off
  proof (cases "a = object")
    case True
    with T(24) pl A B [OF T(3)] show ?thesis using dvd_unat_add by metis
  next
    case False
    have "vm_objects s' a \<noteq> None" using t' pl by (auto simp: table_ok_def)
    then have "a \<noteq> g" using T(9) by auto
    from T(20) [OF False this] pl A show ?thesis by (metis vm_page_lookup_spec [OF t] vm_page_lookup_spec [OF t'])
  qed
  moreover have "8192 dvd unat (ob_shadow_offset oa')" if a: "vm_objects s' a = Some oa'" for a oa'
  proof (cases "a = object")
    case True
    with a T(12,15) have "ob_shadow_offset oa' = ob_shadow_offset ob + ob_shadow_offset bo" by simp
    with dvd_unat_add [OF B [OF T(6)]] B [OF T(3)] show ?thesis by metis
  next
    case False
    from collapse_turn_back [OF turn False a] B show ?thesis by (auto simp: ob_view_def)
  qed
  ultimately show ?thesis unfolding all_aligned_def by blast
qed

text \<open>
  The loop returns, the object is still there with its size, and every object that is left shows what
  it showed before.
\<close>

lemma vm_object_collapse_spec:
  assumes "chains_inv s" and "chain n object s" and "refs_below s n" and "vm_objects s object = Some ob"
  shows "\<exists>s' ob'. vm_object_collapse cache_free object s = Some s' \<and> chains_inv s' \<and>
    vm_objects s' object = Some ob' \<and> ob_size ob' = ob_size ob \<and> ob_ref_count ob' = ob_ref_count ob \<and>
    shadowers s' object \<subseteq> shadowers s object \<and> (all_aligned s \<longrightarrow> all_aligned s') \<and>
    (\<forall>a. vm_objects s' a \<noteq> None \<longrightarrow> vm_objects s a \<noteq> None) \<and>
    (\<forall>a oa oa' off c. vm_objects s' a = Some oa' \<longrightarrow> vm_objects s a = Some oa \<longrightarrow> off < ob_size oa \<longrightarrow>
       ob_size oa' = ob_size oa \<and> (reads has s' a off c \<longleftrightarrow> reads has s a off c))"
  using assms
proof (induction n arbitrary: s ob rule: less_induct)
  case (less n)
  note inv = less.prems(1) and ob = less.prems(4)
  have same: ?case if "collapse_step cache_free object s = Some None"
  proof -
    have "vm_object_collapse cache_free object s = Some s" using that by (subst vm_object_collapse.simps) simp
    with inv ob show ?thesis by auto
  qed
  show ?case
  proof (cases n)
    case 0
    with less.prems(2) ob have "ob_shadow ob = 0" by simp
    then have "collapse_step cache_free object s = Some None" using ob by (simp add: collapse_step_def)
    then show ?thesis by (rule same)
  next
    case (Suc m)
    have "refs_below s 1" using less.prems(3) Suc by (fastforce simp: refs_below_def)
    from collapse_step_turn [OF inv ob this, of cache_free] show ?thesis
    proof (elim disjE exE conjE)
      assume "collapse_step cache_free object s = Some None" then show ?thesis by (rule same)
    next
      fix s1 bo ob1 g
      assume step: "collapse_step cache_free object s = Some (Some s1)" and inv1: "chains_inv s1"
        and turn: "collapse_turn s s1 object ob bo ob1 g"
        and refs: "\<forall>a oa'. vm_objects s1 a = Some oa' \<longrightarrow>
          (\<exists>oa. vm_objects s a = Some oa \<and> unat (ob_ref_count oa') \<le> unat (ob_ref_count oa) + 1)"
      note T = collapse_turnD [OF turn]
      from collapse_turn_chain [OF turn less.prems(2) T(8)] obtain k where k: "chain k object s1" "k < n" by blast
      have refs1: "refs_below s1 k"
        unfolding refs_below_def
      proof (intro allI impI)
        fix a oa' assume "vm_objects s1 a = Some oa'"
        with refs obtain oa where "vm_objects s a = Some oa" "unat (ob_ref_count oa') \<le> unat (ob_ref_count oa) + 1" by blast
        with less.prems(3) k(2) show "unat (ob_ref_count oa') + k < 2 ^ 16" unfolding refs_below_def by fastforce
      qed
      from less.IH [OF k(2) inv1 k(1) refs1 T(12)] obtain s' ob' where s': "vm_object_collapse cache_free object s1 = Some s'"
        "chains_inv s'" "vm_objects s' object = Some ob'" "ob_size ob' = ob_size ob1"
        "ob_ref_count ob' = ob_ref_count ob1" "shadowers s' object \<subseteq> shadowers s1 object" "all_aligned s1 \<longrightarrow> all_aligned s'"
        "\<forall>a. vm_objects s' a \<noteq> None \<longrightarrow> vm_objects s1 a \<noteq> None"
        "\<forall>a oa oa' off c. vm_objects s' a = Some oa' \<longrightarrow> vm_objects s1 a = Some oa \<longrightarrow> off < ob_size oa \<longrightarrow>
           ob_size oa' = ob_size oa \<and> (reads has s' a off c \<longleftrightarrow> reads has s1 a off c)" by blast
      have "vm_object_collapse cache_free object s = Some s'"
        using step s'(1) by (subst vm_object_collapse.simps) simp
      moreover have "vm_objects s a \<noteq> None" if "vm_objects s' a \<noteq> None" for a
      proof -
        from s'(8) that obtain oa where "vm_objects s1 a = Some oa" by blast
        then show ?thesis using collapse_turn_back [OF turn] ob by (cases "a = object") auto
      qed
      moreover have "ob_size oa' = ob_size oa \<and> (reads has s' a off c \<longleftrightarrow> reads has s a off c)"
        if a: "vm_objects s' a = Some oa'" "vm_objects s a = Some oa" "off < ob_size oa" for a oa oa' off c
      proof -
        from s'(8) a(1) obtain o1 where o1: "vm_objects s1 a = Some o1" by blast
        have "a \<noteq> g" using T(9) o1 by auto
        have "ob_size o1 = ob_size oa"
        proof (cases "a = object")
          case True with o1 T(12,13) a(2) ob show ?thesis by simp
        next
          case False with collapse_turn_back [OF turn False o1] a(2) show ?thesis by (auto simp: ob_view_def)
        qed
        with s'(9) a(1,3) o1 collapse_turn_reads [OF turn inv1 a(2) \<open>a \<noteq> g\<close> a(3)] show ?thesis by metis
      qed
      ultimately show ?thesis using s'(2-7) T(2,13,23) collapse_turn_shadowers [OF turn] collapse_turn_aligned [OF turn _ T(2)] by auto
    qed
  qed
qed

end
