(* ===== verification/Vm_Object_Remove.thy ===== *)
theory Vm_Object_Remove
  imports Vm_Object_Collapse
begin

section \<open>Removing pages and extending objects\<close>

text \<open>
  \<open>vm_object_page_remove\<close> has two ways to find the pages of a range.  On aligned ranges they do the
  same: \<open>clears\<close> says what.
\<close>

definition cleared :: "'a vm_state_scheme \<Rightarrow> addr \<Rightarrow> u32 \<Rightarrow> u32 \<Rightarrow> addr \<Rightarrow> (addr \<times> u32) option" where
  "cleared s object start end' x =
     (case place s x of
        None \<Rightarrow> None
      | Some (a, off) \<Rightarrow> if a = object \<and> start \<le> off \<and> off < end' then None else Some (a, off))"

definition clears :: "'a vm_state_scheme \<Rightarrow> 'a vm_state_scheme \<Rightarrow> (addr \<Rightarrow> (addr \<times> u32) option) \<Rightarrow> bool" where
  "clears s s' pl \<longleftrightarrow> pages_inv s' \<and> place s' = pl \<and> core_same s s' \<and>
     (\<forall>x. place s' x \<noteq> None \<longrightarrow> place s x \<noteq> None \<and> map_option page_data (vm_pages s' x) = map_option page_data (vm_pages s x))"

lemma clears_absent:
  assumes "clears s s' pl" and "none_absent s"
  shows "none_absent s'"
  unfolding none_absent_def
proof (intro allI impI)
  fix m x p assume m: "place s' m = Some x" "vm_pages s' m = Some p"
  then have k: "place s m \<noteq> None" "map_option page_data (vm_pages s' m) = map_option page_data (vm_pages s m)"
    using assms(1) unfolding clears_def by (metis option.distinct(1))+
  from k(1) obtain y where y: "place s m = Some y" by blast
  from k(2) m(2) have "map_option page_data (vm_pages s m) = Some (page_data p)" by (metis option.map(2))
  then obtain q where q: "vm_pages s m = Some q" "page_data q = page_data p" by auto
  then have "\<not> vp_absent q" using assms(2) y unfolding none_absent_def by blast
  with q(2) show "\<not> vp_absent p" by (simp add: page_data_def)
qed

lemma clearsD:
  assumes "clears s s' pl"
  shows "pages_inv s'" "place s' = pl" "core_same s s'" "place s' x \<noteq> None \<Longrightarrow> place s x \<noteq> None"
    "place s' x \<noteq> None \<Longrightarrow> map_option page_data (vm_pages s' x) = map_option page_data (vm_pages s x)"
  using assms unfolding clears_def by blast+

lemma clears_trans:
  assumes "clears s1 s2 p" and "clears s2 s3 q"
  shows "clears s1 s3 q"
  unfolding clears_def
proof (intro conjI allI impI)
  show "pages_inv s3" "place s3 = q" by (rule clearsD [OF assms(2)])+
  show "core_same s1 s3" by (rule core_same_trans [OF clearsD(3) [OF assms(1)] clearsD(3) [OF assms(2)]])
  fix x assume x: "place s3 x \<noteq> None"
  note y = clearsD(4) [OF assms(2) x]
  show "place s1 x \<noteq> None" by (rule clearsD(4) [OF assms(1) y])
  show "map_option page_data (vm_pages s3 x) = map_option page_data (vm_pages s1 x)"
    by (rule trans [OF clearsD(5) [OF assms(2) x] clearsD(5) [OF assms(1) y]])
qed

lemma page_remove_one_spec:
  assumes inv: "pages_inv s" and na: "none_absent s" and m: "place s m = Some (a, off)"
  shows "\<exists>s'. page_remove_one m s = Some s' \<and> clears s s' ((place s)(m := None))"
proof -
  from placed_page [OF inv m] obtain p where p: "vm_pages s m = Some p" "\<not> vp_free p" by blast
  have pa: "\<not> vp_absent p" using na m p(1) unfolding none_absent_def by blast
  let ?s = "if \<not> vp_fictitious p then vm_post (Pmap_Page_Protect (vp_phys_addr p) VM_PROT_NONE) s else s"
  have i: "pages_inv ?s" "vm_pages ?s m = Some p" "place ?s = place s" using inv p by simp_all
  have c: "core_same s ?s" by (simp add: core_same_def)
  from vm_page_free_spec [OF i(1,2) p(2)] pa obtain s' where s': "vm_page_free m ?s = Some s'" "pages_inv s'"
      "place s' = (place s)(m := None)" "core_same ?s s'"
      "\<forall>x. x \<noteq> m \<longrightarrow> map_option page_data (vm_pages s' x) = map_option page_data (vm_pages s x)"
    unfolding i(3) by auto
  have "page_remove_one m s = Some s'" using p s'(1) by (simp add: page_remove_one_def)
  with s' core_same_trans [OF c s'(4)] show ?thesis by (auto simp: clears_def)
qed

lemma page_remove_iterate_spec:
  assumes "pages_inv s" and "none_absent s" and "distinct ms" and "\<forall>m\<in>set ms. \<exists>off. place s m = Some (object, off)"
  shows "\<exists>s'. page_remove_iterate ms start end' s = Some s' \<and>
    clears s s' (\<lambda>x. if x \<in> set ms then cleared s object start end' x else place s x)"
  using assms
proof (induction ms arbitrary: s)
  case Nil then show ?case by (auto simp: clears_def core_same_def)
next
  case (Cons m ms)
  then obtain off where off: "place s m = Some (object, off)" by auto
  from placed_page [OF Cons.prems(1) off] obtain p where p: "vm_pages s m = Some p" "vp_offset p = off" by blast
  let ?in = "start \<le> off \<and> off < end'"
  obtain s1 where s1: "(if ?in then page_remove_one m s else Some s) = Some s1"
      "clears s s1 ((place s)(m := cleared s object start end' m))"
  proof (cases ?in)
    case True
    with page_remove_one_spec [OF Cons.prems(1,2) off] off show ?thesis by (auto intro!: that simp: cleared_def)
  next
    case False
    then have "(place s)(m := cleared s object start end' m) = place s" using off by (simp add: cleared_def fun_upd_idem)
    with Cons.prems(1) False show ?thesis by (auto intro!: that simp: clears_def core_same_def)
  qed
  have pl: "place s1 = (place s)(m := cleared s object start end' m)" and i1: "pages_inv s1" using s1(2) by (simp_all add: clears_def)
  have "\<forall>x\<in>set ms. \<exists>off. place s1 x = Some (object, off)" using Cons.prems(3,4) by (auto simp: pl)
  from Cons.IH [OF i1 clears_absent [OF s1(2) Cons.prems(2)] _ this] Cons.prems(3) obtain s' where s':
      "page_remove_iterate ms start end' s1 = Some s'"
      "clears s1 s' (\<lambda>x. if x \<in> set ms then cleared s1 object start end' x else place s1 x)" by auto
  have "(\<lambda>x. if x \<in> set ms then cleared s1 object start end' x else place s1 x) =
      (\<lambda>x. if x \<in> set (m # ms) then cleared s object start end' x else place s x)"
    using Cons.prems(3) by (auto simp: pl cleared_def)
  with clears_trans [OF s1(2) s'(2)] s1(1) s'(1) p show ?case by auto
qed

lemma page_size_word: "page_size = 8192"
  by (simp add: page_size_def MAC2_PGBYTES_def)

lemma aligned_next:
  fixes start end' :: u32
  assumes "unat start mod 8192 = 0" and "unat end' mod 8192 = 0" and "start < end'"
  shows "unat (start + page_size) = unat start + 8192" and "unat start + 8192 \<le> unat end'"
proof -
  have lt: "unat start < unat end'" using assms(3) by (simp add: word_less_nat_alt)
  have "8192 dvd unat start" "8192 dvd unat end'" using assms(1,2) by (simp_all add: mod_0_imp_dvd)
  then obtain i j where ij: "unat start = 8192 * i" "unat end' = 8192 * j" by (elim dvdE)
  with lt have "i < j" by simp
  then have "8192 * Suc i \<le> 8192 * j" by (simp only: Suc_le_eq mult_le_mono2)
  with ij show le: "unat start + 8192 \<le> unat end'" by simp
  have "unat end' < 2 ^ 32" using unsigned_less [of end'] by simp
  with le show "unat (start + page_size) = unat start + 8192" by (simp add: unat_word_ariths page_size_word)
qed

definition page_aligned :: "'a vm_state_scheme \<Rightarrow> addr \<Rightarrow> bool" where
  "page_aligned s object \<longleftrightarrow> (\<forall>m off. place s m = Some (object, off) \<longrightarrow> unat off mod 8192 = 0)"

lemma page_remove_lookup_spec:
  assumes "pages_inv s" and "none_absent s" and "page_aligned s object" and "unat start mod 8192 = 0" and "unat end' mod 8192 = 0"
  shows "\<exists>s'. page_remove_lookup object start end' s = Some s' \<and> clears s s' (cleared s object start end')"
  using assms
proof (induction "unat end' - unat start" arbitrary: s start rule: less_induct)
  case less
  show ?case
  proof (cases "start < end'")
    case False
    then have "cleared s object start end' = place s"
      by (auto simp: cleared_def fun_eq_iff split: option.splits)
    with less.prems False show ?thesis by (subst page_remove_lookup.simps) (auto simp: clears_def core_same_def)
  next
    case True
    have t: "table_ok s" using less.prems(1) by (simp add: pages_inv_def)
    note nx = aligned_next [OF less.prems(4,5) True]
    let ?here = "\<lambda>x. if place s x = Some (object, start) then None else place s x"
    obtain s1 where s1: "(case vm_page_lookup object start s of None \<Rightarrow> Some s | Some m \<Rightarrow> page_remove_one m s) = Some s1"
        "clears s s1 ?here"
    proof (cases "vm_page_lookup object start s")
      case None
      then have "?here = place s" using vm_page_lookup_None [OF t] by auto
      with less.prems(1) None show ?thesis by (auto intro!: that simp: clears_def core_same_def)
    next
      case (Some m)
      then have m: "place s m = Some (object, start)" by (simp add: vm_page_lookup_spec [OF t])
      then have "?here = (place s)(m := None)" using t by (auto simp: table_ok_def fun_eq_iff)
      with page_remove_one_spec [OF less.prems(1,2) m] Some show ?thesis by (auto intro!: that)
    qed
    have pl: "place s1 = ?here" and i1: "pages_inv s1" using s1(2) by (simp_all add: clears_def)
    have a1: "page_aligned s1 object" using less.prems(3) by (auto simp: page_aligned_def pl)
    have dec: "unat end' - unat (start + page_size) < unat end' - unat start" using nx by simp
    have al1: "unat (start + page_size) mod 8192 = 0" using nx(1) less.prems(4) by simp
    obtain s' where s': "page_remove_lookup object (start + page_size) end' s1 = Some s'"
        "clears s1 s' (cleared s1 object (start + page_size) end')"
      using less.hyps [OF dec i1 clears_absent [OF s1(2) less.prems(2)] a1 al1 less.prems(5)] by blast
    have "cleared s1 object (start + page_size) end' x = cleared s object start end' x" for x
    proof (cases "place s x")
      case None then show ?thesis by (simp add: cleared_def pl)
    next
      case (Some y)
      obtain a off where y: "y = (a, off)" by (cases y)
      show ?thesis
      proof (cases "a = object")
        case True
        then have al: "unat off mod 8192 = 0" using less.prems(3) Some y by (auto simp: page_aligned_def)
        have iff: "start + page_size \<le> off \<longleftrightarrow> start \<le> off \<and> off \<noteq> start"
        proof -
          have "8192 dvd unat off" "8192 dvd unat start" using al less.prems(4) by (simp_all add: mod_0_imp_dvd)
          then obtain i j where ij: "unat off = 8192 * i" "unat start = 8192 * j" by (elim dvdE)
          have "off = start \<longleftrightarrow> unat off = unat start" by (simp add: word_unat_eq_iff)
          then show ?thesis unfolding word_le_nat_alt nx(1) ij by auto
        qed
        have "start < end'" by fact
        with iff show ?thesis using Some y True by (auto simp: cleared_def pl)
      next
        case False
        with Some y show ?thesis by (auto simp: cleared_def pl)
      qed
    qed
    then have "cleared s1 object (start + page_size) end' = cleared s object start end'" by (rule ext)
    with clears_trans [OF s1(2) s'(2)] s1(1) s'(1) True show ?thesis by (subst page_remove_lookup.simps) auto
  qed
qed

text \<open>Whichever way is taken, exactly the pages of the range go.\<close>

lemma vm_object_page_remove_spec:
  assumes inv: "pages_inv s" and na: "none_absent s" and al: "page_aligned s object" and ob: "vm_objects s object = Some ob"
    and range: "unat start mod 8192 = 0" "unat end' mod 8192 = 0"
  shows "\<exists>s'. vm_object_page_remove object start end' s = Some s' \<and> clears s s' (cleared s object start end')"
proof -
  have t: "table_ok s" using inv by (simp add: pages_inv_def)
  have "\<forall>m\<in>set (ob_memq ob). \<exists>off. place s m = Some (object, off)" using memq_iff [OF t ob] by blast
  from page_remove_iterate_spec [OF inv na memq_distinct [OF t ob] this, of start end'] obtain s1 where s1:
      "page_remove_iterate (ob_memq ob) start end' s = Some s1"
      "clears s s1 (\<lambda>x. if x \<in> set (ob_memq ob) then cleared s object start end' x else place s x)" by blast
  have "(\<lambda>x. if x \<in> set (ob_memq ob) then cleared s object start end' x else place s x) = cleared s object start end'"
    using memq_iff [OF t ob] by (auto simp: cleared_def fun_eq_iff split: option.splits)
  with s1 page_remove_lookup_spec [OF inv na al range] ob show ?thesis by (auto simp: vm_object_page_remove_def)
qed

subsection \<open>Extending an object\<close>

lemma clears_reads:
  assumes inv: "chains_inv s" and c: "clears s s' (cleared s object start end')" and sh: "vm_objects s object = Some ob"
    and own: "a \<noteq> object \<or> off < start \<or> end' \<le> off"
    and alone: "\<And>b bo. vm_objects s b = Some bo \<Longrightarrow> ob_shadow bo \<noteq> object"
    and r: "reads has s a off c"
  shows "reads has s' a off c"
  using r own
proof (induction rule: reads.induct)
  have t: "table_ok s" by (rule chains_invD(2) [OF inv])
  have t': "table_ok s'" using clearsD(1) [OF c] by (simp add: pages_inv_def)
  have lk: "vm_page_lookup a off s' = vm_page_lookup a off s" if "a \<noteq> object \<or> off < start \<or> end' \<le> off" for a off
    by (rule lookup_eqI [OF t t'], unfold clearsD(2) [OF c])
      (use that in \<open>auto simp: cleared_def split: option.splits if_splits\<close>)
  have obj: "\<exists>oa'. vm_objects s' a = Some oa' \<and> ob_view oa' = ob_view oa" if "vm_objects s a = Some oa" for a oa
    using core_same_object [OF clearsD(3) [OF c] that] ob_view_core by blast
  {
    case (Reads_Page a oa off m p)
    from obj [OF Reads_Page(1)] obtain oa' where oa': "vm_objects s' a = Some oa'" by blast
    have l: "vm_page_lookup a off s' = Some m" using lk [OF Reads_Page(4)] Reads_Page(2) by simp
    then have "place s' m \<noteq> None" by (simp add: vm_page_lookup_spec [OF t'])
    from clearsD(5) [OF c this] Reads_Page(3) have "map_option page_data (vm_pages s' m) = Some (page_data p)" by simp
    then obtain p' where "vm_pages s' m = Some p'" "vp_phys_addr p' = vp_phys_addr p" by (auto simp: page_data_def)
    with reads.Reads_Page [OF oa' l] show ?case by metis
  next
    case (Reads_Pager a oa off)
    from obj [OF Reads_Pager(1)] obtain oa' where oa': "vm_objects s' a = Some oa'" "ob_view oa' = ob_view oa" by blast
    from reads.Reads_Pager [OF oa'(1), of off has] lk [OF Reads_Pager(5)] Reads_Pager(2-4) oa'(2) show ?case
      by (simp add: ob_view_def)
  next
    case (Reads_Shadow a oa off d)
    from obj [OF Reads_Shadow(1)] obtain oa' where oa': "vm_objects s' a = Some oa'" "ob_view oa' = ob_view oa" by blast
    have "reads has s' (ob_shadow oa) (off + ob_shadow_offset oa) d" using Reads_Shadow(6) alone [OF Reads_Shadow(1)] by blast
    with reads.Reads_Shadow [OF oa'(1), of off has d] lk [OF Reads_Shadow(7)] Reads_Shadow(2-4) oa'(2) show ?case
      by (simp add: ob_view_def)
  next
    case (Reads_Zero a oa off)
    from obj [OF Reads_Zero(1)] obtain oa' where oa': "vm_objects s' a = Some oa'" "ob_view oa' = ob_view oa" by blast
    from reads.Reads_Zero [OF oa'(1), of off has] lk [OF Reads_Zero(5)] Reads_Zero(2-4) oa'(2) show ?case
      by (simp add: ob_view_def)
  }
qed

lemma reads_size:
  assumes p: "vm_objects s p = Some ob" and r: "reads has s a off c"
  shows "reads has (put_object p (ob\<lparr>ob_size := z\<rparr>) s) a off c"
  using r
proof (induction rule: reads.induct)
  let ?s = "put_object p (ob\<lparr>ob_size := z\<rparr>) s"
  have lk: "vm_page_lookup a off ?s = vm_page_lookup a off s" for a off
    by (simp add: vm_page_lookup_def vm_page_hash_def)
  have obj: "\<exists>oa'. vm_objects ?s a = Some oa' \<and> ob_pager oa' = ob_pager oa \<and> ob_pager_created oa' = ob_pager_created oa \<and>
      ob_paging_offset oa' = ob_paging_offset oa \<and> ob_shadow oa' = ob_shadow oa \<and> ob_shadow_offset oa' = ob_shadow_offset oa"
    if "vm_objects s a = Some oa" for a oa using p that by auto
  {
    case (Reads_Page a oa off m q)
    with obj [OF Reads_Page(1)] show ?case unfolding reads_iff [of has ?s a] lk by auto
  next
    case (Reads_Pager a oa off)
    with obj [OF Reads_Pager(1)] show ?case unfolding reads_iff [of has ?s a] lk by auto
  next
    case (Reads_Shadow a oa off d)
    with obj [OF Reads_Shadow(1)] show ?case unfolding reads_iff [of has ?s a] lk by auto
  next
    case (Reads_Zero a oa off)
    with obj [OF Reads_Zero(1)] show ?case unfolding reads_iff [of has ?s a] lk by auto
  }
qed

text \<open>
  The object is made to reach further exactly when no one else can see it: once collapsed, it has one
  reference, the caller's, no data with a pager, no object below it and no copy made of it.  What the
  new range held before is gone, and it reads as zeros.  The count of references is a signed short, which
  the caller's reference must not have made negative.
\<close>

definition nobody_sees :: "'a vm_state_scheme \<Rightarrow> addr \<Rightarrow> vm_object \<Rightarrow> bool" where
  "nobody_sees s object ob \<longleftrightarrow> ob_ref_count ob = 1 \<and> shadowers s object = {} \<and> \<not> ob_pager_created ob \<and>
     ob_shadow ob = 0 \<and> ob_copy ob = 0"

lemma sint_one_iff: "sint (x :: 16 word) = 1 \<longleftrightarrow> x = 1"
proof
  assume "sint x = 1"
  then have "sint x = sint (1 :: 16 word)" by simp
  then show "x = 1" by (rule signed_word_eqI)
qed simp

lemma core_same_object_rev:
  assumes "core_same s s'" and "vm_objects s' a = Some ob'"
  obtains ob where "vm_objects s a = Some ob" "ob_core ob' = ob_core ob"
proof -
  have "map_option ob_core (vm_objects s' a) = map_option ob_core (vm_objects s a)" using assms(1) by (simp add: core_same_def)
  then show thesis using assms(2) by (cases "vm_objects s a") (auto intro: that)
qed

lemma vm_object_coalesce_spec:
  assumes inv: "chains_inv s" and ch: "chain n prev s" and refs: "refs_below s n" and ob: "vm_objects s prev = Some ob"
    and held: "int (card (shadowers s prev)) < sint (ob_ref_count ob)" and al: "all_aligned s"
    and start: "start = prev_offset + prev_size" "unat start mod 8192 = 0"
    and end': "end' = start + next_size" "unat end' mod 8192 = 0"
  shows "\<exists>s1 ob1 r s' ob'. vm_object_collapse cache_free prev s = Some s1 \<and> vm_objects s1 prev = Some ob1 \<and>
    vm_object_coalesce cache_free prev 0 prev_offset prev_size next_size s = Some (r, s') \<and>
    (r \<longleftrightarrow> ob_ref_count ob1 = 1 \<and> \<not> ob_pager_created ob1 \<and> ob_shadow ob1 = 0 \<and> ob_copy ob1 = 0) \<and>
    vm_objects s' prev = Some ob' \<and> ob_size ob \<le> ob_size ob' \<and>
    (\<not> r \<longrightarrow> s' = s1) \<and> (r \<longrightarrow> nobody_sees s' prev ob') \<and>
    (\<forall>a oa off c. vm_objects s' a \<noteq> None \<longrightarrow> vm_objects s a = Some oa \<longrightarrow> off < ob_size oa \<longrightarrow>
       (r \<longrightarrow> a = prev \<longrightarrow> off < start) \<longrightarrow> (reads has s' a off c \<longleftrightarrow> reads has s a off c)) \<and>
    (r \<longrightarrow> end' \<le> ob_size ob' \<and> (\<forall>off. start \<le> off \<longrightarrow> off < end' \<longrightarrow> reads has s' prev off Zero_Fill))"
proof -
  have p0: "prev \<noteq> 0" using chains_invD(4) [OF inv] ob by auto
  from vm_object_collapse_spec [OF inv ch refs ob, of cache_free has] obtain s1 ob1 where s1:
      "vm_object_collapse cache_free prev s = Some s1" "chains_inv s1" "vm_objects s1 prev = Some ob1" "ob_size ob1 = ob_size ob"
      "ob_ref_count ob1 = ob_ref_count ob" "shadowers s1 prev \<subseteq> shadowers s prev" "all_aligned s1"
      "\<forall>a. vm_objects s1 a \<noteq> None \<longrightarrow> vm_objects s a \<noteq> None"
      "\<forall>a oa oa' off c. vm_objects s1 a = Some oa' \<longrightarrow> vm_objects s a = Some oa \<longrightarrow> off < ob_size oa \<longrightarrow>
         ob_size oa' = ob_size oa \<and> (reads has s1 a off c \<longleftrightarrow> reads has s a off c)" using al by blast
  let ?no = "1 < sint (ob_ref_count ob1) \<or> ob_pager_created ob1 \<or> ob_shadow ob1 \<noteq> 0 \<or> ob_copy ob1 \<noteq> 0"
  show ?thesis
  proof (cases ?no)
    case True
    then have "vm_object_coalesce cache_free prev 0 prev_offset prev_size next_size s = Some (False, s1)"
      using p0 s1(1,3) by (simp add: vm_object_coalesce_def)
    with s1 True show ?thesis
      by (intro exI [of _ s1] exI [of _ ob1] exI [of _ False] exI [of _ s1] exI [of _ ob1]) auto
  next
    case False
    have "page_aligned s1 prev" using s1(7) by (auto simp: page_aligned_def all_aligned_def)
    from vm_object_page_remove_spec [OF chains_invD(1,8) [OF s1(2)] this s1(3) start(2) end'(2)]
    obtain s2 where s2: "vm_object_page_remove prev start end' s1 = Some s2" "clears s1 s2 (cleared s1 prev start end')" by blast
    from core_same_object [OF clearsD(3) [OF s2(2)] s1(3)] obtain ob2 where ob2: "vm_objects s2 prev = Some ob2" "ob_core ob2 = ob_core ob1"
      by blast
    let ?s = "if ob_size ob2 < end' then put_object prev (ob2\<lparr>ob_size := end'\<rparr>) s2 else s2"
    let ?ob = "if ob_size ob2 < end' then ob2\<lparr>ob_size := end'\<rparr> else ob2"
    have co: "vm_object_coalesce cache_free prev 0 prev_offset prev_size next_size s = Some (True, ?s)"
      using p0 s1(1,3) False s2(1) ob2(1) by (simp add: vm_object_coalesce_def start(1) end'(1) Let_def)
    have obs: "vm_objects ?s prev = Some ?ob" using ob2(1) by simp
    have sz: "ob_size ob \<le> ob_size ?ob" "end' \<le> ob_size ?ob"
      using ob_coreD(1) [OF ob2(2)] s1(4) by (auto simp: not_less less_imp_le)
    have fwd: "reads has ?s a off c" if "reads has s2 a off c" for a off c
      using reads_size [OF ob2(1) that, of end'] that by simp
    have "int (card (shadowers s1 prev)) < sint (ob_ref_count ob1)"
      using card_mono [OF finite_shadowers [OF inv] s1(6)] held s1(5) by simp
    moreover have "sint (ob_ref_count ob1) \<le> 1" using False by simp
    ultimately have "sint (ob_ref_count ob1) = 1" "card (shadowers s1 prev) = 0" by linarith+
    then have one: "ob_ref_count ob1 = 1" and none: "card (shadowers s1 prev) = 0" by (simp_all add: sint_one_iff)
    then have empty: "shadowers s1 prev = {}" using finite_shadowers [OF s1(2)] by simp
    then have alone: "ob_shadow bo \<noteq> prev" if "vm_objects s1 b = Some bo" for b bo using that by (auto simp: shadowers_def)
    have "nobody_sees ?s prev ?ob"
    proof -
      have "ob_shadow bo \<noteq> prev" if b: "vm_objects ?s b = Some bo" for b bo
      proof (cases "b = prev")
        case True
        then have "bo = ?ob" using b obs by simp
        then have "ob_shadow bo = 0" using ob_coreD(4) [OF ob2(2)] False by simp
        then show ?thesis using p0 by simp
      next
        case ne: False
        then have "vm_objects s2 b = Some bo" using b by (auto split: if_splits)
        then obtain b1 where "vm_objects s1 b = Some b1" "ob_core bo = ob_core b1"
          using core_same_object_rev [OF clearsD(3) [OF s2(2)]] by blast
        then show ?thesis using alone ob_coreD(4) by metis
      qed
      then show ?thesis using False one ob_coreD [OF ob2(2)] by (auto simp: nobody_sees_def shadowers_def)
    qed
    note uns = this
    have old: "reads has ?s a off c \<longleftrightarrow> reads has s a off c"
      if a: "vm_objects ?s a \<noteq> None" "vm_objects s a = Some oa" "off < ob_size oa" "a = prev \<longrightarrow> off < start" for a oa off c
    proof -
      have "vm_objects s2 a \<noteq> None" using a(1) ob2(1) by (auto split: if_splits)
      then have "vm_objects s1 a \<noteq> None" using clearsD(3) [OF s2(2)] unfolding core_same_def by (metis map_option_is_None)
      then obtain o1 where o1: "vm_objects s1 a = Some o1" by blast
      have e: "reads has s1 a off d \<longleftrightarrow> reads has s a off d" for d using s1(9) o1 a(2,3) by blast
      have f: "reads has ?s a off d" if "reads has s a off d" for d
      proof -
        have r1: "reads has s1 a off d" using e that by blast
        have "reads has s2 a off d"
          by (rule clears_reads [OF s1(2) s2(2) s1(3) _ _ r1]) (use a(4) alone in blast)+
        then show ?thesis by (rule fwd)
      qed
      from chains_invD(7) [OF inv a(2)] obtain k where "chain k a s" by blast
      from reads_total [OF inv this] obtain d where d: "reads has s a off d" by blast
      show ?thesis
      proof
        assume r: "reads has ?s a off c"
        with reads_unique [OF f [OF d] r] d show "reads has s a off c" by simp
      qed (rule f)
    qed
    have zero: "reads has ?s prev off Zero_Fill" if off: "start \<le> off" "off < end'" for off
    proof -
      have t1: "table_ok s1" by (rule chains_invD(2) [OF s1(2)])
      have t2: "table_ok s2" using clearsD(1) [OF s2(2)] by (simp add: pages_inv_def)
      have "place s2 x \<noteq> Some (prev, off)" for x
        unfolding clearsD(2) [OF s2(2)] using off by (cases "place s1 x") (auto simp: cleared_def split: if_splits)
      then have "vm_page_lookup prev off s2 = None" using vm_page_lookup_None [OF t2] by blast
      then have "reads has s2 prev off Zero_Fill"
        using ob2(1) False ob_coreD(4,7) [OF ob2(2)] by (intro Reads_Zero) auto
      then show ?thesis by (rule fwd)
    qed
    show ?thesis
      by (intro exI [of _ s1] exI [of _ ob1] exI [of _ True] exI [of _ ?s] exI [of _ ?ob] conjI)
        (use co obs sz old zero s1(1,3) one False uns in blast)+
  qed
qed

lemma vm_page_alloc_free:
  assumes inv: "pages_inv s" and ob: "vm_objects s object \<noteq> None" and n: "vm_page_lookup object offset s = None"
    and al: "vm_page_alloc privileged object offset s = Some (Some m, s1)"
  shows "(\<forall>a off. vm_page_lookup a off s1 = (if (a, off) = (object, offset) then Some m else vm_page_lookup a off s)) \<and>
    (\<exists>s2 r. vm_page_free m s1 = Some s2 \<and> (\<forall>a off. vm_page_lookup a off s2 = vm_page_lookup a off s) \<and>
      vm_pages s2 m = Some r \<and> vp_free r \<and> queues_ok s2)"
proof -
  have t: "table_ok s" using inv by (simp add: pages_inv_def)
  obtain o1 where o1: "vm_objects s object = Some o1" using ob by blast
  from al obtain f t1 where g0: "vm_page_grab privileged s = Some (f, t1)" by (auto simp: vm_page_alloc_def bind_eq_Some_conv)
  with al have g: "vm_page_grab privileged s = Some (Some m, t1)" by (cases f) (auto simp: vm_page_alloc_def bind_eq_Some_conv)
  have nm: "place s m = None"
  proof -
    from vm_page_grab_spec(5) [OF inv g] obtain p where p: "vm_pages s m = Some p" "vp_free p" by blast
    have "queues_ok s" using inv by (simp add: pages_inv_def)
    from queues_okD(5) [OF this p(1)] p(2) have "\<not> vp_tabled p" by (simp add: page_ok_def)
    with p(1) show ?thesis by (simp add: place_def)
  qed
  from vm_page_alloc_spec [OF inv o1 none_placed [OF t n] g] al
  have i1: "pages_inv s1" and pl: "place s1 = (place s)(m \<mapsto> (object, offset))" and obs: "vm_objects s1 object \<noteq> None" by auto
  have old: "vm_page_lookup a off s \<noteq> Some m" for a off using nm by (simp add: vm_page_lookup_spec [OF t])
  have lk: "vm_page_lookup a off s1 = (if (a, off) = (object, offset) then Some m else vm_page_lookup a off s)" for a off
    unfolding lookup_place [OF inv i1 pl] using old by auto
  have "place s1 m = Some (object, offset)" by (simp add: pl)
  from placed_page [OF i1 this] obtain p where p: "vm_pages s1 m = Some p" "\<not> vp_free p" "vp_object p = object" by blast
  from vm_page_free_spec [OF i1 p(1,2)] p(3) obs obtain s2 r where s2: "vm_page_free m s1 = Some s2" "pages_inv s2"
      "place s2 = (place s1)(m := None)" "vm_pages s2 m = Some r" "vp_free r" by blast
  have "vm_page_lookup a off s2 = vm_page_lookup a off s" for a off
    unfolding lookup_place [OF i1 s2(2,3)] using lk old n by auto
  with lk s2 show ?thesis by (auto simp: pages_inv_def)
qed

lemma page_remove_both:
  assumes inv: "pages_inv s" and na: "none_absent s" and al: "page_aligned s object" and ob: "vm_objects s object = Some ob"
    and range: "unat start mod 8192 = 0" "unat end' mod 8192 = 0"
  shows "\<exists>s1 s2 s3. page_remove_lookup object start end' s = Some s1 \<and> place s1 = cleared s object start end' \<and>
    page_remove_iterate (ob_memq ob) start end' s = Some s2 \<and> place s2 = cleared s object start end' \<and>
    vm_object_page_remove object start end' s = Some s3 \<and> s3 \<in> {s1, s2} \<and> pages_inv s3"
proof -
  have t: "table_ok s" using inv by (simp add: pages_inv_def)
  have "\<forall>m\<in>set (ob_memq ob). \<exists>off. place s m = Some (object, off)" using memq_iff [OF t ob] by blast
  from page_remove_iterate_spec [OF inv na memq_distinct [OF t ob] this, of start end'] obtain s2 where s2:
      "page_remove_iterate (ob_memq ob) start end' s = Some s2"
      "clears s s2 (\<lambda>x. if x \<in> set (ob_memq ob) then cleared s object start end' x else place s x)" by blast
  have e: "(\<lambda>x. if x \<in> set (ob_memq ob) then cleared s object start end' x else place s x) = cleared s object start end'"
    using memq_iff [OF t ob] by (auto simp: cleared_def fun_eq_iff split: option.splits)
  obtain s1 where s1: "page_remove_lookup object start end' s = Some s1" "clears s s1 (cleared s object start end')"
    using page_remove_lookup_spec [OF inv na al range] by blast
  have "vm_object_page_remove object start end' s = Some s1 \<or> vm_object_page_remove object start end' s = Some s2"
    using s1(1) s2(1) ob by (auto simp: vm_object_page_remove_def)
  with s1 s2 e clearsD(1,2) [OF s1(2)] clearsD(1,2) [OF s2(2)] show ?thesis by auto
qed

end
