(* ===== verification/Vm_Boot.thy ===== *)
theory Vm_Boot
  imports Vm_Object_Remove
begin

section \<open>A small memory\<close>

text \<open>Three pages, one of them free, and two objects: the one at 256 shadows the one at 512 from its second page on.\<close>

definition memory_boot :: "vm_obj_state option" where
  "memory_boot =
     do {
       let s = vm_page_bootstrap 4 (vm_zero (vm_obj_state.fields [768] [] 0 100));
       s \<leftarrow> vm_page_create 16 8192 s;
       s \<leftarrow> vm_page_create 32 16384 s;
       s \<leftarrow> vm_page_create 48 24576 s;
       let s = put_object 512 (vm_object_template\<lparr>ob_size := 24576\<rparr>) s;
       let s = put_object 256 (vm_object_template\<lparr>ob_size := 16384, ob_shadow := 512, ob_shadow_offset := 8192\<rparr>) s;
       (_, s) \<leftarrow> vm_page_alloc True 512 16384 s;
       (_, s) \<leftarrow> vm_page_alloc True 256 0 s;
       s \<leftarrow> page_wakeup_done 48 s;
       page_wakeup_done 32 s
     }"

definition memory :: vm_obj_state where
  "memory =
     \<lparr>vm_pages = [16 \<mapsto> (vm_page_init 8192)\<lparr>vp_free := True\<rparr>,
        48 \<mapsto> (vm_page_init 24576)\<lparr>vp_object := 512, vp_offset := 16384, vp_tabled := True, vp_busy := False\<rparr>,
        32 \<mapsto> (vm_page_init 16384)\<lparr>vp_object := 256, vp_offset := 0, vp_tabled := True, vp_busy := False\<rparr>],
      vm_objects =
        [512 \<mapsto> vm_object_template\<lparr>ob_size := 24576, ob_memq := [48], ob_resident_page_count := 1, ob_last_alloc := 16384\<rparr>,
         256 \<mapsto> vm_object_template\<lparr>ob_size := 16384, ob_shadow := 512, ob_shadow_offset := 8192, ob_memq := [32],
           ob_resident_page_count := 1\<rparr>],
      vm_page_buckets = (\<lambda>_. [])(2 := [48], 0 := [32]), vm_page_hash_mask = 3, vm_page_queue_free = [16],
      vm_page_queue_fictitious = [], vm_page_queue_active = [], vm_page_queue_inactive = [], vm_page_free_count = 1,
      vm_page_fictitious_count = 0, vm_page_active_count = 0, vm_page_inactive_count = 0, vm_page_wire_count = 0,
      vm_page_laundry_count = 0, vm_page_free_count_minimum = 0, vm_page_free_target = 0, vm_page_free_min = 0,
      vm_page_inactive_target = 0, vm_page_free_reserved = 0, vm_page_free_wanted = 0, vm_page_fictitious_addr = - 1,
      vm_events = [], vm_object_zone = [768], vm_object_cached_list = [], vm_object_cached_count = 0,
      vm_object_cached_max = 100\<rparr>"

lemma memory_boot: "memory_boot = Some memory"
  by (simp add: memory_boot_def memory_def vm_page_bootstrap_def vm_zero_def vm_obj_state.defs vm_page_create_def
      vm_page_release_def put_page_def put_object_def vm_post_def vm_page_init_def vm_page_alloc_def vm_page_grab_def
      vm_page_insert_def deactivate_behind_def vm_object_template_def vm_page_hash_def page_shift_def page_size_word
      page_wakeup_done_def Let_def fun_upd_twist)

lemma memory_lookup:
  "vm_page_lookup 512 16384 memory = Some 48" "vm_page_lookup 256 0 memory = Some 32" "vm_page_lookup 256 8192 memory = None"
  by (simp_all add: memory_def vm_page_lookup_def vm_page_hash_def page_shift_def)

lemma memory_reachable: "page_reachable memory"
proof -
  define z where "z = vm_zero (vm_obj_state.fields [768] [] 0 100)"
  define s0 where "s0 = vm_page_bootstrap 4 z"
  have z: "vm_pages s0 = (\<lambda>_. None)" "vm_objects s0 = (\<lambda>_. None)" by (simp_all add: s0_def z_def vm_page_bootstrap_def vm_zero_def)
  have c: "vm_pages t' = (vm_pages t)(m \<mapsto> (vm_page_init a)\<lparr>vp_free := True\<rparr>) \<and> vm_objects t' = vm_objects t"
    if "vm_page_create m a t = Some t'" for m a and t t' :: vm_obj_state
    using that by (auto simp: vm_page_create_def vm_page_release_def Let_def vm_page_init_def split: if_splits)
  define o1 where "o1 = vm_object_template\<lparr>ob_size := 24576\<rparr>"
  define o2 where "o2 = vm_object_template\<lparr>ob_size := 16384, ob_shadow := 512, ob_shadow_offset := 8192\<rparr>"
  from memory_boot obtain s1 s2 s3 r6 s6 r7 s7 s8 where s: "vm_page_create 16 8192 s0 = Some s1" "vm_page_create 32 16384 s1 = Some s2"
      "vm_page_create 48 24576 s2 = Some s3"
      "vm_page_alloc True 512 16384 (put_object 256 o2 (put_object 512 o1 s3)) = Some (r6, s6)"
      "vm_page_alloc True 256 0 s6 = Some (r7, s7)" "page_wakeup_done 48 s7 = Some s8" "page_wakeup_done 32 s8 = Some memory"
    by (auto simp: memory_boot_def bind_eq_Some_conv Let_def s0_def z_def o1_def o2_def)
  let ?s4 = "put_object 512 o1 s3" and ?s5 = "put_object 256 o2 (put_object 512 o1 s3)"
  note c1 = c [OF s(1)] and c2 = c [OF s(2)] and c3 = c [OF s(3)]
  have r0: "page_reachable s0" unfolding s0_def z_def by (rule Boot)
  have r1: "page_reachable s1" by (rule Step [OF r0 Create [OF _ s(1)]]) (simp add: z)
  have r2: "page_reachable s2" by (rule Step [OF r1 Create [OF _ s(2)]]) (simp add: c1 z)
  have r3: "page_reachable s3" by (rule Step [OF r2 Create [OF _ s(3)]]) (simp add: c1 c2 z)
  have r4: "page_reachable ?s4"
    by (rule Step [OF r3 New_Object]) (simp_all add: c1 c2 c3 z o1_def vm_object_template_def)
  have r5: "page_reachable ?s5"
    by (rule Step [OF r4 New_Object]) (simp_all add: c1 c2 c3 z o2_def vm_object_template_def)
  have none3: "place s3 = (\<lambda>_. None)" by (simp add: place_def c1 c2 c3 z vm_page_init_def fun_eq_iff)
  have t5: "table_ok ?s5" using page_reachable_inv [OF r5] by (simp add: pages_inv_def)
  have l5: "vm_page_lookup 512 16384 ?s5 = None" by (simp add: vm_page_lookup_None [OF t5] none3)
  have r6: "page_reachable s6" by (rule Step [OF r5 Alloc [OF _ l5 s(4)]]) simp
  have o5: "vm_objects ?s5 512 = Some o1" by simp
  have t6: "table_ok s6" using page_reachable_inv [OF r6] by (simp add: pages_inv_def)
  have "vm_objects s6 256 \<noteq> None \<and> (\<forall>x. place s6 x \<noteq> Some (256, 0))"
  proof -
    from s(4) obtain f t where g: "vm_page_grab True ?s5 = Some (f, t)" by (auto simp: vm_page_alloc_def bind_eq_Some_conv)
    show ?thesis
    proof (cases f)
      case None
      with s(4) g have "s6 = ?s5"
        by (auto simp: vm_page_alloc_def vm_page_grab_def Let_def bind_eq_Some_conv split: if_splits list.splits)
      then show ?thesis using none3 by simp
    next
      case (Some m)
      have n: "place ?s5 x \<noteq> Some (512, 16384)" for x by (simp add: none3)
      from vm_page_alloc_spec [OF page_reachable_inv [OF r5] o5 n g [unfolded Some]] s(4)
      have "place s6 = (place ?s5)(m \<mapsto> (512, 16384))" "dom (vm_objects s6) = dom (vm_objects ?s5)" by auto
      then show ?thesis using none3 by (auto simp: dom_def set_eq_iff)
    qed
  qed
  then have "page_reachable s7" by (intro Step [OF r6 Alloc [OF _ _ s(5)]]) (auto simp: vm_page_lookup_None [OF t6])
  from Step [OF Step [OF this Wakeup [OF s(6)]] Wakeup [OF s(7)]] show ?thesis .
qed

lemma memory_inv: "pages_inv memory"
  by (rule page_reachable_inv [OF memory_reachable])

lemma memory_place: "place memory = [48 \<mapsto> (512, 16384), 32 \<mapsto> (256, 0)]"
  by (simp add: place_def memory_def vm_page_init_def fun_eq_iff)

lemma memory_objects:
  "vm_objects memory 256 = Some (vm_object_template\<lparr>ob_size := 16384, ob_shadow := 512, ob_shadow_offset := 8192,
     ob_memq := [32], ob_resident_page_count := 1\<rparr>)"
  "vm_objects memory 512 = Some (vm_object_template\<lparr>ob_size := 24576, ob_memq := [48], ob_resident_page_count := 1,
     ob_last_alloc := 16384\<rparr>)"
  "vm_objects memory a = Some ob \<Longrightarrow> a = 256 \<or> a = 512"
  by (auto simp: memory_def split: if_splits)

lemma memory_shadowers: "shadowers memory 512 = {256}" "shadowers memory 256 = {}"
  using memory_objects by (auto simp: shadowers_def memory_def vm_object_template_def split: if_splits)

lemma memory_chain: "chain (Suc 0) 256 memory" "chain 0 512 memory"
  by (simp_all add: memory_objects vm_object_template_def)

lemma memory_chains: "chains_inv memory"
  unfolding chains_inv_def
proof (intro conjI allI impI)
  show "pages_inv memory" by (rule memory_inv)
  show "vm_objects memory 0 = None" by (simp add: memory_def)
  show "finite (dom (vm_objects memory))" by (simp add: memory_def)
  show "none_absent memory" by (auto simp: none_absent_def memory_place memory_def vm_page_init_def split: if_splits)
  fix a ob assume a: "vm_objects memory a = Some ob"
  then have cases: "a = 256 \<or> a = 512" by (rule memory_objects(3))
  then show "object_ok memory a ob"
    using a by (elim disjE) (auto simp: object_ok_def memory_objects memory_shadowers vm_object_template_def)
  show "\<exists>n. chain n a memory" using cases memory_chain by blast
qed

lemma memory_alloc: "\<exists>s1. vm_page_alloc False 512 0 memory = Some (Some 16, s1)"
  by (simp add: vm_page_alloc_def vm_page_grab_def vm_page_insert_def deactivate_behind_def memory_def vm_page_init_def
      put_page_def put_object_def vm_object_template_def vm_page_hash_def page_shift_def page_size_word vm_post_def Let_def)

lemma memory_reads: "reads (\<lambda>_ _. False) memory 256 8192 (In_Frame 24576)"
proof -
  have p: "vm_pages memory 48 = Some ((vm_page_init 24576)\<lparr>vp_object := 512, vp_offset := 16384, vp_tabled := True, vp_busy := False\<rparr>)"
    by (simp add: memory_def)
  from reads.Reads_Page [OF memory_objects(2) memory_lookup(1) p] have "reads (\<lambda>_ _. False) memory 512 16384 (In_Frame 24576)"
    by (simp add: vm_page_init_def)
  then show ?thesis using memory_lookup(3) by (intro Reads_Shadow [OF memory_objects(1)]) (simp_all add: vm_object_template_def)
qed

lemma memory_aligned: "all_aligned memory"
  unfolding all_aligned_def
proof (intro conjI allI impI)
  fix m a off assume "place memory m = Some (a, off)"
  then show "8192 dvd unat off" by (auto simp: memory_place split: if_splits)
next
  fix a ob assume a: "vm_objects memory a = Some ob"
  then have "ob_shadow_offset ob = 0 \<or> ob_shadow_offset ob = 8192"
    by (auto simp: memory_def vm_object_template_def split: if_splits)
  then show "8192 dvd unat (ob_shadow_offset ob)" by auto
qed

lemma memory_refs: "refs_below memory (Suc 0)"
  by (auto simp: refs_below_def memory_def vm_object_template_def split: if_splits)

definition memory_collapsed :: vm_obj_state where
  "memory_collapsed = memory\<lparr>
      vm_page_queue_inactive := [32], vm_page_inactive_count := 1,
      vm_pages := (vm_pages memory)(32 \<mapsto> (vm_page_init 16384)\<lparr>vp_object := 256, vp_offset := 0, vp_tabled := True,
          vp_busy := False, vp_inactive := True\<rparr>, 48 \<mapsto> (vm_page_init 24576)\<lparr>vp_object := 256, vp_offset := 8192, vp_tabled := True, vp_busy := False\<rparr>),
      vm_objects := [256 \<mapsto> vm_object_template\<lparr>ob_size := 16384, ob_shadow_offset := 8192, ob_memq := [32, 48],
         ob_resident_page_count := 2, ob_last_alloc := 8192\<rparr>],
      vm_page_buckets := (\<lambda>_. [])(1 := [48], 0 := [32]), vm_object_zone := [512, 768]\<rparr>"

lemmas memory_eval = memory_def vm_object_template_def vm_page_init_def vm_page_lookup_def vm_page_hash_def page_shift_def
  page_size_word vm_page_rename_def vm_page_remove_def vm_page_insert_def deactivate_behind_def put_page_def put_object_def
  vm_post_def vm_page_deactivate_def Let_def

definition memory_renamed :: vm_obj_state where
  "memory_renamed = memory\<lparr>
      vm_page_queue_inactive := [32], vm_page_inactive_count := 1,
      vm_pages := (vm_pages memory)(32 \<mapsto> (vm_page_init 16384)\<lparr>vp_object := 256, vp_offset := 0, vp_tabled := True,
          vp_busy := False, vp_inactive := True\<rparr>, 48 \<mapsto> (vm_page_init 24576)\<lparr>vp_object := 256, vp_offset := 8192, vp_tabled := True, vp_busy := False\<rparr>),
      vm_objects := (vm_objects memory)(
        512 \<mapsto> vm_object_template\<lparr>ob_size := 24576, ob_last_alloc := 16384\<rparr>,
        256 \<mapsto> vm_object_template\<lparr>ob_size := 16384, ob_shadow := 512, ob_shadow_offset := 8192, ob_memq := [32, 48],
          ob_resident_page_count := 2, ob_last_alloc := 8192\<rparr>),
      vm_page_buckets := (\<lambda>_. [])(1 := [48], 0 := [32])\<rparr>"

lemma memory_rename: "vm_page_rename 48 256 8192 memory = Some memory_renamed"
proof -
  have b: "(\<lambda>_. [])(2 := [], 1 := [48], 0 := [32]) = (\<lambda>_ :: u32. [])(1 := [48], 0 := [32::u32])" by (simp add: fun_eq_iff)
  show ?thesis by (simp add: memory_renamed_def memory_eval fun_upd_twist b)
qed

lemma memory_pages: "collapse_pages (Suc (Suc 0)) 256 512 8192 16384 memory = Some memory_renamed"
proof -
  have "vm_page_lookup 256 8192 memory = None" by (rule memory_lookup)
  moreover have "vm_pages memory 48 = Some ((vm_page_init 24576)\<lparr>vp_object := 512, vp_offset := 16384, vp_tabled := True, vp_busy := False\<rparr>)"
    by (simp add: memory_def)
  moreover have "vm_objects memory_renamed 512 = Some (vm_object_template\<lparr>ob_size := 24576, ob_last_alloc := 16384\<rparr>)"
    by (simp add: memory_renamed_def)
  ultimately show ?thesis
    using memory_objects(2) memory_rename by (simp add: vm_object_template_def vm_page_init_def)
qed

lemma memory_backing: "collapse_backing 256 512 memory = Some memory_collapsed"
proof -
  have o: "vm_objects memory_renamed 512 = Some (vm_object_template\<lparr>ob_size := 24576, ob_last_alloc := 16384\<rparr>)"
      "vm_objects memory_renamed 256 = Some (vm_object_template\<lparr>ob_size := 16384, ob_shadow := 512, ob_shadow_offset := 8192,
        ob_memq := [32, 48], ob_resident_page_count := 2, ob_last_alloc := 8192\<rparr>)"
    by (simp_all add: memory_renamed_def)
  have z: "vm_object_zone memory_renamed = [768]" by (simp add: memory_renamed_def memory_def)
  show ?thesis
    by (simp add: collapse_backing_def memory_objects memory_pages o collapse_pager_def vm_object_template_def put_object_def z
        del: collapse_pages.simps)
      (simp add: memory_renamed_def memory_collapsed_def memory_def vm_object_template_def)
qed

lemma memory_step: "collapse_step True 256 memory = Some (Some memory_collapsed)"
  by (simp add: collapse_step_def memory_objects vm_object_template_def memory_backing)

lemma memory_step_end: "collapse_step True 256 memory_collapsed = Some None"
  by (simp add: collapse_step_def memory_collapsed_def vm_object_template_def)

lemma memory_coalesce: "\<exists>s'. vm_object_coalesce True 256 0 0 8192 8192 memory = Some (True, s')"
proof -
  have "vm_object_collapse True 256 memory = Some memory_collapsed"
    by (subst vm_object_collapse.simps, simp add: memory_step, subst vm_object_collapse.simps, simp add: memory_step_end)
  note c = this
  show ?thesis unfolding vm_object_coalesce_def c
    by (simp add: vm_object_page_remove_def memory_collapsed_def page_remove_one_def vm_page_free_def queues_remove_def
        page_wakeup_done_def vm_page_release_def memory_eval)
qed

end
