(* ===== verification/Spec2Isabelle.thy ===== *)
theory Spec2Isabelle
  imports Ipc_Queue Ipc_Boot Ipc_Port_Boot Ipc_Message_Boot Vm_Boot
begin

text \<open>
  A verification development for two cores of the Mach 3 kernel, inter-process communication (the
  directory \<open>src/mach_kernel.mach3/kernel/ipc/\<close>) and memory (\<open>src/mach_kernel.mach3/kernel/vm/\<close>; file
  names below are relative to \<open>ipc/\<close> or written \<open>vm/...\<close>), in the configuration the repository builds:
  \<open>MACH_IPC_COMPAT\<close> on, one processor, no NORMA, no \<open>MACH_PAGEMAP\<close>, assertions compiled out.

  \<^bold>\<open>The program.\<close>  A task names kernel objects by 32-bit port names.  A name has an index (24 bits) and
  a generation (8 bits).  A capability space (\<open>ipc_space\<close>) maps names to entries: a table indexed by the
  index, and a splay tree for the names that collide or lie beyond the table.  An entry holds the type
  of its right, a count of user references, the object, and an index of a dead-name request.  Two
  reverse tables find the name of a send right from its port: one threaded through the entry table
  (\<open>ipc_hash.c\<close>, local), one chained table for all tree entries of all spaces (global).  Ports count
  their send rights, send-once rights and references, keep a table of dead-name requests, and have a
  queue of messages and of waiting threads, alone or through a port set.
  Memory is made of objects; an object lists its resident pages, and shows through its shadow what it
  has no page for.  A hash table finds the page of an object at an offset; pages are free, active,
  inactive or wired, and the queues and counts say which.

  \<^bold>\<open>Theories, in the order they build on each other.\<close>
  \<^item> \<open>Mach_Prelude\<close>: lemma collections and facts on lists, words and options.
  \<^item> \<open>Ipc_Names\<close>: names and entry bits (\<open>mach/port.h\<close>, \<open>port.h\<close>, \<open>ipc_entry.h\<close>), with the guards of the
    16-bit counts of user references.
  \<^item> \<open>Ipc_Splay\<close>, \<open>Ipc_Name_Tree\<close>: \<open>ipc_splay.c\<close>, the tree in the unassembled form the code keeps; every
    operation against a sorted list; the locale \<open>name_tree\<close> is what the rest needs of it.
  \<^item> \<open>Ipc_Space\<close>, \<open>Ipc_Space_Init\<close>: the structures and the set-up of a space (\<open>ipc_space.c\<close>).
  \<^item> \<open>Ipc_Hash\<close>, \<open>Ipc_Hash_Global\<close>: the two reverse tables (\<open>ipc_hash.c\<close>).
  \<^item> \<open>Ipc_Table\<close>: the arrays of table sizes (\<open>ipc_table.c\<close>, pages of 8192 bytes), computed by the code's
    loops; the locale \<open>table_sizes\<close> collects what growing relies on.
  \<^item> \<open>Ipc_Entry\<close>: every function of \<open>ipc_entry.c\<close>.  Where the code unlocks the space (to allocate memory,
    to wait for another thread that grows the table) the model calls an environment, a function on the
    state, at a named window.  Its proofs are in \<open>Ipc_Entry_Inv\<close> (the invariant \<open>space_inv s g P\<close>
    and the abstraction \<open>space_map s P\<close> from names to capabilities; \<open>P\<close> are the names in flight, whose
    entry an operation holds but has not filled or freed yet) and the theories \<open>Ipc_Entry_*\<close>, one for
    each operation or group of update lemmas.
  \<^item> \<open>Ipc_Queue\<close>: the circular doubly linked queues of messages and threads (\<open>ipc_kmsg.c\<close>,
    \<open>ipc_thread.c\<close>), on an explicit store of links; the locale \<open>fifo\<close> and its two interpretations.
  \<^item> \<open>Ipc_Mqueue\<close>: message queues as lists (\<open>ipc_mqueue.c\<close>), \<open>Ipc_Pset\<close>: port sets (\<open>ipc_pset.c\<close>).
  \<^item> \<open>Ipc_Marequest_Table\<close>: the table of msg-accepted requests (\<open>ipc_marequest.c\<close>).
  \<^item> \<open>Ipc_Kernel\<close>: ports, port sets and the state of the kernel; objects are named by address in
    a store, and an operation that follows a dangling pointer has no result.  Operations work on one
    space, \<open>k_space\<close>; the others are in \<open>k_spaces\<close>.
  \<^item> \<open>Ipc_Space_Entries\<close>: the operations of a space as steps of the kernel, and \<open>in_space\<close>, which does
    one of them in another space: a port that dies deletes the compatibility entries of every space
    that asked.
  \<^item> \<open>Ipc_Dnrequest\<close>, \<open>Ipc_Port\<close>, \<open>Ipc_Port_Facts\<close>: \<open>ipc_port.c\<close>; the destruction of a port, from its
    backup to its last reference, with the deletion of compatibility entries.  \<open>Ipc_Port_Compat\<close> proves
    what such a deletion does to the counts of all ports; it comes after the theories of rights.
  \<^item> \<open>Ipc_Right\<close>, \<open>Ipc_Right_Copy\<close>: \<open>ipc_right.c\<close>.  Proofs: \<open>Ipc_Right_Inv\<close> (updates of an entry through
    its reference), \<open>Ipc_Right_Account\<close> (the invariant \<open>rights_inv\<close>: every entry has a legal right, and
    the counts of every port agree with who holds what, in the space or outside of it),
    \<open>Ipc_Right_Check\<close>, \<open>Ipc_Right_Drop\<close>, \<open>Ipc_Right_Dealloc\<close>.
  \<^item> \<open>Ipc_Object\<close>, \<open>Ipc_Object_Copy\<close>: \<open>ipc_object.c\<close>: names translated, objects made, rights copied in and
    out for a whole space, with the loops that grow the table.
  \<^item> \<open>Ipc_Kmsg_Copyin\<close>, \<open>Ipc_Kmsg_Copyout\<close>: the header of a message on its way in and out
    (\<open>ipc_kmsg.c\<close>), shortcuts and general case; \<open>Ipc_Kmsg_Fast\<close>, \<open>Ipc_Kmsg_Fast_Copyout\<close>: they agree,
    but for messages that are copied out into a dead space.
  \<^item> \<open>Ipc_Marequest\<close>: msg-accepted requests made and answered (\<open>ipc_marequest.c\<close>).
  \<^item> \<open>Ipc_Mqueue_Ops\<close>: \<open>ipc_mqueue_send\<close>, \<open>ipc_mqueue_copyin\<close> and \<open>ipc_mqueue_receive\<close>, cut where a thread
    blocks.  \<open>Ipc_Message_System\<close> makes a transition system of them, with threads that block, are woken,
    time out or are interrupted, messages of every kind, circular ones included, limits that change, and
    ports that move between sets; no port dies in a run, and no count of messages wraps (the code asserts
    that it does not).  Histories of what each port accepted (\<open>ms_sent\<close>), what was received
    (\<open>ms_received\<close>) and the circular messages destroyed by senders that were woken for them (\<open>ms_lost\<close>)
    are added to its states; the theory states the invariant.  \<open>Ipc_Message_Flow\<close> says how operations move
    the messages of a port, \<open>Ipc_Message_Receive\<close> proves the invariant, \<open>Ipc_Message_Boot\<close> has concrete
    runs.
  \<^item> \<open>Ipc_Boot\<close>, \<open>Ipc_Port_Boot\<close>: concrete kernels to which the theorems below are applied.
  \<^item> \<open>Vm_Page\<close>: resident pages, their table and their queues (\<open>vm/vm_resident.c\<close>, \<open>vm/vm_page.h\<close>); the
    queues and chains are lists of the addresses of pages.  \<open>Vm_Page_Facts\<close>, \<open>Vm_Page_Table\<close>: the
    invariant \<open>pages_inv\<close> and what every operation does to \<open>place\<close>, the object and offset of each page.
    \<open>Vm_Page_System\<close>: the states reachable from boot.
  \<^item> \<open>Vm_Object\<close>: memory objects and their chains of shadows (\<open>vm/vm_object.c\<close>).  \<open>Vm_Object_Chain\<close> says
    what an object shows (\<open>reads\<close>: the frame of a page, the pager's data, or zeros) and states the
    invariant \<open>chains_inv\<close>; \<open>Vm_Object_Collapse\<close> and \<open>Vm_Object_Remove\<close> prove that collapsing and
    extending objects keep it.  \<open>Vm_Boot\<close>: a concrete memory.

  \<^bold>\<open>Conventions.\<close>  Addresses and machine integers are 32-bit words that wrap; the counts of references and
  of pages of a memory object are 16-bit words, which the code reads as signed shorts (\<open>sint\<close>, \<open>scast\<close>).
  Kernel return codes are a datatype; an operation that may fail returns a sum or a pair with the code.  \<open>None\<close> at the outer
  level of an operation means that the code would follow a bad pointer or not return; theorems state
  \<open>Some\<close>.  \<open>ith_msize\<close> and \<open>ith_kmsg\<close> are a union in the code and two fields here.  Effects on components
  that are not part of the state (notifications, threads made runnable, messages and kernel objects
  destroyed) are a log of events, in the order of the calls.

  \<^bold>\<open>Bounds.\<close>  A size of the table is an index below 128 into the array of sizes, and each round of the
  loop that grows the table either grows it or stops, so 128 rounds (\<open>grow_rounds\<close>) are enough from any
  table; the theorems assume that the rounds given exceed what the table still can grow.  Other loops
  are structural or have termination proofs.  A reply of the kernel's own server that goes to a port of
  the kernel is served again; \<open>rounds\<close> of \<open>ipc_mqueue_send\<close> bounds the chain, which the code does not.
  The loop that empties a backing object takes one page away in every turn, so one turn more than it has
  pages is enough; the loop of \<open>vm_object_collapse\<close> is not bounded in the model, and is proved to end.

  \<^bold>\<open>Not modelled.\<close>  The allocator (an answer whether memory was given), locks beyond the windows
  where they are dropped, the scheduler (a thread made runnable is an event, and runs when the
  transition system lets it), the server of the kernel's own ports (a parameter), bodies of messages,
  \<open>ipc_notify.c\<close> beyond which notification is sent when, the trap layer, NORMA, the debugger; of memory, address maps,
  page faults, pageout, copying of objects and the conversation with memory managers (data that a manager
  holds is a parameter of \<open>reads\<close>); the kernel outside of \<open>ipc/\<close> and \<open>vm/\<close>: scheduling and devices; the
  servers and user programs of the repository.
\<close>

section \<open>The space as a map from names to capabilities\<close>

text \<open>
  C1: looking a name up in a space whose invariant holds finds its entry exactly when the name
  denotes a capability, the entry found carries that capability, and neither the map nor the
  invariant changes (the lookup splays the tree).
\<close>

theorem space_lookup_finds:
  assumes "space_inv s g P" and "n \<notin> P" and "ipc_entry_lookup n s = (found, s')"
  shows "space_inv s' g P \<and> space_map s' P = space_map s P \<and>
    (case found of
       None \<Rightarrow> space_map s P n = None
     | Some entry \<Rightarrow> \<exists>e. entry_at entry s' = Some e \<and> space_map s P n = Some (view e))"
proof -
  from ipc_entry_lookup_spec [OF assms(1,2)] assms(3) have ok: "lookup_ok s P n found s'" by simp
  then have r: "reshaped s s'" by (simp add: lookup_ok_def)
  from ok reshaped_inv [OF r assms(1)] reshaped_map [OF r] show ?thesis
    by (auto simp: lookup_ok_def split: option.splits)
qed

theorem space_lookup_finds_witness:
  "space_inv (snd (ipc_entry_lookup 0x100 boot_space)) boot_hash {}"
  using space_lookup_finds [OF boot_space_inv, of "0x100"] by (simp add: prod_eq_iff)

text \<open>
  C2: with nobody else running, \<open>ipc_entry_alloc\<close> always returns.  Either it hands out the entry of
  a valid name that denoted nothing, and adds exactly that name, without a right yet, to the map;
  or it fails, leaving the map alone: with \<open>KERN_NO_SPACE\<close> only when the table has its largest size
  and no entry is free, with \<open>KERN_RESOURCE_SHORTAGE\<close> only when the allocator refused memory.
\<close>

theorem entry_alloc_adds_name:
  assumes "space_inv s g {}" and "is_active s" and "\<not> is_growing s" and "127 < is_table_next s + rounds"
  shows "\<exists>res s' g'. ipc_entry_alloc rounds quiet avail (s, g) = Some (res, (s', g')) \<and>
    (case res of
       Inl kr \<Rightarrow> space_inv s' g' {} \<and> space_map s' {} = space_map s {} \<and>
         (kr = KERN_NO_SPACE \<and> is_table_next s' = 127 \<and> free_ok (is_table s') {} [] \<or>
          kr = KERN_RESOURCE_SHORTAGE \<and> (\<exists>its. \<not> avail its))
     | Inr (n, entry) \<Rightarrow> MACH_PORT_VALID n \<and> entry = TableEntry (idx n) \<and> space_map s {} n = None \<and>
         space_inv s' g' {n} \<and> space_map s' {n} = (space_map s {})(n \<mapsto> empty_cap))"
  using ipc_entry_alloc_quiet [OF assms, of avail] by blast

theorem entry_alloc_adds_name_witness:
  "\<exists>res st. ipc_entry_alloc 127 quiet (\<lambda>_. True) (boot_space, boot_hash) = Some (res, st)"
  using entry_alloc_adds_name [OF boot_space_inv, of 127 "\<lambda>_. True"] by auto

text \<open>
  C3: deallocating the entry of a name in flight, whose object was cleared, removes exactly that
  name from the map; entries of the tree that collided with it move to the table and keep their
  capabilities.
\<close>

theorem entry_dealloc_removes_name:
  assumes "space_inv s g P" and "n \<in> P" and "\<forall>m\<in>P. idx m = idx n \<longrightarrow> m = n"
    and "entry = (if n \<in> dom (splay_map (is_tree s)) then TreeEntry n else TableEntry (idx n))"
    and "\<forall>e. entry_at entry s = Some e \<longrightarrow> ie_object e = IO_NULL"
  shows "\<exists>s' g'. ipc_entry_dealloc n entry (s, g) = Some (s', g') \<and>
    space_inv s' g' (P - {n}) \<and> space_map s' (P - {n}) = (space_map s P)(n := None)"
  using ipc_entry_dealloc_spec [OF assms] by metis

theorem entry_dealloc_removes_name_witness:
  "\<exists>s g. ipc_entry_dealloc 0x100 (TableEntry (idx 0x100)) (boot_space1, boot_hash) = Some (s, g) \<and>
     space_map s {} 0x100 = None"
  using entry_dealloc_removes_name [OF boot_space1_inv, of "0x100" "TableEntry (idx 0x100)"]
  by (auto simp: zero_entry_def)

text \<open>
  C4: growing the table, with nobody else running, always returns, keeps the map of names and the
  invariant; it succeeds only with a larger table, and refuses only when the table has its largest
  size or memory was refused.
\<close>

theorem grow_table_keeps_map:
  assumes "space_inv s g {}" and "is_active s" and "\<not> is_growing s" and "127 < is_table_next s + rounds"
  shows "\<exists>kr s' g'. ipc_entry_grow_table rounds quiet avail (s, g) = Some (kr, (s', g')) \<and>
    space_inv s' g' {} \<and> space_map s' {} = space_map s {} \<and> \<not> is_growing s' \<and>
    (kr = KERN_SUCCESS \<and> is_table_next s < is_table_next s' \<or>
     kr = KERN_NO_SPACE \<and> is_table_next s' = 127 \<or>
     kr = KERN_RESOURCE_SHORTAGE \<and> (\<exists>its. \<not> avail its))"
  using ipc_entry_grow_table_quiet [OF assms, of avail] by blast

theorem grow_table_keeps_map_witness:
  "\<exists>kr st. ipc_entry_grow_table 127 quiet (\<lambda>_. True) (boot_space, boot_hash) = Some (kr, st)"
  using grow_table_keeps_map [OF boot_space_inv, of 127 "\<lambda>_. True"] by auto

text \<open>
  C5: whatever other threads do while the space is unlocked, as long as they keep its invariant and
  respect the growing flag, the loop that grows the table returns, and leaves a space that is still
  alive with its invariant.
\<close>

theorem grow_table_any_environment:
  assumes "ipc_env_ok env" and "space_inv s g {}" and "127 < is_table_next s + rounds"
  shows "\<exists>kr s' g'. ipc_entry_grow_table rounds env avail (s, g) = Some (kr, (s', g')) \<and>
    kr \<in> {KERN_SUCCESS, KERN_NO_SPACE, KERN_RESOURCE_SHORTAGE} \<and> (is_active s' \<longrightarrow> space_inv s' g' {})"
  by (rule ipc_entry_grow_table_inv [OF assms])

theorem grow_table_any_environment_witness:
  "\<exists>kr st. ipc_entry_grow_table 127 quiet (\<lambda>_. False) (boot_space, boot_hash) = Some (kr, st)"
  using grow_table_any_environment [OF quiet_ok boot_space_inv, of 127 "\<lambda>_. False"] by auto

text \<open>
  A new space is well formed and denotes no name, whatever the initial size of its table.
\<close>

theorem new_space_is_empty:
  assumes "initial < 127" and "gh_inv g" and "gh_of a g = {}"
  shows "space_inv (ipc_space_init a initial) g {} \<and> space_map (ipc_space_init a initial) {} = Map.empty"
  using ipc_space_init_inv [OF assms] by blast

theorem new_space_is_empty_witness: "space_map (ipc_space_init 0x2000 3) {} = Map.empty"
  using new_space_is_empty [OF _ boot_hash_inv, of 3 "0x2000"] by simp

section \<open>Rights\<close>

text \<open>
  C6: deallocating a right refines an operation on the map of names: the reply and the new capability
  of the name are those of \<open>dealloc_result\<close>, no other name changes, and every count (send rights,
  send-once rights, references, receive rights of every port) agrees afterwards with who holds what.
  A send-once right of a live port leaves the space: it goes with the notification.
\<close>

theorem right_dealloc_refines:
  assumes "rights_inv P x k" and "caps k P n = Some (c, obj, r)" and "n \<notin> P" and "\<forall>m\<in>P. idx m \<noteq> idx n"
  shows "\<exists>kr k'. ipc_right_dealloc n (ref_of (k_space k) n) k = Some (kr, k') \<and>
    (kr, caps k' P) = (fst (dealloc_result (port_alive k obj) (c, obj, r)),
      (caps k P)(n := snd (dealloc_result (port_alive k obj) (c, obj, r)))) \<and>
    rights_inv P (if IE_BITS_TYPE c = MACH_PORT_TYPE_SEND_ONCE \<and> port_alive k obj then give_sonce obj x else x) k'"
  by (rule right_dealloc_spec [OF assms])

theorem right_dealloc_refines_witness:
  "\<exists>k'. ipc_right_dealloc 0x100 (ref_of (k_space send_kernel) 0x100) send_kernel = Some (KERN_SUCCESS, k') \<and>
     caps k' {} = Map.empty \<and> rights_inv {} receiver_outside k'"
  using right_dealloc_refines [OF send_kernel_inv, of "0x100" "0x10001" "0x3000" 0] send_kernel_points(2)
  by (auto simp: dealloc_result_def port_alive_def send_kernel_sel uref_less_def type_consts IE_BITS_TYPE_def
      IE_BITS_UREFS_def mask_defs)

text \<open>
  C7: checking a right to a dead port turns the entry into a dead name, with one more user reference
  when a dead-name request was registered, or frees it when it is a compatibility entry; the port
  loses the reference the entry held, and all counts still agree.
\<close>

theorem right_check_makes_dead_name:
  assumes "rights_inv P x k" and "points (k_space k) (k_hash k) P n entry b obj r" and "n \<notin> P"
    and "b AND MACH_PORT_TYPE_PORT_RIGHTS \<noteq> 0" and "k_ports k obj = Some p" and "\<not> ip_active p"
    and "\<forall>m\<in>P. idx m \<noteq> idx n"
  shows "\<exists>k'. ipc_right_check obj n entry k = Some (True, k') \<and> rights_inv P x k' \<and>
    caps k' P = (caps k P)(n := dead_cap b r) \<and> k_ports k' = (k_ports k)(obj := released p)"
  by (rule right_check_dead [OF assms]) blast

theorem right_check_makes_dead_name_witness:
  "\<exists>k'. ipc_right_check 0x3000 0x100 (TableEntry 1) doomed_kernel = Some (True, k') \<and>
     caps k' {} = [0x100 \<mapsto> (0x100001, IO_NULL, 0)]"
  using right_check_makes_dead_name [OF doomed_kernel_inv doomed_kernel_points(1), of doomed_port] doomed_kernel_points(2)
  by (auto simp: doomed_kernel_ports dead_cap_def dead_bits_def mask_defs type_consts)

section \<open>Threads that send and receive\<close>

text \<open>
  C8: whatever threads send, receive, block, time out, are interrupted or move ports between sets, and
  whatever the limits of the queues are changed to: the messages that wait for a port are the last
  ones it accepted, in order; each of the others was received exactly once, or is in the hands of
  exactly one thread that was woken with it, with the sequence number of its position (messages lose
  their msg-accepted request); and the count of the port is the number of messages not received yet.
\<close>

theorem messages_arrive_once_in_order:
  assumes "(msg_step others)\<^sup>*\<^sup>* (start k) s" and "psets_ok others k" and "quiet_kernel k"
    and "k_ports (ms_kernel s) a = Some p"
  shows "\<exists>n\<le>length (ms_sent s a). queued (ms_kernel s) a = drop n (ms_sent s a) \<and>
      mset (ms_received s a) + mset (map (map_prod without_request id) (handed (k_events (ms_kernel s)) a)) =
        mset (numbered (seqno_at k a) (take n (map without_request (ms_sent s a)))) \<and>
      ip_seqno p = seqno_at k a + of_nat n \<and>
      length (ms_received s a) \<le> n \<and> unat (ip_msgcount p) = length (ms_sent s a) - length (ms_received s a)"
proof -
  note ord = sys_invD(6) [OF reachable_inv [OF assms(1-3)] assms(4)]
  then obtain n where "n \<le> length (ms_sent s a)" "queued (ms_kernel s) a = drop n (ms_sent s a)"
      "mset (ms_received s a) + mset (map (map_prod without_request id) (handed (k_events (ms_kernel s)) a)) =
        mset (numbered (seqno_at k a) (take n (map without_request (ms_sent s a))))"
      "ip_seqno p = seqno_at k a + of_nat n" "unat (ip_msgcount p) = length (ms_sent s a) - length (ms_received s a)"
    unfolding in_order_def by blast
  moreover from this in_order_length [OF ord] have "length (ms_received s a) \<le> n" by simp
  ultimately show ?thesis by blast
qed

theorem messages_arrive_once_in_order_witness:
  "ms_received after_receive 0x3000 = [(some_kmsg, 0)] \<and> ms_sent after_receive 0x3000 = [some_kmsg] \<and>
   queued (ms_kernel after_receive) 0x3000 = []"
proof -
  have p: "k_ports (ms_kernel after_receive) 0x3000 = Some (send_port\<lparr>ip_seqno := 1\<rparr>)"
    by (simp add: after_receive_def receive_done_def received_kernel_def)
  from messages_arrive_once_in_order [OF after_receive_run queue_kernel_ok queue_kernel_quiet p]
  show ?thesis using after_receive_lists by auto
qed

text \<open>
  C9: the wake-ups that are lost are accounted for, in every run of the transition system, circular
  messages included: when senders are blocked on a port although its queue has room, then for every free place a sender was
  woken that has not run yet, or was woken for a circular message and destroyed it instead of using the
  place (\<open>ms_lost\<close>; C11 shows that this strands a sender).  So no wake-up is lost while no woken sender
  has a circular message.  Every blocked thread is in its queue once, and has not been woken.
\<close>

theorem no_wakeup_is_lost:
  assumes "(msg_step others)\<^sup>*\<^sup>* (start k) s" and "psets_ok others k" and "quiet_kernel k"
    and "k_ports (ms_kernel s) a = Some p" and "ip_blocked p \<noteq> []"
  shows "unat (ip_qlimit p) \<le> unat (ip_msgcount p) +
      length (woken_senders (ms_senders s) (k_events (ms_kernel s)) a) + length (ms_lost s a) \<and>
    (\<forall>m\<in>set (ms_lost s a). msgh_remote_port m = a \<and> msgh_bits m AND MACH_MSGH_BITS_CIRCULAR \<noteq> 0) \<and>
    distinct (map ith_addr (ip_blocked p) @ woken_senders (ms_senders s) (k_events (ms_kernel s)) a)"
  using sys_invD(5) [OF reachable_inv [OF assms(1-3)] assms(4)] assms(5) lost_circular [OF assms(1)]
  by (simp add: senders_wait_def)

theorem no_wakeup_is_lost_witness:
  "\<exists>p. k_ports (ms_kernel after_block) 0x3000 = Some p \<and> ip_blocked p \<noteq> [] \<and> distinct (map ith_addr (ip_blocked p))"
proof -
  let ?p = "send_port\<lparr>ip_qlimit := 0, ip_blocked := [(calling 0xb000)\<lparr>ith_state := MACH_SEND_IN_PROGRESS\<rparr>]\<rparr>"
  have p: "k_ports (ms_kernel after_block) 0x3000 = Some ?p" by (simp add: after_block_def send_done_def)
  from no_wakeup_is_lost [OF after_block_run queue_kernel_ok queue_kernel_quiet p] p show ?thesis by simp
qed

text \<open>
  C10: a thread waits for a message only while there is none: in no queue of a port or a set are
  messages and waiting threads together.
\<close>

theorem receivers_wait_for_nothing_else:
  assumes "(msg_step others)\<^sup>*\<^sup>* (start k) s" and "psets_ok others k" and "quiet_kernel k"
    and "get_queue mq (ms_kernel s) = Some q"
  shows "imq_messages q = [] \<or> imq_threads q = []"
  using queue_mqueue_ok [OF sys_invD(1) [OF reachable_inv [OF assms(1-3)]] assms(4)] by (simp add: mqueue_ok_def)

theorem receivers_wait_for_nothing_else_witness:
  "get_queue (Pset_Queue 0x7000) (ms_kernel after_receive) = Some ipc_mqueue_init \<and>
   (imq_messages ipc_mqueue_init = [] \<or> imq_threads ipc_mqueue_init = [])"
proof -
  have q: "get_queue (Pset_Queue 0x7000) (ms_kernel after_receive) = Some ipc_mqueue_init"
    by (simp add: after_receive_def receive_done_def received_kernel_def some_pset_def)
  from receivers_wait_for_nothing_else [OF after_receive_run queue_kernel_ok queue_kernel_quiet q] q show ?thesis by simp
qed

text \<open>
  C11: with messages that have \<open>MACH_MSGH_BITS_CIRCULAR\<close> wake-ups are lost: a receiver that frees a place
  wakes the first blocked sender only; if the message of that sender turns out to be circular it is
  destroyed, and the sender returns without waking the next one, which stays blocked although the queue
  has room and no event is left that would wake it.
\<close>

theorem circular_message_strands_sender:
  assumes "k_ports k a = Some p" and "ip_active p" and "ip_blocked p = s1 # s2 # rest"
    and "ip_msgcount p = ip_qlimit p" and "0 < ip_qlimit p"
    and "msgh_remote_port m = a" and "ikm_marequest m = 0"
    and "msgh_remote_port m' = a" and "msgh_bits m' AND MACH_MSGH_BITS_CIRCULAR \<noteq> 0"
  shows "\<exists>k1 k2 p2. receive_finish m seqno k = Some (Received m seqno, k1) \<and>
    k_events k1 = k_events k @ [Thread_Go (s1\<lparr>ith_state := MACH_MSG_SUCCESS\<rparr>)] \<and>
    send_resume (s1\<lparr>ith_state := MACH_MSG_SUCCESS\<rparr>) THREAD_AWAKENED m' option timeout k1 =
      Some (Send_Return MACH_MSG_SUCCESS, k2) \<and>
    k_events k2 = k_events k1 @ [Kmsg_Destroy m'] \<and> k_ports k2 a = Some p2 \<and>
    ip_blocked p2 = s2 # rest \<and> ip_msgcount p2 < ip_qlimit p2"
proof -
  let ?s = "s1\<lparr>ith_state := MACH_MSG_SUCCESS\<rparr>"
  let ?p = "p\<lparr>ip_msgcount := ip_msgcount p - 1, ip_blocked := s2 # rest\<rparr>"
  let ?k = "wake [?s] (put_port a ?p k)"
  have less: "ip_qlimit p - 1 < ip_qlimit p" using assms(5) by (rule pred_less)
  have "m\<lparr>ikm_marequest := 0\<rparr> = m" using assms(7) by (cases m) simp
  then have fin: "receive_finish m seqno k = Some (Received m seqno, ?k)"
    using assms less by (simp add: receive_finish_def Let_def)
  have "send_resume ?s THREAD_AWAKENED m' option timeout ?k = Some (Send_Return MACH_MSG_SUCCESS, post (Kmsg_Destroy m') ?k)"
    using assms less by (simp add: send_resume_def send_round_def send_room_def Let_def)
  with fin less assms(4) show ?thesis by (intro exI [of _ ?k] exI [of _ "post (Kmsg_Destroy m') ?k"] exI [of _ ?p]) simp
qed

theorem circular_message_strands_sender_witness:
  "\<exists>k1. receive_finish some_kmsg 0 stranded_kernel = Some (Received some_kmsg 0, k1)"
  using circular_message_strands_sender [of stranded_kernel "0x3000" stranded_port "calling 0xb000" "calling 0xc000" "[]"
    some_kmsg "some_kmsg\<lparr>msgh_bits := MACH_MSGH_BITS_CIRCULAR\<rparr>" 0 0 0]
  by (auto simp: stranded_kernel_def stranded_port_def MACH_MSGH_BITS_CIRCULAR_def)

section \<open>Headers of messages\<close>

text \<open>
  C12: the three hand-written shortcuts at the start of \<open>ipc_kmsg_copyin_header\<close> do exactly what the
  general case after them would do, on every message and every kernel that satisfies the invariant,
  whether a shortcut is taken or not; the bound on the references keeps their 32-bit count from
  wrapping while the general case holds one more.
\<close>

theorem copyin_shortcuts_agree:
  assumes "rights_inv {} x k" and "\<forall>a p. k_ports k a = Some p \<longrightarrow> ip_references p < 2 ^ 31"
  shows "ipc_kmsg_copyin_header lock_try msg MACH_PORT_NULL k =
    copyin_general (msgh_bits msg AND NOT MACH_MSGH_BITS_CIRCULAR) msg MACH_PORT_NULL k"
  by (rule copyin_header_general [OF assms])

theorem copyin_shortcuts_agree_witness:
  "ipc_kmsg_copyin_header True (some_kmsg\<lparr>msgh_bits := 19, msgh_remote_port := 0x100\<rparr>) MACH_PORT_NULL send_kernel =
    copyin_general (19 AND NOT MACH_MSGH_BITS_CIRCULAR) (some_kmsg\<lparr>msgh_bits := 19, msgh_remote_port := 0x100\<rparr>)
      MACH_PORT_NULL send_kernel"
  using copyin_shortcuts_agree [OF send_kernel_inv, of True "some_kmsg\<lparr>msgh_bits := 19, msgh_remote_port := 0x100\<rparr>"]
  by (simp add: send_kernel_sel send_port_sel)

text \<open>
  C13: the same for the shortcuts of \<open>ipc_kmsg_copyout_header\<close> in a space that is alive, the message holding
  the references of its header: what the receiver gets, the rights used up and the notifications are
  those of the general case.
\<close>

theorem copyout_shortcuts_agree:
  assumes "rights_inv {} x k" and "header_holds msg x" and "is_active (k_space k)"
  shows "ipc_kmsg_copyout_header lock_try (Suc rounds) env other avail alloc msg MACH_PORT_NULL k =
    copyout_general (Suc rounds) env other avail alloc msg MACH_PORT_NULL k"
  by (rule copyout_header_general [OF assms])

theorem copyout_shortcuts_agree_witness:
  "ipc_kmsg_copyout_header True (Suc 0) quiet (\<lambda>k. k) (\<lambda>_. True) (\<lambda>_. None) (some_kmsg\<lparr>msgh_bits := 17\<rparr>) MACH_PORT_NULL send_kernel =
    copyout_general (Suc 0) quiet (\<lambda>k. k) (\<lambda>_. True) (\<lambda>_. None) (some_kmsg\<lparr>msgh_bits := 17\<rparr>) MACH_PORT_NULL send_kernel"
proof (rule copyout_shortcuts_agree [OF send_kernel_inv])
  show "header_holds (some_kmsg\<lparr>msgh_bits := 17\<rparr>) receiver_outside"
    by (simp add: header_holds_def some_kmsg_def receiver_outside_def no_outside_def IO_VALID_def IO_NULL_def MACH_PORT_NULL_def)
  show "is_active (k_space send_kernel)" by (simp add: send_kernel_sel)
qed



section \<open>Ports\<close>

text \<open>
  C15: sending the receive right of a port in limbo to a destination finds a circle exactly when the
  destination is in transit, through any number of ports, to the port itself.  Otherwise the port goes
  in transit to the destination, which gains a reference, and no circle of ports in transit exists
  afterwards.  This holds whether or not the fast path gets its locks.
\<close>

theorem circularity_is_detected:
  assumes "transit_ok (k_ports k)" and "k_ports k port = Some p" and "limbo p"
    and "k_ports k dest = Some d" and "dest \<noteq> IP_NULL"
  shows "\<exists>circular k'. ipc_port_check_circularity lock_try port dest k = Some (circular, k') \<and>
    (circular \<longleftrightarrow> (dest, port) \<in> (transit (k_ports k))\<^sup>*) \<and>
    (if circular then k' = k
     else k' = put_port port (p\<lparr>ip_data := dest\<rparr>) (put_port dest (ip_reference d) k) \<and>
       transit (k_ports k') = insert (port, dest) (transit (k_ports k)) \<and> transit_ok (k_ports k'))"
  by (rule check_circularity_spec [OF assms])

text \<open>A port sent to itself.\<close>

theorem circularity_is_detected_witness:
  "ipc_port_check_circularity True 0x6000 0x6000 limbo_kernel = Some (True, limbo_kernel)"
  using circularity_is_detected [OF limbo_transit_ok, of "0x6000" limbo_port "0x6000" limbo_port True]
  by (auto simp: limbo_kernel_def IO_NULL_def)

text \<open>
  C16: destroying a port that has no backup and no requests of compatibility entries makes it dead and
  does, in this order: blocked senders wake up, the no-senders request is answered, the queued messages
  are destroyed with their reference to the port, every registered dead-name request is answered in the
  order of the table, a kernel object is destroyed.  The time stamp advances by one; the memory is freed
  exactly when no reference is left.  What compatibility entries and a backup add is stated next.
\<close>

theorem port_destroy_notifies:
  assumes "k_ports k port = Some p" and "requests_ok p"
    and "length (imq_messages (ip_messages p)) < unat (ip_references p)"
    and "ip_pdrequest p = IP_NULL" and "\<forall>(name, soright)\<in>set (port_requests p). \<not> ipr_spacep soright"
  shows "\<exists>k'. ipc_port_destroy lock_try port k = Some k' \<and>
    k_events k' = k_events k
      @ map (\<lambda>th. Thread_Go (th\<lparr>ith_state := MACH_MSG_SUCCESS\<rparr>)) (ip_blocked p)
      @ (if ip_nsrequest p \<noteq> IP_NULL then [Notify_Send_Once (ip_nsrequest p)] else [])
      @ map (\<lambda>m. Kmsg_Destroy (m\<lparr>msgh_remote_port := MACH_PORT_NULL\<rparr>)) (imq_messages (ip_messages p))
      @ map (\<lambda>(name, soright). Notify_Dead_Name soright name) (port_requests p)
      @ (if ip_kotype p \<noteq> IKOT_NONE then [Kobject_Destroy port] else []) \<and>
    (\<forall>a. a \<noteq> port \<longrightarrow> k_ports k' a = k_ports k a) \<and>
    (case k_ports k' port of
       None \<Rightarrow> unat (ip_references p) = length (imq_messages (ip_messages p)) + 1
     | Some p' \<Rightarrow> \<not> ip_active p' \<and> ip_timestamp p' = k_timestamp k \<and> imq_messages (ip_messages p') = [] \<and>
         ip_blocked p' = [] \<and> ip_references p' = ip_references p - of_nat (length (imq_messages (ip_messages p)) + 1)) \<and>
    k_timestamp k' = k_timestamp k + 1 \<and> k_space k' = k_space k \<and> k_spaces k' = k_spaces k \<and> k_hash k' = k_hash k \<and>
    k_psets k' = k_psets k \<and> k_marequests k' = k_marequests k"
proof -
  have "ipc_port_destroy lock_try port k = port_destroy port k" using assms(1,4) by (simp add: ipc_port_destroy_def)
  moreover have "\<forall>r\<in>set (port_requests p). \<not> ipr_spacep (snd r)" using assms(5) by auto
  ultimately show ?thesis using port_destroy_spec [OF assms(1-3)] unfolding request_event_def by simp
qed

theorem port_destroy_notifies_witness:
  "\<exists>k'. ipc_port_destroy True 0x3000 send_kernel = Some k' \<and> k_timestamp k' = k_timestamp send_kernel + 1"
proof -
  have "k_ports send_kernel 0x3000 = Some send_port" "ip_pdrequest send_port = IP_NULL" "port_requests send_port = []"
    using send_port_sel(6) by (simp_all add: send_kernel_sel port_requests_def) (simp add: send_port_def ipc_port_init_def)
  from port_destroy_notifies [OF this(1) send_port_sel(5) _ this(2), of True] this(3) show ?thesis by auto
qed

text \<open>
  C17: the request of a compatibility entry is answered by deleting the entry of the dead port: its name
  goes from the map of the space, the port loses the reference of the entry and the space that of the
  request, and the space is told through a send right for its notify port, when it has a live one.  All
  counts agree with who holds what afterwards, that send right included.
\<close>

theorem delete_compat_removes_entry:
  assumes "rights_inv P x k" and "points (k_space k) (k_hash k) P n entry b obj r" and "n \<notin> P"
    and "\<forall>m\<in>P. idx m \<noteq> idx n" and "b AND IE_BITS_COMPAT \<noteq> 0" and "k_ports k obj = Some p" and "\<not> ip_active p"
    and "is_active (k_space k)"
    and "IP_VALID (is_notify (k_space k)) \<longrightarrow> (\<exists>q. k_ports k (is_notify (k_space k)) = Some q \<and>
      unat (ip_references q) + 1 < 2 ^ 32 \<and> unat (ip_srights q) + 1 < 2 ^ 32)"
  shows "\<exists>k'. ipc_port_delete_compat obj n k = Some k' \<and>
    rights_inv P (case notified k of None \<Rightarrow> x | Some a \<Rightarrow> give_send a x) k' \<and>
    caps k' P = (caps k P)(n := None) \<and> k_ports k' obj = released p \<and>
    k_events k' = k_events k @ (case notified k of None \<Rightarrow> [] | Some a \<Rightarrow> [Notify_Port_Deleted_Compat a n]) \<and>
    is_references (k_space k') = is_references (k_space k) - 1"
  by (rule delete_compat_spec [OF assms])

theorem delete_compat_removes_entry_witness:
  "\<exists>k'. ipc_port_delete_compat 0x3000 0x100 compat_kernel = Some k' \<and> caps k' {} = Map.empty"
proof -
  have b: "(0x410001 :: u32) AND IE_BITS_COMPAT \<noteq> 0" by (simp add: mask_defs)
  from delete_compat_removes_entry [OF compat_kernel_inv compat_kernel_points(1) _ _ b, of doomed_port]
  show ?thesis by (auto simp: compat_kernel_sel compat_kernel_points(2) compat_notify IO_VALID_def)
qed

text \<open>
  C18: a port with a backup is not destroyed: it stays alive, in transit to its backup, which gains a
  reference and gets a port-destroyed notification with the port, and no circle of ports in transit
  arises.  Only when the backup is itself in transit to the port is the right to the backup released
  and the port destroyed.  The backup is a send-once right, or a send right of the old interface, marked
  by the low bit.
\<close>

theorem port_with_backup_is_saved:
  assumes "transit_ok (k_ports k)" and "k_ports k port = Some p" and "ip_active p" and "ip_pdrequest p \<noteq> IP_NULL"
    and "k_ports k (backup p) \<noteq> None" and "backup p \<noteq> IP_NULL"
    and "p0 = p\<lparr>ip_pdrequest := IP_NULL, ip_receiver_name := MACH_PORT_NULL, ip_data := IP_NULL\<rparr>"
    and "k0 = put_port port p0 k"
  shows "if (backup p, port) \<in> (transit (k_ports k0))\<^sup>*
    then ipc_port_destroy lock_try port k = do {
        k \<leftarrow> (if ip_pdsendp (ip_pdrequest p) then ipc_port_release_send (backup p) k0 else ipc_port_release_sonce (backup p) k0);
        port_destroy port k
      }
    else \<exists>d k'. k_ports k (backup p) = Some d \<and> ipc_port_destroy lock_try port k = Some k' \<and>
      k' = post (if ip_pdsendp (ip_pdrequest p) then Notify_Port_Destroyed_Compat (backup p) port
                 else Notify_Port_Destroyed (backup p) port)
             (put_port port (p0\<lparr>ip_data := backup p\<rparr>) (put_port (backup p) (ip_reference d) k)) \<and>
      transit (k_ports k') = insert (port, backup p) (transit (k_ports k0)) \<and> transit_ok (k_ports k')"
  by (rule port_destroy_backup [OF assms])

theorem port_with_backup_is_saved_witness:
  "\<exists>k'. ipc_port_destroy True 0x6000 backup_kernel = Some k' \<and> k_events k' = [Notify_Port_Destroyed 0x3000 0x6000]"
proof -
  let ?p = "send_port\<lparr>ip_pdrequest := 0x3000\<rparr>"
  let ?limbo = "?p\<lparr>ip_pdrequest := IP_NULL, ip_receiver_name := MACH_PORT_NULL, ip_data := IP_NULL\<rparr>"
  have p: "k_ports backup_kernel 0x6000 = Some ?p" "ip_active ?p" "ip_pdrequest ?p \<noteq> IP_NULL"
    using send_port_sel(2) by (simp_all add: backup_kernel_def IO_NULL_def)
  have b: "backup ?p = 0x3000" "\<not> ip_pdsendp (ip_pdrequest ?p)" by (simp_all add: backup_def ip_pdsendp_def)
  have d: "k_ports backup_kernel (backup ?p) \<noteq> None" "backup ?p \<noteq> IP_NULL" unfolding b by (simp_all add: backup_kernel_def IO_NULL_def)
  have "transit (k_ports (put_port 0x6000 ?limbo backup_kernel)) = {}"
    by (auto simp: transit_def backup_kernel_def send_port_def ipc_port_init_def MACH_PORT_NULL_def split: if_splits)
  then have "(backup ?p, 0x6000) \<notin> (transit (k_ports (put_port 0x6000 ?limbo backup_kernel)))\<^sup>*" unfolding b by simp
  with port_with_backup_is_saved [OF backup_transit(1) p d refl refl, of True]
  obtain q k' where "ipc_port_destroy True 0x6000 backup_kernel = Some k'"
      "k' = post (if ip_pdsendp (ip_pdrequest ?p) then Notify_Port_Destroyed_Compat (backup ?p) 0x6000
                 else Notify_Port_Destroyed (backup ?p) 0x6000)
             (put_port 0x6000 (?limbo\<lparr>ip_data := backup ?p\<rparr>) (put_port (backup ?p) (ip_reference q) backup_kernel))"
    by (auto simp only: if_False)
  then show ?thesis using b by (simp add: backup_kernel_def boot_kernel_def)
qed

text \<open>
  C19: making a send-once right of a live port and releasing it again restores the kernel exactly, and
  so does copying a send right and releasing the copy, as long as there was a send right to copy.
\<close>

theorem made_rights_are_released:
  assumes "k_ports k port = Some p" and "ip_active p"
  shows "(\<exists>k'. ipc_port_make_sonce port k = Some (port, k') \<and> ipc_port_release_sonce port k' = Some k) \<and>
    (IP_VALID port \<and> ip_srights p \<noteq> 0 \<longrightarrow>
       (\<exists>k'. ipc_port_copy_send port k = Some (port, k') \<and> ipc_port_release_send port k' = Some k))"
  using make_release_sonce [OF assms] copy_release_send [OF assms] by blast

theorem made_rights_are_released_witness:
  "\<exists>k'. ipc_port_copy_send 0x3000 send_kernel = Some (0x3000, k') \<and> ipc_port_release_send 0x3000 k' = Some send_kernel"
  using made_rights_are_released [of send_kernel "0x3000" send_port]
  by (simp add: send_kernel_sel IO_VALID_def IO_NULL_def IO_DEAD_def)

text \<open>
  C20: releasing a send right takes one send right and one reference; exactly when it was the last
  send right and a no-senders notification was requested, the notification is sent once, with the
  make-send count, and the request is consumed.
\<close>

theorem last_send_right_notifies:
  assumes "k_ports k port = Some p" and "ip_active p"
  shows "\<exists>k' p'. ipc_port_release_send port k = Some k' \<and> k_ports k' = (k_ports k)(port \<mapsto> p') \<and>
    ip_srights p' = ip_srights p - 1 \<and> ip_references p' = ip_references p - 1 \<and>
    (if ip_srights p = 1 \<and> ip_nsrequest p \<noteq> IP_NULL
     then ip_nsrequest p' = IP_NULL \<and> k_events k' = k_events k @ [Notify_No_Senders (ip_nsrequest p) (ip_mscount p)]
     else ip_nsrequest p' = ip_nsrequest p \<and> k_events k' = k_events k)"
  by (rule release_send_spec [OF assms])

theorem last_send_right_notifies_witness:
  "\<exists>k'. ipc_port_release_send 0x3000 send_kernel = Some k' \<and> k_events k' = k_events send_kernel"
  using last_send_right_notifies [of send_kernel "0x3000" send_port]
  by (auto simp: send_kernel_sel)

text \<open>
  C21: registering a dead-name request takes a free slot of the port's table and changes no other
  request; it is refused only when every slot is taken.
\<close>

theorem dnrequest_registers:
  assumes "requests_ok p" and "name \<noteq> MACH_PORT_NULL"
  shows "case ipc_port_dnrequest name soright p of
      (Inr i, p') \<Rightarrow> 0 < i \<and> requests p i = None \<and> requests_ok p' \<and>
        requests p' = (requests p)(i \<mapsto> (name, soright)) \<and>
        (\<exists>a t. p' = p\<lparr>ip_dnrequests := Some (a, t)\<rparr> \<and> map_option fst (ip_dnrequests p) = Some a)
    | (Inl kr, p') \<Rightarrow> kr = KERN_NO_SPACE \<and> p' = p \<and>
        (case ip_dnrequests p of None \<Rightarrow> True | Some (_, t) \<Rightarrow> \<forall>i. 0 < i \<and> i < length t \<longrightarrow> requests p i \<noteq> None)"
  by (rule dnrequest_spec [OF assms])

theorem dnrequest_registers_witness:
  "fst (ipc_port_dnrequest 0x200 0x5000 send_port) = Inl KERN_NO_SPACE"
  using dnrequest_registers [of send_port "0x200" "0x5000"]
  by (auto simp: requests_def MACH_PORT_NULL_def split: prod.splits sum.splits)

text \<open>
  C22: growing the table of dead-name requests, with the port unlocked while memory is allocated,
  loses no request and invents none: whatever state \<open>q\<close> other threads leave the port in, its requests
  are kept, and the reference taken for the unlocked time is given back.
\<close>

theorem dngrow_keeps_requests:
  assumes "k_ports k port = Some p" and "requests_ok p"
    and "k_ports (env (put_port port (ip_reference p) k)) port = Some q" and "requests_ok q"
  shows "\<exists>kr k'. ipc_port_dngrow env alloc port k = Some (kr, k') \<and> (kr = KERN_SUCCESS \<or> kr = KERN_RESOURCE_SHORTAGE) \<and>
    (case k_ports k' port of
       None \<Rightarrow> ip_references q = 1
     | Some q' \<Rightarrow> requests_ok q' \<and> requests q' = requests q \<and> ip_references q' = ip_references q - 1)"
  using dngrow_spec [where k = k and env = env and alloc = alloc, OF assms] by (elim exE conjE) (auto split: option.splits)

theorem dngrow_keeps_requests_witness:
  "\<exists>kr k'. ipc_port_dngrow id (\<lambda>_. None) 0x3000 send_kernel = Some (kr, k')"
  using dngrow_keeps_requests [of send_kernel "0x3000" send_port id "ip_reference send_port" "\<lambda>_. None"]
  by (auto simp: send_kernel_sel requests_ok_def ip_reference_def)

section \<open>Messages, waiting threads and port sets\<close>

text \<open>
  C23: the circular queue of messages is first in, first out: enqueueing distinct messages on an empty
  queue and dequeueing until it is empty gives the messages in the order they came.
\<close>

theorem messages_first_in_first_out:
  assumes "ring_list q []" and "set ks \<subseteq> - {0}" and "distinct ks" and "length ks < fuel"
  shows "map_option fst (kmsgs.drain fuel (fold (\<lambda>k q. ipc_kmsg_enqueue q k) ks q)) = Some ks"
  by (rule kmsgs.first_in_first_out [OF assms])

theorem messages_first_in_first_out_witness:
  "map_option fst (kmsgs.drain 3 (fold (\<lambda>k q. ipc_kmsg_enqueue q k) [0x10, 0x20] empty_ring)) = Some [0x10, 0x20]"
  using messages_first_in_first_out [OF empty_ring_list, of "[0x10, 0x20]" 3] by simp

text \<open>
  A message or a thread can be taken out of the middle of its queue: the others stay, in order,
  and both links of every remaining element are right.
\<close>

theorem removal_keeps_the_order:
  assumes "ring_list q (A @ k # B)"
  shows "ring_list (ipc_kmsg_rmqueue q k) (A @ B) \<and>
    (thread_list D q (A @ k # B) \<longrightarrow> thread_list D (ipc_thread_rmqueue q k) (A @ B))"
  using kmsg_rmqueue_list [OF assms] thread_rmqueue_list(1) by blast

theorem removal_keeps_the_order_witness:
  "ring_list (ipc_kmsg_rmqueue (ipc_kmsg_enqueue (ipc_kmsg_enqueue empty_ring 0x10) 0x20) 0x10) [0x20]"
proof -
  have "ring_list (ipc_kmsg_enqueue (ipc_kmsg_enqueue empty_ring 0x10) 0x20) ([] @ 0x10 # [0x20])"
    using kmsg_enqueue_list [OF kmsg_enqueue_list [OF empty_ring_list, of "0x10"], of "0x20"] by simp
  from removal_keeps_the_order [OF this] show ?thesis by simp
qed

text \<open>
  C24: a message sent to a queue is given to the first waiting thread whose buffer has room for it, with
  the sequence number; the threads before it, whose buffers are too small, are woken and told its size.
  If no thread has room they are all told, the message is queued last and nobody waits any more.  No
  message is lost or duplicated, sequence numbers are consecutive, and messages and waiting threads are
  never in the queue together.
\<close>

theorem message_is_delivered_or_queued:
  assumes "mqueue_post kmsg seqno mq = (mq', seqno', woken)" and "mqueue_ok mq"
  shows "mqueue_ok mq' \<and> numbered seqno (map fst (deliveries woken)) = deliveries woken \<and>
    seqno' = seqno + of_nat (length (deliveries woken)) \<and>
    (deliveries woken = [] \<and> imq_threads mq' = [] \<and> imq_messages mq' = imq_messages mq @ [kmsg] \<or>
     map fst (deliveries woken) = [kmsg] \<and> imq_messages mq' = imq_messages mq \<and> imq_messages mq = []) \<and>
    map ith_addr (imq_threads mq) = map ith_addr woken @ map ith_addr (imq_threads mq') \<and>
    (\<exists>small later. imq_threads mq = small @ later \<and> (\<forall>th\<in>set small. ith_msize th < msgh_size kmsg) \<and>
      (case later of
         [] \<Rightarrow> woken = map (\<lambda>th. th\<lparr>ith_state := MACH_RCV_TOO_LARGE, ith_msize := msgh_size kmsg\<rparr>) small \<and>
           mq' = mq\<lparr>imq_threads := [], imq_messages := imq_messages mq @ [kmsg]\<rparr> \<and> seqno' = seqno
       | th # waiting \<Rightarrow> msgh_size kmsg \<le> ith_msize th \<and>
           woken = map (\<lambda>th. th\<lparr>ith_state := MACH_RCV_TOO_LARGE, ith_msize := msgh_size kmsg\<rparr>) small @
             [th\<lparr>ith_state := MACH_MSG_SUCCESS, ith_kmsg := Some kmsg, ith_seqno := seqno\<rparr>] \<and>
           mq' = mq\<lparr>imq_threads := waiting\<rparr> \<and> seqno' = seqno + 1))"
  using mqueue_post_spec [OF assms] mqueue_post_first_with_room [OF assms(1)] by blast

theorem message_is_delivered_or_queued_witness:
  "imq_messages (fst (mqueue_post some_kmsg 7 ipc_mqueue_init)) = [some_kmsg]"
  using message_is_delivered_or_queued [of some_kmsg 7 ipc_mqueue_init] surjective_pairing
  by (auto simp: mqueue_ok_def ipc_mqueue_init_def prod_eq_iff)

text \<open>
  Moving the messages of one port between queues (when it enters or leaves a port set) takes
  exactly the messages of that port from the source, in order; those that waiting threads receive are
  numbered from the port's sequence number, the rest are appended to the destination.
\<close>

theorem mqueue_move_moves_exactly:
  assumes "ipc_mqueue_move dest source port seqno = (dest', source', seqno', woken)" and "mqueue_ok dest"
  shows "imq_messages source' = filter (\<lambda>k. msgh_remote_port k \<noteq> port) (imq_messages source) \<and>
    imq_threads source' = imq_threads source \<and> mqueue_ok dest' \<and>
    (\<exists>queued. imq_messages dest' = imq_messages dest @ queued \<and>
      map fst (deliveries woken) @ queued = filter (\<lambda>k. msgh_remote_port k = port) (imq_messages source)) \<and>
    deliveries woken = numbered seqno (map fst (deliveries woken)) \<and>
    seqno' = seqno + of_nat (length (deliveries woken))"
  using ipc_mqueue_move_spec [OF assms] by metis

theorem mqueue_move_moves_exactly_witness:
  "imq_messages (fst (snd (ipc_mqueue_move ipc_mqueue_init \<lparr>imq_messages = [some_kmsg], imq_threads = []\<rparr> 0x3000 7))) = []"
  using mqueue_move_moves_exactly [of ipc_mqueue_init "\<lparr>imq_messages = [some_kmsg], imq_threads = []\<rparr>" "0x3000" 7]
  by (cases "ipc_mqueue_move ipc_mqueue_init \<lparr>imq_messages = [some_kmsg], imq_threads = []\<rparr> 0x3000 7")
    (auto simp: mqueue_ok_def ipc_mqueue_init_def some_kmsg_def)

text \<open>
  C25: moving a port into a set, out of its set or between sets keeps the invariant of ports and sets
  (reference counts, membership, where messages are), leaves every other port alone, and fails only
  when the port is to leave but is in no active set.
\<close>

theorem pset_move_keeps_invariant:
  assumes "psets_ok others k" and "k_ports k port = Some p"
    and "nset \<noteq> IPS_NULL \<longrightarrow> k_psets k nset \<noteq> None \<and> card (members k nset) + others nset + 1 < 2 ^ 32"
  shows "\<exists>kr k' p'. ipc_pset_move port nset k = Some (kr, k') \<and> psets_ok others k' \<and>
    k_ports k' = (k_ports k)(port \<mapsto> p') \<and> ip_pset p' = nset \<and>
    (kr = KERN_NOT_IN_SET \<longleftrightarrow> nset = IPS_NULL \<and>
       (ip_pset p = IPS_NULL \<or> (\<exists>s. k_psets k (ip_pset p) = Some s \<and> \<not> ips_active s))) \<and>
    (kr = KERN_NOT_IN_SET \<or> kr = KERN_SUCCESS)"
  using assms(3) by (intro ipc_pset_move_ok [OF assms(1,2)]) blast

theorem pset_move_keeps_invariant_witness:
  "\<exists>k'. ipc_pset_move 0x3000 0x7000 pset_kernel = Some (KERN_SUCCESS, k') \<and> psets_ok one_other k'"
  using pset_move_keeps_invariant [OF pset_kernel_ok, of "0x3000" send_port "0x7000"]
  by (auto simp: IPS_NULL_def one_other_def)

text \<open>
  C26: destroying a port set makes it dead, takes every thread that waits on it out of its queue and
  wakes it, in order, with \<open>MACH_RCV_PORT_DIED\<close>, and keeps the
  invariant with one reference less; its memory is freed exactly when no port is a member and nobody
  else refers to it.
\<close>

theorem pset_destroy_keeps_invariant:
  assumes "psets_ok others k" and "k_psets k pset = Some s" and "0 < others pset"
  shows "\<exists>k'. ipc_pset_destroy pset k = Some k' \<and> psets_ok (others(pset := others pset - 1)) k' \<and>
    k_ports k' = k_ports k \<and>
    (case k_psets k' pset of
       None \<Rightarrow> members k pset = {} \<and> others pset = 1
     | Some s' \<Rightarrow> \<not> ips_active s' \<and> imq_messages (ips_messages s') = imq_messages (ips_messages s) \<and>
         imq_threads (ips_messages s') = []) \<and>
    k_events k' = k_events k @
      map (\<lambda>th. Thread_Go (th\<lparr>ith_state := MACH_RCV_PORT_DIED\<rparr>)) (imq_threads (ips_messages s))"
  by (rule ipc_pset_destroy_ok [OF assms])

theorem pset_destroy_keeps_invariant_witness:
  "\<exists>k'. ipc_pset_destroy 0x7000 pset_kernel = Some k' \<and> k_ports k' = k_ports pset_kernel"
  using pset_destroy_keeps_invariant [OF pset_kernel_ok, of "0x7000" some_pset]
  by (auto simp: one_other_def)

section \<open>Names given by the caller\<close>

text \<open>
  C27: \<open>ipc_entry_alloc_name\<close>, with nobody else running, returns.  It fails only when memory was
  refused, leaving the map alone; otherwise it hands out the entry of the name: with its capability
  when the name is in use, as a new entry without a right when it is not.  The one name excluded is
  treated below.
\<close>

theorem alloc_name_finds_or_adds:
  assumes "space_inv s g {}" and "is_active s" and "\<not> is_growing s" and "MACH_PORT_VALID n"
    and "\<not> (idx n = 0 \<and> MACH_PORT_GEN n = IE_BITS_GEN_MASK)"
    and "127 - is_table_next s + (if tree_entry then 0 else 1) < rounds"
  shows "\<exists>res st. ipc_entry_alloc_name rounds quiet avail tavail tree_entry n (s, g) = Some (res, st) \<and>
    alloc_name_ok n ((\<exists>its. \<not> avail its) \<or> \<not> tavail) (space_map s {}) res st"
  by (rule ipc_entry_alloc_name_quiet [OF assms])

theorem alloc_name_finds_or_adds_witness:
  "\<exists>res st. ipc_entry_alloc_name 128 quiet (\<lambda>_. True) True True 0x205 (boot_space, boot_hash) = Some (res, st)"
  using alloc_name_finds_or_adds [OF boot_space_inv, of "0x205" True 128 "\<lambda>_. True" True]
  by (auto simp: MACH_PORT_VALID_def MACH_PORT_NULL_def MACH_PORT_DEAD_def MACH_PORT_INDEX_def)

text \<open>
  The name \<open>0xff\<close> (index 0, with the generation of the reserved entry 0) is accepted by
  \<open>ipc_entry_alloc_name\<close>, which hands out a tree entry for it; but \<open>ipc_entry_lookup\<close> never finds the
  name, whatever is stored in that entry.
\<close>

theorem alloc_name_loses_ff:
  assumes "space_inv s g {}" and "is_active s"
  shows "\<exists>s'. ipc_entry_alloc_name (Suc rounds) env avail tavail True 0xff (s, g) = Some (Inr (TreeEntry 0xff), (s', g)) \<and>
    (\<forall>f. fst (ipc_entry_lookup 0xff (entry_store (TreeEntry 0xff) f s')) = None)"
  by (rule alloc_name_ff [where rounds = rounds and env = env and avail = avail and tavail = tavail, OF assms]) blast

theorem alloc_name_loses_ff_witness:
  "\<exists>s'. ipc_entry_alloc_name 1 quiet (\<lambda>_. True) True True 0xff (boot_space, boot_hash) = Some (Inr (TreeEntry 0xff), (s', boot_hash))"
  using alloc_name_loses_ff [OF boot_space_inv, of 0 quiet "\<lambda>_. True" True] by auto

section \<open>The data structures of a space\<close>

text \<open>
  C28: the splay tree, kept in the code's unassembled form, is equivalent to a sorted association list:
  lookup gives what the list holds and changes only the shape, insertion and deletion do what they do
  on the list.
\<close>

theorem splay_tree_is_sorted_list:
  assumes "splay_inv splay"
  shows "fst (ipc_splay_tree_lookup name splay) = splay_map splay name \<and>
    splay_list (snd (ipc_splay_tree_lookup name splay)) = splay_list splay \<and>
    splay_inv (snd (ipc_splay_tree_lookup name splay)) \<and>
    (if name \<in> fst ` set (splay_list splay)
     then splay_list (ipc_splay_tree_delete name splay) = filter (\<lambda>x. fst x \<noteq> name) (splay_list splay) \<and>
       splay_inv (ipc_splay_tree_delete name splay)
     else splay_list (ipc_splay_tree_insert name e splay) =
         filter (\<lambda>x. fst x < name) (splay_list splay) @ (name, e) # filter (\<lambda>x. name < fst x) (splay_list splay) \<and>
       splay_inv (ipc_splay_tree_insert name e splay))"
  using lookup_list [OF assms prod.collapse [symmetric]] insert_list [OF assms] delete_list [OF assms] by auto

theorem splay_tree_is_sorted_list_witness:
  "splay_list (ipc_splay_tree_insert 0x305 7 empty_splay) = [(0x305, 7)]"
  using splay_tree_is_sorted_list [of empty_splay "0x305" 7]
  by simp

text \<open>
  Splitting the tree at a name and joining the two parts again is a round trip: the parts are the
  names below and the names from there on, and the join has the original list and leaves the other
  tree empty.
\<close>

theorem splay_split_join:
  assumes "splay_inv splay" and "ipc_splay_tree_split name splay = (splay', small)"
  shows "splay_list small = filter (\<lambda>x. fst x < name) (splay_list splay) \<and>
    splay_list splay' = filter (\<lambda>x. name \<le> fst x) (splay_list splay) \<and>
    (case ipc_splay_tree_join splay' small of (joined, rest) \<Rightarrow>
       splay_list joined = splay_list splay \<and> splay_inv joined \<and> splay_list rest = [])"
proof -
  note S = split_splay_list [OF assms]
  obtain joined rest where j: "ipc_splay_tree_join splay' small = (joined, rest)" by fastforce
  have "\<forall>x\<in>set (splay_list small). \<forall>y\<in>set (splay_list splay'). fst x < fst y" using S(1,2) by auto
  note J = join_list [OF S(3,4) this j]
  have "splay_list small @ splay_list splay' = splay_list splay"
    unfolding S(1,2) using assms(1) by (intro split_strict_keys) (simp add: splay_inv_def)
  then show ?thesis using S J j by simp
qed

theorem splay_split_join_witness: "splay_list (snd (ipc_splay_tree_split 0x400 one_splay)) = [(0x305, 7)]"
  using splay_split_join [OF one_splay(1) prod.collapse [symmetric], of "0x400"] by simp

text \<open>
  The search for the neighbours of a name gives the largest name below or equal to it and the
  smallest above or equal to it, and changes only the shape of the tree.
\<close>

theorem splay_bounds_are_neighbours:
  assumes "splay_inv splay" and "ipc_splay_tree_bounds name splay = ((lower, upper), splay')"
  shows "lower = splay_lower name (splay_list splay) \<and> upper = splay_upper name (splay_list splay) \<and>
    splay_list splay' = splay_list splay \<and> splay_inv splay'"
  using bounds_list [OF assms] by blast

theorem splay_bounds_are_neighbours_witness:
  "snd (fst (ipc_splay_tree_bounds 0x400 empty_splay)) = splay_upper 0x400 (splay_list empty_splay)"
proof -
  obtain lower upper splay' where "ipc_splay_tree_bounds 0x400 empty_splay = ((lower, upper), splay')" by (metis prod.collapse)
  then show ?thesis using splay_bounds_are_neighbours [OF empty_splay(1)] by simp
qed

text \<open>
  Traversing the tree, with a body that may keep or delete each entry it is shown, visits every
  entry once in increasing order of names, for every body, and ends; it is equivalent to a sweep over
  the list.
\<close>

theorem splay_traversal_is_sweep:
  assumes "splay_inv splay"
  shows "\<exists>splay'. splay_traverse body s splay = Some (fst (sweep body s (splay_list splay)), splay') \<and>
    splay_list splay' = snd (sweep body s (splay_list splay)) \<and> splay_inv splay'"
  by (rule traverse_list [OF assms, of body s]) blast

theorem splay_traversal_is_sweep_witness:
  "\<exists>splay'. splay_traverse (\<lambda>c x. (c + snd x, True)) 0 one_splay = Some (7, splay') \<and> splay_list splay' = []"
  using splay_traversal_is_sweep [OF one_splay(1), of "\<lambda>c x. (c + snd x, True)" 0] by auto

text \<open>
  C29: the open-addressing table inside the entry table: inserting an index that is not filed returns,
  and a lookup of its object then finds it; deleting it again returns and leaves a table in which the
  object is not found.  The free slot that ends every probe is what makes the loops stop.
\<close>

theorem local_hash_insert_lookup_delete:
  assumes "hash_inv t S" and "i \<notin> S" and "0 < i" and "i < length t"
    and "inj_on (\<lambda>j. ie_object (t ! j)) (insert i S)"
  shows "\<exists>t'. ipc_hash_local_insert (ie_object (t ! i)) i t = Some t' \<and> hash_inv t' (insert i S) \<and>
    ipc_hash_local_lookup t' (ie_object (t ! i)) = Some (Some i) \<and>
    (\<exists>t''. ipc_hash_local_delete (ie_object (t ! i)) i t' = Some t'' \<and> hash_inv t'' S \<and>
       ipc_hash_local_lookup t'' (ie_object (t ! i)) = Some None)"
  by (rule local_hash_round [OF assms])

theorem local_hash_insert_lookup_delete_witness:
  "\<exists>t. ipc_hash_local_insert 0x3000 1 two_entries = Some t \<and> ipc_hash_local_lookup t 0x3000 = Some (Some 1)"
  using local_hash_insert_lookup_delete [OF two_entries_inv, of 1] by (auto simp: two_entries_def)

text \<open>
  C30: the chained table of tree entries: an insertion adds exactly its entry, a lookup finds an entry
  of that space and object exactly when the table has one (moving it to the front of its chain), and a
  deletion removes exactly the entry given.
\<close>

theorem global_hash_is_a_set:
  assumes "gh_inv g"
  shows "(case ipc_hash_global_lookup (is_addr s) obj g of (found, g') \<Rightarrow> gh_inv g' \<and> gh_entries g' = gh_entries g \<and>
      (case found of None \<Rightarrow> \<forall>e\<in>gh_entries g. \<not> chain_match (is_addr s) obj e
                   | Some e \<Rightarrow> e \<in> gh_entries g \<and> chain_match (is_addr s) obj e)) \<and>
    ((is_addr s, name) \<notin> gh_key ` gh_entries g \<longrightarrow>
       (\<exists>g'. ipc_hash_global_insert obj name s g = (s\<lparr>is_tree_hash := is_tree_hash s + 1\<rparr>, g') \<and> gh_inv g' \<and>
         gh_entries g' = insert \<lparr>ite_space = is_addr s, ite_name = name, ite_object = obj\<rparr> (gh_entries g))) \<and>
    (\<forall>e\<in>gh_entries g. ite_space e = is_addr s \<and> ite_object e = obj \<longrightarrow>
       (\<exists>g'. ipc_hash_global_delete obj (ite_name e) s g = (s\<lparr>is_tree_hash := is_tree_hash s - 1\<rparr>, g') \<and> gh_inv g' \<and>
         gh_entries g' = gh_entries g - {e}))"
proof -
  obtain found g' where L: "ipc_hash_global_lookup (is_addr s) obj g = (found, g')" "gh_inv g'" "gh_entries g' = gh_entries g"
      "case found of None \<Rightarrow> \<forall>e\<in>gh_entries g. \<not> chain_match (is_addr s) obj e
                   | Some e \<Rightarrow> e \<in> gh_entries g \<and> chain_match (is_addr s) obj e"
    by (rule ipc_hash_global_lookup_spec [OF assms])
  then show ?thesis
    using ipc_hash_global_insert_spec [OF assms, of s name obj] ipc_hash_global_delete_spec [OF assms, of _ s obj]
    by (auto simp del: One_nat_def; blast)
qed

theorem global_hash_is_a_set_witness:
  "\<exists>g. ipc_hash_global_insert 0x3000 0x305 boot_space boot_hash = (boot_space\<lparr>is_tree_hash := is_tree_hash boot_space + 1\<rparr>, g)"
  using global_hash_is_a_set [OF boot_hash_inv, of boot_space "0x3000" "0x305"] by (auto simp: gh_entries_def boot_hash_def)

text \<open>
  Setting up the global hash table ends: the loop that looks for a power of two finds the smallest
  one that is large enough, whatever size was configured, as long as it is at most \<open>2 ^ 31\<close>; the
  table is empty and well formed.
\<close>

theorem hash_init_ends:
  assumes "hash_init_size configured tree_entry_max \<le> 2 ^ 31"
  shows "\<exists>g k. ipc_hash_init configured tree_entry_max = Some g \<and> gh_inv g \<and> gh_entries g = {} \<and>
    unat (ipc_hash_global_size g) = 2 ^ k \<and> length (ipc_hash_global_table g) = 2 ^ k \<and>
    hash_init_size configured tree_entry_max \<le> ipc_hash_global_size g \<and>
    unat (ipc_hash_global_size g) < 2 * unat (hash_init_size configured tree_entry_max)"
  by (rule ipc_hash_init_size [OF assms])

theorem hash_init_ends_witness: "\<exists>g. ipc_hash_init 0 2048 = Some g \<and> gh_inv g"
  using hash_init_ends [of 0 2048] by (auto simp: hash_init_size_def)

text \<open>
  The macros that guard the 16-bit user-reference counts say exactly whether adding the signed
  32-bit delta leaves the range, although they compute with words that wrap.
\<close>

theorem urefs_guards_are_exact:
  "(uint urefs \<le> 65535 \<and> 0 < sint delta \<longrightarrow>
      (MACH_PORT_UREFS_OVERFLOW urefs delta \<longleftrightarrow> 65535 < uint urefs + sint delta)) \<and>
    (sint delta < 0 \<longrightarrow> (MACH_PORT_UREFS_UNDERFLOW urefs delta \<longleftrightarrow> uint urefs + sint delta < 0))"
  using MACH_PORT_UREFS_OVERFLOW_iff [of urefs delta] MACH_PORT_UREFS_UNDERFLOW_iff [of delta urefs]
    uint_u32_bounds [of delta]
  by (auto simp: sint_u32 split: if_splits)

theorem urefs_guards_are_exact_witness: "MACH_PORT_UREFS_OVERFLOW 65535 1 \<and> \<not> MACH_PORT_UREFS_UNDERFLOW 1 0xffffffff"
  using urefs_guards_are_exact [of 65535 1] urefs_guards_are_exact [of 1 "0xffffffff"] by (simp add: sint_u32)

text \<open>
  The time stamps of port deaths are ordered as the deaths happened, also across the wrap of the
  32-bit clock, as long as fewer than \<open>2 ^ 31\<close> deaths lie between them.
\<close>

theorem timestamps_are_ordered:
  assumes "0 < n" and "n < 2 ^ 31"
  shows "IP_TIMESTAMP_ORDER t (t + of_nat n) \<and> \<not> IP_TIMESTAMP_ORDER (t + of_nat n) t"
  using IP_TIMESTAMP_ORDER_iff [OF assms] by blast

theorem timestamps_are_ordered_witness: "IP_TIMESTAMP_ORDER 0xfffffffe 2"
  using timestamps_are_ordered [of 4 "0xfffffffe"] by (simp add: IP_TIMESTAMP_ORDER_def)

text \<open>
  C31: renaming a msg-accepted request files it under the new name and only there, and cancelling one
  takes it out of the table; no other request is affected.
\<close>

theorem marequest_rename_cancel:
  assumes "imar_ok t" and "imar_find t space old = Some a" and "new = old \<or> imar_find t space new = None"
  shows "\<exists>t'. ipc_marequest_rename space old new t = Some t' \<and> imar_ok t' \<and>
    (\<forall>sp n. imar_find t' sp n =
       (if sp = space \<and> n = new then Some a else if sp = space \<and> n = old then None else imar_find t sp n)) \<and>
    (\<exists>t''. ipc_marequest_cancel space new t' = Some t'' \<and> imar_ok t'' \<and>
       (\<forall>sp n. imar_find t'' sp n = (if sp = space \<and> n \<in> {old, new} then None else imar_find t sp n)))"
proof -
  obtain t' where t': "ipc_marequest_rename space old new t = Some t'" "imar_ok t'"
      "\<forall>sp n. imar_find t' sp n =
         (if sp = space \<and> n = new then Some a else if sp = space \<and> n = old then None else imar_find t sp n)"
    using ipc_marequest_rename_spec [OF assms] by blast
  moreover obtain t'' where "ipc_marequest_cancel space new t' = Some t''" "imar_ok t''"
      "\<forall>sp n. imar_find t'' sp n = (if sp = space \<and> n = new then None else imar_find t' sp n)"
    using ipc_marequest_cancel_spec [OF t'(2), of space new a] t'(3) by auto
  ultimately show ?thesis by auto
qed

theorem marequest_rename_cancel_witness:
  "\<exists>t'. ipc_marequest_rename 0x1000 0x100 0x200 one_marequest = Some t' \<and> imar_find t' 0x1000 0x200 = Some 0xa000"
  using marequest_rename_cancel [OF one_marequest_ok, of "0x1000" "0x100" "0xa000" "0x200"] by (auto simp: one_marequest_find)

section \<open>Virtual memory\<close>

text \<open>
  C32: in every state that the operations on pages reach from the boot of the system, each called as
  its callers may, the table of pages and the queues agree with the pages: a lookup finds a page
  exactly when the page is entered at that object and offset, every object lists and counts its pages,
  a page is in the queue its flags name and in no other, free pages are nowhere else, wired pages in no
  queue, and the five counts are the numbers of pages.
\<close>

theorem physical_memory_stays_consistent:
  assumes "page_reachable s"
  shows "queues_ok s \<and> memq_ok s \<and> (\<forall>object offset m. vm_page_lookup object offset s = Some m \<longleftrightarrow> place s m = Some (object, offset))"
proof -
  from page_reachable_inv [OF assms] have "table_ok s" "queues_ok s" by (simp_all add: pages_inv_def)
  then show ?thesis using vm_page_lookup_spec by (auto simp: table_ok_def)
qed

theorem physical_memory_stays_consistent_witness:
  "vm_page_lookup 512 16384 memory = Some 48 \<longleftrightarrow> place memory 48 = Some (512, 16384)"
  using physical_memory_stays_consistent [OF memory_reachable] by blast

text \<open>
  C33: allocating a page for an object enters it at the offset and nowhere else, and every other lookup
  stays; freeing it afterwards restores every lookup and leaves the page free.
\<close>

theorem page_alloc_free_roundtrip:
  assumes "page_reachable s" and "vm_objects s object \<noteq> None" and "vm_page_lookup object offset s = None"
    and "vm_page_alloc privileged object offset s = Some (Some m, s1)"
  shows "(\<forall>a off. vm_page_lookup a off s1 = (if (a, off) = (object, offset) then Some m else vm_page_lookup a off s)) \<and>
    (\<exists>s2 r. vm_page_free m s1 = Some s2 \<and> (\<forall>a off. vm_page_lookup a off s2 = vm_page_lookup a off s) \<and>
      vm_pages s2 m = Some r \<and> vp_free r \<and> queues_ok s2)"
  using vm_page_alloc_free [OF page_reachable_inv [OF assms(1)] assms(2-4)] .

theorem page_alloc_free_roundtrip_witness:
  "\<exists>m s1 s2. vm_page_alloc False 512 0 memory = Some (Some m, s1) \<and> vm_page_lookup 512 0 s1 = Some m \<and>
     vm_page_free m s1 = Some s2 \<and> vm_page_lookup 512 0 s2 = None"
proof -
  have n: "vm_page_lookup 512 0 memory = None" by (simp add: memory_def vm_page_lookup_def vm_page_hash_def page_shift_def vm_page_init_def)
  obtain s1 where a: "vm_page_alloc False 512 0 memory = Some (Some 16, s1)" using memory_alloc by blast
  show ?thesis using page_alloc_free_roundtrip [OF memory_reachable _ n a] a n by (auto simp: memory_objects)
qed

text \<open>
  C34: collapsing a chain of shadows never changes what memory shows.  From a well-formed state
  \<open>vm_object_collapse\<close> returns, and every object that is left reads, at every offset within its size, the
  same page, pager data or zeros as before, whatever data the pagers have.
\<close>

theorem collapse_keeps_what_objects_show:
  assumes "chains_inv s" and "chain n object s" and "refs_below s n"
  shows "\<exists>s'. vm_object_collapse cache_free object s = Some s' \<and> chains_inv s' \<and> vm_objects s' object \<noteq> None \<and>
    (\<forall>a oa oa' off c. vm_objects s' a = Some oa' \<longrightarrow> vm_objects s a = Some oa \<longrightarrow> off < ob_size oa \<longrightarrow>
       ob_size oa' = ob_size oa \<and> (reads has s' a off c \<longleftrightarrow> reads has s a off c))"
proof -
  obtain ob where "vm_objects s object = Some ob" using assms(2) by (cases n) auto
  from vm_object_collapse_spec [OF assms this, of cache_free has] show ?thesis by blast
qed

theorem collapse_keeps_what_objects_show_witness:
  "\<exists>s'. vm_object_collapse True 256 memory = Some s' \<and> reads (\<lambda>_ _. False) s' 256 8192 (In_Frame 24576)"
proof -
  have "refs_below memory 1" by (auto simp: refs_below_def memory_def vm_object_template_def split: if_splits)
  from collapse_keeps_what_objects_show [OF memory_chains memory_chain(1) this [folded One_nat_def [symmetric]], of True "\<lambda>_ _. False"]
  obtain s' ob where s': "vm_object_collapse True 256 memory = Some s'" "vm_objects s' 256 = Some ob"
      "\<forall>a oa oa' off c. vm_objects s' a = Some oa' \<longrightarrow> vm_objects memory a = Some oa \<longrightarrow> off < ob_size oa \<longrightarrow>
         ob_size oa' = ob_size oa \<and> (reads (\<lambda>_ _. False) s' a off c \<longleftrightarrow> reads (\<lambda>_ _. False) memory a off c)" by auto
  with memory_reads memory_objects(1) show ?thesis by (auto simp: vm_object_template_def)
qed

text \<open>
  C35: \<open>vm_object_page_remove\<close> either looks up every page of the range or goes through all pages of the
  object, by a rule of thumb.  On aligned ranges both ways, and so the routine, remove exactly the pages
  of the object in the range.
\<close>

theorem page_remove_strategies_agree:
  assumes "pages_inv s" and "none_absent s" and "page_aligned s object" and "vm_objects s object = Some ob"
    and "unat first mod 8192 = 0" and "unat last' mod 8192 = 0"
  shows "\<exists>s1 s2 s3. page_remove_lookup object first last' s = Some s1 \<and> place s1 = cleared s object first last' \<and>
    page_remove_iterate (ob_memq ob) first last' s = Some s2 \<and> place s2 = cleared s object first last' \<and>
    vm_object_page_remove object first last' s = Some s3 \<and> s3 \<in> {s1, s2} \<and> pages_inv s3"
  using page_remove_both [OF assms] .

theorem page_remove_strategies_agree_witness:
  "\<exists>s. vm_object_page_remove 512 16384 24576 memory = Some s \<and> place s 48 = None"
proof -
  have "page_aligned memory 512" by (auto simp: page_aligned_def memory_place split: if_splits)
  from page_remove_strategies_agree [OF memory_inv chains_invD(8) [OF memory_chains] this memory_objects(2), of 16384 24576]
  show ?thesis by (auto simp: cleared_def memory_place)
qed

text \<open>
  C36: an object is extended exactly when nobody else can see it, and memory gained so reads as zeros.
  \<open>vm_object_coalesce\<close> first collapses the object; it then extends it just when the collapsed object has one
  reference, no data with a pager, no object below it and no copy made of it, and so no object that
  shadows it.  The new range then shows zeros, also where pages of an earlier use were left, and everything
  else reads as before; when it refuses, it has only collapsed, and all reads as before.  The caller holds a
  reference besides those of the objects that shadow it, and the count, a signed short, is not negative.
\<close>

theorem coalesced_memory_reads_zero:
  assumes "chains_inv s" and "chain n prev s" and "refs_below s n" and "vm_objects s prev = Some ob"
    and "int (card (shadowers s prev)) < sint (ob_ref_count ob)" and "all_aligned s"
    and "unat (prev_offset + prev_size) mod 8192 = 0" and "unat (prev_offset + prev_size + next_size) mod 8192 = 0"
  shows "\<exists>s1 ob1 r s' ob'. vm_object_collapse cache_free prev s = Some s1 \<and> vm_objects s1 prev = Some ob1 \<and>
    vm_object_coalesce cache_free prev 0 prev_offset prev_size next_size s = Some (r, s') \<and>
    (r \<longleftrightarrow> ob_ref_count ob1 = 1 \<and> \<not> ob_pager_created ob1 \<and> ob_shadow ob1 = 0 \<and> ob_copy ob1 = 0) \<and>
    vm_objects s' prev = Some ob' \<and> (\<not> r \<longrightarrow> s' = s1) \<and>
    (r \<longrightarrow> ob_ref_count ob' = 1 \<and> shadowers s' prev = {} \<and> \<not> ob_pager_created ob' \<and> ob_shadow ob' = 0 \<and> ob_copy ob' = 0) \<and>
    (\<forall>a oa off c. vm_objects s' a \<noteq> None \<longrightarrow> vm_objects s a = Some oa \<longrightarrow> off < ob_size oa \<longrightarrow>
       (r \<longrightarrow> a = prev \<longrightarrow> off < prev_offset + prev_size) \<longrightarrow> (reads has s' a off c \<longleftrightarrow> reads has s a off c)) \<and>
    (r \<longrightarrow> prev_offset + prev_size + next_size \<le> ob_size ob' \<and>
       (\<forall>off. prev_offset + prev_size \<le> off \<longrightarrow> off < prev_offset + prev_size + next_size \<longrightarrow> reads has s' prev off Zero_Fill))"
  using vm_object_coalesce_spec [OF assms(1-6) refl assms(7) refl assms(8), of cache_free has] unfolding nobody_sees_def by blast

theorem coalesced_memory_reads_zero_witness:
  "\<exists>s' ob'. vm_object_coalesce True 256 0 0 8192 8192 memory = Some (True, s') \<and>
     vm_objects s' 256 = Some ob' \<and> shadowers s' 256 = {} \<and> reads (\<lambda>_ _. True) s' 256 8192 Zero_Fill"
proof -
  have "refs_below memory 1" by (auto simp: refs_below_def memory_def vm_object_template_def split: if_splits)
  from coalesced_memory_reads_zero [OF memory_chains memory_chain(1) this [folded One_nat_def [symmetric]] memory_objects(1) _ memory_aligned,
      of 0 8192 8192 True "\<lambda>_ _. True"]
  show ?thesis using memory_coalesce by (auto simp: memory_shadowers vm_object_template_def)
qed

end
